(* ===== verification/Prelude.thy ===== *)
theory Prelude
  imports Main "HOL-Library.Word"
begin

unbundle bit_operations_syntax

text \<open>
  Shared vocabulary of the development: the machine-integer types of the C++ code, its
  errors as values, byte-order conversions, and the generic facts on lists and words that
  several components use.
\<close>

section \<open>Machine integers and bytes\<close>

type_synonym byte = "8 word"
type_synonym u16 = "16 word"
type_synonym u32 = "32 word"
type_synonym u64 = "64 word"

named_theorems ext_defs \<open>unfolding of small operations, for evaluating and case-splitting them\<close>
named_theorems wf \<open>facts that an operation keeps an invariant\<close>

text \<open>
  The errors the modelled code raises (\<open>Throw\<close> with an error code, or a standard
  exception).  \<open>OutOfBounds\<close> stands for a read or write outside a buffer, which the C++ code
  does not check: the behaviour there is undefined, and the model makes it visible; so do
  \<open>NullPointer\<close> and \<open>UseAfterFree\<close> for pointers that are null or whose block has been freed,
  and \<open>Overflow\<close>, besides the exception of that name, for a result that does not fit an \<open>int\<close>.
\<close>

datatype ext_error =
    E_FAIL | E_NOTIMPL | E_INVALIDARG | InvalidArgument
  | InvalidUTF8String | EndOfStream | Padding | Crypto | DerivedKeyTooLong
  | Overflow | DivideByZero | IndexOutOfRange | UnknownHostAddressType
  | InvalidExtendOfNumber | PROXY_VeryLongLine | OutOfBounds
  | LogicError | XMLError | ArgumentOutOfRange | LengthError | FormatError | NullPointer
  | UseAfterFree

type_synonym 'a res = "ext_error + 'a"

definition bind_res :: "'a res \<Rightarrow> ('a \<Rightarrow> 'b res) \<Rightarrow> 'b res" where
  "bind_res r f = (case r of Inl e \<Rightarrow> Inl e | Inr x \<Rightarrow> f x)"

lemma bind_res_simps [simp]:
  "bind_res (Inl e) f = Inl e"
  "bind_res (Inr x) f = f x"
  by (simp_all add: bind_res_def)

section \<open>Byte order\<close>

definition le_word :: "byte list \<Rightarrow> 'a::len word" where
  "le_word bs = foldr (\<lambda>b acc. push_bit 8 acc OR ucast b) bs 0"

definition be_word :: "byte list \<Rightarrow> 'a::len word" where
  "be_word bs = le_word (rev bs)"

abbreviation le32 :: "byte list \<Rightarrow> u32" where "le32 \<equiv> le_word"
abbreviation le64 :: "byte list \<Rightarrow> u64" where "le64 \<equiv> le_word"
abbreviation be32 :: "byte list \<Rightarrow> u32" where "be32 \<equiv> be_word"
abbreviation be64 :: "byte list \<Rightarrow> u64" where "be64 \<equiv> be_word"

definition bytes_le :: "nat \<Rightarrow> 'a::len word \<Rightarrow> byte list" where
  "bytes_le n w = map (\<lambda>i. ucast (drop_bit (8 * i) w)) [0..<n]"

definition bytes_be :: "nat \<Rightarrow> 'a::len word \<Rightarrow> byte list" where
  "bytes_be n w = rev (bytes_le n w)"

lemma length_bytes_le [simp]: "length (bytes_le n w) = n"
  by (simp add: bytes_le_def)

lemma length_bytes_be [simp]: "length (bytes_be n w) = n"
  by (simp add: bytes_be_def)

lemma bit_byte_less: "bit (b :: byte) i \<Longrightarrow> i < 8"
  using bit_imp_le_length by fastforce

lemma bit_le_word:
  "bit (le_word bs :: 'a::len word) i \<longleftrightarrow>
     i < LENGTH('a) \<and> i div 8 < length bs \<and> bit (bs ! (i div 8)) (i mod 8)"
proof (induction bs arbitrary: i)
  case Nil
  then show ?case by (simp add: le_word_def)
next
  case (Cons b bs)
  have eq: "(le_word (b # bs) :: 'a word) = push_bit 8 (le_word bs) OR ucast b"
    by (simp add: le_word_def)
  show ?case
  proof (cases "i < 8")
    case True
    then show ?thesis by (auto simp: eq bit_simps dest: bit_imp_le_length)
  next
    case False
    then obtain j where i: "i = j + 8" by (metis le_add_diff_inverse2 not_less)
    have "(j + 8) div 8 = Suc (j div 8)" "(j + 8) mod 8 = j mod 8" by simp_all
    then show ?thesis
      unfolding eq i by (auto simp: bit_simps Cons.IH dest: bit_byte_less)
  qed
qed

lemma bit_bytes_le:
  "i < n \<Longrightarrow> bit (bytes_le n w ! i) j \<longleftrightarrow> j < 8 \<and> bit w (8 * i + j)"
  by (auto simp: bytes_le_def bit_simps)

lemma le_word_bytes_le [simp]:
  fixes w :: "'a::len word"
  assumes "8 * n = LENGTH('a)"
  shows "le_word (bytes_le n w) = w"
proof (rule bit_word_eqI)
  fix i
  assume "i < LENGTH('a)"
  moreover from this have "i div 8 < n" using assms by (simp add: less_mult_imp_div_less mult.commute)
  ultimately show "bit (le_word (bytes_le n w) :: 'a word) i = bit w i"
    by (simp add: bit_le_word bit_bytes_le)
qed

lemma be_word_bytes_be [simp]:
  fixes w :: "'a::len word"
  shows "8 * n = LENGTH('a) \<Longrightarrow> be_word (bytes_be n w) = w"
  by (simp add: be_word_def bytes_be_def)

lemma bytes_le_le_word [simp]:
  assumes "8 * length bs \<le> LENGTH('a::len)"
  shows "bytes_le (length bs) (le_word bs :: 'a word) = bs"
proof (rule nth_equalityI)
  fix i
  assume i: "i < length (bytes_le (length bs) (le_word bs :: 'a word))"
  show "bytes_le (length bs) (le_word bs :: 'a word) ! i = bs ! i"
    using i assms
    by (intro bit_word_eqI) (auto simp: bit_bytes_le bit_le_word)
qed simp

lemma bytes_be_be_word [simp]:
  assumes "8 * length bs \<le> LENGTH('a::len)"
  shows "bytes_be (length bs) (be_word bs :: 'a word) = bs"
  using bytes_le_le_word [of "rev bs", where 'a = 'a] assms
  by (simp add: bytes_be_def be_word_def)

section \<open>Lists read and written by index\<close>

lemma list_split_len:
  assumes "length xs = Suc n"
  obtains x ys where "xs = x # ys" and "length ys = n"
  using assms by (cases xs) auto

text \<open>Cutting a byte string into blocks of a fixed size; the last block may be short.\<close>

function chunks :: "nat \<Rightarrow> 'a list \<Rightarrow> 'a list list" where
  "chunks n xs = (if xs = [] \<or> n = 0 then [] else take n xs # chunks n (drop n xs))"
  by pat_completeness auto
termination by (relation "measure (\<lambda>(n, xs). length xs)") auto

declare chunks.simps [simp del]

lemma chunks_Nil [simp]: "chunks n [] = []"
  by (subst chunks.simps) simp

lemma chunks_append:
  assumes "length b = n" and "0 < n"
  shows "chunks n (b @ xs) = b # chunks n xs"
  using assms by (subst chunks.simps) auto

lemma chunks_dvd:
  assumes "0 < n" and "n dvd length xs"
  shows "length (chunks n xs) = length xs div n" and "b \<in> set (chunks n xs) \<Longrightarrow> length b = n"
proof -
  have "length (chunks n xs) = length xs div n \<and> (\<forall>b\<in>set (chunks n xs). length b = n)"
    using assms
  proof (induction "length xs div n" arbitrary: xs)
    case 0
    then have "xs = []" by (auto elim!: dvdE)
    then show ?case by simp
  next
    case (Suc k)
    have le: "n \<le> length xs" using Suc.hyps(2) by (cases "length xs < n") simp_all
    define ys zs where "ys = take n xs" and "zs = drop n xs"
    have xs: "xs = ys @ zs" and len: "length ys = n" using le by (simp_all add: ys_def zs_def)
    have zs: "n dvd length zs" "k = length zs div n"
      using Suc.prems Suc.hyps(2) by (simp_all add: xs len)
    have "length (chunks n zs) = k" "\<forall>b\<in>set (chunks n zs). length b = n"
      using Suc.hyps(1) [OF zs(2) Suc.prems(1) zs(1)] zs(2) by simp_all
    then show ?case
      using Suc.prems(1) zs(2) len unfolding xs chunks_append [OF len Suc.prems(1)]
      by (simp add: div_add_self1)
  qed
  then show "length (chunks n xs) = length xs div n" and "b \<in> set (chunks n xs) \<Longrightarrow> length b = n"
    by simp_all
qed

lemma concat_chunks: "0 < n \<Longrightarrow> concat (chunks n xs) = xs"
proof (induction n xs rule: chunks.induct)
  case (1 n xs)
  then show ?case by (subst chunks.simps) auto
qed

section \<open>Words\<close>

lemma xor_eq_zero_iff [simp]: "a XOR b = 0 \<longleftrightarrow> a = b" for a b :: "'a::len word"
proof
  assume "a XOR b = 0"
  then have "(a XOR b) XOR b = 0 XOR b" by simp
  then show "a = b" by (simp add: xor.assoc)
qed simp

lemma xor_right_cancel [simp]: "a XOR c = b XOR c \<longleftrightarrow> a = b" for a b c :: "'a::len word"
proof
  assume "a XOR c = b XOR c"
  then have "(a XOR c) XOR c = (b XOR c) XOR c" by simp
  then show "a = b" by (simp add: xor.assoc)
qed simp

lemma xor_left_cancel [simp]: "c XOR a = c XOR b \<longleftrightarrow> a = b" for a b c :: "'a::len word"
  using xor_right_cancel [of a c b] by (simp add: xor.commute)

lemma unat_and_mask_less: "unat (x AND mask n) < 2 ^ n" for x :: "'a::len word"
proof -
  have "unat (x AND mask n) = take_bit n (unat x)"
    by (simp add: take_bit_eq_mask [symmetric] unsigned_take_bit_eq)
  then show ?thesis by simp
qed

section \<open>Folds\<close>

lemma fold_refine:
  assumes "R s t" and "\<And>i s t. i \<in> set xs \<Longrightarrow> R s t \<Longrightarrow> R (f i s) (g i t)"
  shows "R (fold f xs s) (fold g xs t)"
  using assms by (induction xs arbitrary: s t) simp_all

lemma fold_inv:
  assumes "P s" and "\<And>i s. i \<in> set xs \<Longrightarrow> P s \<Longrightarrow> P (f i s)"
  shows "P (fold f xs s)"
  using assms by (induction xs arbitrary: s) simp_all

text \<open>A loop over a list whose body may raise.\<close>

fun fold_res :: "('a \<Rightarrow> 's \<Rightarrow> 's res) \<Rightarrow> 'a list \<Rightarrow> 's \<Rightarrow> 's res" where
  "fold_res f [] s = Inr s"
| "fold_res f (x # xs) s = bind_res (f x s) (fold_res f xs)"

lemma fold_res_append: "fold_res f (xs @ ys) s = bind_res (fold_res f xs s) (fold_res f ys)"
  by (induction xs arbitrary: s) (simp_all add: bind_res_def split: sum.split)

lemma fold_res_Inr:
  assumes "P s" and "\<And>x s. x \<in> set xs \<Longrightarrow> P s \<Longrightarrow> f x s = Inr (g x s) \<and> P (g x s)"
  shows "fold_res f xs s = Inr (fold g xs s)" and "P (fold g xs s)"
  using assms by (induction xs arbitrary: s) auto

section \<open>Results of type int\<close>

text \<open>
  A product or sum of non-negative \<open>int\<close>s.  Signed overflow is undefined in C++, and the model
  stops there.
\<close>

definition fits_int :: "nat \<Rightarrow> nat res" where
  "fits_int x = (if x < 2 ^ 31 then Inr x else Inl Overflow)"

lemma fits_int_Inr [simp]: "x < 2 ^ 31 \<Longrightarrow> fits_int x = Inr x"
  by (simp add: fits_int_def)

lemma fits_int_Inl [simp]: "2 ^ 31 \<le> x \<Longrightarrow> fits_int x = Inl Overflow"
  by (simp add: fits_int_def)

lemma sint_unat:
  fixes w :: u32
  assumes "unat w < 2 ^ 31"
  shows "sint w = int (unat w)"
proof -
  have "sint w = signed_take_bit 31 (int (unat w))" by (simp add: sint_uint)
  also have "\<dots> = int (unat w)"
  proof (rule signed_take_bit_int_eq_self)
    have "int (unat w) < int (2 ^ 31)" using assms by (simp only: of_nat_less_iff)
    then show "int (unat w) < 2 ^ 31" by (simp only: of_nat_power of_nat_numeral)
    have "- (2 ^ 31) \<le> (0 :: int)" by simp
    then show "- (2 ^ 31) \<le> int (unat w)" by (rule order_trans) (rule of_nat_0_le_iff)
  qed
  finally show ?thesis .
qed

end
