(* ===== verification/Streams.thy ===== *)
theory Streams
  imports Prelude
begin

text \<open>
  The byte streams of \<open>src/libext/ext-stream.cpp\<close>, \<open>src/libext/stream.h\<close> and
  \<open>src/libext/ext-core.h\<close>: memory streams, the buffering adapter \<open>BufferedStream\<close>, the
  loops \<open>Stream::ReadExactly\<close> and \<open>Stream::CopyTo\<close> that work over any stream, and the
  line and header readers.  A stream is a state and a \<open>Read\<close> operation; the locale
  \<open>stream\<close> states what every client relies on, and each stream class interprets it.
\<close>

section \<open>Operations over any stream\<close>

type_synonym 's reader = "'s \<Rightarrow> nat \<Rightarrow> byte list \<times> 's"

text \<open>\<open>Stream::ReadByte\<close>: \<open>None\<close> is the code's -1.\<close>

definition Stream_ReadByte :: "'s reader \<Rightarrow> 's \<Rightarrow> byte option \<times> 's" where
  "Stream_ReadByte read s =
     (case read s 1 of (bs, s') \<Rightarrow> (case bs of [] \<Rightarrow> None | b # _ \<Rightarrow> Some b, s'))"

text \<open>\<open>Stream::ReadExactly\<close>: repeats \<open>Read\<close> until \<open>count\<close> bytes are in, or one read gives none.\<close>

function Stream_ReadExactly :: "'s reader \<Rightarrow> 's \<Rightarrow> nat \<Rightarrow> byte list res \<times> 's" where
  "Stream_ReadExactly read s count =
     (if count = 0 then (Inr [], s)
      else case read s count of (bs, s') \<Rightarrow>
        if bs = [] then (Inl EndOfStream, s')
        else case Stream_ReadExactly read s' (count - length bs) of
            (Inr rest, s'') \<Rightarrow> (Inr (bs @ rest), s'')
          | (Inl e, s'') \<Rightarrow> (Inl e, s''))"
  by pat_completeness auto
termination
  by (relation "measure (\<lambda>(read, s, count). count)") auto

declare Stream_ReadExactly.simps [simp del]

text \<open>\<open>Stream::CopyTo\<close>: the bytes written to the destination, \<open>None\<close> while it never stops.\<close>

partial_function (option) Stream_CopyTo ::
    "'s reader \<Rightarrow> 's \<Rightarrow> nat \<Rightarrow> byte list \<Rightarrow> (byte list \<times> 's) option" where
  "Stream_CopyTo read s bufsize acc =
     (case read s bufsize of (bs, s') \<Rightarrow>
        if bs = [] then Some (acc, s') else Stream_CopyTo read s' bufsize (acc @ bs))"

declare Stream_CopyTo.simps [code]

section \<open>The interface\<close>

text \<open>
  \<open>content s\<close> is what is still to be read.  A read returns a prefix of it, at most as long as
  asked for, and returns nothing only at the end.
\<close>

locale stream =
  fixes read :: "'s \<Rightarrow> nat \<Rightarrow> byte list \<times> 's"
    and content :: "'s \<Rightarrow> byte list"
    and inv :: "'s \<Rightarrow> bool"
  assumes read_inv: "inv s \<Longrightarrow> read s n = (bs, s') \<Longrightarrow> inv s'"
    and read_content: "inv s \<Longrightarrow> read s n = (bs, s') \<Longrightarrow> content s = bs @ content s'"
    and read_length: "inv s \<Longrightarrow> read s n = (bs, s') \<Longrightarrow> length bs \<le> n"
    and read_empty: "inv s \<Longrightarrow> read s n = ([], s') \<Longrightarrow> n = 0 \<or> content s = []"
begin

lemma ReadExactly_ok:
  assumes "inv s" and "n \<le> length (content s)"
  shows "\<exists>s'. Stream_ReadExactly read s n = (Inr (take n (content s)), s')
           \<and> inv s' \<and> content s' = drop n (content s)"
  using assms
proof (induction n arbitrary: s rule: less_induct)
  case (less n)
  show ?case
  proof (cases "n = 0")
    case True
    then show ?thesis using less.prems by (simp add: Stream_ReadExactly.simps [of _ s])
  next
    case False
    obtain bs s' where rd: "read s n = (bs, s')" by (cases "read s n") auto
    note facts = read_inv [OF less.prems(1) rd] read_content [OF less.prems(1) rd]
      read_length [OF less.prems(1) rd]
    have ne: "bs \<noteq> []"
      using read_empty [OF less.prems(1)] rd False less.prems(2) by fastforce
    then have "n - length bs < n" using False by simp
    moreover have "n - length bs \<le> length (content s')"
      using less.prems(2) facts(2) by simp
    ultimately obtain s'' where
      "Stream_ReadExactly read s' (n - length bs) = (Inr (take (n - length bs) (content s')), s'')"
      "inv s''" "content s'' = drop (n - length bs) (content s')"
      using less.IH facts(1) by blast
    then show ?thesis
      using False ne rd facts(2,3) by (simp add: Stream_ReadExactly.simps [of _ s n])
  qed
qed

lemma ReadExactly_eof:
  assumes "inv s" and "length (content s) < n"
  shows "\<exists>s'. Stream_ReadExactly read s n = (Inl EndOfStream, s') \<and> inv s' \<and> content s' = []"
  using assms
proof (induction n arbitrary: s rule: less_induct)
  case (less n)
  obtain bs s' where rd: "read s n = (bs, s')" by (cases "read s n") auto
  note facts = read_inv [OF less.prems(1) rd] read_content [OF less.prems(1) rd]
  show ?case
  proof (cases "bs = []")
    case True
    then have "content s = []"
      using read_empty [OF less.prems(1)] rd less.prems(2) by fastforce
    then show ?thesis
      using True rd facts less.prems(2) by (simp add: Stream_ReadExactly.simps [of _ s n])
  next
    case False
    then have lt: "n - length bs < n" using less.prems(2) by (cases n) auto
    have "length (content s') < n - length bs"
      using less.prems(2) facts(2) by simp
    then obtain s'' where
      "Stream_ReadExactly read s' (n - length bs) = (Inl EndOfStream, s'')"
      "inv s''" "content s'' = []"
      using less.IH [OF lt facts(1)] by blast
    then show ?thesis
      using False rd less.prems(2) by (simp add: Stream_ReadExactly.simps [of _ s n])
  qed
qed

lemma ReadByte_content:
  assumes "inv s"
  shows "\<exists>s'. Stream_ReadByte read s
           = (case content s of [] \<Rightarrow> None | b # _ \<Rightarrow> Some b, s')
         \<and> inv s' \<and> content s' = tl (content s)"
proof -
  obtain bs s' where rd: "read s 1 = (bs, s')" by (cases "read s 1") auto
  note facts = read_inv [OF assms rd] read_content [OF assms rd] read_length [OF assms rd]
  show ?thesis
  proof (cases bs)
    case Nil
    then have "content s = []" using read_empty [OF assms] rd by fastforce
    then show ?thesis using Nil rd facts by (simp add: Stream_ReadByte_def)
  next
    case (Cons b t)
    then show ?thesis using rd facts by (simp add: Stream_ReadByte_def)
  qed
qed

lemma CopyTo_all:
  assumes "inv s" and "0 < bufsize"
  shows "\<exists>s'. Stream_CopyTo read s bufsize acc = Some (acc @ content s, s')
           \<and> inv s' \<and> content s' = []"
  using assms(1)
proof (induction "length (content s)" arbitrary: s acc rule: less_induct)
  case less
  obtain bs s' where rd: "read s bufsize = (bs, s')" by (cases "read s bufsize") auto
  note facts = read_inv [OF less.prems rd] read_content [OF less.prems rd]
  show ?case
  proof (cases "bs = []")
    case True
    then have "content s = []" using read_empty [OF less.prems] rd assms(2) by fastforce
    then show ?thesis using True rd facts by (subst Stream_CopyTo.simps) simp
  next
    case False
    then have "length (content s') < length (content s)" using facts(2) by simp
    from less.hyps [OF this facts(1), of "acc @ bs"] show ?thesis
      using False rd facts(2) by (subst Stream_CopyTo.simps) simp
  qed
qed

end

section \<open>Memory streams\<close>

text \<open>
  \<open>CMemReadStream\<close> and \<open>CMemWriteStream\<close> over a fixed span.  A \<open>size_t\<close> is a natural number
  below \<open>2 ^ 64\<close>; \<open>Seek\<close> adds a signed offset and wraps, as the conversion to \<open>uint64_t\<close> does.
\<close>

record mem_stream =
  m_mb :: "byte list"
  m_pos :: nat

datatype SeekOrigin = Begin | Current | End

definition CMemReadStream :: "byte list \<Rightarrow> mem_stream" where
  "CMemReadStream mb = \<lparr>m_mb = mb, m_pos = 0\<rparr>"

definition CMemReadStream_Read :: "mem_stream \<Rightarrow> nat \<Rightarrow> byte list \<times> mem_stream" where
  "CMemReadStream_Read s count =
     (let r = min count (length (m_mb s) - m_pos s)
      in (take r (drop (m_pos s) (m_mb s)), s\<lparr>m_pos := m_pos s + r\<rparr>))"

definition CMemReadStream_ReadBufferAhead :: "mem_stream \<Rightarrow> nat \<Rightarrow> byte list res" where
  "CMemReadStream_ReadBufferAhead s count =
     (if count > length (m_mb s) - m_pos s then Inl EndOfStream
      else Inr (take count (drop (m_pos s) (m_mb s))))"

definition CMemReadStream_ReadExactly :: "mem_stream \<Rightarrow> nat \<Rightarrow> byte list res \<times> mem_stream" where
  "CMemReadStream_ReadExactly s count =
     (if count > length (m_mb s) - m_pos s then (Inl EndOfStream, s)
      else (Inr (take count (drop (m_pos s) (m_mb s))), s\<lparr>m_pos := m_pos s + count\<rparr>))"

definition CMemReadStream_ReadByte :: "mem_stream \<Rightarrow> byte option \<times> mem_stream" where
  "CMemReadStream_ReadByte s =
     (if m_pos s < length (m_mb s)
      then (Some (m_mb s ! m_pos s), s\<lparr>m_pos := m_pos s + 1\<rparr>) else (None, s))"

definition CMemReadStream_put_Position :: "mem_stream \<Rightarrow> nat \<Rightarrow> mem_stream res" where
  "CMemReadStream_put_Position s pos =
     (if pos > length (m_mb s) then Inl E_FAIL else Inr (s\<lparr>m_pos := pos\<rparr>))"

definition CMemReadStream_Eof :: "mem_stream \<Rightarrow> bool" where
  "CMemReadStream_Eof s \<longleftrightarrow> m_pos s = length (m_mb s)"

definition Seek_target :: "nat \<Rightarrow> nat \<Rightarrow> int \<Rightarrow> SeekOrigin \<Rightarrow> nat" where
  "Seek_target pos len offset origin =
     nat ((case origin of Begin \<Rightarrow> offset | Current \<Rightarrow> int pos + offset | End \<Rightarrow> int len + offset)
          mod 2 ^ 64)"

definition MemStream_Seek :: "mem_stream \<Rightarrow> int \<Rightarrow> SeekOrigin \<Rightarrow> (nat \<times> mem_stream) res" where
  "MemStream_Seek s offset origin =
     (case CMemReadStream_put_Position s
             (Seek_target (m_pos s) (length (m_mb s)) offset origin) of
        Inl e \<Rightarrow> Inl e | Inr s' \<Rightarrow> Inr (m_pos s', s'))"

definition CMemWriteStream_WriteBuffer :: "mem_stream \<Rightarrow> byte list \<Rightarrow> mem_stream res" where
  "CMemWriteStream_WriteBuffer s buf =
     (if length buf > length (m_mb s) - m_pos s then Inl EndOfStream
      else Inr (s\<lparr>m_mb := take (m_pos s) (m_mb s) @ buf @ drop (m_pos s + length buf) (m_mb s),
                  m_pos := m_pos s + length buf\<rparr>))"

definition mem_inv :: "mem_stream \<Rightarrow> bool" where
  "mem_inv s \<longleftrightarrow> m_pos s \<le> length (m_mb s)"

definition mem_content :: "mem_stream \<Rightarrow> byte list" where
  "mem_content s = drop (m_pos s) (m_mb s)"

lemmas mem_defs = mem_inv_def mem_content_def CMemReadStream_def CMemReadStream_Read_def
  CMemReadStream_ReadExactly_def CMemReadStream_ReadByte_def CMemReadStream_put_Position_def
  MemStream_Seek_def CMemWriteStream_WriteBuffer_def Let_def

interpretation mem: stream CMemReadStream_Read mem_content mem_inv
proof
  fix s n bs s'
  assume inv: "mem_inv s" and rd: "CMemReadStream_Read s n = (bs, s')"
  show "mem_inv s'" using inv rd by (auto simp: mem_defs)
  show "mem_content s = bs @ mem_content s'"
    using rd by (auto simp: mem_defs) (metis append_take_drop_id drop_drop add.commute)
  show "length bs \<le> n" using rd by (auto simp: mem_defs)
next
  fix s n s'
  assume "mem_inv s" and "CMemReadStream_Read s n = ([], s')"
  then show "n = 0 \<or> mem_content s = []" by (auto simp: mem_defs min_def split: if_splits)
qed

text \<open>The overrides of \<open>CMemReadStream\<close> agree with the generic loops they replace.\<close>

lemma CMemReadStream_ReadExactly_content:
  assumes "mem_inv s"
  shows "CMemReadStream_ReadExactly s n =
    (if n \<le> length (mem_content s)
     then (Inr (take n (mem_content s)), s\<lparr>m_pos := m_pos s + n\<rparr>) else (Inl EndOfStream, s))"
  using assms by (simp add: mem_defs not_le)

lemma MemStream_Seek_inv:
  "mem_inv s \<Longrightarrow> MemStream_Seek s off org = Inr (p, s') \<Longrightarrow> mem_inv s' \<and> m_mb s' = m_mb s"
  by (auto simp: mem_defs split: if_splits)

lemma CMemWriteStream_length:
  "mem_inv s \<Longrightarrow> CMemWriteStream_WriteBuffer s buf = Inr s' \<Longrightarrow>
     mem_inv s' \<and> length (m_mb s') = length (m_mb s)"
  by (auto simp: mem_defs split: if_splits)

section \<open>The buffering adapter\<close>

text \<open>
  \<open>BufferedStream\<close> over an underlying stream.  The buffer keeps the stale bytes after
  \<open>bs_end\<close>, as the array does; \<open>dbs\<close> is \<open>DEFAULT_BUF_SIZE\<close>, which the program computes from
  the clock at start-up.
\<close>

record 's buffered_stream =
  bs_under :: 's
  bs_buf :: "byte list"
  bs_bufSize :: nat
  bs_cur :: nat
  bs_end :: nat

definition BufferedStream :: "'s \<Rightarrow> nat \<Rightarrow> 's buffered_stream" where
  "BufferedStream stm bufferSize =
     \<lparr>bs_under = stm, bs_buf = replicate bufferSize 0, bs_bufSize = bufferSize,
      bs_cur = 0, bs_end = 0\<rparr>"

definition BufferedStream_Read ::
    "nat \<Rightarrow> 's reader \<Rightarrow> 's buffered_stream \<Rightarrow> nat \<Rightarrow> byte list \<times> 's buffered_stream" where
  "BufferedStream_Read dbs read b count =
     (let cb = min count (bs_end b - bs_cur b);
          out = take cb (drop (bs_cur b) (bs_buf b));
          b1 = b\<lparr>bs_cur := bs_cur b + cb\<rparr>;
          count' = count - cb
      in if count' = 0 then (out, b1)
         else if count' \<ge> bs_bufSize b1
         then (case read (bs_under b1) count' of
                 (bs, u) \<Rightarrow> (out @ bs, b1\<lparr>bs_under := u\<rparr>))
         else
           let b2 = (if cb \<noteq> 0 \<and> bs_bufSize b1 < dbs
                     then b1\<lparr>bs_buf := replicate dbs 0, bs_bufSize := dbs\<rparr> else b1)
           in case read (bs_under b2) (bs_bufSize b2) of
                (bs, u) \<Rightarrow>
                  (out @ take (min count' (length bs)) bs,
                   b2\<lparr>bs_under := u, bs_buf := bs @ drop (length bs) (bs_buf b2),
                      bs_end := length bs, bs_cur := min count' (length bs)\<rparr>))"

definition BufferedStream_Eof :: "('s \<Rightarrow> bool) \<Rightarrow> 's buffered_stream \<Rightarrow> bool" where
  "BufferedStream_Eof eof b \<longleftrightarrow> bs_cur b = bs_end b \<and> eof (bs_under b)"

definition BufferedStream_get_Position :: "('s \<Rightarrow> nat) \<Rightarrow> 's buffered_stream \<Rightarrow> nat" where
  "BufferedStream_get_Position pos b = pos (bs_under b) - (bs_end b - bs_cur b)"

definition BufferedStream_Seek ::
    "('s \<Rightarrow> int \<Rightarrow> SeekOrigin \<Rightarrow> (nat \<times> 's) res) \<Rightarrow> 's buffered_stream \<Rightarrow> int \<Rightarrow> SeekOrigin
     \<Rightarrow> (nat \<times> 's buffered_stream) res" where
  "BufferedStream_Seek seek b offset origin =
     bind_res (seek (bs_under b) offset origin)
       (\<lambda>(p, u). Inr (p, b\<lparr>bs_under := u, bs_cur := 0, bs_end := 0\<rparr>))"

definition buffered_content :: "('s \<Rightarrow> byte list) \<Rightarrow> 's buffered_stream \<Rightarrow> byte list" where
  "buffered_content content b =
     take (bs_end b - bs_cur b) (drop (bs_cur b) (bs_buf b)) @ content (bs_under b)"

definition buffered_inv :: "('s \<Rightarrow> bool) \<Rightarrow> 's buffered_stream \<Rightarrow> bool" where
  "buffered_inv ok b \<longleftrightarrow>
     ok (bs_under b) \<and> bs_cur b \<le> bs_end b \<and> bs_end b \<le> length (bs_buf b)
     \<and> length (bs_buf b) = bs_bufSize b"

lemma buffered_inv_BufferedStream [wf]:
  "ok stm \<Longrightarrow> buffered_inv ok (BufferedStream stm n)"
  "buffered_content content (BufferedStream stm n) = content stm"
  by (simp_all add: buffered_inv_def buffered_content_def BufferedStream_def)

context stream
begin

text \<open>The three ways through \<open>Read\<close>: from the buffer, past it, and after a refill.\<close>

lemma buffered_Read_cases:
  assumes i: "buffered_inv inv b"
  obtains
    (hit) "n \<le> bs_end b - bs_cur b"
      "BufferedStream_Read dbs read b n =
         (take n (drop (bs_cur b) (bs_buf b)), b\<lparr>bs_cur := bs_cur b + n\<rparr>)"
  | (direct) bs u where "bs_end b - bs_cur b < n"
      "read (bs_under b) (n - (bs_end b - bs_cur b)) = (bs, u)"
      "BufferedStream_Read dbs read b n =
         (take (bs_end b - bs_cur b) (drop (bs_cur b) (bs_buf b)) @ bs,
          b\<lparr>bs_cur := bs_end b, bs_under := u\<rparr>)"
  | (refill) k old bs u where "bs_end b - bs_cur b < n" "n - (bs_end b - bs_cur b) < k"
      "length old = k" "read (bs_under b) k = (bs, u)"
      "BufferedStream_Read dbs read b n =
         (take (bs_end b - bs_cur b) (drop (bs_cur b) (bs_buf b))
            @ take (min (n - (bs_end b - bs_cur b)) (length bs)) bs,
          \<lparr>bs_under = u, bs_buf = bs @ drop (length bs) old, bs_bufSize = k,
           bs_cur = min (n - (bs_end b - bs_cur b)) (length bs), bs_end = length bs\<rparr>)"
proof -
  let ?av = "bs_end b - bs_cur b"
  have ie: "bs_cur b + ?av = bs_end b" and len: "length (bs_buf b) = bs_bufSize b"
    using i by (simp_all add: buffered_inv_def)
  consider "n \<le> ?av" | "?av < n" "bs_bufSize b \<le> n - ?av" | "?av < n" "n - ?av < bs_bufSize b"
    by linarith
  then show thesis
  proof cases
    case 1
    then show ?thesis by (intro hit) (simp_all add: BufferedStream_Read_def Let_def min_absorb1)
  next
    case 2
    obtain bs u where "read (bs_under b) (n - ?av) = (bs, u)" by (cases "read (bs_under b) (n - ?av)")
    with 2 show ?thesis
      by (intro direct [of bs u])
        (simp_all add: BufferedStream_Read_def Let_def min_absorb2 ie)
  next
    case 3
    define b2 where "b2 = (if ?av \<noteq> 0 \<and> bs_bufSize b < dbs
       then (replicate dbs 0, dbs) else (bs_buf b, bs_bufSize b))"
    obtain bs u where rd: "read (bs_under b) (snd b2) = (bs, u)"
      by (cases "read (bs_under b) (snd b2)")
    show ?thesis
      using 3 rd len
      by (intro refill [of "snd b2" "fst b2" bs u])
        (auto simp: b2_def BufferedStream_Read_def Let_def min_absorb2 ie)
  qed
qed

lemma buffered_stream:
  "stream (BufferedStream_Read dbs read) (buffered_content content) (buffered_inv inv)"
proof
  fix b n bs b'
  assume i: "buffered_inv inv b" and rd: "BufferedStream_Read dbs read b n = (bs, b')"
  let ?av = "bs_end b - bs_cur b"
  have u: "inv (bs_under b)" "bs_cur b \<le> bs_end b" "bs_end b \<le> length (bs_buf b)"
    using i by (simp_all add: buffered_inv_def)
  have "buffered_inv inv b' \<and> buffered_content content b = bs @ buffered_content content b'
      \<and> length bs \<le> n"
    using i
  proof (cases rule: buffered_Read_cases [where n = n and dbs = dbs])
    case hit
    have "take ?av (drop (bs_cur b) (bs_buf b)) =
        take n (drop (bs_cur b) (bs_buf b)) @ take (?av - n) (drop (bs_cur b + n) (bs_buf b))"
      using hit(1) by (metis add.commute drop_drop le_add_diff_inverse take_add)
    then show ?thesis
      using hit rd i u by (auto simp: buffered_inv_def buffered_content_def)
  next
    case (direct bs' u')
    note f = read_inv [OF u(1) direct(2)] read_content [OF u(1) direct(2)]
      read_length [OF u(1) direct(2)]
    then show ?thesis
      using direct rd i u by (auto simp: buffered_inv_def buffered_content_def)
  next
    case (refill k old bs' u')
    note f = read_inv [OF u(1) refill(4)] read_content [OF u(1) refill(4)]
      read_length [OF u(1) refill(4)]
    let ?m = "min (n - ?av) (length bs')"
    have "bs' = take ?m bs' @ take (length bs' - ?m) (drop ?m (bs' @ drop (length bs') old))"
      by simp
    then show ?thesis
      using refill rd i u f by (auto simp: buffered_inv_def buffered_content_def)
  qed
  then show "buffered_inv inv b'" "buffered_content content b = bs @ buffered_content content b'"
    "length bs \<le> n" by simp_all
next
  fix b n b'
  assume i: "buffered_inv inv b" and rd: "BufferedStream_Read dbs read b n = ([], b')"
  have u: "inv (bs_under b)" "bs_cur b \<le> bs_end b" "bs_end b \<le> length (bs_buf b)"
    using i by (simp_all add: buffered_inv_def)
  show "n = 0 \<or> buffered_content content b = []"
    using i
  proof (cases rule: buffered_Read_cases [where n = n and dbs = dbs])
    case hit
    then show ?thesis using rd u by auto
  next
    case (direct bs' u')
    then show ?thesis
      using rd read_empty [OF u(1), of "n - (bs_end b - bs_cur b)" u']
      by (auto simp: buffered_content_def)
  next
    case (refill k old bs' u')
    then have "bs' = []" using rd by (auto simp: min_def split: if_splits)
    then show ?thesis
      using refill rd read_empty [OF u(1), of k u'] by (auto simp: buffered_content_def)
  qed
qed

end

interpretation buf: stream "BufferedStream_Read dbs CMemReadStream_Read"
  "buffered_content mem_content" "buffered_inv mem_inv" for dbs :: nat
  by (rule mem.buffered_stream)

section \<open>Growing memory streams\<close>

text \<open>
  \<open>MemoryStream\<close>: the space \<open>ms_blob\<close> (its length is the capacity; bytes the code leaves
  uninitialised are 0 here), the size written so far and the position, which \<open>Seek\<close> may put
  anywhere.  \<open>size () - m_pos\<close> wraps when the position is past the size.
\<close>

record memory_stream =
  ms_blob :: "byte list"
  ms_size :: nat
  ms_pos :: nat

definition DEFAULT_CAPACITY :: nat where
  "DEFAULT_CAPACITY = 256"

definition MemoryStream :: "nat \<Rightarrow> memory_stream" where
  "MemoryStream capacity = \<lparr>ms_blob = replicate capacity 0, ms_size = 0, ms_pos = 0\<rparr>"

definition MemoryStream_Read :: "memory_stream \<Rightarrow> nat \<Rightarrow> byte list res \<times> memory_stream" where
  "MemoryStream_Read s count =
     (let r = min count (if ms_pos s \<le> ms_size s then ms_size s - ms_pos s
                         else 2 ^ 64 + ms_size s - ms_pos s)
      in if ms_pos s + r > length (ms_blob s) \<and> r \<noteq> 0 then (Inl OutOfBounds, s)
         else (Inr (take r (drop (ms_pos s) (ms_blob s))), s\<lparr>ms_pos := ms_pos s + r\<rparr>))"

definition MemoryStream_WriteBuffer :: "memory_stream \<Rightarrow> byte list \<Rightarrow> memory_stream" where
  "MemoryStream_WriteBuffer s buf =
     (let nextPos = ms_pos s + length buf;
          cap = length (ms_blob s);
          blob = (if nextPos > cap
                  then ms_blob s @ replicate (max (max (cap * 2) nextPos) DEFAULT_CAPACITY - cap) 0
                  else ms_blob s)
      in s\<lparr>ms_blob := take (ms_pos s) blob @ buf @ drop nextPos blob,
           ms_size := max (ms_size s) nextPos, ms_pos := nextPos\<rparr>)"

definition MemoryStream_Eof :: "memory_stream \<Rightarrow> bool" where
  "MemoryStream_Eof s \<longleftrightarrow> ms_pos s = ms_size s"

definition MemoryStream_put_Position :: "memory_stream \<Rightarrow> nat \<Rightarrow> memory_stream" where
  "MemoryStream_put_Position s pos = s\<lparr>ms_pos := pos\<rparr>"

definition MemoryStream_Reset :: "memory_stream \<Rightarrow> nat \<Rightarrow> memory_stream" where
  "MemoryStream_Reset s capacity = s\<lparr>ms_blob := replicate capacity 0, ms_size := 0\<rparr>"

definition MemoryStream_AsSpan :: "memory_stream \<Rightarrow> byte list" where
  "MemoryStream_AsSpan s = take (ms_size s) (ms_blob s)"

definition ms_inv :: "memory_stream \<Rightarrow> bool" where
  "ms_inv s \<longleftrightarrow> ms_pos s \<le> ms_size s \<and> ms_size s \<le> length (ms_blob s)"

lemmas ms_defs = ms_inv_def MemoryStream_def MemoryStream_Read_def MemoryStream_WriteBuffer_def
  MemoryStream_Eof_def MemoryStream_put_Position_def MemoryStream_Reset_def
  MemoryStream_AsSpan_def DEFAULT_CAPACITY_def

lemma MemoryStream_WriteBuffer_inv [wf]:
  "ms_inv s \<Longrightarrow> ms_inv (MemoryStream_WriteBuffer s buf)"
  by (cases buf) (auto simp: ms_defs Let_def min_def max_def)

lemma MemoryStream_Read_inv [wf]:
  "ms_inv s \<Longrightarrow> MemoryStream_Read s n = (r, s') \<Longrightarrow> ms_inv s'"
  by (auto simp: ms_defs Let_def min_def split: if_splits)

lemma MemoryStream_AsSpan_length: "ms_inv s \<Longrightarrow> length (MemoryStream_AsSpan s) = ms_size s"
  by (simp add: ms_defs)

text \<open>A write overwrites from the position on, and extends the contents when it goes past them.\<close>

lemma overwrite_take:
  assumes "p + length b \<le> length xs" and "p \<le> n" and "n \<le> length xs"
  shows "take (max n (p + length b)) (take p xs @ b @ drop (p + length b) xs)
    = take p (take n xs) @ b @ drop (p + length b) (take n xs)"
proof (cases "n \<le> p + length b")
  case True
  then show ?thesis using assms by (cases b) (auto simp: max_def min_def)
next
  case False
  then obtain m where "n = p + length b + m" by (metis le_add_diff_inverse nat_le_linear)
  then show ?thesis using assms by (cases b) (auto simp: max_def min_def drop_take take_add)
qed

text \<open>The space after a write: the old space, grown by some \<open>g\<close>, with the buffer put in.\<close>

lemma MemoryStream_WriteBuffer_grow:
  obtains g where "ms_pos s + length buf \<le> length (ms_blob s @ g)"
    and "MemoryStream_WriteBuffer s buf = s\<lparr>ms_blob := take (ms_pos s) (ms_blob s @ g) @ buf
        @ drop (ms_pos s + length buf) (ms_blob s @ g),
      ms_size := max (ms_size s) (ms_pos s + length buf), ms_pos := ms_pos s + length buf\<rparr>"
proof
  let ?next = "ms_pos s + length buf" and ?cap = "length (ms_blob s)"
  define g where "g = (if ?next > ?cap
    then replicate (max (max (?cap * 2) ?next) DEFAULT_CAPACITY - ?cap) 0 else [] :: byte list)"
  show "MemoryStream_WriteBuffer s buf = s\<lparr>ms_blob := take (ms_pos s) (ms_blob s @ g) @ buf
      @ drop ?next (ms_blob s @ g), ms_size := max (ms_size s) ?next, ms_pos := ?next\<rparr>"
    by (simp add: MemoryStream_WriteBuffer_def g_def Let_def)
  show "?next \<le> length (ms_blob s @ g)" by (auto simp: g_def max_def)
qed

lemma MemoryStream_WriteBuffer_AsSpan:
  assumes "ms_inv s"
  shows "MemoryStream_AsSpan (MemoryStream_WriteBuffer s buf) =
    take (ms_pos s) (MemoryStream_AsSpan s) @ buf
      @ drop (ms_pos s + length buf) (MemoryStream_AsSpan s)"
proof (cases rule: MemoryStream_WriteBuffer_grow [of s buf])
  case (1 g)
  moreover have "take (ms_size s) (ms_blob s @ g) = take (ms_size s) (ms_blob s)"
    using assms by (simp add: ms_inv_def)
  ultimately show ?thesis
    using assms overwrite_take [of "ms_pos s" buf "ms_blob s @ g" "ms_size s"]
    by (simp add: MemoryStream_AsSpan_def ms_inv_def)
qed

lemma MemoryStream_capacity:
  assumes "ms_inv s" and "length (ms_blob s) \<le> max DEFAULT_CAPACITY (2 * ms_size s)"
  shows "length (ms_blob (MemoryStream_WriteBuffer s buf))
    \<le> max DEFAULT_CAPACITY (2 * ms_size (MemoryStream_WriteBuffer s buf))"
  using assms by (auto simp: ms_defs Let_def max_def min_def split: if_splits)

section \<open>Lines and headers\<close>

text \<open>
  \<open>ReadOneLineFromStream\<close>: at most \<open>MAX_LINE\<close> characters, carriage returns dropped.  The third
  component is what the optional \<open>pDupStream\<close> has received.
\<close>

definition MAX_LINE :: nat where
  "MAX_LINE = 4096"

function ReadOneLine_loop ::
    "'s reader \<Rightarrow> 's \<Rightarrow> nat \<Rightarrow> byte list \<Rightarrow> byte list \<Rightarrow> byte list res \<times> byte list \<times> 's" where
  "ReadOneLine_loop read s i vec dup =
     (if i < MAX_LINE then
        (case Stream_ReadExactly read s 1 of
           (Inl e, s') \<Rightarrow> (Inl e, dup, s')
         | (Inr bs, s') \<Rightarrow>
             let ch = hd bs; dup' = dup @ [ch]
             in if ch = 10 then (Inr vec, dup', s')
                else ReadOneLine_loop read s' (i + 1) (if ch = 13 then vec else vec @ [ch]) dup')
      else (Inl PROXY_VeryLongLine, dup, s))"
  by pat_completeness auto
termination by (relation "measure (\<lambda>(read, s, i, vec, dup). MAX_LINE - i)") auto

declare ReadOneLine_loop.simps [simp del]

definition ReadOneLineFromStream ::
    "'s reader \<Rightarrow> 's \<Rightarrow> byte list \<Rightarrow> byte list \<Rightarrow> byte list res \<times> byte list \<times> 's" where
  "ReadOneLineFromStream read s beg dup =
     (case ReadOneLine_loop read s 0 [] dup of
        (Inl e, r) \<Rightarrow> (Inl e, r)
      | (Inr vec, r) \<Rightarrow> (Inr (beg @ vec), r))"

partial_function (option) ReadHttpHeader_loop ::
    "'s reader \<Rightarrow> 's \<Rightarrow> byte list list \<Rightarrow> byte list
     \<Rightarrow> (byte list list res \<times> byte list \<times> 's) option" where
  "ReadHttpHeader_loop read s vec dup =
     (case ReadOneLineFromStream read s [] dup of
        (Inl e, r) \<Rightarrow> Some (Inl e, r)
      | (Inr line, dup', s') \<Rightarrow>
          if line = [] then Some (Inr vec, dup', s')
          else ReadHttpHeader_loop read s' (vec @ [line]) dup')"

declare ReadHttpHeader_loop.simps [code]

definition ReadHttpHeader ::
    "'s reader \<Rightarrow> 's \<Rightarrow> byte list \<Rightarrow> (byte list list res \<times> byte list \<times> 's) option" where
  "ReadHttpHeader read s dup = ReadHttpHeader_loop read s [] dup"

abbreviation line_text :: "byte list \<Rightarrow> byte list" where
  "line_text l \<equiv> filter (\<lambda>c. c \<noteq> 13) l"

context stream
begin

lemma ReadOneLine_loop_ok:
  assumes "inv s" and "content s = l @ 10 # rest" and "10 \<notin> set l" and "i + length l < MAX_LINE"
  shows "\<exists>s'. ReadOneLine_loop read s i vec dup = (Inr (vec @ line_text l), dup @ l @ [10], s')
    \<and> inv s' \<and> content s' = rest"
  using assms
proof (induction l arbitrary: s i vec dup)
  case Nil
  then obtain s' where "Stream_ReadExactly read s 1 = (Inr [10], s')" "inv s'" "content s' = rest"
    using ReadExactly_ok [of s 1] by auto
  then show ?case using Nil by (subst ReadOneLine_loop.simps) simp
next
  case (Cons c l)
  then obtain s' where rd: "Stream_ReadExactly read s 1 = (Inr [c], s')" "inv s'"
      "content s' = l @ 10 # rest"
    using ReadExactly_ok [of s 1] by auto
  have i: "i + 1 + length l < MAX_LINE" "10 \<notin> set l" using Cons.prems by simp_all
  from Cons.IH [OF rd(2,3) i(2,1), where dup = "dup @ [c]"
      and vec = "if c = 13 then vec else vec @ [c]"] show ?case
    using rd(1) Cons.prems(3,4) by (subst ReadOneLine_loop.simps) (auto simp: Let_def)
qed

lemma ReadOneLine_loop_long:
  assumes "inv s" and "10 \<notin> set (take (MAX_LINE - i) (content s))"
    and "MAX_LINE - i \<le> length (content s)"
  shows "\<exists>dup' s'. ReadOneLine_loop read s i vec dup = (Inl PROXY_VeryLongLine, dup', s')"
  using assms
proof (induction "MAX_LINE - i" arbitrary: s i vec dup)
  case 0
  then show ?case by (subst ReadOneLine_loop.simps) simp
next
  case (Suc k)
  then obtain c t where ct: "content s = c # t" by (cases "content s") auto
  then obtain s' where rd: "Stream_ReadExactly read s 1 = (Inr [c], s')" "inv s'" "content s' = t"
    using ReadExactly_ok [of s 1] Suc.prems(1) by auto
  have k: "k = MAX_LINE - (i + 1)" "i < MAX_LINE" "MAX_LINE - i = Suc k"
    using Suc.hyps(2) by simp_all
  have c: "c \<noteq> 10" "10 \<notin> set (take (MAX_LINE - (i + 1)) (content s'))"
    "MAX_LINE - (i + 1) \<le> length (content s')"
    using Suc.prems(2,3) ct rd(3) k by simp_all
  obtain dup' s'' where "ReadOneLine_loop read s' (i + 1) (if c = 13 then vec else vec @ [c])
      (dup @ [c]) = (Inl PROXY_VeryLongLine, dup', s'')"
    using Suc.hyps(1) [OF k(1) rd(2) c(2,3)] by blast
  then show ?case
    using rd(1) c(1) k(2) by (subst ReadOneLine_loop.simps) (auto simp: Let_def)
qed

lemma ReadHttpHeader_loop_ok:
  assumes "inv s" and "content s = concat (map (\<lambda>l. l @ [10]) ls) @ l0 @ 10 # rest"
    and "\<forall>l\<in>set (l0 # ls). 10 \<notin> set l \<and> length l < MAX_LINE"
    and "\<forall>l\<in>set ls. line_text l \<noteq> []" and "line_text l0 = []"
  shows "\<exists>s'. ReadHttpHeader_loop read s vec dup
      = Some (Inr (vec @ map line_text ls), dup @ concat (map (\<lambda>l. l @ [10]) ls) @ l0 @ [10], s')
    \<and> inv s' \<and> content s' = rest"
  using assms
proof (induction ls arbitrary: s vec dup)
  case Nil
  then show ?case
    using ReadOneLine_loop_ok [of s l0 rest 0 "[]" dup]
    by (subst ReadHttpHeader_loop.simps) (auto simp: ReadOneLineFromStream_def)
next
  case (Cons l ls)
  then obtain s' where rd: "ReadOneLine_loop read s 0 [] dup
        = (Inr (line_text l), dup @ l @ [10], s')" "inv s'"
      "content s' = concat (map (\<lambda>l. l @ [10]) ls) @ l0 @ 10 # rest"
    using ReadOneLine_loop_ok [of s l "concat (map (\<lambda>l. l @ [10]) ls) @ l0 @ 10 # rest" 0 "[]" dup]
    by auto
  from Cons.IH [OF rd(2,3), of "vec @ [line_text l]" "dup @ l @ [10]"] show ?case
    using rd(1) Cons.prems(3-)
    by (subst ReadHttpHeader_loop.simps) (auto simp: ReadOneLineFromStream_def)
qed

end

section \<open>Properties\<close>

text \<open>
  \<open>BufferedStream\<close> is transparent: over any memory stream, any buffer size and default size,
  \<open>ReadExactly\<close> through the buffer yields exactly the next \<open>n\<close> bytes of the data when they are
  there and the end-of-stream error otherwise; none is lost, repeated or reordered, and what is
  left is still to be read.
\<close>

theorem BufferedStream_transparent:
  assumes "buffered_inv mem_inv b"
  shows "\<exists>b'. Stream_ReadExactly (BufferedStream_Read dbs CMemReadStream_Read) b n =
      (if n \<le> length (buffered_content mem_content b)
       then Inr (take n (buffered_content mem_content b)) else Inl EndOfStream, b')
    \<and> buffered_inv mem_inv b'
    \<and> buffered_content mem_content b' = drop n (buffered_content mem_content b)"
proof (cases "n \<le> length (buffered_content mem_content b)")
  case True
  with buf.ReadExactly_ok [OF assms, of n dbs] show ?thesis by simp
next
  case False
  with buf.ReadExactly_eof [OF assms, of n dbs] show ?thesis by simp
qed

theorem BufferedStream_transparent_witness:
  "\<exists>b'. Stream_ReadExactly (BufferedStream_Read 4 CMemReadStream_Read)
       (BufferedStream (CMemReadStream [1, 2, 3, 4, 5]) 2) 3 = (Inr [1, 2, 3], b')
    \<and> buffered_inv mem_inv b' \<and> buffered_content mem_content b' = [4, 5]"
  using BufferedStream_transparent [of "BufferedStream (CMemReadStream [1, 2, 3, 4, 5]) 2" 4 3]
  by (simp add: buffered_inv_BufferedStream mem_defs)

text \<open>
  \<open>Stream::CopyTo\<close> ends on every memory stream read through a \<open>BufferedStream\<close>, for any
  positive buffer size, and delivers all the bytes that were left, in order.
\<close>

theorem CopyTo_delivers:
  assumes "buffered_inv mem_inv b" and "0 < bufsize"
  shows "\<exists>b'. Stream_CopyTo (BufferedStream_Read dbs CMemReadStream_Read) b bufsize []
      = Some (buffered_content mem_content b, b') \<and> buffered_content mem_content b' = []"
  using buf.CopyTo_all [OF assms, of dbs "[]"] by auto

theorem CopyTo_delivers_witness:
  "\<exists>b'. Stream_CopyTo (BufferedStream_Read 4 CMemReadStream_Read)
       (BufferedStream (CMemReadStream [1, 2, 3]) 2) 2 [] = Some ([1, 2, 3], b')
     \<and> buffered_content mem_content b' = []"
  using CopyTo_delivers [of "BufferedStream (CMemReadStream [1, 2, 3]) 2" 2 4]
  by (simp add: buffered_inv_BufferedStream mem_defs)

text \<open>
  \<open>BufferedStream::Seek\<close> relative to the current position is off by what the buffer still
  holds: it moves the underlying stream, which is that far ahead of the position that
  \<open>get_Position\<close> reports.  So seeking by 0 from the current position skips unread bytes.
\<close>

theorem BufferedStream_Seek_Current_skips:
  assumes "mem_inv (bs_under b)" and "bs_end b - bs_cur b \<le> m_pos (bs_under b)"
    and "m_pos (bs_under b) < 2 ^ 64"
  shows "\<exists>b'. BufferedStream_Seek MemStream_Seek b 0 Current = Inr (m_pos (bs_under b), b')
    \<and> BufferedStream_get_Position m_pos b'
      = BufferedStream_get_Position m_pos b + (bs_end b - bs_cur b)"
  using assms
  by (simp add: BufferedStream_Seek_def BufferedStream_get_Position_def MemStream_Seek_def
      Seek_target_def CMemReadStream_put_Position_def mem_inv_def)

theorem BufferedStream_Seek_Current_skips_witness:
  "let b = \<lparr>bs_under = \<lparr>m_mb = [1, 2, 3, 4, 5], m_pos = 4\<rparr>, bs_buf = [1, 2, 3, 4],
            bs_bufSize = 4, bs_cur = 1, bs_end = 4\<rparr>
   in \<exists>b'. BufferedStream_Seek MemStream_Seek b 0 Current = Inr (4, b')
      \<and> BufferedStream_get_Position m_pos b' = BufferedStream_get_Position m_pos b + 3"
  using BufferedStream_Seek_Current_skips [of "\<lparr>bs_under = \<lparr>m_mb = [1, 2, 3, 4, 5], m_pos = 4\<rparr>,
    bs_buf = [1, 2, 3, 4], bs_bufSize = 4, bs_cur = 1, bs_end = 4\<rparr>"]
  by (simp add: mem_inv_def Let_def)

text \<open>
  a \<open>MemoryStream\<close> accumulates its writes: starting anywhere inside the contents, writing the
  buffers \<open>bufs\<close> one after another leaves the contents before the position, then the buffers,
  then what lay beyond; the capacity stays within twice the size (or 256).
\<close>

theorem MemoryStream_writes:
  assumes "ms_inv s" and "length (ms_blob s) \<le> max DEFAULT_CAPACITY (2 * ms_size s)"
  shows "let s' = fold (\<lambda>buf s. MemoryStream_WriteBuffer s buf) bufs s in
      MemoryStream_AsSpan s' = take (ms_pos s) (MemoryStream_AsSpan s) @ concat bufs
        @ drop (ms_pos s + length (concat bufs)) (MemoryStream_AsSpan s)
    \<and> length (ms_blob s') \<le> max DEFAULT_CAPACITY (2 * ms_size s') \<and> ms_inv s'"
  using assms
proof (induction bufs arbitrary: s)
  case Nil
  then show ?case by simp
next
  case (Cons buf bufs)
  let ?s = "MemoryStream_WriteBuffer s buf"
  have pos: "ms_pos ?s = ms_pos s + length buf" by (simp add: MemoryStream_WriteBuffer_def Let_def)
  have len: "ms_pos s \<le> length (MemoryStream_AsSpan s)"
    using Cons.prems(1) MemoryStream_AsSpan_length by (simp add: ms_inv_def)
  show ?case
    using Cons.IH [OF MemoryStream_WriteBuffer_inv [OF Cons.prems(1), of buf]
        MemoryStream_capacity [OF Cons.prems]]
    by (simp add: pos MemoryStream_WriteBuffer_AsSpan [OF Cons.prems(1)] Let_def len min_absorb2
        ac_simps)
qed

theorem MemoryStream_writes_witness:
  "let s' = fold (\<lambda>buf s. MemoryStream_WriteBuffer s buf) [[1, 2], [3]] (MemoryStream 16) in
      MemoryStream_AsSpan s' = [1, 2, 3] \<and> length (ms_blob s') \<le> 256 \<and> ms_inv s'"
  using MemoryStream_writes [of "MemoryStream 16" "[[1, 2], [3]]"]
  by (simp add: ms_defs Let_def)

text \<open>
  \<open>MemoryStream::Reset\<close> empties the stream but keeps its position, so what is written next
  lands after a gap: the contents then are as long as the old position plus the write.
\<close>

theorem MemoryStream_Reset_keeps_position:
  "let s' = MemoryStream_WriteBuffer (MemoryStream_Reset s cap) buf in
    length (MemoryStream_AsSpan s') = ms_pos s + length buf
    \<and> drop (ms_pos s) (MemoryStream_AsSpan s') = buf"
proof (cases rule: MemoryStream_WriteBuffer_grow [of "MemoryStream_Reset s cap" buf])
  case (1 g)
  then have "ms_pos s + length buf \<le> cap + length g" by (simp add: MemoryStream_Reset_def)
  then show ?thesis
    unfolding 1(2) by (simp add: MemoryStream_Reset_def MemoryStream_AsSpan_def Let_def)
qed

text \<open>
  \<open>ReadHttpHeader\<close> returns the lines up to the first empty one, carriage returns removed,
  consumes exactly the header, and copies exactly the consumed bytes to \<open>pDupStream\<close>.
\<close>

theorem ReadHttpHeader_lines:
  assumes "mem_inv s"
    and "mem_content s = concat (map (\<lambda>l. l @ [10]) ls) @ l0 @ 10 # body"
    and "\<forall>l\<in>set (l0 # ls). 10 \<notin> set l \<and> length l < MAX_LINE"
    and "\<forall>l\<in>set ls. line_text l \<noteq> []" and "line_text l0 = []"
  shows "\<exists>s'. ReadHttpHeader CMemReadStream_Read s [] =
      Some (Inr (map line_text ls), concat (map (\<lambda>l. l @ [10]) ls) @ l0 @ [10], s')
    \<and> mem_content s' = body"
  using mem.ReadHttpHeader_loop_ok [OF assms, of "[]" "[]"] by (auto simp: ReadHttpHeader_def)

theorem ReadHttpHeader_lines_witness:
  "\<exists>s'. ReadHttpHeader CMemReadStream_Read (CMemReadStream [65, 13, 10, 66, 10, 13, 10, 67]) [] =
      Some (Inr [[65], [66]], [65, 13, 10, 66, 10, 13, 10], s') \<and> mem_content s' = [67]"
  using ReadHttpHeader_lines [of "CMemReadStream [65, 13, 10, 66, 10, 13, 10, 67]"
      "[[65, 13], [66]]" "[13]" "[67]"]
  by (simp add: mem_defs MAX_LINE_def)

end
