(* ===== verification/BinaryRW.thy ===== *)
theory BinaryRW
  imports Streams
begin

text \<open>
  The binary reader and writer of \<open>src/libext/binary-reader-writer.{h,cpp}\<close>: the
  variable-length integers, fixed-width little-endian integers, blobs, vectors, pairs and
  single bits.  A writer is the list of bytes it appends to its stream; a reader works over
  any stream (locale \<open>stream\<close>).  The locale \<open>codec\<close> states that a reader undoes a writer and
  leaves the stream right after the value.
\<close>

unbundle bit_operations_syntax

section \<open>Variable-length integers\<close>

text \<open>\<open>Write7BitEncoded\<close>, a do-while loop: low seven bits first, bit 7 set while more follow.\<close>

function Write7BitEncoded :: "u64 \<Rightarrow> byte list" where
  "Write7BitEncoded v =
     (let b = (ucast (v AND 0x7F) :: byte);
          v' = drop_bit 7 v
      in if v' = 0 then [b] else (b OR 0x80) # Write7BitEncoded v')"
  by pat_completeness auto
termination
proof (relation "measure unat")
  fix v :: u64 and b :: byte and v' :: u64
  assume v': "v' = drop_bit 7 v" and nz: "v' \<noteq> 0"
  have "unat v' = unat v div 128"
    by (simp only: v' unat_drop_bit_eq) (simp add: drop_bit_eq_div)
  moreover have "unat v' \<noteq> 0"
    using nz by (simp add: unat_eq_zero)
  ultimately show "(v', v) \<in> measure unat" by simp
qed simp

declare Write7BitEncoded.simps [simp del]

definition BinaryReader_ReadByte :: "'s reader \<Rightarrow> 's \<Rightarrow> byte res \<times> 's" where
  "BinaryReader_ReadByte read s =
     (case Stream_ReadByte read s of
        (None, s') \<Rightarrow> (Inl EndOfStream, s')
      | (Some b, s') \<Rightarrow> (Inr b, s'))"

text \<open>The body of \<open>BinaryReader::Read7BitEncoded\<close>: its loop over \<open>shift\<close> with the value \<open>r\<close>.\<close>

function Read7BitEncoded_loop :: "'s reader \<Rightarrow> 's \<Rightarrow> nat \<Rightarrow> u64 \<Rightarrow> u64 res \<times> 's" where
  "Read7BitEncoded_loop read s shift r =
     (if shift < 64 then
        (case BinaryReader_ReadByte read s of
           (Inl e, s') \<Rightarrow> (Inl e, s')
         | (Inr b, s') \<Rightarrow>
             let r' = r OR push_bit shift (ucast (b AND 0x7F))
             in if b AND 0x80 = 0 then (Inr r', s')
                else Read7BitEncoded_loop read s' (shift + 7) r')
      else (Inl E_FAIL, s))"
  by pat_completeness auto
termination by (relation "measure (\<lambda>(read, s, shift, r). 64 - shift)") auto

declare Read7BitEncoded_loop.simps [simp del]

definition BinaryReader_Read7BitEncoded :: "'s reader \<Rightarrow> 's \<Rightarrow> u64 res \<times> 's" where
  "BinaryReader_Read7BitEncoded read s = Read7BitEncoded_loop read s 0 0"

text \<open>
  The free function \<open>Ext::Read7BitEncoded (const uint8_t *&p)\<close>, over the bytes at \<open>p\<close>; reading
  past them is \<open>OutOfBounds\<close>.  Its loop tests the shift after it has used the byte, before it
  looks whether that byte was the last.
\<close>

function Read7BitEncoded_ptr_loop :: "byte list \<Rightarrow> byte \<Rightarrow> nat \<Rightarrow> u64 \<Rightarrow> (u64 \<times> byte list) res" where
  "Read7BitEncoded_ptr_loop q b shift r =
     (if b AND 0x80 = 0 then Inr (r, q)
      else case q of
        [] \<Rightarrow> Inl OutOfBounds
      | b' # q' \<Rightarrow>
          let r' = r OR push_bit shift (ucast (b' AND 0x7F))
          in if shift + 7 \<ge> 64 then Inl E_FAIL
             else Read7BitEncoded_ptr_loop q' b' (shift + 7) r')"
  by pat_completeness auto
termination by (relation "measure (\<lambda>(q, b, shift, r). length q)") auto

declare Read7BitEncoded_ptr_loop.simps [simp del]

definition Read7BitEncoded_ptr :: "byte list \<Rightarrow> (u64 \<times> byte list) res" where
  "Read7BitEncoded_ptr p =
     (case p of [] \<Rightarrow> Inl OutOfBounds
      | b # q \<Rightarrow> Read7BitEncoded_ptr_loop q b 7 (ucast (b AND 0x7F)))"

subsection \<open>One step of the encoding\<close>

lemma byte_low7_cont:
  fixes v :: u64
  defines "b \<equiv> (ucast (v AND 0x7F) :: byte)"
  shows "b AND 0x80 = 0" and "(b OR 0x80) AND 0x80 \<noteq> 0"
    and "(ucast (b AND 0x7F) :: u64) = v AND 0x7F"
    and "(ucast ((b OR 0x80) AND 0x7F) :: u64) = v AND 0x7F"
proof -
  show "b AND 0x80 = 0"
    unfolding b_def
    by (rule bit_word_eqI) (auto simp: bit_simps less_Suc_eq numeral_eq_Suc)
  have "bit ((b OR 0x80) AND 0x80) 7" by (simp add: bit_simps)
  then show "(b OR 0x80) AND 0x80 \<noteq> 0" by auto
  show "(ucast (b AND 0x7F) :: u64) = v AND 0x7F"
    unfolding b_def
    by (rule bit_word_eqI) (auto simp: bit_simps less_Suc_eq numeral_eq_Suc)
  show "(ucast ((b OR 0x80) AND 0x7F) :: u64) = v AND 0x7F"
    unfolding b_def
    by (rule bit_word_eqI) (auto simp: bit_simps less_Suc_eq numeral_eq_Suc)
qed


lemma push_bit_split7:
  fixes v :: u64
  shows "push_bit n v = push_bit n (v AND 0x7F) OR push_bit (n + 7) (drop_bit 7 v)"
proof -
  have m: "(0x7F :: u64) = mask 7" by (simp add: mask_eq_exp_minus_1)
  have "v = (v AND 0x7F) OR push_bit 7 (drop_bit 7 v)"
    unfolding m
  proof (rule bit_word_eqI)
    fix i
    show "bit v i = bit (v AND mask 7 OR push_bit 7 (drop_bit 7 v)) i" if "i < LENGTH(64)"
      using that by (cases "7 \<le> i") (auto simp: bit_simps)
  qed
  then have "push_bit n v = push_bit n ((v AND 0x7F) OR push_bit 7 (drop_bit 7 v))"
    by (rule arg_cong)
  also have "\<dots> = push_bit n (v AND 0x7F) OR push_bit (n + 7) (drop_bit 7 v)"
    by (simp add: push_bit_or add.commute del: push_bit_and)
  finally show ?thesis .
qed

lemma low7_only: "drop_bit 7 v = 0 \<Longrightarrow> v AND 0x7F = v" for v :: u64
  using push_bit_split7 [of 0 v, symmetric] by simp

lemma push_bit_join7:
  "(r OR push_bit n (v AND 0x7F)) OR push_bit (n + 7) (drop_bit 7 v) = r OR push_bit n v"
  for v :: u64
  by (simp only: or.assoc push_bit_split7 [symmetric])

lemma drop_bit_0_mono:
  fixes v :: u64
  assumes "drop_bit m v = 0" and "m \<le> n"
  shows "drop_bit n v = 0"
proof -
  have "drop_bit n v = drop_bit (n - m) (drop_bit m v)" using assms(2) by simp
  then show ?thesis using assms(1) by simp
qed

lemma Write7_last: "drop_bit 7 v = 0 \<Longrightarrow> Write7BitEncoded v = [ucast (v AND 0x7F)]"
  by (subst Write7BitEncoded.simps) simp

lemma Write7_more:
  "drop_bit 7 v \<noteq> 0 \<Longrightarrow>
   Write7BitEncoded v = (ucast (v AND 0x7F) OR 0x80) # Write7BitEncoded (drop_bit 7 v)"
  by (subst Write7BitEncoded.simps) (simp add: Let_def)

text \<open>Induction on the bytes written.\<close>

lemma Write7_induct [case_names last more]:
  assumes "\<And>v. drop_bit 7 v = 0 \<Longrightarrow> P v"
    and "\<And>v. drop_bit 7 v \<noteq> 0 \<Longrightarrow> P (drop_bit 7 v) \<Longrightarrow> P v"
  shows "P (v :: u64)"
proof (induction v rule: Write7BitEncoded.induct)
  case (1 v)
  then show ?case using assms by (cases "drop_bit 7 v = 0") auto
qed

text \<open>A value of at most \<open>n\<close> bits takes \<open>\<lceil>n / 7\<rceil>\<close> bytes, so ten bytes hold any \<open>uint64_t\<close>.\<close>

lemma Write7_length:
  "drop_bit (7 * n) v = 0 \<Longrightarrow> 0 < n \<Longrightarrow> length (Write7BitEncoded v) \<le> n"
proof (induction v arbitrary: n rule: Write7_induct)
  case (last v)
  then show ?case by (simp add: Write7_last)
next
  case (more v)
  obtain m where n: "n = Suc m" using more.prems(2) by (cases n) auto
  have "m \<noteq> 0" using more.hyps more.prems(1) n by (cases m) auto
  moreover have "drop_bit (7 * m) (drop_bit 7 v) = 0"
    using more.prems(1) n by (simp add: add.commute)
  ultimately show ?case using more n by (simp add: Write7_more)
qed

section \<open>Reading back what was written\<close>

lemma ptr_loop_last:
  "b AND 0x80 = 0 \<Longrightarrow> Read7BitEncoded_ptr_loop q b shift r = Inr (r, q)"
  by (subst Read7BitEncoded_ptr_loop.simps) simp

lemma ptr_loop_more:
  "b AND 0x80 \<noteq> 0 \<Longrightarrow> Read7BitEncoded_ptr_loop (b' # q) b shift r =
     (if 64 \<le> shift + 7 then Inl E_FAIL
      else Read7BitEncoded_ptr_loop q b' (shift + 7) (r OR push_bit shift (ucast (b' AND 0x7F))))"
  by (subst Read7BitEncoded_ptr_loop.simps) (simp add: Let_def)

lemma Read7_ptr_loop_write:
  assumes "b AND 0x80 \<noteq> 0" and "7 dvd shift" and "shift \<le> 63"
    and "drop_bit (64 - shift) v = 0"
  shows "Read7BitEncoded_ptr_loop (Write7BitEncoded v @ rest) b shift r =
     (if shift < 63 \<and> drop_bit (63 - shift) v = 0
      then Inr (r OR push_bit shift v, rest) else Inl E_FAIL)"
  using assms
proof (induction v arbitrary: b shift r rule: Write7_induct)
  case (last v)
  have "64 \<le> shift + 7 \<longleftrightarrow> shift = 63" using last.prems(2,3) by presburger
  moreover have "shift < 63 \<Longrightarrow> 7 \<le> 63 - shift" using last.prems(2,3) by presburger
  then have "shift < 63 \<Longrightarrow> drop_bit (63 - shift) v = 0"
    using drop_bit_0_mono [OF last.hyps] by blast
  moreover note low7 = byte_low7_cont(1,3) [of v, unfolded low7_only [OF last.hyps]]
  ultimately show ?case
    using last.prems(3)
    by (auto simp: Write7_last [OF last.hyps] ptr_loop_more [OF last.prems(1)]
        low7_only [OF last.hyps] ptr_loop_last [OF low7(1)] low7(2))
next
  case (more v)
  let ?v' = "drop_bit 7 v" and ?b' = "(ucast (v AND 0x7F) OR 0x80 :: byte)"
  show ?case
  proof (cases "shift = 63")
    case True
    then show ?thesis using more.prems(1)
      by (simp add: Write7_more [OF more.hyps] ptr_loop_more [OF more.prems(1)])
  next
    case False
    then have le: "shift \<le> 56" using more.prems(2,3) by presburger
    then have dr: "drop_bit (64 - (shift + 7)) ?v' = drop_bit (64 - shift) v"
      "drop_bit (63 - (shift + 7)) ?v' = drop_bit (63 - shift) v" by simp_all
    have "7 dvd shift + 7" "shift + 7 \<le> 63" using more.prems(2) le by auto
    note IH = more.IH [OF byte_low7_cont(2) this, unfolded dr, OF more.prems(4), of v]
    have "shift = 56 \<Longrightarrow> drop_bit (63 - shift) v \<noteq> 0" using more.hyps by simp
    then have "shift + 7 < 63 \<and> drop_bit (63 - shift) v = 0
        \<longleftrightarrow> shift < 63 \<and> drop_bit (63 - shift) v = 0" using le by (cases "shift = 56") auto
    then show ?thesis
      using le IH
      by (simp add: Write7_more [OF more.hyps] ptr_loop_more [OF more.prems(1)]
          byte_low7_cont(4) push_bit_join7 del: push_bit_and)
  qed
qed

context stream
begin

lemma BinaryReader_ReadByte_content:
  assumes "inv s" and "content s = b # rest"
  shows "\<exists>s'. BinaryReader_ReadByte read s = (Inr b, s') \<and> inv s' \<and> content s' = rest"
  using ReadByte_content [OF assms(1)] assms(2) by (auto simp: BinaryReader_ReadByte_def)

lemma BinaryReader_ReadByte_eof:
  assumes "inv s" and "content s = []"
  shows "\<exists>s'. BinaryReader_ReadByte read s = (Inl EndOfStream, s') \<and> inv s' \<and> content s' = []"
  using ReadByte_content [OF assms(1)] assms(2) by (auto simp: BinaryReader_ReadByte_def)

lemma Read7_loop_write:
  assumes "inv s" and "content s = Write7BitEncoded v @ rest"
    and "shift < 64" and "drop_bit (64 - shift) v = 0"
  shows "\<exists>s'. Read7BitEncoded_loop read s shift r = (Inr (r OR push_bit shift v), s')
     \<and> inv s' \<and> content s' = rest"
  using assms
proof (induction v arbitrary: s shift r rule: Write7_induct)
  case (last v)
  then obtain s' where "BinaryReader_ReadByte read s = (Inr (ucast (v AND 0x7F)), s')"
      "inv s'" "content s' = rest"
    using BinaryReader_ReadByte_content [OF last.prems(1)] by (auto simp: Write7_last)
  then show ?case
    using last.prems(3) byte_low7_cont [of v] low7_only [OF last.hyps]
    by (simp add: Read7BitEncoded_loop.simps [of _ s])
next
  case (more v)
  let ?v' = "drop_bit 7 v" and ?b = "(ucast (v AND 0x7F) OR 0x80 :: byte)"
  obtain s' where rd: "BinaryReader_ReadByte read s = (Inr ?b, s')" "inv s'"
      "content s' = Write7BitEncoded ?v' @ rest"
    using BinaryReader_ReadByte_content [OF more.prems(1)] more.prems(2)
    by (auto simp: Write7_more [OF more.hyps])
  have sh: "shift + 7 < 64"
    using more.hyps more.prems(4) drop_bit_0_mono [of "64 - shift" v 7] by fastforce
  then have "drop_bit (64 - (shift + 7)) ?v' = 0" using more.prems(4) by simp
  from more.IH [OF rd(2,3) sh this, where r = "r OR push_bit shift (v AND 0x7F)"] show ?case
    using rd(1) more.prems(3) byte_low7_cont(2,4) [of v]
    by (simp add: Read7BitEncoded_loop.simps [of _ s] push_bit_join7 del: push_bit_and)
qed

lemma Read7_write:
  assumes "inv s" and "content s = Write7BitEncoded v @ rest"
  shows "\<exists>s'. BinaryReader_Read7BitEncoded read s = (Inr v, s') \<and> inv s' \<and> content s' = rest"
  using Read7_loop_write [OF assms, of 0 0] by (simp add: BinaryReader_Read7BitEncoded_def)

end

section \<open>Sizes, integers and blobs\<close>

text \<open>\<open>ReadSize\<close>: \<open>size_t\<close> has 64 bits, so its overflow test never fires.\<close>

definition WriteSize :: "nat \<Rightarrow> byte list" where
  "WriteSize n = Write7BitEncoded (of_nat n)"

definition BinaryReader_ReadSize :: "'s reader \<Rightarrow> 's \<Rightarrow> nat res \<times> 's" where
  "BinaryReader_ReadSize read s =
     (case BinaryReader_Read7BitEncoded read s of
        (Inl e, s') \<Rightarrow> (Inl e, s')
      | (Inr v, s') \<Rightarrow> (Inr (unat v), s'))"

text \<open>\<open>WriteType\<close> and \<open>ReadType\<close> on an arithmetic type of \<open>LENGTH('a) div 8\<close> bytes.\<close>

definition WriteType :: "'a::len word \<Rightarrow> byte list" where
  "WriteType v = bytes_le (LENGTH('a) div 8) v"

definition BinaryReader_ReadType :: "'s reader \<Rightarrow> 's \<Rightarrow> 'a::len word res \<times> 's" where
  "BinaryReader_ReadType read s =
     (case Stream_ReadExactly read s (LENGTH('a) div 8) of
        (Inl e, s') \<Rightarrow> (Inl e, s')
      | (Inr bs, s') \<Rightarrow> (Inr (le_word bs), s'))"

definition WriteBlob :: "byte list \<Rightarrow> byte list" where
  "WriteBlob mb = WriteSize (length mb) @ mb"

definition INITIAL_BUFSIZE :: nat where
  "INITIAL_BUFSIZE = 4096"

text \<open>
  \<open>BinaryReader::operator>> (Blob)\<close>.  An error carries the size the blob had been resized to
  when it was thrown.  The value is \<open>None\<close> while the loop has not ended.
\<close>

type_synonym 's blob_result = "((ext_error \<times> nat) + byte list) \<times> 's"

partial_function (option) ReadBlob_loop ::
    "'s reader \<Rightarrow> 's \<Rightarrow> nat \<Rightarrow> nat \<Rightarrow> nat \<Rightarrow> byte list \<Rightarrow> 's blob_result option" where
  "ReadBlob_loop read s sz curSize offset blob =
     (if offset < sz then
        let curSize' = min (curSize * 2) sz
        in case Stream_ReadExactly read s (curSize' - offset) of
             (Inl e, s') \<Rightarrow> Some (Inl (e, curSize'), s')
           | (Inr bs, s') \<Rightarrow>
               ReadBlob_loop read s' sz curSize' curSize' (take offset blob @ bs)
      else Some (Inr blob, s))"

declare ReadBlob_loop.simps [code]

definition ReadBlob :: "'s reader \<Rightarrow> 's \<Rightarrow> 's blob_result option" where
  "ReadBlob read s =
     (case BinaryReader_ReadSize read s of
        (Inl e, s') \<Rightarrow> Some (Inl (e, 0), s')
      | (Inr sz, s') \<Rightarrow>
          if sz \<le> INITIAL_BUFSIZE
          then (case Stream_ReadExactly read s' sz of
                  (Inl e, s'') \<Rightarrow> Some (Inl (e, sz), s'')
                | (Inr bs, s'') \<Rightarrow> Some (Inr bs, s''))
          else ReadBlob_loop read s' sz INITIAL_BUFSIZE 0 [])"

section \<open>Vectors, maps and pairs\<close>

definition Write_vector :: "('a \<Rightarrow> byte list) \<Rightarrow> 'a list \<Rightarrow> byte list" where
  "Write_vector enc ar = WriteSize (length ar) @ concat (map enc ar)"

fun Read_elems :: "('s \<Rightarrow> 'a res \<times> 's) \<Rightarrow> 's \<Rightarrow> nat \<Rightarrow> 'a list res \<times> 's" where
  "Read_elems dec s 0 = (Inr [], s)"
| "Read_elems dec s (Suc n) =
     (case dec s of
        (Inl e, s') \<Rightarrow> (Inl e, s')
      | (Inr x, s') \<Rightarrow>
          (case Read_elems dec s' n of
             (Inl e, s'') \<Rightarrow> (Inl e, s'')
           | (Inr xs, s'') \<Rightarrow> (Inr (x # xs), s'')))"

definition Read_vector :: "'s reader \<Rightarrow> ('s \<Rightarrow> 'a res \<times> 's) \<Rightarrow> 's \<Rightarrow> 'a list res \<times> 's" where
  "Read_vector read dec s =
     (case BinaryReader_ReadSize read s of
        (Inl e, s') \<Rightarrow> (Inl e, s')
      | (Inr n, s') \<Rightarrow> Read_elems dec s' n)"

definition Write_pair :: "('a \<Rightarrow> byte list) \<Rightarrow> ('b \<Rightarrow> byte list) \<Rightarrow> 'a \<times> 'b \<Rightarrow> byte list" where
  "Write_pair enc1 enc2 pp = enc1 (fst pp) @ enc2 (snd pp)"

definition Read_pair ::
    "('s \<Rightarrow> 'a res \<times> 's) \<Rightarrow> ('s \<Rightarrow> 'b res \<times> 's) \<Rightarrow> 's \<Rightarrow> ('a \<times> 'b) res \<times> 's" where
  "Read_pair dec1 dec2 s =
     (case dec1 s of
        (Inl e, s') \<Rightarrow> (Inl e, s')
      | (Inr x, s') \<Rightarrow>
          (case dec2 s' of
             (Inl e, s'') \<Rightarrow> (Inl e, s'')
           | (Inr y, s'') \<Rightarrow> (Inr (x, y), s'')))"

text \<open>
  A \<open>std::map\<close> is the list of its pairs in key order; \<open>insert\<close> keeps an entry that is there.
  \<open>Read (std::map)\<close> clears the map and inserts the pairs it reads one by one.
\<close>

fun std_map_insert :: "'k::linorder \<times> 'v \<Rightarrow> ('k \<times> 'v) list \<Rightarrow> ('k \<times> 'v) list" where
  "std_map_insert p [] = [p]"
| "std_map_insert p (q # m) =
     (if fst p < fst q then p # q # m
      else if fst p = fst q then q # m
      else q # std_map_insert p m)"

definition Write_map :: "('k::linorder \<times> 'v \<Rightarrow> byte list) \<Rightarrow> ('k \<times> 'v) list \<Rightarrow> byte list" where
  "Write_map enc m = WriteSize (length m) @ concat (map enc m)"

fun Read_map_loop ::
    "('s \<Rightarrow> ('k::linorder \<times> 'v) res \<times> 's) \<Rightarrow> 's \<Rightarrow> nat \<Rightarrow> ('k \<times> 'v) list
     \<Rightarrow> ('k \<times> 'v) list res \<times> 's" where
  "Read_map_loop dec s 0 m = (Inr m, s)"
| "Read_map_loop dec s (Suc n) m =
     (case dec s of
        (Inl e, s') \<Rightarrow> (Inl e, s')
      | (Inr pp, s') \<Rightarrow> Read_map_loop dec s' n (std_map_insert pp m))"

definition Read_map ::
    "'s reader \<Rightarrow> ('s \<Rightarrow> ('k::linorder \<times> 'v) res \<times> 's) \<Rightarrow> 's \<Rightarrow> ('k \<times> 'v) list res \<times> 's" where
  "Read_map read dec s =
     (case BinaryReader_ReadSize read s of
        (Inl e, s') \<Rightarrow> (Inl e, s')
      | (Inr n, s') \<Rightarrow> Read_map_loop dec s' n [])"

section \<open>Single bits\<close>

record bit_reader =
  br_n :: nat
  br_b :: byte

definition BitReader :: bit_reader where
  "BitReader = \<lparr>br_n = 0, br_b = 0\<rparr>"

text \<open>\<open>BitReader::ReadBit\<close>: fetches a byte when none is left, and gives its highest bit left.\<close>

definition BitReader_ReadBit ::
    "'s reader \<Rightarrow> bit_reader \<times> 's \<Rightarrow> bool res \<times> bit_reader \<times> 's" where
  "BitReader_ReadBit read rs =
     (case rs of (r, s) \<Rightarrow>
        if br_n r = 0 then
          (case Stream_ReadExactly read s 1 of
             (Inl e, s') \<Rightarrow> (Inl e, r, s')
           | (Inr bs, s') \<Rightarrow> (Inr (bit (hd bs) 7), \<lparr>br_n = 7, br_b = hd bs\<rparr>, s'))
        else (Inr (bit (br_b r) (br_n r - 1)), r\<lparr>br_n := br_n r - 1\<rparr>, s))"

fun BitReader_ReadBits ::
    "'s reader \<Rightarrow> nat \<Rightarrow> bit_reader \<times> 's \<Rightarrow> bool list res \<times> bit_reader \<times> 's" where
  "BitReader_ReadBits read 0 rs = (Inr [], rs)"
| "BitReader_ReadBits read (Suc k) rs =
     (case BitReader_ReadBit read rs of
        (Inl e, rs') \<Rightarrow> (Inl e, rs')
      | (Inr b, rs') \<Rightarrow>
          (case BitReader_ReadBits read k rs' of
             (Inl e, rs'') \<Rightarrow> (Inl e, rs'')
           | (Inr bs, rs'') \<Rightarrow> (Inr (b # bs), rs'')))"

text \<open>The bits of a byte string, most significant first.\<close>

definition msb_bits :: "byte list \<Rightarrow> bool list" where
  "msb_bits bs = concat (map (\<lambda>b. map (bit b) (rev [0..<8])) bs)"

definition pending_bits :: "bit_reader \<Rightarrow> bool list" where
  "pending_bits r = map (bit (br_b r)) (rev [0..<br_n r])"

section \<open>The codec interface\<close>

locale codec = stream read content inv
  for read :: "'s \<Rightarrow> nat \<Rightarrow> byte list \<times> 's" and content inv +
  fixes enc :: "'a \<Rightarrow> byte list"
    and dec :: "'s \<Rightarrow> 'a res \<times> 's"
    and ok :: "'a \<Rightarrow> bool"
  assumes dec_enc: "inv s \<Longrightarrow> content s = enc x @ rest \<Longrightarrow> ok x \<Longrightarrow>
    \<exists>s'. dec s = (Inr x, s') \<and> inv s' \<and> content s' = rest"

definition vec_ok :: "('a \<Rightarrow> bool) \<Rightarrow> 'a list \<Rightarrow> bool" where
  "vec_ok ok xs \<longleftrightarrow> length xs < 2 ^ 64 \<and> list_all ok xs"

definition map_ok :: "('k::linorder \<times> 'v \<Rightarrow> bool) \<Rightarrow> ('k \<times> 'v) list \<Rightarrow> bool" where
  "map_ok ok m \<longleftrightarrow> length m < 2 ^ 64 \<and> list_all ok m \<and> sorted_wrt (<) (map fst m)"

section \<open>The readers undo the writers\<close>

context stream
begin

lemma ReadSize_write:
  assumes "inv s" and "content s = WriteSize n @ rest" and "n < 2 ^ 64"
  shows "\<exists>s'. BinaryReader_ReadSize read s = (Inr n, s') \<and> inv s' \<and> content s' = rest"
  using Read7_write [OF assms(1)] assms(2,3)
  by (fastforce simp: WriteSize_def BinaryReader_ReadSize_def unat_of_nat take_bit_nat_eq_self_iff)

lemma ReadType_write:
  assumes "inv s" and "content s = WriteType (v :: 'a::len word) @ rest" and "8 dvd LENGTH('a)"
  shows "\<exists>s'. BinaryReader_ReadType read s = (Inr v, s') \<and> inv s' \<and> content s' = rest"
proof -
  have "8 * (LENGTH('a) div 8) = LENGTH('a)" using assms(3) by simp
  moreover have "LENGTH('a) div 8 \<le> length (content s)"
    using assms(2) by (simp add: WriteType_def)
  ultimately show ?thesis
    using ReadExactly_ok [OF assms(1), of "LENGTH('a) div 8"] assms(2)
    by (auto simp: BinaryReader_ReadType_def WriteType_def)
qed

lemma ReadBlob_loop_ok:
  assumes "inv s" and "sz - offset \<le> length (content s)" and "offset \<le> curSize" and "0 < curSize"
    and "length blob = offset" and "offset \<le> sz"
  shows "\<exists>s'. ReadBlob_loop read s sz curSize offset blob
      = Some (Inr (blob @ take (sz - offset) (content s)), s')
    \<and> inv s' \<and> content s' = drop (sz - offset) (content s)"
  using assms
proof (induction "sz - offset" arbitrary: s curSize offset blob rule: less_induct)
  case less
  show ?case
  proof (cases "offset < sz")
    case False
    then show ?thesis using less.prems by (subst ReadBlob_loop.simps) simp
  next
    case True
    let ?c = "min (curSize * 2) sz"
    let ?n = "?c - offset"
    have c: "offset < ?c" "?c \<le> sz" using True less.prems(3,4) by auto
    then obtain s' where rd: "Stream_ReadExactly read s ?n = (Inr (take ?n (content s)), s')"
        "inv s'" "content s' = drop ?n (content s)"
      using ReadExactly_ok [OF less.prems(1), of ?n] less.prems(2) by fastforce
    have lt: "sz - ?c < sz - offset" using c by linarith
    have len: "?n \<le> length (content s)" using less.prems(2) c by simp
    have "\<exists>s''. ReadBlob_loop read s' sz ?c ?c (blob @ take ?n (content s))
        = Some (Inr ((blob @ take ?n (content s)) @ take (sz - ?c) (content s')), s'')
      \<and> inv s'' \<and> content s'' = drop (sz - ?c) (content s')"
      using c len less.prems(2,4,5) rd(3)
      by (intro less.hyps [OF lt rd(2)]) (auto simp: min_def)
    moreover have n: "?n + (sz - ?c) = sz - offset" "sz - ?c + ?n = sz - offset"
      using c by linarith+
    moreover have "take ?n (content s) @ take (sz - ?c) (drop ?n (content s))
        = take (sz - offset) (content s)"
      by (simp only: take_add [symmetric] n)
    ultimately show ?thesis
      using rd True less.prems(5) by (subst ReadBlob_loop.simps) (auto simp: Let_def)
  qed
qed

lemma ReadBlob_write:
  assumes "inv s" and "content s = WriteBlob mb @ rest" and "length mb < 2 ^ 64"
  shows "\<exists>s'. ReadBlob read s = Some (Inr mb, s') \<and> inv s' \<and> content s' = rest"
proof -
  obtain s' where sz: "BinaryReader_ReadSize read s = (Inr (length mb), s')" "inv s'"
      "content s' = mb @ rest"
    using ReadSize_write [OF assms(1) _ assms(3)] assms(2) by (auto simp: WriteBlob_def)
  show ?thesis
  proof (cases "length mb \<le> INITIAL_BUFSIZE")
    case True
    then show ?thesis
      using ReadExactly_ok [OF sz(2), of "length mb"] sz by (auto simp: ReadBlob_def)
  next
    case False
    then show ?thesis
      using ReadBlob_loop_ok [OF sz(2), of "length mb" 0 INITIAL_BUFSIZE "[]"] sz
      by (simp add: ReadBlob_def INITIAL_BUFSIZE_def)
  qed
qed

text \<open>
  A size field that lies: the blob fails with the end of the stream, and was never larger than
  twice what the stream really held (or 8192 bytes).
\<close>

lemma ReadBlob_loop_eof:
  assumes "inv s" and "length (content s) < sz - offset" and "offset \<le> curSize" and "0 < curSize"
    and "curSize \<le> max INITIAL_BUFSIZE offset" and "length blob = offset"
  shows "\<exists>n s'. ReadBlob_loop read s sz curSize offset blob = Some (Inl (EndOfStream, n), s')
    \<and> n \<le> max (2 * INITIAL_BUFSIZE) (2 * (offset + length (content s)))"
  using assms
proof (induction "sz - offset" arbitrary: s curSize offset blob rule: less_induct)
  case less
  let ?c = "min (curSize * 2) sz"
  let ?n = "?c - offset"
  have c: "offset < ?c" "?c \<le> sz" using less.prems(2,3,4) by auto
  show ?case
  proof (cases "length (content s) < ?n")
    case True
    then obtain s' where "Stream_ReadExactly read s ?n = (Inl EndOfStream, s')"
      using ReadExactly_eof [OF less.prems(1)] by blast
    moreover have "?c \<le> max (2 * INITIAL_BUFSIZE) (2 * (offset + length (content s)))"
      using less.prems(5) by (auto simp: min_def max_def split: if_splits)
    ultimately show ?thesis using c by (subst ReadBlob_loop.simps) (auto simp: Let_def)
  next
    case False
    then obtain s' where rd: "Stream_ReadExactly read s ?n = (Inr (take ?n (content s)), s')"
        "inv s'" "content s' = drop ?n (content s)"
      using ReadExactly_ok [OF less.prems(1), of ?n] by fastforce
    have lt: "sz - ?c < sz - offset" using c by linarith
    have len: "length (content s') = length (content s) - ?n" using rd(3) by simp
    have "\<exists>n s''. ReadBlob_loop read s' sz ?c ?c (blob @ take ?n (content s))
        = Some (Inl (EndOfStream, n), s'')
      \<and> n \<le> max (2 * INITIAL_BUFSIZE) (2 * (?c + length (content s')))"
      using c len False less.prems(2,6)
      by (intro less.hyps [OF lt rd(2)]) (auto simp del: min_less_iff_conj)
    moreover have "?c + length (content s') = offset + length (content s)"
      using c len False by linarith
    ultimately show ?thesis
      using rd(1) c less.prems(6) by (subst ReadBlob_loop.simps) (auto simp: Let_def)
  qed
qed

lemma ReadBlob_truncated:
  assumes "inv s" and "content s = WriteSize n @ rest" and "n < 2 ^ 64" and "length rest < n"
  shows "\<exists>m s'. ReadBlob read s = Some (Inl (EndOfStream, m), s')
    \<and> m \<le> max (2 * INITIAL_BUFSIZE) (2 * length rest)"
proof -
  obtain s' where sz: "BinaryReader_ReadSize read s = (Inr n, s')" "inv s'" "content s' = rest"
    using ReadSize_write [OF assms(1,2,3)] by auto
  show ?thesis
  proof (cases "n \<le> INITIAL_BUFSIZE")
    case True
    then show ?thesis
      using ReadExactly_eof [OF sz(2), of n] sz assms(4) by (auto simp: ReadBlob_def)
  next
    case False
    then show ?thesis
      using ReadBlob_loop_eof [OF sz(2), of n 0 INITIAL_BUFSIZE "[]"] sz assms(4)
      by (simp add: ReadBlob_def INITIAL_BUFSIZE_def)
  qed
qed

end

context codec
begin

lemma Read_elems_enc:
  assumes "inv s" and "content s = concat (map enc xs) @ rest" and "list_all ok xs"
  shows "\<exists>s'. Read_elems dec s (length xs) = (Inr xs, s') \<and> inv s' \<and> content s' = rest"
  using assms
proof (induction xs arbitrary: s)
  case Nil
  then show ?case by simp
next
  case (Cons x xs)
  obtain s' where "dec s = (Inr x, s')" "inv s'" "content s' = concat (map enc xs) @ rest"
    using dec_enc [of s x] Cons.prems by auto
  then show ?case using Cons.IH [of s'] Cons.prems(3) by auto
qed

lemma vector_codec: "codec read content inv (Write_vector enc) (Read_vector read dec) (vec_ok ok)"
proof
  fix s xs rest
  assume "inv s" and "content s = Write_vector enc xs @ rest" and "vec_ok ok xs"
  then show "\<exists>s'. Read_vector read dec s = (Inr xs, s') \<and> inv s' \<and> content s' = rest"
    using ReadSize_write [of s "length xs" "concat (map enc xs) @ rest"]
    by (auto simp: Write_vector_def Read_vector_def vec_ok_def dest: Read_elems_enc)
qed

end

lemma std_map_insert_last:
  "sorted_wrt (<) (map fst (m @ [p])) \<Longrightarrow> std_map_insert p m = m @ [p]"
proof (induction m)
  case (Cons q m)
  then have "fst q < fst p" by (simp add: sorted_wrt_append)
  then have "\<not> fst p < fst q" "fst p \<noteq> fst q" by auto
  then show ?case using Cons by (simp add: sorted_wrt_append)
qed simp

text \<open>Whatever order the pairs come in, the map stays sorted and an earlier pair wins.\<close>

lemma set_std_map_insert: "fst ` set (std_map_insert p m) = insert (fst p) (fst ` set m)"
  by (induction m) auto

lemma std_map_insert_sorted [wf]:
  "sorted_wrt (<) (map fst m) \<Longrightarrow> sorted_wrt (<) (map fst (std_map_insert p m))"
proof (induction m)
  case (Cons q m)
  have "\<forall>k\<in>fst ` set (std_map_insert p m). fst q < k" if "fst q < fst p"
    using Cons.prems that by (simp add: set_std_map_insert)
  then show ?case using Cons by (auto simp: not_less dest: order.strict_trans)
qed simp

lemma map_of_std_map_insert:
  "sorted_wrt (<) (map fst m) \<Longrightarrow>
   map_of (std_map_insert p m) = (case map_of m (fst p) of
      None \<Rightarrow> (map_of m)(fst p \<mapsto> snd p) | Some _ \<Rightarrow> map_of m)"
proof (induction m)
  case Nil
  then show ?case by (cases p) auto
next
  case (Cons q m)
  have none: "map_of m (fst p) = None" if "fst p < fst q"
    using Cons.prems that by (auto simp: map_of_eq_None_iff dest: order.strict_trans)
  show ?case
    using Cons none by (cases p; cases q) (auto split: option.splits)
qed

context stream
begin

lemma Read_map_loop_enc:
  fixes encp :: "'k::linorder \<times> 'v \<Rightarrow> byte list"
  assumes "codec read content inv encp decp okp"
    and "inv s" and "content s = concat (map encp m) @ rest" and "list_all okp m"
    and "sorted_wrt (<) (map fst (acc @ m))"
  shows "\<exists>s'. Read_map_loop decp s (length m) acc = (Inr (acc @ m), s') \<and> inv s' \<and> content s' = rest"
  using assms(2-)
proof (induction m arbitrary: s acc)
  case Nil
  then show ?case by simp
next
  case (Cons p m)
  obtain s' where s': "decp s = (Inr p, s')" "inv s'" "content s' = concat (map encp m) @ rest"
    using codec.dec_enc [OF assms(1), of s p] Cons.prems by auto
  have "std_map_insert p acc = acc @ [p]"
    using Cons.prems(4) by (intro std_map_insert_last) (auto simp: sorted_wrt_append)
  then show ?case using Cons.IH [of s' "acc @ [p]"] s' Cons.prems(3,4) by auto
qed

lemma map_codec:
  fixes encp :: "'k::linorder \<times> 'v \<Rightarrow> byte list"
  assumes "codec read content inv encp decp okp"
  shows "codec read content inv (Write_map encp) (Read_map read decp) (map_ok okp)"
proof
  fix s m rest
  assume s: "inv s" and c: "content s = Write_map encp m @ rest" and m: "map_ok okp m"
  obtain s' where "BinaryReader_ReadSize read s = (Inr (length m), s')" "inv s'"
      "content s' = concat (map encp m) @ rest"
    using ReadSize_write [OF s, of "length m"] c m by (auto simp: Write_map_def map_ok_def)
  then show "\<exists>s'. Read_map read decp s = (Inr m, s') \<and> inv s' \<and> content s' = rest"
    using Read_map_loop_enc [OF assms, of s' m rest "[]"] m by (simp add: Read_map_def map_ok_def)
qed

lemma pair_codec:
  assumes "codec read content inv enc1 dec1 ok1" and "codec read content inv enc2 dec2 ok2"
  shows "codec read content inv (Write_pair enc1 enc2) (Read_pair dec1 dec2)
    (\<lambda>p. ok1 (fst p) \<and> ok2 (snd p))"
proof
  fix s p rest
  assume "inv s" "content s = Write_pair enc1 enc2 p @ rest" "ok1 (fst p) \<and> ok2 (snd p)"
  then obtain s' where "dec1 s = (Inr (fst p), s')" "inv s'" "content s' = enc2 (snd p) @ rest"
    using codec.dec_enc [OF assms(1), of s "fst p" "enc2 (snd p) @ rest"]
    by (auto simp: Write_pair_def)
  then show "\<exists>s'. Read_pair dec1 dec2 s = (Inr p, s') \<and> inv s' \<and> content s' = rest"
    using codec.dec_enc [OF assms(2), of s' "snd p" rest] \<open>ok1 (fst p) \<and> ok2 (snd p)\<close>
    by (auto simp: Read_pair_def)
qed

lemma varint_codec:
  "codec read content inv Write7BitEncoded (BinaryReader_Read7BitEncoded read) (\<lambda>_. True)"
  by unfold_locales (use Read7_write in blast)

lemma int_codec:
  assumes "8 dvd LENGTH('a::len)"
  shows "codec read content inv WriteType
    (BinaryReader_ReadType read :: 's \<Rightarrow> 'a word res \<times> 's) (\<lambda>_. True)"
  by unfold_locales (use ReadType_write assms in blast)

lemma BitReader_step:
  assumes "inv s" and "pending_bits r @ msb_bits (content s) = b # bs" and "br_n r \<le> 8"
  shows "\<exists>r' s'. BitReader_ReadBit read (r, s) = (Inr b, r', s') \<and> inv s' \<and> br_n r' \<le> 8
    \<and> pending_bits r' @ msb_bits (content s') = bs"
proof (cases "br_n r")
  case 0
  then obtain x t where ct: "content s = x # t"
    using assms(2) by (cases "content s") (auto simp: pending_bits_def msb_bits_def)
  then obtain s' where "Stream_ReadExactly read s 1 = (Inr [x], s')" "inv s'" "content s' = t"
    using ReadExactly_ok [OF assms(1), of 1] by auto
  moreover have "pending_bits \<lparr>br_n = 8, br_b = x\<rparr> @ msb_bits t = b # bs"
    using assms(2) 0 ct by (simp add: pending_bits_def msb_bits_def)
  then have "b = bit x 7" "pending_bits \<lparr>br_n = 7, br_b = x\<rparr> @ msb_bits t = bs"
    by (simp_all add: pending_bits_def upt_rec numeral_eq_Suc)
  ultimately show ?thesis using 0 by (simp add: BitReader_ReadBit_def)
next
  case (Suc n)
  then show ?thesis using assms by (auto simp: BitReader_ReadBit_def pending_bits_def)
qed

lemma BitReader_ReadBits_msb:
  assumes "inv s" and "k \<le> length (pending_bits r @ msb_bits (content s))" and "br_n r \<le> 8"
  shows "\<exists>r' s'. BitReader_ReadBits read k (r, s)
      = (Inr (take k (pending_bits r @ msb_bits (content s))), r', s') \<and> inv s' \<and> br_n r' \<le> 8
    \<and> pending_bits r' @ msb_bits (content s') = drop k (pending_bits r @ msb_bits (content s))"
  using assms
proof (induction k arbitrary: r s)
  case 0
  then show ?case by simp
next
  case (Suc k)
  then obtain b bs where bs: "pending_bits r @ msb_bits (content s) = b # bs"
    by (cases "pending_bits r @ msb_bits (content s)") auto
  obtain r' s' where st: "BitReader_ReadBit read (r, s) = (Inr b, r', s')" "inv s'" "br_n r' \<le> 8"
      "pending_bits r' @ msb_bits (content s') = bs"
    using BitReader_step [OF Suc.prems(1) bs Suc.prems(3)] by blast
  have "k \<le> length (pending_bits r' @ msb_bits (content s'))"
    using Suc.prems(2) bs st(4) by simp
  from Suc.IH [OF st(2) this st(3)] show ?case using bs st(1,4) by auto
qed

end

text \<open>The memory stream's codecs.\<close>

interpretation varint: codec CMemReadStream_Read mem_content mem_inv
  Write7BitEncoded "BinaryReader_Read7BitEncoded CMemReadStream_Read" "\<lambda>_. True"
  by (rule mem.varint_codec)

interpretation varints: codec CMemReadStream_Read mem_content mem_inv
  "Write_vector Write7BitEncoded"
  "Read_vector CMemReadStream_Read (BinaryReader_Read7BitEncoded CMemReadStream_Read)"
  "vec_ok (\<lambda>_. True)"
  by (rule varint.vector_codec)

section \<open>Properties\<close>

text \<open>
  whatever \<open>BinaryWriter::Write7BitEncoded\<close> writes, \<open>BinaryReader::Read7BitEncoded\<close> reads
  back, for every \<open>uint64_t\<close>, and leaves the stream right after it.
\<close>

theorem Read7BitEncoded_roundtrip:
  assumes "mem_inv s" and "mem_content s = Write7BitEncoded v @ rest"
  shows "\<exists>s'. BinaryReader_Read7BitEncoded CMemReadStream_Read s = (Inr v, s')
    \<and> mem_content s' = rest"
  using varint.dec_enc [OF assms] by auto

lemma Write7_300: "Write7BitEncoded 300 = [0xAC, 0x02]"
  by (simp add: Write7BitEncoded.simps)

theorem Read7BitEncoded_roundtrip_witness:
  "\<exists>s'. BinaryReader_Read7BitEncoded CMemReadStream_Read (CMemReadStream [0xAC, 0x02, 7])
    = (Inr 300, s') \<and> mem_content s' = [7]"
  by (rule Read7BitEncoded_roundtrip)
    (simp_all add: Write7_300 mem_inv_def mem_content_def CMemReadStream_def)

lemma drop_bit_63_iff: "drop_bit 63 v = 0 \<longleftrightarrow> v < 2 ^ 63" for v :: u64
proof -
  have "unat (drop_bit 63 v) = unat v div 2 ^ 63"
    by (simp only: unat_drop_bit_eq) (simp only: drop_bit_eq_div)
  then have "drop_bit 63 v = 0 \<longleftrightarrow> unat v < 2 ^ 63"
    by (metis div_eq_0_iff power_not_zero unat_eq_zero zero_neq_numeral)
  then show ?thesis by (simp add: word_less_nat_alt)
qed

text \<open>
  C29: the pointer reader \<open>Ext::Read7BitEncoded\<close> reads back what \<open>Ext::Write7BitEncoded\<close> writes
  for values below \<open>2 ^ 63\<close> and rejects every larger \<open>uint64_t\<close> with \<open>E_FAIL\<close>: it tests the
  shift after the tenth byte, although the writer emits ten bytes for those values.
\<close>

theorem Read7BitEncoded_ptr_write:
  "Read7BitEncoded_ptr (Write7BitEncoded v @ rest) =
     (if v < 2 ^ 63 then Inr (v, rest) else Inl E_FAIL)"
proof (cases "drop_bit 7 v = 0")
  case True
  note low7 = byte_low7_cont(1,3) [of v, unfolded low7_only [OF True]]
  have "v < 2 ^ 63" using drop_bit_0_mono [OF True, of 63] drop_bit_63_iff by simp
  then show ?thesis
    by (simp add: Read7BitEncoded_ptr_def Write7_last [OF True] low7_only [OF True]
        ptr_loop_last [OF low7(1)] low7(2))
next
  case False
  have dr: "drop_bit (64 - 7) (drop_bit 7 v) = 0" "drop_bit (63 - 7) (drop_bit 7 v) = drop_bit 63 v"
    by simp_all
  have "Read7BitEncoded_ptr (Write7BitEncoded v @ rest) =
    Read7BitEncoded_ptr_loop (Write7BitEncoded (drop_bit 7 v) @ rest)
      (ucast (v AND 0x7F) OR 0x80) 7 (v AND 0x7F)"
    by (simp add: Read7BitEncoded_ptr_def Write7_more [OF False] byte_low7_cont(4))
  also have "\<dots> = (if drop_bit 63 v = 0 then Inr ((v AND 0x7F) OR push_bit 7 (drop_bit 7 v), rest)
      else Inl E_FAIL)"
    by (subst Read7_ptr_loop_write [OF byte_low7_cont(2) _ _ dr(1)]) (auto simp: dr(2))
  also have "(v AND 0x7F) OR push_bit 7 (drop_bit 7 v) = v"
    using push_bit_join7 [of 0 0 v] by simp
  finally show ?thesis by (simp add: drop_bit_63_iff)
qed

text \<open>
  reading a blob whose size field says \<open>n\<close>: the next \<open>n\<close> bytes if the stream has them;
  otherwise the end of the stream is reported, and the buffer was never grown beyond twice the
  bytes the stream really held (or 8192), whatever the size field claims.
\<close>

theorem ReadBlob_bounded:
  assumes "mem_inv s" and "mem_content s = WriteSize n @ rest" and "n < 2 ^ 64"
  shows "if n \<le> length rest
    then (\<exists>s'. ReadBlob CMemReadStream_Read s = Some (Inr (take n rest), s')
            \<and> mem_content s' = drop n rest)
    else (\<exists>m s'. ReadBlob CMemReadStream_Read s = Some (Inl (EndOfStream, m), s')
            \<and> m \<le> max (2 * INITIAL_BUFSIZE) (2 * length rest))"
proof (cases "n \<le> length rest")
  case True
  then have "mem_content s = WriteBlob (take n rest) @ drop n rest"
    using assms(2) by (simp add: WriteBlob_def min_def)
  from mem.ReadBlob_write [OF assms(1) this] True assms(3) show ?thesis by auto
next
  case False
  with mem.ReadBlob_truncated [OF assms] show ?thesis by auto
qed

theorem ReadBlob_bounded_witness:
  "\<exists>m s'. ReadBlob CMemReadStream_Read (CMemReadStream [0xAC, 0x02, 7])
     = Some (Inl (EndOfStream, m), s') \<and> m \<le> max (2 * INITIAL_BUFSIZE) 2"
  using ReadBlob_bounded [of "CMemReadStream [0xAC, 0x02, 7]" 300 "[7]"]
  by (simp add: WriteSize_def Write7_300 mem_inv_def mem_content_def CMemReadStream_def)

text \<open>
  a \<open>std::map\<close> of 32-bit keys to vectors of \<open>uint64_t\<close>, written entry by entry in key
  order, is rebuilt exactly by \<open>BinaryReader::Read (std::map)\<close>.
\<close>

theorem Read_map_roundtrip:
  fixes m :: "(u32 \<times> u64 list) list"
  assumes "mem_inv s"
    and "mem_content s = Write_map (Write_pair WriteType (Write_vector Write7BitEncoded)) m @ rest"
    and "sorted_wrt (<) (map fst m)" and "length m < 2 ^ 64"
    and "list_all (\<lambda>p. length (snd p) < 2 ^ 64) m"
  shows "\<exists>s'. Read_map CMemReadStream_Read
      (Read_pair (BinaryReader_ReadType CMemReadStream_Read)
        (Read_vector CMemReadStream_Read (BinaryReader_Read7BitEncoded CMemReadStream_Read))) s
    = (Inr m, s') \<and> mem_content s' = rest"
proof -
  have "map_ok (\<lambda>p. True \<and> vec_ok (\<lambda>_. True) (snd p)) m"
    using assms(3-5) by (simp add: map_ok_def vec_ok_def list_all_iff)
  from codec.dec_enc [OF mem.map_codec [OF mem.pair_codec [OF mem.int_codec varints.codec_axioms]]
      assms(1,2) this]
  show ?thesis by auto
qed

theorem Read_map_roundtrip_witness:
  "\<exists>s'. Read_map CMemReadStream_Read
      (Read_pair (BinaryReader_ReadType CMemReadStream_Read)
        (Read_vector CMemReadStream_Read (BinaryReader_Read7BitEncoded CMemReadStream_Read)))
      (CMemReadStream [2, 5, 0, 0, 0, 1, 0xAC, 0x02, 9, 0, 0, 0, 0])
    = (Inr [(5 :: u32, [300]), (9, [])], s') \<and> mem_content s' = []"
  by (rule Read_map_roundtrip)
    (simp_all add: Write_map_def Write_pair_def Write_vector_def WriteType_def WriteSize_def
      Write7_300 bytes_le_def upt_rec mem_inv_def mem_content_def CMemReadStream_def
      Write7BitEncoded.simps [of 0] Write7BitEncoded.simps [of 1] Write7BitEncoded.simps [of 2])

text \<open>
  \<open>BitReader\<close> yields the bits of its stream's bytes, most significant bit first, and
  fails with the end of the stream only when they are used up.
\<close>

theorem BitReader_bits:
  assumes "mem_inv s" and "k \<le> 8 * length (mem_content s)"
  shows "\<exists>rs. BitReader_ReadBits CMemReadStream_Read k (BitReader, s)
    = (Inr (take k (msb_bits (mem_content s))), rs)"
proof -
  have "length (msb_bits bs) = 8 * length bs" for bs
    by (induction bs) (simp_all add: msb_bits_def)
  then show ?thesis
    using mem.BitReader_ReadBits_msb [OF assms(1), of k BitReader] assms(2)
    by (auto simp: pending_bits_def BitReader_def)
qed

theorem BitReader_bits_witness:
  "\<exists>rs. BitReader_ReadBits CMemReadStream_Read 4 (BitReader, CMemReadStream [0xA0])
    = (Inr [True, False, True, False], rs)"
  using BitReader_bits [of "CMemReadStream [0xA0]" 4]
  by (simp add: msb_bits_def upt_rec mem_inv_def mem_content_def CMemReadStream_def)

end
