(* ===== verification/Hash.thy ===== *)
theory Hash
  imports Streams
begin

text \<open>
  The hash framework of \<open>src/libext/ext-fw.{h,cpp}\<close>: the class \<open>HashAlgorithm\<close> with its virtual
  operations as fields of a record, the driver \<open>ComputeHashImp\<close> that cuts a stream into blocks
  and pads it, \<open>HMAC\<close> and \<open>Crc32\<close>; \<open>PBKDF2\<close> of \<open>src/crypto/pbkdf.cpp\<close>.
  The driver is shown to feed the compression function with a list of blocks and bit counters
  that is given in closed form (\<open>hash_blocks\<close>), for every stream whose reads are full.
\<close>

unbundle bit_operations_syntax

section \<open>The class\<close>

text \<open>
  The word type \<open>'w\<close> is 32 or 64 bits wide (\<open>Is64Bit\<close>).  The chaining value is the list of
  words that \<open>InitHash\<close> sets; the block is the sixteen words of \<open>src\<close> after the change of byte
  order; \<open>HashBlock\<close> gets the bit counter as its last argument.
\<close>

record 'w hash_algorithm =
  BlockSize :: nat
  HashSize :: nat
  IsHaifa :: bool
  IsBigEndian :: bool
  IsLenBigEndian :: bool
  IsBlockCounted :: bool
  InitHash :: "'w list"
  HashBlock :: "'w list \<Rightarrow> 'w list \<Rightarrow> u64 \<Rightarrow> 'w list"
  OutTransform :: "'w list \<Rightarrow> 'w list"

definition HashAlgorithm :: "'w hash_algorithm" where
  "HashAlgorithm = \<lparr>BlockSize = 0, HashSize = 0, IsHaifa = False, IsBigEndian = True,
     IsLenBigEndian = True, IsBlockCounted = False,
     InitHash = [], HashBlock = (\<lambda>h _ _. h), OutTransform = (\<lambda>h. h)\<rparr>"

definition WordCount :: nat where
  "WordCount = 16"

text \<open>Words of a byte buffer, and back, on a little-endian machine with \<open>PrepareEndianness\<close>.\<close>

definition PrepareEndianness_in :: "'w::len word hash_algorithm \<Rightarrow> byte list \<Rightarrow> 'w word list" where
  "PrepareEndianness_in algo bs =
     map (if IsBigEndian algo then be_word else le_word) (chunks (LENGTH('w) div 8) bs)"

text \<open>Only the first \<open>count\<close> words change; those behind keep the machine's byte order.\<close>

definition PrepareEndianness_out :: "'w::len word hash_algorithm \<Rightarrow> nat \<Rightarrow> 'w word list \<Rightarrow> byte list" where
  "PrepareEndianness_out algo count ws =
     concat (map (\<lambda>w. (if IsBigEndian algo then bytes_be else bytes_le) (LENGTH('w) div 8) w) (take count ws))
     @ concat (map (bytes_le (LENGTH('w) div 8)) (drop count ws))"

definition PrepareEndiannessAndHashBlock ::
    "'w::len word hash_algorithm \<Rightarrow> 'w word list \<Rightarrow> byte list \<Rightarrow> u64 \<Rightarrow> 'w word list" where
  "PrepareEndiannessAndHashBlock algo dst src counter =
     HashBlock algo dst (PrepareEndianness_in algo src) counter"

section \<open>The driver\<close>

definition dataSize :: "'w::len word hash_algorithm \<Rightarrow> nat" where
  "dataSize algo = WordCount * (LENGTH('w) div 8)"

text \<open>The room that a last block must leave: a byte for HAIFA's bit, and eight for the length.\<close>

definition tailRoom :: "'w::len word hash_algorithm \<Rightarrow> nat" where
  "tailRoom algo = dataSize algo - (if IsHaifa algo then 1 else 0) - 8"

text \<open>The loop: it gives the buffer, the counter and the length for the last block.\<close>

partial_function (option) ComputeHashImp_loop ::
    "'w::len word hash_algorithm \<Rightarrow> 's reader \<Rightarrow> 's \<Rightarrow> 'w word list \<Rightarrow> u64 \<Rightarrow> bool
     \<Rightarrow> (byte list \<times> u64 \<times> u64 \<times> 'w word list \<times> 's) option" where
  "ComputeHashImp_loop algo read s hash processedLen bLast =
     (if bLast then Some (replicate (dataSize algo) 0, 0, processedLen, hash, s)
      else case read s (dataSize algo) of (bs, s') \<Rightarrow>
        let cb = length bs;
            last = (cb < dataSize algo);
            buf0 = bs @ replicate (dataSize algo - cb) 0;
            buf = (if last then buf0[cb := 0x80] else buf0);
            processedLen' = processedLen + of_nat cb;
            counter = push_bit 3 processedLen';
            rest = unat (processedLen' AND of_nat (dataSize algo - 1))
        in if last \<and> rest < tailRoom algo
           then Some (buf, if rest = 0 then 0 else counter, processedLen', hash, s')
           else ComputeHashImp_loop algo read s'
                  (PrepareEndiannessAndHashBlock algo hash buf counter) processedLen' last)"

declare ComputeHashImp_loop.simps [code]

text \<open>What follows the loop: HAIFA's bit, the length field, the last block and the output.\<close>

definition put_bytes :: "nat \<Rightarrow> byte list \<Rightarrow> byte list \<Rightarrow> byte list" where
  "put_bytes at bs buf = take at buf @ bs @ drop (at + length bs) buf"

definition last_block :: "'w::len word hash_algorithm \<Rightarrow> byte list \<Rightarrow> u64 \<Rightarrow> byte list" where
  "last_block algo buf processedLen =
     (let buf1 = (if IsHaifa algo then buf[dataSize algo - (LENGTH('w) div 8) * 2 - 1 := 1] else buf);
          len = (if IsBlockCounted algo
                 then (processedLen + 8 + of_nat (dataSize algo)) div of_nat (dataSize algo)
                 else push_bit 3 processedLen)
      in put_bytes (dataSize algo - 8) ((if IsLenBigEndian algo then bytes_be else bytes_le) 8 len)
           buf1)"

definition hash_output :: "'w::len word hash_algorithm \<Rightarrow> 'w word list \<Rightarrow> byte list" where
  "hash_output algo hash =
     take (HashSize algo) (PrepareEndianness_out algo 8 (OutTransform algo hash))"

definition ComputeHashImp ::
    "'w::len word hash_algorithm \<Rightarrow> 'w word list \<Rightarrow> 's reader \<Rightarrow> 's \<Rightarrow> u64 \<Rightarrow> byte list option" where
  "ComputeHashImp algo hash read s processedLen =
     map_option (\<lambda>(buf, counter, len, hash', s').
         hash_output algo
           (PrepareEndiannessAndHashBlock algo hash' (last_block algo buf len) counter))
       (ComputeHashImp_loop algo read s hash processedLen False)"

definition ComputeHash_stream ::
    "'w::len word hash_algorithm \<Rightarrow> 's reader \<Rightarrow> 's \<Rightarrow> byte list option" where
  "ComputeHash_stream algo read s = ComputeHashImp algo (InitHash algo) read s 0"

definition ComputeHash :: "'w::len word hash_algorithm \<Rightarrow> byte list \<Rightarrow> byte list option" where
  "ComputeHash algo mb = ComputeHash_stream algo CMemReadStream_Read (CMemReadStream mb)"

definition Finalize ::
    "'w::len word hash_algorithm \<Rightarrow> 'w word list \<Rightarrow> 's reader \<Rightarrow> 's \<Rightarrow> u64 \<Rightarrow> byte list option" where
  "Finalize algo hash read s processedLen = ComputeHashImp algo hash read s processedLen"

section \<open>The blocks that are hashed\<close>

text \<open>
  The blocks and bit counters for a message \<open>m\<close> of which \<open>k\<close> bytes went before: full blocks,
  then one or two blocks with the padding.
\<close>

definition tail_blocks ::
    "'w::len word hash_algorithm \<Rightarrow> nat \<Rightarrow> byte list \<Rightarrow> (byte list \<times> u64) list" where
  "tail_blocks algo k m =
     (let ds = dataSize algo; r = length m; n = k + r;
          t = m @ 0x80 # replicate (ds - r - 1) 0
      in if r < tailRoom algo
         then [(last_block algo t (of_nat n), if r = 0 then 0 else of_nat (8 * n))]
         else [(t, of_nat (8 * n)), (last_block algo (replicate ds 0) (of_nat n), 0)])"

text \<open>A hash of at most eight words comes out in the byte order of the algorithm.\<close>

lemma hash_output_words:
  fixes algo :: "'w::len word hash_algorithm"
  assumes "HashSize algo \<le> 8 * (LENGTH('w) div 8)"
  shows "hash_output algo h = take (HashSize algo)
    (concat (map ((if IsBigEndian algo then bytes_be else bytes_le) (LENGTH('w) div 8)) (OutTransform algo h)))"
proof -
  define n where "n = LENGTH('w) div 8"
  define f :: "'w word \<Rightarrow> byte list" where "f = (if IsBigEndian algo then bytes_be else bytes_le) n"
  define ws where "ws = OutTransform algo h"
  have f: "(\<lambda>w. (if IsBigEndian algo then bytes_be else bytes_le) n w) = f" by (simp add: f_def)
  have len: "length (concat (map f xs)) = n * length xs" for xs
    by (cases "IsBigEndian algo") (simp_all add: f_def length_concat comp_def sum_list_triv)
  have "take (HashSize algo) (concat (map f (take 8 ws)) @ xs) = take (HashSize algo) (concat (map f (take 8 ws)) @ ys)"
    if "length ws \<le> 8 \<longrightarrow> xs = ys" for xs ys
  proof (cases "length ws \<le> 8")
    case False
    then have "length (concat (map f (take 8 ws))) = n * 8" by (simp add: len)
    then show ?thesis using assms by (simp add: n_def)
  qed (use that in simp)
  from this [of "concat (map (bytes_le n) (drop 8 ws))" "concat (map f (drop 8 ws))"]
  have "hash_output algo h = take (HashSize algo) (concat (map f (take 8 ws)) @ concat (map f (drop 8 ws)))"
    by (simp add: hash_output_def PrepareEndianness_out_def n_def [symmetric] f ws_def [symmetric])
  also have "concat (map f (take 8 ws)) @ concat (map f (drop 8 ws)) = concat (map f ws)"
    by (simp only: concat_append [symmetric] map_append [symmetric] append_take_drop_id)
  finally show ?thesis by (simp add: f_def n_def ws_def)
qed

function hash_blocks ::
    "'w::len word hash_algorithm \<Rightarrow> nat \<Rightarrow> byte list \<Rightarrow> (byte list \<times> u64) list" where
  "hash_blocks algo k m =
     (if 0 < dataSize algo \<and> dataSize algo \<le> length m
      then (take (dataSize algo) m, of_nat (8 * (k + dataSize algo)))
             # hash_blocks algo (k + dataSize algo) (drop (dataSize algo) m)
      else tail_blocks algo k m)"
  by pat_completeness auto
termination by (relation "measure (\<lambda>(algo, k, m). length m)") auto

declare hash_blocks.simps [simp del]

lemma hash_blocks_full:
  "0 < dataSize algo \<Longrightarrow> dataSize algo \<le> length m \<Longrightarrow>
   hash_blocks algo k m = (take (dataSize algo) m, of_nat (8 * (k + dataSize algo)))
     # hash_blocks algo (k + dataSize algo) (drop (dataSize algo) m)"
  by (subst hash_blocks.simps) simp

lemma hash_blocks_tail:
  "length m < dataSize algo \<Longrightarrow> hash_blocks algo k m = tail_blocks algo k m"
  by (subst hash_blocks.simps) simp

definition hash_fold ::
    "'w::len word hash_algorithm \<Rightarrow> 'w word list \<Rightarrow> (byte list \<times> u64) list \<Rightarrow> 'w word list" where
  "hash_fold algo hash bs =
     fold (\<lambda>(b, counter) h. PrepareEndiannessAndHashBlock algo h b counter) bs hash"

definition hash_spec :: "'w::len word hash_algorithm \<Rightarrow> byte list \<Rightarrow> byte list" where
  "hash_spec algo m = hash_output algo (hash_fold algo (InitHash algo) (hash_blocks algo 0 m))"

section \<open>The driver hashes these blocks\<close>

text \<open>
  The driver takes a short read for the end of the message, so it relies on streams whose reads
  are full; memory streams and buffered memory streams are.
\<close>

locale full_stream = stream read content inv
  for read :: "'s \<Rightarrow> nat \<Rightarrow> byte list \<times> 's" and content inv +
  assumes read_full:
    "inv s \<Longrightarrow> read s n = (bs, s') \<Longrightarrow> length bs = min n (length (content s))"

lemma u64_and_mask_mod:
  assumes "d \<le> 64"
  shows "unat ((of_nat n :: u64) AND mask d) = n mod 2 ^ d"
proof -
  have "n mod 2 ^ d < 2 ^ d" by simp
  also have "\<dots> \<le> 2 ^ 64" using assms by (rule power_increasing) simp
  finally have "n mod 2 ^ d < 2 ^ 64" .
  moreover have "(of_nat n :: u64) AND mask d = of_nat (n mod 2 ^ d)"
    by (simp only: take_bit_eq_mask [symmetric] take_bit_of_nat) (simp only: take_bit_eq_mod)
  ultimately show ?thesis by (simp add: unat_of_nat)
qed

lemma push_bit_3_of_nat: "push_bit 3 (of_nat n :: u64) = of_nat (8 * n)"
  by (simp add: push_bit_eq_mult)

lemma list_update_pad:
  "0 < n \<Longrightarrow> (xs @ replicate n 0)[length xs := y] = xs @ y # replicate (n - 1) 0"
  by (cases n) simp_all

context full_stream
begin

lemma ComputeHashImp_loop_last:
  "ComputeHashImp_loop algo read s h pl True =
     Some (replicate (dataSize algo) 0, 0, pl, h, s)"
  by (subst ComputeHashImp_loop.simps) simp

lemma ComputeHashImp_loop_blocks:
  fixes algo :: "'w::len word hash_algorithm"
  assumes ds: "dataSize algo = 2 ^ d" "d \<le> 64" and "inv s" and "2 ^ d dvd k"
  shows "\<exists>buf counter len h' s'.
      ComputeHashImp_loop algo read s h (of_nat k) False = Some (buf, counter, len, h', s')
    \<and> hash_fold algo h (hash_blocks algo k (content s)) =
        PrepareEndiannessAndHashBlock algo h' (last_block algo buf len) counter"
  using assms(3,4)
proof (induction "length (content s)" arbitrary: s k h rule: less_induct)
  case less
  let ?ds = "dataSize algo"
  have pos: "0 < ?ds" using ds by simp
  obtain bs s' where rd: "read s ?ds = (bs, s')" by (cases "read s ?ds")
  note f = read_inv [OF less.prems(1) rd] read_content [OF less.prems(1) rd]
    read_full [OF less.prems(1) rd]
  show ?case
  proof (cases "?ds \<le> length (content s)")
    case True
    then have len: "length bs = ?ds" using f(3) by simp
    have split: "take ?ds (content s) = bs" "drop ?ds (content s) = content s'"
      using f(2) len by simp_all
    have shorter: "length (content s') < length (content s)" using f(2) len pos by simp
    have "2 ^ d dvd k + ?ds" using less.prems(2) ds(1) by simp
    from less.hyps [OF shorter f(1) this,
        of "PrepareEndiannessAndHashBlock algo h bs (of_nat (8 * (k + ?ds)))"]
    show ?thesis
      using rd len pos True
      by (subst ComputeHashImp_loop.simps)
        (simp add: Let_def split hash_blocks_full hash_fold_def push_bit_3_of_nat flip: of_nat_add)
  next
    case False
    have cs: "content s = bs" "length bs < ?ds" using f(2,3) False by auto
    have rest: "unat ((of_nat (k + length bs) :: u64) AND of_nat (?ds - 1)) = length bs"
    proof -
      have "(of_nat (?ds - 1) :: u64) = mask d"
        using ds(1) by (simp add: mask_eq_exp_minus_1 of_nat_diff)
      then show ?thesis
        using u64_and_mask_mod [OF ds(2), of "k + length bs"] less.prems(2) cs(2) ds(1)
        by (auto elim!: dvdE)
    qed
    show ?thesis
      using rd cs rest pos
      by (subst ComputeHashImp_loop.simps)
        (simp add: Let_def hash_blocks_tail tail_blocks_def hash_fold_def push_bit_3_of_nat list_update_pad
          ComputeHashImp_loop_last flip: of_nat_add)
  qed
qed

theorem ComputeHashImp_blocks:
  fixes algo :: "'w::len word hash_algorithm"
  assumes "dataSize algo = 2 ^ d" and "d \<le> 64" and "inv s"
  shows "ComputeHash_stream algo read s = Some (hash_spec algo (content s))"
proof -
  obtain buf counter len h' s' where
    "ComputeHashImp_loop algo read s (InitHash algo) 0 False = Some (buf, counter, len, h', s')"
    "hash_fold algo (InitHash algo) (hash_blocks algo 0 (content s)) =
       PrepareEndiannessAndHashBlock algo h' (last_block algo buf len) counter"
    using ComputeHashImp_loop_blocks [OF assms, of 0 "InitHash algo"] by auto
  then show ?thesis by (simp add: ComputeHash_stream_def ComputeHashImp_def hash_spec_def)
qed

end

interpretation memf: full_stream CMemReadStream_Read mem_content mem_inv
  by unfold_locales (auto simp: mem_defs)

interpretation buff: full_stream "BufferedStream_Read dbs CMemReadStream_Read"
  "buffered_content mem_content" "buffered_inv mem_inv" for dbs :: nat
proof
  fix b n bs and b' :: "mem_stream buffered_stream"
  assume i: "buffered_inv mem_inv b" and rd: "BufferedStream_Read dbs CMemReadStream_Read b n = (bs, b')"
  have len: "length (fst (CMemReadStream_Read s k)) = min k (length (mem_content s))" for s k
    by (simp add: mem_defs)
  have u: "bs_end b \<le> length (bs_buf b)" using i by (simp add: buffered_inv_def)
  then have av: "length (take (bs_end b - bs_cur b) (drop (bs_cur b) (bs_buf b)))
      = bs_end b - bs_cur b" by simp
  then have lc: "length (buffered_content mem_content b)
      = bs_end b - bs_cur b + length (mem_content (bs_under b))"
    by (simp add: buffered_content_def)
  show "length bs = min n (length (buffered_content mem_content b))"
    using i
  proof (cases rule: mem.buffered_Read_cases [where n = n and dbs = dbs])
    case hit
    then show ?thesis using rd u by (simp add: buffered_content_def)
  next
    case (direct bs' u')
    then show ?thesis
      using rd len [of "bs_under b" "n - (bs_end b - bs_cur b)"] lc u
      by (auto simp: min_absorb2) (linarith | simp add: min_def)+
  next
    case (refill k old bs' u')
    then show ?thesis
    proof -
      let ?av = "bs_end b - bs_cur b" and ?L = "length (mem_content (bs_under b))"
      have l: "length bs' = min k ?L" using len [of "bs_under b" k] refill(4) by simp
      have bs: "bs = take ?av (drop (bs_cur b) (bs_buf b)) @ take (min (n - ?av) (length bs')) bs'"
        using rd refill(5) by simp
      have "length bs = ?av + min (n - ?av) (min k ?L)"
        unfolding bs length_append av by (auto simp add: l min_def)
      also have "\<dots> = min n (?av + ?L)" using refill(1,2) by (auto simp: min_def)
      finally show ?thesis unfolding lc .
    qed
  qed
qed

section \<open>The padding of RFC 1321 and FIPS 180\<close>

text \<open>A one bit, zeros, and the bit length in \<open>L\<close> bytes, up to a whole number of blocks.\<close>

definition md_pad :: "nat \<Rightarrow> nat \<Rightarrow> bool \<Rightarrow> nat \<Rightarrow> byte list" where
  "md_pad ds L be n =
     0x80 # replicate ((2 * ds - 1 - L - n mod ds) mod ds) 0
       @ (if be then bytes_be else bytes_le) L (of_nat (8 * n) :: 128 word)"

lemma md_pad_dvd:
  assumes "L < ds"
  shows "ds dvd n + length (md_pad ds L be n)"
proof -
  let ?r = "n mod ds" and ?k = "n div ds"
  have r: "?r < ds" using assms by simp
  have le: "1 + L + ?r \<le> 2 * ds" using add_strict_mono [OF assms r] by simp
  have "(1 + L + ?r + (2 * ds - 1 - L - ?r) mod ds) mod ds = (1 + L + ?r + (2 * ds - 1 - L - ?r)) mod ds"
    by (rule mod_add_right_eq)
  also have "1 + L + ?r + (2 * ds - 1 - L - ?r) = 2 * ds"
    by (simp only: diff_diff_left le_add_diff_inverse [OF le])
  finally have "ds dvd 1 + L + ?r + (2 * ds - 1 - L - ?r) mod ds"
    by (simp only: dvd_eq_mod_eq_0 mod_mult_self2_is_0)
  then have "ds dvd (1 + L + ?r + (2 * ds - 1 - L - ?r) mod ds) + ds * ?k"
    by (rule dvd_add [OF _ dvd_triv_left])
  also have "(1 + L + ?r + (2 * ds - 1 - L - ?r) mod ds) + ds * ?k = n + length (md_pad ds L be n)"
  proof -
    have "length (md_pad ds L be n) = 1 + (2 * ds - 1 - L - ?r) mod ds + L"
      by (simp add: md_pad_def)
    moreover have "(1 + L + ?r + x) + ds * ?k = (ds * ?k + ?r) + (1 + x + L)" for x
      by (simp only: ac_simps)
    ultimately show ?thesis by (simp only: mult_div_mod_eq)
  qed
  finally show ?thesis .
qed

lemma bytes_le_8_128: "bytes_le 8 (of_nat n :: 128 word) = bytes_le 8 (of_nat n :: u64)"
proof (rule nth_equalityI)
  fix i
  assume "i < length (bytes_le 8 (of_nat n :: 128 word))"
  then show "bytes_le 8 (of_nat n :: 128 word) ! i = bytes_le 8 (of_nat n :: u64) ! i"
    by (intro bit_word_eqI) (simp add: bit_bytes_le bit_of_nat_iff)
qed simp

lemma bytes_be_8_128: "bytes_be 8 (of_nat n :: 128 word) = bytes_be 8 (of_nat n :: u64)"
  by (simp add: bytes_be_def bytes_le_8_128)

lemma put_bytes_tail:
  "length xs = a \<Longrightarrow> length bs = length ys \<Longrightarrow> put_bytes a bs (xs @ ys) = xs @ bs"
  by (simp add: put_bytes_def)

definition plain_md :: "'w::len word hash_algorithm \<Rightarrow> bool" where
  "plain_md algo \<longleftrightarrow> \<not> IsHaifa algo \<and> \<not> IsBlockCounted algo
     \<and> (\<forall>h b c. HashBlock algo h b c = HashBlock algo h b 0)"

lemma last_block_plain:
  assumes "plain_md algo" and "length b = dataSize algo - 8" and "8 \<le> dataSize algo"
  shows "last_block algo (b @ replicate 8 0) (of_nat n) =
    b @ (if IsLenBigEndian algo then bytes_be else bytes_le) 8 (of_nat (8 * n) :: u64)"
  using assms
  by (simp add: last_block_def plain_md_def Let_def push_bit_3_of_nat put_bytes_tail
      del: of_nat_mult)

lemma replicate_split8: "8 \<le> n \<Longrightarrow> replicate n x = replicate (n - 8) x @ replicate 8 x"
  by (simp add: replicate_add [symmetric])

lemma tail_blocks_plain:
  fixes algo :: "'w::len word hash_algorithm"
  assumes "plain_md algo" and "length m < dataSize algo" and "9 \<le> dataSize algo"
    and "dataSize algo dvd k"
  shows "map fst (tail_blocks algo k m) =
    chunks (dataSize algo) (m @ md_pad (dataSize algo) 8 (IsLenBigEndian algo) (k + length m))"
proof -
  let ?ds = "dataSize algo" and ?r = "length m"
  let ?len = "(if IsLenBigEndian algo then bytes_be else bytes_le) 8 (of_nat (8 * (k + ?r)) :: u64)"
  have room: "tailRoom algo = ?ds - 8" using assms(1) by (simp add: tailRoom_def plain_md_def)
  have mod: "(k + ?r) mod ?ds = ?r" using assms(2,4) by (auto elim!: dvdE)
  define len where "len = ?len"
  have pad: "md_pad ?ds 8 (IsLenBigEndian algo) (k + ?r)
      = 0x80 # replicate ((2 * ?ds - 9 - ?r) mod ?ds) 0 @ len"
    by (simp add: md_pad_def mod len_def bytes_be_8_128 bytes_le_8_128 del: of_nat_mult of_nat_add)
  have lenlen: "length len = 8" by (simp add: len_def)
  have last: "last_block algo (b @ replicate 8 0) (of_nat (k + ?r)) = b @ len"
    if "length b = ?ds - 8" for b
    using last_block_plain [OF assms(1) that, of "k + ?r"] assms(3)
    by (simp add: len_def del: of_nat_add of_nat_mult)
  have one: "chunks ?ds b = [b]" "chunks ?ds (b @ b') = [b, b']"
    if "length b = ?ds" "length b' = ?ds" for b b' :: "byte list"
    using that assms(3) chunks_append [of b ?ds "[]"] chunks_append [of b' ?ds "[]"]
    by (simp_all add: chunks_append)
  show ?thesis
  proof (cases "?r < ?ds - 8")
    case True
    let ?x = "m @ 0x80 # replicate (?ds - 9 - ?r) 0"
    have len_x: "length ?x = ?ds - 8" "length (?x @ len) = ?ds" using True lenlen by simp_all
    have "8 \<le> ?ds - ?r - 1" using True by linarith
    from replicate_split8 [OF this, of "0 :: byte"]
    have t: "m @ 0x80 # replicate (?ds - ?r - 1) 0 = ?x @ replicate 8 0" by simp
    have "(2 * ?ds - 9 - ?r) mod ?ds = ?ds - 9 - ?r" using True assms(3) by (simp add: mod_if)
    then have p: "m @ md_pad ?ds 8 (IsLenBigEndian algo) (k + ?r) = ?x @ len" by (simp add: pad)
    have "map fst (tail_blocks algo k m) = [?x @ len]"
      unfolding tail_blocks_def Let_def room t using True by (simp add: last [OF len_x(1), simplified])
    then show ?thesis unfolding p using one(1) [OF len_x(2) len_x(2)] by simp
  next
    case False
    let ?x = "m @ 0x80 # replicate (?ds - ?r - 1) 0" and ?z = "replicate (?ds - 8) 0 :: byte list"
    have len_x: "length ?x = ?ds" "length (?z @ len) = ?ds" using assms(2,3) lenlen by simp_all
    have "(2 * ?ds - 9 - ?r) mod ?ds = (?ds - ?r - 1) + (?ds - 8)"
      using False assms(2,3) by simp
    then have p: "m @ md_pad ?ds 8 (IsLenBigEndian algo) (k + ?r) = ?x @ (?z @ len)"
      by (simp add: pad replicate_add)
    have "replicate ?ds 0 = ?z @ replicate 8 0" using replicate_split8 [of ?ds] assms(3) by simp
    then have "map fst (tail_blocks algo k m) = [?x, ?z @ len]"
      unfolding tail_blocks_def Let_def room using False by (simp add: last [of ?z, simplified])
    then show ?thesis unfolding p using one(2) [OF len_x] by simp
  qed
qed

theorem hash_blocks_plain:
  assumes "plain_md algo" and "9 \<le> dataSize algo" and "dataSize algo dvd k"
  shows "map fst (hash_blocks algo k m) =
    chunks (dataSize algo) (m @ md_pad (dataSize algo) 8 (IsLenBigEndian algo) (k + length m))"
  using assms(3)
proof (induction "length m" arbitrary: m k rule: less_induct)
  case less
  let ?ds = "dataSize algo"
  show ?case
  proof (cases "?ds \<le> length m")
    case True
    let ?m = "drop ?ds m" and ?p = "md_pad ?ds 8 (IsLenBigEndian algo) (k + length m)"
    have sh: "length ?m < length m" "?ds dvd k + ?ds" "k + ?ds + length ?m = k + length m"
      using True assms(2) less.prems by simp_all
    have eq: "m @ ?p = take ?ds m @ (?m @ ?p)" by simp
    have "chunks ?ds (m @ ?p) = take ?ds m # chunks ?ds (?m @ ?p)"
      by (subst eq, rule chunks_append) (use True assms(2) in simp_all)
    then show ?thesis
      using less.hyps [OF sh(1,2)] sh(3) True assms(2) by (simp add: hash_blocks_full)
  next
    case False
    then show ?thesis
      using tail_blocks_plain [OF assms(1) _ assms(2) less.prems] by (simp add: hash_blocks_tail)
  qed
qed

text \<open>So a plain algorithm is the Merkle--Damgard iteration over the padded message.\<close>

lemma hash_fold_fst:
  assumes "plain_md algo"
  shows "hash_fold algo h bs =
    fold (\<lambda>b h. PrepareEndiannessAndHashBlock algo h b 0) (map fst bs) h"
proof (induction bs arbitrary: h)
  case (Cons p bs)
  have "HashBlock algo h b c = HashBlock algo h b 0" for h b c
    using assms by (simp add: plain_md_def)
  then have "PrepareEndiannessAndHashBlock algo h b c = PrepareEndiannessAndHashBlock algo h b 0"
    for h b c
    unfolding PrepareEndiannessAndHashBlock_def by blast
  from this [of h "fst p" "snd p"] show ?case
    using Cons.IH by (simp add: hash_fold_def split_beta)
qed (simp add: hash_fold_def)

lemma hash_spec_plain:
  assumes "plain_md algo" and "9 \<le> dataSize algo"
  shows "hash_spec algo m = hash_output algo
    (fold (\<lambda>b h. PrepareEndiannessAndHashBlock algo h b 0)
      (chunks (dataSize algo) (m @ md_pad (dataSize algo) 8 (IsLenBigEndian algo) (length m)))
      (InitHash algo))"
  using hash_blocks_plain [OF assms, of 0 m] by (simp add: hash_spec_def hash_fold_fst [OF assms(1)])

section \<open>HMAC\<close>

text \<open>
  \<open>HMAC\<close>: a key longer than a block is hashed first; the key is xored with the two pads byte by
  byte, the pads alone beyond its end.  The algorithm is a parameter given by its block size and
  its \<open>ComputeHash\<close>.
\<close>

definition HMAC_buf :: "nat \<Rightarrow> byte list \<Rightarrow> byte \<Rightarrow> byte list" where
  "HMAC_buf bsize k pad = map (\<lambda>i. if i < length k then k ! i XOR pad else pad) [0..<bsize]"

definition HMAC :: "'w::len word hash_algorithm \<Rightarrow> byte list \<Rightarrow> byte list \<Rightarrow> byte list option" where
  "HMAC halgo key text =
     Option.bind (if length key > BlockSize halgo then ComputeHash halgo key else Some key)
       (\<lambda>k. Option.bind (ComputeHash halgo (HMAC_buf (BlockSize halgo) k 0x36 @ text))
         (\<lambda>hv. ComputeHash halgo (HMAC_buf (BlockSize halgo) k 0x5C @ hv)))"

text \<open>RFC 2104: \<open>H ((K xor opad) || H ((K xor ipad) || text))\<close>, \<open>K\<close> padded with zeros.\<close>

definition hmac_key :: "(byte list \<Rightarrow> byte list) \<Rightarrow> nat \<Rightarrow> byte list \<Rightarrow> byte list" where
  "hmac_key H B key =
     (let k = (if length key > B then H key else key) in k @ replicate (B - length k) 0)"

definition hmac_rfc2104 :: "(byte list \<Rightarrow> byte list) \<Rightarrow> nat \<Rightarrow> byte list \<Rightarrow> byte list \<Rightarrow> byte list" where
  "hmac_rfc2104 H B key text =
     (let K = hmac_key H B key
      in H (map (\<lambda>b. b XOR 0x5C) K @ H (map (\<lambda>b. b XOR 0x36) K @ text)))"

lemma HMAC_buf_eq:
  "length k \<le> B \<Longrightarrow> HMAC_buf B k pad = map (\<lambda>b. b XOR pad) (k @ replicate (B - length k) 0)"
  by (rule nth_equalityI) (auto simp: HMAC_buf_def nth_append)

lemma dataSize_pow:
  fixes algo :: "'w::len word hash_algorithm"
  assumes "LENGTH('w) = 32 \<or> LENGTH('w) = 64"
  shows "\<exists>d. dataSize algo = 2 ^ d \<and> d \<le> 64"
proof (cases "LENGTH('w) = 32")
  case True
  then show ?thesis by (intro exI [of _ 6]) (simp add: dataSize_def WordCount_def)
next
  case False
  then show ?thesis
    using assms by (intro exI [of _ 7]) (simp add: dataSize_def WordCount_def)
qed

lemma ComputeHash_spec:
  fixes algo :: "'w::len word hash_algorithm"
  assumes "LENGTH('w) = 32 \<or> LENGTH('w) = 64"
  shows "ComputeHash algo m = Some (hash_spec algo m)"
proof -
  note dataSize_pow [OF assms, of algo]
  moreover have "mem_inv (CMemReadStream m)" "mem_content (CMemReadStream m) = m"
    by (simp_all add: mem_defs)
  ultimately show ?thesis
    using memf.ComputeHashImp_blocks [of algo _ "CMemReadStream m"]
    by (auto simp: ComputeHash_def)
qed

lemma HMAC_spec:
  fixes algo :: "'w::len word hash_algorithm"
  assumes "LENGTH('w) = 32 \<or> LENGTH('w) = 64"
    and "\<And>m. length (hash_spec algo m) \<le> BlockSize algo"
  shows "HMAC algo key text = Some (hmac_rfc2104 (hash_spec algo) (BlockSize algo) key text)"
  using assms(2)
  by (simp add: HMAC_def ComputeHash_spec [OF assms(1)] hmac_rfc2104_def hmac_key_def Let_def
      HMAC_buf_eq del: map_append)

section \<open>PBKDF2\<close>

text \<open>
  \<open>PBKDF2\<close> over a pseudo-random function \<open>prf\<close> whose results have \<open>hlen\<close> bytes.  The result
  buffer is filled block by block.  At the largest length that the code lets through, the
  32-bit loop counter wraps around after the last block and the next copy is out of the buffer.
\<close>

definition VectorXor :: "byte list \<Rightarrow> byte list \<Rightarrow> byte list" where
  "VectorXor d s = map2 (XOR) d s"

fun PBKDF2_inner :: "(byte list \<Rightarrow> byte list) \<Rightarrow> nat \<Rightarrow> byte list \<Rightarrow> byte list \<Rightarrow> byte list" where
  "PBKDF2_inner prf 0 u rh = rh"
| "PBKDF2_inner prf (Suc n) u rh = (let u' = prf u in PBKDF2_inner prf n u' (VectorXor rh u'))"

definition PBKDF2_block ::
    "(byte list \<Rightarrow> byte list \<Rightarrow> byte list) \<Rightarrow> byte list \<Rightarrow> byte list \<Rightarrow> u32 \<Rightarrow> u32 \<Rightarrow> byte list" where
  "PBKDF2_block prf password salt c i =
     (let u = prf password (salt @ bytes_be 4 i)
      in PBKDF2_inner (prf password) (unat c - 1) u u)"

definition PBKDF2 ::
    "(byte list \<Rightarrow> byte list \<Rightarrow> byte list) \<Rightarrow> nat \<Rightarrow> byte list \<Rightarrow> byte list \<Rightarrow> u32 \<Rightarrow> nat
     \<Rightarrow> byte list res" where
  "PBKDF2 prf hlen password salt c dkLen =
     (if dkLen > hlen * 0xFFFFFFFF then Inl DerivedKeyTooLong
      else if hlen = 0 then Inl DivideByZero
      else let n = (dkLen + hlen - 1) div hlen
        in if n = 0xFFFFFFFF then Inl OutOfBounds
           else Inr (fold (\<lambda>i r.
                  let at = (i - 1) * hlen
                  in put_bytes at (take (min hlen (length r - at))
                       (PBKDF2_block prf password salt c (of_nat i))) r)
                [1..<n + 1] (replicate dkLen 0)))"

text \<open>RFC 2898: \<open>F i\<close> is the xor of the chain \<open>U 1, ..., U c\<close>.\<close>

fun pbkdf2_U :: "(byte list \<Rightarrow> byte list) \<Rightarrow> byte list \<Rightarrow> nat \<Rightarrow> byte list" where
  "pbkdf2_U prf x 0 = x"
| "pbkdf2_U prf x (Suc n) = pbkdf2_U prf (prf x) n"

definition pbkdf2_F ::
    "(byte list \<Rightarrow> byte list \<Rightarrow> byte list) \<Rightarrow> byte list \<Rightarrow> byte list \<Rightarrow> nat \<Rightarrow> nat \<Rightarrow> byte list" where
  "pbkdf2_F prf P S c i =
     fold (\<lambda>j acc. map2 (XOR) acc (pbkdf2_U (prf P) (prf P (S @ bytes_be 4 (of_nat i :: u32))) j))
       [1..<c] (prf P (S @ bytes_be 4 (of_nat i :: u32)))"

section \<open>CRC-32\<close>

definition crc_poly :: u32 where
  "crc_poly = 0xEDB88320"

text \<open>One entry of the table, as \<open>Crc32GenerateTable\<close> computes it.\<close>

definition crc_table_step :: "u32 \<Rightarrow> u32" where
  "crc_table_step r = drop_bit 1 r XOR (crc_poly AND NOT ((r AND 1) - 1))"

definition Crc32GenerateTable :: "u32 list" where
  "Crc32GenerateTable = map (\<lambda>i. (crc_table_step ^^ 8) (of_nat i)) [0..<256]"

definition crc_update :: "u32 list \<Rightarrow> u32 \<Rightarrow> byte \<Rightarrow> u32" where
  "crc_update table val v = table ! unat ((val XOR ucast v) AND 0xFF) XOR drop_bit 8 val"

partial_function (option) Crc32_loop :: "'s reader \<Rightarrow> u32 list \<Rightarrow> 's \<Rightarrow> u32 \<Rightarrow> u32 option" where
  "Crc32_loop read table s val =
     (case Stream_ReadByte read s of
        (None, s') \<Rightarrow> Some val
      | (Some v, s') \<Rightarrow> Crc32_loop read table s' (crc_update table val v))"

declare Crc32_loop.simps [code]

definition Crc32_ComputeHash :: "'s reader \<Rightarrow> 's \<Rightarrow> byte list option" where
  "Crc32_ComputeHash read s =
     map_option (\<lambda>val. bytes_le 4 (NOT val)) (Crc32_loop read Crc32GenerateTable s 0xFFFFFFFF)"

text \<open>The bitwise definition: the message bits, low bit first, shifted through the register.\<close>

definition crc_bit :: "u32 \<Rightarrow> u32" where
  "crc_bit r = (if bit r 0 then drop_bit 1 r XOR crc_poly else drop_bit 1 r)"

definition crc_byte :: "u32 \<Rightarrow> byte \<Rightarrow> u32" where
  "crc_byte val v = (crc_bit ^^ 8) (val XOR ucast v)"

definition crc32_spec :: "byte list \<Rightarrow> byte list" where
  "crc32_spec m = bytes_le 4 (NOT (fold (\<lambda>v val. crc_byte val v) m 0xFFFFFFFF))"

lemma crc_table_step_bit: "crc_table_step r = crc_bit r"
proof -
  have "r AND 1 = of_bool (bit r 0)" by (simp add: and_one_eq mod_2_eq_odd bit_0)
  then show ?thesis by (simp add: crc_table_step_def crc_bit_def)
qed

lemma crc_bit_xor: "crc_bit (x XOR y) = crc_bit x XOR crc_bit y"
  by (rule bit_word_eqI) (auto simp: crc_bit_def bit_simps)

lemma crc_bits_xor: "(crc_bit ^^ n) (x XOR y) = (crc_bit ^^ n) x XOR (crc_bit ^^ n) y"
  by (induction n) (simp_all add: crc_bit_xor)

lemma crc_bits_shift: "(crc_bit ^^ n) (push_bit n x) = drop_bit n (push_bit n x)"
proof (induction n arbitrary: x)
  case (Suc n)
  have "(crc_bit ^^ Suc n) (push_bit (Suc n) x) = crc_bit ((crc_bit ^^ n) (push_bit n (push_bit 1 x)))"
    by (simp add: push_bit_push_bit)
  also have "\<dots> = crc_bit (drop_bit n (push_bit (Suc n) x))"
    by (simp add: Suc.IH push_bit_push_bit)
  also have "\<not> bit (drop_bit n (push_bit (Suc n) x)) 0"
    by (simp only: bit_drop_bit_eq o_def bit_push_bit_iff) simp
  then have "crc_bit (drop_bit n (push_bit (Suc n) x)) = drop_bit (Suc n) (push_bit (Suc n) x)"
    by (simp only: crc_bit_def if_False drop_bit_drop_bit plus_1_eq_Suc)
  finally show ?case .
qed simp

lemma crc_update_byte: "crc_update Crc32GenerateTable val v = crc_byte val v"
proof -
  let ?x = "val XOR ucast v"
  have m: "(0xFF :: u32) = mask 8" by (simp add: mask_eq_exp_minus_1)
  have lt: "unat (?x AND 0xFF) < 256"
    using unat_and_mask_less [of ?x 8] by (simp add: m)
  have "Crc32GenerateTable ! unat (?x AND 0xFF) = (crc_table_step ^^ 8) (?x AND 0xFF)"
    using lt by (simp add: Crc32GenerateTable_def)
  moreover have "crc_table_step = crc_bit" by (rule ext) (rule crc_table_step_bit)
  moreover have "?x = (?x AND 0xFF) XOR push_bit 8 (drop_bit 8 val)"
    unfolding m
  proof (rule bit_word_eqI)
    fix n
    show "bit ?x n = bit (?x AND mask 8 XOR push_bit 8 (drop_bit 8 val)) n"
      using bit_imp_le_length [of val n]
      by (cases "8 \<le> n") (auto simp: bit_simps dest: bit_byte_less)
  qed
  then have "(crc_bit ^^ 8) ?x = (crc_bit ^^ 8) (?x AND 0xFF) XOR drop_bit 8 (push_bit 8 (drop_bit 8 val))"
    by (metis crc_bits_shift crc_bits_xor)
  moreover have "drop_bit 8 (push_bit 8 (drop_bit 8 val)) = drop_bit 8 val"
  proof (rule bit_word_eqI)
    fix n
    show "bit (drop_bit 8 (push_bit 8 (drop_bit 8 val))) n = bit (drop_bit 8 val) n"
      using bit_imp_le_length [of val "8 + n"] by (auto simp: bit_simps)
  qed
  ultimately show ?thesis by (simp add: crc_update_def crc_byte_def)
qed

context stream
begin

lemma Crc32_loop_content:
  assumes "inv s"
  shows "Crc32_loop read Crc32GenerateTable s val =
    Some (fold (\<lambda>v val. crc_byte val v) (content s) val)"
  using assms
proof (induction "content s" arbitrary: s val)
  case Nil
  then show ?case
    using ReadByte_content [OF Nil.prems] by (subst Crc32_loop.simps) (auto simp flip: Nil.hyps)
next
  case (Cons v vs)
  then obtain s' where "Stream_ReadByte read s = (Some v, s')" "inv s'" "content s' = vs"
    using ReadByte_content [OF Cons.prems] by (auto simp flip: Cons.hyps(2))
  then show ?case
    using Cons.hyps(1) [of s'] by (subst Crc32_loop.simps) (simp add: crc_update_byte flip: Cons.hyps(2))
qed

end

lemma crc_bit_0: "crc_bit x = 0 \<Longrightarrow> x = 0"
proof -
  assume z: "crc_bit x = 0"
  have "\<not> bit x 0"
  proof
    assume "bit x 0"
    then have "drop_bit 1 x = crc_poly" using z by (simp add: crc_bit_def)
    moreover have "bit crc_poly 31" by (simp add: crc_poly_def)
    moreover have "\<not> bit (drop_bit 1 x) 31" by (auto simp: bit_simps dest: bit_imp_le_length)
    ultimately show False by simp
  qed
  then have "drop_bit 1 x = 0" using z by (simp add: crc_bit_def)
  show "x = 0"
  proof (rule bit_word_eqI)
    fix n
    show "bit x n = bit 0 n"
      using \<open>\<not> bit x 0\<close> arg_cong [OF \<open>drop_bit 1 x = 0\<close>, of "\<lambda>y. bit y (n - 1)"]
      by (cases n) (auto simp: bit_simps)
  qed
qed

lemma crc_bits_inj: "(crc_bit ^^ n) x = (crc_bit ^^ n) y \<longleftrightarrow> x = y"
proof (induction n)
  case (Suc n)
  have "crc_bit a = crc_bit b \<longleftrightarrow> a = b" for a b
    using crc_bit_0 [of "a XOR b"] by (auto simp: crc_bit_xor)
  then show ?case using Suc by simp
qed simp

lemma crc_bytes_word:
  "length bs \<le> 4 \<Longrightarrow>
   fold (\<lambda>v val. crc_byte val v) bs val = (crc_bit ^^ (8 * length bs)) (val XOR le_word bs)"
proof (induction bs arbitrary: val)
  case Nil
  then show ?case by (simp add: le_word_def)
next
  case (Cons b bs)
  let ?w = "le_word bs :: u32"
  have "drop_bit 8 (push_bit 8 ?w) = ?w"
    using Cons.prems by (intro bit_word_eqI) (auto simp: bit_simps bit_le_word)
  then have w: "(crc_bit ^^ 8) (push_bit 8 ?w) = ?w" using crc_bits_shift [of 8 ?w] by simp
  have le: "le_word (b # bs) = (ucast b XOR push_bit 8 ?w :: u32)"
    by (rule bit_word_eqI) (auto simp: le_word_def bit_simps dest: bit_byte_less)
  have "fold (\<lambda>v val. crc_byte val v) (b # bs) val
      = (crc_bit ^^ (8 * length bs)) ((crc_bit ^^ 8) (val XOR ucast b) XOR ?w)"
    using Cons by (simp add: crc_byte_def)
  also have "(crc_bit ^^ 8) (val XOR ucast b) XOR ?w = (crc_bit ^^ 8) (val XOR le_word (b # bs))"
    unfolding le by (simp add: crc_bits_xor w xor.assoc del: funpow.simps)
  also have "(crc_bit ^^ (8 * length bs)) ((crc_bit ^^ 8) (val XOR le_word (b # bs)))
      = (crc_bit ^^ (8 * length bs + 8)) (val XOR le_word (b # bs))"
    by (simp only: funpow_add o_apply)
  also have "8 * length bs + 8 = 8 * length (b # bs)" by simp
  finally show ?case .
qed

lemma crc_fold_inj:
  "fold (\<lambda>v val. crc_byte val v) bs x = fold (\<lambda>v val. crc_byte val v) bs y \<longleftrightarrow> x = y"
proof (induction bs arbitrary: x y)
  case (Cons b bs)
  have "crc_byte x b = crc_byte y b \<longleftrightarrow> x = y"
    unfolding crc_byte_def crc_bits_inj by simp
  then show ?case using Cons by simp
qed simp

lemma le_word_inj:
  assumes "length bs = length bs'" and "8 * length bs \<le> LENGTH('a::len)"
    and "(le_word bs :: 'a word) = le_word bs'"
  shows "bs = bs'"
  using bytes_le_le_word [of bs, where 'a = 'a] bytes_le_le_word [of bs', where 'a = 'a] assms
  by metis

section \<open>Facts on PBKDF2\<close>

lemma PBKDF2_inner_chain:
  "PBKDF2_inner prf n u rh =
     fold (\<lambda>j acc. map2 (XOR) acc (pbkdf2_U prf u j)) [1..<Suc n] rh"
proof (induction n arbitrary: u rh)
  case (Suc n)
  have "[1..<Suc (Suc n)] = 1 # map Suc [1..<Suc n]"
    by (simp add: map_Suc_upt upt_conv_Cons)
  then show ?case
    using Suc by (simp add: Let_def VectorXor_def fold_map o_def)
qed simp

lemma PBKDF2_block_F: "PBKDF2_block prf P S c (of_nat i) = pbkdf2_F prf P S (unat c) i"
proof -
  have "[1..<Suc (unat c - 1)] = [1..<unat c]" by (cases "unat c") simp_all
  then show ?thesis by (simp add: PBKDF2_block_def pbkdf2_F_def PBKDF2_inner_chain Let_def)
qed

lemma length_pbkdf2_F:
  assumes "\<And>x. length (prf P x) = h"
  shows "length (pbkdf2_F prf P S c i) = h"
proof -
  have U: "length (pbkdf2_U (prf P) (prf P x) j) = h" for x j
    by (induction j arbitrary: x) (simp_all add: assms)
  have "length (fold (\<lambda>j acc. map2 (XOR) acc (pbkdf2_U (prf P) (prf P y) j)) js acc) = h"
    if "length acc = h" for js acc y
    using that by (induction js arbitrary: acc) (simp_all add: U)
  then show ?thesis by (simp add: pbkdf2_F_def assms)
qed

text \<open>Filling a buffer with blocks of size \<open>h\<close>, the last one cut.\<close>

lemma fill_blocks:
  fixes F :: "nat \<Rightarrow> byte list"
  assumes "\<And>i. length (F i) = h" and "k = 0 \<or> (k - 1) * h < d"
  shows "fold (\<lambda>i r. let at = (i - 1) * h in put_bytes at (take (min h (length r - at)) (F i)) r)
      [1..<k + 1] (replicate d 0) = take d (concat (map F [1..<k + 1]) @ replicate d 0)"
  using assms(2)
proof (induction k)
  case (Suc k)
  let ?c = "concat (map F [1..<k + 1])"
  have len: "length ?c = k * h" using assms(1) by (induction k) (simp_all add: add.commute)
  have lt: "k * h < d" using Suc.prems by simp
  have "k = 0 \<or> (k - 1) * h < d" using lt by (cases k) auto
  note IH = Suc.IH [OF this]
  have "put_bytes (k * h) (take (min h (d - k * h)) (F (k + 1))) (take d (?c @ replicate d 0))
      = take d (?c @ F (k + 1) @ replicate d 0)"
    using lt len assms(1) by (cases "h \<le> d - k * h") (auto simp: put_bytes_def min_def)
  then show ?case using IH lt len by (simp add: Let_def)
qed simp

lemma PBKDF2_blocks:
  assumes "\<And>k x. length (prf k x) = hlen" and "0 < hlen" and "dkLen \<le> hlen * 0xFFFFFFFE"
  shows "PBKDF2 prf hlen password salt c dkLen =
    Inr (take dkLen (concat (map (pbkdf2_F prf password salt (unat c))
      [1..<(dkLen + hlen - 1) div hlen + 1])))"
proof -
  let ?n = "(dkLen + hlen - 1) div hlen" and ?F = "pbkdf2_F prf password salt (unat c)"
  have nb: "?n \<noteq> 0xFFFFFFFF"
  proof -
    have "dkLen + hlen - 1 < hlen * 0xFFFFFFFF" using assms(2,3) by simp
    then have "?n < 0xFFFFFFFF" by (simp add: less_mult_imp_div_less mult.commute)
    then show ?thesis by simp
  qed
  have len: "length (?F i) = hlen" for i by (rule length_pbkdf2_F) (rule assms(1))
  have n: "?n = 0 \<or> (?n - 1) * hlen < dkLen"
  proof (cases "?n")
    case (Suc k)
    then have "Suc k * hlen \<le> dkLen + hlen - 1" by (metis div_times_less_eq_dividend)
    then show ?thesis using Suc assms(2) by simp
  qed simp
  have "dkLen \<le> ?n * hlen"
  proof -
    have "dkLen + hlen - 1 < (?n + 1) * hlen"
      using assms(2) dividend_less_div_times [of hlen "dkLen + hlen - 1"] by simp
    then show ?thesis using assms(2) by simp
  qed
  moreover have "length (concat (map ?F [1..<k + 1])) = k * hlen" for k
    by (induction k) (simp_all add: len)
  ultimately have "take dkLen (concat (map ?F [1..<?n + 1]) @ replicate dkLen 0)
      = take dkLen (concat (map ?F [1..<?n + 1]))" by simp
  then show ?thesis
    using nb assms(2,3) fill_blocks [of ?F hlen ?n dkLen, OF len n]
    by (simp add: PBKDF2_def PBKDF2_block_F del: upt_Suc)
qed

section \<open>Properties\<close>


definition xor_hash :: "32 word hash_algorithm" where
  "xor_hash = HashAlgorithm\<lparr>HashSize := 4, InitHash := [0], HashBlock := \<lambda>h b c. [foldr (XOR) b (hd h)]\<rparr>"


text \<open>
  C33: \<open>PBKDF2\<close> derives the key of RFC 2898: the first \<open>dkLen\<close> bytes of the blocks \<open>F 1, F 2, ...\<close>,
  for every pseudo-random function of \<open>hlen\<close> bytes, iteration count and length short of the very
  last block index.
\<close>

theorem PBKDF2_rfc2898:
  assumes "\<And>k x. length (prf k x) = hlen" and "0 < hlen" and "dkLen \<le> hlen * 0xFFFFFFFE"
  shows "PBKDF2 prf hlen password salt c dkLen =
    Inr (take dkLen (concat (map (pbkdf2_F prf password salt (unat c))
      [1..<(dkLen + hlen - 1) div hlen + 1])))"
  by (rule PBKDF2_blocks) (rule assms)+

theorem PBKDF2_rfc2898_witness:
  "PBKDF2 (\<lambda>k x. [of_nat (length k), of_nat (length x)]) 2 [7] [8] 2 3 =
    Inr (take 3 (concat (map (pbkdf2_F (\<lambda>k x. [of_nat (length k), of_nat (length x)]) [7] [8] 2)
      [1..<3])))"
  using PBKDF2_rfc2898 [of "\<lambda>k x. [of_nat (length k), of_nat (length x)]" 2 3 "[7]" "[8]" 2]
  by simp

text \<open>
  C31: the table-driven \<open>Crc32\<close> computes the bitwise CRC of the stream's bytes, and two messages
  that differ within four consecutive bytes never have the same CRC.
\<close>

theorem Crc32_bitwise_and_bursts:
  "Crc32_ComputeHash CMemReadStream_Read (CMemReadStream (xs @ b @ ys)) = Some (crc32_spec (xs @ b @ ys))
   \<and> (length b = length b' \<longrightarrow> length b \<le> 4 \<longrightarrow> b \<noteq> b' \<longrightarrow>
      Crc32_ComputeHash CMemReadStream_Read (CMemReadStream (xs @ b @ ys))
        \<noteq> Crc32_ComputeHash CMemReadStream_Read (CMemReadStream (xs @ b' @ ys)))"
proof -
  have crc: "Crc32_ComputeHash CMemReadStream_Read (CMemReadStream m) = Some (crc32_spec m)" for m
    using mem.Crc32_loop_content [of "CMemReadStream m"]
    by (simp add: Crc32_ComputeHash_def crc32_spec_def mem_defs)
  have out: "bytes_le 4 (NOT a) = bytes_le 4 (NOT c) \<longleftrightarrow> a = c" for a c :: u32
  proof
    assume "bytes_le 4 (NOT a) = bytes_le 4 (NOT c)"
    from arg_cong [OF this, of "le_word :: byte list \<Rightarrow> u32"] show "a = c" by simp
  qed simp
  have "crc32_spec (xs @ b @ ys) = crc32_spec (xs @ b' @ ys) \<longrightarrow> b = b'"
    if "length b = length b'" "length b \<le> 4"
    using that le_word_inj [of b b', where 'a = 32]
    by (simp add: crc32_spec_def out crc_fold_inj crc_bytes_word crc_bits_inj)
  then show ?thesis by (auto simp: crc)
qed

theorem Crc32_bitwise_and_bursts_witness:
  "Crc32_ComputeHash CMemReadStream_Read (CMemReadStream [1, 2, 3, 9])
    \<noteq> Crc32_ComputeHash CMemReadStream_Read (CMemReadStream [1, 7, 3, 9])"
  using conjunct2 [OF Crc32_bitwise_and_bursts [of "[1]" "[2, 3]" "[9]" "[7, 3]"]] by simp

end
