(* ===== verification/ShaConstants.thy ===== *)
theory ShaConstants
  imports Prelude
begin

text \<open>
  The constants of \<open>src/crypto/sha-1.cpp\<close>, \<open>sha256.cpp\<close> and \<open>sha512.cpp\<close>, and those of FIPS 180-4: the first
  bits of the fractional parts of roots of primes.
\<close>

section \<open>The code\<close>

definition g_sha1_hinit :: "u32 list" where
  "g_sha1_hinit = [0x67452301, 0xEFCDAB89, 0x98BADCFE, 0x10325476, 0xC3D2E1F0]"

definition g_sha256_hinit :: "u32 list" where
  "g_sha256_hinit =
    [0x6A09E667, 0xBB67AE85, 0x3C6EF372, 0xA54FF53A, 0x510E527F, 0x9B05688C,
     0x1F83D9AB, 0x5BE0CD19]"

definition g_sha256_k :: "u32 list" where
  "g_sha256_k =
    [0x428A2F98, 0x71374491, 0xB5C0FBCF, 0xE9B5DBA5, 0x3956C25B, 0x59F111F1,
     0x923F82A4, 0xAB1C5ED5, 0xD807AA98, 0x12835B01, 0x243185BE, 0x550C7DC3,
     0x72BE5D74, 0x80DEB1FE, 0x9BDC06A7, 0xC19BF174, 0xE49B69C1, 0xEFBE4786,
     0x0FC19DC6, 0x240CA1CC, 0x2DE92C6F, 0x4A7484AA, 0x5CB0A9DC, 0x76F988DA,
     0x983E5152, 0xA831C66D, 0xB00327C8, 0xBF597FC7, 0xC6E00BF3, 0xD5A79147,
     0x06CA6351, 0x14292967, 0x27B70A85, 0x2E1B2138, 0x4D2C6DFC, 0x53380D13,
     0x650A7354, 0x766A0ABB, 0x81C2C92E, 0x92722C85, 0xA2BFE8A1, 0xA81A664B,
     0xC24B8B70, 0xC76C51A3, 0xD192E819, 0xD6990624, 0xF40E3585, 0x106AA070,
     0x19A4C116, 0x1E376C08, 0x2748774C, 0x34B0BCB5, 0x391C0CB3, 0x4ED8AA4A,
     0x5B9CCA4F, 0x682E6FF3, 0x748F82EE, 0x78A5636F, 0x84C87814, 0x8CC70208,
     0x90BEFFFA, 0xA4506CEB, 0xBEF9A3F7, 0xC67178F2]"

definition g_sha512_hinit :: "u64 list" where
  "g_sha512_hinit =
    [0x6A09E667F3BCC908, 0xBB67AE8584CAA73B, 0x3C6EF372FE94F82B, 0xA54FF53A5F1D36F1,
     0x510E527FADE682D1, 0x9B05688C2B3E6C1F, 0x1F83D9ABFB41BD6B, 0x5BE0CD19137E2179]"

definition g_sha512_k :: "u64 list" where
  "g_sha512_k =
    [0x428A2F98D728AE22, 0x7137449123EF65CD, 0xB5C0FBCFEC4D3B2F, 0xE9B5DBA58189DBBC,
     0x3956C25BF348B538, 0x59F111F1B605D019, 0x923F82A4AF194F9B, 0xAB1C5ED5DA6D8118,
     0xD807AA98A3030242, 0x12835B0145706FBE, 0x243185BE4EE4B28C, 0x550C7DC3D5FFB4E2,
     0x72BE5D74F27B896F, 0x80DEB1FE3B1696B1, 0x9BDC06A725C71235, 0xC19BF174CF692694,
     0xE49B69C19EF14AD2, 0xEFBE4786384F25E3, 0x0FC19DC68B8CD5B5, 0x240CA1CC77AC9C65,
     0x2DE92C6F592B0275, 0x4A7484AA6EA6E483, 0x5CB0A9DCBD41FBD4, 0x76F988DA831153B5,
     0x983E5152EE66DFAB, 0xA831C66D2DB43210, 0xB00327C898FB213F, 0xBF597FC7BEEF0EE4,
     0xC6E00BF33DA88FC2, 0xD5A79147930AA725, 0x06CA6351E003826F, 0x142929670A0E6E70,
     0x27B70A8546D22FFC, 0x2E1B21385C26C926, 0x4D2C6DFC5AC42AED, 0x53380D139D95B3DF,
     0x650A73548BAF63DE, 0x766A0ABB3C77B2A8, 0x81C2C92E47EDAEE6, 0x92722C851482353B,
     0xA2BFE8A14CF10364, 0xA81A664BBC423001, 0xC24B8B70D0F89791, 0xC76C51A30654BE30,
     0xD192E819D6EF5218, 0xD69906245565A910, 0xF40E35855771202A, 0x106AA07032BBD1B8,
     0x19A4C116B8D2D0C8, 0x1E376C085141AB53, 0x2748774CDF8EEB99, 0x34B0BCB5E19B48A8,
     0x391C0CB3C5C95A63, 0x4ED8AA4AE3418ACB, 0x5B9CCA4F7763E373, 0x682E6FF3D6B2B8A3,
     0x748F82EE5DEFB2FC, 0x78A5636F43172F60, 0x84C87814A1F0AB72, 0x8CC702081A6439EC,
     0x90BEFFFA23631E28, 0xA4506CEBDE82BDE9, 0xBEF9A3F7B2C67915, 0xC67178F2E372532B,
     0xCA273ECEEA26619C, 0xD186B8C721C0C207, 0xEADA7DD6CDE0EB1E, 0xF57D4F7FEE6ED178,
     0x06F067AA72176FBA, 0x0A637DC5A2C898A6, 0x113F9804BEF90DAE, 0x1B710B35131C471B,
     0x28DB77F523047D84, 0x32CAAB7B40C72493, 0x3C9EBE0A15C9BEBC, 0x431D67C49C100D4C,
     0x4CC5D4BECB3E42B6, 0x597F299CFC657E2A, 0x5FCB6FAB3AD6FAEC, 0x6C44198C4A475817]"

section \<open>The standard\<close>

text \<open>
  FIPS 180-4, sections 4.2.2, 4.2.3, 5.3.3 and 5.3.5: the constants are the first bits of the
  fractional parts of the roots of the first primes.  The root is searched bit by bit.
\<close>

text \<open>The first eighty primes.\<close>

definition fips_primes :: "nat list" where
  "fips_primes = [2, 3, 5, 7, 11, 13, 17, 19, 23, 29, 31, 37, 41, 43, 47, 53, 59, 61, 67, 71, 73, 79, 83, 89, 97, 101,
    103, 107, 109, 113, 127, 131, 137, 139, 149, 151, 157, 163, 167, 173, 179, 181, 191, 193, 197, 199, 211, 223, 227,
    229, 233, 239, 241, 251, 257, 263, 269, 271, 277, 281, 283, 293, 307, 311, 313, 317, 331, 337, 347, 349, 353, 359,
    367, 373, 379, 383, 389, 397, 401, 409]"

fun iroot :: "nat \<Rightarrow> nat \<Rightarrow> nat \<Rightarrow> nat \<Rightarrow> nat" where
  "iroot k n 0 r = r"
| "iroot k n (Suc j) r = iroot k n j (if (r + 2 ^ j) ^ k \<le> n then r + 2 ^ j else r)"

definition root_frac :: "nat \<Rightarrow> nat \<Rightarrow> 'w::len word" where
  "root_frac k p = of_nat (iroot k (p * 2 ^ (k * LENGTH('w))) (LENGTH('w) + 8) 0)"

definition fips_sha256_K :: "u32 list" where
  "fips_sha256_K = map (root_frac 3) (take 64 fips_primes)"

definition fips_sha512_K :: "u64 list" where
  "fips_sha512_K = map (root_frac 3) (take 80 fips_primes)"

definition fips_sha256_H0 :: "u32 list" where
  "fips_sha256_H0 = map (root_frac 2) (take 8 fips_primes)"

definition fips_sha512_H0 :: "u64 list" where
  "fips_sha512_H0 = map (root_frac 2) (take 8 fips_primes)"

definition fips_sha1_H0 :: "u32 list" where
  "fips_sha1_H0 = map le_word [[0x01, 0x23, 0x45, 0x67], [0x89, 0xAB, 0xCD, 0xEF],
     [0xFE, 0xDC, 0xBA, 0x98], [0x76, 0x54, 0x32, 0x10], [0xF0, 0xE1, 0xD2, 0xC3]]"

section \<open>The constants of the code\<close>

lemma iroot_search:
  assumes "0 < k" and "m ^ k \<le> n" and "n < (m + 1) ^ k"
  shows "r \<le> m \<Longrightarrow> m < r + 2 ^ j \<Longrightarrow> iroot k n j r = m"
proof (induction j arbitrary: r)
  case (Suc j)
  have le: "x ^ k \<le> n \<longleftrightarrow> x \<le> m" for x
  proof
    assume "x ^ k \<le> n"
    then have "x ^ k < (m + 1) ^ k" using assms(3) by linarith
    then have "x < m + 1" by (rule power_less_imp_less_base) simp
    then show "x \<le> m" by simp
  next
    assume "x \<le> m"
    then have "x ^ k \<le> m ^ k" by (rule power_mono) simp
    then show "x ^ k \<le> n" using assms(2) by linarith
  qed
  show ?case
  proof (cases "r + 2 ^ j \<le> m")
    case True
    then show ?thesis using Suc.IH [of "r + 2 ^ j"] Suc.prems by (simp add: le)
  next
    case False
    then show ?thesis using Suc.IH [of r] Suc.prems by (simp add: le)
  qed
qed simp

lemma root_frac_eq:
  fixes c :: "'w::len word"
  assumes "0 < k" and "q < 2 ^ 8"
    and "(q * 2 ^ LENGTH('w) + unat c) ^ k \<le> p * 2 ^ (k * LENGTH('w))"
    and "p * 2 ^ (k * LENGTH('w)) < (q * 2 ^ LENGTH('w) + unat c + 1) ^ k"
  shows "root_frac k p = c"
proof -
  have "unat c < 2 ^ LENGTH('w)" by (rule unsigned_less)
  then have "q * 2 ^ LENGTH('w) + unat c < (q + 1) * 2 ^ LENGTH('w)" by simp
  also have "\<dots> \<le> 2 ^ 8 * 2 ^ LENGTH('w)" using assms(2) by (intro mult_le_mono1) simp
  finally have "q * 2 ^ LENGTH('w) + unat c < 0 + 2 ^ (LENGTH('w) + 8)" by (simp add: power_add mult.commute)
  from iroot_search [OF assms(1,3,4) le0 this]
  have "root_frac k p = (of_nat (q * 2 ^ LENGTH('w) + unat c) :: 'w word)" by (simp only: root_frac_def)
  also have "\<dots> = of_nat q * 2 ^ LENGTH('w) + c" by simp
  also have "(2 :: 'w word) ^ LENGTH('w) = 0" by simp
  finally show ?thesis by simp
qed

lemma root_frac_list:
  fixes cs :: "'w::len word list"
  assumes "0 < k" and "length qs = length cs" and "length ps = length cs"
    and "list_all (\<lambda>(q, p, c). q < 2 ^ 8 \<and> (q * 2 ^ LENGTH('w) + unat c) ^ k \<le> p * 2 ^ (k * LENGTH('w))
      \<and> p * 2 ^ (k * LENGTH('w)) < (q * 2 ^ LENGTH('w) + unat c + 1) ^ k) (zip qs (zip ps cs))"
  shows "map (root_frac k) ps = cs"
proof (rule nth_equalityI)
  fix i
  assume "i < length (map (root_frac k :: nat \<Rightarrow> 'w word) ps)"
  then have "i < length (zip qs (zip ps cs))" "zip qs (zip ps cs) ! i = (qs ! i, ps ! i, cs ! i)" "i < length ps"
    using assms(2,3) by simp_all
  then show "map (root_frac k) ps ! i = cs ! i"
    using assms(4) root_frac_eq [OF assms(1), of "qs ! i" "cs ! i" "ps ! i"] by (auto simp: list_all_length)
qed (use assms(3) in simp)

lemma fips_sha256_K_code: "fips_sha256_K = g_sha256_k"
  unfolding fips_sha256_K_def fips_primes_def
  by (rule root_frac_list [where qs = "[1, 1, 1, 1, 2, 2, 2, 2, 2, 3, 3, 3, 3, 3, 3, 3, 3, 3, 4, 4, 4, 4, 4, 4, 4, 4, 4, 4, 4, 4, 5, 5, 5, 5, 5, 5, 5, 5, 5, 5, 5, 5, 5, 5, 5, 5, 5, 6, 6, 6, 6, 6, 6, 6, 6, 6, 6, 6, 6, 6, 6, 6, 6, 6]"])
    (simp_all add: g_sha256_k_def)

lemma fips_sha512_K_code: "fips_sha512_K = g_sha512_k"
  unfolding fips_sha512_K_def fips_primes_def
  by (rule root_frac_list [where qs = "[1, 1, 1, 1, 2, 2, 2, 2, 2, 3, 3, 3, 3, 3, 3, 3, 3, 3, 4, 4, 4, 4, 4, 4, 4, 4, 4, 4, 4, 4, 5, 5, 5, 5, 5, 5, 5, 5, 5, 5, 5, 5, 5, 5, 5, 5, 5, 6, 6, 6, 6, 6, 6, 6, 6, 6, 6, 6, 6, 6, 6, 6, 6, 6, 6, 6, 6, 6, 7, 7, 7, 7, 7, 7, 7, 7, 7, 7, 7, 7]"])
    (simp_all add: g_sha512_k_def)

lemma fips_sha256_H0_code: "fips_sha256_H0 = g_sha256_hinit"
  unfolding fips_sha256_H0_def fips_primes_def
  by (rule root_frac_list [where qs = "[1, 1, 2, 2, 3, 3, 4, 4]"]) (simp_all add: g_sha256_hinit_def)

lemma fips_sha512_H0_code: "fips_sha512_H0 = g_sha512_hinit"
  unfolding fips_sha512_H0_def fips_primes_def
  by (rule root_frac_list [where qs = "[1, 1, 2, 2, 3, 3, 4, 4]"]) (simp_all add: g_sha512_hinit_def)

lemma sha1_constants: "fips_sha1_H0 = g_sha1_hinit"
  by (simp add: fips_sha1_H0_def g_sha1_hinit_def le_word_def)

end
