(* ===== verification/Sha.thy ===== *)
theory Sha
  imports Hash ShaConstants
begin

text \<open>
  The SHA family: \<open>src/crypto/sha-1.cpp\<close>, \<open>sha256.cpp\<close> (with the four-way wrapper) and
  \<open>sha512.cpp\<close>.  The code keeps the message schedule in a ring of sixteen words that it updates
  in place and computes the majority function incrementally; the standard (FIPS 180-4) has the
  whole schedule and the plain functions.  The locale \<open>ring_schedule\<close> relates the two once, and is
  interpreted for the three schedules.  The tables are those of \<open>ShaConstants\<close>.
\<close>

unbundle bit_operations_syntax

section \<open>Message schedules in a ring of sixteen words\<close>

text \<open>\<open>F g\<close> is the new word, \<open>g j\<close> the word \<open>j\<close> places back (\<open>w[(i-j) & 15]\<close>).\<close>

definition ring_step :: "((nat \<Rightarrow> 'w) \<Rightarrow> 'w) \<Rightarrow> nat \<Rightarrow> 'w list \<Rightarrow> 'w list" where
  "ring_step F i w =
     (if 16 \<le> i then w[i mod 16 := F (\<lambda>j. w ! ((i - j) mod 16))] else w)"

locale ring_schedule =
  fixes F :: "(nat \<Rightarrow> 'w) \<Rightarrow> 'w" and W :: "'w list \<Rightarrow> nat \<Rightarrow> 'w"
  assumes F_cong: "(\<And>j. 1 \<le> j \<Longrightarrow> j \<le> 16 \<Longrightarrow> g j = g' j) \<Longrightarrow> F g = F g'"
    and W_low: "t < 16 \<Longrightarrow> W b t = b ! t"
    and W_rec: "16 \<le> t \<Longrightarrow> W b t = F (\<lambda>j. W b (t - j))"
begin

text \<open>The ring holds the sixteen schedule words from \<open>lo\<close> on.\<close>

definition ring :: "'w list \<Rightarrow> nat \<Rightarrow> 'w list \<Rightarrow> bool" where
  "ring b lo w \<longleftrightarrow> length w = 16 \<and> (\<forall>t. lo \<le> t \<and> t < lo + 16 \<longrightarrow> w ! (t mod 16) = W b t)"

lemma ring_start: "length b = 16 \<Longrightarrow> ring b 0 b"
  by (simp add: ring_def W_low)

lemma ring_step_ring:
  assumes "ring b (i - 16) w"
  shows "ring b (Suc i - 16) (ring_step F i w)" and "ring_step F i w ! (i mod 16) = W b i"
proof -
  have len: "length w = 16" and W: "\<And>t. i - 16 \<le> t \<Longrightarrow> t < i - 16 + 16 \<Longrightarrow> w ! (t mod 16) = W b t"
    using assms by (simp_all add: ring_def)
  have "ring b (Suc i - 16) (ring_step F i w) \<and> ring_step F i w ! (i mod 16) = W b i"
  proof (cases "16 \<le> i")
    case True
    have "F (\<lambda>j. w ! ((i - j) mod 16)) = F (\<lambda>j. W b (i - j))"
      using True by (intro F_cong W) auto
    then have new: "F (\<lambda>j. w ! ((i - j) mod 16)) = W b i" using W_rec [OF True] by simp
    have "ring_step F i w ! (t mod 16) = W b t" if "i - 15 \<le> t" "t < i + 1" for t
    proof (cases "t = i")
      case False
      have "t mod 16 \<noteq> i mod 16"
      proof
        assume "t mod 16 = i mod 16"
        moreover have lt: "t < i" "i - t < 16" using that False True by simp_all
        ultimately have "16 dvd i - t" by (metis mod_eq_dvd_iff_nat less_imp_le_nat)
        then show False using lt by (auto dest: dvd_imp_le)
      qed
      then show ?thesis using that True False W [of t] len by (simp add: ring_step_def)
    qed (use True new len in \<open>simp add: ring_step_def\<close>)
    then show ?thesis using True new len by (simp add: ring_def ring_step_def)
  next
    case False
    then show ?thesis using len W by (simp add: ring_def ring_step_def)
  qed
  then show "ring b (Suc i - 16) (ring_step F i w)" "ring_step F i w ! (i mod 16) = W b i" by simp_all
qed

text \<open>A loop that steps the ring and uses its current word is a loop over the schedule.\<close>

lemma ring_fold:
  assumes "length b = 16"
  shows "snd (fold (\<lambda>i (w, s). let w' = ring_step F i w in (w', g i (w' ! (i mod 16)) s)) [0..<n] (b, s))
    = fold (\<lambda>i s. g i (W b i) s) [0..<n] s"
proof -
  let ?f = "\<lambda>i (w, s). let w' = ring_step F i w in (w', g i (w' ! (i mod 16)) s)"
  have "ring b (n - 16) (fst (fold ?f [0..<n] (b, s)))
      \<and> snd (fold ?f [0..<n] (b, s)) = fold (\<lambda>i s. g i (W b i) s) [0..<n] s"
  proof (induction n)
    case 0
    then show ?case using ring_start [OF assms] by simp
  next
    case (Suc n)
    obtain w1 s1 where st: "fold ?f [0..<n] (b, s) = (w1, s1)" by fastforce
    then show ?case
      using Suc ring_step_ring [of b n w1] by (simp add: Let_def)
  qed
  then show ?thesis by simp
qed

end

section \<open>SHA-2\<close>

text \<open>
  \<open>SHA256::HashBlock\<close> and \<open>SHA512::HashBlock\<close> are one code up to the rotations, the table and
  the number of rounds: \<open>S0\<close>, \<open>S1\<close> are applied to \<open>a\<close> and \<open>e\<close>, \<open>s0\<close>, \<open>s1\<close> in the schedule.
\<close>

type_synonym 'w sha2_state = "'w \<times> 'w \<times> 'w \<times> 'w \<times> 'w \<times> 'w \<times> 'w \<times> 'w"

definition sha2_next :: "('w::len word \<Rightarrow> 'w word) \<Rightarrow> ('w word \<Rightarrow> 'w word) \<Rightarrow> (nat \<Rightarrow> 'w word) \<Rightarrow> 'w word" where
  "sha2_next s0 s1 w = w 16 + (s0 (w 15) + w 7 + s1 (w 2))"

definition sha2_round ::
    "('w::len word \<Rightarrow> 'w word) \<Rightarrow> ('w word \<Rightarrow> 'w word) \<Rightarrow> 'w word list \<Rightarrow> nat \<Rightarrow> 'w word
     \<Rightarrow> 'w word sha2_state \<times> 'w word \<Rightarrow> 'w word sha2_state \<times> 'w word" where
  "sha2_round S0 S1 k i wi st =
     (case st of ((a, b, c, d, e, f, g, h), b_c) \<Rightarrow>
        let t1 = h + S1 e + ((e AND f) XOR (NOT e AND g)) + k ! i + wi;
            a_b = a XOR b
        in ((t1 + S0 a + ((a_b AND b_c) XOR b), a, b, c, d + t1, e, f, g), a_b))"

definition sha2_HashBlock ::
    "('w::len word \<Rightarrow> 'w word) \<Rightarrow> ('w word \<Rightarrow> 'w word) \<Rightarrow> ('w word \<Rightarrow> 'w word) \<Rightarrow> ('w word \<Rightarrow> 'w word)
     \<Rightarrow> 'w word list \<Rightarrow> nat \<Rightarrow> 'w word list \<Rightarrow> 'w word list \<Rightarrow> 'w word list" where
  "sha2_HashBlock S0 S1 s0 s1 k rounds p w =
     (case snd (fold (\<lambda>i (w, s). let w' = ring_step (sha2_next s0 s1) i w
                                 in (w', sha2_round S0 S1 k i (w' ! (i mod 16)) s))
                  [0..<rounds]
                  (w, ((p ! 0, p ! 1, p ! 2, p ! 3, p ! 4, p ! 5, p ! 6, p ! 7), p ! 1 XOR p ! 2)))
      of ((a, b, c, d, e, f, g, h), b_c) \<Rightarrow>
        [p ! 0 + a, p ! 1 + b, p ! 2 + c, p ! 3 + d, p ! 4 + e, p ! 5 + f, p ! 6 + g, p ! 7 + h])"

definition SHA256_HashBlock :: "u32 list \<Rightarrow> u32 list \<Rightarrow> u64 \<Rightarrow> u32 list" where
  "SHA256_HashBlock dst src counter =
     sha2_HashBlock
       (\<lambda>a. word_rotr 2 a XOR word_rotr 13 a XOR word_rotr 22 a)
       (\<lambda>e. word_rotr 6 e XOR word_rotr 11 e XOR word_rotr 25 e)
       (\<lambda>w. word_rotr 7 w XOR word_rotr 18 w XOR drop_bit 3 w)
       (\<lambda>w. word_rotr 17 w XOR word_rotr 19 w XOR drop_bit 10 w)
       g_sha256_k 64 dst src"

definition SHA256 :: "u32 hash_algorithm" where
  "SHA256 = HashAlgorithm\<lparr>BlockSize := 64, HashSize := 32,
     InitHash := g_sha256_hinit, HashBlock := SHA256_HashBlock\<rparr>"

text \<open>Four blocks at once: lane \<open>i\<close> of \<open>state\<close> and \<open>data\<close> is their column \<open>i\<close>.\<close>

definition g_4sha256_k :: "u32 list list" where
  "g_4sha256_k = map (\<lambda>k. [k, k, k, k]) g_sha256_k"

definition SHA256_Init4Way :: "u32 list list" where
  "SHA256_Init4Way = map (\<lambda>h. [h, h, h, h]) g_sha256_hinit"

definition Sha256Update_4way :: "u32 list list \<Rightarrow> u32 list list \<Rightarrow> u32 list list" where
  "Sha256Update_4way state data =
     fold (\<lambda>i st.
         let p = map (\<lambda>j. st ! j ! i) [0..<8];
             q = map (\<lambda>j. data ! j ! i) [0..<16];
             p' = SHA256_HashBlock p q 0
         in map (\<lambda>j. (st ! j)[i := p' ! j]) [0..<8])
       [0..<4] state"

definition SHA512_HashBlock :: "u64 list \<Rightarrow> u64 list \<Rightarrow> u64 \<Rightarrow> u64 list" where
  "SHA512_HashBlock dst src counter =
     sha2_HashBlock
       (\<lambda>a. word_rotr 28 a XOR word_rotr 34 a XOR word_rotr 39 a)
       (\<lambda>e. word_rotr 14 e XOR word_rotr 18 e XOR word_rotr 41 e)
       (\<lambda>w. word_rotr 1 w XOR word_rotr 8 w XOR drop_bit 7 w)
       (\<lambda>w. word_rotr 19 w XOR word_rotr 61 w XOR drop_bit 6 w)
       g_sha512_k 80 dst src"

definition SHA512 :: "u64 hash_algorithm" where
  "SHA512 = HashAlgorithm\<lparr>BlockSize := 128, HashSize := 64,
     InitHash := g_sha512_hinit, HashBlock := SHA512_HashBlock\<rparr>"

section \<open>SHA-1\<close>

definition sha1_next :: "(nat \<Rightarrow> u32) \<Rightarrow> u32" where
  "sha1_next w = word_rotl 1 (w 3 XOR w 8 XOR w 14 XOR w 16)"

definition sha1_round :: "nat \<Rightarrow> u32 \<Rightarrow> u32 \<times> u32 \<times> u32 \<times> u32 \<times> u32 \<Rightarrow> u32 \<times> u32 \<times> u32 \<times> u32 \<times> u32" where
  "sha1_round i wi st =
     (case st of (a, b, c, d, e) \<Rightarrow>
        let t = (if i < 20 then ((b AND c) OR (NOT b AND d)) + 0x5A827999
                 else if i < 40 then (b XOR c XOR d) + 0x6ED9EBA1
                 else if i < 60 then ((b AND c) OR (b AND d) OR (c AND d)) + 0x8F1BBCDC
                 else (b XOR c XOR d) + 0xCA62C1D6)
                + word_rotl 5 a + e + wi
        in (t, a, word_rotl 30 b, c, d))"

definition SHA1_HashBlock :: "u32 list \<Rightarrow> u32 list \<Rightarrow> u64 \<Rightarrow> u32 list" where
  "SHA1_HashBlock p w counter =
     (case snd (fold (\<lambda>i (w, s). let w' = ring_step sha1_next i w
                                 in (w', sha1_round i (w' ! (i mod 16)) s))
                  [0..<80] (w, (p ! 0, p ! 1, p ! 2, p ! 3, p ! 4)))
      of (a, b, c, d, e) \<Rightarrow> [p ! 0 + a, p ! 1 + b, p ! 2 + c, p ! 3 + d, p ! 4 + e])"

definition SHA1 :: "u32 hash_algorithm" where
  "SHA1 = HashAlgorithm\<lparr>BlockSize := 64, HashSize := 20,
     InitHash := g_sha1_hinit, HashBlock := SHA1_HashBlock\<rparr>"

section \<open>The standard\<close>

text \<open>FIPS 180-4, sections 4.1, 6.1 and 6.2: the functions, the whole schedule and the rounds.\<close>

definition Ch :: "'w::len word \<Rightarrow> 'w word \<Rightarrow> 'w word \<Rightarrow> 'w word" where
  "Ch x y z = (x AND y) XOR (NOT x AND z)"

definition Maj :: "'w::len word \<Rightarrow> 'w word \<Rightarrow> 'w word \<Rightarrow> 'w word" where
  "Maj x y z = (x AND y) XOR (x AND z) XOR (y AND z)"

function sha2_W :: "('w::len word \<Rightarrow> 'w word) \<Rightarrow> ('w word \<Rightarrow> 'w word) \<Rightarrow> 'w word list \<Rightarrow> nat \<Rightarrow> 'w word" where
  "sha2_W s0 s1 b t =
     (if t < 16 then b ! t
      else s1 (sha2_W s0 s1 b (t - 2)) + sha2_W s0 s1 b (t - 7)
         + s0 (sha2_W s0 s1 b (t - 15)) + sha2_W s0 s1 b (t - 16))"
  by pat_completeness auto
termination by (relation "measure (\<lambda>(s0, s1, b, t). t)") auto

declare sha2_W.simps [simp del]

definition fips_sha2_round ::
    "('w::len word \<Rightarrow> 'w word) \<Rightarrow> ('w word \<Rightarrow> 'w word) \<Rightarrow> 'w word list \<Rightarrow> nat \<Rightarrow> 'w word
     \<Rightarrow> 'w word sha2_state \<Rightarrow> 'w word sha2_state" where
  "fips_sha2_round S0 S1 k i wi st =
     (case st of (a, b, c, d, e, f, g, h) \<Rightarrow>
        let T1 = h + S1 e + Ch e f g + k ! i + wi; T2 = S0 a + Maj a b c
        in (T1 + T2, a, b, c, d + T1, e, f, g))"

definition fips_sha2_compress ::
    "('w::len word \<Rightarrow> 'w word) \<Rightarrow> ('w word \<Rightarrow> 'w word) \<Rightarrow> ('w word \<Rightarrow> 'w word) \<Rightarrow> ('w word \<Rightarrow> 'w word)
     \<Rightarrow> 'w word list \<Rightarrow> nat \<Rightarrow> 'w word list \<Rightarrow> 'w word list \<Rightarrow> 'w word list" where
  "fips_sha2_compress S0 S1 s0 s1 k rounds H m =
     (case fold (\<lambda>i. fips_sha2_round S0 S1 k i (sha2_W s0 s1 m i)) [0..<rounds]
             (H ! 0, H ! 1, H ! 2, H ! 3, H ! 4, H ! 5, H ! 6, H ! 7)
      of (a, b, c, d, e, f, g, h) \<Rightarrow>
        [a + H ! 0, b + H ! 1, c + H ! 2, d + H ! 3, e + H ! 4, f + H ! 5, g + H ! 6, h + H ! 7])"

function sha1_W :: "u32 list \<Rightarrow> nat \<Rightarrow> u32" where
  "sha1_W b t =
     (if t < 16 then b ! t
      else word_rotl 1 (sha1_W b (t - 3) XOR sha1_W b (t - 8) XOR sha1_W b (t - 14)
                        XOR sha1_W b (t - 16)))"
  by pat_completeness auto
termination by (relation "measure snd") auto

declare sha1_W.simps [simp del]

definition Parity :: "u32 \<Rightarrow> u32 \<Rightarrow> u32 \<Rightarrow> u32" where
  "Parity x y z = x XOR y XOR z"

definition sha1_f :: "nat \<Rightarrow> u32 \<Rightarrow> u32 \<Rightarrow> u32 \<Rightarrow> u32" where
  "sha1_f t = (if t < 20 then Ch else if t < 40 then Parity else if t < 60 then Maj else Parity)"

definition sha1_K :: "nat \<Rightarrow> u32" where
  "sha1_K t = (if t < 20 then 0x5A827999 else if t < 40 then 0x6ED9EBA1
               else if t < 60 then 0x8F1BBCDC else 0xCA62C1D6)"

definition fips_sha1_compress :: "u32 list \<Rightarrow> u32 list \<Rightarrow> u32 list" where
  "fips_sha1_compress H m =
     (case fold (\<lambda>t (a, b, c, d, e).
              (word_rotl 5 a + sha1_f t b c d + e + sha1_K t + sha1_W m t, a, word_rotl 30 b, c, d))
            [0..<80] (H ! 0, H ! 1, H ! 2, H ! 3, H ! 4)
      of (a, b, c, d, e) \<Rightarrow> [a + H ! 0, b + H ! 1, c + H ! 2, d + H ! 3, e + H ! 4])"

text \<open>The hash of FIPS 180-4: pad, parse into blocks of big-endian words, compress, output.\<close>

definition fips_hash ::
    "nat \<Rightarrow> nat \<Rightarrow> ('w::len word list \<Rightarrow> 'w word list \<Rightarrow> 'w word list) \<Rightarrow> 'w word list \<Rightarrow> nat \<Rightarrow> byte list
     \<Rightarrow> byte list" where
  "fips_hash ds L compress H0 n m =
     take n (concat (map (bytes_be (LENGTH('w) div 8))
       (fold (\<lambda>b H. compress H (map be_word (chunks (LENGTH('w) div 8) b)))
         (chunks ds (m @ md_pad ds L True (length m))) H0)))"

section \<open>The code computes the standard\<close>

interpretation sha2_ring: ring_schedule "sha2_next s0 s1" "sha2_W s0 s1"
  for s0 s1 :: "'w::len word \<Rightarrow> 'w word"
  by unfold_locales (simp_all add: sha2_next_def sha2_W.simps [of s0 s1 _ t for t] ac_simps)

interpretation sha1_ring: ring_schedule sha1_next sha1_W
  by unfold_locales (simp_all add: sha1_next_def sha1_W.simps [of _ t for t])

text \<open>The incremental majority: \<open>(a ^ b) & (b ^ c) ^ b\<close>.\<close>

lemma Maj_incremental: "((a XOR b) AND (b XOR c)) XOR b = Maj a b c"
  by (rule bit_word_eqI) (auto simp: Maj_def bit_simps)

lemma Maj_or: "(b AND c) OR (b AND d) OR (c AND d) = Maj b c d"
  by (rule bit_word_eqI) (auto simp: Maj_def bit_simps)

lemma Ch_or: "(b AND c) OR (NOT b AND d) = Ch b c d"
  by (rule bit_word_eqI) (auto simp: Ch_def bit_simps)

lemma sha2_HashBlock_fips:
  assumes "length w = 16"
  shows "sha2_HashBlock S0 S1 s0 s1 k n p w = fips_sha2_compress S0 S1 s0 s1 k n p w"
proof -
  let ?s = "(p ! 0, p ! 1, p ! 2, p ! 3, p ! 4, p ! 5, p ! 6, p ! 7)"
  let ?R = "\<lambda>(s, b_c) t. s = t \<and> (case s of (a, b, c, d, e, f, g, h) \<Rightarrow> b_c = b XOR c)"
  have "?R (fold (\<lambda>i s. sha2_round S0 S1 k i (sha2_W s0 s1 w i) s) [0..<n] (?s, p ! 1 XOR p ! 2))
      (fold (\<lambda>i. fips_sha2_round S0 S1 k i (sha2_W s0 s1 w i)) [0..<n] ?s)"
    by (rule fold_refine [where R = ?R])
      (auto simp: sha2_round_def fips_sha2_round_def Let_def Maj_incremental Ch_def add_ac)
  then show ?thesis
    unfolding sha2_HashBlock_def fips_sha2_compress_def
      sha2_ring.ring_fold [OF assms, where g = "sha2_round S0 S1 k"]
    by (auto simp: split_beta add.commute)
qed

lemma SHA1_HashBlock_fips:
  assumes "length w = 16"
  shows "SHA1_HashBlock p w c = fips_sha1_compress p w"
proof -
  have "(\<lambda>i s. sha1_round i (sha1_W w i) s) = (\<lambda>t (a, b, c, d, e).
      (word_rotl 5 a + sha1_f t b c d + e + sha1_K t + sha1_W w t, a, word_rotl 30 b, c, d))"
    by (auto simp: fun_eq_iff sha1_round_def sha1_f_def sha1_K_def Parity_def Ch_or Maj_or Let_def
        add_ac)
  then show ?thesis
    unfolding SHA1_HashBlock_def fips_sha1_compress_def
      sha1_ring.ring_fold [OF assms, where g = sha1_round]
    by (simp add: split_beta add.commute)
qed

definition fips_sha256_compress :: "u32 list \<Rightarrow> u32 list \<Rightarrow> u32 list" where
  "fips_sha256_compress = fips_sha2_compress
       (\<lambda>a. word_rotr 2 a XOR word_rotr 13 a XOR word_rotr 22 a)
       (\<lambda>e. word_rotr 6 e XOR word_rotr 11 e XOR word_rotr 25 e)
       (\<lambda>w. word_rotr 7 w XOR word_rotr 18 w XOR drop_bit 3 w)
       (\<lambda>w. word_rotr 17 w XOR word_rotr 19 w XOR drop_bit 10 w)
       fips_sha256_K 64"

definition fips_sha512_compress :: "u64 list \<Rightarrow> u64 list \<Rightarrow> u64 list" where
  "fips_sha512_compress = fips_sha2_compress
       (\<lambda>a. word_rotr 28 a XOR word_rotr 34 a XOR word_rotr 39 a)
       (\<lambda>e. word_rotr 14 e XOR word_rotr 18 e XOR word_rotr 41 e)
       (\<lambda>w. word_rotr 1 w XOR word_rotr 8 w XOR drop_bit 7 w)
       (\<lambda>w. word_rotr 19 w XOR word_rotr 61 w XOR drop_bit 6 w)
       fips_sha512_K 80"

text \<open>The standard's definitions with the tables of the code.\<close>

lemmas fips_sha256_compress_code = fips_sha256_compress_def [unfolded fips_sha256_K_code]
lemmas fips_sha512_compress_code = fips_sha512_compress_def [unfolded fips_sha512_K_code]

text \<open>A plain algorithm whose block function is a standard one computes the standard's hash.\<close>

lemma hash_spec_fips:
  fixes algo :: "'w::len word hash_algorithm"
  assumes plain: "plain_md algo" "IsBigEndian algo" "IsLenBigEndian algo" "HashSize algo \<le> LENGTH('w)"
    and out: "OutTransform algo = (\<lambda>h. h)"
    and w: "LENGTH('w) = 32 \<or> LENGTH('w) = 64"
    and blk: "\<And>h b c. length b = 16 \<Longrightarrow> HashBlock algo h b c = compress h b"
  shows "hash_spec algo m
    = fips_hash (dataSize algo) 8 compress (InitHash algo) (HashSize algo) m"
proof -
  let ?wb = "LENGTH('w) div 8" and ?ds = "dataSize algo"
  let ?p = "m @ md_pad ?ds 8 True (length m)"
  have ds: "?ds = 16 * ?wb" "9 \<le> ?ds" "0 < ?wb"
    using w by (auto simp: dataSize_def WordCount_def)
  have dvd: "?ds dvd length ?p" using md_pad_dvd [of 8 ?ds "length m" True] ds(2) by simp
  have "HashBlock algo h (PrepareEndianness_in algo b) 0 = compress h (map be_word (chunks ?wb b))"
    if "b \<in> set (chunks ?ds ?p)" for b h
  proof -
    have len: "length b = 16 * ?wb" using chunks_dvd(2) [OF _ dvd that] ds by simp
    then have "length (chunks ?wb b) = 16" using chunks_dvd(1) [OF ds(3), of b] ds(3) by simp
    then show ?thesis by (simp add: PrepareEndianness_in_def plain(2) blk)
  qed
  then have "fold (\<lambda>b h. PrepareEndiannessAndHashBlock algo h b 0) (chunks ?ds ?p) (InitHash algo)
      = fold (\<lambda>b H. compress H (map be_word (chunks ?wb b))) (chunks ?ds ?p) (InitHash algo)"
    by (intro fold_cong) (simp_all add: PrepareEndiannessAndHashBlock_def)
  moreover have "HashSize algo \<le> 8 * (LENGTH('w) div 8)" using plain(4) w by auto
  ultimately show ?thesis
    using hash_spec_plain [OF plain(1) ds(2)]
    by (simp add: fips_hash_def hash_output_words plain out)
qed

lemmas sha_classes = SHA1_def SHA256_def SHA512_def HashAlgorithm_def

lemma sha_plain: "plain_md SHA1" "plain_md SHA256" "plain_md SHA512"
  by (simp_all add: plain_md_def sha_classes SHA1_HashBlock_def SHA256_HashBlock_def
      SHA512_HashBlock_def)

lemma SHA256_spec:
  "hash_spec SHA256 m = fips_hash 64 8 fips_sha256_compress fips_sha256_H0 32 m"
  unfolding fips_sha256_H0_code
  by (subst hash_spec_fips [where compress = fips_sha256_compress])
    (simp_all add: sha_plain, simp_all add: sha_classes dataSize_def WordCount_def
      SHA256_HashBlock_def fips_sha256_compress_code sha2_HashBlock_fips)

lemma SHA1_spec:
  "hash_spec SHA1 m = fips_hash 64 8 fips_sha1_compress fips_sha1_H0 20 m"
  unfolding sha1_constants
  by (subst hash_spec_fips [where compress = fips_sha1_compress])
    (simp_all add: sha_plain, simp_all add: sha_classes dataSize_def WordCount_def
      SHA1_HashBlock_fips)

lemma SHA512_spec:
  "hash_spec SHA512 m = fips_hash 128 8 fips_sha512_compress fips_sha512_H0 64 m"
  unfolding fips_sha512_H0_code
  by (subst hash_spec_fips [where compress = fips_sha512_compress])
    (simp_all add: sha_plain, simp_all add: sha_classes dataSize_def WordCount_def
      SHA512_HashBlock_def fips_sha512_compress_code sha2_HashBlock_fips)

section \<open>The length field of SHA-512\<close>

lemma bytes_be_16:
  assumes "n < 2 ^ 64"
  shows "bytes_be 16 (of_nat n :: 128 word) = replicate 8 0 @ bytes_be 8 (of_nat n :: u64)"
proof -
  have "bytes_le 16 (of_nat n :: 128 word) = bytes_le 8 (of_nat n :: 128 word) @ replicate 8 0"
  proof (rule nth_equalityI)
    fix i
    assume "i < length (bytes_le 16 (of_nat n :: 128 word))"
    then have i: "i < 16" by simp
    have hi: "\<not> bit n k" if "64 \<le> k" for k
    proof -
      have "n < 2 ^ k" using assms power_increasing [OF that, of "2 :: nat"] by linarith
      then show ?thesis by (simp add: bit_iff_odd)
    qed
    show "bytes_le 16 (of_nat n :: 128 word) ! i
        = (bytes_le 8 (of_nat n :: 128 word) @ replicate 8 0) ! i"
      using i hi
      by (intro bit_word_eqI) (auto simp: bit_bytes_le nth_append bit_of_nat_iff)
  qed simp
  then show ?thesis by (simp add: bytes_be_def bytes_le_8_128)
qed

lemma md_pad_16:
  assumes "n < 2 ^ 61"
  shows "length (md_pad 128 16 True n) = length (md_pad 128 8 True n)
      \<longleftrightarrow> \<not> (112 \<le> n mod 128 \<and> n mod 128 < 120)"
    and "\<not> (112 \<le> n mod 128 \<and> n mod 128 < 120) \<Longrightarrow> md_pad 128 16 True n = md_pad 128 8 True n"
proof -
  define r where "r = n mod 128"
  have r: "r < 128" by (simp add: r_def)
  have z: "(2 * 128 - 1 - 16 - r) mod 128 = (if r < 112 then 111 - r else 239 - r)"
    "(2 * 128 - 1 - 8 - r) mod 128 = (if r < 120 then 119 - r else 247 - r)"
    using r by (auto simp: mod_if)
  show "length (md_pad 128 16 True n) = length (md_pad 128 8 True n)
      \<longleftrightarrow> \<not> (112 \<le> n mod 128 \<and> n mod 128 < 120)"
    unfolding md_pad_def r_def [symmetric] z using r by auto
  assume nr: "\<not> (112 \<le> n mod 128 \<and> n mod 128 < 120)"
  have "8 * n < 2 ^ 64" using assms by simp
  note b = bytes_be_16 [OF this] bytes_be_8_128 [of "8 * n"]
  have "replicate (if r < 112 then 111 - r else 239 - r) 0 @ replicate 8 0
      = replicate (if r < 120 then 119 - r else 247 - r) (0 :: byte)"
    using nr r unfolding replicate_add [symmetric] r_def [symmetric] by (auto simp: not_le)
  then show "md_pad 128 16 True n = md_pad 128 8 True n"
    unfolding md_pad_def r_def [symmetric] z if_True b by (metis append.assoc)
qed

section \<open>Properties\<close>

text \<open>
  C2: \<open>SHA256::ComputeHash\<close> returns, for every message, the SHA-256 digest of FIPS 180-4: the
  schedule kept in a ring of sixteen words and the incremental majority compute the standard's
  schedule and functions, the tables hold the bits of the roots of primes that the standard
  prescribes, and the driver's padding is the standard's.
\<close>

theorem SHA256_is_fips:
  "ComputeHash SHA256 m = Some (fips_hash 64 8 fips_sha256_compress fips_sha256_H0 32 m)"
  by (simp add: ComputeHash_spec SHA256_spec)

text \<open>
  C8: likewise \<open>SHA1::ComputeHash\<close> is SHA-1, and HMAC over it is the RFC 2104 construction for
  every key and text, short or long.
\<close>

theorem HMAC_SHA1_rfc2104:
  "ComputeHash SHA1 m = Some (fips_hash 64 8 fips_sha1_compress fips_sha1_H0 20 m)
   \<and> HMAC SHA1 key text = Some (hmac_rfc2104 (fips_hash 64 8 fips_sha1_compress fips_sha1_H0 20) 64 key text)"
proof -
  have spec: "hash_spec SHA1 = fips_hash 64 8 fips_sha1_compress fips_sha1_H0 20"
    by (rule ext) (rule SHA1_spec)
  have "length (hash_spec SHA1 m) \<le> BlockSize SHA1" for m
    by (simp add: hash_spec_def hash_output_def sha_classes)
  from HMAC_spec [of SHA1, OF _ this] show ?thesis
    by (simp add: ComputeHash_spec spec) (simp add: sha_classes)
qed

text \<open>
  C12: \<open>SHA512::ComputeHash\<close> is the SHA-512 of FIPS 180-4 for the messages of up to \<open>2 ^ 61\<close>
  bytes whose length modulo 128 is not 112 to 119.
\<close>

theorem SHA512_is_fips:
  assumes "length m < 2 ^ 61" and "\<not> (112 \<le> length m mod 128 \<and> length m mod 128 < 120)"
  shows "ComputeHash SHA512 m = Some (fips_hash 128 16 fips_sha512_compress fips_sha512_H0 64 m)"
  using md_pad_16(2) [OF assms]
  by (simp add: ComputeHash_spec SHA512_spec) (simp add: fips_hash_def)

theorem SHA512_is_fips_witness:
  "ComputeHash SHA512 [97, 98, 99]
    = Some (fips_hash 128 16 fips_sha512_compress fips_sha512_H0 64 [97, 98, 99])"
  using SHA512_is_fips [of "[97, 98, 99]"] by simp

text \<open>
  C17: what \<open>SHA512::ComputeHash\<close> returns for every message: the compression of FIPS 180-4 is iterated
  over the message, a one bit, zeros and a length of eight bytes.  For the lengths 112 to 119
  modulo 128 that is one block fewer than the standard prescribes, whose length takes sixteen bytes.
\<close>

theorem SHA512_short_padding:
  "ComputeHash SHA512 m = Some (fips_hash 128 8 fips_sha512_compress fips_sha512_H0 64 m)
   \<and> (length m < 2 ^ 61 \<longrightarrow>
      length (chunks 128 (m @ md_pad 128 16 True (length m))) = length (chunks 128 (m @ md_pad 128 8 True (length m)))
        + (if 112 \<le> length m mod 128 \<and> length m mod 128 < 120 then 1 else 0))"
proof -
  define q r where "q = length m div 128" and "r = length m mod 128"
  have n: "length m = 128 * q + r" "r < 128" by (simp_all add: q_def r_def)
  have z: "(2 * 128 - 1 - 16 - r) mod 128 = (if r < 112 then 111 - r else 239 - r)"
    "(2 * 128 - 1 - 8 - r) mod 128 = (if r < 120 then 119 - r else 247 - r)"
    using n(2) by (auto simp: mod_if)
  have l: "length (m @ md_pad 128 16 True (length m)) = 128 * (q + (if r < 112 then 1 else 2))"
    "length (m @ md_pad 128 8 True (length m)) = 128 * (q + (if r < 120 then 1 else 2))"
    unfolding md_pad_def r_def [symmetric] z length_append using n by simp_all
  have "length (chunks 128 (m @ md_pad 128 16 True (length m))) = q + (if r < 112 then 1 else 2)"
    "length (chunks 128 (m @ md_pad 128 8 True (length m))) = q + (if r < 120 then 1 else 2)"
    by (subst chunks_dvd(1), simp_all only: l, simp_all)+
  then have "length (chunks 128 (m @ md_pad 128 16 True (length m))) = length (chunks 128 (m @ md_pad 128 8 True (length m)))
      + (if 112 \<le> r \<and> r < 120 then 1 else 0)"
    by simp
  then show ?thesis by (simp add: ComputeHash_spec SHA512_spec r_def)
qed

theorem SHA512_short_padding_witness:
  "length (chunks 128 (replicate 112 0 @ md_pad 128 16 True 112)) = length (chunks 128 (replicate 112 0 @ md_pad 128 8 True 112)) + 1"
  using SHA512_short_padding [of "replicate 112 0"] by simp

definition lanes_done :: "nat \<Rightarrow> u32 list list \<Rightarrow> u32 list list \<Rightarrow> u32 list list \<Rightarrow> bool" where
  "lanes_done k state data st \<longleftrightarrow> length st = 8 \<and> (\<forall>r\<in>set st. length r = 4)
     \<and> (\<forall>i<4. map (\<lambda>r. r ! i) st =
          (if i < k then fips_sha256_compress (map (\<lambda>r. r ! i) state) (map (\<lambda>r. r ! i) data)
           else map (\<lambda>r. r ! i) state))"

lemma map_nth_upt: "length xs = n \<Longrightarrow> map (\<lambda>j. f (xs ! j)) [0..<n] = map f xs"
  by (rule nth_equalityI) auto

lemma lanes_step:
  assumes "lanes_done k state data st" and "k < 4" and "length data = 16"
  shows "lanes_done (Suc k) state data
    (let p = map (\<lambda>j. st ! j ! k) [0..<8];
         q = map (\<lambda>j. data ! j ! k) [0..<16];
         p' = SHA256_HashBlock p q 0
     in map (\<lambda>j. (st ! j)[k := p' ! j]) [0..<8])"
proof -
  have st: "length st = 8" "\<forall>r\<in>set st. length r = 4"
    "\<And>i. i < 4 \<Longrightarrow> map (\<lambda>r. r ! i) st =
          (if i < k then fips_sha256_compress (map (\<lambda>r. r ! i) state) (map (\<lambda>r. r ! i) data)
           else map (\<lambda>r. r ! i) state)"
    using assms(1) by (simp_all add: lanes_done_def)
  define p' where "p' = fips_sha256_compress (map (\<lambda>r. r ! k) state) (map (\<lambda>r. r ! k) data)"
  define st' where "st' = map (\<lambda>j. (st ! j)[k := p' ! j]) [0..<8]"
  have p: "map (\<lambda>j. st ! j ! k) [0..<8] = map (\<lambda>r. r ! k) state"
    using map_nth_upt [OF st(1), of "\<lambda>r. r ! k"] st(3) [of k] assms(2) by simp
  have q: "map (\<lambda>j. data ! j ! k) [0..<16] = map (\<lambda>r. r ! k) data"
    by (rule map_nth_upt [OF assms(3)])
  have hb: "SHA256_HashBlock (map (\<lambda>r. r ! k) state) (map (\<lambda>r. r ! k) data) 0 = p'"
    using assms(3)
    by (simp add: p'_def SHA256_HashBlock_def fips_sha256_compress_code sha2_HashBlock_fips)
  have lp: "length p' = 8"
    by (simp add: p'_def fips_sha256_compress_def fips_sha2_compress_def split_beta)
  have len: "length (st ! j) = 4" if "j < 8" for j using st(1,2) that by simp
  have "map (\<lambda>r. r ! i) st' = (if i = k then p' else map (\<lambda>r. r ! i) st)" if "i < 4" for i
    using that st(1) lp len assms(2) by (auto intro!: nth_equalityI simp: st'_def)
  then have "lanes_done (Suc k) state data st'"
    using st len by (auto simp: lanes_done_def st'_def p'_def less_Suc_eq)
  then show ?thesis unfolding p q Let_def hb st'_def .
qed

text \<open>
  the four-way update hashes four independent blocks: lane \<open>i\<close> of the result is the
  SHA-256 compression of lane \<open>i\<close> of the state and of the data.
\<close>

theorem Sha256Update_4way_lanes:
  assumes "length state = 8" and "\<forall>r\<in>set state. length r = 4" and "length data = 16" and "i < 4"
  shows "map (\<lambda>r. r ! i) (Sha256Update_4way state data)
    = fips_sha256_compress (map (\<lambda>r. r ! i) state) (map (\<lambda>r. r ! i) data)"
proof -
  have "[0..<4] = [0, 1, 2, 3 :: nat]" by (simp add: upt_rec)
  moreover have "lanes_done 0 state data state" using assms(1,2) by (simp add: lanes_done_def)
  note lanes_step [OF lanes_step [OF lanes_step [OF lanes_step [OF this _ assms(3)] _ assms(3)]
        _ assms(3)] _ assms(3)]
  ultimately have "lanes_done 4 state data (Sha256Update_4way state data)"
    by (simp add: Sha256Update_4way_def eval_nat_numeral del: upt_Suc)
  then show ?thesis using assms(4) by (simp add: lanes_done_def)
qed

theorem Sha256Update_4way_lanes_witness:
  "map (\<lambda>r. r ! 2) (Sha256Update_4way SHA256_Init4Way (replicate 16 [1, 2, 3, 4]))
    = fips_sha256_compress fips_sha256_H0 (replicate 16 3)"
  using Sha256Update_4way_lanes [of SHA256_Init4Way "replicate 16 [1, 2, 3, 4]" 2]
  unfolding fips_sha256_H0_code by (simp add: SHA256_Init4Way_def g_sha256_hinit_def)

end
