(* ===== verification/AesField.thy ===== *)
theory AesField
  imports Sha
begin

text \<open>
  The tables of AES, \<open>InitAesTables\<close> of \<open>src/crypto/aes.cpp\<close> and \<open>Mul\<close> of \<open>aes-imp.h\<close>: the
  multiplication through logarithms to the base 3 is the one of the field GF(2^8), and the
  inverse S-box inverts the S-box.
\<close>

unbundle bit_operations_syntax

section \<open>Tables\<close>

definition g_aesSubByte :: "byte list" where
  "g_aesSubByte =
    [0x63, 0x7c, 0x77, 0x7b, 0xf2, 0x6b, 0x6f, 0xc5, 0x30, 0x01, 0x67, 0x2b, 0xfe, 0xd7, 0xab, 0x76,
     0xca, 0x82, 0xc9, 0x7d, 0xfa, 0x59, 0x47, 0xf0, 0xad, 0xd4, 0xa2, 0xaf, 0x9c, 0xa4, 0x72, 0xc0,
     0xb7, 0xfd, 0x93, 0x26, 0x36, 0x3f, 0xf7, 0xcc, 0x34, 0xa5, 0xe5, 0xf1, 0x71, 0xd8, 0x31, 0x15,
     0x04, 0xc7, 0x23, 0xc3, 0x18, 0x96, 0x05, 0x9a, 0x07, 0x12, 0x80, 0xe2, 0xeb, 0x27, 0xb2, 0x75,
     0x09, 0x83, 0x2c, 0x1a, 0x1b, 0x6e, 0x5a, 0xa0, 0x52, 0x3b, 0xd6, 0xb3, 0x29, 0xe3, 0x2f, 0x84,
     0x53, 0xd1, 0x00, 0xed, 0x20, 0xfc, 0xb1, 0x5b, 0x6a, 0xcb, 0xbe, 0x39, 0x4a, 0x4c, 0x58, 0xcf,
     0xd0, 0xef, 0xaa, 0xfb, 0x43, 0x4d, 0x33, 0x85, 0x45, 0xf9, 0x02, 0x7f, 0x50, 0x3c, 0x9f, 0xa8,
     0x51, 0xa3, 0x40, 0x8f, 0x92, 0x9d, 0x38, 0xf5, 0xbc, 0xb6, 0xda, 0x21, 0x10, 0xff, 0xf3, 0xd2,
     0xcd, 0x0c, 0x13, 0xec, 0x5f, 0x97, 0x44, 0x17, 0xc4, 0xa7, 0x7e, 0x3d, 0x64, 0x5d, 0x19, 0x73,
     0x60, 0x81, 0x4f, 0xdc, 0x22, 0x2a, 0x90, 0x88, 0x46, 0xee, 0xb8, 0x14, 0xde, 0x5e, 0x0b, 0xdb,
     0xe0, 0x32, 0x3a, 0x0a, 0x49, 0x06, 0x24, 0x5c, 0xc2, 0xd3, 0xac, 0x62, 0x91, 0x95, 0xe4, 0x79,
     0xe7, 0xc8, 0x37, 0x6d, 0x8d, 0xd5, 0x4e, 0xa9, 0x6c, 0x56, 0xf4, 0xea, 0x65, 0x7a, 0xae, 0x08,
     0xba, 0x78, 0x25, 0x2e, 0x1c, 0xa6, 0xb4, 0xc6, 0xe8, 0xdd, 0x74, 0x1f, 0x4b, 0xbd, 0x8b, 0x8a,
     0x70, 0x3e, 0xb5, 0x66, 0x48, 0x03, 0xf6, 0x0e, 0x61, 0x35, 0x57, 0xb9, 0x86, 0xc1, 0x1d, 0x9e,
     0xe1, 0xf8, 0x98, 0x11, 0x69, 0xd9, 0x8e, 0x94, 0x9b, 0x1e, 0x87, 0xe9, 0xce, 0x55, 0x28, 0xdf,
     0x8c, 0xa1, 0x89, 0x0d, 0xbf, 0xe6, 0x42, 0x68, 0x41, 0x99, 0x2d, 0x0f, 0xb0, 0x54, 0xbb, 0x16]"

text \<open>
  \<open>InitAesTables\<close>.  One turn of its loop: \<open>n\<close> is multiplied by the generator 3, and the three
  tables get their entries.  \<open>powers\<close> has 1024 zeros at first; the entries of \<open>logs\<close> that are
  not written yet are 0 here.
\<close>

definition gen_step :: "byte \<Rightarrow> byte" where
  "gen_step n = n XOR push_bit 1 n XOR (if n AND 0x80 \<noteq> 0 then 0x1B else 0)"

type_synonym aes_tables = "byte \<times> byte list \<times> byte list \<times> nat list"

definition InitAesTables_step :: "nat \<Rightarrow> aes_tables \<Rightarrow> aes_tables" where
  "InitAesTables_step i st =
     (case st of (n, invSubByte, powers, logs) \<Rightarrow>
        let n' = (if i = 0 then 1 else gen_step n)
        in (n', invSubByte[unat (g_aesSubByte ! i) := of_nat i],
            powers[i := n'], logs[unat n' := i mod 256]))"

definition InitAesTables :: "byte list \<times> byte list \<times> nat list" where
  "InitAesTables =
     (case fold InitAesTables_step [0..<256] (0, replicate 256 0, replicate 1024 0, replicate 256 0) of
        (n, invSubByte, powers, logs) \<Rightarrow>
          (invSubByte, take 255 powers @ take 255 powers @ drop 510 powers, logs[1 := 0, 0 := 511]))"

definition g_aesInvSubByte :: "byte list" where
  "g_aesInvSubByte = fst InitAesTables"

definition g_aesPowers :: "byte list" where
  "g_aesPowers = fst (snd InitAesTables)"

definition g_aesLogs :: "nat list" where
  "g_aesLogs = snd (snd InitAesTables)"

text \<open>\<open>aesMul[(a << 8) | b]\<close>, filled by the last loop of \<open>InitAesTables\<close> and read by \<open>Mul\<close>.\<close>

definition Mul :: "byte \<Rightarrow> byte \<Rightarrow> byte" where
  "Mul a b = g_aesPowers ! (g_aesLogs ! unat a + g_aesLogs ! unat b)"

section \<open>The field\<close>

text \<open>Multiplication of polynomials modulo \<open>x^8 + x^4 + x^3 + x + 1\<close>, bit by bit.\<close>

definition xtime :: "byte \<Rightarrow> byte" where
  "xtime a = push_bit 1 a XOR (if bit a 7 then 0x1B else 0)"

definition gf_mul :: "byte \<Rightarrow> byte \<Rightarrow> byte" where
  "gf_mul a b = foldr (\<lambda>i acc. (if bit b i then (xtime ^^ i) a else 0) XOR acc) [0..<8] 0"

lemma upt8: "[0..<8] = [0, 1, 2, 3, 4, 5, 6, 7 :: nat]"
  by (simp add: upt_rec)

lemma xtime_xor: "xtime (a XOR b) = xtime a XOR xtime b"
  by (rule bit_word_eqI) (auto simp: xtime_def bit_simps)

lemma xtimes_xor: "(xtime ^^ n) (a XOR b) = (xtime ^^ n) a XOR (xtime ^^ n) b"
  by (induction n) (simp_all add: xtime_xor)

lemma xtime_0 [simp]: "xtime 0 = 0"
  by (simp add: xtime_def)

lemma xtimes_0 [simp]: "(xtime ^^ n) 0 = 0"
  by (induction n) simp_all

lemma gf_mul_xor_left: "gf_mul (a XOR a') b = gf_mul a b XOR gf_mul a' b"
  by (simp add: gf_mul_def upt8 xtimes_xor xtime_xor ac_simps)

lemma gf_mul_xor_right: "gf_mul a (b XOR b') = gf_mul a b XOR gf_mul a b'"
proof -
  have "(if bit (b XOR b') i then x else 0) =
      (if bit b i then x else 0) XOR (if bit b' i then x else 0)" for i and x :: byte
    by (auto simp: bit_simps)
  then show ?thesis by (simp add: gf_mul_def upt8 ac_simps)
qed

text \<open>Linear maps on bytes agree when they agree on the eight powers of two.\<close>

lemma byte_linear_eq:
  fixes f g :: "byte \<Rightarrow> byte"
  assumes f: "\<And>a b. f (a XOR b) = f a XOR f b" and g: "\<And>a b. g (a XOR b) = g a XOR g b"
    and basis: "\<forall>i\<in>set [0..<8]. f (push_bit i 1) = g (push_bit i 1)"
  shows "f a = g a"
proof -
  have z: "f 0 = 0" "g 0 = 0" using f [of 0 0] g [of 0 0] by simp_all
  have "f (take_bit n a) = g (take_bit n a)" if "n \<le> 8" for n
    using that
  proof (induction n)
    case (Suc n)
    have "take_bit (Suc n) a = take_bit n a XOR (if bit a n then push_bit n 1 else 0)"
      by (rule bit_word_eqI) (auto simp: bit_simps less_Suc_eq)
    then show ?case using Suc basis by (auto simp: f g z)
  qed (simp add: z)
  moreover have "take_bit 8 a = a" by (rule bit_word_eqI) (auto simp: bit_simps)
  ultimately show ?thesis by (metis order_refl)
qed

lemma funpow_numeral_unfold: "(f ^^ numeral k) x = f ((f ^^ pred_numeral k) x)"
  by (simp add: numeral_eq_Suc)

lemma xtime8: "(xtime ^^ 8) a = a XOR xtime a XOR (xtime ^^ 3) a XOR (xtime ^^ 4) a"
proof (rule byte_linear_eq [where f = "xtime ^^ 8"
      and g = "\<lambda>a. a XOR xtime a XOR (xtime ^^ 3) a XOR (xtime ^^ 4) a"])
  show "(xtime ^^ 8) (a XOR b) = (xtime ^^ 8) a XOR (xtime ^^ 8) b" for a b
    by (rule xtimes_xor)
  show "(a XOR b) XOR xtime (a XOR b) XOR (xtime ^^ 3) (a XOR b) XOR (xtime ^^ 4) (a XOR b)
      = (a XOR xtime a XOR (xtime ^^ 3) a XOR (xtime ^^ 4) a)
        XOR (b XOR xtime b XOR (xtime ^^ 3) b XOR (xtime ^^ 4) b)" for a b
    unfolding xtimes_xor xtime_xor by (simp add: ac_simps)
  show "\<forall>i\<in>set [0..<8]. (xtime ^^ 8) (push_bit i 1)
      = push_bit i 1 XOR xtime (push_bit i 1) XOR (xtime ^^ 3) (push_bit i 1)
        XOR (xtime ^^ 4) (push_bit i 1)"
    by (simp add: upt8 xtime_def funpow_numeral_unfold)
qed

lemma gf_mul_xtime_left: "gf_mul (xtime a) b = xtime (gf_mul a b)"
proof -
  have "xtime (if c then x else 0) = (if c then xtime x else 0)" for c x by simp
  then show ?thesis by (simp add: gf_mul_def upt8 xtime_xor funpow_swap1 del: if_split)
qed

lemma gf_mul_xtime_right: "gf_mul a (xtime b) = xtime (gf_mul a b)"
proof -
  have ite: "(if c \<noteq> d then x else 0) = (if c then x else 0) XOR (if d then x else 0)"
    "xtime (if c then x else 0) = (if c then xtime x else 0)"
    "(if c then x XOR y else 0) = (if c then x else 0) XOR (if c then y else 0)"
    for c d and x y :: byte by auto
  have bits: "bit (xtime b) 0 \<longleftrightarrow> bit b 7" "bit (xtime b) 1 \<longleftrightarrow> bit b 0 \<noteq> bit b 7"
    "bit (xtime b) 2 \<longleftrightarrow> bit b 1" "bit (xtime b) 3 \<longleftrightarrow> bit b 2 \<noteq> bit b 7"
    "bit (xtime b) 4 \<longleftrightarrow> bit b 3 \<noteq> bit b 7" "bit (xtime b) 5 \<longleftrightarrow> bit b 4"
    "bit (xtime b) 6 \<longleftrightarrow> bit b 5" "bit (xtime b) 7 \<longleftrightarrow> bit b 6"
    by (simp_all add: xtime_def bit_simps del: push_bit_Suc One_nat_def, auto)
  define A where "A i = (xtime ^^ i) a" for i
  have A: "xtime (A 0) = A 1" "xtime (A 1) = A 2" "xtime (A 2) = A 3" "xtime (A 3) = A 4"
    "xtime (A 4) = A 5" "xtime (A 5) = A 6" "xtime (A 6) = A 7"
    "xtime (A 7) = A 0 XOR A 1 XOR A 3 XOR A 4"
    using xtime8 [of a] by (simp_all add: A_def funpow_numeral_unfold)
  show ?thesis
    unfolding gf_mul_def upt8 A_def [symmetric] foldr.simps o_apply bits ite xtime_xor A
    by (simp add: ac_simps del: if_split)
qed

lemma gf_mul_0 [simp]: "gf_mul 0 b = 0" "gf_mul a 0 = 0"
  by (simp_all add: gf_mul_def upt8)

lemma gf_mul_1 [simp]: "gf_mul a 1 = a"
  by (simp add: gf_mul_def upt8 bit_1_iff)

lemma gf_mul_assoc: "gf_mul (gf_mul a b) c = gf_mul a (gf_mul b c)"
proof -
  have "gf_mul a ((xtime ^^ n) b) = (xtime ^^ n) (gf_mul a b)" for n
    by (induction n) (simp_all add: gf_mul_xtime_right)
  moreover have "gf_mul a (if p then x else 0) = (if p then gf_mul a x else 0)" for p x by simp
  ultimately show ?thesis
    unfolding gf_mul_def [of "gf_mul a b" c] gf_mul_def [of b c]
    by (simp add: upt8 gf_mul_xor_right del: if_split funpow.simps)
qed

section \<open>The tables multiply in the field\<close>

lemma gen_step_xtime: "gen_step n = n XOR xtime n"
proof -
  have "n AND 0x80 \<noteq> 0 \<longleftrightarrow> bit n 7"
    using and_exp_eq_0_iff_not_bit [of n 7] by simp
  then show ?thesis by (simp add: gen_step_def xtime_def)
qed

text \<open>The powers of the generator 3; \<open>gen_step\<close> multiplies by it.\<close>

definition gpow :: "nat \<Rightarrow> byte" where
  "gpow i = (gen_step ^^ i) 1"

lemma gpow_Suc: "gpow (Suc i) = gen_step (gpow i)"
  by (simp add: gpow_def)

lemma gf_mul_gen_right: "gf_mul a (gen_step b) = gen_step (gf_mul a b)"
  by (simp add: gen_step_xtime gf_mul_xor_right gf_mul_xtime_right)

lemma gpow_add: "gpow (i + j) = gf_mul (gpow i) (gpow j)"
proof (induction j)
  case 0
  then show ?case by (simp add: gpow_def)
next
  case (Suc j)
  then show ?case by (simp add: gpow_Suc gf_mul_gen_right)
qed

lemma gpow_values:
  "gpow 255 = 1" "gpow 85 = 189" "gpow 51 = 12" "gpow 15 = 53"
proof -
  note mul = gf_mul_def upt8 xtime_def funpow_numeral_unfold
  have g2: "gpow 2 = 5" and g3: "gpow 3 = 15"
    by (simp_all add: gpow_def gen_step_def funpow_numeral_unfold)
  have g6: "gpow 6 = 85"
    using gpow_add [of 3 3] by (simp add: g3 mul)
  have g12: "gpow 12 = 161"
    using gpow_add [of 6 6] by (simp add: g6 mul)
  have g24: "gpow 24 = 247"
    using gpow_add [of 12 12] by (simp add: g12 mul)
  have g48: "gpow 48 = 83"
    using gpow_add [of 24 24] by (simp add: g24 mul)
  have g51: "gpow 51 = 12"
    using gpow_add [of 48 3] by (simp add: g48 g3 mul)
  have g15: "gpow 15 = 53"
    using gpow_add [of 12 3] by (simp add: g12 g3 mul)
  have g17: "gpow 17 = 225"
    using gpow_add [of 15 2] by (simp add: g15 g2 mul)
  have g34: "gpow 34 = 92"
    using gpow_add [of 17 17] by (simp add: g17 mul)
  have g85: "gpow 85 = 189"
    using gpow_add [of 51 34] by (simp add: g51 g34 mul)
  have g170: "gpow 170 = 188"
    using gpow_add [of 85 85] by (simp add: g85 mul)
  have g255: "gpow 255 = 1"
    using gpow_add [of 170 85] by (simp add: g170 g85 mul)
  show "gpow 255 = 1" "gpow 85 = 189" "gpow 51 = 12" "gpow 15 = 53"
    by (fact g255 g85 g51 g15)+
qed

lemma gpow_period: "gpow (i + 255 * k) = gpow i"
proof -
  have "gpow (255 * k) = 1"
    by (induction k) (simp_all add: gpow_add gpow_values, simp add: gpow_def)
  then show ?thesis by (simp add: gpow_add)
qed

lemma gpow_mult_1: "gpow d = 1 \<Longrightarrow> gpow (d * k) = 1"
  by (induction k) (simp_all add: gpow_add, simp add: gpow_def)

text \<open>The order of 3 is 255: it divides 255 and is no proper divisor.\<close>

lemma gpow_order:
  assumes "0 < d" and "d < 255"
  shows "gpow d \<noteq> 1"
proof
  assume 1: "gpow d = 1"
  obtain x y where xy: "d * x = 255 * y + gcd d 255"
    using bezout_nat [of d 255] assms(1) by auto
  have "gpow (gcd d 255) = 1"
    using gpow_mult_1 [OF 1, of x] gpow_period [of "gcd d 255" y] by (simp add: xy add.commute)
  moreover have "gcd d 255 < 255" using assms gcd_le1_nat [of d 255] by linarith
  moreover have "gcd d 255 dvd 255" by simp
  moreover have "list_all (\<lambda>k. k dvd 255 \<longrightarrow> k dvd 85 \<or> k dvd 51 \<or> k dvd (15 :: nat)) [1..<255]"
    by code_simp
  then have "\<And>k. 0 < k \<Longrightarrow> k < 255 \<Longrightarrow> k dvd 255 \<Longrightarrow> k dvd 85 \<or> k dvd 51 \<or> k dvd (15 :: nat)"
    by (simp only: list_all_iff set_upt) auto
  moreover have "0 < gcd d 255" by simp
  ultimately consider "gcd d 255 dvd 85" | "gcd d 255 dvd 51" | "gcd d 255 dvd 15" by blast
  then show False
    using gpow_mult_1 [OF \<open>gpow (gcd d 255) = 1\<close>] gpow_values by cases (auto elim!: dvdE)
qed

lemma gpow_nonzero: "gpow i \<noteq> 0"
proof
  assume "gpow i = 0"
  then have "gpow (i + (255 * (i + 1) - i)) = 0" by (simp only: gpow_add gf_mul_0)
  moreover have "i + (255 * (i + 1) - i) = 0 + 255 * (i + 1)" by simp
  ultimately show False using gpow_period [of 0 "i + 1"] by (simp only: gpow_def) simp
qed

lemma gpow_inj: "i < 255 \<Longrightarrow> j < 255 \<Longrightarrow> gpow i = gpow j \<Longrightarrow> i = j"
proof (induction i j rule: linorder_wlog)
  case (le i j)
  show ?case
  proof (rule ccontr)
    assume "i \<noteq> j"
    then have lt: "0 < j - i" "j - i < 255" using le by simp_all
    have "gpow (j + (255 - i)) = gpow (i + (255 - i))" using le by (simp only: gpow_add)
    moreover have "j + (255 - i) = (j - i) + 255 * 1" "i + (255 - i) = 255" using le by simp_all
    ultimately have "gpow (j - i) = 1" using gpow_period [of "j - i" 1] gpow_values(1) by metis
    then show False using gpow_order [OF lt] by blast
  qed
qed simp

lemma gpow_surj:
  assumes "a \<noteq> 0"
  obtains i where "i < 255" and "a = gpow i"
proof -
  have inj: "inj_on gpow {..<255}" using gpow_inj by (auto simp: inj_on_def)
  have "gpow ` {..<255} = UNIV - {0}"
  proof (rule card_subset_eq)
    show "card (gpow ` {..<255}) = card (UNIV - {0 :: byte})"
      by (simp add: card_image [OF inj] card_Diff_singleton card_word)
  qed (use gpow_nonzero in auto)
  then have "a \<in> gpow ` {..<255}" using assms by simp
  then show thesis using that by auto
qed

lemma length_aesSubByte: "length g_aesSubByte = 256"
  by (simp add: g_aesSubByte_def)

definition aesSubByte_nats :: "nat list" where
  "aesSubByte_nats =
    [99, 124, 119, 123, 242, 107, 111, 197, 48, 1, 103, 43, 254, 215, 171, 118,
     202, 130, 201, 125, 250, 89, 71, 240, 173, 212, 162, 175, 156, 164, 114, 192,
     183, 253, 147, 38, 54, 63, 247, 204, 52, 165, 229, 241, 113, 216, 49, 21,
     4, 199, 35, 195, 24, 150, 5, 154, 7, 18, 128, 226, 235, 39, 178, 117,
     9, 131, 44, 26, 27, 110, 90, 160, 82, 59, 214, 179, 41, 227, 47, 132,
     83, 209, 0, 237, 32, 252, 177, 91, 106, 203, 190, 57, 74, 76, 88, 207,
     208, 239, 170, 251, 67, 77, 51, 133, 69, 249, 2, 127, 80, 60, 159, 168,
     81, 163, 64, 143, 146, 157, 56, 245, 188, 182, 218, 33, 16, 255, 243, 210,
     205, 12, 19, 236, 95, 151, 68, 23, 196, 167, 126, 61, 100, 93, 25, 115,
     96, 129, 79, 220, 34, 42, 144, 136, 70, 238, 184, 20, 222, 94, 11, 219,
     224, 50, 58, 10, 73, 6, 36, 92, 194, 211, 172, 98, 145, 149, 228, 121,
     231, 200, 55, 109, 141, 213, 78, 169, 108, 86, 244, 234, 101, 122, 174, 8,
     186, 120, 37, 46, 28, 166, 180, 198, 232, 221, 116, 31, 75, 189, 139, 138,
     112, 62, 181, 102, 72, 3, 246, 14, 97, 53, 87, 185, 134, 193, 29, 158,
     225, 248, 152, 17, 105, 217, 142, 148, 155, 30, 135, 233, 206, 85, 40, 223,
     140, 161, 137, 13, 191, 230, 66, 104, 65, 153, 45, 15, 176, 84, 187, 22]"

lemma aesSubByte_unat: "map unat g_aesSubByte = aesSubByte_nats"
  unfolding g_aesSubByte_def aesSubByte_nats_def by simp

lemma distinct_aesSubByte: "distinct g_aesSubByte"
proof -
  have "distinct aesSubByte_nats" unfolding aesSubByte_nats_def by simp
  then show ?thesis unfolding aesSubByte_unat [symmetric] by (simp add: distinct_map)
qed

definition tables_inv :: "nat \<Rightarrow> aes_tables \<Rightarrow> bool" where
  "tables_inv k st \<longleftrightarrow> (case st of (n, invSubByte, powers, logs) \<Rightarrow>
     (0 < k \<longrightarrow> n = gpow (k - 1))
     \<and> length invSubByte = 256 \<and> (\<forall>i<k. invSubByte ! unat (g_aesSubByte ! i) = of_nat i)
     \<and> powers = map gpow [0..<k] @ replicate (1024 - k) 0
     \<and> length logs = 256 \<and> (\<forall>i. 0 < i \<and> i < k \<and> i < 255 \<longrightarrow> logs ! unat (gpow i) = i))"

lemma unat_byte: "unat (x :: byte) < 256"
  using unsigned_less [of x] by simp

lemma tables_step:
  assumes "tables_inv k st" and "k < 256"
  shows "tables_inv (Suc k) (InitAesTables_step k st)"
proof -
  obtain n inv powers logs where st: "st = (n, inv, powers, logs)" by (cases st)
  have h: "0 < k \<Longrightarrow> n = gpow (k - 1)" "length inv = 256"
    "\<And>i. i < k \<Longrightarrow> inv ! unat (g_aesSubByte ! i) = of_nat i"
    "powers = map gpow [0..<k] @ replicate (1024 - k) 0" "length logs = 256"
    "\<And>i. 0 < i \<Longrightarrow> i < k \<Longrightarrow> i < 255 \<Longrightarrow> logs ! unat (gpow i) = i"
    using assms(1) by (auto simp: tables_inv_def st)
  have n': "(if k = 0 then 1 else gen_step n) = gpow k"
    using h(1) by (cases k) (simp_all add: gpow_def)
  have "powers[k := gpow k] = map gpow [0..<Suc k] @ replicate (1024 - Suc k) 0"
  proof -
    have "1024 - k = Suc (1024 - Suc k)" using assms(2) by linarith
    then have "replicate (1024 - k) (0 :: byte) = 0 # replicate (1024 - Suc k) 0" by simp
    then show ?thesis by (simp add: h(4) list_update_append)
  qed
  moreover have "inv[unat (g_aesSubByte ! k) := of_nat k] ! unat (g_aesSubByte ! i) = of_nat i"
    if "i < Suc k" for i
  proof (cases "i = k")
    case False
    then have "g_aesSubByte ! i \<noteq> g_aesSubByte ! k"
      using that assms(2) distinct_aesSubByte length_aesSubByte
      by (simp add: nth_eq_iff_index_eq)
    then have "unat (g_aesSubByte ! k) \<noteq> unat (g_aesSubByte ! i)" by (simp add: word_unat_eq_iff)
    then show ?thesis using False that h(3) by (simp add: nth_list_update_neq)
  qed (simp add: h(2) unat_byte)
  moreover have "logs[unat (gpow k) := k mod 256] ! unat (gpow i) = i"
    if "0 < i" "i < Suc k" "i < 255" for i
  proof (cases "i = k")
    case False
    have "gpow i \<noteq> gpow k"
    proof (cases "k = 255")
      case True
      have "gpow i \<noteq> gpow 0" using gpow_inj [of i 0] that by auto
      then show ?thesis using True gpow_values(1) by (simp add: gpow_def)
    next
      case F: False
      then show ?thesis using gpow_inj [of i k] that False assms(2) by auto
    qed
    then have "unat (gpow k) \<noteq> unat (gpow i)" by (simp add: word_unat_eq_iff)
    then show ?thesis using False that h(6) by (simp add: nth_list_update_neq)
  qed (use that h(5) unat_byte in simp)
  ultimately show ?thesis
    by (simp add: st InitAesTables_step_def tables_inv_def Let_def n' h(2,5) del: upt_Suc)
qed

lemma tables_fold: "k \<le> 256 \<Longrightarrow>
  tables_inv k (fold InitAesTables_step [0..<k] (0, replicate 256 0, replicate 1024 0, replicate 256 0))"
proof (induction k)
  case 0
  then show ?case by (simp add: tables_inv_def)
next
  case (Suc k)
  then show ?case by (simp add: tables_step)
qed

lemma tables_final:
  shows "x < 256 \<Longrightarrow> g_aesInvSubByte ! unat (g_aesSubByte ! x) = of_nat x"
    and "length g_aesInvSubByte = 256"
    and "g_aesPowers = map gpow [0..<255] @ map gpow [0..<255] @ replicate 514 0"
    and "i < 255 \<Longrightarrow> g_aesLogs ! unat (gpow i) = i" and "g_aesLogs ! 0 = 511"
proof -
  let ?st = "fold InitAesTables_step [0..<256] (0, replicate 256 0, replicate 1024 0, replicate 256 0)"
  obtain n inv powers logs where st: "?st = (n, inv, powers, logs)" by (cases ?st)
  have h: "length inv = 256" "\<And>i. i < 256 \<Longrightarrow> inv ! unat (g_aesSubByte ! i) = of_nat i"
    "powers = map gpow [0..<256] @ replicate 768 0" "length logs = 256"
    "\<And>i. 0 < i \<Longrightarrow> i < 255 \<Longrightarrow> logs ! unat (gpow i) = i"
    using tables_fold [of 256] unfolding st tables_inv_def by simp_all
  have it: "InitAesTables = (inv, take 255 powers @ take 255 powers @ drop 510 powers,
      logs[1 := 0, 0 := 511])"
    unfolding InitAesTables_def st by simp
  show "x < 256 \<Longrightarrow> g_aesInvSubByte ! unat (g_aesSubByte ! x) = of_nat x"
    "length g_aesInvSubByte = 256"
    by (simp_all add: g_aesInvSubByte_def it h)
  have "take 255 [0..<256] = [0..<255 :: nat]" by (simp add: take_upt)
  then have "take 255 powers = map gpow [0..<255]" by (simp add: h(3) take_map)
  moreover have "drop 510 powers = replicate 514 0" by (simp add: h(3))
  ultimately show "g_aesPowers = map gpow [0..<255] @ map gpow [0..<255] @ replicate 514 0"
    by (simp add: g_aesPowers_def it)
  show "g_aesLogs ! 0 = 511" by (simp add: g_aesLogs_def it h(4))
  show "i < 255 \<Longrightarrow> g_aesLogs ! unat (gpow i) = i"
  proof (cases "i = 0")
    case True
    then show ?thesis by (simp add: g_aesLogs_def it h(4) gpow_def)
  next
    case False
    assume i: "i < 255"
    have "unat (gpow i) \<noteq> 0" using gpow_nonzero [of i] by (simp add: unat_eq_zero)
    moreover have "gpow i \<noteq> 1" using gpow_order [of i] i False by simp
    then have "unat (gpow i) \<noteq> 1" by (simp add: word_unat_eq_iff)
    ultimately show ?thesis using False i h(5) by (simp add: g_aesLogs_def it)
  qed
qed

lemma Mul_gf_mul: "Mul a b = gf_mul a b"
proof (cases "a = 0 \<or> b = 0")
  case True
  have le: "g_aesLogs ! unat c \<le> 511" for c :: byte
  proof (cases "c = 0")
    case False
    then obtain i where "i < 255" "c = gpow i" by (rule gpow_surj)
    then show ?thesis using tables_final(4) by simp
  qed (simp add: tables_final(5))
  have "511 \<le> g_aesLogs ! unat a + g_aesLogs ! unat b"
    using True tables_final(5) by auto
  moreover have "g_aesLogs ! unat a + g_aesLogs ! unat b < 1024" using le [of a] le [of b] by simp
  moreover have "\<not> g_aesLogs ! unat a + g_aesLogs ! unat b < 510" using calculation by simp
  ultimately have "Mul a b = 0"
    by (simp add: Mul_def tables_final(3) append_assoc [symmetric] nth_append
        del: append_assoc upt_Suc upt_rec_numeral)
  then show ?thesis using True by auto
next
  case False
  then obtain i j where ij: "i < 255" "a = gpow i" "j < 255" "b = gpow j"
    by (metis gpow_surj)
  have "Mul a b = gpow (i + j)"
  proof (cases "i + j < 255")
    case True
    then show ?thesis using ij by (simp add: Mul_def tables_final(3,4) nth_append del: upt_Suc)
  next
    case F: False
    moreover have "i + j - 255 < 255" using ij by linarith
    ultimately have "Mul a b = gpow (i + j - 255)"
      using ij by (simp add: Mul_def tables_final(3,4) nth_append del: upt_Suc)
    also have "\<dots> = gpow (i + j)" using gpow_period [of "i + j - 255" 1] F by simp
    finally show ?thesis .
  qed
  then show ?thesis using ij by (simp add: gpow_add)
qed

lemma aes_InvSub_Sub: "g_aesInvSubByte ! unat (g_aesSubByte ! unat x) = x"
  using tables_final(1) [of "unat x"] unat_byte [of x] by simp

section \<open>Properties\<close>

text \<open>
  C18: \<open>Mul\<close>, which adds discrete logarithms read from the tables that \<open>InitAesTables\<close> fills, is
  the multiplication of GF(2^8) for all pairs of bytes, zeros included.
\<close>

theorem Mul_is_field_multiplication: "Mul a b = gf_mul a b"
  by (rule Mul_gf_mul)

end
