(* ===== verification/Aes.thy ===== *)
theory Aes
  imports AesField
begin

text \<open>
  Rijndael / AES, \<open>src/crypto/aes.cpp\<close>: key expansion, block encryption and decryption, and the key
  derivation from a password.  Decryption, which the code runs as an encryption with reversed
  columns, reversed and transformed keys and the inverse tables, is shown to invert encryption:
  the locale \<open>round_cipher\<close> has the argument, and AES interprets it.
\<close>

unbundle bit_operations_syntax

section \<open>Columns\<close>

text \<open>
  A column is a little-endian \<open>uint32_t\<close>; \<open>MulRow\<close> multiplies the bytes of two of them.  The data
  of a block is its list of bytes, which the code also reads as a list of columns.
\<close>

definition MulRow :: "u32 \<Rightarrow> u32 \<Rightarrow> byte" where
  "MulRow a b =
     (let pa = bytes_le 4 a; pb = bytes_le 4 b
      in Mul (pa ! 0) (pb ! 0) XOR Mul (pa ! 1) (pb ! 1) XOR Mul (pa ! 2) (pb ! 2)
           XOR Mul (pa ! 3) (pb ! 3))"

definition MulPolynom :: "u32 \<Rightarrow> u32 \<Rightarrow> u32" where
  "MulPolynom col p =
     ucast (MulRow col p) OR push_bit 8 (ucast (MulRow col (word_rotl 8 p)))
       OR push_bit 16 (ucast (MulRow col (word_rotl 16 p)))
       OR push_bit 24 (ucast (MulRow col (word_rotl 24 p)))"

definition MixColumn :: "u32 \<Rightarrow> u32" where
  "MixColumn col = MulPolynom col 0x01010302"

definition InvMixColumn :: "u32 \<Rightarrow> u32" where
  "InvMixColumn col = MulPolynom col 0x090D0B0E"

definition map_columns :: "(u32 \<Rightarrow> u32) \<Rightarrow> byte list \<Rightarrow> byte list" where
  "map_columns f p = concat (map (\<lambda>c. bytes_le 4 (f (le_word c))) (chunks 4 p))"

definition reverse_columns :: "byte list \<Rightarrow> byte list" where
  "reverse_columns p = concat (rev (chunks 4 p))"

section \<open>Key expansion\<close>

record expanded_key =
  ek_i :: nat
  ek_key :: "u32 list"
  ek_rcon :: byte

definition ExpandedKey :: "byte list \<Rightarrow> expanded_key" where
  "ExpandedKey key =
     \<lparr>ek_i = 0, ek_key = map (\<lambda>i. le_word (take 4 (drop (i * 4) key))) [0..<length key div 4],
      ek_rcon = 1\<rparr>"

definition subByteAt :: "u32 \<Rightarrow> nat \<Rightarrow> u32" where
  "subByteAt t n = ucast (g_aesSubByte ! unat (drop_bit n t AND 255))"

definition ExpandedKey_Next :: "expanded_key \<Rightarrow> u32 \<times> expanded_key" where
  "ExpandedKey_Next k =
     (let n = length (ek_key k); i = ek_i k; rc = ek_rcon k;
          t0 = ek_key k ! ((i + n - 1) mod n);
          t = (if i = 0
               then ucast rc XOR (subByteAt t0 8 OR push_bit 8 (subByteAt t0 16) OR push_bit 16 (subByteAt t0 24)
                                    OR push_bit 24 (subByteAt t0 0))
               else if n > 6 \<and> i = 4
               then subByteAt t0 0 OR push_bit 8 (subByteAt t0 8) OR push_bit 16 (subByteAt t0 16)
                      OR push_bit 24 (subByteAt t0 24)
               else t0);
          rc' = (if i = 0 then push_bit 1 rc XOR (if rc AND 0x80 \<noteq> 0 then 0x1B else 0) else rc);
          cur = ek_key k ! i
      in (cur, k\<lparr>ek_i := (i + 1) mod n, ek_key := (ek_key k)[i := cur XOR t], ek_rcon := rc'\<rparr>))"

fun ExpandedKey_words :: "nat \<Rightarrow> expanded_key \<Rightarrow> u32 list" where
  "ExpandedKey_words 0 k = []"
| "ExpandedKey_words (Suc n) k =
     (case ExpandedKey_Next k of (w, k') \<Rightarrow> w # ExpandedKey_words n k')"

text \<open>
  \<open>InvExpandedKey\<close> transforms all round keys but the first and the last and hands the words out
  from the end.
\<close>

definition InvExpandedKey :: "byte list \<Rightarrow> nat \<Rightarrow> nat \<Rightarrow> u32 list" where
  "InvExpandedKey key ekeylen nb =
     map (\<lambda>(i, w). if nb \<le> i \<and> i < ekeylen - nb then InvMixColumn w else w)
       (zip [0..<ekeylen] (ExpandedKey_words ekeylen (ExpandedKey key)))"

definition InvExpandedKey_words :: "nat \<Rightarrow> u32 list \<Rightarrow> u32 list" where
  "InvExpandedKey_words n invkey = map (\<lambda>i. invkey ! (length invkey - (i + 1))) [0..<n]"

record aes =
  aes_BlockSize :: nat
  aes_KeySize :: nat
  aes_Rounds :: nat
  aes_Key :: "byte list"

text \<open>The constructor and \<open>InitParams\<close>; \<open>put_Key\<close> checks the key's size.\<close>

definition Aes :: aes where
  "Aes = \<lparr>aes_BlockSize = 128, aes_KeySize = 256, aes_Rounds = 14, aes_Key = []\<rparr>"

definition Aes_InitParams :: "aes \<Rightarrow> aes" where
  "Aes_InitParams a =
     (if aes_KeySize a = 128 then a\<lparr>aes_Rounds := 10\<rparr>
      else if aes_KeySize a = 192 then a\<lparr>aes_Rounds := 12\<rparr>
      else if aes_KeySize a = 256 then a\<lparr>aes_Rounds := 14\<rparr> else a)"

definition put_Key :: "aes \<Rightarrow> byte list \<Rightarrow> aes res" where
  "put_Key a key =
     (if length key \<noteq> aes_KeySize a div 8 then Inl InvalidArgument else Inr (a\<lparr>aes_Key := key\<rparr>))"

definition CalcExpandedKey :: "aes \<Rightarrow> byte list" where
  "CalcExpandedKey a =
     concat (map (bytes_le 4)
       (ExpandedKey_words (aes_BlockSize a div 8 * (aes_Rounds a + 1) div 4) (ExpandedKey (aes_Key a))))"

definition CalcInvExpandedKey :: "aes \<Rightarrow> byte list" where
  "CalcInvExpandedKey a =
     (let n = aes_BlockSize a div 8 * (aes_Rounds a + 1) div 4
      in concat (map (bytes_le 4)
           (InvExpandedKey_words n (InvExpandedKey (aes_Key a) n (aes_BlockSize a div 8 div 4)))))"

section \<open>Blocks\<close>

text \<open>
  The row shifts of \<open>EncDec\<close> for four and six columns.  \<open>exchange\<close> stores its second argument and
  gives the old value, so each line of the code is a chain of moves; the index of byte \<open>j\<close>'s
  source is read off it.  (The last line for six columns starts from byte 15, not 23.)
\<close>

definition shift_source4 :: "nat list" where
  "shift_source4 = [0, 5, 10, 15, 4, 9, 14, 3, 8, 13, 2, 7, 12, 1, 6, 11]"

definition shift_source6 :: "nat list" where
  "shift_source6 = [0, 5, 10, 15, 4, 9, 14, 3, 8, 13, 18, 7, 12, 17, 22, 11, 16, 21, 2, 15,
                    20, 1, 6, 19]"

definition ShiftRows :: "nat \<Rightarrow> byte list \<Rightarrow> byte list res" where
  "ShiftRows nb p =
     (if nb = 4 then Inr (map (\<lambda>j. p ! j) shift_source4)
      else if nb = 6 then Inr (map (\<lambda>j. p ! j) shift_source6)
      else Inl E_NOTIMPL)"

definition xor_bytes :: "byte list \<Rightarrow> byte list \<Rightarrow> byte list" where
  "xor_bytes d s = map2 (XOR) d s"

definition EncDec ::
    "nat \<Rightarrow> nat \<Rightarrow> byte list \<Rightarrow> byte list \<Rightarrow> byte list \<Rightarrow> (u32 \<Rightarrow> u32) \<Rightarrow> byte list res" where
  "EncDec bsize rounds ekey data subTable pfnMixColumn =
     (let cbBlock = bsize div 8; nb = cbBlock div 4
      in fold (\<lambda>i r. bind_res r (\<lambda>p.
              bind_res (ShiftRows nb (map (\<lambda>b. subTable ! unat b) p)) (\<lambda>p'.
                let p'' = (if i < rounds - 1 then map_columns pfnMixColumn p' else p')
                in Inr (xor_bytes p'' (take (nb * 4) (drop ((i + 1) * (nb * 4)) ekey))))))
           [0..<rounds]
           (Inr (xor_bytes data (take (nb * 4) ekey))))"

definition EncryptBlock :: "aes \<Rightarrow> byte list \<Rightarrow> byte list \<Rightarrow> byte list res" where
  "EncryptBlock a ekey data =
     EncDec (aes_BlockSize a) (aes_Rounds a) ekey data g_aesSubByte MixColumn"

definition DecryptBlock :: "aes \<Rightarrow> byte list \<Rightarrow> byte list \<Rightarrow> byte list res" where
  "DecryptBlock a ekey data =
     bind_res (EncDec (aes_BlockSize a) (aes_Rounds a) ekey (reverse_columns data)
                 g_aesInvSubByte InvMixColumn)
       (\<lambda>r. Inr (reverse_columns r))"

section \<open>Round ciphers\<close>

text \<open>
  A cipher of \<open>R\<close> rounds of substitution, shift, mixing (not in the last round) and key addition,
  and the inverse cipher that runs the same rounds with the inverse steps, the keys backwards and
  the inner keys mixed.
\<close>

definition rounds :: "nat \<Rightarrow> ('s \<Rightarrow> 's) \<Rightarrow> ('s \<Rightarrow> 's) \<Rightarrow> ('s \<Rightarrow> 's) \<Rightarrow> ('s \<Rightarrow> 's \<Rightarrow> 's) \<Rightarrow> (nat \<Rightarrow> 's)
    \<Rightarrow> nat \<Rightarrow> 's \<Rightarrow> 's" where
  "rounds R sub shift mix addk K n s =
     fold (\<lambda>i s. addk ((if i < R - 1 then mix else id) (shift (sub s))) (K (i + 1))) [0..<n]
       (addk s (K 0))"

definition inv_keys :: "nat \<Rightarrow> ('s \<Rightarrow> 's) \<Rightarrow> (nat \<Rightarrow> 's) \<Rightarrow> nat \<Rightarrow> 's" where
  "inv_keys R mix' K j = (if 0 < j \<and> j < R then mix' (K (R - j)) else K (R - j))"

lemma rounds_Suc:
  "rounds R sub shift mix addk K (Suc n) s =
     addk ((if n < R - 1 then mix else id) (shift (sub (rounds R sub shift mix addk K n s)))) (K (Suc n))"
  by (simp add: rounds_def)

locale round_cipher =
  fixes sub sub' shift shift' mix mix' :: "'s \<Rightarrow> 's" and addk :: "'s \<Rightarrow> 's \<Rightarrow> 's" and ok :: "'s \<Rightarrow> bool"
  assumes ok_steps: "ok s \<Longrightarrow> ok (sub s)" "ok s \<Longrightarrow> ok (shift s)" "ok s \<Longrightarrow> ok (mix s)"
      "ok s \<Longrightarrow> ok k \<Longrightarrow> ok (addk s k)"
    and sub_inv: "ok s \<Longrightarrow> sub' (sub s) = s"
    and shift_inv: "ok s \<Longrightarrow> shift' (sub' (shift s)) = sub' s"
    and mix_inv: "ok s \<Longrightarrow> mix' (mix s) = s"
    and mix_addk: "ok s \<Longrightarrow> ok k \<Longrightarrow> mix' (addk s k) = addk (mix' s) (mix' k)"
    and addk_inv: "ok s \<Longrightarrow> ok k \<Longrightarrow> addk (addk s k) k = s"
    and ok_mix': "ok s \<Longrightarrow> ok (mix' s)"
begin

lemma rounds_ok:
  assumes "ok s" and "\<And>i. i \<le> n \<Longrightarrow> ok (K i)"
  shows "ok (rounds R sub shift mix addk K n s)"
  using assms(2)
proof (induction n)
  case 0
  then show ?case using assms(1) ok_steps by (simp add: rounds_def)
next
  case (Suc n)
  then have "ok (rounds R sub shift mix addk K n s)" "ok (K (Suc n))" by simp_all
  then show ?case by (simp add: rounds_def ok_steps)
qed

theorem inverse_rounds:
  assumes s: "ok s" and K: "\<And>i. i \<le> R \<Longrightarrow> ok (K i)" and R: "0 < R"
  shows "rounds R sub' shift' mix' addk (inv_keys R mix' K) R
      (rounds R sub shift mix addk K R s) = s"
proof -
  let ?e = "\<lambda>i. rounds R sub shift mix addk K i s"
  let ?d = "\<lambda>j. rounds R sub' shift' mix' addk (inv_keys R mix' K) j (?e R)"
  have ok: "ok (?e i)" if "i \<le> R" for i using rounds_ok [OF s, of i K R] K that by simp
  note oks = ok_steps ok K
  have d: "?d j = shift (sub (?e (R - 1 - j)))" if "j < R" for j
    using that
  proof (induction j)
    case 0
    have "?e R = addk (shift (sub (?e (R - 1)))) (K R)" using rounds_Suc [of R sub shift mix addk K "R - 1" s] R by simp
    then show ?case using R addk_inv oks by (simp add: rounds_def inv_keys_def)
  next
    case (Suc j)
    define m where "m = R - 1 - Suc j"
    have m: "R - 1 - j = Suc m" "R - Suc j = Suc m" "m < R - 1" "j < R - 1"
      using Suc.prems by (simp_all add: m_def)
    have e: "?e (Suc m) = addk (mix (shift (sub (?e m)))) (K (Suc m))"
      using rounds_Suc [of R sub shift mix addk K m s] m(3) by simp
    have "?d (Suc j) = addk (mix' (shift' (sub' (?d j)))) (mix' (K (Suc m)))"
      using Suc.prems m by (simp add: rounds_def inv_keys_def)
    also have "shift' (sub' (?d j)) = ?e (Suc m)"
      using Suc m shift_inv sub_inv oks by simp
    also have "addk (mix' (?e (Suc m))) (mix' (K (Suc m))) = shift (sub (?e m))"
      unfolding e using m(3) mix_addk addk_inv mix_inv ok_mix' oks by simp
    finally show ?case by (simp add: m_def)
  qed
  obtain r where r: "R = Suc r" using R by (cases R) auto
  have "?d R = addk (shift' (sub' (?d r))) (K 0)" by (simp add: rounds_def inv_keys_def r)
  also have "?d r = shift (sub (?e 0))" using d [of r] r by simp
  also have "shift' (sub' (shift (sub (?e 0)))) = ?e 0" using shift_inv sub_inv oks by simp
  also have "addk (?e 0) (K 0) = s" using addk_inv s K by (simp add: rounds_def)
  finally show ?thesis .
qed

end

section \<open>AES is one\<close>

lemma chunks4 [simp]: "chunks 4 (a # b # c # d # xs) = [a, b, c, d] # chunks 4 xs"
  using chunks_append [of "[a, b, c, d]" 4 xs] by simp

lemma xor_left_self [simp]: "a XOR (a XOR b) = b" for a b :: "'a::len word"
  by (simp add: xor.assoc [symmetric])

lemma MulPolynom_bytes:
  "MulPolynom col p = le_word [MulRow col p, MulRow col (word_rotl 8 p),
     MulRow col (word_rotl 16 p), MulRow col (word_rotl 24 p)]"
  by (simp add: MulPolynom_def le_word_def push_bit_or or.assoc or.commute or.left_commute)

lemma MulRow_bytes:
  "MulRow (le_word [a, b, c, d]) p =
     Mul a (bytes_le 4 p ! 0) XOR Mul b (bytes_le 4 p ! 1) XOR Mul c (bytes_le 4 p ! 2)
       XOR Mul d (bytes_le 4 p ! 3)"
proof -
  have "bytes_le (length [a, b, c, d]) (le_word [a, b, c, d] :: u32) = [a, b, c, d]"
    by (rule bytes_le_le_word) simp
  then have "bytes_le 4 (le_word [a, b, c, d] :: u32) = [a, b, c, d]" by (simp add: numeral_eq_Suc)
  then show ?thesis by (simp add: MulRow_def Let_def)
qed

lemma gf_mul_consts:
  "gf_mul x 1 = x" "gf_mul x 2 = xtime x" "gf_mul x 3 = xtime x XOR x"
  "gf_mul x 9 = xtime (xtime (xtime x)) XOR x"
  "gf_mul x 11 = xtime (xtime (xtime x)) XOR xtime x XOR x"
  "gf_mul x 13 = xtime (xtime (xtime x)) XOR xtime (xtime x) XOR x"
  "gf_mul x 14 = xtime (xtime (xtime x)) XOR xtime (xtime x) XOR xtime x"
  by (simp_all add: gf_mul_def upt8 funpow_numeral_unfold ac_simps)

lemma rotated_constants:
  "bytes_le 4 (0x01010302 :: u32) = [2, 3, 1, 1]"
  "bytes_le 4 (word_rotl 8 0x01010302 :: u32) = [1, 2, 3, 1]"
  "bytes_le 4 (word_rotl 16 0x01010302 :: u32) = [1, 1, 2, 3]"
  "bytes_le 4 (word_rotl 24 0x01010302 :: u32) = [3, 1, 1, 2]"
  "bytes_le 4 (0x090D0B0E :: u32) = [14, 11, 13, 9]"
  "bytes_le 4 (word_rotl 8 0x090D0B0E :: u32) = [9, 14, 11, 13]"
  "bytes_le 4 (word_rotl 16 0x090D0B0E :: u32) = [13, 9, 14, 11]"
  "bytes_le 4 (word_rotl 24 0x090D0B0E :: u32) = [11, 13, 9, 14]"
  by code_simp+

lemma bytes_le_4: "bytes_le 4 (le_word [a, b, c, d] :: u32) = [a, b, c, d]"
proof -
  have "bytes_le (length [a, b, c, d]) (le_word [a, b, c, d] :: u32) = [a, b, c, d]"
    by (rule bytes_le_le_word) simp
  then show ?thesis by (simp add: numeral_eq_Suc)
qed

lemma MixColumn_bytes:
  "MixColumn (le_word [a, b, c, d]) = le_word
     [gf_mul a 2 XOR gf_mul b 3 XOR c XOR d, a XOR gf_mul b 2 XOR gf_mul c 3 XOR d,
      a XOR b XOR gf_mul c 2 XOR gf_mul d 3, gf_mul a 3 XOR b XOR c XOR gf_mul d 2]"
  unfolding MixColumn_def MulPolynom_bytes MulRow_bytes rotated_constants
  by (simp add: Mul_gf_mul)

lemma InvMixColumn_bytes:
  "InvMixColumn (le_word [a, b, c, d]) = le_word
     [gf_mul a 14 XOR gf_mul b 11 XOR gf_mul c 13 XOR gf_mul d 9,
      gf_mul a 9 XOR gf_mul b 14 XOR gf_mul c 11 XOR gf_mul d 13,
      gf_mul a 13 XOR gf_mul b 9 XOR gf_mul c 14 XOR gf_mul d 11,
      gf_mul a 11 XOR gf_mul b 13 XOR gf_mul c 9 XOR gf_mul d 14]"
  unfolding InvMixColumn_def MulPolynom_bytes MulRow_bytes rotated_constants
  by (simp add: Mul_gf_mul)

lemma column_cases:
  obtains a b c d where "(w :: u32) = le_word [a, b, c, d]"
proof -
  have "w = le_word (bytes_le 4 w)" by simp
  moreover obtain a b c d where "bytes_le 4 w = [a, b, c, d]"
    by (rule that) (simp add: bytes_le_def upt_rec)
  ultimately show thesis using that by metis
qed

theorem InvMixColumn_MixColumn: "InvMixColumn (MixColumn w) = w"
proof -
  obtain a b c d where w: "w = le_word [a, b, c, d]" by (rule column_cases)
  show ?thesis
    unfolding w MixColumn_bytes InvMixColumn_bytes
    by (simp add: gf_mul_consts xtime_xor ac_simps)
qed

text \<open>Both are linear, so the key addition may be moved across them.\<close>

lemma le_word_xor4:
  "(le_word [a, b, c, d] :: u32) XOR le_word [a', b', c', d']
    = le_word [a XOR a', b XOR b', c XOR c', d XOR d']"
  by (rule bit_word_eqI) (auto simp: bit_simps bit_le_word nth_Cons split: nat.split)

lemma InvMixColumn_xor: "InvMixColumn (v XOR w) = InvMixColumn v XOR InvMixColumn w"
proof -
  obtain a b c d where v: "v = le_word [a, b, c, d]" by (rule column_cases)
  obtain a' b' c' d' where w: "w = le_word [a', b', c', d']" by (rule column_cases)
  show ?thesis
    unfolding v w le_word_xor4 InvMixColumn_bytes by (simp add: gf_mul_xor_left ac_simps)
qed

text \<open>A block of four columns as sixteen bytes, and the steps on it.\<close>

definition aes_sub :: "byte list \<Rightarrow> byte list \<Rightarrow> byte list" where
  "aes_sub table p = map (\<lambda>b. table ! unat b) p"

definition aes_shift :: "byte list \<Rightarrow> byte list" where
  "aes_shift p = map (\<lambda>j. p ! j) shift_source4"

definition aes_unshift :: "byte list \<Rightarrow> byte list" where
  "aes_unshift p = reverse_columns (aes_shift (reverse_columns p))"

lemma block16:
  assumes "length p = 16"
  obtains b0 b1 b2 b3 b4 b5 b6 b7 b8 b9 b10 b11 b12 b13 b14 b15 where
    "p = [b0, b1, b2, b3, b4, b5, b6, b7, b8, b9, b10, b11, b12, b13, b14, b15]"
proof -
  have "p = map (\<lambda>i. p ! i) [0..<16]" by (rule nth_equalityI) (simp_all add: assms)
  then show thesis by (rule that [OF trans]) (simp add: upt_rec)
qed

lemma chunks4_0 [simp]: "chunks 4 [a, b, c, d] = [[a, b, c, d]]"
  using chunks4 [of a b c d "[]"] by simp

lemma bytes_le_xor: "bytes_le n (v XOR w) = map2 (XOR) (bytes_le n v) (bytes_le n w)"
  by (rule nth_equalityI) (auto intro!: bit_word_eqI simp: bit_bytes_le bit_simps)

lemma chunks4_bytes [simp]:
  "chunks 4 (bytes_le 4 w @ xs) = bytes_le 4 w # chunks 4 xs"
  "chunks 4 (bytes_le 4 w) = [bytes_le 4 w]"
  using chunks_append [of "bytes_le 4 w" 4 xs] chunks_append [of "bytes_le 4 w" 4 "[]"] by simp_all

interpretation aes_round: round_cipher
  "aes_sub g_aesSubByte" "aes_sub g_aesInvSubByte" aes_shift aes_unshift
  "map_columns MixColumn" "map_columns InvMixColumn" xor_bytes "\<lambda>p. length p = 16"
proof
  fix s k :: "byte list"
  assume s: "length s = 16"
  note b16 = block16 [OF s]
  show "length (aes_sub g_aesSubByte s) = 16" by (simp add: aes_sub_def s)
  show "length (aes_shift s) = 16" by (simp add: aes_shift_def shift_source4_def)
  show "length (map_columns MixColumn s) = 16"
    by (rule b16) (simp add: map_columns_def)
  show "length (map_columns InvMixColumn s) = 16"
    by (rule b16) (simp add: map_columns_def)
  show "aes_sub g_aesInvSubByte (aes_sub g_aesSubByte s) = s"
    by (simp add: aes_sub_def aes_InvSub_Sub o_def)
  show "aes_unshift (aes_sub g_aesInvSubByte (aes_shift s)) = aes_sub g_aesInvSubByte s"
    by (rule b16)
      (simp add: aes_unshift_def aes_shift_def aes_sub_def shift_source4_def reverse_columns_def)
  show "map_columns InvMixColumn (map_columns MixColumn s) = s"
    by (rule b16) (simp add: map_columns_def InvMixColumn_MixColumn bytes_le_4 o_def)
  assume k: "length k = 16"
  show "length (xor_bytes s k) = 16" by (simp add: xor_bytes_def s k)
  show "xor_bytes (xor_bytes s k) k = s"
    by (rule nth_equalityI) (simp_all add: xor_bytes_def s k xor.assoc)
  show "map_columns InvMixColumn (xor_bytes s k)
      = xor_bytes (map_columns InvMixColumn s) (map_columns InvMixColumn k)"
    by (rule block16 [OF k], rule b16)
      (simp add: map_columns_def xor_bytes_def le_word_xor4 [symmetric] InvMixColumn_xor
        bytes_le_xor)
qed

section \<open>Decryption inverts encryption\<close>

lemma EncDec_rounds:
  "EncDec 128 R ekey data t f =
     Inr (rounds R (aes_sub t) aes_shift (map_columns f) xor_bytes
       (\<lambda>i. take 16 (drop (i * 16) ekey)) R data)"
proof -
  have "fold (\<lambda>i r. bind_res r (\<lambda>p.
              bind_res (ShiftRows 4 (map (\<lambda>b. t ! unat b) p)) (\<lambda>p'.
                let p'' = (if i < R - 1 then map_columns f p' else p')
                in Inr (xor_bytes p'' (take 16 (drop ((i + 1) * 16) ekey))))))
           [0..<n] (Inr (xor_bytes data (take 16 ekey)))
      = Inr (rounds R (aes_sub t) aes_shift (map_columns f) xor_bytes
          (\<lambda>i. take 16 (drop (i * 16) ekey)) n data)" for n
    by (induction n) (simp_all add: rounds_def ShiftRows_def aes_sub_def aes_shift_def)
  then show ?thesis by (simp add: EncDec_def Let_def)
qed

lemma rounds_cong:
  "(\<And>i. i \<le> n \<Longrightarrow> K i = K' i) \<Longrightarrow>
     rounds R s sh mx ak K n p = rounds R s sh mx ak K' n p"
  by (induction n) (simp_all add: rounds_def)

lemma length_reverse_columns: "length p = 16 \<Longrightarrow> length (reverse_columns p) = 16"
  by (erule block16) (simp add: reverse_columns_def)

lemma reverse_columns_simps:
  assumes "length p = 16"
  shows "reverse_columns (reverse_columns p) = p"
    and "reverse_columns (aes_sub t p) = aes_sub t (reverse_columns p)"
    and "reverse_columns (map_columns f p) = map_columns f (reverse_columns p)"
    and "length k = 16 \<Longrightarrow>
      reverse_columns (xor_bytes p k) = xor_bytes (reverse_columns p) (reverse_columns k)"
    and "aes_shift (reverse_columns p) = reverse_columns (aes_unshift p)"
proof -
  note b16 = block16 [OF assms]
  show "reverse_columns (reverse_columns p) = p"
    by (rule b16) (simp add: reverse_columns_def)
  show "reverse_columns (aes_sub t p) = aes_sub t (reverse_columns p)"
    by (rule b16) (simp add: reverse_columns_def aes_sub_def)
  show "reverse_columns (map_columns f p) = map_columns f (reverse_columns p)"
    by (rule b16) (simp add: reverse_columns_def map_columns_def)
  show "aes_shift (reverse_columns p) = reverse_columns (aes_unshift p)"
    by (rule b16) (simp add: aes_unshift_def aes_shift_def shift_source4_def reverse_columns_def)
  assume "length k = 16"
  then show "reverse_columns (xor_bytes p k) = xor_bytes (reverse_columns p) (reverse_columns k)"
    by - (erule block16, rule b16, simp add: xor_bytes_def reverse_columns_def)
qed

lemma aes_lengths:
  "length p = 16 \<Longrightarrow> length (aes_sub t p) = 16"
  "length p = 16 \<Longrightarrow> length (aes_unshift p) = 16"
  "length p = 16 \<Longrightarrow> length (map_columns f p) = 16"
  "length p = 16 \<Longrightarrow> length k = 16 \<Longrightarrow> length (xor_bytes p k) = 16"
proof -
  show "length p = 16 \<Longrightarrow> length (aes_sub t p) = 16" by (simp add: aes_sub_def)
  show "length p = 16 \<Longrightarrow> length (aes_unshift p) = 16"
    by (simp add: aes_unshift_def length_reverse_columns aes_round.ok_steps)
  show "length p = 16 \<Longrightarrow> length (map_columns f p) = 16"
    by (erule block16) (simp add: map_columns_def)
qed (rule aes_round.ok_steps)

text \<open>Running the rounds on reversed columns is running them with the inverse shift.\<close>

lemma rounds_reversed:
  assumes "length p = 16" and "\<And>i. i \<le> n \<Longrightarrow> length (K i) = 16"
  shows "rounds R (aes_sub t) aes_shift (map_columns f) xor_bytes K n (reverse_columns p) =
      reverse_columns (rounds R (aes_sub t) aes_unshift (map_columns f) xor_bytes
        (\<lambda>i. reverse_columns (K i)) n p)
    \<and> length (rounds R (aes_sub t) aes_unshift (map_columns f) xor_bytes
        (\<lambda>i. reverse_columns (K i)) n p) = 16"
  using assms(2)
proof (induction n)
  case 0
  then show ?case
    using assms(1)
    by (simp add: rounds_def reverse_columns_simps length_reverse_columns aes_lengths)
next
  case (Suc n)
  let ?r = "rounds R (aes_sub t) aes_unshift (map_columns f) xor_bytes
        (\<lambda>i. reverse_columns (K i)) n p"
  have "rounds R (aes_sub t) aes_shift (map_columns f) xor_bytes K n (reverse_columns p)
      = reverse_columns ?r" "length ?r = 16" using Suc by simp_all
  moreover have "length (K (Suc n)) = 16" using Suc.prems by simp
  ultimately show ?case
    by (simp add: rounds_def reverse_columns_simps length_reverse_columns aes_lengths
        flip: reverse_columns_simps(2,3))
qed

text \<open>The round keys, as slices of the expanded key's words.\<close>

lemma chunks4_concat: "chunks 4 (concat (map (bytes_le 4) ws)) = map (bytes_le 4) ws"
  by (induction ws) simp_all

lemma drop_concat4:
  "drop (4 * k) (concat (map (bytes_le 4) (ws :: u32 list))) = concat (map (bytes_le 4) (drop k ws))"
proof (induction ws arbitrary: k)
  case (Cons w ws)
  then show ?case by (cases k) simp_all
qed simp

lemma take_concat4:
  "take (4 * k) (concat (map (bytes_le 4) (ws :: u32 list))) = concat (map (bytes_le 4) (take k ws))"
proof (induction ws arbitrary: k)
  case (Cons w ws)
  then show ?case by (cases k) simp_all
qed simp

lemma take_drop_concat4:
  "take (4 * n) (drop (4 * k) (concat (map (bytes_le 4) (ws :: u32 list))))
    = concat (map (bytes_le 4) (take n (drop k ws)))"
  by (simp only: drop_concat4 take_concat4)

lemma length_concat4: "length (concat (map (bytes_le 4) ws)) = 4 * length (ws :: u32 list)"
  by (induction ws) simp_all

lemma reverse_columns_words:
  "reverse_columns (concat (map (bytes_le 4) ws)) = concat (map (bytes_le 4) (rev ws))"
  by (simp add: reverse_columns_def chunks4_concat rev_map)

lemma map_columns_words:
  "map_columns f (concat (map (bytes_le 4) ws)) = concat (map (bytes_le 4) (map f ws))"
  by (simp add: map_columns_def chunks4_concat o_def)

lemma length_ExpandedKey_words [simp]: "length (ExpandedKey_words n k) = n"
  by (induction n arbitrary: k) (simp_all add: split_beta)

lemma InvExpandedKey_words_rev:
  "length v = n \<Longrightarrow> InvExpandedKey_words n v = rev v"
  by (rule nth_equalityI) (auto simp: InvExpandedKey_words_def rev_nth)

lemma take_drop_rev:
  "d + k \<le> length v \<Longrightarrow> take k (drop d (rev v)) = rev (take k (drop (length v - d - k) v))"
  by (rule nth_equalityI) (auto simp: rev_nth)

definition round_key :: "aes \<Rightarrow> nat \<Rightarrow> byte list" where
  "round_key a i = take 16 (drop (i * 16) (CalcExpandedKey a))"

lemma expanded_words: "128 div 8 * r div 4 = 4 * (r :: nat)"
  by simp

lemma length_round_key:
  assumes "aes_BlockSize a = 128" and "i \<le> aes_Rounds a"
  shows "length (round_key a i) = 16"
proof -
  have "16 * i + 16 \<le> 16 * (aes_Rounds a + 1)" using assms(2) by simp
  then show ?thesis
    using assms(1)
    by (simp add: round_key_def CalcExpandedKey_def length_concat4 expanded_words del: length_concat)
qed

lemma inverse_round_key:
  assumes bs: "aes_BlockSize a = 128" and i: "i \<le> aes_Rounds a"
  shows "reverse_columns (take 16 (drop (i * 16) (CalcInvExpandedKey a)))
    = inv_keys (aes_Rounds a) (map_columns InvMixColumn) (round_key a) i"
proof -
  define R where "R = aes_Rounds a"
  define n where "n = 4 * (R + 1)"
  define W where "W = ExpandedKey_words n (ExpandedKey (aes_Key a))"
  define V where "V = InvExpandedKey (aes_Key a) n 4"
  have len: "length W = n" "length V = n" by (simp_all add: W_def V_def InvExpandedKey_def)
  have n: "aes_BlockSize a div 8 * (R + 1) div 4 = n" unfolding bs n_def by (rule expanded_words)
  have iR: "i \<le> R" using i by (simp add: R_def)
  have rk: "round_key a j = concat (map (bytes_le 4) (take 4 (drop (4 * j) W)))" for j
    using take_drop_concat4 [of 4 "4 * j" W]
    by (simp only: round_key_def CalcExpandedKey_def W_def R_def [symmetric] n)
      (simp add: mult.commute [of j 16])
  have V: "take 4 (drop (4 * j) V) =
      (if 0 < j \<and> j < R then map InvMixColumn (take 4 (drop (4 * j) W)) else take 4 (drop (4 * j) W))"
    if "j \<le> R" for j
  proof (rule nth_equalityI)
    fix k
    assume "k < length (take 4 (drop (4 * j) V))"
    then have k: "k < 4" using len by simp
    then have "4 * j + k < n" using that by (simp add: n_def)
    note k = k this
    have "4 \<le> 4 * j + k \<longleftrightarrow> 0 < j" "4 * j + k < n - 4 \<longleftrightarrow> j < R"
      using k that by (auto simp: n_def)
    then have "V ! (4 * j + k) = (if 0 < j \<and> j < R then InvMixColumn (W ! (4 * j + k)) else W ! (4 * j + k))"
      using k len by (simp add: V_def InvExpandedKey_def W_def)
    then show "take 4 (drop (4 * j) V) ! k = (if 0 < j \<and> j < R
        then map InvMixColumn (take 4 (drop (4 * j) W)) else take 4 (drop (4 * j) W)) ! k"
      using k len by simp
  qed (use len in simp)
  have "take 16 (drop (i * 16) (CalcInvExpandedKey a))
      = concat (map (bytes_le 4) (take 4 (drop (4 * i) (rev V))))"
    using take_drop_concat4 [of 4 "4 * i" "rev V"] InvExpandedKey_words_rev [OF len(2)]
    by (simp only: CalcInvExpandedKey_def Let_def R_def [symmetric] n)
      (simp add: bs V_def [symmetric] mult.commute [of i 16])
  also have "take 4 (drop (4 * i) (rev V)) = rev (take 4 (drop (4 * (R - i)) V))"
    using take_drop_rev [of "4 * i" 4 V] iR len by (simp add: n_def diff_mult_distrib2)
  finally have "reverse_columns (take 16 (drop (i * 16) (CalcInvExpandedKey a)))
      = concat (map (bytes_le 4) (take 4 (drop (4 * (R - i)) V)))"
    by (simp add: reverse_columns_words)
  also have "\<dots> = inv_keys R (map_columns InvMixColumn) (round_key a) i"
    using iR by (auto simp: V inv_keys_def rk map_columns_words)
  finally show ?thesis by (simp add: R_def)
qed

lemma DecryptBlock_EncryptBlock:
  assumes bs: "aes_BlockSize a = 128" and R: "0 < aes_Rounds a" and p: "length p = 16"
  shows "\<exists>c. EncryptBlock a (CalcExpandedKey a) p = Inr c \<and> length c = 16
    \<and> DecryptBlock a (CalcInvExpandedKey a) c = Inr p"
proof -
  let ?R = "aes_Rounds a"
  let ?c = "rounds ?R (aes_sub g_aesSubByte) aes_shift (map_columns MixColumn) xor_bytes
      (round_key a) ?R p"
  let ?K = "\<lambda>i. take 16 (drop (i * 16) (CalcInvExpandedKey a))"
  have enc: "EncryptBlock a (CalcExpandedKey a) p = Inr ?c"
    by (simp add: EncryptBlock_def bs EncDec_rounds round_key_def [abs_def])
  have c: "length ?c = 16"
    using aes_round.rounds_ok [OF p] length_round_key [OF bs] by simp
  have K: "length (?K i) = 16" if "i \<le> ?R" for i
  proof -
    have "16 * i + 16 \<le> 16 * (?R + 1)" using that by simp
    then show ?thesis
      by (simp only: CalcInvExpandedKey_def Let_def bs expanded_words length_take length_drop length_concat4)
        (simp add: InvExpandedKey_words_def)
  qed
  let ?d = "rounds ?R (aes_sub g_aesInvSubByte) aes_unshift (map_columns InvMixColumn) xor_bytes
      (\<lambda>i. reverse_columns (?K i)) ?R ?c"
  have "DecryptBlock a (CalcInvExpandedKey a) ?c = Inr ?d"
    using rounds_reversed [OF c, of ?R ?K] K
    by (simp add: DecryptBlock_def bs EncDec_rounds reverse_columns_simps)
  also have "?d = rounds ?R (aes_sub g_aesInvSubByte) aes_unshift (map_columns InvMixColumn) xor_bytes
      (inv_keys ?R (map_columns InvMixColumn) (round_key a)) ?R ?c"
    by (rule rounds_cong) (rule inverse_round_key [OF bs])
  also have "\<dots> = p"
    using aes_round.inverse_rounds [OF p _ R] length_round_key [OF bs] by simp
  finally show ?thesis using enc c by blast
qed


section \<open>The standard's key expansion and cipher\<close>

text \<open>
  FIPS 197 with words as lists of four bytes and the state as its sixteen bytes, column by column:
  byte \<open>j\<close> is in row \<open>j mod 4\<close> and column \<open>j div 4\<close>.
\<close>

definition SubWord :: "byte list \<Rightarrow> byte list" where
  "SubWord w = map (\<lambda>b. g_aesSubByte ! unat b) w"

definition RotWord :: "byte list \<Rightarrow> byte list" where
  "RotWord w = rotate1 w"

definition Rcon :: "nat \<Rightarrow> byte list" where
  "Rcon i = [(xtime ^^ (i - 1)) 1, 0, 0, 0]"

function fips_word :: "nat \<Rightarrow> byte list \<Rightarrow> nat \<Rightarrow> byte list" where
  "fips_word nk key i =
     (if i < nk \<or> nk = 0 then take 4 (drop (4 * i) key)
      else xor_bytes (fips_word nk key (i - nk))
        (if i mod nk = 0 then xor_bytes (SubWord (RotWord (fips_word nk key (i - 1)))) (Rcon (i div nk))
         else if 6 < nk \<and> i mod nk = 4 then SubWord (fips_word nk key (i - 1))
         else fips_word nk key (i - 1)))"
  by auto
termination by (relation "measure (\<lambda>(_, _, i). i)") auto

declare fips_word.simps [simp del]

definition fips_ShiftRows :: "byte list \<Rightarrow> byte list" where
  "fips_ShiftRows s = map (\<lambda>j. s ! (4 * ((j div 4 + j mod 4) mod 4) + j mod 4)) [0..<16]"

definition fips_MixColumns :: "byte list \<Rightarrow> byte list" where
  "fips_MixColumns s =
     map (\<lambda>j. let c = 4 * (j div 4); r = j mod 4
              in gf_mul (s ! (c + r)) 2 XOR gf_mul (s ! (c + (r + 1) mod 4)) 3
                   XOR s ! (c + (r + 2) mod 4) XOR s ! (c + (r + 3) mod 4)) [0..<16]"

definition fips_cipher :: "nat \<Rightarrow> byte list \<Rightarrow> byte list \<Rightarrow> byte list" where
  "fips_cipher R key p =
     rounds R SubWord fips_ShiftRows fips_MixColumns xor_bytes
       (\<lambda>i. concat (map (fips_word (length key div 4) key) [4 * i..<4 * i + 4])) R p"

lemma length_fips_word:
  assumes "4 * nk \<le> length key" and "0 < nk"
  shows "length (fips_word nk key i) = 4"
proof (induction i rule: less_induct)
  case (less i)
  then show ?case
    using assms by (subst fips_word.simps) (auto simp: xor_bytes_def SubWord_def RotWord_def Rcon_def)
qed

lemma bytes4_cases:
  assumes "length xs = 4" obtains a b c d where "xs = [a, b, c, d]"
  using assms by (auto simp: numeral_eq_Suc length_Suc_conv)

lemma unat_u32_byte: "unat (ucast b :: u32) = unat b" for b :: byte
  using unsigned_less [of b, where 'a = nat] by (simp add: unsigned_ucast_eq take_bit_eq_mod)

lemma subByteAt_bytes:
  "subByteAt (le_word [a, b, c, d]) 0 = ucast (g_aesSubByte ! unat a)"
  "subByteAt (le_word [a, b, c, d]) 8 = ucast (g_aesSubByte ! unat b)"
  "subByteAt (le_word [a, b, c, d]) 16 = ucast (g_aesSubByte ! unat c)"
  "subByteAt (le_word [a, b, c, d]) 24 = ucast (g_aesSubByte ! unat d)"
proof -
  have m: "drop_bit n w AND 255 = ucast (ucast (drop_bit n w) :: byte)" for w :: u32 and n
  proof -
    have "drop_bit n w AND mask 8 = ucast (ucast (drop_bit n w) :: byte)"
      by (rule bit_word_eqI) (auto simp: bit_simps)
    then show ?thesis by (simp add: mask_eq_exp_minus_1)
  qed
  have "map (\<lambda>i. ucast (drop_bit (8 * i) (le_word [a, b, c, d] :: u32)) :: byte) [0..<4] = [a, b, c, d]"
    using bytes_le_4 [of a b c d] by (simp only: bytes_le_def)
  then show "subByteAt (le_word [a, b, c, d]) 0 = ucast (g_aesSubByte ! unat a)"
    "subByteAt (le_word [a, b, c, d]) 8 = ucast (g_aesSubByte ! unat b)"
    "subByteAt (le_word [a, b, c, d]) 16 = ucast (g_aesSubByte ! unat c)"
    "subByteAt (le_word [a, b, c, d]) 24 = ucast (g_aesSubByte ! unat d)"
    using m [of 0 "le_word [a, b, c, d]"] by (simp_all add: subByteAt_def m upt_rec unat_u32_byte)
qed

lemma or_bytes_le_word:
  "ucast a OR push_bit 8 (ucast b) OR push_bit 16 (ucast c) OR push_bit 24 (ucast d)
    = (le_word [a, b, c, d] :: u32)"
  by (simp add: le_word_def push_bit_or or.assoc or.commute or.left_commute)

definition key_inv :: "byte list \<Rightarrow> nat \<Rightarrow> expanded_key \<Rightarrow> bool" where
  "key_inv key k s \<longleftrightarrow>
     (let n = length (ek_key s)
      in 0 < n \<and> 4 * n = length key \<and> ek_i s = k mod n \<and> ek_rcon s = (xtime ^^ ((k + (n - 1)) div n)) 1
         \<and> (\<forall>m. k \<le> m \<and> m < k + n \<longrightarrow> bytes_le 4 (ek_key s ! (m mod n)) = fips_word n key m))"

lemma mod_window:
  assumes "k mod n = m mod n" "k \<le> m" "m \<le> k + n" "0 < (n :: nat)"
  shows "m = k \<or> m = k + n"
proof -
  obtain q where q: "m = k + n * q" using mod_eq_nat2E [OF assms(1,2)] by metis
  then have "n * q \<le> n * 1" using assms(3) by simp
  then have "q = 0 \<or> q = 1" using assms(4) by (simp del: mult_1_right) linarith
  then show ?thesis using q by auto
qed

lemma div_window:
  "0 < n \<Longrightarrow> (k + (n - 1)) div n = (if k mod n = 0 then k div n else Suc (k div n))" for n :: nat
proof -
  assume n: "0 < n"
  have "(n * (k div n) + (k mod n + (n - 1))) div n = k div n + (k mod n + (n - 1)) div n"
    using n div_mult_self2 [of n "k mod n + (n - 1)" "k div n"] by (simp only: add.commute)
  then have "(k + (n - 1)) div n = k div n + (k mod n + (n - 1)) div n"
    by (simp only: add.assoc [symmetric] mult_div_mod_eq)
  moreover have "(k mod n + (n - 1)) div n = (if k mod n = 0 then 0 else 1)"
  proof (cases "k mod n")
    case (Suc j)
    then have "j < n" using n mod_less_divisor [of n k] by simp
    moreover have "k mod n + (n - 1) = j + n" using Suc n by simp
    ultimately show ?thesis using Suc n div_add_self2 [of n j] by simp
  qed (use n in simp)
  ultimately show ?thesis by simp
qed

lemma bytes_le_ucast: "bytes_le 4 (ucast b :: u32) = [b, 0, 0, 0]" for b :: byte
  using bytes_le_4 [of b 0 0 0] by (simp add: le_word_def)

lemma xtime_code: "push_bit 1 r XOR (if r AND 0x80 \<noteq> 0 then 0x1B else 0) = xtime r"
proof -
  have "r AND 0x80 \<noteq> 0 \<longleftrightarrow> bit r 7" by (simp add: and_exp_eq_0_iff_not_bit [of r 7, simplified])
  then show ?thesis by (simp add: xtime_def)
qed

lemma ExpandedKey_Next_inv:
  assumes inv: "key_inv key k s" and nx: "ExpandedKey_Next s = (w, s')"
  defines "n \<equiv> length (ek_key s)"
  shows "bytes_le 4 w = fips_word n key k \<and> length (ek_key s') = n \<and> key_inv key (k + 1) s'"
proof -
  have n: "0 < n" "4 * n = length key" and i: "ek_i s = k mod n"
    and rc: "ek_rcon s = (xtime ^^ ((k + (n - 1)) div n)) 1"
    and win: "\<And>m. k \<le> m \<Longrightarrow> m < k + n \<Longrightarrow> bytes_le 4 (ek_key s ! (m mod n)) = fips_word n key m"
    using inv by (auto simp: key_inv_def Let_def n_def)
  define t0 where "t0 = ek_key s ! ((k mod n + n - 1) mod n)"
  have "(k mod n + n - 1) mod n = (k + n - 1) mod n"
    using n(1) by (metis Nat.add_diff_assoc One_nat_def Suc_leI mod_add_left_eq)
  then have t0: "bytes_le 4 t0 = fips_word n key (k + n - 1)"
    using win [of "k + n - 1"] n(1) by (simp add: t0_def)
  obtain a b c d where abcd: "t0 = le_word [a, b, c, d]" by (rule column_cases)
  define T where "T = (if k mod n = 0
               then ucast (ek_rcon s) XOR (subByteAt t0 8 OR push_bit 8 (subByteAt t0 16) OR push_bit 16 (subByteAt t0 24)
                                    OR push_bit 24 (subByteAt t0 0))
               else if n > 6 \<and> k mod n = 4
               then subByteAt t0 0 OR push_bit 8 (subByteAt t0 8) OR push_bit 16 (subByteAt t0 16)
                      OR push_bit 24 (subByteAt t0 24)
               else t0)"
  have w: "w = ek_key s ! (k mod n)" and s': "s' = s\<lparr>ek_i := (k mod n + 1) mod n,
      ek_key := (ek_key s)[k mod n := w XOR T],
      ek_rcon := (if k mod n = 0 then push_bit 1 (ek_rcon s) XOR (if ek_rcon s AND 0x80 \<noteq> 0 then 0x1B else 0)
        else ek_rcon s)\<rparr>"
    using nx unfolding ExpandedKey_Next_def Let_def i n_def [symmetric] t0_def [symmetric] T_def [symmetric]
    by auto
  have s'i: "ek_i s' = (k mod n + 1) mod n" and l': "length (ek_key s') = n"
    by (simp_all add: s' n_def)
  have w_ok: "bytes_le 4 w = fips_word n key k" using win [of k] n by (simp add: w)
  have other: "ek_key s' ! j = ek_key s ! j" if "j \<noteq> k mod n" for j
    using that by (simp add: s')
  have kn: "k mod n < n" using n by simp
  have fw: "fips_word n key (k + n) = xor_bytes (fips_word n key k)
      (if k mod n = 0 then xor_bytes (SubWord (RotWord (fips_word n key (k + n - 1)))) (Rcon (Suc (k div n)))
       else if 6 < n \<and> k mod n = 4 then SubWord (fips_word n key (k + n - 1))
       else fips_word n key (k + n - 1))"
    using n(1) div_add_self2 [of n k] by (subst fips_word.simps) simp
  have t0': "fips_word n key (k + n - 1) = [a, b, c, d]" using t0 abcd bytes_le_4 by simp
  have rcq: "ek_rcon s = (xtime ^^ (if k mod n = 0 then k div n else Suc (k div n))) 1"
    unfolding rc div_window [OF n(1)] ..
  have new: "bytes_le 4 (ek_key s' ! (k mod n)) = fips_word n key (k + n)"
    using kn unfolding fw w_ok [symmetric] t0' s' T_def abcd subByteAt_bytes or_bytes_le_word
    by (simp add: n_def [symmetric] rcq bytes_le_xor xor_bytes_def SubWord_def RotWord_def Rcon_def bytes_le_4
        bytes_le_ucast xor.commute)
  have rc': "ek_rcon s' = (xtime ^^ ((k + 1 + (n - 1)) div n)) 1"
  proof -
    have "ek_rcon s' = (if k mod n = 0 then xtime (ek_rcon s) else ek_rcon s)"
      unfolding s' xtime_code by simp
    moreover have "(k + 1 + (n - 1)) div n = Suc (k div n)" using n(1) div_add_self2 [of n k] by simp
    ultimately show ?thesis by (simp add: rcq)
  qed
  have "bytes_le 4 (ek_key s' ! (m mod n)) = fips_word n key m" if "k + 1 \<le> m" "m < k + 1 + n" for m
  proof (cases "m = k + n")
    case True
    then show ?thesis using new by simp
  next
    case False
    then have "m mod n \<noteq> k mod n" using mod_window [of k n m] that n by auto
    then show ?thesis using other win [of m] that False by simp
  qed
  then show ?thesis
    using w_ok l' n s'i rc' by (simp add: key_inv_def Let_def mod_Suc_eq)
qed

lemma ExpandedKey_words_fips:
  "key_inv key k s \<Longrightarrow> map (bytes_le 4) (ExpandedKey_words m s)
     = map (fips_word (length (ek_key s)) key) [k..<k + m]"
proof (induction m arbitrary: k s)
  case (Suc m)
  obtain w s' where nx: "ExpandedKey_Next s = (w, s')" by (cases "ExpandedKey_Next s")
  note n = ExpandedKey_Next_inv [OF Suc.prems nx]
  have "[k..<k + Suc m] = k # [k + 1..<k + 1 + m]" by (simp add: upt_rec)
  then show ?case using n Suc.IH [of "k + 1" s'] by (simp add: nx del: upt_Suc)
qed simp

lemma key_inv_ExpandedKey:
  assumes "length key = 4 * n" and "0 < n"
  shows "key_inv key 0 (ExpandedKey key)"
proof -
  have "bytes_le 4 (le_word (take 4 (drop (i * 4) key)) :: u32) = take 4 (drop (i * 4) key)" if "i < n" for i
  proof -
    have "length (take 4 (drop (i * 4) key)) = 4" using assms(1) that by simp
    then show ?thesis by (metis bytes4_cases bytes_le_4)
  qed
  then show ?thesis
    using assms by (simp add: key_inv_def ExpandedKey_def fips_word.simps mult.commute)
qed

lemma fips_steps:
  assumes "length s = 16"
  shows "aes_sub g_aesSubByte s = SubWord s" "aes_shift s = fips_ShiftRows s"
    "map_columns MixColumn s = fips_MixColumns s"
proof -
  show "aes_sub g_aesSubByte s = SubWord s" by (simp add: aes_sub_def SubWord_def)
  show "aes_shift s = fips_ShiftRows s"
    by (simp add: aes_shift_def fips_ShiftRows_def shift_source4_def upt_rec flip: numeral_2_eq_2)
  show "map_columns MixColumn s = fips_MixColumns s"
    by (rule block16 [OF assms])
      (simp add: map_columns_def MixColumn_bytes bytes_le_4 fips_MixColumns_def upt_rec Let_def ac_simps)
qed





text \<open>
  with 192-bit blocks, which the cipher's block size admits, the row shift reads byte 15 where
  it has to read byte 23: two blocks that differ in byte 23 only encrypt to the same block, so
  no decryption can be right.
\<close>

theorem EncryptBlock_192_not_injective:
  assumes "aes_BlockSize a = 192" and "0 < aes_Rounds a" and "length p = 24" and "24 \<le> length ekey"
  shows "EncryptBlock a ekey (p[23 := x]) = EncryptBlock a ekey p"
proof -
  let ?S = "\<lambda>q. ShiftRows 6 (map (\<lambda>b. g_aesSubByte ! unat b) (xor_bytes q (take 24 ekey)))"
  have l: "length (xor_bytes q (take 24 ekey)) = 24" if "length q = 24" for q
    using that assms(4) by (simp add: xor_bytes_def)
  have same: "?S (p[23 := x]) = ?S p"
    using assms(3,4) by (simp add: ShiftRows_def shift_source6_def l) (simp add: xor_bytes_def)
  obtain r where r: "aes_Rounds a = Suc r" using assms(2) by (cases "aes_Rounds a") auto
  show ?thesis
    using same by (simp add: EncryptBlock_def EncDec_def assms(1) Let_def r upt_conv_Cons del: upt_Suc)
qed

lemma EncryptBlock_192_not_injective_witness:
  "EncryptBlock (Aes\<lparr>aes_BlockSize := 192\<rparr>) (replicate 360 0) ((replicate 24 0)[23 := 1])
    = EncryptBlock (Aes\<lparr>aes_BlockSize := 192\<rparr>) (replicate 360 0) (replicate 24 0)"
  by (rule EncryptBlock_192_not_injective) (simp_all add: Aes_def)

end
