(* ===== verification/Cipher.thy ===== *)
theory Cipher
  imports Aes
begin

text \<open>
  The block cipher modes of \<open>src/crypto/cipher.cpp\<close>: the class \<open>BlockCipher\<close> with its virtual
  operations as a record of functions, \<open>Pad\<close>, \<open>Encrypt\<close> and \<open>Decrypt\<close>.  The locale
  \<open>block_cipher\<close> states what the modes need of the derived class; AES provides it.
\<close>

unbundle bit_operations_syntax

section \<open>The class\<close>

datatype CipherMode = CBC | CFB | CTS | ECB | OFB

datatype PaddingMode = ANSIX923 | ISO10126 | NoPadding | PKCS7 | Zeros

text \<open>The virtual functions, over the derived object's own state \<open>'c\<close>.\<close>

record 'c cipher_class =
  vt_BlockSize :: "'c \<Rightarrow> nat"
  vt_InitParams :: "'c \<Rightarrow> 'c"
  vt_CalcExpandedKey :: "'c \<Rightarrow> byte list res"
  vt_CalcInvExpandedKey :: "'c \<Rightarrow> byte list res"
  vt_EncryptBlock :: "'c \<Rightarrow> byte list \<Rightarrow> byte list \<Rightarrow> byte list res"
  vt_DecryptBlock :: "'c \<Rightarrow> byte list \<Rightarrow> byte list \<Rightarrow> byte list res"

record 'c BlockCipher =
  bc_IV :: "byte list"
  bc_Mode :: CipherMode
  bc_Padding :: PaddingMode
  bc_self :: 'c

definition Pad :: "PaddingMode \<Rightarrow> nat \<Rightarrow> byte list \<Rightarrow> byte list res" where
  "Pad padding cbPad tdata =
     (case padding of
        Zeros \<Rightarrow> Inr (tdata @ replicate cbPad 0)
      | PKCS7 \<Rightarrow> Inr (tdata @ replicate cbPad (of_nat cbPad))
      | _ \<Rightarrow> Inl E_NOTIMPL)"

section \<open>Encryption\<close>

text \<open>One pass of the switch on the mode: the bytes written, and the new contents of \<open>block\<close>.\<close>

definition Encrypt_step ::
    "'c cipher_class \<Rightarrow> 'c \<Rightarrow> CipherMode \<Rightarrow> byte list \<Rightarrow> byte list \<Rightarrow> byte list \<Rightarrow> (byte list \<times> byte list) res"
  where
  "Encrypt_step vt c mode ekey block tdata =
     (case mode of
        ECB \<Rightarrow> bind_res (vt_EncryptBlock vt c ekey tdata) (\<lambda>t. Inr (t, block))
      | OFB \<Rightarrow> bind_res (vt_EncryptBlock vt c ekey block) (\<lambda>b.
                 let b' = xor_bytes b tdata in Inr (b', b'))
      | CBC \<Rightarrow> bind_res (vt_EncryptBlock vt c ekey (xor_bytes tdata block)) (\<lambda>t. Inr (t, t))
      | CFB \<Rightarrow> bind_res (vt_EncryptBlock vt c ekey block) (\<lambda>b.
                 let b' = xor_bytes b tdata in Inr (b', b'))
      | CTS \<Rightarrow> Inl E_NOTIMPL)"

text \<open>
  The loop over the message, of which \<open>rest\<close> is what lies behind \<open>pos\<close>.  \<open>None\<close> is a loop that
  does not end: a block size of zero.
\<close>

partial_function (option) Encrypt_loop ::
    "'c cipher_class \<Rightarrow> 'c \<Rightarrow> CipherMode \<Rightarrow> PaddingMode \<Rightarrow> nat \<Rightarrow> byte list \<Rightarrow> byte list \<Rightarrow> byte list
      \<Rightarrow> byte list \<Rightarrow> byte list res option" where
  "Encrypt_loop vt c mode padding cbBlock ekey block ms rest =
     (let size' = min (length rest) cbBlock
      in if size' = 0 \<and> (padding = NoPadding \<or> padding = Zeros) then Some (Inr ms)
         else case (if size' < cbBlock then Pad padding (cbBlock - size') (take size' rest)
                    else Inr (take size' rest)) of
                Inl e \<Rightarrow> Some (Inl e)
              | Inr tdata \<Rightarrow>
                  (case Encrypt_step vt c mode ekey block tdata of
                     Inl e \<Rightarrow> Some (Inl e)
                   | Inr (out, block') \<Rightarrow>
                       if size' < cbBlock then Some (Inr (ms @ out))
                       else Encrypt_loop vt c mode padding cbBlock ekey block' (ms @ out) (drop cbBlock rest)))"

declare Encrypt_loop.simps [code]

definition Encrypt :: "'c cipher_class \<Rightarrow> 'c BlockCipher \<Rightarrow> byte list \<Rightarrow> byte list res option" where
  "Encrypt vt s cbuf =
     (let c = vt_InitParams vt (bc_self s);
          cbBlock = vt_BlockSize vt c div 8
      in if bc_Mode s \<noteq> ECB \<and> length (bc_IV s) \<noteq> cbBlock then Some (Inl InvalidArgument)
         else if bc_Padding s = NoPadding \<and> cbBlock = 0 then Some (Inl DivideByZero)
         else if bc_Padding s = NoPadding \<and> length cbuf mod cbBlock \<noteq> 0 then Some (Inl InvalidArgument)
         else case vt_CalcExpandedKey vt c of
                Inl e \<Rightarrow> Some (Inl e)
              | Inr ekey \<Rightarrow>
                  Encrypt_loop vt c (bc_Mode s) (bc_Padding s) cbBlock ekey (bc_IV s) [] cbuf)"

section \<open>Decryption\<close>

text \<open>
  One pass of the switch: the decrypted block, and the registers \<open>tdata\<close> (CFB) and \<open>state\<close> (CBC).
\<close>

definition Decrypt_step ::
    "'c cipher_class \<Rightarrow> 'c \<Rightarrow> CipherMode \<Rightarrow> byte list \<Rightarrow> byte list \<times> byte list \<Rightarrow> byte list
      \<Rightarrow> (byte list \<times> byte list \<times> byte list) res" where
  "Decrypt_step vt c mode ekey r block =
     (case r of (tdata, state) \<Rightarrow>
        case mode of
          ECB \<Rightarrow> bind_res (vt_DecryptBlock vt c ekey block) (\<lambda>b. Inr (b, tdata, state))
        | CBC \<Rightarrow> bind_res (vt_DecryptBlock vt c ekey block) (\<lambda>b. Inr (xor_bytes b state, tdata, block))
        | CFB \<Rightarrow> bind_res (vt_EncryptBlock vt c ekey tdata) (\<lambda>t. Inr (xor_bytes block t, block, state))
        | _ \<Rightarrow> Inl E_NOTIMPL)"

text \<open>
  The end of the last block: the padding bytes are compared from the last one down.  A pad
  longer than the block makes the loop read below the block.
\<close>

fun Unpad_check :: "nat \<Rightarrow> nat \<Rightarrow> byte list \<Rightarrow> byte \<Rightarrow> unit res" where
  "Unpad_check 0 i block nPad = Inr ()"
| "Unpad_check (Suc k) i block nPad =
     (if length block \<le> i then Inl OutOfBounds
      else if block ! (length block - 1 - i) \<noteq> nPad then Inl Crypto
      else Unpad_check k (Suc i) block nPad)"

definition Unpad :: "PaddingMode \<Rightarrow> byte list \<Rightarrow> byte list res" where
  "Unpad padding block =
     (case padding of
        PKCS7 \<Rightarrow>
          (let nPad = block ! (length block - 1)
           in bind_res (Unpad_check (unat nPad) 0 block nPad) (\<lambda>_. Inr (take (length block - unat nPad) block)))
      | _ \<Rightarrow> Inl E_NOTIMPL)"

fun Decrypt_loop ::
    "'c cipher_class \<Rightarrow> 'c \<Rightarrow> CipherMode \<Rightarrow> PaddingMode \<Rightarrow> byte list \<Rightarrow> byte list \<times> byte list \<Rightarrow> byte list
      \<Rightarrow> byte list list \<Rightarrow> byte list res" where
  "Decrypt_loop vt c mode padding ekey r ms [] = Inr ms"
| "Decrypt_loop vt c mode padding ekey r ms (b # bs) =
     bind_res (Decrypt_step vt c mode ekey r b) (\<lambda>(block, r').
       if padding \<noteq> NoPadding \<and> bs = []
       then bind_res (Unpad padding block) (\<lambda>t. Decrypt_loop vt c mode padding ekey r' (ms @ t) bs)
       else Decrypt_loop vt c mode padding ekey r' (ms @ block) bs)"

definition Decrypt :: "'c cipher_class \<Rightarrow> 'c BlockCipher \<Rightarrow> byte list \<Rightarrow> byte list res option" where
  "Decrypt vt s cbuf =
     (let c = vt_InitParams vt (bc_self s);
          cbBlock = vt_BlockSize vt c div 8
      in if bc_Mode s = OFB then Encrypt vt (s\<lparr>bc_self := c\<rparr>) cbuf
         else if cbBlock = 0 then Some (Inl DivideByZero)
         else if length cbuf mod cbBlock \<noteq> 0 then Some (Inl InvalidArgument)
         else if bc_Mode s \<noteq> ECB \<and> length (bc_IV s) \<noteq> cbBlock then Some (Inl InvalidArgument)
         else case (if bc_Mode s = CFB then vt_CalcExpandedKey vt c else vt_CalcInvExpandedKey vt c) of
                Inl e \<Rightarrow> Some (Inl e)
              | Inr ekey \<Rightarrow>
                  Some (Decrypt_loop vt c (bc_Mode s) (bc_Padding s) ekey (bc_IV s, bc_IV s) []
                    (chunks cbBlock cbuf)))"

text \<open>AES as a derived class.\<close>

definition Aes_class :: "aes cipher_class" where
  "Aes_class =
     \<lparr>vt_BlockSize = aes_BlockSize, vt_InitParams = Aes_InitParams,
      vt_CalcExpandedKey = \<lambda>a. Inr (CalcExpandedKey a), vt_CalcInvExpandedKey = \<lambda>a. Inr (CalcInvExpandedKey a),
      vt_EncryptBlock = EncryptBlock, vt_DecryptBlock = DecryptBlock\<rparr>"

section \<open>What the modes need\<close>

lemma length_xor_bytes [simp]: "length (xor_bytes a b) = min (length a) (length b)"
  by (simp add: xor_bytes_def)

lemma xor_bytes_twice: "length a = length b \<Longrightarrow> xor_bytes (xor_bytes a b) b = a"
  by (rule nth_equalityI) (simp_all add: xor_bytes_def xor.assoc)

lemma xor_bytes_commute: "length a = length b \<Longrightarrow> xor_bytes a b = xor_bytes b a"
  by (rule nth_equalityI) (simp_all add: xor_bytes_def xor.commute)

lemma Unpad_check_ok:
  "(\<And>j. i \<le> j \<Longrightarrow> j < i + k \<Longrightarrow> j < length block \<and> block ! (length block - 1 - j) = v) \<Longrightarrow>
     Unpad_check k i block v = Inr ()"
  by (induction k arbitrary: i) (simp_all, fastforce)

lemma Unpad_Pad:
  assumes "length rest < n" and "n < 256"
  shows "Unpad PKCS7 (rest @ replicate (n - length rest) (of_nat (n - length rest))) = Inr rest"
proof -
  define k where "k = n - length rest"
  let ?b = "rest @ replicate k (of_nat k :: byte)"
  have "0 < k" "k < 256" using assms by (simp_all add: k_def)
  then have k: "0 < k" "unat (of_nat k :: byte) = k" by (simp_all add: unat_of_nat)
  have "length ?b - 1 = length rest + (k - 1)" using k by simp
  then have last: "?b ! (length ?b - 1) = of_nat k" using k by (auto simp: nth_append)
  have "Unpad_check k 0 ?b (of_nat k) = Inr ()"
    by (rule Unpad_check_ok) (auto simp: nth_append)
  then have "Unpad PKCS7 ?b = Inr (take (length ?b - k) ?b)"
    unfolding Unpad_def last Let_def by (simp add: k(2))
  then show ?thesis by (simp add: k_def)
qed

lemma xor_left_move: "a XOR (b XOR c) = c \<longleftrightarrow> a = b" for a b c :: "'a::len word"
  using xor_right_cancel [of "a XOR b" c 0] by (simp add: xor.assoc)

lemma xor_self_move: "p = e XOR p \<longleftrightarrow> e = 0" for e p :: "'a::len word"
  using xor_right_cancel [of 0 p e] by auto

text \<open>The modes over a pair of inverse block functions.\<close>

definition enc_step :: "(byte list \<Rightarrow> byte list) \<Rightarrow> CipherMode \<Rightarrow> byte list \<Rightarrow> byte list \<Rightarrow> byte list \<times> byte list"
  where
  "enc_step E mode r t =
     (case mode of
        ECB \<Rightarrow> (E t, r)
      | CBC \<Rightarrow> (E (xor_bytes t r), E (xor_bytes t r))
      | _ \<Rightarrow> (xor_bytes (E r) t, xor_bytes (E r) t))"

fun enc_blocks :: "(byte list \<Rightarrow> byte list) \<Rightarrow> CipherMode \<Rightarrow> byte list \<Rightarrow> byte list list \<Rightarrow> byte list list" where
  "enc_blocks E mode r [] = []"
| "enc_blocks E mode r (b # bs) = (case enc_step E mode r b of (x, r') \<Rightarrow> x # enc_blocks E mode r' bs)"

definition inverse_pair ::
    "'c cipher_class \<Rightarrow> 'c \<Rightarrow> nat \<Rightarrow> byte list \<Rightarrow> byte list \<Rightarrow> (byte list \<Rightarrow> byte list) \<Rightarrow> bool" where
  "inverse_pair vt c n ek dk E \<longleftrightarrow>
     (\<forall>p. length p = n \<longrightarrow> vt_EncryptBlock vt c ek p = Inr (E p) \<and> length (E p) = n
        \<and> vt_DecryptBlock vt c dk (E p) = Inr p)"

lemma inverse_pairD:
  assumes "inverse_pair vt c n ek dk E" and "length p = n"
  shows "vt_EncryptBlock vt c ek p = Inr (E p)" "length (E p) = n" "vt_DecryptBlock vt c dk (E p) = Inr p"
  using assms by (auto simp: inverse_pair_def)

lemma Encrypt_step_eq:
  assumes "inverse_pair vt c n ek dk E" and "mode \<noteq> CTS" and "mode \<noteq> ECB \<longrightarrow> length r = n"
    and "length t = n"
  shows "Encrypt_step vt c mode ek r t = Inr (enc_step E mode r t)"
    and "length (fst (enc_step E mode r t)) = n"
    and "mode \<noteq> ECB \<longrightarrow> length (snd (enc_step E mode r t)) = n"
  using assms(2-4) inverse_pairD [OF assms(1)]
  by (cases mode; simp add: Encrypt_step_def enc_step_def Let_def)+

lemma length_enc_blocks:
  assumes "inverse_pair vt c n ek dk E" and "mode \<noteq> CTS"
  shows "mode \<noteq> ECB \<longrightarrow> length r = n \<Longrightarrow> \<forall>b\<in>set bs. length b = n \<Longrightarrow>
    length (enc_blocks E mode r bs) = length bs \<and> (\<forall>b\<in>set (enc_blocks E mode r bs). length b = n)"
proof (induction bs arbitrary: r)
  case (Cons b bs)
  then show ?case
    using Encrypt_step_eq(2,3) [OF assms, of r b] by (cases "enc_step E mode r b") simp
qed simp

lemma Encrypt_loop_eq:
  assumes E: "inverse_pair vt c n ek dk E" and m: "mode \<noteq> CTS" and n: "0 < n" and rest: "length rest < n"
  shows "mode \<noteq> ECB \<longrightarrow> length r = n \<Longrightarrow> \<forall>b\<in>set bs. length b = n \<Longrightarrow>
    Encrypt_loop vt c mode padding n ek r ms (concat bs @ rest) =
      (if rest = [] \<and> (padding = NoPadding \<or> padding = Zeros) then Some (Inr (ms @ concat (enc_blocks E mode r bs)))
       else case Pad padding (n - length rest) rest of
              Inl e \<Rightarrow> Some (Inl e)
            | Inr t \<Rightarrow> Some (Inr (ms @ concat (enc_blocks E mode r (bs @ [t])))))"
proof (induction bs arbitrary: r ms)
  case Nil
  let ?stop = "rest = [] \<and> (padding = NoPadding \<or> padding = Zeros)"
  have loop: "Encrypt_loop vt c mode padding n ek r ms rest =
      (if ?stop then Some (Inr ms) else
       case Pad padding (n - length rest) rest of Inl e \<Rightarrow> Some (Inl e)
       | Inr t \<Rightarrow> (case Encrypt_step vt c mode ek r t of Inl e \<Rightarrow> Some (Inl e)
          | Inr (out, block') \<Rightarrow> Some (Inr (ms @ out))))"
    using rest n by (subst Encrypt_loop.simps) (auto simp: Let_def split: sum.split prod.split)
  show ?case
  proof (cases "Pad padding (n - length rest) rest")
    case (Inr t)
    then have "length t = n" using rest by (simp add: Pad_def split: PaddingMode.splits) auto
    then show ?thesis
      using Encrypt_step_eq(1) [OF E m Nil(1)] by (auto simp: loop Inr split: prod.split)
  qed (simp add: loop)
next
  case (Cons b bs)
  obtain x r' where st: "enc_step E mode r b = (x, r')" by (cases "enc_step E mode r b")
  have b: "length b = n" using Cons.prems by simp
  note e = Encrypt_step_eq [OF E m Cons.prems(1) b, unfolded st]
  have "Encrypt_loop vt c mode padding n ek r ms (concat (b # bs) @ rest)
      = Encrypt_loop vt c mode padding n ek r' (ms @ x) (concat bs @ rest)"
    using e b n by (subst Encrypt_loop.simps) (simp add: Let_def)
  then show ?case using Cons.IH [of r' "ms @ x"] Cons.prems(2) e by (auto simp: st split: sum.split)
qed

lemma Decrypt_loop_eq:
  assumes E: "inverse_pair vt c n ek dk E" and m: "mode = ECB \<or> mode = CBC \<or> mode = CFB"
  defines "k \<equiv> if mode = CFB then ek else dk"
  shows "mode \<noteq> ECB \<longrightarrow> length r = n \<Longrightarrow> \<forall>b\<in>set bs. length b = n \<Longrightarrow>
    mode = CFB \<longrightarrow> t = r \<Longrightarrow> mode = CBC \<longrightarrow> s = r \<Longrightarrow>
    Decrypt_loop vt c mode padding k (t, s) ms (enc_blocks E mode r bs) =
      (if padding = NoPadding \<or> bs = [] then Inr (ms @ concat bs)
       else bind_res (Unpad padding (last bs)) (\<lambda>u. Inr (ms @ concat (butlast bs) @ u)))"
proof (induction bs arbitrary: r t s ms)
  case (Cons b bs)
  have b: "length b = n" using Cons.prems by simp
  obtain x r' where st: "enc_step E mode r b = (x, r')" by (cases "enc_step E mode r b")
  have m': "mode \<noteq> CTS" using m by auto
  note e = Encrypt_step_eq [OF E m' Cons.prems(1) b, unfolded st]
  have l: "length (enc_blocks E mode r' bs) = length bs"
    using length_enc_blocks [OF E m', of r' bs] Cons.prems e by simp
  obtain t' s' where d: "Decrypt_step vt c mode k (t, s) x = Inr (b, t', s')"
      and r': "mode = CFB \<longrightarrow> t' = r'" "mode = CBC \<longrightarrow> s' = r'"
  proof -
    consider "mode = ECB" | "mode = CBC" "s = r" "length r = n" | "mode = CFB" "t = r" "length r = n"
      using m Cons.prems by auto
    then show thesis
    proof cases
      case 1
      then show thesis
        using that [of t s] st inverse_pairD [OF E b] by (auto simp: Decrypt_step_def enc_step_def k_def)
    next
      case 2
      have "length (xor_bytes b r) = n" using b 2 by simp
      then show thesis
        using that [of t x] st inverse_pairD [OF E, of "xor_bytes b r"] 2 b
        by (auto simp: Decrypt_step_def enc_step_def k_def xor_bytes_twice)
    next
      case 3
      have "xor_bytes (xor_bytes (E r) b) (E r) = b"
        using inverse_pairD(2) [OF E 3(3)] b xor_bytes_commute [of "E r" b] xor_bytes_twice [of b "E r"] by simp
      then show thesis
        using that [of x s] st inverse_pairD [OF E 3(3)] 3 by (auto simp: Decrypt_step_def enc_step_def k_def)
    qed
  qed
  have IH: "Decrypt_loop vt c mode padding k (t', s') ms' (enc_blocks E mode r' bs) =
      (if padding = NoPadding \<or> bs = [] then Inr (ms' @ concat bs)
       else bind_res (Unpad padding (last bs)) (\<lambda>u. Inr (ms' @ concat (butlast bs) @ u)))" for ms'
    by (rule Cons.IH) (use e Cons.prems(2) r' in simp_all)
  show ?case
  proof (cases bs)
    case Nil
    then show ?thesis by (simp add: st d)
  next
    case (Cons b' bs')
    then have "enc_blocks E mode r' bs \<noteq> []" using l by auto
    then show ?thesis by (simp add: st d IH) (simp add: Cons)
  qed
qed simp

text \<open>\<open>ok\<close> is the derived object's invariant.\<close>

locale block_cipher =
  fixes vt :: "'c cipher_class" and ok :: "'c \<Rightarrow> bool"
  assumes block_bounds: "ok c \<Longrightarrow> 0 < vt_BlockSize vt c div 8" "ok c \<Longrightarrow> vt_BlockSize vt c div 8 < 256"
    and ok_InitParams: "ok c \<Longrightarrow> ok (vt_InitParams vt c)"
    and InitParams_idem: "ok c \<Longrightarrow> vt_InitParams vt (vt_InitParams vt c) = vt_InitParams vt c"
    and inverse_blocks: "ok c \<Longrightarrow> \<exists>ek dk. vt_CalcExpandedKey vt c = Inr ek \<and> vt_CalcInvExpandedKey vt c = Inr dk
      \<and> (\<forall>p. length p = vt_BlockSize vt c div 8 \<longrightarrow>
           (\<exists>x. vt_EncryptBlock vt c ek p = Inr x \<and> length x = vt_BlockSize vt c div 8
              \<and> vt_DecryptBlock vt c dk x = Inr p))"

begin

lemma inverse_pair_ex:
  assumes "ok c"
  obtains ek dk E where "vt_CalcExpandedKey vt c = Inr ek" "vt_CalcInvExpandedKey vt c = Inr dk"
    "inverse_pair vt c (vt_BlockSize vt c div 8) ek dk E"
proof -
  obtain ek dk where k: "vt_CalcExpandedKey vt c = Inr ek" "vt_CalcInvExpandedKey vt c = Inr dk"
    and p: "\<forall>p. length p = vt_BlockSize vt c div 8 \<longrightarrow> (\<exists>x. vt_EncryptBlock vt c ek p = Inr x
      \<and> length x = vt_BlockSize vt c div 8 \<and> vt_DecryptBlock vt c dk x = Inr p)"
    using inverse_blocks [OF assms] by metis
  then obtain E where "\<And>p. length p = vt_BlockSize vt c div 8 \<Longrightarrow> vt_EncryptBlock vt c ek p = Inr (E p)
      \<and> length (E p) = vt_BlockSize vt c div 8 \<and> vt_DecryptBlock vt c dk (E p) = Inr p"
    by metis
  then show thesis by (intro that [OF k, of E]) (auto simp: inverse_pair_def)
qed

lemma split_blocks:
  assumes "0 < n"
  obtains bs rest where "p = concat bs @ rest" "\<forall>b\<in>set bs. length b = (n :: nat)" "length rest < n"
proof -
  let ?k = "length p div n * n"
  have "concat (chunks n (take ?k p)) = take ?k p" by (rule concat_chunks [OF assms])
  moreover have "length (take ?k p) = ?k" by simp
  then have "n dvd length (take ?k p)" by (simp only: dvd_triv_right)
  note chunks_dvd(2) [OF assms this]
  then have "\<forall>b\<in>set (chunks n (take ?k p)). length b = n" by (intro ballI)
  moreover have "length (drop ?k p) < n"
    using assms by (simp add: minus_div_mult_eq_mod)
  moreover have "p = take ?k p @ drop ?k p" by (rule append_take_drop_id [symmetric])
  ultimately show thesis by (intro that [of "chunks n (take ?k p)" "drop ?k p"]) (simp_all only:)
qed

lemma chunks_concat:
  "0 < n \<Longrightarrow> \<forall>b\<in>set bs. length b = n \<Longrightarrow> chunks n (concat bs) = bs"
  by (induction bs) (simp_all add: chunks_append)

lemma length_concat_blocks: "\<forall>b\<in>set bs. length b = n \<Longrightarrow> length (concat bs) = length bs * n"
  by (induction bs) simp_all

text \<open>Encryption then decryption, for the three modes that have both.\<close>

theorem modes_roundtrip:
  assumes ok: "ok (bc_self s)" and m: "bc_Mode s \<in> {ECB, CBC, CFB}"
    and iv: "length (bc_IV s) = vt_BlockSize vt (vt_InitParams vt (bc_self s)) div 8"
    and pad: "bc_Padding s = PKCS7 \<or>
      bc_Padding s = NoPadding \<and> vt_BlockSize vt (vt_InitParams vt (bc_self s)) div 8 dvd length p"
  shows "\<exists>x. Encrypt vt s p = Some (Inr x) \<and> Decrypt vt s x = Some (Inr p)
    \<and> vt_BlockSize vt (vt_InitParams vt (bc_self s)) div 8 dvd length x"
proof -
  let ?c = "vt_InitParams vt (bc_self s)" and ?m = "bc_Mode s" and ?pd = "bc_Padding s"
  define n where "n = vt_BlockSize vt ?c div 8"
  have okc: "ok ?c" by (rule ok_InitParams [OF ok])
  have n: "0 < n" "n < 256" using block_bounds [OF okc] by (simp_all add: n_def)
  obtain ek dk E where k: "vt_CalcExpandedKey vt ?c = Inr ek" "vt_CalcInvExpandedKey vt ?c = Inr dk"
    and E: "inverse_pair vt ?c n ek dk E" using inverse_pair_ex [OF okc] unfolding n_def by metis
  obtain bs rest where p: "p = concat bs @ rest" and bs: "\<forall>b\<in>set bs. length b = n"
    and rest: "length rest < n" using split_blocks [OF n(1)] by metis
  have lp: "length p = length bs * n + length rest" using length_concat_blocks [OF bs] by (simp add: p)
  have m': "?m = ECB \<or> ?m = CBC \<or> ?m = CFB" "?m \<noteq> CTS" "?m \<noteq> OFB" using m by auto
  have iv': "?m \<noteq> ECB \<longrightarrow> length (bc_IV s) = n" using iv by (simp add: n_def)
  define bs' where "bs' = (if ?pd = NoPadding then bs
    else bs @ [rest @ replicate (n - length rest) (of_nat (n - length rest))])"
  have bs': "\<forall>b\<in>set bs'. length b = n" using bs rest by (simp add: bs'_def)
  have none: "?pd = NoPadding \<Longrightarrow> rest = [] \<and> length p mod n = 0"
    using pad rest lp by (auto simp: n_def [symmetric] dvd_eq_mod_eq_0)
  let ?x = "concat (enc_blocks E ?m (bc_IV s) bs')"
  have x: "\<forall>b\<in>set (enc_blocks E ?m (bc_IV s) bs'). length b = n"
    using length_enc_blocks [OF E m'(2) iv' bs'] by simp
  have enc: "Encrypt vt s p = Some (Inr ?x)"
    using Encrypt_loop_eq [OF E m'(2) n(1) rest iv' bs, of ?pd "[]"] none pad n iv'
    by (auto simp: Encrypt_def Let_def n_def [symmetric] k p bs'_def Pad_def)
  have dec: "Decrypt vt s ?x = Some (Inr p)"
  proof -
    have "Decrypt_loop vt ?c ?m ?pd (if ?m = CFB then ek else dk) (bc_IV s, bc_IV s) []
        (enc_blocks E ?m (bc_IV s) bs') = Inr p"
      using Decrypt_loop_eq [OF E m'(1) iv' bs', of "bc_IV s" "bc_IV s" ?pd "[]"] pad none
        Unpad_Pad [OF rest n(2)] by (auto simp: bs'_def p)
    moreover have "Decrypt vt s y = Some (Decrypt_loop vt ?c ?m ?pd (if ?m = CFB then ek else dk)
        (bc_IV s, bc_IV s) [] (chunks n y))" if "length y mod n = 0" for y
      using that n iv' m'(3) by (auto simp: Decrypt_def Let_def n_def [symmetric] k)
    ultimately show ?thesis
      using length_concat_blocks [OF x] chunks_concat [OF n(1) x] by (simp del: length_concat)
  qed
  show ?thesis using enc dec length_concat_blocks [OF x] by (auto simp: n_def [symmetric] simp del: length_concat)
qed

end

context block_cipher
begin

text \<open>Zero padding, which only the encryption implements.\<close>

theorem Zeros_not_decrypted:
  assumes ok: "ok (bc_self s)" and m: "bc_Mode s \<in> {ECB, CBC, CFB}"
    and iv: "length (bc_IV s) = vt_BlockSize vt (vt_InitParams vt (bc_self s)) div 8"
    and pad: "bc_Padding s = Zeros" and p: "p \<noteq> []"
  shows "\<exists>x. Encrypt vt s p = Some (Inr x) \<and> Decrypt vt s x = Some (Inl E_NOTIMPL)"
proof -
  let ?c = "vt_InitParams vt (bc_self s)" and ?m = "bc_Mode s" and ?pd = "bc_Padding s"
  define n where "n = vt_BlockSize vt ?c div 8"
  have okc: "ok ?c" by (rule ok_InitParams [OF ok])
  have n: "0 < n" using block_bounds [OF okc] by (simp add: n_def)
  obtain ek dk E where k: "vt_CalcExpandedKey vt ?c = Inr ek" "vt_CalcInvExpandedKey vt ?c = Inr dk"
    and E: "inverse_pair vt ?c n ek dk E" using inverse_pair_ex [OF okc] unfolding n_def by metis
  obtain bs rest where pe: "p = concat bs @ rest" and bs: "\<forall>b\<in>set bs. length b = n"
    and rest: "length rest < n" using split_blocks [OF n(1)] by metis
  have m': "?m = ECB \<or> ?m = CBC \<or> ?m = CFB" "?m \<noteq> CTS" "?m \<noteq> OFB" using m by auto
  have iv': "?m \<noteq> ECB \<longrightarrow> length (bc_IV s) = n" using iv by (simp add: n_def)
  define bs' where "bs' = (if rest = [] then bs else bs @ [rest @ replicate (n - length rest) 0])"
  have bs': "\<forall>b\<in>set bs'. length b = n" "bs' \<noteq> []" using bs rest p by (auto simp: bs'_def pe)
  let ?x = "concat (enc_blocks E ?m (bc_IV s) bs')"
  have x: "\<forall>b\<in>set (enc_blocks E ?m (bc_IV s) bs'). length b = n"
    using length_enc_blocks [OF E m'(2) iv' bs'(1)] by simp
  have "Encrypt vt s p = Some (Inr ?x)"
    using Encrypt_loop_eq [OF E m'(2) n(1) rest iv' bs, of ?pd "[]"] pad n iv'
    by (auto simp: Encrypt_def Let_def n_def [symmetric] k pe bs'_def Pad_def)
  moreover have "Decrypt_loop vt ?c ?m ?pd (if ?m = CFB then ek else dk) (bc_IV s, bc_IV s) []
      (enc_blocks E ?m (bc_IV s) bs') = Inl E_NOTIMPL"
    using Decrypt_loop_eq [OF E m'(1) iv' bs'(1), of "bc_IV s" "bc_IV s" ?pd "[]"] pad bs'(2)
    by (simp add: Unpad_def)
  moreover have "Decrypt vt s y = Some (Decrypt_loop vt ?c ?m ?pd (if ?m = CFB then ek else dk)
      (bc_IV s, bc_IV s) [] (chunks n y))" if "length y mod n = 0" for y
    using that n iv' m'(3) by (auto simp: Decrypt_def Let_def n_def [symmetric] k)
  ultimately show ?thesis
    using length_concat_blocks [OF x] chunks_concat [OF n(1) x] by (simp del: length_concat)
qed

text \<open>
  Output feedback: the encryption feeds the ciphertext back, and \<open>Decrypt\<close> is \<open>Encrypt\<close>, which
  feeds back the plaintext it has just recovered.
\<close>

theorem OFB_two_blocks:
  assumes ok: "ok (bc_self s)" and m: "bc_Mode s = OFB" "bc_Padding s = NoPadding"
    and iv: "length (bc_IV s) = vt_BlockSize vt (vt_InitParams vt (bc_self s)) div 8"
    and p: "length p1 = length (bc_IV s)" "length p2 = length (bc_IV s)"
  shows "\<exists>x ek. Encrypt vt s (p1 @ p2) = Some (Inr x)
    \<and> vt_CalcExpandedKey vt (vt_InitParams vt (bc_self s)) = Inr ek
    \<and> (Decrypt vt s x = Some (Inr (p1 @ p2)) \<longleftrightarrow>
         vt_EncryptBlock vt (vt_InitParams vt (bc_self s)) ek (bc_IV s)
           = Inr (replicate (length (bc_IV s)) 0))"
proof -
  let ?c = "vt_InitParams vt (bc_self s)" and ?r = "bc_IV s"
  define n where "n = vt_BlockSize vt ?c div 8"
  have okc: "ok ?c" by (rule ok_InitParams [OF ok])
  have n: "0 < n" "length ?r = n" using block_bounds [OF okc] iv by (simp_all add: n_def)
  obtain ek dk E where k: "vt_CalcExpandedKey vt ?c = Inr ek"
    and E: "inverse_pair vt ?c n ek dk E" using inverse_pair_ex [OF okc] unfolding n_def by metis
  note E' = inverse_pairD [OF E]
  have enc: "Encrypt vt s' (q1 @ q2) = Some (Inr (xor_bytes (E ?r) q1 @ xor_bytes (E (xor_bytes (E ?r) q1)) q2))"
    if "length q1 = n" "length q2 = n" "vt_InitParams vt (bc_self s') = ?c" "bc_Mode s' = OFB"
      "bc_Padding s' = NoPadding" "bc_IV s' = ?r" for q1 q2 s'
    using Encrypt_loop_eq [OF E, of OFB "[]" ?r "[q1, q2]" NoPadding "[]"] that n
    by (simp add: Encrypt_def Let_def n_def [symmetric] k enc_step_def)
  define c1 c2 where "c1 = xor_bytes (E ?r) p1" and "c2 = xor_bytes (E c1) p2"
  have l: "length c1 = n" "length c2 = n" "length p1 = n" "length p2 = n" "length (E ?r) = n"
    "length (E c1) = n" "length (E p1) = n"
    using E'(2) n p by (simp_all add: c1_def c2_def)
  have c1: "xor_bytes (E ?r) c1 = p1"
    using l xor_bytes_twice [of p1 "E ?r"] by (simp add: c1_def xor_bytes_commute [of "E ?r"])
  have "Decrypt vt s (c1 @ c2) = Some (Inr (p1 @ xor_bytes (E p1) c2))"
    using enc [of c1 c2 "s\<lparr>bc_self := ?c\<rparr>"] l m InitParams_idem [OF ok]
    by (simp add: Decrypt_def Let_def c1)
  moreover have "xor_bytes (E p1) c2 = p2 \<longleftrightarrow> E p1 = E c1"
    by (auto simp: c2_def xor_bytes_def list_eq_iff_nth_eq l xor_left_move)
  moreover have "E p1 = E c1 \<longleftrightarrow> p1 = c1" using E'(3) l by (metis Inr_inject)
  moreover have "p1 = c1 \<longleftrightarrow> E ?r = replicate n 0"
    by (auto simp: c1_def xor_bytes_def list_eq_iff_nth_eq l xor_self_move)
  ultimately show ?thesis
    using enc [of p1 p2 s] l m E'(1) [of ?r] n k by (simp add: c1_def [symmetric] c2_def [symmetric])
qed

end

interpretation aes_cipher: block_cipher Aes_class "\<lambda>a. aes_BlockSize a = 128 \<and> 0 < aes_Rounds a"
proof
  fix a :: aes
  assume a: "aes_BlockSize a = 128 \<and> 0 < aes_Rounds a"
  show "0 < vt_BlockSize Aes_class a div 8" "vt_BlockSize Aes_class a div 8 < 256"
    using a by (simp_all add: Aes_class_def)
  show "aes_BlockSize (vt_InitParams Aes_class a) = 128 \<and> 0 < aes_Rounds (vt_InitParams Aes_class a)"
    "vt_InitParams Aes_class (vt_InitParams Aes_class a) = vt_InitParams Aes_class a"
    using a by (simp_all add: Aes_class_def Aes_InitParams_def)
  show "\<exists>ek dk. vt_CalcExpandedKey Aes_class a = Inr ek \<and> vt_CalcInvExpandedKey Aes_class a = Inr dk
      \<and> (\<forall>p. length p = vt_BlockSize Aes_class a div 8 \<longrightarrow>
           (\<exists>x. vt_EncryptBlock Aes_class a ek p = Inr x \<and> length x = vt_BlockSize Aes_class a div 8
              \<and> vt_DecryptBlock Aes_class a dk x = Inr p))"
    using DecryptBlock_EncryptBlock [of a] a by (simp add: Aes_class_def)
qed


section \<open>AES in its modes\<close>



text \<open>
  in OFB mode two blocks are recovered only if the first block of the key stream is zero:
  the mode feeds back its output as CFB does, and its decryption is the encryption.
\<close>

theorem aes_OFB_two_blocks:
  assumes "aes_BlockSize (bc_self s) = 128" and "0 < aes_Rounds (bc_self s)"
    and "bc_Mode s = OFB" and "bc_Padding s = NoPadding" and "length (bc_IV s) = 16"
    and "length p1 = 16" and "length p2 = 16"
  shows "\<exists>x. Encrypt Aes_class s (p1 @ p2) = Some (Inr x)
    \<and> (Decrypt Aes_class s x = Some (Inr (p1 @ p2)) \<longleftrightarrow>
         EncryptBlock (Aes_InitParams (bc_self s)) (CalcExpandedKey (Aes_InitParams (bc_self s))) (bc_IV s)
           = Inr (replicate 16 0))"
proof -
  have "vt_BlockSize Aes_class (vt_InitParams Aes_class (bc_self s)) div 8 = 16"
    using assms(1) by (simp add: Aes_class_def Aes_InitParams_def)
  then show ?thesis using aes_cipher.OFB_two_blocks [of s p1 p2] assms by (simp add: Aes_class_def)
qed

lemma aes_OFB_two_blocks_witness:
  "\<exists>x. Encrypt Aes_class \<lparr>bc_IV = replicate 16 0, bc_Mode = OFB, bc_Padding = NoPadding,
        bc_self = Aes\<lparr>aes_Key := replicate 32 0\<rparr>\<rparr> (replicate 16 1 @ replicate 16 2) = Some (Inr x)
    \<and> (Decrypt Aes_class \<lparr>bc_IV = replicate 16 0, bc_Mode = OFB, bc_Padding = NoPadding,
        bc_self = Aes\<lparr>aes_Key := replicate 32 0\<rparr>\<rparr> x = Some (Inr (replicate 16 1 @ replicate 16 2)) \<longleftrightarrow>
       EncryptBlock (Aes_InitParams (Aes\<lparr>aes_Key := replicate 32 0\<rparr>))
         (CalcExpandedKey (Aes_InitParams (Aes\<lparr>aes_Key := replicate 32 0\<rparr>))) (replicate 16 0)
         = Inr (replicate 16 0))"
  using aes_OFB_two_blocks [of "\<lparr>bc_IV = replicate 16 0, bc_Mode = OFB, bc_Padding = NoPadding,
        bc_self = Aes\<lparr>aes_Key := replicate 32 0\<rparr>\<rparr>" "replicate 16 1" "replicate 16 2"]
  by (simp add: Aes_def)

text \<open>
  with zero padding every nonempty message encrypts and its decryption fails: \<open>Decrypt\<close> has no
  branch for that padding.
\<close>

theorem aes_Zeros_not_decrypted:
  assumes "aes_BlockSize (bc_self s) = 128" and "0 < aes_Rounds (bc_self s)"
    and "bc_Mode s \<in> {ECB, CBC, CFB}" and "length (bc_IV s) = 16" and "bc_Padding s = Zeros" and "p \<noteq> []"
  shows "\<exists>x. Encrypt Aes_class s p = Some (Inr x) \<and> Decrypt Aes_class s x = Some (Inl E_NOTIMPL)"
proof -
  have "vt_BlockSize Aes_class (vt_InitParams Aes_class (bc_self s)) div 8 = 16"
    using assms(1) by (simp add: Aes_class_def Aes_InitParams_def)
  then show ?thesis using aes_cipher.Zeros_not_decrypted [of s p] assms by simp
qed

lemma aes_Zeros_not_decrypted_witness:
  "\<exists>x. Encrypt Aes_class \<lparr>bc_IV = replicate 16 9, bc_Mode = ECB, bc_Padding = Zeros,
          bc_self = Aes\<lparr>aes_Key := replicate 32 1\<rparr>\<rparr> [1, 2, 3] = Some (Inr x)
     \<and> Decrypt Aes_class \<lparr>bc_IV = replicate 16 9, bc_Mode = ECB, bc_Padding = Zeros,
          bc_self = Aes\<lparr>aes_Key := replicate 32 1\<rparr>\<rparr> x = Some (Inl E_NOTIMPL)"
  by (rule aes_Zeros_not_decrypted) (simp_all add: Aes_def)


text \<open>The padding check on every block.\<close>

lemma Unpad_check_eq:
  "i \<le> length block \<Longrightarrow> Unpad_check k i block v =
     (if \<forall>j. i \<le> j \<and> j < i + k \<and> j < length block \<longrightarrow> rev block ! j = v
      then if i + k \<le> length block then Inr () else Inl OutOfBounds
      else Inl Crypto)"
proof (induction k arbitrary: i)
  case (Suc k)
  have r: "Unpad_check (Suc k) i block v = (if length block \<le> i then Inl OutOfBounds
      else if rev block ! i \<noteq> v then Inl Crypto else Unpad_check k (Suc i) block v)"
    by (simp add: rev_nth)
  consider "i < length block" "rev block ! i = v" | "i < length block" "rev block ! i \<noteq> v" | "i = length block"
    using Suc.prems by linarith
  then show ?case
  proof cases
    case 1
    note True = 1
    have "(\<forall>j. i \<le> j \<and> j < i + Suc k \<and> j < length block \<longrightarrow> rev block ! j = v) \<longleftrightarrow>
      (\<forall>j. Suc i \<le> j \<and> j < Suc i + k \<and> j < length block \<longrightarrow> rev block ! j = v)"
      using True by (metis Suc_leD Suc_leI add_Suc_right add_Suc le_neq_implies_less)
    then show ?thesis using True Suc.IH [of "Suc i"] unfolding r by simp
  next
    case 2
    then show ?thesis unfolding r by auto
  next
    case 3
    then show ?thesis unfolding r by simp
  qed
qed simp

text \<open>
  the end of \<open>Decrypt\<close> with PKCS7, on every block: with \<open>k\<close> the last byte, the last \<open>k\<close> bytes
  are dropped if they all are \<open>k\<close>, and the call fails otherwise; \<open>k = 0\<close> is accepted and drops
  nothing; for \<open>k\<close> above the block size and a block of bytes \<open>k\<close> the comparison reads below the block.
\<close>

theorem Unpad_spec:
  assumes "block \<noteq> []"
  shows "Unpad PKCS7 block =
    (let k = unat (last block); n = length block
     in if set (drop (n - k) block) \<subseteq> {last block}
        then if k \<le> n then Inr (take (n - k) block) else Inl OutOfBounds
        else Inl Crypto)"
proof -
  define k where "k = unat (last block)"
  have "rev (drop (length block - k) block) = take k (rev block)" by (simp add: take_rev)
  then have "set (drop (length block - k) block) = set (take k (rev block))" by (metis set_rev)
  then have "set (drop (length block - k) block) \<subseteq> {last block} \<longleftrightarrow>
      (\<forall>j<min k (length block). take k (rev block) ! j = last block)"
    by (auto simp: set_conv_nth)
  then show ?thesis
    using assms by (auto simp: Unpad_def Let_def Unpad_check_eq last_conv_nth k_def)
qed

lemma Unpad_spec_witness:
  "Unpad PKCS7 [7, 2, 2] = Inr [7 :: byte]"
  by (subst Unpad_spec) simp_all

end
