(* ===== verification/Utf8.thy ===== *)
theory Utf8
  imports Prelude
begin

text \<open>
  The UTF-8 and ASCII encodings, \<open>src/libext/ext-encoding.cpp\<close>.  The characters of a
  \<open>String\<close> are words of the platform's character type, 16 or 32 bits; the definitions take any
  width up to 32.  A visitor is a function on its own state that also says whether to go on.
\<close>

unbundle bit_operations_syntax

type_synonym ('v, 's) visitor = "'v \<Rightarrow> 's \<Rightarrow> bool \<times> 's"

section \<open>Decoding\<close>

text \<open>The first byte of a sequence: its number of continuation bytes and the byte used for the value.\<close>

definition utf8_lead :: "bool \<Rightarrow> byte \<Rightarrow> (nat \<times> byte) res" where
  "utf8_lead ign b =
     (if 0xFE \<le> b then if \<not> ign then Inl InvalidUTF8String else Inr (1, 0x3F)
      else if 0xFC \<le> b then Inr (5, b)
      else if 0xF8 \<le> b then Inr (4, b)
      else if 0xF0 \<le> b then Inr (3, b)
      else if 0xE0 \<le> b then Inr (2, b)
      else if 0xC0 \<le> b then Inr (1, b)
      else if 0x80 \<le> b then if \<not> ign then Inl InvalidUTF8String else Inr (1, 0x3F)
      else Inr (0, b))"

text \<open>The loop over the continuation bytes; the value wraps at the width of the character.\<close>

fun utf8_cont :: "bool \<Rightarrow> nat \<Rightarrow> 'c::len word \<Rightarrow> byte list \<Rightarrow> ('c word \<times> byte list) res" where
  "utf8_cont ign 0 wc mb = Inr (wc, mb)"
| "utf8_cont ign (Suc n) wc [] = (if \<not> ign then Inl InvalidUTF8String else Inr (0x3F, []))"
| "utf8_cont ign (Suc n) wc (b # mb) =
     (if b AND 0xC0 \<noteq> 0x80 then if \<not> ign then Inl InvalidUTF8String else Inr (0x3F, mb)
      else utf8_cont ign n (push_bit 6 wc OR ucast (b AND 0x3F)) mb)"

lemma utf8_cont_shorter: "utf8_cont ign n wc mb = Inr (wc', mb') \<Longrightarrow> length mb' \<le> length mb"
  by (induction ign n wc mb rule: utf8_cont.induct) (auto split: if_splits)

function utf8_Pass :: "bool \<Rightarrow> ('c::len word, 's) visitor \<Rightarrow> 's \<Rightarrow> byte list \<Rightarrow> 's res" where
  "utf8_Pass ign visitor s [] = Inr s"
| "utf8_Pass ign visitor s (b # mb) =
     (case utf8_lead ign b of
        Inl e \<Rightarrow> Inl e
      | Inr (n, b') \<Rightarrow>
          (case utf8_cont ign n (ucast (b' AND mask (7 - n))) mb of
             Inl e \<Rightarrow> Inl e
           | Inr (wc, mb') \<Rightarrow>
               (case visitor wc s of (more, s') \<Rightarrow>
                  if \<not> more then Inr s' else utf8_Pass ign visitor s' mb')))"
  by pat_completeness auto
termination
  by (relation "measure (\<lambda>(_, _, _, mb). length mb)") (auto dest: utf8_cont_shorter)

section \<open>Encoding\<close>

text \<open>The bytes of one character, in the order they are handed to the visitor.\<close>

definition utf8_char :: "u32 \<Rightarrow> byte list" where
  "utf8_char ch =
     (if ch < 0x80 then [ucast ch]
      else let (lead, n) =
             (if 0x4000000 \<le> ch then (ucast (0xFC OR drop_bit 30 ch), 5)
              else if 0x200000 \<le> ch then (ucast (0xF8 OR drop_bit 24 ch), 4)
              else if 0x10000 \<le> ch then (ucast (0xF0 OR drop_bit 18 ch), 3)
              else if 0x800 \<le> ch then (ucast (0xE0 OR drop_bit 12 ch), 2)
              else (ucast (0xC0 OR drop_bit 6 ch), 1))
           in lead # map (\<lambda>i. ucast (0x80 OR (drop_bit (i * 6) ch AND 0x3F))) (rev [0..<n]))"

fun visit_all :: "('v, 's) visitor \<Rightarrow> 's \<Rightarrow> 'v list \<Rightarrow> bool \<times> 's" where
  "visit_all visitor s [] = (True, s)"
| "visit_all visitor s (v # vs) =
     (case visitor v s of (more, s') \<Rightarrow> if more then visit_all visitor s' vs else (False, s'))"

fun utf8_PassToBytes :: "(byte, 's) visitor \<Rightarrow> 's \<Rightarrow> 'c::len word list \<Rightarrow> 's" where
  "utf8_PassToBytes visitor s [] = s"
| "utf8_PassToBytes visitor s (c # cs) =
     (case visit_all visitor s (utf8_char (ucast c)) of (more, s') \<Rightarrow>
        if more then utf8_PassToBytes visitor s' cs else s')"

section \<open>The visitors and the encodings' functions\<close>

definition push_visitor :: "('v, 'v list) visitor" where
  "push_visitor v xs = (True, xs @ [v])"

text \<open>The buffer visitor: the room left and what has been stored.\<close>

definition buffer_visitor :: "('v, nat \<times> 'v list) visitor" where
  "buffer_visitor v s = (case s of (room, out) \<Rightarrow>
     if room = 0 then (False, s) else (True, (room - 1, out @ [v])))"

definition UTF8_GetBytes :: "'c::len word list \<Rightarrow> byte list" where
  "UTF8_GetBytes s = utf8_PassToBytes push_visitor [] s"

definition UTF8_GetBytes_buf :: "'c::len word list \<Rightarrow> nat \<Rightarrow> byte list" where
  "UTF8_GetBytes_buf s byteCount = snd (utf8_PassToBytes buffer_visitor (byteCount, []) s)"

definition UTF8_GetChars :: "bool \<Rightarrow> byte list \<Rightarrow> 'c::len word list res" where
  "UTF8_GetChars ign mb = utf8_Pass ign push_visitor [] mb"

definition UTF8_GetChars_buf :: "bool \<Rightarrow> byte list \<Rightarrow> nat \<Rightarrow> 'c::len word list res" where
  "UTF8_GetChars_buf ign mb charCount =
     bind_res (utf8_Pass ign buffer_visitor (charCount, []) mb) (\<lambda>s. Inr (snd s))"

definition Encoding_GetString :: "bool \<Rightarrow> byte list \<Rightarrow> 'c::len word list res" where
  "Encoding_GetString ign mb = UTF8_GetChars_buf ign mb (length mb)"

definition ASCII_GetBytes :: "'c::len word list \<Rightarrow> byte list" where
  "ASCII_GetBytes s = map ucast s"

definition ASCII_GetBytes_buf :: "'c::len word list \<Rightarrow> nat \<Rightarrow> byte list" where
  "ASCII_GetBytes_buf s byteCount = map (\<lambda>i. ucast (s ! i)) [0..<min (length s) byteCount]"

definition ASCII_GetChars :: "byte list \<Rightarrow> 'c::len word list" where
  "ASCII_GetChars mb = map ucast mb"

definition ASCII_GetChars_buf :: "byte list \<Rightarrow> nat \<Rightarrow> 'c::len word list" where
  "ASCII_GetChars_buf mb charCount = map (\<lambda>i. ucast (mb ! i)) [0..<min charCount (length mb)]"

section \<open>Visitors\<close>

lemma visit_all_push: "visit_all push_visitor s vs = (True, s @ vs)"
  by (induction vs arbitrary: s) (simp_all add: push_visitor_def)

lemma visit_all_buffer:
  "length out + r = n \<Longrightarrow> visit_all buffer_visitor (r, out) vs =
     (length vs \<le> r, (r - length vs, out @ take r vs))"
  by (induction vs arbitrary: r out) (auto simp: buffer_visitor_def split: nat.splits simp: take_Cons)

lemma PassToBytes_push:
  "utf8_PassToBytes push_visitor s cs = s @ concat (map (\<lambda>c. utf8_char (ucast c)) cs)"
  by (induction cs arbitrary: s) (simp_all add: visit_all_push)

lemma PassToBytes_buffer:
  "utf8_PassToBytes buffer_visitor (r, out) cs =
     (r - length (concat (map (\<lambda>c. utf8_char (ucast c)) cs)),
      out @ take r (concat (map (\<lambda>c. utf8_char (ucast c)) cs)))"
proof (induction cs arbitrary: r out)
  case (Cons c cs)
  then show ?case by (simp add: visit_all_buffer [OF refl])
qed simp


section \<open>Decoding what was encoded\<close>

lemma utf8_cont_byte:
  fixes x :: u32
  shows "(ucast (0x80 OR (x AND 0x3F)) :: byte) AND 0xC0 = 0x80"
    and "(ucast (0x80 OR (x AND 0x3F)) :: byte) AND 0x3F = ucast (x AND mask 6)"
proof -
  have "x AND 0x3F < 64" using and_mask_less' [of 6 x] by (simp add: mask_eq_exp_minus_1)
  then have k: "unat (x AND 0x3F) < 64" by (simp add: word_less_nat_alt)
  have all: "\<forall>k<64. (ucast (0x80 OR (of_nat k :: u32)) :: byte) AND 0xC0 = 0x80
      \<and> (ucast (0x80 OR (of_nat k :: u32)) :: byte) AND 0x3F = ucast (of_nat k :: u32)"
    by code_simp
  have m: "x AND 0x3F = x AND mask 6" by (simp add: mask_eq_exp_minus_1)
  show "(ucast (0x80 OR (x AND 0x3F)) :: byte) AND 0xC0 = 0x80"
    using all [rule_format, OF k] by simp
  show "(ucast (0x80 OR (x AND 0x3F)) :: byte) AND 0x3F = ucast (x AND mask 6)"
    using all [rule_format, OF k] by (simp add: m)
qed

lemma utf8_cont_bytes:
  fixes wc :: "'c::len word"
  shows "utf8_cont ign n wc
      (map (\<lambda>i. ucast (0x80 OR (drop_bit (i * 6) ch AND 0x3F))) (rev [0..<n]) @ mb)
    = Inr (push_bit (6 * n) wc OR (ucast (ch :: u32) AND mask (6 * n)), mb)"
proof (induction n arbitrary: wc)
  case (Suc n)
  let ?w = "push_bit 6 wc OR ucast (ucast (drop_bit (n * 6) ch AND mask 6) :: byte)"
  have "push_bit (6 * n) ?w OR (ucast ch AND mask (6 * n))
      = (push_bit (6 * Suc n) wc OR (ucast ch AND mask (6 * Suc n)) :: 'c word)"
    by (rule bit_word_eqI) (auto simp: bit_simps algebra_simps)
  then show ?case using Suc [of ?w] by (simp add: utf8_cont_byte mult.commute)
qed simp

lemma utf8_step:
  fixes visitor :: "('c::len word, 's) visitor"
  assumes "utf8_lead ign b = Inr (n, b)" and "b AND mask (7 - n) = ucast (drop_bit (6 * n) ch)"
    and "drop_bit (6 * n) (ch :: u32) < 256"
  shows "utf8_Pass ign visitor s
      (b # map (\<lambda>i. ucast (0x80 OR (drop_bit (i * 6) ch AND 0x3F))) (rev [0..<n]) @ mb)
    = (case visitor (ucast ch) s of (more, s') \<Rightarrow>
         if \<not> more then Inr s' else utf8_Pass ign visitor s' mb)"
proof -
  have hi: "\<not> bit ch j" if "8 + 6 * n \<le> j" for j
  proof -
    have "drop_bit (6 * n) ch < 2 ^ 8" using assms(3) by simp
    then have "drop_bit (6 * n) ch = take_bit 8 (drop_bit (6 * n) ch)"
      by (simp only: take_bit_eq_mask less_mask_eq)
    then have "bit ch (6 * n + (j - 6 * n)) \<longleftrightarrow> bit (take_bit 8 (drop_bit (6 * n) ch)) (j - 6 * n)"
      by (metis bit_drop_bit_eq comp_apply)
    moreover have "\<not> j - 6 * n < 8" using that by simp
    ultimately show ?thesis using that by (simp add: bit_simps)
  qed
  have "push_bit (6 * n) (ucast (b AND mask (7 - n))) OR (ucast ch AND mask (6 * n)) = (ucast ch :: 'c word)"
  proof -
    have "j - 6 * n < 8" if "bit ch j" "\<not> j < 6 * n" for j using hi [of j] that by linarith
    then show ?thesis unfolding assms(2) by (intro bit_word_eqI) (auto simp: bit_simps)
  qed
  then show ?thesis by (simp add: assms(1) utf8_cont_bytes)
qed

lemma utf8_lead_bytes:
  fixes x :: u32
  shows "x < 128 \<Longrightarrow> utf8_lead ign (ucast x) = Inr (0, ucast x) \<and> ucast x AND mask 7 = (ucast x :: byte)"
    and "x < 32 \<Longrightarrow> utf8_lead ign (ucast (0xC0 OR x)) = Inr (1, ucast (0xC0 OR x))
      \<and> ucast (0xC0 OR x) AND mask 6 = (ucast x :: byte)"
    and "x < 16 \<Longrightarrow> utf8_lead ign (ucast (0xE0 OR x)) = Inr (2, ucast (0xE0 OR x))
      \<and> ucast (0xE0 OR x) AND mask 5 = (ucast x :: byte)"
    and "x < 8 \<Longrightarrow> utf8_lead ign (ucast (0xF0 OR x)) = Inr (3, ucast (0xF0 OR x))
      \<and> ucast (0xF0 OR x) AND mask 4 = (ucast x :: byte)"
    and "x < 4 \<Longrightarrow> utf8_lead ign (ucast (0xF8 OR x)) = Inr (4, ucast (0xF8 OR x))
      \<and> ucast (0xF8 OR x) AND mask 3 = (ucast x :: byte)"
    and "x < 2 \<Longrightarrow> utf8_lead ign (ucast (0xFC OR x)) = Inr (5, ucast (0xFC OR x))
      \<and> ucast (0xFC OR x) AND mask 2 = (ucast x :: byte)"
proof -
  have "\<forall>ign. (\<forall>k<32. utf8_lead ign (ucast (0xC0 OR (of_nat k :: u32))) = Inr (1, ucast (0xC0 OR (of_nat k :: u32)))
        \<and> ucast (0xC0 OR (of_nat k :: u32)) AND mask 6 = (ucast (of_nat k :: u32) :: byte))
    \<and> (\<forall>k<16. utf8_lead ign (ucast (0xE0 OR (of_nat k :: u32))) = Inr (2, ucast (0xE0 OR (of_nat k :: u32)))
        \<and> ucast (0xE0 OR (of_nat k :: u32)) AND mask 5 = (ucast (of_nat k :: u32) :: byte))
    \<and> (\<forall>k<8. utf8_lead ign (ucast (0xF0 OR (of_nat k :: u32))) = Inr (3, ucast (0xF0 OR (of_nat k :: u32)))
        \<and> ucast (0xF0 OR (of_nat k :: u32)) AND mask 4 = (ucast (of_nat k :: u32) :: byte))
    \<and> (\<forall>k<4. utf8_lead ign (ucast (0xF8 OR (of_nat k :: u32))) = Inr (4, ucast (0xF8 OR (of_nat k :: u32)))
        \<and> ucast (0xF8 OR (of_nat k :: u32)) AND mask 3 = (ucast (of_nat k :: u32) :: byte))
    \<and> (\<forall>k<2. utf8_lead ign (ucast (0xFC OR (of_nat k :: u32))) = Inr (5, ucast (0xFC OR (of_nat k :: u32)))
        \<and> ucast (0xFC OR (of_nat k :: u32)) AND mask 2 = (ucast (of_nat k :: u32) :: byte))"
    by code_simp
  note all = this [THEN spec, of ign]
  have k: "unat x < m \<Longrightarrow> (\<forall>k<m. P (of_nat k :: u32)) \<Longrightarrow> P x" for m P
  proof -
    assume "unat x < m" "\<forall>k<m. P (of_nat k :: u32)"
    then have "P (of_nat (unat x))" by blast
    then show "P x" by simp
  qed
  show "x < 128 \<Longrightarrow> utf8_lead ign (ucast x) = Inr (0, ucast x) \<and> ucast x AND mask 7 = (ucast x :: byte)"
  proof -
    assume x: "x < 128"
    then have u: "unat (ucast x :: byte) = unat x"
      by (simp add: word_less_nat_alt unsigned_ucast_eq take_bit_eq_mod)
    then have "(ucast x :: byte) < 2 ^ 7" using x by (simp add: word_less_nat_alt)
    then have "ucast x AND mask 7 = (ucast x :: byte)" by (rule less_mask_eq)
    then show ?thesis using u x by (simp add: utf8_lead_def word_le_nat_alt word_less_nat_alt)
  qed
  show "x < 32 \<Longrightarrow> utf8_lead ign (ucast (0xC0 OR x)) = Inr (1, ucast (0xC0 OR x))
      \<and> ucast (0xC0 OR x) AND mask 6 = (ucast x :: byte)"
    by (rule k [of 32]) (use all in \<open>simp_all add: word_less_nat_alt\<close>)
  show "x < 16 \<Longrightarrow> utf8_lead ign (ucast (0xE0 OR x)) = Inr (2, ucast (0xE0 OR x))
      \<and> ucast (0xE0 OR x) AND mask 5 = (ucast x :: byte)"
    by (rule k [of 16]) (use all in \<open>simp_all add: word_less_nat_alt\<close>)
  show "x < 8 \<Longrightarrow> utf8_lead ign (ucast (0xF0 OR x)) = Inr (3, ucast (0xF0 OR x))
      \<and> ucast (0xF0 OR x) AND mask 4 = (ucast x :: byte)"
    by (rule k [of 8]) (use all in \<open>simp_all add: word_less_nat_alt\<close>)
  show "x < 4 \<Longrightarrow> utf8_lead ign (ucast (0xF8 OR x)) = Inr (4, ucast (0xF8 OR x))
      \<and> ucast (0xF8 OR x) AND mask 3 = (ucast x :: byte)"
    by (rule k [of 4]) (use all in \<open>simp_all add: word_less_nat_alt\<close>)
  show "x < 2 \<Longrightarrow> utf8_lead ign (ucast (0xFC OR x)) = Inr (5, ucast (0xFC OR x))
      \<and> ucast (0xFC OR x) AND mask 2 = (ucast x :: byte)"
    by (rule k [of 2]) (use all in \<open>simp_all add: word_less_nat_alt\<close>)
qed

lemma unat_drop_bit_less:
  "unat ch < 2 ^ m \<Longrightarrow> k \<le> m \<Longrightarrow> unat (drop_bit k (ch :: u32)) < 2 ^ (m - k)"
proof -
  assume a: "unat ch < 2 ^ m" "k \<le> m"
  have "unat (drop_bit k ch) = unat ch div 2 ^ k"
    unfolding unsigned_drop_bit_eq using unsigned_less [of ch, where 'a = nat]
    by (simp add: drop_bit_eq_div take_bit_eq_mod)
  also have "\<dots> < 2 ^ (m - k)"
    using a by (intro less_mult_imp_div_less) (simp flip: power_add)
  finally show ?thesis .
qed

lemma Pass_utf8_char:
  assumes "ch < 0x80000000"
  shows "utf8_Pass ign visitor s (utf8_char ch @ mb)
    = (case visitor (ucast ch) s of (more, s') \<Rightarrow>
         if \<not> more then Inr s' else utf8_Pass ign visitor s' mb)"
proof -
  let ?u = "unat ch"
  let ?tail = "\<lambda>n. map (\<lambda>i. ucast (0x80 OR (drop_bit (i * 6) ch AND 0x3F))) (rev [0..<n])"
  have step: ?thesis
    if "utf8_char ch = b # ?tail n" "utf8_lead ign b = Inr (n, b) \<and> b AND mask (7 - n) = ucast (drop_bit (6 * n) ch)"
      "unat (drop_bit (6 * n) ch) < 256" for b n
    using utf8_step [of ign b n ch visitor s mb] that by (simp add: word_less_nat_alt)
  note cmp = utf8_char_def word_less_nat_alt word_le_nat_alt
  have "?u < 0x80000000" using assms by (simp add: word_less_nat_alt)
  then consider "?u < 0x80" | "0x80 \<le> ?u" "?u < 0x800" | "0x800 \<le> ?u" "?u < 0x10000"
    | "0x10000 \<le> ?u" "?u < 0x200000" | "0x200000 \<le> ?u" "?u < 0x4000000"
    | "0x4000000 \<le> ?u" "?u < 0x80000000"
    by linarith
  then show ?thesis
  proof cases
    case 1
    then show ?thesis
      by (intro step [of "ucast ch" 0]) (use utf8_lead_bytes(1) [of ch ign] in \<open>simp_all add: cmp\<close>)
  next
    case 2
    then have "unat (drop_bit 6 ch) < 32" using unat_drop_bit_less [of ch 11 6] by simp
    then show ?thesis
      by (intro step [of "ucast (0xC0 OR drop_bit 6 ch)" 1])
        (use utf8_lead_bytes(2) [of "drop_bit 6 ch" ign] 2 in \<open>simp_all add: cmp\<close>)
  next
    case 3
    then have "unat (drop_bit 12 ch) < 16" using unat_drop_bit_less [of ch 16 12] by simp
    then show ?thesis
      by (intro step [of "ucast (0xE0 OR drop_bit 12 ch)" 2])
        (use utf8_lead_bytes(3) [of "drop_bit 12 ch" ign] 3 in \<open>simp_all add: cmp\<close>)
  next
    case 4
    then have "unat (drop_bit 18 ch) < 8" using unat_drop_bit_less [of ch 21 18] by simp
    then show ?thesis
      by (intro step [of "ucast (0xF0 OR drop_bit 18 ch)" 3])
        (use utf8_lead_bytes(4) [of "drop_bit 18 ch" ign] 4 in \<open>simp_all add: cmp\<close>)
  next
    case 5
    then have "unat (drop_bit 24 ch) < 4" using unat_drop_bit_less [of ch 26 24] by simp
    then show ?thesis
      by (intro step [of "ucast (0xF8 OR drop_bit 24 ch)" 4])
        (use utf8_lead_bytes(5) [of "drop_bit 24 ch" ign] 5 in \<open>simp_all add: cmp\<close>)
  next
    case 6
    then have "unat (drop_bit 30 ch) < 2" using unat_drop_bit_less [of ch 31 30] by simp
    then show ?thesis
      by (intro step [of "ucast (0xFC OR drop_bit 30 ch)" 5])
        (use utf8_lead_bytes(6) [of "drop_bit 30 ch" ign] 6 in \<open>simp_all add: cmp\<close>)
  qed
qed


section \<open>Properties\<close>

lemma Pass_push_chars:
  fixes s :: "'c::len word list"
  assumes "\<forall>c\<in>set s. (ucast c :: u32) < 0x80000000" and "LENGTH('c) \<le> 32"
  shows "utf8_Pass ign push_visitor out (concat (map (\<lambda>c. utf8_char (ucast c)) s) @ mb)
    = utf8_Pass ign push_visitor (out @ s) mb"
  using assms(1)
proof (induction s arbitrary: out)
  case (Cons c s)
  have c: "ucast (ucast c :: u32) = c"
    using assms(2) by (intro bit_word_eqI) (auto simp: bit_simps dest: bit_imp_le_length)
  have "utf8_Pass ign push_visitor out (utf8_char (ucast c) @ mb') = utf8_Pass ign push_visitor (out @ [c]) mb'"
    for mb'
    using Cons.prems by (subst Pass_utf8_char) (simp_all add: c push_visitor_def)
  then show ?case using Cons by simp
qed simp

text \<open>
  C19: decoding the bytes of a string gives the string back, in strict and in lenient mode, for
  characters of at most 32 bits below \<open>2^31\<close>: all of them where the character type has 16 bits.
\<close>

theorem utf8_roundtrip:
  fixes s :: "'c::len word list"
  assumes "\<forall>c\<in>set s. (ucast c :: u32) < 0x80000000" and "LENGTH('c) \<le> 32"
  shows "UTF8_GetChars ign (UTF8_GetBytes s) = Inr s"
  using Pass_push_chars [OF assms, of ign "[]" "[]"]
  by (simp add: UTF8_GetChars_def UTF8_GetBytes_def PassToBytes_push)

lemma utf8_roundtrip_witness:
  "UTF8_GetChars False (UTF8_GetBytes [0x41, 0x439, 0x20AC :: u16]) = Inr [0x41, 0x439, 0x20AC :: u16]"
  by (rule utf8_roundtrip) simp_all

text \<open>Collecting and filling a buffer of sufficient size are the same.\<close>

lemma Pass_out:
  "utf8_Pass ign push_visitor out mb = bind_res (utf8_Pass ign push_visitor [] mb) (\<lambda>cs. Inr (out @ cs))"
proof (induction "length mb" arbitrary: out mb rule: less_induct)
  case less
  show ?case
  proof (cases mb)
    case (Cons b bs)
    show ?thesis
    proof (cases "utf8_lead ign b")
      case (Inr p)
      obtain n b' where p: "p = (n, b')" by (cases p)
      show ?thesis
      proof (cases "utf8_cont ign n (ucast (b' AND mask (7 - n)) :: 'a word) bs")
        case c: (Inr q)
        obtain wc mb' where q: "q = (wc, mb')" by (cases q)
        have l: "length mb' < length mb" using utf8_cont_shorter [OF c [unfolded q]] Cons by simp
        show ?thesis
          using less [OF l, of "out @ [wc]"] less [OF l, of "[wc]"] Inr p c q Cons
          by (cases "utf8_Pass ign push_visitor [] mb' :: 'a word list res") (simp_all add: push_visitor_def)
      qed (simp add: Inr p Cons)
    qed (simp add: Cons)
  qed simp
qed

lemma Pass_buffer:
  "length mb \<le> r \<Longrightarrow> bind_res (utf8_Pass ign buffer_visitor (r, out) mb) (\<lambda>s. Inr (snd s))
     = utf8_Pass ign push_visitor out mb"
proof (induction "length mb" arbitrary: out mb r rule: less_induct)
  case less
  show ?case
  proof (cases mb)
    case (Cons b bs)
    show ?thesis
    proof (cases "utf8_lead ign b")
      case (Inr p)
      obtain n b' where p: "p = (n, b')" by (cases p)
      show ?thesis
      proof (cases "utf8_cont ign n (ucast (b' AND mask (7 - n)) :: 'a word) bs")
        case c: (Inr q)
        obtain wc mb' where q: "q = (wc, mb')" by (cases q)
        have l: "length mb' < length mb" using utf8_cont_shorter [OF c [unfolded q]] Cons by simp
        moreover have "0 < r" "length mb' \<le> r - 1" using l less.prems Cons by simp_all
        ultimately show ?thesis
          using less.hyps [of mb' "r - 1" "out @ [wc]"] Inr p c q Cons
          by (simp add: push_visitor_def buffer_visitor_def)
      qed (simp add: Inr p Cons)
    qed (simp add: Cons)
  qed simp
qed

text \<open>
  \<open>GetString\<close>, which decodes into a buffer of one character per byte, gives what the growing
  decoder gives, errors included: the buffer is never too small.
\<close>

theorem GetString_is_GetChars: "Encoding_GetString ign mb = UTF8_GetChars ign mb"
  by (simp add: Encoding_GetString_def UTF8_GetChars_buf_def UTF8_GetChars_def Pass_buffer)

text \<open>
  Encoding into a buffer stores the prefix of the full encoding that fits, and nothing beyond
  the buffer.
\<close>

theorem GetBytes_buf_prefix: "UTF8_GetBytes_buf s n = take n (UTF8_GetBytes s)"
  by (simp add: UTF8_GetBytes_buf_def UTF8_GetBytes_def PassToBytes_push PassToBytes_buffer)

text \<open>The byte strings that the strict decoder accepts.\<close>

definition cont_byte :: "byte \<Rightarrow> bool" where
  "cont_byte b \<longleftrightarrow> b AND 0xC0 = 0x80"

inductive utf8_wf :: "byte list \<Rightarrow> bool" where
  utf8_nil: "utf8_wf []"
| utf8_seq: "utf8_lead False b = Inr (n, b) \<Longrightarrow> length cs = n \<Longrightarrow> list_all cont_byte cs \<Longrightarrow> utf8_wf mb \<Longrightarrow>
    utf8_wf (b # cs @ mb)"

inductive_cases utf8_wf_ConsE: "utf8_wf (b # mb)"

lemma utf8_cont_strict:
  "(\<exists>wc'. utf8_cont False n wc mb = Inr (wc', mb')) \<longleftrightarrow>
     (\<exists>cs. length cs = n \<and> list_all cont_byte cs \<and> mb = cs @ mb')"
proof (induction n arbitrary: wc mb)
  case (Suc n)
  show ?case
  proof (cases mb)
    case (Cons b bs)
    have "(\<exists>cs. length cs = Suc n \<and> list_all cont_byte cs \<and> b # bs = cs @ mb') \<longleftrightarrow>
      cont_byte b \<and> (\<exists>cs. length cs = n \<and> list_all cont_byte cs \<and> bs = cs @ mb')"
      by (auto simp: length_Suc_conv)
    then show ?thesis using Suc by (simp add: Cons flip: cont_byte_def)
  qed auto
qed auto

lemma utf8_lead_strict: "utf8_lead False b = Inr (n, b') \<Longrightarrow> b' = b"
  by (auto simp: utf8_lead_def split: if_splits)

lemma Pass_strict_accepts:
  "(\<exists>s'. utf8_Pass False push_visitor (s :: 'c::len word list) mb = Inr s') \<longleftrightarrow> utf8_wf mb"
proof (induction "length mb" arbitrary: s mb rule: less_induct)
  case less
  show ?case
  proof (cases mb)
    case Nil
    then show ?thesis by (simp add: utf8_nil)
  next
    case (Cons b bs)
    show ?thesis
    proof (cases "utf8_lead False b")
      case (Inl e)
      then show ?thesis by (auto simp: Cons elim: utf8_wf_ConsE)
    next
      case (Inr p)
      then obtain n where lead: "utf8_lead False b = Inr (n, b)" using utf8_lead_strict by (cases p) blast
      let ?wc = "ucast (b AND mask (7 - n)) :: 'c word"
      have step: "(\<exists>s'. utf8_Pass False push_visitor s (b # bs) = Inr s') \<longleftrightarrow>
          (\<exists>wc mb'. utf8_cont False n ?wc bs = Inr (wc, mb') \<and>
             (\<exists>s'. utf8_Pass False push_visitor (s @ [wc]) mb' = Inr s'))"
        by (auto simp: lead push_visitor_def split: sum.split)
      also have "\<dots> \<longleftrightarrow> (\<exists>mb'. (\<exists>wc. utf8_cont False n ?wc bs = Inr (wc, mb')) \<and> utf8_wf mb')"
      proof -
        have "(\<exists>s'. utf8_Pass False push_visitor (s @ [wc]) mb' = Inr s') \<longleftrightarrow> utf8_wf mb'"
          if "utf8_cont False n ?wc bs = Inr (wc, mb')" for wc mb'
          by (rule less.hyps) (use utf8_cont_shorter [OF that] Cons in simp)
        then show ?thesis by blast
      qed
      also have "\<dots> \<longleftrightarrow> utf8_wf (b # bs)"
        unfolding utf8_cont_strict using lead by (auto intro: utf8_seq elim!: utf8_wf_ConsE) blast
      finally show ?thesis by (simp add: Cons)
    qed
  qed
qed

text \<open>
  the strict decoder accepts exactly the sequences of a first byte and as many continuation
  bytes as it announces, up to six bytes in all.  Nothing asks for the shortest form: the two
  bytes \<open>C0 AF\<close> are accepted and give the character that \<open>2F\<close> encodes.
\<close>

theorem utf8_strict_accepts:
  "((\<exists>s. UTF8_GetChars False mb = Inr (s :: 'c::len word list)) \<longleftrightarrow> utf8_wf mb)
    \<and> UTF8_GetChars False [0xC0, 0xAF] = Inr [0x2F :: u16]"
proof
  show "(\<exists>s. UTF8_GetChars False mb = Inr (s :: 'c word list)) \<longleftrightarrow> utf8_wf mb"
    unfolding UTF8_GetChars_def by (rule Pass_strict_accepts)
  show "UTF8_GetChars False [0xC0, 0xAF] = Inr [0x2F :: u16]" by code_simp
qed

text \<open>
  in lenient mode decoding never fails, and a stray continuation byte (or FE, FF) is taken as
  the start of a two-byte sequence: the byte after it, an ASCII character for instance, is dropped.
\<close>

theorem utf8_lenient:
  "(\<exists>s. UTF8_GetChars True mb = Inr (s :: 'c::len word list))
    \<and> UTF8_GetChars True (0x80 # 0x41 # mb)
        = bind_res (UTF8_GetChars True mb) (\<lambda>s. Inr (0x3F # s :: 'c word list))"
proof
  have cont: "\<exists>wc' mb'. utf8_cont True n wc m = Inr (wc' :: 'c word, mb')" for n wc m
    by (induction True n wc m rule: utf8_cont.induct) auto
  have lead: "\<exists>n b'. utf8_lead True b = Inr (n, b')" for b by (simp add: utf8_lead_def)
  have "\<exists>s'. utf8_Pass True push_visitor s mb = Inr (s' :: 'c word list)" for s
  proof (induction "length mb" arbitrary: s mb rule: less_induct)
    case less
    show ?case
    proof (cases mb)
      case (Cons b bs)
      obtain n b' where l: "utf8_lead True b = Inr (n, b')" using lead by blast
      obtain wc mb' where c: "utf8_cont True n (ucast (b' AND mask (7 - n)) :: 'c word) bs = Inr (wc, mb')"
        using cont by blast
      show ?thesis
        using less [of mb' "s @ [wc]"] utf8_cont_shorter [OF c] Cons l c by (simp add: push_visitor_def)
    qed simp
  qed
  then show "\<exists>s. UTF8_GetChars True mb = Inr (s :: 'c word list)" by (simp add: UTF8_GetChars_def)
  have "utf8_lead True 0x80 = Inr (1, 0x3F)" "(0x3F :: byte) AND mask 6 = 0x3F" "(0x41 :: byte) AND 0xC0 \<noteq> 0x80"
    by code_simp+
  then have "utf8_Pass True push_visitor [] (0x80 # 0x41 # mb) = utf8_Pass True push_visitor [0x3F :: 'c word] mb"
    by (simp add: push_visitor_def)
  then show "UTF8_GetChars True (0x80 # 0x41 # mb)
      = bind_res (UTF8_GetChars True mb) (\<lambda>s. Inr (0x3F # s :: 'c word list))"
    unfolding UTF8_GetChars_def using Pass_out [of True "[0x3F :: 'c word]" mb]
    by (simp del: utf8_Pass.simps)
qed

text \<open>
  ASCII: characters below 256 survive the round trip, and the buffer variants are prefixes of
  the growing ones.
\<close>

theorem ascii_roundtrip:
  fixes s :: "'c::len word list"
  assumes "\<forall>c\<in>set s. unat c < 256"
  shows "ASCII_GetChars (ASCII_GetBytes s) = s"
    and "ASCII_GetBytes_buf s n = take n (ASCII_GetBytes s)"
    and "ASCII_GetChars_buf mb n = (take n (ASCII_GetChars mb) :: 'c word list)"
proof -
  have "ucast (ucast c :: byte) = c" if "c \<in> set s" for c
  proof -
    have "take_bit 8 (unat c) = unat c" using assms that by (intro take_bit_nat_eq_self) simp
    then have "bit (unat c) j \<Longrightarrow> j < 8" for j by (metis bit_take_bit_iff)
    then have "bit c j \<Longrightarrow> j < 8" for j by (metis bit_unsigned_iff bit_imp_le_length possible_bit_nat)
    then show ?thesis by (intro bit_word_eqI) (auto simp: bit_simps)
  qed
  then show "ASCII_GetChars (ASCII_GetBytes s) = s"
    by (simp add: ASCII_GetChars_def ASCII_GetBytes_def o_def map_idI)
  show "ASCII_GetBytes_buf s n = take n (ASCII_GetBytes s)"
    by (rule nth_equalityI) (simp_all add: ASCII_GetBytes_buf_def ASCII_GetBytes_def)
  show "ASCII_GetChars_buf mb n = (take n (ASCII_GetChars mb) :: 'c word list)"
    by (rule nth_equalityI) (auto simp: ASCII_GetChars_buf_def ASCII_GetChars_def)
qed

lemma ascii_roundtrip_witness:
  "ASCII_GetChars (ASCII_GetBytes [0x41, 0xE9 :: u16]) = [0x41, 0xE9 :: u16]"
  by (rule ascii_roundtrip(1)) simp

end
