(* ===== verification/XmlText.thy ===== *)
theory XmlText
  imports Prelude
begin

text \<open>
  Escaping of XML text, \<open>quote\<close> of \<open>src/xml/xml-writer.cpp\<close> and \<open>unquote\<close> of
  \<open>src/xml/xml-reader.cpp\<close>, over \<open>std::string\<close> as character lists.
\<close>

section \<open>Decimal numbers as a stream prints them\<close>

definition digit_char :: "nat \<Rightarrow> char" where
  "digit_char d = char_of (48 + d)"

fun nat_string :: "nat \<Rightarrow> string" where
  "nat_string n = (if n < 10 then [digit_char n] else nat_string (n div 10) @ [digit_char (n mod 10)])"

declare nat_string.simps [simp del]

section \<open>Escaping\<close>

definition char_code :: "char \<Rightarrow> nat" where
  "char_code c = of_char c"

definition is_control :: "char \<Rightarrow> bool" where
  "is_control c \<longleftrightarrow> char_code c < 32 \<and> c \<noteq> CHR 0x09 \<and> c \<noteq> CHR 0x0A \<and> c \<noteq> CHR 0x0D"

text \<open>The scan that looks for a character to escape, and the escape of one character.\<close>

definition needs_quote :: "char \<Rightarrow> bool" where
  "needs_quote c \<longleftrightarrow> c = CHR ''&'' \<or> c = CHR ''<'' \<or> c = CHR ''>'' \<or> c = CHR 0x22 \<or> is_control c"

definition quote_char :: "char \<Rightarrow> string" where
  "quote_char c =
     (if c = CHR ''&'' then ''&amp;''
      else if c = CHR ''<'' then ''&lt;''
      else if c = CHR ''>'' then ''&gt;''
      else if c = CHR 0x22 then ''&quot;''
      else if is_control c then ''&#'' @ nat_string (char_code c) @ '';''
      else [c])"

definition quote :: "string \<Rightarrow> string" where
  "quote input =
     (if list_ex needs_quote input then concat (map quote_char input) else input)"

text \<open>
  The decoder reads the C string from the first ampersand on.  \<open>act\<close> and \<open>amp\<close> are
  \<open>bActive\<close> and \<open>have_amp\<close>.
\<close>

definition starts_with :: "string \<Rightarrow> string \<Rightarrow> bool" where
  "starts_with p s \<longleftrightarrow> take (length p) s = p"

function unquote_loop :: "bool \<Rightarrow> bool \<Rightarrow> string \<Rightarrow> string" where
  "unquote_loop act amp [] = (if amp then ''&'' else [])"
| "unquote_loop act amp (ch # str) =
     (if ch = CHR ''&'' then
        if \<not> act then unquote_loop True True str
        else if amp then CHR ''&'' # unquote_loop act amp str
        else unquote_loop act amp str
      else if act then
        if starts_with ''amp;'' (ch # str) then CHR ''&'' # unquote_loop False False (drop 3 str)
        else if starts_with ''quot;'' (ch # str) then CHR 0x22 # unquote_loop False False (drop 4 str)
        else if starts_with ''lt;'' (ch # str) then CHR ''<'' # unquote_loop False False (drop 2 str)
        else if starts_with ''gt;'' (ch # str) then CHR ''>'' # unquote_loop False False (drop 2 str)
        else (if amp then ''&'' else []) @ ch # unquote_loop False False str
      else ch # unquote_loop act amp str)"
  by pat_completeness auto
termination by (relation "measure (\<lambda>(_, _, s). length s)") auto

definition c_str :: "string \<Rightarrow> string" where
  "c_str s = takeWhile (\<lambda>c. c \<noteq> CHR 0x00) s"

definition unquote :: "string \<Rightarrow> string" where
  "unquote input =
     (let beg = c_str input
      in if CHR ''&'' \<in> set beg
         then takeWhile (\<lambda>c. c \<noteq> CHR ''&'') beg
                @ unquote_loop False False (dropWhile (\<lambda>c. c \<noteq> CHR ''&'') beg)
         else input)"

definition quote_normalize :: "string \<Rightarrow> string" where
  "quote_normalize s = quote (unquote s)"

section \<open>Round trip\<close>

lemma unquote_quote_char:
  assumes "\<not> is_control c"
  shows "unquote_loop False False (quote_char c @ s) = c # unquote_loop False False s"
  using assms by (simp add: quote_char_def starts_with_def)

lemma unquote_loop_quote:
  "\<forall>c\<in>set s. \<not> is_control c \<Longrightarrow> unquote_loop False False (concat (map quote_char s)) = s"
  by (induction s) (simp_all add: unquote_quote_char)

lemma unquote_loop_plain:
  "CHR ''&'' \<notin> set p \<Longrightarrow> unquote_loop False False (p @ s) = p @ unquote_loop False False s"
  by (induction p) auto

lemma not_control_nonnul: "\<not> is_control c \<Longrightarrow> c \<noteq> CHR 0x00"
  by (auto simp: is_control_def char_code_def)

lemma c_str_id: "CHR 0x00 \<notin> set s \<Longrightarrow> c_str s = s"
  by (auto simp: c_str_def takeWhile_eq_all_conv)

lemma unquote_eq_loop:
  assumes "CHR 0x00 \<notin> set s" shows "unquote s = unquote_loop False False s"
proof (cases "CHR ''&'' \<in> set s")
  case True
  let ?p = "\<lambda>c. c \<noteq> CHR ''&''"
  have "CHR ''&'' \<notin> set (takeWhile ?p s)" by (auto dest: set_takeWhileD)
  from unquote_loop_plain [OF this, of "dropWhile ?p s"]
  show ?thesis using True by (simp add: unquote_def c_str_id [OF assms])
next
  case False
  then show ?thesis
    using unquote_loop_plain [of s "[]"] by (simp add: unquote_def c_str_id [OF assms])
qed

lemma quote_concat: "quote s = concat (map quote_char s)"
proof -
  have "\<not> list_ex needs_quote s \<Longrightarrow> concat (map quote_char s) = s"
    by (induction s) (auto simp: needs_quote_def quote_char_def)
  then show ?thesis by (simp add: quote_def)
qed

lemma nat_string_digits: "c \<in> set (nat_string n) \<Longrightarrow> \<exists>d<10. c = digit_char d"
proof (induction n rule: nat_string.induct)
  case (1 n)
  show ?case
  proof (cases "c = digit_char (n mod 10)")
    case False
    then show ?thesis using 1 by (subst (asm) (2) nat_string.simps) (auto split: if_splits)
  next
    case True
    have "n mod 10 < 10" by simp
    then show ?thesis using True by blast
  qed
qed

lemma nat_string_chars:
  assumes "c \<in> set (nat_string n)"
  shows "48 \<le> char_code c" "char_code c < 58"
  using nat_string_digits [OF assms] by (auto simp: char_code_def digit_char_def)

lemma nat_string_no_nul:
  "c \<in> set (nat_string n) \<Longrightarrow> c \<noteq> CHR 0x00 \<and> c \<noteq> CHR ''&'' \<and> c \<noteq> CHR ''<'' \<and> c \<noteq> CHR ''>'' \<and> c \<noteq> CHR 0x22
    \<and> \<not> is_control c"
  using nat_string_chars [of c n] by (auto simp: char_code_def is_control_def)

lemma quote_no_nul: "CHR 0x00 \<notin> set (quote s)"
  by (auto simp: quote_concat quote_char_def is_control_def char_code_def dest: nat_string_no_nul split: if_splits)

section \<open>Properties\<close>

text \<open>
  C24: unescaping an escaped text gives the text back, for every text without control characters
  other than tab, line feed and carriage return.
\<close>

theorem xml_quote_roundtrip:
  assumes "list_all (\<lambda>c. \<not> is_control c) s"
  shows "unquote (quote s) = s"
  using assms unquote_eq_loop [OF quote_no_nul, of s]
  by (simp add: quote_concat unquote_loop_quote list_all_iff)

lemma xml_quote_roundtrip_witness: "unquote (quote ''a<b & c>d'') = ''a<b & c>d''"
  by (rule xml_quote_roundtrip) (simp add: is_control_def char_code_def)

text \<open>
  escaped text never holds an angle bracket, a double quote or a control character, so it can
  stand between tags and inside a quoted attribute.
\<close>

theorem xml_quote_safe:
  "set (quote s) \<inter> {CHR ''<'', CHR ''>'', CHR 0x22} = {} \<and> filter is_control (quote s) = []"
proof
  show "set (quote s) \<inter> {CHR ''<'', CHR ''>'', CHR 0x22} = {}"
    by (auto simp: quote_concat quote_char_def dest: nat_string_no_nul split: if_splits)
  have "\<not> is_control c" if "c \<in> set (quote_char x)" for c x
    using that by (auto simp: quote_char_def dest: nat_string_no_nul split: if_splits)
      (auto simp: is_control_def char_code_def)
  then show "filter is_control (quote s) = []" by (auto simp: quote_concat filter_empty_conv)
qed

text \<open>
  control characters are written as numeric references, which \<open>unquote\<close> does not read: it
  leaves them as they stand.
\<close>

theorem xml_control_not_restored:
  assumes "is_control c"
  shows "unquote (quote [c]) = quote [c] \<and> quote [c] = ''&#'' @ nat_string (char_code c) @ '';''"
proof -
  have c: "c \<noteq> CHR ''&''" "c \<noteq> CHR ''<''" "c \<noteq> CHR ''>''" "c \<noteq> CHR 0x22"
    using assms by (auto simp: is_control_def char_code_def)
  have q: "quote [c] = ''&#'' @ nat_string (char_code c) @ '';''"
    using c assms by (simp add: quote_concat quote_char_def)
  have "unquote_loop False False (nat_string n @ '';'') = nat_string n @ '';''" for n
    using unquote_loop_plain [of "nat_string n" "'';''"] nat_string_no_nul [of "CHR ''&''" n] by auto
  then have "unquote_loop False False (quote [c]) = quote [c]" by (simp add: q starts_with_def)
  then show ?thesis using q unquote_eq_loop [OF quote_no_nul, of "[c]"] by (simp del: unquote_loop.simps)
qed

lemma xml_control_not_restored_witness:
  "unquote (quote [CHR 0x01]) = quote [CHR 0x01] \<and> quote [CHR 0x01] = ''&#1;''"
  using xml_control_not_restored [of "CHR 0x01"]
proof -
  have "quote [CHR 0x01] = ''&#1;''" by code_simp
  then show ?thesis
    using xml_control_not_restored [of "CHR 0x01"] by (auto simp: is_control_def char_code_def)
qed

end
