(* ===== verification/XmlWriter.thy ===== *)
theory XmlWriter
  imports XmlText
begin

text \<open>
  The XML writer, \<open>XmlWriter\<close> and \<open>XmlTextWriter\<close> of \<open>src/xml.h\<close> and \<open>src/xml/xml-writer.cpp\<close>: its
  state, one definition per operation, the operations as a step relation, and the documents that
  a writer produces from trees.  The stream is the string written so far; \<open>'v\<close> are the library's
  strings, which the writer's encoding turns into bytes.
\<close>

section \<open>State\<close>

datatype XmlFormatting = Indented | NoFormatting

record 'v xml_writer =
  xw_Encoding :: "'v \<Rightarrow> string"
  xw_Indentation :: nat
  xw_IndentChar :: char
  xw_Formatting :: XmlFormatting
  xw_os :: string
  xw_elements :: "string list"
  xw_bOpenedElement :: bool
  xw_bEoled :: bool

definition XmlTextWriter :: "('v \<Rightarrow> string) \<Rightarrow> string \<Rightarrow> 'v xml_writer" where
  "XmlTextWriter enc os =
     \<lparr>xw_Encoding = enc, xw_Indentation = 1, xw_IndentChar = CHR 0x09, xw_Formatting = NoFormatting,
      xw_os = os, xw_elements = [], xw_bOpenedElement = False, xw_bEoled = False\<rparr>"

definition xw_put :: "string \<Rightarrow> 'v xml_writer \<Rightarrow> 'v xml_writer" where
  "xw_put s w = w\<lparr>xw_os := xw_os w @ s\<rparr>"

section \<open>Operations\<close>

definition xw_Indent :: "'v xml_writer \<Rightarrow> 'v xml_writer" where
  "xw_Indent w =
     (if xw_Formatting w = Indented \<and> xw_elements w \<noteq> []
      then (xw_put (replicate (xw_Indentation w * length (xw_elements w)) (xw_IndentChar w)) w)\<lparr>xw_bEoled := False\<rparr>
      else w)"

definition xw_Eol :: "'v xml_writer \<Rightarrow> 'v xml_writer" where
  "xw_Eol w = (if xw_Formatting w = Indented then xw_put [CHR 0x0A] w else w)\<lparr>xw_bEoled := True\<rparr>"

definition xw_CloseElement :: "'v xml_writer \<Rightarrow> 'v xml_writer" where
  "xw_CloseElement w =
     (if xw_bOpenedElement w then (xw_put ''>'' w)\<lparr>xw_bOpenedElement := False\<rparr> else w)"

definition xw_WriteRaw :: "string \<Rightarrow> 'v xml_writer \<Rightarrow> 'v xml_writer" where
  "xw_WriteRaw s w = xw_put s (xw_CloseElement w)"

definition xw_WriteQuotedString :: "'v \<Rightarrow> 'v xml_writer \<Rightarrow> 'v xml_writer" where
  "xw_WriteQuotedString v w = xw_put (quote (xw_Encoding w v)) w"

definition xw_WriteAttributeString :: "string \<Rightarrow> 'v \<Rightarrow> 'v xml_writer \<Rightarrow> 'v xml_writer res" where
  "xw_WriteAttributeString name v w =
     (if \<not> xw_bOpenedElement w then Inl LogicError
      else Inr (xw_put [CHR 0x22] (xw_WriteQuotedString v (xw_put ('' '' @ name @ ''='' @ [CHR 0x22]) w))))"

definition xw_WriteCData :: "string \<Rightarrow> 'v xml_writer \<Rightarrow> 'v xml_writer res" where
  "xw_WriteCData text w =
     (if list_ex (\<lambda>i. starts_with '']]'' (drop i (c_str text))) [0..<length (c_str text)]
      then Inl LogicError
      else Inr ((xw_put (''<![CDATA['' @ text @ '']]>'') (xw_CloseElement w))\<lparr>xw_bEoled := False\<rparr>))"

definition xw_WriteString :: "'v \<Rightarrow> 'v xml_writer \<Rightarrow> 'v xml_writer" where
  "xw_WriteString v w = (xw_WriteQuotedString v (xw_CloseElement w))\<lparr>xw_bEoled := False\<rparr>"

text \<open>Popping an empty stack is undefined behaviour of the standard library.\<close>

definition xw_WriteEndElement :: "'v xml_writer \<Rightarrow> 'v xml_writer res" where
  "xw_WriteEndElement w =
     (if xw_bOpenedElement w
      then let w1 = xw_CloseElement (xw_put ''/'' w)
           in if xw_elements w1 = [] then Inl OutOfBounds
              else Inr (xw_Eol (w1\<lparr>xw_elements := tl (xw_elements w1)\<rparr>))
      else if xw_elements w = [] then Inl LogicError
      else let tag = hd (xw_elements w); w1 = w\<lparr>xw_elements := tl (xw_elements w)\<rparr>;
               w2 = (if xw_bEoled w1 then xw_Indent w1 else w1)
           in Inr (xw_Eol (xw_put (''</'' @ tag @ ''>'') w2)))"

definition xw_WriteStartElement :: "string \<Rightarrow> 'v xml_writer \<Rightarrow> 'v xml_writer" where
  "xw_WriteStartElement name w =
     (let w1 = xw_CloseElement w;
          w2 = (if \<not> xw_bEoled w1 then xw_Eol w1 else w1);
          w3 = xw_put (''<'' @ name) (xw_Indent w2)
      in w3\<lparr>xw_elements := c_str name # xw_elements w3, xw_bOpenedElement := True, xw_bEoled := False\<rparr>)"

definition xw_WriteElementString :: "string \<Rightarrow> 'v \<Rightarrow> 'v xml_writer \<Rightarrow> 'v xml_writer res" where
  "xw_WriteElementString name v w = xw_WriteEndElement (xw_WriteString v (xw_WriteStartElement name w))"

definition xw_WriteProcessingInstruction :: "string \<Rightarrow> string \<Rightarrow> 'v xml_writer \<Rightarrow> 'v xml_writer" where
  "xw_WriteProcessingInstruction name text w = xw_Eol (xw_put (''<?'' @ name @ '' '' @ text @ ''?>'') w)"

definition xw_WriteStartDocument :: "'v xml_writer \<Rightarrow> 'v xml_writer" where
  "xw_WriteStartDocument w =
     xw_WriteProcessingInstruction ''xml''
       (''version='' @ [CHR 0x22] @ ''1.0'' @ [CHR 0x22] @ '' encoding='' @ [CHR 0x22] @ ''utf-8'' @ [CHR 0x22]) w"

text \<open>\<open>Close\<close> ends the open elements, innermost first.\<close>

partial_function (option) xw_Close :: "'v xml_writer \<Rightarrow> 'v xml_writer res option" where
  "xw_Close w =
     (if xw_elements w = [] then Some (Inr w)
      else case xw_WriteEndElement w of
             Inl e \<Rightarrow> Some (Inl e)
           | Inr w' \<Rightarrow> xw_Close w')"

declare xw_Close.simps [code]

section \<open>The writer as a state machine\<close>

datatype 'v xml_call =
    Raw string | Attribute string 'v | CData string | Text 'v | EndElement | StartElement string
  | ElementString string 'v | ProcessingInstruction string string | StartDocument

fun xw_call :: "'v xml_call \<Rightarrow> 'v xml_writer \<Rightarrow> 'v xml_writer res" where
  "xw_call (Raw s) w = Inr (xw_WriteRaw s w)"
| "xw_call (Attribute n v) w = xw_WriteAttributeString n v w"
| "xw_call (CData s) w = xw_WriteCData s w"
| "xw_call (Text v) w = Inr (xw_WriteString v w)"
| "xw_call EndElement w = xw_WriteEndElement w"
| "xw_call (StartElement n) w = Inr (xw_WriteStartElement n w)"
| "xw_call (ElementString n v) w = xw_WriteElementString n v w"
| "xw_call (ProcessingInstruction n s) w = Inr (xw_WriteProcessingInstruction n s w)"
| "xw_call StartDocument w = Inr (xw_WriteStartDocument w)"

text \<open>A failing call leaves the writer as it was: every operation checks before it writes.\<close>

inductive xw_step :: "'v xml_writer \<Rightarrow> 'v xml_writer \<Rightarrow> bool" where
  xw_ok: "xw_call c w = Inr w' \<Longrightarrow> xw_step w w'"
| xw_throw: "xw_call c w = Inl e \<Longrightarrow> xw_step w w"

inductive xw_reachable :: "'v xml_writer \<Rightarrow> bool" where
  xw_start: "xw_reachable (XmlTextWriter enc os\<lparr>xw_Formatting := f\<rparr>)"
| xw_next: "xw_reachable w \<Longrightarrow> xw_step w w' \<Longrightarrow> xw_reachable w'"

inductive_cases xw_stepE: "xw_step w w'"
fun_cases xw_call_okE: "xw_call c w = Inr w'"

lemmas xw_defs [ext_defs] =
  xw_put_def xw_Indent_def xw_Eol_def xw_CloseElement_def xw_WriteRaw_def xw_WriteQuotedString_def
  xw_WriteAttributeString_def xw_WriteCData_def xw_WriteString_def xw_WriteEndElement_def
  xw_WriteStartElement_def xw_WriteElementString_def xw_WriteProcessingInstruction_def
  xw_WriteStartDocument_def

text \<open>The invariant: an open start tag belongs to an open element.\<close>

definition xw_inv :: "'v xml_writer \<Rightarrow> bool" where
  "xw_inv w \<longleftrightarrow> (xw_bOpenedElement w \<longrightarrow> xw_elements w \<noteq> [])"

lemma xw_frame [simp]:
  "xw_elements (xw_put s w) = xw_elements w" "xw_bOpenedElement (xw_put s w) = xw_bOpenedElement w"
  "xw_elements (xw_Indent w) = xw_elements w" "xw_bOpenedElement (xw_Indent w) = xw_bOpenedElement w"
  "xw_elements (xw_Eol w) = xw_elements w" "xw_bOpenedElement (xw_Eol w) = xw_bOpenedElement w"
  "xw_elements (xw_CloseElement w) = xw_elements w" "\<not> xw_bOpenedElement (xw_CloseElement w)"
  "xw_elements (xw_WriteQuotedString v w) = xw_elements w"
  "xw_bOpenedElement (xw_WriteQuotedString v w) = xw_bOpenedElement w"
  by (simp_all add: xw_put_def xw_Indent_def xw_Eol_def xw_CloseElement_def xw_WriteQuotedString_def)

lemma xw_WriteEndElement_ok:
  "xw_inv w \<Longrightarrow> xw_elements w \<noteq> [] \<Longrightarrow>
     \<exists>w'. xw_WriteEndElement w = Inr w' \<and> xw_elements w' = tl (xw_elements w) \<and> \<not> xw_bOpenedElement w'"
  by (simp add: xw_WriteEndElement_def Let_def)

lemma xw_call_inv [wf]: "xw_inv w \<Longrightarrow> xw_call c w = Inr w' \<Longrightarrow> xw_inv w'"
  by (cases c)
    (auto simp: xw_inv_def xw_WriteRaw_def xw_WriteAttributeString_def xw_WriteCData_def xw_WriteString_def
      xw_WriteEndElement_def xw_WriteStartElement_def xw_WriteElementString_def
      xw_WriteProcessingInstruction_def xw_WriteStartDocument_def Let_def split: if_splits)

lemma xw_reachable_inv: "xw_reachable w \<Longrightarrow> xw_inv w"
proof (induction rule: xw_reachable.induct)
  case (xw_start enc os f)
  show ?case by (simp add: xw_inv_def XmlTextWriter_def)
next
  case (xw_next w w')
  then show ?case by (auto elim!: xw_stepE intro: xw_call_inv)
qed


section \<open>Closing and errors\<close>

text \<open>
  C28: from every reachable state \<open>Close\<close> returns, without an error, and no element is left open.
\<close>

theorem xw_Close_returns:
  assumes "xw_reachable w"
  shows "\<exists>w'. xw_Close w = Some (Inr w') \<and> xw_elements w' = []"
proof -
  have "xw_inv w \<Longrightarrow> \<exists>w'. xw_Close w = Some (Inr w') \<and> xw_elements w' = []" for w :: "'a xml_writer"
  proof (induction "length (xw_elements w)" arbitrary: w)
    case 0
    then show ?case by (simp add: xw_Close.simps)
  next
    case (Suc n)
    then have ne: "xw_elements w \<noteq> []" by auto
    obtain w' where w': "xw_WriteEndElement w = Inr w'" "xw_elements w' = tl (xw_elements w)" "\<not> xw_bOpenedElement w'"
      using xw_WriteEndElement_ok [OF Suc.prems ne] by blast
    have "n = length (xw_elements w')" using Suc.hyps(2) w'(2) by simp
    moreover have "xw_inv w'" using w'(3) by (simp add: xw_inv_def)
    ultimately obtain w'' where "xw_Close w' = Some (Inr w'')" "xw_elements w'' = []" using Suc.hyps(1) by blast
    then show ?case using ne w' by (subst xw_Close.simps) simp
  qed
  then show ?thesis using xw_reachable_inv [OF assms] by blast
qed

lemma xw_Close_returns_witness:
  "\<exists>w'. xw_Close (xw_WriteStartElement ''a'' (XmlTextWriter id []\<lparr>xw_Formatting := Indented\<rparr>)) = Some (Inr w')
     \<and> xw_elements w' = []"
proof (rule xw_Close_returns)
  show "xw_reachable (xw_WriteStartElement ''a'' (XmlTextWriter id []\<lparr>xw_Formatting := Indented\<rparr>))"
    by (rule xw_next [OF xw_start]) (rule xw_ok [of "StartElement ''a''"], simp)
qed

text \<open>
  from every reachable state a call fails only by the documented exception, for three reasons:
  an attribute outside a start tag, an end tag without an open element, and text that would end a
  CDATA section.  The stack of elements is never popped when it is empty.
\<close>

theorem xw_errors:
  assumes "xw_reachable w"
  shows "(case xw_call c w of
            Inl e \<Rightarrow> e = LogicError \<and>
              ((\<exists>n v. c = Attribute n v) \<and> \<not> xw_bOpenedElement w \<or> c = EndElement \<and> xw_elements w = []
               \<or> (\<exists>s pre suf. c = CData s \<and> c_str s = pre @ '']]'' @ suf))
          | Inr w' \<Rightarrow> True)"
proof -
  have inv: "xw_inv w" by (rule xw_reachable_inv [OF assms])
  have cd: "\<exists>pre suf. t = pre @ '']]'' @ suf" if ex: "list_ex (\<lambda>i. starts_with '']]'' (drop i t)) [0..<length t]" for t
  proof -
    obtain i where "take 2 (drop i t) = '']]''"
      using ex by (auto simp: list_ex_iff starts_with_def numeral_2_eq_2)
    then have "t = take i t @ '']]'' @ drop 2 (drop i t)" by (metis append_take_drop_id)
    then show ?thesis by blast
  qed
  show ?thesis
    using inv cd
    by (cases c) (auto simp: xw_inv_def xw_WriteAttributeString_def xw_WriteCData_def xw_WriteEndElement_def
        xw_WriteElementString_def xw_WriteStartElement_def xw_WriteString_def Let_def)
qed

lemma xw_errors_witness:
  "case xw_call EndElement (XmlTextWriter id []\<lparr>xw_Formatting := NoFormatting\<rparr>) of
     Inl e \<Rightarrow> e = LogicError | Inr w' \<Rightarrow> True"
  using xw_errors [OF xw_start [where enc = id and os = "[]" and f = NoFormatting], of EndElement] by (auto split: sum.splits)

section \<open>Documents\<close>

datatype 'v xml_tree =
    Elem string "(string \<times> 'v) list" "'v xml_tree list"
  | TextNode 'v
  | CDataNode string

fun tree_calls :: "'v xml_tree \<Rightarrow> 'v xml_call list" where
  "tree_calls (Elem n attrs ts) =
     StartElement n # map (\<lambda>(a, v). Attribute a v) attrs @ concat (map tree_calls ts) @ [EndElement]"
| "tree_calls (TextNode v) = [Text v]"
| "tree_calls (CDataNode s) = [CData s]"

fun xw_run :: "'v xml_call list \<Rightarrow> 'v xml_writer \<Rightarrow> 'v xml_writer res" where
  "xw_run [] w = Inr w"
| "xw_run (c # cs) w = bind_res (xw_call c w) (xw_run cs)"

text \<open>The document of a tree, as the XML recommendation writes it.\<close>

fun attr_text :: "('v \<Rightarrow> string) \<Rightarrow> (string \<times> 'v) list \<Rightarrow> string" where
  "attr_text enc [] = []"
| "attr_text enc ((a, v) # attrs) = '' '' @ a @ ''='' @ [CHR 0x22] @ quote (enc v) @ [CHR 0x22] @ attr_text enc attrs"

fun tree_text :: "('v \<Rightarrow> string) \<Rightarrow> 'v xml_tree \<Rightarrow> string" where
  "tree_text enc (Elem n attrs ts) =
     ''<'' @ n @ attr_text enc attrs
       @ (if ts = [] then ''/>'' else ''>'' @ concat (map (tree_text enc) ts) @ ''</'' @ n @ ''>'')"
| "tree_text enc (TextNode v) = quote (enc v)"
| "tree_text enc (CDataNode s) = ''<![CDATA['' @ s @ '']]>''"

fun tree_ok :: "'v xml_tree \<Rightarrow> bool" where
  "tree_ok (Elem n attrs ts) \<longleftrightarrow> CHR 0x00 \<notin> set n \<and> list_all tree_ok ts"
| "tree_ok (TextNode v) \<longleftrightarrow> True"
| "tree_ok (CDataNode s) \<longleftrightarrow> \<not> list_ex (\<lambda>i. starts_with '']]'' (drop i (c_str s))) [0..<length (c_str s)]"

lemma xw_run_append: "xw_run (cs @ cs') w = bind_res (xw_run cs w) (xw_run cs')"
proof (induction cs arbitrary: w)
  case (Cons c cs)
  then show ?case by (cases "xw_call c w") simp_all
qed simp

text \<open>The state after writing a node: \<open>out\<close> has been added and the stack is as before.\<close>

definition xw_wrote :: "'v xml_writer \<Rightarrow> string \<Rightarrow> 'v xml_writer \<Rightarrow> bool" where
  "xw_wrote w out w' \<longleftrightarrow> xw_os w' = xw_os (xw_CloseElement w) @ out \<and> xw_elements w' = xw_elements w
     \<and> \<not> xw_bOpenedElement w' \<and> xw_Formatting w' = xw_Formatting w \<and> xw_Encoding w' = xw_Encoding w"

lemma xw_run_one: "xw_run [c] w = xw_call c w"
  by (cases "xw_call c w") simp_all

lemma attr_calls:
  assumes "xw_bOpenedElement w"
  shows "xw_run (map (\<lambda>(a, v). Attribute a v) attrs) w = Inr (xw_put (attr_text (xw_Encoding w) attrs) w)"
  using assms
proof (induction attrs arbitrary: w)
  case (Cons av attrs)
  obtain a v where av: "av = (a, v)" by (cases av)
  show ?case
    using Cons by (simp add: av xw_WriteAttributeString_def xw_WriteQuotedString_def xw_put_def)
qed (simp add: xw_put_def)

lemma xw_wrote_trans:
  "xw_wrote w a w1 \<Longrightarrow> xw_wrote w1 b w2 \<Longrightarrow> xw_wrote w (a @ b) w2"
  by (simp add: xw_wrote_def xw_CloseElement_def)

lemma tree_list_calls:
  assumes "\<And>t w. t \<in> set ts \<Longrightarrow> xw_Formatting w = NoFormatting \<Longrightarrow>
      \<exists>w'. xw_run (tree_calls t) w = Inr w' \<and> xw_wrote w (tree_text (xw_Encoding w) t) w'"
    and "ts \<noteq> []" and "xw_Formatting w = NoFormatting"
  shows "\<exists>w'. xw_run (concat (map tree_calls ts)) w = Inr w'
    \<and> xw_wrote w (concat (map (tree_text (xw_Encoding w)) ts)) w'"
  using assms
proof (induction ts arbitrary: w)
  case (Cons t ts)
  obtain w1 where w1: "xw_run (tree_calls t) w = Inr w1" "xw_wrote w (tree_text (xw_Encoding w) t) w1"
    using Cons.prems(1) [of t w] Cons.prems(3) by auto
  show ?case
  proof (cases ts)
    case Nil
    then show ?thesis using w1 by auto
  next
    case c: (Cons u us)
    have "xw_Formatting w1 = NoFormatting" "xw_Encoding w1 = xw_Encoding w"
      using w1(2) Cons.prems(3) by (simp_all add: xw_wrote_def)
    moreover obtain w2 where "xw_run (concat (map tree_calls ts)) w1 = Inr w2"
      "xw_wrote w1 (concat (map (tree_text (xw_Encoding w1)) ts)) w2"
      using Cons.IH [of w1] Cons.prems(1) c calculation(1) by auto
    ultimately show ?thesis using w1 xw_wrote_trans by (fastforce simp: xw_run_append)
  qed
qed simp

lemma tree_calls_ok:
  "tree_ok t \<Longrightarrow> xw_Formatting w = NoFormatting \<Longrightarrow>
     \<exists>w'. xw_run (tree_calls t) w = Inr w' \<and> xw_wrote w (tree_text (xw_Encoding w) t) w'"
proof (induction t arbitrary: w)
  case (Elem n attrs ts)
  let ?w1 = "xw_WriteStartElement n w"
  let ?w2 = "xw_put (attr_text (xw_Encoding w) attrs) ?w1"
  have n: "c_str n = n" using Elem.prems(1) by (intro c_str_id) simp
  have w1: "xw_bOpenedElement ?w1" "xw_elements ?w1 = n # xw_elements w"
    "xw_os ?w1 = xw_os (xw_CloseElement w) @ ''<'' @ n"
    "xw_Formatting ?w1 = NoFormatting" "xw_Encoding ?w1 = xw_Encoding w"
    using Elem.prems(2) by (simp_all add: xw_defs Let_def n)
  have run: "xw_run (tree_calls (Elem n attrs ts)) w
      = bind_res (xw_run (concat (map tree_calls ts)) ?w2) xw_WriteEndElement"
    using attr_calls [OF w1(1), of attrs] w1(5)
    by (simp add: xw_run_append) (cases "xw_run (concat (map tree_calls ts)) ?w2"; simp add: xw_run_one del: xw_run.simps)
  show ?case
  proof (cases "ts = []")
    case True
    then show ?thesis
      using w1 Elem.prems(2) unfolding run
      by (simp add: xw_WriteEndElement_def Let_def xw_wrote_def xw_put_def xw_CloseElement_def xw_Eol_def)
  next
    case False
    have "xw_Formatting ?w2 = NoFormatting" using w1 by (simp add: xw_put_def)
    then obtain w3 where w3: "xw_run (concat (map tree_calls ts)) ?w2 = Inr w3"
      "xw_wrote ?w2 (concat (map (tree_text (xw_Encoding ?w2)) ts)) w3"
      using tree_list_calls [OF _ False, of ?w2] Elem by (auto simp: list_all_iff)
    then show ?thesis
      using w1 False Elem.prems(2) unfolding run
      by (simp add: xw_WriteEndElement_def Let_def xw_wrote_def xw_put_def xw_CloseElement_def
          xw_Eol_def xw_Indent_def)
  qed
qed (simp_all add: xw_wrote_def xw_defs)

text \<open>
  C27: writing a tree with the writer's operations (start tag, attributes, children, end tag) and no
  indentation never fails and appends the document of the tree, escaped, with every tag closed in
  order and empty elements in their short form; the stack of open elements is as before.
\<close>

theorem xml_document:
  assumes "tree_ok t" and "xw_Formatting w = NoFormatting"
  shows "\<exists>w'. xw_run (tree_calls t) w = Inr w' \<and> \<not> xw_bOpenedElement w' \<and> xw_elements w' = xw_elements w
    \<and> xw_os w' = xw_os (xw_CloseElement w) @ tree_text (xw_Encoding w) t"
  using tree_calls_ok [OF assms] by (auto simp: xw_wrote_def)

lemma xml_document_witness:
  "\<exists>w'. xw_run (tree_calls (Elem ''a'' [(''k'', ''v'')] [Elem ''b'' [] [], TextNode ''x<y''])) (XmlTextWriter id []) = Inr w'
     \<and> xw_os w' = tree_text id (Elem ''a'' [(''k'', ''v'')] [Elem ''b'' [] [], TextNode ''x<y''])"
  using xml_document [of "Elem ''a'' [(''k'', ''v'')] [Elem ''b'' [] [], TextNode ''x<y'']" "XmlTextWriter id []"]
  by (auto simp: XmlTextWriter_def xw_CloseElement_def)

text \<open>
  a processing instruction is written without closing the start tag before it, so after
  \<open>WriteStartElement\<close> it lands inside the tag; every other operation that writes content closes it.
\<close>

theorem xml_instruction_in_tag:
  assumes "xw_Formatting w = NoFormatting"
  shows "xw_os (xw_WriteProcessingInstruction p s (xw_WriteStartElement n w))
      = xw_os (xw_CloseElement w) @ ''<'' @ n @ ''<?'' @ p @ '' '' @ s @ ''?>''"
    (is "?l = ?r")
  using assms by (simp add: xw_defs Let_def)

lemma xml_instruction_in_tag_witness:
  "xw_os (xw_WriteProcessingInstruction ''p'' ''x'' (xw_WriteStartElement ''a'' (XmlTextWriter id []))) = ''<a<?p x?>''"
  using xml_instruction_in_tag [of "XmlTextWriter id []" "''p''" "''x''" "''a''"]
  by (simp add: XmlTextWriter_def xw_CloseElement_def)

end
