(* ===== verification/XmlReader.thy ===== *)
theory XmlReader
  imports XmlText
begin

text \<open>
  XML readers: the operations of the class \<open>XmlReader\<close> (\<open>src/xml/xml-reader.cpp\<close>) over the virtual
  functions of a derived class, and the class \<open>XmlNodeReader\<close> (\<open>src/xml/xml-node-reader.cpp\<close>), a
  cursor over the nodes of a document.  The locale \<open>event_reader\<close> says what the base class needs: a
  reader that walks through a list of events.  The node reader is one; its events are the
  document-order traversal of the start node.
\<close>

section \<open>The base class\<close>

datatype XmlNodeType =
    XNone | XElement | XAttribute | XText | XCDATA | XEntityReference | XEntity | XProcessingInstruction
  | XComment | XDocument | XDocumentType | XDocumentFragment | XNotation | XWhitespace
  | XSignificantWhitespace | XEndElement | XEndEntity | XXmlDeclaration

datatype ReadState = RInitial | RInteractive | RError | REndOfFile | RClosed

text \<open>The virtual functions; \<open>Skip\<close> has a loop and is partial.\<close>

record 's xml_reader_class =
  rd_Read :: "'s \<Rightarrow> bool \<times> 's"
  rd_MoveToElement :: "'s \<Rightarrow> bool \<times> 's"
  rd_Skip :: "'s \<Rightarrow> 's option"
  rd_NodeType :: "'s \<Rightarrow> XmlNodeType"
  rd_Name :: "'s \<Rightarrow> string"
  rd_Value :: "'s \<Rightarrow> string"
  rd_Depth :: "'s \<Rightarrow> nat"
  rd_IsEmptyElement :: "'s \<Rightarrow> bool"
  rd_ReadState :: "'s \<Rightarrow> ReadState"

definition is_content :: "XmlNodeType \<Rightarrow> bool" where
  "is_content nt \<longleftrightarrow> nt = XText \<or> nt = XCDATA \<or> nt = XElement \<or> nt = XEndElement \<or> nt = XEntityReference
     \<or> nt = XEndEntity"

definition is_textual :: "XmlNodeType \<Rightarrow> bool" where
  "is_textual nt \<longleftrightarrow> nt = XText \<or> nt = XCDATA \<or> nt = XWhitespace \<or> nt = XSignificantWhitespace"

text \<open>\<open>None\<close> is a loop that does not end.\<close>

partial_function (option) MoveToContent :: "'s xml_reader_class \<Rightarrow> 's \<Rightarrow> (XmlNodeType \<times> 's) option" where
  "MoveToContent vt s =
     (if is_content (rd_NodeType vt s) then Some (rd_NodeType vt s, s)
      else case rd_Read vt s of
             (go, s') \<Rightarrow> if go then MoveToContent vt s' else Some (XNone, s'))"

definition IsStartElement :: "'s xml_reader_class \<Rightarrow> 's \<Rightarrow> (bool \<times> 's) option" where
  "IsStartElement vt s = map_option (\<lambda>(nt, s'). (nt = XElement, s')) (MoveToContent vt s)"

definition IsStartElement_name :: "'s xml_reader_class \<Rightarrow> string \<Rightarrow> 's \<Rightarrow> (bool \<times> 's) option" where
  "IsStartElement_name vt name s =
     map_option (\<lambda>(b, s'). (b \<and> rd_Name vt s' = name, s')) (IsStartElement vt s)"

definition ReadStartElement :: "'s xml_reader_class \<Rightarrow> 's \<Rightarrow> (unit res \<times> 's) option" where
  "ReadStartElement vt s =
     map_option (\<lambda>(b, s'). if \<not> b then (Inl XMLError, s') else (Inr (), snd (rd_Read vt s'))) (IsStartElement vt s)"

definition ReadStartElement_name :: "'s xml_reader_class \<Rightarrow> string \<Rightarrow> 's \<Rightarrow> (unit res \<times> 's) option" where
  "ReadStartElement_name vt name s =
     map_option (\<lambda>(b, s'). if \<not> b then (Inl XMLError, s') else (Inr (), snd (rd_Read vt s')))
       (IsStartElement_name vt name s)"

definition ReadEndElement :: "'s xml_reader_class \<Rightarrow> 's \<Rightarrow> unit res \<times> 's" where
  "ReadEndElement vt s =
     (if rd_NodeType vt s \<noteq> XEndElement then (Inl XMLError, s) else (Inr (), snd (rd_Read vt s)))"

partial_function (option) ReadString_element ::
    "'s xml_reader_class \<Rightarrow> 's \<Rightarrow> string \<Rightarrow> (string \<times> 's) option" where
  "ReadString_element vt s r =
     (let s' = snd (rd_Read vt s)
      in if is_textual (rd_NodeType vt s') then ReadString_element vt s' (r @ rd_Value vt s') else Some (r, s'))"

partial_function (option) ReadString_text ::
    "'s xml_reader_class \<Rightarrow> 's \<Rightarrow> string \<Rightarrow> (string \<times> 's) option" where
  "ReadString_text vt s r =
     (if is_textual (rd_NodeType vt s) then ReadString_text vt (snd (rd_Read vt s)) (r @ rd_Value vt s)
      else Some (r, s))"

definition ReadString :: "'s xml_reader_class \<Rightarrow> 's \<Rightarrow> (string \<times> 's) option" where
  "ReadString vt s =
     (let s1 = snd (rd_MoveToElement vt s)
      in if rd_NodeType vt s1 = XElement
         then if rd_IsEmptyElement vt s1 then Some ([], s1) else ReadString_element vt s1 []
         else if is_textual (rd_NodeType vt s1) then ReadString_text vt s1 []
         else Some ([], s1))"

definition ReadElementString :: "'s xml_reader_class \<Rightarrow> 's \<Rightarrow> (string res \<times> 's) option" where
  "ReadElementString vt s =
     (let bIsEmpty = rd_IsEmptyElement vt s
      in case ReadStartElement vt s of
           None \<Rightarrow> None
         | Some (Inl e, s1) \<Rightarrow> Some (Inl e, s1)
         | Some (Inr _, s1) \<Rightarrow>
             if bIsEmpty then Some (Inr [], s1)
             else case ReadString vt s1 of
                    None \<Rightarrow> None
                  | Some (r, s2) \<Rightarrow>
                      (case ReadEndElement vt s2 of
                         (Inl e, s3) \<Rightarrow> Some (Inl e, s3)
                       | (Inr _, s3) \<Rightarrow> Some (Inr r, s3)))"

definition ReadElementString_name :: "'s xml_reader_class \<Rightarrow> string \<Rightarrow> 's \<Rightarrow> (string res \<times> 's) option" where
  "ReadElementString_name vt name s =
     (case IsStartElement_name vt name s of
        None \<Rightarrow> None
      | Some (b, s1) \<Rightarrow> if \<not> b then Some (Inl XMLError, s1) else ReadElementString vt s1)"

partial_function (option) ReadToDescendant_loop ::
    "'s xml_reader_class \<Rightarrow> string \<Rightarrow> nat \<Rightarrow> 's \<Rightarrow> (bool \<times> 's) option" where
  "ReadToDescendant_loop vt name depth s =
     (case rd_Read vt s of
        (go, s') \<Rightarrow>
          if go \<and> depth < rd_Depth vt s'
          then if rd_Name vt s' = name then Some (True, s') else ReadToDescendant_loop vt name depth s'
          else Some (False, s'))"

definition ReadToDescendant :: "'s xml_reader_class \<Rightarrow> string \<Rightarrow> 's \<Rightarrow> (bool \<times> 's) option" where
  "ReadToDescendant vt name s =
     (case (if rd_ReadState vt s = RInitial
            then case MoveToContent vt s of None \<Rightarrow> None | Some (_, s1) \<Rightarrow> IsStartElement_name vt name s1
            else Some (False, s)) of
        None \<Rightarrow> None
      | Some (found, s2) \<Rightarrow>
          if found then Some (True, s2)
          else if rd_NodeType vt s2 = XElement \<and> \<not> rd_IsEmptyElement vt s2
          then ReadToDescendant_loop vt name (rd_Depth vt s2) s2
          else Some (False, s2))"

definition XmlReader_get_Eof :: "'s xml_reader_class \<Rightarrow> 's \<Rightarrow> bool" where
  "XmlReader_get_Eof vt s \<longleftrightarrow> rd_ReadState vt s = REndOfFile"

partial_function (option) ReadToNextSibling_loop ::
    "'s xml_reader_class \<Rightarrow> string \<Rightarrow> nat \<Rightarrow> 's \<Rightarrow> (bool \<times> 's) option" where
  "ReadToNextSibling_loop vt name depth s =
     (case rd_Skip vt s of
        None \<Rightarrow> None
      | Some s' \<Rightarrow>
          if rd_Depth vt s' < depth then Some (False, s')
          else if rd_NodeType vt s' = XElement \<and> rd_Name vt s' = name then Some (True, s')
          else ReadToNextSibling_loop vt name depth s')"

definition ReadToNextSibling :: "'s xml_reader_class \<Rightarrow> string \<Rightarrow> 's \<Rightarrow> (bool \<times> 's) option" where
  "ReadToNextSibling vt name s =
     (let s1 = snd (rd_MoveToElement vt s) in ReadToNextSibling_loop vt name (rd_Depth vt s1) s1)"

partial_function (option) ReadToFollowing :: "'s xml_reader_class \<Rightarrow> string \<Rightarrow> 's \<Rightarrow> (bool \<times> 's) option" where
  "ReadToFollowing vt name s =
     (case rd_Read vt s of
        (go, s') \<Rightarrow>
          if \<not> go then Some (False, s')
          else if rd_NodeType vt s' = XElement \<and> rd_Name vt s' = name then Some (True, s')
          else ReadToFollowing vt name s')"

declare MoveToContent.simps [code] ReadString_element.simps [code] ReadString_text.simps [code]
  ReadToDescendant_loop.simps [code] ReadToNextSibling_loop.simps [code] ReadToFollowing.simps [code]

section \<open>Readers of events\<close>

datatype xml_event =
  Event (ev_type: XmlNodeType) (ev_name: string) (ev_value: string) (ev_empty: bool) (ev_depth: nat)

text \<open>\<open>repr s es\<close>: the reader in state \<open>s\<close> is at the first event of \<open>es\<close> and the others follow.\<close>

locale event_reader =
  fixes vt :: "'s xml_reader_class" and repr :: "'s \<Rightarrow> xml_event list \<Rightarrow> bool"
  assumes at_end: "repr s [] \<Longrightarrow> rd_NodeType vt s = XNone \<and> rd_Read vt s = (False, s)"
    and at_event: "repr s (e # es) \<Longrightarrow> rd_NodeType vt s = ev_type e \<and> rd_Name vt s = ev_name e
      \<and> rd_Value vt s = ev_value e \<and> rd_IsEmptyElement vt s = ev_empty e \<and> rd_Depth vt s = ev_depth e"
    and at_node: "repr s es \<Longrightarrow> snd (rd_MoveToElement vt s) = s"
    and next_event: "repr s (e # es) \<Longrightarrow> \<exists>s'. rd_Read vt s = (es \<noteq> [], s') \<and> repr s' es"
begin

lemma MoveToContent_events:
  "repr s es \<Longrightarrow> \<exists>s'. MoveToContent vt s =
       Some (case dropWhile (\<lambda>e. \<not> is_content (ev_type e)) es of [] \<Rightarrow> XNone | e # _ \<Rightarrow> ev_type e, s')
     \<and> repr s' (dropWhile (\<lambda>e. \<not> is_content (ev_type e)) es)"
proof (induction es arbitrary: s)
  case Nil
  then show ?case using at_end [OF Nil] by (subst MoveToContent.simps) (auto simp: is_content_def)
next
  case (Cons e es)
  obtain s1 where s1: "rd_Read vt s = (es \<noteq> [], s1)" "repr s1 es" using next_event [OF Cons.prems] by blast
  show ?case
  proof (cases "is_content (ev_type e)")
    case True
    then show ?thesis
      using at_event [OF Cons.prems] Cons.prems by (subst MoveToContent.simps) auto
  next
    case False
    have m: "MoveToContent vt s = (if es = [] then Some (XNone, s1) else MoveToContent vt s1)"
      using at_event [OF Cons.prems] False s1(1) by (subst MoveToContent.simps) simp
    then show ?thesis using Cons.IH [OF s1(2)] False s1(2) by (cases "es = []") auto
  qed
qed

lemma ReadString_text_events:
  "repr s es \<Longrightarrow> \<exists>s'. ReadString_text vt s r =
       Some (r @ concat (map ev_value (takeWhile (\<lambda>e. is_textual (ev_type e)) es)), s')
     \<and> repr s' (dropWhile (\<lambda>e. is_textual (ev_type e)) es)"
proof (induction es arbitrary: s r)
  case Nil
  then show ?case using at_end [OF Nil] by (subst ReadString_text.simps) (auto simp: is_textual_def)
next
  case (Cons e es)
  obtain s1 where s1: "rd_Read vt s = (es \<noteq> [], s1)" "repr s1 es" using next_event [OF Cons.prems] by blast
  show ?case
    using at_event [OF Cons.prems] Cons.IH [OF s1(2), of "r @ ev_value e"] s1 Cons.prems
    by (subst ReadString_text.simps) auto
qed

text \<open>An element with text only is read as the concatenation of its text.\<close>

lemma ReadElementString_events:
  assumes "repr s (e # ts @ x # es)" and "ev_type e = XElement" and "\<not> ev_empty e"
    and "list_all (\<lambda>t. is_textual (ev_type t)) ts" and "ev_type x = XEndElement"
  shows "\<exists>s'. ReadElementString vt s = Some (Inr (concat (map ev_value ts)), s') \<and> repr s' es"
proof -
  obtain s1 where s1: "rd_Read vt s = (True, s1)" "repr s1 (ts @ x # es)"
    using next_event [OF assms(1)] by auto
  have st: "ReadStartElement vt s = Some (Inr (), s1)"
    using at_event [OF assms(1)] assms(2) s1(1)
    by (simp add: ReadStartElement_def IsStartElement_def MoveToContent.simps is_content_def)
  have tx: "\<not> is_textual (ev_type x)" "\<And>t. t \<in> set ts \<Longrightarrow> is_textual (ev_type t)"
    using assms(4,5) by (auto simp: is_textual_def list_all_iff)
  have "\<exists>s2. ReadString vt s1 = Some (concat (map ev_value ts), s2) \<and> repr s2 (x # es)"
  proof (cases ts)
    case Nil
    then show ?thesis
      using s1(2) at_event [of s1 x es] at_node [OF s1(2)] assms(5)
      by (auto simp: ReadString_def Let_def is_textual_def)
  next
    case (Cons t us)
    have "rd_NodeType vt s1 = ev_type t" using at_event [of s1 t] s1(2) Cons by auto
    moreover have "is_textual (ev_type t)" "ev_type t \<noteq> XElement" using tx(2) [of t] Cons by (auto simp: is_textual_def)
    ultimately have "ReadString vt s1 = ReadString_text vt s1 []"
      using at_node [OF s1(2)] by (simp add: ReadString_def Let_def)
    moreover have "takeWhile (\<lambda>e. is_textual (ev_type e)) (ts @ x # es) = ts"
      "dropWhile (\<lambda>e. is_textual (ev_type e)) (ts @ x # es) = x # es"
      using tx by simp_all
    ultimately show ?thesis using ReadString_text_events [OF s1(2), of "[]"] by simp
  qed
  then obtain s2 where s2: "ReadString vt s1 = Some (concat (map ev_value ts), s2)" "repr s2 (x # es)" by blast
  obtain s3 where s3: "snd (rd_Read vt s2) = s3" "repr s3 es" using next_event [OF s2(2)] by auto
  show ?thesis
    using at_event [OF assms(1)] at_event [OF s2(2)] assms(3,5) s2 s3
    by (simp add: ReadElementString_def st ReadEndElement_def)
qed

lemma ReadToFollowing_events:
  "repr s es \<Longrightarrow> \<exists>s'. ReadToFollowing vt name s =
       Some (dropWhile (\<lambda>e. \<not> (ev_type e = XElement \<and> ev_name e = name)) (tl es) \<noteq> [], s')
     \<and> repr s' (dropWhile (\<lambda>e. \<not> (ev_type e = XElement \<and> ev_name e = name)) (tl es))"
proof (induction es arbitrary: s)
  case Nil
  then show ?case using at_end [OF Nil] by (subst ReadToFollowing.simps) auto
next
  case (Cons e es)
  obtain s1 where s1: "rd_Read vt s = (es \<noteq> [], s1)" "repr s1 es" using next_event [OF Cons.prems] by blast
  show ?case
  proof (cases es)
    case Nil
    then show ?thesis using s1 by (subst ReadToFollowing.simps) auto
  next
    case c: (Cons e' es')
    have f: "ReadToFollowing vt name s =
        (if ev_type e' = XElement \<and> ev_name e' = name then Some (True, s1) else ReadToFollowing vt name s1)"
      using s1 at_event [of s1 e' es'] c by (subst ReadToFollowing.simps) auto
    show ?thesis using Cons.IH [OF s1(2)] s1(2) by (auto simp: f c)
  qed
qed

end


section \<open>The node reader\<close>

text \<open>
  A document is a tree of nodes; a node of it is named by its path from the start node, an
  attribute by its owner and its number.  Nodes are compared by identity, which paths give.
\<close>

datatype xnode =
  XNode (xn_type: XmlNodeType) (xn_name: string) (xn_value: string) (xn_empty: bool)
    (xn_attrs: "(string \<times> string) list") (xn_children: "xnode list")

datatype nref = NodeRef "nat list" | AttrRef "nat list" nat

record node_reader =
  nr_start :: xnode
  nr_cur :: "nref option"
  nr_linked :: "nat list option"
  nr_depth :: nat
  nr_state :: ReadState
  nr_bEndElement :: bool

definition XmlNodeReader :: "xnode \<Rightarrow> node_reader" where
  "XmlNodeReader t = \<lparr>nr_start = t, nr_cur = None, nr_linked = None, nr_depth = 0, nr_state = RInitial,
     nr_bEndElement = False\<rparr>"

fun subnode :: "xnode \<Rightarrow> nat list \<Rightarrow> xnode option" where
  "subnode t [] = Some t"
| "subnode t (i # p) = (if i < length (xn_children t) then subnode (xn_children t ! i) p else None)"

definition nr_node :: "node_reader \<Rightarrow> nat list \<Rightarrow> xnode" where
  "nr_node s p = (case subnode (nr_start s) p of Some u \<Rightarrow> u | None \<Rightarrow> nr_start s)"

definition ref_type :: "node_reader \<Rightarrow> nref \<Rightarrow> XmlNodeType" where
  "ref_type s r = (case r of NodeRef p \<Rightarrow> xn_type (nr_node s p) | AttrRef _ _ \<Rightarrow> XAttribute)"

definition is_linked :: "node_reader \<Rightarrow> nref \<Rightarrow> bool" where
  "is_linked s r \<longleftrightarrow> (case nr_linked s of Some p \<Rightarrow> r = NodeRef p | None \<Rightarrow> False)"

definition nr_get_Depth :: "node_reader \<Rightarrow> nat" where
  "nr_get_Depth s =
     (case nr_cur s of
        None \<Rightarrow> 0
      | Some r \<Rightarrow> if is_linked s r then nr_depth s
                  else if ref_type s r = XAttribute then nr_depth s + 1 else nr_depth s + 2)"

definition nr_get_Eof :: "node_reader \<Rightarrow> bool" where
  "nr_get_Eof s \<longleftrightarrow> nr_state s = REndOfFile \<or> nr_state s = RError"

definition nr_get_NodeType :: "node_reader \<Rightarrow> XmlNodeType" where
  "nr_get_NodeType s =
     (case nr_cur s of None \<Rightarrow> XNone | Some r \<Rightarrow> if nr_bEndElement s then XEndElement else ref_type s r)"

definition type_has_value :: "XmlNodeType \<Rightarrow> bool" where
  "type_has_value nt \<longleftrightarrow> nt \<notin> {XElement, XEntityReference, XDocument, XDocumentFragment, XNotation, XEndElement,
     XEndEntity}"

definition nr_get_HasValue :: "node_reader \<Rightarrow> bool" where
  "nr_get_HasValue s \<longleftrightarrow> type_has_value (nr_get_NodeType s)"

definition ref_value :: "node_reader \<Rightarrow> nref \<Rightarrow> string" where
  "ref_value s r = (case r of NodeRef p \<Rightarrow> xn_value (nr_node s p) | AttrRef p i \<Rightarrow> snd (xn_attrs (nr_node s p) ! i))"

definition nr_get_Value :: "node_reader \<Rightarrow> string" where
  "nr_get_Value s =
     (case nr_cur s of None \<Rightarrow> [] | Some r \<Rightarrow> if nr_get_HasValue s then ref_value s r else [])"

definition type_has_name :: "XmlNodeType \<Rightarrow> bool" where
  "type_has_name nt \<longleftrightarrow> nt \<in> {XAttribute, XDocumentType, XElement, XEntityReference, XProcessingInstruction,
     XXmlDeclaration}"

definition ref_name :: "node_reader \<Rightarrow> nref \<Rightarrow> string" where
  "ref_name s r = (case r of NodeRef p \<Rightarrow> xn_name (nr_node s p) | AttrRef p i \<Rightarrow> fst (xn_attrs (nr_node s p) ! i))"

definition nr_get_Name :: "node_reader \<Rightarrow> string" where
  "nr_get_Name s =
     (case nr_cur s of None \<Rightarrow> [] | Some r \<Rightarrow> if type_has_name (ref_type s r) then ref_name s r else [])"

definition nr_IsEmptyElement :: "node_reader \<Rightarrow> bool" where
  "nr_IsEmptyElement s \<longleftrightarrow>
     (case nr_cur s of
        Some (NodeRef p) \<Rightarrow> xn_type (nr_node s p) = XElement \<and> xn_empty (nr_node s p)
      | _ \<Rightarrow> False)"

definition linked_attrs :: "node_reader \<Rightarrow> (string \<times> string) list" where
  "linked_attrs s = (case nr_linked s of None \<Rightarrow> [] | Some p \<Rightarrow> xn_attrs (nr_node s p))"

definition nr_get_AttributeCount :: "node_reader \<Rightarrow> nat" where
  "nr_get_AttributeCount s =
     (if nr_state s \<noteq> RInteractive \<or> nr_bEndElement s \<or> nr_cur s = None then 0 else length (linked_attrs s))"

definition nr_GetAttribute :: "node_reader \<Rightarrow> nat \<Rightarrow> string option" where
  "nr_GetAttribute s idx =
     (if nr_bEndElement s \<or> nr_cur s = None then None
      else if idx < length (linked_attrs s) then Some (snd (linked_attrs s ! idx)) else None)"

definition nr_GetAttribute_name :: "node_reader \<Rightarrow> string \<Rightarrow> string option" where
  "nr_GetAttribute_name s name =
     (if nr_bEndElement s \<or> nr_cur s = None then None else map_of (linked_attrs s) name)"

definition nr_MoveToElement :: "node_reader \<Rightarrow> bool \<times> node_reader" where
  "nr_MoveToElement s =
     (case nr_cur s of
        None \<Rightarrow> (False, s)
      | Some r \<Rightarrow> (\<not> is_linked s r, s\<lparr>nr_cur := map_option NodeRef (nr_linked s)\<rparr>))"

definition nr_MoveToFirstAttribute :: "node_reader \<Rightarrow> bool \<times> node_reader" where
  "nr_MoveToFirstAttribute s =
     (case (nr_cur s, nr_linked s) of
        (Some _, Some p) \<Rightarrow>
          if xn_attrs (nr_node s p) \<noteq> [] then (True, s\<lparr>nr_cur := Some (AttrRef p 0)\<rparr>) else (False, s)
      | _ \<Rightarrow> (False, s))"

definition nr_MoveToNextAttribute :: "node_reader \<Rightarrow> bool \<times> node_reader" where
  "nr_MoveToNextAttribute s =
     (case nr_cur s of
        None \<Rightarrow> (False, s)
      | Some (NodeRef _) \<Rightarrow> nr_MoveToFirstAttribute s
      | Some (AttrRef p i) \<Rightarrow>
          if i + 1 < length (xn_attrs (nr_node s p)) then (True, s\<lparr>nr_cur := Some (AttrRef p (i + 1))\<rparr>)
          else (False, s))"

text \<open>Navigation from a node: the first child, the next sibling and the parent.\<close>

definition first_child :: "node_reader \<Rightarrow> nat list \<Rightarrow> nat list option" where
  "first_child s p = (if xn_children (nr_node s p) \<noteq> [] then Some (p @ [0]) else None)"

definition next_sibling :: "node_reader \<Rightarrow> nat list \<Rightarrow> nat list option" where
  "next_sibling s p =
     (if p \<noteq> [] \<and> last p + 1 < length (xn_children (nr_node s (butlast p))) then Some (butlast p @ [last p + 1])
      else None)"

definition nr_at :: "node_reader \<Rightarrow> nat list option \<Rightarrow> node_reader" where
  "nr_at s p = s\<lparr>nr_cur := map_option NodeRef p, nr_linked := p\<rparr>"

text \<open>
  \<open>Read\<close>.  The start node is the empty path; the current node is one at its place below it (a null
  current node while reading is not reachable).
\<close>

definition nr_Read :: "node_reader \<Rightarrow> bool \<times> node_reader" where
  "nr_Read s =
     (case nr_state s of
        REndOfFile \<Rightarrow> (False, s) | RError \<Rightarrow> (False, s) | RClosed \<Rightarrow> (False, s)
      | RInitial \<Rightarrow> (True, (nr_at s (Some []))\<lparr>nr_state := RInteractive\<rparr>)
      | RInteractive \<Rightarrow>
          (let s = snd (nr_MoveToElement s)
           in case nr_cur s of
                Some (NodeRef p) \<Rightarrow>
                  (case (if \<not> nr_bEndElement s then first_child s p else None) of
                     Some c \<Rightarrow> (True, (nr_at s (Some c))\<lparr>nr_depth := nr_depth s + 1\<rparr>)
                   | None \<Rightarrow>
                       if p = [] then
                         (let e = (\<not> nr_IsEmptyElement s \<and> \<not> nr_bEndElement s)
                          in if e then (True, (nr_at s (Some p))\<lparr>nr_bEndElement := True\<rparr>)
                             else (False, (nr_at s None)\<lparr>nr_bEndElement := False, nr_state := REndOfFile\<rparr>))
                       else if \<not> nr_bEndElement s \<and> \<not> nr_IsEmptyElement s \<and> xn_type (nr_node s p) = XElement
                       then (True, s\<lparr>nr_bEndElement := True\<rparr>)
                       else case next_sibling s p of
                              Some n \<Rightarrow> (True, (nr_at s (Some n))\<lparr>nr_bEndElement := False\<rparr>)
                            | None \<Rightarrow>
                                let parent = (if xn_type (nr_node s p) \<noteq> XDocument then Some (butlast p) else None)
                                in if parent \<noteq> None \<and> parent \<noteq> Some []
                                   then (True, (nr_at s parent)\<lparr>nr_bEndElement := True, nr_depth := nr_depth s - 1\<rparr>)
                                   else (False, (nr_at s None)\<lparr>nr_bEndElement := False, nr_state := REndOfFile\<rparr>))
              | _ \<Rightarrow> (False, s)))"

partial_function (option) nr_Skip_loop :: "nat \<Rightarrow> node_reader \<Rightarrow> node_reader option" where
  "nr_Skip_loop depth s =
     (case nr_Read s of (go, s') \<Rightarrow> if go \<and> depth < nr_get_Depth s' then nr_Skip_loop depth s' else Some s')"

declare nr_Skip_loop.simps [code]

definition nr_Skip :: "node_reader \<Rightarrow> node_reader option" where
  "nr_Skip s =
     (if nr_state s \<noteq> RInteractive then Some s
      else let s1 = snd (nr_MoveToElement s)
           in if nr_get_NodeType s1 \<noteq> XElement \<or> nr_IsEmptyElement s1 then Some (snd (nr_Read s1))
              else map_option (\<lambda>s2. if nr_get_NodeType s2 = XEndElement then snd (nr_Read s2) else s2)
                     (nr_Skip_loop (nr_get_Depth s1) s1))"

definition nr_Close :: "node_reader \<Rightarrow> node_reader" where
  "nr_Close s = s\<lparr>nr_cur := None, nr_state := RClosed\<rparr>"

definition XmlNodeReader_class :: "node_reader xml_reader_class" where
  "XmlNodeReader_class =
     \<lparr>rd_Read = nr_Read, rd_MoveToElement = nr_MoveToElement, rd_Skip = nr_Skip, rd_NodeType = nr_get_NodeType,
      rd_Name = nr_get_Name, rd_Value = nr_get_Value, rd_Depth = nr_get_Depth,
      rd_IsEmptyElement = nr_IsEmptyElement, rd_ReadState = nr_state\<rparr>"


section \<open>The traversal\<close>

definition node_ev :: "nat \<Rightarrow> xnode \<Rightarrow> xml_event" where
  "node_ev d u = Event (xn_type u) (if type_has_name (xn_type u) then xn_name u else [])
     (if type_has_value (xn_type u) then xn_value u else []) (xn_type u = XElement \<and> xn_empty u) d"

definition end_ev :: "nat \<Rightarrow> xnode \<Rightarrow> xml_event" where
  "end_ev d u = Event XEndElement (if type_has_name (xn_type u) then xn_name u else []) []
     (xn_type u = XElement \<and> xn_empty u) d"

definition has_end :: "xnode \<Rightarrow> bool" where
  "has_end u \<longleftrightarrow> xn_children u \<noteq> [] \<or> xn_type u = XElement \<and> \<not> xn_empty u"

fun node_events :: "nat \<Rightarrow> xnode \<Rightarrow> xml_event list" where
  "node_events d (XNode ty n v em at ch) =
     node_ev d (XNode ty n v em at ch) # concat (map (node_events (Suc d)) ch)
       @ (if has_end (XNode ty n v em at ch) then [end_ev d (XNode ty n v em at ch)] else [])"

text \<open>The start node: its end is reported only if it has no children.\<close>

definition start_events :: "xnode \<Rightarrow> xml_event list" where
  "start_events u = node_ev 0 u #
     (if xn_children u = [] then if xn_type u = XElement \<and> xn_empty u then [] else [end_ev 0 u]
      else concat (map (node_events 1) (xn_children u)))"

fun no_document :: "xnode \<Rightarrow> bool" where
  "no_document (XNode ty n v em at ch) \<longleftrightarrow> ty \<noteq> XDocument \<and> list_all no_document ch"

definition ev_of :: "node_reader \<Rightarrow> xml_event" where
  "ev_of s = Event (nr_get_NodeType s) (nr_get_Name s) (nr_get_Value s) (nr_IsEmptyElement s) (nr_get_Depth s)"

inductive nr_repr :: "node_reader \<Rightarrow> xml_event list \<Rightarrow> bool" where
  nr_eof: "nr_state s = REndOfFile \<Longrightarrow> nr_cur s = None \<Longrightarrow> nr_repr s []"
| nr_ev: "nr_state s = RInteractive \<Longrightarrow> nr_cur s = map_option NodeRef (nr_linked s) \<Longrightarrow> nr_linked s \<noteq> None \<Longrightarrow>
    nr_Read s = (es \<noteq> [], s') \<Longrightarrow> nr_repr s' es \<Longrightarrow> nr_repr s (ev_of s # es)"

inductive_cases nr_repr_NilE: "nr_repr s []"
inductive_cases nr_repr_ConsE: "nr_repr s (e # es)"

interpretation node_reader: event_reader XmlNodeReader_class nr_repr
proof
  fix s e es
  show "nr_repr s [] \<Longrightarrow> rd_NodeType XmlNodeReader_class s = XNone \<and> rd_Read XmlNodeReader_class s = (False, s)"
    by (erule nr_repr_NilE) (simp add: XmlNodeReader_class_def nr_get_NodeType_def nr_Read_def)
  show "nr_repr s (e # es) \<Longrightarrow> rd_NodeType XmlNodeReader_class s = ev_type e \<and>
      rd_Name XmlNodeReader_class s = ev_name e \<and> rd_Value XmlNodeReader_class s = ev_value e \<and>
      rd_IsEmptyElement XmlNodeReader_class s = ev_empty e \<and> rd_Depth XmlNodeReader_class s = ev_depth e"
    by (erule nr_repr_ConsE) (simp add: XmlNodeReader_class_def ev_of_def)
  show "nr_repr s es \<Longrightarrow> snd (rd_MoveToElement XmlNodeReader_class s) = s"
    by (cases rule: nr_repr.cases, assumption) (auto simp: XmlNodeReader_class_def nr_MoveToElement_def)
  show "nr_repr s (e # es) \<Longrightarrow> \<exists>s'. rd_Read XmlNodeReader_class s = (es \<noteq> [], s') \<and> nr_repr s' es"
    by (erule nr_repr_ConsE) (auto simp: XmlNodeReader_class_def)
qed

definition at_node :: "xnode \<Rightarrow> nat list \<Rightarrow> bool \<Rightarrow> nat \<Rightarrow> node_reader" where
  "at_node t p e d = \<lparr>nr_start = t, nr_cur = Some (NodeRef p), nr_linked = Some p, nr_depth = d,
     nr_state = RInteractive, nr_bEndElement = e\<rparr>"

definition at_eof :: "xnode \<Rightarrow> nat \<Rightarrow> node_reader" where
  "at_eof t d = \<lparr>nr_start = t, nr_cur = None, nr_linked = None, nr_depth = d, nr_state = REndOfFile,
     nr_bEndElement = False\<rparr>"

lemma at_node_MoveToElement [simp]: "nr_MoveToElement (at_node t p e d) = (False, at_node t p e d)"
  by (simp add: nr_MoveToElement_def at_node_def is_linked_def)

lemma subnode_append: "subnode t (p @ q) = (case subnode t p of Some u \<Rightarrow> subnode u q | None \<Rightarrow> None)"
  by (induction t p rule: subnode.induct) auto

lemma at_node_node: "subnode t p = Some u \<Longrightarrow> nr_node (at_node t p' e d) p = u"
  by (simp add: nr_node_def at_node_def)

lemma at_node_fields [simp]:
  "nr_state (at_node t p e d) = RInteractive" "nr_cur (at_node t p e d) = Some (NodeRef p)"
  "nr_linked (at_node t p e d) = Some p" "nr_bEndElement (at_node t p e d) = e" "nr_depth (at_node t p e d) = d"
  by (simp_all add: at_node_def)

lemma nr_at_at_node [simp]:
  "nr_at (at_node t p e d) (Some q) = at_node t q e d" "nr_at (at_node t p e d) None\<lparr>nr_bEndElement := False, nr_state := REndOfFile\<rparr> = at_eof t d"
  "at_node t p e d\<lparr>nr_bEndElement := e'\<rparr> = at_node t p e' d" "at_node t p e d\<lparr>nr_depth := d'\<rparr> = at_node t p e d'"
  by (simp_all add: at_node_def nr_at_def at_eof_def)

lemma ev_of_at_node:
  assumes "subnode t p = Some u"
  shows "ev_of (at_node t p False d) = node_ev d u" "ev_of (at_node t p True d) = end_ev d u"
  using at_node_node [OF assms]
  by (simp_all add: ev_of_def node_ev_def end_ev_def nr_get_NodeType_def ref_type_def nr_get_Name_def ref_name_def
      nr_get_Value_def nr_get_HasValue_def ref_value_def nr_IsEmptyElement_def nr_get_Depth_def is_linked_def
      type_has_value_def)

lemma at_node_IsEmpty:
  "subnode t p = Some u \<Longrightarrow> nr_IsEmptyElement (at_node t p e d) \<longleftrightarrow> xn_type u = XElement \<and> xn_empty u"
  by (simp add: nr_IsEmptyElement_def at_node_node)

text \<open>The moves of \<open>Read\<close>.\<close>

lemma Read_child:
  "subnode t p = Some u \<Longrightarrow> xn_children u \<noteq> [] \<Longrightarrow>
     nr_Read (at_node t p False d) = (True, at_node t (p @ [0]) False (d + 1))"
  by (simp add: nr_Read_def first_child_def at_node_node)

lemma Read_end:
  "subnode t p = Some u \<Longrightarrow> p \<noteq> [] \<Longrightarrow> xn_children u = [] \<Longrightarrow> has_end u \<Longrightarrow>
     nr_Read (at_node t p False d) = (True, at_node t p True d)"
  by (simp add: nr_Read_def first_child_def at_node_node at_node_IsEmpty has_end_def)

lemma Read_done:
  assumes "subnode t p = Some u" and "i < length (xn_children u)"
  defines "c \<equiv> xn_children u ! i"
  shows "i + 1 < length (xn_children u) \<Longrightarrow>
      nr_Read (at_node t (p @ [i]) (has_end c) d) = (True, at_node t (p @ [i + 1]) False d)"
    and "i + 1 = length (xn_children u) \<Longrightarrow> xn_type c \<noteq> XDocument \<Longrightarrow> p \<noteq> [] \<Longrightarrow>
      nr_Read (at_node t (p @ [i]) (has_end c) d) = (True, at_node t p True (d - 1))"
    and "i + 1 = length (xn_children u) \<Longrightarrow> p = [] \<Longrightarrow>
      nr_Read (at_node t (p @ [i]) (has_end c) d) = (False, at_eof t d)"
proof -
  have c: "subnode t (p @ [i]) = Some c" using assms by (simp add: subnode_append)
  have sib: "next_sibling (at_node t q e d) (p @ [i]) = (if i + 1 < length (xn_children u) then Some (p @ [i + 1]) else None)"
    for q e by (simp add: next_sibling_def at_node_node [OF assms(1)])
  have fin: "nr_Read (at_node t (p @ [i]) (has_end c) d) =
      (case next_sibling (at_node t (p @ [i]) (has_end c) d) (p @ [i]) of
         Some n \<Rightarrow> (True, at_node t n False d)
       | None \<Rightarrow> if xn_type c \<noteq> XDocument \<and> p \<noteq> [] then (True, at_node t p True (d - 1)) else (False, at_eof t d))"
    by (cases "has_end c")
      (auto simp: nr_Read_def Let_def first_child_def at_node_node [OF c] at_node_IsEmpty [OF c] has_end_def
        split: option.split)
  show "i + 1 < length (xn_children u) \<Longrightarrow>
      nr_Read (at_node t (p @ [i]) (has_end c) d) = (True, at_node t (p @ [i + 1]) False d)"
    by (simp add: fin sib)
  show "i + 1 = length (xn_children u) \<Longrightarrow> xn_type c \<noteq> XDocument \<Longrightarrow> p \<noteq> [] \<Longrightarrow>
      nr_Read (at_node t (p @ [i]) (has_end c) d) = (True, at_node t p True (d - 1))"
    by (simp add: fin sib)
  show "i + 1 = length (xn_children u) \<Longrightarrow> p = [] \<Longrightarrow>
      nr_Read (at_node t (p @ [i]) (has_end c) d) = (False, at_eof t d)"
    unfolding fin sib by simp
qed

lemma repr_step:
  assumes "subnode t p = Some u" and "nr_Read (at_node t p e d) = (es \<noteq> [], s')" and "nr_repr s' es"
  shows "nr_repr (at_node t p e d) ((if e then end_ev d u else node_ev d u) # es)"
  using nr_ev [of "at_node t p e d" es s'] assms ev_of_at_node [OF assms(1)] by auto

text \<open>From a node on: its events, then what \<open>rest\<close> gives after it.\<close>

lemma repr_children:
  assumes u: "subnode t p = Some u" and i: "i < length (xn_children u)"
    and nodes: "\<And>j rest s'. j < length (xn_children u) \<Longrightarrow>
      nr_Read (at_node t (p @ [j]) (has_end (xn_children u ! j)) d) = (rest \<noteq> [], s') \<Longrightarrow> nr_repr s' rest \<Longrightarrow>
      nr_repr (at_node t (p @ [j]) False d) (node_events d (xn_children u ! j) @ rest)"
    and after: "nr_Read (at_node t (p @ [length (xn_children u) - 1])
      (has_end (last (xn_children u))) d) = (rest \<noteq> [], s')" "nr_repr s' rest"
  shows "nr_repr (at_node t (p @ [i]) False d) (concat (map (node_events d) (drop i (xn_children u))) @ rest)"
  using i
proof (induction "length (xn_children u) - i" arbitrary: i)
  case (Suc m)
  let ?ch = "xn_children u"
  have dr: "drop i ?ch = ?ch ! i # drop (i + 1) ?ch" using Suc.prems by (simp add: Cons_nth_drop_Suc)
  show ?case
  proof (cases "i + 1 < length ?ch")
    case True
    let ?rest = "concat (map (node_events d) (drop (i + 1) ?ch)) @ rest"
    have "nr_repr (at_node t (p @ [i + 1]) False d) ?rest" using Suc True by simp
    moreover have "?rest \<noteq> []"
    proof -
      have "drop (i + 1) ?ch = ?ch ! (i + 1) # drop (i + 2) ?ch" using True by (simp add: Cons_nth_drop_Suc)
      then show ?thesis by (cases "?ch ! (i + 1)") simp
    qed
    ultimately show ?thesis
      using nodes [OF Suc.prems, of ?rest] Read_done(1) [OF u Suc.prems True] by (simp add: dr)
  next
    case False
    then have e: "i = length ?ch - 1" "?ch \<noteq> []" using Suc.prems by auto
    then have "last ?ch = ?ch ! i" by (simp add: last_conv_nth)
    then have a: "nr_Read (at_node t (p @ [i]) (has_end (?ch ! i)) d) = (rest \<noteq> [], s')"
      using after(1) by (simp only: e(1) [symmetric])
    have "drop (i + 1) ?ch = []" using False by simp
    then have "concat (map (node_events d) (drop i ?ch)) = node_events d (?ch ! i)" unfolding dr by simp
    then show ?thesis using nodes [OF Suc.prems a after(2)] by (simp only:)
  qed
qed simp

lemma repr_node:
  "subnode t p = Some u \<Longrightarrow> p \<noteq> [] \<Longrightarrow> no_document u \<Longrightarrow>
     nr_Read (at_node t p (has_end u) d) = (rest \<noteq> [], s') \<Longrightarrow> nr_repr s' rest \<Longrightarrow>
     nr_repr (at_node t p False d) (node_events d u @ rest)"
proof (induction u arbitrary: p d rest s')
  case (XNode ty n v em at ch)
  let ?u = "XNode ty n v em at ch"
  show ?case
  proof (cases "ch = []")
    case True
    show ?thesis
    proof (cases "has_end ?u")
      case he: True
      have "nr_repr (at_node t p True d) (end_ev d ?u # rest)"
        using repr_step [OF XNode.prems(1), of True d rest s'] XNode.prems he by simp
      then show ?thesis
        using repr_step [OF XNode.prems(1), of False d "end_ev d ?u # rest"] Read_end [OF XNode.prems(1,2), of d] he True
        by simp
    next
      case False
      then show ?thesis using repr_step [OF XNode.prems(1), of False d rest s'] XNode.prems True by simp
    qed
  next
    case False
    let ?rest = "end_ev d ?u # rest"
    have he: "has_end ?u" using False by (simp add: has_end_def)
    have end_p: "nr_repr (at_node t p True d) ?rest"
      using repr_step [OF XNode.prems(1), of True d rest s'] XNode.prems he by simp
    have nd: "xn_type c \<noteq> XDocument" "no_document c" if "c \<in> set ch" for c
      using XNode.prems(3) that by (cases c; auto simp: list_all_iff)+
    have sub: "subnode t (p @ [j]) = Some (ch ! j)" if "j < length ch" for j
      using XNode.prems(1) that by (simp add: subnode_append)
    have l: "last ch = ch ! (length ch - 1)" using False by (simp add: last_conv_nth)
    have "nr_repr (at_node t (p @ [0]) False (d + 1)) (concat (map (node_events (d + 1)) (drop 0 (xn_children ?u))) @ ?rest)"
    proof (rule repr_children [OF XNode.prems(1)])
      show "nr_repr (at_node t (p @ [j]) False (d + 1)) (node_events (d + 1) (xn_children ?u ! j) @ r)"
        if "j < length (xn_children ?u)"
          "nr_Read (at_node t (p @ [j]) (has_end (xn_children ?u ! j)) (d + 1)) = (r \<noteq> [], s1)" "nr_repr s1 r" for j r s1
        using XNode.IH [of "ch ! j" "p @ [j]" "d + 1" r s1] that sub nd by simp
      show "nr_Read (at_node t (p @ [length (xn_children ?u) - 1]) (has_end (last (xn_children ?u))) (d + 1))
          = (?rest \<noteq> [], at_node t p True d)"
        using Read_done(2) [OF XNode.prems(1), of "length ch - 1" "d + 1"] False nd(1) [OF last_in_set [OF False]] XNode.prems(2)
        by (simp add: l)
    qed (use False end_p in simp_all)
    then have "nr_repr (at_node t (p @ [0]) False (d + 1)) (concat (map (node_events (d + 1)) ch) @ ?rest)" by simp
    then show ?thesis
      using repr_step [OF XNode.prems(1), of False d "concat (map (node_events (d + 1)) ch) @ ?rest"]
        Read_child [OF XNode.prems(1), of d] False he by simp
  qed
qed


section \<open>Properties of the node reader\<close>

lemma Read_first: "nr_Read (XmlNodeReader t) = (True, at_node t [] False 0)"
  by (simp add: nr_Read_def XmlNodeReader_def nr_at_def at_node_def)

lemma nr_repr_start:
  assumes "list_all no_document (xn_children t)"
  shows "nr_repr (at_node t [] False 0) (start_events t)"
proof -
  have eof: "nr_repr (at_eof t d) []" for d by (rule nr_eof) (simp_all add: at_eof_def)
  have sub: "subnode t [] = Some t" by simp
  show ?thesis
  proof (cases "xn_children t = []")
    case True
    show ?thesis
    proof (cases "xn_type t = XElement \<and> xn_empty t")
      case em: True
      have "nr_Read (at_node t [] False 0) = ([] \<noteq> ([] :: xml_event list), at_eof t 0)"
        using True em by (simp add: nr_Read_def first_child_def at_node_node [OF sub] at_node_IsEmpty [OF sub])
      then show ?thesis
        using repr_step [OF sub, of False 0 "[]" "at_eof t 0"] eof True em by (simp add: start_events_def)
    next
      case em: False
      have "nr_Read (at_node t [] True 0) = ([] \<noteq> ([] :: xml_event list), at_eof t 0)"
        by (simp add: nr_Read_def at_node_IsEmpty [OF sub])
      then have "nr_repr (at_node t [] True 0) [end_ev 0 t]" using repr_step [OF sub _ eof] by fastforce
      moreover have "nr_Read (at_node t [] False 0) = ([end_ev 0 t] \<noteq> [], at_node t [] True 0)"
        using True em by (auto simp: nr_Read_def first_child_def at_node_node [OF sub] at_node_IsEmpty [OF sub])
      ultimately have "nr_repr (at_node t [] False 0) [node_ev 0 t, end_ev 0 t]"
        using repr_step [OF sub, of False 0 "[end_ev 0 t]" "at_node t [] True 0"] by simp
      then show ?thesis using True em by (auto simp: start_events_def)
    qed
  next
    case False
    let ?ch = "xn_children t"
    have l: "last ?ch = ?ch ! (length ?ch - 1)" using False by (simp add: last_conv_nth)
    have "nr_repr (at_node t ([] @ [0]) False 1) (concat (map (node_events 1) (drop 0 ?ch)) @ [])"
    proof (rule repr_children [OF sub])
      show "nr_repr (at_node t ([] @ [j]) False 1) (node_events 1 (?ch ! j) @ r)"
        if "j < length ?ch" "nr_Read (at_node t ([] @ [j]) (has_end (?ch ! j)) 1) = (r \<noteq> [], s1)" "nr_repr s1 r"
        for j r s1
        using repr_node [of t "[] @ [j]" "?ch ! j" 1 r s1] that assms by (simp add: list_all_length)
      show "nr_Read (at_node t ([] @ [length ?ch - 1]) (has_end (last ?ch)) 1) = ([] \<noteq> ([] :: xml_event list), at_eof t 1)"
        using Read_done(3) [OF sub, of "length ?ch - 1" 1] False by (simp add: l)
    qed (use False eof in simp_all)
    then have "nr_repr (at_node t [0] False 1) (concat (map (node_events 1) ?ch))" by simp
    moreover have "concat (map (node_events 1) ?ch) \<noteq> []"
      using False by (cases ?ch; cases "hd ?ch") auto
    ultimately show ?thesis
      using repr_step [OF sub, of False 0] Read_child [OF sub False, of 0] False by (simp add: start_events_def)
  qed
qed

text \<open>
  C32: the node reader reports the document-order traversal of its start node: from the first
  \<open>Read\<close> on, each \<open>Read\<close> moves to the next event of \<open>start_events\<close>, with the node type, name,
  value, emptiness and depth of that event, and after the last one \<open>Read\<close> returns false and the
  reader is at the end.  Inner nodes with children and non-empty elements are reported twice, at
  their start and at their end.
\<close>

theorem node_reader_traversal:
  assumes "list_all no_document (xn_children t)"
  shows "\<exists>s. nr_Read (XmlNodeReader t) = (True, s) \<and> nr_repr s (start_events t)"
proof -
  show ?thesis using nr_repr_start [OF assms] Read_first by blast
qed

lemma node_reader_traversal_witness:
  "\<exists>s. nr_Read (XmlNodeReader (XNode XElement ''a'' [] False [] [XNode XText [] ''t'' False [] []])) = (True, s)
     \<and> nr_repr s (start_events (XNode XElement ''a'' [] False [] [XNode XText [] ''t'' False [] []]))"
  by (rule node_reader_traversal) simp

text \<open>
  over the node reader \<open>ReadElementString\<close> returns the concatenated text of an element that
  holds text, CDATA and white space only, and leaves the reader behind the element's end.
\<close>

theorem node_reader_element_string:
  assumes "nr_repr s (e # ts @ x # es)" and "ev_type e = XElement" and "\<not> ev_empty e"
    and "list_all (\<lambda>t. is_textual (ev_type t)) ts" and "ev_type x = XEndElement"
  shows "\<exists>s'. ReadElementString XmlNodeReader_class s = Some (Inr (concat (map ev_value ts)), s') \<and> nr_repr s' es"
  by (rule node_reader.ReadElementString_events [OF assms])

lemma node_reader_element_string_witness:
  "\<exists>s s'. ReadElementString XmlNodeReader_class s = Some (Inr ''xy'', s') \<and> nr_repr s' []"
proof -
  let ?b = "XNode XElement ''b'' [] False [] [XNode XText [] ''x'' False [] [], XNode XCDATA [] ''y'' False [] []]"
  let ?t = "XNode XElement ''a'' [] False [] [?b]"
  have "nr_repr (at_node ?t [] False 0) (start_events ?t)" by (rule nr_repr_start) simp
  then obtain s where "nr_repr s (node_events 1 ?b)"
    by (auto simp: start_events_def elim: nr_repr_ConsE)
  then have "nr_repr s (node_ev 1 ?b # [node_ev 2 (XNode XText [] ''x'' False [] []), node_ev 2 (XNode XCDATA [] ''y'' False [] [])]
      @ end_ev 1 ?b # [])" by (simp add: has_end_def numeral_2_eq_2)
  from node_reader_element_string [OF this]
  show ?thesis by (auto simp: node_ev_def end_ev_def is_textual_def type_has_value_def)
qed

text \<open>
  on a reader whose start node is an element with text, \<open>ReadElementString\<close> fails: the end of
  the start node is not reported when it has children.
\<close>

theorem node_reader_start_element:
  assumes "xn_type t = XElement" and "xn_children t \<noteq> []" and "\<not> xn_empty t"
    and "list_all (\<lambda>u. is_textual (xn_type u) \<and> xn_children u = []) (xn_children t)"
  shows "\<exists>s s'. nr_Read (XmlNodeReader t) = (True, s)
    \<and> ReadElementString XmlNodeReader_class s = Some (Inl XMLError, s')"
proof -
  let ?vt = XmlNodeReader_class and ?ch = "xn_children t"
  have ev: "node_events 1 u = [node_ev 1 u]" if "u \<in> set ?ch" for u
    using assms(4) that by (cases u) (auto simp: list_all_iff has_end_def is_textual_def)
  then have evs: "start_events t = node_ev 0 t # map (node_ev 1) ?ch"
    using assms(2) by (simp add: start_events_def cong: map_cong)
  have "list_all no_document ?ch"
    using assms(4) by (auto simp: list_all_iff is_textual_def) (case_tac x, auto)
  from nr_repr_start [OF this] have r: "nr_repr (at_node t [] False 0) (node_ev 0 t # map (node_ev 1) ?ch)"
    by (simp add: evs)
  then obtain s1 where s1: "nr_Read (at_node t [] False 0) = (True, s1)" "nr_repr s1 (map (node_ev 1) ?ch)"
    using node_reader.next_event [OF r] assms(2) by (auto simp: XmlNodeReader_class_def)
  have st: "ReadStartElement ?vt (at_node t [] False 0) = Some (Inr (), s1)"
    using node_reader.at_event [OF r] s1(1) assms(1)
    by (simp add: ReadStartElement_def IsStartElement_def MoveToContent.simps is_content_def node_ev_def
        XmlNodeReader_class_def)
  have tx: "list_all (\<lambda>e. is_textual (ev_type e)) (map (node_ev 1) ?ch)"
    using assms(4) by (auto simp: list_all_iff node_ev_def)
  obtain u us where ch: "?ch = u # us" using assms(2) by (cases ?ch) auto
  have "rd_NodeType ?vt s1 = xn_type u" using node_reader.at_event [of s1 "node_ev 1 u"] s1(2) ch by (simp add: node_ev_def)
  moreover have "is_textual (xn_type u)" using assms(4) ch by simp
  ultimately have "ReadString ?vt s1 = ReadString_text ?vt s1 []"
    using node_reader.at_node [OF s1(2)] by (auto simp: ReadString_def Let_def is_textual_def)
  note RS = this
  have dw: "dropWhile (\<lambda>e. is_textual (ev_type e)) (map (node_ev 1) ?ch) = []"
    using tx by (simp add: dropWhile_eq_Nil_conv list_all_iff)
  obtain r s2 where "ReadString_text ?vt s1 [] = Some (r, s2)" "nr_repr s2 []"
    using node_reader.ReadString_text_events [OF s1(2), of "[]"] unfolding dw by blast
  then have s2: "ReadString ?vt s1 = Some (r, s2)" "nr_repr s2 []" using RS by simp_all
  have "nr_IsEmptyElement (at_node t [] False 0) = False" using assms(3) at_node_IsEmpty [of t "[]" t] by simp
  then have "ReadElementString ?vt (at_node t [] False 0) = Some (Inl XMLError, s2)"
    using st s2 node_reader.at_end [OF s2(2)]
    by (simp add: ReadElementString_def ReadEndElement_def XmlNodeReader_class_def)
  then show ?thesis using Read_first by blast
qed

lemma node_reader_start_element_witness:
  "\<exists>s s'. nr_Read (XmlNodeReader (XNode XElement ''a'' [] False [] [XNode XText [] ''t'' False [] []])) = (True, s)
    \<and> ReadElementString XmlNodeReader_class s = Some (Inl XMLError, s')"
  by (rule node_reader_start_element) (simp_all add: is_textual_def)

lemma ReadToNextSibling_loop_eof:
  "ReadToNextSibling_loop vt name depth s = Some r \<Longrightarrow>
     vt = XmlNodeReader_class \<longrightarrow> depth = 0 \<longrightarrow> nr_state s = REndOfFile \<longrightarrow> nr_cur s = None \<longrightarrow> False"
  by (erule ReadToNextSibling_loop.raw_induct [where P = "\<lambda>vt name depth s r. vt = XmlNodeReader_class \<longrightarrow> depth = 0
        \<longrightarrow> nr_state s = REndOfFile \<longrightarrow> nr_cur s = None \<longrightarrow> False", rotated])
    (auto simp: XmlNodeReader_class_def nr_Skip_def nr_get_NodeType_def split: option.splits if_splits)


text \<open>Every event of a node is at least as deep as the node.\<close>

lemma node_events_depth: "list_all (\<lambda>e. d \<le> ev_depth e) (node_events d u)"
proof (induction u arbitrary: d)
  case (XNode ty n v em at ch)
  have "d \<le> ev_depth e" if "c \<in> set ch" "e \<in> set (node_events (Suc d) c)" for c e
    using XNode [OF that(1), of "Suc d"] that(2) by (auto simp: list_all_iff)
  then show ?case by (auto simp: list_all_iff node_ev_def end_ev_def)
qed

lemma nr_repr_Interactive: "nr_repr s (e # es) \<Longrightarrow> nr_state s = RInteractive \<and> nr_MoveToElement s = (False, s)"
  by (erule nr_repr_ConsE) (auto simp: nr_MoveToElement_def is_linked_def)

lemma nr_Skip_loop_events:
  "nr_repr s (e # inner @ x # es) \<Longrightarrow> list_all (\<lambda>e. d < ev_depth e) inner \<Longrightarrow> ev_depth x \<le> d \<Longrightarrow>
     \<exists>s'. nr_Skip_loop d s = Some s' \<and> nr_repr s' (x # es)"
proof (induction inner arbitrary: s e)
  case Nil
  obtain s1 where s1: "nr_Read s = (True, s1)" "nr_repr s1 (x # es)"
    using node_reader.next_event [of s e "x # es"] Nil(1) by (auto simp: XmlNodeReader_class_def)
  then show ?case
    using node_reader.at_event [OF s1(2)] Nil(3)
    by (subst nr_Skip_loop.simps) (simp add: XmlNodeReader_class_def)
next
  case (Cons y inner)
  obtain s1 where s1: "nr_Read s = (True, s1)" "nr_repr s1 (y # inner @ x # es)"
    using node_reader.next_event [of s e "y # inner @ x # es"] Cons.prems(1) by (auto simp: XmlNodeReader_class_def)
  then have "nr_Skip_loop d s = nr_Skip_loop d s1"
    using node_reader.at_event [OF s1(2)] Cons.prems(2)
    by (subst nr_Skip_loop.simps) (simp add: XmlNodeReader_class_def)
  then show ?case using Cons.IH [OF s1(2)] Cons.prems by simp
qed

text \<open>
  \<open>Skip\<close> on an element leaves the reader behind all its events, whatever it contains.
\<close>

theorem node_reader_Skip:
  assumes r: "nr_repr s (node_events d u @ rest)" and u: "xn_type u = XElement"
    and em: "\<not> (xn_empty u \<and> xn_children u \<noteq> [])"
  shows "\<exists>s'. nr_Skip s = Some s' \<and> nr_repr s' rest"
proof -
  obtain ty n v e at ch where uu: "u = XNode ty n v e at ch" by (cases u)
  let ?inner = "concat (map (node_events (Suc d)) ch)"
  obtain es where es: "node_events d u = node_ev d u # es" by (simp add: uu)
  have r': "nr_repr s (node_ev d u # es @ rest)" using r es by simp
  note st = nr_repr_Interactive [OF r'] and ev = node_reader.at_event [OF r']
  have ty: "nr_get_NodeType s = XElement" "nr_IsEmptyElement s = xn_empty u" "nr_get_Depth s = d"
    using ev u by (simp_all add: XmlNodeReader_class_def node_ev_def)
  show ?thesis
  proof (cases "xn_empty u")
    case True
    then have "es = []" using es em u by (simp add: uu has_end_def)
    then show ?thesis
      using node_reader.next_event [OF r'] st ty True by (auto simp: nr_Skip_def XmlNodeReader_class_def)
  next
    case False
    have "es = ?inner @ [end_ev d u]" using es False u by (simp add: uu has_end_def)
    then have "nr_repr s (node_ev d u # ?inner @ end_ev d u # rest)" using r' by simp
    moreover have "list_all (\<lambda>e. d < ev_depth e) ?inner"
      using node_events_depth [of "Suc d"] by (fastforce simp: list_all_iff)
    ultimately obtain s2 where s2: "nr_Skip_loop d s = Some s2" "nr_repr s2 (end_ev d u # rest)"
      using nr_Skip_loop_events [of s "node_ev d u" ?inner "end_ev d u" rest d] by (auto simp: end_ev_def)
    have "nr_get_NodeType s2 = XEndElement"
      using node_reader.at_event [OF s2(2)] by (simp add: XmlNodeReader_class_def end_ev_def)
    then show ?thesis
      using node_reader.next_event [OF s2(2)] st ty False s2(1) by (auto simp: nr_Skip_def XmlNodeReader_class_def)
  qed
qed

lemma node_reader_Skip_witness:
  "\<exists>s s'. nr_Skip s = Some s' \<and> nr_repr s' (node_events 1 (XNode XComment [] ''c'' False [] []))"
proof -
  let ?b = "XNode XElement ''b'' [] False [] [XNode XText [] ''x'' False [] []]"
  let ?c = "XNode XComment [] ''c'' False [] []"
  let ?t = "XNode XElement ''a'' [] False [] [?b, ?c]"
  have "nr_repr (at_node ?t [] False 0) (start_events ?t)" by (rule nr_repr_start) simp
  then obtain s where "nr_repr s (node_events 1 ?b @ node_events 1 ?c)"
    by (auto simp: start_events_def elim: nr_repr_ConsE)
  then have "\<exists>s'. nr_Skip s = Some s' \<and> nr_repr s' (node_events 1 ?c)" by (rule node_reader_Skip) simp_all
  then show ?thesis by blast
qed

lemma nr_Skip_loop_to_end:
  "nr_repr s (e # es) \<Longrightarrow> list_all (\<lambda>e. d < ev_depth e) es \<Longrightarrow> \<exists>s'. nr_Skip_loop d s = Some s' \<and> nr_repr s' []"
proof (induction es arbitrary: s e)
  case Nil
  then show ?case
    using node_reader.next_event [OF Nil(1)] by (subst nr_Skip_loop.simps) (auto simp: XmlNodeReader_class_def)
next
  case (Cons y es)
  obtain s1 where s1: "nr_Read s = (True, s1)" "nr_repr s1 (y # es)"
    using node_reader.next_event [OF Cons.prems(1)] by (auto simp: XmlNodeReader_class_def)
  then have "nr_Skip_loop d s = nr_Skip_loop d s1"
    using node_reader.at_event [OF s1(2)] Cons.prems(2)
    by (subst nr_Skip_loop.simps) (simp add: XmlNodeReader_class_def)
  then show ?case using Cons.IH [OF s1(2)] Cons.prems by simp
qed

text \<open>
  \<open>ReadToNextSibling\<close> at a start element with children never returns: \<open>Skip\<close> goes to the end of
  the document and stays there, and the depth, zero, is never below the element's.
\<close>

theorem ReadToNextSibling_diverges:
  assumes "list_all no_document (xn_children t)" and "xn_type t = XElement" and "\<not> xn_empty t"
    and "xn_children t \<noteq> []" and "nr_Read (XmlNodeReader t) = (True, s)"
  shows "ReadToNextSibling XmlNodeReader_class name s = None"
proof -
  have s: "s = at_node t [] False 0" using assms(5) Read_first [of t] by simp
  have r: "nr_repr s (start_events t)" unfolding s by (rule nr_repr_start [OF assms(1)])
  then have r': "nr_repr s (node_ev 0 t # concat (map (node_events 1) (xn_children t)))"
    using assms(4) by (simp add: start_events_def)
  note st = nr_repr_Interactive [OF r'] and ev = node_reader.at_event [OF r']
  have "list_all (\<lambda>e. 0 < ev_depth e) (concat (map (node_events 1) (xn_children t)))"
    using node_events_depth [of 1] by (fastforce simp: list_all_iff)
  then obtain s2 where s2: "nr_Skip_loop 0 s = Some s2" "nr_repr s2 []" using nr_Skip_loop_to_end [OF r'] by blast
  have e2: "nr_state s2 = REndOfFile" "nr_cur s2 = None" using s2(2) by (auto elim: nr_repr_NilE)
  have "nr_Skip s = Some s2" "nr_get_Depth s = 0"
    using st ev assms(2,3) s2 e2
    by (simp_all add: nr_Skip_def XmlNodeReader_class_def node_ev_def nr_get_NodeType_def)
  moreover have "ReadToNextSibling_loop XmlNodeReader_class name 0 s2 = None"
    using ReadToNextSibling_loop_eof [of XmlNodeReader_class name 0 s2] e2
    by (cases "ReadToNextSibling_loop XmlNodeReader_class name 0 s2") auto
  ultimately show ?thesis
    using st e2 by (simp add: ReadToNextSibling_def ReadToNextSibling_loop.simps [of _ _ 0 s] XmlNodeReader_class_def
        nr_get_NodeType_def)
qed

lemma ReadToNextSibling_diverges_witness:
  "\<exists>s. ReadToNextSibling XmlNodeReader_class ''b'' s = None"
  using ReadToNextSibling_diverges [OF _ _ _ _ Read_first, of "XNode XElement ''a'' [] False [] [XNode XText [] ''t'' False [] []]"]
  by auto

end
