(* ===== verification/IpAddress.thy ===== *)
theory IpAddress
  imports BinaryRW XmlText
begin

text \<open>
  Internet addresses and endpoints: \<open>IPAddress\<close> and \<open>IPEndPoint\<close> of
  \<open>src/libext/ext-net.h\<close> and \<open>src/libext/ext-ip-address.cpp\<close>.  The address families have
  their values on Linux; integers in host byte order are little-endian, as on x86.
\<close>

section \<open>The address\<close>

text \<open>
  The union of \<open>sockaddr\<close>, \<open>sockaddr_in\<close> and \<open>sockaddr_in6\<close>, 28 bytes, cut at the borders of
  their fields: \<open>sa_family\<close>, \<open>sin_port\<close> (the same bytes as \<open>sin6_port\<close>), \<open>sin_addr\<close> (the same
  bytes as \<open>sin6_flowinfo\<close>), \<open>sin6_addr\<close> and \<open>sin6_scope_id\<close>.  A \<open>sockaddr\<close> is the first 16
  bytes.  Port and addresses are kept as the bytes in memory, that is in network order.
\<close>

record ip_address =
  sa_family :: u16
  sin_port :: "byte list"
  sin_addr :: "byte list"
  sin6_addr :: "byte list"
  sin6_scope :: "byte list"

abbreviation AF_UNSPEC :: u16 where "AF_UNSPEC \<equiv> 0"
abbreviation AF_INET :: u16 where "AF_INET \<equiv> 2"
abbreviation AF_INET6 :: u16 where "AF_INET6 \<equiv> 10"
abbreviation AF_PACKET :: u16 where "AF_PACKET \<equiv> 17"

definition FamilySize :: "u16 \<Rightarrow> nat" where
  "FamilySize fam =
     (if fam = AF_UNSPEC then 0 else if fam = AF_INET then 4
      else if fam = AF_INET6 then 16 else 0)"

text \<open>\<open>IPAddress::CreateCommon\<close>, the body of the default constructor.\<close>

definition IPAddress_CreateCommon :: ip_address where
  "IPAddress_CreateCommon =
     \<lparr>sa_family = AF_INET, sin_port = replicate 2 0, sin_addr = replicate 4 0,
      sin6_addr = replicate 16 0, sin6_scope = replicate 4 0\<rparr>"

text \<open>The constructors from a number in network byte order and from a span.\<close>

definition IPAddress_nbo :: "u32 \<Rightarrow> ip_address" where
  "IPAddress_nbo nboIp4 = IPAddress_CreateCommon\<lparr>sin_addr := bytes_le 4 nboIp4\<rparr>"

definition IPAddress_span :: "byte list \<Rightarrow> ip_address res" where
  "IPAddress_span mb =
     (if length mb = 4 then Inr (IPAddress_CreateCommon\<lparr>sa_family := AF_INET, sin_addr := mb\<rparr>)
      else if length mb = 16
      then Inr (IPAddress_CreateCommon\<lparr>sa_family := AF_INET6, sin6_addr := mb\<rparr>)
      else Inl UnknownHostAddressType)"

text \<open>\<open>Fast_htonl\<close> and the constants.\<close>

definition Fast_htonl :: "u32 \<Rightarrow> u32" where
  "Fast_htonl v = le_word (bytes_be 4 v)"

definition IPAddress_Any :: ip_address where
  "IPAddress_Any = IPAddress_nbo (Fast_htonl 0)"

definition IPAddress_Broadcast :: ip_address where
  "IPAddress_Broadcast = IPAddress_nbo (Fast_htonl 0xFFFFFFFF)"

definition IPAddress_Loopback :: ip_address where
  "IPAddress_Loopback = IPAddress_nbo (Fast_htonl 0x7F000001)"

definition IPAddress_None :: ip_address where
  "IPAddress_None = IPAddress_nbo (Fast_htonl 0xFFFFFFFF)"

definition IPAddress_IPv6Any :: "ip_address res" where
  "IPAddress_IPv6Any = IPAddress_span (replicate 16 0)"

definition IPAddress_IPv6Loopback :: "ip_address res" where
  "IPAddress_IPv6Loopback = IPAddress_span (replicate 15 0 @ [1])"

definition IPAddress_IPv6None :: "ip_address res" where
  "IPAddress_IPv6None = IPAddress_span (replicate 16 0)"

text \<open>
  \<open>IPAddress::operator=\<close>: copies everything, but an internet address keeps the port the
  target had.
\<close>

definition IPAddress_assign :: "ip_address \<Rightarrow> ip_address \<Rightarrow> ip_address" where
  "IPAddress_assign this ha =
     (let r = ha
      in if sa_family r = AF_INET \<or> sa_family r = AF_INET6
         then r\<lparr>sin_port := sin_port this\<rparr> else r)"

text \<open>\<open>memcmp\<close> on two buffers of the same length, by its sign.\<close>

fun memcmp :: "byte list \<Rightarrow> byte list \<Rightarrow> int" where
  "memcmp (x # xs) (y # ys) = (if x < y then - 1 else if y < x then 1 else memcmp xs ys)"
| "memcmp _ _ = 0"

definition IPAddress_less :: "ip_address \<Rightarrow> ip_address \<Rightarrow> bool res" where
  "IPAddress_less this ha =
     (if sa_family this \<noteq> sa_family ha
      then Inr (unat (sa_family this) < unat (sa_family ha))
      else if sa_family this = AF_INET then Inr (memcmp (sin_addr this) (sin_addr ha) < 0)
      else if sa_family this = AF_INET6 then Inr (memcmp (sin6_addr this) (sin6_addr ha) < 0)
      else Inl UnknownHostAddressType)"

definition IPAddress_eq :: "ip_address \<Rightarrow> ip_address \<Rightarrow> bool res" where
  "IPAddress_eq this ha =
     (if sa_family this \<noteq> sa_family ha then Inr False
      else if sa_family this = AF_INET
      then Inr (le32 (sin_addr this) = le32 (sin_addr ha))
      else if sa_family this = AF_INET6
      then Inr (memcmp (sin6_addr this) (sin6_addr ha) = 0)
      else Inl UnknownHostAddressType)"

text \<open>
  The hashes of the standard library and of the library's \<open>hash_value (Span)\<close> are parameters;
  \<open>size_t\<close> has 64 bits.
\<close>

definition IPAddress_GetHashCode ::
    "(u16 \<Rightarrow> u64) \<Rightarrow> (u32 \<Rightarrow> u64) \<Rightarrow> (byte list \<Rightarrow> u64) \<Rightarrow> ip_address \<Rightarrow> u64 res" where
  "IPAddress_GetHashCode hash16 hash32 hash_span this =
     (let r = hash16 (sa_family this)
      in if sa_family this = AF_INET then Inr (r + hash32 (le_word (sin_addr this)))
         else if sa_family this = AF_INET6 then Inr (r + hash_span (sin6_addr this))
         else Inl UnknownHostAddressType)"

definition IPAddress_GetAddressBytes :: "ip_address \<Rightarrow> byte list res" where
  "IPAddress_GetAddressBytes this =
     (if FamilySize (sa_family this) = 0 then Inl UnknownHostAddressType
      else if sa_family this = AF_INET then Inr (sin_addr this)
      else if sa_family this = AF_INET6 then Inr (sin6_addr this)
      else Inl UnknownHostAddressType)"

definition IPAddress_GetIP :: "ip_address \<Rightarrow> u32 res" where
  "IPAddress_GetIP this =
     (if sa_family this = AF_INET then Inr (be32 (sin_addr this)) else Inl UnknownHostAddressType)"

definition IPAddress_IsEmpty :: "ip_address \<Rightarrow> bool" where
  "IPAddress_IsEmpty this \<longleftrightarrow> sa_family this = AF_INET \<and> IPAddress_GetIP this = Inr 0"

definition IPAddress_IsGlobal :: "ip_address \<Rightarrow> bool res" where
  "IPAddress_IsGlobal this =
     (if sa_family this = AF_INET then
        (let hip = be32 (sin_addr this)
         in Inr (hip \<noteq> 0
              \<and> hip AND 0xFF000000 \<noteq> 0x7F000000
              \<and> hip AND 0xFFFF0000 \<noteq> 0xC0A80000
              \<and> hip AND 0xFFF00000 \<noteq> 0xAC100000
              \<and> hip AND 0xFF000000 \<noteq> 0x0A000000
              \<and> hip AND 0xFFFF0000 \<noteq> 0xA9FE0000))
      else if sa_family this = AF_INET6 then
        (let fam = (ucast (hd (sin6_addr this)) :: u16) in Inr (fam > 0 \<and> fam < 0xFC))
      else Inl E_FAIL)"

text \<open>The twelve bytes \<open>"\\xFF\\xFF" "0000000000"\<close>: two of \<open>0xFF\<close> and ten digits zero.\<close>

definition mapped_prefix :: "byte list" where
  "mapped_prefix = [0xFF, 0xFF] @ replicate 10 0x30"

definition IPAddress_IsIPv4MappedToIPv6 :: "ip_address \<Rightarrow> bool" where
  "IPAddress_IsIPv4MappedToIPv6 this \<longleftrightarrow>
     sa_family this = AF_INET6 \<and> memcmp (take 12 (sin6_addr this)) mapped_prefix = 0"

definition IPAddress_IsIPv6Teredo :: "ip_address \<Rightarrow> bool" where
  "IPAddress_IsIPv6Teredo this \<longleftrightarrow>
     sa_family this = AF_INET6
     \<and> le_word (take 4 (sin6_addr this)) = Fast_htonl 0x20010000"

text \<open>
  \<open>inet_pton\<close> and \<open>inet_ntop\<close> of the C library are parameters: the first gives the bytes of
  the address a string denotes in a family, if it denotes one.
\<close>

definition IPAddress_Parse ::
    "(u16 \<Rightarrow> string \<Rightarrow> byte list option) \<Rightarrow> string \<Rightarrow> ip_address res" where
  "IPAddress_Parse inet_pton s =
     (case inet_pton AF_INET s of
        Some buf \<Rightarrow> IPAddress_span (take 4 buf)
      | None \<Rightarrow>
          (case inet_pton AF_INET6 s of
             Some buf \<Rightarrow> IPAddress_span (take 16 buf)
           | None \<Rightarrow> Inl FormatError))"

definition IPAddress_TryParse ::
    "(u16 \<Rightarrow> string \<Rightarrow> byte list option) \<Rightarrow> string \<Rightarrow> ip_address \<Rightarrow> (bool \<times> ip_address) res" where
  "IPAddress_TryParse inet_pton s ip =
     (case inet_pton AF_INET s of
        Some buf \<Rightarrow>
          bind_res (IPAddress_span (take 4 buf)) (\<lambda>a. Inr (True, IPAddress_assign ip a))
      | None \<Rightarrow>
          (case inet_pton AF_INET6 s of
             Some buf \<Rightarrow>
               bind_res (IPAddress_span (take 16 buf)) (\<lambda>a. Inr (True, IPAddress_assign ip a))
           | None \<Rightarrow> Inr (False, ip)))"

definition IPAddress_Print :: "(byte list \<Rightarrow> string option) \<Rightarrow> ip_address \<Rightarrow> string" where
  "IPAddress_Print inet_ntop this =
     (if sa_family this = AF_INET then
        (let p = map (\<lambda>b. nat_string (unat b)) (sin_addr this)
         in p ! 0 @ ''.'' @ p ! 1 @ ''.'' @ p ! 2 @ ''.'' @ p ! 3)
      else if sa_family this = AF_INET6 then
        (case inet_ntop (sin6_addr this) of Some buf \<Rightarrow> buf | None \<Rightarrow> ''<#IPv6 address>'')
      else if sa_family this = AF_PACKET then '':AF_PACKET:''
      else ''Address Family '' @ nat_string (unat (sa_family this)))"

section \<open>Serialisation of an address\<close>

text \<open>
  An unknown family is written as the 16 bytes of its \<open>sockaddr\<close>, which begin with the family
  once more.
\<close>

definition sockaddr_bytes :: "ip_address \<Rightarrow> byte list" where
  "sockaddr_bytes ha =
     bytes_le 2 (sa_family ha) @ sin_port ha @ sin_addr ha @ take 8 (sin6_addr ha)"

definition set_sockaddr :: "byte list \<Rightarrow> ip_address \<Rightarrow> ip_address" where
  "set_sockaddr bs h = h\<lparr>sa_family := le_word (take 2 bs), sin_port := take 2 (drop 2 bs),
     sin_addr := take 4 (drop 4 bs), sin6_addr := take 8 (drop 8 bs) @ drop 8 (sin6_addr h)\<rparr>"

definition Write_IPAddress :: "ip_address \<Rightarrow> byte list" where
  "Write_IPAddress ha =
     WriteType (sa_family ha) @
     (if sa_family ha = AF_INET then sin_addr ha
      else if sa_family ha = AF_INET6 then sin6_addr ha
      else sockaddr_bytes ha)"

definition Read_IPAddress ::
    "'s reader \<Rightarrow> ip_address \<Rightarrow> 's \<Rightarrow> ip_address res \<times> 's" where
  "Read_IPAddress read ha s =
     (case BinaryReader_ReadType read s of
        (Inl e, s') \<Rightarrow> (Inl e, s')
      | (Inr fam, s') \<Rightarrow>
          (let h = IPAddress_CreateCommon\<lparr>sa_family := fam\<rparr>;
               n = (if fam = AF_INET then 4 else 16)
           in case Stream_ReadExactly read s' n of
                (Inl e, s'') \<Rightarrow> (Inl e, s'')
              | (Inr bs, s'') \<Rightarrow>
                  (Inr (IPAddress_assign ha
                     (if fam = AF_INET then h\<lparr>sin_addr := bs\<rparr>
                      else if fam = AF_INET6 then h\<lparr>sin6_addr := bs\<rparr>
                      else set_sockaddr bs h)), s'')))"

section \<open>Endpoints\<close>

text \<open>
  \<open>IPEndPoint\<close>: the address, and the \<open>m_port\<close> of \<open>InternetEndPoint\<close>, which is written along
  with the port inside the address but never read.
\<close>

record ip_endpoint =
  ep_Address :: ip_address
  ep_m_port :: u16

definition htons :: "u16 \<Rightarrow> byte list" where
  "htons p = bytes_be 2 p"

definition IPEndPoint_get_Port :: "ip_endpoint \<Rightarrow> u16" where
  "IPEndPoint_get_Port ep = be_word (sin_port (ep_Address ep))"

definition IPEndPoint_put_Port :: "u16 \<Rightarrow> ip_endpoint \<Rightarrow> ip_endpoint" where
  "IPEndPoint_put_Port port ep =
     ep\<lparr>ep_m_port := port, ep_Address := (ep_Address ep)\<lparr>sin_port := htons port\<rparr>\<rparr>"

text \<open>
  The constructors from a host and from an address.  Copying the address leaves the new one's
  port as it was in memory (\<open>junk\<close>), until \<open>put_Port\<close> sets it.
\<close>

definition IPEndPoint_host :: "u32 \<Rightarrow> u16 \<Rightarrow> ip_endpoint" where
  "IPEndPoint_host host port =
     IPEndPoint_put_Port port \<lparr>ep_Address = IPAddress_nbo host, ep_m_port = 0\<rparr>"

definition IPEndPoint_addr :: "ip_address \<Rightarrow> ip_address \<Rightarrow> u16 \<Rightarrow> ip_endpoint" where
  "IPEndPoint_addr junk a port =
     IPEndPoint_put_Port port \<lparr>ep_Address = IPAddress_assign junk a, ep_m_port = 0\<rparr>"

definition IPEndPoint_assign :: "ip_endpoint \<Rightarrow> ip_endpoint \<Rightarrow> ip_endpoint" where
  "IPEndPoint_assign this ep =
     IPEndPoint_put_Port (IPEndPoint_get_Port ep)
       (this\<lparr>ep_Address := IPAddress_assign (ep_Address this) (ep_Address ep)\<rparr>)"

definition IPEndPoint_sockaddr_len :: "ip_endpoint \<Rightarrow> nat res" where
  "IPEndPoint_sockaddr_len ep =
     (if sa_family (ep_Address ep) = AF_INET then Inr 16
      else if sa_family (ep_Address ep) = AF_INET6 then Inr 28
      else Inl UnknownHostAddressType)"

definition IPEndPoint_Print :: "(byte list \<Rightarrow> string option) \<Rightarrow> ip_endpoint \<Rightarrow> string" where
  "IPEndPoint_Print inet_ntop ep =
     (let a = IPAddress_Print inet_ntop (ep_Address ep)
      in (if sa_family (ep_Address ep) = AF_INET6 then ''['' @ a @ '']'' else a)
         @ '':'' @ nat_string (unat (IPEndPoint_get_Port ep)))"

definition IPEndPoint_less :: "ip_endpoint \<Rightarrow> ip_endpoint \<Rightarrow> bool res" where
  "IPEndPoint_less this hp =
     bind_res (IPAddress_less (ep_Address this) (ep_Address hp)) (\<lambda>lt.
       if lt then Inr True
       else bind_res (IPAddress_eq (ep_Address this) (ep_Address hp)) (\<lambda>eq.
         Inr (eq \<and> IPEndPoint_get_Port this < IPEndPoint_get_Port hp)))"

definition IPEndPoint_eq :: "ip_endpoint \<Rightarrow> ip_endpoint \<Rightarrow> bool res" where
  "IPEndPoint_eq this hp =
     bind_res (IPAddress_eq (ep_Address this) (ep_Address hp)) (\<lambda>eq.
       Inr (eq \<and> sin_port (ep_Address this) = sin_port (ep_Address hp)))"

definition IPEndPoint_hash ::
    "(u16 \<Rightarrow> u64) \<Rightarrow> (u32 \<Rightarrow> u64) \<Rightarrow> (byte list \<Rightarrow> u64) \<Rightarrow> ip_endpoint \<Rightarrow> u64 res" where
  "IPEndPoint_hash hash16 hash32 hash_span ep =
     bind_res (IPAddress_GetHashCode hash16 hash32 hash_span (ep_Address ep)) (\<lambda>h.
       Inr (h XOR hash16 (IPEndPoint_get_Port ep)))"

definition Write_IPEndPoint :: "ip_endpoint \<Rightarrow> byte list" where
  "Write_IPEndPoint hp = Write_IPAddress (ep_Address hp) @ WriteType (IPEndPoint_get_Port hp)"

definition Read_IPEndPoint ::
    "'s reader \<Rightarrow> ip_endpoint \<Rightarrow> 's \<Rightarrow> ip_endpoint res \<times> 's" where
  "Read_IPEndPoint read hp s =
     (case Read_IPAddress read (ep_Address hp) s of
        (Inl e, s') \<Rightarrow> (Inl e, s')
      | (Inr a, s') \<Rightarrow>
          (case BinaryReader_ReadType read s' of
             (Inl e, s'') \<Rightarrow> (Inl e, s'')
           | (Inr p, s'') \<Rightarrow> (Inr (IPEndPoint_put_Port p (hp\<lparr>ep_Address := a\<rparr>)), s'')))"

section \<open>Well-formed addresses\<close>

definition ip_wf :: "ip_address \<Rightarrow> bool" where
  "ip_wf a \<longleftrightarrow> length (sin_port a) = 2 \<and> length (sin_addr a) = 4 \<and> length (sin6_addr a) = 16
     \<and> length (sin6_scope a) = 4"

definition ip_inet :: "ip_address \<Rightarrow> bool" where
  "ip_inet a \<longleftrightarrow> ip_wf a \<and> (sa_family a = AF_INET \<or> sa_family a = AF_INET6)"

lemma ip_wf_CreateCommon [wf, simp]: "ip_wf IPAddress_CreateCommon"
  by (simp add: ip_wf_def IPAddress_CreateCommon_def)

lemma ip_wf_assign [wf]: "ip_wf a \<Longrightarrow> ip_wf b \<Longrightarrow> ip_wf (IPAddress_assign a b)"
  by (simp add: ip_wf_def IPAddress_assign_def Let_def)

lemma ip_wf_put_Port [wf]:
  "ip_wf (ep_Address ep) \<Longrightarrow> ip_wf (ep_Address (IPEndPoint_put_Port p ep))"
  by (simp add: ip_wf_def IPEndPoint_put_Port_def htons_def)

lemma get_put_Port [simp]: "IPEndPoint_get_Port (IPEndPoint_put_Port p ep) = p"
  by (simp add: IPEndPoint_get_Port_def IPEndPoint_put_Port_def htons_def)

lemma memcmp_eq_0: "length xs = length ys \<Longrightarrow> memcmp xs ys = 0 \<longleftrightarrow> xs = ys"
  by (induction xs ys rule: memcmp.induct) (auto split: if_splits)

lemma le_word_eq_iff:
  assumes "length xs = length ys" and "8 * length xs \<le> LENGTH('a::len)"
  shows "(le_word xs :: 'a word) = le_word ys \<longleftrightarrow> xs = ys"
  using bytes_le_le_word [of xs, where 'a = 'a] bytes_le_le_word [of ys, where 'a = 'a] assms
  by metis

lemma IPAddress_eq_inet:
  assumes "ip_inet a" and "ip_inet b"
  shows "IPAddress_eq a b =
    Inr (sa_family a = sa_family b
      \<and> IPAddress_GetAddressBytes a = IPAddress_GetAddressBytes b)"
  using assms
  by (auto simp: IPAddress_eq_def IPAddress_GetAddressBytes_def ip_inet_def ip_wf_def
      FamilySize_def memcmp_eq_0 le_word_eq_iff)

section \<open>The order of addresses and endpoints\<close>

text \<open>A byte string read as a number, most significant byte first.\<close>

fun be_nat :: "byte list \<Rightarrow> nat" where
  "be_nat [] = 0"
| "be_nat (b # bs) = unat b * 256 ^ length bs + be_nat bs"

lemma unat_byte_less [simp]: "unat (b :: byte) < 256"
  using unsigned_less [of b, where 'a = nat] by simp

lemma be_nat_less: "be_nat bs < 256 ^ length bs"
proof (induction bs)
  case (Cons b bs)
  have "be_nat (b # bs) < unat b * 256 ^ length bs + 256 ^ length bs"
    using Cons.IH by simp
  also have "\<dots> = (unat b + 1) * 256 ^ length bs" by (simp add: algebra_simps)
  also have "\<dots> \<le> 256 * 256 ^ length bs"
    using unat_byte_less [of b] by (intro mult_right_mono) linarith+
  finally show ?case by simp
qed simp

lemma radix_less:
  fixes a b x y N :: nat
  assumes "x < N" and "y < N"
  shows "a * N + x < b * N + y \<longleftrightarrow> a < b \<or> a = b \<and> x < y"
proof (cases a b rule: linorder_cases)
  case less
  then have "Suc a * N \<le> b * N" by (intro mult_right_mono) simp_all
  then show ?thesis using assms less by simp
next
  case greater
  then have "Suc b * N \<le> a * N" by (intro mult_right_mono) simp_all
  then show ?thesis using assms greater by simp
qed simp

lemma radix_eq:
  fixes a b x y N :: nat
  assumes "x < N" and "y < N"
  shows "a * N + x = b * N + y \<longleftrightarrow> a = b \<and> x = y"
  using radix_less [OF assms, of a b] radix_less [OF assms(2,1), of b a] by linarith

lemma memcmp_be_nat:
  assumes "length xs = length ys"
  shows "memcmp xs ys < 0 \<longleftrightarrow> be_nat xs < be_nat ys"
  using assms
proof (induction xs ys rule: list_induct2)
  case (Cons x xs y ys)
  have "be_nat xs < 256 ^ length ys" "be_nat ys < 256 ^ length ys"
    using be_nat_less [of xs] be_nat_less [of ys] Cons.hyps by simp_all
  then show ?case
    using Cons by (auto simp: radix_less word_less_nat_alt)
qed simp

lemma be_nat_inj: "length xs = length ys \<Longrightarrow> be_nat xs = be_nat ys \<longleftrightarrow> xs = ys"
proof (induction xs ys rule: list_induct2)
  case (Cons x xs y ys)
  have "be_nat xs < 256 ^ length ys" "be_nat ys < 256 ^ length ys"
    using be_nat_less [of xs] be_nat_less [of ys] Cons.hyps by simp_all
  then show ?case
    using Cons by (auto simp: radix_eq word_unat_eq_iff)
qed simp

text \<open>The number an internet address stands for, and the key of an endpoint.\<close>

definition ip_bytes :: "ip_address \<Rightarrow> byte list" where
  "ip_bytes a = (if sa_family a = AF_INET then sin_addr a else sin6_addr a)"

definition ip_key :: "ip_address \<Rightarrow> nat" where
  "ip_key a = unat (sa_family a) * 256 ^ 16 + be_nat (ip_bytes a)"

definition ep_key :: "ip_endpoint \<Rightarrow> nat" where
  "ep_key ep = ip_key (ep_Address ep) * 65536 + unat (IPEndPoint_get_Port ep)"

lemma be_nat_ip_less: "ip_inet a \<Longrightarrow> be_nat (ip_bytes a) < 256 ^ 16"
  using be_nat_less [of "ip_bytes a"] by (auto simp: ip_inet_def ip_wf_def ip_bytes_def)

lemma IPAddress_less_key:
  assumes "ip_inet a" and "ip_inet b"
  shows "IPAddress_less a b = Inr (ip_key a < ip_key b)"
  using assms radix_less [OF assms [THEN be_nat_ip_less]]
  by (auto simp: IPAddress_less_def ip_key_def ip_inet_def ip_wf_def memcmp_be_nat ip_bytes_def)

lemma IPAddress_eq_key:
  assumes "ip_inet a" and "ip_inet b"
  shows "IPAddress_eq a b = Inr (ip_key a = ip_key b)"
  using assms radix_eq [OF assms [THEN be_nat_ip_less]]
  by (auto simp: IPAddress_eq_def ip_key_def ip_inet_def ip_wf_def memcmp_eq_0 le_word_eq_iff
      be_nat_inj ip_bytes_def)

lemma be_word_eq_iff:
  assumes "length xs = length ys" and "8 * length xs \<le> LENGTH('a::len)"
  shows "(be_word xs :: 'a word) = be_word ys \<longleftrightarrow> xs = ys"
  using le_word_eq_iff [of "rev xs" "rev ys", where 'a = 'a] assms by (simp add: be_word_def)

lemma port_eq_iff:
  assumes "length (sin_port a) = 2" and "length (sin_port b) = 2"
  shows "(be_word (sin_port a) :: u16) = be_word (sin_port b) \<longleftrightarrow> sin_port a = sin_port b"
  using assms by (intro be_word_eq_iff) simp_all

lemma port_less [simp]: "unat (p :: u16) < 65536"
  using unsigned_less [of p, where 'a = nat] by simp

lemma IPEndPoint_less_key:
  assumes "ip_inet (ep_Address a)" and "ip_inet (ep_Address b)"
  shows "IPEndPoint_less a b = Inr (ep_key a < ep_key b)"
  by (auto simp: IPEndPoint_less_def IPAddress_less_key [OF assms] IPAddress_eq_key [OF assms]
      ep_key_def radix_less [OF port_less port_less] word_less_nat_alt)

lemma IPEndPoint_eq_key:
  assumes "ip_inet (ep_Address a)" and "ip_inet (ep_Address b)"
  shows "IPEndPoint_eq a b = Inr (ep_key a = ep_key b)"
proof -
  have "sin_port (ep_Address a) = sin_port (ep_Address b) \<longleftrightarrow>
      unat (IPEndPoint_get_Port a) = unat (IPEndPoint_get_Port b)"
    using assms port_eq_iff [of "ep_Address a" "ep_Address b"]
    by (simp add: ip_inet_def ip_wf_def IPEndPoint_get_Port_def word_unat_eq_iff)
  then show ?thesis
    by (simp only: IPEndPoint_eq_def IPAddress_eq_key [OF assms] bind_res_simps ep_key_def
        radix_eq [OF port_less port_less])
qed

text \<open>
  \<open>operator<\<close> and \<open>operator==\<close> of endpoints compare one number, the endpoint's key: they are a
  strict total order and its equality, as the ordered and hashed containers need, and an IPv4
  address is ordered as the number it denotes.
\<close>

theorem IPEndPoint_order:
  assumes "ip_inet (ep_Address a)" and "ip_inet (ep_Address b)"
  shows "IPEndPoint_less a b = Inr (ep_key a < ep_key b)
    \<and> IPEndPoint_eq a b = Inr (ep_key a = ep_key b)"
  using IPEndPoint_less_key [OF assms] IPEndPoint_eq_key [OF assms] by simp

lemma ip_inet_host [simp]: "ip_inet (ep_Address (IPEndPoint_host h p))"
  by (simp add: ip_inet_def ip_wf_def IPEndPoint_host_def IPEndPoint_put_Port_def htons_def
      IPAddress_nbo_def IPAddress_CreateCommon_def)

theorem IPEndPoint_order_witness:
  "IPEndPoint_less (IPEndPoint_host 0x0100007F 80) (IPEndPoint_host 0x0200007F 8)
     = Inr (ep_key (IPEndPoint_host 0x0100007F 80) < ep_key (IPEndPoint_host 0x0200007F 8))
   \<and> IPEndPoint_eq (IPEndPoint_host 0x0100007F 80) (IPEndPoint_host 0x0200007F 8)
     = Inr (ep_key (IPEndPoint_host 0x0100007F 80) = ep_key (IPEndPoint_host 0x0200007F 8))"
  by (rule IPEndPoint_order) simp_all

section \<open>Serialised endpoints\<close>

context stream
begin

lemma Read_IPAddress_write:
  assumes "inv s" and "content s = Write_IPAddress a @ rest" and "ip_inet a"
  shows "\<exists>s' a'. Read_IPAddress read ha s = (Inr a', s') \<and> inv s' \<and> content s' = rest
    \<and> sa_family a' = sa_family a \<and> ip_bytes a' = ip_bytes a \<and> sin_port a' = sin_port ha
    \<and> length (sin_addr a') = 4 \<and> length (sin6_addr a') = 16 \<and> length (sin6_scope a') = 4"
proof -
  have split: "content s = WriteType (sa_family a) @ ip_bytes a @ rest"
    using assms(2,3) by (auto simp: Write_IPAddress_def ip_bytes_def ip_inet_def)
  obtain s1 where r1: "BinaryReader_ReadType read s = (Inr (sa_family a), s1)" "inv s1"
      "content s1 = ip_bytes a @ rest"
    using ReadType_write [OF assms(1) split] by auto
  have len: "length (ip_bytes a) = (if sa_family a = AF_INET then 4 else 16)"
    using assms(3) by (auto simp: ip_inet_def ip_wf_def ip_bytes_def)
  obtain s2 where r2: "Stream_ReadExactly read s1 (if sa_family a = AF_INET then 4 else 16)
      = (Inr (ip_bytes a), s2)" "inv s2" "content s2 = rest"
    using ReadExactly_ok [OF r1(2), of "length (ip_bytes a)"] r1(3) len by auto
  show ?thesis
    using assms(3) r2 len unfolding Read_IPAddress_def r1(1)
    by (auto simp: Let_def IPAddress_assign_def IPAddress_CreateCommon_def ip_inet_def ip_bytes_def)
qed

lemma Read_IPEndPoint_write:
  assumes "inv s" and "content s = Write_IPEndPoint ep @ rest" and "ip_inet (ep_Address ep)"
  shows "\<exists>s' ep'. Read_IPEndPoint read hp s = (Inr ep', s') \<and> inv s' \<and> content s' = rest
    \<and> ip_inet (ep_Address ep') \<and> ep_key ep' = ep_key ep"
proof -
  obtain s1 a where r1: "Read_IPAddress read (ep_Address hp) s = (Inr a, s1)" "inv s1"
      "content s1 = WriteType (IPEndPoint_get_Port ep) @ rest"
      "sa_family a = sa_family (ep_Address ep)" "ip_bytes a = ip_bytes (ep_Address ep)"
      "length (sin_addr a) = 4" "length (sin6_addr a) = 16" "length (sin6_scope a) = 4"
    using Read_IPAddress_write [OF assms(1) _ assms(3), of "WriteType (IPEndPoint_get_Port ep) @ rest"
        "ep_Address hp"] assms(2) by (auto simp: Write_IPEndPoint_def)
  obtain s2 where r2: "BinaryReader_ReadType read s1 = (Inr (IPEndPoint_get_Port ep), s2)"
      "inv s2" "content s2 = rest"
    using ReadType_write [OF r1(2,3)] by auto
  let ?ep = "IPEndPoint_put_Port (IPEndPoint_get_Port ep) (hp\<lparr>ep_Address := a\<rparr>)"
  have "ip_inet (ep_Address ?ep)"
    using assms(3) r1(4,6,7,8) by (auto simp: ip_inet_def ip_wf_def IPEndPoint_put_Port_def htons_def)
  moreover have "ip_key (ep_Address ?ep) = ip_key (ep_Address ep)"
    using r1(4,5) by (cases "sa_family a = AF_INET")
      (simp_all add: ip_key_def IPEndPoint_put_Port_def ip_bytes_def)
  ultimately show ?thesis
    using r2 by (simp add: Read_IPEndPoint_def r1(1) ep_key_def)
qed

end

text \<open>
  An internet endpoint written by \<open>operator<<\<close> and read by \<open>operator>>\<close> over any other endpoint
  compares equal to the original, port included, and the stream is left right after it.
\<close>

theorem IPEndPoint_roundtrip:
  assumes "mem_inv s" and "mem_content s = Write_IPEndPoint ep @ rest"
    and "ip_inet (ep_Address ep)"
  shows "\<exists>s' ep'. Read_IPEndPoint CMemReadStream_Read hp s = (Inr ep', s')
    \<and> mem_content s' = rest \<and> IPEndPoint_eq ep' ep = Inr True
    \<and> IPEndPoint_less ep' ep = Inr False \<and> IPEndPoint_less ep ep' = Inr False"
proof -
  obtain s' ep' where r: "Read_IPEndPoint CMemReadStream_Read hp s = (Inr ep', s')"
      "mem_content s' = rest" "ip_inet (ep_Address ep')" "ep_key ep' = ep_key ep"
    using mem.Read_IPEndPoint_write [OF assms, of hp] by auto
  then show ?thesis
    using IPEndPoint_less_key IPEndPoint_eq_key assms(3) by auto
qed

theorem IPEndPoint_roundtrip_witness:
  "\<exists>s' ep'. Read_IPEndPoint CMemReadStream_Read (IPEndPoint_host 0 0)
      (CMemReadStream (Write_IPEndPoint (IPEndPoint_host 0x0100007F 80) @ [])) = (Inr ep', s')
    \<and> mem_content s' = [] \<and> IPEndPoint_eq ep' (IPEndPoint_host 0x0100007F 80) = Inr True
    \<and> IPEndPoint_less ep' (IPEndPoint_host 0x0100007F 80) = Inr False
    \<and> IPEndPoint_less (IPEndPoint_host 0x0100007F 80) ep' = Inr False"
  by (rule IPEndPoint_roundtrip) (simp_all add: mem_defs)

section \<open>Which addresses are global\<close>

lemma be_word_and:
  assumes "length xs = length ys"
  shows "(be_word xs AND be_word ys :: 'a::len word) = be_word (map2 (AND) xs ys)"
proof (rule bit_word_eqI)
  fix i
  assume "i < LENGTH('a)"
  have "rev (map2 (AND) xs ys) ! (i div 8) = rev xs ! (i div 8) AND rev ys ! (i div 8)"
    if "i div 8 < length xs"
    using that assms by (simp add: rev_nth)
  then show "bit (be_word xs AND be_word ys :: 'a word) i
      = bit (be_word (map2 (AND) xs ys) :: 'a word) i"
    using assms by (auto simp: be_word_def bit_le_word bit_and_iff)
qed

lemma high_nibble:
  "b AND 0xF0 = 0x10 \<longleftrightarrow> unat b div 16 = 1" for b :: byte
proof -
  have "b AND 0xF0 = 0x10 \<longleftrightarrow> bit b 4 \<and> \<not> bit b 5 \<and> \<not> bit b 6 \<and> \<not> bit b 7"
  proof
    assume h: "b AND 0xF0 = 0x10"
    have "bit (b AND 0xF0) n = bit (0x10 :: byte) n" for n by (simp only: h)
    from this [of 4] this [of 5] this [of 6] this [of 7]
    show "bit b 4 \<and> \<not> bit b 5 \<and> \<not> bit b 6 \<and> \<not> bit b 7" by (simp add: bit_simps)
  next
    assume "bit b 4 \<and> \<not> bit b 5 \<and> \<not> bit b 6 \<and> \<not> bit b 7"
    then show "b AND 0xF0 = 0x10"
      by (intro bit_word_eqI) (auto simp: bit_simps less_Suc_eq numeral_eq_Suc)
  qed
  also have "\<dots> \<longleftrightarrow> drop_bit 4 b = 1"
  proof
    assume "bit b 4 \<and> \<not> bit b 5 \<and> \<not> bit b 6 \<and> \<not> bit b 7"
    then show "drop_bit 4 b = 1"
      by (intro bit_word_eqI)
        (auto simp: bit_simps less_Suc_eq numeral_eq_Suc dest: bit_byte_less)
  next
    assume h: "drop_bit 4 b = 1"
    have "bit (drop_bit 4 b) n = bit (1 :: byte) n" for n by (simp only: h)
    from this [of 0] this [of 1] this [of 2] this [of 3]
    show "bit b 4 \<and> \<not> bit b 5 \<and> \<not> bit b 6 \<and> \<not> bit b 7" by (simp add: bit_simps)
  qed
  also have "\<dots> \<longleftrightarrow> unat b div 16 = 1"
    unfolding word_unat_eq_iff unat_drop_bit_eq by (simp add: drop_bit_eq_div)
  finally show ?thesis .
qed

lemma byte_and_255 [simp]: "b AND 255 = b" for b :: byte
  by (rule bit_word_eqI) (auto simp: bit_simps less_Suc_eq numeral_eq_Suc)

lemma ip_masks:
  "0xFF000000 = be32 [0xFF, 0, 0, 0]" "0xFFFF0000 = be32 [0xFF, 0xFF, 0, 0]"
  "0xFFF00000 = be32 [0xFF, 0xF0, 0, 0]" "0x7F000000 = be32 [0x7F, 0, 0, 0]"
  "0xC0A80000 = be32 [0xC0, 0xA8, 0, 0]" "0xAC100000 = be32 [0xAC, 0x10, 0, 0]"
  "0x0A000000 = be32 [0x0A, 0, 0, 0]" "0xA9FE0000 = be32 [0xA9, 0xFE, 0, 0]"
  "0 = be32 [0, 0, 0, 0]"
  by (simp_all add: be_word_def le_word_def)

text \<open>
  \<open>IsGlobal\<close> of an IPv4 address \<open>a.b.c.d\<close>: not \<open>0.0.0.0\<close>, not in \<open>127/8\<close>, \<open>10/8\<close>,
  \<open>192.168/16\<close>, \<open>169.254/16\<close> nor \<open>172.16/12\<close>.
\<close>

theorem IsGlobal_ipv4:
  assumes "sa_family ip = AF_INET" and "sin_addr ip = [a, b, c, d]"
  shows "IPAddress_IsGlobal ip = Inr ([a, b, c, d] \<noteq> [0, 0, 0, 0] \<and> a \<noteq> 127 \<and> a \<noteq> 10
    \<and> [a, b] \<noteq> [192, 168] \<and> [a, b] \<noteq> [169, 254] \<and> \<not> (a = 172 \<and> unat b div 16 = 1))"
proof -
  have and_eq: "(be32 [a, b, c, d] AND be32 [m, n, 0, 0] = be32 [k, l, 0, 0]) =
      (a AND m = k \<and> b AND n = l)" for m n k l
    by (simp add: be_word_and be_word_eq_iff)
  have zero: "(be32 [a, b, c, d] = be32 [0, 0, 0, 0]) = ([a, b, c, d] = [0, 0, 0, 0])"
    by (rule be_word_eq_iff) simp_all
  show ?thesis
    unfolding IPAddress_IsGlobal_def Let_def assms ip_masks zero and_eq
    by (auto simp: high_nibble)
qed

theorem IsGlobal_ipv4_witness:
  "IPAddress_IsGlobal (IPAddress_nbo 0x01FE10AC) = Inr False"
  using IsGlobal_ipv4 [of "IPAddress_nbo 0x01FE10AC" 172 16 254 1]
  by (simp add: IPAddress_nbo_def IPAddress_CreateCommon_def bytes_le_def upt_rec drop_bit_eq_div)

text \<open>
  \<open>IsIPv4MappedToIPv6\<close> compares with the wrong bytes: no IPv4-mapped address of RFC 4291
  (\<open>::ffff:a.b.c.d\<close>) is recognised.
\<close>

theorem IPv4_mapped_not_recognised:
  "IPAddress_span (replicate 10 0 @ [0xFF, 0xFF, a, b, c, d]) = Inr ip
    \<Longrightarrow> \<not> IPAddress_IsIPv4MappedToIPv6 ip"
  using replicate_Suc [of 9 "0 :: byte"]
  by (auto simp: IPAddress_span_def IPAddress_IsIPv4MappedToIPv6_def mapped_prefix_def)

theorem IPv4_mapped_not_recognised_witness:
  "\<not> IPAddress_IsIPv4MappedToIPv6
     (IPAddress_CreateCommon\<lparr>sa_family := AF_INET6,
        sin6_addr := replicate 10 0 @ [0xFF, 0xFF, 1, 2, 3, 4]\<rparr>)"
  by (rule IPv4_mapped_not_recognised [of 1 2 3 4]) (simp add: IPAddress_span_def)

end
