(* ===== verification/Peers.thy ===== *)
theory Peers
  imports IpAddress "HOL-Library.Multiset"
begin

text \<open>
  The peer manager of a peer-to-peer node, \<open>src/inet/p2p-peers.{h,cpp}\<close>: the known peers, their
  buckets of tried and new addresses, and the operations that move peers between them.  Peers
  are objects shared by pointer, so they live in a heap and the containers hold references.
  Times are ticks of 100 ns since year 1, as in \<open>DateTime\<close>; the current time is an argument of
  the operations that ask the clock.
\<close>

section \<open>Peers\<close>

abbreviation ADDRMAN_TRIED_BUCKET_COUNT :: nat where "ADDRMAN_TRIED_BUCKET_COUNT \<equiv> 64"
abbreviation ADDRMAN_TRIED_BUCKET_SIZE :: nat where "ADDRMAN_TRIED_BUCKET_SIZE \<equiv> 64"
abbreviation ADDRMAN_NEW_BUCKET_COUNT :: nat where "ADDRMAN_NEW_BUCKET_COUNT \<equiv> 256"
abbreviation ADDRMAN_NEW_BUCKET_SIZE :: nat where "ADDRMAN_NEW_BUCKET_SIZE \<equiv> 64"

record peer =
  p_endPoint :: ip_endpoint
  p_services :: u64
  p_lastLive :: int
  p_lastPersistent :: int
  p_lastTry :: int
  p_Misbehavings :: int
  p_Attempts :: int
  p_IsDirty :: bool
  p_banned :: bool

definition new_Peer :: peer where
  "new_Peer = \<lparr>p_endPoint = IPEndPoint_host 0 0, p_services = 0, p_lastLive = 0,
     p_lastPersistent = 0, p_lastTry = 0, p_Misbehavings = 0, p_Attempts = 0,
     p_IsDirty = False, p_banned = False\<rparr>"

definition put_Services :: "u64 \<Rightarrow> peer \<Rightarrow> peer" where
  "put_Services v p = p\<lparr>p_services := v, p_IsDirty := True\<rparr>"

definition put_EndPoint :: "ip_endpoint \<Rightarrow> peer \<Rightarrow> peer" where
  "put_EndPoint ep p = p\<lparr>p_endPoint := IPEndPoint_assign (p_endPoint p) ep, p_IsDirty := True\<rparr>"

definition put_LastLive :: "int \<Rightarrow> peer \<Rightarrow> peer" where
  "put_LastLive dt p = p\<lparr>p_lastLive := dt, p_IsDirty := True\<rparr>"

definition put_LastPersistent :: "int \<Rightarrow> peer \<Rightarrow> peer" where
  "put_LastPersistent dt p = p\<lparr>p_lastPersistent := dt, p_IsDirty := True\<rparr>"

definition put_LastTry :: "int \<Rightarrow> peer \<Rightarrow> peer" where
  "put_LastTry dt p = p\<lparr>p_lastTry := dt, p_IsDirty := True\<rparr>"

definition put_Banned :: "bool \<Rightarrow> peer \<Rightarrow> peer" where
  "put_Banned v p = p\<lparr>p_banned := v, p_IsDirty := True\<rparr>"

abbreviation TicksPerMinute :: int where "TicksPerMinute \<equiv> 600000000"
abbreviation TicksPerDay :: int where "TicksPerDay \<equiv> 864000000000"

definition Peer_IsTerrible :: "int \<Rightarrow> peer \<Rightarrow> bool" where
  "Peer_IsTerrible now p =
     (if p_lastTry p \<noteq> 0 \<and> now - p_lastTry p < TicksPerMinute then False
      else p_lastPersistent p = 0
        \<or> now - p_lastPersistent p > 30 * TicksPerDay
        \<or> (p_lastLive p = 0 \<and> p_Attempts p \<ge> 3)
        \<or> (now - p_lastLive p > 7 * TicksPerDay \<and> p_Attempts p \<ge> 10))"

definition Peer_GetGroup :: "peer \<Rightarrow> byte list res" where
  "Peer_GetGroup p =
     (let ip = ep_Address (p_endPoint p)
      in bind_res (IPAddress_GetAddressBytes ip) (\<lambda>blob.
           if length blob = 4 then Inr [4, blob ! 0, blob ! 1]
           else if IPAddress_IsIPv4MappedToIPv6 ip then Inr [4, blob ! 12, blob ! 13]
           else if IPAddress_IsIPv6Teredo ip
           then Inr [4, blob ! 12 XOR 0xFF, blob ! 13 XOR 0xFF]
           else Inr [6, blob ! 0, blob ! 1, blob ! 2, blob ! 3]))"

text \<open>The hash functions of the standard library and of \<open>hash_value (Span)\<close>, as one record.\<close>

record hashes =
  hash16 :: "u16 \<Rightarrow> u64"
  hash32 :: "u32 \<Rightarrow> u64"
  hash_span :: "byte list \<Rightarrow> u64"

definition Peer_GetHash :: "hashes \<Rightarrow> peer \<Rightarrow> u64 res" where
  "Peer_GetHash hs p =
     bind_res (Peer_GetGroup p) (\<lambda>g.
     bind_res (IPEndPoint_hash (hash16 hs) (hash32 hs) (hash_span hs) (p_endPoint p)) (\<lambda>h.
       Inr (hash_span hs g + h)))"

section \<open>The manager's state\<close>

text \<open>
  Containers keyed by an address use \<open>operator==\<close> or \<open>operator<\<close>, which look at the family and
  the address bytes only: the key.
\<close>

type_synonym ip_id = "u16 \<times> byte list"

definition ip_id :: "ip_address \<Rightarrow> ip_id" where
  "ip_id a = (sa_family a, ip_bytes a)"

record peer_manager =
  pm_heap :: "nat \<Rightarrow> peer"
  pm_next :: nat
  pm_IpToPeer :: "ip_id \<rightharpoonup> nat"
  pm_Tried :: "nat list list"
  pm_New :: "nat list list"
  pm_VecRandom :: "nat list"
  pm_dirty :: bool
  pm_LocalIPs :: "ip_id set"
  pm_BannedIPs :: "ip_id set"
  pm_Links :: "nat list"

definition PeerManager :: peer_manager where
  "PeerManager = \<lparr>pm_heap = (\<lambda>_. new_Peer), pm_next = 0, pm_IpToPeer = Map.empty,
     pm_Tried = replicate ADDRMAN_TRIED_BUCKET_COUNT [],
     pm_New = replicate ADDRMAN_NEW_BUCKET_COUNT [],
     pm_VecRandom = [], pm_dirty = False, pm_LocalIPs = {}, pm_BannedIPs = {}, pm_Links = []\<rparr>"

text \<open>Changing one peer through a pointer, and \<open>Ext::Remove\<close> on a vector.\<close>

definition upd_peer :: "nat \<Rightarrow> (peer \<Rightarrow> peer) \<Rightarrow> peer_manager \<Rightarrow> peer_manager" where
  "upd_peer r f m = m\<lparr>pm_heap := (pm_heap m)(r := f (pm_heap m r))\<rparr>"

definition Ext_Remove :: "nat list \<Rightarrow> nat \<Rightarrow> nat list" where
  "Ext_Remove c v = filter (\<lambda>x. x \<noteq> v) c"

abbreviation peer_ip :: "peer_manager \<Rightarrow> nat \<Rightarrow> ip_address" where
  "peer_ip m r \<equiv> ep_Address (p_endPoint (pm_heap m r))"

definition PeerManager_Remove :: "nat \<Rightarrow> peer_manager \<Rightarrow> peer_manager" where
  "PeerManager_Remove r m =
     m\<lparr>pm_IpToPeer := (pm_IpToPeer m)(ip_id (peer_ip m r) := None),
       pm_VecRandom := Ext_Remove (pm_VecRandom m) r\<rparr>"

section \<open>Buckets\<close>

text \<open>
  The loop of \<open>PeerBucket::Shrink\<close>: the index of the first terrible peer, or else the peer
  seen longest ago (null on an empty bucket).
\<close>

fun Shrink_loop ::
    "(nat \<Rightarrow> peer) \<Rightarrow> int \<Rightarrow> nat \<Rightarrow> nat list \<Rightarrow> nat option \<Rightarrow> nat + nat option" where
  "Shrink_loop h now i [] oldest = Inr oldest"
| "Shrink_loop h now i (r # rs) oldest =
     (if Peer_IsTerrible now (h r) then Inl i
      else Shrink_loop h now (Suc i) rs
        (case oldest of
           None \<Rightarrow> Some r
         | Some q \<Rightarrow> if p_lastPersistent (h r) < p_lastPersistent (h q) then Some r else oldest))"

definition PeerBucket_Shrink ::
    "int \<Rightarrow> nat list \<Rightarrow> peer_manager \<Rightarrow> (nat list \<times> peer_manager) res" where
  "PeerBucket_Shrink now peers m =
     (case Shrink_loop (pm_heap m) now 0 peers None of
        Inl i \<Rightarrow> Inr (take i peers @ drop (Suc i) peers, PeerManager_Remove (peers ! i) m)
      | Inr (Some r) \<Rightarrow> Inr (Ext_Remove peers r, PeerManager_Remove r m)
      | Inr None \<Rightarrow> Inl NullPointer)"

definition PeerBuckets_size :: "nat list list \<Rightarrow> nat" where
  "PeerBuckets_size vec = fold (\<lambda>b r. r + length b) vec 0"

definition PeerBuckets_Contains :: "nat list list \<Rightarrow> nat \<Rightarrow> bool" where
  "PeerBuckets_Contains vec r \<longleftrightarrow> list_ex (\<lambda>b. r \<in> set b) vec"

section \<open>Operations\<close>

definition PeerManager_Attempt :: "int \<Rightarrow> nat \<Rightarrow> peer_manager \<Rightarrow> peer_manager" where
  "PeerManager_Attempt now r m =
     upd_peer r (\<lambda>p. (put_LastTry now p)\<lparr>p_Attempts := p_Attempts p + 1\<rparr>) m"

text \<open>The peer of a bucket that was seen longest ago, as the loop of \<open>Good\<close> finds it.\<close>

fun oldest_peer :: "(nat \<Rightarrow> peer) \<Rightarrow> nat list \<Rightarrow> nat option \<Rightarrow> nat option" where
  "oldest_peer h [] oldest = oldest"
| "oldest_peer h (r # rs) oldest =
     oldest_peer h rs
       (case oldest of
          None \<Rightarrow> Some r
        | Some q \<Rightarrow> if p_lastPersistent (h r) < p_lastPersistent (h q) then Some r else oldest)"

definition bucket_index :: "hashes \<Rightarrow> peer_manager \<Rightarrow> nat \<Rightarrow> nat list list \<Rightarrow> nat res" where
  "bucket_index hs m r vec =
     bind_res (Peer_GetHash hs (pm_heap m r)) (\<lambda>h. Inr (unat h mod length vec))"

definition PeerManager_Good ::
    "hashes \<Rightarrow> int \<Rightarrow> nat \<Rightarrow> peer_manager \<Rightarrow> unit res \<times> peer_manager" where
  "PeerManager_Good hs now r m =
     (let m1 = upd_peer r (\<lambda>p. (put_LastPersistent now (put_LastLive now (put_LastTry now p)))
                 \<lparr>p_Attempts := 0\<rparr>) m
      in if PeerBuckets_Contains (pm_Tried m1) r then (Inr (), m1)
         else
           let m2 = m1\<lparr>pm_New := map (\<lambda>b. Ext_Remove b r) (pm_New m1)\<rparr>
           in case bucket_index hs m2 r (pm_Tried m2) of
                Inl e \<Rightarrow> (Inl e, m2)
              | Inr i \<Rightarrow>
                  let bucket = pm_Tried m2 ! i
                  in if length bucket < ADDRMAN_TRIED_BUCKET_SIZE
                     then (Inr (), m2\<lparr>pm_Tried := (pm_Tried m2)[i := bucket @ [r]]\<rparr>)
                     else
                       (case oldest_peer (pm_heap m2) bucket None of
                          None \<Rightarrow> (Inl NullPointer, m2)
                        | Some q \<Rightarrow>
                            let m3 = m2\<lparr>pm_Tried := (pm_Tried m2)[i := Ext_Remove bucket q]\<rparr>
                            in case bucket_index hs m3 q (pm_New m3) of
                                 Inl e \<Rightarrow> (Inl e, m3)
                               | Inr j \<Rightarrow>
                                   (Inr (), m3\<lparr>pm_New := (pm_New m3)[j := pm_New m3 ! j @ [q]]\<rparr>)))"

definition inet_family :: "ip_address \<Rightarrow> bool" where
  "inet_family a \<longleftrightarrow> sa_family a = AF_INET \<or> sa_family a = AF_INET6"

text \<open>\<open>Find\<close> and \<open>IsBanned\<close> hash the address, which throws for any other family.\<close>

definition PeerManager_Find :: "ip_address \<Rightarrow> peer_manager \<Rightarrow> nat option res" where
  "PeerManager_Find ip m =
     (if inet_family ip then Inr (pm_IpToPeer m (ip_id ip)) else Inl UnknownHostAddressType)"

definition NetManager_IsBanned :: "ip_address \<Rightarrow> peer_manager \<Rightarrow> bool res" where
  "NetManager_IsBanned ip m =
     (if inet_family ip then Inr (ip_id ip \<in> pm_BannedIPs m) else Inl UnknownHostAddressType)"

definition NetManager_BanPeer :: "nat \<Rightarrow> peer_manager \<Rightarrow> peer_manager" where
  "NetManager_BanPeer r m =
     (let m1 = upd_peer r (put_Banned True) m
      in m1\<lparr>pm_BannedIPs := insert (ip_id (peer_ip m1 r)) (pm_BannedIPs m1)\<rparr>)"

definition NetManager_IsLocal :: "ip_address \<Rightarrow> peer_manager \<Rightarrow> bool" where
  "NetManager_IsLocal ip m \<longleftrightarrow> ip_id ip \<in> pm_LocalIPs m"

definition NetManager_AddLocal :: "ip_address \<Rightarrow> peer_manager \<Rightarrow> peer_manager" where
  "NetManager_AddLocal ip m = m\<lparr>pm_LocalIPs := insert (ip_id ip) (pm_LocalIPs m)\<rparr>"

definition PeerManager_IsRoutable :: "ip_address \<Rightarrow> peer_manager \<Rightarrow> bool res" where
  "PeerManager_IsRoutable ip m =
     (if IPAddress_IsEmpty ip then Inr False
      else bind_res (IPAddress_IsGlobal ip) (\<lambda>g. Inr (g \<and> \<not> NetManager_IsLocal ip m)))"

text \<open>
  \<open>PeerManager::Add\<close>, in three parts: the checks, finding or creating the peer (with the flag
  whether to go on to the bucket), and putting it into its bucket of new peers.
\<close>

definition Add_check :: "ip_address \<Rightarrow> bool \<Rightarrow> peer_manager \<Rightarrow> bool res" where
  "Add_check ip bRequireRoutable m =
     bind_res (if bRequireRoutable then PeerManager_IsRoutable ip m else Inr True) (\<lambda>ok.
       if \<not> ok then Inr False
       else bind_res (NetManager_IsBanned ip m) (\<lambda>banned. Inr (\<not> banned)))"

definition Add_find ::
    "ip_endpoint \<Rightarrow> u64 \<Rightarrow> int \<Rightarrow> int \<Rightarrow> peer_manager \<Rightarrow> bool \<times> nat \<times> peer_manager" where
  "Add_find ep services dt penalty m =
     (case pm_IpToPeer m (ip_id (ep_Address ep)) of
        Some r \<Rightarrow>
          let m1 = (if dt \<noteq> 0 then upd_peer r (put_LastPersistent (max 0 (dt - penalty))) m else m);
              m2 = upd_peer r (\<lambda>p. put_Services (p_services p OR services) p) m1
          in (\<not> PeerBuckets_Contains (pm_Tried m2) r, r, m2)
      | None \<Rightarrow>
          let r = pm_next m;
              p = put_LastPersistent (max 0 (dt - penalty))
                    (put_Services services (put_EndPoint ep new_Peer))
          in (True, r, m\<lparr>pm_heap := (pm_heap m)(r := p), pm_next := Suc r,
                pm_IpToPeer := (pm_IpToPeer m)(ip_id (ep_Address ep) \<mapsto> r),
                pm_VecRandom := pm_VecRandom m @ [r]\<rparr>))"

definition Add_bucket ::
    "hashes \<Rightarrow> int \<Rightarrow> nat \<Rightarrow> peer_manager \<Rightarrow> unit res \<times> peer_manager" where
  "Add_bucket hs now r m =
     (case bucket_index hs m r (pm_New m) of
        Inl e \<Rightarrow> (Inl e, m)
      | Inr i \<Rightarrow>
          let bucket = pm_New m ! i
          in if r \<in> set bucket then (Inr (), m)
             else if length bucket \<ge> ADDRMAN_NEW_BUCKET_SIZE then
               (case PeerBucket_Shrink now bucket m of
                  Inl e \<Rightarrow> (Inl e, m)
                | Inr (bucket', m') \<Rightarrow> (Inr (), m'\<lparr>pm_New := (pm_New m')[i := bucket' @ [r]]\<rparr>))
             else (Inr (), m\<lparr>pm_New := (pm_New m)[i := bucket @ [r]]\<rparr>))"

definition PeerManager_Add ::
    "hashes \<Rightarrow> int \<Rightarrow> ip_endpoint \<Rightarrow> u64 \<Rightarrow> int \<Rightarrow> int \<Rightarrow> bool \<Rightarrow> peer_manager
     \<Rightarrow> nat option res \<times> peer_manager" where
  "PeerManager_Add hs now ep services dt penalty bRequireRoutable m =
     (case Add_check (ep_Address ep) bRequireRoutable m of
        Inl e \<Rightarrow> (Inl e, m)
      | Inr False \<Rightarrow> (Inr None, m)
      | Inr True \<Rightarrow>
          (case Add_find ep services dt penalty (m\<lparr>pm_dirty := True\<rparr>) of
             (False, r, m1) \<Rightarrow> (Inr None, m1)
           | (True, r, m1) \<Rightarrow>
               (case Add_bucket hs now r m1 of
                  (Inl e, m2) \<Rightarrow> (Inl e, m2)
                | (Inr _, m2) \<Rightarrow>
                    (Inr (Some r), upd_peer r (\<lambda>p. p\<lparr>p_IsDirty := True\<rparr>) m2))))"

text \<open>
  \<open>GetPeers\<close> shuffles the vector; \<open>shuffle\<close> is the permutation \<open>std::shuffle\<close> makes.  The
  bound is converted to \<open>size_t\<close>, so a negative one does not bound.
\<close>

definition PeerManager_GetPeers ::
    "(nat list \<Rightarrow> nat list) \<Rightarrow> int \<Rightarrow> peer_manager \<Rightarrow> nat list \<times> peer_manager" where
  "PeerManager_GetPeers shuffle nMax m =
     (let v = shuffle (pm_VecRandom m)
      in (take (min (nat (nMax mod 2 ^ 64)) (length v)) v, m\<lparr>pm_VecRandom := v\<rparr>))"

definition PeerManager_GetAllPeers :: "peer_manager \<Rightarrow> nat list" where
  "PeerManager_GetAllPeers m = pm_VecRandom m"

definition PeerManager_AddLink :: "nat \<Rightarrow> peer_manager \<Rightarrow> peer_manager" where
  "PeerManager_AddLink l m = m\<lparr>pm_Links := pm_Links m @ [l]\<rparr>"

definition PeerManager_OnCloseLink :: "nat \<Rightarrow> peer_manager \<Rightarrow> peer_manager" where
  "PeerManager_OnCloseLink l m = m\<lparr>pm_Links := Ext_Remove (pm_Links m) l\<rparr>"

section \<open>The invariant\<close>

text \<open>
  A vector of buckets is \<open>placed\<close> when every element is in the bucket its hash selects, once.
\<close>

definition placed :: "(nat \<Rightarrow> nat) \<Rightarrow> nat list list \<Rightarrow> bool" where
  "placed idx vec \<longleftrightarrow>
     (\<forall>i<length vec. distinct (vec ! i) \<and> (\<forall>r\<in>set (vec ! i). idx r = i))"

definition in_buckets :: "nat list list \<Rightarrow> nat \<Rightarrow> bool" where
  "in_buckets vec r \<longleftrightarrow> (\<exists>i<length vec. r \<in> set (vec ! i))"

definition peer_hash :: "hashes \<Rightarrow> peer \<Rightarrow> nat" where
  "peer_hash hs p = (case Peer_GetHash hs p of Inl _ \<Rightarrow> 0 | Inr h \<Rightarrow> unat h)"

definition slot :: "hashes \<Rightarrow> peer_manager \<Rightarrow> nat \<Rightarrow> nat \<Rightarrow> nat" where
  "slot hs m n r = peer_hash hs (pm_heap m r) mod n"

text \<open>
  The index and the vector of known peers agree: the index maps exactly the addresses of the
  peers in the vector, each to its peer.  No raw pointer of the vector is without an owner.
\<close>

definition registry_inv :: "peer_manager \<Rightarrow> bool" where
  "registry_inv m \<longleftrightarrow> distinct (pm_VecRandom m)
     \<and> (\<forall>k r. pm_IpToPeer m k = Some r \<longleftrightarrow> r \<in> set (pm_VecRandom m) \<and> ip_id (peer_ip m r) = k)
     \<and> (\<forall>r\<in>set (pm_VecRandom m). r < pm_next m \<and> ip_inet (peer_ip m r))"

definition buckets_inv :: "hashes \<Rightarrow> peer_manager \<Rightarrow> bool" where
  "buckets_inv hs m \<longleftrightarrow>
     length (pm_Tried m) = ADDRMAN_TRIED_BUCKET_COUNT
     \<and> length (pm_New m) = ADDRMAN_NEW_BUCKET_COUNT
     \<and> (\<forall>b\<in>set (pm_Tried m). length b \<le> ADDRMAN_TRIED_BUCKET_SIZE)
     \<and> placed (slot hs m ADDRMAN_TRIED_BUCKET_COUNT) (pm_Tried m)
     \<and> placed (slot hs m ADDRMAN_NEW_BUCKET_COUNT) (pm_New m)
     \<and> (\<forall>r. in_buckets (pm_Tried m) r \<longrightarrow> \<not> in_buckets (pm_New m) r)
     \<and> (\<forall>r. in_buckets (pm_Tried m) r \<or> in_buckets (pm_New m) r \<longrightarrow> r \<in> set (pm_VecRandom m))"

definition pm_inv :: "hashes \<Rightarrow> peer_manager \<Rightarrow> bool" where
  "pm_inv hs m \<longleftrightarrow> registry_inv m \<and> buckets_inv hs m"

subsection \<open>Buckets\<close>

lemma placedD:
  assumes "placed idx vec" and "i < length vec"
  shows "distinct (vec ! i)" and "r \<in> set (vec ! i) \<Longrightarrow> idx r = i"
  using assms by (auto simp: placed_def)

lemma placed_update [wf]:
  assumes "placed idx vec" and "distinct b" and "\<And>r. r \<in> set b \<Longrightarrow> idx r = i"
  shows "placed idx (vec[i := b])"
  unfolding placed_def
proof (intro allI impI)
  fix j
  assume j: "j < length (vec[i := b])"
  show "distinct (vec[i := b] ! j) \<and> (\<forall>r\<in>set (vec[i := b] ! j). idx r = j)"
    using assms j by (cases "j = i") (auto simp: placed_def)
qed

lemma placed_Remove [wf]: "placed idx vec \<Longrightarrow> placed idx (map (\<lambda>b. Ext_Remove b r) vec)"
  by (auto simp: placed_def Ext_Remove_def)

lemma in_buckets_placed:
  "placed idx vec \<Longrightarrow> in_buckets vec r \<longleftrightarrow> idx r < length vec \<and> r \<in> set (vec ! idx r)"
  by (auto simp: in_buckets_def placed_def)

lemma in_buckets_update:
  assumes "placed idx vec" and "i < length vec" and "\<And>r. r \<in> set b \<Longrightarrow> idx r = i"
  shows "in_buckets (vec[i := b]) r \<longleftrightarrow> (if idx r = i then r \<in> set b else in_buckets vec r)"
proof -
  have "placed idx (vec[i := []])" using assms(1) by (rule placed_update) simp_all
  show ?thesis
  proof (cases "idx r = i")
    case True
    then show ?thesis
      using assms by (auto simp: in_buckets_def placed_def nth_list_update split: if_splits)
  next
    case False
    then have "j \<noteq> i" if "j < length vec" "r \<in> set (vec[i := b] ! j)" for j
      using assms that by (cases "j = i") auto
    moreover have "j \<noteq> i" if "j < length vec" "r \<in> set (vec ! j)" for j
      using False placedD(2) [OF assms(1) that] by auto
    ultimately show ?thesis
      using False unfolding in_buckets_def length_list_update by (metis nth_list_update_neq)
  qed
qed

lemma in_buckets_push:
  assumes "placed idx vec" and "i < length vec" and "i = idx r"
  shows "in_buckets (vec[i := vec ! i @ [r]]) q \<longleftrightarrow> q = r \<or> in_buckets vec q"
proof -
  have at: "idx q = i" if "q \<in> set (vec ! i @ [r])" for q
    using placedD(2) [OF assms(1,2)] assms(3) that by auto
  have "in_buckets (vec[i := vec ! i @ [r]]) q \<longleftrightarrow>
      (if idx q = i then q \<in> set (vec ! i @ [r]) else in_buckets vec q)"
    using assms(1,2) at by (rule in_buckets_update)
  then show ?thesis
    using in_buckets_placed [OF assms(1), of q] assms(2,3) by (cases "idx q = i") auto
qed

lemma in_buckets_Remove:
  "in_buckets (map (\<lambda>b. Ext_Remove b r) vec) q \<longleftrightarrow> q \<noteq> r \<and> in_buckets vec q"
  by (auto simp: in_buckets_def Ext_Remove_def)

lemma Contains_in_buckets: "PeerBuckets_Contains vec r \<longleftrightarrow> in_buckets vec r"
  unfolding PeerBuckets_Contains_def in_buckets_def list_ex_iff by (metis in_set_conv_nth)

lemma set_Ext_Remove [simp]: "set (Ext_Remove c v) = set c - {v}"
  by (auto simp: Ext_Remove_def)

lemma distinct_Ext_Remove [simp]: "distinct c \<Longrightarrow> distinct (Ext_Remove c v)"
  by (simp add: Ext_Remove_def)

lemma length_Ext_Remove: "length (Ext_Remove c v) \<le> length c"
  by (simp add: Ext_Remove_def)

lemma length_Ext_Remove_mem: "distinct c \<Longrightarrow> v \<in> set c \<Longrightarrow> length (Ext_Remove c v) = length c - 1"
  using distinct_card [of c] distinct_card [of "Ext_Remove c v"]
  by (simp add: card_Diff_singleton)

lemma Ext_Remove_nth:
  assumes "distinct c" and "i < length c"
  shows "take i c @ drop (Suc i) c = Ext_Remove c (c ! i)"
proof -
  have "c = take i c @ c ! i # drop (Suc i) c" using assms(2) by (rule id_take_nth_drop)
  then obtain xs y ys where c: "c = xs @ y # ys" "xs = take i c" "y = c ! i" "ys = drop (Suc i) c"
    by blast
  have "distinct (xs @ y # ys)" using assms(1) c(1) by simp
  then have "y \<notin> set xs" "y \<notin> set ys" by simp_all
  then have "filter (\<lambda>x. x \<noteq> y) xs = xs" "filter (\<lambda>x. x \<noteq> y) ys = ys"
    by (auto intro: filter_True)
  then have "Ext_Remove (xs @ y # ys) y = xs @ ys"
    by (simp add: Ext_Remove_def)
  then have "Ext_Remove c (c ! i) = take i c @ drop (Suc i) c"
    by (simp only: c(2-4) [symmetric] c(1) [symmetric])
  then show ?thesis by (rule sym)
qed

subsection \<open>Hashes\<close>

lemma Peer_GetHash_inet:
  assumes "ip_inet (ep_Address (p_endPoint p))"
  shows "\<exists>h. Peer_GetHash hs p = Inr h"
  using assms
  by (auto simp: Peer_GetHash_def Peer_GetGroup_def IPAddress_GetAddressBytes_def FamilySize_def
      ip_inet_def IPEndPoint_hash_def IPAddress_GetHashCode_def Let_def)

lemma bucket_index_slot:
  assumes "ip_inet (peer_ip m r)"
  shows "bucket_index hs m r vec = Inr (slot hs m (length vec) r)"
  using Peer_GetHash_inet [OF assms, of hs]
  by (auto simp: bucket_index_def slot_def peer_hash_def)

lemma slot_less [simp]: "0 < n \<Longrightarrow> slot hs m n r < n"
  by (simp add: slot_def)

lemma slot_cong:
  assumes "p_endPoint (pm_heap m r) = p_endPoint (pm_heap m' r)"
  shows "slot hs m n r = slot hs m' n r"
  using assms by (simp add: slot_def peer_hash_def Peer_GetHash_def Peer_GetGroup_def)

subsection \<open>Steps that keep the invariant\<close>

text \<open>
  Changes of the heap that leave the endpoints of the registered peers alone, and of fields
  outside the invariant.
\<close>

lemma pm_inv_cong:
  assumes "pm_inv hs m"
    and "pm_IpToPeer m' = pm_IpToPeer m" "set (pm_VecRandom m') = set (pm_VecRandom m)"
      "distinct (pm_VecRandom m')"
      "pm_Tried m' = pm_Tried m" "pm_New m' = pm_New m" "pm_next m' = pm_next m"
    and "\<And>r. p_endPoint (pm_heap m' r) = p_endPoint (pm_heap m r)"
  shows "pm_inv hs m'"
proof -
  have "slot hs m' n = slot hs m n" for n
    using slot_cong [of m' _ m] assms(8) by blast
  then show ?thesis
    using assms by (simp add: pm_inv_def registry_inv_def buckets_inv_def)
qed

lemma pm_inv_upd_peer [wf]:
  assumes "pm_inv hs m" and "\<And>p. p_endPoint (f p) = p_endPoint p"
  shows "pm_inv hs (upd_peer r f m)"
  using assms(1) by (rule pm_inv_cong)
    (use assms in \<open>simp_all add: upd_peer_def pm_inv_def registry_inv_def\<close>)

lemma buckets_invD:
  assumes "buckets_inv hs m"
  shows "length (pm_Tried m) = ADDRMAN_TRIED_BUCKET_COUNT"
    and "length (pm_New m) = ADDRMAN_NEW_BUCKET_COUNT"
    and "placed (slot hs m ADDRMAN_TRIED_BUCKET_COUNT) (pm_Tried m)"
    and "placed (slot hs m ADDRMAN_NEW_BUCKET_COUNT) (pm_New m)"
    and "in_buckets (pm_Tried m) r \<Longrightarrow> \<not> in_buckets (pm_New m) r"
    and "in_buckets (pm_Tried m) r \<Longrightarrow> r \<in> set (pm_VecRandom m)"
    and "in_buckets (pm_New m) r \<Longrightarrow> r \<in> set (pm_VecRandom m)"
    and "b \<in> set (pm_Tried m) \<Longrightarrow> length b \<le> ADDRMAN_TRIED_BUCKET_SIZE"
  using assms by (auto simp: buckets_inv_def)

lemma registry_own:
  "registry_inv m \<Longrightarrow>
    pm_IpToPeer m k = Some r \<longleftrightarrow> r \<in> set (pm_VecRandom m) \<and> ip_id (peer_ip m r) = k"
  unfolding registry_inv_def by blast

lemma registry_inv_New [simp]: "registry_inv (m\<lparr>pm_New := v\<rparr>) \<longleftrightarrow> registry_inv m"
  by (simp add: registry_inv_def)

lemma registry_inv_Tried [simp]: "registry_inv (m\<lparr>pm_Tried := v\<rparr>) \<longleftrightarrow> registry_inv m"
  by (simp add: registry_inv_def)

lemma slot_simps [simp]:
  "slot hs (m\<lparr>pm_New := v\<rparr>) = slot hs m" "slot hs (m\<lparr>pm_Tried := v\<rparr>) = slot hs m"
  "slot hs (m\<lparr>pm_VecRandom := w\<rparr>) = slot hs m" "slot hs (m\<lparr>pm_IpToPeer := t\<rparr>) = slot hs m"
  by (simp_all add: fun_eq_iff slot_def)

lemma buckets_invI:
  assumes "length (pm_Tried m) = ADDRMAN_TRIED_BUCKET_COUNT"
    and "length (pm_New m) = ADDRMAN_NEW_BUCKET_COUNT"
    and "\<And>b. b \<in> set (pm_Tried m) \<Longrightarrow> length b \<le> ADDRMAN_TRIED_BUCKET_SIZE"
    and "placed (slot hs m ADDRMAN_TRIED_BUCKET_COUNT) (pm_Tried m)"
    and "placed (slot hs m ADDRMAN_NEW_BUCKET_COUNT) (pm_New m)"
    and "\<And>r. in_buckets (pm_Tried m) r \<Longrightarrow> \<not> in_buckets (pm_New m) r"
    and "\<And>r. in_buckets (pm_Tried m) r \<Longrightarrow> r \<in> set (pm_VecRandom m)"
    and "\<And>r. in_buckets (pm_New m) r \<Longrightarrow> r \<in> set (pm_VecRandom m)"
  shows "buckets_inv hs m"
  unfolding buckets_inv_def using assms by blast

text \<open>Taking a peer out of the buckets of new peers, and out of its tried bucket.\<close>

lemma pm_inv_unbucket [wf]:
  assumes "pm_inv hs m"
  shows "pm_inv hs (m\<lparr>pm_New := map (\<lambda>b. Ext_Remove b r) (pm_New m)\<rparr>)"
  using assms
  by (auto simp: pm_inv_def buckets_inv_def in_buckets_Remove intro: placed_Remove)

lemma pm_inv_untry [wf]:
  assumes inv: "pm_inv hs m" and i: "i < ADDRMAN_TRIED_BUCKET_COUNT"
  shows "pm_inv hs (m\<lparr>pm_Tried := (pm_Tried m)[i := Ext_Remove (pm_Tried m ! i) r]\<rparr>)"
proof -
  have b: "buckets_inv hs m" using inv by (simp add: pm_inv_def)
  let ?b = "Ext_Remove (pm_Tried m ! i) r"
  have at: "distinct ?b" "\<And>q. q \<in> set ?b \<Longrightarrow> slot hs m 64 q = i"
    using placedD [OF buckets_invD(3) [OF b], of i] i buckets_invD(1) [OF b] by auto
  have "in_buckets ((pm_Tried m)[i := ?b]) q \<Longrightarrow> in_buckets (pm_Tried m) q" for q
    using in_buckets_update [OF buckets_invD(3) [OF b], of i ?b q] at(2) i buckets_invD(1) [OF b]
    by (auto simp: in_buckets_def split: if_splits)
  moreover have "length c \<le> 64" if "c \<in> set ((pm_Tried m)[i := ?b])" for c
    using that set_update_subset_insert [of "pm_Tried m" i ?b] buckets_invD(8) [OF b]
      length_Ext_Remove [of "pm_Tried m ! i" r] i buckets_invD(1) [OF b]
    by (metis (no_types, lifting) insert_iff le_trans nth_mem subset_iff)
  ultimately show ?thesis
    using inv at by (auto simp: pm_inv_def buckets_inv_def intro!: placed_update)
qed

text \<open>Putting a known peer that is in no bucket into the one its hash selects.\<close>

lemma pm_inv_push_tried [wf]:
  assumes inv: "pm_inv hs m" and r: "r \<in> set (pm_VecRandom m)"
    and fresh: "\<not> in_buckets (pm_Tried m) r" "\<not> in_buckets (pm_New m) r"
    and i: "i = slot hs m ADDRMAN_TRIED_BUCKET_COUNT r"
    and room: "length (pm_Tried m ! i) < ADDRMAN_TRIED_BUCKET_SIZE"
  shows "pm_inv hs (m\<lparr>pm_Tried := (pm_Tried m)[i := pm_Tried m ! i @ [r]]\<rparr>)"
proof -
  have b: "buckets_inv hs m" using inv by (simp add: pm_inv_def)
  let ?b = "pm_Tried m ! i @ [r]"
  have len: "i < length (pm_Tried m)" using i buckets_invD(1) [OF b] by simp
  have nr: "r \<notin> set (pm_Tried m ! i)" using fresh(1) len by (auto simp: in_buckets_def)
  have at: "distinct ?b" "\<And>q. q \<in> set ?b \<Longrightarrow> slot hs m 64 q = i"
    using placedD [OF buckets_invD(3) [OF b] len] nr i by auto
  have mem: "in_buckets ((pm_Tried m)[i := ?b]) q \<longleftrightarrow> q = r \<or> in_buckets (pm_Tried m) q" for q
    by (rule in_buckets_push [OF buckets_invD(3) [OF b] len i])
  have "length c \<le> 64" if "c \<in> set ((pm_Tried m)[i := ?b])" for c
    using that set_update_subset_insert [of "pm_Tried m" i ?b] buckets_invD(8) [OF b, of c] room
    by auto
  then have "buckets_inv hs (m\<lparr>pm_Tried := (pm_Tried m)[i := ?b]\<rparr>)"
    using buckets_invD(1,2,4) [OF b] placed_update [OF buckets_invD(3) [OF b] at]
    by (rule_tac buckets_invI)
      (simp_all add: mem, (use buckets_invD(5-7) [OF b] fresh r in blast)+)
  then show ?thesis using inv by (simp add: pm_inv_def)
qed

lemma pm_inv_push_new [wf]:
  assumes inv: "pm_inv hs m" and r: "r \<in> set (pm_VecRandom m)"
    and fresh: "\<not> in_buckets (pm_Tried m) r" "\<not> in_buckets (pm_New m) r"
    and i: "i = slot hs m ADDRMAN_NEW_BUCKET_COUNT r"
  shows "pm_inv hs (m\<lparr>pm_New := (pm_New m)[i := pm_New m ! i @ [r]]\<rparr>)"
proof -
  have b: "buckets_inv hs m" using inv by (simp add: pm_inv_def)
  let ?b = "pm_New m ! i @ [r]"
  have len: "i < length (pm_New m)" using i buckets_invD(2) [OF b] by simp
  have nr: "r \<notin> set (pm_New m ! i)" using fresh(2) len by (auto simp: in_buckets_def)
  have at: "distinct ?b" "\<And>q. q \<in> set ?b \<Longrightarrow> slot hs m 256 q = i"
    using placedD [OF buckets_invD(4) [OF b] len] nr i by auto
  have mem: "in_buckets ((pm_New m)[i := ?b]) q \<longleftrightarrow> q = r \<or> in_buckets (pm_New m) q" for q
    by (rule in_buckets_push [OF buckets_invD(4) [OF b] len i])
  have "buckets_inv hs (m\<lparr>pm_New := (pm_New m)[i := ?b]\<rparr>)"
    using buckets_invD(1-3) [OF b] placed_update [OF buckets_invD(4) [OF b] at]
    by (rule_tac buckets_invI)
      (simp_all add: mem buckets_invD(8) [OF b], (use buckets_invD(5-7) [OF b] fresh r in blast)+)
  then show ?thesis using inv by (simp add: pm_inv_def)
qed

text \<open>\<open>Shrink\<close> removes one member of the bucket, from the bucket and from the registry.\<close>

lemma Shrink_loop_Inl:
  "Shrink_loop h now i rs oldest = Inl j \<Longrightarrow> i \<le> j \<and> j < i + length rs"
  by (induction h now i rs oldest rule: Shrink_loop.induct) (auto split: if_splits)

lemma Shrink_loop_Inr:
  "Shrink_loop h now i rs oldest = Inr q \<Longrightarrow> (\<forall>x. oldest = Some x \<longrightarrow> x \<in> A)
    \<Longrightarrow> (rs \<noteq> [] \<or> oldest \<noteq> None) \<Longrightarrow> set rs \<subseteq> A \<Longrightarrow> \<exists>v\<in>A. q = Some v"
  by (induction h now i rs oldest rule: Shrink_loop.induct) (auto split: if_splits option.splits)

lemma PeerBucket_Shrink_victim:
  assumes "peers \<noteq> []" and "distinct peers"
  shows "\<exists>v\<in>set peers.
    PeerBucket_Shrink now peers m = Inr (Ext_Remove peers v, PeerManager_Remove v m)"
proof (cases "Shrink_loop (pm_heap m) now 0 peers None")
  case (Inl j)
  then have "j < length peers" using Shrink_loop_Inl [OF Inl] by simp
  then show ?thesis
    using Inl assms(2) by (auto simp: PeerBucket_Shrink_def Ext_Remove_nth intro!: bexI [of _ "peers ! j"])
next
  case (Inr q)
  then show ?thesis
    using Shrink_loop_Inr [OF Inr, of "set peers"] assms(1) by (auto simp: PeerBucket_Shrink_def)
qed

lemma registry_inv_Remove [wf]:
  assumes "registry_inv m" and "r \<in> set (pm_VecRandom m)"
  shows "registry_inv (PeerManager_Remove r m)"
proof -
  have own: "pm_IpToPeer m k = Some q \<longleftrightarrow> q \<in> set (pm_VecRandom m) \<and> ip_id (peer_ip m q) = k" for k q
    using assms(1) unfolding registry_inv_def by blast
  have same: "q = r" if "q \<in> set (pm_VecRandom m)" "ip_id (peer_ip m q) = ip_id (peer_ip m r)" for q
    using own [of "ip_id (peer_ip m r)" q] own [of "ip_id (peer_ip m r)" r] that assms(2) by auto
  show ?thesis
    unfolding registry_inv_def
  proof (intro conjI allI)
    show "distinct (pm_VecRandom (PeerManager_Remove r m))"
      using assms(1) by (simp add: PeerManager_Remove_def registry_inv_def)
    show "\<forall>q\<in>set (pm_VecRandom (PeerManager_Remove r m)). q < pm_next (PeerManager_Remove r m)
        \<and> ip_inet (peer_ip (PeerManager_Remove r m) q)"
      using assms(1) by (simp add: PeerManager_Remove_def registry_inv_def)
    fix k q
    show "pm_IpToPeer (PeerManager_Remove r m) k = Some q \<longleftrightarrow>
        q \<in> set (pm_VecRandom (PeerManager_Remove r m)) \<and> ip_id (peer_ip (PeerManager_Remove r m) q) = k"
      using own [of k q] same [of q] by (auto simp: PeerManager_Remove_def)
  qed
qed

lemma PeerManager_Remove_simps [simp]:
  "pm_New (PeerManager_Remove r m) = pm_New m" "pm_Tried (PeerManager_Remove r m) = pm_Tried m"
  "pm_heap (PeerManager_Remove r m) = pm_heap m"
  "set (pm_VecRandom (PeerManager_Remove r m)) = set (pm_VecRandom m) - {r}"
  "slot hs (PeerManager_Remove r m) = slot hs m"
  by (simp_all add: PeerManager_Remove_def)

lemma pm_inv_shrink [wf]:
  assumes inv: "pm_inv hs m" and i: "i < ADDRMAN_NEW_BUCKET_COUNT" and v: "v \<in> set (pm_New m ! i)"
  shows "pm_inv hs ((PeerManager_Remove v m)\<lparr>pm_New := (pm_New m)[i := Ext_Remove (pm_New m ! i) v]\<rparr>)"
proof -
  have b: "buckets_inv hs m" and reg: "registry_inv m" using inv by (simp_all add: pm_inv_def)
  let ?b = "Ext_Remove (pm_New m ! i) v"
  have len: "i < length (pm_New m)" using i buckets_invD(2) [OF b] by simp
  have slot_v: "slot hs m 256 v = i" and new_v: "in_buckets (pm_New m) v"
    using placedD(2) [OF buckets_invD(4) [OF b] len v] v len by (auto simp: in_buckets_def)
  have at: "distinct ?b" "\<And>q. q \<in> set ?b \<Longrightarrow> slot hs m 256 q = i"
    using placedD [OF buckets_invD(4) [OF b] len] by auto
  have mem: "in_buckets ((pm_New m)[i := ?b]) q \<longleftrightarrow> q \<noteq> v \<and> in_buckets (pm_New m) q" for q
  proof -
    have "in_buckets ((pm_New m)[i := ?b]) q \<longleftrightarrow>
        (if slot hs m 256 q = i then q \<in> set ?b else in_buckets (pm_New m) q)"
      using buckets_invD(4) [OF b] len at(2) by (rule in_buckets_update)
    then show ?thesis
      using slot_v in_buckets_placed [OF buckets_invD(4) [OF b], of q] len
      by (cases "slot hs m 256 q = i") auto
  qed
  have "buckets_inv hs ((PeerManager_Remove v m)\<lparr>pm_New := (pm_New m)[i := ?b]\<rparr>)"
    using buckets_invD(1-3) [OF b] placed_update [OF buckets_invD(4) [OF b] at]
    by (rule_tac buckets_invI)
      (simp_all add: mem buckets_invD(8) [OF b], (use buckets_invD(5-7) [OF b] new_v in blast)+)
  then show ?thesis
    using registry_inv_Remove [OF reg buckets_invD(7) [OF b new_v]] by (simp add: pm_inv_def)
qed

lemma placed_cong:
  assumes "placed idx vec" and "\<And>r. in_buckets vec r \<Longrightarrow> idx' r = idx r"
  shows "placed idx' vec"
  using assms unfolding placed_def in_buckets_def by metis

text \<open>A new peer under a new address.\<close>

definition create_peer :: "peer \<Rightarrow> peer_manager \<Rightarrow> peer_manager" where
  "create_peer p m = m\<lparr>pm_heap := (pm_heap m)(pm_next m := p), pm_next := Suc (pm_next m),
     pm_IpToPeer := (pm_IpToPeer m)(ip_id (ep_Address (p_endPoint p)) \<mapsto> pm_next m),
     pm_VecRandom := pm_VecRandom m @ [pm_next m]\<rparr>"

lemma registry_inv_create [wf]:
  assumes reg: "registry_inv m" and ip: "ip_inet (ep_Address (p_endPoint p))"
    and new: "pm_IpToPeer m (ip_id (ep_Address (p_endPoint p))) = None"
  shows "registry_inv (create_peer p m)"
proof -
  have old: "r < pm_next m \<and> ip_inet (peer_ip m r)" if "r \<in> set (pm_VecRandom m)" for r
    using reg that by (simp add: registry_inv_def)
  then have fresh: "pm_next m \<notin> set (pm_VecRandom m)" by blast
  have own: "pm_IpToPeer m k = Some q \<longleftrightarrow> q \<in> set (pm_VecRandom m) \<and> ip_id (peer_ip m q) = k" for k q
    using reg unfolding registry_inv_def by blast
  have nokey: "ip_id (peer_ip m q) \<noteq> ip_id (ep_Address (p_endPoint p))"
    if "q \<in> set (pm_VecRandom m)" for q
    using own [of "ip_id (peer_ip m q)" q] that new by auto
  show ?thesis
    unfolding registry_inv_def
  proof (intro conjI allI)
    show "distinct (pm_VecRandom (create_peer p m))"
      using reg fresh by (simp add: create_peer_def registry_inv_def)
    show "\<forall>r\<in>set (pm_VecRandom (create_peer p m)).
        r < pm_next (create_peer p m) \<and> ip_inet (peer_ip (create_peer p m) r)"
      using old fresh ip by (auto simp: create_peer_def less_Suc_eq)
    fix k q
    show "pm_IpToPeer (create_peer p m) k = Some q \<longleftrightarrow>
        q \<in> set (pm_VecRandom (create_peer p m)) \<and> ip_id (peer_ip (create_peer p m) q) = k"
      using own [of k q] fresh nokey [of q] by (auto simp: create_peer_def)
  qed
qed

lemma pm_inv_create [wf]:
  assumes inv: "pm_inv hs m" and ip: "ip_inet (ep_Address (p_endPoint p))"
    and new: "pm_IpToPeer m (ip_id (ep_Address (p_endPoint p))) = None"
  shows "pm_inv hs (create_peer p m)"
    and "\<not> in_buckets (pm_Tried m) (pm_next m)" and "\<not> in_buckets (pm_New m) (pm_next m)"
proof -
  have b: "buckets_inv hs m" and reg: "registry_inv m" using inv by (simp_all add: pm_inv_def)
  have fresh: "pm_next m \<notin> set (pm_VecRandom m)" using reg by (auto simp: registry_inv_def)
  show nb: "\<not> in_buckets (pm_Tried m) (pm_next m)" "\<not> in_buckets (pm_New m) (pm_next m)"
    using fresh buckets_invD(6,7) [OF b] by blast+
  have slots: "slot hs (create_peer p m) n r = slot hs m n r" if "r \<noteq> pm_next m" for n r
    by (rule slot_cong) (use that in \<open>simp add: create_peer_def\<close>)
  have pl: "placed (slot hs (create_peer p m) 64) (pm_Tried m)"
    by (rule placed_cong [OF buckets_invD(3) [OF b]]) (use nb slots in metis)
  have pl': "placed (slot hs (create_peer p m) 256) (pm_New m)"
    by (rule placed_cong [OF buckets_invD(4) [OF b]]) (use nb slots in metis)
  have sel: "pm_Tried (create_peer p m) = pm_Tried m" "pm_New (create_peer p m) = pm_New m"
    "set (pm_VecRandom (create_peer p m)) = insert (pm_next m) (set (pm_VecRandom m))"
    by (simp_all add: create_peer_def)
  have "buckets_inv hs (create_peer p m)"
    using buckets_invD(1,2) [OF b] pl pl'
    by (rule_tac buckets_invI)
      (simp_all add: sel buckets_invD(8) [OF b], (use buckets_invD(5-7) [OF b] in blast)+)
  then show "pm_inv hs (create_peer p m)"
    using registry_inv_create [OF reg ip new] by (simp add: pm_inv_def)
qed

subsection \<open>The operations keep the invariant\<close>

lemma oldest_peer_mem:
  "(\<forall>x. oldest = Some x \<longrightarrow> x \<in> A) \<Longrightarrow> rs \<noteq> [] \<or> oldest \<noteq> None \<Longrightarrow> set rs \<subseteq> A
    \<Longrightarrow> \<exists>v\<in>A. oldest_peer h rs oldest = Some v"
  by (induction h rs oldest rule: oldest_peer.induct) (auto split: if_splits option.splits)

lemma pm_inv_inet: "pm_inv hs m \<Longrightarrow> r \<in> set (pm_VecRandom m) \<Longrightarrow> ip_inet (peer_ip m r)"
  by (simp add: pm_inv_def registry_inv_def)

lemma upd_peer_simps [simp]:
  "pm_IpToPeer (upd_peer r f m) = pm_IpToPeer m" "pm_VecRandom (upd_peer r f m) = pm_VecRandom m"
  "pm_Tried (upd_peer r f m) = pm_Tried m" "pm_New (upd_peer r f m) = pm_New m"
  "pm_next (upd_peer r f m) = pm_next m" "pm_heap (upd_peer r f m) r = f (pm_heap m r)"
  "q \<noteq> r \<Longrightarrow> pm_heap (upd_peer r f m) q = pm_heap m q"
  by (simp_all add: upd_peer_def)

lemma endpoint_kept [simp]:
  "p_endPoint (put_Services v p) = p_endPoint p" "p_endPoint (put_LastLive dt p) = p_endPoint p"
  "p_endPoint (put_LastPersistent dt p) = p_endPoint p" "p_endPoint (put_LastTry dt p) = p_endPoint p"
  "p_endPoint (put_Banned b p) = p_endPoint p"
  by (simp_all add: put_Services_def put_LastLive_def put_LastPersistent_def put_LastTry_def
      put_Banned_def)

lemma pm_inv_Good [wf]:
  assumes inv: "pm_inv hs m" and r: "r \<in> set (pm_VecRandom m)"
  shows "pm_inv hs (snd (PeerManager_Good hs now r m))
    \<and> fst (PeerManager_Good hs now r m) = Inr ()"
proof -
  define m1 where "m1 = upd_peer r (\<lambda>p. (put_LastPersistent now (put_LastLive now (put_LastTry now p)))
      \<lparr>p_Attempts := 0\<rparr>) m"
  define m2 where "m2 = m1\<lparr>pm_New := map (\<lambda>b. Ext_Remove b r) (pm_New m1)\<rparr>"
  have i1: "pm_inv hs m1" unfolding m1_def by (rule pm_inv_upd_peer [OF inv]) simp
  have i2: "pm_inv hs m2" unfolding m2_def by (rule pm_inv_unbucket [OF i1])
  have r2: "r \<in> set (pm_VecRandom m2)" using r by (simp add: m2_def m1_def)
  have b: "buckets_inv hs m2" using i2 by (simp add: pm_inv_def)
  note len = buckets_invD(1,2) [OF b]
  show ?thesis
  proof (cases "in_buckets (pm_Tried m1) r")
    case True
    then show ?thesis
      using i1 by (simp add: PeerManager_Good_def m1_def [symmetric] Let_def Contains_in_buckets)
  next
    case False
    then have fresh: "\<not> in_buckets (pm_Tried m2) r" "\<not> in_buckets (pm_New m2) r"
      by (simp_all add: m2_def in_buckets_Remove)
    define i where "i = slot hs m2 64 r"
    have bi: "bucket_index hs m2 r (pm_Tried m2) = Inr i"
      using bucket_index_slot [OF pm_inv_inet [OF i2 r2], of hs "pm_Tried m2"] len by (simp add: i_def)
    have il: "i < 64" by (simp add: i_def)
    show ?thesis
    proof (cases "length (pm_Tried m2 ! i) < 64")
      case True
      have "pm_inv hs (m2\<lparr>pm_Tried := (pm_Tried m2)[i := pm_Tried m2 ! i @ [r]]\<rparr>)"
        using i2 r2 fresh i_def True by (rule pm_inv_push_tried)
      then show ?thesis
        using False True bi
        by (simp add: PeerManager_Good_def m1_def [symmetric] m2_def [symmetric] Let_def
            Contains_in_buckets)
    next
      case full: False
      then have "pm_Tried m2 ! i \<noteq> []" by auto
      then obtain q where q: "q \<in> set (pm_Tried m2 ! i)"
          "oldest_peer (pm_heap m2) (pm_Tried m2 ! i) None = Some q"
        using oldest_peer_mem [of None "set (pm_Tried m2 ! i)" "pm_Tried m2 ! i"] by auto
      define m3 where "m3 = m2\<lparr>pm_Tried := (pm_Tried m2)[i := Ext_Remove (pm_Tried m2 ! i) q]\<rparr>"
      have i3: "pm_inv hs m3" unfolding m3_def by (rule pm_inv_untry [OF i2 il])
      have tried: "in_buckets (pm_Tried m2) q" using q(1) il len by (auto simp: in_buckets_def)
      have slot_q: "slot hs m2 64 q = i"
        using placedD(2) [OF buckets_invD(3) [OF b] _ q(1)] il len by simp
      have q3: "q \<in> set (pm_VecRandom m3)" using buckets_invD(6) [OF b tried] by (simp add: m3_def)
      have "\<not> in_buckets (pm_Tried m3) q"
        using in_buckets_placed [of "slot hs m3 64" "pm_Tried m3" q] i3 slot_q il len
        by (simp add: pm_inv_def buckets_inv_def) (simp add: m3_def)
      moreover have "\<not> in_buckets (pm_New m3) q"
        using buckets_invD(5) [OF b tried] by (simp add: m3_def)
      ultimately have "pm_inv hs (m3\<lparr>pm_New := (pm_New m3)[slot hs m3 256 q :=
          pm_New m3 ! slot hs m3 256 q @ [q]]\<rparr>)"
        using pm_inv_push_new [OF i3 q3] by blast
      moreover have "bucket_index hs m3 q (pm_New m3) = Inr (slot hs m3 256 q)"
        using bucket_index_slot [OF pm_inv_inet [OF i3 q3], of hs "pm_New m3"] len by (simp add: m3_def)
      ultimately show ?thesis
        using False full bi q(2)
        by (simp add: PeerManager_Good_def m1_def [symmetric] m2_def [symmetric] m3_def [symmetric]
            Let_def Contains_in_buckets)
    qed
  qed
qed

lemma IPEndPoint_assign_id:
  assumes "ip_inet (ep_Address ep)"
  shows "ip_id (ep_Address (IPEndPoint_assign q ep)) = ip_id (ep_Address ep)"
    and "ip_inet (ep_Address (IPEndPoint_assign q ep))"
  using assms
  by (auto simp: ip_id_def IPEndPoint_assign_def IPEndPoint_put_Port_def IPAddress_assign_def
      ip_inet_def ip_wf_def ip_bytes_def htons_def)

lemma pm_inv_Add_find [wf]:
  assumes inv: "pm_inv hs m" and ep: "ip_inet (ep_Address ep)"
    and res: "Add_find ep services dt penalty m = (go, r, m')"
  shows "pm_inv hs m' \<and> r \<in> set (pm_VecRandom m') \<and> ip_id (peer_ip m' r) = ip_id (ep_Address ep)
    \<and> pm_IpToPeer m' (ip_id (ep_Address ep)) = Some r
    \<and> (go \<longleftrightarrow> \<not> in_buckets (pm_Tried m') r)"
proof (cases "pm_IpToPeer m (ip_id (ep_Address ep))")
  case None
  define p where "p = put_LastPersistent (max 0 (dt - penalty))
      (put_Services services (put_EndPoint ep new_Peer))"
  have pe: "p_endPoint p = IPEndPoint_assign (p_endPoint new_Peer) ep"
    by (simp add: p_def) (simp add: put_EndPoint_def)
  have idp: "ip_id (ep_Address (p_endPoint p)) = ip_id (ep_Address ep)"
    and inetp: "ip_inet (ep_Address (p_endPoint p))"
    using IPEndPoint_assign_id [OF ep] by (simp_all add: pe)
  have "Add_find ep services dt penalty m = (True, pm_next m, create_peer p m)"
    using None by (simp add: Add_find_def Let_def create_peer_def idp p_def [symmetric])
  then have eq: "go = True" "r = pm_next m" "m' = create_peer p m" using res by simp_all
  have new: "pm_IpToPeer m (ip_id (ep_Address (p_endPoint p))) = None" using None idp by simp
  show ?thesis
    using pm_inv_create [OF inv inetp new] idp by (simp add: eq) (simp add: create_peer_def)
next
  case (Some q)
  define m1 where "m1 = (if dt \<noteq> 0 then upd_peer q (put_LastPersistent (max 0 (dt - penalty))) m else m)"
  define m2 where "m2 = upd_peer q (\<lambda>p. put_Services (p_services p OR services) p) m1"
  have "Add_find ep services dt penalty m = (\<not> PeerBuckets_Contains (pm_Tried m2) q, q, m2)"
    using Some by (simp add: Add_find_def Let_def m1_def m2_def)
  then have eq: "go = (\<not> in_buckets (pm_Tried m2) q)" "r = q" "m' = m2"
    using res by (simp_all add: Contains_in_buckets)
  have "pm_inv hs m1" unfolding m1_def using inv by (simp add: pm_inv_upd_peer)
  then have i2: "pm_inv hs m2" unfolding m2_def by (rule pm_inv_upd_peer) simp
  have "pm_IpToPeer m2 (ip_id (ep_Address ep)) = Some q"
    using Some by (simp add: m2_def m1_def)
  then show ?thesis
    using i2 registry_own [of m2 "ip_id (ep_Address ep)" q] unfolding eq by (simp add: pm_inv_def)
qed

lemma pm_inv_Add_bucket [wf]:
  assumes inv: "pm_inv hs m" and r: "r \<in> set (pm_VecRandom m)"
    and untried: "\<not> in_buckets (pm_Tried m) r"
  shows "\<exists>m'. Add_bucket hs now r m = (Inr (), m') \<and> pm_inv hs m' \<and> in_buckets (pm_New m') r
    \<and> pm_heap m' = pm_heap m \<and> r \<in> set (pm_VecRandom m')"
proof -
  have b: "buckets_inv hs m" using inv by (simp add: pm_inv_def)
  define i where "i = slot hs m 256 r"
  have bi: "bucket_index hs m r (pm_New m) = Inr i"
    using bucket_index_slot [OF pm_inv_inet [OF inv r], of hs "pm_New m"] buckets_invD(2) [OF b]
    by (simp add: i_def)
  have il: "i < 256" "i < length (pm_New m)" using buckets_invD(2) [OF b] by (simp_all add: i_def)
  have mem: "in_buckets (pm_New m) r \<longleftrightarrow> r \<in> set (pm_New m ! i)"
    using in_buckets_placed [OF buckets_invD(4) [OF b], of r] il by (simp add: i_def)
  show ?thesis
  proof (cases "r \<in> set (pm_New m ! i)")
    case True
    then show ?thesis using inv mem bi r by (simp add: Add_bucket_def Let_def)
  next
    case False
    show ?thesis
    proof (cases "length (pm_New m ! i) \<ge> 64")
      case room: False
      have "pm_inv hs (m\<lparr>pm_New := (pm_New m)[i := pm_New m ! i @ [r]]\<rparr>)"
        using inv r untried False mem i_def by (intro pm_inv_push_new) simp_all
      then show ?thesis
        using False room bi r il(2) by (auto simp: Add_bucket_def Let_def in_buckets_def intro!: exI [of _ i])
    next
      case full: True
      have "pm_New m ! i \<noteq> []" "distinct (pm_New m ! i)"
        using full placedD(1) [OF buckets_invD(4) [OF b] il(2)] by auto
      then obtain v where v: "v \<in> set (pm_New m ! i)"
          "PeerBucket_Shrink now (pm_New m ! i) m
             = Inr (Ext_Remove (pm_New m ! i) v, PeerManager_Remove v m)"
        using PeerBucket_Shrink_victim by blast
      define m2 where "m2 = (PeerManager_Remove v m)
        \<lparr>pm_New := (pm_New m)[i := Ext_Remove (pm_New m ! i) v]\<rparr>"
      have i2: "pm_inv hs m2" unfolding m2_def by (rule pm_inv_shrink [OF inv il(1) v(1)])
      have rv: "r \<noteq> v" using False v(1) by auto
      have s2: "slot hs m2 256 r = i" by (simp add: m2_def i_def)
      have "r \<in> set (pm_VecRandom m2)" "\<not> in_buckets (pm_Tried m2) r"
        using r rv untried by (simp_all add: m2_def)
      moreover have "\<not> in_buckets (pm_New m2) r"
        using in_buckets_placed [of "slot hs m2 256" "pm_New m2" r] i2 False il
        by (simp add: pm_inv_def buckets_inv_def s2) (simp add: m2_def)
      ultimately have "pm_inv hs (m2\<lparr>pm_New := (pm_New m2)[i := pm_New m2 ! i @ [r]]\<rparr>)"
        using i2 s2 by (intro pm_inv_push_new) simp_all
      moreover have "Add_bucket hs now r m = (Inr (), m2\<lparr>pm_New := (pm_New m2)[i := pm_New m2 ! i @ [r]]\<rparr>)"
        using False full bi v(2) il(2) by (simp add: Add_bucket_def Let_def m2_def)
      moreover have "in_buckets ((pm_New m2)[i := pm_New m2 ! i @ [r]]) r"
        using il(2) by (auto simp: in_buckets_def m2_def intro!: exI [of _ i])
      ultimately show ?thesis
        using r rv by (simp add: m2_def)
    qed
  qed
qed

lemma Add_check_True:
  assumes "Add_check ip rr m = Inr True"
  shows "inet_family ip \<and> ip_id ip \<notin> pm_BannedIPs m
    \<and> (rr \<longrightarrow> PeerManager_IsRoutable ip m = Inr True)"
  using assms
  by (auto simp: Add_check_def NetManager_IsBanned_def bind_res_def split: sum.splits if_splits)

text \<open>Every outcome of \<open>Add\<close>.\<close>

lemma Add_cases:
  assumes inv: "pm_inv hs m" and wf: "ip_wf (ep_Address ep)"
    and res: "PeerManager_Add hs now ep services dt penalty rr m = (v, m')"
  shows "pm_inv hs m' \<and>
    (case v of
       Inl e \<Rightarrow> m' = m
     | Inr None \<Rightarrow> m' = m \<or> (\<exists>r. in_buckets (pm_Tried m') r \<and> ip_id (peer_ip m' r) = ip_id (ep_Address ep))
     | Inr (Some r) \<Rightarrow> r \<in> set (pm_VecRandom m') \<and> in_buckets (pm_New m') r
         \<and> ip_id (peer_ip m' r) = ip_id (ep_Address ep) \<and> ip_id (ep_Address ep) \<notin> pm_BannedIPs m
         \<and> (rr \<longrightarrow> PeerManager_IsRoutable (ep_Address ep) m = Inr True))"
proof (cases "Add_check (ep_Address ep) rr m")
  case (Inl e)
  then show ?thesis using res inv by (auto simp: PeerManager_Add_def)
next
  case chk: (Inr ok)
  show ?thesis
  proof (cases ok)
    case False
    then show ?thesis using res inv chk by (auto simp: PeerManager_Add_def)
  next
    case True
    then have ok: "inet_family (ep_Address ep)" "ip_id (ep_Address ep) \<notin> pm_BannedIPs m"
        "rr \<longrightarrow> PeerManager_IsRoutable (ep_Address ep) m = Inr True"
      using Add_check_True [of "ep_Address ep" rr m] chk by simp_all
    have inet: "ip_inet (ep_Address ep)" using ok(1) wf by (simp add: ip_inet_def inet_family_def)
    have id: "pm_inv hs (m\<lparr>pm_dirty := True\<rparr>)"
      using inv by (rule pm_inv_cong) (use inv in \<open>simp_all add: pm_inv_def registry_inv_def\<close>)
    obtain go r m1 where f: "Add_find ep services dt penalty (m\<lparr>pm_dirty := True\<rparr>) = (go, r, m1)"
      by (cases "Add_find ep services dt penalty (m\<lparr>pm_dirty := True\<rparr>)") auto
    note i1 = pm_inv_Add_find [OF id inet f]
    show ?thesis
    proof (cases go)
      case False
      then have "v = Inr None" "m' = m1" using res chk True f by (simp_all add: PeerManager_Add_def)
      then show ?thesis using i1 False by auto
    next
      case go: True
      then obtain m2 where ab: "Add_bucket hs now r m1 = (Inr (), m2)" "pm_inv hs m2"
          "in_buckets (pm_New m2) r" "pm_heap m2 = pm_heap m1" "r \<in> set (pm_VecRandom m2)"
        using pm_inv_Add_bucket [of hs m1 r now] i1 by blast
      then have "v = Inr (Some r)" "m' = upd_peer r (\<lambda>p. p\<lparr>p_IsDirty := True\<rparr>) m2"
        using res chk True f go by (simp_all add: PeerManager_Add_def)
      moreover have "pm_inv hs (upd_peer r (\<lambda>p. p\<lparr>p_IsDirty := True\<rparr>) m2)"
        by (rule pm_inv_upd_peer [OF ab(2)]) simp
      ultimately show ?thesis using ab i1 ok by simp
    qed
  qed
qed

section \<open>The manager as a state machine\<close>

text \<open>
  The calls a node makes.  \<open>Attempt\<close> and \<open>Good\<close> are for peers the manager knows;
  \<open>GetPeers\<close> leaves the vector permuted.
\<close>

inductive pm_step :: "hashes \<Rightarrow> peer_manager \<Rightarrow> peer_manager \<Rightarrow> bool" for hs where
  add: "ip_wf (ep_Address ep) \<Longrightarrow>
    pm_step hs m (snd (PeerManager_Add hs now ep services dt penalty rr m))"
| attempt: "r \<in> set (pm_VecRandom m) \<Longrightarrow> pm_step hs m (PeerManager_Attempt now r m)"
| good: "r \<in> set (pm_VecRandom m) \<Longrightarrow> pm_step hs m (snd (PeerManager_Good hs now r m))"
| ban: "pm_step hs m (NetManager_BanPeer r m)"
| local: "pm_step hs m (NetManager_AddLocal ip m)"
| get_peers: "mset (shuffle (pm_VecRandom m)) = mset (pm_VecRandom m) \<Longrightarrow>
    pm_step hs m (snd (PeerManager_GetPeers shuffle n m))"
| add_link: "pm_step hs m (PeerManager_AddLink l m)"
| close_link: "pm_step hs m (PeerManager_OnCloseLink l m)"

inductive pm_reachable :: "hashes \<Rightarrow> peer_manager \<Rightarrow> bool" for hs where
  init: "pm_reachable hs PeerManager"
| step: "pm_reachable hs m \<Longrightarrow> pm_step hs m m' \<Longrightarrow> pm_reachable hs m'"

lemma pm_inv_init [wf]: "pm_inv hs PeerManager"
  by (simp add: pm_inv_def registry_inv_def buckets_inv_def PeerManager_def placed_def in_buckets_def)

lemma pm_inv_same:
  assumes "pm_inv hs m"
    and "pm_IpToPeer m' = pm_IpToPeer m" "mset (pm_VecRandom m') = mset (pm_VecRandom m)"
      "pm_Tried m' = pm_Tried m" "pm_New m' = pm_New m" "pm_next m' = pm_next m"
      "pm_heap m' = pm_heap m"
  shows "pm_inv hs m'"
proof (rule pm_inv_cong [OF assms(1,2)])
  show "set (pm_VecRandom m') = set (pm_VecRandom m)" using assms(3) by (rule mset_eq_setD)
  show "distinct (pm_VecRandom m')"
    using assms(1) mset_eq_imp_distinct_iff [OF assms(3)] by (simp add: pm_inv_def registry_inv_def)
qed (simp_all add: assms)

lemma pm_inv_step [wf]:
  assumes "pm_step hs m m'" and inv: "pm_inv hs m"
  shows "pm_inv hs m'"
  using assms(1)
proof cases
  case (add ep now services dt penalty rr)
  then show ?thesis
    using Add_cases [OF inv] by (metis prod.collapse)
next
  case (attempt r now)
  then show ?thesis
    using pm_inv_upd_peer [OF inv] by (simp add: PeerManager_Attempt_def)
next
  case (good r now)
  then show ?thesis using pm_inv_Good [OF inv] by blast
next
  case (ban r)
  have "pm_inv hs (upd_peer r (put_Banned True) m)" by (rule pm_inv_upd_peer [OF inv]) simp
  then show ?thesis
    unfolding ban NetManager_BanPeer_def Let_def by (rule pm_inv_same) simp_all
qed (auto intro!: pm_inv_same [OF inv] simp: NetManager_AddLocal_def PeerManager_GetPeers_def
    PeerManager_AddLink_def PeerManager_OnCloseLink_def Let_def)

lemma pm_reachable_inv: "pm_reachable hs m \<Longrightarrow> pm_inv hs m"
  by (induction rule: pm_reachable.induct) (auto intro: pm_inv_init pm_inv_step)

lemma placed_distinct: "placed idx vec \<Longrightarrow> distinct (concat vec)"
proof (induction vec rule: rev_induct)
  case (snoc b vec)
  have "placed idx vec"
    unfolding placed_def
  proof (intro allI impI)
    fix i assume "i < length vec"
    then show "distinct (vec ! i) \<and> (\<forall>r\<in>set (vec ! i). idx r = i)"
      using snoc.prems [unfolded placed_def, rule_format, of i] by (simp add: nth_append)
  qed
  moreover have "distinct b" "\<And>r. r \<in> set b \<Longrightarrow> idx r = length vec"
    using snoc.prems [unfolded placed_def, rule_format, of "length vec"] by simp_all
  moreover have "idx r < length vec" if mem: "r \<in> set (concat vec)" for r
  proof -
    obtain c where "c \<in> set vec" "r \<in> set c" using mem by auto
    then obtain i where "i < length vec" "r \<in> set (vec ! i)"
      using in_set_conv_nth [of c vec] by auto
    then show ?thesis using placedD(2) [OF \<open>placed idx vec\<close>] by auto
  qed
  ultimately have "set (concat vec) \<inter> set b = {}" "distinct b" "distinct (concat vec)"
    using snoc.IH by (metis disjoint_iff less_irrefl, blast, blast)
  then show ?case by (simp only: concat_append distinct_append concat.simps append_Nil2)
qed simp

lemma in_buckets_concat: "in_buckets vec r \<longleftrightarrow> r \<in> set (concat vec)"
  unfolding in_buckets_def set_concat by (metis UN_iff in_set_conv_nth)


definition no_hashes :: hashes where
  "no_hashes = \<lparr>hash16 = (\<lambda>_. 0), hash32 = (\<lambda>_. 0), hash_span = (\<lambda>_. 0)\<rparr>"

lemma reachable_example:
  "pm_reachable no_hashes (snd (PeerManager_Add no_hashes 5 (IPEndPoint_host 0x08080808 80) 1 7 0 True
     PeerManager))"
  by (intro pm_reachable.step [OF pm_reachable.init] pm_step.add)
    (use ip_inet_host in \<open>simp add: ip_inet_def\<close>)




text \<open>
  When the tried bucket a peer belongs to is full, \<open>Good\<close> makes room in it but never puts the
  peer there: a peer that has just proved good ends up in no bucket at all, and can no longer
  be selected.
\<close>

theorem Good_loses_peer:
  assumes "\<not> PeerBuckets_Contains (pm_Tried m) r"
    and "bucket_index hs m r (pm_Tried m) = Inr i" and "i < length (pm_Tried m)"
    and "ADDRMAN_TRIED_BUCKET_SIZE \<le> length (pm_Tried m ! i)"
  shows "\<not> PeerBuckets_Contains (pm_Tried (snd (PeerManager_Good hs now r m))) r
    \<and> \<not> PeerBuckets_Contains (pm_New (snd (PeerManager_Good hs now r m))) r"
proof -
  define m1 where "m1 = upd_peer r (\<lambda>p. (put_LastPersistent now (put_LastLive now (put_LastTry now p)))
      \<lparr>p_Attempts := 0\<rparr>) m"
  define m2 where "m2 = m1\<lparr>pm_New := map (\<lambda>b. Ext_Remove b r) (pm_New m1)\<rparr>"
  have tried: "pm_Tried m2 = pm_Tried m" by (simp add: m2_def m1_def)
  have heap: "p_endPoint (pm_heap m2 r) = p_endPoint (pm_heap m r)" by (simp add: m2_def m1_def)
  have bi: "bucket_index hs m2 r (pm_Tried m) = Inr i"
    using assms(2) by (simp add: bucket_index_def Peer_GetHash_def Peer_GetGroup_def heap)
  have nt: "r \<notin> set b" if "b \<in> set (pm_Tried m)" for b
    using assms(1) that by (auto simp: PeerBuckets_Contains_def list_ex_iff)
  have nn: "r \<notin> set b" if "b \<in> set (pm_New m2)" for b
    using that by (auto simp: m2_def)
  have "pm_Tried m ! i \<noteq> []" using assms(4) by auto
  then obtain q where q: "q \<in> set (pm_Tried m ! i)"
      "oldest_peer (pm_heap m2) (pm_Tried m ! i) None = Some q"
    using oldest_peer_mem [of None "set (pm_Tried m ! i)" "pm_Tried m ! i"] by auto
  have rq: "r \<noteq> q" using q(1) nt [OF nth_mem [OF assms(3)]] by auto
  have new: "r \<notin> set b" if "b \<in> set ((pm_New m2)[j := pm_New m2 ! j @ [q]])" for b j
  proof (cases "j < length (pm_New m2)")
    case True
    then show ?thesis
      using that nn rq by (auto dest!: set_update_subset_insert [THEN subsetD])
  next
    case False
    then have "(pm_New m2)[j := pm_New m2 ! j @ [q]] = pm_New m2"
      by (intro list_update_beyond) simp
    then show ?thesis using that nn by metis
  qed
  have old: "r \<notin> set b" if "b \<in> set ((pm_Tried m)[i := Ext_Remove (pm_Tried m ! i) q])" for b
    using that nt assms(3) by (auto dest!: set_update_subset_insert [THEN subsetD])
  have lt: "\<not> length (pm_Tried m ! i) < 64" using assms(4) by simp
  have tried1: "pm_Tried m1 = pm_Tried m" by (simp add: m1_def)
  show ?thesis
    using assms(1) lt
    by (auto simp: PeerManager_Good_def m1_def [symmetric] m2_def [symmetric] Let_def tried tried1 bi q(2)
        PeerBuckets_Contains_def list_ex_iff dest: new old nn split: sum.splits)
qed

definition full_manager :: peer_manager where
  "full_manager = PeerManager\<lparr>pm_Tried := [1..<65] # replicate 63 []\<rparr>"

theorem Good_loses_peer_witness:
  "\<not> PeerBuckets_Contains (pm_New (snd (PeerManager_Good no_hashes 9 0 full_manager))) 0"
proof -
  have ip: "ip_inet (peer_ip full_manager 0)"
    by (simp add: full_manager_def PeerManager_def new_Peer_def)
  have slot: "bucket_index no_hashes full_manager 0 (pm_Tried full_manager) = Inr 0"
    by (simp add: bucket_index_def Peer_GetHash_def Peer_GetGroup_def no_hashes_def full_manager_def
        PeerManager_def new_Peer_def IPEndPoint_hash_def IPAddress_GetHashCode_def
        IPEndPoint_host_def IPEndPoint_put_Port_def IPAddress_nbo_def IPAddress_CreateCommon_def
        IPAddress_GetAddressBytes_def FamilySize_def)
  show ?thesis
    using Good_loses_peer [OF _ slot, of 9]
    by (simp add: full_manager_def PeerBuckets_Contains_def list_ex_iff)
qed

end
