(* ===== verification/Murmur.thy ===== *)
theory Murmur
  imports Prelude
begin

text \<open>
  The hash functions of \<open>src/libext/murmurhash.cpp\<close>: \<open>MurmurHashAligned2\<close>, which reads its
  input in aligned words wherever it lies in memory and carries the bytes that straddle two
  words in registers, and \<open>MurmurHash3_32\<close>.  \<open>align\<close> is the address of the data modulo 4.
\<close>

unbundle bit_operations_syntax

section \<open>MurmurHash 2\<close>

definition murmur_m :: u32 where
  "murmur_m = 0x5BD1E995"

text \<open>The macro \<open>MIX\<close>, by the new value of \<open>h\<close>; \<open>r\<close> is 24.\<close>

definition MIX :: "u32 \<Rightarrow> u32 \<Rightarrow> u32" where
  "MIX h k =
     (let k = k * murmur_m; k = k XOR drop_bit 24 k; k = k * murmur_m; h = h * murmur_m
      in h XOR k)"

abbreviation data_byte :: "byte list \<Rightarrow> nat \<Rightarrow> u32" where
  "data_byte data i \<equiv> ucast (data ! i)"

text \<open>The switch on the bytes left, with its fall-through, over the last bytes of the input.\<close>

definition murmur_tail :: "u32 \<Rightarrow> byte list \<Rightarrow> u32" where
  "murmur_tail h data =
     (let len = length data;
          h = (if len = 3 then h XOR push_bit 16 (data_byte data 2) else h);
          h = (if len = 3 \<or> len = 2 then h XOR push_bit 8 (data_byte data 1) else h)
      in if len = 3 \<or> len = 2 \<or> len = 1 then (h XOR data_byte data 0) * murmur_m else h)"

definition murmur_final :: "u32 \<Rightarrow> u32" where
  "murmur_final h =
     (let h = h XOR drop_bit 13 h; h = h * murmur_m; h = h XOR drop_bit 15 h in h)"

text \<open>The branch for aligned (or very short) data: its loop over whole words.\<close>

function aligned_loop :: "u32 \<Rightarrow> byte list \<Rightarrow> u32 \<times> byte list" where
  "aligned_loop h data =
     (if length data \<ge> 4 then aligned_loop (MIX h (le32 (take 4 data))) (drop 4 data)
      else (h, data))"
  by pat_completeness auto
termination by (relation "measure (\<lambda>(h, data). length data)") auto

declare aligned_loop.simps [simp del]

text \<open>
  The branch for unaligned data.  \<open>preload\<close> reads the bytes before the first aligned word into
  \<open>t\<close>; the loop joins what \<open>t\<close> holds with the low bytes of the next word; \<open>leftover\<close> and \<open>last_word\<close>
  are the two ways to end.
\<close>

definition preload :: "nat \<Rightarrow> byte list \<Rightarrow> u32" where
  "preload align data =
     (let t = (if align = 1 then push_bit 16 (data_byte data 2) else 0);
          t = (if align = 1 \<or> align = 2 then t OR push_bit 8 (data_byte data 1) else t);
          t = (if align = 1 \<or> align = 2 \<or> align = 3 then t OR data_byte data 0 else t)
      in push_bit (8 * align) t)"

function unaligned_loop :: "nat \<Rightarrow> u32 \<Rightarrow> u32 \<Rightarrow> byte list \<Rightarrow> u32 \<times> u32 \<times> byte list" where
  "unaligned_loop align h t data =
     (if length data \<ge> 4 then
        (let sl = 8 * (4 - align); sr = 8 * align;
             d = le32 (take 4 data);
             k = drop_bit sr t OR push_bit sl d
         in unaligned_loop align (MIX h k) d (drop 4 data))
      else (h, t, data))"
  by pat_completeness auto
termination by (relation "measure (\<lambda>(align, h, t, data). length data)") auto

declare unaligned_loop.simps [simp del]

text \<open>The switch that collects the bytes left into \<open>d\<close>, for \<open>n\<close> bytes.\<close>

definition leftover :: "nat \<Rightarrow> byte list \<Rightarrow> u32" where
  "leftover n data =
     (let d = (if n = 3 then push_bit 16 (data_byte data 2) else 0);
          d = (if n = 3 \<or> n = 2 then d OR push_bit 8 (data_byte data 1) else d)
      in if n = 3 \<or> n = 2 \<or> n = 1 then d OR data_byte data 0 else d)"

definition unaligned_end :: "nat \<Rightarrow> u32 \<Rightarrow> u32 \<Rightarrow> byte list \<Rightarrow> u32" where
  "unaligned_end align h t data =
     (let sl = 8 * (4 - align); sr = 8 * align
      in if length data \<ge> align then
           (let d = leftover align data;
                k = drop_bit sr t OR push_bit sl d
            in murmur_tail (MIX h k) (drop align data))
         else
           (let d = leftover (length data) data
            in (h XOR (drop_bit sr t OR push_bit sl d)) * murmur_m))"

definition MurmurHashAligned2 :: "nat \<Rightarrow> byte list \<Rightarrow> u32 \<Rightarrow> u32" where
  "MurmurHashAligned2 align cbuf seed =
     (let len = length cbuf; h = seed XOR of_nat len
      in if align \<noteq> 0 \<and> len \<ge> 4
         then (case unaligned_loop align h (preload align cbuf) (drop (4 - align) cbuf) of
                 (h, t, data) \<Rightarrow> murmur_final (unaligned_end align h t data))
         else (case aligned_loop h cbuf of
                 (h, data) \<Rightarrow> murmur_final (murmur_tail h data)))"

section \<open>MurmurHash 3\<close>

definition fmix32 :: "u32 \<Rightarrow> u32" where
  "fmix32 h =
     (let h = h XOR drop_bit 16 h; h = h * 0x85EBCA6B;
          h = h XOR drop_bit 13 h; h = h * 0xC2B2AE35
      in h XOR drop_bit 16 h)"

definition murmur3_k :: "u32 \<Rightarrow> u32" where
  "murmur3_k k = (let k = k * 0xCC9E2D51; k = word_rotl 15 k in k * 0x1B873593)"

text \<open>One round of the loop, for the block at index \<open>i\<close> counted back from the end of the blocks.\<close>

definition murmur3_round :: "byte list \<Rightarrow> nat \<Rightarrow> int \<Rightarrow> u32 \<Rightarrow> u32" where
  "murmur3_round data nblocks i h1 =
     (let k1 = murmur3_k (le32 (take 4 (drop (nat (4 * int nblocks + 4 * i)) data)));
          h1 = h1 XOR k1; h1 = word_rotl 13 h1
      in h1 * 5 + 0xE6546B64)"

definition MurmurHash3_32 :: "byte list \<Rightarrow> u32 \<Rightarrow> u32" where
  "MurmurHash3_32 cbuf seed =
     (let len = length cbuf; nblocks = len div 4;
          h1 = fold (murmur3_round cbuf nblocks) [- int nblocks..- 1] seed;
          data = drop (nblocks * 4) cbuf;
          n = len mod 4;
          k1 = (if n = 3 then push_bit 16 (data_byte data 2) else 0);
          k1 = (if n = 3 \<or> n = 2 then k1 XOR push_bit 8 (data_byte data 1) else k1);
          h1 = (if n = 3 \<or> n = 2 \<or> n = 1 then h1 XOR murmur3_k (k1 XOR data_byte data 0) else h1)
      in fmix32 (h1 XOR of_nat len))"

section \<open>Words across a border\<close>

lemma le_word_append:
  "(le_word (xs @ ys) :: 'a::len word) = le_word xs OR push_bit (8 * length xs) (le_word ys)"
  by (induction xs)
    (simp_all add: le_word_def push_bit_or or.assoc or.left_commute or.commute push_bit_push_bit
      add.commute)

lemma le_word_take4: "le32 (take 4 bs) = le32 bs"
proof (rule bit_word_eqI)
  fix i
  assume "i < LENGTH(32)"
  then have "i div 8 < 4" by simp
  then show "bit (le32 (take 4 bs)) i = bit (le32 bs) i" by (simp add: bit_le_word)
qed

lemma le_word_drop:
  assumes "8 * length bs \<le> LENGTH('a)"
  shows "drop_bit (8 * k) (le_word bs :: 'a::len word) = le_word (drop k bs)"
proof (rule bit_word_eqI)
  fix i
  assume "i < LENGTH('a)"
  have "(8 * k + i) div 8 = k + i div 8" "(8 * k + i) mod 8 = i mod 8" by simp_all
  moreover have "8 * k + i < LENGTH('a)" if "k + i div 8 < length bs"
  proof -
    have "i mod 8 < 8" "8 * (i div 8) + i mod 8 = i" by simp_all
    then show ?thesis using assms that by linarith
  qed
  ultimately show "bit (drop_bit (8 * k) (le_word bs :: 'a word)) i
      = bit (le_word (drop k bs) :: 'a word) i"
    using \<open>i < LENGTH('a)\<close>
    by (auto simp: bit_drop_bit_eq bit_le_word add.commute less_diff_conv)
qed

lemma le_word_3:
  "length bs = 3 \<Longrightarrow> le32 bs = push_bit 16 (data_byte bs 2) OR push_bit 8 (data_byte bs 1)
     OR data_byte bs 0"
  "length bs = 2 \<Longrightarrow> le32 bs = push_bit 8 (data_byte bs 1) OR data_byte bs 0"
  "length bs = 1 \<Longrightarrow> le32 bs = data_byte bs 0"
proof -
  have cons: "le32 (b # bs) = ucast b OR push_bit 8 (le32 bs)" for b bs
    by (simp add: le_word_def or.commute)
  have nil: "le32 [] = 0" by (simp add: le_word_def)
  have 16: "8 + 8 = (16 :: nat)" by simp
  note join = cons nil push_bit_of_0 or.right_neutral or.left_neutral push_bit_or push_bit_push_bit 16
    or.commute or.left_commute or.assoc
  show "length bs = 3 \<Longrightarrow> le32 bs = push_bit 16 (data_byte bs 2) OR push_bit 8 (data_byte bs 1)
     OR data_byte bs 0"
  proof -
    assume "length bs = 3"
    then obtain a b c where bs: "bs = [a, b, c]" by (auto simp: length_Suc_conv numeral_eq_Suc)
    have "data_byte bs 2 = ucast c" "data_byte bs 1 = ucast b" "data_byte bs 0 = ucast a"
      by (simp_all add: bs)
    then show ?thesis unfolding bs by (simp only: join)
  qed
  show "length bs = 2 \<Longrightarrow> le32 bs = push_bit 8 (data_byte bs 1) OR data_byte bs 0"
  proof -
    assume "length bs = 2"
    then obtain a b where bs: "bs = [a, b]" by (auto simp: length_Suc_conv numeral_eq_Suc)
    have "data_byte bs 1 = ucast b" "data_byte bs 0 = ucast a" by (simp_all add: bs)
    then show ?thesis unfolding bs by (simp only: join)
  qed
  show "length bs = 1 \<Longrightarrow> le32 bs = data_byte bs 0"
    by (auto simp: length_Suc_conv cons nil)
qed

lemma data_byte_take: "i < n \<Longrightarrow> data_byte (take n bs) i = data_byte bs i"
  by simp

text \<open>The switches read the bytes as little-endian words.\<close>

lemma leftover_word: "n \<le> 3 \<Longrightarrow> n \<le> length bs \<Longrightarrow> leftover n bs = le32 (take n bs)"
proof -
  assume n: "n \<le> 3" "n \<le> length bs"
  then consider "n = 0" | "n = 1" | "n = 2" | "n = 3" by linarith
  then show ?thesis
  proof cases
    case 1
    then show ?thesis by (simp add: leftover_def le_word_def)
  next
    case 2
    then show ?thesis using n le_word_3(3) [of "take n bs"] by (simp add: leftover_def)
  next
    case 3
    then show ?thesis using n le_word_3(2) [of "take n bs"] by (simp add: leftover_def)
  next
    case 4
    then show ?thesis using n le_word_3(1) [of "take n bs"]
      by (simp add: leftover_def or.assoc)
  qed
qed

lemma preload_word:
  assumes "0 < align" "align < 4" "4 \<le> length bs"
  shows "preload align bs = push_bit (8 * align) (le32 (take (4 - align) bs))"
proof -
  consider "align = 1" | "align = 2" | "align = 3" using assms(1,2) by linarith
  then show ?thesis
  proof cases
    case 1
    then show ?thesis using assms(3) le_word_3(1) [of "take (4 - align) bs"]
      by (simp add: preload_def or.assoc)
  next
    case 2
    then show ?thesis using assms(3) le_word_3(2) [of "take (4 - align) bs"] by (simp add: preload_def)
  next
    case 3
    then show ?thesis using assms(3) le_word_3(3) [of "take (4 - align) bs"] by (simp add: preload_def)
  qed
qed

lemma disj_or_xor:
  assumes "a AND b = (0 :: 'a::len word)"
  shows "a OR b = a XOR b"
proof (rule bit_word_eqI)
  fix i
  have "\<not> bit (a AND b) i" by (simp add: assms)
  then show "bit (a OR b) i = bit (a XOR b) i"
    by (auto simp: bit_and_iff bit_or_iff bit_xor_iff)
qed

lemma xor_bytes_or:
  "push_bit 8 (ucast (b :: byte)) OR ucast (a :: byte) = push_bit 8 (ucast b) XOR (ucast a :: u32)"
  "push_bit 16 (ucast c) OR push_bit 8 (ucast b) OR ucast a
    = push_bit 16 (ucast (c :: byte)) XOR push_bit 8 (ucast b) XOR (ucast a :: u32)"
proof -
  have lo: "\<not> bit (ucast x :: u32) i" if "8 \<le> i" for x :: byte and i
    using that bit_byte_less [of x i] by (auto simp: bit_simps)
  have "push_bit 8 (ucast b) AND (ucast a :: u32) = 0" for a b :: byte
    by (rule bit_word_eqI) (use lo in \<open>auto simp: bit_and_iff bit_push_bit_iff simp del: push_bit_numeral\<close>)
  note d1 = disj_or_xor [OF this]
  have "push_bit 16 (ucast c) AND (push_bit 8 (ucast b) OR (ucast a :: u32)) = 0"
    by (rule bit_word_eqI)
      (use lo in \<open>auto simp: bit_and_iff bit_or_iff bit_push_bit_iff le_diff_conv2 simp del: push_bit_numeral\<close>)
  note d2 = disj_or_xor [OF this]
  show "push_bit 8 (ucast b) OR ucast a = push_bit 8 (ucast b) XOR (ucast a :: u32)" by (rule d1)
  show "push_bit 16 (ucast c) OR push_bit 8 (ucast b) OR ucast a
    = push_bit 16 (ucast c) XOR push_bit 8 (ucast b) XOR (ucast a :: u32)"
    unfolding d2 unfolding d1 ..
qed

lemma murmur_tail_word:
  "length bs \<le> 3 \<Longrightarrow> murmur_tail h bs = (if bs = [] then h else (h XOR le32 bs) * murmur_m)"
proof -
  assume "length bs \<le> 3"
  then consider "length bs = 0" | "length bs = 1" | "length bs = 2" | "length bs = 3" by linarith
  then show ?thesis
  proof cases
    case 1
    then show ?thesis by (simp add: murmur_tail_def)
  next
    case 2
    then show ?thesis using le_word_3(3) [OF 2] by (auto simp: murmur_tail_def)
  next
    case 3
    then show ?thesis using le_word_3(2) [OF 3] xor_bytes_or(1)
      by (auto simp: murmur_tail_def xor.assoc simp del: push_bit_numeral)
  next
    case 4
    then show ?thesis using le_word_3(1) [OF 4] xor_bytes_or(2)
      by (auto simp: murmur_tail_def xor.assoc simp del: push_bit_numeral)
  qed
qed

section \<open>The two branches agree\<close>

definition hash_aligned :: "u32 \<Rightarrow> byte list \<Rightarrow> u32" where
  "hash_aligned h data = (case aligned_loop h data of (h, data) \<Rightarrow> murmur_tail h data)"

definition hash_unaligned :: "nat \<Rightarrow> u32 \<Rightarrow> u32 \<Rightarrow> byte list \<Rightarrow> u32" where
  "hash_unaligned align h t data =
     (case unaligned_loop align h t data of (h, t, data) \<Rightarrow> unaligned_end align h t data)"

lemma hash_aligned_step:
  "4 \<le> length data \<Longrightarrow>
    hash_aligned h data = hash_aligned (MIX h (le32 (take 4 data))) (drop 4 data)"
  by (simp add: hash_aligned_def aligned_loop.simps [of h data])

lemma hash_aligned_end: "length data < 4 \<Longrightarrow> hash_aligned h data = murmur_tail h data"
  by (simp add: hash_aligned_def aligned_loop.simps [of h data])

lemma hash_unaligned_step:
  "4 \<le> length data \<Longrightarrow> hash_unaligned align h t data =
    hash_unaligned align (MIX h (drop_bit (8 * align) t OR push_bit (8 * (4 - align)) (le32 (take 4 data))))
      (le32 (take 4 data)) (drop 4 data)"
  by (simp add: hash_unaligned_def unaligned_loop.simps [of align h t data] Let_def)

lemma hash_unaligned_end:
  "length data < 4 \<Longrightarrow> hash_unaligned align h t data = unaligned_end align h t data"
  by (simp add: hash_unaligned_def unaligned_loop.simps [of align h t data])

lemma joined_word:
  assumes "length p = 4 - align" and "align < 4"
  shows "le32 p OR push_bit (8 * (4 - align)) (le32 (take n data)) = le32 (p @ take n data)"
  using le_word_append [of p "take n data", where 'a = 32] assms by simp

lemma hash_unaligned_eq:
  assumes "0 < align" "align < 4" and "length p = 4 - align" and "drop_bit (8 * align) t = le32 p"
  shows "hash_unaligned align h t data = hash_aligned h (p @ data)"
  using assms(3,4)
proof (induction data arbitrary: h t p rule: length_induct)
  case (1 data)
  note p = "1.prems"
  show ?case
  proof (cases "4 \<le> length data")
    case True
    let ?d = "le32 (take 4 data)" and ?p = "drop align (take 4 data)"
    have cut: "drop 4 (p @ data) = ?p @ drop 4 data"
      using p(1) assms(1,2) True by (simp add: drop_take) (metis append_take_drop_id drop_drop
          le_add_diff_inverse2 less_imp_le_nat)
    have k: "drop_bit (8 * align) t OR push_bit (8 * (4 - align)) ?d = le32 (take 4 (p @ data))"
    proof -
      have "take 4 (p @ take 4 data) = take 4 (p @ data)" using p(1) by (simp add: min_def)
      then show ?thesis
        using joined_word [OF p(1) assms(2), of 4 data] le_word_take4 [of "p @ take 4 data"]
        by (simp add: p(2))
    qed
    have "length (drop 4 data) < length data" using True by simp
    moreover have "length ?p = 4 - align" using True by simp
    moreover have "drop_bit (8 * align) ?d = le32 ?p" by (rule le_word_drop) simp
    ultimately have "hash_unaligned align (MIX h (le32 (take 4 (p @ data)))) ?d (drop 4 data)
        = hash_aligned (MIX h (le32 (take 4 (p @ data)))) (?p @ drop 4 data)"
      using "1.IH" by blast
    then show ?thesis
      using hash_unaligned_step [OF True, of align h t] hash_aligned_step [of "p @ data" h] True
      by (simp only: k cut) simp
  next
    case short: False
    then have end_: "hash_unaligned align h t data = unaligned_end align h t data"
      by (intro hash_unaligned_end) simp
    show ?thesis
    proof (cases "align \<le> length data")
      case True
      have l: "leftover align data = le32 (take align data)" using assms(2) True by (intro leftover_word) simp_all
      have t4: "take 4 (p @ data) = p @ take align data" "drop 4 (p @ data) = drop align data"
        using p(1) assms(1,2) True by simp_all
      have "length (drop align data) < 4" using short by simp
      then have "hash_aligned h (p @ data) = murmur_tail (MIX h (le32 (p @ take align data))) (drop align data)"
        using hash_aligned_step [of "p @ data" h] hash_aligned_end p(1) True assms(2) t4 by simp
      then show ?thesis
        using True joined_word [OF p(1) assms(2), of align data]
        by (simp add: end_ unaligned_end_def Let_def l p(2))
    next
      case False
      then have small: "length data \<le> 3" "length (p @ data) \<le> 3" "p \<noteq> []"
        using p(1) assms(1,2) by auto
      have l: "leftover (length data) data = le32 (take (length data) data)"
        using small(1) by (intro leftover_word) simp_all
      have "hash_aligned h (p @ data) = (h XOR le32 (p @ data)) * murmur_m"
        using small hash_aligned_end [of "p @ data" h] murmur_tail_word [of "p @ data" h] by simp
      then show ?thesis
        using False joined_word [OF p(1) assms(2), of "length data" data]
        by (simp add: end_ unaligned_end_def Let_def l p(2))
    qed
  qed
qed

lemma drop_preload:
  assumes "length p + align = 4"
  shows "drop_bit (8 * align) (push_bit (8 * align) (le32 p)) = le32 p"
proof -
  have zero: "le32 (replicate n 0) = 0" for n
    by (induction n) (simp_all add: le_word_def)
  have "push_bit (8 * align) (le32 p) = le32 (replicate align 0 @ p)"
    by (simp add: le_word_append zero)
  then show ?thesis
    using le_word_drop [of "replicate align 0 @ p" align, where 'a = 32] assms by simp
qed

section \<open>Injective steps\<close>

lemma inj_mult_odd:
  fixes c d :: u32
  assumes "c * d = 1"
  shows "inj (\<lambda>x. x * c)"
  using assms by (intro inj_on_inverseI [of _ "\<lambda>x. x * d"]) (simp add: mult.assoc)

lemma inj_word_rotl: "inj (word_rotl n :: u32 \<Rightarrow> u32)"
  by (rule inj_on_inverseI [of _ "word_rotr n"]) simp

lemma drop_bit_fixed:
  fixes z :: "'a::len word"
  assumes "drop_bit n z = z" and "0 < n"
  shows "z = 0"
proof (rule bit_word_eqI)
  fix i
  have "\<not> bit z i"
  proof (induction "LENGTH('a) - i" arbitrary: i rule: less_induct)
    case less
    have step: "bit z i = bit z (n + i)"
      by (subst (1) assms(1) [symmetric]) (simp add: bit_drop_bit_eq)
    show ?case
    proof (cases "i < LENGTH('a)")
      case True
      then show ?thesis using less [of "n + i"] step assms(2) by auto
    next
      case False
      then show ?thesis using bit_imp_le_length [of z i] by auto
    qed
  qed
  then show "bit z i = bit 0 i" by simp
qed

lemma inj_xorshift:
  assumes "0 < n"
  shows "inj (\<lambda>x. x XOR drop_bit n x :: u32)"
proof (rule injI)
  fix x y :: u32
  assume e: "x XOR drop_bit n x = y XOR drop_bit n y"
  have "drop_bit n (x XOR y) XOR (x XOR y) = (x XOR drop_bit n x) XOR (y XOR drop_bit n y)"
    by (simp add: drop_bit_xor xor.assoc xor.commute xor.left_commute)
  then have "drop_bit n (x XOR y) = x XOR y" using e by simp
  then have "x XOR y = 0" using assms by (rule drop_bit_fixed)
  then show "x = y" by simp
qed

lemma inj_fmix32: "inj fmix32"
proof -
  have eq: "fmix32 = (\<lambda>h. h XOR drop_bit 16 h) \<circ> (\<lambda>h. h * 0xC2B2AE35) \<circ> (\<lambda>h. h XOR drop_bit 13 h)
      \<circ> (\<lambda>h. h * 0x85EBCA6B) \<circ> (\<lambda>h. h XOR drop_bit 16 h)"
    by (rule ext) (simp add: fmix32_def Let_def)
  have m1: "inj (\<lambda>h :: u32. h * 0xC2B2AE35)"
    by (rule inj_mult_odd [of _ "0x7ED1B41D"]) simp
  have m2: "inj (\<lambda>h :: u32. h * 0x85EBCA6B)"
    by (rule inj_mult_odd [of _ "0xA5CB9243"]) simp
  show ?thesis
    unfolding eq by (intro inj_compose inj_xorshift m1 m2) simp_all
qed

lemma inj_murmur3_k: "inj murmur3_k"
proof -
  have eq: "murmur3_k = (\<lambda>k. k * 0x1B873593) \<circ> word_rotl 15 \<circ> (\<lambda>k. k * 0xCC9E2D51)"
    by (rule ext) (simp add: murmur3_k_def Let_def)
  have m1: "inj (\<lambda>h :: u32. h * 0x1B873593)"
    by (rule inj_mult_odd [of _ "0x56ED309B"]) simp
  have m2: "inj (\<lambda>h :: u32. h * 0xCC9E2D51)"
    by (rule inj_mult_odd [of _ "0xDEE13BB1"]) simp
  show ?thesis
    unfolding eq by (intro inj_compose inj_word_rotl m1 m2)
qed

section \<open>Properties\<close>

text \<open>
  \<open>MurmurHashAligned2\<close> does not depend on where its data lies: the branch that reads aligned words
  and joins them in registers computes the same hash as the plain one, for every length, tail
  and alignment.
\<close>

theorem MurmurHashAligned2_any_alignment:
  assumes "align < 4"
  shows "MurmurHashAligned2 align cbuf seed = MurmurHashAligned2 0 cbuf seed"
proof (cases "align \<noteq> 0 \<and> 4 \<le> length cbuf")
  case True
  let ?p = "take (4 - align) cbuf" and ?h = "seed XOR of_nat (length cbuf)"
  have "length ?p + align = 4" using True assms by (auto simp: min_def)
  from drop_preload [OF this] have "drop_bit (8 * align) (preload align cbuf) = le32 ?p"
    using preload_word [of align cbuf] True assms by simp
  then have "hash_unaligned align ?h (preload align cbuf) (drop (4 - align) cbuf)
      = hash_aligned ?h (?p @ drop (4 - align) cbuf)"
    using True assms by (intro hash_unaligned_eq) auto
  then have "hash_unaligned align ?h (preload align cbuf) (drop (4 - align) cbuf)
      = hash_aligned ?h cbuf" by simp
  then show ?thesis
    using True unfolding MurmurHashAligned2_def hash_unaligned_def hash_aligned_def Let_def
    by (auto split: prod.splits)
next
  case False
  then show ?thesis by (auto simp: MurmurHashAligned2_def)
qed

theorem MurmurHashAligned2_any_alignment_witness:
  "MurmurHashAligned2 3 [1, 2, 3, 4, 5, 6, 7, 8, 9] 42 = MurmurHashAligned2 0 [1, 2, 3, 4, 5, 6, 7, 8, 9] 42"
  by (rule MurmurHashAligned2_any_alignment) simp

text \<open>
  \<open>MurmurHash3_32\<close> has no collisions among keys of four bytes: every step on the one block is a
  bijection of the 32-bit words, the finaliser \<open>fmix32\<close> included.
\<close>

theorem MurmurHash3_four_bytes_injective:
  assumes "length xs = 4" and "length ys = 4"
    and "MurmurHash3_32 xs seed = MurmurHash3_32 ys seed"
  shows "xs = ys"
proof -
  have one: "MurmurHash3_32 bs seed
      = fmix32 ((word_rotl 13 (seed XOR murmur3_k (le32 bs)) * 5 + 0xE6546B64) XOR 4)"
    if "length bs = 4" for bs
    using that by (simp add: MurmurHash3_32_def murmur3_round_def Let_def upto.simps)
  have i5: "inj (\<lambda>x :: u32. x * 5)" by (rule inj_mult_odd [of _ "0xCCCCCCCD"]) simp
  have "(word_rotl 13 (seed XOR murmur3_k (le32 xs)) * 5 + 0xE6546B64) XOR 4
      = (word_rotl 13 (seed XOR murmur3_k (le32 ys)) * 5 + 0xE6546B64) XOR 4"
    using assms(3) unfolding one [OF assms(1)] one [OF assms(2)] by (rule injD [OF inj_fmix32])
  then have "word_rotl 13 (seed XOR murmur3_k (le32 xs)) = word_rotl 13 (seed XOR murmur3_k (le32 ys))"
    using injD [OF i5] by simp
  then have "seed XOR murmur3_k (le32 xs) = seed XOR murmur3_k (le32 ys)"
    by (rule injD [OF inj_word_rotl])
  then have "le32 xs = le32 ys" using injD [OF inj_murmur3_k] by simp
  then show ?thesis
    using bytes_le_le_word [of xs, where 'a = 32] bytes_le_le_word [of ys, where 'a = 32] assms(1,2)
    by simp
qed

theorem MurmurHash3_four_bytes_injective_witness:
  "MurmurHash3_32 [1, 0, 0, 0] 7 \<noteq> MurmurHash3_32 [0, 1, 0, 0] 7"
  using MurmurHash3_four_bytes_injective [of "[1, 0, 0, 0]" "[0, 1, 0, 0]" 7] by auto

end
