(* ===== verification/BaseX.thy ===== *)
theory BaseX
  imports Prelude
begin

text \<open>
  Base64 and Base32 of RFC 4648 as \<open>Convert\<close> implements them in \<open>src/libext/ext-fw.cpp\<close>, with
  the bit-wise output stream Base32 decodes into.  Text is a list of character codes; a \<open>char\<close>
  is signed, so a code from 128 on indexes a table from before its start.
\<close>

unbundle bit_operations_syntax

type_synonym code = nat

definition codes :: "string \<Rightarrow> code list" where
  "codes s = map of_char s"

section \<open>Base64\<close>

definition s_toBase64 :: "code list" where
  "s_toBase64 = codes ''ABCDEFGHIJKLMNOPQRSTUVWXYZabcdefghijklmnopqrstuvwxyz0123456789+/''"

text \<open>The constructor of \<open>CBase64Table\<close>: 256 times \<open>EOF\<close>, then the index of every digit.\<close>

definition CBase64Table :: "int list" where
  "CBase64Table = fold (\<lambda>i t. t[s_toBase64 ! i := int i]) (rev [0..<length s_toBase64]) (replicate 256 (- 1))"

definition is_space :: "code \<Rightarrow> bool" where
  "is_space ch \<longleftrightarrow> ch = 32 \<or> 9 \<le> ch \<and> ch \<le> 13"

text \<open>\<open>GetBase64Val\<close>: the value of the next character that is no space, and the rest of the text.\<close>

fun GetBase64Val :: "code list \<Rightarrow> int res \<times> code list" where
  "GetBase64Val [] = (Inr (- 1), [])"
| "GetBase64Val (ch # is) =
     (if is_space ch then GetBase64Val is
      else if ch < 128 then (Inr (CBase64Table ! ch), is)
      else (Inl OutOfBounds, is))"

lemma GetBase64Val_length: "GetBase64Val is = (v, is') \<Longrightarrow> length is' \<le> length is"
  by (induction "is" rule: GetBase64Val.induct) (auto split: if_splits)

lemma GetBase64Val_less:
  "GetBase64Val is = (Inr v, is') \<Longrightarrow> v \<noteq> - 1 \<Longrightarrow> length is' < length is"
  by (induction "is" rule: GetBase64Val.induct) (auto split: if_splits)

text \<open>
  \<open>Convert::FromBase64String\<close>: one turn of its loop reads four values; the text ends at the
  first NUL.
\<close>

function FromBase64_loop :: "code list \<Rightarrow> byte list \<Rightarrow> byte list res" where
  "FromBase64_loop is ms =
     (case GetBase64Val is of
        (Inl e, _) \<Rightarrow> Inl e
      | (Inr ch0, is0) \<Rightarrow>
     (case GetBase64Val is0 of
        (Inl e, _) \<Rightarrow> Inl e
      | (Inr ch1, is1) \<Rightarrow>
        if ch0 = - 1 \<or> ch1 = - 1 then Inr ms
        else
          let ms = ms @ [word_of_int (push_bit 2 ch0 OR drop_bit 4 ch1)]
          in case GetBase64Val is1 of
               (Inl e, _) \<Rightarrow> Inl e
             | (Inr ch2, is2) \<Rightarrow>
                 if ch2 = - 1 then Inr ms
                 else
                   let ms = ms @ [word_of_int (push_bit 4 ch1 OR drop_bit 2 ch2)]
                   in case GetBase64Val is2 of
                        (Inl e, _) \<Rightarrow> Inl e
                      | (Inr ch3, is3) \<Rightarrow>
                          if ch3 = - 1 then Inr ms
                          else FromBase64_loop is3 (ms @ [word_of_int (push_bit 6 ch2 OR ch3)])))"
  by pat_completeness auto
termination
proof (relation "measure (\<lambda>(is, ms). length is)", simp, goal_cases)
  case 1
  then show ?case
    by (auto dest!: GetBase64Val_length GetBase64Val_less [OF sym])
qed

declare FromBase64_loop.simps [simp del]

definition FromBase64String :: "code list \<Rightarrow> byte list res" where
  "FromBase64String s = FromBase64_loop (takeWhile (\<lambda>c. c \<noteq> 0) s) []"

text \<open>\<open>Convert::ToBase64String\<close>: its loop over groups of three bytes, and the last group.\<close>

definition base64_digit :: "u32 \<Rightarrow> code" where
  "base64_digit v = s_toBase64 ! unat (v AND 0x3F)"

fun ToBase64_loop :: "nat \<Rightarrow> byte list \<Rightarrow> code list \<Rightarrow> code list \<times> byte list" where
  "ToBase64_loop 0 p v = (v, p)"
| "ToBase64_loop (Suc i) p v =
     (let dw = (push_bit 16 (ucast (p ! 0)) OR push_bit 8 (ucast (p ! 1)) OR ucast (p ! 2) :: u32)
      in ToBase64_loop i (drop 3 p)
           (v @ [base64_digit (drop_bit 18 dw), base64_digit (drop_bit 12 dw),
                 base64_digit (drop_bit 6 dw), base64_digit dw]))"

definition ToBase64String :: "byte list \<Rightarrow> code list" where
  "ToBase64String mb =
     (case ToBase64_loop (length mb div 3) mb [] of
        (v, p) \<Rightarrow>
          let rem = length mb mod 3;
              p0 = (ucast (p ! 0) :: u32); p1 = (ucast (p ! 1) :: u32)
          in if rem = 0 then v
             else
               (let v = v @ [base64_digit (drop_bit 2 p0)];
                    v = (if rem = 1 then v @ [base64_digit (push_bit 4 p0), 61]
                         else if rem = 2
                         then v @ [base64_digit (push_bit 4 p0 OR drop_bit 4 p1),
                                   base64_digit (push_bit 2 p1)]
                         else v)
                in v @ [61]))"

section \<open>Base32\<close>

text \<open>\<open>BitWriteStream\<close>: the bytes written to the underlying stream, the bits pending.\<close>

record bit_write_stream =
  bw_Base :: "byte list"
  bw_Offset :: nat
  bw_prevValue :: byte

definition BitWriteStream :: bit_write_stream where
  "BitWriteStream = \<lparr>bw_Base = [], bw_Offset = 0, bw_prevValue = 0\<rparr>"

definition BitWriteStream_Write :: "nat \<Rightarrow> u32 \<Rightarrow> bit_write_stream \<Rightarrow> bit_write_stream" where
  "BitWriteStream_Write count value bs =
     (let Offset = bw_Offset bs;
          prev = bw_prevValue bs OR ucast (drop_bit Offset (push_bit (8 - count) value));
          bs' = (if Offset + count \<ge> 8
                 then bs\<lparr>bw_Base := bw_Base bs @ [prev],
                         bw_prevValue := ucast (push_bit (16 - Offset - count) value)\<rparr>
                 else bs\<lparr>bw_prevValue := prev\<rparr>)
      in bs'\<lparr>bw_Offset := (Offset + count) mod 8\<rparr>)"

definition BitWriteStream_Flush :: "bit_write_stream \<Rightarrow> bit_write_stream" where
  "BitWriteStream_Flush bs =
     (let bs' = (if bw_Offset bs \<noteq> 0 then bs\<lparr>bw_Base := bw_Base bs @ [bw_prevValue bs]\<rparr> else bs)
      in bs'\<lparr>bw_Offset := 0, bw_prevValue := 0\<rparr>)"

text \<open>
  \<open>FromBaseX\<close>: the inner loop over one group of characters, which \<open>'='\<close> ends, and the outer
  loop over the groups.  A character is a UTF-16 code unit, so the conversion to \<open>uint16_t\<close>
  changes nothing.
\<close>

fun FromBaseX_group ::
    "nat \<Rightarrow> byte list \<Rightarrow> code list \<Rightarrow> bit_write_stream \<Rightarrow> bit_write_stream res" where
  "FromBaseX_group bits valTable [] bs = Inr bs"
| "FromBaseX_group bits valTable (ch # chs) bs =
     (if ch = 61 then Inr (BitWriteStream_Flush (bs\<lparr>bw_Offset := 0\<rparr>))
      else if ch \<ge> 256 then Inl InvalidArgument
      else FromBaseX_group bits valTable chs
             (BitWriteStream_Write bits (ucast (valTable ! ch)) bs))"

fun FromBaseX_groups ::
    "nat \<Rightarrow> byte list \<Rightarrow> code list list \<Rightarrow> bit_write_stream \<Rightarrow> bit_write_stream res" where
  "FromBaseX_groups bits valTable [] bs = Inr bs"
| "FromBaseX_groups bits valTable (g # gs) bs =
     bind_res (FromBaseX_group bits valTable g bs) (FromBaseX_groups bits valTable gs)"

definition FromBaseX :: "nat \<Rightarrow> nat \<Rightarrow> code list \<Rightarrow> byte list \<Rightarrow> byte list res" where
  "FromBaseX charsInGroup bits s valTable =
     bind_res (FromBaseX_groups bits valTable (chunks charsInGroup s) BitWriteStream) (\<lambda>bs.
       if charsInGroup > 1 \<and> bw_Offset bs \<noteq> 0 \<or> charsInGroup = 1 \<and> bw_Offset bs \<ge> bits
            \<or> bw_prevValue bs \<noteq> 0
       then Inl Padding else Inr (bw_Base bs))"

text \<open>
  \<open>ToBaseX\<close>: \<open>ToBaseX_val\<close> is the loop that packs the bytes of one group from the top,
  \<open>ToBaseX_chars\<close> the one that writes its characters while bits are left.
\<close>

fun ToBaseX_val :: "nat \<Rightarrow> byte list \<Rightarrow> u64 \<Rightarrow> int \<Rightarrow> u64 \<times> int \<times> byte list" where
  "ToBaseX_val 0 mb val nbits = (val, nbits, mb)"
| "ToBaseX_val (Suc j) [] val nbits = (val, nbits, [])"
| "ToBaseX_val (Suc j) (b # mb) val nbits =
     ToBaseX_val j mb (val OR push_bit (j * 8) (ucast b)) (nbits + 8)"

fun ToBaseX_chars :: "nat \<Rightarrow> nat \<Rightarrow> u64 \<Rightarrow> int \<Rightarrow> code list \<Rightarrow> code list" where
  "ToBaseX_chars 0 bitsInGroup val nbits table = []"
| "ToBaseX_chars (Suc j) bitsInGroup val nbits table =
     (if nbits > 0
      then table ! unat (drop_bit (j * bitsInGroup) val AND mask bitsInGroup) else 61)
     # ToBaseX_chars j bitsInGroup val (nbits - int bitsInGroup) table"

fun ToBaseX_groups :: "nat \<Rightarrow> nat \<Rightarrow> byte list list \<Rightarrow> code list \<Rightarrow> code list" where
  "ToBaseX_groups charsInGroup bytesInGroup [] table = []"
| "ToBaseX_groups charsInGroup bytesInGroup (g # gs) table =
     (case ToBaseX_val bytesInGroup g 0 0 of
        (val, nbits, _) \<Rightarrow>
          ToBaseX_chars charsInGroup (bytesInGroup * 8 div charsInGroup) val nbits table)
     @ ToBaseX_groups charsInGroup bytesInGroup gs table"

definition ToBaseX :: "nat \<Rightarrow> nat \<Rightarrow> byte list \<Rightarrow> code list \<Rightarrow> code list" where
  "ToBaseX charsInGroup bytesInGroup mb table =
     ToBaseX_groups charsInGroup bytesInGroup (chunks bytesInGroup mb) table"

definition s_toBase32 :: "code list" where
  "s_toBase32 = codes ''ABCDEFGHIJKLMNOPQRSTUVWXYZ234567''"

definition to_lower :: "code \<Rightarrow> code" where
  "to_lower ch = (if 65 \<le> ch \<and> ch \<le> 90 then ch + 32 else ch)"

definition CBase32Table :: "byte list" where
  "CBase32Table =
     fold (\<lambda>i t. t[to_lower (s_toBase32 ! i) := of_nat i, s_toBase32 ! i := of_nat i])
       (rev [0..<length s_toBase32]) (replicate 256 0)"

definition FromBase32String :: "code list \<Rightarrow> byte list option \<Rightarrow> byte list res" where
  "FromBase32String s table =
     FromBaseX 1 5 s (case table of Some t \<Rightarrow> t | None \<Rightarrow> CBase32Table)"

definition ToBase32String :: "byte list \<Rightarrow> code list option \<Rightarrow> code list" where
  "ToBase32String mb table =
     ToBaseX 8 5 mb (case table of Some t \<Rightarrow> t | None \<Rightarrow> s_toBase32)"

section \<open>The digits\<close>

lemma length_s_toBase64: "length s_toBase64 = 64"
  by (simp add: s_toBase64_def codes_def)

lemma length_s_toBase32: "length s_toBase32 = 32"
  by (simp add: s_toBase32_def codes_def)

lemma base64_table: "list_all (\<lambda>k. CBase64Table ! (s_toBase64 ! k) = int k) [0..<64]"
  by code_simp

lemma base64_chars:
  "list_all (\<lambda>c. c < 128 \<and> \<not> is_space c \<and> c \<noteq> 0 \<and> c \<noteq> 61) s_toBase64"
  by code_simp

lemma base64_eof: "CBase64Table ! 61 = - 1" "\<not> is_space 61"
  by code_simp+

lemma base32_table: "list_all (\<lambda>k. CBase32Table ! (s_toBase32 ! k) = of_nat k) [0..<32]"
  by code_simp

lemma base32_chars: "list_all (\<lambda>c. c < 256 \<and> c \<noteq> 61) s_toBase32"
  by code_simp

section \<open>Base64 round trip\<close>

lemma unat_and_63: "unat (v AND 0x3F) < 64" for v :: u32
  using unat_and_mask_less [of v 6] by (simp add: mask_eq_exp_minus_1)

lemma GetBase64Val_digit [simp]:
  "GetBase64Val (base64_digit v # is) = (Inr (uint (v AND 0x3F)), is)"
proof -
  let ?k = "unat (v AND 0x3F)"
  have "CBase64Table ! (s_toBase64 ! ?k) = int ?k"
    using base64_table unat_and_63 [of v] by (simp add: list_all_iff)
  moreover have "base64_digit v \<in> set s_toBase64"
    unfolding base64_digit_def using unat_and_63 [of v] by (simp add: length_s_toBase64)
  ultimately show ?thesis
    using base64_chars by (simp add: base64_digit_def list_all_iff)
qed

lemma GetBase64Val_eof [simp]: "GetBase64Val (61 # is) = (Inr (- 1), is)"
  by (simp add: base64_eof)

declare GetBase64Val.simps(2) [simp del]

lemma uint_not_minus_1 [simp]: "uint (v :: u32) \<noteq> - 1"
  using uint_ge_0 [of v] by linarith

lemma bit_word_of_int_byte: "bit (word_of_int k :: byte) i \<longleftrightarrow> i < 8 \<and> bit k i"
  by (simp add: bit_word_of_int_iff)

lemma byte_eqI8:
  fixes x y :: byte
  assumes "bit x 0 = bit y 0" "bit x 1 = bit y 1" "bit x 2 = bit y 2" "bit x 3 = bit y 3"
    "bit x 4 = bit y 4" "bit x 5 = bit y 5" "bit x 6 = bit y 6" "bit x 7 = bit y 7"
  shows "x = y"
proof (rule bit_word_eqI)
  fix i
  assume "i < LENGTH(8)"
  then have "i = 0 \<or> i = 1 \<or> i = 2 \<or> i = 3 \<or> i = 4 \<or> i = 5 \<or> i = 6 \<or> i = 7" by auto
  then show "bit x i = bit y i" using assms by blast
qed

lemmas digit_bits = bit_word_of_int_byte bit_or_iff bit_and_iff bit_push_bit_iff bit_drop_bit_eq
  bit_uint_iff bit_unsigned_iff

lemma base64_bytes:
  fixes a b c :: byte
  defines "dw \<equiv> push_bit 16 (ucast a) OR push_bit 8 (ucast b) OR (ucast c :: u32)"
  shows "word_of_int (push_bit 2 (uint (drop_bit 18 dw AND 0x3F)) OR drop_bit 4 (uint (drop_bit 12 dw AND 0x3F))) = a"
    and "word_of_int (push_bit 4 (uint (drop_bit 12 dw AND 0x3F)) OR drop_bit 2 (uint (drop_bit 6 dw AND 0x3F))) = b"
    and "word_of_int (push_bit 6 (uint (drop_bit 6 dw AND 0x3F)) OR uint (dw AND 0x3F)) = c"
  unfolding dw_def
  by (rule byte_eqI8; simp add: digit_bits; use bit_byte_less in fastforce)
    (rule byte_eqI8; simp add: digit_bits; use bit_byte_less in fastforce)+

lemma FromBase64_group:
  fixes a b c :: byte and "is" :: "code list"
  defines "dw \<equiv> push_bit 16 (ucast a) OR push_bit 8 (ucast b) OR (ucast c :: u32)"
  shows "FromBase64_loop ([base64_digit (drop_bit 18 dw), base64_digit (drop_bit 12 dw),
      base64_digit (drop_bit 6 dw), base64_digit dw] @ is) ms = FromBase64_loop is (ms @ [a, b, c])"
  by (subst FromBase64_loop.simps)
    (simp add: Let_def base64_bytes [of a b c, folded dw_def])

lemma ToBase64_loop_acc:
  "ToBase64_loop n p v = (v @ fst (ToBase64_loop n p []), drop (3 * n) p)"
proof (induction n arbitrary: p v)
  case (Suc n)
  show ?case
    unfolding ToBase64_loop.simps Let_def
    by (subst (1 2) Suc.IH) (simp add: algebra_simps)
qed simp

definition base64_quad :: "byte list \<Rightarrow> code list" where
  "base64_quad p =
     (let dw = push_bit 16 (ucast (p ! 0)) OR push_bit 8 (ucast (p ! 1)) OR (ucast (p ! 2) :: u32)
      in [base64_digit (drop_bit 18 dw), base64_digit (drop_bit 12 dw),
          base64_digit (drop_bit 6 dw), base64_digit dw])"

lemma ToBase64_loop_Suc:
  "fst (ToBase64_loop (Suc n) p []) = base64_quad p @ fst (ToBase64_loop n (drop 3 p) [])"
proof -
  have "ToBase64_loop (Suc n) p [] = ToBase64_loop n (drop 3 p) (base64_quad p)"
    by (simp add: base64_quad_def Let_def)
  then show ?thesis using ToBase64_loop_acc [of n "drop 3 p" "base64_quad p"] by simp
qed

lemma FromBase64_ToBase64_loop:
  "3 * n \<le> length p \<Longrightarrow>
    FromBase64_loop (fst (ToBase64_loop n p []) @ is) ms = FromBase64_loop is (ms @ take (3 * n) p)"
proof (induction n arbitrary: p ms)
  case (Suc n)
  then obtain a b c q where p: "p = a # b # c # q"
    by (cases p; cases "tl p"; cases "tl (tl p)") auto
  have q: "3 * n \<le> length q" using Suc.prems by (simp add: p)
  have three: "p ! 0 = a" "p ! 1 = b" "p ! 2 = c" "drop 3 p = q" by (simp_all add: p)
  have "3 * Suc n = Suc (Suc (Suc (3 * n)))" by simp
  then have tk: "take (3 * Suc n) p = [a, b, c] @ take (3 * n) q" by (simp only: p) simp
  have "FromBase64_loop (fst (ToBase64_loop (Suc n) p []) @ is) ms
      = FromBase64_loop (base64_quad p @ fst (ToBase64_loop n q []) @ is) ms"
    by (simp only: ToBase64_loop_Suc three append.assoc)
  also have "\<dots> = FromBase64_loop (fst (ToBase64_loop n q []) @ is) (ms @ [a, b, c])"
    unfolding base64_quad_def Let_def three by (rule FromBase64_group)
  also have "\<dots> = FromBase64_loop is ((ms @ [a, b, c]) @ take (3 * n) q)"
    by (rule Suc.IH [OF q])
  finally show ?case by (simp only: tk append.assoc)
qed simp

lemma base64_tail1:
  fixes a :: byte and ms :: "byte list"
  shows "FromBase64_loop [base64_digit (drop_bit 2 (ucast a)), base64_digit (push_bit 4 (ucast a)), 61, 61] ms
    = Inr (ms @ [a])"
proof -
  have "word_of_int (push_bit 2 (uint (drop_bit 2 (ucast a :: u32) AND 0x3F))
      OR drop_bit 4 (uint (push_bit 4 (ucast a :: u32) AND 0x3F))) = a"
    by (rule byte_eqI8; simp add: digit_bits)
  then show ?thesis by (subst FromBase64_loop.simps) (simp add: Let_def)
qed

lemma base64_tail2:
  fixes a b :: byte and ms :: "byte list"
  shows "FromBase64_loop [base64_digit (drop_bit 2 (ucast a)),
      base64_digit (push_bit 4 (ucast a) OR drop_bit 4 (ucast b)), base64_digit (push_bit 2 (ucast b)), 61] ms
    = Inr (ms @ [a, b])"
proof -
  have "word_of_int (push_bit 2 (uint (drop_bit 2 (ucast a :: u32) AND 0x3F))
      OR drop_bit 4 (uint ((push_bit 4 (ucast a) OR drop_bit 4 (ucast b) :: u32) AND 0x3F))) = a"
    by (rule byte_eqI8; simp add: digit_bits; use bit_byte_less in fastforce)
  moreover have "word_of_int (push_bit 4 (uint ((push_bit 4 (ucast a) OR drop_bit 4 (ucast b) :: u32) AND 0x3F))
      OR drop_bit 2 (uint (push_bit 2 (ucast b :: u32) AND 0x3F))) = b"
    by (rule byte_eqI8; simp add: digit_bits; use bit_byte_less in fastforce)
  ultimately show ?thesis by (subst FromBase64_loop.simps) (simp add: Let_def)
qed

lemma base64_digit_nonzero [simp]: "base64_digit v \<noteq> 0" "0 < base64_digit v"
proof -
  have "base64_digit v \<in> set s_toBase64"
    unfolding base64_digit_def using unat_and_63 [of v] by (simp add: length_s_toBase64)
  then have "base64_digit v \<noteq> 0" using base64_chars by (simp add: list_all_iff)
  then show "base64_digit v \<noteq> 0" "0 < base64_digit v" by simp_all
qed

lemma base64_quad_nonzero: "c \<in> set (base64_quad p) \<Longrightarrow> c \<noteq> 0"
  unfolding base64_quad_def Let_def by (auto simp del: drop_bit_or)

lemma ToBase64_loop_nonzero: "c \<in> set (fst (ToBase64_loop n p [])) \<Longrightarrow> c \<noteq> 0"
proof (induction n arbitrary: p)
  case (Suc n)
  then show ?case
    unfolding ToBase64_loop_Suc using base64_quad_nonzero [of c p] by auto
qed simp

text \<open>\<open>FromBase64String\<close> decodes what \<open>ToBase64String\<close> encodes, for byte strings of every length.\<close>

theorem base64_roundtrip: "FromBase64String (ToBase64String mb) = Inr mb"
proof -
  let ?n = "length mb div 3"
  let ?p = "drop (3 * ?n) mb"
  define v where "v = fst (ToBase64_loop ?n mb [])"
  have split: "ToBase64_loop ?n mb [] = (v, ?p)"
    using ToBase64_loop_acc [of ?n mb "[]"] by (simp add: v_def)
  have le: "3 * ?n \<le> length mb" by simp
  have dec: "FromBase64_loop (v @ is) [] = FromBase64_loop is (take (3 * ?n) mb)" for "is"
    using FromBase64_ToBase64_loop [OF le] by (simp add: v_def)
  have all: "takeWhile (\<lambda>c. c \<noteq> 0) (v @ is) = v @ takeWhile (\<lambda>c. c \<noteq> 0) is" for "is"
    using ToBase64_loop_nonzero unfolding v_def by (intro takeWhile_append2) blast
  have len: "length ?p = length mb mod 3" by (simp add: minus_mult_div_eq_mod)
  have "length mb mod 3 < 3" by simp
  then consider "length mb mod 3 = 0" | "length mb mod 3 = 1" | "length mb mod 3 = 2" by linarith
  then show ?thesis
  proof cases
    case 1
    then have "take (3 * ?n) mb = mb" using len by simp
    moreover have "FromBase64_loop [] ms = Inr ms" for ms by (subst FromBase64_loop.simps) simp
    moreover have "ToBase64String mb = v @ []"
      unfolding ToBase64String_def split prod.case Let_def 1 by simp
    ultimately show ?thesis
      by (simp only: FromBase64String_def all dec takeWhile.simps)
  next
    case 2
    then have "length ?p = Suc 0" by (simp only: len)
    then obtain a where p: "?p = [a]" unfolding length_Suc_conv length_0_conv by blast
    have "take (3 * ?n) mb @ [a] = mb" using append_take_drop_id [of "3 * ?n" mb] p by simp
    moreover have "ToBase64String mb
        = v @ [base64_digit (drop_bit 2 (ucast a)), base64_digit (push_bit 4 (ucast a)), 61, 61]"
      unfolding ToBase64String_def split prod.case Let_def p 2 by simp
    ultimately show ?thesis
      by (simp only: FromBase64String_def all) (simp add: dec base64_tail1)
  next
    case 3
    then have "length ?p = Suc (Suc 0)" by (simp only: len)
    then obtain a b where p: "?p = [a, b]" unfolding length_Suc_conv length_0_conv by blast
    have "take (3 * ?n) mb @ [a, b] = mb" using append_take_drop_id [of "3 * ?n" mb] p by simp
    moreover have "ToBase64String mb = v @ [base64_digit (drop_bit 2 (ucast a)),
        base64_digit (push_bit 4 (ucast a) OR drop_bit 4 (ucast b)), base64_digit (push_bit 2 (ucast b)), 61]"
      unfolding ToBase64String_def split prod.case Let_def p 3 by simp
    ultimately show ?thesis
      by (simp only: FromBase64String_def all) (simp add: dec base64_tail2)
  qed
qed

section \<open>Base32 round trip\<close>

lemma chunks_1: "chunks 1 s = map (\<lambda>c. [c]) s"
  by (induction s) (simp, subst chunks.simps, simp)

abbreviation bits_at :: "byte list \<Rightarrow> nat \<Rightarrow> byte \<Rightarrow> bit_write_stream" where
  "bits_at B i p \<equiv> \<lparr>bw_Base = B, bw_Offset = i, bw_prevValue = p\<rparr>"

text \<open>Writing five bits at each offset.\<close>

lemma Write5:
  "BitWriteStream_Write 5 v (bits_at B 0 p) = bits_at B 5 (p OR ucast (push_bit 3 v))"
  "BitWriteStream_Write 5 v (bits_at B 5 p)
     = bits_at (B @ [p OR ucast (drop_bit 5 (push_bit 3 v))]) 2 (ucast (push_bit 6 v))"
  "BitWriteStream_Write 5 v (bits_at B 2 p) = bits_at B 7 (p OR ucast (drop_bit 2 (push_bit 3 v)))"
  "BitWriteStream_Write 5 v (bits_at B 7 p)
     = bits_at (B @ [p OR ucast (drop_bit 7 (push_bit 3 v))]) 4 (ucast (push_bit 4 v))"
  "BitWriteStream_Write 5 v (bits_at B 4 p)
     = bits_at (B @ [p OR ucast (drop_bit 4 (push_bit 3 v))]) 1 (ucast (push_bit 7 v))"
  "BitWriteStream_Write 5 v (bits_at B 1 p) = bits_at B 6 (p OR ucast (drop_bit 1 (push_bit 3 v)))"
  "BitWriteStream_Write 5 v (bits_at B 6 p)
     = bits_at (B @ [p OR ucast (drop_bit 6 (push_bit 3 v))]) 3 (ucast (push_bit 5 v))"
  "BitWriteStream_Write 5 v (bits_at B 3 p)
     = bits_at (B @ [p OR ucast (drop_bit 3 (push_bit 3 v))]) 0 (ucast (push_bit 8 v))"
  by (simp_all add: BitWriteStream_Write_def)

text \<open>The five bits of \<open>val\<close> from \<open>j\<close> on, as the decoder sees them after the table look-up.\<close>

definition quint :: "u64 \<Rightarrow> nat \<Rightarrow> u32" where
  "quint val j = ucast (drop_bit j val AND mask 5)"

lemma bit_quint: "bit (quint val j) i \<longleftrightarrow> i < 5 \<and> bit val (j + i)"
  by (auto simp: quint_def digit_bits bit_mask_iff)

lemma base32_value:
  "(ucast (CBase32Table ! (s_toBase32 ! unat (drop_bit j val AND mask 5))) :: u32) = quint val j"
proof -
  let ?w = "drop_bit j val AND mask 5 :: u64"
  have k: "unat ?w < 32" using unat_and_mask_less [of "drop_bit j val" 5] by simp
  have "CBase32Table ! (s_toBase32 ! unat ?w) = of_nat (unat ?w)"
    using base32_table k by (simp add: list_all_iff)
  moreover have "(ucast (of_nat (unat ?w) :: byte) :: u32) = of_nat (unat ?w)"
    using k by (intro word_unat_eq_iff [THEN iffD2])
      (simp only: unsigned_ucast_eq unsigned_take_bit_eq unat_of_nat, simp add: take_bit_nat_eq_self)
  ultimately show ?thesis by (simp add: quint_def)
qed

lemma base32_digit_char:
  fixes val :: u64
  shows "s_toBase32 ! unat (drop_bit j val AND mask 5) < 256" (is "?c < _")
    and "s_toBase32 ! unat (drop_bit j val AND mask 5) \<noteq> 61"
proof -
  have "unat (drop_bit j val AND mask 5) < 32" using unat_and_mask_less [of "drop_bit j val" 5] by simp
  then have "?c \<in> set s_toBase32" by (simp add: length_s_toBase32)
  then show "?c < 256" "?c \<noteq> 61" using base32_chars by (simp_all add: list_all_iff)
qed

lemma group_digit:
  "FromBaseX_groups 5 CBase32Table ([s_toBase32 ! unat (drop_bit j val AND mask 5)] # gs) bs
    = FromBaseX_groups 5 CBase32Table gs (BitWriteStream_Write 5 (quint val j) bs)"
  using base32_digit_char(1) [of j val] base32_digit_char(2) [of j val] by (simp add: base32_value)

lemma group_pad:
  "FromBaseX_groups 5 CBase32Table ([61] # gs) bs
    = FromBaseX_groups 5 CBase32Table gs (bits_at (bw_Base bs) 0 0)"
  by (cases bs) (simp add: BitWriteStream_Flush_def)

text \<open>The value a group of one to five bytes is packed into, and the bytes it gives back.\<close>

definition pack :: "byte list \<Rightarrow> u64" where
  "pack g = fst (ToBaseX_val 5 g 0 0)"

definition group_chars :: "byte list \<Rightarrow> code list" where
  "group_chars g = ToBaseX_chars 8 5 (pack g) (8 * int (length g)) s_toBase32"

lemma ToBaseX_val_nbits:
  "length g \<le> n \<Longrightarrow> \<exists>val rest. ToBaseX_val n g v k = (val, k + 8 * int (length g), rest)"
  by (induction n g v k rule: ToBaseX_val.induct) auto

lemma bit_ToBaseX_val:
  "bit (fst (ToBaseX_val n g v k)) i \<longleftrightarrow>
    bit v i \<or> (i < 64 \<and> i < 8 * n \<and> n - 1 - i div 8 < length g \<and> bit (g ! (n - 1 - i div 8)) (i mod 8))"
proof (induction n g v k rule: ToBaseX_val.induct)
  case (3 j b mb val nbits)
  have eq: "bit (val OR push_bit (j * 8) (ucast b)) i \<longleftrightarrow>
      bit val i \<or> i < 64 \<and> i div 8 = j \<and> bit b (i mod 8)"
  proof -
    have "i div 8 = j \<and> bit b (i mod 8) \<longleftrightarrow> j * 8 \<le> i \<and> bit b (i - j * 8)"
    proof
      assume "j * 8 \<le> i \<and> bit b (i - j * 8)"
      moreover from this have "i - j * 8 < 8" using bit_byte_less by blast
      ultimately have "i div 8 = j" "i mod 8 = i - j * 8" by (simp_all add: div_nat_eqI mod_nat_eqI)
      with \<open>j * 8 \<le> i \<and> bit b (i - j * 8)\<close> show "i div 8 = j \<and> bit b (i mod 8)" by simp
    next
      assume "i div 8 = j \<and> bit b (i mod 8)"
      moreover have "j * 8 \<le> i" "i - j * 8 = i mod 8" if "i div 8 = j"
        using that div_mult_mod_eq [of i 8] by (simp_all flip: that add: minus_div_mult_eq_mod)
      ultimately show "j * 8 \<le> i \<and> bit b (i - j * 8)" by simp
    qed
    then show ?thesis by (auto simp: bit_or_iff bit_push_bit_iff bit_unsigned_iff)
  qed
  show ?case
    unfolding ToBaseX_val.simps "3.IH" eq
    by (cases "i div 8 = j"; cases "i div 8 < j") (auto simp: Suc_diff_Suc nth_Cons' div_less_iff_less_mult)
qed simp_all

lemma bit_pack:
  assumes "k < length g" and "length g \<le> 5" and "i < 8"
  shows "bit (pack g) (8 * (4 - k) + i) \<longleftrightarrow> bit (g ! k) i"
proof -
  have "(8 * (4 - k) + i) div 8 = 4 - k" "(8 * (4 - k) + i) mod 8 = i" using assms(3) by simp_all
  moreover have "8 * (4 - k) + i < 40" using assms(3) by linarith
  moreover have "4 - (4 - k) = k" using assms(1,2) by simp
  ultimately show ?thesis
    using assms unfolding pack_def bit_ToBaseX_val by simp
qed

text \<open>The bytes the writes of one group put together.\<close>

lemma joined_bytes:
  fixes val :: u64
  shows "(bit (ucast (push_bit 3 (quint val 35)) OR ucast (drop_bit 5 (push_bit 3 (quint val 30))) :: byte) i
      \<longleftrightarrow> i < 8 \<and> bit val (32 + i))"
    and "(bit (ucast (push_bit 6 (quint val 30)) OR ucast (drop_bit 2 (push_bit 3 (quint val 25)))
        OR ucast (drop_bit 7 (push_bit 3 (quint val 20))) :: byte) i \<longleftrightarrow> i < 8 \<and> bit val (24 + i))"
    and "(bit (ucast (push_bit 4 (quint val 20)) OR ucast (drop_bit 4 (push_bit 3 (quint val 15))) :: byte) i
      \<longleftrightarrow> i < 8 \<and> bit val (16 + i))"
    and "(bit (ucast (push_bit 7 (quint val 15)) OR ucast (drop_bit 1 (push_bit 3 (quint val 10)))
        OR ucast (drop_bit 6 (push_bit 3 (quint val 5))) :: byte) i \<longleftrightarrow> i < 8 \<and> bit val (8 + i))"
    and "(bit (ucast (push_bit 5 (quint val 5)) OR ucast (drop_bit 3 (push_bit 3 (quint val 0))) :: byte) i
      \<longleftrightarrow> i < 8 \<and> bit val i)"
proof -
  have cases8: "i \<ge> 8 \<or> i = 0 \<or> i = 1 \<or> i = 2 \<or> i = 3 \<or> i = 4 \<or> i = 5 \<or> i = 6 \<or> i = 7"
    by linarith
  show "(bit (ucast (push_bit 3 (quint val 35)) OR ucast (drop_bit 5 (push_bit 3 (quint val 30))) :: byte) i
      \<longleftrightarrow> i < 8 \<and> bit val (32 + i))"
    using cases8 by (elim disjE) (simp_all add: digit_bits bit_quint)
  show "(bit (ucast (push_bit 6 (quint val 30)) OR ucast (drop_bit 2 (push_bit 3 (quint val 25)))
        OR ucast (drop_bit 7 (push_bit 3 (quint val 20))) :: byte) i \<longleftrightarrow> i < 8 \<and> bit val (24 + i))"
    using cases8 by (elim disjE) (simp_all add: digit_bits bit_quint)
  show "(bit (ucast (push_bit 4 (quint val 20)) OR ucast (drop_bit 4 (push_bit 3 (quint val 15))) :: byte) i
      \<longleftrightarrow> i < 8 \<and> bit val (16 + i))"
    using cases8 by (elim disjE) (simp_all add: digit_bits bit_quint)
  show "(bit (ucast (push_bit 7 (quint val 15)) OR ucast (drop_bit 1 (push_bit 3 (quint val 10)))
        OR ucast (drop_bit 6 (push_bit 3 (quint val 5))) :: byte) i \<longleftrightarrow> i < 8 \<and> bit val (8 + i))"
    using cases8 by (elim disjE) (simp_all add: digit_bits bit_quint)
  show "(bit (ucast (push_bit 5 (quint val 5)) OR ucast (drop_bit 3 (push_bit 3 (quint val 0))) :: byte) i
      \<longleftrightarrow> i < 8 \<and> bit val i)"
    using cases8 by (elim disjE) (simp_all add: digit_bits bit_quint flip: numeral_2_eq_2)
qed

lemma ToBaseX_chars_8:
  "ToBaseX_chars 8 5 val nbits table =
     map (\<lambda>j. if nbits > 5 * (7 - int j) then table ! unat (drop_bit (5 * j) val AND mask 5) else 61)
       [7, 6, 5, 4, 3, 2, 1, 0]"
proof -
  have "ToBaseX_chars (Suc (Suc (Suc (Suc (Suc (Suc (Suc (Suc 0)))))))) 5 val nbits table =
     map (\<lambda>j. if nbits > 5 * (7 - int j) then table ! unat (drop_bit (5 * j) val AND mask 5) else 61)
       [7, 6, 5, 4, 3, 2, 1, 0]"
    by simp
  then show ?thesis by (simp add: eval_nat_numeral(3) numeral_eq_Suc)
qed

lemma byte_of_pack:
  fixes x :: byte
  assumes "k < length g" and "length g \<le> 5"
    and "\<And>i. bit x i \<longleftrightarrow> i < 8 \<and> bit (pack g) (8 * (4 - k) + i)"
  shows "x = g ! k"
  by (rule bit_word_eqI) (use assms bit_pack in auto)

text \<open>A whole group of characters: its bytes come out, and no bits stay pending.\<close>

lemma group_roundtrip:
  assumes "g \<noteq> []" and "length g \<le> 5"
  shows "FromBaseX_groups 5 CBase32Table (map (\<lambda>c. [c]) (group_chars g) @ gs) (bits_at B 0 0)
    = FromBaseX_groups 5 CBase32Table gs (bits_at (B @ g) 0 0)"
proof -
  note at = byte_of_pack [of _ g, OF _ assms(2)]
  note bytes = joined_bytes [of "pack g"]
  have b0: "ucast (push_bit 3 (quint (pack g) 35)) OR ucast (drop_bit 5 (push_bit 3 (quint (pack g) 30))) = g ! 0"
    using assms(1) by (intro at) (simp_all only: bytes, simp_all)
  have b1: "ucast (push_bit 6 (quint (pack g) 30)) OR ucast (drop_bit 2 (push_bit 3 (quint (pack g) 25)))
        OR ucast (drop_bit 7 (push_bit 3 (quint (pack g) 20))) = g ! 1" if "1 < length g"
    using that by (intro at) (simp_all only: bytes, simp_all)
  have b2: "ucast (push_bit 4 (quint (pack g) 20)) OR ucast (drop_bit 4 (push_bit 3 (quint (pack g) 15))) = g ! 2"
    if "2 < length g"
    using that by (intro at) (simp_all only: bytes, simp_all)
  have b3: "ucast (push_bit 7 (quint (pack g) 15)) OR ucast (drop_bit 1 (push_bit 3 (quint (pack g) 10)))
        OR ucast (drop_bit 6 (push_bit 3 (quint (pack g) 5))) = g ! 3" if "3 < length g"
    using that by (intro at) (simp_all only: bytes, simp_all)
  have b4: "ucast (push_bit 5 (quint (pack g) 5)) OR ucast (drop_bit 3 (push_bit 3 (quint (pack g) 0))) = g ! 4"
    if "4 < length g"
    using that by (intro at) (simp_all only: bytes, simp_all)
  have z: "(ucast (push_bit 8 (quint (pack g) 0)) :: byte) = 0"
    by (rule bit_word_eqI) (simp add: digit_bits bit_quint)
  note run = group_digit group_digit [of 0 "pack g", unfolded drop_bit_0 id_apply] group_pad Write5 Write5 [unfolded One_nat_def] bit_write_stream.simps or.assoc
  consider "length g = 1" | "length g = 2" | "length g = 3" | "length g = 4" | "length g = 5"
  proof -
    have "length g \<noteq> 0" using assms(1) by simp
    then show ?thesis using assms(2) that by linarith
  qed
  then show ?thesis
  proof cases
    case 1
    then have "length g = Suc (0)" by simp
    then obtain a where g: "g = [a]" unfolding length_Suc_conv length_0_conv by blast
    have "group_chars g = [s_toBase32 ! unat (drop_bit 35 (pack g) AND mask 5), s_toBase32 ! unat (drop_bit 30 (pack g) AND mask 5), 61, 61, 61, 61, 61, 61]"
      by (simp add: group_chars_def ToBaseX_chars_8 1)
    then show ?thesis
      using b0 by (simp add: run z del: FromBaseX_groups.simps) (simp add: g)
  next
    case 2
    then have "length g = Suc (Suc (0))" by simp
    then obtain a b where g: "g = [a, b]" unfolding length_Suc_conv length_0_conv by blast
    have "group_chars g = [s_toBase32 ! unat (drop_bit 35 (pack g) AND mask 5), s_toBase32 ! unat (drop_bit 30 (pack g) AND mask 5), s_toBase32 ! unat (drop_bit 25 (pack g) AND mask 5), s_toBase32 ! unat (drop_bit 20 (pack g) AND mask 5), 61, 61, 61, 61]"
      by (simp add: group_chars_def ToBaseX_chars_8 2)
    then show ?thesis
      using b0 b1 by (simp add: run z del: FromBaseX_groups.simps) (simp add: g)
  next
    case 3
    then have "length g = Suc (Suc (Suc (0)))" by simp
    then obtain a b c where g: "g = [a, b, c]" unfolding length_Suc_conv length_0_conv by blast
    have "group_chars g = [s_toBase32 ! unat (drop_bit 35 (pack g) AND mask 5), s_toBase32 ! unat (drop_bit 30 (pack g) AND mask 5), s_toBase32 ! unat (drop_bit 25 (pack g) AND mask 5), s_toBase32 ! unat (drop_bit 20 (pack g) AND mask 5), s_toBase32 ! unat (drop_bit 15 (pack g) AND mask 5), 61, 61, 61]"
      by (simp add: group_chars_def ToBaseX_chars_8 3)
    then show ?thesis
      using b0 b1 b2 by (simp add: run z del: FromBaseX_groups.simps) (simp add: g)
  next
    case 4
    then have "length g = Suc (Suc (Suc (Suc (0))))" by simp
    then obtain a b c d where g: "g = [a, b, c, d]" unfolding length_Suc_conv length_0_conv by blast
    have "group_chars g = [s_toBase32 ! unat (drop_bit 35 (pack g) AND mask 5), s_toBase32 ! unat (drop_bit 30 (pack g) AND mask 5), s_toBase32 ! unat (drop_bit 25 (pack g) AND mask 5), s_toBase32 ! unat (drop_bit 20 (pack g) AND mask 5), s_toBase32 ! unat (drop_bit 15 (pack g) AND mask 5), s_toBase32 ! unat (drop_bit 10 (pack g) AND mask 5), s_toBase32 ! unat (drop_bit 5 (pack g) AND mask 5), 61]"
      by (simp add: group_chars_def ToBaseX_chars_8 4)
    then show ?thesis
      using b0 b1 b2 b3 by (simp add: run z del: FromBaseX_groups.simps) (simp add: g)
  next
    case 5
    then have "length g = Suc (Suc (Suc (Suc (Suc (0)))))" by simp
    then obtain a b c d e where g: "g = [a, b, c, d, e]" unfolding length_Suc_conv length_0_conv by blast
    have "group_chars g = [s_toBase32 ! unat (drop_bit 35 (pack g) AND mask 5), s_toBase32 ! unat (drop_bit 30 (pack g) AND mask 5), s_toBase32 ! unat (drop_bit 25 (pack g) AND mask 5), s_toBase32 ! unat (drop_bit 20 (pack g) AND mask 5), s_toBase32 ! unat (drop_bit 15 (pack g) AND mask 5), s_toBase32 ! unat (drop_bit 10 (pack g) AND mask 5), s_toBase32 ! unat (drop_bit 5 (pack g) AND mask 5), s_toBase32 ! unat (pack g AND mask 5)]"
      by (simp add: group_chars_def ToBaseX_chars_8 5)
    then show ?thesis
      using b0 b1 b2 b3 b4 by (simp add: run z del: FromBaseX_groups.simps) (simp add: g)
  qed
qed

lemma ToBaseX_groups_32:
  assumes "list_all (\<lambda>g. g \<noteq> [] \<and> length g \<le> 5) gs"
  shows "FromBaseX_groups 5 CBase32Table
      (map (\<lambda>c. [c]) (ToBaseX_groups 8 5 gs s_toBase32)) (bits_at B 0 0) = Inr (bits_at (B @ concat gs) 0 0)"
  using assms
proof (induction gs arbitrary: B)
  case (Cons g gs)
  have "ToBaseX_groups 8 5 (g # gs) s_toBase32 = group_chars g @ ToBaseX_groups 8 5 gs s_toBase32"
    using ToBaseX_val_nbits [of g 5 0 0] Cons.prems
    by (auto simp: group_chars_def pack_def split: prod.splits)
  then show ?case
    using Cons group_roundtrip [of g] by (simp add: list_all_iff)
qed simp

lemma chunks_5: "list_all (\<lambda>g. g \<noteq> [] \<and> length g \<le> 5) (chunks 5 (mb :: byte list))"
proof (induction "5 :: nat" mb rule: chunks.induct)
  case (1 xs)
  then show ?case by (subst chunks.simps) auto
qed

text \<open>\<open>FromBase32String\<close> decodes what \<open>ToBase32String\<close> encodes, padding included.\<close>

theorem base32_roundtrip: "FromBase32String (ToBase32String mb None) None = Inr mb"
proof -
  have "FromBaseX_groups 5 CBase32Table (chunks 1 (ToBase32String mb None)) BitWriteStream
      = Inr (bits_at mb 0 0)"
    using ToBaseX_groups_32 [OF chunks_5, of mb "[]"]
    by (simp add: chunks_1 [simplified] ToBase32String_def ToBaseX_def BitWriteStream_def concat_chunks)
  then show ?thesis by (simp add: FromBase32String_def FromBaseX_def)
qed

text \<open>
  A character that is no Base32 digit is not refused: the table has 0 for it, so it decodes as
  an \<open>A\<close>.
\<close>

theorem base32_accepts_junk:
  "FromBase32String (codes ''M!======'') None = FromBase32String (codes ''MA======'') None
   \<and> FromBase32String (codes ''MA======'') None = Inr [0x60]"
  by code_simp

end
