(* ===== verification/StringOps.thy ===== *)
theory StringOps
  imports Prelude
begin

text \<open>
  Strings: the functions on zero-terminated strings of \<open>src/libext/ext-str.h\<close> and the operations
  of \<open>String\<close> in \<open>src/libext/ext-string.cpp\<close>.  A character is its code.  A pointer into a
  zero-terminated string is the list of the characters from there to the terminator, so the
  character it points at is 0 when the list is empty.  Lengths are below \<open>2 ^ 31\<close>, where the
  code converts them to \<open>int\<close>.
\<close>

type_synonym wchar = nat

definition deref :: "wchar list \<Rightarrow> wchar" where
  "deref p = (case p of [] \<Rightarrow> 0 | c # _ \<Rightarrow> c)"

section \<open>Zero-terminated strings\<close>

fun ExtStrCmp :: "wchar list \<Rightarrow> wchar list \<Rightarrow> int" where
  "ExtStrCmp s1 s2 =
     (let ch1 = deref s1; ch2 = deref s2
      in if ch1 < ch2 then - 1
         else if ch1 > ch2 then 1
         else case s1 of [] \<Rightarrow> 0 | _ # t \<Rightarrow> if ch1 = 0 then 0 else ExtStrCmp t (tl s2))"

declare ExtStrCmp.simps [simp del]

text \<open>\<open>StrCmp\<close> on two buffers with their sizes.\<close>

fun StrCmp :: "wchar list \<Rightarrow> wchar list \<Rightarrow> int" where
  "StrCmp [] s2 = (if s2 \<noteq> [] then - 1 else 0)"
| "StrCmp (ch1 # s1) [] = 1"
| "StrCmp (ch1 # s1) (ch2 # s2) =
     (if ch1 < ch2 then - 1 else if ch1 > ch2 then 1 else StrCmp s1 s2)"

fun ExtStrNCmp :: "wchar list \<Rightarrow> wchar list \<Rightarrow> nat \<Rightarrow> int" where
  "ExtStrNCmp s1 s2 0 = 0"
| "ExtStrNCmp s1 s2 (Suc count) =
     (let ch1 = deref s1; ch2 = deref s2
      in if ch1 < ch2 then - 1
         else if ch1 > ch2 then 1
         else if ch1 = 0 then 0
         else ExtStrNCmp (tl s1) (tl s2) count)"

text \<open>The inner loop of \<open>ExtStrStr\<close>, by what is left of the searched string.\<close>

fun ExtStrStr_match :: "wchar list \<Rightarrow> wchar list \<Rightarrow> wchar list" where
  "ExtStrStr_match (c # s1) (d # s2) = (if c = d then ExtStrStr_match s1 s2 else d # s2)"
| "ExtStrStr_match _ s2 = s2"

fun ExtStrStr_loop :: "wchar list \<Rightarrow> wchar list \<Rightarrow> wchar list option" where
  "ExtStrStr_loop [] ws2 = None"
| "ExtStrStr_loop (c # cp) ws2 =
     (if ExtStrStr_match (c # cp) ws2 = [] then Some (c # cp) else ExtStrStr_loop cp ws2)"

definition ExtStrStr :: "wchar list \<Rightarrow> wchar list \<Rightarrow> wchar list option" where
  "ExtStrStr ws1 ws2 = (if ws2 = [] then Some ws1 else ExtStrStr_loop ws1 ws2)"

fun StrChr :: "wchar list \<Rightarrow> wchar \<Rightarrow> wchar list option" where
  "StrChr [] ch = (if ch = 0 then Some [] else None)"
| "StrChr (c # s) ch = (if c = ch then Some (c # s) else StrChr s ch)"

fun ExtStrCSpn :: "wchar list \<Rightarrow> wchar list \<Rightarrow> nat" where
  "ExtStrCSpn [] c = 0"
| "ExtStrCSpn (ch # s) c = (if StrChr c ch = None then Suc (ExtStrCSpn s c) else 0)"

section \<open>Searching in a string\<close>

definition StartsWith :: "wchar list \<Rightarrow> wchar list \<Rightarrow> bool" where
  "StartsWith this s \<longleftrightarrow> length s \<le> length this \<and> take (length s) this = s"

definition EndsWith :: "wchar list \<Rightarrow> wchar list \<Rightarrow> bool" where
  "EndsWith this s \<longleftrightarrow> length s \<le> length this \<and> drop (length this - length s) this = s"

fun FindOneOf_loop :: "wchar list \<Rightarrow> wchar list \<Rightarrow> int \<Rightarrow> int" where
  "FindOneOf_loop [] c i = - 1"
| "FindOneOf_loop (ch # p) c i = (if StrChr c ch \<noteq> None then i else FindOneOf_loop p c (i + 1))"

definition FindOneOf :: "wchar list \<Rightarrow> wchar list \<Rightarrow> int" where
  "FindOneOf this sCharSet = FindOneOf_loop this sCharSet 0"

text \<open>The three searches by index; \<open>npos\<close> is \<open>None\<close>.\<close>

definition find_char :: "wchar list \<Rightarrow> wchar \<Rightarrow> nat \<Rightarrow> nat option" where
  "find_char this ch pos = List.find (\<lambda>i. this ! i = ch) [pos..<length this]"

definition find_str :: "wchar list \<Rightarrow> wchar list \<Rightarrow> nat \<Rightarrow> nat option" where
  "find_str this s pos =
     (if length s \<le> length this
      then List.find (\<lambda>i. take (length s) (drop i this) = s) [pos..<length this - length s + 1]
      else None)"

definition rfind_char :: "wchar list \<Rightarrow> wchar \<Rightarrow> nat \<Rightarrow> nat option" where
  "rfind_char this ch pos =
     List.find (\<lambda>i. this ! i = ch) (rev [0..<if pos < length this then pos + 1 else length this])"

section \<open>Parts of a string\<close>

definition substr :: "wchar list \<Rightarrow> nat \<Rightarrow> nat \<Rightarrow> wchar list res" where
  "substr this pos count =
     (if pos > length this then Inl IndexOutOfRange
      else if pos = 0 \<and> count \<ge> length this then Inr this
      else Inr (take (min count (length this - pos)) (drop pos this)))"

definition Right :: "wchar list \<Rightarrow> int \<Rightarrow> wchar list" where
  "Right this nCount =
     (let nCount = (if nCount < 0 then 0 else nCount)
      in if nCount \<ge> int (length this) then this
         else take (nat nCount) (drop (length this - nat nCount) this))"

definition Left :: "wchar list \<Rightarrow> int \<Rightarrow> wchar list" where
  "Left this nCount =
     (let nCount = (if nCount < 0 then 0 else nCount)
      in if nCount \<ge> int (length this) then this else take (nat nCount) this)"

text \<open>
  \<open>TrimStart\<close> and \<open>TrimEnd\<close>: \<open>None\<close> is a null \<open>trimChars\<close>, which means the white space of
  \<open>iswspace\<close>.
\<close>

definition trims :: "(wchar \<Rightarrow> bool) \<Rightarrow> wchar list option \<Rightarrow> wchar \<Rightarrow> bool" where
  "trims iswspace trimChars ch =
     (case trimChars of None \<Rightarrow> iswspace ch | Some t \<Rightarrow> find_char t ch 0 \<noteq> None)"

fun TrimStart_loop :: "(wchar \<Rightarrow> bool) \<Rightarrow> wchar list \<Rightarrow> nat \<Rightarrow> nat" where
  "TrimStart_loop trim [] i = i"
| "TrimStart_loop trim (ch # s) i = (if trim ch then TrimStart_loop trim s (Suc i) else i)"

definition TrimStart :: "(wchar \<Rightarrow> bool) \<Rightarrow> wchar list \<Rightarrow> wchar list option \<Rightarrow> wchar list" where
  "TrimStart iswspace this trimChars =
     Right this (int (length this - TrimStart_loop (trims iswspace trimChars) this 0))"

text \<open>The loop of \<open>TrimEnd\<close> counts down; it ends with \<open>i\<close> at \<open>- 1\<close> when all is trimmed.\<close>

fun TrimEnd_loop :: "(wchar \<Rightarrow> bool) \<Rightarrow> wchar list \<Rightarrow> nat \<Rightarrow> int" where
  "TrimEnd_loop trim this 0 = - 1"
| "TrimEnd_loop trim this (Suc i) =
     (if trim (this ! i) then TrimEnd_loop trim this i else int i)"

definition TrimEnd :: "(wchar \<Rightarrow> bool) \<Rightarrow> wchar list \<Rightarrow> wchar list option \<Rightarrow> wchar list" where
  "TrimEnd iswspace this trimChars =
     Left this (TrimEnd_loop (trims iswspace trimChars) this (length this) + 1)"

text \<open>
  \<open>CopyTo\<close> writes the characters and a terminator into a buffer of \<open>room\<close> characters; the
  subtractions are in \<open>size_t\<close>.  Reading or writing past a buffer is \<open>OutOfBounds\<close>.
\<close>

definition CopyTo :: "wchar list \<Rightarrow> nat \<Rightarrow> wchar list res" where
  "CopyTo this room =
     (let len = min (nat ((int room - 1) mod 2 ^ 64)) (nat ((int (length this) - 1) mod 2 ^ 64))
      in if len > length this \<or> len \<ge> room then Inl OutOfBounds else Inr (take len this @ [0]))"

section \<open>Splitting, joining, replacing\<close>

text \<open>The separators \<open>" \\t\\n\\r\\v\\f\\b"\<close> used when none is given.\<close>

definition default_separators :: "wchar list" where
  "default_separators = [32, 9, 10, 13, 11, 12, 8]"

fun Split_loop :: "wchar list \<Rightarrow> nat \<Rightarrow> wchar list \<Rightarrow> wchar list list" where
  "Split_loop sep 0 p = []"
| "Split_loop sep (Suc count) p =
     (if p = [] then []
      else if count \<noteq> 0 then
        (let n = ExtStrCSpn p sep
         in take n p #
            (case drop n p of
               [] \<Rightarrow> Split_loop sep count []
             | _ # p' \<Rightarrow> (if p' = [] then [[]] else []) @ Split_loop sep count p'))
      else [p])"

definition Split :: "wchar list \<Rightarrow> wchar list \<Rightarrow> nat \<Rightarrow> wchar list list" where
  "Split this separator count =
     Split_loop (if separator = [] then default_separators else separator) count this"

definition Join :: "wchar list \<Rightarrow> wchar list list \<Rightarrow> wchar list" where
  "Join separator value =
     fold (\<lambda>i r. r @ (if i \<noteq> 0 then separator else []) @ value ! i) [0..<length value] []"

text \<open>
  \<open>String::Replace (sOld, sNew)\<close>, for a string without zero characters: the loop that counts
  the occurrences, which never ends when \<open>sOld\<close> is empty, and the loop that builds the new
  string, which must fill exactly the buffer computed from the count.
\<close>

partial_function (option) Replace_count :: "wchar list \<Rightarrow> wchar list \<Rightarrow> nat \<Rightarrow> nat option" where
  "Replace_count p sOld nCount =
     (case ExtStrStr p sOld of
        None \<Rightarrow> Some nCount
      | Some r \<Rightarrow> Replace_count (drop (length sOld) r) sOld (Suc nCount))"

function Replace_build :: "wchar list \<Rightarrow> wchar list \<Rightarrow> wchar list \<Rightarrow> wchar list" where
  "Replace_build p sOld sNew =
     (if p = [] then []
      else if ExtStrNCmp p sOld (length sOld) \<noteq> 0 \<or> sOld = []
      then hd p # Replace_build (tl p) sOld sNew
      else sNew @ Replace_build (drop (length sOld) p) sOld sNew)"
  by pat_completeness auto
termination by (relation "measure (\<lambda>(p, sOld, sNew). length p)") auto

declare Replace_build.simps [simp del]

definition Replace :: "wchar list \<Rightarrow> wchar list \<Rightarrow> wchar list \<Rightarrow> (nat \<times> wchar list) res option" where
  "Replace this sOld sNew =
     (case (if this = [] then Some 0 else Replace_count this sOld 0) of
        None \<Rightarrow> None
      | Some nCount \<Rightarrow>
          Some (if nCount = 0 then Inr (0, this)
                else
                  let nLen = int (length this) + (int (length sNew) - int (length sOld)) * int nCount;
                      z = Replace_build this sOld sNew
                  in if int (length z) = nLen then Inr (nCount, z) else Inl OutOfBounds))"

section \<open>The order of strings\<close>

text \<open>
  A \<open>String\<close> may be null, which differs from empty.  \<open>compare_at\<close> is the comparison of \<open>c1\<close>
  characters from \<open>p1\<close> with \<open>c2\<close> characters at \<open>s\<close>.
\<close>

datatype el_string = NullString | Str "wchar list"

fun traits_compare :: "wchar list \<Rightarrow> wchar list \<Rightarrow> nat \<Rightarrow> int" where
  "traits_compare s1 s2 0 = 0"
| "traits_compare s1 s2 (Suc n) =
     (if deref s1 < deref s2 then - 1 else if deref s2 < deref s1 then 1
      else traits_compare (tl s1) (tl s2) n)"

definition compare_at :: "wchar list \<Rightarrow> nat \<Rightarrow> nat \<Rightarrow> wchar list \<Rightarrow> nat \<Rightarrow> int" where
  "compare_at this p1 c1 s c2 =
     (let r = traits_compare (drop p1 this) s (min c1 c2)
      in if r \<noteq> 0 then r else if c1 = c2 then 0 else if c1 < c2 then - 1 else 1)"

fun String_compare :: "el_string \<Rightarrow> el_string \<Rightarrow> int" where
  "String_compare NullString NullString = 0"
| "String_compare NullString (Str s) = - 1"
| "String_compare (Str s1) NullString = 1"
| "String_compare (Str s1) (Str s2) = compare_at s1 0 (length s1) s2 (length s2)"

section \<open>Replacing\<close>

text \<open>The specification: the leftmost occurrences that do not overlap, replaced and counted.\<close>

function replace_all :: "wchar list \<Rightarrow> wchar list \<Rightarrow> wchar list \<Rightarrow> wchar list" where
  "replace_all old new s =
     (if s = [] \<or> old = [] then s
      else if take (length old) s = old then new @ replace_all old new (drop (length old) s)
      else hd s # replace_all old new (tl s))"
  by pat_completeness auto
termination by (relation "measure (\<lambda>(old, new, s). length s)") auto

function occurrences :: "wchar list \<Rightarrow> wchar list \<Rightarrow> nat" where
  "occurrences old s =
     (if s = [] \<or> old = [] then 0
      else if take (length old) s = old then Suc (occurrences old (drop (length old) s))
      else occurrences old (tl s))"
  by pat_completeness auto
termination by (relation "measure (\<lambda>(old, s). length s)") auto

declare replace_all.simps [simp del] occurrences.simps [simp del]

lemma ExtStrStr_match_Nil: "ExtStrStr_match s1 s2 = [] \<longleftrightarrow> take (length s2) s1 = s2"
  by (induction s1 s2 rule: ExtStrStr_match.induct) auto

lemma ExtStrNCmp_prefix:
  "0 \<notin> set s2 \<Longrightarrow> ExtStrNCmp s1 s2 (length s2) = 0 \<longleftrightarrow> take (length s2) s1 = s2"
proof (induction s2 arbitrary: s1)
  case (Cons c s2)
  then show ?case by (cases s1) (auto simp: deref_def Let_def)
qed simp

lemma ExtStrStr_loop_occurrences:
  assumes "old \<noteq> []"
  shows "case ExtStrStr_loop p old of
      None \<Rightarrow> occurrences old p = 0
    | Some r \<Rightarrow> length old \<le> length r \<and> length r \<le> length p
        \<and> occurrences old p = Suc (occurrences old (drop (length old) r))"
proof (induction p)
  case Nil
  then show ?case by (simp add: occurrences.simps)
next
  case (Cons c p)
  show ?case
  proof (cases "take (length old) (c # p) = old")
    case True
    moreover from this have "length old \<le> length (c # p)" by (metis length_take min.cobounded1)
    ultimately show ?thesis
      using assms by (simp add: ExtStrStr_match_Nil occurrences.simps [of old "c # p"])
  next
    case False
    then show ?thesis
      using Cons assms
      by (auto simp: ExtStrStr_match_Nil occurrences.simps [of old "c # p"] split: option.splits)
  qed
qed

lemma Replace_count_occurrences:
  assumes "old \<noteq> []"
  shows "Replace_count p old n = Some (n + occurrences old p)"
proof (induction p arbitrary: n rule: length_induct)
  case (1 p)
  note st = ExtStrStr_loop_occurrences [OF assms, of p]
  show ?case
  proof (cases "ExtStrStr_loop p old")
    case None
    then show ?thesis using st assms by (simp add: Replace_count.simps [of p] ExtStrStr_def)
  next
    case (Some r)
    then have "length (drop (length old) r) < length p" using st assms
      by (cases old) auto
    then show ?thesis
      using 1 Some st assms by (simp add: Replace_count.simps [of p] ExtStrStr_def)
  qed
qed

lemma Replace_build_all:
  assumes "old \<noteq> []" and "0 \<notin> set old"
  shows "Replace_build p old new = replace_all old new p
    \<and> int (length (replace_all old new p))
      = int (length p) + (int (length new) - int (length old)) * int (occurrences old p)"
proof (induction p rule: length_induct)
  case (1 p)
  show ?case
  proof (cases "p = []")
    case True
    then show ?thesis
      by (simp add: Replace_build.simps replace_all.simps occurrences.simps)
  next
    case ne: False
    then obtain c t where p: "p = c # t" by (cases p) auto
    show ?thesis
    proof (cases "take (length old) p = old")
      case True
      moreover from this have "length old \<le> length p" by (metis length_take min.cobounded1)
      moreover have "length (drop (length old) p) < length p" using ne assms(1) by simp
      ultimately show ?thesis
        using 1 ne assms ExtStrNCmp_prefix [OF assms(2), of p]
        by (simp add: Replace_build.simps [of p] replace_all.simps [of old new p]
            occurrences.simps [of old p] algebra_simps of_nat_diff)
    next
      case False
      moreover have "length t < length p" using p by simp
      ultimately show ?thesis
        using 1 ne assms ExtStrNCmp_prefix [OF assms(2), of p]
        by (simp add: p Replace_build.simps [of "c # t"] replace_all.simps [of old new "c # t"]
            occurrences.simps [of old "c # t"])
    qed
  qed
qed

lemma replace_all_none: "occurrences old s = 0 \<Longrightarrow> replace_all old new s = s"
proof (induction s rule: length_induct)
  case (1 s)
  show ?case
  proof (cases "s = [] \<or> old = []")
    case True
    then show ?thesis by (subst replace_all.simps) simp
  next
    case False
    then show ?thesis
      using 1 by (subst replace_all.simps) (auto simp: occurrences.simps [of old s] split: if_splits)
  qed
qed



section \<open>Splitting undoes joining\<close>

lemma Join_acc:
  "fold (\<lambda>i r. r @ (if i \<noteq> 0 then sep else []) @ (xs ! i)) [0..<length xs] []
    = concat (map (\<lambda>i. (if i \<noteq> 0 then sep else []) @ xs ! i) [0..<length xs])"
proof -
  have "fold (\<lambda>i r. r @ (if i \<noteq> 0 then sep else []) @ (xs ! i)) is a
      = a @ concat (map (\<lambda>i. (if i \<noteq> 0 then sep else []) @ xs ! i) is)" for "is" a
    by (induction "is" arbitrary: a) simp_all
  from this [of "[0..<length xs]" "[]"] show ?thesis by simp
qed

lemma Join_Nil [simp]: "Join sep [] = []"
  by (simp add: Join_def)

lemma Join_Cons: "Join sep (x # xs) = x @ (if xs = [] then [] else sep @ Join sep xs)"
proof (cases xs)
  case (Cons y ys)
  have "map (\<lambda>i. (if i \<noteq> 0 then sep else []) @ (x # xs) ! i) [Suc 0..<length (x # xs)]
      = map (\<lambda>i. sep @ xs ! i) [0..<length xs]"
    by (simp only: length_Cons map_Suc_upt [symmetric] map_map) simp
  moreover have "concat (map (\<lambda>i. sep @ xs ! i) [0..<length xs])
      = sep @ concat (map (\<lambda>i. (if i \<noteq> 0 then sep else []) @ xs ! i) [0..<length xs])"
  proof -
    have f: "map (\<lambda>i. sep @ xs ! i) [Suc 0..<length xs]
        = map (\<lambda>i. (if i \<noteq> 0 then sep else []) @ xs ! i) [Suc 0..<length xs]"
      by (rule map_cong) auto
    have e: "[0..<length xs] = 0 # [Suc 0..<length xs]"
      using Cons by (simp add: upt_conv_Cons del: upt_Suc)
    show ?thesis unfolding e list.map concat.simps f by simp
  qed
  ultimately show ?thesis
    unfolding Join_def Join_acc using Cons by (simp add: upt_conv_Cons del: upt_Suc)
qed (simp add: Join_def)

lemma ExtStrCSpn_single:
  assumes "d \<notin> set x" and "0 \<notin> set x"
  shows "ExtStrCSpn (x @ rest) [d] = length x + ExtStrCSpn rest [d]"
  using assms by (induction x) auto

lemma Split_loop_Join:
  assumes "\<And>x. x \<in> set xs \<Longrightarrow> d \<notin> set x \<and> 0 \<notin> set x" and "d \<noteq> 0" and "xs \<noteq> [[]]"
    and "length xs < count"
  shows "Split_loop [d] count (Join [d] xs) = xs"
  using assms
proof (induction xs arbitrary: count)
  case Nil
  then show ?case by (cases count) simp_all
next
  case (Cons x xs)
  then obtain k where k: "count = Suc k" "k \<noteq> 0" by (cases count) auto
  show ?case
  proof (cases xs)
    case Nil
    then have "x \<noteq> []" using Cons.prems by simp
    moreover have "ExtStrCSpn x [d] = length x"
      using ExtStrCSpn_single [of d x "[]"] Cons.prems by simp
    moreover have "Split_loop [d] k [] = []" by (cases k) simp_all
    ultimately show ?thesis using k Nil by (simp add: Join_Cons Let_def)
  next
    case (Cons y ys)
    have n: "ExtStrCSpn (x @ d # Join [d] xs) [d] = length x"
      using ExtStrCSpn_single [of d x "d # Join [d] xs"] Cons.prems by simp
    have loop: "Split_loop [d] count (Join [d] (x # xs))
        = x # ((if Join [d] xs = [] then [[]] else []) @ Split_loop [d] k (Join [d] xs))"
      using k Cons n by (simp add: Join_Cons Let_def)
    show ?thesis
    proof (cases "xs = [[]]")
      case True
      then show ?thesis using loop k by (cases k) (simp_all add: Join_Cons)
    next
      case False
      then have "Join [d] xs \<noteq> []" using Cons by (auto simp: Join_Cons split: if_splits)
      moreover have "Split_loop [d] k (Join [d] xs) = xs"
        using Cons.IH [of k] Cons.prems False k by simp
      ultimately show ?thesis using loop by simp
    qed
  qed
qed

text \<open>
  Splitting at a separator character gives back the strings that were joined with it, empty
  ones included, wherever they stand; only a single empty string is lost.
\<close>

theorem Split_Join:
  assumes "list_all (\<lambda>x. d \<notin> set x \<and> 0 \<notin> set x) xs" and "d \<noteq> 0" and "xs \<noteq> [[]]"
    and "length xs < count"
  shows "Split (Join [d] xs) [d] count = xs"
  using Split_loop_Join [of xs d count] assms by (simp add: Split_def list_all_iff)

theorem Split_Join_witness:
  "Split [44, 97, 44, 44, 98, 44] [44] 100 = [[], [97], [], [98], []]"
  using Split_Join [of 44 "[[], [97], [], [98], []]" 100] by (simp add: Join_Cons)

section \<open>Trimming and copying\<close>

lemma TrimStart_loop_dropWhile:
  "TrimStart_loop trim s i = i + (length s - length (dropWhile trim s))"
proof (induction s arbitrary: i)
  case (Cons c s)
  have "length (dropWhile trim s) \<le> length s" by (rule length_dropWhile_le)
  then show ?case using Cons by simp
qed simp

lemma drop_dropWhile: "drop (length s - length (dropWhile P s)) s = dropWhile P s"
proof (induction s)
  case (Cons c s)
  have "length (dropWhile P s) \<le> length s" by (rule length_dropWhile_le)
  then show ?case using Cons by (simp add: Suc_diff_le)
qed simp

lemma Right_nat: "n \<le> length s \<Longrightarrow> Right s (int n) = drop (length s - n) s"
  by (auto simp: Right_def Let_def)

lemma Left_nat: "n \<le> length s \<Longrightarrow> Left s (int n) = take n s"
  by (auto simp: Left_def Let_def)

lemma TrimEnd_loop_dropWhile:
  "n \<le> length s \<Longrightarrow>
    TrimEnd_loop trim s n + 1 = int (length (dropWhile trim (rev (take n s))))"
  by (induction n) (auto simp: take_Suc_conv_app_nth)

text \<open>
  \<open>TrimStart\<close> drops the longest prefix, \<open>TrimEnd\<close> the longest suffix, of characters to trim.
\<close>

theorem Trim_spec:
  "TrimStart ws s t = dropWhile (trims ws t) s
   \<and> TrimEnd ws s t = rev (dropWhile (trims ws t) (rev s))"
proof -
  let ?P = "trims ws t"
  have "length (dropWhile ?P s) \<le> length s" by (rule length_dropWhile_le)
  then have "TrimStart ws s t = dropWhile ?P s"
    by (simp add: TrimStart_def TrimStart_loop_dropWhile Right_nat drop_dropWhile)
  moreover have "length (dropWhile ?P (rev s)) \<le> length s"
    using length_dropWhile_le [of ?P "rev s"] by simp
  then have "TrimEnd ws s t = take (length (dropWhile ?P (rev s))) s"
    by (simp add: TrimEnd_def TrimEnd_loop_dropWhile Left_nat)
  moreover have "take (length (dropWhile ?P (rev s))) s = rev (dropWhile ?P (rev s))"
  proof -
    let ?n = "length (dropWhile ?P (rev s))"
    have "rev (take ?n s) = dropWhile ?P (rev s)"
      using drop_dropWhile [of "rev s" ?P] \<open>?n \<le> length s\<close> by (simp add: drop_rev)
    then show ?thesis by (simp flip: rev_swap)
  qed
  ultimately show ?thesis by simp
qed

text \<open>
  \<open>CopyTo\<close> never copies the last character of a string that fits.
\<close>

theorem CopyTo_drops_last:
  assumes "this \<noteq> []" and "length this < room" and "room \<le> 2 ^ 64"
  shows "CopyTo this room = Inr (butlast this @ [0])"
proof -
  have "(int (length this) - 1) mod 2 ^ 64 = int (length this - 1)"
    "(int room - 1) mod 2 ^ 64 = int (room - 1)"
    using assms by (simp_all add: mod_pos_pos_trivial Suc_le_eq of_nat_diff)
  then have m: "min (nat ((int room - 1) mod 2 ^ 64)) (nat ((int (length this) - 1) mod 2 ^ 64))
      = length this - 1"
    using assms(2) by (simp add: min_def)
  have "\<not> (length this - 1 > length this \<or> length this - 1 \<ge> room)"
    using assms(2) by linarith
  then show ?thesis
    unfolding CopyTo_def Let_def m by (simp add: butlast_conv_take)
qed

theorem CopyTo_drops_last_witness: "CopyTo [97, 98, 99] 10 = Inr [97, 98, 0]"
  using CopyTo_drops_last [of "[97, 98, 99]" 10] by simp

section \<open>Strings are linearly ordered\<close>

text \<open>
  The sign of the comparison, read off the characters: null is before everything, then the
  lexicographic order of the codes.
\<close>

fun lex_less :: "wchar list \<Rightarrow> wchar list \<Rightarrow> bool" where
  "lex_less s [] = False"
| "lex_less [] (d # t) = True"
| "lex_less (c # s) (d # t) = (c < d \<or> c = d \<and> lex_less s t)"

lemma compare_at_Cons:
  "compare_at (c # s) 0 (Suc (length s)) (d # t) (Suc (length t)) =
     (if c < d then - 1 else if d < c then 1 else compare_at s 0 (length s) t (length t))"
  by (simp add: compare_at_def Let_def deref_def)

lemma compare_at_lex:
  "compare_at s 0 (length s) t (length t) < 0 \<longleftrightarrow> lex_less s t"
  "compare_at s 0 (length s) t (length t) = 0 \<longleftrightarrow> s = t"
  "compare_at s 0 (length s) t (length t) > 0 \<longleftrightarrow> lex_less t s"
proof (induction s t rule: lex_less.induct)
  case (1 s)
  { case 1 show ?case by (cases s) (simp_all add: compare_at_def) }
  { case 2 show ?case by (cases s) (simp_all add: compare_at_def) }
  { case 3 show ?case by (cases s) (simp_all add: compare_at_def) }
next
  case (2 d t)
  { case 1 show ?case by (simp add: compare_at_def) }
  { case 2 show ?case by (simp add: compare_at_def) }
  { case 3 show ?case by (simp add: compare_at_def) }
next
  case (3 c s d t)
  { case 1 show ?case using 3 by (auto simp: compare_at_Cons) }
  { case 2 show ?case using 3 by (auto simp: compare_at_Cons) }
  { case 3 show ?case using "3.IH"(3) by (auto simp: compare_at_Cons) }
qed

definition text_less :: "el_string \<Rightarrow> el_string \<Rightarrow> bool" where
  "text_less a b \<longleftrightarrow> String_compare a b < 0"

lemma lex_less_trans: "lex_less a b \<Longrightarrow> lex_less b c \<Longrightarrow> lex_less a c"
proof (induction a b arbitrary: c rule: lex_less.induct)
  case (3 x s y t)
  then show ?case by (cases c) auto
next
  case (2 d t)
  then show ?case by (cases c) auto
qed simp

lemma String_compare_eq_0: "String_compare a b = 0 \<longleftrightarrow> a = b"
  by (cases a; cases b) (simp_all add: compare_at_lex(2))

lemma String_compare_pos: "String_compare a b > 0 \<longleftrightarrow> String_compare b a < 0"
  by (cases a; cases b) (simp_all add: compare_at_lex)

lemma text_less_trans: "text_less a b \<Longrightarrow> text_less b c \<Longrightarrow> text_less a c"
  by (cases a; cases b; cases c) (auto simp: text_less_def compare_at_lex intro: lex_less_trans)

text \<open>
  \<open>operator<\<close> and \<open>operator<=\<close> as an instance of the linear orders, so that the facts on sorted
  lists and maps hold for keys that are strings.
\<close>

instantiation el_string :: linorder
begin

definition less_el_string :: "el_string \<Rightarrow> el_string \<Rightarrow> bool" where
  "less_el_string a b \<longleftrightarrow> String_compare a b < 0"

definition less_eq_el_string :: "el_string \<Rightarrow> el_string \<Rightarrow> bool" where
  "less_eq_el_string a b \<longleftrightarrow> String_compare a b \<le> 0"

instance
proof
  fix a b c :: el_string
  have irrefl: "\<not> String_compare a b < 0" if "String_compare b a < 0" for a b
    using String_compare_pos [of a b] that by linarith
  show "a < b \<longleftrightarrow> a \<le> b \<and> \<not> b \<le> a"
    using String_compare_pos [of b a] String_compare_pos [of a b]
    unfolding less_el_string_def less_eq_el_string_def by linarith
  show "a \<le> a"
    using String_compare_eq_0 [of a a] by (simp add: less_eq_el_string_def)
  show "a \<le> c" if "a \<le> b" "b \<le> c"
  proof (cases "a = b \<or> b = c")
    case True
    then show ?thesis using that by auto
  next
    case False
    then have "String_compare a b \<noteq> 0" "String_compare b c \<noteq> 0"
      using String_compare_eq_0 by blast+
    then have "text_less a b" "text_less b c"
      using that by (simp_all add: text_less_def less_eq_el_string_def)
    then have "text_less a c" by (rule text_less_trans)
    then show ?thesis by (simp add: text_less_def less_eq_el_string_def)
  qed
  show "a = b" if "a \<le> b" "b \<le> a"
  proof (rule ccontr)
    assume "a \<noteq> b"
    then have "String_compare a b < 0" "String_compare b a < 0"
      using that String_compare_eq_0 [of a b] String_compare_eq_0 [of b a]
      by (auto simp: less_eq_el_string_def)
    then show False using irrefl by blast
  qed
  show "a \<le> b \<or> b \<le> a"
    using String_compare_pos [of a b] unfolding less_eq_el_string_def by linarith
qed

end

text \<open>
  \<open>compare\<close> orders all strings: its sign is that of a linear order in which the null string
  comes before the empty one and every other string is placed by its characters.
\<close>

theorem String_compare_linear:
  "(String_compare a b < 0 \<longleftrightarrow> a < b) \<and> (String_compare a b = 0 \<longleftrightarrow> a = b)
   \<and> (String_compare a b > 0 \<longleftrightarrow> b < a)
   \<and> (String_compare (Str s) (Str t) < 0 \<longleftrightarrow> lex_less s t) \<and> NullString < Str s"
  using String_compare_pos [of a b]
  by (simp add: less_el_string_def String_compare_eq_0 compare_at_lex(1))

text \<open>
  \<open>find\<close> gives the first position, from the one asked for on, where the string stands; \<open>npos\<close>
  means there is none.
\<close>

lemma find_upt_Some:
  "List.find P [a..<b] = Some i \<longleftrightarrow> a \<le> i \<and> i < b \<and> P i \<and> (\<forall>j\<in>{a..<i}. \<not> P j)"
proof (induction "b - a" arbitrary: a)
  case (Suc n)
  then have ab: "a < b" "[a..<b] = a # [Suc a..<b]" by (simp_all add: upt_conv_Cons)
  have "n = b - Suc a" using Suc.hyps(2) by simp
  note IH = Suc.hyps(1) [OF this]
  show ?case
  proof (cases "P a")
    case True
    then show ?thesis using ab by (auto simp: le_eq_less_or_eq)
  next
    case False
    then have "(\<forall>j\<in>{a..<i}. \<not> P j) \<longleftrightarrow> (\<forall>j\<in>{Suc a..<i}. \<not> P j)" if "Suc a \<le> i"
      using that by (metis atLeastLessThan_iff le_eq_less_or_eq Suc_le_eq)
    then show ?thesis
      using ab False IH by (auto simp: Suc_le_eq)
  qed
qed auto

theorem find_str_first:
  "find_str this s pos = Some i \<longleftrightarrow>
    pos \<le> i \<and> i + length s \<le> length this \<and> take (length s) (drop i this) = s
    \<and> {j. pos \<le> j \<and> j < i \<and> take (length s) (drop j this) = s} = {}"
  unfolding find_str_def find_upt_Some
  by (auto simp del: upt_Suc simp: find_upt_Some)

end
