(* ===== verification/Convert.thy ===== *)
theory Convert
  imports StringOps Streams XmlText
begin

text \<open>
  Conversions between numbers and text and the line reader of \<open>src/libext/ext-core.cpp\<close>, and the
  search for bytes in a buffer.  Characters are codes, as in \<open>StringOps\<close>.
\<close>

unbundle bit_operations_syntax

section \<open>Searching bytes\<close>

text \<open>
  \<open>Find (a, b)\<close>: the result is the index in \<open>a\<close>.  \<open>memchr\<close> looks for the first byte of \<open>b\<close>
  from index \<open>p\<close> up to the last one where \<open>b\<close> fits.
\<close>

definition memchr :: "byte list \<Rightarrow> byte \<Rightarrow> nat \<Rightarrow> nat \<Rightarrow> nat option" where
  "memchr a c p e = List.find (\<lambda>q. a ! q = c) [p..<e + 1]"

lemma memchr_bounds: "memchr a c p e = Some q \<Longrightarrow> p \<le> q \<and> q \<le> e \<and> a ! q = c"
  unfolding memchr_def find_upt_Some by auto

function Find_loop :: "byte list \<Rightarrow> byte list \<Rightarrow> nat \<Rightarrow> nat \<Rightarrow> nat option" where
  "Find_loop a b p e =
     (if p \<le> e then
        (case memchr a (hd b) p e of
           None \<Rightarrow> None
         | Some q \<Rightarrow>
             if length b = 1 \<or> take (length b - 1) (drop (q + 1) a) = tl b then Some q
             else Find_loop a b (q + 1) e)
      else None)"
  by pat_completeness auto
termination
  by (relation "measure (\<lambda>(a, b, p, e). e + 1 - p)") (auto dest!: memchr_bounds)

declare Find_loop.simps [simp del]

definition Find :: "byte list \<Rightarrow> byte list \<Rightarrow> nat option res" where
  "Find a b =
     (if length a < length b then Inr None
      else if b = [] then Inl OutOfBounds
      else Inr (Find_loop a b 0 (length a - length b)))"

section \<open>Numbers to text\<close>

text \<open>
  \<open>ImpIntToStr\<close>: the digits are written lowest first and reversed at the end.  The base is at
  least 2 (the loop of the code does not end with base 1, and divides by zero with 0).
\<close>

definition digit_code :: "nat \<Rightarrow> wchar" where
  "digit_code d = (if d \<le> 9 then d + 48 else d - 10 + 97)"

function ImpIntToStr_loop :: "nat \<Rightarrow> nat \<Rightarrow> wchar list" where
  "ImpIntToStr_loop v base =
     digit_code (v mod base) #
       (if v div base \<noteq> 0 \<and> 2 \<le> base then ImpIntToStr_loop (v div base) base else [])"
  by pat_completeness auto
termination
proof (relation "measure fst", simp, goal_cases)
  case (1 v base)
  then have "v \<noteq> 0" by (cases "v = 0") simp_all
  then show ?case using 1 by (simp add: div_less_dividend)
qed

declare ImpIntToStr_loop.simps [simp del]

definition ImpIntToStr :: "u64 \<Rightarrow> nat \<Rightarrow> wchar list" where
  "ImpIntToStr v base = rev (ImpIntToStr_loop (unat v) base)"

text \<open>\<open>Convert::ToString\<close> of a signed and of an unsigned number in a base; negation wraps.\<close>

definition ToString_int64 :: "u64 \<Rightarrow> nat \<Rightarrow> wchar list" where
  "ToString_int64 v base =
     (if sint v < 0 then 45 # ImpIntToStr (- v) base else ImpIntToStr v base)"

definition ToString_uint64 :: "u64 \<Rightarrow> nat \<Rightarrow> wchar list" where
  "ToString_uint64 v base = ImpIntToStr v base"

text \<open>\<open>ToIecSuffixedString\<close>.\<close>

definition s_iecSuffixes :: "string" where
  "s_iecSuffixes = ''kMGTPEZYRQ''"

fun iec_loop :: "nat \<Rightarrow> string \<Rightarrow> char option \<Rightarrow> nat \<times> char option" where
  "iec_loop v [] suffix = (v, suffix)"
| "iec_loop v (c # pSuffix) suffix =
     (if v \<ge> 1000 then iec_loop (v div 1000) pSuffix (Some c) else (v, suffix))"

definition ToIecSuffixedString :: "u64 \<Rightarrow> string \<Rightarrow> string" where
  "ToIecSuffixedString v unit =
     (case iec_loop (unat v) s_iecSuffixes None of
        (v, suffix) \<Rightarrow>
          nat_string v
          @ (case suffix of None \<Rightarrow> [] | Some c \<Rightarrow> '' '' @ [c])
          @ (if unit = [] then [] else (case suffix of None \<Rightarrow> '' '' | Some c \<Rightarrow> []) @ unit))"

section \<open>Text to numbers\<close>

definition digit_value :: "wchar \<Rightarrow> nat res" where
  "digit_value ch =
     (if 48 \<le> ch \<and> ch \<le> 57 then Inr (ch - 48)
      else if 65 \<le> ch \<and> ch \<le> 90 then Inr (ch - 65 + 10)
      else if 97 \<le> ch \<and> ch \<le> 122 then Inr (ch - 97 + 10)
      else Inl E_FAIL)"

fun ToUInt64_loop :: "wchar list \<Rightarrow> nat \<Rightarrow> u64 \<Rightarrow> u64 res" where
  "ToUInt64_loop [] fromBase r = Inr r"
| "ToUInt64_loop (ch # p) fromBase r =
     bind_res (digit_value ch) (\<lambda>n.
       if n \<ge> fromBase then Inl E_FAIL
       else ToUInt64_loop p fromBase (r * of_nat fromBase + of_nat n))"

definition ToUInt64 :: "wchar list \<Rightarrow> nat \<Rightarrow> u64 res" where
  "ToUInt64 s fromBase = ToUInt64_loop s fromBase 0"

text \<open>
  \<open>CheckBounds\<close> for a 64-bit and for an \<open>int\<close> argument: both compare with the largest value of
  the target type only.
\<close>

definition CheckBounds_uint64 :: "u64 \<Rightarrow> 'a::len word res" where
  "CheckBounds_uint64 v = (if unat v > 2 ^ LENGTH('a) - 1 then Inl Overflow else Inr (ucast v))"

definition CheckBounds_int :: "int \<Rightarrow> 'a::len word res" where
  "CheckBounds_int v = (if v > 2 ^ LENGTH('a) - 1 then Inl Overflow else Inr (word_of_int v))"

definition ToUInt32 :: "wchar list \<Rightarrow> nat \<Rightarrow> u32 res" where
  "ToUInt32 s fromBase = bind_res (ToUInt64 s fromBase) CheckBounds_uint64"

text \<open>\<open>stoi\<close> of the standard library is a parameter, and so are its errors.\<close>

definition ToUInt16 :: "(wchar list \<Rightarrow> nat \<Rightarrow> int res) \<Rightarrow> wchar list \<Rightarrow> nat \<Rightarrow> u16 res" where
  "ToUInt16 stoi s fromBase = bind_res (stoi s fromBase) CheckBounds_int"

definition ToByte :: "(wchar list \<Rightarrow> nat \<Rightarrow> int res) \<Rightarrow> wchar list \<Rightarrow> nat \<Rightarrow> byte res" where
  "ToByte stoi s fromBase = bind_res (stoi s fromBase) CheckBounds_int"

section \<open>Character constants\<close>

text \<open>\<open>strrev\<close> on a zero-terminated string: the two pointers are indices.\<close>

function strrev_loop :: "byte list \<Rightarrow> int \<Rightarrow> int \<Rightarrow> byte list" where
  "strrev_loop s p q =
     (if p < q then strrev_loop (s[nat p := s ! nat q, nat q := s ! nat p]) (p + 1) (q - 1) else s)"
  by pat_completeness auto
termination by (relation "measure (\<lambda>(s, p, q). nat (q - p))") auto

declare strrev_loop.simps [simp del]

definition strrev :: "byte list \<Rightarrow> byte list" where
  "strrev s = strrev_loop s 0 (int (length s) - 1)"

text \<open>
  \<open>MulticharToString\<close> reverses the little-endian bytes up to the first zero; \<open>ToMultiChar\<close>
  gives \<open>- 1\<close> for more than four characters.
\<close>

definition MulticharToString :: "u32 \<Rightarrow> byte list" where
  "MulticharToString n = strrev (takeWhile (\<lambda>b. b \<noteq> 0) (bytes_le 4 n @ [0]))"

definition ToMultiChar :: "byte list \<Rightarrow> u32" where
  "ToMultiChar s =
     (if length s > 4 then - 1 else fold (\<lambda>c r. push_bit 8 r OR ucast c) s 0)"

section \<open>Bits in memory\<close>

definition BitTest :: "byte list \<Rightarrow> nat \<Rightarrow> bool" where
  "BitTest p idx \<longleftrightarrow> p ! (drop_bit 3 idx) AND push_bit (idx AND 7) 1 \<noteq> 0"

definition BitTestAndSet :: "byte list \<Rightarrow> nat \<Rightarrow> bool \<times> byte list" where
  "BitTestAndSet p idx =
     (let mask = push_bit (idx AND 7) 1; v = p ! (drop_bit 3 idx)
      in (v AND mask \<noteq> 0, p[drop_bit 3 idx := v OR mask]))"

section \<open>Reading lines\<close>

text \<open>
  \<open>StreamReader\<close> over any stream: the reader keeps one character it has read ahead, \<open>None\<close> for
  the end of the stream (\<open>-1\<close> in the code).  A line is the list of its bytes; decoding them is
  left out.
\<close>

type_synonym 's stream_reader = "'s \<times> byte option"

definition StreamReader_ReadChar :: "'s reader \<Rightarrow> 's stream_reader \<Rightarrow> byte option \<times> 's stream_reader" where
  "StreamReader_ReadChar read sr =
     (case sr of (s, prev) \<Rightarrow>
        (case prev of
           None \<Rightarrow> (case Stream_ReadByte read s of (b, s') \<Rightarrow> (b, (s', None)))
         | Some b \<Rightarrow> (Some b, (s, None))))"

text \<open>
  \<open>ReadToEnd\<close> reads the base stream to its end; it does not look at the character read ahead.
  The loops are fuelled by a number of turns, since a stream may never end.
\<close>

fun ReadToEnd_loop :: "nat \<Rightarrow> 's reader \<Rightarrow> 's \<Rightarrow> byte list \<Rightarrow> (byte list \<times> 's) option" where
  "ReadToEnd_loop 0 read s v = None"
| "ReadToEnd_loop (Suc k) read s v =
     (case Stream_ReadByte read s of
        (None, s') \<Rightarrow> Some (v, s')
      | (Some b, s') \<Rightarrow> ReadToEnd_loop k read s' (v @ [b]))"

definition StreamReader_ReadToEnd ::
    "nat \<Rightarrow> 's reader \<Rightarrow> 's stream_reader \<Rightarrow> (byte list \<times> 's stream_reader) option" where
  "StreamReader_ReadToEnd k read sr =
     (case ReadToEnd_loop k read (fst sr) [] of
        None \<Rightarrow> None
      | Some (v, s') \<Rightarrow> Some (v, (s', snd sr)))"

text \<open>
  \<open>ReadLineEx\<close>: the line, \<open>None\<close> (null) when the stream has ended before a first character, and
  whether a line end was seen.
\<close>

fun ReadLineEx_loop ::
    "nat \<Rightarrow> 's reader \<Rightarrow> 's stream_reader \<Rightarrow> byte list \<Rightarrow> bool
     \<Rightarrow> ((byte list option \<times> bool) \<times> 's stream_reader) option" where
  "ReadLineEx_loop 0 read sr v bEmpty = None"
| "ReadLineEx_loop (Suc k) read sr v bEmpty =
     (case StreamReader_ReadChar read sr of
        (None, sr') \<Rightarrow> Some ((if bEmpty then None else Some v, False), sr')
      | (Some b, sr') \<Rightarrow>
          if b = 13 then
            (case StreamReader_ReadChar read sr' of
               (c, (s'', _)) \<Rightarrow> Some ((Some v, True), (s'', if c = Some 10 then None else c)))
          else if b = 10 then Some ((Some v, True), sr')
          else ReadLineEx_loop k read sr' (v @ [b]) False)"

definition StreamReader_ReadLineEx ::
    "nat \<Rightarrow> 's reader \<Rightarrow> 's stream_reader \<Rightarrow> ((byte list option \<times> bool) \<times> 's stream_reader) option" where
  "StreamReader_ReadLineEx k read sr = ReadLineEx_loop k read sr [] True"

text \<open>\<open>StreamWriter::WriteLine\<close>, as the bytes it appends; \<open>NewLine\<close> is CR LF unless changed.\<close>

definition StreamWriter_NewLine :: "byte list" where
  "StreamWriter_NewLine = [13, 10]"

definition StreamWriter_WriteLine :: "byte list \<Rightarrow> byte list" where
  "StreamWriter_WriteLine line = line @ StreamWriter_NewLine"

section \<open>Numbers survive printing\<close>

lemma digit_value_code: "d < 36 \<Longrightarrow> digit_value (digit_code d) = Inr d"
  by (auto simp: digit_value_def digit_code_def)

lemma ToUInt64_loop_append:
  "ToUInt64_loop (xs @ ys) base r = bind_res (ToUInt64_loop xs base r) (ToUInt64_loop ys base)"
proof (induction xs arbitrary: r)
  case (Cons c xs)
  then show ?case by (cases "digit_value c") simp_all
qed simp

lemma ToUInt64_ImpIntToStr:
  assumes "2 \<le> base" and "base \<le> 36"
  shows "ToUInt64_loop (rev (ImpIntToStr_loop v base)) base 0 = Inr (of_nat v)"
proof (induction v rule: less_induct)
  case (less v)
  have d: "v mod base < 36" "v mod base < base"
    using assms mod_less_divisor [of base v] by linarith+
  show ?case
  proof (cases "v div base = 0")
    case True
    then have "v mod base = v" using div_mult_mod_eq [of v base] by simp
    then show ?thesis
      using True d by (subst ImpIntToStr_loop.simps) (simp add: digit_value_code)
  next
    case False
    then have "v div base < v" using assms(1) by (intro div_less_dividend) (auto intro: gr0I)
    note IH = less.IH [OF this]
    have "(of_nat (v div base) * of_nat base + of_nat (v mod base) :: u64) = of_nat v"
      by (simp flip: of_nat_mult of_nat_add)
    then show ?thesis
      using False d(1) d(2) [folded not_le] assms(1) IH
      by (subst ImpIntToStr_loop.simps) (simp add: ToUInt64_loop_append digit_value_code)
  qed
qed

text \<open>
  In every base from 2 to 36 \<open>ToUInt64\<close> reads back what \<open>ToString (uint64_t)\<close> prints; a negative
  number is printed as a minus and its magnitude, the most negative one included.
\<close>

theorem ToString_roundtrip:
  assumes "2 \<le> base" and "base \<le> 36"
  shows "ToUInt64 (ToString_uint64 v base) base = Inr v
    \<and> (sint v < 0 \<longrightarrow> ToString_int64 v base = 45 # ToString_uint64 (- v) base)"
  using ToUInt64_ImpIntToStr [OF assms, of "unat v"]
  by (simp add: ToUInt64_def ToString_uint64_def ImpIntToStr_def ToString_int64_def)

theorem ToString_roundtrip_witness:
  "ToUInt64 (ToString_uint64 255 16) 16 = Inr 255"
  using ToString_roundtrip [of 16 255] by simp

text \<open>The number a text denotes, if all its characters are digits of the base.\<close>

fun text_value :: "nat \<Rightarrow> wchar list \<Rightarrow> nat \<Rightarrow> nat option" where
  "text_value base [] r = Some r"
| "text_value base (c # s) r =
     (case digit_value c of
        Inl _ \<Rightarrow> None
      | Inr n \<Rightarrow> if n < base then text_value base s (r * base + n) else None)"

lemma ToUInt64_loop_value:
  "ToUInt64_loop s base (of_nat r)
    = (case text_value base s r of None \<Rightarrow> Inl E_FAIL | Some v \<Rightarrow> Inr (of_nat v))"
proof (induction base s r rule: text_value.induct)
  case (2 base c s r)
  show ?case
  proof (cases "digit_value c")
    case (Inl e)
    then have "e = E_FAIL" by (auto simp: digit_value_def split: if_splits)
    then show ?thesis using Inl by simp
  next
    case (Inr n)
    have "(of_nat r * of_nat base + of_nat n :: u64) = of_nat (r * base + n)" by simp
    then show ?thesis using Inr 2 by (simp only: ToUInt64_loop.simps text_value.simps) auto
  qed
qed simp

text \<open>
  \<open>ToUInt64\<close> refuses exactly the texts with a character that is no digit of the base; a number
  that does not fit into 64 bits is not refused but reduced modulo \<open>2 ^ 64\<close>, which \<open>ToUInt32\<close>
  then takes for the value.
\<close>

theorem ToUInt64_wraps:
  "ToUInt64 s base = (case text_value base s 0 of None \<Rightarrow> Inl E_FAIL | Some v \<Rightarrow> Inr (of_nat v))
   \<and> ToUInt32 (map of_char ''18446744073709551621'') 10 = Inr 5"
proof -
  have "text_value 10 (map of_char ''18446744073709551621'') 0 = Some 18446744073709551621"
    by (simp add: digit_value_def)
  then have "ToUInt64 (map of_char ''18446744073709551621'') 10 = Inr 5"
    using ToUInt64_loop_value [of "map of_char ''18446744073709551621''" 10 0]
    by (simp add: ToUInt64_def)
  then show ?thesis
    using ToUInt64_loop_value [of s base 0]
    by (simp add: ToUInt64_def ToUInt32_def CheckBounds_uint64_def)
qed

text \<open>
  \<open>ToByte\<close> and \<open>ToUInt16\<close> check the upper bound only: a negative number is converted instead of
  being refused.
\<close>

theorem ToByte_negative:
  assumes "stoi s base = Inr v" and "v < 0"
  shows "ToByte stoi s base = Inr (word_of_int v) \<and> ToUInt16 stoi s base = Inr (word_of_int v)"
  using assms by (simp add: ToByte_def ToUInt16_def CheckBounds_int_def)

theorem ToByte_negative_witness: "ToByte (\<lambda>s base. Inr (- 1)) [45, 49] 10 = Inr 255"
  using ToByte_negative [of "\<lambda>s base. Inr (- 1)" "[45, 49]" 10 "- 1"] by simp

section \<open>Finding bytes\<close>

lemma Find_loop_first:
  assumes "b \<noteq> []" and "length b \<le> length a" and "e = length a - length b"
  shows "Find_loop a b p e = Some i \<longleftrightarrow>
    p \<le> i \<and> i \<le> e \<and> take (length b) (drop i a) = b
    \<and> (\<forall>j. p \<le> j \<and> j < i \<longrightarrow> take (length b) (drop j a) \<noteq> b)"
proof (induction "e + 1 - p" arbitrary: p rule: less_induct)
  case less
  have head: "a ! j = hd b \<and> take (length b - 1) (drop (j + 1) a) = tl b
      \<longleftrightarrow> take (length b) (drop j a) = b" if "j \<le> e" for j
  proof -
    have "j < length a" using that assms by (cases b) auto
    then have "drop j a = a ! j # drop (j + 1) a" by (simp add: Cons_nth_drop_Suc)
    then show ?thesis using assms(1) by (cases b) simp_all
  qed
  show ?case
  proof (cases "p \<le> e")
    case False
    then show ?thesis by (subst Find_loop.simps) auto
  next
    case True
    show ?thesis
    proof (cases "memchr a (hd b) p e")
      case None
      then have "a ! j \<noteq> hd b" if "p \<le> j" "j \<le> e" for j
        using that unfolding memchr_def find_None_iff by auto
      then have "take (length b) (drop j a) \<noteq> b" if "p \<le> j" "j \<le> e" for j
        using that head by blast
      then show ?thesis using None True by (subst Find_loop.simps) auto
    next
      case (Some q)
      then have q: "p \<le> q" "q \<le> e" "a ! q = hd b" "\<And>j. p \<le> j \<Longrightarrow> j < q \<Longrightarrow> a ! j \<noteq> hd b"
        unfolding memchr_def find_upt_Some by auto
      have before: "take (length b) (drop j a) \<noteq> b" if "p \<le> j" "j < q" for j
        using head [of j] q(2,4) that by auto
      have one: "length b = 1 \<or> take (length b - 1) (drop (q + 1) a) = tl b
          \<longleftrightarrow> take (length b) (drop q a) = b"
        using head [OF q(2)] q(3) assms(1) by (cases b) auto
      have step: "Find_loop a b p e =
          (if take (length b) (drop q a) = b then Some q else Find_loop a b (q + 1) e)"
        using True Some one by (subst Find_loop.simps) simp
      show ?thesis
      proof (cases "take (length b) (drop q a) = b")
        case True
        then show ?thesis
          using step q(1,2) before by (auto simp: neq_iff) (metis neq_iff)+
      next
        case False
        have "e + 1 - (q + 1) < e + 1 - p" using q by linarith
        note IH = less.hyps [OF this]
        have "(\<forall>j. p \<le> j \<and> j < i \<longrightarrow> take (length b) (drop j a) \<noteq> b) \<and> p \<le> i
              \<and> take (length b) (drop i a) = b
            \<longleftrightarrow> (\<forall>j. q + 1 \<le> j \<and> j < i \<longrightarrow> take (length b) (drop j a) \<noteq> b) \<and> q + 1 \<le> i
              \<and> take (length b) (drop i a) = b"
        proof (intro iffI conjI)
          assume l: "(\<forall>j. p \<le> j \<and> j < i \<longrightarrow> take (length b) (drop j a) \<noteq> b) \<and> p \<le> i
              \<and> take (length b) (drop i a) = b"
          then show "q + 1 \<le> i" using before [of i] False by (cases "i = q") auto
          show "take (length b) (drop i a) = b" using l by blast
          show "\<forall>j. q + 1 \<le> j \<and> j < i \<longrightarrow> take (length b) (drop j a) \<noteq> b"
            using l q(1) by auto
        next
          assume r: "(\<forall>j. q + 1 \<le> j \<and> j < i \<longrightarrow> take (length b) (drop j a) \<noteq> b) \<and> q + 1 \<le> i
              \<and> take (length b) (drop i a) = b"
          then show "p \<le> i" "take (length b) (drop i a) = b" using q(1) by auto
          show "\<forall>j. p \<le> j \<and> j < i \<longrightarrow> take (length b) (drop j a) \<noteq> b"
          proof (intro allI impI)
            fix j assume j: "p \<le> j \<and> j < i"
            consider "j < q" | "j = q" | "q + 1 \<le> j" by linarith
            then show "take (length b) (drop j a) \<noteq> b"
              by cases (use before [of j] False r j in auto)
          qed
        qed
        then show ?thesis using step False IH by auto
      qed
    qed
  qed
qed

text \<open>\<open>Find\<close> gives the first place in \<open>a\<close> where the bytes \<open>b\<close> stand, if there is one.\<close>

theorem Find_first:
  assumes "b \<noteq> []"
  shows "Find a b = Inr r \<longleftrightarrow>
    (case r of
       None \<Rightarrow> {i. i + length b \<le> length a \<and> take (length b) (drop i a) = b} = {}
     | Some i \<Rightarrow> i + length b \<le> length a \<and> take (length b) (drop i a) = b
         \<and> {j. j < i \<and> take (length b) (drop j a) = b} = {})"
proof (cases "length a < length b")
  case True
  then show ?thesis by (auto simp: Find_def split: option.splits)
next
  case False
  let ?L = "Find_loop a b 0 (length a - length b)"
  note first = Find_loop_first [OF assms, of a "length a - length b" 0]
  have none: "?L = None \<longleftrightarrow> {i. i + length b \<le> length a \<and> take (length b) (drop i a) = b} = {}"
  proof
    assume n: "?L = None"
    show "{i. i + length b \<le> length a \<and> take (length b) (drop i a) = b} = {}"
    proof (rule ccontr)
      assume "{i. i + length b \<le> length a \<and> take (length b) (drop i a) = b} \<noteq> {}"
      then obtain i where i: "i + length b \<le> length a \<and> take (length b) (drop i a) = b" by blast
      define k where "k = (LEAST i. i + length b \<le> length a \<and> take (length b) (drop i a) = b)"
      have "k + length b \<le> length a \<and> take (length b) (drop k a) = b"
        unfolding k_def using i by (rule LeastI)
      moreover have "take (length b) (drop j a) \<noteq> b" if "j < k" for j
        using not_less_Least [of j "\<lambda>i. i + length b \<le> length a \<and> take (length b) (drop i a) = b"]
          that calculation unfolding k_def by auto
      ultimately have "?L = Some k" using first [of k] False by auto
      then show False using n by simp
    qed
  next
    assume "{i. i + length b \<le> length a \<and> take (length b) (drop i a) = b} = {}"
    moreover have "i + length b \<le> length a \<and> take (length b) (drop i a) = b" if "?L = Some i" for i
      using that first [of i] False by auto
    ultimately show "?L = None" by (cases ?L) blast+
  qed
  show ?thesis
    using False assms none first by (cases r) (auto simp: Find_def)
qed

theorem Find_first_witness: "Find [1, 3, 2, 1, 3] [1, 3] = Inr (Some 0)"
  using Find_first [of "[1, 3]" "[1, 3, 2, 1, 3]" "Some 0"] by simp

section \<open>Character constants\<close>

lemma strrev_loop_rev:
  "strrev_loop (xs @ ys @ zs) (int (length xs)) (int (length xs) + int (length ys) - 1)
    = xs @ rev ys @ zs"
proof (induction ys arbitrary: xs zs rule: length_induct)
  case (1 ys)
  show ?case
  proof (cases "length ys \<le> 1")
    case True
    then have "rev ys = ys" by (cases ys) auto
    then show ?thesis using True by (subst strrev_loop.simps) simp
  next
    case False
    then obtain a m where "ys = a # m" "m \<noteq> []" by (cases ys) auto
    then obtain m' b where ys: "ys = a # m' @ [b]" by (metis append_butlast_last_id)
    let ?s = "xs @ ys @ zs" and ?p = "length xs" and ?q = "length xs + length m' + 1"
    have nth: "?s ! ?q = b" "?s ! ?p = a"
      by (simp_all add: ys nth_append)
    have swap: "?s[?p := b, ?q := a] = (xs @ [b]) @ m' @ (a # zs)"
      by (simp add: ys list_update_append)
    have idx: "nat (int ?p) = ?p" "nat (int ?p + int (length ys) - 1) = ?q" by (simp_all add: ys)
    have "strrev_loop ?s (int ?p) (int ?p + int (length ys) - 1)
        = strrev_loop (?s[?p := b, ?q := a]) (int ?p + 1) (int ?p + int (length ys) - 1 - 1)"
      by (subst strrev_loop.simps) (simp only: idx nth, simp add: ys)
    also have "\<dots> = strrev_loop ((xs @ [b]) @ m' @ (a # zs)) (int (length (xs @ [b])))
        (int (length (xs @ [b])) + int (length m') - 1)"
      by (simp only: swap) (simp add: ys add.commute)
    also have "\<dots> = (xs @ [b]) @ rev m' @ (a # zs)"
      by (rule 1 [rule_format]) (simp add: ys)
    finally show ?thesis by (simp add: ys)
  qed
qed

lemma strrev_rev: "strrev s = rev s"
  using strrev_loop_rev [of "[]" s "[]"] by (simp add: strrev_def)

lemma fold_multichar: "fold (\<lambda>c r. push_bit 8 r OR ucast c) s 0 = (be_word s :: u32)"
proof -
  have "fold (\<lambda>c r. push_bit 8 r OR ucast c) s 0 = foldr (\<lambda>c r. push_bit 8 r OR (ucast c :: u32)) (rev s) 0"
    by (simp add: foldr_conv_fold)
  then show ?thesis by (simp add: be_word_def le_word_def)
qed

lemma bytes_le_4_short:
  assumes "length bs \<le> 4"
  shows "bytes_le 4 (le_word bs :: u32) = bs @ replicate (4 - length bs) 0"
proof (rule nth_equalityI)
  show "length (bytes_le 4 (le_word bs :: u32)) = length (bs @ replicate (4 - length bs) 0)"
    using assms by simp
  fix i
  assume "i < length (bytes_le 4 (le_word bs :: u32))"
  then have i: "i < 4" by simp
  show "bytes_le 4 (le_word bs :: u32) ! i = (bs @ replicate (4 - length bs) 0) ! i"
  proof (rule bit_word_eqI)
    fix j
    assume "j < LENGTH(8)"
    then have j: "j < 8" by simp
    then have "(8 * i + j) div 8 = i" "(8 * i + j) mod 8 = j" by simp_all
    then show "bit (bytes_le 4 (le_word bs :: u32) ! i) j
        = bit ((bs @ replicate (4 - length bs) 0) ! i) j"
      using i j assms by (simp add: bit_bytes_le bit_le_word nth_append)
  qed
qed

text \<open>
  A character constant of up to four characters, none of them zero, survives the conversion to
  \<open>int\<close> and back.
\<close>

theorem Multichar_roundtrip:
  assumes "length s \<le> 4" and "0 \<notin> set s"
  shows "MulticharToString (ToMultiChar s) = s"
proof -
  have "bytes_le 4 (be_word s :: u32) = rev s @ replicate (4 - length s) 0"
    using bytes_le_4_short [of "rev s"] assms(1) by (simp add: be_word_def)
  moreover have "takeWhile (\<lambda>b. b \<noteq> 0) (rev s @ zs) = rev s @ takeWhile (\<lambda>b. b \<noteq> 0) zs" for zs
    using assms(2) by (intro takeWhile_append2) auto
  moreover have "takeWhile (\<lambda>b. b \<noteq> 0) (replicate n 0 @ [0 :: byte]) = []" for n
    by (cases n) simp_all
  ultimately show ?thesis
    using assms(1) by (simp add: MulticharToString_def ToMultiChar_def fold_multichar strrev_rev)
qed

theorem Multichar_roundtrip_witness: "MulticharToString (ToMultiChar [82, 73, 70, 70]) = [82, 73, 70, 70]"
  by (rule Multichar_roundtrip) simp_all

section \<open>Lines\<close>

text \<open>What a reader has still to deliver: the character read ahead, then the stream.\<close>

definition ahead :: "('s \<Rightarrow> byte list) \<Rightarrow> 's stream_reader \<Rightarrow> byte list" where
  "ahead content sr = (case snd sr of None \<Rightarrow> [] | Some b \<Rightarrow> [b]) @ content (fst sr)"

context stream
begin

lemma ReadChar_ahead:
  assumes "inv (fst sr)"
  shows "\<exists>sr'. StreamReader_ReadChar read sr
      = (case ahead content sr of [] \<Rightarrow> None | b # _ \<Rightarrow> Some b, sr')
    \<and> inv (fst sr') \<and> snd sr' = None \<and> content (fst sr') = tl (ahead content sr)"
proof (cases "snd sr")
  case None
  then show ?thesis
    using ReadByte_content [OF assms]
    by (auto simp: StreamReader_ReadChar_def ahead_def split: prod.splits)
next
  case (Some b)
  then show ?thesis
    using assms by (cases sr) (simp add: StreamReader_ReadChar_def ahead_def)
qed

lemma ReadLineEx_loop_line:
  assumes "inv (fst sr)" and "ahead content sr = line @ eol @ rest"
    and "13 \<notin> set line" "10 \<notin> set line"
    and "eol = [13, 10] \<or> eol = [10] \<or> eol = [13] \<and> (rest = [] \<or> hd rest \<noteq> 10)"
    and "length line < k"
  shows "\<exists>sr'. ReadLineEx_loop k read sr v e = Some ((Some (v @ line), True), sr')
    \<and> inv (fst sr') \<and> ahead content sr' = rest"
  using assms
proof (induction line arbitrary: sr v e k)
  case Nil
  then obtain k' where k: "k = Suc k'" by (cases k) auto
  obtain sr1 where r1: "StreamReader_ReadChar read sr = (Some (hd eol), sr1)" "inv (fst sr1)"
      "snd sr1 = None" "content (fst sr1) = tl (eol @ rest)"
    using ReadChar_ahead [OF Nil.prems(1)] Nil.prems(2,5) by auto
  show ?case
  proof (cases "eol = [10]")
    case True
    then show ?thesis using k r1 by (simp add: ahead_def)
  next
    case False
    then have cr: "hd eol = 13" "ahead content sr1 = tl eol @ rest" using Nil.prems(5) r1 by (auto simp: ahead_def)
    obtain sr2 where r2: "StreamReader_ReadChar read sr1
          = (case tl eol @ rest of [] \<Rightarrow> None | b # _ \<Rightarrow> Some b, sr2)" "inv (fst sr2)"
        "snd sr2 = None" "content (fst sr2) = tl (tl eol @ rest)"
      using ReadChar_ahead [OF r1(2)] cr(2) by auto
    show ?thesis
      using k r1 r2 cr False Nil.prems(5)
      by (cases sr2; cases rest) (auto simp: ahead_def)
  qed
next
  case (Cons b line)
  then obtain k' where k: "k = Suc k'" by (cases k) auto
  obtain sr1 where r1: "StreamReader_ReadChar read sr = (Some b, sr1)" "inv (fst sr1)"
      "snd sr1 = None" "content (fst sr1) = line @ eol @ rest"
    using ReadChar_ahead [OF Cons.prems(1)] Cons.prems(2) by auto
  then have "ahead content sr1 = line @ eol @ rest" by (simp add: ahead_def)
  from Cons.IH [OF r1(2) this _ _ Cons.prems(5), of k' "v @ [b]" False]
  show ?case using Cons.prems(3,4,6) k r1 by auto
qed

lemma ReadToEnd_loop_content:
  "inv s \<Longrightarrow> length (content s) < k \<Longrightarrow>
    \<exists>s'. ReadToEnd_loop k read s v = Some (v @ content s, s') \<and> inv s' \<and> content s' = []"
proof (induction k arbitrary: s v)
  case (Suc k)
  obtain s' where r: "Stream_ReadByte read s
        = (case content s of [] \<Rightarrow> None | b # _ \<Rightarrow> Some b, s')" "inv s'" "content s' = tl (content s)"
    using ReadByte_content [OF Suc.prems(1)] by blast
  show ?case
  proof (cases "content s")
    case Nil
    then show ?thesis using r by simp
  next
    case (Cons b t)
    then show ?thesis using r Suc.IH [of s' "v @ [b]"] Suc.prems(2) by simp
  qed
qed simp

end

text \<open>
  \<open>ReadLineEx\<close> takes the next line whether it ends with CR LF, with LF or with CR alone, and
  leaves the reader at the first character of the next one; so it reads what \<open>WriteLine\<close> writes.
\<close>

theorem ReadLineEx_line:
  assumes "mem_inv (fst sr)" and "ahead mem_content sr = line @ eol @ rest"
    and "13 \<notin> set line" and "10 \<notin> set line"
    and "eol = StreamWriter_NewLine \<or> eol = [10] \<or> eol = [13] \<and> (rest = [] \<or> hd rest \<noteq> 10)"
    and "length line < k"
  shows "\<exists>sr'. StreamReader_ReadLineEx k CMemReadStream_Read sr = Some ((Some line, True), sr')
    \<and> mem_inv (fst sr') \<and> ahead mem_content sr' = rest"
  using mem.ReadLineEx_loop_line [OF assms(1-4) _ assms(6), of "[]" True] assms(5)
  by (simp add: StreamReader_ReadLineEx_def StreamWriter_NewLine_def)

theorem ReadLineEx_line_witness:
  "\<exists>sr'. StreamReader_ReadLineEx 3 CMemReadStream_Read (CMemReadStream [97, 98, 13, 99], None)
     = Some ((Some [97, 98], True), sr') \<and> mem_inv (fst sr') \<and> ahead mem_content sr' = [99]"
  by (rule ReadLineEx_line [of _ _ "[13]"]) (simp_all add: ahead_def mem_defs)

text \<open>
  After a line that ended with a lone CR, the character read ahead is lost when the rest is read
  with \<open>ReadToEnd\<close>, which asks the base stream only.
\<close>

theorem ReadToEnd_loses_char:
  assumes "mem_inv s" and "length (mem_content s) < k"
  shows "\<exists>sr'. StreamReader_ReadToEnd k CMemReadStream_Read (s, Some b) = Some (mem_content s, sr')
    \<and> ahead mem_content (s, Some b) = b # mem_content s"
  using mem.ReadToEnd_loop_content [OF assms, of "[]"]
  by (auto simp: StreamReader_ReadToEnd_def ahead_def)

theorem ReadToEnd_loses_char_witness:
  "\<exists>sr'. StreamReader_ReadToEnd 5 CMemReadStream_Read (CMemReadStream [100], Some 99) = Some ([100], sr')"
  using ReadToEnd_loses_char [of "CMemReadStream [100]" 5 99] by (auto simp: mem_defs)

end
