(* ===== verification/Blob.thy ===== *)
theory Blob
  imports Prelude "HOL-Library.Multiset"
begin

text \<open>
  Reference-counted byte strings, \<open>src/libext/blob.{h,cpp}\<close>: \<open>CStringBlobBuf\<close>, the buffers that \<open>Blob\<close>
  objects share until one of them writes, and the operations of \<open>Blob\<close>.  Buffers live in a heap
  that \<open>new\<close>, \<open>free\<close> and \<open>Realloc\<close> change, \<open>Blob\<close> objects hold addresses in it, and a span may point
  into a buffer, so that sharing, aliasing and use after free are visible.  The zero behind the
  contents of a buffer and the cached narrow copy (which belong to \<open>String\<close>) are left out.
\<close>

section \<open>Buffers and the heap\<close>

record blob_buf =
  m_aRef :: int
  m_size :: u32
  m_bytes :: "byte list"

text \<open>
  \<open>bufs\<close> are the allocated buffers, \<open>fresh\<close> the address that the allocator gives out next (a block
  that \<open>Realloc\<close> enlarges or shrinks moves), \<open>junk\<close> what uninitialised memory holds, \<open>objs\<close> the live
  \<open>Blob\<close> objects with their \<open>m_pData\<close>.
\<close>

record blob_state =
  bufs :: "nat \<rightharpoonup> blob_buf"
  fresh :: nat
  junk :: "nat \<Rightarrow> byte"
  s_emptyStringBlobBuf :: "nat option"
  objs :: "nat \<rightharpoonup> nat option"

definition init_state :: "(nat \<Rightarrow> byte) \<Rightarrow> blob_state" where
  "init_state jk = \<lparr>bufs = Map.empty, fresh = 0, junk = jk, s_emptyStringBlobBuf = None,
     objs = Map.empty\<rparr>"

definition deref :: "nat option \<Rightarrow> blob_state \<Rightarrow> (nat \<times> blob_buf) res" where
  "deref q st = (case q of None \<Rightarrow> Inl NullPointer
     | Some p \<Rightarrow> (case bufs st p of None \<Rightarrow> Inl UseAfterFree | Some b \<Rightarrow> Inr (p, b)))"

definition m_pData :: "nat \<Rightarrow> blob_state \<Rightarrow> nat option res" where
  "m_pData x st = (case objs st x of None \<Rightarrow> Inl UseAfterFree | Some q \<Rightarrow> Inr q)"

definition set_pData :: "nat \<Rightarrow> nat option \<Rightarrow> blob_state \<Rightarrow> blob_state" where
  "set_pData x q st = st\<lparr>objs := (objs st)(x \<mapsto> q)\<rparr>"

definition set_buf :: "nat \<Rightarrow> blob_buf \<Rightarrow> blob_state \<Rightarrow> blob_state" where
  "set_buf p b st = st\<lparr>bufs := (bufs st)(p \<mapsto> b)\<rparr>"

definition free_buf :: "nat \<Rightarrow> blob_state \<Rightarrow> blob_state" where
  "free_buf p st = st\<lparr>bufs := (bufs st)(p := None)\<rparr>"

definition malloc_buf :: "byte list \<Rightarrow> blob_state \<Rightarrow> nat \<times> blob_state" where
  "malloc_buf bs st = (fresh st,
     st\<lparr>bufs := (bufs st)(fresh st \<mapsto> \<lparr>m_aRef = 1, m_size = of_nat (length bs), m_bytes = bs\<rparr>),
        fresh := Suc (fresh st)\<rparr>)"

text \<open>\<open>new(len, false) CStringBlobBuf(\<dots>)\<close> with the contents \<open>bs\<close>; \<open>operator new\<close> refuses a negative \<open>ssize_t\<close>.\<close>

definition new_buf :: "byte list \<Rightarrow> blob_state \<Rightarrow> (nat \<times> blob_state) res" where
  "new_buf bs st = (if 2 ^ 63 \<le> length bs then Inl InvalidArgument else Inr (malloc_buf bs st))"

definition AddRef :: "nat option \<Rightarrow> blob_state \<Rightarrow> blob_state res" where
  "AddRef q st = bind_res (deref q st) (\<lambda>(p, b). Inr (set_buf p (b\<lparr>m_aRef := m_aRef b + 1\<rparr>) st))"

definition Release :: "nat option \<Rightarrow> blob_state \<Rightarrow> blob_state res" where
  "Release q st = (if q = None then Inr st else
     bind_res (deref q st) (\<lambda>(p, b).
       if m_aRef b - 1 = 0 then Inr (free_buf p st)
       else Inr (set_buf p (b\<lparr>m_aRef := m_aRef b - 1\<rparr>) st)))"

definition GetSize :: "blob_buf \<Rightarrow> nat" where
  "GetSize b = unat (m_size b)"

definition Clone :: "blob_buf \<Rightarrow> blob_state \<Rightarrow> (nat \<times> blob_state) res" where
  "Clone b st = new_buf (take (GetSize b) (m_bytes b)) st"

definition SetSize :: "nat \<Rightarrow> nat \<Rightarrow> blob_state \<Rightarrow> (nat \<times> blob_state) res" where
  "SetSize p sz st = bind_res (deref (Some p) st) (\<lambda>(p, b).
     let copyLen = min sz (GetSize b);
         bs = take copyLen (m_bytes b) @ replicate (sz - copyLen) 0
     in if m_aRef b = 1 then Inr (malloc_buf bs (free_buf p st))
        else bind_res (new_buf bs st) (\<lambda>(d, st).
          bind_res (Release (Some p) st) (\<lambda>st. Inr (d, st))))"

definition RefEmptyBlobBuf :: "blob_state \<Rightarrow> (nat \<times> blob_state) res" where
  "RefEmptyBlobBuf st =
     (let (r, st) = (case s_emptyStringBlobBuf st of
          Some p \<Rightarrow> (p, st)
        | None \<Rightarrow> let (p, st) = malloc_buf [] st in (p, st\<lparr>s_emptyStringBlobBuf := Some p\<rparr>))
      in bind_res (AddRef (Some r) st) (\<lambda>st. Inr (r, st)))"

section \<open>Spans\<close>

text \<open>A span holds bytes outside the heap of buffers, or points into a buffer.\<close>

datatype span = Outside "byte list" | Within nat nat nat

definition span_size :: "span \<Rightarrow> nat" where
  "span_size sp = (case sp of Outside bs \<Rightarrow> length bs | Within p off n \<Rightarrow> n)"

definition read_span :: "span \<Rightarrow> blob_state \<Rightarrow> byte list res" where
  "read_span sp st = (case sp of Outside bs \<Rightarrow> Inr bs
     | Within p off n \<Rightarrow> bind_res (deref (Some p) st) (\<lambda>(p, b).
         if off + n \<le> length (m_bytes b) then Inr (take n (drop off (m_bytes b)))
         else Inl OutOfBounds))"

text \<open>\<open>operator Span\<close> and a part of it, \<open>Span(y.constData() + off, n)\<close>.\<close>

definition Blob_Span :: "nat \<Rightarrow> blob_state \<Rightarrow> span res" where
  "Blob_Span y st = bind_res (m_pData y st) (\<lambda>q.
     if q = None then Inr (Outside [])
     else bind_res (deref q st) (\<lambda>(p, b). Inr (Within p 0 (GetSize b))))"

datatype source = Bytes "byte list" | Whole nat | Part nat nat nat

definition source_span :: "source \<Rightarrow> blob_state \<Rightarrow> span res" where
  "source_span s st = (case s of Bytes bs \<Rightarrow> Inr (Outside bs)
     | Whole y \<Rightarrow> Blob_Span y st
     | Part y off n \<Rightarrow> bind_res (m_pData y st) (\<lambda>q.
         bind_res (deref q st) (\<lambda>(p, b). Inr (Within p off n))))"

section \<open>Blob\<close>

definition Blob_new :: "nat \<Rightarrow> blob_state \<Rightarrow> blob_state res" where
  "Blob_new x st = bind_res (RefEmptyBlobBuf st) (\<lambda>(p, st). Inr (set_pData x (Some p) st))"

definition Blob_null :: "nat \<Rightarrow> blob_state \<Rightarrow> blob_state res" where
  "Blob_null x st = Inr (set_pData x None st)"

definition Blob_copy :: "nat \<Rightarrow> nat \<Rightarrow> blob_state \<Rightarrow> blob_state res" where
  "Blob_copy x y st = bind_res (m_pData y st) (\<lambda>q.
     bind_res (if q = None then Inr st else AddRef q st) (\<lambda>st. Inr (set_pData x q st)))"

definition Blob_contents :: "nat \<Rightarrow> byte list \<Rightarrow> blob_state \<Rightarrow> blob_state res" where
  "Blob_contents x bs st = bind_res (new_buf bs st) (\<lambda>(p, st). Inr (set_pData x (Some p) st))"

definition Blob_buf_len :: "nat \<Rightarrow> byte list option \<Rightarrow> nat \<Rightarrow> blob_state \<Rightarrow> blob_state res" where
  "Blob_buf_len x buf len st = Blob_contents x
     (case buf of Some bs \<Rightarrow> take len bs | None \<Rightarrow> replicate len 0) st"

definition Blob_uninit :: "nat \<Rightarrow> nat \<Rightarrow> blob_state \<Rightarrow> blob_state res" where
  "Blob_uninit x len st = Blob_contents x (map (junk st) [0..<len]) st"

definition Blob_span :: "nat \<Rightarrow> span \<Rightarrow> blob_state \<Rightarrow> blob_state res" where
  "Blob_span x sp st = bind_res (read_span sp st) (\<lambda>bs. Blob_contents x bs st)"

definition Blob_dtor :: "nat \<Rightarrow> blob_state \<Rightarrow> blob_state res" where
  "Blob_dtor x st = bind_res (m_pData x st) (\<lambda>q.
     bind_res (Release q st) (\<lambda>st. Inr (st\<lparr>objs := (objs st)(x := None)\<rparr>)))"

definition Blob_move :: "nat \<Rightarrow> nat \<Rightarrow> blob_state \<Rightarrow> blob_state res" where
  "Blob_move x y st = bind_res (m_pData y st) (\<lambda>q. Inr (set_pData x q (set_pData y None st)))"

definition Blob_move_assign :: "nat \<Rightarrow> nat \<Rightarrow> blob_state \<Rightarrow> blob_state res" where
  "Blob_move_assign x y st = bind_res (m_pData y st) (\<lambda>q.
     let st = set_pData y None st
     in bind_res (m_pData x st) (\<lambda>old. Release old (set_pData x q st)))"

definition Blob_swap :: "nat \<Rightarrow> nat \<Rightarrow> blob_state \<Rightarrow> blob_state res" where
  "Blob_swap x y st = bind_res (m_pData x st) (\<lambda>p. bind_res (m_pData y st) (\<lambda>q.
     Inr (set_pData y p (set_pData x q st))))"

definition AssignIfNull :: "nat \<Rightarrow> nat \<Rightarrow> blob_state \<Rightarrow> blob_state res" where
  "AssignIfNull x y st = bind_res (m_pData y st) (\<lambda>pData. bind_res (m_pData x st) (\<lambda>old.
     if old = None
     then (let st = set_pData x pData st in if pData \<noteq> None then AddRef pData st else Inr st)
     else Inr st))"

definition Blob_assign :: "nat \<Rightarrow> nat \<Rightarrow> blob_state \<Rightarrow> blob_state res" where
  "Blob_assign x y st = bind_res (m_pData x st) (\<lambda>p. bind_res (m_pData y st) (\<lambda>q.
     if p = q then Inr st
     else bind_res (Release p st) (\<lambda>st.
       let st = set_pData x q st in if q \<noteq> None then AddRef q st else Inr st)))"

text \<open>\<open>operator=(Span)\<close> moves a temporary \<open>Blob\<close> in; the temporary is null when it dies.\<close>

definition Blob_assign_span :: "nat \<Rightarrow> span \<Rightarrow> blob_state \<Rightarrow> blob_state res" where
  "Blob_assign_span x sp st = bind_res (read_span sp st) (\<lambda>bs. bind_res (new_buf bs st) (\<lambda>(d, st).
     bind_res (m_pData x st) (\<lambda>old. Release old (set_pData x (Some d) st))))"

definition Blob_size :: "nat \<Rightarrow> blob_state \<Rightarrow> nat res" where
  "Blob_size x st = bind_res (m_pData x st) (\<lambda>q. bind_res (deref q st) (\<lambda>(p, b). Inr (GetSize b)))"

definition Cow :: "nat \<Rightarrow> blob_state \<Rightarrow> blob_state res" where
  "Cow x st = bind_res (m_pData x st) (\<lambda>q. bind_res (deref q st) (\<lambda>(p, b).
     if m_aRef b > 1
     then bind_res (Clone b st) (\<lambda>(d, st). Release (Some p) (set_pData x (Some d) st))
     else Inr st))"

definition Blob_resize :: "nat \<Rightarrow> nat \<Rightarrow> blob_state \<Rightarrow> blob_state res" where
  "Blob_resize x sz st = bind_res (m_pData x st) (\<lambda>q.
     bind_res (case q of Some p \<Rightarrow> SetSize p sz st | None \<Rightarrow> new_buf (map (junk st) [0..<sz]) st)
       (\<lambda>(d, st). Inr (set_pData x (Some d) st)))"

text \<open>Writes through a pointer into the object's buffer: \<open>memcpy\<close> from elsewhere and \<open>memmove\<close> inside.\<close>

definition poke :: "nat \<Rightarrow> nat \<Rightarrow> byte list \<Rightarrow> blob_state \<Rightarrow> blob_state res" where
  "poke x off bs st = bind_res (m_pData x st) (\<lambda>q. bind_res (deref q st) (\<lambda>(p, b).
     if off + length bs \<le> length (m_bytes b)
     then Inr (set_buf p (b\<lparr>m_bytes := take off (m_bytes b) @ bs
                            @ drop (off + length bs) (m_bytes b)\<rparr>) st)
     else Inl OutOfBounds))"

definition peek :: "nat \<Rightarrow> nat \<Rightarrow> nat \<Rightarrow> blob_state \<Rightarrow> byte list res" where
  "peek x off n st = bind_res (m_pData x st) (\<lambda>q. bind_res (deref q st) (\<lambda>(p, b).
     read_span (Within p off n) st))"

definition move_inside :: "nat \<Rightarrow> nat \<Rightarrow> nat \<Rightarrow> int \<Rightarrow> blob_state \<Rightarrow> blob_state res" where
  "move_inside x dst src n st = (if n < 0 then Inl OutOfBounds
     else bind_res (peek x src (nat n) st) (\<lambda>bs. poke x dst bs st))"

definition points_to :: "span \<Rightarrow> nat option \<Rightarrow> bool" where
  "points_to sp q = (case sp of Outside bs \<Rightarrow> False | Within p off n \<Rightarrow> q = Some p \<and> off = 0)"

definition Blob_append :: "nat \<Rightarrow> span \<Rightarrow> blob_state \<Rightarrow> blob_state res" where
  "Blob_append x mb st = bind_res (Blob_size x st) (\<lambda>prevSize. bind_res (m_pData x st) (\<lambda>q.
     bind_res (Blob_resize x (prevSize + span_size mb) st) (\<lambda>st. bind_res (Cow x st) (\<lambda>st.
       bind_res (if points_to mb q then peek x 0 (span_size mb) st else read_span mb st) (\<lambda>bs.
         poke x prevSize bs st)))))"

definition Blob_get :: "nat \<Rightarrow> nat \<Rightarrow> blob_state \<Rightarrow> byte res" where
  "Blob_get x idx st = bind_res (Blob_size x st) (\<lambda>n. if idx \<ge> n then Inl IndexOutOfRange
     else bind_res (peek x idx 1 st) (\<lambda>bs. Inr (hd bs)))"

definition Blob_put :: "nat \<Rightarrow> nat \<Rightarrow> byte \<Rightarrow> blob_state \<Rightarrow> blob_state res" where
  "Blob_put x idx v st = bind_res (Blob_size x st) (\<lambda>n. if idx \<ge> n then Inl IndexOutOfRange
     else bind_res (Cow x st) (\<lambda>st. poke x idx [v] st))"

text \<open>\<open>Replace\<close> keeps the new size in a \<open>uint8_t\<close>.  A negative length stands for its wrapped \<open>size_t\<close>.\<close>

definition Blob_Replace :: "nat \<Rightarrow> nat \<Rightarrow> nat \<Rightarrow> span \<Rightarrow> blob_state \<Rightarrow> blob_state res" where
  "Blob_Replace x offset sz mb st = bind_res (Cow x st) (\<lambda>st. bind_res (Blob_size x st) (\<lambda>n.
     let k = span_size mb;
         newSize = unat (word_of_int (int n + int k - int sz) :: byte)
     in bind_res
       (if k \<ge> sz
        then bind_res (Blob_resize x newSize st)
               (move_inside x (offset + k) (offset + sz) (int newSize - int offset - int k))
        else bind_res (move_inside x (offset + k) (offset + sz) (int n - int offset - int sz) st)
               (Blob_resize x newSize))
       (\<lambda>st. bind_res (read_span mb st) (\<lambda>bs. poke x offset bs st))))"

text \<open>\<open>operator==\<close> and \<open>operator<\<close>, with \<open>memcmp\<close> on the common prefix.\<close>

fun memcmp :: "byte list \<Rightarrow> byte list \<Rightarrow> nat \<Rightarrow> int" where
  "memcmp xs ys 0 = 0"
| "memcmp xs ys (Suc n) = (case (xs, ys) of (x # xs, y # ys) \<Rightarrow>
     if x < y then - 1 else if y < x then 1 else memcmp xs ys n | _ \<Rightarrow> 0)"

definition Blob_eq :: "nat \<Rightarrow> nat \<Rightarrow> blob_state \<Rightarrow> bool res" where
  "Blob_eq x y st = bind_res (m_pData x st) (\<lambda>p. bind_res (m_pData y st) (\<lambda>q.
     if p = q then Inr True
     else if p \<noteq> None
     then bind_res (deref p st) (\<lambda>(p, b).
       if q = None then Inr False
       else bind_res (deref q st) (\<lambda>(q, c).
         if GetSize b \<noteq> GetSize c then Inr False
         else Inr (memcmp (m_bytes b) (m_bytes c) (GetSize b) = 0)))
     else Inr False))"

definition Blob_less :: "nat \<Rightarrow> nat \<Rightarrow> blob_state \<Rightarrow> bool res" where
  "Blob_less x y st = bind_res (m_pData x st) (\<lambda>p. bind_res (m_pData y st) (\<lambda>q.
     if p = None then Inr (q \<noteq> None)
     else if q = None then Inr False
     else bind_res (deref p st) (\<lambda>(p, b). bind_res (deref q st) (\<lambda>(q, c).
       let n = memcmp (m_bytes b) (m_bytes c) (min (GetSize b) (GetSize c))
       in Inr (if n \<noteq> 0 then n < 0 else GetSize b < GetSize c)))))"


definition Blob_plus :: "nat \<Rightarrow> span \<Rightarrow> span \<Rightarrow> blob_state \<Rightarrow> blob_state res" where
  "Blob_plus x mb1 mb2 st = bind_res (Blob_buf_len x None (span_size mb1 + span_size mb2) st) (\<lambda>st.
     bind_res (Cow x st) (\<lambda>st. bind_res (read_span mb1 st) (\<lambda>bs. bind_res (poke x 0 bs st) (\<lambda>st.
       bind_res (Cow x st) (\<lambda>st. bind_res (read_span mb2 st) (\<lambda>bs. poke x (span_size mb1) bs st))))))"

section \<open>Operations as commands, and what they do to values\<close>

text \<open>
  The states a program can produce: constructors create an object, \<open>Destroy\<close> ends it.  A command
  resolves its source to a span first, as the caller does.
\<close>

datatype blob_op =
    New nat | Null nat | Copy nat nat | Move nat nat | Contents nat "byte list" | Uninit nat nat
  | FromSpan nat source | Destroy nat | Assign nat nat | MoveAssign nat nat | AssignSpan nat source
  | AssignNull nat nat | Swap nat nat | Append nat source | Resize nat nat | Put nat nat byte
  | ReplaceBy nat nat nat source | Plus nat source source

fun exec :: "blob_op \<Rightarrow> blob_state \<Rightarrow> blob_state res" where
  "exec (New x) st = Blob_new x st"
| "exec (Null x) st = Blob_null x st"
| "exec (Copy x y) st = Blob_copy x y st"
| "exec (Move x y) st = Blob_move x y st"
| "exec (Contents x bs) st = Blob_buf_len x (Some bs) (length bs) st"
| "exec (Uninit x n) st = Blob_uninit x n st"
| "exec (FromSpan x s) st = bind_res (source_span s st) (\<lambda>sp. Blob_span x sp st)"
| "exec (Destroy x) st = Blob_dtor x st"
| "exec (Assign x y) st = Blob_assign x y st"
| "exec (MoveAssign x y) st = Blob_move_assign x y st"
| "exec (AssignSpan x s) st = bind_res (source_span s st) (\<lambda>sp. Blob_assign_span x sp st)"
| "exec (AssignNull x y) st = AssignIfNull x y st"
| "exec (Swap x y) st = Blob_swap x y st"
| "exec (Append x s) st = bind_res (source_span s st) (\<lambda>sp. Blob_append x sp st)"
| "exec (Resize x n) st = Blob_resize x n st"
| "exec (Put x i v) st = Blob_put x i v st"
| "exec (ReplaceBy x off n s) st = bind_res (source_span s st) (\<lambda>sp. Blob_Replace x off n sp st)"
| "exec (Plus x s t) st = bind_res (source_span s st) (\<lambda>sp. bind_res (source_span t st) (\<lambda>tp.
     Blob_plus x sp tp st))"

text \<open>The specification: objects are variables that hold a byte string of their own, or null.\<close>

type_synonym blob_vars = "nat \<rightharpoonup> byte list option"

fun source_val :: "source \<Rightarrow> blob_vars \<Rightarrow> byte list res" where
  "source_val (Bytes bs) v = Inr bs"
| "source_val (Whole y) v = Inr (case the (v y) of None \<Rightarrow> [] | Some bs \<Rightarrow> bs)"
| "source_val (Part y off n) v = (case the (v y) of None \<Rightarrow> Inl NullPointer
     | Some bs \<Rightarrow> if off + n \<le> length bs then Inr (take n (drop off bs)) else Inl OutOfBounds)"

definition resized :: "byte list \<Rightarrow> nat \<Rightarrow> byte list" where
  "resized bs n = take n bs @ replicate (n - length bs) 0"

definition on_value :: "nat \<Rightarrow> blob_vars \<Rightarrow> (byte list \<Rightarrow> byte list res) \<Rightarrow> blob_vars res" where
  "on_value x v f = (case the (v x) of None \<Rightarrow> Inl NullPointer
     | Some bs \<Rightarrow> bind_res (f bs) (\<lambda>bs. Inr (v(x \<mapsto> Some bs))))"

fun blob_spec :: "(nat \<Rightarrow> byte) \<Rightarrow> blob_op \<Rightarrow> blob_vars \<Rightarrow> blob_vars res" where
  "blob_spec jk (New x) v = Inr (v(x \<mapsto> Some []))"
| "blob_spec jk (Null x) v = Inr (v(x \<mapsto> None))"
| "blob_spec jk (Copy x y) v = Inr (v(x \<mapsto> the (v y)))"
| "blob_spec jk (Move x y) v = Inr (v(y \<mapsto> None, x \<mapsto> the (v y)))"
| "blob_spec jk (Contents x bs) v = Inr (v(x \<mapsto> Some bs))"
| "blob_spec jk (Uninit x n) v = Inr (v(x \<mapsto> Some (map jk [0..<n])))"
| "blob_spec jk (FromSpan x s) v = bind_res (source_val s v) (\<lambda>bs. Inr (v(x \<mapsto> Some bs)))"
| "blob_spec jk (Destroy x) v = Inr (v(x := None))"
| "blob_spec jk (Assign x y) v = Inr (v(x \<mapsto> the (v y)))"
| "blob_spec jk (MoveAssign x y) v = Inr (v(y \<mapsto> None, x \<mapsto> the (v y)))"
| "blob_spec jk (AssignSpan x s) v = bind_res (source_val s v) (\<lambda>bs. Inr (v(x \<mapsto> Some bs)))"
| "blob_spec jk (AssignNull x y) v = Inr (if v x = Some None then v(x \<mapsto> the (v y)) else v)"
| "blob_spec jk (Swap x y) v = Inr (v(x \<mapsto> the (v y), y \<mapsto> the (v x)))"
| "blob_spec jk (Append x s) v =
     on_value x v (\<lambda>bs. bind_res (source_val s v) (\<lambda>cs. Inr (bs @ cs)))"
| "blob_spec jk (Resize x n) v = Inr (v(x \<mapsto> Some
     (case the (v x) of None \<Rightarrow> map jk [0..<n] | Some bs \<Rightarrow> resized bs n)))"
| "blob_spec jk (Put x i b) v =
     on_value x v (\<lambda>bs. if i < length bs then Inr (bs[i := b]) else Inl IndexOutOfRange)"
| "blob_spec jk (ReplaceBy x off n s) v =
     on_value x v (\<lambda>bs. bind_res (source_val s v) (\<lambda>cs. Inr (take off bs @ cs @ drop (off + n) bs)))"
| "blob_spec jk (Plus x s t) v = bind_res (source_val s v) (\<lambda>bs. bind_res (source_val t v) (\<lambda>cs.
     Inr (v(x \<mapsto> Some (bs @ cs)))))"


fun source_ok :: "source \<Rightarrow> blob_vars \<Rightarrow> nat \<Rightarrow> bool" where
  "source_ok s v lim = ((case s of Bytes bs \<Rightarrow> True | Whole y \<Rightarrow> v y \<noteq> None | Part y off n \<Rightarrow> v y \<noteq> None)
     \<and> (case source_val s v of Inl e \<Rightarrow> False | Inr cs \<Rightarrow> length cs < lim))"

definition source_len :: "source \<Rightarrow> blob_vars \<Rightarrow> nat" where
  "source_len s v = (case source_val s v of Inl e \<Rightarrow> 0 | Inr cs \<Rightarrow> length cs)"

definition value_len :: "nat \<Rightarrow> blob_vars \<Rightarrow> nat" where
  "value_len x v = (case v x of Some (Some bs) \<Rightarrow> length bs | _ \<Rightarrow> 0)"

fun reads_from :: "source \<Rightarrow> nat \<Rightarrow> bool" where
  "reads_from (Bytes bs) x = False"
| "reads_from (Whole y) x = (y = x)"
| "reads_from (Part y off n) x = (y = x)"

fun reads_inside :: "source \<Rightarrow> nat \<Rightarrow> bool" where
  "reads_inside (Part y off n) x = (y = x \<and> off \<noteq> 0)"
| "reads_inside s x = False"

fun op_ok :: "blob_op \<Rightarrow> blob_vars \<Rightarrow> bool" where
  "op_ok (New x) v = (v x = None)"
| "op_ok (Null x) v = (v x = None)"
| "op_ok (Copy x y) v = (v x = None \<and> v y \<noteq> None)"
| "op_ok (Move x y) v = (v x = None \<and> v y \<noteq> None)"
| "op_ok (Contents x bs) v = (v x = None \<and> length bs < 2 ^ 32)"
| "op_ok (Uninit x n) v = (v x = None \<and> n < 2 ^ 32)"
| "op_ok (FromSpan x s) v = (v x = None \<and> source_ok s v (2 ^ 32))"
| "op_ok (Destroy x) v = (v x \<noteq> None)"
| "op_ok (Assign x y) v = (v x \<noteq> None \<and> v y \<noteq> None)"
| "op_ok (MoveAssign x y) v = (v x \<noteq> None \<and> v y \<noteq> None)"
| "op_ok (AssignSpan x s) v = (v x \<noteq> None \<and> source_ok s v (2 ^ 32))"
| "op_ok (AssignNull x y) v = (v x \<noteq> None \<and> v y \<noteq> None)"
| "op_ok (Swap x y) v = (v x \<noteq> None \<and> v y \<noteq> None)"
| "op_ok (Append x s) v = (v x \<noteq> None \<and> source_ok s v (2 ^ 32) \<and> \<not> reads_inside s x
     \<and> value_len x v + source_len s v < 2 ^ 32)"
| "op_ok (Resize x n) v = (v x \<noteq> None \<and> n < 2 ^ 32)"
| "op_ok (Put x i b) v = (v x \<noteq> None)"
| "op_ok (ReplaceBy x off n s) v = (v x \<noteq> None \<and> source_ok s v (2 ^ 32) \<and> \<not> reads_from s x
     \<and> off + n \<le> value_len x v \<and> value_len x v + source_len s v - n < 256)"
| "op_ok (Plus x s t) v = (v x = None \<and> source_ok s v (2 ^ 32) \<and> source_ok t v (2 ^ 32)
     \<and> source_len s v + source_len t v < 2 ^ 32)"

section \<open>Ownership\<close>

text \<open>
  The references a buffer has: the objects that hold it, the static empty buffer, and a multiset
  \<open>ex\<close> of pointers held by an operation under way.
\<close>

definition owners :: "blob_state \<Rightarrow> nat \<Rightarrow> nat" where
  "owners st p = card {x. objs st x = Some (Some p)} + of_bool (s_emptyStringBlobBuf st = Some p)"

definition refs :: "blob_state \<Rightarrow> nat multiset \<Rightarrow> nat \<Rightarrow> nat" where
  "refs st ex p = owners st p + count ex p"

definition owned :: "blob_state \<Rightarrow> nat multiset \<Rightarrow> bool" where
  "owned st ex \<longleftrightarrow> finite (dom (objs st))
     \<and> (\<forall>p. bufs st p = None \<longrightarrow> refs st ex p = 0)
     \<and> (\<forall>p b. bufs st p = Some b \<longrightarrow> m_aRef b = int (refs st ex p)
          \<and> 0 < refs st ex p \<and> length (m_bytes b) = GetSize b \<and> p < fresh st)
     \<and> (\<forall>p b. s_emptyStringBlobBuf st = Some p \<longrightarrow> bufs st p = Some b \<longrightarrow> m_bytes b = [])"

definition contents_at :: "blob_state \<Rightarrow> nat \<Rightarrow> byte list" where
  "contents_at st p = (case bufs st p of None \<Rightarrow> [] | Some b \<Rightarrow> m_bytes b)"

definition blob_values :: "blob_state \<Rightarrow> blob_vars" where
  "blob_values st = (\<lambda>x. map_option (map_option (contents_at st)) (objs st x))"

text \<open>Two states between which only buffers without a reference changed.\<close>

definition same_view :: "nat multiset \<Rightarrow> blob_state \<Rightarrow> blob_state \<Rightarrow> bool" where
  "same_view ex st st' \<longleftrightarrow> objs st' = objs st \<and> s_emptyStringBlobBuf st' = s_emptyStringBlobBuf st
     \<and> junk st' = junk st
     \<and> (\<forall>p. 0 < refs st ex p \<longrightarrow> contents_at st' p = contents_at st p)"

definition ref_at :: "nat option option \<Rightarrow> nat multiset" where
  "ref_at v = (case v of Some (Some p) \<Rightarrow> {#p#} | _ \<Rightarrow> {#})"

lemma ref_at_simps [simp]:
  "ref_at None = {#}" "ref_at (Some None) = {#}" "ref_at (Some (Some p)) = {#p#}"
  by (simp_all add: ref_at_def)

lemma same_view_owners: "same_view ex st st' \<Longrightarrow> owners st' = owners st"
  by (auto simp: same_view_def owners_def)

lemma owner_counts:
  assumes "finite (dom (objs st))" and "objs st x = Some (Some p)"
  shows "0 < refs st ex p"
proof -
  have "finite {x. objs st x = Some (Some p)}"
    by (rule finite_subset [OF _ assms(1)]) auto
  then have "0 < card {x. objs st x = Some (Some p)}"
    using assms(2) by (auto simp: card_gt_0_iff)
  then show ?thesis by (simp add: owners_def refs_def)
qed

lemma same_view_values:
  assumes "finite (dom (objs st))" and "same_view ex st st'"
  shows "blob_values st' = blob_values st"
proof
  fix x
  show "blob_values st' x = blob_values st x"
  proof (cases "objs st x")
    case None
    then show ?thesis using assms(2) by (simp add: blob_values_def same_view_def)
  next
    case (Some q)
    then show ?thesis
      using assms owner_counts [of st x _ ex]
      by (cases q) (auto simp: blob_values_def same_view_def)
  qed
qed

lemma same_view_trans:
  assumes "same_view ex st st'" and "same_view ex st' st''"
  shows "same_view ex st st''"
  using assms same_view_owners [OF assms(1)] by (simp add: same_view_def refs_def)

lemma same_view_mono: "same_view (ex + ex') st st' \<Longrightarrow> same_view ex st st'"
  by (simp add: same_view_def refs_def)

lemma owned_live:
  assumes "owned st ex" and "0 < refs st ex p"
  obtains b where "bufs st p = Some b" "m_aRef b = int (refs st ex p)"
    "length (m_bytes b) = GetSize b" "p < fresh st"
  using assms by (cases "bufs st p") (auto simp: owned_def)

lemma owned_obj:
  assumes "owned st ex" and "objs st x = Some (Some p)"
  obtains b where "bufs st p = Some b" "m_aRef b = int (refs st ex p)"
    "length (m_bytes b) = GetSize b" "p < fresh st"
  using owned_live [OF assms(1), of p thesis] owner_counts [of st x p ex] assms by (auto simp: owned_def)

lemma owned_cong:
  assumes "owned st ex" and "finite (dom (objs st'))" and "bufs st' = bufs st" and "fresh st' = fresh st"
    and "s_emptyStringBlobBuf st' = s_emptyStringBlobBuf st" and "refs st' ex' = refs st ex"
  shows "owned st' ex'"
  using assms by (simp add: owned_def)

text \<open>An object that changes its pointer exchanges references with the operation.\<close>

lemma owners_split:
  assumes "finite (dom (objs st))"
  shows "owners st p = card {y. y \<noteq> x \<and> objs st y = Some (Some p)}
           + of_bool (objs st x = Some (Some p)) + of_bool (s_emptyStringBlobBuf st = Some p)"
proof -
  have "finite {y. y \<noteq> x \<and> objs st y = Some (Some p)}"
    by (rule finite_subset [OF _ assms]) auto
  moreover have "{y. objs st y = Some (Some p)} = (if objs st x = Some (Some p)
      then insert x {y. y \<noteq> x \<and> objs st y = Some (Some p)} else {y. y \<noteq> x \<and> objs st y = Some (Some p)})"
    by auto
  ultimately show ?thesis by (simp add: owners_def)
qed

lemma count_ref_at: "count (ref_at v) p = of_bool (v = Some (Some p))"
  by (auto simp: ref_at_def split: option.splits)

lemma owners_upd:
  assumes "finite (dom (objs st))"
  shows "owners (st\<lparr>objs := (objs st)(x := v)\<rparr>) p + count (ref_at (objs st x)) p
           = owners st p + count (ref_at v) p"
proof -
  have "finite (dom ((objs st)(x := v)))" using assms by simp
  then have "owners (st\<lparr>objs := (objs st)(x := v)\<rparr>) p
      = card {y. y \<noteq> x \<and> ((objs st)(x := v)) y = Some (Some p)}
         + of_bool (v = Some (Some p)) + of_bool (s_emptyStringBlobBuf st = Some p)"
    using owners_split [of "st\<lparr>objs := (objs st)(x := v)\<rparr>" p x] by simp
  moreover have "{y. y \<noteq> x \<and> ((objs st)(x := v)) y = Some (Some p)}
      = {y. y \<noteq> x \<and> objs st y = Some (Some p)}" by auto
  ultimately show ?thesis using owners_split [OF assms, of p x] by (simp add: count_ref_at)
qed

lemma upd_owned:
  assumes "owned st (ex + ref_at v)"
  shows "owned (st\<lparr>objs := (objs st)(x := v)\<rparr>) (ex + ref_at (objs st x))"
proof -
  have fin: "finite (dom (objs st))" using assms by (simp add: owned_def)
  have "refs (st\<lparr>objs := (objs st)(x := v)\<rparr>) (ex + ref_at (objs st x)) p = refs st (ex + ref_at v) p" for p
    using owners_upd [OF fin, of x v p] by (simp add: refs_def)
  then show ?thesis by (intro owned_cong [OF assms]) (auto simp: fin)
qed

lemma upd_values: "blob_values (st\<lparr>objs := (objs st)(x := v)\<rparr>)
    = (blob_values st)(x := map_option (map_option (contents_at st)) v)"
proof -
  have "contents_at (st\<lparr>objs := (objs st)(x := v)\<rparr>) = contents_at st"
    by (rule ext) (simp add: contents_at_def)
  then show ?thesis by (auto simp: blob_values_def)
qed

text \<open>The primitives.\<close>

lemma malloc_owned:
  assumes "owned st ex" and "length bs < 2 ^ 32" and "malloc_buf bs st = (p, st')"
  shows "owned st' (add_mset p ex)" and "same_view ex st st'" and "contents_at st' p = bs"
    and "bufs st' p = Some \<lparr>m_aRef = 1, m_size = of_nat (length bs), m_bytes = bs\<rparr>"
proof -
  have p: "p = fresh st" and st': "st' = st\<lparr>bufs := (bufs st)(p \<mapsto> \<lparr>m_aRef = 1,
      m_size = of_nat (length bs), m_bytes = bs\<rparr>), fresh := Suc p\<rparr>"
    using assms(3) by (auto simp: malloc_buf_def)
  have own: "owners st' = owners st" by (rule ext) (simp add: st' owners_def)
  have none: "bufs st p = None" using assms(1) by (cases "bufs st p") (auto simp: owned_def p)
  then have zero: "refs st ex p = 0" using assms(1) by (simp add: owned_def)
  have refs: "refs st' (add_mset p ex) q = (if q = p then 1 else refs st ex q)" for q
    using zero by (auto simp: refs_def own)
  have size: "unat (of_nat (length bs) :: u32) = length bs"
    using assms(2) by (simp add: unat_of_nat take_bit_nat_eq_self)
  have "s_emptyStringBlobBuf st \<noteq> Some p" using zero by (auto simp: refs_def owners_def)
  then show "owned st' (add_mset p ex)"
    using assms(1) size none unfolding owned_def refs by (auto simp: st' p GetSize_def less_Suc_eq)
  show "same_view ex st st'" using zero by (auto simp: same_view_def st' contents_at_def)
  show "contents_at st' p = bs" by (simp add: st' contents_at_def)
  show "bufs st' p = Some \<lparr>m_aRef = 1, m_size = of_nat (length bs), m_bytes = bs\<rparr>" by (simp add: st')
qed

lemma set_ref_owned:
  assumes "owned st ex" and "bufs st p = Some b" and "0 < refs st ex' p"
    and "\<And>q. q \<noteq> p \<Longrightarrow> count ex' q = count ex q"
  shows "owned (set_buf p (b\<lparr>m_aRef := int (refs st ex' p)\<rparr>) st) ex'"
    and "same_view ex st (set_buf p (b\<lparr>m_aRef := int (refs st ex' p)\<rparr>) st)"
proof -
  let ?st = "set_buf p (b\<lparr>m_aRef := int (refs st ex' p)\<rparr>) st"
  have own: "owners (set_buf p c st) = owners st" for c
    by (rule ext) (simp add: set_buf_def owners_def)
  have refs: "refs ?st ex' q = (if q = p then refs st ex' p else refs st ex q)" for q
    using assms(4) by (simp add: refs_def own)
  show "owned ?st ex'"
    using assms(1-3) unfolding owned_def refs by (auto simp: set_buf_def GetSize_def)
  show "same_view ex st ?st" using assms(2) by (auto simp: same_view_def set_buf_def contents_at_def)
qed

lemma AddRef_owned:
  assumes "owned st ex" and "0 < refs st ex p"
  obtains st' where "AddRef (Some p) st = Inr st'" "owned st' (add_mset p ex)" "same_view ex st st'"
proof -
  obtain b where b: "bufs st p = Some b" "m_aRef b = int (refs st ex p)"
    using assms by (rule owned_live)
  have "refs st (add_mset p ex) p = refs st ex p + 1" by (simp add: refs_def)
  then have "AddRef (Some p) st = Inr (set_buf p (b\<lparr>m_aRef := int (refs st (add_mset p ex) p)\<rparr>) st)"
    using b by (simp add: AddRef_def deref_def add.commute)
  then show ?thesis
    using that set_ref_owned [OF assms(1) b(1), of "add_mset p ex"] by (simp add: refs_def)
qed

lemma free_owned:
  assumes "owned st (add_mset p ex)" and "refs st ex p = 0"
  shows "owned (free_buf p st) ex" and "same_view ex st (free_buf p st)"
proof -
  have own: "owners (free_buf p st) = owners st" by (rule ext) (simp add: free_buf_def owners_def)
  have refs: "refs (free_buf p st) ex q = (if q = p then 0 else refs st (add_mset p ex) q)" for q
    using assms(2) by (simp add: refs_def own)
  have "p \<notin># ex" "s_emptyStringBlobBuf st \<noteq> Some p"
    using assms(2) by (auto simp: refs_def owners_def not_in_iff)
  then show "owned (free_buf p st) ex"
    using assms(1) unfolding owned_def refs by (auto simp: free_buf_def)
  show "same_view ex st (free_buf p st)"
    using assms(2) by (auto simp: same_view_def free_buf_def contents_at_def)
qed

lemma Release_owned:
  assumes "owned st (ex + ref_at (Some q))"
  obtains st' where "Release q st = Inr st'" "owned st' ex" "same_view ex st st'"
proof (cases q)
  case None
  then show ?thesis using that [of st] assms by (simp add: Release_def same_view_def)
next
  case (Some p)
  then have own: "owned st (add_mset p ex)" using assms by simp
  have pos: "0 < refs st (add_mset p ex) p" by (simp add: refs_def)
  obtain b where b: "bufs st p = Some b" "m_aRef b = int (refs st (add_mset p ex) p)"
    using own pos by (rule owned_live)
  then have m: "m_aRef b - 1 = int (refs st ex p)" by (simp add: refs_def)
  show ?thesis
  proof (cases "refs st ex p = 0")
    case True
    then have "Release q st = Inr (free_buf p st)" using b m by (simp add: Some Release_def deref_def)
    then show ?thesis using that free_owned [OF own True] by blast
  next
    case False
    then have "Release q st = Inr (set_buf p (b\<lparr>m_aRef := int (refs st ex p)\<rparr>) st)"
      using b m by (simp add: Some Release_def deref_def)
    moreover have "owned (set_buf p (b\<lparr>m_aRef := int (refs st ex p)\<rparr>) st) ex"
      "same_view (add_mset p ex) st (set_buf p (b\<lparr>m_aRef := int (refs st ex p)\<rparr>) st)"
      using set_ref_owned [OF own b(1), of ex] False by simp_all
    ultimately show ?thesis using that same_view_mono [of ex "{#p#}"] by simp
  qed
qed


text \<open>Counting a reference does not depend on the objects, so it commutes with storing a pointer.\<close>

lemma deref_objs [simp]: "deref q (st\<lparr>objs := f\<rparr>) = deref q st"
  by (simp add: deref_def split: option.splits)

lemma Release_objs: "Release q (st\<lparr>objs := f\<rparr>) = bind_res (Release q st) (\<lambda>st'. Inr (st'\<lparr>objs := f\<rparr>))"
  by (auto simp: Release_def bind_res_def free_buf_def set_buf_def split: sum.splits)

lemma AddRef_objs: "AddRef q (st\<lparr>objs := f\<rparr>) = bind_res (AddRef q st) (\<lambda>st'. Inr (st'\<lparr>objs := f\<rparr>))"
  by (auto simp: AddRef_def bind_res_def set_buf_def split: sum.splits)

lemma AddRef_Release:
  assumes "AddRef (Some q) st = Inr st1" and "Release p st1 = Inr st2" and "p \<noteq> Some q"
  shows "bind_res (Release p st) (AddRef (Some q)) = Inr st2"
  using assms
  by (auto simp: AddRef_def Release_def deref_def set_buf_def free_buf_def bind_res_def fun_upd_twist
      split: if_splits option.splits)

text \<open>
  The one step behind every operation that changes what an object holds: the operation has the
  new reference in hand, stores it and releases the old one.
\<close>

lemma exchange_ptr:
  assumes "owned st (ref_at v)" and "objs st x = Some old"
  obtains st' where "Release old (st\<lparr>objs := (objs st)(x := v)\<rparr>) = Inr st'" "owned st' {#}"
    "blob_values st' = (blob_values st)(x := map_option (map_option (contents_at st)) v)"
    "objs st' = (objs st)(x := v)" "junk st' = junk st"
proof -
  let ?st = "st\<lparr>objs := (objs st)(x := v)\<rparr>"
  have "owned ?st ({#} + ref_at (Some old))"
    using upd_owned [of st "{#}" v x] assms by simp
  then obtain st' where "Release old ?st = Inr st'" "owned st' {#}" "same_view {#} ?st st'"
    by (rule Release_owned)
  then show ?thesis
    using that [of st'] same_view_values [of ?st "{#}" st'] \<open>owned ?st _\<close> upd_values [of st x v]
    by (simp add: same_view_def owned_def)
qed


lemma owned_fin: "owned st ex \<Longrightarrow> finite (dom (objs st))"
  by (simp add: owned_def)

text \<open>What an object holds, seen from its value.\<close>

lemma value_none: "blob_values st x = None \<longleftrightarrow> objs st x = None"
  by (simp add: blob_values_def)

lemma value_null: "blob_values st x = Some None \<longleftrightarrow> objs st x = Some None"
  by (auto simp: blob_values_def)

lemma value_buf:
  assumes "owned st ex" and "blob_values st x = Some (Some bs)"
  obtains p b where "objs st x = Some (Some p)" "bufs st p = Some b" "m_bytes b = bs"
    "GetSize b = length bs" "length bs < 2 ^ 32" "m_aRef b = int (refs st ex p)" "0 < refs st ex p"
    "contents_at st p = bs"
proof -
  obtain p where p: "objs st x = Some (Some p)" "contents_at st p = bs"
    using assms(2) by (auto simp: blob_values_def)
  obtain b where b: "bufs st p = Some b" "m_aRef b = int (refs st ex p)" "length (m_bytes b) = GetSize b"
    using assms(1) p(1) by (rule owned_obj)
  have "GetSize b < 2 ^ 32" using unsigned_less [of "m_size b", where 'a = nat] by (simp add: GetSize_def)
  then show ?thesis
    using that [OF p(1) b(1)] b p(2) owner_counts [OF owned_fin [OF assms(1)] p(1)]
    by (simp add: contents_at_def)
qed

text \<open>An object that has its buffer for itself.\<close>

definition sole :: "nat \<Rightarrow> blob_state \<Rightarrow> bool" where
  "sole x st \<longleftrightarrow> (\<exists>p. objs st x = Some (Some p) \<and> refs st {#} p = 1)"

text \<open>A new buffer takes the place of the one an object has.\<close>

lemma install:
  assumes own: "owned st {#}" and len: "length bs < 2 ^ 32" and x: "objs st x = Some old"
    and m: "malloc_buf bs st = (d, st1)"
  obtains st' where "Release old (set_pData x (Some d) st1) = Inr st'" "owned st' {#}"
    "blob_values st' = (blob_values st)(x \<mapsto> Some bs)" "objs st' = (objs st)(x \<mapsto> Some d)"
    "junk st' = junk st" "sole x st'"
proof -
  note mo = malloc_owned [OF own len m]
  have x1: "objs st1 x = Some old" using mo(2) x by (simp add: same_view_def)
  have own1: "owned st1 (ref_at (Some (Some d)))" using mo(1) by simp
  obtain st' where st': "Release old (set_pData x (Some d) st1) = Inr st'" "owned st' {#}"
    "blob_values st' = (blob_values st1)(x \<mapsto> Some (contents_at st1 d))"
    "objs st' = (objs st1)(x \<mapsto> Some d)" "junk st' = junk st1"
    using exchange_ptr [OF own1 x1] unfolding set_pData_def by force
  have "bufs st d = None"
    using own m by (cases "bufs st d") (auto simp: owned_def malloc_buf_def)
  then have "refs st {#} d = 0" using own by (simp add: owned_def)
  then have z: "owners st d = 0" by (simp add: refs_def)
  then have "old \<noteq> Some d" using owner_counts [OF owned_fin [OF own], of x d "{#}"] x by (auto simp: refs_def)
  moreover have "owners st1 = owners st" by (rule same_view_owners [OF mo(2)])
  ultimately have "owners (st1\<lparr>objs := (objs st1)(x \<mapsto> Some d)\<rparr>) d = 1"
    using owners_upd [OF owned_fin [OF mo(1)], of x "Some (Some d)" d] z x1 by (simp add: count_ref_at)
  moreover have "owners st' d = owners (st1\<lparr>objs := (objs st1)(x \<mapsto> Some d)\<rparr>) d"
    using st'(1,4) unfolding set_pData_def
    by (auto simp: owners_def Release_def bind_res_def free_buf_def set_buf_def split: if_splits sum.splits)
  ultimately have "sole x st'" using st'(4) by (auto simp: sole_def refs_def)
  then show ?thesis
    using that [OF st'(1,2)] st' mo(2,3) same_view_values [OF owned_fin [OF own] mo(2)]
    by (simp add: same_view_def)
qed


text \<open>\<open>Realloc\<close> of a buffer without other owners, and a new buffer otherwise, are both an installation.\<close>

lemma free_is_Release:
  assumes "bufs st p = Some b" and "m_aRef b = 1"
  shows "Release (Some p) st = Inr (free_buf p st)"
  using assms by (simp add: Release_def deref_def)

lemma malloc_free:
  assumes "malloc_buf bs st = (d, st1)" and "p \<noteq> fresh st"
  shows "malloc_buf bs (free_buf p st) = (d, free_buf p st1)"
  using assms by (auto simp: malloc_buf_def free_buf_def fun_upd_twist)

lemma new_buf_small: "length bs < 2 ^ 32 \<Longrightarrow> new_buf bs st = Inr (malloc_buf bs st)"
  by (simp add: new_buf_def)

definition others :: "nat \<Rightarrow> blob_state \<Rightarrow> blob_state \<Rightarrow> bool" where
  "others x st st' \<longleftrightarrow> (\<forall>y. y \<noteq> x \<longrightarrow> objs st' y = objs st y) \<and> junk st' = junk st"

lemma resize_buf:
  assumes own: "owned st {#}" and val: "blob_values st x = Some (Some bs)" and n: "n < 2 ^ 32"
  obtains st' where "Blob_resize x n st = Inr st'" "owned st' {#}"
    "blob_values st' = (blob_values st)(x \<mapsto> Some (resized bs n))" "others x st st'" "sole x st'"
proof -
  obtain p b where x: "objs st x = Some (Some p)" "bufs st p = Some b" "m_bytes b = bs"
    "GetSize b = length bs" "m_aRef b = int (refs st {#} p)" "0 < refs st {#} p"
    using value_buf [OF own val] by metis
  have bs: "take (min n (length bs)) bs @ replicate (n - min n (length bs)) 0 = resized bs n"
    by (simp add: resized_def min_def)
  have len: "length (resized bs n) < 2 ^ 32" using n by (simp add: resized_def min_def)
  obtain d st1 where m: "malloc_buf (resized bs n) st = (d, st1)" by fastforce
  obtain st' where st': "Release (Some p) (set_pData x (Some d) st1) = Inr st'" "owned st' {#}"
    "blob_values st' = (blob_values st)(x \<mapsto> Some (resized bs n))" "objs st' = (objs st)(x \<mapsto> Some d)"
    "junk st' = junk st" "sole x st'"
    by (rule install [OF own len x(1) m])
  have pf: "p < fresh st" using own x(2) by (simp add: owned_def)
  have st1: "bufs st1 p = Some b" "objs st1 = objs st" using m x(2) pf by (auto simp: malloc_buf_def)
  have "Blob_resize x n st = Inr st'"
  proof (cases "m_aRef b = 1")
    case True
    have "Release (Some p) (set_pData x (Some d) st1) = Inr (free_buf p (set_pData x (Some d) st1))"
      using True st1 by (intro free_is_Release) (simp_all add: set_pData_def)
    then have st'_eq: "st' = set_pData x (Some d) (free_buf p st1)"
      using st'(1) by (auto simp: set_pData_def free_buf_def)
    show ?thesis
      using x True malloc_free [OF m, of p] pf
      unfolding Blob_resize_def SetSize_def
      by (simp add: m_pData_def deref_def bs Let_def st'_eq)
  next
    case False
    have "bind_res (Release (Some p) st1) (\<lambda>st. Inr (set_pData x (Some d) st)) = Inr st'"
      using st'(1) unfolding set_pData_def Release_objs by (auto simp: bind_res_def Release_def deref_def
        free_buf_def set_buf_def st1 split: if_splits)
    then show ?thesis
      using x False m len unfolding Blob_resize_def SetSize_def
      by (auto simp: m_pData_def deref_def bs Let_def new_buf_small bind_res_def split: sum.splits)
  qed
  then show ?thesis using that st' by (simp add: others_def)
qed

lemma Cow_buf:
  assumes own: "owned st {#}" and val: "blob_values st x = Some (Some bs)"
  obtains st' where "Cow x st = Inr st'" "owned st' {#}" "blob_values st' = blob_values st"
    "others x st st'" "sole x st'"
proof -
  obtain p b where x: "objs st x = Some (Some p)" "bufs st p = Some b" "m_bytes b = bs"
    "GetSize b = length bs" "m_aRef b = int (refs st {#} p)" "0 < refs st {#} p" "length bs < 2 ^ 32"
    using value_buf [OF own val] by metis
  show ?thesis
  proof (cases "refs st {#} p = 1")
    case True
    then have "Cow x st = Inr st" using x by (simp add: Cow_def m_pData_def deref_def)
    moreover have "sole x st" using x True by (auto simp: sole_def)
    ultimately show ?thesis using that own by (simp add: others_def)
  next
    case False
    obtain d st1 where m: "malloc_buf bs st = (d, st1)" by fastforce
    obtain st' where st': "Release (Some p) (set_pData x (Some d) st1) = Inr st'" "owned st' {#}"
      "blob_values st' = (blob_values st)(x \<mapsto> Some bs)" "objs st' = (objs st)(x \<mapsto> Some d)"
      "junk st' = junk st" "sole x st'"
      by (rule install [OF own x(7) x(1) m])
    have "Cow x st = Inr st'"
      using x False m st'(1) by (simp add: Cow_def m_pData_def deref_def Clone_def new_buf_small)
    moreover have "blob_values st' = blob_values st" using st'(3) val by auto
    ultimately show ?thesis using that st' by (simp add: others_def)
  qed
qed

lemma poke_sole:
  assumes own: "owned st {#}" and val: "blob_values st x = Some (Some bs)" and sole: "sole x st"
    and len: "off + length cs \<le> length bs"
  obtains st' where "poke x off cs st = Inr st'" "owned st' {#}"
    "blob_values st' = (blob_values st)(x \<mapsto> Some (take off bs @ cs @ drop (off + length cs) bs))"
    "others x st st'" "sole x st'"
proof -
  obtain p b where x: "objs st x = Some (Some p)" "bufs st p = Some b" "m_bytes b = bs"
    "GetSize b = length bs"
    using value_buf [OF own val] by metis
  define new where "new = b\<lparr>m_bytes := take off bs @ cs @ drop (off + length cs) bs\<rparr>"
  define st' where "st' = set_buf p new st"
  have own': "owners st' = owners st" by (rule ext) (simp add: st'_def set_buf_def owners_def)
  have one: "refs st {#} p = 1" using sole x(1) by (auto simp: sole_def)
  have split: "refs st {#} p = card {y. y \<noteq> x \<and> objs st y = Some (Some p)} + 1
      + of_bool (s_emptyStringBlobBuf st = Some p)"
    using owners_split [OF owned_fin [OF own], of p x] x(1) by (simp add: refs_def)
  have "finite {y. y \<noteq> x \<and> objs st y = Some (Some p)}"
    by (rule finite_subset [OF _ owned_fin [OF own]]) auto
  then have alone: "\<And>y. y \<noteq> x \<Longrightarrow> objs st y \<noteq> Some (Some p)" "s_emptyStringBlobBuf st \<noteq> Some p"
    using one split by auto
  have "poke x off cs st = Inr st'"
    using x len by (simp add: poke_def m_pData_def deref_def st'_def new_def)
  moreover have "owned st' {#}"
    using own x alone(2) len unfolding owned_def refs_def own'
    by (auto simp: st'_def set_buf_def new_def GetSize_def)
  moreover have "blob_values st' = (blob_values st)(x \<mapsto> Some (take off bs @ cs @ drop (off + length cs) bs))"
  proof
    fix y
    show "blob_values st' y = ((blob_values st)(x \<mapsto> Some (take off bs @ cs @ drop (off + length cs) bs))) y"
      using x(1) alone(1) [of y]
      by (cases "objs st y"; cases "the (objs st y)")
        (auto simp: blob_values_def st'_def set_buf_def contents_at_def new_def)
  qed
  moreover have "others x st st'" "sole x st'"
    using sole by (simp_all add: others_def sole_def refs_def own') (simp_all add: st'_def set_buf_def)
  ultimately show ?thesis using that by blast
qed


section \<open>The operations keep ownership and act on values\<close>

definition matches :: "blob_state res \<Rightarrow> blob_vars res \<Rightarrow> (nat \<Rightarrow> byte) \<Rightarrow> bool" where
  "matches r s jk \<longleftrightarrow> (case r of Inl e \<Rightarrow> s = Inl e
     | Inr st' \<Rightarrow> s = Inr (blob_values st') \<and> owned st' {#} \<and> junk st' = jk)"

lemma matches_Inl [simp]: "matches (Inl e) s jk \<longleftrightarrow> s = Inl e"
  by (simp add: matches_def)

lemma matches_Inr: "matches (Inr st') s jk \<longleftrightarrow> s = Inr (blob_values st') \<and> owned st' {#} \<and> junk st' = jk"
  by (simp add: matches_def)

lemma birth:
  assumes "owned st (ref_at (Some q))" and "objs st x = None"
  shows "owned (set_pData x q st) {#}"
    and "blob_values (set_pData x q st) = (blob_values st)(x \<mapsto> map_option (contents_at st) q)"
    and "junk (set_pData x q st) = junk st"
  using upd_owned [of st "{#}" "Some q" x] upd_values [of st x "Some q"] assms
  by (simp_all add: set_pData_def)

lemma contents_matches:
  assumes "owned st {#}" and "objs st x = None" and "length bs < 2 ^ 32"
  shows "matches (Blob_contents x bs st) (Inr ((blob_values st)(x \<mapsto> Some bs))) (junk st)"
proof -
  obtain d st1 where m: "malloc_buf bs st = (d, st1)" by fastforce
  note mo = malloc_owned [OF assms(1,3) m]
  have "objs st1 x = None" "junk st1 = junk st" using mo(2) assms(2) by (simp_all add: same_view_def)
  then show ?thesis
    using birth [of st1 "Some d" x] mo same_view_values [OF owned_fin [OF assms(1)] mo(2)]
    by (simp add: Blob_contents_def new_buf_small [OF assms(3)] m matches_Inr)
qed

lemma RefEmptyBlobBuf_owned:
  assumes "owned st {#}"
  obtains p st' where "RefEmptyBlobBuf st = Inr (p, st')" "owned st' (add_mset p {#})"
    "blob_values st' = blob_values st" "objs st' = objs st" "junk st' = junk st" "contents_at st' p = []"
proof -
  have add: "\<exists>st''. AddRef (Some p) st' = Inr st'' \<and> owned st'' (add_mset p {#})
      \<and> blob_values st'' = blob_values st' \<and> objs st'' = objs st' \<and> junk st'' = junk st'
      \<and> contents_at st'' p = []"
    if st': "owned st' {#}" "s_emptyStringBlobBuf st' = Some p" for st' p
  proof -
    have pos: "0 < refs st' {#} p" by (simp add: refs_def owners_def st'(2))
    obtain st'' where a: "AddRef (Some p) st' = Inr st''" "owned st'' (add_mset p {#})"
      "same_view {#} st' st''"
      using st'(1) pos by (rule AddRef_owned)
    have "contents_at st' p = []"
      using st' by (auto simp: contents_at_def owned_def split: option.split)
    then show ?thesis
      using a pos same_view_values [OF owned_fin [OF st'(1)] a(3)] by (auto simp: same_view_def)
  qed
  show ?thesis
  proof (cases "s_emptyStringBlobBuf st")
    case (Some p)
    then show ?thesis using add [OF assms Some] that by (auto simp: RefEmptyBlobBuf_def)
  next
    case None
    obtain p st1 where m: "malloc_buf [] st = (p, st1)" by fastforce
    have "length ([] :: byte list) < 2 ^ 32" by simp
    note mo = malloc_owned [OF assms this m]
    define st2 where "st2 = st1\<lparr>s_emptyStringBlobBuf := Some p\<rparr>"
    have e1: "s_emptyStringBlobBuf st1 = None" using mo(2) None by (simp add: same_view_def)
    have refs: "refs st2 {#} = refs st1 (add_mset p {#})"
      by (rule ext) (auto simp: refs_def owners_def st2_def e1)
    have "owned st2 {#}"
      using mo(1,4) unfolding owned_def refs by (auto simp: st2_def)
    moreover have "blob_values st2 = blob_values st1"
      by (rule ext) (simp add: blob_values_def st2_def contents_at_def cong: map_option_cong)
    ultimately show ?thesis
      using add [of st2 p] that mo(2) same_view_values [OF owned_fin [OF assms] mo(2)]
      by (force simp: RefEmptyBlobBuf_def None m st2_def same_view_def)
  qed
qed

lemma New_matches:
  assumes "owned st {#}" and "objs st x = None"
  shows "matches (Blob_new x st) (Inr ((blob_values st)(x \<mapsto> Some []))) (junk st)"
proof -
  obtain p st' where st': "RefEmptyBlobBuf st = Inr (p, st')" "owned st' (add_mset p {#})"
    "blob_values st' = blob_values st" "objs st' = objs st" "junk st' = junk st" "contents_at st' p = []"
    using assms(1) by (rule RefEmptyBlobBuf_owned)
  then show ?thesis
    using birth [of st' "Some p" x] assms(2) by (simp add: Blob_new_def matches_Inr)
qed

text \<open>Giving a new or old object a share in the buffer of another.\<close>

lemma share:
  assumes "owned st {#}" and "objs st y = Some q"
  obtains st' where "(if q = None then Inr st else AddRef q st) = Inr st'" "owned st' (ref_at (Some q))"
    "same_view {#} st st'" "blob_values st' = blob_values st"
    "map_option (contents_at st') q = the (blob_values st y)"
proof (cases q)
  case None
  then show ?thesis using that [of st] assms by (simp add: same_view_def blob_values_def)
next
  case (Some p)
  have pos: "0 < refs st {#} p" using owner_counts [OF owned_fin [OF assms(1)]] assms(2) Some by simp
  obtain st' where a: "AddRef (Some p) st = Inr st'" "owned st' (add_mset p {#})" "same_view {#} st st'"
    using assms(1) pos by (rule AddRef_owned)
  have "contents_at st' p = contents_at st p" using a(3) pos by (simp add: same_view_def)
  then show ?thesis
    using that [of st'] a same_view_values [OF owned_fin [OF assms(1)] a(3)] assms(2)
    by (simp add: Some blob_values_def)
qed

lemma Copy_matches:
  assumes "owned st {#}" and "objs st x = None" and "objs st y \<noteq> None"
  shows "matches (Blob_copy x y st) (Inr ((blob_values st)(x \<mapsto> the (blob_values st y)))) (junk st)"
proof -
  obtain q where q: "objs st y = Some q" using assms(3) by blast
  obtain st' where st': "(if q = None then Inr st else AddRef q st) = Inr st'" "owned st' (ref_at (Some q))"
    "same_view {#} st st'" "blob_values st' = blob_values st"
    "map_option (contents_at st') q = the (blob_values st y)"
    using assms(1) q by (rule share)
  then show ?thesis
    using birth [of st' q x] assms(2)
    by (simp add: Blob_copy_def m_pData_def q matches_Inr same_view_def)
qed

lemma Assign_matches:
  assumes "owned st {#}" and "objs st x \<noteq> None" and "objs st y \<noteq> None"
  shows "matches (Blob_assign x y st) (Inr ((blob_values st)(x \<mapsto> the (blob_values st y)))) (junk st)"
proof -
  obtain p q where x: "objs st x = Some p" and y: "objs st y = Some q" using assms(2,3) by blast
  show ?thesis
  proof (cases "p = q")
    case True
    then have "(blob_values st)(x \<mapsto> the (blob_values st y)) = blob_values st"
      using x y by (auto simp: blob_values_def)
    then show ?thesis using x y True assms(1) by (simp add: Blob_assign_def m_pData_def matches_Inr)
  next
    case False
    obtain st1 where st1: "(if q = None then Inr st else AddRef q st) = Inr st1" "owned st1 (ref_at (Some q))"
      "same_view {#} st st1" "blob_values st1 = blob_values st"
      "map_option (contents_at st1) q = the (blob_values st y)"
      using assms(1) y by (rule share)
    have x1: "objs st1 x = Some p" "junk st1 = junk st" "objs st1 = objs st"
      using st1(3) x by (simp_all add: same_view_def)
    obtain st2 where st2: "Release p (st1\<lparr>objs := (objs st1)(x \<mapsto> q)\<rparr>) = Inr st2" "owned st2 {#}"
      "blob_values st2 = (blob_values st1)(x := map_option (map_option (contents_at st1)) (Some q))"
      "objs st2 = (objs st1)(x \<mapsto> q)" "junk st2 = junk st1"
      using st1(2) x1(1) by (rule exchange_ptr)
    obtain st3 where st3: "Release p st1 = Inr st3" "st2 = st3\<lparr>objs := (objs st1)(x \<mapsto> q)\<rparr>"
      using st2(1) unfolding Release_objs by (auto simp: bind_res_def split: sum.splits)
    have "Blob_assign x y st = Inr st2"
    proof (cases q)
      case None
      have "objs st3 = objs st1"
        using st3(1) by (auto simp: Release_def bind_res_def free_buf_def set_buf_def split: if_splits sum.splits)
      then show ?thesis
        using None st1(1) st3 x y False
        by (auto simp: Blob_assign_def m_pData_def set_pData_def Let_def)
    next
      case (Some r)
      have "bind_res (Release p st) (AddRef (Some r)) = Inr st3"
        using AddRef_Release [of r st st1 p st3] st1(1) st3(1) False Some by simp
      moreover have "objs st' = objs st" if "Release p st = Inr st'" for st'
        using that by (auto simp: Release_def bind_res_def free_buf_def set_buf_def split: if_splits sum.splits)
      ultimately show ?thesis
        using Some st3(2) x y False x1(3)
        by (auto simp: Blob_assign_def m_pData_def set_pData_def Let_def AddRef_objs bind_res_def
            split: sum.splits)
    qed
    then show ?thesis using st2 st1(4,5) x1 by (simp add: matches_Inr)
  qed
qed


lemma AssignNull_matches:
  assumes "owned st {#}" and "objs st x \<noteq> None" and "objs st y \<noteq> None"
  shows "matches (AssignIfNull x y st)
    (Inr (if blob_values st x = Some None then (blob_values st)(x \<mapsto> the (blob_values st y))
          else blob_values st)) (junk st)"
proof -
  obtain p q where x: "objs st x = Some p" and y: "objs st y = Some q" using assms(2,3) by blast
  show ?thesis
  proof (cases p)
    case (Some r)
    then have "blob_values st x \<noteq> Some None" by (simp add: value_null x)
    then show ?thesis using x y Some assms(1) by (simp add: AssignIfNull_def m_pData_def matches_Inr)
  next
    case None
    obtain st1 where st1: "(if q = None then Inr st else AddRef q st) = Inr st1" "owned st1 (ref_at (Some q))"
      "same_view {#} st st1" "blob_values st1 = blob_values st"
      "map_option (contents_at st1) q = the (blob_values st y)"
      using assms(1) y by (rule share)
    have x1: "objs st1 x = Some None" "junk st1 = junk st" "objs st1 = objs st"
      using st1(3) x None by (simp_all add: same_view_def)
    obtain st2 where st2: "Release None (st1\<lparr>objs := (objs st1)(x \<mapsto> q)\<rparr>) = Inr st2" "owned st2 {#}"
      "blob_values st2 = (blob_values st1)(x := map_option (map_option (contents_at st1)) (Some q))"
      "objs st2 = (objs st1)(x \<mapsto> q)" "junk st2 = junk st1"
      using st1(2) x1(1) by (rule exchange_ptr)
    have "st2 = st1\<lparr>objs := (objs st)(x \<mapsto> q)\<rparr>" using st2(1) x1(3) by (simp add: Release_def)
    then have "AssignIfNull x y st = Inr st2"
      using st1(1) x y None
      by (cases q) (simp_all add: AssignIfNull_def m_pData_def set_pData_def Let_def AddRef_objs)
    moreover have "blob_values st x = Some None" by (simp add: value_null x None)
    ultimately show ?thesis using st2 st1(4,5) x1 by (simp add: matches_Inr)
  qed
qed

text \<open>Moves and swaps only exchange pointers.\<close>

lemma upd_pair:
  assumes "owned st {#}" and "ref_at v + ref_at w = ref_at (objs st x) + ref_at (((objs st)(x := v)) y)"
  shows "owned (st\<lparr>objs := (objs st)(x := v, y := w)\<rparr>) {#}"
proof -
  define st1 where "st1 = st\<lparr>objs := (objs st)(x := v)\<rparr>"
  have fin: "finite (dom (objs st))" "finite (dom (objs st1))"
    using assms(1) by (simp_all add: owned_def st1_def)
  have a: "owners st1 p + count (ref_at (objs st x)) p = owners st p + count (ref_at v) p" for p
    using owners_upd [OF fin(1), of x v p] by (simp add: st1_def)
  have b: "owners (st1\<lparr>objs := (objs st1)(y := w)\<rparr>) p + count (ref_at (objs st1 y)) p
      = owners st1 p + count (ref_at w) p" for p
    using owners_upd [OF fin(2), of y w p] .
  have c: "count (ref_at v) p + count (ref_at w) p
      = count (ref_at (objs st x)) p + count (ref_at (objs st1 y)) p" for p
    using arg_cong [OF assms(2), of "\<lambda>m. count m p"] by (simp add: st1_def)
  have "owners (st1\<lparr>objs := (objs st1)(y := w)\<rparr>) p = owners st p" for p
    using a [of p] b [of p] c [of p] by linarith
  then have "refs (st1\<lparr>objs := (objs st1)(y := w)\<rparr>) {#} = refs st {#}"
    by (intro ext) (simp add: refs_def)
  then have "owned (st1\<lparr>objs := (objs st1)(y := w)\<rparr>) {#}"
    by (intro owned_cong [OF assms(1)]) (use fin in \<open>auto simp: st1_def\<close>)
  then show ?thesis by (simp add: st1_def)
qed

lemma upd_pair_values: "blob_values (st\<lparr>objs := (objs st)(x := v, y := w)\<rparr>) = (blob_values st)
    (x := map_option (map_option (contents_at st)) v, y := map_option (map_option (contents_at st)) w)"
proof -
  have "contents_at (st\<lparr>objs := (objs st)(x := v, y := w)\<rparr>) = contents_at st"
    by (rule ext) (simp add: contents_at_def)
  then show ?thesis by (auto simp: blob_values_def)
qed

lemma value_of: "objs st y = Some q \<Longrightarrow> the (blob_values st y) = map_option (contents_at st) q"
  by (simp add: blob_values_def)

lemma Move_matches:
  assumes "owned st {#}" and "objs st x = None" and "objs st y \<noteq> None"
  shows "matches (Blob_move x y st)
    (Inr ((blob_values st)(y \<mapsto> None, x \<mapsto> the (blob_values st y)))) (junk st)"
proof -
  obtain q where y: "objs st y = Some q" using assms(3) by blast
  have "owned (st\<lparr>objs := (objs st)(y \<mapsto> None, x \<mapsto> q)\<rparr>) {#}"
    using assms(1) by (rule upd_pair) (use assms(2) y in auto)
  then show ?thesis
    using y by (simp add: Blob_move_def m_pData_def set_pData_def matches_Inr upd_pair_values value_of)
qed

lemma Swap_matches:
  assumes "owned st {#}" and "objs st x \<noteq> None" and "objs st y \<noteq> None"
  shows "matches (Blob_swap x y st)
    (Inr ((blob_values st)(x \<mapsto> the (blob_values st y), y \<mapsto> the (blob_values st x)))) (junk st)"
proof -
  obtain p q where x: "objs st x = Some p" and y: "objs st y = Some q" using assms(2,3) by blast
  have "owned (st\<lparr>objs := (objs st)(x \<mapsto> q, y \<mapsto> p)\<rparr>) {#}"
    using assms(1) by (rule upd_pair) (use x y in \<open>auto simp: add.commute\<close>)
  then show ?thesis
    using x y by (simp add: Blob_swap_def m_pData_def set_pData_def matches_Inr upd_pair_values value_of)
qed

lemma MoveAssign_matches:
  assumes "owned st {#}" and "objs st x \<noteq> None" and "objs st y \<noteq> None"
  shows "matches (Blob_move_assign x y st)
    (Inr ((blob_values st)(y \<mapsto> None, x \<mapsto> the (blob_values st y)))) (junk st)"
proof -
  obtain q where y: "objs st y = Some q" using assms(3) by blast
  define st1 where "st1 = set_pData y None st"
  have own1: "owned st1 (ref_at (Some q))"
    using upd_owned [of st "{#}" "Some None" y] assms(1) y by (simp add: st1_def set_pData_def)
  have fin: "objs st1 x \<noteq> None" using assms(2) by (simp add: st1_def set_pData_def)
  then obtain old where old: "objs st1 x = Some old" by blast
  obtain st2 where st2: "Release old (st1\<lparr>objs := (objs st1)(x \<mapsto> q)\<rparr>) = Inr st2" "owned st2 {#}"
    "blob_values st2 = (blob_values st1)(x := map_option (map_option (contents_at st1)) (Some q))"
    "objs st2 = (objs st1)(x \<mapsto> q)" "junk st2 = junk st1"
    using own1 old by (rule exchange_ptr)
  have c: "contents_at st1 = contents_at st"
    by (rule ext) (simp add: st1_def set_pData_def contents_at_def)
  have v: "blob_values st1 = (blob_values st)(y \<mapsto> None)"
    by (simp add: st1_def set_pData_def upd_values)
  have "Blob_move_assign x y st = Inr st2"
    using y old st2(1) by (simp add: Blob_move_assign_def m_pData_def set_pData_def Let_def st1_def)
  then show ?thesis
    using st2 y by (simp add: matches_Inr c v value_of) (simp add: st1_def set_pData_def)
qed

lemma Destroy_matches:
  assumes "owned st {#}" and "objs st x \<noteq> None"
  shows "matches (Blob_dtor x st) (Inr ((blob_values st)(x := None))) (junk st)"
proof -
  obtain q where x: "objs st x = Some q" using assms(2) by blast
  have own: "owned st (ref_at None)" using assms(1) by simp
  obtain st' where st': "Release q (st\<lparr>objs := (objs st)(x := None)\<rparr>) = Inr st'" "owned st' {#}"
    "blob_values st' = (blob_values st)(x := map_option (map_option (contents_at st)) None)"
    "objs st' = (objs st)(x := None)" "junk st' = junk st"
    using own x by (rule exchange_ptr)
  have o: "objs st1 = objs st" if "Release q st = Inr st1" for st1
    using that by (auto simp: Release_def bind_res_def free_buf_def set_buf_def split: if_splits sum.splits)
  have "Blob_dtor x st = Inr st'"
    using st'(1) x o unfolding Release_objs
    by (auto simp: Blob_dtor_def m_pData_def bind_res_def split: sum.splits)
  then show ?thesis using st' by (simp add: matches_Inr)
qed


text \<open>What a source's span reads, and that writing another object does not change it.\<close>

definition elsewhere :: "nat \<Rightarrow> span \<Rightarrow> blob_state \<Rightarrow> bool" where
  "elsewhere x sp st \<longleftrightarrow> (case sp of Outside bs \<Rightarrow> True
     | Within p off n \<Rightarrow> \<exists>y. y \<noteq> x \<and> objs st y = Some (Some p))"

lemma read_within:
  assumes "owned st {#}" and "objs st y = Some (Some p)"
  shows "read_span (Within p off n) st = (if off + n \<le> length (contents_at st p)
    then Inr (take n (drop off (contents_at st p))) else Inl OutOfBounds)"
proof -
  obtain b where "bufs st p = Some b" using assms by (rule owned_obj)
  then show ?thesis by (simp add: read_span_def deref_def contents_at_def)
qed

lemma read_elsewhere:
  assumes own: "owned st {#}" "owned st' {#}" and oth: "others x st st'"
    and vals: "\<And>y. y \<noteq> x \<Longrightarrow> blob_values st' y = blob_values st y" and sp: "elsewhere x sp st"
  shows "read_span sp st' = read_span sp st" and "elsewhere x sp st'"
proof -
  have "read_span sp st' = read_span sp st \<and> elsewhere x sp st'"
  proof (cases sp)
    case (Outside bs)
    then show ?thesis by (simp add: read_span_def elsewhere_def)
  next
    case (Within p off n)
    then obtain y where y: "y \<noteq> x" "objs st y = Some (Some p)" using sp by (auto simp: elsewhere_def)
    then have y': "objs st' y = Some (Some p)" using oth by (simp add: others_def)
    have "contents_at st' p = contents_at st p" using vals [OF y(1)] y(2) y' by (simp add: blob_values_def)
    then show ?thesis
      using read_within [OF own(1) y(2)] read_within [OF own(2) y'] y y' Within by (auto simp: elsewhere_def)
  qed
  then show "read_span sp st' = read_span sp st" and "elsewhere x sp st'" by simp_all
qed

lemma source_spanE:
  assumes own: "owned st {#}" and ok: "source_ok s (blob_values st) lim"
  obtains sp bs where "source_span s st = Inr sp" "read_span sp st = Inr bs"
    "source_val s (blob_values st) = Inr bs" "span_size sp = length bs" "length bs < lim"
    "source_len s (blob_values st) = length bs"
    "\<not> reads_from s x \<longrightarrow> elsewhere x sp st"
    "reads_from s x \<and> \<not> reads_inside s x \<and> blob_values st x \<noteq> Some None \<longrightarrow>
       (\<exists>p n. objs st x = Some (Some p) \<and> sp = Within p 0 n)"
proof -
  have whole: "\<exists>p b. objs st y = Some (Some p) \<and> deref (Some p) st = Inr (p, b) \<and> GetSize b = length ds
      \<and> contents_at st p = ds"
    if "blob_values st y = Some (Some ds)" for y ds
    using value_buf [OF own that] by (metis (no_types, lifting) deref_def option.simps(5))
  show ?thesis
  proof (cases s)
    case (Bytes bs)
    then show ?thesis
      using that [of "Outside bs" bs] ok
      by (simp add: source_span_def read_span_def span_size_def elsewhere_def source_len_def)
  next
    case (Whole y)
    then obtain w where w: "blob_values st y = Some w" using ok by auto
    show ?thesis
    proof (cases w)
      case None
      then have "objs st y = Some None" using w by (simp add: value_null)
      moreover have "\<not> (y = x \<and> blob_values st x \<noteq> Some None)" using w None by auto
      ultimately show ?thesis
        using that [of "Outside []" "[]"] ok Whole w None
        by (auto simp: source_span_def Blob_Span_def m_pData_def read_span_def span_size_def elsewhere_def
            source_len_def)
    next
      case (Some ds)
      then obtain p b where p: "objs st y = Some (Some p)" "deref (Some p) st = Inr (p, b)"
        "GetSize b = length ds" "contents_at st p = ds"
        using whole [of y ds] w by blast
      show ?thesis
        using that [of "Within p 0 (length ds)" ds] ok Whole w Some p read_within [OF own p(1), of 0]
        by (auto simp: source_span_def Blob_Span_def m_pData_def span_size_def elsewhere_def source_len_def)
    qed
  next
    case (Part y off n)
    then obtain ds where w: "blob_values st y = Some (Some ds)" "off + n \<le> length ds"
      using ok by (auto split: option.splits sum.splits if_splits)
    then obtain p b where p: "objs st y = Some (Some p)" "deref (Some p) st = Inr (p, b)"
      "GetSize b = length ds" "contents_at st p = ds"
      using whole [of y ds] by blast
    show ?thesis
      using that [of "Within p off n" "take n (drop off ds)"] ok Part w p read_within [OF own p(1), of off]
      by (auto simp: source_span_def m_pData_def span_size_def elsewhere_def source_len_def)
  qed
qed

lemma FromSpan_matches:
  assumes own: "owned st {#}" and x: "objs st x = None" and ok: "source_ok s (blob_values st) (2 ^ 32)"
  shows "matches (bind_res (source_span s st) (\<lambda>sp. Blob_span x sp st))
    (bind_res (source_val s (blob_values st)) (\<lambda>bs. Inr ((blob_values st)(x \<mapsto> Some bs)))) (junk st)"
proof -
  obtain sp bs where s: "source_span s st = Inr sp" "read_span sp st = Inr bs"
    "source_val s (blob_values st) = Inr bs" "length bs < 2 ^ 32"
    by (rule source_spanE [OF own ok, of x])
  then show ?thesis using contents_matches [OF own x s(4)] by (simp add: Blob_span_def)
qed

lemma AssignSpan_matches:
  assumes own: "owned st {#}" and x: "objs st x \<noteq> None" and ok: "source_ok s (blob_values st) (2 ^ 32)"
  shows "matches (bind_res (source_span s st) (\<lambda>sp. Blob_assign_span x sp st))
    (bind_res (source_val s (blob_values st)) (\<lambda>bs. Inr ((blob_values st)(x \<mapsto> Some bs)))) (junk st)"
proof -
  obtain sp bs where s: "source_span s st = Inr sp" "read_span sp st = Inr bs"
    "source_val s (blob_values st) = Inr bs" "length bs < 2 ^ 32"
    by (rule source_spanE [OF own ok, of x])
  obtain old where old: "objs st x = Some old" using x by blast
  obtain d st1 where m: "malloc_buf bs st = (d, st1)" by fastforce
  obtain st' where st': "Release old (set_pData x (Some d) st1) = Inr st'" "owned st' {#}"
    "blob_values st' = (blob_values st)(x \<mapsto> Some bs)" "objs st' = (objs st)(x \<mapsto> Some d)"
    "junk st' = junk st"
    by (rule install [OF own s(4) old m])
  have "objs st1 x = Some old" using m old by (auto simp: malloc_buf_def)
  then show ?thesis
    using s st' m new_buf_small [OF s(4)]
    by (simp add: Blob_assign_span_def m_pData_def matches_Inr)
qed

lemma resized_grow: "resized bs (length bs + k) = bs @ replicate k 0"
  by (simp add: resized_def)

lemma size_of:
  assumes "owned st {#}" and "blob_values st x = Some (Some bs)"
  shows "Blob_size x st = Inr (length bs)"
  by (rule value_buf [OF assms]) (simp add: Blob_size_def m_pData_def deref_def)

lemma peek_of:
  assumes "owned st {#}" and "blob_values st x = Some (Some bs)" and "off + n \<le> length bs"
  shows "peek x off n st = Inr (take n (drop off bs))"
  by (rule value_buf [OF assms(1,2)])
    (use assms(3) in \<open>simp add: peek_def m_pData_def deref_def read_span_def\<close>)

lemma null_errors:
  assumes "blob_values st x = Some None"
  shows "Blob_size x st = Inl NullPointer" and "Cow x st = Inl NullPointer"
  using assms by (simp_all add: value_null Blob_size_def Cow_def m_pData_def deref_def)


lemma others_trans: "others x st st' \<Longrightarrow> others x st' st'' \<Longrightarrow> others x st st''"
  by (simp add: others_def)

lemma Resize_matches:
  assumes own: "owned st {#}" and x: "objs st x \<noteq> None" and n: "n < 2 ^ 32"
  shows "matches (Blob_resize x n st) (Inr ((blob_values st)(x \<mapsto> Some
    (case the (blob_values st x) of None \<Rightarrow> map (junk st) [0..<n] | Some bs \<Rightarrow> resized bs n)))) (junk st)"
proof (cases "the (objs st x)")
  case (Some p)
  then obtain bs where bs: "blob_values st x = Some (Some bs)" using x by (auto simp: blob_values_def)
  obtain st' where "Blob_resize x n st = Inr st'" "owned st' {#}"
    "blob_values st' = (blob_values st)(x \<mapsto> Some (resized bs n))" "others x st st'"
    by (rule resize_buf [OF own bs n])
  then show ?thesis using bs by (simp add: matches_Inr others_def)
next
  case None
  then have old: "objs st x = Some None" using x by auto
  define js where "js = map (junk st) [0..<n]"
  have len: "length js < 2 ^ 32" using n by (simp add: js_def)
  obtain d st1 where m: "malloc_buf js st = (d, st1)" by fastforce
  obtain st' where st': "Release None (set_pData x (Some d) st1) = Inr st'" "owned st' {#}"
    "blob_values st' = (blob_values st)(x \<mapsto> Some js)" "junk st' = junk st"
    by (rule install [OF own len old m])
  then have "Blob_resize x n st = Inr st'"
    using old m new_buf_small [OF len] by (simp add: Blob_resize_def m_pData_def js_def Release_def)
  then show ?thesis using st' old by (simp add: matches_Inr js_def blob_values_def)
qed

lemma Append_matches:
  assumes own: "owned st {#}" and ok: "op_ok (Append x s) (blob_values st)"
  shows "matches (bind_res (source_span s st) (\<lambda>sp. Blob_append x sp st))
    (blob_spec (junk st) (Append x s) (blob_values st)) (junk st)"
proof -
  have s_ok: "source_ok s (blob_values st) (2 ^ 32)" using ok by simp
  obtain sp cs where s: "source_span s st = Inr sp" "read_span sp st = Inr cs"
    "source_val s (blob_values st) = Inr cs" "span_size sp = length cs" "length cs < 2 ^ 32"
    "source_len s (blob_values st) = length cs" "\<not> reads_from s x \<longrightarrow> elsewhere x sp st"
    "reads_from s x \<and> \<not> reads_inside s x \<and> blob_values st x \<noteq> Some None \<longrightarrow>
       (\<exists>p n. objs st x = Some (Some p) \<and> sp = Within p 0 n)"
    by (rule source_spanE [OF own s_ok, of x])
  show ?thesis
  proof (cases "the (blob_values st x)")
    case None
    then have "blob_values st x = Some None" using ok by auto
    then show ?thesis using s(1) None by (simp add: Blob_append_def null_errors on_value_def)
  next
    case (Some bs)
    then have v: "blob_values st x = Some (Some bs)" using ok by auto
    have n: "length bs + length cs < 2 ^ 32" using ok s(6) v by (simp add: value_len_def)
    obtain st1 where st1: "Blob_resize x (length bs + length cs) st = Inr st1" "owned st1 {#}"
      "blob_values st1 = (blob_values st)(x \<mapsto> Some (bs @ replicate (length cs) 0))" "others x st st1"
      using resize_buf [OF own v n] by (auto simp: resized_grow)
    have v1: "blob_values st1 x = Some (Some (bs @ replicate (length cs) 0))" by (simp add: st1(3))
    obtain st2 where st2: "Cow x st1 = Inr st2" "owned st2 {#}" "blob_values st2 = blob_values st1"
      "others x st1 st2" "sole x st2"
      by (rule Cow_buf [OF st1(2) v1])
    note v2 = v1 [folded st2(3)]
    have src: "(if points_to sp (the (objs st x)) then peek x 0 (span_size sp) st2 else read_span sp st2)
        = Inr cs"
    proof (cases "points_to sp (the (objs st x))")
      case True
      then obtain p k where p: "objs st x = Some (Some p)" "sp = Within p 0 k"
        using v by (auto simp: points_to_def blob_values_def split: span.splits)
      then have "cs = take (length cs) bs" "length cs \<le> length bs"
        using s(2,4) read_within [OF own p(1), of 0] v
        by (auto simp: span_size_def blob_values_def split: if_splits)
      then show ?thesis using True peek_of [OF st2(2) v2, of 0 "length cs"] s(4) by simp
    next
      case False
      have "\<not> reads_from s x"
      proof
        assume "reads_from s x"
        then obtain p k where "objs st x = Some (Some p)" "sp = Within p 0 k"
          using s(8) ok v by auto
        then show False using False by (simp add: points_to_def)
      qed
      then have e: "elsewhere x sp st" using s(7) by blast
      have "others x st st2" by (rule others_trans [OF st1(4) st2(4)])
      then show ?thesis
        using False read_elsewhere(1) [OF own st2(2) _ _ e] s(2) st2(3) st1(3) by simp
    qed
    obtain st3 where st3: "poke x (length bs) cs st2 = Inr st3" "owned st3 {#}"
      "blob_values st3 = (blob_values st2)(x \<mapsto> Some (bs @ cs))" "others x st2 st3"
      using poke_sole [OF st2(2) v2 st2(5), of "length bs" cs] by auto
    have q: "m_pData x st = Inr (the (objs st x))"
      using v by (auto simp: m_pData_def blob_values_def)
    have "Blob_append x sp st = Inr st3"
      using st1(1) st2(1) st3(1) src q s(4)
      by (simp add: Blob_append_def size_of [OF own v] split del: if_split)
    moreover have "junk st3 = junk st" using st1(4) st2(4) st3(4) by (simp add: others_def)
    ultimately show ?thesis
      using st3 st2(3) st1(3) s(1,3) v by (simp add: matches_Inr on_value_def)
  qed
qed

lemma Put_matches:
  assumes own: "owned st {#}" and x: "objs st x \<noteq> None"
  shows "matches (Blob_put x i b st) (blob_spec (junk st) (Put x i b) (blob_values st)) (junk st)"
proof (cases "the (blob_values st x)")
  case None
  then have "blob_values st x = Some None" using x by (auto simp: blob_values_def)
  then show ?thesis using None by (simp add: Blob_put_def null_errors on_value_def)
next
  case (Some bs)
  then have v: "blob_values st x = Some (Some bs)" using x by (auto simp: blob_values_def)
  show ?thesis
  proof (cases "i < length bs")
    case False
    then show ?thesis using v by (simp add: Blob_put_def size_of [OF own v] on_value_def)
  next
    case True
    obtain st1 where st1: "Cow x st = Inr st1" "owned st1 {#}" "blob_values st1 = blob_values st"
      "others x st st1" "sole x st1"
      by (rule Cow_buf [OF own v])
    note v1 = v [folded st1(3)]
    obtain st2 where st2: "poke x i [b] st1 = Inr st2" "owned st2 {#}"
      "blob_values st2 = (blob_values st1)(x \<mapsto> Some (take i bs @ [b] @ drop (i + 1) bs))" "others x st1 st2"
      using poke_sole [OF st1(2) v1 st1(5), of i "[b]"] True by auto
    have "take i bs @ [b] @ drop (i + 1) bs = bs[i := b]" using True by (simp add: upd_conv_take_nth_drop)
    moreover have "Blob_put x i b st = Inr st2"
      using True st1(1) st2(1) by (simp add: Blob_put_def size_of [OF own v])
    moreover have "junk st2 = junk st" using st1(4) st2(4) by (simp add: others_def)
    ultimately show ?thesis using st2 st1(3) v True by (simp add: matches_Inr on_value_def)
  qed
qed


lemma move_inside_sole:
  assumes own: "owned st {#}" and val: "blob_values st x = Some (Some bs)" and sole: "sole x st"
    and "src + m \<le> length bs" and "dst + m \<le> length bs"
  obtains st' where "move_inside x dst src (int m) st = Inr st'" "owned st' {#}"
    "blob_values st' = (blob_values st)
       (x \<mapsto> Some (take dst bs @ take m (drop src bs) @ drop (dst + m) bs))"
    "others x st st'" "sole x st'"
proof -
  have len: "length (take m (drop src bs)) = m" using assms(4) by simp
  then have le: "dst + length (take m (drop src bs)) \<le> length bs" using assms(5) by simp
  obtain st' where st': "poke x dst (take m (drop src bs)) st = Inr st'" "owned st' {#}"
    "blob_values st' = (blob_values st)(x \<mapsto> Some (take dst bs @ take m (drop src bs)
       @ drop (dst + length (take m (drop src bs))) bs))"
    "others x st st'" "sole x st'"
    by (rule poke_sole [OF own val sole le])
  have "move_inside x dst src (int m) st = Inr st'"
    using st'(1) peek_of [OF own val assms(4)] by (simp add: move_inside_def)
  then show ?thesis by (rule that [OF _ st'(2) st'(3) [unfolded len] st'(4,5)])
qed

lemma new_size_byte:
  assumes "n \<le> m" and "m + k - n < 256"
  shows "unat (word_of_int (int m + int k - int n) :: byte) = m + k - n"
proof -
  define j where "j = m + k - n"
  have "int m + int k - int n = int j" using assms(1) unfolding j_def by linarith
  moreover have "j < 256" using assms(2) by (simp add: j_def)
  ultimately show ?thesis unfolding j_def [symmetric] by (simp add: unat_of_nat take_bit_nat_eq_self)
qed

lemma Replace_shift:
  assumes own: "owned st {#}" and v: "blob_values st x = Some (Some bs)" and so: "sole x st"
    and r: "off + n \<le> length bs" and lim: "length bs + k - n < 2 ^ 32"
  obtains st' ds where "(if k \<ge> n
        then bind_res (Blob_resize x (length bs + k - n) st)
               (move_inside x (off + k) (off + n) (int (length bs + k - n) - int off - int k))
        else bind_res (move_inside x (off + k) (off + n) (int (length bs) - int off - int n) st)
               (Blob_resize x (length bs + k - n))) = Inr st'" "owned st' {#}"
    "blob_values st' = (blob_values st)(x \<mapsto> Some (take off bs @ ds @ drop (off + n) bs))"
    "length ds = k" "others x st st'" "sole x st'"
proof -
  define m where "m = length bs - off - n"
  have len: "length bs = off + n + m" using r by (simp add: m_def)
  have new: "length bs + k - n = off + k + m" using r by (simp add: m_def)
  have new_lim: "off + k + m < 2 ^ 32" using lim unfolding new .
  have tail: "drop (off + n) bs = take m (drop (off + n) bs)" using r by (simp add: m_def)
  show ?thesis
  proof (cases "k \<ge> n")
    case True
    obtain st1 where st1: "Blob_resize x (off + k + m) st = Inr st1" "owned st1 {#}"
      "blob_values st1 = (blob_values st)(x \<mapsto> Some (resized bs (off + k + m)))" "others x st st1" "sole x st1"
      by (rule resize_buf [OF own v new_lim])
    have v1: "blob_values st1 x = Some (Some (resized bs (off + k + m)))" by (simp add: st1(3))
    have z: "resized bs (off + k + m) = bs @ replicate (k - n) 0"
      using True len by (simp add: resized_def)
    have l1: "off + n + m \<le> length (resized bs (off + k + m))" "off + k + m \<le> length (resized bs (off + k + m))"
      using True len by (simp_all add: z)
    obtain st2 where st2: "move_inside x (off + k) (off + n) (int m) st1 = Inr st2" "owned st2 {#}"
      "blob_values st2 = (blob_values st1)(x \<mapsto> Some (take (off + k) (resized bs (off + k + m))
         @ take m (drop (off + n) (resized bs (off + k + m))) @ drop (off + k + m) (resized bs (off + k + m))))"
      "others x st1 st2" "sole x st2"
      by (rule move_inside_sole [OF st1(2) v1 st1(5) l1])
    have e: "take (off + k) (resized bs (off + k + m)) @ take m (drop (off + n) (resized bs (off + k + m)))
        @ drop (off + k + m) (resized bs (off + k + m))
      = take off bs @ take k (drop off (resized bs (off + k + m))) @ drop (off + n) bs"
      using len True by (simp add: z take_add drop_eq_Nil2)
    have "length (take k (drop off (resized bs (off + k + m)))) = k" using len True by (simp add: z)
    moreover have "blob_values st2 = (blob_values st)(x \<mapsto> Some (take off bs
        @ take k (drop off (resized bs (off + k + m))) @ drop (off + n) bs))"
      unfolding st2(3) st1(3) e by (rule fun_upd_upd)
    ultimately show ?thesis
      using that [of st2 "take k (drop off (resized bs (off + k + m)))"] True st1(1) st2(1,2,5)
        others_trans [OF st1(4) st2(4)]
      unfolding new by simp
  next
    case False
    have l1: "off + n + m \<le> length bs" "off + k + m \<le> length bs" using False len by simp_all
    obtain st1 where st1: "move_inside x (off + k) (off + n) (int m) st = Inr st1" "owned st1 {#}"
      "blob_values st1 = (blob_values st)
        (x \<mapsto> Some (take (off + k) bs @ take m (drop (off + n) bs) @ drop (off + k + m) bs))"
      "others x st st1" "sole x st1"
      by (rule move_inside_sole [OF own v so l1])
    have v1: "blob_values st1 x
        = Some (Some (take (off + k) bs @ take m (drop (off + n) bs) @ drop (off + k + m) bs))"
      by (simp add: st1(3))
    obtain st2 where st2: "Blob_resize x (off + k + m) st1 = Inr st2" "owned st2 {#}"
      "blob_values st2 = (blob_values st1)(x \<mapsto> Some (resized (take (off + k) bs
         @ take m (drop (off + n) bs) @ drop (off + k + m) bs) (off + k + m)))" "others x st1 st2" "sole x st2"
      by (rule resize_buf [OF st1(2) v1 new_lim])
    have e: "resized (take (off + k) bs @ take m (drop (off + n) bs) @ drop (off + k + m) bs) (off + k + m)
        = take off bs @ take k (drop off bs) @ drop (off + n) bs"
      using len False by (simp add: resized_def take_add)
    have "length (take k (drop off bs)) = k" using len False by simp
    moreover have "int (length bs) - int off - int n = int m" using len by simp
    moreover have "blob_values st2 = (blob_values st)
        (x \<mapsto> Some (take off bs @ take k (drop off bs) @ drop (off + n) bs))"
      unfolding st2(3) st1(3) e by (rule fun_upd_upd)
    ultimately show ?thesis
      using that [of st2 "take k (drop off bs)"] False st1(1) st2(1,2,5) others_trans [OF st1(4) st2(4)]
      unfolding new by simp
  qed
qed


lemma Replace_matches:
  assumes own: "owned st {#}" and ok: "op_ok (ReplaceBy x off n s) (blob_values st)"
  shows "matches (bind_res (source_span s st) (\<lambda>sp. Blob_Replace x off n sp st))
    (blob_spec (junk st) (ReplaceBy x off n s) (blob_values st)) (junk st)"
proof -
  have s_ok: "source_ok s (blob_values st) (2 ^ 32)" using ok by simp
  obtain sp cs where s: "source_span s st = Inr sp" "read_span sp st = Inr cs"
    "source_val s (blob_values st) = Inr cs" "span_size sp = length cs" "length cs < 2 ^ 32"
    "source_len s (blob_values st) = length cs" "\<not> reads_from s x \<longrightarrow> elsewhere x sp st"
    "reads_from s x \<and> \<not> reads_inside s x \<and> blob_values st x \<noteq> Some None \<longrightarrow>
       (\<exists>p n. objs st x = Some (Some p) \<and> sp = Within p 0 n)"
    by (rule source_spanE [OF own s_ok, of x])
  show ?thesis
  proof (cases "the (blob_values st x)")
    case None
    then have "blob_values st x = Some None" using ok by auto
    then show ?thesis using s(1) None by (simp add: Blob_Replace_def null_errors on_value_def)
  next
    case (Some bs)
    then have v: "blob_values st x = Some (Some bs)" using ok by auto
    have r: "off + n \<le> length bs" and lim: "length bs + length cs - n < 256"
      using ok s(6) v by (simp_all add: value_len_def)
    have e: "elsewhere x sp st" using s(7) ok by simp
    obtain st1 where st1: "Cow x st = Inr st1" "owned st1 {#}" "blob_values st1 = blob_values st"
      "others x st st1" "sole x st1"
      by (rule Cow_buf [OF own v])
    note v1 = v [folded st1(3)]
    have "n \<le> length bs" using r by simp
    note new = new_size_byte [OF this lim]
    have lim32: "length bs + length cs - n < 2 ^ 32" using lim by simp
    obtain st2 ds where st2: "(if length cs \<ge> n
        then bind_res (Blob_resize x (length bs + length cs - n) st1)
               (move_inside x (off + length cs) (off + n) (int (length bs + length cs - n) - int off - int (length cs)))
        else bind_res (move_inside x (off + length cs) (off + n) (int (length bs) - int off - int n) st1)
               (Blob_resize x (length bs + length cs - n))) = Inr st2" "owned st2 {#}"
      "blob_values st2 = (blob_values st1)(x \<mapsto> Some (take off bs @ ds @ drop (off + n) bs))"
      "length ds = length cs" "others x st1 st2" "sole x st2"
      by (rule Replace_shift [OF st1(2) v1 st1(5) r lim32])
    have v2: "blob_values st2 x = Some (Some (take off bs @ ds @ drop (off + n) bs))" by (simp add: st2(3))
    have src: "read_span sp st2 = Inr cs"
      using read_elsewhere(1) [OF own st2(2) others_trans [OF st1(4) st2(5)] _ e] s(2) st2(3) st1(3) by simp
    have le: "off + length cs \<le> length (take off bs @ ds @ drop (off + n) bs)"
      using r st2(4) by simp
    obtain st3 where st3: "poke x off cs st2 = Inr st3" "owned st3 {#}"
      "blob_values st3 = (blob_values st2)(x \<mapsto> Some (take off (take off bs @ ds @ drop (off + n) bs)
         @ cs @ drop (off + length cs) (take off bs @ ds @ drop (off + n) bs)))" "others x st2 st3"
      by (rule poke_sole [OF st2(2) v2 st2(6) le])
    have "Blob_Replace x off n sp st = Inr st3"
      unfolding Blob_Replace_def st1(1) bind_res_simps size_of [OF st1(2) v1] Let_def s(4) new st2(1) src
      by (rule st3(1))
    moreover have "junk st3 = junk st" using st1(4) st2(5) st3(4) by (simp add: others_def)
    ultimately show ?thesis
      using st3(2,3) st2(3,4) st1(3) s(1,3) v r by (simp add: matches_Inr on_value_def)
  qed
qed


lemma Plus_matches:
  assumes own: "owned st {#}" and ok: "op_ok (Plus x s t) (blob_values st)"
  shows "matches (exec (Plus x s t) st) (blob_spec (junk st) (Plus x s t) (blob_values st)) (junk st)"
proof -
  have s_ok: "source_ok s (blob_values st) (2 ^ 32)" and t_ok: "source_ok t (blob_values st) (2 ^ 32)"
    and x: "objs st x = None" using ok by (simp_all add: value_none)
  have nr: "\<not> reads_from r x" if "source_ok r (blob_values st) (2 ^ 32)" for r
    using that ok by (cases r) auto
  obtain sp bs where s: "source_span s st = Inr sp" "read_span sp st = Inr bs"
    "source_val s (blob_values st) = Inr bs" "span_size sp = length bs" "length bs < 2 ^ 32"
    "source_len s (blob_values st) = length bs" "\<not> reads_from s x \<longrightarrow> elsewhere x sp st"
    by (rule source_spanE [OF own s_ok, of x])
  obtain tp cs where t: "source_span t st = Inr tp" "read_span tp st = Inr cs"
    "source_val t (blob_values st) = Inr cs" "span_size tp = length cs" "length cs < 2 ^ 32"
    "source_len t (blob_values st) = length cs" "\<not> reads_from t x \<longrightarrow> elsewhere x tp st"
    by (rule source_spanE [OF own t_ok, of x])
  have es: "elsewhere x sp st" and et: "elsewhere x tp st" using s(7) t(7) nr s_ok t_ok by blast+
  define zs :: "byte list" where "zs = replicate (length bs + length cs) 0"
  have lz: "length zs < 2 ^ 32" using ok s(6) t(6) by (simp add: zs_def)
  obtain d st0 where m: "malloc_buf zs st = (d, st0)" by fastforce
  define st1 where "st1 = set_pData x (Some d) st0"
  have c: "Blob_contents x zs st = Inr st1"
    by (simp add: Blob_contents_def new_buf_small [OF lz] m st1_def)
  have st1: "owned st1 {#}" "blob_values st1 = (blob_values st)(x \<mapsto> Some zs)"
    using contents_matches [OF own x lz] by (simp_all add: c matches_Inr)
  have "objs st1 = (objs st)(x \<mapsto> Some d)" "junk st1 = junk st"
    using m by (auto simp: st1_def set_pData_def malloc_buf_def)
  then have o1: "others x st st1" by (simp add: others_def)
  have v1: "blob_values st1 x = Some (Some zs)" by (simp add: st1(2))
  obtain st2 where st2: "Cow x st1 = Inr st2" "owned st2 {#}" "blob_values st2 = blob_values st1"
    "others x st1 st2" "sole x st2"
    by (rule Cow_buf [OF st1(1) v1])
  note v2 = v1 [folded st2(3)]
  have o2: "others x st st2" by (rule others_trans [OF o1 st2(4)])
  have src_s: "read_span sp st2 = Inr bs"
    using read_elsewhere(1) [OF own st2(2) o2 _ es] s(2) st2(3) st1(2) by simp
  have le: "0 + length bs \<le> length zs" by (simp add: zs_def)
  obtain st3 where st3: "poke x 0 bs st2 = Inr st3" "owned st3 {#}"
    "blob_values st3 = (blob_values st2)(x \<mapsto> Some (take 0 zs @ bs @ drop (0 + length bs) zs))"
    "others x st2 st3" "sole x st3"
    by (rule poke_sole [OF st2(2) v2 st2(5) le])
  have v3: "blob_values st3 x = Some (Some (bs @ replicate (length cs) 0))"
    by (simp add: st3(3) zs_def)
  obtain st4 where st4: "Cow x st3 = Inr st4" "owned st4 {#}" "blob_values st4 = blob_values st3"
    "others x st3 st4" "sole x st4"
    by (rule Cow_buf [OF st3(2) v3])
  note v4 = v3 [folded st4(3)]
  have o4: "others x st st4" by (rule others_trans [OF o2 others_trans [OF st3(4) st4(4)]])
  have src_t: "read_span tp st4 = Inr cs"
    using read_elsewhere(1) [OF own st4(2) o4 _ et] t(2) st4(3) st3(3) st2(3) st1(2) by simp
  have le: "length bs + length cs \<le> length (bs @ replicate (length cs) 0)" by simp
  obtain st5 where st5: "poke x (length bs) cs st4 = Inr st5" "owned st5 {#}"
    "blob_values st5 = (blob_values st4)(x \<mapsto> Some (take (length bs) (bs @ replicate (length cs) 0) @ cs
       @ drop (length bs + length cs) (bs @ replicate (length cs) 0)))" "others x st4 st5"
    by (rule poke_sole [OF st4(2) v4 st4(5) le])
  have "Blob_plus x sp tp st = Inr st5"
    using c st2(1) st3(1) st4(1) st5(1) src_s src_t s(4) t(4)
    by (simp add: Blob_plus_def Blob_buf_len_def zs_def)
  moreover have "junk st5 = junk st" using o4 st5(4) by (simp add: others_def)
  ultimately show ?thesis
    using st5(2,3) st4(3) st3(3) st2(3) st1(2) s(1,3) t(1,3) by (simp add: matches_Inr)
qed

lemma exec_matches:
  assumes "owned st {#}" and "op_ok op (blob_values st)"
  shows "matches (exec op st) (blob_spec (junk st) op (blob_values st)) (junk st)"
proof (cases op)
  case (New x)
  then show ?thesis using New_matches assms by (simp add: value_none)
next
  case (Null x)
  then show ?thesis using birth [of st None x] assms by (simp add: value_none Blob_null_def matches_Inr)
next
  case (Copy x y)
  then show ?thesis using Copy_matches assms by (simp add: value_none)
next
  case (Move x y)
  then show ?thesis using Move_matches assms by (simp add: value_none)
next
  case (Contents x bs)
  then show ?thesis using contents_matches assms by (simp add: value_none Blob_buf_len_def)
next
  case (Uninit x n)
  then show ?thesis
    using contents_matches [of st x "map (junk st) [0..<n]"] assms by (simp add: value_none Blob_uninit_def)
next
  case (FromSpan x s)
  then show ?thesis using FromSpan_matches assms by (simp add: value_none)
next
  case (Destroy x)
  then show ?thesis using Destroy_matches assms by (simp add: value_none)
next
  case (Assign x y)
  then show ?thesis using Assign_matches assms by (simp add: value_none)
next
  case (MoveAssign x y)
  then show ?thesis using MoveAssign_matches assms by (simp add: value_none)
next
  case (AssignSpan x s)
  then show ?thesis using AssignSpan_matches assms by (simp add: value_none)
next
  case (AssignNull x y)
  then show ?thesis using AssignNull_matches assms by (simp add: value_none)
next
  case (Swap x y)
  then show ?thesis using Swap_matches assms by (simp add: value_none)
next
  case (Append x s)
  then show ?thesis using Append_matches assms by simp
next
  case (Resize x n)
  then show ?thesis using Resize_matches assms by (simp add: value_none)
next
  case (Put x i b)
  then show ?thesis using Put_matches assms by (simp add: value_none)
next
  case (ReplaceBy x off n s)
  then show ?thesis using Replace_matches assms by simp
next
  case (Plus x s t)
  then show ?thesis using Plus_matches assms by simp
qed


section \<open>Programs\<close>

inductive blob_reach :: "(nat \<Rightarrow> byte) \<Rightarrow> blob_state \<Rightarrow> bool" for jk where
  start: "blob_reach jk (init_state jk)"
| step: "blob_reach jk st \<Longrightarrow> op_ok op (blob_values st) \<Longrightarrow> exec op st = Inr st' \<Longrightarrow> blob_reach jk st'"

lemma init_owned: "owned (init_state jk) {#}"
  by (simp add: owned_def init_state_def refs_def owners_def)

lemma reach_owned: "blob_reach jk st \<Longrightarrow> owned st {#} \<and> junk st = jk"
proof (induction rule: blob_reach.induct)
  case start
  then show ?case by (simp add: init_owned) (simp add: init_state_def)
next
  case (step st op st')
  then show ?case using exec_matches [of st op] by (simp add: matches_Inr)
qed

fun exec_all :: "blob_op list \<Rightarrow> blob_state \<Rightarrow> blob_state res" where
  "exec_all [] st = Inr st"
| "exec_all (op # ops) st = (if op_ok op (blob_values st)
     then bind_res (exec op st) (exec_all ops) else Inl LogicError)"

lemma exec_all_reach: "blob_reach jk st \<Longrightarrow> exec_all ops st = Inr st' \<Longrightarrow> blob_reach jk st'"
proof (induction ops arbitrary: st)
  case Nil
  then show ?case by simp
next
  case (Cons op ops)
  obtain st1 where "op_ok op (blob_values st)" "exec op st = Inr st1" "exec_all ops st1 = Inr st'"
    using Cons.prems(2) by (cases "exec op st") (simp_all split: if_splits)
  then show ?case by (intro Cons.IH [of st1] blob_reach.step [OF Cons.prems(1)])
qed

lemma exec_all_init: "exec_all ops (init_state jk) = Inr st \<Longrightarrow> blob_reach jk st"
  by (rule exec_all_reach [OF blob_reach.start])

text \<open>Comparison.\<close>

definition byte_order :: "(byte \<times> byte) set" where
  "byte_order = {(a, b). a < b}"

lemma byte_order_iff [simp]: "(a, b) \<in> byte_order \<longleftrightarrow> a < b"
  by (simp add: byte_order_def)

lemma memcmp_lexord:
  "(let n = memcmp xs ys (min (length xs) (length ys))
    in if n \<noteq> 0 then n < 0 else length xs < length ys) \<longleftrightarrow> (xs, ys) \<in> lexord byte_order"
proof (induction xs arbitrary: ys)
  case Nil
  then show ?case by (cases ys) simp_all
next
  case (Cons x xs)
  show ?case
  proof (cases ys)
    case Nil
    then show ?thesis by simp
  next
    case ys: (Cons y zs)
    show ?thesis
      using Cons.IH [of zs] by (cases x y rule: linorder_cases) (auto simp: ys Let_def)
  qed
qed

lemma memcmp_eq: "length xs = length ys \<Longrightarrow> memcmp xs ys (length xs) = 0 \<longleftrightarrow> xs = ys"
proof (induction xs ys rule: list_induct2)
  case (Cons x xs y ys)
  then show ?case by (cases x y rule: linorder_cases) auto
qed simp

definition value_less :: "byte list option \<Rightarrow> byte list option \<Rightarrow> bool" where
  "value_less a b = (case (a, b) of (None, c) \<Rightarrow> c \<noteq> None | (Some bs, None) \<Rightarrow> False
     | (Some bs, Some cs) \<Rightarrow> (bs, cs) \<in> lexord byte_order)"

lemma comparisons:
  assumes own: "owned st {#}" and x: "blob_values st x = Some a" and y: "blob_values st y = Some b"
  shows "Blob_eq x y st = Inr (a = b)" and "Blob_less x y st = Inr (value_less a b)"
proof -
  have "Blob_eq x y st = Inr (a = b) \<and> Blob_less x y st = Inr (value_less a b)"
  proof (cases a)
    case None
    then have "objs st x = Some None" using x by (simp add: value_null)
    moreover obtain q where "objs st y = Some q" "b = map_option (contents_at st) q"
      using y by (auto simp: blob_values_def)
    ultimately show ?thesis
      using None by (auto simp: Blob_eq_def Blob_less_def m_pData_def value_less_def)
  next
    case (Some bs)
    then obtain p c where p: "objs st x = Some (Some p)" "bufs st p = Some c" "m_bytes c = bs"
      "GetSize c = length bs" "contents_at st p = bs"
      using value_buf [OF own, of x bs] x by metis
    show ?thesis
    proof (cases b)
      case None
      then have "objs st y = Some None" using y by (simp add: value_null)
      then show ?thesis
        using p Some None by (simp add: Blob_eq_def Blob_less_def m_pData_def deref_def value_less_def)
    next
      case (Some cs)
      then obtain q d where q: "objs st y = Some (Some q)" "bufs st q = Some d" "m_bytes d = cs"
        "GetSize d = length cs" "contents_at st q = cs"
        using value_buf [OF own, of y cs] y by metis
      have "Blob_eq x y st = Inr (bs = cs)"
      proof (cases "p = q")
        case True
        then show ?thesis using p q by (simp add: Blob_eq_def m_pData_def)
      next
        case False
        then show ?thesis
          using p q memcmp_eq [of bs cs]
          by (cases "length bs = length cs") (auto simp: Blob_eq_def m_pData_def deref_def)
      qed
      moreover have "Blob_less x y st = Inr ((bs, cs) \<in> lexord byte_order)"
        using p q memcmp_lexord [of bs cs]
        by (simp add: Blob_less_def m_pData_def deref_def Let_def split: if_splits)
      ultimately show ?thesis using Some \<open>a = Some bs\<close> by (simp add: value_less_def)
    qed
  qed
  then show "Blob_eq x y st = Inr (a = b)" and "Blob_less x y st = Inr (value_less a b)" by simp_all
qed

section \<open>Properties\<close>


definition demo_ops :: "blob_op list" where
  "demo_ops = [Contents 0 [1, 2, 3], Copy 1 0, New 2, Append 1 (Whole 0)]"

definition demo_state :: blob_state where
  "demo_state = (case exec_all demo_ops (init_state (\<lambda>i. 7)) of Inl e \<Rightarrow> init_state (\<lambda>i. 7) | Inr st \<Rightarrow> st)"

lemma demo_runs: "case exec_all demo_ops (init_state (\<lambda>i. 7)) of Inl e \<Rightarrow> False
    | Inr st \<Rightarrow> map (blob_values st) [0, 1, 2] = [Some (Some [1, 2, 3]), Some (Some [1, 2, 3, 1, 2, 3]),
        Some (Some [])]"
  by (simp add: demo_ops_def init_state_def Blob_buf_len_def Blob_contents_def new_buf_def malloc_buf_def
      set_pData_def blob_values_def contents_at_def Blob_copy_def m_pData_def AddRef_def deref_def
      set_buf_def Blob_new_def RefEmptyBlobBuf_def source_len_def value_len_def source_span_def
      Blob_Span_def Blob_append_def Blob_size_def GetSize_def Blob_resize_def SetSize_def Let_def
      Release_def free_buf_def Cow_def Clone_def points_to_def span_size_def peek_def poke_def read_span_def)


lemma demo_reach: "blob_reach (\<lambda>i. 7) demo_state"
  using demo_runs exec_all_init [of demo_ops "\<lambda>i. 7"]
  by (cases "exec_all demo_ops (init_state (\<lambda>i. 7))") (simp_all add: demo_state_def)

lemma demo_values: "blob_values demo_state 0 = Some (Some [1, 2, 3])"
    "blob_values demo_state 1 = Some (Some [1, 2, 3, 1, 2, 3])" "blob_values demo_state 2 = Some (Some [])"
  using demo_runs by (simp_all add: demo_state_def split: sum.splits)


text \<open>
  C10: In every reachable state the count of each buffer is the number of references to it (the objects
  that hold it and the static empty buffer), no buffer without a reference is left allocated, no
  object holds an address that has been freed, and the shared empty buffer is empty.
\<close>

theorem blob_references:
  assumes "blob_reach jk st"
  shows "(\<forall>p. case bufs st p of
         None \<Rightarrow> owners st p = 0
       | Some b \<Rightarrow> m_aRef b = int (owners st p) \<and> 0 < owners st p \<and> length (m_bytes b) = GetSize b)
     \<and> (\<forall>x. case objs st x of Some (Some p) \<Rightarrow> bufs st p \<noteq> None | _ \<Rightarrow> True)
     \<and> (case s_emptyStringBlobBuf st of None \<Rightarrow> True | Some p \<Rightarrow> contents_at st p = [])"
proof -
  have own: "owned st {#}" using reach_owned [OF assms] by simp
  have r: "refs st {#} = owners st" by (rule ext) (simp add: refs_def)
  have live: "bufs st p \<noteq> None" if "objs st x = Some (Some p)" for x p
    by (rule owned_obj [OF own that]) simp
  show ?thesis
    using own live unfolding owned_def r by (auto simp: contents_at_def split: option.splits)
qed

theorem blob_references_witness:
  "case bufs demo_state (the (the (objs demo_state 0))) of None \<Rightarrow> False
     | Some b \<Rightarrow> m_aRef b = int (owners demo_state (the (the (objs demo_state 0))))"
proof -
  obtain p where p: "objs demo_state 0 = Some (Some p)"
    using demo_values(1) by (auto simp: blob_values_def)
  then show ?thesis
    using conjunct1 [OF blob_references [OF demo_reach], rule_format, of p]
      conjunct1 [OF conjunct2 [OF blob_references [OF demo_reach]], rule_format, of 0]
    by (auto split: option.splits)
qed



text \<open>\<open>operator==\<close> is equality of the values and \<open>operator<\<close> their lexicographic order, null first.\<close>

theorem Blob_order:
  assumes "blob_reach jk st" and "blob_values st x = Some a" and "blob_values st y = Some b"
  shows "Blob_eq x y st = Inr (a = b) \<and> Blob_less x y st = Inr (value_less a b)"
  using comparisons [OF _ assms(2,3)] reach_owned [OF assms(1)] by simp

theorem Blob_order_witness:
  "Blob_eq 0 1 demo_state = Inr False \<and> Blob_less 0 1 demo_state = Inr True"
  using Blob_order [OF demo_reach demo_values(1,2)] by (simp add: value_less_def)

text \<open>
  \<open>b += Span(b.constData() + off, n)\<close> with \<open>off\<close> positive, on an object that has its buffer for
  itself, reads the buffer that \<open>resize\<close> has given back.
\<close>

theorem append_own_tail:
  assumes "blob_reach jk st" and "blob_values st x = Some (Some bs)" and "sole x st"
    and "0 < off" and "off + n \<le> length bs" and "length bs + n < 2 ^ 32"
  shows "exec (Append x (Part x off n)) st = Inl UseAfterFree"
proof -
  have own: "owned st {#}" using reach_owned [OF assms(1)] by simp
  obtain p b where p: "objs st x = Some (Some p)" "bufs st p = Some b" "m_bytes b = bs"
    "GetSize b = length bs" "m_aRef b = int (refs st {#} p)"
    using value_buf [OF own assms(2)] by metis
  have one: "m_aRef b = 1" using assms(3) p by (auto simp: sole_def)
  have pf: "p \<noteq> fresh st" using own p(2) by (auto simp: owned_def)
  obtain st1 where r: "Blob_resize x (length bs + n) st = Inr st1" "owned st1 {#}"
    "blob_values st1 = (blob_values st)(x \<mapsto> Some (resized bs (length bs + n)))" "others x st st1" "sole x st1"
    by (rule resize_buf [OF own assms(2,6)])
  have gone: "bufs st1 p = None" and o1: "objs st1 x = Some (Some (fresh st))"
    using r(1) p one pf
    by (auto simp: Blob_resize_def SetSize_def m_pData_def deref_def Let_def malloc_buf_def free_buf_def
        set_pData_def)
  obtain c where c: "bufs st1 (fresh st) = Some c" "m_aRef c = int (refs st1 {#} (fresh st))"
    using r(2) o1 by (rule owned_obj)
  have "refs st1 {#} (fresh st) = 1" using r(5) o1 by (auto simp: sole_def)
  then have cow: "Cow x st1 = Inr st1" using c o1 by (simp add: Cow_def m_pData_def deref_def)
  have "source_span (Part x off n) st = Inr (Within p off n)"
    using p by (simp add: source_span_def m_pData_def deref_def)
  moreover have "Blob_append x (Within p off n) st = Inl UseAfterFree"
    using r(1) cow gone p assms(4) size_of [OF own assms(2)]
    by (simp add: Blob_append_def m_pData_def span_size_def points_to_def read_span_def deref_def)
  ultimately show ?thesis by simp
qed

theorem append_own_tail_witness:
  "\<exists>st. exec_all [Contents 0 [1, 2, 3]] (init_state (\<lambda>i. 7)) = Inr st
     \<and> exec (Append 0 (Part 0 1 2)) st = Inl UseAfterFree"
proof -
  define st where "st = set_pData 0 (Some 0) (snd (malloc_buf [1, 2, 3] (init_state (\<lambda>i. 7))))"
  have run: "exec_all [Contents 0 [1, 2, 3]] (init_state (\<lambda>i. 7)) = Inr st"
    by (simp add: st_def init_state_def Blob_buf_len_def Blob_contents_def new_buf_def malloc_buf_def
        set_pData_def blob_values_def)
  have "blob_values st 0 = Some (Some [1, 2, 3])"
    by (simp add: st_def init_state_def malloc_buf_def set_pData_def blob_values_def contents_at_def)
  moreover have "sole 0 st"
    by (simp add: st_def init_state_def malloc_buf_def set_pData_def sole_def refs_def owners_def)
  ultimately show ?thesis
    using append_own_tail [OF exec_all_init [OF run], of 0 "[1, 2, 3]" 1 2] run by simp
qed


text \<open>
  \<open>Replace\<close> that does not shrink the object, when the new size is 256 or more and the replacement
  ends within the new size modulo 256, leaves the right contents cut to the new size modulo 256.
\<close>

theorem Replace_truncates:
  assumes reach: "blob_reach jk st" and val: "blob_values st x = Some (Some bs)"
    and r: "off + n \<le> length bs" and grow: "n \<le> length cs"
    and fits: "off + length cs \<le> (length bs + length cs - n) mod 256"
  shows "case exec (ReplaceBy x off n (Bytes cs)) st of Inl e \<Rightarrow> False
    | Inr st' \<Rightarrow> blob_values st' = (blob_values st)(x \<mapsto> Some
        (take ((length bs + length cs - n) mod 256) (take off bs @ cs @ drop (off + n) bs)))"
proof -
  have own: "owned st {#}" using reach_owned [OF reach] by simp
  define k where "k = length cs"
  define total where "total = length bs + k - n"
  define t where "t = total mod 256"
  have t: "off + k \<le> t" "t < 2 ^ 32" "t \<le> total"
    using fits mod_less_divisor [of 256 total] by (simp_all add: t_def total_def k_def)
  have "int (length bs) + int k - int n = int total" using r by (simp add: total_def)
  then have new: "unat (word_of_int (int (length bs) + int k - int n) :: byte) = t"
    by (simp add: unat_of_nat take_bit_eq_mod t_def)
  obtain st1 where st1: "Cow x st = Inr st1" "owned st1 {#}" "blob_values st1 = blob_values st"
    "others x st st1" "sole x st1"
    by (rule Cow_buf [OF own val])
  note v1 = val [folded st1(3)]
  obtain st2 where st2: "Blob_resize x t st1 = Inr st2" "owned st2 {#}"
    "blob_values st2 = (blob_values st1)(x \<mapsto> Some (resized bs t))" "others x st1 st2" "sole x st2"
    by (rule resize_buf [OF st1(2) v1 t(2)])
  have v2: "blob_values st2 x = Some (Some (resized bs t))" by (simp add: st2(3))
  have len: "length (resized bs t) = t" by (simp add: resized_def)
  define m where "m = t - off - k"
  have l: "off + n + m \<le> length (resized bs t)" "off + k + m \<le> length (resized bs t)"
    using t(1) grow unfolding len by (simp_all add: m_def k_def)
  obtain st3 where st3: "move_inside x (off + k) (off + n) (int m) st2 = Inr st3" "owned st3 {#}"
    "blob_values st3 = (blob_values st2)(x \<mapsto> Some (take (off + k) (resized bs t)
       @ take m (drop (off + n) (resized bs t)) @ drop (off + k + m) (resized bs t)))"
    "others x st2 st3" "sole x st3"
    by (rule move_inside_sole [OF st2(2) v2 st2(5) l])
  have tm: "off + k + m = t" using t(1) by (simp add: m_def)
  have pre: "take (off + n + m) (resized bs t) = take (off + n + m) bs"
  proof -
    have "off + n + m \<le> t" using t(1) grow by (simp add: m_def k_def)
    moreover have "off + n + m \<le> length bs" using t(1,3) grow r by (simp add: m_def total_def k_def)
    ultimately show ?thesis by (simp add: resized_def)
  qed
  have mid: "take m (drop (off + n) (resized bs t)) = take m (drop (off + n) bs)"
    using arg_cong [OF pre, of "drop (off + n)"] by (simp add: take_drop add.commute)
  have "drop (off + k + m) (resized bs t) = []" using len tm by simp
  then have v3: "blob_values st3 x = Some (Some (take (off + k) (resized bs t) @ take m (drop (off + n) bs)))"
    by (simp add: st3(3) mid)
  have le: "off + length cs \<le> length (take (off + k) (resized bs t) @ take m (drop (off + n) bs))"
    using t(1) by (simp add: len k_def)
  obtain st4 where st4: "poke x off cs st3 = Inr st4" "owned st4 {#}"
    "blob_values st4 = (blob_values st3)(x \<mapsto> Some
       (take off (take (off + k) (resized bs t) @ take m (drop (off + n) bs)) @ cs
        @ drop (off + length cs) (take (off + k) (resized bs t) @ take m (drop (off + n) bs))))"
    by (rule poke_sole [OF st3(2) v3 st3(5) le])
  have "take off (resized bs t) = take off bs" using t(1) r by (simp add: resized_def min_def)
  then have res: "take off (take (off + k) (resized bs t) @ take m (drop (off + n) bs)) @ cs
      @ drop (off + length cs) (take (off + k) (resized bs t) @ take m (drop (off + n) bs))
    = take t (take off bs @ cs @ drop (off + n) bs)"
  proof -
    have off: "off \<le> length bs" "off + k \<le> length (resized bs t)" using r t(1) len by simp_all
    have "take (off + k + m) (take off bs @ cs @ drop (off + n) bs)
        = take off bs @ cs @ take m (drop (off + n) bs)"
      using off(1) by (simp add: k_def)
    moreover have "take off (take (off + k) (resized bs t) @ take m (drop (off + n) bs)) = take off (resized bs t)"
      using off(2) by simp
    moreover have "drop (off + length cs) (take (off + k) (resized bs t) @ take m (drop (off + n) bs))
        = take m (drop (off + n) bs)"
      using off(2) by (simp add: k_def)
    ultimately show ?thesis
      using \<open>take off (resized bs t) = take off bs\<close> unfolding tm by simp
  qed
  have mi: "int t - int off - int k = int m" using t(1) by (simp add: m_def)
  have gk: "n \<le> k" using grow by (simp add: k_def)
  have "exec (ReplaceBy x off n (Bytes cs)) st = Inr st4"
    by (simp add: source_span_def Blob_Replace_def st1(1) size_of [OF st1(2) v1] span_size_def Let_def
        k_def [symmetric] new [simplified] gk st2(1) mi st3(1) read_span_def st4(1))
  moreover have "blob_values st4 = (blob_values st)(x \<mapsto> Some (take t (take off bs @ cs @ drop (off + n) bs)))"
    unfolding st4(3) st3(3) st2(3) st1(3) res by simp
  ultimately show ?thesis by (simp add: t_def total_def k_def)
qed

theorem Replace_truncates_witness:
  "\<exists>st st'. exec_all [Contents 0 (replicate 300 1)] (init_state (\<lambda>i. 7)) = Inr st
     \<and> exec (ReplaceBy 0 0 2 (Bytes [8, 9])) st = Inr st'
     \<and> blob_values st' 0 = Some (Some ([8, 9] @ replicate 42 1))"
proof -
  define bs :: "byte list" where "bs = replicate 300 1"
  have lb: "length bs = 300" by (simp add: bs_def)
  define st where "st = set_pData 0 (Some 0) (snd (malloc_buf bs (init_state (\<lambda>i. 7))))"
  have run: "exec_all [Contents 0 bs] (init_state (\<lambda>i. 7)) = Inr st"
    by (simp add: st_def init_state_def Blob_buf_len_def Blob_contents_def new_buf_def malloc_buf_def
        set_pData_def blob_values_def lb)
  have val: "blob_values st 0 = Some (Some bs)"
    by (simp add: st_def init_state_def malloc_buf_def set_pData_def blob_values_def contents_at_def)
  have cut: "take 42 (drop (Suc (Suc 0)) bs) = replicate 42 1"
    by (simp add: bs_def min_def)
  show ?thesis
    using Replace_truncates [OF exec_all_init [OF run] val, of 0 2 "[8, 9]"] run cut
    unfolding bs_def [symmetric] by (auto simp: lb split: sum.splits)
qed

end
