(* ===== verification/Bitset.thy ===== *)
theory Bitset
  imports Prelude
begin

text \<open>
  Bit sets of variable size, \<open>src/stl/dynamic_bitset\<close> and \<open>dynamic_bitset.cpp\<close>, and the Bloom filter
  of \<open>src/crypto/bloom-filter.{h,cpp}\<close> over them.  The blocks are words of any width that is a
  multiple of eight; single bits are reached through the bytes of the block array, in the order a
  little-endian machine has them.  A position must lie inside the array: the code does not check.
\<close>

section \<open>The class\<close>

record 'w dynamic_bitset =
  bs_size :: nat
  m_data :: "'w list"

text \<open>The byte \<open>j\<close> of the array of blocks, read and written.\<close>

definition byte_at :: "'b::len word list \<Rightarrow> nat \<Rightarrow> byte" where
  "byte_at d j = ucast (drop_bit (8 * (j mod (LENGTH('b) div 8))) (d ! (j div (LENGTH('b) div 8))))"

definition byte_put :: "'b::len word list \<Rightarrow> nat \<Rightarrow> byte \<Rightarrow> 'b word list" where
  "byte_put d j v = (let i = j div (LENGTH('b) div 8); s = 8 * (j mod (LENGTH('b) div 8))
     in d[i := (d ! i AND NOT (push_bit s 0xFF)) OR push_bit s (ucast v)])"

definition num_blocks :: "'b::len itself \<Rightarrow> nat \<Rightarrow> nat" where
  "num_blocks t n = (n + LENGTH('b) - 1) div LENGTH('b)"

definition ClearLastBits :: "'b::len word dynamic_bitset \<Rightarrow> 'b word dynamic_bitset" where
  "ClearLastBits b = (let bits = bs_size b mod LENGTH('b)
     in if bits \<noteq> 0
        then b\<lparr>m_data := (m_data b)[length (m_data b) - 1 := last (m_data b) AND (push_bit bits 1 - 1)]\<rparr>
        else b)"

definition new_bitset :: "nat \<Rightarrow> 'b::len word dynamic_bitset" where
  "new_bitset n = \<lparr>bs_size = n, m_data = replicate (num_blocks TYPE('b) n) 0\<rparr>"

definition resize_data :: "nat \<Rightarrow> 'b::len word list \<Rightarrow> 'b word list" where
  "resize_data n d = take n d @ replicate (n - length d) 0"

definition resize :: "'b::len word dynamic_bitset \<Rightarrow> nat \<Rightarrow> 'b word dynamic_bitset" where
  "resize b n = ClearLastBits \<lparr>bs_size = n, m_data = resize_data (num_blocks TYPE('b) n) (m_data b)\<rparr>"

definition test :: "'b::len word dynamic_bitset \<Rightarrow> nat \<Rightarrow> bool" where
  "test b pos \<longleftrightarrow> byte_at (m_data b) (drop_bit 3 pos) AND push_bit (pos AND 7) 1 \<noteq> 0"

definition contains :: "'b::len word dynamic_bitset \<Rightarrow> nat \<Rightarrow> bool" where
  "contains b pos \<longleftrightarrow> pos < bs_size b \<and> test b pos"

definition put_byte :: "'b::len word dynamic_bitset \<Rightarrow> nat \<Rightarrow> (byte \<Rightarrow> byte) \<Rightarrow> 'b word dynamic_bitset" where
  "put_byte b pos f = b\<lparr>m_data := byte_put (m_data b) (drop_bit 3 pos)
     (f (byte_at (m_data b) (drop_bit 3 pos)))\<rparr>"

definition set_bit_at :: "'b::len word dynamic_bitset \<Rightarrow> nat \<Rightarrow> 'b word dynamic_bitset" where
  "set_bit_at b pos = put_byte b pos (\<lambda>v. v OR push_bit (pos AND 7) 1)"

definition replace :: "'b::len word dynamic_bitset \<Rightarrow> nat \<Rightarrow> bool \<Rightarrow> 'b word dynamic_bitset" where
  "replace b pos val = put_byte b pos
     (\<lambda>v. (v AND NOT (push_bit (pos AND 7) 1)) OR push_bit (pos AND 7) (of_bool val))"

definition reset :: "'b::len word dynamic_bitset \<Rightarrow> nat \<Rightarrow> 'b word dynamic_bitset" where
  "reset b pos = put_byte b pos (\<lambda>v. v AND NOT (push_bit (pos AND 7) 1))"

definition flip :: "'b::len word dynamic_bitset \<Rightarrow> nat \<Rightarrow> 'b word dynamic_bitset" where
  "flip b pos = put_byte b pos (\<lambda>v. v XOR push_bit (pos AND 7) 1)"

definition push_back :: "'b::len word dynamic_bitset \<Rightarrow> bool \<Rightarrow> 'b word dynamic_bitset" where
  "push_back b val = (let b = resize b (bs_size b + 1) in replace b (bs_size b - 1) val)"

definition clear :: "'b::len word dynamic_bitset \<Rightarrow> 'b word dynamic_bitset" where
  "clear b = resize b 0"

definition set_all :: "'b::len word dynamic_bitset \<Rightarrow> 'b word dynamic_bitset" where
  "set_all b = ClearLastBits (b\<lparr>m_data := map (\<lambda>w. - 1) (m_data b)\<rparr>)"

definition reset_all :: "'b::len word dynamic_bitset \<Rightarrow> 'b word dynamic_bitset" where
  "reset_all b = b\<lparr>m_data := map (\<lambda>w. 0) (m_data b)\<rparr>"

definition complement :: "'b::len word dynamic_bitset \<Rightarrow> 'b word dynamic_bitset" where
  "complement b = ClearLastBits (b\<lparr>m_data := map (\<lambda>w. NOT w) (m_data b)\<rparr>)"

definition and_assign :: "'b::len word dynamic_bitset \<Rightarrow> 'b word dynamic_bitset \<Rightarrow> 'b word dynamic_bitset" where
  "and_assign b c = (let m = min (length (m_data b)) (length (m_data c))
     in b\<lparr>m_data := map2 (AND) (take m (m_data b)) (take m (m_data c))
                     @ map (\<lambda>w. 0) (drop m (m_data b))\<rparr>)"

definition or_assign :: "'b::len word dynamic_bitset \<Rightarrow> 'b word dynamic_bitset \<Rightarrow> 'b word dynamic_bitset" where
  "or_assign b c = (let m = min (length (m_data b)) (length (m_data c))
     in ClearLastBits (b\<lparr>m_data := map2 (OR) (take m (m_data b)) (take m (m_data c))
                     @ drop m (m_data b)\<rparr>))"

definition xor_assign :: "'b::len word dynamic_bitset \<Rightarrow> 'b word dynamic_bitset \<Rightarrow> 'b word dynamic_bitset" where
  "xor_assign b c = (let m = min (length (m_data b)) (length (m_data c))
     in ClearLastBits (b\<lparr>m_data := map2 (XOR) (take m (m_data b)) (take m (m_data c))
                     @ drop m (m_data b)\<rparr>))"

text \<open>\<open>Or\<close> with an offset, which must be a multiple of the block size.\<close>

fun Or_loop :: "'b::len word list \<Rightarrow> int \<Rightarrow> 'b word list \<Rightarrow> 'b word list" where
  "Or_loop d place [] = d"
| "Or_loop d place (w # ws) = Or_loop
     (if place \<ge> 0 \<and> place < int (length d) then d[nat place := d ! nat place OR w] else d) (place + 1) ws"

definition Or :: "'b::len word dynamic_bitset \<Rightarrow> 'b word dynamic_bitset \<Rightarrow> int \<Rightarrow> 'b word dynamic_bitset res" where
  "Or b c offset = (if offset mod int LENGTH('b) \<noteq> 0 then Inl E_NOTIMPL
     else Inr (b\<lparr>m_data := Or_loop (m_data b) (offset div int LENGTH('b)) (m_data c)\<rparr>))"

definition PopCount :: "'b::len word \<Rightarrow> nat" where
  "PopCount v = sum_list (map (\<lambda>i. unat (drop_bit i v AND 1)) [0..<LENGTH('b)])"

definition count_bits :: "'b::len word dynamic_bitset \<Rightarrow> nat" where
  "count_bits b = sum_list (map PopCount (m_data b))"

definition bitset_eq :: "'b::len word dynamic_bitset \<Rightarrow> 'b word dynamic_bitset \<Rightarrow> bool" where
  "bitset_eq b c \<longleftrightarrow> bs_size b = bs_size c \<and> m_data b = m_data c"

definition ToUInt64AtBytePos :: "byte dynamic_bitset \<Rightarrow> nat \<Rightarrow> u64" where
  "ToUInt64AtBytePos b pos = fold (\<lambda>i r. r OR push_bit i (of_bool (test b (pos + i))))
     [0..<min 64 (bs_size b - pos)] 0"

section \<open>The bits of the array\<close>

definition bit_of :: "'b::len word list \<Rightarrow> nat \<Rightarrow> bool" where
  "bit_of d i \<longleftrightarrow> bit (d ! (i div LENGTH('b))) (i mod LENGTH('b))"

definition bits :: "'b::len word dynamic_bitset \<Rightarrow> bool list" where
  "bits b = map (bit_of (m_data b)) [0..<bs_size b]"

text \<open>As many blocks as the size needs, and nothing behind the last bit.\<close>

definition bs_wf :: "'b::len word dynamic_bitset \<Rightarrow> bool" where
  "bs_wf b \<longleftrightarrow> length (m_data b) = num_blocks TYPE('b) (bs_size b)
     \<and> (\<forall>i. bs_size b \<le> i \<longrightarrow> i < LENGTH('b) * length (m_data b) \<longrightarrow> \<not> bit_of (m_data b) i)"

lemma length_bits [simp]: "length (bits b) = bs_size b"
  by (simp add: bits_def)

lemma nth_bits: "i < bs_size b \<Longrightarrow> bits b ! i = bit_of (m_data b) i"
  by (simp add: bits_def)

lemma num_blocks_le: "n \<le> LENGTH('b) * num_blocks TYPE('b::len) n"
proof -
  define w where "w = LENGTH('b)"
  have w: "0 < w" by (simp add: w_def)
  have "n + w - 1 = w * ((n + w - 1) div w) + (n + w - 1) mod w" by simp
  moreover have "(n + w - 1) mod w < w" using w by simp
  ultimately show ?thesis unfolding num_blocks_def w_def [symmetric] using w by linarith
qed

lemma num_blocks_less: "LENGTH('b) * num_blocks TYPE('b::len) n < n + LENGTH('b)"
proof -
  define w where "w = LENGTH('b)"
  have w: "0 < w" by (simp add: w_def)
  have "w * ((n + w - 1) div w) \<le> n + w - 1" by simp
  then show ?thesis unfolding num_blocks_def w_def [symmetric] using w by linarith
qed

lemma block_index:
  assumes "i < LENGTH('b::len) * length (d :: 'b word list)"
  shows "i div LENGTH('b) < length d"
  using assms by (simp add: less_mult_imp_div_less mult.commute)

lemma byte_index:
  assumes "8 dvd LENGTH('b::len)"
  shows "i div 8 div (LENGTH('b) div 8) = i div LENGTH('b)"
    and "8 * (i div 8 mod (LENGTH('b) div 8)) + i mod 8 = i mod LENGTH('b)"
proof -
  have w: "8 * (LENGTH('b) div 8) = LENGTH('b)" using assms by simp
  show "i div 8 div (LENGTH('b) div 8) = i div LENGTH('b)"
    using div_mult2_eq [of i 8 "LENGTH('b) div 8"] w by simp
  show "8 * (i div 8 mod (LENGTH('b) div 8)) + i mod 8 = i mod LENGTH('b)"
    using mod_mult2_eq [of i 8 "LENGTH('b) div 8"] w by simp
qed

lemma and_7: "pos AND 7 = pos mod 8" for pos :: nat
  using take_bit_eq_mask [of 3 pos] by (simp add: take_bit_eq_mod mask_eq_exp_minus_1)

lemma drop_3: "drop_bit 3 pos = pos div 8" for pos :: nat
  by (simp add: drop_bit_eq_div)

lemma test_bit_of:
  fixes b :: "'b::len word dynamic_bitset"
  assumes w: "8 dvd LENGTH('b)"
  shows "test b pos \<longleftrightarrow> bit_of (m_data b) pos"
proof -
  have "test b pos \<longleftrightarrow> bit (byte_at (m_data b) (pos div 8)) (pos mod 8)"
    unfolding test_def and_7 drop_3 bit_iff_and_push_bit_not_eq_0 by simp
  also have "\<dots> \<longleftrightarrow> bit (m_data b ! (pos div 8 div (LENGTH('b) div 8)))
      (8 * (pos div 8 mod (LENGTH('b) div 8)) + pos mod 8)"
    by (simp add: byte_at_def bit_simps)
  finally show ?thesis by (simp add: bit_of_def byte_index [OF w])
qed


lemma bit_0xFF: "bit (0xFF :: 'a::len word) i \<longleftrightarrow> i < 8 \<and> i < LENGTH('a)"
proof -
  have "(0xFF :: 'a word) = mask 8" by (simp add: mask_eq_exp_minus_1)
  then show ?thesis unfolding \<open>0xFF = mask 8\<close> bit_mask_iff by auto
qed

lemma byte_put_bit:
  fixes d :: "'b::len word list"
  assumes w: "8 dvd LENGTH('b)" and i: "i < LENGTH('b) * length d"
  shows "bit_of (byte_put d j v) i \<longleftrightarrow> (if i div 8 = j then bit v (i mod 8) else bit_of d i)"
proof -
  define k where "k = LENGTH('b) div 8"
  have k: "8 * k = LENGTH('b)" using w by (simp add: k_def)
  have idx: "i div LENGTH('b) = i div 8 div k" "i mod LENGTH('b) = 8 * (i div 8 mod k) + i mod 8"
    using byte_index [OF w, of i] by (simp_all add: k_def)
  have le: "i div 8 div k < length d" using block_index [OF i] idx(1) by simp
  show ?thesis
  proof (cases "i div 8 div k = j div k")
    case False
    then have "i div 8 \<noteq> j" by auto
    then show ?thesis
      using False by (simp add: bit_of_def byte_put_def Let_def k_def [symmetric] idx)
  next
    case True
    have same: "i div 8 = j \<longleftrightarrow> i div 8 mod k = j mod k"
      using True by (metis div_mod_decomp)
    have shift: "8 * (j mod k) \<le> 8 * (i div 8 mod k) + i mod 8
        \<and> 8 * (i div 8 mod k) + i mod 8 - 8 * (j mod k) < 8 \<longleftrightarrow> i div 8 mod k = j mod k"
      by (auto simp: not_le)
    have lt: "8 * (i div 8 mod k) + i mod 8 < LENGTH('b)" using idx(2) by (metis len_gt_0 mod_less_divisor)
    define M :: "'b word" where "M = 0xFF"
    have M: "bit M n \<longleftrightarrow> n < 8 \<and> n < LENGTH('b)" for n by (simp only: M_def bit_0xFF)
    have "bit_of (byte_put d j v) i \<longleftrightarrow> bit ((d ! (i div 8 div k) AND NOT (push_bit (8 * (j mod k)) M))
        OR push_bit (8 * (j mod k)) (ucast v)) (8 * (i div 8 mod k) + i mod 8)"
      using le True by (simp add: bit_of_def byte_put_def Let_def k_def [symmetric] idx M_def)
    also have "\<dots> \<longleftrightarrow> (if i div 8 mod k = j mod k then bit v (i mod 8)
        else bit (d ! (i div 8 div k)) (8 * (i div 8 mod k) + i mod 8))"
      using lt shift by (auto simp: bit_simps M dest: bit_byte_less)
    finally show ?thesis using same by (simp add: bit_of_def idx)
  qed
qed

lemma length_byte_put [simp]: "length (byte_put d j v) = length d"
  by (simp add: byte_put_def Let_def)

lemma bit_byte_at:
  fixes d :: "'b::len word list"
  assumes w: "8 dvd LENGTH('b)"
  shows "bit (byte_at d (i div 8)) (i mod 8) \<longleftrightarrow> bit_of d i"
  by (simp add: byte_at_def bit_simps bit_of_def byte_index [OF w])

text \<open>A byte operation that changes one bit of the byte.\<close>

lemma put_byte_bit:
  fixes b :: "'b::len word dynamic_bitset"
  assumes w: "8 dvd LENGTH('b)" and i: "i < LENGTH('b) * length (m_data b)"
    and f: "\<And>v k. k < 8 \<Longrightarrow> bit (f v) k \<longleftrightarrow> (if k = pos mod 8 then g (bit v k) else bit v k)"
  shows "bit_of (m_data (put_byte b pos f)) i
    \<longleftrightarrow> (if i = pos then g (bit_of (m_data b) i) else bit_of (m_data b) i)"
proof -
  have "i div 8 = pos div 8 \<and> i mod 8 = pos mod 8 \<longleftrightarrow> i = pos" by (metis div_mod_decomp)
  moreover have "bit_of (m_data (put_byte b pos f)) i \<longleftrightarrow> (if i div 8 = pos div 8
      then bit (f (byte_at (m_data b) (pos div 8))) (i mod 8) else bit_of (m_data b) i)"
    using byte_put_bit [OF w i] by (simp add: put_byte_def drop_3)
  moreover have "bit (f (byte_at (m_data b) (pos div 8))) (i mod 8)
      \<longleftrightarrow> (if i mod 8 = pos mod 8 then g (bit_of (m_data b) i) else bit_of (m_data b) i)"
    if "i div 8 = pos div 8"
    using bit_byte_at [OF w, of "m_data b" i] that f [of "i mod 8"]
    by (cases "i mod 8 = pos mod 8") simp_all
  ultimately show ?thesis by auto
qed

lemma put_byte_size [simp]:
  "bs_size (put_byte b pos f) = bs_size b" "length (m_data (put_byte b pos f)) = length (m_data b)"
  by (simp_all add: put_byte_def)

lemma wf_index: "bs_wf (b :: 'b::len word dynamic_bitset) \<Longrightarrow> i < bs_size b
    \<Longrightarrow> i < LENGTH('b) * length (m_data b)"
  using num_blocks_le [where 'b = 'b, of "bs_size b"] by (simp add: bs_wf_def)

lemma put_byte_bits:
  fixes b :: "'b::len word dynamic_bitset"
  assumes w: "8 dvd LENGTH('b)" and wf: "bs_wf b" and pos: "pos < bs_size b"
    and f: "\<And>v k. k < 8 \<Longrightarrow> bit (f v) k \<longleftrightarrow> (if k = pos mod 8 then g (bit v k) else bit v k)"
  shows "bits (put_byte b pos f) = (bits b)[pos := g (bits b ! pos)]" and "bs_wf (put_byte b pos f)"
proof -
  note bit = put_byte_bit [where pos = pos and f = f and g = g, OF w _ f]
  show "bits (put_byte b pos f) = (bits b)[pos := g (bits b ! pos)]"
  proof (rule nth_equalityI)
    fix i
    assume "i < length (bits (put_byte b pos f))"
    then have i: "i < bs_size b" by simp
    then show "bits (put_byte b pos f) ! i = (bits b)[pos := g (bits b ! pos)] ! i"
      using bit [OF wf_index [OF wf i]] pos by (simp add: nth_bits nth_list_update)
  qed simp
  show "bs_wf (put_byte b pos f)" using wf pos bit by (auto simp: bs_wf_def)
qed

lemma bit_one_at: "bit (push_bit k 1 :: byte) j \<longleftrightarrow> j = k \<and> k < 8"
  by (auto simp: bit_simps)

lemma single_bit_ops:
  fixes b :: "'b::len word dynamic_bitset"
  assumes w: "8 dvd LENGTH('b)" and wf: "bs_wf b" and pos: "pos < bs_size b"
  shows "bits (set_bit_at b pos) = (bits b)[pos := True]" and "bs_wf (set_bit_at b pos)"
    and "bits (replace b pos v) = (bits b)[pos := v]" and "bs_wf (replace b pos v)"
    and "bits (reset b pos) = (bits b)[pos := False]" and "bs_wf (reset b pos)"
    and "bits (flip b pos) = (bits b)[pos := \<not> bits b ! pos]" and "bs_wf (flip b pos)"
proof -
  note rules = put_byte_bits [OF w wf pos]
  show "bits (set_bit_at b pos) = (bits b)[pos := True]" "bs_wf (set_bit_at b pos)"
    unfolding set_bit_at_def and_7
    by (rule rules [where g = "\<lambda>x. True"], auto simp: bit_simps bit_one_at)+
  show "bits (replace b pos v) = (bits b)[pos := v]" "bs_wf (replace b pos v)"
    unfolding replace_def and_7
    by (rule rules [where g = "\<lambda>x. v"], auto simp: bit_simps bit_one_at)+
  show "bits (reset b pos) = (bits b)[pos := False]" "bs_wf (reset b pos)"
    unfolding reset_def and_7
    by (rule rules [where g = "\<lambda>x. False"], auto simp: bit_simps bit_one_at)+
  show "bits (flip b pos) = (bits b)[pos := \<not> bits b ! pos]" "bs_wf (flip b pos)"
    unfolding flip_def and_7
    by (rule rules [where g = "\<lambda>x. \<not> x"], auto simp: bit_simps bit_one_at)+
qed

lemma test_bits:
  fixes b :: "'b::len word dynamic_bitset"
  assumes "8 dvd LENGTH('b)" and "pos < bs_size b"
  shows "test b pos = bits b ! pos"
  using test_bit_of [OF assms(1)] assms(2) by (simp add: nth_bits)


lemma map_data_bits:
  assumes "\<And>i. i < bs_size b \<Longrightarrow> bit_of (m_data c) i \<longleftrightarrow> P i" and "bs_size c = bs_size b"
  shows "bits c = map P [0..<bs_size b]"
  using assms by (simp add: bits_def)

text \<open>Clearing the unused bits of the last block.\<close>

lemma ClearLastBits_size [simp]:
  "bs_size (ClearLastBits b) = bs_size b" "length (m_data (ClearLastBits b)) = length (m_data b)"
  by (simp_all add: ClearLastBits_def Let_def)

lemma ClearLastBits_bit:
  fixes b :: "'b::len word dynamic_bitset"
  assumes len: "length (m_data b) = num_blocks TYPE('b) (bs_size b)"
    and i: "i < LENGTH('b) * length (m_data b)"
  shows "bit_of (m_data (ClearLastBits b)) i \<longleftrightarrow> bit_of (m_data b) i \<and> i < bs_size b"
proof -
  define w where "w = LENGTH('b)"
  define r where "r = bs_size b mod w"
  define m where "m = length (m_data b)"
  have w: "0 < w" by (simp add: w_def)
  have bounds: "bs_size b \<le> w * m" "w * m < bs_size b + w"
    using num_blocks_le [where 'b = 'b, of "bs_size b"] num_blocks_less [where 'b = 'b, of "bs_size b"]
    by (simp_all add: w_def m_def len)
  show ?thesis
  proof (cases "r = 0")
    case True
    then obtain q where q: "bs_size b = w * q" by (auto simp: r_def)
    then have a: "w * m < w * (q + 1)" and c: "w * q \<le> w * m" using bounds by simp_all
    have "m < q + 1" using a by (rule mult_less_cancel1 [THEN iffD1, THEN conjunct2])
    moreover have "q \<le> m" using c w by simp
    ultimately have "m = q" by simp
    then have "i < bs_size b" using i q by (simp add: w_def m_def)
    then show ?thesis using True by (simp add: ClearLastBits_def Let_def r_def w_def)
  next
    case False
    define q where "q = bs_size b div w"
    have q: "bs_size b = w * q + r" "r < w" using w by (simp_all add: q_def r_def)
    have "w * q < w * m" using bounds(1) q(1) False by linarith
    then have a: "q < m" by simp
    have "w * m < w * (q + 2)" using bounds(2) q by simp
    then have "m < q + 2" by (rule mult_less_cancel1 [THEN iffD1, THEN conjunct2])
    then have m: "m = q + 1" using a by simp
    have d: "m_data (ClearLastBits b) = (m_data b)[q := last (m_data b) AND mask r]"
      using False m by (simp add: ClearLastBits_def Let_def r_def w_def [symmetric] mask_eq_exp_minus_1
        m_def [symmetric])
    have last: "last (m_data b) = m_data b ! q"
      using m last_conv_nth [of "m_data b"] by (cases "m_data b = []") (simp_all add: m_def)
    have iq: "i div w \<le> q" using i m by (simp add: m_def [symmetric] w_def [symmetric] less_mult_imp_div_less
          mult.commute flip: less_Suc_eq_le)
    show ?thesis
    proof (cases "i div w = q")
      case True
      then have "i < bs_size b \<longleftrightarrow> i mod w < r"
        using q(1) div_mult_mod_eq [of i w] by (metis add_less_cancel_left mult.commute)
      moreover have "i mod w < LENGTH('b)" using w by (simp add: w_def)
      ultimately show ?thesis
        using True m by (auto simp: bit_of_def d last w_def [symmetric] m_def [symmetric] bit_simps)
    next
      case False
      then have "i div w < q" using iq by simp
      then have "i < w * q" using w by (simp add: div_less_iff_less_mult mult.commute)
      then show ?thesis using False q(1) by (simp add: bit_of_def d w_def [symmetric])
    qed
  qed
qed

lemma ClearLastBits_bits:
  fixes b :: "'b::len word dynamic_bitset"
  assumes "length (m_data b) = num_blocks TYPE('b) (bs_size b)"
  shows "bits (ClearLastBits b) = bits b" and "bs_wf (ClearLastBits b)"
proof -
  have lt: "i < LENGTH('b) * length (m_data b)" if "i < bs_size b" for i
    using that num_blocks_le [where 'b = 'b, of "bs_size b"] assms by simp
  show "bits (ClearLastBits b) = bits b"
    using ClearLastBits_bit [OF assms lt] by (simp add: bits_def)
  show "bs_wf (ClearLastBits b)"
    using assms ClearLastBits_bit [OF assms] by (simp add: bs_wf_def)
qed

lemma new_bitset_bits: "bits (new_bitset n :: 'b::len word dynamic_bitset) = replicate n False"
    "bs_wf (new_bitset n :: 'b::len word dynamic_bitset)"
proof -
  have z: "\<not> bit_of (replicate k 0 :: 'b word list) i" if "i < LENGTH('b) * k" for i k
    using that block_index [where 'b = 'b, of i "replicate k 0"] by (simp add: bit_of_def)
  have "i < LENGTH('b) * num_blocks TYPE('b) n" if "i < n" for i
    using that num_blocks_le [where 'b = 'b, of n] by simp
  then show "bits (new_bitset n :: 'b word dynamic_bitset) = replicate n False"
    using z by (intro nth_equalityI) (simp_all add: nth_bits new_bitset_def)
  show "bs_wf (new_bitset n :: 'b word dynamic_bitset)"
    using z by (simp add: bs_wf_def new_bitset_def)
qed


lemma resize_bits:
  fixes b :: "'b::len word dynamic_bitset"
  assumes wf: "bs_wf b"
  shows "bits (resize b n) = take n (bits b) @ replicate (n - bs_size b) False" and "bs_wf (resize b n)"
    and "bs_size (resize b n) = n"
proof -
  define c :: "'b word dynamic_bitset" where
    "c = \<lparr>bs_size = n, m_data = resize_data (num_blocks TYPE('b) n) (m_data b)\<rparr>"
  have len: "length (m_data c) = num_blocks TYPE('b) (bs_size c)"
    by (simp add: c_def resize_data_def)
  have r: "resize b n = ClearLastBits c" by (simp add: resize_def c_def)
  have "bit_of (m_data c) i \<longleftrightarrow> i < bs_size b \<and> bit_of (m_data b) i" if i: "i < n" for i
  proof -
    have n: "i < LENGTH('b) * num_blocks TYPE('b) n"
      using i num_blocks_le [where 'b = 'b, of n] by simp
    then have block: "i div LENGTH('b) < num_blocks TYPE('b) n"
      by (simp add: less_mult_imp_div_less mult.commute)
    show ?thesis
    proof (cases "i div LENGTH('b) < length (m_data b)")
      case True
      then have "i < LENGTH('b) * length (m_data b)"
        by (simp add: div_less_iff_less_mult mult.commute)
      then have "\<not> i < bs_size b \<Longrightarrow> \<not> bit_of (m_data b) i" using wf by (simp add: bs_wf_def)
      moreover have "bit_of (m_data c) i = bit_of (m_data b) i"
        using True block by (simp add: bit_of_def c_def resize_data_def nth_append)
      ultimately show ?thesis by blast
    next
      case False
      then have "\<not> i < bs_size b" using wf_index [OF wf, of i] block_index [of i "m_data b"] by blast
      then show ?thesis
        using False block by (simp add: bit_of_def c_def resize_data_def nth_append)
    qed
  qed
  then have "bits c = take n (bits b) @ replicate (n - bs_size b) False"
    by (intro nth_equalityI) (auto simp: nth_bits nth_append c_def)
  then show "bits (resize b n) = take n (bits b) @ replicate (n - bs_size b) False"
    and "bs_wf (resize b n)" "bs_size (resize b n) = n"
    using ClearLastBits_bits [OF len] by (simp_all add: r) (simp add: c_def)
qed

lemma push_back_bits:
  fixes b :: "'b::len word dynamic_bitset"
  assumes w: "8 dvd LENGTH('b)" and wf: "bs_wf b"
  shows "bits (push_back b v) = bits b @ [v]" and "bs_wf (push_back b v)"
    and "bs_size (push_back b v) = bs_size b + 1"
proof -
  note r = resize_bits [OF wf, of "bs_size b + 1"]
  have pos: "bs_size b < bs_size (resize b (bs_size b + 1))" using r(3) by simp
  have e: "bits (resize b (Suc (bs_size b))) = bits b @ [False]" using r(1) by simp
  show "bits (push_back b v) = bits b @ [v]" and "bs_wf (push_back b v)"
    using single_bit_ops(3,4) [OF w r(2) pos, of v] r(3)
    by (simp_all add: push_back_def Let_def e list_update_append)
  show "bs_size (push_back b v) = bs_size b + 1"
    using r(3) by (simp add: push_back_def Let_def replace_def)
qed

lemma clear_bits:
  assumes "bs_wf b"
  shows "bits (clear b) = []" and "bs_wf (clear b)"
  using resize_bits [OF assms, of 0] by (simp_all add: clear_def)

text \<open>Operations on whole blocks.\<close>

lemma bit_of_map2:
  fixes xs ys zs :: "'b::len word list" and f :: "'b word \<Rightarrow> 'b word \<Rightarrow> 'b word"
  assumes "\<And>v w k. bit (f v w) k \<longleftrightarrow> g (bit v k) (bit w k)"
    and "m = min (length xs) (length ys)" and "i < LENGTH('b) * length xs"
  shows "bit_of (map2 f (take m xs) (take m ys) @ zs) i \<longleftrightarrow> (if i < LENGTH('b) * m
    then g (bit_of xs i) (bit_of ys i) else bit_of zs (i - LENGTH('b) * m))"
proof (cases "i < LENGTH('b) * m")
  case True
  then have "i div LENGTH('b) < m" by (simp add: less_mult_imp_div_less mult.commute)
  then show ?thesis using True assms(1,2) by (simp add: bit_of_def nth_append)
next
  case False
  then obtain j where j: "i = LENGTH('b) * m + j" by (metis le_add_diff_inverse not_less)
  then have "i div LENGTH('b) = m + j div LENGTH('b)" "i mod LENGTH('b) = j mod LENGTH('b)" by simp_all
  moreover have "length (map2 f (take m xs) (take m ys)) = m" using assms(2) by simp
  ultimately show ?thesis using False by (simp only: bit_of_def nth_append) (simp add: j)
qed

lemma bit_of_drop:
  fixes xs :: "'b::len word list"
  assumes "LENGTH('b) * m \<le> i" and "m \<le> length xs"
  shows "bit_of (drop m xs) (i - LENGTH('b) * m) = bit_of xs i"
proof -
  obtain j where j: "i = LENGTH('b) * m + j" using assms(1) by (metis le_add_diff_inverse)
  then have "i div LENGTH('b) = m + j div LENGTH('b)" "i mod LENGTH('b) = j mod LENGTH('b)" by simp_all
  then show ?thesis using assms(2) by (simp add: bit_of_def j)
qed

text \<open>The bit \<open>i\<close> of another set, which has none behind its size.\<close>

definition bit_at :: "'b::len word dynamic_bitset \<Rightarrow> nat \<Rightarrow> bool" where
  "bit_at c i \<longleftrightarrow> i < bs_size c \<and> bits c ! i"

lemma bit_at_of:
  fixes c :: "'b::len word dynamic_bitset"
  assumes "bs_wf c" and "i < LENGTH('b) * length (m_data c)"
  shows "bit_of (m_data c) i = bit_at c i"
  using assms by (cases "i < bs_size c") (simp_all add: bit_at_def nth_bits bs_wf_def not_less)

lemma bit_at_beyond:
  fixes c :: "'b::len word dynamic_bitset"
  assumes "bs_wf c" and "\<not> i < LENGTH('b) * length (m_data c)"
  shows "\<not> bit_at c i"
  using assms wf_index [OF assms(1), of i] by (auto simp: bit_at_def)


lemma binary_bits:
  fixes b c :: "'b::len word dynamic_bitset"
  assumes wf: "bs_wf b" "bs_wf c"
    and f: "\<And>v w k. bit (f v w) k \<longleftrightarrow> g (bit v k) (bit w k)" and i: "i < LENGTH('b) * length (m_data b)"
    and m: "m = min (length (m_data b)) (length (m_data c))"
    and rest: "\<And>i. LENGTH('b) * m \<le> i \<Longrightarrow> i < LENGTH('b) * length (m_data b)
        \<Longrightarrow> bit_of zs (i - LENGTH('b) * m) = g (bit_of (m_data b) i) False"
  shows "bit_of (map2 f (take m (m_data b)) (take m (m_data c)) @ (zs :: 'b word list)) i
    \<longleftrightarrow> g (bit_at b i) (bit_at c i)"
proof (cases "i < LENGTH('b) * m")
  case True
  have "LENGTH('b) * m \<le> LENGTH('b) * length (m_data c)" by (simp add: m)
  then have "i < LENGTH('b) * length (m_data c)" using True by linarith
  then show ?thesis
    using bit_of_map2 [where f = f and g = g, OF f m i, of zs] True bit_at_of [OF wf(1) i] bit_at_of [OF wf(2)] by simp
next
  case False
  then have "length (m_data c) = m \<or> length (m_data b) = m" by (auto simp: m)
  then have "length (m_data c) = m" using i False by auto
  then have "\<not> bit_at c i" using bit_at_beyond [OF wf(2)] False by simp
  then show ?thesis
    using bit_of_map2 [where f = f and g = g, OF f m i, of zs] False rest [of i] i bit_at_of [OF wf(1) i] by simp
qed

lemma whole_bits:
  fixes b c :: "'b::len word dynamic_bitset"
  assumes wf: "bs_wf b" "bs_wf c"
  shows "bits (and_assign b c) = map (\<lambda>i. bit_at b i \<and> bit_at c i) [0..<bs_size b]" "bs_wf (and_assign b c)"
    and "bits (or_assign b c) = map (\<lambda>i. bit_at b i \<or> bit_at c i) [0..<bs_size b]" "bs_wf (or_assign b c)"
    and "bits (xor_assign b c) = map (\<lambda>i. bit_at b i \<noteq> bit_at c i) [0..<bs_size b]" "bs_wf (xor_assign b c)"
    and "bits (complement b) = map Not (bits b)" "bs_wf (complement b)"
    and "bits (set_all b) = replicate (bs_size b) True" "bs_wf (set_all b)"
    and "bits (reset_all b) = replicate (bs_size b) False" "bs_wf (reset_all b)"
proof -
  define m where "m = min (length (m_data b)) (length (m_data c))"
  have mb: "m \<le> length (m_data b)" by (simp add: m_def)
  note lt = wf_index [OF wf(1)]
  have out: "\<not> bit_at b i" if "bs_size b \<le> i" for i using that by (simp add: bit_at_def)
  have zero: "bit_of (map (\<lambda>w. 0 :: 'b word) (drop m (m_data b))) (i - LENGTH('b) * m)
      = (bit_of (m_data b) i \<and> False)"
    if "LENGTH('b) * m \<le> i" "i < LENGTH('b) * length (m_data b)" for i
  proof -
    have "i - LENGTH('b) * m < LENGTH('b) * length (drop m (m_data b))"
      using that by (simp add: right_diff_distrib')
    then show ?thesis
      using block_index [of "i - LENGTH('b) * m" "drop m (m_data b)"] by (simp add: bit_of_def)
  qed
  have a: "bit_of (m_data (and_assign b c)) i \<longleftrightarrow> bit_at b i \<and> bit_at c i"
    if "i < LENGTH('b) * length (m_data b)" for i
    using binary_bits [OF wf, of "(AND)" "(\<and>)", OF bit_and_iff that m_def zero]
    by (simp add: and_assign_def Let_def m_def)
  have la: "bs_size (and_assign b c) = bs_size b" "length (m_data (and_assign b c)) = length (m_data b)"
    by (simp_all add: and_assign_def Let_def)
  show "bits (and_assign b c) = map (\<lambda>i. bit_at b i \<and> bit_at c i) [0..<bs_size b]"
    using a lt by (simp add: bits_def la)
  show "bs_wf (and_assign b c)" using a out wf(1) by (auto simp: bs_wf_def la)
  define ob where "ob = b\<lparr>m_data := map2 (OR) (take m (m_data b)) (take m (m_data c)) @ drop m (m_data b)\<rparr>"
  have lo: "bs_size ob = bs_size b" "length (m_data ob) = length (m_data b)"
    by (simp_all add: ob_def m_def)
  have wo: "length (m_data ob) = num_blocks TYPE('b) (bs_size ob)" using wf(1) by (simp add: lo bs_wf_def)
  have o: "bit_of (m_data ob) i \<longleftrightarrow> bit_at b i \<or> bit_at c i" if "i < bs_size b" for i
    using binary_bits [OF wf, of "(OR)" "(\<or>)", OF bit_or_iff lt [OF that] m_def, of "drop m (m_data b)"]
      bit_of_drop [OF _ mb] by (simp add: ob_def)
  have "or_assign b c = ClearLastBits ob" by (simp add: or_assign_def Let_def ob_def m_def)
  then show "bits (or_assign b c) = map (\<lambda>i. bit_at b i \<or> bit_at c i) [0..<bs_size b]" "bs_wf (or_assign b c)"
    using ClearLastBits_bits [OF wo] o by (simp_all add: bits_def lo)
  define xb where "xb = b\<lparr>m_data := map2 (XOR) (take m (m_data b)) (take m (m_data c)) @ drop m (m_data b)\<rparr>"
  have lx: "bs_size xb = bs_size b" "length (m_data xb) = length (m_data b)"
    by (simp_all add: xb_def m_def)
  have wx: "length (m_data xb) = num_blocks TYPE('b) (bs_size xb)" using wf(1) by (simp add: lx bs_wf_def)
  have x: "bit_of (m_data xb) i \<longleftrightarrow> bit_at b i \<noteq> bit_at c i" if "i < bs_size b" for i
    using binary_bits [OF wf, of "(XOR)" "(\<noteq>)", OF bit_xor_iff lt [OF that] m_def, of "drop m (m_data b)"]
      bit_of_drop [OF _ mb] by (simp add: xb_def)
  have "xor_assign b c = ClearLastBits xb" by (simp add: xor_assign_def Let_def xb_def m_def)
  then show "bits (xor_assign b c) = map (\<lambda>i. bit_at b i \<noteq> bit_at c i) [0..<bs_size b]" "bs_wf (xor_assign b c)"
    using ClearLastBits_bits [OF wx] x by (simp_all add: bits_def lx)
  have map_bit: "bit_of (map f (m_data b)) i \<longleftrightarrow> bit (f (m_data b ! (i div LENGTH('b)))) (i mod LENGTH('b))"
    if "i < bs_size b" for i and f :: "'b word \<Rightarrow> 'b word"
    using block_index [OF lt [OF that]] by (simp add: bit_of_def)
  have cl: "bits (ClearLastBits (b\<lparr>m_data := map f (m_data b)\<rparr>)) = map (\<lambda>i. bit_of (map f (m_data b)) i) [0..<bs_size b]"
      "bs_wf (ClearLastBits (b\<lparr>m_data := map f (m_data b)\<rparr>))" for f :: "'b word \<Rightarrow> 'b word"
    using ClearLastBits_bits [of "b\<lparr>m_data := map f (m_data b)\<rparr>"] wf(1) by (simp_all add: bs_wf_def bits_def)
  show "bits (complement b) = map Not (bits b)" "bs_wf (complement b)"
    using cl [of "\<lambda>w. NOT w"] map_bit
    by (simp_all add: complement_def bits_def bit_not_iff) (simp add: bit_of_def)
  show "bits (set_all b) = replicate (bs_size b) True" "bs_wf (set_all b)"
    using cl [of "\<lambda>w. - 1"] map_bit by (simp_all add: set_all_def map_replicate_trivial [symmetric])
  show "bits (reset_all b) = replicate (bs_size b) False"
    using map_bit [of _ "\<lambda>w. 0"] by (simp add: reset_all_def bits_def map_replicate_trivial [symmetric])
  show "bs_wf (reset_all b)"
    using wf(1) block_index [of _ "m_data b"] by (auto simp: reset_all_def bs_wf_def bit_of_def)
qed


section \<open>Counting, comparing, combining at an offset\<close>

lemma PopCount_filter: "PopCount (v :: 'b::len word) = length (filter (bit v) [0..<LENGTH('b)])"
proof -
  have one: "unat (drop_bit i v AND 1) = of_bool (bit v i)" for i
    by (simp add: and_one_eq bit_iff_odd_drop_bit odd_iff_mod_2_eq_one)
  have "sum_list (map (\<lambda>i. of_bool (P i) :: nat) xs) = length (filter P xs)" for P and xs :: "nat list"
    by (induction xs) simp_all
  then show ?thesis by (simp add: PopCount_def one)
qed

lemma bit_of_Cons:
  fixes w :: "'b::len word"
  shows "i < LENGTH('b) \<Longrightarrow> bit_of (w # d) i = bit w i" and "bit_of (w # d) (LENGTH('b) + i) = bit_of d i"
proof -
  have "(LENGTH('b) + i) div LENGTH('b) = Suc (i div LENGTH('b))"
    using div_add_self1 [of "LENGTH('b)" i] by simp
  then show "bit_of (w # d) (LENGTH('b) + i) = bit_of d i" by (simp add: bit_of_def)
qed (simp add: bit_of_def)

lemma count_data: "sum_list (map PopCount d) = length (filter (bit_of d) [0..<LENGTH('b) * length d])"
  for d :: "'b::len word list"
proof (induction d)
  case Nil
  then show ?case by simp
next
  case (Cons w d)
  have "[0..<LENGTH('b) * length (w # d)]
      = [0..<LENGTH('b)] @ map (\<lambda>i. LENGTH('b) + i) [0..<LENGTH('b) * length d]"
    by (simp add: map_add_upt upt_add_eq_append [of 0] add.commute)
  moreover have "filter (bit_of (w # d)) [0..<LENGTH('b)] = filter (bit w) [0..<LENGTH('b)]"
    by (rule filter_cong) (simp_all add: bit_of_Cons)
  moreover have "length (filter (bit_of (w # d)) (map (\<lambda>i. LENGTH('b) + i) xs)) = length (filter (bit_of d) xs)"
    for xs by (simp add: filter_map o_def bit_of_Cons)
  ultimately show ?case using Cons.IH by (simp add: PopCount_filter)
qed

lemma count_bits_wf:
  fixes b :: "'b::len word dynamic_bitset"
  assumes wf: "bs_wf b"
  shows "count_bits b = length (filter (\<lambda>x. x) (bits b))"
proof -
  have le: "bs_size b \<le> LENGTH('b) * length (m_data b)"
    using wf num_blocks_le [where 'b = 'b, of "bs_size b"] by (simp add: bs_wf_def)
  then have "[0..<LENGTH('b) * length (m_data b)]
      = [0..<bs_size b] @ [bs_size b..<LENGTH('b) * length (m_data b)]"
    using upt_add_eq_append [of 0 "bs_size b" "LENGTH('b) * length (m_data b) - bs_size b"] by simp
  moreover have "filter (bit_of (m_data b)) [bs_size b..<LENGTH('b) * length (m_data b)] = []"
    using wf by (simp add: bs_wf_def filter_empty_conv)
  ultimately show ?thesis by (simp add: count_bits_def count_data bits_def filter_map o_def)
qed

lemma data_eqI:
  fixes d e :: "'b::len word list"
  assumes "length d = length e" and "\<And>i. i < LENGTH('b) * length d \<Longrightarrow> bit_of d i = bit_of e i"
  shows "d = e"
proof (rule nth_equalityI [OF assms(1)])
  fix k
  assume k: "k < length d"
  show "d ! k = e ! k"
  proof (rule bit_word_eqI)
    fix j
    assume j: "j < LENGTH('b)"
    have "LENGTH('b) * k + j < LENGTH('b) * length d"
      using j k mult_le_mono2 [of "k + 1" "length d" "LENGTH('b)"] by simp
    then show "bit (d ! k) j = bit (e ! k) j"
      using assms(2) [of "LENGTH('b) * k + j"] j by (simp add: bit_of_def)
  qed
qed

lemma bitset_eq_bits:
  fixes b c :: "'b::len word dynamic_bitset"
  assumes wf: "bs_wf b" "bs_wf c"
  shows "bitset_eq b c \<longleftrightarrow> bits b = bits c"
proof
  assume "bitset_eq b c"
  then show "bits b = bits c" by (simp add: bitset_eq_def bits_def)
next
  assume e: "bits b = bits c"
  then have s: "bs_size b = bs_size c" by (metis length_bits)
  then have l: "length (m_data b) = length (m_data c)" using wf by (simp add: bs_wf_def)
  have "bit_at b i = bit_at c i" for i using e s by (simp add: bit_at_def)
  then have "m_data b = m_data c" using bit_at_of [OF wf(1)] bit_at_of [OF wf(2)] l by (intro data_eqI) simp_all
  then show "bitset_eq b c" using s by (simp add: bitset_eq_def)
qed

lemma Or_loop_length [simp]: "length (Or_loop d p ws) = length d"
  by (induction d p ws rule: Or_loop.induct) simp_all

lemma Or_loop_bit:
  fixes d ws :: "'b::len word list"
  assumes "i < LENGTH('b) * length d"
  shows "bit_of (Or_loop d p ws) i \<longleftrightarrow> bit_of d i
    \<or> (p * int LENGTH('b) \<le> int i \<and> int i - p * int LENGTH('b) < int (LENGTH('b) * length ws)
       \<and> bit_of ws (nat (int i - p * int LENGTH('b))))"
  using assms
proof (induction d p ws rule: Or_loop.induct)
  case (1 d p)
  then show ?case by auto
next
  case (2 d p w ws)
  define L where "L = int LENGTH('b)"
  define d' where "d' = (if p \<ge> 0 \<and> p < int (length d) then d[nat p := d ! nat p OR w] else d)"
  define j where "j = int i - p * L"
  have L: "0 < L" by (simp add: L_def)
  have idx: "i div LENGTH('b) < length d" using 2(2) by (rule block_index)
  have in_block: "0 \<le> j \<and> j < L \<longleftrightarrow> int i div L = p"
  proof -
    have e: "int i = L * (int i div L) + int i mod L" "0 \<le> int i mod L" "int i mod L < L"
      using L by simp_all
    show ?thesis
    proof
      assume h: "0 \<le> j \<and> j < L"
      then have "int i = p * L + j" by (simp add: j_def)
      then show "int i div L = p" using h L by (simp add: div_pos_pos_trivial)
    next
      assume "int i div L = p"
      then have "j = int i mod L" using e(1) by (simp add: j_def mult.commute)
      then show "0 \<le> j \<and> j < L" using e by simp
    qed
  qed
  have blk: "int i div L = int (i div LENGTH('b))" by (simp add: L_def zdiv_int)
  have first: "bit_of d' i \<longleftrightarrow> bit_of d i \<or> (0 \<le> j \<and> j < L \<and> bit w (nat j))"
  proof (cases "int i div L = p")
    case True
    then have p: "p = int (i div LENGTH('b))" by (simp add: blk)
    then have "nat j = i mod LENGTH('b)"
      by (simp add: j_def L_def minus_mult_div_eq_mod [symmetric] of_nat_mult [symmetric] of_nat_diff
          mult.commute nat_diff_distrib del: of_nat_mult)
    moreover have "0 \<le> j \<and> j < L" using in_block True by blast
    ultimately show ?thesis
      using p idx by (simp add: d'_def bit_of_def bit_or_iff)
  next
    case False
    then have "\<not> (0 \<le> j \<and> j < L)" using in_block by blast
    moreover have "nat p \<noteq> i div LENGTH('b) \<or> p < 0" using False blk by auto
    ultimately show ?thesis by (auto simp: d'_def bit_of_def)
  qed
  have "bit_of (Or_loop d' (p + 1) ws) i \<longleftrightarrow> bit_of d' i \<or> ((p + 1) * L \<le> int i
      \<and> int i - (p + 1) * L < int (LENGTH('b) * length ws) \<and> bit_of ws (nat (int i - (p + 1) * L)))"
    using 2(1) 2(2) by (simp add: d'_def L_def)
  moreover have "(p + 1) * L \<le> int i \<longleftrightarrow> L \<le> j" "int i - (p + 1) * L = j - L" "p * L \<le> int i \<longleftrightarrow> 0 \<le> j"
    by (auto simp: j_def distrib_right)
  ultimately have rec: "bit_of (Or_loop d' (p + 1) ws) i \<longleftrightarrow> bit_of d i \<or> (0 \<le> j \<and> j < L \<and> bit w (nat j))
      \<or> (L \<le> j \<and> j - L < int (LENGTH('b) * length ws) \<and> bit_of ws (nat (j - L)))"
    using first by simp
  have "bit_of (w # ws) (nat j) \<longleftrightarrow> (if j < L then bit w (nat j) else bit_of ws (nat (j - L)))" if "0 \<le> j"
  proof (cases "j < L")
    case True
    then show ?thesis using that bit_of_Cons(1) [of "nat j" w ws] by (simp add: L_def nat_less_iff)
  next
    case False
    then have "nat j = LENGTH('b) + nat (j - L)" by (simp add: L_def nat_diff_distrib')
    then show ?thesis using False bit_of_Cons(2) [of w ws "nat (j - L)"] by simp
  qed
  moreover have "j - L < int (LENGTH('b) * length ws) \<longleftrightarrow> j < int (LENGTH('b) * length (w # ws))"
    by (auto simp: L_def distrib_left)
  moreover have "j < int (LENGTH('b) * length (w # ws))" if "j < L"
  proof -
    have "L \<le> int (LENGTH('b) * length (w # ws))" by (simp add: L_def)
    then show ?thesis using that by linarith
  qed
  ultimately have "(0 \<le> j \<and> j < L \<and> bit w (nat j))
      \<or> (L \<le> j \<and> j - L < int (LENGTH('b) * length ws) \<and> bit_of ws (nat (j - L)))
    \<longleftrightarrow> 0 \<le> j \<and> j < int (LENGTH('b) * length (w # ws)) \<and> bit_of (w # ws) (nat j)"
    using L by (cases "j < L") auto
  moreover have "p * L \<le> int i \<longleftrightarrow> 0 \<le> j" by (auto simp: j_def)
  ultimately show ?case
    using rec unfolding Or_loop.simps d'_def [symmetric] L_def [symmetric] j_def [symmetric] by blast
qed


lemma Or_bits:
  fixes b c :: "'b::len word dynamic_bitset"
  assumes wf: "bs_wf b" "bs_wf c" and r: "Or b c offset = Inr r"
    and i: "i < LENGTH('b) * length (m_data b)"
  shows "bit_of (m_data r) i \<longleftrightarrow> bit_at b i \<or> (offset \<le> int i \<and> bit_at c (nat (int i - offset)))"
    and "bs_size r = bs_size b" and "length (m_data r) = length (m_data b)"
proof -
  have off: "offset div int LENGTH('b) * int LENGTH('b) = offset" and
    data: "m_data r = Or_loop (m_data b) (offset div int LENGTH('b)) (m_data c)"
    using r by (auto simp: Or_def split: if_splits)
  have "int i - offset < int (LENGTH('b) * length (m_data c)) \<and> bit_of (m_data c) (nat (int i - offset))
      \<longleftrightarrow> bit_at c (nat (int i - offset))" if "offset \<le> int i"
  proof (cases "nat (int i - offset) < LENGTH('b) * length (m_data c)")
    case True
    then show ?thesis using that bit_at_of [OF wf(2)] by (simp add: nat_less_iff)
  next
    case False
    then show ?thesis using that bit_at_beyond [OF wf(2)] by (simp add: nat_less_iff)
  qed
  then show "bit_of (m_data r) i \<longleftrightarrow> bit_at b i \<or> (offset \<le> int i \<and> bit_at c (nat (int i - offset)))"
    using Or_loop_bit [OF i, of "offset div int LENGTH('b)" "m_data c"] bit_at_of [OF wf(1) i]
    unfolding data off by auto
  show "bs_size r = bs_size b" "length (m_data r) = length (m_data b)"
    using r by (auto simp: Or_def split: if_splits)
qed

lemma ToUInt64_bits:
  assumes wf: "bs_wf b" and k: "k < 64"
  shows "bit (ToUInt64AtBytePos b pos) k \<longleftrightarrow> bit_at b (pos + k)"
proof -
  have t: "test b i = bit_at b i" if "i < bs_size b" for i
    using test_bits [where b = b and pos = i] that by (simp add: bit_at_def)
  have step: "bit (fold (\<lambda>i r. r OR push_bit i (of_bool (test b (pos + i)))) [0..<n] (0 :: u64)) k
      \<longleftrightarrow> k < n \<and> test b (pos + k)" for n
    using k by (induction n) (auto simp: bit_simps less_Suc_eq)
  show ?thesis
    using step [of "min 64 (bs_size b - pos)"] k t [of "pos + k"]
    by (auto simp: ToUInt64AtBytePos_def bit_at_def)
qed

section \<open>Bloom filters\<close>

text \<open>
  The interface a Bloom filter uses: a store of bits of a fixed number of positions in which
  setting one leaves the others.
\<close>

locale bit_store =
  fixes inv :: "'s \<Rightarrow> bool" and positions :: "'s \<Rightarrow> nat"
    and tst :: "'s \<Rightarrow> nat \<Rightarrow> bool" and put :: "'s \<Rightarrow> nat \<Rightarrow> 's"
  assumes put_inv: "inv s \<Longrightarrow> p < positions s \<Longrightarrow> inv (put s p)"
    and put_positions: "inv s \<Longrightarrow> p < positions s \<Longrightarrow> positions (put s p) = positions s"
    and put_tst: "inv s \<Longrightarrow> p < positions s \<Longrightarrow> q < positions s \<Longrightarrow> tst (put s p) q \<longleftrightarrow> q = p \<or> tst s q"
begin

lemma put_many:
  assumes "inv s" and "list_all (\<lambda>p. p < positions s) ps"
  shows "inv (foldl put s ps) \<and> positions (foldl put s ps) = positions s
    \<and> (\<forall>q < positions s. tst (foldl put s ps) q \<longleftrightarrow> q \<in> set ps \<or> tst s q)"
  using assms
proof (induction ps arbitrary: s)
  case Nil
  then show ?case by simp
next
  case (Cons p ps)
  then have "p < positions s" by simp
  then show ?case
    using Cons.IH [of "put s p"] Cons.prems put_inv put_positions put_tst by auto
qed

end

interpretation byte_bits: bit_store bs_wf bs_size test "set_bit_at :: byte dynamic_bitset \<Rightarrow> _"
proof unfold_locales
  fix s :: "byte dynamic_bitset" and p q
  assume s: "bs_wf s" "p < bs_size s"
  then show "bs_wf (set_bit_at s p)" and z: "bs_size (set_bit_at s p) = bs_size s"
    using single_bit_ops(2) [OF _ s] by (simp_all add: set_bit_at_def)
  assume "q < bs_size s"
  then show "test (set_bit_at s p) q = (q = p \<or> test s q)"
    using single_bit_ops(1) [OF _ s] z by (auto simp: test_bits nth_list_update s(2))
qed

record bloom_filter =
  Bitset :: "byte dynamic_bitset"
  HashNum :: int

text \<open>\<open>Hash\<close> is virtual: an argument here.\<close>

definition Bloom_Contains :: "(byte list \<Rightarrow> int \<Rightarrow> nat) \<Rightarrow> bloom_filter \<Rightarrow> byte list \<Rightarrow> bool" where
  "Bloom_Contains Hash f key = list_all (\<lambda>i. test (Bitset f) (Hash key i)) [0..HashNum f - 1]"

definition Bloom_Insert :: "(byte list \<Rightarrow> int \<Rightarrow> nat) \<Rightarrow> byte list \<Rightarrow> bloom_filter \<Rightarrow> bloom_filter" where
  "Bloom_Insert Hash key f =
     f\<lparr>Bitset := foldl (\<lambda>b i. set_bit_at b (Hash key i)) (Bitset f) [0..HashNum f - 1]\<rparr>"

definition Bloom_new :: "nat \<Rightarrow> int \<Rightarrow> bloom_filter" where
  "Bloom_new n k = \<lparr>Bitset = new_bitset n, HashNum = k\<rparr>"


text \<open>The positions that inserting a key sets.\<close>

definition key_bits :: "(byte list \<Rightarrow> int \<Rightarrow> nat) \<Rightarrow> int \<Rightarrow> byte list \<Rightarrow> nat list" where
  "key_bits Hash k key = map (Hash key) [0..k - 1]"

lemma Bloom_Insert_bits:
  "Bitset (Bloom_Insert Hash key f) = foldl set_bit_at (Bitset f) (key_bits Hash (HashNum f) key)"
  "HashNum (Bloom_Insert Hash key f) = HashNum f"
proof -
  have "foldl (\<lambda>b i. set_bit_at b (Hash key i)) s xs = foldl set_bit_at s (map (Hash key) xs)"
    for s :: "byte dynamic_bitset" and xs by (induction xs arbitrary: s) simp_all
  then show "Bitset (Bloom_Insert Hash key f) = foldl set_bit_at (Bitset f) (key_bits Hash (HashNum f) key)"
    by (simp add: Bloom_Insert_def key_bits_def)
qed (simp add: Bloom_Insert_def)

lemma Insert_many:
  "Bitset (fold (Bloom_Insert Hash) keys f)
     = foldl set_bit_at (Bitset f) (concat (map (key_bits Hash (HashNum f)) keys))"
  "HashNum (fold (Bloom_Insert Hash) keys f) = HashNum f"
  by (induction keys arbitrary: f) (simp_all add: Bloom_Insert_bits)

section \<open>Properties\<close>


definition demo_bits :: "byte dynamic_bitset" where
  "demo_bits = push_back (push_back (push_back (new_bitset 7) True) False) True"

lemma demo_bits_wf: "bs_wf demo_bits" "bs_size demo_bits = 10"
    "bits demo_bits = [False, False, False, False, False, False, False, True, False, True]"
proof -
  have "bs_wf (new_bitset 7 :: byte dynamic_bitset)" "bs_size (new_bitset 7 :: byte dynamic_bitset) = 7"
    "bits (new_bitset 7 :: byte dynamic_bitset) = replicate 7 False"
    using new_bitset_bits by (simp_all add: new_bitset_def)
  then show "bs_wf demo_bits" "bs_size demo_bits = 10"
    "bits demo_bits = [False, False, False, False, False, False, False, True, False, True]"
    unfolding demo_bits_def by (simp_all add: push_back_bits numeral_eq_Suc)
qed


text \<open>
  The type invariant, as many blocks as the size needs and no bit behind the last one, holds of new
  sets and is kept by every operation but \<open>Or\<close>.
\<close>

theorem bitset_invariant:
  fixes b c :: "'b::len word dynamic_bitset"
  assumes "8 dvd LENGTH('b)" and "bs_wf b" and "bs_wf c" and "pos < bs_size b"
  shows "bs_wf (new_bitset n :: 'b word dynamic_bitset) \<and> bs_wf (set_bit_at b pos) \<and> bs_wf (reset b pos)
    \<and> bs_wf (replace b pos v) \<and> bs_wf (flip b pos) \<and> bs_wf (push_back b v) \<and> bs_wf (resize b n)
    \<and> bs_wf (clear b) \<and> bs_wf (complement b) \<and> bs_wf (and_assign b c) \<and> bs_wf (or_assign b c)
    \<and> bs_wf (xor_assign b c) \<and> bs_wf (set_all b) \<and> bs_wf (reset_all b)"
  by (intro conjI new_bitset_bits single_bit_ops [OF assms(1,2,4)] push_back_bits [OF assms(1,2)]
      resize_bits [OF assms(2)] whole_bits [OF assms(2,3)] clear_bits [OF assms(2)])

theorem bitset_invariant_witness:
  "bs_wf (complement demo_bits) \<and> bs_wf (push_back demo_bits True) \<and> bs_wf (or_assign demo_bits demo_bits)"
  using bitset_invariant [of demo_bits demo_bits 0 0 True] demo_bits_wf(1,2) by simp


text \<open>
  \<open>Or\<close> at an offset refuses an offset inside a block and otherwise adds the other set's bits moved by
  it, but keeps the invariant just when none of them falls behind the size: it does not clear the
  last block, and then \<open>count\<close> and \<open>operator==\<close> see bits the set does not have.
\<close>

theorem Or_offset:
  fixes b c :: "'b::len word dynamic_bitset"
  assumes wf: "bs_wf b" and wfc: "bs_wf c"
  shows "case Or b c offset of
      Inl e \<Rightarrow> e = E_NOTIMPL \<and> \<not> int LENGTH('b) dvd offset
    | Inr r \<Rightarrow> bits r = map (\<lambda>i. bit_at b i \<or> (offset \<le> int i \<and> bit_at c (nat (int i - offset)))) [0..<bs_size b]
        \<and> (bs_wf r \<longleftrightarrow> list_all (\<lambda>i. \<not> (offset \<le> int i \<and> bit_at c (nat (int i - offset))))
                        [bs_size b..<LENGTH('b) * length (m_data b)])"
proof (cases "Or b c offset")
  case (Inl e)
  then show ?thesis by (auto simp: Or_def dvd_eq_mod_eq_0 split: if_splits)
next
  case (Inr r)
  note o = Or_bits(1) [OF wf wfc Inr]
  have s: "bs_size r = bs_size b" "length (m_data r) = length (m_data b)"
    using Inr by (auto simp: Or_def split: if_splits)
  have "bits r = map (\<lambda>i. bit_at b i \<or> (offset \<le> int i \<and> bit_at c (nat (int i - offset)))) [0..<bs_size b]"
    using o wf_index [OF wf] by (simp add: bits_def s)
  moreover have "\<not> bit_at b i" if "bs_size b \<le> i" for i using that by (simp add: bit_at_def)
  ultimately show ?thesis
    using o wf Inr by (auto simp: bs_wf_def s list_all_iff)
qed

theorem Or_offset_witness:
  "case Or demo_bits (set_all demo_bits) 0 of Inl e \<Rightarrow> False | Inr r \<Rightarrow> bits r = replicate 10 True"
proof -
  have "bs_wf (set_all demo_bits)" "bits (set_all demo_bits) = replicate 10 True"
    "bs_size (set_all demo_bits) = 10"
    using whole_bits(9,10) [OF demo_bits_wf(1) demo_bits_wf(1)] demo_bits_wf(2)
    by (simp_all add: set_all_def)
  then show ?thesis
    using Or_offset [OF demo_bits_wf(1), of "set_all demo_bits" 0] demo_bits_wf(2)
    by (auto simp: Or_def bit_at_def map_replicate_trivial [symmetric] intro!: nth_equalityI)
qed

text \<open>\<open>ToUInt64AtBytePos\<close> is the word of the 64 bits from the position on, zeros behind the end.\<close>

theorem ToUInt64AtBytePos_word:
  assumes "bs_wf b"
  shows "map (bit (ToUInt64AtBytePos b pos)) [0..<64]
    = take 64 (drop pos (bits b) @ replicate 64 False)"
  using ToUInt64_bits [OF assms]
  by (intro nth_equalityI) (auto simp: nth_append bit_at_def)

theorem ToUInt64AtBytePos_word_witness:
  "map (bit (ToUInt64AtBytePos demo_bits 8)) [0..<64] = [False, True] @ replicate 62 False"
  using ToUInt64AtBytePos_word [OF demo_bits_wf(1), of 8] demo_bits_wf(3) by (simp add: numeral_eq_Suc)

text \<open>
  A filter of \<open>n\<close> bits answers, after any insertions, exactly whether every position of the key is
  one of the positions of the inserted keys: an inserted key is always found, and any other only
  when all its positions are taken.
\<close>

theorem Bloom_Contains_exact:
  assumes "list_all (\<lambda>key. list_all (\<lambda>p. p < n) (key_bits Hash k key)) (key # keys)"
  shows "Bloom_Contains Hash (fold (Bloom_Insert Hash) keys (Bloom_new n k)) key
    \<longleftrightarrow> set (key_bits Hash k key) \<subseteq> set (concat (map (key_bits Hash k) keys))"
proof -
  have new: "bs_wf (new_bitset n :: byte dynamic_bitset)" "bs_size (new_bitset n :: byte dynamic_bitset) = n"
    using new_bitset_bits by (simp_all add: new_bitset_def)
  have zero: "\<not> test (new_bitset n :: byte dynamic_bitset) p" if "p < n" for p
    using test_bits [where b = "new_bitset n :: byte dynamic_bitset" and pos = p] new that
      new_bitset_bits(1) [where 'b = 8, of n] by simp
  have "list_all (\<lambda>p. p < n) (concat (map (key_bits Hash k) keys))"
    using assms by (simp add: list_all_iff)
  then have m: "\<forall>q < n. test (foldl set_bit_at (new_bitset n :: byte dynamic_bitset) (concat (map (key_bits Hash k) keys))) q
      \<longleftrightarrow> q \<in> set (concat (map (key_bits Hash k) keys))"
    using byte_bits.put_many [OF new(1), of "concat (map (key_bits Hash k) keys)"] zero new(2) by auto
  have f: "Bitset (fold (Bloom_Insert Hash) keys (Bloom_new n k))
      = foldl set_bit_at (new_bitset n) (concat (map (key_bits Hash k) keys))"
    "HashNum (fold (Bloom_Insert Hash) keys (Bloom_new n k)) = k"
    using Insert_many [of Hash keys "Bloom_new n k"] by (simp_all add: Bloom_new_def)
  have "p < n" if "p \<in> set (key_bits Hash k key)" for p using assms that by (simp add: list_all_iff)
  then have "list_all (test (foldl set_bit_at (new_bitset n :: byte dynamic_bitset)
      (concat (map (key_bits Hash k) keys)))) (key_bits Hash k key)
    \<longleftrightarrow> set (key_bits Hash k key) \<subseteq> set (concat (map (key_bits Hash k) keys))"
    using m by (auto simp: list_all_iff)
  then show ?thesis unfolding Bloom_Contains_def f by (simp add: key_bits_def list_all_iff)
qed

theorem Bloom_Contains_exact_witness:
  "Bloom_Contains (\<lambda>key i. length key + nat i) (fold (Bloom_Insert (\<lambda>key i. length key + nat i))
     [[7], [1, 2, 3]] (Bloom_new 16 2)) [5]
   \<and> \<not> Bloom_Contains (\<lambda>key i. length key + nat i) (fold (Bloom_Insert (\<lambda>key i. length key + nat i))
     [[7], [1, 2, 3]] (Bloom_new 16 2)) [1, 2, 3, 4]"
  using Bloom_Contains_exact [of 16 "\<lambda>key i. length key + nat i" 2 "[5]" "[[7], [1, 2, 3]]"]
    Bloom_Contains_exact [of 16 "\<lambda>key i. length key + nat i" 2 "[1, 2, 3, 4]" "[[7], [1, 2, 3]]"]
  by (simp add: key_bits_def upto.simps)


end
