(* ===== verification/Merkle.thy ===== *)
theory Merkle
  imports Bitset "HOL-Library.Sublist"
begin

text \<open>
  Merkle trees, \<open>src/crypto/hash.h\<close> and \<open>merkle-tree.cpp\<close>: the tree of hashes over a list, the branch
  that proves one item, and partial trees that prove a selection of items with as few hashes as
  the tree allows, which are written by one side and read, untrusted, by another.  The functors
  \<open>h1\<close> and \<open>h2\<close> of the templates are arguments.
\<close>

section \<open>Branches and trees\<close>

record 'h merkle_branch =
  mb_Vec :: "'h list"
  mb_h2 :: "'h \<Rightarrow> 'h \<Rightarrow> 'h"
  mb_Index :: int

fun Apply_loop :: "('h \<Rightarrow> 'h \<Rightarrow> 'h) \<Rightarrow> 'h list \<Rightarrow> int \<Rightarrow> 'h \<Rightarrow> 'h" where
  "Apply_loop h2 [] idx hash = hash"
| "Apply_loop h2 (v # vs) idx hash =
     Apply_loop h2 vs (drop_bit 1 idx) (if idx AND 1 \<noteq> 0 then h2 v hash else h2 hash v)"

definition MerkleBranch_Apply :: "'h merkle_branch \<Rightarrow> 'h \<Rightarrow> 'h res" where
  "MerkleBranch_Apply b hash = (if mb_Index b < 0 then Inl E_FAIL
     else Inr (Apply_loop (mb_h2 b) (mb_Vec b) (mb_Index b) hash))"

record 'h merkle_tree =
  mt_Vec :: "'h list"
  mt_h2 :: "'h \<Rightarrow> 'h \<Rightarrow> 'h"
  SourceSize :: int

text \<open>One level: \<open>nSize\<close> hashes from position \<open>j\<close> on are hashed in pairs, the last with itself if it is alone.\<close>

function MerkleTree_row :: "('h \<Rightarrow> 'h \<Rightarrow> 'h) \<Rightarrow> nat \<Rightarrow> nat \<Rightarrow> nat \<Rightarrow> 'h list \<Rightarrow> 'h list" where
  "MerkleTree_row h2 j n i t = (if i < n
     then MerkleTree_row h2 j n (i + 2) (t @ [h2 (t ! (j + i)) (t ! (j + min (i + 1) (n - 1)))])
     else t)"
  by pat_completeness auto
termination by (relation "measure (\<lambda>(h2, j, n, i, t). n - i)") auto

function MerkleTree_loop :: "('h \<Rightarrow> 'h \<Rightarrow> 'h) \<Rightarrow> nat \<Rightarrow> nat \<Rightarrow> 'h list \<Rightarrow> 'h list" where
  "MerkleTree_loop h2 j n t = (if n > 1
     then MerkleTree_loop h2 (j + n) ((n + 1) div 2) (MerkleTree_row h2 j n 0 t) else t)"
  by pat_completeness auto
termination by (relation "measure (\<lambda>(h2, j, n, t). n)") auto

declare MerkleTree_row.simps [simp del] MerkleTree_loop.simps [simp del]

definition MerkleTree :: "'u list \<Rightarrow> ('u \<Rightarrow> nat \<Rightarrow> 'h) \<Rightarrow> ('h \<Rightarrow> 'h \<Rightarrow> 'h) \<Rightarrow> 'h merkle_tree" where
  "MerkleTree ar h1 h2 =
     \<lparr>mt_Vec = MerkleTree_loop h2 0 (length ar) (map (\<lambda>i. h1 (ar ! i) i) [0..<length ar]),
      mt_h2 = h2, SourceSize = int (length ar)\<rparr>"

text \<open>\<open>operator[]\<close> of the vector is not checked; a position outside is undefined behaviour.\<close>

definition vec_at :: "'h list \<Rightarrow> int \<Rightarrow> 'h res" where
  "vec_at t i = (if 0 \<le> i \<and> i < int (length t) then Inr (t ! nat i) else Inl OutOfBounds)"

function GetBranch_loop :: "'h list \<Rightarrow> int \<Rightarrow> int \<Rightarrow> int \<Rightarrow> 'h list \<Rightarrow> 'h list res" where
  "GetBranch_loop t j n idx vec = (if n > 1
     then bind_res (vec_at t (j + min (idx XOR 1) (n - 1))) (\<lambda>v.
       GetBranch_loop t (j + n) ((n + 1) div 2) (drop_bit 1 idx) (vec @ [v]))
     else Inr vec)"
  by pat_completeness auto
termination by (relation "measure (\<lambda>(t, j, n, idx, vec). nat n)") auto

declare GetBranch_loop.simps [simp del]

definition GetBranch :: "'h merkle_tree \<Rightarrow> int \<Rightarrow> 'h merkle_branch res" where
  "GetBranch t idx = bind_res (GetBranch_loop (mt_Vec t) 0 (SourceSize t) idx []) (\<lambda>vec.
     Inr \<lparr>mb_Vec = vec, mb_h2 = mt_h2 t, mb_Index = idx\<rparr>)"

section \<open>Partial trees\<close>

record 'h partial_tree =
  pt_Bitset :: "byte dynamic_bitset"
  NItems :: nat
  pt_h2 :: "'h \<Rightarrow> 'h \<Rightarrow> 'h"
  pt_Items :: "'h list"

definition CalcTreeWidth :: "nat \<Rightarrow> nat \<Rightarrow> nat" where
  "CalcTreeWidth n height = drop_bit height (n + push_bit height 1 - 1)"

function CalcTreeHeight_loop :: "nat \<Rightarrow> nat \<Rightarrow> nat" where
  "CalcTreeHeight_loop n r = (if CalcTreeWidth n r \<le> 1 then r else CalcTreeHeight_loop n (r + 1))"
  by pat_completeness auto
termination
proof (relation "measure (\<lambda>(n, r). n - r)")
  fix n r :: nat
  assume w: "\<not> CalcTreeWidth n r \<le> 1"
  define x :: nat where "x = 2 ^ r"
  have x: "0 < x" "r < x" using less_exp [of r] by (simp_all add: x_def)
  have "2 \<le> (n + x - 1) div x"
    using w by (simp add: CalcTreeWidth_def drop_bit_eq_div push_bit_eq_mult x_def)
  then have "2 * x \<le> n + x - 1" using x(1) by (simp add: less_eq_div_iff_mult_less_eq)
  then have "r < n" using x by linarith
  then show "((n, r + 1), n, r) \<in> measure (\<lambda>(n, r). n - r)" by simp
qed auto

declare CalcTreeHeight_loop.simps [simp del]

definition CalcTreeHeight :: "nat \<Rightarrow> nat" where
  "CalcTreeHeight n = CalcTreeHeight_loop n 0"

fun CalcHash :: "('h \<Rightarrow> 'h \<Rightarrow> 'h) \<Rightarrow> nat \<Rightarrow> 'h list \<Rightarrow> nat \<Rightarrow> nat \<Rightarrow> 'h" where
  "CalcHash h2 n ar 0 pos = ar ! pos"
| "CalcHash h2 n ar (Suc height) pos = (let
     left = CalcHash h2 n ar height (pos * 2);
     right = (if pos * 2 + 1 < CalcTreeWidth n height then CalcHash h2 n ar height (pos * 2 + 1) else left)
   in h2 left right)"

definition AddHash :: "nat \<Rightarrow> nat \<Rightarrow> 'h list \<Rightarrow> 'h partial_tree \<Rightarrow> 'h partial_tree" where
  "AddHash height pos ar t = t\<lparr>pt_Items := pt_Items t @ [CalcHash (pt_h2 t) (NItems t) ar height pos]\<rparr>"

definition parent_of_match :: "nat \<Rightarrow> byte dynamic_bitset \<Rightarrow> nat \<Rightarrow> nat \<Rightarrow> bool" where
  "parent_of_match n vMatch height pos = fold (\<lambda>p f. f \<or> test vMatch p)
     [push_bit height pos..<min (push_bit height (pos + 1)) n] False"

fun TraverseAndBuild :: "nat \<Rightarrow> nat \<Rightarrow> 'h list \<Rightarrow> byte dynamic_bitset \<Rightarrow> 'h partial_tree \<Rightarrow> 'h partial_tree"
where
  "TraverseAndBuild 0 pos ar vMatch t =
     AddHash 0 pos ar (t\<lparr>pt_Bitset := push_back (pt_Bitset t) (parent_of_match (NItems t) vMatch 0 pos)\<rparr>)"
| "TraverseAndBuild (Suc height) pos ar vMatch t = (let
     f = parent_of_match (NItems t) vMatch (Suc height) pos;
     t = t\<lparr>pt_Bitset := push_back (pt_Bitset t) f\<rparr>
   in if \<not> f then AddHash (Suc height) pos ar t
      else let t = TraverseAndBuild height (pos * 2) ar vMatch t
        in if pos * 2 + 1 < CalcTreeWidth (NItems t) height
           then TraverseAndBuild height (pos * 2 + 1) ar vMatch t else t)"

text \<open>\<open>nBitsUsed\<close>, \<open>nHashUsed\<close> and \<open>vMatch\<close>, which the recursion shares by reference.\<close>

type_synonym 'h cursor = "nat \<times> nat \<times> 'h list"

fun TraverseAndExtract :: "'h partial_tree \<Rightarrow> nat \<Rightarrow> nat \<Rightarrow> 'h cursor \<Rightarrow> ('h \<times> 'h cursor) res" where
  "TraverseAndExtract t 0 pos (nb, nh, vm) =
     (if nb \<ge> bs_size (pt_Bitset t) then Inl E_FAIL
      else let f = test (pt_Bitset t) nb
        in if nh \<ge> length (pt_Items t) then Inl E_FAIL
           else let hash = pt_Items t ! nh
             in Inr (hash, nb + 1, nh + 1, if f then vm @ [hash] else vm))"
| "TraverseAndExtract t (Suc height) pos (nb, nh, vm) =
     (if nb \<ge> bs_size (pt_Bitset t) then Inl E_FAIL
      else if \<not> test (pt_Bitset t) nb
      then (if nh \<ge> length (pt_Items t) then Inl E_FAIL
            else Inr (pt_Items t ! nh, nb + 1, nh + 1, vm))
      else bind_res (TraverseAndExtract t height (pos * 2) (nb + 1, nh, vm)) (\<lambda>(left, c).
        if pos * 2 + 1 < CalcTreeWidth (NItems t) height
        then bind_res (TraverseAndExtract t height (pos * 2 + 1) c) (\<lambda>(right, c).
          Inr (pt_h2 t left right, c))
        else Inr (pt_h2 t left left, c)))"


section \<open>The levels of a tree\<close>

fun pair_up :: "('h \<Rightarrow> 'h \<Rightarrow> 'h) \<Rightarrow> 'h list \<Rightarrow> 'h list" where
  "pair_up h2 [] = []"
| "pair_up h2 [x] = [h2 x x]"
| "pair_up h2 (x # y # xs) = h2 x y # pair_up h2 xs"

lemma length_pair_up [simp]: "length (pair_up h2 xs) = (length xs + 1) div 2"
  by (induction h2 xs rule: pair_up.induct) simp_all

lemma pair_up_Nil [simp]: "pair_up h2 xs = [] \<longleftrightarrow> xs = []"
  by (cases "(h2, xs)" rule: pair_up.cases) simp_all

lemma nth_pair_up:
  "2 * k < length xs \<Longrightarrow> pair_up h2 xs ! k = h2 (xs ! (2 * k)) (xs ! min (2 * k + 1) (length xs - 1))"
proof (induction h2 xs arbitrary: k rule: pair_up.induct)
  case (3 h2 x y xs)
  show ?case
  proof (cases k)
    case (Suc j)
    then have "2 * j < length xs" using 3(2) by simp
    moreover have "min (2 * k + 1) (length (x # y # xs) - 1) = Suc (Suc (min (2 * j + 1) (length xs - 1)))"
      using \<open>2 * j < length xs\<close> Suc by simp
    ultimately show ?thesis using 3(1) [of j] Suc by simp
  qed simp
qed simp_all

function levels :: "('h \<Rightarrow> 'h \<Rightarrow> 'h) \<Rightarrow> 'h list \<Rightarrow> 'h list" where
  "levels h2 xs = (if length xs > 1 then xs @ levels h2 (pair_up h2 xs) else xs)"
  by pat_completeness auto
termination by (relation "measure (\<lambda>(h2, xs). length xs)") auto

function merkle_root :: "('h \<Rightarrow> 'h \<Rightarrow> 'h) \<Rightarrow> 'h list \<Rightarrow> 'h" where
  "merkle_root h2 xs = (if length xs > 1 then merkle_root h2 (pair_up h2 xs) else hd xs)"
  by pat_completeness auto
termination by (relation "measure (\<lambda>(h2, xs). length xs)") auto

function branch :: "('h \<Rightarrow> 'h \<Rightarrow> 'h) \<Rightarrow> 'h list \<Rightarrow> nat \<Rightarrow> 'h list" where
  "branch h2 xs k = (if length xs > 1
     then xs ! min (if even k then k + 1 else k - 1) (length xs - 1) # branch h2 (pair_up h2 xs) (k div 2)
     else [])"
  by pat_completeness auto
termination by (relation "measure (\<lambda>(h2, xs, k). length xs)") auto

declare levels.simps [simp del] merkle_root.simps [simp del] branch.simps [simp del]

lemma levels_not_Nil: "xs \<noteq> [] \<Longrightarrow> levels h2 xs \<noteq> []"
  by (subst levels.simps) simp

lemma last_levels: "xs \<noteq> [] \<Longrightarrow> last (levels h2 xs) = merkle_root h2 xs"
proof (induction h2 xs rule: levels.induct)
  case (1 h2 xs)
  show ?case
  proof (cases "length xs > 1")
    case True
    have "pair_up h2 xs \<noteq> []" using 1(2) by simp
    then show ?thesis
      using 1(1) [OF True] levels_not_Nil [of "pair_up h2 xs" h2] True
      by (subst levels.simps, subst merkle_root.simps) simp
  next
    case False
    then obtain x where "xs = [x]" using 1(2) by (cases xs) auto
    then show ?thesis by (simp add: levels.simps merkle_root.simps)
  qed
qed

lemma row_pairs:
  assumes "k \<le> length (pair_up h2 xs)"
  shows "MerkleTree_row h2 (length pre) (length xs) (2 * k) (pre @ xs @ take k (pair_up h2 xs))
    = pre @ xs @ pair_up h2 xs"
  using assms
proof (induction "length (pair_up h2 xs) - k" arbitrary: k)
  case 0
  then have "\<not> 2 * k < length xs" by simp
  then show ?case using 0 by (subst MerkleTree_row.simps) simp
next
  case (Suc m)
  then have k: "2 * k < length xs" "k < length (pair_up h2 xs)" by simp_all
  have "(pre @ xs @ take k (pair_up h2 xs)) ! (length pre + i) = xs ! i" if "i < length xs" for i
    using that by (simp add: nth_append)
  then have "MerkleTree_row h2 (length pre) (length xs) (2 * k) (pre @ xs @ take k (pair_up h2 xs))
    = MerkleTree_row h2 (length pre) (length xs) (2 * Suc k) (pre @ xs @ take (Suc k) (pair_up h2 xs))"
    using k by (subst MerkleTree_row.simps) (simp add: nth_pair_up take_Suc_conv_app_nth)
  also have "\<dots> = pre @ xs @ pair_up h2 xs" using Suc k by (intro Suc.hyps(1)) simp_all
  finally show ?case .
qed

lemma loop_levels:
  "MerkleTree_loop h2 (length pre) (length xs) (pre @ xs) = pre @ levels h2 xs"
proof (induction "length xs" arbitrary: pre xs rule: less_induct)
  case less
  show ?case
  proof (cases "length xs > 1")
    case True
    have "MerkleTree_row h2 (length pre) (length xs) 0 (pre @ xs) = (pre @ xs) @ pair_up h2 xs"
      using row_pairs [of 0 h2 xs pre] by simp
    moreover have "MerkleTree_loop h2 (length (pre @ xs)) (length (pair_up h2 xs)) ((pre @ xs) @ pair_up h2 xs)
        = (pre @ xs) @ levels h2 (pair_up h2 xs)"
      using True by (intro less) simp
    ultimately show ?thesis
      using True by (subst MerkleTree_loop.simps, subst levels.simps) simp
  next
    case False
    then show ?thesis by (subst MerkleTree_loop.simps, subst levels.simps) simp
  qed
qed

definition leaves :: "'u list \<Rightarrow> ('u \<Rightarrow> nat \<Rightarrow> 'h) \<Rightarrow> 'h list" where
  "leaves ar h1 = map (\<lambda>i. h1 (ar ! i) i) [0..<length ar]"

lemma length_leaves [simp]: "length (leaves ar h1) = length ar"
  by (simp add: leaves_def)

lemma nth_leaves: "i < length ar \<Longrightarrow> leaves ar h1 ! i = h1 (ar ! i) i"
  by (simp add: leaves_def)

lemma MerkleTree_levels: "mt_Vec (MerkleTree ar h1 h2) = levels h2 (leaves ar h1)"
  using loop_levels [of h2 "[]" "leaves ar h1"] by (simp add: MerkleTree_def leaves_def [symmetric])

lemma xor_1_int: "int k XOR 1 = int (if even k then k + 1 else k - 1)"
  by (cases "even k") (auto simp: xor_one_eq elim!: oddE)

lemma drop_1_int: "drop_bit 1 (int k) = int (k div 2)" "drop_bit (Suc 0) (int k) = int (k div 2)"
  by (simp_all add: drop_bit_eq_div zdiv_int)

lemma GetBranch_branch:
  assumes "k < length xs"
  shows "GetBranch_loop (pre @ levels h2 xs) (int (length pre)) (int (length xs)) (int k) vec
    = Inr (vec @ branch h2 xs k)"
  using assms
proof (induction "length xs" arbitrary: pre xs k vec rule: less_induct)
  case less
  show ?case
  proof (cases "length xs > 1")
    case True
    define s where "s = min (if even k then k + 1 else k - 1) (length xs - 1)"
    have s: "s < length xs" using True by (simp add: s_def)
    have "min (int k XOR 1) (int (length xs) - 1) = int s"
      unfolding xor_1_int s_def using True by (auto simp: of_nat_diff min_def)
    moreover have "levels h2 xs = xs @ levels h2 (pair_up h2 xs)" using True by (subst levels.simps) simp
    ultimately have at: "vec_at (pre @ levels h2 xs) (int (length pre) + min (int k XOR 1) (int (length xs) - 1))
        = Inr (xs ! s)"
      using s by (simp add: vec_at_def nat_add_distrib nth_append)
    have "GetBranch_loop ((pre @ xs) @ levels h2 (pair_up h2 xs)) (int (length (pre @ xs)))
        (int (length (pair_up h2 xs))) (int (k div 2)) (vec @ [xs ! s])
      = Inr ((vec @ [xs ! s]) @ branch h2 (pair_up h2 xs) (k div 2))"
      using True less(2) by (intro less(1)) auto
    moreover have "(int (length xs) + 1) div 2 = int (length (pair_up h2 xs))" by (simp add: zdiv_int)
    ultimately show ?thesis
      using True at
      by (subst GetBranch_loop.simps, subst branch.simps)
        (simp add: drop_1_int s_def \<open>levels h2 xs = _\<close> del: length_pair_up)
  next
    case False
    then show ?thesis by (subst GetBranch_loop.simps, subst branch.simps) simp
  qed
qed


definition tree_pairs_row :: "'h list \<Rightarrow> ('h \<times> 'h) list" where
  "tree_pairs_row xs = map (\<lambda>i. (xs ! (2 * i), xs ! min (2 * i + 1) (length xs - 1))) [0..<(length xs + 1) div 2]"

text \<open>The pairs hashed while building the tree, and while applying a branch.\<close>

function tree_pairs :: "('h \<Rightarrow> 'h \<Rightarrow> 'h) \<Rightarrow> 'h list \<Rightarrow> ('h \<times> 'h) list" where
  "tree_pairs h2 xs = (if length xs > 1 then tree_pairs_row xs @ tree_pairs h2 (pair_up h2 xs) else [])"
  by pat_completeness auto
termination by (relation "measure (\<lambda>(h2, xs). length xs)") auto

declare tree_pairs.simps [simp del]

fun apply_pairs :: "('h \<Rightarrow> 'h \<Rightarrow> 'h) \<Rightarrow> 'h list \<Rightarrow> nat \<Rightarrow> 'h \<Rightarrow> ('h \<times> 'h) list" where
  "apply_pairs h2 [] k x = []"
| "apply_pairs h2 (v # vs) k x = (let p = (if odd k then (v, x) else (x, v))
     in p # apply_pairs h2 vs (k div 2) (h2 (fst p) (snd p)))"

lemma Apply_Cons: "Apply_loop h2 (v # vs) (int k) x
    = Apply_loop h2 vs (int (k div 2)) (if odd k then h2 v x else h2 x v)"
proof -
  have "int k AND 1 \<noteq> 0 \<longleftrightarrow> odd k" by (simp add: and_one_eq) presburger
  then show ?thesis by (simp add: drop_1_int)
qed

lemma Apply_branch:
  "k < length xs \<Longrightarrow> Apply_loop h2 (branch h2 xs k) (int k) (xs ! k) = merkle_root h2 xs"
proof (induction h2 xs k rule: branch.induct)
  case (1 h2 xs k)
  show ?case
  proof (cases "length xs > 1")
    case True
    define v where "v = xs ! min (if even k then k + 1 else k - 1) (length xs - 1)"
    have k2: "2 * (k div 2) < length xs" using 1(2) by linarith
    have "(if odd k then h2 v (xs ! k) else h2 (xs ! k) v) = pair_up h2 xs ! (k div 2)"
    proof (cases "odd k")
      case True
      then have "2 * (k div 2) = k - 1" "2 * (k div 2) + 1 = k" by (auto elim!: oddE)
      moreover have "min k (length xs - 1) = k" "min (k - 1) (length xs - 1) = k - 1"
        using 1(2) by simp_all
      ultimately show ?thesis using nth_pair_up [OF k2, of h2] True by (simp add: v_def)
    next
      case False
      then have "2 * (k div 2) = k" by simp
      then show ?thesis using nth_pair_up [OF k2, of h2] False by (simp add: v_def)
    qed
    moreover have "k div 2 < length (pair_up h2 xs)" using 1(2) by simp
    moreover have "branch h2 xs k = v # branch h2 (pair_up h2 xs) (k div 2)"
      using True by (subst branch.simps) (simp add: v_def)
    moreover have "merkle_root h2 xs = merkle_root h2 (pair_up h2 xs)"
      using True by (subst merkle_root.simps) simp
    ultimately show ?thesis using 1(1) [OF True] by (simp only: Apply_Cons)
  next
    case False
    then have "k = 0" "xs \<noteq> []" using 1(2) by auto
    then show ?thesis using False by (subst branch.simps, subst merkle_root.simps) (simp add: hd_conv_nth)
  qed
qed

lemma branch_binding:
  assumes "k < length xs" and "length vs = length (branch h2 xs k)"
    and "Apply_loop h2 vs (int k) x = merkle_root h2 xs"
  shows "x = xs ! k \<or> (\<exists>p\<in>set (apply_pairs h2 vs k x). \<exists>q\<in>set (tree_pairs h2 xs).
    p \<noteq> q \<and> h2 (fst p) (snd p) = h2 (fst q) (snd q))"
  using assms
proof (induction h2 xs k arbitrary: vs x rule: branch.induct)
  case (1 h2 xs k)
  show ?case
  proof (cases "length xs > 1")
    case True
    then obtain v ws where vs: "vs = v # ws" "length ws = length (branch h2 (pair_up h2 xs) (k div 2))"
      using 1(3) by (subst (asm) branch.simps) (auto simp: length_Suc_conv)
    define p where "p = (if odd k then (v, x) else (x, v))"
    define q where "q = (xs ! (2 * (k div 2)), xs ! min (2 * (k div 2) + 1) (length xs - 1))"
    have k2: "2 * (k div 2) < length xs" using 1(2) by linarith
    have row: "q \<in> set (tree_pairs_row xs)" using 1(2) by (auto simp: q_def tree_pairs_row_def)
    have tp: "set (tree_pairs h2 xs) = set (tree_pairs_row xs) \<union> set (tree_pairs h2 (pair_up h2 xs))"
      using True by (subst tree_pairs.simps) simp
    have ap: "set (apply_pairs h2 vs k x) = insert p (set (apply_pairs h2 ws (k div 2) (h2 (fst p) (snd p))))"
      by (simp add: vs(1) p_def Let_def)
    have "Apply_loop h2 ws (int (k div 2)) (h2 (fst p) (snd p)) = merkle_root h2 (pair_up h2 xs)"
      using 1(4) True unfolding vs(1) Apply_Cons by (subst (asm) merkle_root.simps) (simp add: p_def split: if_splits)
    moreover have "k div 2 < length (pair_up h2 xs)" using 1(2) by simp
    ultimately have IH: "h2 (fst p) (snd p) = pair_up h2 xs ! (k div 2) \<or>
      (\<exists>p\<in>set (apply_pairs h2 ws (k div 2) (h2 (fst p) (snd p))).
        \<exists>q\<in>set (tree_pairs h2 (pair_up h2 xs)). p \<noteq> q \<and> h2 (fst p) (snd p) = h2 (fst q) (snd q))"
      using 1(1) [OF True _ vs(2)] by blast
    have "pair_up h2 xs ! (k div 2) = h2 (fst q) (snd q)" using nth_pair_up [OF k2, of h2] by (simp add: q_def)
    moreover have "x = xs ! k" if "p = q"
    proof (cases "odd k")
      case True
      then have "2 * (k div 2) + 1 = k" by (auto elim!: oddE)
      moreover have "min k (length xs - 1) = k" using 1(2) by simp
      ultimately show ?thesis using that True by (simp add: p_def q_def)
    next
      case False
      then show ?thesis using that by (simp add: p_def q_def)
    qed
    ultimately have one: "x = xs ! k \<or> (p \<noteq> q \<and> h2 (fst p) (snd p) = h2 (fst q) (snd q))"
      if "h2 (fst p) (snd p) = pair_up h2 xs ! (k div 2)"
      using that by (cases "p = q") simp_all
    show ?thesis
      using IH
    proof
      assume "h2 (fst p) (snd p) = pair_up h2 xs ! (k div 2)"
      then show ?thesis using one row tp ap by blast
    next
      assume "\<exists>p\<in>set (apply_pairs h2 ws (k div 2) (h2 (fst p) (snd p))).
        \<exists>q\<in>set (tree_pairs h2 (pair_up h2 xs)). p \<noteq> q \<and> h2 (fst p) (snd p) = h2 (fst q) (snd q)"
      then show ?thesis using tp ap by blast
    qed
  next
    case False
    then have "vs = []" using 1(3) by (subst (asm) branch.simps) simp
    moreover have "k = 0" "xs \<noteq> []" using False 1(2) by auto
    ultimately show ?thesis
      using 1(4) False \<open>k = 0\<close> \<open>xs \<noteq> []\<close> by (subst (asm) merkle_root.simps) (simp add: hd_conv_nth)
  qed
qed


section \<open>Widths and heights\<close>

lemma width_iff: "pos < CalcTreeWidth n h \<longleftrightarrow> pos * 2 ^ h < n"
proof -
  define x :: nat where "x = 2 ^ h"
  have x: "0 < x" by (simp add: x_def)
  have "pos < (n + x - 1) div x \<longleftrightarrow> Suc pos * x \<le> n + x - 1"
    using x by (simp add: less_eq_div_iff_mult_less_eq flip: Suc_le_eq)
  also have "\<dots> \<longleftrightarrow> pos * x < n" using x by (simp; linarith)
  finally show ?thesis by (simp add: CalcTreeWidth_def drop_bit_eq_div push_bit_eq_mult x_def)
qed

lemma nat_eqI: "(\<And>p. p < a \<longleftrightarrow> p < b) \<Longrightarrow> a = b" for a b :: nat
  by (metis linorder_neqE_nat less_irrefl)

definition level :: "('h \<Rightarrow> 'h \<Rightarrow> 'h) \<Rightarrow> 'h list \<Rightarrow> nat \<Rightarrow> 'h list" where
  "level h2 xs h = (pair_up h2 ^^ h) xs"

lemma level_simps [simp]: "level h2 xs 0 = xs" "level h2 xs (Suc h) = pair_up h2 (level h2 xs h)"
  by (simp_all add: level_def)

lemma length_level: "length (level h2 xs h) = CalcTreeWidth (length xs) h"
proof (induction h)
  case 0
  have "p < length xs \<longleftrightarrow> p < CalcTreeWidth (length xs) 0" for p by (simp add: width_iff)
  then show ?case by (simp add: nat_eqI)
next
  case (Suc h)
  have "p < (CalcTreeWidth (length xs) h + 1) div 2 \<longleftrightarrow> 2 * p < CalcTreeWidth (length xs) h" for p
    by linarith
  then have "p < (CalcTreeWidth (length xs) h + 1) div 2 \<longleftrightarrow> p < CalcTreeWidth (length xs) (Suc h)" for p
    by (simp add: width_iff mult.assoc mult.left_commute)
  then have "(CalcTreeWidth (length xs) h + 1) div 2 = CalcTreeWidth (length xs) (Suc h)" by (rule nat_eqI)
  then show ?case using Suc by simp
qed

lemma CalcHash_level:
  "pos < CalcTreeWidth (length xs) h \<Longrightarrow> CalcHash h2 (length xs) xs h pos = level h2 xs h ! pos"
proof (induction h arbitrary: pos)
  case (Suc h)
  have two: "2 * pos < CalcTreeWidth (length xs) h"
    using Suc.prems by (simp add: width_iff mult.assoc mult.left_commute)
  have w: "2 * pos < length (level h2 xs h)" using two by (simp add: length_level)
  have m: "min (2 * pos + 1) (length (level h2 xs h) - 1)
      = (if 2 * pos + 1 < CalcTreeWidth (length xs) h then 2 * pos + 1 else 2 * pos)"
    using two by (auto simp: length_level min_def)
  show ?case
    using Suc.IH [OF two] Suc.IH [of "2 * pos + 1"] nth_pair_up [OF w, of h2] unfolding m
    by (simp add: Let_def mult.commute)
qed simp

lemma CalcTreeHeight_loop:
  assumes "\<And>q. q < r \<Longrightarrow> CalcTreeWidth n q > 1"
  shows "CalcTreeWidth n (CalcTreeHeight_loop n r) \<le> 1
    \<and> (\<forall>q < CalcTreeHeight_loop n r. CalcTreeWidth n q > 1)"
  using assms
proof (induction n r rule: CalcTreeHeight_loop.induct)
  case (1 n r)
  show ?case
  proof (cases "CalcTreeWidth n r \<le> 1")
    case True
    then show ?thesis using 1(2) by (subst CalcTreeHeight_loop.simps) (simp add: CalcTreeHeight_loop.simps)
  next
    case False
    have "CalcTreeWidth n q > 1" if "q < r + 1" for q
      using 1(2) [of q] that False by (cases "q = r") auto
    from 1(1) [OF False this] show ?thesis using False by (subst (1 2) CalcTreeHeight_loop.simps) simp
  qed
qed

lemma height_width:
  "CalcTreeWidth n (CalcTreeHeight n) \<le> 1" "q < CalcTreeHeight n \<Longrightarrow> CalcTreeWidth n q > 1"
  using CalcTreeHeight_loop [of 0 n] by (simp_all add: CalcTreeHeight_def)

lemma root_level:
  "(\<And>q. q < h \<Longrightarrow> CalcTreeWidth (length xs) q > 1) \<Longrightarrow> merkle_root h2 xs = merkle_root h2 (level h2 xs h)"
proof (induction h)
  case (Suc h)
  have "length (level h2 xs h) > 1" using Suc.prems [of h] by (simp add: length_level)
  then have "merkle_root h2 (level h2 xs h) = merkle_root h2 (level h2 xs (Suc h))"
    by (subst merkle_root.simps) simp
  then show ?case using Suc by simp
qed simp

lemma CalcHash_root:
  assumes "xs \<noteq> []"
  shows "CalcHash h2 (length xs) xs (CalcTreeHeight (length xs)) 0 = merkle_root h2 xs"
proof -
  define h where "h = CalcTreeHeight (length xs)"
  have pos: "0 < CalcTreeWidth (length xs) h" using assms by (simp add: width_iff)
  have one: "length (level h2 xs h) \<le> 1" using height_width(1) by (simp add: length_level h_def)
  then have "merkle_root h2 (level h2 xs h) = level h2 xs h ! 0"
    using pos by (subst merkle_root.simps) (simp add: hd_conv_nth length_level flip: length_0_conv)
  moreover have "merkle_root h2 xs = merkle_root h2 (level h2 xs h)"
    by (rule root_level) (unfold h_def, rule height_width(2))
  ultimately show ?thesis using CalcHash_level [OF pos, of h2] by (simp add: h_def)
qed


section \<open>Building and extracting\<close>

lemma parent_of_match_iff: "parent_of_match n vM h pos
    \<longleftrightarrow> filter (test vM) [pos * 2 ^ h..<min ((pos + 1) * 2 ^ h) n] \<noteq> []"
proof -
  have "fold (\<lambda>p f. f \<or> test vM p) ps b \<longleftrightarrow> b \<or> filter (test vM) ps \<noteq> []" for ps b
    by (induction ps arbitrary: b) auto
  then show ?thesis by (simp add: parent_of_match_def push_bit_eq_mult)
qed

definition matched :: "nat \<Rightarrow> byte dynamic_bitset \<Rightarrow> nat \<Rightarrow> nat \<Rightarrow> nat list" where
  "matched n vM h pos = filter (test vM) [pos * 2 ^ h..<min ((pos + 1) * 2 ^ h) n]"

lemma matched_leaf: "pos < n \<Longrightarrow> matched n vM 0 pos = (if test vM pos then [pos] else [])"
proof -
  assume "pos < n"
  then have "min (pos + 1) n = pos + 1" by simp
  then show ?thesis by (simp add: matched_def)
qed

lemma matched_split:
  assumes "pos * 2 ^ Suc h < n"
  shows "matched n vM (Suc h) pos = matched n vM h (2 * pos)
    @ (if 2 * pos + 1 < CalcTreeWidth n h then matched n vM h (2 * pos + 1) else [])"
proof -
  define x :: nat where "x = 2 ^ h"
  define a where "a = 2 * pos * x"
  have e: "pos * 2 ^ Suc h = a" "(pos + 1) * 2 ^ Suc h = a + x + x" "2 * pos * 2 ^ h = a"
    "(2 * pos + 1) * 2 ^ h = a + x" "(2 * pos + 1 + 1) * 2 ^ h = a + x + x"
    by (simp_all add: a_def x_def algebra_simps)
  have w: "2 * pos + 1 < CalcTreeWidth n h \<longleftrightarrow> a + x < n" unfolding width_iff e ..
  have "[a..<min (a + x + x) n] = [a..<min (a + x) n] @ (if a + x < n then [a + x..<min (a + x + x) n] else [])"
  proof (cases "a + x < n")
    case True
    define m where "m = min (a + x + x) n - (a + x)"
    have "min (a + x + x) n = a + x + m" "min (a + x) n = a + x" using True by (simp_all add: m_def)
    then show ?thesis using True upt_add_eq_append [of a "a + x" m] by simp
  next
    case False
    then show ?thesis by (simp add: min_def)
  qed
  then show ?thesis unfolding matched_def e w by simp
qed

text \<open>What building a node appends, given that it is a parent of matches or not.\<close>

fun node_bits :: "nat \<Rightarrow> byte dynamic_bitset \<Rightarrow> nat \<Rightarrow> nat \<Rightarrow> bool list" where
  "node_bits n vM 0 pos = [matched n vM 0 pos \<noteq> []]"
| "node_bits n vM (Suc h) pos = (if matched n vM (Suc h) pos = [] then [False]
     else True # node_bits n vM h (2 * pos)
       @ (if 2 * pos + 1 < CalcTreeWidth n h then node_bits n vM h (2 * pos + 1) else []))"

fun node_items :: "('h \<Rightarrow> 'h \<Rightarrow> 'h) \<Rightarrow> 'h list \<Rightarrow> nat \<Rightarrow> byte dynamic_bitset \<Rightarrow> nat \<Rightarrow> nat \<Rightarrow> 'h list" where
  "node_items h2 ar n vM 0 pos = [ar ! pos]"
| "node_items h2 ar n vM (Suc h) pos = (if matched n vM (Suc h) pos = []
     then [CalcHash h2 n ar (Suc h) pos]
     else node_items h2 ar n vM h (2 * pos)
       @ (if 2 * pos + 1 < CalcTreeWidth n h then node_items h2 ar n vM h (2 * pos + 1) else []))"

definition grown :: "'h partial_tree \<Rightarrow> bool list \<Rightarrow> 'h list \<Rightarrow> 'h partial_tree \<Rightarrow> bool" where
  "grown t bs is t' \<longleftrightarrow> bs_wf (pt_Bitset t') \<and> bits (pt_Bitset t') = bits (pt_Bitset t) @ bs
     \<and> pt_Items t' = pt_Items t @ is \<and> NItems t' = NItems t \<and> pt_h2 t' = pt_h2 t"

lemma grown_trans: "grown t bs is t' \<Longrightarrow> grown t' cs js t'' \<Longrightarrow> grown t (bs @ cs) (is @ js) t''"
  by (simp add: grown_def)

lemma grown_bit: "bs_wf (pt_Bitset t) \<Longrightarrow> grown t [v] [] (t\<lparr>pt_Bitset := push_back (pt_Bitset t) v\<rparr>)"
  by (simp add: grown_def push_back_bits)

lemma grown_item: "bs_wf (pt_Bitset t) \<Longrightarrow> grown t [] [CalcHash (pt_h2 t) (NItems t) ar h pos] (AddHash h pos ar t)"
  by (simp add: grown_def AddHash_def)

lemma TraverseAndBuild_grown:
  assumes "bs_wf (pt_Bitset t)" and "n = NItems t"
  shows "grown t (node_bits n vM h pos) (node_items (pt_h2 t) ar n vM h pos) (TraverseAndBuild h pos ar vM t)"
  using assms
proof (induction h arbitrary: pos t)
  case 0
  define t1 where "t1 = t\<lparr>pt_Bitset := push_back (pt_Bitset t) (parent_of_match (NItems t) vM 0 pos)\<rparr>"
  have g: "grown t [parent_of_match n vM 0 pos] [] t1" using grown_bit [OF 0(1)] by (simp add: t1_def 0(2))
  then have "bs_wf (pt_Bitset t1)" by (simp add: grown_def)
  from grown_trans [OF g grown_item [OF this, of ar 0 pos]]
  have "grown t [parent_of_match n vM 0 pos] [ar ! pos] (AddHash 0 pos ar t1)" by simp
  moreover have "parent_of_match n vM 0 pos \<longleftrightarrow> matched n vM 0 pos \<noteq> []"
    by (simp add: parent_of_match_iff matched_def)
  ultimately show ?case by (simp add: t1_def)
next
  case (Suc h)
  define f where "f = parent_of_match n vM (Suc h) pos"
  have f: "f \<longleftrightarrow> matched n vM (Suc h) pos \<noteq> []" by (simp add: f_def parent_of_match_iff matched_def)
  define t1 where "t1 = t\<lparr>pt_Bitset := push_back (pt_Bitset t) f\<rparr>"
  have g1: "grown t [f] [] t1" using grown_bit [OF Suc.prems(1)] by (simp add: t1_def)
  then have t1: "bs_wf (pt_Bitset t1)" "n = NItems t1" "pt_h2 t1 = pt_h2 t"
    using Suc.prems(2) by (simp_all add: grown_def)
  show ?case
  proof (cases f)
    case False
    have "grown t ([f] @ []) ([] @ [CalcHash (pt_h2 t1) (NItems t1) ar (Suc h) pos]) (AddHash (Suc h) pos ar t1)"
      by (rule grown_trans [OF g1 grown_item [OF t1(1)]])
    moreover have "TraverseAndBuild (Suc h) pos ar vM t = AddHash (Suc h) pos ar t1"
      using False by (simp add: Let_def Suc.prems(2) [symmetric] f_def [symmetric] t1_def)
    ultimately show ?thesis using False f t1 by simp
  next
    case True
    define t2 where "t2 = TraverseAndBuild h (2 * pos) ar vM t1"
    have g2: "grown t1 (node_bits n vM h (2 * pos)) (node_items (pt_h2 t) ar n vM h (2 * pos)) t2"
      using Suc.IH [OF t1(1,2), of "2 * pos"] t1(3) by (simp add: t2_def)
    then have t2: "bs_wf (pt_Bitset t2)" "n = NItems t2" "pt_h2 t2 = pt_h2 t"
      using t1 by (simp_all add: grown_def)
    have b: "TraverseAndBuild (Suc h) pos ar vM t = (if 2 * pos + 1 < CalcTreeWidth n h
        then TraverseAndBuild h (2 * pos + 1) ar vM t2 else t2)"
      unfolding TraverseAndBuild.simps Let_def Suc.prems(2) [symmetric] f_def [symmetric]
        t1_def [symmetric] mult.commute [of pos 2] t2_def [symmetric] t2(2) [symmetric]
      using True by simp
    show ?thesis
    proof (cases "2 * pos + 1 < CalcTreeWidth n h")
      case w: True
      have "grown t2 (node_bits n vM h (2 * pos + 1)) (node_items (pt_h2 t) ar n vM h (2 * pos + 1))
          (TraverseAndBuild h (2 * pos + 1) ar vM t2)"
        using Suc.IH [OF t2(1,2), of "2 * pos + 1"] t2(3) by simp
      from grown_trans [OF g1 grown_trans [OF g2 this]] show ?thesis
        unfolding b using w True f by simp
    next
      case w: False
      from grown_trans [OF g1 g2] show ?thesis unfolding b using w True f by simp
    qed
  qed
qed


lemma TraverseAndExtract_node:
  assumes "bs_wf (pt_Bitset t)" and "bits (pt_Bitset t) = pre @ node_bits n vM h pos @ post"
    and "pt_Items t = front @ node_items (pt_h2 t) ar n vM h pos @ tail" and "NItems t = n"
    and "n = length ar" and "pos * 2 ^ h < n"
  shows "TraverseAndExtract t h pos (length pre, length front, vm)
    = Inr (CalcHash (pt_h2 t) n ar h pos, length pre + length (node_bits n vM h pos),
        length front + length (node_items (pt_h2 t) ar n vM h pos), vm @ map ((!) ar) (matched n vM h pos))"
  using assms
proof (induction h arbitrary: pos pre post front tail vm)
  case 0
  have sz: "bs_size (pt_Bitset t) = length (pre @ node_bits n vM 0 pos @ post)"
    using 0(2) by (metis length_bits)
  have "test (pt_Bitset t) (length pre) = bits (pt_Bitset t) ! length pre"
    by (rule test_bits) (simp_all add: sz)
  also have "\<dots> \<longleftrightarrow> matched n vM 0 pos \<noteq> []" by (simp add: 0(2))
  finally have tst: "test (pt_Bitset t) (length pre) \<longleftrightarrow> matched n vM 0 pos \<noteq> []" .
  have "pos < n" using 0(6) by simp
  then show ?case using sz tst 0(3) by (simp add: Let_def matched_leaf)
next
  case (Suc h)
  have sz: "bs_size (pt_Bitset t) = length (pre @ node_bits n vM (Suc h) pos @ post)"
    using Suc.prems(2) by (metis length_bits)
  have "length pre < bs_size (pt_Bitset t)" by (simp add: sz)
  then have "test (pt_Bitset t) (length pre) = bits (pt_Bitset t) ! length pre"
    by (rule test_bits [rotated]) simp
  also have "\<dots> \<longleftrightarrow> matched n vM (Suc h) pos \<noteq> []" by (simp add: Suc.prems(2))
  finally have tst: "test (pt_Bitset t) (length pre) \<longleftrightarrow> matched n vM (Suc h) pos \<noteq> []" .
  show ?case
  proof (cases "matched n vM (Suc h) pos = []")
    case True
    then show ?thesis using sz tst Suc.prems(3) by simp
  next
    case False
    define L where "L = node_bits n vM h (2 * pos)"
    define M where "M = node_items (pt_h2 t) ar n vM h (2 * pos)"
    define R where "R = (if 2 * pos + 1 < CalcTreeWidth n h then node_bits n vM h (2 * pos + 1) else [])"
    define S where "S = (if 2 * pos + 1 < CalcTreeWidth n h then node_items (pt_h2 t) ar n vM h (2 * pos + 1) else [])"
    have nb: "node_bits n vM (Suc h) pos = True # L @ R" "node_items (pt_h2 t) ar n vM (Suc h) pos = M @ S"
      using False by (simp_all add: L_def R_def M_def S_def)
    have b: "bits (pt_Bitset t) = (pre @ [True]) @ L @ (R @ post)" and i: "pt_Items t = front @ M @ (S @ tail)"
      using Suc.prems(2,3) unfolding nb by simp_all
    have lt: "2 * pos * 2 ^ h < n" using Suc.prems(6) by (simp add: mult.assoc mult.left_commute)
    have left: "TraverseAndExtract t h (2 * pos) (length (pre @ [True]), length front, vm)
      = Inr (CalcHash (pt_h2 t) n ar h (2 * pos), length (pre @ [True]) + length L, length front + length M,
          vm @ map ((!) ar) (matched n vM h (2 * pos)))"
      unfolding L_def M_def
      by (rule Suc.IH [OF Suc.prems(1) b [unfolded L_def] i [unfolded M_def] Suc.prems(4,5) lt])
    have sp: "matched n vM (Suc h) pos = matched n vM h (2 * pos)
      @ (if 2 * pos + 1 < CalcTreeWidth n h then matched n vM h (2 * pos + 1) else [])"
      by (rule matched_split) (use Suc.prems(6) in simp)
    have run: "TraverseAndExtract t (Suc h) pos (length pre, length front, vm)
      = bind_res (TraverseAndExtract t h (2 * pos) (length (pre @ [True]), length front, vm)) (\<lambda>(left, c).
        if 2 * pos + 1 < CalcTreeWidth n h
        then bind_res (TraverseAndExtract t h (2 * pos + 1) c) (\<lambda>(right, c). Inr (pt_h2 t left right, c))
        else Inr (pt_h2 t left left, c))"
      unfolding TraverseAndExtract.simps Suc.prems(4) mult.commute [of pos 2]
      using False tst \<open>length pre < bs_size (pt_Bitset t)\<close> by simp
    show ?thesis
    proof (cases "2 * pos + 1 < CalcTreeWidth n h")
      case w: False
      then show ?thesis
        unfolding run left sp nb by (simp add: R_def S_def Let_def mult.commute)
    next
      case w: True
      have b2: "bits (pt_Bitset t) = (pre @ True # L) @ node_bits n vM h (2 * pos + 1) @ post"
        and i2: "pt_Items t = (front @ M) @ node_items (pt_h2 t) ar n vM h (2 * pos + 1) @ tail"
        using b i w by (simp_all add: R_def S_def)
      have lt2: "(2 * pos + 1) * 2 ^ h < n" using w unfolding width_iff .
      have right: "TraverseAndExtract t h (2 * pos + 1) (length (pre @ True # L), length (front @ M), vm')
        = Inr (CalcHash (pt_h2 t) n ar h (2 * pos + 1),
            length (pre @ True # L) + length (node_bits n vM h (2 * pos + 1)),
            length (front @ M) + length (node_items (pt_h2 t) ar n vM h (2 * pos + 1)),
            vm' @ map ((!) ar) (matched n vM h (2 * pos + 1)))" for vm'
        by (rule Suc.IH [OF Suc.prems(1) b2 i2 Suc.prems(4,5) lt2])
      show ?thesis
        using w right [of "vm @ map ((!) ar) (matched n vM h (2 * pos))"]
        unfolding run left sp nb by (simp add: R_def S_def Let_def mult.commute)
    qed
  qed
qed


text \<open>What an untrusted partial tree can make a reader believe.\<close>

lemma TraverseAndExtract_sound:
  assumes "\<And>a b c d. pt_h2 t a b = pt_h2 t c d \<Longrightarrow> a = c \<and> b = d" and "NItems t = length ar"
    and "pos * 2 ^ h < length ar"
    and "TraverseAndExtract t h pos (nb, nh, vm) = Inr (x, nb', nh', vm')"
    and "x = CalcHash (pt_h2 t) (length ar) ar h pos"
  shows "\<exists>ms. vm' = vm @ ms
    \<and> subseq ms (map ((!) ar) [pos * 2 ^ h..<min ((pos + 1) * 2 ^ h) (length ar)])"
  using assms
proof (induction h arbitrary: pos nb nh vm nb' nh' vm' x)
  case 0
  have "min (pos + 1) (length ar) = pos + 1" using 0(3) by simp
  then show ?case using 0(4,5) by (auto simp: Let_def split: if_splits)
next
  case (Suc h)
  define n where "n = length ar"
  define X :: nat where "X = 2 ^ h"
  define a where "a = 2 * pos * X"
  have e: "pos * 2 ^ Suc h = a" "(pos + 1) * 2 ^ Suc h = a + X + X" "2 * pos * 2 ^ h = a"
    "(2 * pos + 1) * 2 ^ h = a + X" "(2 * pos + 1 + 1) * 2 ^ h = a + X + X"
    by (simp_all add: a_def X_def algebra_simps)
  have w: "2 * pos + 1 < CalcTreeWidth n h \<longleftrightarrow> a + X < n" unfolding width_iff e ..
  have lt: "2 * pos * 2 ^ h < length ar" using Suc.prems(3) unfolding e .
  show ?case
  proof (cases "test (pt_Bitset t) nb")
    case False
    then have "vm' = vm" using Suc.prems(4) by (auto split: if_splits)
    then show ?thesis by simp
  next
    case True
    then obtain l nb1 nh1 vm1 where L: "TraverseAndExtract t h (2 * pos) (nb + 1, nh, vm) = Inr (l, nb1, nh1, vm1)"
      using Suc.prems(4) by (cases "TraverseAndExtract t h (pos * 2) (nb + 1, nh, vm)")
        (auto simp: mult.commute split: if_splits)
    note run = Suc.prems(4) [unfolded TraverseAndExtract.simps, unfolded mult.commute [of pos 2], unfolded L]
    show ?thesis
    proof (cases "2 * pos + 1 < CalcTreeWidth n h")
      case False
      then have r: "x = pt_h2 t l l" "vm' = vm1"
        using run True Suc.prems(2) by (auto simp: n_def split: if_splits)
      have "pt_h2 t l l = pt_h2 t (CalcHash (pt_h2 t) n ar h (2 * pos)) (CalcHash (pt_h2 t) n ar h (2 * pos))"
        using Suc.prems(5) False r(1) by (simp add: n_def Let_def mult.commute)
      then have "l = CalcHash (pt_h2 t) n ar h (2 * pos)" using Suc.prems(1) by blast
      from Suc.IH [OF Suc.prems(1,2) lt L this [unfolded n_def]] obtain ms where
        ms: "vm1 = vm @ ms" "subseq ms (map ((!) ar) [a..<min (a + X) n])"
        unfolding e n_def by blast
      have "min (a + X + X) n = min (a + X) n" using False w by simp
      then show ?thesis using ms r(2) unfolding e n_def [symmetric] by simp
    next
      case W: True
      then obtain r nb2 nh2 vm2 where R: "TraverseAndExtract t h (2 * pos + 1) (nb1, nh1, vm1) = Inr (r, nb2, nh2, vm2)"
        and x: "x = pt_h2 t l r" "vm' = vm2"
        using run True Suc.prems(2)
        by (cases "TraverseAndExtract t h (2 * pos + 1) (nb1, nh1, vm1)") (auto simp: n_def split: if_splits)
      have "pt_h2 t l r = pt_h2 t (CalcHash (pt_h2 t) n ar h (2 * pos)) (CalcHash (pt_h2 t) n ar h (2 * pos + 1))"
        using Suc.prems(5) W x(1) by (simp add: n_def Let_def mult.commute)
      then have lr: "l = CalcHash (pt_h2 t) n ar h (2 * pos)" "r = CalcHash (pt_h2 t) n ar h (2 * pos + 1)"
        using Suc.prems(1) by blast+
      have lt2: "(2 * pos + 1) * 2 ^ h < length ar" using W unfolding width_iff n_def .
      from Suc.IH [OF Suc.prems(1,2) lt L lr(1) [unfolded n_def]] obtain ms where
        ms: "vm1 = vm @ ms" "subseq ms (map ((!) ar) [a..<min (a + X) n])"
        unfolding e n_def by blast
      from Suc.IH [OF Suc.prems(1,2) lt2 R lr(2) [unfolded n_def]] obtain ns where
        ns: "vm2 = vm1 @ ns" "subseq ns (map ((!) ar) [a + X..<min (a + X + X) n])"
        unfolding e n_def by blast
      have aX: "a + X < n" using W w by simp
      define m where "m = min (a + X + X) n - (a + X)"
      have "min (a + X + X) n = a + X + m" "min (a + X) n = a + X" using aX by (simp_all add: m_def)
      then have "[a..<min (a + X + X) n] = [a..<min (a + X) n] @ [a + X..<min (a + X + X) n]"
        using upt_add_eq_append [of a "a + X" m] by simp
      then have "subseq (ms @ ns) (map ((!) ar) [a..<min (a + X + X) n])"
        using list_emb_append_mono [OF ms(2) ns(2)] by simp
      then show ?thesis using ms(1) ns(1) x(2) unfolding e n_def [symmetric] by simp
    qed
  qed
qed


section \<open>Properties\<close>

text \<open>C20: \<open>GetBranch\<close> of any item succeeds, and applied to the item's hash it gives the root, the tree's last hash.\<close>

theorem GetBranch_Apply:
  assumes "k < length ar"
  shows "case GetBranch (MerkleTree ar h1 h2) (int k) of Inl e \<Rightarrow> False
    | Inr b \<Rightarrow> MerkleBranch_Apply b (h1 (ar ! k) k) = Inr (last (mt_Vec (MerkleTree ar h1 h2)))"
proof -
  have k: "k < length (leaves ar h1)" using assms by simp
  have "GetBranch (MerkleTree ar h1 h2) (int k)
      = Inr \<lparr>mb_Vec = branch h2 (leaves ar h1) k, mb_h2 = h2, mb_Index = int k\<rparr>"
    using GetBranch_branch [OF k, of "[]" h2 "[]"]
    by (simp add: GetBranch_def MerkleTree_levels) (simp add: MerkleTree_def)
  moreover have "last (mt_Vec (MerkleTree ar h1 h2)) = merkle_root h2 (leaves ar h1)"
    unfolding MerkleTree_levels by (rule last_levels) (use assms in \<open>auto simp: leaves_def\<close>)
  ultimately show ?thesis
    using Apply_branch [OF k, of h2] by (simp add: MerkleBranch_Apply_def nth_leaves [OF assms])
qed

theorem GetBranch_Apply_witness:
  "case GetBranch (MerkleTree [10, 20, 30 :: int] (\<lambda>u i. u) (\<lambda>a b. 2 * a + 3 * b)) 2 of Inl e \<Rightarrow> False
    | Inr b \<Rightarrow> MerkleBranch_Apply b 30
        = Inr (last (mt_Vec (MerkleTree [10, 20, 30] (\<lambda>u i. u) (\<lambda>a b. 2 * a + 3 * b))))"
proof -
  have two: "[10, 20, 30 :: int] ! 2 = 30" by (simp add: numeral_2_eq_2)
  have "(2 :: nat) < length [10, 20, 30 :: int]" by simp
  from GetBranch_Apply [OF this, of "\<lambda>u i. u" "\<lambda>a b. 2 * a + 3 * b", unfolded two] show ?thesis by simp
qed

text \<open>
  A branch of the right length and index that leads some hash to the root proves that hash to be the
  item's, unless hashing the branch and building the tree show two different pairs with one hash.
\<close>

theorem MerkleBranch_binding:
  assumes "k < length ar" and "mb_Index b = int k" and "mb_h2 b = h2"
    and "length (mb_Vec b) = length (branch h2 (leaves ar h1) k)"
    and "MerkleBranch_Apply b x = Inr (last (mt_Vec (MerkleTree ar h1 h2)))"
  shows "x = h1 (ar ! k) k \<or> (\<exists>p\<in>set (apply_pairs h2 (mb_Vec b) k x). \<exists>q\<in>set (tree_pairs h2 (leaves ar h1)).
    p \<noteq> q \<and> h2 (fst p) (snd p) = h2 (fst q) (snd q))"
proof -
  have "last (mt_Vec (MerkleTree ar h1 h2)) = merkle_root h2 (leaves ar h1)"
    unfolding MerkleTree_levels by (rule last_levels) (use assms(1) in \<open>auto simp: leaves_def\<close>)
  then show ?thesis
    using branch_binding [of k "leaves ar h1" "mb_Vec b" h2 x] assms
    by (simp add: MerkleBranch_Apply_def nth_leaves)
qed

datatype free_hash = Leaf nat | Node free_hash free_hash

lemma small_branch: "branch Node [Leaf 1, Leaf 2] 1 = [Leaf 1]"
  by (simp add: branch.simps)

lemma small_tree: "mt_Vec (MerkleTree [1, 2] (\<lambda>u i. Leaf u) Node) = [Leaf 1, Leaf 2, Node (Leaf 1) (Leaf 2)]"
  by (simp add: MerkleTree_levels leaves_def levels.simps)

theorem MerkleBranch_binding_witness:
  "Leaf 2 = Leaf ([1, 2] ! 1) \<or> (\<exists>p\<in>set (apply_pairs Node [Leaf 1] 1 (Leaf 2)).
     \<exists>q\<in>set (tree_pairs Node (leaves [1, 2] (\<lambda>u i. Leaf u))).
       p \<noteq> q \<and> Node (fst p) (snd p) = Node (fst q) (snd q))"
  using MerkleBranch_binding [of 1 "[1, 2]" "\<lparr>mb_Vec = [Leaf 1], mb_h2 = Node, mb_Index = 1\<rparr>" Node
      "\<lambda>u i. Leaf u" "Leaf 2"] small_branch
  by (simp add: MerkleBranch_Apply_def small_tree leaves_def Apply_Cons [of Node _ _ 1, simplified])

text \<open>
  C21: Reading a partial tree that \<open>TraverseAndBuild\<close> wrote for a selection gives the root of the full tree,
  exactly the selected items in order, and uses up all bits and hashes.
\<close>

theorem partial_tree_roundtrip:
  assumes "ar \<noteq> []" and "bs_size vMatch = length ar"
    and "t = TraverseAndBuild (CalcTreeHeight (length ar)) 0 ar vMatch
           \<lparr>pt_Bitset = new_bitset 0, NItems = length ar, pt_h2 = h2, pt_Items = []\<rparr>"
  shows "TraverseAndExtract t (CalcTreeHeight (length ar)) 0 (0, 0, [])
    = Inr (last (mt_Vec (MerkleTree ar (\<lambda>u i. u) h2)), bs_size (pt_Bitset t), length (pt_Items t),
           map ((!) ar) (filter ((!) (bits vMatch)) [0..<length ar]))"
proof -
  define n h where "n = length ar" and "h = CalcTreeHeight n"
  define t0 where "t0 = \<lparr>pt_Bitset = new_bitset 0 :: byte dynamic_bitset, NItems = n, pt_h2 = h2, pt_Items = []\<rparr>"
  have e: "bits (new_bitset 0 :: byte dynamic_bitset) = []" "bs_wf (new_bitset 0 :: byte dynamic_bitset)"
    using new_bitset_bits [of 0] by simp_all
  have t: "t = TraverseAndBuild h 0 ar vMatch t0" by (simp add: assms(3) t0_def h_def n_def)
  have t0: "bs_wf (pt_Bitset t0)" "n = NItems t0" "pt_h2 t0 = h2" using e(2) by (simp_all add: t0_def)
  have "grown t0 (node_bits n vMatch h 0) (node_items h2 ar n vMatch h 0) t"
    using TraverseAndBuild_grown [OF t0(1,2), of vMatch h 0 ar] unfolding t t0(3) .
  then have g: "bs_wf (pt_Bitset t)" "bits (pt_Bitset t) = node_bits n vMatch h 0"
    "pt_Items t = node_items h2 ar n vMatch h 0" "NItems t = n" "pt_h2 t = h2"
    by (simp_all add: grown_def t0_def e)
  have pos: "0 * 2 ^ h < n" using assms(1) by (simp add: n_def)
  have "TraverseAndExtract t h 0 (length ([] :: bool list), length ([] :: 'a list), [])
    = Inr (CalcHash (pt_h2 t) n ar h 0, length ([] :: bool list) + length (node_bits n vMatch h 0),
        length ([] :: 'a list) + length (node_items (pt_h2 t) ar n vMatch h 0), [] @ map ((!) ar) (matched n vMatch h 0))"
    by (rule TraverseAndExtract_node [OF g(1) _ _ g(4) n_def pos, where post = "[]" and tail = "[]"])
      (simp_all add: g)
  moreover have "CalcHash h2 n ar h 0 = last (mt_Vec (MerkleTree ar (\<lambda>u i. u) h2))"
  proof -
    have "leaves ar (\<lambda>u i. u) = ar" by (simp add: leaves_def map_nth)
    then show ?thesis
      using CalcHash_root [OF assms(1), of h2] last_levels [OF assms(1), of h2]
      by (simp add: MerkleTree_levels n_def h_def)
  qed
  moreover have "n \<le> 2 ^ h"
    using height_width(1) [of n] width_iff [of 1 n h] by (simp add: h_def)
  then have "matched n vMatch h 0 = filter (test vMatch) [0..<n]" by (simp add: matched_def min_absorb2)
  moreover have "filter (test vMatch) [0..<n] = filter ((!) (bits vMatch)) [0..<n]"
    by (rule filter_cong) (simp_all add: test_bits assms(2) n_def)
  moreover have "bs_size (pt_Bitset t) = length (node_bits n vMatch h 0)" by (metis g(2) length_bits)
  ultimately show ?thesis using g by (simp add: n_def h_def)
qed


theorem partial_tree_roundtrip_witness:
  "\<exists>t r. TraverseAndExtract t (CalcTreeHeight 3) 0 (0, 0, [])
     = Inr (r, bs_size (pt_Bitset t), length (pt_Items t), [Leaf 6, Leaf 7])
   \<and> r = last (mt_Vec (MerkleTree [Leaf 5, Leaf 6, Leaf 7] (\<lambda>u i. u) Node))"
proof -
  define vM :: "byte dynamic_bitset" where "vM = push_back (push_back (push_back (new_bitset 0) False) True) True"
  have "bits (new_bitset 0 :: byte dynamic_bitset) = []" "bs_wf (new_bitset 0 :: byte dynamic_bitset)"
    "bs_size (new_bitset 0 :: byte dynamic_bitset) = 0"
    using new_bitset_bits [of 0] by (simp_all add: new_bitset_def)
  then have v: "bits vM = [False, True, True]" "bs_size vM = 3" by (simp_all add: vM_def push_back_bits)
  have sel: "map ((!) [Leaf 5, Leaf 6, Leaf 7]) (filter ((!) [False, True, True]) [0..<3]) = [Leaf 6, Leaf 7]"
    by (simp add: numeral_3_eq_3)
  show ?thesis
    using partial_tree_roundtrip [of "[Leaf 5, Leaf 6, Leaf 7]" vM _ Node, OF _ _ refl] v sel
    by (simp add: numeral_3_eq_3) blast
qed



text \<open>
  \<open>CalcTreeHeight\<close> ends, with the least height at which the tree is one hash wide, and \<open>CalcHash\<close> there
  is the root that \<open>MerkleTree\<close> builds.
\<close>

theorem CalcTreeHeight_least:
  assumes "ar \<noteq> []"
  shows "CalcTreeWidth (length ar) (CalcTreeHeight (length ar)) = 1
    \<and> list_all (\<lambda>q. CalcTreeWidth (length ar) q > 1) [0..<CalcTreeHeight (length ar)]
    \<and> CalcHash h2 (length ar) ar (CalcTreeHeight (length ar)) 0 = last (mt_Vec (MerkleTree ar (\<lambda>u i. u) h2))"
proof -
  have "0 < CalcTreeWidth (length ar) (CalcTreeHeight (length ar))" using assms by (simp add: width_iff)
  then have one: "CalcTreeWidth (length ar) (CalcTreeHeight (length ar)) = 1"
    using height_width(1) [of "length ar"] by linarith
  have "leaves ar (\<lambda>u i. u) = ar" by (simp add: leaves_def map_nth)
  then have "CalcHash h2 (length ar) ar (CalcTreeHeight (length ar)) 0 = last (mt_Vec (MerkleTree ar (\<lambda>u i. u) h2))"
    using CalcHash_root [OF assms, of h2] last_levels [OF assms, of h2] by (simp add: MerkleTree_levels)
  then show ?thesis using one height_width(2) by (auto simp: list_all_iff)
qed

theorem CalcTreeHeight_least_witness:
  "CalcTreeWidth 3 (CalcTreeHeight 3) = 1"
  using CalcTreeHeight_least [of "[0 :: nat, 0, 0]" "\<lambda>a b. a + b"] by (simp add: numeral_3_eq_3)

text \<open>
  A list with an odd number of items, at least three, and the list with its last item repeated have the
  same root when \<open>h1\<close> does not look at the position: the root does not determine the items.
\<close>

theorem MerkleTree_repeated_last:
  assumes "odd (length ar)" and "1 < length ar"
  shows "last (mt_Vec (MerkleTree (ar @ [last ar]) (\<lambda>u i. f u) h2)) = last (mt_Vec (MerkleTree ar (\<lambda>u i. f u) h2))"
proof -
  have "pair_up h2 (xs @ [last xs]) = pair_up h2 xs" if "odd (length xs)" for xs
    using that
  proof (induction h2 xs rule: pair_up.induct)
    case (3 h2 x y xs)
    then show ?case by (cases xs) auto
  qed simp_all
  then have p: "pair_up h2 (map f ar @ [last (map f ar)]) = pair_up h2 (map f ar)" using assms(1) by simp
  have l: "leaves xs (\<lambda>u i. f u) = map f xs" for xs by (rule nth_equalityI) (simp_all add: nth_leaves)
  have ne: "ar \<noteq> []" using assms(2) by auto
  have r: "last (mt_Vec (MerkleTree xs (\<lambda>u i. f u) h2)) = merkle_root h2 (map f xs)" if "xs \<noteq> []" for xs
    unfolding MerkleTree_levels l by (rule last_levels) (use that in simp)
  have "map f (ar @ [last ar]) = map f ar @ [last (map f ar)]" using ne by (simp add: last_map)
  then have "merkle_root h2 (map f (ar @ [last ar])) = merkle_root h2 (pair_up h2 (map f ar))"
    using p assms(2) ne by (subst merkle_root.simps) simp
  also have "\<dots> = merkle_root h2 (map f ar)" using assms(2) by (subst (2) merkle_root.simps) simp
  finally show ?thesis using r [OF ne] r [of "ar @ [last ar]"] by simp
qed

theorem MerkleTree_repeated_last_witness:
  "last (mt_Vec (MerkleTree [1, 2, 3, 3] (\<lambda>u i. Leaf u) Node)) = last (mt_Vec (MerkleTree [1, 2, 3] (\<lambda>u i. Leaf u) Node))"
  using MerkleTree_repeated_last [of "[1, 2, 3]" Leaf Node] by simp

end
