(* ===== verification/SipHash.thy ===== *)
theory SipHash
  imports Hash
begin

text \<open>
  SipHash-2-4, \<open>src/crypto/siphash.cpp\<close>: the keyed hash of short inputs, read from a stream eight
  bytes at a time, and the function of its authors' paper, which it computes.
\<close>

section \<open>The class\<close>

type_synonym sip_state = "u64 \<times> u64 \<times> u64 \<times> u64"

definition SipHash_InitHash :: "u64 \<Rightarrow> u64 \<Rightarrow> sip_state" where
  "SipHash_InitHash k0 k1 =
     (0x736f6d6570736575 XOR k0, 0x646f72616e646f6d XOR k1,
      0x6c7967656e657261 XOR k0, 0x7465646279746573 XOR k1)"

text \<open>\<open>b ^= a += exchange(b, _rotl64(b, off))\<close>.\<close>

definition SipSubRound :: "u64 \<Rightarrow> u64 \<Rightarrow> nat \<Rightarrow> u64 \<times> u64" where
  "SipSubRound a b off = (let old = b; b = word_rotl off b; a = a + old; b = b XOR a in (a, b))"

definition SipHash_Round :: "sip_state \<Rightarrow> sip_state" where
  "SipHash_Round v = (case v of (v0, v1, v2, v3) \<Rightarrow>
     let (v0, v1) = SipSubRound v0 v1 13;
         v0 = word_rotl 32 v0;
         (v2, v3) = SipSubRound v2 v3 16;
         (v0, v3) = SipSubRound v0 v3 21;
         (v2, v1) = SipSubRound v2 v1 17;
         v2 = word_rotl 32 v2
     in (v0, v1, v2, v3))"

definition TwoRounds :: "sip_state \<Rightarrow> sip_state" where
  "TwoRounds v = SipHash_Round (SipHash_Round v)"

definition FourRounds :: "sip_state \<Rightarrow> sip_state" where
  "FourRounds v = TwoRounds (TwoRounds v)"

definition SipHash_absorb :: "u64 \<Rightarrow> sip_state \<Rightarrow> sip_state" where
  "SipHash_absorb t v = (case v of (v0, v1, v2, v3) \<Rightarrow>
     case TwoRounds (v0, v1, v2, v3 XOR t) of (v0, v1, v2, v3) \<Rightarrow> (v0 XOR t, v1, v2, v3))"

text \<open>The loop returns the state, the count and the last word, of fewer than eight bytes.\<close>

partial_function (option) SipHash_loop ::
  "'s reader \<Rightarrow> 's \<Rightarrow> sip_state \<Rightarrow> u64 \<Rightarrow> (sip_state \<times> u64 \<times> u64 \<times> 's) option" where
  "SipHash_loop read s v cnt = (case read s 8 of (bs, s') \<Rightarrow>
     let cnt = cnt + of_nat (length bs); t = le64 bs
     in if length bs < 8 then Some (v, cnt, t, s')
        else SipHash_loop read s' (SipHash_absorb t v) cnt)"

definition SipHash_finish :: "sip_state \<Rightarrow> u64 \<Rightarrow> u64 \<Rightarrow> byte list" where
  "SipHash_finish v cnt t = (let
     t = t OR push_bit 56 cnt;
     v = SipHash_absorb t v;
     (v0, v1, v2, v3) = (case v of (v0, v1, v2, v3) \<Rightarrow> FourRounds (v0, v1, v2 XOR 0xFF, v3))
   in bytes_le 8 (v0 XOR v1 XOR v2 XOR v3))"

definition SipHash_ComputeHash :: "u64 \<Rightarrow> u64 \<Rightarrow> 's reader \<Rightarrow> 's \<Rightarrow> byte list option" where
  "SipHash_ComputeHash k0 k1 read s =
     map_option (\<lambda>(v, cnt, t, s). SipHash_finish v cnt t)
       (SipHash_loop read s (SipHash_InitHash k0 k1) 0)"

section \<open>SipHash as its authors define it\<close>

definition sip_round :: "sip_state \<Rightarrow> sip_state" where
  "sip_round v = (case v of (v0, v1, v2, v3) \<Rightarrow> let
     a0 = v0 + v1; a2 = v2 + v3;
     a1 = word_rotl 13 v1 XOR a0; a3 = word_rotl 16 v3 XOR a2;
     b0 = word_rotl 32 a0;
     b2 = a2 + a1; c0 = b0 + a3;
     c1 = word_rotl 17 a1 XOR b2; c3 = word_rotl 21 a3 XOR c0;
     c2 = word_rotl 32 b2
   in (c0, c1, c2, c3))"

definition sip_compress :: "u64 \<Rightarrow> sip_state \<Rightarrow> sip_state" where
  "sip_compress m v = (case v of (v0, v1, v2, v3) \<Rightarrow>
     case (sip_round ^^ 2) (v0, v1, v2, v3 XOR m) of (v0, v1, v2, v3) \<Rightarrow> (v0 XOR m, v1, v2, v3))"

text \<open>The message in words, with zeros and the length modulo 256 behind it.\<close>

definition sip_words :: "byte list \<Rightarrow> u64 list" where
  "sip_words bs = map le64 (chunks 8 (bs @ replicate (7 - length bs mod 8) 0 @ [of_nat (length bs)]))"

definition siphash24 :: "u64 \<Rightarrow> u64 \<Rightarrow> byte list \<Rightarrow> u64" where
  "siphash24 k0 k1 bs = (case fold sip_compress (sip_words bs)
       (k0 XOR 0x736f6d6570736575, k1 XOR 0x646f72616e646f6d,
        k0 XOR 0x6c7967656e657261, k1 XOR 0x7465646279746573) of (v0, v1, v2, v3) \<Rightarrow>
     case (sip_round ^^ 4) (v0, v1, v2 XOR 0xff, v3) of (v0, v1, v2, v3) \<Rightarrow> v0 XOR v1 XOR v2 XOR v3)"

text \<open>The test vector of the paper: key 00 to 0f, input 00 to 0e.\<close>

lemma rotl64_shift:
  fixes w :: u64
  assumes "0 < n" and "n < 64"
  shows "word_rotl n w = push_bit n w OR drop_bit (64 - n) w"
proof (rule bit_word_eqI)
  fix i
  assume "i < LENGTH(64)"
  then have i: "i < 64" by simp
  have l: "LENGTH(64) = 64" by simp
  have rot: "bit (word_rotl n w) i \<longleftrightarrow> bit w ((i + (64 - n)) mod 64)"
    using bit_word_rotl_iff [of n w i] assms i unfolding l by simp
  have or: "bit (push_bit n w OR drop_bit (64 - n) w) i
      \<longleftrightarrow> n \<le> i \<and> bit w (i - n) \<or> bit w (64 - n + i)"
    using i unfolding bit_or_iff bit_push_bit_iff bit_drop_bit_eq comp_def l by simp
  show "bit (word_rotl n w) i = bit (push_bit n w OR drop_bit (64 - n) w) i"
  proof (cases "n \<le> i")
    case True
    then have "(i + (64 - n)) mod 64 = i - n" using assms i by (simp add: mod_if)
    moreover have "\<not> bit w (64 - n + i)"
      using bit_imp_le_length [of w "64 - n + i"] True assms unfolding l by linarith
    ultimately show ?thesis unfolding rot or using True by simp
  next
    case False
    then have "(i + (64 - n)) mod 64 = 64 - n + i" using assms i by simp
    then show ?thesis unfolding rot or using False by simp
  qed
qed

lemma funpow_2_4: "(f ^^ 2) x = f (f x)" "(f ^^ 4) x = f (f (f (f x)))"
  by (simp_all add: numeral_eq_Suc)

lemma sip_words_15:
  "sip_words [0, 1, 2, 3, 4, 5, 6, 7, 8, 9, 10, 11, 12, 13, 14] = [0x0706050403020100, 0x0f0e0d0c0b0a0908]"
  by (simp add: sip_words_def chunks.simps le_word_def)

lemma sip_vector_steps:
  "sip_compress 0x0706050403020100
     (0x7469686173716475, 0x6b617f6d656e6665, 0x6b7f62616d677361, 0x7b6b696e727e6c7b)
   = (0x4a017198de0a59e0, 0x0d52f6f62a4f59a4, 0x634cb3577b01fd3d, 0xa5224d6f55c7d9c8)"
  "sip_compress 0x0f0e0d0c0b0a0908
     (0x4a017198de0a59e0, 0x0d52f6f62a4f59a4, 0x634cb3577b01fd3d, 0xa5224d6f55c7d9c8)
   = (0x3c85b3ab6f55be51, 0x414fc3fb98efe374, 0xccf13ea527b9f4bd, 0x5293f5da84008f82)"
  "(sip_round ^^ 4)
     (0x3c85b3ab6f55be51, 0x414fc3fb98efe374, 0xccf13ea527b9f442, 0x5293f5da84008f82)
   = (0xf6bcd53893fecff1, 0x54b9964c7ea0d937, 0x1b38329c099bb55a, 0x1814bb89ad7be679)"
  by (simp_all add: sip_compress_def funpow_2_4 sip_round_def rotl64_shift)

lemma siphash24_vector:
  "siphash24 0x0706050403020100 0x0f0e0d0c0b0a0908 [0, 1, 2, 3, 4, 5, 6, 7, 8, 9, 10, 11, 12, 13, 14]
   = 0xa129ca6149be45e5"
  using sip_vector_steps by (simp add: siphash24_def sip_words_15)

section \<open>Equivalence\<close>

lemma Round_sip_round: "SipHash_Round v = sip_round v"
  by (simp add: SipHash_Round_def sip_round_def SipSubRound_def Let_def split: prod.split)

lemma rounds: "TwoRounds v = (sip_round ^^ 2) v" "FourRounds v = (sip_round ^^ 4) v"
  by (simp_all add: TwoRounds_def FourRounds_def Round_sip_round numeral_eq_Suc)

lemma absorb: "SipHash_absorb t v = sip_compress t v"
  by (simp add: SipHash_absorb_def sip_compress_def rounds)

lemma last_word:
  assumes "length bs < 8" and "n mod 8 = length bs"
  shows "le64 bs OR push_bit 56 (of_nat n) = le64 (bs @ replicate (7 - length bs) 0 @ [of_nat n])"
proof (rule bit_word_eqI)
  fix i
  assume i: "i < LENGTH(64)"
  define p where "p = bs @ replicate (7 - length bs) 0 @ [of_nat n :: byte]"
  have lp: "length p = 8" using assms(1) by (simp add: p_def)
  have ip: "i div 8 < 8" using i by simp
  have r: "bit (le64 p) i \<longleftrightarrow> bit (p ! (i div 8)) (i mod 8)" using i ip by (simp add: bit_le_word lp)
  show "bit (le64 bs OR push_bit 56 (of_nat n)) i = bit (le64 (bs @ replicate (7 - length bs) 0 @ [of_nat n])) i"
  proof (cases "i div 8 < length bs")
    case True
    then have "i < 56" using assms(1) by linarith
    then show ?thesis using True i unfolding p_def [symmetric] r
      by (simp add: p_def nth_append bit_or_iff bit_push_bit_iff bit_le_word)
  next
    case False
    show ?thesis
    proof (cases "i < 56")
      case True
      then have "i div 8 < 7" by simp
      then have "i div 8 - length bs < 7 - length bs" using False by linarith
      then show ?thesis using True False i unfolding p_def [symmetric] r
        by (simp add: p_def nth_append bit_or_iff bit_push_bit_iff bit_le_word)
    next
      case h: False
      then have "i div 8 = 7" using i by simp
      moreover have "i mod 8 = i - 56" using \<open>i div 8 = 7\<close> by (simp add: modulo_nat_def)
      moreover have "p ! 7 = of_nat n" using assms(1) by (simp add: p_def nth_append)
      moreover have "bit (of_nat n :: u64) (i - 56) = bit (of_nat n :: byte) (i - 56)"
        using i h by (auto simp: bit_of_nat_iff)
      ultimately show ?thesis using False h i unfolding p_def [symmetric] r
        by (simp add: bit_or_iff bit_push_bit_iff bit_le_word)
    qed
  qed
qed

lemma sip_words_last:
  "length bs < 8 \<Longrightarrow> n mod 8 = length bs \<Longrightarrow>
     map le64 (chunks 8 (bs @ replicate (7 - n mod 8) 0 @ [of_nat n]))
       = [le64 bs OR push_bit 56 (of_nat n)]"
  using chunks_append [of "bs @ replicate (7 - length bs) 0 @ [of_nat n :: byte]" 8 "[]"]
  by (simp add: last_word)

context full_stream
begin

text \<open>After \<open>k\<close> bytes, a multiple of eight, the loop absorbs all the words but the last.\<close>

lemma SipHash_loop_words:
  assumes "inv s" and "8 dvd k"
  shows "\<exists>v' cnt t s'. SipHash_loop read s v (of_nat k) = Some (v', cnt, t, s')
    \<and> sip_compress (t OR push_bit 56 cnt) v' = fold sip_compress
        (map le64 (chunks 8 (content s @ replicate (7 - (k + length (content s)) mod 8) 0
                               @ [of_nat (k + length (content s))]))) v"
  using assms
proof (induction "length (content s)" arbitrary: s k v rule: less_induct)
  case less
  obtain bs s' where rd: "read s 8 = (bs, s')" by (cases "read s 8")
  note f = read_inv [OF less.prems(1) rd] read_content [OF less.prems(1) rd]
    read_full [OF less.prems(1) rd]
  show ?case
  proof (cases "8 \<le> length (content s)")
    case True
    then have len: "length bs = 8" using f(3) by simp
    have shorter: "length (content s') < length (content s)" using f(2) len by simp
    have "8 dvd k + 8" using less.prems(2) by simp
    from less.hyps [OF shorter f(1) this, of "SipHash_absorb (le64 bs) v"]
    moreover have "SipHash_loop read s v (of_nat k) = SipHash_loop read s' (SipHash_absorb (le64 bs) v) (of_nat (k + 8))"
      by (subst SipHash_loop.simps) (simp add: rd len)
    moreover have "chunks 8 (bs @ xs) = bs # chunks 8 xs" for xs by (rule chunks_append [OF len]) simp
    ultimately show ?thesis unfolding f(2) using len by (simp add: absorb add.assoc)
  next
    case False
    have cs: "content s = bs" "length bs < 8" using f(2,3) False by auto
    have "(k + length bs) mod 8 = length bs" using less.prems(2) cs(2) by (auto elim!: dvdE)
    from sip_words_last [OF cs(2) this]
    show ?thesis using rd cs
      by (subst SipHash_loop.simps) (simp add: Let_def flip: of_nat_add)
  qed
qed

theorem SipHash_ComputeHash_siphash24:
  assumes "inv s"
  shows "SipHash_ComputeHash k0 k1 read s = Some (bytes_le 8 (siphash24 k0 k1 (content s)))"
proof -
  obtain v cnt t s' where loop: "SipHash_loop read s (SipHash_InitHash k0 k1) (of_nat 0) = Some (v, cnt, t, s')"
    and last: "sip_compress (t OR push_bit 56 cnt) v
      = fold sip_compress (sip_words (content s)) (SipHash_InitHash k0 k1)"
    using SipHash_loop_words [OF assms dvd_0_right, of "SipHash_InitHash k0 k1"]
    unfolding sip_words_def add_0 by blast
  have init: "SipHash_InitHash k0 k1 = (k0 XOR 0x736f6d6570736575, k1 XOR 0x646f72616e646f6d,
        k0 XOR 0x6c7967656e657261, k1 XOR 0x7465646279746573)"
    by (simp add: SipHash_InitHash_def xor.commute)
  show ?thesis
    using loop by (simp add: SipHash_ComputeHash_def SipHash_finish_def siphash24_def Let_def absorb last
        rounds init split: prod.split)
qed

end

text \<open>
  the SipHash class computes SipHash-2-4: over a memory stream or a buffered one, at whatever
  position, reading eight bytes at a time ends, and the digest is the published function of the
  key and the bytes that remain, in little-endian order.
\<close>

theorem SipHash_is_siphash24:
  assumes "buffered_inv mem_inv b"
  shows "SipHash_ComputeHash k0 k1 (BufferedStream_Read dbs CMemReadStream_Read) b
    = Some (bytes_le 8 (siphash24 k0 k1 (buffered_content mem_content b)))"
  using assms by (rule buff.SipHash_ComputeHash_siphash24)

theorem SipHash_is_siphash24_witness:
  "SipHash_ComputeHash 0x0706050403020100 0x0f0e0d0c0b0a0908
     (BufferedStream_Read 4 CMemReadStream_Read)
     (BufferedStream (CMemReadStream [0, 1, 2, 3, 4, 5, 6, 7, 8, 9, 10, 11, 12, 13, 14]) 3)
   = Some [0xe5, 0x45, 0xbe, 0x49, 0x61, 0xca, 0x29, 0xa1]"
proof -
  have "bytes_le 8 (0xa129ca6149be45e5 :: u64) = [0xe5, 0x45, 0xbe, 0x49, 0x61, 0xca, 0x29, 0xa1]"
    by code_simp
  moreover have "buffered_inv mem_inv (BufferedStream (CMemReadStream [0, 1, 2, 3, 4, 5, 6, 7, 8, 9, 10, 11, 12, 13, 14]) 3)"
    by (simp add: buffered_inv_BufferedStream mem_defs)
  moreover have "buffered_content mem_content (BufferedStream (CMemReadStream [0, 1, 2, 3, 4, 5, 6, 7, 8, 9, 10, 11, 12, 13, 14]) 3)
      = [0, 1, 2, 3, 4, 5, 6, 7, 8, 9, 10, 11, 12, 13, 14]"
    by (simp add: buffered_inv_BufferedStream mem_defs)
  ultimately show ?thesis by (simp only: SipHash_is_siphash24 siphash24_vector)
qed

end
