(* ===== verification/BigWords.thy ===== *)
theory BigWords
  imports Prelude
begin

text \<open>
  The arithmetic kernel under \<open>BigInteger\<close>, \<open>src/bignum/x86x64/bignum-x86x64.asm\<close> in its 64-bit
  form: loops of add-with-carry, multiply, shift and divide instructions over arrays of words, the
  least significant first.  Arrays are lists; the flags and registers that a loop carries from
  one turn to the next are its arguments.  Each routine is shown to compute on the numbers its
  arrays stand for, unsigned (\<open>uval\<close>) or in two's complement (\<open>sval\<close>).
\<close>

section \<open>The numbers that arrays of words stand for\<close>

definition uval :: "'w::len word list \<Rightarrow> int" where
  "uval ws = foldr (\<lambda>w a. uint w + 2 ^ LENGTH('w) * a) ws 0"

definition sval :: "'w::len word list \<Rightarrow> int" where
  "sval ws = (if ws = [] then 0
     else uval (butlast ws) + 2 ^ (LENGTH('w) * (length ws - 1)) * sint (last ws))"

text \<open>A number that fits into \<open>k\<close> bits in two's complement.\<close>

definition fits :: "nat \<Rightarrow> int \<Rightarrow> bool" where
  "fits k x \<longleftrightarrow> - (2 ^ (k - 1)) \<le> x \<and> x < 2 ^ (k - 1)"

lemma uval_simps [simp]:
  "uval [] = 0"
  "uval (w # ws) = uint w + 2 ^ LENGTH('w) * uval ws" for w :: "'w::len word"
  by (simp_all add: uval_def)

lemma uval_append: "uval (xs @ ys) = uval xs + 2 ^ (LENGTH('w) * length xs) * uval ys"
  for xs :: "'w::len word list"
  by (induction xs) (simp_all add: algebra_simps power_add)

lemma uval_nonneg [simp]: "0 \<le> uval ws"
  by (induction ws) simp_all

lemma uval_less: "uval ws < 2 ^ (LENGTH('w) * length ws)" for ws :: "'w::len word list"
proof (induction ws)
  case (Cons w ws)
  have "2 ^ LENGTH('w) * uval ws \<le> 2 ^ LENGTH('w) * (2 ^ (LENGTH('w) * length ws) - 1)"
    using Cons.IH by simp
  moreover have "uint w < 2 ^ LENGTH('w)" by (rule uint_lt2p)
  ultimately have "uval (w # ws) < 2 ^ LENGTH('w) * 2 ^ (LENGTH('w) * length ws)"
    unfolding uval_simps right_diff_distrib by linarith
  then show ?case by (simp add: power_add)
qed simp

lemma uval_replicate_0 [simp]: "uval (replicate n 0) = 0"
  by (induction n) simp_all

lemma sval_snoc: "sval (ws @ [w]) = uval ws + 2 ^ (LENGTH('w) * length ws) * sint w"
  for ws :: "'w::len word list"
  by (simp add: sval_def)

lemma sval_single [simp]: "sval [w] = sint w"
  by (simp add: sval_def)

lemma sval_Cons:
  fixes w :: "'w::len word"
  assumes "ws \<noteq> []"
  shows "sval (w # ws) = uint w + 2 ^ LENGTH('w) * sval ws"
proof -
  obtain vs v where ws: "ws = vs @ [v]" using assms by (cases ws rule: rev_cases) auto
  show ?thesis
    using sval_snoc [of "w # vs" v] sval_snoc [of vs v] by (simp add: ws power_add algebra_simps)
qed

lemma sint_uint_neg: "sint w = uint w - (if sint w < 0 then 2 ^ LENGTH('w) else 0)"
  for w :: "'w::len word"
  by (auto simp: sint_uint signed_take_bit_eq_take_bit_minus signed_take_bit_negative_iff
      take_bit_int_eq_self)

lemma sval_uval:
  fixes ws :: "'w::len word list"
  assumes "ws \<noteq> []"
  shows "sval ws = uval ws - (if sint (last ws) < 0 then 2 ^ (LENGTH('w) * length ws) else 0)"
proof -
  obtain vs v where ws: "ws = vs @ [v]" using assms by (cases ws rule: rev_cases) auto
  show ?thesis
    unfolding ws sval_snoc uval_append
    by (subst sint_uint_neg [of v]) (simp add: algebra_simps power_add)
qed

lemma sint_fits: "- (2 ^ (LENGTH('w) - 1)) \<le> sint w" "sint w < 2 ^ (LENGTH('w) - 1)"
  for w :: "'w::len word"
  using sint_ge [of w] sint_lt [of w] by simp_all

lemma sval_fits:
  fixes ws :: "'w::len word list"
  assumes "ws \<noteq> []"
  shows "fits (LENGTH('w) * length ws) (sval ws)"
proof -
  obtain vs v where ws: "ws = vs @ [v]" using assms by (cases ws rule: rev_cases) auto
  define P :: int where "P = 2 ^ (LENGTH('w) * length vs)"
  define H :: int where "H = 2 ^ (LENGTH('w) - 1)"
  have "LENGTH('w) * length ws - 1 = LENGTH('w) * length vs + (LENGTH('w) - 1)"
    using len_gt_0 [where 'a = 'w] unfolding ws by (simp del: len_gt_0)
  then have e: "2 ^ (LENGTH('w) * length ws - 1) = P * H"
    by (simp only: power_add P_def H_def)
  have u: "0 \<le> uval vs" "uval vs < P" using uval_less [of vs] by (simp_all add: P_def)
  have s: "- H \<le> sint v" "sint v + 1 \<le> H" using sint_fits [of v] by (simp_all add: H_def)
  have "P * (- H) \<le> P * sint v" "P * (sint v + 1) \<le> P * H"
    using s by (intro mult_left_mono; simp add: P_def)+
  then show ?thesis
    unfolding fits_def e unfolding ws sval_snoc P_def [symmetric] using u
    unfolding mult_minus_right distrib_left by linarith
qed

lemma fits_mono:
  assumes "fits k x" and "k \<le> l"
  shows "fits l x"
proof -
  have "(2 :: int) ^ (k - 1) \<le> 2 ^ (l - 1)" using assms(2) by (intro power_increasing) simp_all
  then show ?thesis using assms(1) unfolding fits_def by linarith
qed

text \<open>A number that fits is determined by its words.\<close>

lemma fits_eqI:
  assumes "fits k x" and "fits k y" and "x mod 2 ^ k = y mod 2 ^ k" and "0 < k"
  shows "x = y"
proof (rule ccontr)
  assume "x \<noteq> y"
  moreover have "(2 :: int) ^ k dvd x - y" using assms(3) by (simp add: mod_eq_dvd_iff)
  ultimately have "\<bar>2 ^ k\<bar> \<le> \<bar>x - y\<bar>" by (intro dvd_imp_le_int) simp_all
  moreover have "(2 :: int) ^ k = 2 * 2 ^ (k - 1)" using assms(4) by (cases k) simp_all
  ultimately show False using assms(1,2) unfolding fits_def by linarith
qed

lemma sval_mod:
  fixes ws :: "'w::len word list"
  assumes "ws \<noteq> []"
  shows "sval ws mod 2 ^ (LENGTH('w) * length ws) = uval ws"
  unfolding sval_uval [OF assms] using uval_less [of ws] by (simp add: mod_pos_pos_trivial)

lemma sval_unique:
  fixes ws :: "'w::len word list"
  assumes "ws \<noteq> []" and "fits (LENGTH('w) * length ws) x"
    and "x mod 2 ^ (LENGTH('w) * length ws) = uval ws"
  shows "sval ws = x"
  using assms by (intro fits_eqI [OF sval_fits]) (simp_all add: sval_mod)

text \<open>Sign extension.\<close>

definition sign_word :: "'w::len word list \<Rightarrow> 'w word" where
  "sign_word ws = (if sint (last ws) < 0 then -1 else 0)"

lemma sint_sign_word: "sint (sign_word ws) = (if sint (last ws) < 0 then -1 else 0)"
  by (simp add: sign_word_def)

lemma sval_negative:
  fixes ws :: "'w::len word list"
  assumes "ws \<noteq> []"
  shows "sval ws < 0 \<longleftrightarrow> sint (last ws) < 0"
  unfolding sval_uval [OF assms] using uval_less [of ws] uval_nonneg [of ws]
  by (auto simp: not_less)

lemma sval_sign_word:
  fixes ws :: "'w::len word list"
  assumes "ws \<noteq> []"
  shows "sval (ws @ [sign_word ws]) = sval ws"
  using sval_uval [OF assms] by (simp add: sval_snoc sint_sign_word)

lemma sval_extend:
  fixes ws :: "'w::len word list"
  assumes "ws \<noteq> []"
  shows "sval (ws @ replicate n (sign_word ws)) = sval ws"
proof (induction n)
  case (Suc n)
  have "sign_word (ws @ replicate n (sign_word ws)) = sign_word ws"
    using assms sint_sign_word [of ws] by (cases n) (simp_all add: sign_word_def last_append)
  then show ?case
    using sval_sign_word [of "ws @ replicate n (sign_word ws)"] assms Suc.IH
    by (simp add: replicate_append_same [symmetric])
qed simp

text \<open>The bytes of words.\<close>

lemma bytes_le_Suc: "bytes_le (Suc n) w = ucast w # bytes_le n (drop_bit 8 w)"
  unfolding bytes_le_def map_upt_Suc by (simp add: drop_bit_drop_bit add.commute)

lemma uint_ucast_byte: "uint (ucast w :: byte) = uint w mod 256"
  by (simp add: unsigned_ucast_eq take_bit_eq_mod)

lemma uval_bytes_le: "uval (bytes_le n w) = uint w mod 256 ^ n"
proof (induction n arbitrary: w)
  case (Suc n)
  have "uint w mod 256 ^ Suc n = uint w mod 256 + 256 * ((uint w div 256) mod 256 ^ n)"
    by (simp add: zmod_zmult2_eq)
  moreover have "uint (drop_bit 8 w) = uint w div 256"
    unfolding unsigned_drop_bit_eq by (simp add: drop_bit_eq_div take_bit_int_eq_self)
  ultimately show ?case by (simp add: bytes_le_Suc uint_ucast_byte Suc.IH)
qed (simp add: bytes_le_def)

definition word_bytes :: "u64 list \<Rightarrow> byte list" where
  "word_bytes ws = concat (map (bytes_le 8) ws)"

lemma length_word_bytes [simp]: "length (word_bytes ws) = 8 * length ws"
  by (induction ws) (simp_all add: word_bytes_def)

lemma uval_word_bytes: "uval (word_bytes ws) = uval ws"
proof (induction ws)
  case (Cons w ws)
  have "uval (bytes_le 8 w) = uint w" using uint_lt2p [of w] by (simp add: uval_bytes_le)
  then show ?case using Cons.IH by (simp add: word_bytes_def uval_append)
qed (simp add: word_bytes_def)

lemma sval_word_bytes: "sval (word_bytes ws) = sval ws"
proof (cases "ws = []")
  case False
  have ne: "word_bytes ws \<noteq> []" using False length_word_bytes [of ws] by (metis length_0_conv mult_eq_0_iff zero_neq_numeral)
  show ?thesis
    using sval_fits [OF False] sval_mod [OF False] ne
    by (intro sval_unique) (simp_all add: uval_word_bytes)
qed (simp add: word_bytes_def sval_def)

definition bytes_words :: "byte list \<Rightarrow> u64 list" where
  "bytes_words bs = map le64 (chunks 8 bs)"

lemma word_bytes_words: "length bs = 8 * n \<Longrightarrow> word_bytes (bytes_words bs) = bs"
proof (induction n arbitrary: bs)
  case (Suc n)
  have l: "length (take 8 bs) = 8" using Suc.prems by simp
  have "bytes_le 8 (le64 (take 8 bs)) = take 8 bs" using bytes_le_le_word [of "take 8 bs", where 'a = 64] l by simp
  moreover have "chunks 8 bs = take 8 bs # chunks 8 (drop 8 bs)"
    using chunks_append [OF l, of "drop 8 bs"] by simp
  ultimately show ?case using Suc.IH [of "drop 8 bs"] Suc.prems
    by (simp add: word_bytes_def bytes_words_def)
qed (simp add: word_bytes_def bytes_words_def)

lemma length_bytes_words: "length bs = 8 * n \<Longrightarrow> length (bytes_words bs) = n"
  using length_word_bytes [of "bytes_words bs"] by (simp add: word_bytes_words)

section \<open>The instructions\<close>

text \<open>
  \<open>adc\<close> and \<open>sbb\<close> give the result, the carry and the condition that \<open>setnge\<close> tests, which is that
  the sign flag differs from the overflow flag.  \<open>mul\<close> gives the high and the low word; \<open>div\<close> of a
  double word faults when the quotient does not fit.
\<close>

definition nge_flag :: "u64 \<Rightarrow> int \<Rightarrow> bool" where
  "nge_flag r x \<longleftrightarrow> (sint r < 0) \<noteq> (sint r \<noteq> x)"

definition adc :: "bool \<Rightarrow> u64 \<Rightarrow> u64 \<Rightarrow> u64 \<times> bool \<times> bool" where
  "adc c a b = (let r = a + b + of_bool c in
     (r, 2 ^ 64 \<le> uint a + uint b + of_bool c, nge_flag r (sint a + sint b + of_bool c)))"

definition sbb :: "bool \<Rightarrow> u64 \<Rightarrow> u64 \<Rightarrow> u64 \<times> bool \<times> bool" where
  "sbb c a b = (let r = a - b - of_bool c in
     (r, uint a < uint b + of_bool c, nge_flag r (sint a - sint b - of_bool c)))"

definition mul_op :: "u64 \<Rightarrow> u64 \<Rightarrow> u64 \<times> u64" where
  "mul_op a b = (word_of_int (uint a * uint b div 2 ^ 64), a * b)"

definition div_op :: "u64 \<Rightarrow> u64 \<Rightarrow> u64 \<Rightarrow> (u64 \<times> u64) res" where
  "div_op dx ax q = (if q \<le> dx then Inl DivideByZero
     else let x = 2 ^ 64 * uint dx + uint ax in Inr (word_of_int (x div uint q), word_of_int (x mod uint q)))"

definition shld_op :: "u64 \<Rightarrow> u64 \<Rightarrow> nat \<Rightarrow> u64" where
  "shld_op x y n = push_bit n x OR drop_bit (64 - n) y"

definition shrd_op :: "u64 \<Rightarrow> u64 \<Rightarrow> nat \<Rightarrow> u64" where
  "shrd_op x y n = drop_bit n x OR push_bit (64 - n) y"

lemma int_div_less:
  fixes m n q :: int
  assumes "0 < q"
  shows "m div q < n \<longleftrightarrow> m < n * q"
proof
  assume "m div q < n"
  then have "q * (m div q) \<le> q * (n - 1)" using assms by (intro mult_left_mono) simp_all
  moreover have "q * (m div q) + m mod q = m" "m mod q < q" using assms by simp_all
  ultimately have "m < q * (n - 1) + q" by linarith
  then show "m < n * q" by (simp add: algebra_simps)
next
  assume m: "m < n * q"
  show "m div q < n"
  proof (rule ccontr)
    assume "\<not> m div q < n"
    then have "q * n \<le> q * (m div q)" using assms by (intro mult_left_mono) simp_all
    moreover have "q * (m div q) + m mod q = m" "0 \<le> m mod q" using assms by simp_all
    ultimately show False using m by (simp add: mult.commute)
  qed
qed

lemma mod_wrap:
  fixes x :: int
  shows "- m \<le> x \<Longrightarrow> x < 0 \<Longrightarrow> x mod m = x + m" and "m \<le> x \<Longrightarrow> x < 2 * m \<Longrightarrow> x mod m = x - m"
  using mod_pos_pos_trivial [of "x + m" m] mod_pos_pos_trivial [of "x - m" m]
  by (simp_all add: minus_mod_self2)

lemma nge_flag_sign:
  assumes "- (2 ^ 64) \<le> x" and "x < 2 ^ 64" and "r = word_of_int x"
  shows "nge_flag r x \<longleftrightarrow> x < 0"
proof -
  have s: "sint r = (x + 2 ^ 63) mod 2 ^ 64 - 2 ^ 63"
    unfolding assms(3) by (simp add: int_word_sint)
  consider "x < - (2 ^ 63)" | "- (2 ^ 63) \<le> x" "x < 2 ^ 63" | "2 ^ 63 \<le> x" by linarith
  then show "nge_flag r x \<longleftrightarrow> x < 0"
  proof cases
    case 1
    then have "(x + 2 ^ 63) mod 2 ^ 64 = x + 2 ^ 63 + 2 ^ 64"
      using mod_wrap(1) [of "2 ^ 64" "x + 2 ^ 63"] assms(1) by simp
    then show ?thesis using 1 assms(1) by (simp add: nge_flag_def s)
  next
    case 2
    then have "(x + 2 ^ 63) mod 2 ^ 64 = x + 2 ^ 63" by (intro mod_pos_pos_trivial) simp_all
    then show ?thesis using 2 by (simp add: nge_flag_def s)
  next
    case 3
    then have "(x + 2 ^ 63) mod 2 ^ 64 = x + 2 ^ 63 - 2 ^ 64"
      using mod_wrap(2) [of "2 ^ 64" "x + 2 ^ 63"] assms(2) by simp
    then show ?thesis using 3 assms(2) by (simp add: nge_flag_def s)
  qed
qed

lemma uint_64: "0 \<le> uint (w :: u64)" "uint w < 2 ^ 64" "- (2 ^ 63) \<le> sint w" "sint w < 2 ^ 63"
  using uint_lt2p [of w] sint_fits [of w] by simp_all

lemma adc_props:
  assumes "adc c a b = (r, cf, l)"
  shows "uint r + 2 ^ 64 * of_bool cf = uint a + uint b + of_bool c"
    and "l \<longleftrightarrow> sint a + sint b + of_bool c < 0"
    and "uint r + 2 ^ 64 * (if l then - 1 else 0) = sint a + sint b + of_bool c"
proof -
  have r: "r = a + b + of_bool c" "cf \<longleftrightarrow> 2 ^ 64 \<le> uint a + uint b + of_bool c"
    and l: "l = nge_flag r (sint a + sint b + of_bool c)"
    using assms by (auto simp: adc_def Let_def)
  have rw: "r = word_of_int (uint a + uint b + of_bool c)" "r = word_of_int (sint a + sint b + of_bool c)"
    by (simp_all add: r)
  have c: "0 \<le> (of_bool c :: int)" "(of_bool c :: int) \<le> 1" by simp_all
  note u = uint_64 [of a] uint_64 [of b]
  have "uint r = (uint a + uint b + of_bool c) mod 2 ^ 64" unfolding rw(1) uint_word_of_int by simp
  then show "uint r + 2 ^ 64 * of_bool cf = uint a + uint b + of_bool c"
    using u c r(2) mod_pos_pos_trivial [of "uint a + uint b + of_bool c" "2 ^ 64"]
      mod_wrap(2) [of "2 ^ 64" "uint a + uint b + of_bool c"]
    by (cases cf) simp_all
  show neg: "l \<longleftrightarrow> sint a + sint b + of_bool c < 0"
    unfolding l using u c by (intro nge_flag_sign) (simp_all add: rw(2))
  have "uint r = (sint a + sint b + of_bool c) mod 2 ^ 64" unfolding rw(2) uint_word_of_int by simp
  then show "uint r + 2 ^ 64 * (if l then - 1 else 0) = sint a + sint b + of_bool c"
    using u c neg mod_pos_pos_trivial [of "sint a + sint b + of_bool c" "2 ^ 64"]
      mod_wrap(1) [of "2 ^ 64" "sint a + sint b + of_bool c"]
    by (cases l) simp_all
qed

lemma sbb_props:
  assumes "sbb c a b = (r, cf, l)"
  shows "uint r - 2 ^ 64 * of_bool cf = uint a - uint b - of_bool c"
    and "uint r + 2 ^ 64 * (if l then - 1 else 0) = sint a - sint b - of_bool c"
proof -
  have r: "r = a - b - of_bool c" "cf \<longleftrightarrow> uint a < uint b + of_bool c"
    and l: "l = nge_flag r (sint a - sint b - of_bool c)"
    using assms by (auto simp: sbb_def Let_def)
  have rw: "r = word_of_int (uint a - uint b - of_bool c)" "r = word_of_int (sint a - sint b - of_bool c)"
    by (simp_all add: r)
  have c: "0 \<le> (of_bool c :: int)" "(of_bool c :: int) \<le> 1" by simp_all
  note u = uint_64 [of a] uint_64 [of b]
  have "uint r = (uint a - uint b - of_bool c) mod 2 ^ 64" unfolding rw(1) uint_word_of_int by simp
  moreover define x where "x = uint a - uint b - of_bool c"
  moreover have "- (2 ^ 64) \<le> x" "x < 2 ^ 64" "cf \<longleftrightarrow> x < 0"
    using uint_64 [of a] uint_64 [of b] c r(2) unfolding x_def by linarith+
  ultimately have "uint r - 2 ^ 64 * of_bool cf = x"
    using mod_pos_pos_trivial [of x "2 ^ 64"] mod_wrap(1) [of "2 ^ 64" x] by (cases "x < 0") simp_all
  then show "uint r - 2 ^ 64 * of_bool cf = uint a - uint b - of_bool c" by (simp only: x_def)
  have neg: "l \<longleftrightarrow> sint a - sint b - of_bool c < 0"
    unfolding l using u c by (intro nge_flag_sign) (simp_all add: rw(2))
  have "uint r = (sint a - sint b - of_bool c) mod 2 ^ 64" unfolding rw(2) uint_word_of_int by simp
  then show "uint r + 2 ^ 64 * (if l then - 1 else 0) = sint a - sint b - of_bool c"
    using u c neg mod_pos_pos_trivial [of "sint a - sint b - of_bool c" "2 ^ 64"]
      mod_wrap(1) [of "2 ^ 64" "sint a - sint b - of_bool c"]
    by (cases l) simp_all
qed

section \<open>The loops\<close>

fun ImpAddBignums_loop :: "bool \<Rightarrow> bool \<Rightarrow> u64 list \<Rightarrow> u64 list \<Rightarrow> u64 list \<times> bool" where
  "ImpAddBignums_loop c l (a # as) (b # bs) = (case adc c a b of (r, c, l) \<Rightarrow>
     case ImpAddBignums_loop c l as bs of (rs, l) \<Rightarrow> (r # rs, l))"
| "ImpAddBignums_loop c l _ _ = ([], l)"

definition ImpAddBignums :: "u64 list \<Rightarrow> u64 list \<Rightarrow> u64 list" where
  "ImpAddBignums a b =
     (case ImpAddBignums_loop False False a b of (rs, l) \<Rightarrow> rs @ [if l then -1 else 0])"

fun ImpSubBignums_loop :: "bool \<Rightarrow> bool \<Rightarrow> u64 list \<Rightarrow> u64 list \<Rightarrow> u64 list \<times> bool" where
  "ImpSubBignums_loop c l (a # as) (b # bs) = (case sbb c a b of (r, c, l) \<Rightarrow>
     case ImpSubBignums_loop c l as bs of (rs, l) \<Rightarrow> (r # rs, l))"
| "ImpSubBignums_loop c l _ _ = ([], l)"

definition ImpSubBignums :: "u64 list \<Rightarrow> u64 list \<Rightarrow> u64 list" where
  "ImpSubBignums a b =
     (case ImpSubBignums_loop False False a b of (rs, l) \<Rightarrow> rs @ [if l then -1 else 0])"

fun ImpNegBignum_loop :: "bool \<Rightarrow> bool \<Rightarrow> u64 list \<Rightarrow> u64 list \<times> bool" where
  "ImpNegBignum_loop c l (a # as) = (case sbb c 0 a of (r, c, l) \<Rightarrow>
     case ImpNegBignum_loop c l as of (rs, l) \<Rightarrow> (r # rs, l))"
| "ImpNegBignum_loop c l [] = ([], l)"

definition ImpNegBignum :: "u64 list \<Rightarrow> u64 list" where
  "ImpNegBignum a = (case ImpNegBignum_loop False False a of (rs, l) \<Rightarrow> rs @ [if l then -1 else 0])"

text \<open>The row of a multiplication adds \<open>w\<close> times \<open>as\<close> to \<open>cs\<close> and writes the carry behind it.\<close>

fun ImpMulBignums_row :: "u64 \<Rightarrow> u64 \<Rightarrow> u64 list \<Rightarrow> u64 list \<Rightarrow> u64 list" where
  "ImpMulBignums_row w k (a # as) (c # cs) = (case mul_op a w of (dx, ax) \<Rightarrow>
     case adc False ax k of (ax, cf, _) \<Rightarrow> let dx = dx + of_bool cf in
     case adc False c ax of (c, cf, _) \<Rightarrow> c # ImpMulBignums_row w (dx + of_bool cf) as cs)"
| "ImpMulBignums_row w k [] (c # cs) = k # cs"
| "ImpMulBignums_row w k _ [] = []"

fun ImpMulBignums_loop :: "u64 list \<Rightarrow> u64 list \<Rightarrow> u64 list \<Rightarrow> u64 list" where
  "ImpMulBignums_loop as (b # bs) cs = (case ImpMulBignums_row b 0 as cs of
     [] \<Rightarrow> [] | c # cs \<Rightarrow> c # ImpMulBignums_loop as bs cs)"
| "ImpMulBignums_loop as [] cs = cs"

definition ImpMulBignums :: "u64 list \<Rightarrow> u64 list \<Rightarrow> u64 list" where
  "ImpMulBignums a b = ImpMulBignums_loop a b (replicate (length a + length b) 0)"

text \<open>Shifts to the left work upwards and end with the sign, shifts to the right work downwards.\<close>

fun ImpShld_loop :: "nat \<Rightarrow> u64 \<Rightarrow> u64 list \<Rightarrow> u64 list" where
  "ImpShld_loop amt p (w # ws) = shld_op w p amt # ImpShld_loop amt w ws"
| "ImpShld_loop amt p [] = [shld_op (if sint p < 0 then -1 else 0) p amt]"

definition ImpShld :: "u64 list \<Rightarrow> nat \<Rightarrow> u64 list" where
  "ImpShld s amt = ImpShld_loop amt 0 s"

fun ImpShrd_loop :: "nat \<Rightarrow> u64 \<Rightarrow> u64 list \<Rightarrow> u64 list \<times> u64" where
  "ImpShrd_loop amt prev (w # ws) =
     (case ImpShrd_loop amt prev ws of (rs, dx) \<Rightarrow> (shrd_op w dx amt # rs, w))"
| "ImpShrd_loop amt prev [] = ([], prev)"

definition ImpShrd :: "u64 list \<Rightarrow> nat \<Rightarrow> u64 \<Rightarrow> u64 list" where
  "ImpShrd s amt prev = fst (ImpShrd_loop amt prev s)"

text \<open>Division works downwards; the word above the dividend is the first remainder.\<close>

fun ImpShortDiv_loop :: "u64 \<Rightarrow> u64 \<Rightarrow> u64 list \<Rightarrow> (u64 list \<times> u64) res" where
  "ImpShortDiv_loop q r (w # ws) = bind_res (ImpShortDiv_loop q r ws) (\<lambda>(qs, dx).
     bind_res (div_op dx w q) (\<lambda>(ax, dx). Inr (ax # qs, dx)))"
| "ImpShortDiv_loop q r [] = Inr ([], r)"

definition ImpShortDiv :: "u64 list \<Rightarrow> u64 \<Rightarrow> (u64 list \<times> u64) res" where
  "ImpShortDiv s q = ImpShortDiv_loop q (last s) (butlast s)"

fun ImpMulSubBignums_loop :: "u64 \<Rightarrow> u64 \<Rightarrow> bool \<Rightarrow> u64 list \<Rightarrow> u64 list \<Rightarrow> u64 list \<times> bool" where
  "ImpMulSubBignums_loop q k cf (u # us) (v # vs) = (case mul_op v q of (dx, ax) \<Rightarrow>
     case adc False ax k of (ax, cf', _) \<Rightarrow> case sbb cf u ax of (r, cf, _) \<Rightarrow>
     case ImpMulSubBignums_loop q (dx + of_bool cf') cf us vs of (rs, al) \<Rightarrow> (r # rs, al))"
| "ImpMulSubBignums_loop q k cf (u # us) [] = (case sbb cf u k of (r, al, _) \<Rightarrow> (r # us, al))"
| "ImpMulSubBignums_loop q k cf [] _ = ([], cf)"

definition ImpMulSubBignums :: "u64 list \<Rightarrow> u64 list \<Rightarrow> u64 \<Rightarrow> u64 list \<times> bool" where
  "ImpMulSubBignums u v q = ImpMulSubBignums_loop q 0 False u v"

fun ImpAddBignumsEx_loop :: "bool \<Rightarrow> u64 list \<Rightarrow> u64 list \<Rightarrow> u64 list" where
  "ImpAddBignumsEx_loop c (u # us) (v # vs) =
     (case adc c v u of (r, c, _) \<Rightarrow> r # ImpAddBignumsEx_loop c us vs)"
| "ImpAddBignumsEx_loop c (u # us) [] = fst (adc c u 0) # us"
| "ImpAddBignumsEx_loop c [] _ = []"

definition ImpAddBignumsEx :: "u64 list \<Rightarrow> u64 list \<Rightarrow> u64 list" where
  "ImpAddBignumsEx u v = ImpAddBignumsEx_loop False u v"

fun ImpMulAddBignums_loop :: "u64 \<Rightarrow> u64 \<Rightarrow> u64 list \<Rightarrow> u64 list \<Rightarrow> u64 list \<times> u64" where
  "ImpMulAddBignums_loop w k (r # rs) (a # as) = (case mul_op a w of (dx, ax) \<Rightarrow>
     case adc False ax k of (ax, cf, _) \<Rightarrow> let dx = dx + of_bool cf in
     case adc False ax r of (ax, cf, _) \<Rightarrow>
     case ImpMulAddBignums_loop w (dx + of_bool cf) rs as of (rs, k) \<Rightarrow> (ax # rs, k))"
| "ImpMulAddBignums_loop w k rs _ = (rs, k)"

definition ImpMulAddBignums :: "u64 list \<Rightarrow> u64 list \<Rightarrow> u64 \<Rightarrow> u64 list \<times> u64" where
  "ImpMulAddBignums r a w = ImpMulAddBignums_loop w 0 r a"

section \<open>What the loops compute\<close>

lemma ImpAddBignums_loop_sval:
  assumes "length a = length b" and "a \<noteq> []"
    and "ImpAddBignums_loop c l a b = (rs, l')"
  shows "length rs = length a" and "sval (rs @ [if l' then -1 else 0]) = sval a + sval b + of_bool c"
proof -
  have "length rs = length a \<and> sval (rs @ [if l' then -1 else 0]) = sval a + sval b + of_bool c"
    using assms
  proof (induction c l a b arbitrary: rs l' rule: ImpAddBignums_loop.induct)
    case (1 c l a as b bs)
    obtain r cf nl where s: "adc c a b = (r, cf, nl)" by (cases "adc c a b")
    obtain rs' where r: "ImpAddBignums_loop cf nl as bs = (rs', l')" "rs = r # rs'"
      using 1(4) s by (auto split: prod.splits)
    show ?case
    proof (cases "as = []")
      case True
      then show ?thesis using 1(2) r adc_props(3) [OF s] by (auto simp: sval_Cons)
    next
      case False
      moreover have "length as = length bs" "bs \<noteq> []" using 1(2) False by auto
      ultimately show ?thesis
        using 1(1) [OF s [symmetric] refl _ False r(1)] adc_props(1) [OF s] r(2)
        by (simp add: sval_Cons algebra_simps)
    qed
  qed simp_all
  then show "length rs = length a" and "sval (rs @ [if l' then -1 else 0]) = sval a + sval b + of_bool c"
    by simp_all
qed

lemma ImpSubBignums_loop_sval:
  assumes "length a = length b" and "a \<noteq> []"
    and "ImpSubBignums_loop c l a b = (rs, l')"
  shows "length rs = length a \<and> sval (rs @ [if l' then -1 else 0]) = sval a - sval b - of_bool c"
  using assms
proof (induction c l a b arbitrary: rs l' rule: ImpSubBignums_loop.induct)
  case (1 c l a as b bs)
  obtain r cf nl where s: "sbb c a b = (r, cf, nl)" by (cases "sbb c a b")
  obtain rs' where r: "ImpSubBignums_loop cf nl as bs = (rs', l')" "rs = r # rs'"
    using 1(4) s by (auto split: prod.splits)
  show ?case
  proof (cases "as = []")
    case True
    then show ?thesis using 1(2) r sbb_props(2) [OF s] by (auto simp: sval_Cons)
  next
    case False
    moreover have "length as = length bs" "bs \<noteq> []" using 1(2) False by auto
    ultimately show ?thesis
      using 1(1) [OF s [symmetric] refl _ False r(1)] sbb_props(1) [OF s] r(2)
      by (simp add: sval_Cons algebra_simps)
  qed
qed simp_all

lemma ImpNegBignum_loop_sub:
  "ImpNegBignum_loop c l a = ImpSubBignums_loop c l (replicate (length a) 0) a"
  by (induction c l a rule: ImpNegBignum_loop.induct) (auto split: prod.splits)

lemma sval_replicate_0 [simp]: "sval (replicate n 0) = 0"
  by (cases n) (simp_all add: sval_def replicate_append_same [symmetric] butlast_append last_append)

text \<open>Sums, differences and negations of numbers of \<open>n\<close> words, in \<open>n + 1\<close> words.\<close>

lemma ImpAddBignums_sval:
  assumes "length a = length b" and "a \<noteq> []"
  shows "sval (ImpAddBignums a b) = sval a + sval b" and "length (ImpAddBignums a b) = length a + 1"
  using ImpAddBignums_loop_sval [OF assms, of False False]
  by (auto simp: ImpAddBignums_def split: prod.split)

lemma ImpSubBignums_sval:
  assumes "length a = length b" and "a \<noteq> []"
  shows "sval (ImpSubBignums a b) = sval a - sval b" and "length (ImpSubBignums a b) = length a + 1"
  using ImpSubBignums_loop_sval [OF assms, of False False]
  by (auto simp: ImpSubBignums_def split: prod.split)

lemma ImpNegBignum_sval:
  assumes "a \<noteq> []"
  shows "sval (ImpNegBignum a) = - sval a" and "length (ImpNegBignum a) = length a + 1"
  using ImpSubBignums_sval [of "replicate (length a) 0" a] assms
  by (simp_all add: ImpSubBignums_def ImpNegBignum_def ImpNegBignum_loop_sub)

lemma mul_op_props:
  assumes "mul_op a b = (h, l)"
  shows "uint l + 2 ^ 64 * uint h = uint a * uint b"
proof -
  have u: "uint a * uint b \<le> (2 ^ 64 - 1) * (2 ^ 64 - 1)"
    using uint_64 [of a] uint_64 [of b] by (intro mult_mono) simp_all
  have "uint a * uint b div 2 ^ 64 < 2 ^ 64"
    using u by (simp add: div_less_iff_less_mult)
  moreover have "0 \<le> uint a * uint b div 2 ^ 64" by (simp add: pos_imp_zdiv_nonneg_iff)
  ultimately have "uint h = uint a * uint b div 2 ^ 64"
    using assms by (auto simp: mul_op_def uint_word_of_int mod_pos_pos_trivial)
  moreover have "uint l = uint a * uint b mod 2 ^ 64"
    using assms by (auto simp: mul_op_def uint_word_ariths)
  ultimately show ?thesis by (simp only: mod_mult_div_eq)
qed

lemma uint_add_of_bool:
  "uint w + of_bool c < 2 ^ 64 \<Longrightarrow> uint (w + of_bool c) = uint w + of_bool c" for w :: u64
  by (cases c) (simp_all add: uint_plus_if_size word_size)

text \<open>Multiply and add twice: the high word never overflows.\<close>

lemma mul_add_add:
  assumes m: "mul_op a w = (dx, ax)" and a1: "adc False ax k = (ax1, cf1, l1)"
    and a2: "adc False c ax1 = (ax2, cf2, l2)"
  shows "uint ax2 + 2 ^ 64 * uint (dx + of_bool cf1 + of_bool cf2) = uint a * uint w + uint k + uint c"
proof -
  have u: "uint a * uint w \<le> (2 ^ 64 - 1) * (2 ^ 64 - 1)"
    using uint_64 [of a] uint_64 [of w] by (intro mult_mono) simp_all
  define X where "X = uint dx + of_bool cf1 + of_bool cf2"
  have sum: "uint ax2 + 2 ^ 64 * X = uint a * uint w + uint k + uint c"
    using mul_op_props [OF m] adc_props(1) [OF a1] adc_props(1) [OF a2] by (simp add: X_def)
  then have "2 ^ 64 * X \<le> uint a * uint w + uint k + uint c" using uint_64(1) [of ax2] by linarith
  then have "2 ^ 64 * X < 2 ^ 64 * 2 ^ 64" using u uint_64(2) [of k] uint_64(2) [of c] by simp
  then have lt: "uint dx + of_bool cf1 + of_bool cf2 < 2 ^ 64" unfolding X_def by simp
  then have "uint dx + of_bool cf1 < 2 ^ 64" by (cases cf2) simp_all
  then have "uint (dx + of_bool cf1 + of_bool cf2) = uint dx + of_bool cf1 + of_bool cf2"
    using lt by (simp only: uint_add_of_bool)
  then show ?thesis using sum by (simp only: X_def)
qed

lemma ImpMulBignums_row_uval:
  assumes "length as < length cs"
  shows "length (ImpMulBignums_row w k as cs) = length cs"
    and "uval (ImpMulBignums_row w k as cs) = uval (take (length as) cs) + uint w * uval as + uint k
       + 2 ^ (64 * (length as + 1)) * uval (drop (length as + 1) cs)"
proof -
  have "length (ImpMulBignums_row w k as cs) = length cs
    \<and> uval (ImpMulBignums_row w k as cs) = uval (take (length as) cs) + uint w * uval as + uint k
       + 2 ^ (64 * (length as + 1)) * uval (drop (length as + 1) cs)"
    using assms
  proof (induction w k as cs rule: ImpMulBignums_row.induct)
    case (1 w k a as c cs)
    obtain dx ax where m: "mul_op a w = (dx, ax)" by (cases "mul_op a w")
    obtain ax1 cf1 l1 where a1: "adc False ax k = (ax1, cf1, l1)" by (cases "adc False ax k")
    obtain ax2 cf2 l2 where a2: "adc False c ax1 = (ax2, cf2, l2)" by (cases "adc False c ax1")
    have len: "length as < length cs" using 1(2) by simp
    note IH = 1(1) [OF m [symmetric] a1 [symmetric] refl refl a2 [symmetric] refl len]
    show ?case
      using IH mul_add_add [OF m a1 a2] by (simp add: m a1 a2 Let_def algebra_simps power_add)
  qed (simp_all add: algebra_simps)
  then show "length (ImpMulBignums_row w k as cs) = length cs"
    and "uval (ImpMulBignums_row w k as cs) = uval (take (length as) cs) + uint w * uval as + uint k
       + 2 ^ (64 * (length as + 1)) * uval (drop (length as + 1) cs)" by simp_all
qed

lemma ImpMulBignums_row_tail:
  "length as < length cs \<Longrightarrow>
     drop (length as + 1) (ImpMulBignums_row w k as cs) = drop (length as + 1) cs"
proof (induction w k as cs rule: ImpMulBignums_row.induct)
  case (1 w k a as c cs)
  obtain dx ax where m: "mul_op a w = (dx, ax)" by (cases "mul_op a w")
  obtain ax1 cf1 l1 where a1: "adc False ax k = (ax1, cf1, l1)" by (cases "adc False ax k")
  obtain ax2 cf2 l2 where a2: "adc False c ax1 = (ax2, cf2, l2)" by (cases "adc False c ax1")
  have len: "length as < length cs" using 1(2) by simp
  show ?case
    using 1(1) [OF m [symmetric] a1 [symmetric] refl refl a2 [symmetric] refl len]
    by (simp add: m a1 a2 Let_def)
qed simp_all

lemma ImpMulBignums_loop_uval:
  assumes "length cs = length as + length bs" and "set (drop (length as) cs) \<subseteq> {0}"
  shows "length (ImpMulBignums_loop as bs cs) = length cs
    \<and> uval (ImpMulBignums_loop as bs cs) = uval cs + uval as * uval bs"
  using assms
proof (induction bs arbitrary: cs)
  case (Cons b bs)
  define r where "r = ImpMulBignums_row b 0 as cs"
  have zero: "uval (drop n cs) = 0" if "length as \<le> n" for n
  proof -
    have "set (drop n cs) \<subseteq> {0}"
      using Cons.prems(2) set_drop_subset [of "n - length as" "drop (length as) cs"] that by simp
    then have "drop n cs = replicate (length (drop n cs)) 0"
      by (intro replicate_length_same [symmetric]) auto
    then show ?thesis by (metis uval_replicate_0)
  qed
  have len: "length as < length cs" using Cons.prems(1) by simp
  have split: "uval cs = uval (take (length as) cs)"
    using uval_append [of "take (length as) cs" "drop (length as) cs"] zero [of "length as"] by simp
  have rl: "length r = length cs" and rv: "uval r = uval cs + uint b * uval as"
    using ImpMulBignums_row_uval [OF len, of b 0] zero [of "length as + 1"] split
    by (simp_all add: r_def)
  obtain c cs' where r: "r = c # cs'" using rl len by (cases r) auto
  have "drop (length as) cs' = drop (length as + 1) r" by (simp add: r)
  have "set (drop (length as) cs') \<subseteq> {0}"
    using ImpMulBignums_row_tail [OF len, of b 0] Cons.prems(2) set_drop_subset [of 1 "drop (length as) cs"]
    unfolding r_def [symmetric] r by (auto simp: drop_Suc)
  moreover have "length cs' = length as + length bs" using rl Cons.prems(1) r by simp
  ultimately have "length (ImpMulBignums_loop as bs cs') = length cs'"
      "uval (ImpMulBignums_loop as bs cs') = uval cs' + uval as * uval bs"
    using Cons.IH by blast+
  moreover have "ImpMulBignums_loop as (b # bs) cs = c # ImpMulBignums_loop as bs cs'"
    using r by (simp add: r_def)
  ultimately show ?case using rl rv r by (simp add: algebra_simps)
qed simp

lemma ImpMulBignums_uval:
  "uval (ImpMulBignums a b) = uval a * uval b" "length (ImpMulBignums a b) = length a + length b"
  using ImpMulBignums_loop_uval [of "replicate (length a + length b) 0" a b]
  by (simp_all add: ImpMulBignums_def set_replicate_conv_if)

lemma ImpMulAddBignums_uval:
  assumes "length r = length a"
  shows "case ImpMulAddBignums r a w of (rs, k) \<Rightarrow>
    uval rs + 2 ^ (64 * length a) * uint k = uval r + uint w * uval a \<and> length rs = length a"
proof -
  have "case ImpMulAddBignums_loop w k r a of (rs, k') \<Rightarrow>
      uval rs + 2 ^ (64 * length a) * uint k' = uval r + uint w * uval a + uint k \<and> length rs = length a" for k
    using assms
  proof (induction w k r a rule: ImpMulAddBignums_loop.induct)
    case (1 w k r rs a as)
    obtain dx ax where m: "mul_op a w = (dx, ax)" by (cases "mul_op a w")
    obtain ax1 cf1 l1 where a1: "adc False ax k = (ax1, cf1, l1)" by (cases "adc False ax k")
    obtain ax2 cf2 l2 where a2: "adc False ax1 r = (ax2, cf2, l2)" by (cases "adc False ax1 r")
    have a2': "adc False r ax1 = (ax2, cf2, l2)" using a2 by (simp add: adc_def add.commute)
    obtain rs' k' where rec: "ImpMulAddBignums_loop w (dx + of_bool cf1 + of_bool cf2) rs as = (rs', k')"
      by fastforce
    have len: "length rs = length as" using 1(2) by simp
    note IH = 1(1) [OF m [symmetric] a1 [symmetric] refl refl a2 [symmetric] refl len]
    have "ImpMulAddBignums_loop w k (r # rs) (a # as) = (ax2 # rs', k')"
      using rec by (simp add: m a1 a2 Let_def split del: split_of_bool)
    then show ?case
      using IH mul_add_add [OF m a1 a2'] unfolding rec by (simp add: algebra_simps power_add)
  qed simp_all
  from this [of 0] show ?thesis by (simp add: ImpMulAddBignums_def)
qed

text \<open>Shifts.\<close>

lemma uint_disjoint_or:
  assumes "n \<le> 64"
  shows "uint (push_bit n x OR drop_bit (64 - n) y :: u64) = uint x * 2 ^ n mod 2 ^ 64 + uint y div 2 ^ (64 - n)"
proof -
  have "push_bit n x AND drop_bit (64 - n) y = 0"
  proof (rule bit_word_eqI)
    fix i
    assume "i < LENGTH(64)"
    then show "bit (push_bit n x AND drop_bit (64 - n) y) i = bit (0 :: u64) i"
      using bit_imp_le_length [of y "64 - n + i"] assms
      by (auto simp: bit_and_iff bit_push_bit_iff bit_drop_bit_eq)
  qed
  then have e: "push_bit n x OR drop_bit (64 - n) y = push_bit n x + drop_bit (64 - n) y"
    by (simp add: disjunctive_add_eq_or)
  have d: "uint (drop_bit (64 - n) y) = uint y div 2 ^ (64 - n)"
    unfolding unsigned_drop_bit_eq
    using take_bit_int_eq_self [OF uint_64(1,2)] by (simp add: drop_bit_eq_div)
  have p: "uint (push_bit n x) = uint x * 2 ^ n mod 2 ^ 64"
    unfolding unsigned_push_bit_eq by (simp add: push_bit_eq_mult take_bit_eq_mod)
  have "uint y div 2 ^ (64 - n) < 2 ^ n"
  proof -
    have "(2 :: int) ^ n * 2 ^ (64 - n) = 2 ^ 64" using assms by (simp flip: power_add)
    then have "uint y < 2 ^ n * 2 ^ (64 - n)" using uint_64(2) [of y] by (simp only:)
    then show ?thesis by (simp add: int_div_less)
  qed
  moreover have "uint x * 2 ^ n mod 2 ^ 64 \<le> 2 ^ 64 - 2 ^ n"
  proof -
    have "(2 :: int) ^ 64 = 2 ^ (64 - n) * 2 ^ n" using assms by (simp flip: power_add)
    then have m: "uint x * 2 ^ n mod 2 ^ 64 = (uint x mod 2 ^ (64 - n)) * 2 ^ n"
      by (simp only: mult_mod_left)
    have "uint x mod 2 ^ (64 - n) \<le> 2 ^ (64 - n) - 1" by (simp add: zle_diff1_eq)
    then have "(uint x mod 2 ^ (64 - n)) * 2 ^ n \<le> (2 ^ (64 - n) - 1) * 2 ^ n" by (intro mult_right_mono) simp_all
    then show ?thesis unfolding m using \<open>(2 :: int) ^ 64 = 2 ^ (64 - n) * 2 ^ n\<close>
      by (simp only: left_diff_distrib mult_1)
  qed
  ultimately have "uint (push_bit n x) + uint (drop_bit (64 - n) y) < 2 ^ 64" unfolding d p by linarith
  then have "uint (push_bit n x + drop_bit (64 - n) y) = uint (push_bit n x) + uint (drop_bit (64 - n) y)"
    by (simp add: uint_plus_if_size word_size)
  then show ?thesis unfolding e d p .
qed

lemma fits_div:
  assumes "fits k x" and "0 < m"
  shows "fits k (x div m)"
proof -
  define H :: int where "H = 2 ^ (k - 1)"
  have H: "- H \<le> x" "x < H" "0 < H" using assms(1) by (simp_all add: fits_def H_def)
  have "H \<le> H * m" using mult_left_mono [of 1 m H] assms(2) H(3) by simp
  then have "x < H * m" "- H * m \<le> x" using H unfolding mult_minus_left by linarith+
  then have "x div m < H" "\<not> x div m < - H"
    using assms(2) by (simp_all add: int_div_less)
  then show ?thesis by (simp add: fits_def H_def)
qed

lemma scale_div_mod: "m * x = (x mod c) * m + c * m * (x div c)" for x :: int
  by (subst mod_mult_div_eq [of x c, symmetric]) (simp only: algebra_simps)

lemma sval_Cons_mod:
  assumes "c \<le> 64"
  shows "sval (w # ws) mod 2 ^ c = uint (w :: u64) mod 2 ^ c"
proof -
  have d: "(2 :: int) ^ c dvd 2 ^ 64 * x" for x using assms by (intro dvd_mult2 le_imp_power_dvd)
  show ?thesis
  proof (cases "ws = []")
    case True
    have "2 ^ c dvd sint w - uint w"
      using d [of "if sint w < 0 then - 1 else 0"] sint_uint_neg [of w] by (cases "sint w < 0") simp_all
    then show ?thesis using True by (simp add: mod_eq_dvd_iff)
  next
    case False
    then show ?thesis using d [of "sval ws"] by (simp add: sval_Cons mod_eq_dvd_iff)
  qed
qed

lemma ImpShld_loop_sval:
  assumes "amt < 64"
  shows "sval (ImpShld_loop amt p ws) = sval (p # ws) div 2 ^ (64 - amt)
    \<and> length (ImpShld_loop amt p ws) = length ws + 1"
proof (induction ws arbitrary: p)
  case Nil
  define s :: u64 where "s = (if sint p < 0 then -1 else 0)"
  have B: "(2 :: int) ^ 64 = 2 ^ amt * 2 ^ (64 - amt)" using assms by (simp flip: power_add)
  define D where "D = shld_op s p amt"
  have u: "uint D = uint s * 2 ^ amt mod 2 ^ 64 + uint p div 2 ^ (64 - amt)"
    using assms unfolding D_def shld_op_def by (intro uint_disjoint_or) simp
  have us: "uint s = (if sint p < 0 then 2 ^ 64 - 1 else 0)"
    by (simp add: s_def unsigned_minus_1_eq_mask mask_eq_exp_minus_1)
  have sp: "sint p div 2 ^ (64 - amt) = uint p div 2 ^ (64 - amt) - (if sint p < 0 then 2 ^ amt else 0)"
  proof -
    have "(uint p - 2 ^ 64) div 2 ^ (64 - amt) = uint p div 2 ^ (64 - amt) - 2 ^ amt"
      unfolding B using div_mult_self1 [of "2 ^ (64 - amt)" "uint p" "- (2 ^ amt)"] by simp
    moreover have "LENGTH(64) = 64" by simp
    ultimately show ?thesis
      using sint_uint_neg [of p] by (cases "sint p < 0") (simp_all only: if_True if_False diff_0_right)
  qed
  have "uint D = (uint s * 2 ^ amt + uint p div 2 ^ (64 - amt)) mod 2 ^ 64"
    using uint_64 [of D] u by (metis mod_add_left_eq mod_pos_pos_trivial)
  also have "\<dots> = (sint p div 2 ^ (64 - amt)) mod 2 ^ 64"
    unfolding sp us by (auto simp: mod_eq_dvd_iff algebra_simps)
  finally have m: "(sint p div 2 ^ (64 - amt)) mod 2 ^ 64 = uint D" ..
  have f: "fits 64 (sint p div 2 ^ (64 - amt))"
    using sint_fits [of p] by (intro fits_div) (simp_all add: fits_def)
  have "sval [D] = sint p div 2 ^ (64 - amt)"
    using m f by (intro sval_unique) simp_all
  then show ?case by (simp add: D_def s_def)
next
  case (Cons w ws)
  have B: "(2 :: int) ^ 64 = 2 ^ amt * 2 ^ (64 - amt)" using assms by (simp flip: power_add)
  have u: "uint (shld_op w p amt) = uint w * 2 ^ amt mod 2 ^ 64 + uint p div 2 ^ (64 - amt)"
    using assms unfolding shld_op_def by (intro uint_disjoint_or) simp
  have "ImpShld_loop amt w ws \<noteq> []" by (cases ws) simp_all
  define S where "S = sval (w # ws)"
  have "uint w * 2 ^ amt mod 2 ^ 64 = (S mod 2 ^ (64 - amt)) * 2 ^ amt"
    unfolding S_def B by (simp add: sval_Cons_mod mult_mod_left mult.commute)
  then have "uint w * 2 ^ amt mod 2 ^ 64 + 2 ^ 64 * (S div 2 ^ (64 - amt)) = 2 ^ amt * S"
    unfolding B scale_div_mod [of "2 ^ amt" S "2 ^ (64 - amt)"] by (simp add: mult_ac)
  moreover have "sval (p # w # ws) div 2 ^ (64 - amt) = uint p div 2 ^ (64 - amt) + 2 ^ amt * S"
  proof -
    have "sval (p # w # ws) = uint p + 2 ^ (64 - amt) * (2 ^ amt * S)"
      using B by (simp add: sval_Cons S_def mult.commute)
    then show ?thesis by simp
  qed
  ultimately show ?case
    using Cons.IH [of w] u \<open>ImpShld_loop amt w ws \<noteq> []\<close>
    by (simp add: sval_Cons S_def)
qed

lemma ImpShld_sval:
  assumes "amt < 64" and "s \<noteq> []"
  shows "sval (ImpShld s amt) = sval s * 2 ^ amt" and "length (ImpShld s amt) = length s + 1"
proof -
  have "(2 :: int) ^ 64 = 2 ^ amt * 2 ^ (64 - amt)" using assms by (simp flip: power_add)
  then have B: "2 ^ 64 * sval s = sval s * 2 ^ amt * 2 ^ (64 - amt)" by (simp only: mult_ac)
  have B: "2 ^ 64 * sval s div 2 ^ (64 - amt) = sval s * 2 ^ amt" unfolding B by simp
  show "sval (ImpShld s amt) = sval s * 2 ^ amt" and "length (ImpShld s amt) = length s + 1"
    using ImpShld_loop_sval [OF assms(1), of 0 s] assms(2) B
    by (simp_all add: ImpShld_def sval_Cons)
qed

lemma ImpShrd_loop_uval:
  assumes "amt < 64"
  shows "case ImpShrd_loop amt prev s of (rs, dx) \<Rightarrow> length rs = length s \<and> dx = hd (s @ [prev])
    \<and> uval rs = uval (s @ [prev]) div 2 ^ amt mod 2 ^ (64 * length s)"
proof (induction s)
  case (Cons w ws)
  have B: "(2 :: int) ^ 64 = 2 ^ amt * 2 ^ (64 - amt)" using assms by (simp flip: power_add)
  obtain rs dx where r: "ImpShrd_loop amt prev ws = (rs, dx)" by fastforce
  define T where "T = uval (ws @ [prev])"
  obtain v vs where v: "ws @ [prev] = v # vs" by (cases "ws @ [prev]") auto
  have IH: "length rs = length ws" "dx = v" "uval rs = T div 2 ^ amt mod 2 ^ (64 * length ws)"
    using Cons.IH by (simp_all add: r v T_def)
  have u: "uint (shrd_op w dx amt) = uint dx * 2 ^ (64 - amt) mod 2 ^ 64 + uint w div 2 ^ amt"
    using uint_disjoint_or [of "64 - amt" dx w] assms by (simp add: shrd_op_def or.commute)
  have Tm: "T mod 2 ^ amt = uint dx mod 2 ^ amt"
  proof -
    have "(2 :: int) ^ amt dvd 2 ^ 64 * uval vs" using assms by (intro dvd_mult2 le_imp_power_dvd) simp
    then show ?thesis by (simp add: T_def v IH(2) mod_eq_dvd_iff)
  qed
  have x: "uint dx * 2 ^ (64 - amt) mod 2 ^ 64 = (T mod 2 ^ amt) * 2 ^ (64 - amt)"
    unfolding Tm B by (simp add: mult_mod_left)
  have "uval ((w # ws) @ [prev]) div 2 ^ amt = uint w div 2 ^ amt + 2 ^ (64 - amt) * T"
  proof -
    have "uval ((w # ws) @ [prev]) = uint w + 2 ^ amt * (2 ^ (64 - amt) * T)"
      using B by (simp add: T_def mult.commute)
    then show ?thesis by simp
  qed
  also have "\<dots> = uint w div 2 ^ amt + (T mod 2 ^ amt) * 2 ^ (64 - amt) + 2 ^ 64 * (T div 2 ^ amt)"
    unfolding B scale_div_mod [of "2 ^ (64 - amt)" T "2 ^ amt"] by simp
  finally have e: "uval ((w # ws) @ [prev]) div 2 ^ amt
      = uint (shrd_op w dx amt) + 2 ^ 64 * (T div 2 ^ amt)" unfolding u x by simp
  have "(uint (shrd_op w dx amt) + 2 ^ 64 * (T div 2 ^ amt)) mod (2 ^ 64 * 2 ^ (64 * length ws))
      = uint (shrd_op w dx amt) + 2 ^ 64 * (T div 2 ^ amt mod 2 ^ (64 * length ws))"
    using uint_64 [of "shrd_op w dx amt"] by (simp add: zmod_zmult2_eq)
  then show ?case unfolding e by (simp add: r IH power_add)
qed simp

lemma ImpShrd_uval:
  assumes "amt < 64"
  shows "uval (ImpShrd s amt prev) = uval (s @ [prev]) div 2 ^ amt mod 2 ^ (64 * length s)"
    and "length (ImpShrd s amt prev) = length s"
  using ImpShrd_loop_uval [OF assms, of s prev] by (simp_all add: ImpShrd_def split: prod.splits)

text \<open>Division by a word never faults when the first remainder is smaller than it.\<close>

lemma ImpShortDiv_loop_uval:
  assumes "r < q"
  shows "\<exists>qs r'. ImpShortDiv_loop q r ws = Inr (qs, r') \<and> r' < q \<and> length qs = length ws
    \<and> uval ws + 2 ^ (64 * length ws) * uint r = uint q * uval qs + uint r'"
proof (induction ws)
  case Nil
  then show ?case using assms by simp
next
  case (Cons w ws)
  then obtain qs dx where IH: "ImpShortDiv_loop q r ws = Inr (qs, dx)" "dx < q" "length qs = length ws"
    "uval ws + 2 ^ (64 * length ws) * uint r = uint q * uval qs + uint dx" by blast
  define x where "x = 2 ^ 64 * uint dx + uint w"
  have q: "0 < uint q" "uint dx + 1 \<le> uint q" "uint q < 2 ^ 64"
    using IH(2) uint_64(1) [of dx] uint_64(2) [of q] unfolding word_less_def by linarith+
  have x0: "0 \<le> x" by (simp add: x_def)
  have "2 ^ 64 * (uint dx + 1) \<le> 2 ^ 64 * uint q" using q by (intro mult_left_mono) simp_all
  then have "x < 2 ^ 64 * uint q" using uint_64 [of w] by (simp add: x_def)
  then have "x div uint q < 2 ^ 64" using q by (simp add: int_div_less)
  moreover have "0 \<le> x div uint q" using q x0 by (simp add: pos_imp_zdiv_nonneg_iff)
  ultimately have uq: "uint (word_of_int (x div uint q) :: u64) = x div uint q"
    by (simp add: uint_word_of_int mod_pos_pos_trivial)
  have rq: "0 \<le> x mod uint q" "x mod uint q < uint q" using q by simp_all
  then have "x mod uint q mod 2 ^ 64 = x mod uint q" using q by (intro mod_pos_pos_trivial) linarith+
  then have ur: "uint (word_of_int (x mod uint q) :: u64) = x mod uint q"
    by (simp add: uint_word_of_int)
  have d: "div_op dx w q = Inr (word_of_int (x div uint q), word_of_int (x mod uint q))"
    using IH(2) by (simp add: div_op_def x_def not_le Let_def)
  have "uint q * (x div uint q) + x mod uint q = x" by simp
  then have "uval (w # ws) + 2 ^ (64 * length (w # ws)) * uint r
      = uint q * uval (word_of_int (x div uint q) # qs) + uint (word_of_int (x mod uint q) :: u64)"
    using IH(4) unfolding ur uval_simps uq by (simp add: x_def algebra_simps power_add)
  then show ?case using IH(1,3) d rq ur by (auto simp: word_less_def)
qed

lemma ImpShortDiv_uval:
  assumes "r < q"
  shows "\<exists>qs r'. ImpShortDiv (ws @ [r]) q = Inr (qs, r') \<and> r' < q \<and> length qs = length ws
    \<and> uval ws + 2 ^ (64 * length ws) * uint r = uint q * uval qs + uint r'"
  using ImpShortDiv_loop_uval [OF assms, of ws] by (simp add: ImpShortDiv_def)

text \<open>Subtracting a multiple, and adding the divisor back.\<close>

lemma mul_add:
  assumes m: "mul_op v q = (dx, ax)" and a1: "adc False ax k = (ax1, cf1, l1)"
  shows "uint ax1 + 2 ^ 64 * uint (dx + of_bool cf1) = uint v * uint q + uint k"
proof -
  obtain ax2 cf2 l2 where a2: "adc False 0 ax1 = (ax2, cf2, l2)" by (cases "adc False 0 ax1")
  have "ax2 = ax1" "\<not> cf2" using a2 uint_64 [of ax1] by (auto simp: adc_def Let_def)
  then show ?thesis using mul_add_add [OF m a1 a2] by simp
qed

lemma ImpMulSubBignums_loop_uval:
  assumes "length us = length vs + 1"
  shows "case ImpMulSubBignums_loop q k cf us vs of (rs, al) \<Rightarrow> length rs = length us
    \<and> uval rs - 2 ^ (64 * length us) * of_bool al = uval us - uint q * uval vs - uint k - of_bool cf"
  using assms
proof (induction q k cf us vs rule: ImpMulSubBignums_loop.induct)
  case (1 q k cf u us v vs)
  obtain dx ax where m: "mul_op v q = (dx, ax)" by (cases "mul_op v q")
  obtain ax1 cf1 l1 where a1: "adc False ax k = (ax1, cf1, l1)" by (cases "adc False ax k")
  obtain r cf2 l2 where s: "sbb cf u ax1 = (r, cf2, l2)" by (cases "sbb cf u ax1")
  obtain rs al where rec: "ImpMulSubBignums_loop q (dx + of_bool cf1) cf2 us vs = (rs, al)" by fastforce
  have len: "length us = length vs + 1" using 1(2) by simp
  note IH = 1(1) [OF m [symmetric] a1 [symmetric] refl s [symmetric] refl len]
  have "ImpMulSubBignums_loop q k cf (u # us) (v # vs) = (r # rs, al)"
    using rec by (simp add: m a1 s)
  then show ?case
    using IH mul_add [OF m a1] sbb_props(1) [OF s] unfolding rec by (simp add: algebra_simps power_add)
next
  case (2 q k cf u us)
  obtain r al l where s: "sbb cf u k = (r, al, l)" by (cases "sbb cf u k")
  then show ?case using 2 sbb_props(1) [OF s] by simp
qed simp

lemma ImpMulSubBignums_uval:
  assumes "length u = length v + 1"
  obtains rs al where "ImpMulSubBignums u v q = (rs, al)" and "length rs = length u"
    and "uval rs - 2 ^ (64 * length u) * of_bool al = uval u - uint q * uval v"
  using ImpMulSubBignums_loop_uval [OF assms, of q 0 False] that
  by (auto simp: ImpMulSubBignums_def split: prod.splits)

lemma ImpAddBignumsEx_loop_uval:
  assumes "length us = length vs + 1"
  shows "\<exists>cy. length (ImpAddBignumsEx_loop c us vs) = length us
    \<and> uval (ImpAddBignumsEx_loop c us vs) + 2 ^ (64 * length us) * of_bool cy
         = uval us + uval vs + of_bool c"
  using assms
proof (induction c us vs rule: ImpAddBignumsEx_loop.induct)
  case (1 c u us v vs)
  obtain r cf l where s: "adc c v u = (r, cf, l)" by (cases "adc c v u")
  have len: "length us = length vs + 1" using 1(2) by simp
  from 1(1) [OF s [symmetric] refl len]
  obtain cy where cy: "length (ImpAddBignumsEx_loop cf us vs) = length us"
    "uval (ImpAddBignumsEx_loop cf us vs) + 2 ^ (64 * length us) * of_bool cy
       = uval us + uval vs + of_bool cf" by blast
  have "uval (ImpAddBignumsEx_loop c (u # us) (v # vs)) + 2 ^ (64 * length (u # us)) * of_bool cy
      = uval (u # us) + uval (v # vs) + of_bool c"
    using cy(2) adc_props(1) [OF s] by (simp add: s algebra_simps power_add)
  moreover have "length (ImpAddBignumsEx_loop c (u # us) (v # vs)) = length (u # us)"
    using cy(1) by (simp add: s)
  ultimately show ?case by blast
next
  case (2 c u us)
  obtain r cf l where s: "adc c u 0 = (r, cf, l)" by (cases "adc c u 0")
  then show ?case using 2 adc_props(1) [OF s] by (intro exI [of _ cf]) simp
qed simp

lemma ImpAddBignumsEx_uval:
  assumes "length u = length v + 1" and "uval u + uval v = 2 ^ (64 * length u) + x"
    and "0 \<le> x" and "x < 2 ^ (64 * length u)"
  shows "uval (ImpAddBignumsEx u v) = x" and "length (ImpAddBignumsEx u v) = length u"
proof -
  define r where "r = ImpAddBignumsEx u v"
  obtain cy where l: "length r = length u"
    and e: "uval r + 2 ^ (64 * length u) * of_bool cy = uval u + uval v"
    using ImpAddBignumsEx_loop_uval [OF assms(1), of False] by (auto simp: ImpAddBignumsEx_def r_def)
  moreover have "uval r < 2 ^ (64 * length u)" using uval_less [of r] l by simp
  ultimately have "uval r = x" using assms(2,3) by (cases cy) simp_all
  then show "uval (ImpAddBignumsEx u v) = x" and "length (ImpAddBignumsEx u v) = length u"
    using l by (simp_all add: r_def)
qed

end
