(* ===== verification/BigInt.thy ===== *)
theory BigInt
  imports BigWords BinaryRW "HOL-Library.Log_Nat"
begin

text \<open>
  \<open>BigInteger\<close> of \<open>src/bignum.h\<close> and \<open>src/libext/bignum.cpp\<close>, in the configuration that needs no library
  (\<open>UCFG_BIGNUM=='A'\<close>) on a 64-bit machine: a number is the least array of words that holds it
  in two's complement, in the object itself when one word is enough and in a \<open>Blob\<close> otherwise.
  Every operation is shown to compute its result on integers and to keep the array least, so
  that equality and order of numbers are those of their arrays.  Numbers have fewer than
  2^31 bits, so that the \<open>int\<close> variables for sizes do not overflow.
\<close>

section \<open>The class\<close>

record bigint =
  bi_blob :: "u64 list"
  bi_data :: u64
  bi_count :: nat

definition get_Data :: "bigint \<Rightarrow> u64 list" where
  "get_Data b = (if bi_count b \<le> 1 then [bi_data b] else bi_blob b)"

definition one_word :: "u64 \<Rightarrow> bigint" where
  "one_word w = \<lparr>bi_blob = [], bi_data = w, bi_count = 1\<rparr>"

text \<open>\<open>Init\<close> drops the bytes that only repeat the sign.\<close>

definition Init_size :: "byte list \<Rightarrow> nat" where
  "Init_size p = (let bhigh = sign_word p; n = length (dropWhile (\<lambda>b. b = bhigh) (rev p))
     in if n = 0 \<or> (if sint (p ! (n - 1)) < 0 then -1 else 0) \<noteq> bhigh then n + 1 else n)"

definition Init :: "byte list \<Rightarrow> bigint" where
  "Init p = (let bhigh = sign_word p; n = Init_size p; cnt = (n + 7) div 8;
       data = bytes_words (take n p @ replicate (8 * cnt - n) bhigh)
     in if 1 < cnt then \<lparr>bi_blob = data, bi_data = 0, bi_count = cnt\<rparr>
        else \<lparr>bi_blob = [], bi_data = hd data, bi_count = cnt\<rparr>)"

definition BigInteger :: bigint where
  "BigInteger = one_word 0"

definition BigInteger_uint32 :: "u32 \<Rightarrow> bigint" where
  "BigInteger_uint32 n = (if n \<le> 0x7FFFFFFF then one_word (ucast n) else Init (bytes_le 8 (ucast n :: u64)))"

definition BigInteger_int64 :: "u64 \<Rightarrow> bigint" where
  "BigInteger_int64 n = one_word n"

definition BigInteger_int :: "u32 \<Rightarrow> bigint" where
  "BigInteger_int n = one_word (scast n)"

definition BigInteger_words :: "u64 list \<Rightarrow> bigint" where
  "BigInteger_words p = Init (word_bytes p)"

text \<open>The sign is read from \<open>p[count - 1]\<close>, so there must be a byte.\<close>

definition BigInteger_bytes :: "byte list \<Rightarrow> bigint res" where
  "BigInteger_bytes p = (if p = [] then Inl OutOfBounds else Inr (Init p))"

definition BigInteger_Sign :: "bigint \<Rightarrow> int" where
  "BigInteger_Sign v = (if bi_count v = 1 \<and> bi_data v = 0 then 0
     else if bit (last (word_bytes (get_Data v))) 7 then -1 else 1)"

definition BigInteger_not :: "bigint \<Rightarrow> bool" where
  "BigInteger_not v \<longleftrightarrow> bi_count v = 1 \<and> bi_data v = 0"

definition BigInteger_eq :: "bigint \<Rightarrow> bigint \<Rightarrow> bool" where
  "BigInteger_eq a b \<longleftrightarrow> bi_count a = bi_count b \<and> get_Data a = get_Data b"

definition AsInt64 :: "bigint \<Rightarrow> u64 option" where
  "AsInt64 v = (if 1 < bi_count v then None else Some (hd (get_Data v)))"

definition AsBaseWord :: "bigint \<Rightarrow> u64 option" where
  "AsBaseWord v = (if 1 < bi_count v then None else Some (bi_data v))"

definition ExtendTo :: "bigint \<Rightarrow> nat \<Rightarrow> u64 list res" where
  "ExtendTo v sz = (if sz < bi_count v then Inl InvalidExtendOfNumber
     else Inr (get_Data v @ replicate (sz - bi_count v) (if BigInteger_Sign v = -1 then -1 else 0)))"

text \<open>\<open>BitScanReverse64\<close> gives -1 for zero.\<close>

definition ImpBSR :: "u64 \<Rightarrow> int" where
  "ImpBSR w = bitlen (uint w) - 1"

definition get_Length :: "bigint \<Rightarrow> nat" where
  "get_Length v = (let w = last (get_Data v) in
     nat (int ((bi_count v - 1) * 64 + 1) + ImpBSR (w XOR (if sint w < 0 then -1 else 0))))"

definition BigInteger_TestBit :: "bigint \<Rightarrow> nat \<Rightarrow> bool" where
  "BigInteger_TestBit v idx = (let i = min idx (bi_count v * 64 - 1) in bit (get_Data v ! (i div 64)) (i mod 64))"

definition BigInteger_ToBytes :: "bigint \<Rightarrow> byte list" where
  "BigInteger_ToBytes v = take ((get_Length v + 8) div 8) (word_bytes (get_Data v))"

section \<open>Arithmetic\<close>

definition BinaryBignums ::
    "(u64 list \<Rightarrow> u64 list \<Rightarrow> u64 list) \<Rightarrow> bigint \<Rightarrow> bigint \<Rightarrow> bigint res" where
  "BinaryBignums pfn x y = (let sz = max (bi_count x) (bi_count y) in
     bind_res (ExtendTo x sz) (\<lambda>px. bind_res (ExtendTo y sz) (\<lambda>py.
       Inr (BigInteger_words (pfn px py)))))"

definition BigInteger_Add :: "bigint \<Rightarrow> bigint \<Rightarrow> bigint res" where
  "BigInteger_Add = BinaryBignums ImpAddBignums"

definition BigInteger_Sub :: "bigint \<Rightarrow> bigint \<Rightarrow> bigint res" where
  "BigInteger_Sub = BinaryBignums ImpSubBignums"

definition BigInteger_And :: "bigint \<Rightarrow> bigint \<Rightarrow> bigint res" where
  "BigInteger_And = BinaryBignums (map2 (AND))"

definition BigInteger_Or :: "bigint \<Rightarrow> bigint \<Rightarrow> bigint res" where
  "BigInteger_Or = BinaryBignums (map2 (OR))"

definition BigInteger_Xor :: "bigint \<Rightarrow> bigint \<Rightarrow> bigint res" where
  "BigInteger_Xor = BinaryBignums (map2 (XOR))"

definition BigInteger_compl :: "bigint \<Rightarrow> bigint" where
  "BigInteger_compl v = BigInteger_words (map NOT (get_Data v))"

definition BigInteger_neg :: "bigint \<Rightarrow> bigint" where
  "BigInteger_neg v = BigInteger_words (ImpNegBignum (get_Data v))"

text \<open>Operands are made positive and the product is negated in place, without its sign word.\<close>

definition BigInteger_Mul :: "bigint \<Rightarrow> bigint \<Rightarrow> bigint" where
  "BigInteger_Mul x y = (let
     signX = (BigInteger_Sign x = -1); signY = (BigInteger_Sign y = -1);
     px = (if signX then ImpNegBignum (get_Data x) else get_Data x);
     py = (if signY then ImpNegBignum (get_Data y) else get_Data y);
     sz = bi_count x + bi_count y;
     p = ImpMulBignums (take (bi_count x) px) (take (bi_count y) py);
     p = (if signX \<noteq> signY then ImpNegBignum p else p)
   in BigInteger_words (take sz p))"

definition BigInteger_NMod :: "bigint \<Rightarrow> u32 \<Rightarrow> u32 res" where
  "BigInteger_NMod v d = (if BigInteger_Sign v < 0 then Inl InvalidArgument
     else bind_res (ExtendTo v (bi_count v + 1)) (\<lambda>s.
       bind_res (ImpShortDiv s (ucast d)) (\<lambda>(_, r). Inr (ucast r))))"

definition BigInteger_Compare :: "bigint \<Rightarrow> bigint \<Rightarrow> int" where
  "BigInteger_Compare a x = (if bi_count a \<noteq> bi_count x
     then let signMe = BigInteger_Sign a; signX = BigInteger_Sign x in
       if signMe \<noteq> signX then signMe - signX
       else (int (bi_count a) - int (bi_count x)) * signMe
     else let p = get_Data a; px = get_Data x;
       ds = filter (\<lambda>i. p ! i \<noteq> px ! i) (rev [0..<bi_count a]) in
       case ds of [] \<Rightarrow> 0
       | i # _ \<Rightarrow> if (if i = bi_count a - 1 then sint (p ! i) < sint (px ! i) else p ! i < px ! i) then -1 else 1)"

definition BigInteger_shr :: "bigint \<Rightarrow> nat \<Rightarrow> bigint" where
  "BigInteger_shr x v = (let
     len = get_Length x;
     sz = nat (max (int len - int v + 64) 64 div 64);
     prev = (if BigInteger_Sign x = -1 then -1 else 0)
   in if v < len then
        let p = len div 64; off = v mod 64;
            (prev, p) = (if len mod 64 < off then (get_Data x ! p, p - 1) else (prev, p))
        in BigInteger_words (ImpShrd (take sz (drop (p + 1 - sz) (get_Data x))) off prev)
      else BigInteger_words [prev])"

definition BigInteger_shl :: "bigint \<Rightarrow> nat \<Rightarrow> bigint" where
  "BigInteger_shl x v =
     BigInteger_words (replicate (v div 64) 0 @ ImpShld (get_Data x) (v mod 64))"

definition BigInteger_abs :: "bigint \<Rightarrow> bigint" where
  "BigInteger_abs v = (if BigInteger_Sign v < 0 then BigInteger_neg v else v)"

section \<open>The value, and the least array\<close>

definition bi_val :: "bigint \<Rightarrow> int" where
  "bi_val v = sval (get_Data v)"

definition bi_ok :: "bigint \<Rightarrow> bool" where
  "bi_ok v \<longleftrightarrow> bi_count v = length (get_Data v) \<and>
     (1 < bi_count v \<longrightarrow> \<not> fits (64 * (bi_count v - 1)) (bi_val v))"

lemma one_word_val [simp]: "bi_val (one_word w) = sint w" "bi_ok (one_word w)"
  by (simp_all add: bi_val_def bi_ok_def one_word_def get_Data_def)

lemma get_Data_ne [simp]: "bi_ok v \<Longrightarrow> get_Data v \<noteq> []"
  by (auto simp: bi_ok_def get_Data_def)

lemma bi_ok_length: "bi_ok v \<Longrightarrow> length (get_Data v) = bi_count v" "bi_ok v \<Longrightarrow> 0 < bi_count v"
  by (auto simp: bi_ok_def get_Data_def split: if_splits)

lemma bi_ok_canon: "bi_ok v \<Longrightarrow> 1 < bi_count v \<Longrightarrow> \<not> fits (64 * (bi_count v - 1)) (bi_val v)"
  unfolding bi_ok_def by blast

lemma bi_val_fits: "bi_ok v \<Longrightarrow> fits (64 * bi_count v) (bi_val v)"
  using sval_fits [of "get_Data v"] by (simp add: bi_val_def bi_ok_length)

lemma strip_split:
  assumes "k = length (dropWhile (\<lambda>b. b = h) (rev p))"
  shows "\<exists>j. p = take k p @ replicate j h \<and> k + j = length p \<and> (k = 0 \<or> p ! (k - 1) \<noteq> h)"
  using assms
proof (induction p arbitrary: k rule: rev_induct)
  case (snoc x xs)
  show ?case
  proof (cases "x = h")
    case True
    then have "k = length (dropWhile (\<lambda>b. b = h) (rev xs))" using snoc.prems by simp
    then obtain j where j: "xs = take k xs @ replicate j h" "k + j = length xs" "k = 0 \<or> xs ! (k - 1) \<noteq> h"
      using snoc.IH by blast
    have "xs @ [h] = take k xs @ replicate (Suc j) h"
      using j(1) by (metis append_assoc replicate_Suc replicate_append_same)
    moreover have "take k (xs @ [x]) = take k xs" using j(2) by simp
    moreover have "k = 0 \<or> (xs @ [x]) ! (k - 1) \<noteq> h" using j(2,3) by (auto simp: nth_append)
    ultimately show ?thesis using True j(2) by (intro exI [of _ "Suc j"]) simp
  next
    case False
    then show ?thesis using snoc.prems by (simp add: nth_append)
  qed
qed simp

lemma Init_size_props:
  assumes "p \<noteq> []"
  shows "0 < Init_size p" and "Init_size p \<le> length p" and "sval (take (Init_size p) p) = sval p"
    and "sign_word (take (Init_size p) p) = sign_word p"
    and "1 < Init_size p \<Longrightarrow> \<not> fits (8 * (Init_size p - 1)) (sval p)"
proof -
  define n where "n = Init_size p"
  define h where "h = sign_word p"
  define k where "k = length (dropWhile (\<lambda>b. b = h) (rev p))"
  define q where "q = take k p"
  obtain j where p: "p = q @ replicate j h" and kj: "k + j = length p"
    and last: "k = 0 \<or> p ! (k - 1) \<noteq> h"
    using strip_split [OF k_def] by (auto simp: q_def)
  have lq: "length q = k" using kj by (simp add: q_def)
  have hh: "h = (if sint (last p) < 0 then -1 else 0)" by (simp add: h_def sign_word_def)
  then have hs: "(if sint h < 0 then -1 else 0) = h" by simp
  have n: "n = (if k = 0 \<or> (if sint (p ! (k - 1)) < 0 then -1 else 0) \<noteq> h then k + 1 else k)"
    by (simp add: n_def Init_size_def Let_def h_def k_def)
  have h0: "sign_word [h] = h" using hs by (simp add: sign_word_def)
  have r: "replicate j h = h # replicate (j - 1) h" if "0 < j" using that by (cases j) simp_all
  have "0 < n \<and> n \<le> length p \<and> sval (take n p) = sval p \<and> sign_word (take n p) = h
      \<and> (1 < n \<longrightarrow> \<not> fits (8 * (n - 1)) (sval p))"
  proof (cases "k = 0")
    case True
    then have "0 < j" using kj assms by (cases j) simp_all
    then have "take n p = [h]" "p = [h] @ replicate (j - 1) (sign_word [h])"
      using True n lq p r h0 by simp_all
    moreover have "n = 1" using n True by simp
    moreover have "sval ([h] @ replicate (j - 1) (sign_word [h])) = sval [h]" by (rule sval_extend) simp
    ultimately show ?thesis using assms h0 by (simp add: Suc_le_eq)
  next
    case k0: False
    obtain ys y where q: "q = ys @ [y]" using k0 lq by (cases q rule: rev_cases) auto
    have ly: "length ys = k - 1" using lq q by simp
    have y: "p ! (k - 1) = y" unfolding p q using ly by (simp add: nth_append)
    have yh: "y \<noteq> h" using last k0 y by simp
    define P :: int where "P = 2 ^ (8 * (k - 1))"
    have P: "0 < P" "0 \<le> uval ys" "uval ys < P" using uval_less [of ys] by (simp_all add: P_def ly)
    have sq: "sval q = uval ys + P * sint y" by (simp add: q sval_snoc P_def ly)
    show ?thesis
    proof (cases "(if sint y < 0 then -1 else 0) = h")
      case True
      then have nk: "n = k" using n k0 y by simp
      have swq: "sign_word q = h" using True by (simp add: q sign_word_def)
      then have sv: "sval p = sval q" using p sval_extend [of q j] q by simp
      have "sint y < - 1 \<or> 0 < sint y"
      proof (rule ccontr)
        assume "\<not> (sint y < - 1 \<or> 0 < sint y)"
        then have "sint y = - 1 \<or> sint y = 0" by linarith
        then have "y = -1 \<or> y = 0" by (metis sint_0 sint_n1 signed_word_eqI)
        then show False using True yh by auto
      qed
      then have "sval q < - P \<or> P \<le> sval q"
      proof
        assume "sint y < - 1"
        then have "P * sint y \<le> P * (- 2)" using P(1) by (intro mult_left_mono) simp_all
        then show ?thesis using sq P by simp
      next
        assume "0 < sint y"
        then have "P * 1 \<le> P * sint y" using P(1) by (intro mult_left_mono) simp_all
        then show ?thesis using sq P(2) by linarith
      qed
      moreover have "(2 :: int) ^ (8 * (k - 1) - 1) \<le> P" unfolding P_def by (intro power_increasing) simp_all
      ultimately have "\<not> fits (8 * (k - 1)) (sval q)" unfolding fits_def by linarith
      then show ?thesis using nk k0 kj sv swq by (simp add: q_def [symmetric])
    next
      case False
      then have nk: "n = k + 1" using n y by simp
      have j0: "0 < j"
      proof (rule ccontr)
        assume "\<not> 0 < j"
        then have "last p = y" using p q by simp
        then show False using False hh by simp
      qed
      have tk: "take n p = q @ [h]" using nk p r [OF j0] lq by simp
      have "p = (q @ [h]) @ replicate (j - 1) (sign_word (q @ [h]))"
        using p r [OF j0] hs by (simp add: sign_word_def)
      then have sv: "sval p = sval (q @ [h])" by (metis append_is_Nil_conv not_Cons_self2 sval_extend)
      have sg: "sign_word (take n p) = h" using tk hs by (simp add: sign_word_def)
      have sy: "sval (q @ [h]) = uval q + 2 ^ (8 * k) * sint h" by (simp add: sval_snoc lq)
      have u: "uval q = uval ys + P * uint y" by (simp add: q uval_append P_def ly)
      have e: "(2 :: int) ^ (8 * k) = 256 * P" "(2 :: int) ^ (8 * k - 1) = 128 * P"
      proof -
        obtain i where i: "k = Suc i" using k0 by (cases k) auto
        show "(2 :: int) ^ (8 * k) = 256 * P" "(2 :: int) ^ (8 * k - 1) = 128 * P"
          by (simp_all add: i P_def power_add)
      qed
      have "\<not> fits (8 * k) (sval (q @ [h]))"
      proof (cases "sint y < 0")
        case True
        then have "sint h = 0" using False hh by (auto split: if_splits)
        moreover have "128 \<le> uint y" using True sint_uint_neg [of y] sint_fits(1) [of y] by simp
        then have "P * 128 \<le> P * uint y" using P(1) by (intro mult_left_mono) simp_all
        ultimately show ?thesis unfolding fits_def sy u e using P by (simp only:) linarith
      next
        case pos: False
        then have "sint h = - 1" using False hh by (auto split: if_splits)
        moreover have "uint y \<le> 127" using pos sint_uint_neg [of y] sint_fits(2) [of y] by simp
        then have "P * uint y \<le> P * 127" using P(1) by (intro mult_left_mono) simp_all
        ultimately show ?thesis unfolding fits_def sy u e using P by (simp only:) linarith
      qed
      then show ?thesis using nk kj j0 sv sg tk by simp
    qed
  qed
  then show "0 < Init_size p" and "Init_size p \<le> length p" and "sval (take (Init_size p) p) = sval p"
    and "sign_word (take (Init_size p) p) = sign_word p"
    and "1 < Init_size p \<Longrightarrow> \<not> fits (8 * (Init_size p - 1)) (sval p)"
    by (simp_all add: h_def n_def)
qed

lemma Init_correct:
  assumes "p \<noteq> []"
  shows "bi_val (Init p) = sval p" and "bi_ok (Init p)" and "bi_count (Init p) \<le> (length p + 7) div 8"
proof -
  define n where "n = Init_size p"
  define cnt where "cnt = (n + 7) div 8"
  define ds where "ds = take n p @ replicate (8 * cnt - n) (sign_word p)"
  note i = Init_size_props [OF assms, folded n_def]
  have c: "0 < cnt" "n \<le> 8 * cnt" "8 * (cnt - 1) \<le> n - 1" using i(1) unfolding cnt_def by linarith+
  have ld: "length ds = 8 * cnt" using i(2) c(2) by (simp add: ds_def)
  have ne: "take n p \<noteq> []" using i(1) assms by simp
  have sd: "sval ds = sval p"
    unfolding ds_def i(4) [symmetric] sval_extend [OF ne] by (rule i(3))
  define w where "w = bytes_words ds"
  have lw: "length w = cnt" unfolding w_def by (rule length_bytes_words [OF ld])
  have sw: "sval w = sval p"
    using sval_word_bytes [of w] word_bytes_words [OF ld] sd by (simp add: w_def)
  have I: "Init p = (if 1 < cnt then \<lparr>bi_blob = w, bi_data = 0, bi_count = cnt\<rparr>
      else \<lparr>bi_blob = [], bi_data = hd w, bi_count = cnt\<rparr>)"
    by (simp add: Init_def n_def cnt_def w_def ds_def Let_def)
  have D: "get_Data (Init p) = w" "bi_count (Init p) = cnt"
    using c(1) lw by (auto simp: I get_Data_def length_Suc_conv intro: list.expand [of "[hd w]"]) (cases w; simp)+
  show v: "bi_val (Init p) = sval p" by (simp add: bi_val_def D sw)
  have "\<not> fits (64 * (cnt - 1)) (sval p)" if "1 < cnt"
  proof
    assume "fits (64 * (cnt - 1)) (sval p)"
    moreover have "64 * (cnt - 1) \<le> 8 * (n - 1)" using c(3) by simp
    ultimately have "fits (8 * (n - 1)) (sval p)" by (rule fits_mono)
    moreover have "1 < n" using that unfolding cnt_def by linarith
    ultimately show False using i(5) by blast
  qed
  then show "bi_ok (Init p)" by (simp add: bi_ok_def D lw v)
  show "bi_count (Init p) \<le> (length p + 7) div 8"
    using i(2) unfolding D cnt_def by (intro div_le_mono) simp
qed

lemma BigInteger_words_correct:
  assumes "ws \<noteq> []"
  shows "bi_val (BigInteger_words ws) = sval ws" and "bi_ok (BigInteger_words ws)"
    and "bi_count (BigInteger_words ws) \<le> length ws"
proof -
  have "word_bytes ws \<noteq> []" using assms by (metis length_word_bytes length_0_conv mult_eq_0_iff zero_neq_numeral)
  from Init_correct [OF this] show "bi_val (BigInteger_words ws) = sval ws" and "bi_ok (BigInteger_words ws)"
    and "bi_count (BigInteger_words ws) \<le> length ws"
    by (simp_all add: BigInteger_words_def sval_word_bytes)
qed

text \<open>Numbers are equal exactly if their words are.\<close>

lemma uval_inject: "length a = length b \<Longrightarrow> uval a = uval b \<Longrightarrow> a = b" for a :: "u64 list"
proof (induction a b rule: list_induct2)
  case (Cons x xs y ys)
  have "(uint x + 2 ^ 64 * uval xs) mod 2 ^ 64 = (uint y + 2 ^ 64 * uval ys) mod 2 ^ 64"
    using Cons.prems by simp
  then have "uint x = uint y" using uint_64 [of x] uint_64 [of y] by simp
  then have "x = y" by (rule unsigned_word_eqI)
  then show ?case using Cons by simp
qed simp

lemma sval_inject: "length a = length b \<Longrightarrow> sval a = sval b \<Longrightarrow> a = b" for a :: "u64 list"
proof (cases "a = []")
  case False
  assume l: "length a = length b" and s: "sval a = sval b"
  then have "b \<noteq> []" using False by auto
  then have "uval a = uval b" using sval_mod [OF False] sval_mod [of b] s l by simp
  then show "a = b" using l by (intro uval_inject)
qed simp

lemma bi_count_unique:
  assumes "bi_ok a" and "bi_ok b" and "fits (64 * bi_count b) (bi_val a)"
  shows "bi_count a \<le> bi_count b"
proof (rule ccontr)
  assume "\<not> bi_count a \<le> bi_count b"
  then have "64 * bi_count b \<le> 64 * (bi_count a - 1)" "1 < bi_count a"
    using bi_ok_length [OF assms(2)] by simp_all
  then show False using fits_mono [OF assms(3)] assms(1) by (auto simp: bi_ok_def)
qed

lemma bi_eq_val:
  assumes "bi_ok a" and "bi_ok b"
  shows "BigInteger_eq a b \<longleftrightarrow> bi_val a = bi_val b"
proof
  assume v: "bi_val a = bi_val b"
  then have "bi_count a = bi_count b"
    using bi_count_unique [of a b] bi_count_unique [of b a] bi_val_fits assms by (metis le_antisym)
  then show "BigInteger_eq a b"
    using v assms sval_inject [of "get_Data a" "get_Data b"] bi_ok_length(1)
    by (simp add: BigInteger_eq_def bi_val_def)
qed (auto simp: BigInteger_eq_def bi_val_def)

section \<open>The operations on values\<close>

lemma last_word_bytes:
  assumes "ws \<noteq> []"
  shows "bit (last (word_bytes ws)) 7 \<longleftrightarrow> sint (last ws) < 0"
proof -
  have ne: "word_bytes ws \<noteq> []" using assms by (metis length_word_bytes length_0_conv mult_eq_0_iff zero_neq_numeral)
  have "bit b 7 \<longleftrightarrow> sint b < 0" for b :: byte by (simp add: sint_uint signed_take_bit_negative_iff bit_uint_iff)
  then show ?thesis using sval_negative [OF ne] sval_negative [OF assms] by (simp add: sval_word_bytes)
qed

lemma bi_Sign:
  assumes "bi_ok v"
  shows "BigInteger_Sign v = sgn (bi_val v)"
proof (cases "bi_count v = 1 \<and> bi_data v = 0")
  case True
  then show ?thesis by (simp add: BigInteger_Sign_def bi_val_def get_Data_def)
next
  case False
  have "bi_val v \<noteq> 0"
  proof
    assume z: "bi_val v = 0"
    then have "fits (64 * (bi_count v - 1)) (bi_val v)" if "1 < bi_count v" by (simp add: fits_def)
    then have "bi_count v = 1" using assms bi_ok_length(2) [OF assms] unfolding bi_ok_def by linarith
    then have "sint (bi_data v) = sint 0" using z by (simp add: bi_val_def get_Data_def)
    then have "bi_data v = 0" by (rule signed_word_eqI)
    then show False using False \<open>bi_count v = 1\<close> by simp
  qed
  then show ?thesis
    using False last_word_bytes [OF get_Data_ne [OF assms]] sval_negative [OF get_Data_ne [OF assms]]
    by (auto simp: BigInteger_Sign_def bi_val_def sgn_if)
qed

lemma bi_not: "bi_ok v \<Longrightarrow> BigInteger_not v \<longleftrightarrow> bi_val v = 0"
  using bi_Sign [of v] by (auto simp: BigInteger_not_def BigInteger_Sign_def sgn_if split: if_splits)

lemma bi_Sign_neg: "bi_ok v \<Longrightarrow> BigInteger_Sign v = -1 \<longleftrightarrow> bi_val v < 0"
  by (simp add: bi_Sign sgn_if)

lemma ExtendTo_correct:
  assumes "bi_ok v" and "bi_count v \<le> n"
  obtains ws where "ExtendTo v n = Inr ws" and "length ws = n" and "sval ws = bi_val v"
    and "\<exists>k. ws = get_Data v @ replicate k (sign_word (get_Data v))"
proof -
  have s: "(if BigInteger_Sign v = -1 then -1 else 0) = sign_word (get_Data v)"
    using bi_Sign_neg [OF assms(1)] sval_negative [OF get_Data_ne [OF assms(1)]]
    by (simp add: sign_word_def bi_val_def)
  show ?thesis
    using that [of "get_Data v @ replicate (n - bi_count v) (sign_word (get_Data v))"] assms
    by (auto simp: ExtendTo_def s bi_ok_length bi_val_def sval_extend)
qed

lemma BinaryBignums_correct:
  assumes "bi_ok x" and "bi_ok y"
    and "\<And>a b. length a = length b \<Longrightarrow> a \<noteq> [] \<Longrightarrow>
      sval (pfn a b) = f (sval a) (sval b) \<and> pfn a b \<noteq> []"
  shows "\<exists>r. BinaryBignums pfn x y = Inr r \<and> bi_ok r \<and> bi_val r = f (bi_val x) (bi_val y)"
proof -
  let ?n = "max (bi_count x) (bi_count y)"
  obtain px where px: "ExtendTo x ?n = Inr px" "length px = ?n" "sval px = bi_val x"
    using ExtendTo_correct [OF assms(1), of ?n] by auto
  obtain py where py: "ExtendTo y ?n = Inr py" "length py = ?n" "sval py = bi_val y"
    using ExtendTo_correct [OF assms(2), of ?n] by auto
  have "px \<noteq> []" using px(2) bi_ok_length(2) [OF assms(1)] by auto
  then have "sval (pfn px py) = f (bi_val x) (bi_val y)" "pfn px py \<noteq> []"
    using assms(3) [of px py] px py by auto
  then show ?thesis
    using BigInteger_words_correct [of "pfn px py"] by (simp add: BinaryBignums_def px py)
qed

lemma bi_Add:
  "bi_ok x \<Longrightarrow> bi_ok y \<Longrightarrow> \<exists>r. BigInteger_Add x y = Inr r \<and> bi_ok r \<and> bi_val r = bi_val x + bi_val y"
  unfolding BigInteger_Add_def using ImpAddBignums_sval
  by (intro BinaryBignums_correct) (auto, metis Suc_eq_plus1 list.size(3) nat.simps(3))

lemma bi_Sub:
  "bi_ok x \<Longrightarrow> bi_ok y \<Longrightarrow> \<exists>r. BigInteger_Sub x y = Inr r \<and> bi_ok r \<and> bi_val r = bi_val x - bi_val y"
  unfolding BigInteger_Sub_def using ImpSubBignums_sval
  by (intro BinaryBignums_correct) (auto, metis Suc_eq_plus1 list.size(3) nat.simps(3))

lemma bi_neg:
  assumes "bi_ok v"
  shows "bi_ok (BigInteger_neg v)" and "bi_val (BigInteger_neg v) = - bi_val v"
proof -
  have "ImpNegBignum (get_Data v) \<noteq> []" using ImpNegBignum_sval(2) [OF get_Data_ne [OF assms]] by auto
  from BigInteger_words_correct [OF this] ImpNegBignum_sval(1) [OF get_Data_ne [OF assms]]
  show "bi_ok (BigInteger_neg v)" and "bi_val (BigInteger_neg v) = - bi_val v"
    by (simp_all add: BigInteger_neg_def bi_val_def)
qed

lemma bi_abs:
  "bi_ok v \<Longrightarrow> bi_ok (BigInteger_abs v) \<and> bi_val (BigInteger_abs v) = \<bar>bi_val v\<bar>"
  by (auto simp: BigInteger_abs_def bi_neg bi_Sign sgn_if)

text \<open>The bitwise operations act on the infinite two's complement.\<close>

lemma int_digit: "0 \<le> x \<Longrightarrow> x < 2 ^ n \<Longrightarrow> x + 2 ^ n * y = concat_bit n x y" for x y :: int
  by (simp add: concat_bit_eq take_bit_int_eq_self push_bit_eq_mult mult.commute)

lemma int_digit_64: "uint w + 18446744073709551616 * y = concat_bit 64 (uint w) y" for w :: u64
  using int_digit [of "uint w" 64 y] uint_64 [of w] by simp

lemma concat_bit_ops:
  "concat_bit n a b AND concat_bit n c d = concat_bit n (a AND c) (b AND d)"
  "concat_bit n a b OR concat_bit n c d = concat_bit n (a OR c) (b OR d)"
  "concat_bit n a b XOR concat_bit n c d = concat_bit n (a XOR c) (b XOR d)"
  by (rule bit_eqI; auto simp: bit_and_iff bit_or_iff bit_xor_iff bit_concat_bit_iff)+

lemma sval_bitwise:
  fixes a b :: "u64 list" and f :: "u64 \<Rightarrow> u64 \<Rightarrow> u64"
  assumes "length a = length b" and "a \<noteq> []"
    and op: "\<And>x y :: u64. uint (f x y) = g (uint x) (uint y)" "\<And>x y :: u64. sint (f x y) = g (sint x) (sint y)"
    and g: "\<And>n w x y z. g (concat_bit n w x) (concat_bit n y z) = concat_bit n (g w y) (g x z)"
  shows "sval (map2 f a b) = g (sval a) (sval b)"
  using assms(1,2)
proof (induction a b rule: list_induct2)
  case (Cons x xs y ys)
  show ?case
  proof (cases "xs = []")
    case True
    then show ?thesis using Cons.hyps op(2) by simp
  next
    case False
    then have ne: "ys \<noteq> []" "map2 f xs ys \<noteq> []" using Cons.hyps by auto
    have "sval (map2 f (x # xs) (y # ys)) = concat_bit 64 (uint (f x y)) (g (sval xs) (sval ys))"
      using Cons.IH False ne by (simp add: sval_Cons int_digit_64 [symmetric])
    also have "\<dots> = g (concat_bit 64 (uint x) (sval xs)) (concat_bit 64 (uint y) (sval ys))"
      by (simp only: op(1) g)
    finally show ?thesis using False ne by (simp add: sval_Cons int_digit_64 [symmetric])
  qed
qed simp

lemma bi_bitwise:
  assumes "bi_ok x" and "bi_ok y"
  shows "\<exists>r. BigInteger_And x y = Inr r \<and> bi_ok r \<and> bi_val r = bi_val x AND bi_val y"
    and "\<exists>r. BigInteger_Or x y = Inr r \<and> bi_ok r \<and> bi_val r = bi_val x OR bi_val y"
    and "\<exists>r. BigInteger_Xor x y = Inr r \<and> bi_ok r \<and> bi_val r = bi_val x XOR bi_val y"
proof -
  have s: "sval (map2 (AND) a b) = sval a AND sval b" "sval (map2 (OR) a b) = sval a OR sval b"
      "sval (map2 (XOR) a b) = sval a XOR sval b" if "length a = length b" "a \<noteq> []" for a b :: "u64 list"
    using that by (intro sval_bitwise; simp add: unsigned_and_eq unsigned_or_eq unsigned_xor_eq
        signed_and_eq signed_or_eq signed_xor_eq concat_bit_ops)+
  have ne: "map2 f a b \<noteq> []" if "length a = length b" "a \<noteq> []" for f and a b :: "u64 list"
    using that by (cases a; cases b) simp_all
  show "\<exists>r. BigInteger_And x y = Inr r \<and> bi_ok r \<and> bi_val r = bi_val x AND bi_val y"
    unfolding BigInteger_And_def using s(1) ne by (intro BinaryBignums_correct assms) blast
  show "\<exists>r. BigInteger_Or x y = Inr r \<and> bi_ok r \<and> bi_val r = bi_val x OR bi_val y"
    unfolding BigInteger_Or_def using s(2) ne by (intro BinaryBignums_correct assms) blast
  show "\<exists>r. BigInteger_Xor x y = Inr r \<and> bi_ok r \<and> bi_val r = bi_val x XOR bi_val y"
    unfolding BigInteger_Xor_def using s(3) ne by (intro BinaryBignums_correct assms) blast
qed

lemma bi_compl:
  assumes "bi_ok v"
  shows "bi_ok (BigInteger_compl v)" and "bi_val (BigInteger_compl v) = - bi_val v - 1"
proof -
  have u: "uint (NOT w) = 2 ^ 64 - 1 - uint w" for w :: u64
    by (simp add: unsigned_not_eq take_bit_not_eq_mask_diff take_bit_int_eq_self [OF uint_64(1,2)] mask_eq_exp_minus_1)
  have si: "sint (NOT w) = - sint w - 1" for w :: u64
  proof -
    have "signed_take_bit 64 (NOT (sint w)) = NOT (sint w)"
      using uint_64(3,4) [of w] by (intro signed_take_bit_int_eq_self) (simp_all add: not_int_def)
    then show ?thesis by (simp add: signed_not_eq not_int_def)
  qed
  have n: "sval (map NOT ws) = - sval ws - 1" if "ws \<noteq> []" for ws :: "u64 list"
    using that
  proof (induction ws)
    case (Cons w ws)
    then show ?case
      by (cases "ws = []") (simp_all add: sval_Cons u si)
  qed simp
  have ne: "map NOT (get_Data v) \<noteq> []" using get_Data_ne [OF assms] by simp
  show "bi_ok (BigInteger_compl v)" and "bi_val (BigInteger_compl v) = - bi_val v - 1"
    using BigInteger_words_correct [OF ne] n [OF get_Data_ne [OF assms]]
    by (simp_all add: BigInteger_compl_def bi_val_def)
qed

text \<open>Products.\<close>

lemma abs_words:
  assumes "bi_ok v"
  shows "uval (take (bi_count v) (if BigInteger_Sign v = -1 then ImpNegBignum (get_Data v) else get_Data v))
      = \<bar>bi_val v\<bar>"
    and "length (take (bi_count v) (if BigInteger_Sign v = -1 then ImpNegBignum (get_Data v) else get_Data v))
      = bi_count v"
proof -
  define n where "n = bi_count v"
  note ne = get_Data_ne [OF assms] and l = bi_ok_length [OF assms, folded n_def]
  have f: "fits (64 * n) (bi_val v)" using bi_val_fits [OF assms] by (simp add: n_def)
  have "(2 :: int) ^ (64 * n - 1) < 2 ^ (64 * n)" using l(2) by (intro power_strict_increasing) simp_all
  then have a: "\<bar>bi_val v\<bar> < 2 ^ (64 * n)" using f unfolding fits_def by linarith
  define r where "r = ImpNegBignum (get_Data v)"
  have r: "sval r = - bi_val v" "length r = n + 1"
    using ImpNegBignum_sval [OF ne] l by (simp_all add: r_def bi_val_def)
  have "uval (take n r) = (- bi_val v) mod 2 ^ (64 * n)"
  proof -
    have "r \<noteq> []" using r(2) by auto
    then obtain ys y where ry: "r = ys @ [y]" by (cases r rule: rev_cases) auto
    have "- bi_val v = uval ys + 2 ^ (64 * n) * sint y" using r by (simp add: ry sval_snoc)
    moreover have "uval ys < 2 ^ (64 * n)" using uval_less [of ys] r(2) by (simp add: ry)
    ultimately show ?thesis using r(2) by (simp add: ry)
  qed
  moreover have "sval (get_Data v) mod 2 ^ (64 * n) = uval (get_Data v)" using sval_mod [OF ne] l by simp
  ultimately show "uval (take n (if BigInteger_Sign v = -1 then ImpNegBignum (get_Data v) else get_Data v))
      = \<bar>bi_val v\<bar>"
    using a bi_Sign_neg [OF assms] l by (auto simp: r_def bi_val_def [symmetric])
  show "length (take n (if BigInteger_Sign v = -1 then ImpNegBignum (get_Data v) else get_Data v)) = n"
    using l r(2) by (simp add: r_def)
qed

lemma sval_append:
  fixes xs :: "'w::len word list"
  assumes "ys \<noteq> []"
  shows "sval (xs @ ys) = uval xs + 2 ^ (LENGTH('w) * length xs) * sval ys"
proof (induction xs)
  case (Cons x xs)
  then show ?case using assms by (simp add: sval_Cons algebra_simps power_add)
qed simp

lemma uval_take_mod:
  fixes r :: "'w::len word list"
  assumes "n \<le> length r" and "r \<noteq> []"
  shows "uval (take n r) = sval r mod 2 ^ (LENGTH('w) * n)"
proof (cases "drop n r = []")
  case True
  then show ?thesis using assms sval_mod [OF assms(2)] by simp
next
  case False
  have "sval r = uval (take n r) + 2 ^ (LENGTH('w) * n) * sval (drop n r)"
    using sval_append [OF False, of "take n r"] assms(1) by simp
  moreover have "uval (take n r) < 2 ^ (LENGTH('w) * n)" using uval_less [of "take n r"] assms(1) by simp
  ultimately show ?thesis by simp
qed

text \<open>Words that fit can be cut off.\<close>

lemma sval_take:
  fixes r :: "'w::len word list"
  assumes "0 < n" and "n \<le> length r" and "fits (LENGTH('w) * n) (sval r)"
  shows "sval (take n r) = sval r"
proof -
  have "r \<noteq> []" using assms(1,2) by auto
  then show ?thesis using assms uval_take_mod [of n r] by (intro sval_unique) auto
qed

lemma abs_less:
  assumes "bi_ok v"
  shows "\<bar>bi_val v\<bar> \<le> 2 ^ (64 * bi_count v - 1)"
  using bi_val_fits [OF assms] unfolding fits_def by linarith

lemma bi_Mul:
  assumes "bi_ok x" and "bi_ok y"
  shows "bi_ok (BigInteger_Mul x y)" and "bi_val (BigInteger_Mul x y) = bi_val x * bi_val y"
proof -
  define m n where "m = bi_count x" and "n = bi_count y"
  have mn: "0 < m" "0 < n" using bi_ok_length(2) assms by (simp_all add: m_def n_def)
  define p where "p = ImpMulBignums
      (take m (if BigInteger_Sign x = -1 then ImpNegBignum (get_Data x) else get_Data x))
      (take n (if BigInteger_Sign y = -1 then ImpNegBignum (get_Data y) else get_Data y))"
  have p: "uval p = \<bar>bi_val x * bi_val y\<bar>" "length p = m + n"
    using abs_words [OF assms(1)] abs_words [OF assms(2)]
    by (simp_all add: p_def m_def n_def ImpMulBignums_uval abs_mult)
  have pn: "p \<noteq> []" using p(2) mn by auto
  define z where "z = bi_val x * bi_val y"
  have "\<bar>z\<bar> \<le> 2 ^ (64 * m - 1) * 2 ^ (64 * n - 1)"
    unfolding z_def abs_mult using abs_less assms by (intro mult_mono) (simp_all add: m_def n_def)
  also have "\<dots> = 2 ^ (64 * (m + n) - 2)" using mn by (simp flip: power_add add: algebra_simps)
  also have "\<dots> < 2 ^ (64 * (m + n) - 1)" using mn by (intro power_strict_increasing) simp_all
  finally have zf: "fits (64 * (m + n)) z" "fits (64 * (m + n)) \<bar>z\<bar>" unfolding fits_def by linarith+
  have "\<bar>z\<bar> mod 2 ^ (64 * (m + n)) = uval p" using uval_less [of p] p by (simp add: z_def)
  then have sp: "sval p = \<bar>z\<bar>" using pn zf(2) p(2) by (intro sval_unique) simp_all
  have sg: "(BigInteger_Sign x = -1) \<noteq> (BigInteger_Sign y = -1) \<Longrightarrow> z = - \<bar>z\<bar>"
      "\<not> (BigInteger_Sign x = -1) \<noteq> (BigInteger_Sign y = -1) \<Longrightarrow> z = \<bar>z\<bar>"
    using bi_Sign_neg [OF assms(1)] bi_Sign_neg [OF assms(2)]
    by (auto simp: z_def abs_mult zero_le_mult_iff mult_nonneg_nonpos mult_nonneg_nonpos2)
  define q where "q = (if (BigInteger_Sign x = -1) \<noteq> (BigInteger_Sign y = -1) then ImpNegBignum p else p)"
  have q: "sval q = z" "m + n \<le> length q"
    using sp sg p(2) ImpNegBignum_sval [OF pn] by (auto simp: q_def)
  have "sval (take (m + n) q) = z" using sval_take [of "m + n" q] mn q zf(1) by simp
  moreover have "take (m + n) q \<noteq> []" using q(2) mn by auto
  moreover have "BigInteger_Mul x y = BigInteger_words (take (m + n) q)"
    by (simp add: BigInteger_Mul_def Let_def q_def p_def m_def n_def)
  ultimately show "bi_ok (BigInteger_Mul x y)" and "bi_val (BigInteger_Mul x y) = bi_val x * bi_val y"
    using BigInteger_words_correct [of "take (m + n) q"] by (simp_all add: z_def)
qed

lemma bi_NMod:
  assumes "bi_ok v" and "0 \<le> bi_val v" and "0 < d"
  shows "BigInteger_NMod v d = Inr (word_of_int (bi_val v mod uint d))"
proof -
  obtain ws where ws: "ExtendTo v (bi_count v + 1) = Inr ws" "length ws = bi_count v + 1"
    and "\<exists>k. ws = get_Data v @ replicate k (sign_word (get_Data v))"
    by (rule ExtendTo_correct [OF assms(1), of "bi_count v + 1"]) simp
  then obtain k where k: "ws = get_Data v @ replicate k (sign_word (get_Data v))" by blast
  have ne: "get_Data v \<noteq> []" using assms(1) by simp
  have sg: "\<not> sint (last (get_Data v)) < 0" using sval_negative [OF ne] assms(2) by (simp add: bi_val_def)
  have "k = 1" using k ws(2) bi_ok_length(1) [OF assms(1)] by simp
  then have w: "ws = get_Data v @ [0]" using k sg by (simp add: sign_word_def)
  have u: "uval (get_Data v) = bi_val v" using sval_uval [OF ne] sg by (simp add: bi_val_def)
  have ud: "uint (ucast d :: u64) = uint d"
    using uint_lt2p [of d] by (simp add: unsigned_ucast_eq take_bit_int_eq_self)
  have d: "(0 :: u64) < ucast d" using assms(3) ud unfolding word_less_def by simp
  obtain qs r where r: "ImpShortDiv ws (ucast d) = Inr (qs, r)" "r < ucast d"
    "uval (get_Data v) = uint d * uval qs + uint r"
    using ImpShortDiv_uval [OF d, of "get_Data v"] w ud by fastforce
  have "uint r < uint d" using r(2) unfolding word_less_def ud .
  then have "uint r = bi_val v mod uint d" using r(3) u by simp
  moreover have "(ucast r :: u32) = word_of_int (uint r)" by simp
  ultimately have "(ucast r :: u32) = word_of_int (bi_val v mod uint d)" by simp
  then show ?thesis
    using bi_Sign [OF assms(1)] assms(2) ws(1) r(1) by (auto simp: BigInteger_NMod_def sgn_if)
qed

text \<open>Order.\<close>

lemma highest_index:
  "filter P (rev [0..<n]) = i # js \<Longrightarrow> i < n \<and> P i \<and> (\<forall>k. i < k \<and> k < n \<longrightarrow> \<not> P k)"
proof (induction n)
  case (Suc n)
  show ?case
  proof (cases "P n")
    case False
    then have "filter P (rev [0..<n]) = i # js" using Suc.prems by simp
    from Suc.IH [OF this] show ?thesis using False by (metis less_SucE less_SucI)
  qed (use Suc.prems in auto)
qed simp

lemma sval_less_at:
  assumes l: "length a = length b" and i: "i < length a"
    and same: "\<And>k. i < k \<Longrightarrow> k < length a \<Longrightarrow> a ! k = b ! k"
    and less: "if i = length a - 1 then sint (a ! i) < sint (b ! i) else a ! i < (b ! i :: u64)"
  shows "sval a < sval b"
proof -
  define R where "R = drop (i + 1) a"
  have R: "R = drop (i + 1) b" unfolding R_def using l same by (intro nth_equalityI) auto
  define P :: int where "P = 2 ^ (64 * i)"
  have ab: "a = take i a @ a ! i # R" "b = take i b @ b ! i # R"
    using id_take_nth_drop [of i a] id_take_nth_drop [of i b] i l R by (simp_all add: R_def)
  have s: "sval a = uval (take i a) + P * sval (a ! i # R)" "sval b = uval (take i b) + P * sval (b ! i # R)"
    using ab sval_append [of "a ! i # R" "take i a"] sval_append [of "b ! i # R" "take i b"] i l
    by (simp_all add: P_def min_absorb2)
  have u: "uval (take i a) < P" "0 \<le> uval (take i b)"
    using uval_less [of "take i a"] i by (simp_all add: P_def min_absorb2)
  have "sval (a ! i # R) + 1 \<le> sval (b ! i # R)"
  proof (cases "R = []")
    case True
    then have "i = length a - 1" using i by (simp add: R_def)
    then show ?thesis using less True by simp
  next
    case False
    then have "i \<noteq> length a - 1" by (simp add: R_def)
    then show ?thesis using less False by (simp add: sval_Cons word_less_def)
  qed
  then have "P * (sval (a ! i # R) + 1) \<le> P * sval (b ! i # R)" by (intro mult_left_mono) (simp_all add: P_def)
  then show ?thesis unfolding s using u unfolding distrib_left by linarith
qed

lemma bi_less_count:
  assumes "bi_ok a" and "bi_ok x" and "bi_count a < bi_count x"
  shows "0 \<le> bi_val x \<Longrightarrow> bi_val a < bi_val x" and "bi_val x < 0 \<Longrightarrow> bi_val x < bi_val a"
proof -
  have c: "1 < bi_count x" using assms(3) bi_ok_length(2) [OF assms(1)] by simp
  then have "\<not> fits (64 * (bi_count x - 1)) (bi_val x)" using assms(2) unfolding bi_ok_def by blast
  moreover have "fits (64 * (bi_count x - 1)) (bi_val a)"
    using assms(3) by (intro fits_mono [OF bi_val_fits [OF assms(1)]]) simp
  ultimately show "0 \<le> bi_val x \<Longrightarrow> bi_val a < bi_val x" and "bi_val x < 0 \<Longrightarrow> bi_val x < bi_val a"
    unfolding fits_def by linarith+
qed

lemma bi_Compare:
  assumes "bi_ok a" and "bi_ok x"
  shows "BigInteger_Compare a x < 0 \<longleftrightarrow> bi_val a < bi_val x"
    and "BigInteger_Compare a x = 0 \<longleftrightarrow> bi_val a = bi_val x"
proof -
  have "(BigInteger_Compare a x < 0 \<longleftrightarrow> bi_val a < bi_val x)
      \<and> (BigInteger_Compare a x = 0 \<longleftrightarrow> bi_val a = bi_val x)"
  proof (cases "bi_count a = bi_count x")
    case False
    have c: "BigInteger_Compare a x = (if sgn (bi_val a) \<noteq> sgn (bi_val x) then sgn (bi_val a) - sgn (bi_val x)
        else (int (bi_count a) - int (bi_count x)) * sgn (bi_val a))"
      using False by (simp add: BigInteger_Compare_def Let_def bi_Sign [OF assms(1)] bi_Sign [OF assms(2)])
    show ?thesis
    proof (cases "bi_count a < bi_count x")
      case True
      then show ?thesis using bi_less_count [OF assms True] unfolding c
        by (auto simp: sgn_if)
    next
      case False
      then have "bi_count x < bi_count a" using \<open>bi_count a \<noteq> bi_count x\<close> by simp
      from bi_less_count [OF assms(2,1) this] this show ?thesis unfolding c
        by (auto simp: sgn_if)
    qed
  next
    case True
    define p q where "p = get_Data a" and "q = get_Data x"
    have l: "length p = bi_count a" "length q = bi_count a"
      using bi_ok_length(1) assms True by (simp_all add: p_def q_def)
    define ds where "ds = filter (\<lambda>i. p ! i \<noteq> q ! i) (rev [0..<bi_count a])"
    have c: "BigInteger_Compare a x = (case ds of [] \<Rightarrow> 0 | i # _ \<Rightarrow>
        if (if i = bi_count a - 1 then sint (p ! i) < sint (q ! i) else p ! i < q ! i) then -1 else 1)"
      unfolding BigInteger_Compare_def Let_def ds_def p_def q_def using True by (intro if_not_P) simp
    show ?thesis
    proof (cases ds)
      case Nil
      then have "p = q" using l by (intro nth_equalityI) (auto simp: ds_def filter_empty_conv)
      then show ?thesis by (simp add: c Nil bi_val_def p_def q_def)
    next
      case (Cons i js)
      have i: "i < bi_count a" "p ! i \<noteq> q ! i" "\<And>k. i < k \<Longrightarrow> k < bi_count a \<Longrightarrow> p ! k = q ! k"
        using highest_index [OF Cons [unfolded ds_def]] by auto
      show ?thesis
      proof (cases "if i = bi_count a - 1 then sint (p ! i) < sint (q ! i) else p ! i < q ! i")
        case True
        then have "sval p < sval q" using i l by (intro sval_less_at [of p q i]) auto
        then show ?thesis using True by (simp add: c Cons bi_val_def p_def q_def)
      next
        case False
        have "sint (p ! i) \<noteq> sint (q ! i)" using i(2) signed_word_eqI by blast
        then have "if i = bi_count a - 1 then sint (q ! i) < sint (p ! i) else q ! i < p ! i"
          using False i(2) by (auto simp: not_less le_less split: if_splits)
        then have "sval q < sval p" using i l by (intro sval_less_at [of q p i]) auto
        then show ?thesis using False by (simp add: c Cons bi_val_def p_def q_def)
      qed
    qed
  qed
  then show "BigInteger_Compare a x < 0 \<longleftrightarrow> bi_val a < bi_val x"
    and "BigInteger_Compare a x = 0 \<longleftrightarrow> bi_val a = bi_val x" by simp_all
qed

text \<open>\<open>Length\<close> is the number of bits without the sign.\<close>

lemma bitlen_unique:
  assumes "2 ^ (k - 1) \<le> m" and "m < 2 ^ k" and "0 < k"
  shows "bitlen m = int k"
proof -
  have "bitlen m \<le> int k" using assms(2) bitlen_le_iff_power [of m "int k"] by simp
  moreover have "int k \<le> bitlen m" using assms(1,3) bitlen_ge_iff_power [of "int k" m] by simp
  ultimately show ?thesis by simp
qed

definition int_bits :: "int \<Rightarrow> nat" where
  "int_bits z = nat (bitlen (if z < 0 then - z - 1 else z))"

lemma int_bits_le: "int_bits z \<le> k \<longleftrightarrow> fits (k + 1) z"
proof -
  have "int_bits z \<le> k \<longleftrightarrow> (if z < 0 then - z - 1 else z) < 2 ^ k"
    unfolding int_bits_def using bitlen_le_iff_power [of "if z < 0 then - z - 1 else z" "int k"] bitlen_nonneg
    by (auto simp: nat_le_iff)
  then show ?thesis by (auto simp: fits_def)
qed

lemma bi_Length:
  assumes "bi_ok v"
  shows "get_Length v = int_bits (bi_val v)"
proof -
  define n where "n = bi_count v - 1"
  define w where "w = last (get_Data v)"
  note ne = get_Data_ne [OF assms] and l = bi_ok_length [OF assms]
  obtain ws where ws: "get_Data v = ws @ [w]" using ne unfolding w_def by (metis append_butlast_last_id)
  have lw: "length ws = n" using l ws by (simp add: n_def)
  have neg: "bi_val v < 0 \<longleftrightarrow> sint w < 0" using sval_negative [OF ne] by (simp add: bi_val_def w_def)
  have val: "bi_val v = uval ws + 2 ^ (64 * n) * sint w" by (simp add: bi_val_def ws sval_snoc lw)
  define P :: int where "P = 2 ^ (64 * n)"
  define m where "m = (if bi_val v < 0 then - bi_val v - 1 else bi_val v)"
  define lo where "lo = (if sint w < 0 then P - 1 - uval ws else uval ws)"
  define x where "x = w XOR (if sint w < 0 then -1 else 0)"
  have x: "uint x = (if sint w < 0 then - sint w - 1 else sint w)"
  proof (cases "sint w < 0")
    case True
    then have "x = NOT w" by (simp add: x_def)
    then have "uint x = 2 ^ 64 - 1 - uint w"
      by (simp add: unsigned_not_eq take_bit_not_eq_mask_diff take_bit_int_eq_self [OF uint_64(1,2)]
          mask_eq_exp_minus_1)
    then show ?thesis using True sint_uint_neg [of w] by simp
  next
    case False
    then show ?thesis using sint_uint_neg [of w] by (simp add: x_def)
  qed
  have "uval ws < P" using uval_less [of ws] lw by (simp add: P_def)
  then have lo: "0 \<le> lo" "lo < P" using uval_nonneg [of ws] by (cases "sint w < 0"; simp only: lo_def if_True if_False; linarith)+
  have m: "m = lo + P * uint x"
    unfolding m_def neg lo_def x unfolding val P_def [symmetric] by (simp add: algebra_simps)
  have len: "get_Length v = nat (int (n * 64 + 1) + (bitlen (uint x) - 1))"
    by (simp add: get_Length_def Let_def w_def [symmetric] x_def [symmetric] n_def ImpBSR_def)
  have "int (get_Length v) = bitlen m"
  proof (cases "uint x = 0")
    case True
    show ?thesis
    proof (cases "n = 0")
      case n0: True
      then have "m = 0" using lo m True by (simp add: P_def)
      then show ?thesis using n0 True len by simp
    next
      case False
      then have "\<not> fits (64 * n) (bi_val v)" using bi_ok_canon [OF assms] unfolding n_def by simp
      then have "2 ^ (64 * n - 1) \<le> m" unfolding fits_def m_def by (auto split: if_splits)
      then have "bitlen m = int (64 * n)" using lo m True False by (intro bitlen_unique) (simp_all add: P_def)
      then show ?thesis using len True by simp
    qed
  next
    case False
    then have x0: "0 < uint x" by (simp add: less_le)
    define k where "k = nat (bitlen (uint x))"
    have k: "0 < k" "bitlen (uint x) = int k"
      using bitlen_nonneg [of "uint x"] bitlen_eq_zero_iff [of "uint x"] x0 by (auto simp: k_def)
    have b: "2 ^ (k - 1) \<le> uint x" "uint x + 1 \<le> 2 ^ k"
      using bitlen_bounds [OF x0] k by (simp_all add: nat_diff_distrib)
    have "P * 2 ^ (k - 1) \<le> P * uint x" "P * (uint x + 1) \<le> P * 2 ^ k"
      using b by (intro mult_left_mono; simp add: P_def)+
    moreover have "2 ^ (64 * n + k - 1) = P * 2 ^ (k - 1)" "2 ^ (64 * n + k) = P * 2 ^ k"
      using k(1) by (simp_all add: P_def flip: power_add)
    ultimately have "2 ^ (64 * n + k - 1) \<le> m" "m < 2 ^ (64 * n + k)"
      using lo m unfolding distrib_left by linarith+
    then have "bitlen m = int (64 * n + k)" using k(1) by (intro bitlen_unique) simp_all
    then show ?thesis using len k by simp
  qed
  then show ?thesis by (simp add: int_bits_def m_def [symmetric])
qed

lemma int_bits_count:
  assumes "bi_ok v"
  shows "int_bits (bi_val v) div 64 = bi_count v - 1"
proof -
  define c where "c = bi_count v - 1"
  have c: "bi_count v = c + 1" using bi_ok_length(2) [OF assms] by (simp add: c_def)
  have "int_bits (bi_val v) \<le> 64 * bi_count v - 1"
    using bi_val_fits [OF assms] c by (simp add: int_bits_le)
  moreover have "64 * c \<le> int_bits (bi_val v)"
  proof (rule ccontr)
    assume "\<not> 64 * c \<le> int_bits (bi_val v)"
    then have "int_bits (bi_val v) \<le> 64 * c - 1" "1 \<le> 64 * c" by simp_all
    then have "fits (64 * c) (bi_val v)" using int_bits_le [of "bi_val v" "64 * c - 1"] by simp
    then show False using assms c \<open>1 \<le> 64 * c\<close> by (auto simp: bi_ok_def)
  qed
  ultimately have "int_bits (bi_val v) div 64 = c" using c by (intro div_nat_eqI) simp_all
  then show ?thesis by (simp add: c_def)
qed

text \<open>Shifts.\<close>

lemma uval_zeros: "uval (replicate k 0 @ ws) = 2 ^ (LENGTH('w) * k) * uval ws" for ws :: "'w::len word list"
  by (simp add: uval_append)

lemma bi_shl:
  assumes "bi_ok x"
  shows "bi_ok (BigInteger_shl x v)" and "bi_val (BigInteger_shl x v) = bi_val x * 2 ^ v"
proof -
  define s where "s = ImpShld (get_Data x) (v mod 64)"
  have s: "sval s = bi_val x * 2 ^ (v mod 64)" "s \<noteq> []"
    using ImpShld_sval [of "v mod 64" "get_Data x"] assms by (auto simp: s_def bi_val_def)
  have "64 * (v div 64) + v mod 64 = v" by simp
  then have e: "(2 :: int) ^ v = 2 ^ (64 * (v div 64)) * 2 ^ (v mod 64)" by (metis power_add)
  have "sval (replicate (v div 64) 0 @ s) = bi_val x * 2 ^ v"
    unfolding e by (simp add: sval_append [OF s(2)] s(1))
  then show "bi_ok (BigInteger_shl x v)" and "bi_val (BigInteger_shl x v) = bi_val x * 2 ^ v"
    using BigInteger_words_correct [of "replicate (v div 64) 0 @ s"] s(2)
    by (simp_all add: BigInteger_shl_def s_def)
qed

lemma fits_shr:
  assumes "fits (l + 1) x" and "v \<le> l"
  shows "fits (l - v + 1) (x div 2 ^ v)"
proof -
  have e: "(2 :: int) ^ l = 2 ^ (l - v) * 2 ^ v" using assms(2) by (simp flip: power_add)
  have "x < 2 ^ (l - v) * 2 ^ v" "\<not> x < - (2 ^ (l - v)) * 2 ^ v"
    using assms(1) e unfolding fits_def by simp_all
  then have "x div 2 ^ v < 2 ^ (l - v)" "\<not> x div 2 ^ v < - (2 ^ (l - v))"
    by (simp_all only: int_div_less zero_less_power zero_less_numeral simp_thms)
  then show ?thesis by (simp add: fits_def)
qed

lemma mod_div_mod: "k + n \<le> m \<Longrightarrow> x mod 2 ^ m div 2 ^ k mod 2 ^ n = x div 2 ^ k mod 2 ^ n" for x :: int
  by (simp add: drop_bit_take_bit flip: take_bit_eq_mod drop_bit_eq_div)

text \<open>Shifting the words \<open>ys\<close> below \<open>prev\<close>, when the result fits into as many words.\<close>

lemma ImpShrd_sval:
  assumes "off < 64" and "ys \<noteq> []" and "fits (64 * length ys) (sval (ys @ [prev]) div 2 ^ off)"
  shows "sval (ImpShrd ys off prev) = sval (ys @ [prev]) div 2 ^ off"
proof (rule sval_unique)
  define N where "N = 64 * length (ys @ [prev])"
  have "sval (ys @ [prev]) mod 2 ^ N = uval (ys @ [prev])"
    using sval_mod [of "ys @ [prev]"] by (simp add: N_def)
  moreover have "off + 64 * length ys \<le> N" using assms(1) by (simp add: N_def)
  ultimately have "sval (ys @ [prev]) div 2 ^ off mod 2 ^ (64 * length ys)
      = uval (ys @ [prev]) div 2 ^ off mod 2 ^ (64 * length ys)"
    by (metis mod_div_mod)
  then show "sval (ys @ [prev]) div 2 ^ off mod 2 ^ (LENGTH(64) * length (ImpShrd ys off prev))
      = uval (ImpShrd ys off prev)"
    using assms(1) by (simp add: ImpShrd_uval)
qed (use assms ImpShrd_uval(2) [OF assms(1), of ys prev] in auto)

lemma bi_shr:
  assumes "bi_ok x"
  shows "bi_ok (BigInteger_shr x v)" and "bi_val (BigInteger_shr x v) = bi_val x div 2 ^ v"
proof -
  note ne = get_Data_ne [OF assms] and cl = bi_ok_length [OF assms]
  define D where "D = get_Data x"
  define len where "len = int_bits (bi_val x)"
  define top where "top = len div 64"
  have top: "length D = top + 1" using int_bits_count [OF assms] cl by (simp add: top_def len_def D_def)
  define sg :: u64 where "sg = (if BigInteger_Sign x = -1 then -1 else 0)"
  have sg: "sg = sign_word D"
    using bi_Sign_neg [OF assms] sval_negative [OF ne] by (simp add: sg_def sign_word_def D_def bi_val_def)
  have L: "get_Length x = len" using bi_Length [OF assms] by (simp add: len_def)
  have f: "fits (len + 1) (bi_val x)" using int_bits_le [of "bi_val x" len] by (simp add: len_def)
  have vD: "bi_val x = sval D" by (simp add: bi_val_def D_def)
  have "bi_ok (BigInteger_shr x v) \<and> bi_val (BigInteger_shr x v) = bi_val x div 2 ^ v"
  proof (cases "v < len")
    case False
    then have s: "BigInteger_shr x v = BigInteger_words [sg]" by (simp add: BigInteger_shr_def L sg_def Let_def)
    have "fits (v + 1) (bi_val x)" using False by (intro fits_mono [OF f]) simp
    from fits_shr [OF this order_refl]
    have "- 1 \<le> bi_val x div 2 ^ v" "bi_val x div 2 ^ v < 1" by (simp_all add: fits_def)
    then have "bi_val x div 2 ^ v = (if bi_val x < 0 then -1 else 0)"
      using pos_imp_zdiv_neg_iff [of "2 ^ v" "bi_val x"] by (cases "bi_val x < 0") auto
    then have "sval [sg] = bi_val x div 2 ^ v"
      using sval_negative [OF ne] by (simp add: sg sint_sign_word D_def bi_val_def)
    then show ?thesis using BigInteger_words_correct [of "[sg]"] s by simp
  next
    case True
    define off where "off = v mod 64"
    define j where "j = v div 64"
    define lm where "lm = len mod 64"
    define sz where "sz = (len - v) div 64 + 1"
    have off: "off < 64" "v = 64 * j + off" by (simp_all add: off_def j_def)
    have lm: "lm < 64" "len = 64 * top + lm" by (simp_all add: lm_def top_def)
    have szn: "nat (max (int len - int v + 64) 64 div 64) = sz"
    proof -
      have "max (int len - int v + 64) 64 = int (len - v + 64)" using True by simp
      then show ?thesis unfolding sz_def by (simp only: nat_int_comparison)
    qed
    define ys prev where "ys = (if lm < off then take (top - j) (drop j D) else drop j D)"
      and "prev = (if lm < off then D ! top else sg)"
    have jt: "j \<le> top" "lm < off \<Longrightarrow> j < top" using True off lm by linarith+
    have sz: "sz = (if lm < off then top - j else top - j + 1)"
    proof (cases "lm < off")
      case True
      then have "(len - v) div 64 = top - j - 1"
        using jt off lm by (intro div_nat_eqI) (simp_all add: algebra_simps)
      then show ?thesis using True jt by (simp add: sz_def)
    next
      case False
      then have "(len - v) div 64 = top - j"
        using jt off lm by (intro div_nat_eqI) (simp_all add: algebra_simps)
      then show ?thesis using False by (simp add: sz_def)
    qed
    have dne: "drop j D \<noteq> []" using jt top by simp
    have ly: "length ys = sz" using sz top jt by (auto simp: ys_def Suc_diff_le)
    have s: "BigInteger_shr x v = BigInteger_words (ImpShrd ys off prev)"
    proof (cases "lm < off")
      case True
      then show ?thesis using \<open>v < len\<close> jt szn sz top
        by (simp add: BigInteger_shr_def L Let_def sg_def [symmetric] ys_def prev_def off_def lm_def top_def
            D_def [symmetric] split del: if_split)
    next
      case False
      then show ?thesis using False \<open>v < len\<close> jt szn sz top
        by (simp add: BigInteger_shr_def L Let_def Suc_diff_le sg_def [symmetric] ys_def prev_def off_def lm_def top_def
            D_def [symmetric] split del: if_split)
    qed
    have V: "sval (ys @ [prev]) = sval (drop j D)"
    proof (cases "lm < off")
      case True
      then have "drop j D = take (top - j) (drop j D) @ [D ! top]"
        using jt top id_take_nth_drop [of "top - j" "drop j D"] by simp
      then show ?thesis using True by (simp add: ys_def prev_def)
    next
      case False
      have "sign_word (drop j D) = sg" using jt top by (simp add: sg sign_word_def)
      then show ?thesis using False sval_sign_word [OF dne] by (simp add: ys_def prev_def)
    qed
    have "sval D = uval (take j D) + 2 ^ (64 * j) * sval (drop j D)"
      using sval_append [OF dne, of "take j D"] jt top by simp
    moreover have "uval (take j D) < 2 ^ (64 * j)" using uval_less [of "take j D"] jt top by simp
    ultimately have "sval D div 2 ^ (64 * j) = sval (drop j D)" by (simp add: div_pos_pos_trivial)
    then have q: "bi_val x div 2 ^ v = sval (ys @ [prev]) div 2 ^ off"
      unfolding vD off(2) power_add V by (simp add: zdiv_zmult2_eq)
    have "fits (len - v + 1) (bi_val x div 2 ^ v)" using f True by (intro fits_shr) simp_all
    then have "fits (64 * sz) (bi_val x div 2 ^ v)" by (rule fits_mono) (simp add: sz_def)
    moreover have "ys \<noteq> []" using ly by (auto simp: sz_def)
    ultimately have "sval (ImpShrd ys off prev) = bi_val x div 2 ^ v"
      using off(1) unfolding q by (intro ImpShrd_sval) (simp_all add: ly)
    moreover have "ImpShrd ys off prev \<noteq> []"
      using ImpShrd_uval(2) [OF off(1), of ys prev] ly by (auto simp: sz_def)
    ultimately show ?thesis using BigInteger_words_correct [of "ImpShrd ys off prev"] s by simp
  qed
  then show "bi_ok (BigInteger_shr x v)" and "bi_val (BigInteger_shr x v) = bi_val x div 2 ^ v" by simp_all
qed

section \<open>Bits and bytes\<close>

lemma bit_sval:
  fixes ws :: "u64 list"
  assumes "ws \<noteq> []"
  shows "bit (sval ws) i \<longleftrightarrow> (let j = min i (64 * length ws - 1) in bit (ws ! (j div 64)) (j mod 64))"
  using assms
proof (induction ws arbitrary: i)
  case (Cons w ws)
  show ?case
  proof (cases "ws = []")
    case True
    have "bit (sint w) i \<longleftrightarrow> bit w (min i 63)"
    proof (cases "i < 63")
      case False
      then show ?thesis using bit_sint_iff [of w i] bit_imp_le_length [of w i]
        by (cases "i = 63") (auto simp: min_def)
    qed (auto simp: bit_sint_iff)
    then show ?thesis using True by (simp add: Let_def min_def)
  next
    case False
    have e: "sval (w # ws) = concat_bit 64 (uint w) (sval ws)"
      using False by (simp add: sval_Cons int_digit_64)
    have l: "0 < length ws" using False by simp
    show ?thesis
    proof (cases "i < 64")
      case True
      then have "min i (64 * length (w # ws) - 1) = i" using l by simp
      then show ?thesis using True unfolding e by (simp add: bit_concat_bit_iff bit_uint_iff)
    next
      case h: False
      define j where "j = min (i - 64) (64 * length ws - 1)"
      have "min i (64 * length (w # ws) - 1) = j + 64"
        using h l unfolding j_def min_def by (cases "length ws") auto
      moreover have "bit (sval ws) (i - 64) \<longleftrightarrow> bit (ws ! (j div 64)) (j mod 64)"
        using Cons.IH [OF False, of "i - 64"] by (simp add: j_def Let_def)
      ultimately show ?thesis using h unfolding e by (simp add: bit_concat_bit_iff Let_def)
    qed
  qed
qed simp

lemma bi_TestBit: "bi_ok v \<Longrightarrow> BigInteger_TestBit v idx \<longleftrightarrow> bit (bi_val v) idx"
  by (simp add: BigInteger_TestBit_def bi_val_def bit_sval bi_ok_length mult.commute)

definition WriteBigInteger :: "bigint \<Rightarrow> byte list" where
  "WriteBigInteger n = (let nbytes = (get_Length n + 8) div 8
     in WriteSize nbytes @ take nbytes (word_bytes (get_Data n)))"

definition ReadBigInteger :: "'s reader \<Rightarrow> 's \<Rightarrow> bigint res \<times> 's" where
  "ReadBigInteger read s = (case BinaryReader_ReadSize read s of
     (Inl e, s) \<Rightarrow> (Inl e, s)
   | (Inr nbytes, s) \<Rightarrow> (case Stream_ReadExactly read s nbytes of
       (Inl e, s) \<Rightarrow> (Inl e, s)
     | (Inr p, s) \<Rightarrow> (BigInteger_bytes p, s)))"

lemma bi_ToBytes:
  assumes "bi_ok v"
  shows "length (BigInteger_ToBytes v) = (get_Length v + 8) div 8"
    and "sval (BigInteger_ToBytes v) = bi_val v"
    and "0 < k \<Longrightarrow> k < length (BigInteger_ToBytes v) \<Longrightarrow> \<not> fits (8 * k) (bi_val v)"
proof -
  define n where "n = (get_Length v + 8) div 8"
  have L: "get_Length v = int_bits (bi_val v)" by (rule bi_Length [OF assms])
  have "int_bits (bi_val v) div 64 = bi_count v - 1" "0 < bi_count v"
    using int_bits_count [OF assms] bi_ok_length(2) [OF assms] by simp_all
  then have le: "n \<le> 8 * bi_count v" unfolding n_def L by linarith
  then have ln: "n \<le> length (word_bytes (get_Data v))" using bi_ok_length(1) [OF assms] by simp
  then show "length (BigInteger_ToBytes v) = (get_Length v + 8) div 8"
    by (simp add: BigInteger_ToBytes_def n_def)
  have f: "fits (8 * n) (bi_val v)"
  proof (rule fits_mono)
    show "fits (get_Length v + 1) (bi_val v)" using int_bits_le [of "bi_val v" "get_Length v"] L by simp
    show "get_Length v + 1 \<le> 8 * n" unfolding n_def by linarith
  qed
  have "0 < n" by (simp add: n_def)
  then show "sval (BigInteger_ToBytes v) = bi_val v"
    using sval_take [of n "word_bytes (get_Data v)"] ln f
    by (simp add: BigInteger_ToBytes_def n_def [symmetric] sval_word_bytes bi_val_def)
  show "\<not> fits (8 * k) (bi_val v)" if "0 < k" "k < length (BigInteger_ToBytes v)"
  proof
    assume "fits (8 * k) (bi_val v)"
    then have "int_bits (bi_val v) \<le> 8 * k - 1"
      using int_bits_le [of "bi_val v" "8 * k - 1"] that(1) by simp
    moreover have "k < n" using that(2) ln by (simp add: BigInteger_ToBytes_def n_def)
    then have "8 * k \<le> get_Length v" unfolding n_def by linarith
    ultimately show False using L that(1) by simp
  qed
qed

lemma BigInteger_bytes_ToBytes:
  assumes "bi_ok v"
  shows "\<exists>r. BigInteger_bytes (BigInteger_ToBytes v) = Inr r \<and> bi_ok r \<and> bi_val r = bi_val v"
proof -
  have "BigInteger_ToBytes v \<noteq> []" using bi_ToBytes(1) [OF assms] by auto
  then show ?thesis using Init_correct bi_ToBytes(2) [OF assms] by (simp add: BigInteger_bytes_def)
qed

context stream
begin

lemma ReadBigInteger_write:
  assumes "inv s" and "content s = WriteBigInteger v @ rest" and "bi_ok v" and "bi_count v < 2 ^ 57"
  shows "\<exists>r s'. ReadBigInteger read s = (Inr r, s') \<and> bi_ok r \<and> bi_val r = bi_val v
    \<and> inv s' \<and> content s' = rest"
proof -
  define p where "p = BigInteger_ToBytes v"
  have W: "WriteBigInteger v = WriteSize (length p) @ p"
    using bi_ToBytes(1) [OF assms(3)] by (simp add: WriteBigInteger_def p_def BigInteger_ToBytes_def Let_def)
  have "length p \<le> 8 * bi_count v"
    by (simp add: p_def BigInteger_ToBytes_def bi_ok_length [OF assms(3)])
  then have "length p < 2 ^ 64" using assms(4) by simp
  then obtain s1 where s1: "BinaryReader_ReadSize read s = (Inr (length p), s1)" "inv s1" "content s1 = p @ rest"
    using ReadSize_write [OF assms(1), of "length p" "p @ rest"] assms(2) W by auto
  obtain s2 where s2: "Stream_ReadExactly read s1 (length p) = (Inr p, s2)" "inv s2" "content s2 = rest"
    using ReadExactly_ok [OF s1(2), of "length p"] s1(3) by auto
  show ?thesis
    using BigInteger_bytes_ToBytes [OF assms(3)] s1(1) s2 by (auto simp: ReadBigInteger_def p_def)
qed

end

section \<open>What BigInteger promises\<close>



text \<open>
  numbers in least form are equal exactly if their counts and words are, and \<open>Compare\<close>, which
  looks at the counts first and at the words from the top down, gives their order.
\<close>

theorem BigInteger_order:
  assumes "bi_ok a" and "bi_ok b"
  shows "(BigInteger_eq a b \<longleftrightarrow> bi_val a = bi_val b)
    \<and> (BigInteger_Compare a b < 0 \<longleftrightarrow> bi_val a < bi_val b)
    \<and> (BigInteger_Compare a b = 0 \<longleftrightarrow> bi_val a = bi_val b)"
  using bi_eq_val [OF assms] bi_Compare [OF assms] by simp_all

theorem BigInteger_order_witness:
  "BigInteger_Compare (one_word 5) (Init [0, 0, 0, 0, 0, 0, 0, 0, 1]) < 0"
proof -
  have v: "bi_val (Init [0, 0, 0, 0, 0, 0, 0, 0, 1]) = 2 ^ 64" "bi_ok (Init [0, 0, 0, 0, 0, 0, 0, 0, 1])"
    using Init_correct [of "[0, 0, 0, 0, 0, 0, 0, 0, 1]"] by (simp_all add: sval_Cons)
  show ?thesis using BigInteger_order [OF one_word_val(2) [of 5] v(2)] v(1) by simp
qed

text \<open>
  a number that is written to a stream and read back through a buffered stream has the same
  value, in least form; it takes the least number of bytes that holds it in two's complement.
\<close>

theorem BigInteger_serialised:
  assumes "buffered_inv mem_inv s" and "buffered_content mem_content s = WriteBigInteger v @ rest"
    and "bi_ok v" and "bi_count v < 2 ^ 57"
  shows "(\<exists>r s'. ReadBigInteger (BufferedStream_Read dbs CMemReadStream_Read) s = (Inr r, s')
      \<and> bi_ok r \<and> bi_val r = bi_val v \<and> buffered_content mem_content s' = rest)
    \<and> sval (BigInteger_ToBytes v) = bi_val v
    \<and> (\<forall>k \<in> {0<..<length (BigInteger_ToBytes v)}. \<not> fits (8 * k) (bi_val v))"
  using buf.ReadBigInteger_write [OF assms] bi_ToBytes [OF assms(3)] by fastforce

theorem BigInteger_serialised_witness:
  "\<exists>r s'. ReadBigInteger (BufferedStream_Read 4 CMemReadStream_Read)
       (BufferedStream (CMemReadStream (WriteBigInteger (one_word (-300)) @ [7])) 3) = (Inr r, s')
     \<and> bi_val r = - 300 \<and> buffered_content mem_content s' = [7]"
proof -
  have c: "bi_count (one_word (-300)) < 2 ^ 57" by (simp add: one_word_def)
  let ?s = "BufferedStream (CMemReadStream (WriteBigInteger (one_word (-300)) @ [7])) 3"
  have "buffered_inv mem_inv ?s" "buffered_content mem_content ?s = WriteBigInteger (one_word (-300)) @ [7]"
    by (simp_all add: buffered_inv_BufferedStream mem_inv_def mem_content_def CMemReadStream_def)
  from BigInteger_serialised [OF this one_word_val(2) c] show ?thesis by fastforce
qed

end
