(* ===== verification/BigDiv.thy ===== *)
theory BigDiv
  imports BigInt "HOL-Library.Signed_Division"
begin

text \<open>
  Division of \<open>BigInteger\<close>s in \<open>src/libext/bignum.cpp\<close>: the short division by one word and
  Knuth's algorithm D, whose quotient digits are estimated from the leading words with the double
  words of \<open>CUInt128\<close> (\<open>src/bignum.h\<close>), corrected, and corrected once more when the subtraction
  borrows.
\<close>

section \<open>Double words\<close>

record CUInt128 =
  Low :: u64
  High :: u64

definition CUInt128_of :: "u64 \<Rightarrow> CUInt128" where
  "CUInt128_of x = \<lparr>Low = x, High = 0\<rparr>"

definition CUInt128_words :: "u64 list \<Rightarrow> CUInt128" where
  "CUInt128_words d = \<lparr>Low = d ! 0, High = d ! 1\<rparr>"

text \<open>A shift by 64 is not possible in one step, so it is made in two.\<close>

definition CUInt128_shl :: "CUInt128 \<Rightarrow> nat \<Rightarrow> CUInt128" where
  "CUInt128_shl x off = (let a = ImpShld [Low x, High x] (off div 2);
       r = ImpShld (take 2 a) (off div 2 OR off AND 1)
     in CUInt128_words r)"

definition CUInt128_or :: "CUInt128 \<Rightarrow> CUInt128 \<Rightarrow> CUInt128" where
  "CUInt128_or x v = \<lparr>Low = Low x OR Low v, High = High x OR High v\<rparr>"

definition CUInt128_add :: "CUInt128 \<Rightarrow> u64 \<Rightarrow> CUInt128" where
  "CUInt128_add x y = CUInt128_words (ImpAddBignums [Low x, High x] [y, 0])"

definition CUInt128_mul :: "CUInt128 \<Rightarrow> u64 \<Rightarrow> CUInt128" where
  "CUInt128_mul x y = CUInt128_words (ImpMulBignums [Low x, High x] [y])"

definition CUInt128_div :: "CUInt128 \<Rightarrow> u64 \<Rightarrow> u64 res" where
  "CUInt128_div x q = bind_res (ImpShortDiv [Low x, High x] q) (\<lambda>(r, _). Inr (r ! 0))"

definition CUInt128_mod :: "CUInt128 \<Rightarrow> u64 \<Rightarrow> u64 res" where
  "CUInt128_mod x q = bind_res (ImpShortDiv [Low x, High x] q) (\<lambda>(_, r). Inr r)"

definition CUInt128_greater :: "CUInt128 \<Rightarrow> CUInt128 \<Rightarrow> bool" where
  "CUInt128_greater x y \<longleftrightarrow> High x > High y \<or> High x = High y \<and> Low x > Low y"

definition CUInt128_ge :: "CUInt128 \<Rightarrow> CUInt128 \<Rightarrow> bool" where
  "CUInt128_ge x y \<longleftrightarrow> High x > High y \<or> High x = High y \<and> Low x \<ge> Low y"

definition val128 :: "CUInt128 \<Rightarrow> int" where
  "val128 x = uint (Low x) + 2 ^ 64 * uint (High x)"

section \<open>A digit of the quotient\<close>

text \<open>\<open>D_BASEWORD(1) << BASEWORD_BITS\<close>.\<close>

definition one_shl_64 :: CUInt128 where
  "one_shl_64 = CUInt128_shl (CUInt128_of 1) 64"

lemma words2:
  "length ws = 2 \<or> length ws = 3 \<Longrightarrow> val128 (CUInt128_words ws) = uval (take 2 ws)"
  by (auto simp: val128_def CUInt128_words_def eval_nat_numeral length_Suc_conv)

lemma uval_2: "uval [Low x, High x] = val128 x"
  by (simp add: val128_def)

lemma val128_range: "0 \<le> val128 x" "val128 x < 2 ^ 128"
  using uval_less [of "[Low x, High x]"] uval_nonneg [of "[Low x, High x]"] by (simp_all only: uval_2) simp

lemma CUInt128_compare:
  "CUInt128_greater x y \<longleftrightarrow> val128 x > val128 y" "CUInt128_ge x y \<longleftrightarrow> val128 x \<ge> val128 y"
proof -
  have g: "val128 a > val128 b \<longleftrightarrow> uint (High a) > uint (High b) \<or> High a = High b \<and> uint (Low a) > uint (Low b)"
    for a b
  proof (cases "uint (High a)" "uint (High b)" rule: linorder_cases)
    case less
    then have "2 ^ 64 * (uint (High a) + 1) \<le> 2 ^ 64 * uint (High b)" by (intro mult_left_mono) simp_all
    then have "val128 a < val128 b"
      using uint_64(2) [of "Low a"] uint_64(1) [of "Low b"] unfolding val128_def distrib_left by linarith
    then show ?thesis using less by auto
  next
    case equal
    then have "High a = High b" by (rule unsigned_word_eqI)
    then show ?thesis by (simp add: val128_def)
  next
    case greater
    then have "2 ^ 64 * (uint (High b) + 1) \<le> 2 ^ 64 * uint (High a)" by (intro mult_left_mono) simp_all
    then have "val128 b < val128 a"
      using uint_64(2) [of "Low b"] uint_64(1) [of "Low a"] unfolding val128_def distrib_left by linarith
    then show ?thesis using greater by auto
  qed
  show "CUInt128_greater x y \<longleftrightarrow> val128 x > val128 y"
    unfolding g CUInt128_greater_def word_less_def by auto
  have "val128 x \<ge> val128 y \<longleftrightarrow> \<not> val128 y > val128 x" by auto
  then show "CUInt128_ge x y \<longleftrightarrow> val128 x \<ge> val128 y"
    unfolding g CUInt128_ge_def word_less_def word_le_def
    by (metis linorder_neqE_linordered_idom not_le unsigned_word_eqI less_le_not_le)
qed

lemma CUInt128_add_val: "val128 x + uint y < 2 ^ 128 \<Longrightarrow> val128 (CUInt128_add x y) = val128 x + uint y"
proof -
  assume lt: "val128 x + uint y < 2 ^ 128"
  define s where "s = ImpAddBignums [Low x, High x] [y, 0]"
  have l: "length s = 3" and v: "sval s = sval [Low x, High x] + sval [y, 0]"
    using ImpAddBignums_sval [of "[Low x, High x]" "[y, 0]"] by (simp_all add: s_def)
  have "uval (take 2 s) = sval s mod 2 ^ 128" using uval_take_mod [of 2 s] l by (cases s) simp_all
  moreover have "sval [Low x, High x] mod 2 ^ 128 = val128 x"
    using sval_mod [of "[Low x, High x]"] by (simp add: val128_def)
  moreover have "sval [y, 0] = uint y" by (simp add: sval_Cons)
  ultimately have "uval (take 2 s) = (val128 x + uint y) mod 2 ^ 128"
    unfolding v by (metis mod_add_left_eq)
  then show "val128 (CUInt128_add x y) = val128 x + uint y"
    using lt val128_range(1) [of x] words2 [of s] l by (simp add: CUInt128_add_def s_def)
qed

lemma CUInt128_mul_val: "val128 (CUInt128_mul (CUInt128_of x) y) = uint x * uint y"
proof -
  define p where "p = ImpMulBignums [x, 0] [y]"
  have p: "uval p = uint x * uint y" "length p = 3"
    using ImpMulBignums_uval [of "[x, 0]" "[y]"] by (simp_all add: p_def)
  have "uint x * uint y \<le> (2 ^ 64 - 1) * (2 ^ 64 - 1)"
    using uint_64 [of x] uint_64 [of y] by (intro mult_mono) simp_all
  then have "uval p < 2 ^ 128" using p by simp
  moreover have "uval p = uval (take 2 p) + 2 ^ 128 * uval (drop 2 p)"
    using uval_append [of "take 2 p" "drop 2 p"] p(2) by simp
  ultimately have "2 ^ 128 * uval (drop 2 p) < 2 ^ 128 * 1" using uval_nonneg [of "take 2 p"] by linarith
  then have "uval (drop 2 p) < 1" by simp
  then have "uval (drop 2 p) = 0" using uval_nonneg [of "drop 2 p"] by linarith
  then have "uval (take 2 p) = uint x * uint y"
    using p(1) \<open>uval p = uval (take 2 p) + 2 ^ 128 * uval (drop 2 p)\<close> by simp
  then show ?thesis using words2 [of p] p(2) by (simp add: CUInt128_mul_def CUInt128_of_def p_def)
qed

lemma CUInt128_shl_64: "CUInt128_shl (CUInt128_of x) 64 = \<lparr>Low = 0, High = x\<rparr>"
proof -
  define a where "a = ImpShld [x, 0] 32"
  have a: "sval a = uint x * 2 ^ 32" "length a = 3"
    using ImpShld_sval [of 32 "[x, 0]"] by (simp_all add: a_def sval_Cons)
  have "fits 128 (sval a)"
    using uint_64 [of x] order_trans [OF _ uint_64(1) [of x]] by (simp add: a(1) fits_def)
  then have t: "sval (take 2 a) = uint x * 2 ^ 32" "length (take 2 a) = 2" "take 2 a \<noteq> []"
    using sval_take [of 2 a] a by auto
  define r where "r = ImpShld (take 2 a) 32"
  have r: "sval r = 2 ^ 64 * uint x" "length r = 3"
    using ImpShld_sval [of 32 "take 2 a"] t by (simp_all add: r_def)
  have "uval (take 2 r) = 2 ^ 64 * uint x"
    using uval_take_mod [of 2 r] r uint_64 [of x] by (subst uval_take_mod) auto
  moreover have "uval [0, x] = 2 ^ 64 * uint x" by simp
  ultimately have "take 2 r = [0, x]" using r(2) by (intro uval_inject) simp_all
  moreover have "length (drop 2 r) = 1" using r(2) by simp
  then obtain z where "drop 2 r = [z]" by (metis length_0_conv length_Suc_conv One_nat_def)
  ultimately have "r = [0, x, z]" by (metis append_Cons append_Nil append_take_drop_id)
  moreover have "(32 :: nat) OR 64 AND 1 = 32" by simp
  ultimately show ?thesis
    by (simp add: CUInt128_shl_def CUInt128_of_def CUInt128_words_def Let_def a_def [symmetric] r_def [symmetric])
qed

definition D_BASEWORD_high :: "u64 \<Rightarrow> u64 \<Rightarrow> CUInt128" where
  "D_BASEWORD_high rh w = CUInt128_or (CUInt128_shl (CUInt128_of rh) 64) (CUInt128_of w)"

text \<open>
  The estimate is lowered while it is too large for the next word of the dividend; the loop also
  ends when the remainder of the estimate no longer fits into a word.
\<close>

lemma D_BASEWORD_high_val: "val128 (D_BASEWORD_high rh w) = 2 ^ 64 * uint rh + uint w"
  unfolding D_BASEWORD_high_def CUInt128_shl_64
  by (simp add: CUInt128_or_def CUInt128_of_def val128_def)

function qh_loop :: "u64 \<Rightarrow> u64 \<Rightarrow> u64 \<Rightarrow> u64 \<Rightarrow> u64 \<Rightarrow> u64" where
  "qh_loop v1 v2 u0 qh rh =
     (if CUInt128_greater (CUInt128_mul (CUInt128_of qh) v2) (D_BASEWORD_high rh u0)
      then let qh = qh - 1; rr = CUInt128_add (CUInt128_of rh) v1
        in if CUInt128_ge rr one_shl_64 then qh else qh_loop v1 v2 u0 qh (Low rr)
      else qh)"
  by pat_completeness auto
termination
proof (relation "measure (\<lambda>(v1, v2, u0, qh, rh). unat qh)")
  fix v1 v2 u0 qh rh x rr
  assume "CUInt128_greater (CUInt128_mul (CUInt128_of qh) v2) (D_BASEWORD_high rh u0)" and x: "x = qh - 1"
  then have "2 ^ 64 * uint rh + uint u0 < uint qh * uint v2"
    by (simp only: CUInt128_compare CUInt128_mul_val D_BASEWORD_high_val)
  moreover have "0 \<le> 2 ^ 64 * uint rh + uint u0" by simp
  ultimately have "0 < uint qh * uint v2" by (rule order_le_less_trans [rotated])
  then have "qh \<noteq> 0" by auto
  then show "((v1, v2, u0, x, Low rr), (v1, v2, u0, qh, rh)) \<in> measure (\<lambda>(v1, v2, u0, qh, rh). unat qh)"
    by (simp add: x measure_unat)
qed simp

declare qh_loop.simps [simp del]

text \<open>
  One digit: \<open>w\<close> are the \<open>n + 1\<close> words at \<open>pu + j\<close>, \<open>v\<close> the \<open>n\<close> words of the divisor; the words
  that are left of the dividend come back with the digit.
\<close>

definition qh_estimate :: "u64 list \<Rightarrow> u64 list \<Rightarrow> u64 res" where
  "qh_estimate v w = (let n = length v; v1 = v ! (n - 1); v2 = v ! (n - 2) in
     if w ! n \<ge> v1 then
       let qh = -1; rr = CUInt128_add (CUInt128_of (w ! (n - 1))) v1 in
       if CUInt128_ge rr one_shl_64 then Inr qh
       else Inr (qh_loop v1 v2 (w ! (n - 2)) qh (Low rr))
     else bind_res (ImpShortDiv [w ! (n - 1), w ! n] v1) (\<lambda>(qs, rh).
       Inr (qh_loop v1 v2 (w ! (n - 2)) (qs ! 0) rh)))"

definition div_digit :: "u64 list \<Rightarrow> u64 list \<Rightarrow> (u64 \<times> u64 list) res" where
  "div_digit v w = bind_res (qh_estimate v w) (\<lambda>qh.
     case ImpMulSubBignums w v qh of (w, borrow) \<Rightarrow>
       if borrow then Inr (qh - 1, ImpAddBignumsEx w v) else Inr (qh, w))"

text \<open>The loop over the digits, from \<open>j\<close> down to zero.\<close>

fun div_loop :: "u64 list \<Rightarrow> nat \<Rightarrow> u64 list \<Rightarrow> u64 list \<Rightarrow> (u64 list \<times> u64 list) res" where
  "div_loop v 0 pu pq = Inr (pu, pq)"
| "div_loop v (Suc j) pu pq =
     bind_res (div_digit v (take (length v + 1) (drop j pu))) (\<lambda>(qh, w).
       div_loop v j (take j pu @ w @ drop (j + length v + 1) pu) (pq[j := qh]))"

section \<open>The estimate is right or one too large\<close>

text \<open>The numbers behind one digit, with the base \<open>B\<close> and the words below the leading ones.\<close>

lemma estimate_upper:
  fixes B R q T D vl wl :: int
  assumes W: "W = T * R + wl" "0 \<le> wl" "wl < R" and V: "V = D * R + vl" "0 \<le> vl" "vl < R"
    and D: "B \<le> D" and qh: "qh < B" "0 \<le> qh" "qh * D \<le> T"
  shows "qh \<le> W div V + 1"
proof -
  have R: "0 < R" using W(2,3) by simp
  have "B * R \<le> D * R" using D R by (intro mult_right_mono) simp_all
  then have Vpos: "B * R \<le> V" using V by linarith
  moreover have "0 < B * R" using qh(1,2) R by (intro mult_pos_pos) simp_all
  ultimately have "0 < V" by linarith
  note Vpos = Vpos this
  have "qh * V = qh * D * R + qh * vl" by (simp add: V(1) algebra_simps)
  also have "\<dots> \<le> T * R + B * R"
  proof -
    have "qh * D * R \<le> T * R" using qh(3) R by (intro mult_right_mono) simp_all
    moreover have "qh * vl \<le> B * R" using qh V by (intro mult_mono) simp_all
    ultimately show ?thesis by linarith
  qed
  also have "\<dots> \<le> W + V" using W Vpos by linarith
  finally have "(qh - 1) * V \<le> W" by (simp add: algebra_simps)
  then have "qh - 1 \<le> W div V" using Vpos(2) int_div_less [of V W "qh - 1"] by linarith
  then show ?thesis by simp
qed

lemma estimate_too_large:
  fixes R T D vl wl :: int
  assumes W: "W = T * R + wl" "0 \<le> wl" "wl < R" and V: "V = D * R + vl" "0 \<le> vl" "0 < V"
    and qh: "0 \<le> qh" "T < qh * D"
  shows "W div V < qh"
proof -
  have R: "0 < R" using W(2,3) by simp
  have "(T + 1) * R \<le> qh * D * R" using qh(2) R by (intro mult_right_mono) simp_all
  then have "T * R + R \<le> qh * D * R" by (simp add: algebra_simps)
  moreover have "0 \<le> qh * vl" using qh(1) V(2) by simp
  ultimately have "W < qh * V" using W unfolding V(1) distrib_left by (simp add: mult.assoc)
  then show ?thesis using V(3) by (simp add: int_div_less)
qed

lemma one_shl_64_val: "val128 one_shl_64 = 2 ^ 64"
  unfolding one_shl_64_def CUInt128_shl_64 by (simp add: val128_def)

lemma CUInt128_of_add_val: "val128 (CUInt128_add (CUInt128_of x) y) = uint x + uint y"
proof -
  have "val128 (CUInt128_of x) = uint x" by (simp add: val128_def CUInt128_of_def)
  then show ?thesis using CUInt128_add_val [of "CUInt128_of x" y] uint_64(2) [of x] uint_64(2) [of y] by simp
qed

lemma Low_val: "val128 x < 2 ^ 64 \<Longrightarrow> uint (Low x) = val128 x"
proof -
  assume "val128 x < 2 ^ 64"
  then have "2 ^ 64 * uint (High x) < 2 ^ 64 * 1"
    using uint_64(1) [of "Low x"] unfolding val128_def by linarith
  then have "uint (High x) < 1" by simp
  then have "uint (High x) = 0" using uint_64(1) [of "High x"] by linarith
  then show ?thesis by (simp add: val128_def)
qed

lemma qh_loop_correct:
  assumes "W = (2 ^ 128 * uint u2 + 2 ^ 64 * uint u1 + uint u0) * R + wl" "0 \<le> wl" "wl < R"
    and "V = (2 ^ 64 * uint v1 + uint v2) * R + vl" "0 \<le> vl" "0 < V"
    and "uint qh * uint v1 + uint rh = 2 ^ 64 * uint u2 + uint u1" and "W div V \<le> uint qh"
  shows "W div V \<le> uint (qh_loop v1 v2 u0 qh rh)
    \<and> uint (qh_loop v1 v2 u0 qh rh) * (2 ^ 64 * uint v1 + uint v2)
        \<le> 2 ^ 128 * uint u2 + 2 ^ 64 * uint u1 + uint u0"
  using assms
proof (induction v1 v2 u0 qh rh rule: qh_loop.induct)
  case (1 v1 v2 u0 qh rh)
  define T where "T = 2 ^ 128 * uint u2 + 2 ^ 64 * uint u1 + uint u0"
  define D where "D = 2 ^ 64 * uint v1 + uint v2"
  have T: "T = 2 ^ 64 * (uint qh * uint v1 + uint rh) + uint u0"
    unfolding 1(8) T_def by simp
  have D: "x * D \<le> T \<longleftrightarrow> x * uint v2 \<le> 2 ^ 64 * (uint qh * uint v1 + uint rh - x * uint v1) + uint u0" for x
    unfolding T D_def by (simp add: algebra_simps)
  have test: "CUInt128_greater (CUInt128_mul (CUInt128_of qh) v2) (D_BASEWORD_high rh u0)
      \<longleftrightarrow> 2 ^ 64 * uint rh + uint u0 < uint qh * uint v2"
    by (simp only: CUInt128_compare CUInt128_mul_val D_BASEWORD_high_val)
  show ?case
  proof (cases "2 ^ 64 * uint rh + uint u0 < uint qh * uint v2")
    case False
    then have "uint qh * D \<le> T" unfolding D by simp
    then show ?thesis using False test 1(9) by (simp add: qh_loop.simps [of v1] T_def D_def)
  next
    case True
    have "T < uint qh * D" using True D [of "uint qh"] by simp
    then have big: "W div V < uint qh"
      using 1(2-7) by (intro estimate_too_large [of W T R wl V D vl]) (simp_all add: T_def D_def)
    have "0 \<le> T" by (simp add: T_def)
    then have "0 \<le> W" using 1(2-4) by (simp add: T_def [symmetric])
    then have "0 \<le> W div V" using 1(7) by (simp add: pos_imp_zdiv_nonneg_iff)
    then have "1 \<le> uint qh" using big by linarith
    then have q1: "uint (qh - 1) = uint qh - 1"
      using uint_sub_lem [of 1 qh] by simp
    define rr where "rr = CUInt128_add (CUInt128_of rh) v1"
    have rr: "val128 rr = uint rh + uint v1" by (simp add: rr_def CUInt128_of_add_val)
    have ge: "CUInt128_ge rr one_shl_64 \<longleftrightarrow> 2 ^ 64 \<le> uint rh + uint v1"
      unfolding CUInt128_compare one_shl_64_val rr ..
    have same: "(uint qh - 1) * uint v1 + (uint rh + uint v1) = 2 ^ 64 * uint u2 + uint u1"
      using 1(8) by (simp add: left_diff_distrib)
    have le: "W div V \<le> uint qh - 1" using big by simp
    show ?thesis
    proof (cases "2 ^ 64 \<le> uint rh + uint v1")
      case stop: True
      have "(uint qh - 1) * uint v2 \<le> 2 ^ 64 * 2 ^ 64"
        using uint_64(2) [of qh] uint_64 [of v2] \<open>1 \<le> uint qh\<close> by (intro mult_mono) simp_all
      also have "\<dots> \<le> 2 ^ 64 * (uint rh + uint v1)" using stop by (intro mult_left_mono) simp_all
      finally have "(uint qh - 1) * uint v2 \<le> 2 ^ 64 * (uint rh + uint v1) + uint u0"
        using uint_64(1) [of u0] by linarith
      then have "(uint qh - 1) * D \<le> T" unfolding D by (simp add: left_diff_distrib)
      then show ?thesis
        using True stop ge test le
        by (simp add: qh_loop.simps [of v1] Let_def rr_def [symmetric] q1 T_def D_def)
    next
      case False
      then have low: "uint (Low rr) = uint rh + uint v1" using Low_val [of rr] rr by simp
      have IH: "W div V \<le> uint (qh_loop v1 v2 u0 (qh - 1) (Low rr))
          \<and> uint (qh_loop v1 v2 u0 (qh - 1) (Low rr)) * (2 ^ 64 * uint v1 + uint v2)
            \<le> 2 ^ 128 * uint u2 + 2 ^ 64 * uint u1 + uint u0"
        using 1(1) [of "qh - 1" rr] True False test ge 1(2-7) same le
        by (simp add: rr_def [symmetric] q1 low)
      then show ?thesis
        using True False test ge by (simp add: qh_loop.simps [of v1] Let_def rr_def [symmetric])
    qed
  qed
qed

lemma qh_estimate_correct:
  fixes vs ws :: "u64 list" and u0 u1 u2 v1 v2 :: u64
  defines "v \<equiv> vs @ [v2, v1]" and "w \<equiv> ws @ [u0, u1, u2]"
  assumes l: "length ws = length vs" and norm: "0 < uint v1" and lt: "uval w < 2 ^ 64 * uval v"
  shows "\<exists>qh. qh_estimate v w = Inr qh \<and> uval w div uval v \<le> uint qh \<and> uint qh \<le> uval w div uval v + 1"
proof -
  define R :: int where "R = 2 ^ (64 * length vs)"
  define T where "T = 2 ^ 128 * uint u2 + 2 ^ 64 * uint u1 + uint u0"
  define D where "D = 2 ^ 64 * uint v1 + uint v2"
  have V: "uval v = D * R + uval vs" "0 \<le> uval vs" "uval vs < R"
    using uval_less [of vs] by (simp_all add: v_def D_def uval_append flip: R_def)
  have W: "uval w = T * R + uval ws" "0 \<le> uval ws" "uval ws < R"
    using uval_less [of ws] by (simp_all add: w_def T_def uval_append l distrib_left distrib_right mult.commute [of _ R] flip: R_def)
  have R: "0 < R" by (simp add: R_def)
  have "2 ^ 64 * 1 \<le> 2 ^ 64 * uint v1" using norm by (intro mult_left_mono) simp_all
  then have DB: "2 ^ 64 \<le> D" using uint_64(1) [of v2] unfolding D_def by linarith
  have "0 < D" using DB by simp
  then have Vpos: "0 < uval v" using mult_pos_pos [of D R] R V by linarith
  have n: "length v = Suc (Suc (length vs))" "Suc (Suc (length vs)) - 1 = Suc (length vs)"
      "Suc (Suc (length vs)) - 2 = length vs"
    by (simp_all add: v_def)
  have idx: "v ! Suc (length vs) = v1" "v ! length vs = v2" "w ! length vs = u0" "w ! Suc (length vs) = u1"
      "w ! Suc (Suc (length vs)) = u2"
    using l by (simp_all add: v_def w_def nth_append)
  have est: "qh_estimate v w = (if u2 \<ge> v1 then
       let rr = CUInt128_add (CUInt128_of u1) v1 in
       if CUInt128_ge rr one_shl_64 then Inr (-1) else Inr (qh_loop v1 v2 u0 (-1) (Low rr))
     else bind_res (ImpShortDiv [u1, u2] v1) (\<lambda>(qs, rh). Inr (qh_loop v1 v2 u0 (qs ! 0) rh)))"
    unfolding qh_estimate_def Let_def n idx ..
  \<comment> \<open>the leading word of the dividend is not greater than that of the divisor\<close>
  have u2v1: "uint u2 \<le> uint v1"
  proof (rule ccontr)
    assume "\<not> uint u2 \<le> uint v1"
    then have "2 ^ 128 * (uint v1 + 1) \<le> 2 ^ 128 * uint u2" by (intro mult_left_mono) simp_all
    then have "2 ^ 64 * D + 2 ^ 64 \<le> 2 ^ 128 * uint u2" using uint_64(2) [of v2] by (simp add: D_def)
    also have "\<dots> \<le> T" by (simp add: T_def)
    finally have "(2 ^ 64 * D + 2 ^ 64) * R \<le> T * R" using R by (intro mult_right_mono) simp_all
    then have "2 ^ 64 * (D * R) + 2 ^ 64 * R \<le> T * R" by (simp add: algebra_simps)
    then show False using lt V W by simp
  qed
  have upper: "uint q \<le> uval w div uval v + 1" if "uint q * D \<le> T" for q :: u64
    using that V W DB uint_64 [of q] by (intro estimate_upper [of _ T R _ _ D _ "2 ^ 64"])
  have quot: "uval w div uval v < 2 ^ 64" using lt Vpos by (simp add: int_div_less mult.commute)
  have m1: "uint (-1 :: u64) = 2 ^ 64 - 1" by (simp add: unsigned_minus_1_eq_mask mask_eq_exp_minus_1)
  have loop: "uval w div uval v \<le> uint (qh_loop v1 v2 u0 q r) \<and> uint (qh_loop v1 v2 u0 q r) \<le> uval w div uval v + 1"
    if "uint q * uint v1 + uint r = 2 ^ 64 * uint u2 + uint u1" "uval w div uval v \<le> uint q" for q r
    using qh_loop_correct [OF W(1) [unfolded T_def] W(2,3) V(1) [unfolded D_def] V(2) Vpos that]
      upper [of "qh_loop v1 v2 u0 q r"] by (simp add: D_def T_def)
  show ?thesis
  proof (cases "u2 \<ge> v1")
    case True
    then have eq: "uint u2 = uint v1" using u2v1 unfolding word_le_def by simp
    define rr where "rr = CUInt128_add (CUInt128_of u1) v1"
    have rr: "val128 rr = uint u1 + uint v1" by (simp add: rr_def CUInt128_of_add_val)
    have top: "uval w div uval v \<le> uint (-1 :: u64)" using quot m1 by simp
    show ?thesis
    proof (cases "CUInt128_ge rr one_shl_64")
      case ge: True
      then have "2 ^ 64 \<le> uint u1 + uint v1" unfolding CUInt128_compare one_shl_64_val rr .
      have "(2 ^ 64 - 1) * uint v2 \<le> 2 ^ 64 * 2 ^ 64"
        using uint_64 [of v2] by (intro mult_mono) simp_all
      also have "\<dots> \<le> 2 ^ 64 * (uint u1 + uint v1)" using \<open>2 ^ 64 \<le> uint u1 + uint v1\<close> by (intro mult_left_mono) simp_all
      also have "\<dots> \<le> 2 ^ 64 * (uint u1 + uint v1) + uint u0" by simp
      finally have "(2 ^ 64 - 1) * D \<le> T" unfolding T_def D_def eq by (simp add: algebra_simps)
      then have "uint (-1 :: u64) \<le> uval w div uval v + 1" by (intro upper) (simp only: m1)
      then show ?thesis using True ge top by (simp add: est rr_def [symmetric] Let_def)
    next
      case False
      then have "uint u1 + uint v1 < 2 ^ 64" unfolding CUInt128_compare one_shl_64_val rr by simp
      then have "uint (Low rr) = uint u1 + uint v1" using Low_val [of rr] rr by simp
      then have "uint (-1 :: u64) * uint v1 + uint (Low rr) = 2 ^ 64 * uint u2 + uint u1"
        unfolding m1 eq by (simp add: left_diff_distrib)
      from loop [OF this top] show ?thesis using True False by (simp add: est rr_def [symmetric] Let_def)
    qed
  next
    case False
    then have lt2: "u2 < v1" by simp
    obtain qs r where r: "ImpShortDiv [u1, u2] v1 = Inr (qs, r)" "length qs = 1" "r < v1"
      "uint u1 + 2 ^ 64 * uint u2 = uint v1 * uval qs + uint r"
      using ImpShortDiv_uval [OF lt2, of "[u1]"] by auto
    then obtain q where q: "qs = [q]" by (auto simp: length_Suc_conv)
    have qv: "uint q * uint v1 + uint r = 2 ^ 64 * uint u2 + uint u1" using r(4) q by (simp add: mult.commute)
    have "uval w div uval v \<le> uint q"
    proof (rule ccontr)
      assume "\<not> uval w div uval v \<le> uint q"
      then have q1: "uint q + 1 \<le> uval w div uval v" by simp
      then have "\<not> uval w < (uint q + 1) * uval v" using Vpos int_div_less [of "uval v" "uval w" "uint q + 1"] by simp
      moreover have "uval w < (uint q + 1) * uval v"
      proof -
        have "2 ^ 64 * uint u2 + uint u1 + 1 \<le> (uint q + 1) * uint v1"
          using qv r(3) unfolding word_less_def by (simp add: distrib_right)
        then have "2 ^ 64 * (2 ^ 64 * uint u2 + uint u1 + 1) \<le> 2 ^ 64 * ((uint q + 1) * uint v1)"
          by (intro mult_left_mono) simp_all
        also have "\<dots> \<le> 2 ^ 64 * ((uint q + 1) * uint v1) + (uint q + 1) * uint v2" by simp
        also have "\<dots> = (uint q + 1) * D" by (simp add: D_def algebra_simps)
        finally have "T + 1 \<le> (uint q + 1) * D" using uint_64(2) [of u0] by (simp add: T_def)
        then have "(T + 1) * R \<le> (uint q + 1) * D * R" using R by (intro mult_right_mono) simp_all
        also have "\<dots> \<le> (uint q + 1) * uval v"
          unfolding V(1) by (simp add: distrib_left mult.assoc)
        finally show ?thesis using W(1,3) by (simp add: distrib_right)
      qed
      ultimately show False by simp
    qed
    from loop [OF qv this] show ?thesis using False r(1) q by (simp add: est)
  qed
qed

section \<open>The digits and the whole division\<close>

lemma split_last2:
  assumes "2 \<le> length v"
  obtains vs x y where "v = vs @ [x, y]" and "length vs = length v - 2"
proof -
  obtain v' y where v: "v = v' @ [y]" using assms by (cases v rule: rev_cases) auto
  moreover obtain vs x where "v' = vs @ [x]" using assms v by (cases v' rule: rev_cases) auto
  ultimately show ?thesis using that [of vs x y] by simp
qed

lemma div_digit_correct:
  assumes n: "2 \<le> length v" and l: "length w = length v + 1" and norm: "0 < uint (last v)"
    and lt: "uval w < 2 ^ 64 * uval v"
  shows "\<exists>q w'. div_digit v w = Inr (q, w') \<and> length w' = length w
    \<and> uint q = uval w div uval v \<and> uval w' = uval w mod uval v"
proof -
  obtain vs v2 v1 where v: "v = vs @ [v2, v1]" by (rule split_last2 [OF n])
  obtain w1 u1 u2 where w: "w = w1 @ [u1, u2]" by (rule split_last2 [of w]) (use l n in simp)
  moreover obtain ws u0 where "w1 = ws @ [u0]" using l v w by (cases w1 rule: rev_cases) auto
  ultimately have w: "w = ws @ [u0, u1, u2]" by simp
  have lw: "length ws = length vs" using l v w by simp
  obtain qh where qh: "qh_estimate v w = Inr qh" "uval w div uval v \<le> uint qh" "uint qh \<le> uval w div uval v + 1"
    using qh_estimate_correct [OF lw, of v1 u0 u1 u2 v2] norm lt v w by auto
  have "uval v \<noteq> 0" using lt uval_nonneg [of w] by (metis leD mult_zero_right)
  then have V: "0 < uval v" using uval_nonneg [of v] by linarith
  obtain rs al where s: "ImpMulSubBignums w v qh = (rs, al)" "length rs = length w"
    "uval rs - 2 ^ (64 * length w) * of_bool al = uval w - uint qh * uval v"
    using ImpMulSubBignums_uval [OF l, of qh] by metis
  define Q M N where "Q = uval w div uval v" and "M = uval w mod uval v" and "N = (2 :: int) ^ (64 * length w)"
  have QM: "uval w = Q * uval v + M" "0 \<le> M" "M < uval v" using V by (simp_all add: Q_def M_def)
  have rsN: "0 \<le> uval rs" "uval rs < N" using uval_less [of rs] s(2) by (simp_all add: N_def)
  have vN: "uval v < N"
  proof -
    have "(2 :: int) ^ (64 * length v) \<le> N" unfolding N_def using l by (intro power_increasing) simp_all
    then show ?thesis using uval_less [of v] by simp
  qed
  consider "uint qh = Q" | "uint qh = Q + 1" using qh(2,3) unfolding Q_def by linarith
  then show ?thesis
  proof cases
    case 1
    then have e: "uval rs - N * of_bool al = M" using s(3) QM(1) by (simp add: N_def)
    then have "\<not> al" using rsN QM(2) by (cases al) simp_all
    then show ?thesis using 1 e s qh(1) by (simp add: div_digit_def Q_def M_def)
  next
    case 2
    then have e: "uval rs - N * of_bool al = M - uval v" using s(3) QM(1) by (simp add: N_def algebra_simps)
    then have al: "al" using rsN(1) QM(3) by (cases al) simp_all
    then have "uval rs + uval v = N + M" using e by simp
    moreover have "length rs = length v + 1" using s(2) l by simp
    ultimately have a: "uval (ImpAddBignumsEx rs v) = M" "length (ImpAddBignumsEx rs v) = length w"
      using ImpAddBignumsEx_uval [of rs v M] s(2) QM(2,3) vN by (simp_all add: N_def)
    have "1 \<le> uint qh" using 2 QM(1,2) V unfolding Q_def by (simp add: pos_imp_zdiv_nonneg_iff)
    then have "uint (qh - 1) = Q" using uint_sub_lem [of 1 qh] 2 by simp
    then show ?thesis using a al s(1) qh(1) by (simp add: div_digit_def Q_def M_def)
  qed
qed

lemma div_loop_correct:
  assumes "2 \<le> length v" and "0 < uint (last v)" and "j + length v \<le> length pu" and "j \<le> length pq"
    and "uval (drop j pu) < uval v"
  shows "\<exists>pu' pq'. div_loop v j pu pq = Inr (pu', pq') \<and> length pu' = length pu \<and> length pq' = length pq
    \<and> drop j pq' = drop j pq \<and> uval pu = uval v * uval (take j pq') + uval pu' \<and> uval pu' < uval v"
  using assms(3-5)
proof (induction j arbitrary: pu pq)
  case (Suc j)
  define w where "w = take (length v + 1) (drop j pu)"
  define z where "z = drop (j + length v + 1) pu"
  have lw: "length w = length v + 1" using Suc.prems(1) by (simp add: w_def)
  have "z = drop (length v + 1) (drop j pu)" by (simp add: z_def add.commute)
  then have split: "drop j pu = w @ z" by (simp only: w_def append_take_drop_id)
  define B where "B = (2 :: int) ^ (64 * length v)"
  have Vb: "uval v < B" using uval_less [of v] by (simp add: B_def)
  obtain u us where u: "w = u # us" "length us = length v" using lw by (cases w) auto
  have dS: "drop (Suc j) pu = us @ z" using split u by (metis drop_Suc list.sel(3) append_Cons drop_drop plus_1_eq_Suc drop0 drop_Suc_Cons)
  have "uval us + B * uval z < uval v" using Suc.prems(3) u(2) by (simp add: dS uval_append B_def)
  then have "B * uval z < B * 1" using Vb uval_nonneg [of us] by linarith
  then have "uval z < 1" unfolding B_def by simp
  then have z0: "uval z = 0" using uval_nonneg [of z] by linarith
  then have us: "uval us + 1 \<le> uval v" using Suc.prems(3) by (simp add: dS uval_append)
  then have "2 ^ 64 * (uval us + 1) \<le> 2 ^ 64 * uval v" by (intro mult_left_mono) simp_all
  then have "uval w < 2 ^ 64 * uval v" using uint_64(2) [of u] by (simp add: u(1))
  then obtain q w' where q: "div_digit v w = Inr (q, w')" "length w' = length w"
    "uint q = uval w div uval v" "uval w' = uval w mod uval v"
    using div_digit_correct [OF assms(1) lw assms(2)] by blast
  define pu1 where "pu1 = take j pu @ w' @ z"
  have l1: "length pu1 = length pu" using Suc.prems(1) lw q(2) by (simp add: pu1_def z_def)
  have jl: "length (take j pu) = j" using Suc.prems(1) by simp
  have V: "0 < uval v" using us uval_nonneg [of us] by linarith
  have "drop j pu1 = w' @ z" using jl by (simp add: pu1_def)
  then have "uval (drop j pu1) < uval v" using q(4) V z0 by (simp add: uval_append)
  moreover have "j + length v \<le> length pu1" "j \<le> length (pq[j := q])" using Suc.prems l1 by simp_all
  ultimately obtain pu' pq' where r: "div_loop v j pu1 (pq[j := q]) = Inr (pu', pq')"
    "length pu' = length pu" "length pq' = length pq" "drop j pq' = drop j (pq[j := q])"
    "uval pu1 = uval v * uval (take j pq') + uval pu'" "uval pu' < uval v"
    using Suc.IH [of pu1 "pq[j := q]"] l1 by auto
  have jq: "j < length pq" using Suc.prems(2) by simp
  then have "drop j pq' = q # drop (Suc j) pq" using r(4) by (simp add: Cons_nth_drop_Suc [symmetric])
  then have pqj: "pq' ! j = q" "drop (Suc j) pq' = drop (Suc j) pq"
    using jq r(3) by (metis nth_via_drop, metis drop_Suc list.sel(3) tl_drop)
  have "uval (take (Suc j) pq') = uval (take j pq') + 2 ^ (64 * j) * uint q"
    using pqj(1) jq r(3) by (simp add: take_Suc_conv_app_nth uval_append)
  moreover have "uval pu = uval pu1 + 2 ^ (64 * j) * (uval v * uint q)"
  proof -
    have "pu = take j pu @ w @ z" using split by (metis append_take_drop_id)
    then have "uval pu = uval (take j pu @ w @ z)" by simp
    then have "uval pu = uval (take j pu) + 2 ^ (64 * j) * uval w"
      using jl z0 by (simp add: uval_append)
    moreover have "uval pu1 = uval (take j pu) + 2 ^ (64 * j) * uval w'"
      using jl z0 by (simp add: pu1_def uval_append)
    moreover have "uval w = uval v * uint q + uval w'" using q(3,4) by simp
    ultimately show ?thesis by (simp add: distrib_left)
  qed
  ultimately have "uval pu = uval v * uval (take (Suc j) pq') + uval pu'" using r(5) by (simp add: algebra_simps)
  moreover have "div_loop v (Suc j) pu pq = Inr (pu', pq')"
    using q(1) r(1) unfolding div_loop.simps w_def [symmetric] z_def [symmetric] pu1_def by simp
  ultimately show ?case using r pqj(2) by blast
qed simp

section \<open>div\<close>

definition BASEWORD_MIN :: u64 where
  "BASEWORD_MIN = push_bit 63 1"

definition div_long :: "bigint \<Rightarrow> bigint \<Rightarrow> (bigint \<times> bigint) res" where
  "div_long nx ny = (let
     offset = nat ((- int (get_Length ny)) AND 63);
     nx = BigInteger_shl nx offset;
     ny = BigInteger_shl ny offset;
     n = bi_count ny - 1;
     m = (get_Length nx + 63) div 64 - n;
     pv = get_Data ny
   in bind_res (ExtendTo nx (m + n + 1)) (\<lambda>pu.
      bind_res (div_loop (take n pv) (m + 1) pu (replicate (m + 2) 0)) (\<lambda>(pu, pq).
        Inr (BigInteger_words pq, BigInteger_shr (BigInteger_words (take (n + 1) (pu[n := 0]))) offset))))"

definition div_positive :: "bigint \<Rightarrow> bigint \<Rightarrow> (bigint \<times> bigint) res" where
  "div_positive nx ny = (
     if get_Length ny \<le> 64 then
       bind_res (ExtendTo nx (bi_count nx + 1)) (\<lambda>px.
       bind_res (ImpShortDiv px (get_Data ny ! 0)) (\<lambda>(pq, rem).
         Inr (BigInteger_words pq, BigInteger_words [rem, 0])))
     else if BigInteger_Compare nx ny < 0 then Inr (BigInteger_int 0, nx)
     else div_long nx ny)"

definition BigInteger_div :: "bigint \<Rightarrow> bigint \<Rightarrow> (bigint \<times> bigint) res" where
  "BigInteger_div x y = (
     if BigInteger_not y then Inl DivideByZero
     else if bi_count x = 1 \<and> bi_count y = 1 \<and> bi_data x \<noteq> BASEWORD_MIN then
       let num = sint (bi_data x); den = sint (bi_data y)
       in Inr (BigInteger_int64 (word_of_int (num sdiv den)), BigInteger_int64 (word_of_int (num smod den)))
     else let
       signX = (BigInteger_Sign x = -1); signY = (BigInteger_Sign y = -1);
       nx = (if signX then BigInteger_neg x else x);
       ny = (if signY then BigInteger_neg y else y)
     in bind_res (div_positive nx ny) (\<lambda>(q, r).
          Inr (if signX \<noteq> signY then BigInteger_neg q else q, if signX then BigInteger_neg r else r)))"

lemma uval_nonneg_sval:
  fixes ws :: "'w::len word list"
  assumes "0 \<le> sval ws"
  shows "uval ws = sval ws"
proof (cases "ws = []")
  case False
  then show ?thesis using assms sval_uval [OF False] sval_negative [OF False] by simp
qed (simp add: sval_def)

lemma int_bits_less: "0 \<le> z \<Longrightarrow> int_bits z \<le> k \<longleftrightarrow> z < 2 ^ k"
  using int_bits_le [of z k] order_trans [of "- (2 ^ k)" 0 z] by (auto simp: fits_def)

lemma int_bits_shift:
  assumes "0 < z"
  shows "int_bits (z * 2 ^ k) = int_bits z + k"
proof (rule antisym)
  have "z < 2 ^ int_bits z" using int_bits_less [of z "int_bits z"] assms by simp
  then have "z * 2 ^ k < 2 ^ (int_bits z + k)" by (simp add: power_add)
  then show "int_bits (z * 2 ^ k) \<le> int_bits z + k" using assms by (simp add: int_bits_less)
  show "int_bits z + k \<le> int_bits (z * 2 ^ k)"
  proof (rule ccontr)
    assume a: "\<not> int_bits z + k \<le> int_bits (z * 2 ^ k)"
    have "0 < int_bits z" using int_bits_less [of z 0] assms by (cases "int_bits z") simp_all
    then have "int_bits (z * 2 ^ k) \<le> (int_bits z - 1) + k" using a by simp
    then have "z * 2 ^ k < 2 ^ (int_bits z - 1) * 2 ^ k" using assms by (simp add: int_bits_less power_add)
    then have "int_bits z \<le> int_bits z - 1" using assms by (simp add: int_bits_less)
    then show False using \<open>0 < int_bits z\<close> by simp
  qed
qed

lemma div_short_correct:
  assumes x: "bi_ok x" "0 \<le> bi_val x" and y: "bi_ok y" "0 < bi_val y" and len: "get_Length y \<le> 64"
  shows "\<exists>q r. div_positive x y = Inr (q, r) \<and> bi_ok q \<and> bi_ok r
    \<and> bi_val q = bi_val x div bi_val y \<and> bi_val r = bi_val x mod bi_val y"
proof -
  define D where "D = get_Data x"
  have D: "D \<noteq> []" "length D = bi_count x" "uval D = bi_val x"
    using x uval_nonneg_sval [of "get_Data x"] bi_ok_length(1) [OF x(1)] by (simp_all add: D_def bi_val_def)
  obtain v ws where yw: "get_Data y = v # ws" using get_Data_ne [OF y(1)] by (cases "get_Data y") auto
  have uy: "uint v + 2 ^ 64 * uval ws = bi_val y"
    using uval_nonneg_sval [of "get_Data y"] y(2) yw by (simp add: bi_val_def)
  have "bi_val y < 2 ^ 64" using len bi_Length [OF y(1)] int_bits_less [of "bi_val y" 64] y(2) by simp
  then have "2 ^ 64 * uval ws < 2 ^ 64 * 1" using uy uint_64(1) [of v] by linarith
  then have "uval ws < 1" by simp
  then have "uval ws = 0" using uval_nonneg [of ws] by linarith
  then have v: "uint v = bi_val y" using uy by simp
  then have v0: "0 < v" using y(2) unfolding word_less_def by simp
  obtain ws' where e: "ExtendTo x (bi_count x + 1) = Inr ws'" "length ws' = bi_count x + 1"
    and "\<exists>k. ws' = get_Data x @ replicate k (sign_word (get_Data x))"
    by (rule ExtendTo_correct [OF x(1), of "bi_count x + 1"]) simp
  then obtain k where "ws' = D @ replicate k (sign_word D)" by (auto simp: D_def)
  moreover have "sign_word D = 0" using sval_negative [OF D(1)] x(2) by (simp add: sign_word_def D_def bi_val_def)
  ultimately have w: "ws' = D @ [0]" using e(2) D(2) by simp
  obtain qs r where r: "ImpShortDiv (D @ [0]) v = Inr (qs, r)" "r < v" "length qs = length D"
    "uval D + 2 ^ (64 * length D) * uint (0 :: u64) = uint v * uval qs + uint r"
    using ImpShortDiv_uval [OF v0, of D] by blast
  have rv: "uint r < uint v" using r(2) unfolding word_less_def .
  have eq: "bi_val x = uint v * uval qs + uint r" using r(4) D(3) by simp
  have q: "uval qs = bi_val x div bi_val y" "uint r = bi_val x mod bi_val y"
    using rv y(2) unfolding eq v by (simp_all add: div_pos_pos_trivial)
  have "uval qs * 1 \<le> uval qs * uint v" using y(2) v by (intro mult_left_mono) simp_all
  then have "uval qs \<le> uint v * uval qs + uint r"
    using uint_64(1) [of r] unfolding mult.commute [of "uint v"] by linarith
  then have "uval qs \<le> bi_val x" using eq by simp
  moreover have "bi_val x < 2 ^ (64 * bi_count x - 1)" using bi_val_fits [OF x(1)] by (simp add: fits_def)
  ultimately have "fits (64 * length qs) (uval qs)"
    using uval_nonneg [of qs] D(2) r(3) order_trans [of "- (2 ^ (64 * bi_count x - 1))" 0 "uval qs"] by (simp add: fits_def)
  moreover have "uval qs mod 2 ^ (64 * length qs) = uval qs" using uval_less [of qs] by simp
  moreover have qn: "qs \<noteq> []" using r(3) D(1) by auto
  ultimately have sq: "sval qs = uval qs" by (intro sval_unique) simp_all
  have sr: "sval [r, 0] = uint r" by (simp add: sval_Cons)
  have "div_positive x y = Inr (BigInteger_words qs, BigInteger_words [r, 0])"
    using len e(1) w r(1) yw by (simp add: div_positive_def)
  then show ?thesis
    using BigInteger_words_correct [OF qn] BigInteger_words_correct [of "[r, 0]"] sq sr q by simp
qed

lemma div_long_correct:
  assumes x: "bi_ok x" and y: "bi_ok y" "0 < bi_val y" and le: "bi_val y \<le> bi_val x"
    and len: "64 < get_Length y"
  shows "\<exists>q r. div_long x y = Inr (q, r) \<and> bi_ok q \<and> bi_ok r
    \<and> bi_val q = bi_val x div bi_val y \<and> bi_val r = bi_val x mod bi_val y"
proof -
  define len where "len = int_bits (bi_val y)"
  define off where "off = nat ((- int len) AND 63)"
  define nx ny where "nx = BigInteger_shl x off" and "ny = BigInteger_shl y off"
  define X Y where "X = bi_val x * 2 ^ off" and "Y = bi_val y * 2 ^ off"
  have nx: "bi_ok nx" "bi_val nx = X" and ny: "bi_ok ny" "bi_val ny = Y"
    using bi_shl x y(1) by (simp_all add: nx_def ny_def X_def Y_def)
  have Y: "0 < Y" and YX: "Y \<le> X" using y(2) le by (simp_all add: X_def Y_def)
  have "(- int len) AND 63 = (- int len) mod 64" using take_bit_eq_mask [of 6 "- int len"]
    by (simp add: take_bit_eq_mod mask_eq_exp_minus_1)
  then have off: "int off = (- int len) mod 64" by (simp add: off_def)
  define n where "n = (len + off) div 64"
  have "int (len + off) mod 64 = 0" using off by (simp add: mod_add_right_eq)
  then have "(len + off) mod 64 = 0" by (metis of_nat_0_eq_iff of_nat_mod of_nat_numeral)
  then have lo: "len + off = 64 * n" by (auto simp: n_def)
  have l64: "64 < len" using len bi_Length [OF y(1)] by (simp add: len_def)
  then have n2: "2 \<le> n" using lo by linarith
  have bY: "int_bits Y = 64 * n" using int_bits_shift [OF y(2), of off] lo by (simp add: Y_def len_def)
  have cy: "bi_count ny = n + 1"
    using int_bits_count [OF ny(1)] bi_ok_length(2) [OF ny(1)] bY ny(2) by simp
  define V where "V = take n (get_Data ny)"
  have Yb: "Y < 2 ^ (64 * n)" "\<not> Y < 2 ^ (64 * n - 1)"
    using int_bits_less [of Y "64 * n"] int_bits_less [of Y "64 * n - 1"] bY Y n2 by (simp, linarith)
  have ly: "length (get_Data ny) = n + 1" using bi_ok_length(1) [OF ny(1)] cy by simp
  have V: "uval V = Y" "length V = n"
    using uval_take_mod [of n "get_Data ny"] ly Yb(1) Y ny by (simp_all add: V_def bi_val_def)
  have lastV: "0 < uint (last V)"
  proof (rule ccontr)
    assume "\<not> 0 < uint (last V)"
    then have z: "uint (last V) = 0" using uint_64(1) [of "last V"] by linarith
    have "V \<noteq> []" using V(2) n2 by auto
    then have Vl: "V = butlast V @ [last V]" by simp
    have "uval V = uval (butlast V)" by (subst Vl) (simp only: uval_append uval_simps z mult_zero_right add_0_right)
    then have "Y < 2 ^ (64 * (n - 1))" using uval_less [of "butlast V"] V by simp
    also have "(2 :: int) ^ (64 * (n - 1)) \<le> 2 ^ (64 * n - 1)" by (intro power_increasing) simp_all
    finally show False using Yb(2) by simp
  qed
  define m where "m = (get_Length nx + 63) div 64 - n"
  have Lx: "get_Length nx = int_bits X" using bi_Length [OF nx(1)] nx(2) by simp
  have bxy: "64 * n \<le> int_bits X"
  proof (rule ccontr)
    assume "\<not> 64 * n \<le> int_bits X"
    then have "int_bits X \<le> 64 * n - 1" by linarith
    then have "X < 2 ^ (64 * n - 1)" using int_bits_less [of X "64 * n - 1"] YX Y by simp
    then show False using YX Yb(2) by simp
  qed
  then have mn: "(get_Length nx + 63) div 64 = m + n" unfolding m_def Lx by linarith
  have Xb: "X < 2 ^ (64 * (m + n))"
  proof -
    have "(int_bits X + 63) div 64 < m + n + 1" using mn by (simp add: Lx)
    then have "int_bits X \<le> 64 * (m + n)" by (simp add: div_less_iff_less_mult)
    then show ?thesis using int_bits_less [of X "64 * (m + n)"] YX Y by simp
  qed
  have "int_bits X div 64 = bi_count nx - 1" using int_bits_count [OF nx(1)] nx(2) by simp
  moreover have "int_bits X div 64 \<le> (int_bits X + 63) div 64" by (intro div_le_mono) simp
  ultimately have "bi_count nx \<le> m + n + 1" using mn unfolding Lx by simp
  then obtain pu where pu: "ExtendTo nx (m + n + 1) = Inr pu" "length pu = m + n + 1" "sval pu = X"
    by (rule ExtendTo_correct [OF nx(1)]) (simp add: nx(2))
  have uX: "uval pu = X" using uval_nonneg_sval [of pu] pu(3) YX Y by simp
  have high: "uval (drop (m + 1) pu) < uval V"
  proof -
    have "uval pu = uval (take (m + 1) pu) + 2 ^ (64 * (m + 1)) * uval (drop (m + 1) pu)"
      using uval_append [of "take (m + 1) pu" "drop (m + 1) pu"] pu(2) n2 by simp
    then have "2 ^ (64 * (m + 1)) * uval (drop (m + 1) pu) \<le> X"
      using uX uval_nonneg [of "take (m + 1) pu"] by linarith
    also have "X < 2 ^ (64 * (m + 1)) * 2 ^ (64 * (n - 1))"
      using Xb n2 by (simp flip: power_add add: algebra_simps)
    finally have "uval (drop (m + 1) pu) < 2 ^ (64 * (n - 1))" by simp
    also have "(2 :: int) ^ (64 * (n - 1)) \<le> 2 ^ (64 * n - 1)" by (intro power_increasing) simp_all
    finally show ?thesis using Yb(2) V(1) by simp
  qed
  obtain pu' pq where loop: "div_loop V (m + 1) pu (replicate (m + 2) 0) = Inr (pu', pq)"
    "length pu' = length pu" "length pq = m + 2" "drop (m + 1) pq = [0]"
    "uval pu = uval V * uval (take (m + 1) pq) + uval pu'" "uval pu' < uval V"
  proof -
    define pq0 :: "u64 list" where "pq0 = replicate (m + 2) 0"
    have d: "drop (m + 1) pq0 = [0]" "length pq0 = m + 2"
      unfolding pq0_def drop_replicate by simp_all
    have "2 \<le> length V" "m + 1 + length V \<le> length pu" "m + 1 \<le> length pq0"
      using n2 V(2) pu(2) d(2) by simp_all
    from div_loop_correct [OF this(1) lastV this(2,3) high]
    show thesis using that unfolding pq0_def [symmetric] d by blast
  qed
  have q: "uval (take (m + 1) pq) = X div Y" "uval pu' = X mod Y"
    using int_div_pos_eq [of X Y _ "uval pu'"] int_mod_pos_eq [of X Y _ "uval pu'"]
      loop(5,6) uX V(1) by simp_all
  have "pq = take (m + 1) pq @ [0]" using loop(4) by (metis append_take_drop_id)
  then have sq: "sval pq = X div Y" using q(1) sval_snoc [of "take (m + 1) pq" 0] by simp
  define ps where "ps = take (n + 1) (pu'[n := 0])"
  have lp: "length pu' = m + n + 1" using loop(2) pu(2) by simp
  have "ps = take n pu' @ [0]" using lp by (simp add: ps_def take_Suc_conv_app_nth)
  moreover have "uval (take n pu') = uval pu'"
  proof -
    have e: "uval pu' = uval (take n pu') + 2 ^ (64 * n) * uval (drop n pu')"
      using uval_append [of "take n pu'" "drop n pu'"] lp by simp
    have "uval pu' < 2 ^ (64 * n)" using loop(6) V(1) Yb(1) by simp
    with e have "2 ^ (64 * n) * uval (drop n pu') < 2 ^ (64 * n) * 1"
      using uval_nonneg [of "take n pu'"] by linarith
    then have "uval (drop n pu') < 1" by simp
    then have "uval (drop n pu') = 0" using uval_nonneg [of "drop n pu'"] by linarith
    then show ?thesis using e by simp
  qed
  ultimately have sr: "sval ps = X mod Y" "ps \<noteq> []" using q(2) by (simp_all add: sval_snoc)
  have "div_long x y = Inr (BigInteger_words pq, BigInteger_shr (BigInteger_words ps) off)"
  proof -
    have n': "bi_count ny - 1 = n" using cy by simp
    show ?thesis
      unfolding div_long_def Let_def bi_Length [OF y(1), folded len_def] off_def [symmetric]
        nx_def [symmetric] ny_def [symmetric] n' m_def [symmetric] V_def [symmetric]
      by (simp only: pu(1) loop(1) bind_res_simps prod.case ps_def)
  qed
  moreover have "X mod Y div 2 ^ off = bi_val x mod bi_val y"
    by (simp add: X_def Y_def mult_mod_left [symmetric])
  moreover have "X div Y = bi_val x div bi_val y" by (simp add: X_def Y_def)
  moreover have "pq \<noteq> []" using loop(3) by auto
  ultimately show ?thesis
    using BigInteger_words_correct [of pq] BigInteger_words_correct [OF sr(2)] bi_shr [of "BigInteger_words ps" off] sq sr(1)
    by simp
qed

lemma div_positive_correct:
  assumes "bi_ok x" "0 \<le> bi_val x" "bi_ok y" "0 < bi_val y"
  shows "\<exists>q r. div_positive x y = Inr (q, r) \<and> bi_ok q \<and> bi_ok r
    \<and> bi_val q = bi_val x div bi_val y \<and> bi_val r = bi_val x mod bi_val y"
proof (cases "get_Length y \<le> 64")
  case True
  then show ?thesis by (intro div_short_correct assms)
next
  case False
  show ?thesis
  proof (cases "bi_val x < bi_val y")
    case True
    then show ?thesis
      using False assms bi_Compare(1) [OF assms(1,3)]
      by (simp add: div_positive_def BigInteger_int_def div_pos_pos_trivial)
  next
    case le: False
    then show ?thesis
      using False div_long_correct [OF assms(1,3,4)] bi_Compare(1) [OF assms(1,3)]
      by (simp add: div_positive_def)
  qed
qed

lemma sint_word_of_int_64: "- (2 ^ 63) \<le> x \<Longrightarrow> x < 2 ^ 63 \<Longrightarrow> sint (word_of_int x :: u64) = x"
  using mod_pos_pos_trivial [of "x + 2 ^ 63" "2 ^ 64"] by (simp add: int_word_sint)

lemma bi_div:
  assumes x: "bi_ok x" and y: "bi_ok y" "bi_val y \<noteq> 0"
  shows "\<exists>q r. BigInteger_div x y = Inr (q, r) \<and> bi_ok q \<and> bi_ok r
    \<and> bi_val q = bi_val x sdiv bi_val y \<and> bi_val r = bi_val x smod bi_val y"
proof -
  have nz: "\<not> BigInteger_not y" using bi_not [OF y(1)] y(2) by simp
  show ?thesis
  proof (cases "bi_count x = 1 \<and> bi_count y = 1 \<and> bi_data x \<noteq> BASEWORD_MIN")
    case True
    define a b where "a = sint (bi_data x)" and "b = sint (bi_data y)"
    have v: "bi_val x = a" "bi_val y = b" using True by (simp_all add: bi_val_def get_Data_def a_def b_def)
    have "a \<noteq> - (2 ^ 63)"
    proof
      assume "a = - (2 ^ 63)"
      then have "sint (bi_data x) = sint BASEWORD_MIN" by (simp add: a_def BASEWORD_MIN_def)
      then show False using True signed_word_eqI by blast
    qed
    then have a: "\<bar>a\<bar> < 2 ^ 63" using uint_64(3,4) [of "bi_data x"] unfolding a_def by linarith
    have b: "b \<noteq> 0" using y(2) v by simp
    have "1 \<le> \<bar>b\<bar>" using b by simp
    then have "(\<bar>a\<bar> + 1) * 1 \<le> (\<bar>a\<bar> + 1) * \<bar>b\<bar>" by (intro mult_left_mono) simp_all
    then have "\<bar>a\<bar> < (\<bar>a\<bar> + 1) * \<bar>b\<bar>" by (rule order_less_le_trans [rotated]) simp
    then have "\<bar>a\<bar> div \<bar>b\<bar> \<le> \<bar>a\<bar>" "0 \<le> \<bar>a\<bar> div \<bar>b\<bar>"
      using b int_div_less [of "\<bar>b\<bar>" "\<bar>a\<bar>" "\<bar>a\<bar> + 1"] by (simp_all add: pos_imp_zdiv_nonneg_iff)
    then have q: "\<bar>a sdiv b\<bar> \<le> \<bar>a\<bar>" "\<bar>a smod b\<bar> \<le> \<bar>a\<bar>"
      using zmod_le_nonneg_dividend [of "\<bar>a\<bar>" "\<bar>b\<bar>"] b
      by (auto simp: signed_divide_int_def signed_modulo_int_def abs_mult sgn_if)
    have "sint (word_of_int (a sdiv b) :: u64) = a sdiv b" "sint (word_of_int (a smod b) :: u64) = a smod b"
      using q a by (intro sint_word_of_int_64; linarith)+
    then show ?thesis using nz True
      by (simp add: BigInteger_div_def v a_def [symmetric] b_def [symmetric] BigInteger_int64_def)
  next
    case False
    define nx where "nx = (if BigInteger_Sign x = -1 then BigInteger_neg x else x)"
    define ny where "ny = (if BigInteger_Sign y = -1 then BigInteger_neg y else y)"
    have nx: "bi_ok nx" "bi_val nx = \<bar>bi_val x\<bar>"
      using x by (auto simp: nx_def bi_Sign_neg bi_neg)
    have ny: "bi_ok ny" "bi_val ny = \<bar>bi_val y\<bar>"
      using y(1) by (auto simp: ny_def bi_Sign_neg bi_neg)
    obtain q r where qr: "div_positive nx ny = Inr (q, r)" "bi_ok q" "bi_ok r"
      "bi_val q = \<bar>bi_val x\<bar> div \<bar>bi_val y\<bar>" "bi_val r = \<bar>bi_val x\<bar> mod \<bar>bi_val y\<bar>"
      using div_positive_correct [OF nx(1) _ ny(1)] nx(2) ny(2) y(2) by auto
    define q' where "q' = (if (BigInteger_Sign x = -1) \<noteq> (BigInteger_Sign y = -1) then BigInteger_neg q else q)"
    define r' where "r' = (if BigInteger_Sign x = -1 then BigInteger_neg r else r)"
    have d: "BigInteger_div x y = Inr (q', r')"
      unfolding BigInteger_div_def if_not_P [OF nz] if_not_P [OF False] Let_def nx_def [symmetric] ny_def [symmetric]
      by (simp add: qr(1) q'_def r'_def)
    have "bi_ok q'" "bi_ok r'" using qr bi_neg by (simp_all add: q'_def r'_def)
    moreover have "bi_val r' = bi_val x smod bi_val y"
      using qr(3,5) x by (auto simp: r'_def bi_Sign_neg bi_neg signed_modulo_int_def sgn_if)
    moreover have "bi_val q' = bi_val x sdiv bi_val y"
      using qr(2,4) x y by (auto simp: q'_def bi_Sign_neg bi_neg signed_divide_int_def sgn_if)
    ultimately show ?thesis using d by blast
  qed
qed

end
