(* ===== verification/BigAlgo.thy ===== *)
theory BigAlgo
  imports BigDiv StringOps
begin

text \<open>
  The functions of \<open>src/libext/bignum.cpp\<close> that only use the operators of \<open>BigInteger\<close> and are
  therefore the same for each of the representations that \<open>UCFG_BIGNUM\<close> selects: printing and
  reading in any base, the square root by Newton's method, powers.  The operators are the fields of
  a record; the locale \<open>bignum\<close> states what they promise, and the representation of \<open>BigInt\<close> and
  \<open>BigDiv\<close> is shown to keep it.
\<close>

section \<open>The operators\<close>

record 'z bignum_ops =
  bn_int :: "int \<Rightarrow> 'z"
  bn_Add :: "'z \<Rightarrow> 'z \<Rightarrow> 'z res"
  bn_Sub :: "'z \<Rightarrow> 'z \<Rightarrow> 'z res"
  bn_Mul :: "'z \<Rightarrow> 'z \<Rightarrow> 'z"
  bn_neg :: "'z \<Rightarrow> 'z"
  bn_div :: "'z \<Rightarrow> 'z \<Rightarrow> ('z \<times> 'z) res"
  bn_Sign :: "'z \<Rightarrow> int"
  bn_Compare :: "'z \<Rightarrow> 'z \<Rightarrow> int"
  bn_shl :: "'z \<Rightarrow> nat \<Rightarrow> 'z"
  bn_shr :: "'z \<Rightarrow> nat \<Rightarrow> 'z"
  bn_Length :: "'z \<Rightarrow> nat"
  bn_AsInt64 :: "'z \<Rightarrow> int option"

text \<open>\<open>BigInteger (int)\<close> takes a 32-bit number.\<close>

definition is_int :: "int \<Rightarrow> bool" where
  "is_int i \<longleftrightarrow> - (2 ^ 31) \<le> i \<and> i < 2 ^ 31"

definition explicit_int :: "'z bignum_ops \<Rightarrow> 'z \<Rightarrow> int res" where
  "explicit_int N v = (case bn_AsInt64 N v of None \<Rightarrow> Inl E_FAIL
     | Some r \<Rightarrow> if is_int r then Inr r else Inl E_FAIL)"

definition bn_abs :: "'z bignum_ops \<Rightarrow> 'z \<Rightarrow> 'z" where
  "bn_abs N bi = (if bn_Sign N bi < 0 then bn_neg N bi else bi)"

section \<open>Text\<close>

definition radix_digit :: "wchar \<Rightarrow> int res" where
  "radix_digit ch = (if 48 \<le> ch \<and> ch \<le> 57 then Inr (int ch - 48)
     else if 65 \<le> ch \<and> ch \<le> 90 then Inr (int ch - 65 + 10)
     else if 97 \<le> ch \<and> ch \<le> 122 then Inr (int ch - 97 + 10)
     else Inl E_FAIL)"

fun parse_loop :: "'z bignum_ops \<Rightarrow> int \<Rightarrow> 'z \<Rightarrow> wchar list \<Rightarrow> 'z res" where
  "parse_loop N bas v [] = Inr v"
| "parse_loop N bas v (ch # s) = bind_res (radix_digit ch) (\<lambda>n.
     if n \<ge> bas then Inl E_FAIL
     else bind_res (bn_Add N (bn_Mul N v (bn_int N bas)) (bn_int N n)) (\<lambda>v. parse_loop N bas v s))"

definition BigInteger_parse :: "'z bignum_ops \<Rightarrow> wchar list \<Rightarrow> int \<Rightarrow> 'z res" where
  "BigInteger_parse N s bas = (case s of [] \<Rightarrow> Inl E_FAIL
     | c # t \<Rightarrow> if c = 45
         then if t = [] then Inl E_FAIL
              else bind_res (parse_loop N bas (bn_int N 0) t) (\<lambda>v. Inr (bn_neg N v))
         else parse_loop N bas (bn_int N 0) s)"

definition s_radixChars :: "wchar list" where
  "s_radixChars = [48..<58] @ [65..<91]"

text \<open>
  The digits are written from the end of a buffer of \<open>Length + 2\<close> characters; a digit in front of
  it would be a write outside.
\<close>

fun ToString_loop :: "'z bignum_ops \<Rightarrow> int \<Rightarrow> nat \<Rightarrow> 'z \<Rightarrow> wchar list \<Rightarrow> (nat \<times> wchar list) res" where
  "ToString_loop N bas 0 v q = Inl OutOfBounds"
| "ToString_loop N bas (Suc room) v q = bind_res (bn_div N v (bn_int N bas)) (\<lambda>(v, rem).
     bind_res (explicit_int N rem) (\<lambda>d.
       let q = s_radixChars ! nat d # q in
       if bn_Sign N v \<noteq> 0 then ToString_loop N bas room v q else Inr (room, q)))"

definition BigInteger_ToString :: "'z bignum_ops \<Rightarrow> 'z \<Rightarrow> int \<Rightarrow> wchar list res" where
  "BigInteger_ToString N self bas = (if bas < 2 \<or> bas > 36 then Inl InvalidArgument else
     let sz = bn_Length N self + 2;
         bMinusP = (bn_Sign N self < 0);
         v = (if bMinusP then bn_neg N self else self)
     in bind_res (ToString_loop N bas sz v []) (\<lambda>(room, q).
       if bMinusP then if room = 0 then Inl OutOfBounds else Inr (45 # q) else Inr q))"

section \<open>Square root and power\<close>

text \<open>The loop has no bound in the code; \<open>None\<close> is a run that does not end.\<close>

partial_function (option) sqrt_loop :: "'z bignum_ops \<Rightarrow> 'z \<Rightarrow> 'z \<Rightarrow> 'z res option" where
  "sqrt_loop N bi x = (case bn_div N bi x of Inl e \<Rightarrow> Some (Inl e)
     | Inr (d, _) \<Rightarrow> (case bn_Sub N x d of Inl e \<Rightarrow> Some (Inl e)
     | Inr xd \<Rightarrow> let bRet = (bn_Compare N (bn_abs N xd) (bn_int N 2) < 0) in
         (case bn_Add N x d of Inl e \<Rightarrow> Some (Inl e)
         | Inr s \<Rightarrow> let x = bn_shr N s 1 in
             if bRet then Some (Inr x) else sqrt_loop N bi x)))"

definition BigInteger_sqrt :: "'z bignum_ops \<Rightarrow> 'z \<Rightarrow> 'z res option" where
  "BigInteger_sqrt N bi = (if bn_Sign N bi < 0 then Some (Inl InvalidArgument)
     else sqrt_loop N bi (bn_shl N (bn_int N 1) (bn_Length N bi div 2)))"

fun pow_loop :: "'z bignum_ops \<Rightarrow> 'z \<Rightarrow> nat \<Rightarrow> 'z \<Rightarrow> 'z" where
  "pow_loop N x 0 r = r"
| "pow_loop N x (Suc n) r = pow_loop N x n (bn_Mul N r x)"

definition BigInteger_pow :: "'z bignum_ops \<Rightarrow> 'z \<Rightarrow> int \<Rightarrow> 'z res" where
  "BigInteger_pow N x n = (if n < 0 then Inl InvalidArgument
     else if n = 0 then Inr (bn_int N 1)
     else Inr (pow_loop N x (nat n - 1) x))"

section \<open>What the operators promise\<close>

text \<open>\<open>ok\<close> are the objects that stand for a number, \<open>val\<close> the number.\<close>

locale bignum =
  fixes N :: "'z bignum_ops" and ok :: "'z \<Rightarrow> bool" and val :: "'z \<Rightarrow> int"
  assumes int: "is_int i \<Longrightarrow> ok (bn_int N i) \<and> val (bn_int N i) = i"
    and Add: "ok x \<Longrightarrow> ok y \<Longrightarrow> \<exists>r. bn_Add N x y = Inr r \<and> ok r \<and> val r = val x + val y"
    and Sub: "ok x \<Longrightarrow> ok y \<Longrightarrow> \<exists>r. bn_Sub N x y = Inr r \<and> ok r \<and> val r = val x - val y"
    and Mul: "ok x \<Longrightarrow> ok y \<Longrightarrow> ok (bn_Mul N x y) \<and> val (bn_Mul N x y) = val x * val y"
    and neg: "ok x \<Longrightarrow> ok (bn_neg N x) \<and> val (bn_neg N x) = - val x"
    and div: "ok x \<Longrightarrow> ok y \<Longrightarrow> val y \<noteq> 0 \<Longrightarrow> \<exists>q r. bn_div N x y = Inr (q, r) \<and> ok q \<and> ok r
        \<and> val q = val x sdiv val y \<and> val r = val x smod val y"
    and Sign: "ok x \<Longrightarrow> bn_Sign N x = sgn (val x)"
    and Compare: "ok x \<Longrightarrow> ok y \<Longrightarrow> bn_Compare N x y < 0 \<longleftrightarrow> val x < val y"
    and shl: "ok x \<Longrightarrow> ok (bn_shl N x n) \<and> val (bn_shl N x n) = val x * 2 ^ n"
    and shr: "ok x \<Longrightarrow> ok (bn_shr N x n) \<and> val (bn_shr N x n) = val x div 2 ^ n"
    and Length: "ok x \<Longrightarrow> - (2 ^ bn_Length N x) \<le> val x \<and> val x < 2 ^ bn_Length N x"
    and AsInt64: "ok x \<Longrightarrow> - (2 ^ 63) \<le> val x \<Longrightarrow> val x < 2 ^ 63 \<Longrightarrow> bn_AsInt64 N x = Some (val x)"
begin

lemma div_nonneg:
  assumes "ok x" and "ok y" and "0 \<le> val x" and "0 < val y"
  shows "\<exists>q r. bn_div N x y = Inr (q, r) \<and> ok q \<and> ok r \<and> val q = val x div val y \<and> val r = val x mod val y"
proof -
  have "val x sdiv val y = val x div val y" "val x smod val y = val x mod val y"
    using assms(3,4) by (simp_all add: signed_divide_int_def signed_modulo_int_def sgn_if)
  then show ?thesis using div [of x y] assms by simp
qed

lemma pow_loop: "ok x \<Longrightarrow> ok r \<Longrightarrow> ok (pow_loop N x n r) \<and> val (pow_loop N x n r) = val r * val x ^ n"
  by (induction n arbitrary: r) (simp_all add: Mul algebra_simps)

lemma pow:
  assumes "ok x"
  shows "BigInteger_pow N x n = Inl InvalidArgument \<and> n < 0
    \<or> 0 \<le> n \<and> (\<exists>r. BigInteger_pow N x n = Inr r \<and> ok r \<and> val r = val x ^ nat n)"
proof -
  have one: "ok (bn_int N 1) \<and> val (bn_int N 1) = 1" by (rule int) (simp add: is_int_def)
  show ?thesis
  proof (cases "0 < n")
    case True
    then obtain k where k: "nat n = Suc k" by (cases "nat n") simp_all
    then show ?thesis using pow_loop [OF assms assms, of k] True by (simp add: BigInteger_pow_def)
  next
    case False
    then show ?thesis using one by (auto simp: BigInteger_pow_def)
  qed
qed

text \<open>Printing, against the digits of a number in the usual definition.\<close>

end

function radix_string :: "int \<Rightarrow> int \<Rightarrow> wchar list" where
  "radix_string bas z = (if z < bas \<or> bas < 2 then [s_radixChars ! nat z]
     else radix_string bas (z div bas) @ [s_radixChars ! nat (z mod bas)])"
  by pat_completeness auto
termination
proof (relation "measure (\<lambda>(bas, z). nat z)")
  fix bas z :: int
  assume "\<not> (z < bas \<or> bas < 2)"
  then have b: "2 \<le> bas" "bas \<le> z" by simp_all
  then have "z div bas < z" by (intro int_div_less_self) simp_all
  then show "((bas, z div bas), (bas, z)) \<in> measure (\<lambda>(bas, z). nat z)" using b by simp
qed simp

declare radix_string.simps [simp del]

lemma radix_nth: "d < 36 \<Longrightarrow> s_radixChars ! d = (if d < 10 then 48 + d else 55 + d)"
  by (simp add: s_radixChars_def nth_append del: upt_rec_numeral)

lemma radix_digit: "0 \<le> d \<Longrightarrow> d < 36 \<Longrightarrow> radix_digit (s_radixChars ! nat d) = Inr d"
  using radix_nth [of "nat d"] by (auto simp: radix_digit_def nat_less_iff)

lemma radix_not_minus: "0 \<le> d \<Longrightarrow> d < 36 \<Longrightarrow> s_radixChars ! nat d \<noteq> 45"
  using radix_nth [of "nat d"] by (auto simp: nat_less_iff)

lemma radix_string_hd:
  "0 \<le> z \<Longrightarrow> 2 \<le> bas \<Longrightarrow> bas \<le> 36 \<Longrightarrow> radix_string bas z \<noteq> [] \<and> hd (radix_string bas z) \<noteq> 45"
proof (induction bas z rule: radix_string.induct)
  case (1 bas z)
  show ?case
  proof (cases "z < bas")
    case True
    then show ?thesis using 1 radix_not_minus [of z] by (simp add: radix_string.simps [of bas z])
  next
    case False
    then have "0 \<le> z div bas" using 1(2,3) by (simp add: pos_imp_zdiv_nonneg_iff)
    then show ?thesis using 1 False by (simp add: radix_string.simps [of bas z])
  qed
qed

context bignum
begin

lemma explicit_int: "ok x \<Longrightarrow> is_int (val x) \<Longrightarrow> explicit_int N x = Inr (val x)"
  using AsInt64 [of x] by (simp add: explicit_int_def is_int_def)

lemma ToString_loop_digits:
  assumes "2 \<le> bas" and "bas \<le> 36"
  shows "ok v \<Longrightarrow> 0 \<le> val v \<Longrightarrow> val v < 2 ^ k \<Longrightarrow> 0 < k \<Longrightarrow> k \<le> room \<Longrightarrow>
    ToString_loop N bas room v q
      = Inr (room - length (radix_string bas (val v)), radix_string bas (val v) @ q)
    \<and> length (radix_string bas (val v)) \<le> k"
proof (induction k arbitrary: room v q)
  case (Suc k)
  obtain rm where rm: "room = Suc rm" using Suc.prems(5) by (cases room) simp_all
  have b: "ok (bn_int N bas)" "val (bn_int N bas) = bas" using int [of bas] assms by (simp_all add: is_int_def)
  obtain u r where ur: "bn_div N v (bn_int N bas) = Inr (u, r)" "ok u" "ok r"
    "val u = val v div bas" "val r = val v mod bas"
    using div_nonneg [OF Suc.prems(1) b(1) Suc.prems(2)] b(2) assms(1) by auto
  have rb: "0 \<le> val r" "val r < bas" using ur(5) assms(1) by simp_all
  then have d: "explicit_int N r = Inr (val r)" using assms(2) ur(3) by (intro explicit_int) (simp_all add: is_int_def)
  have u0: "0 \<le> val u" using ur(4) Suc.prems(2) assms(1) by (simp add: pos_imp_zdiv_nonneg_iff)
  show ?case
  proof (cases "val v < bas")
    case True
    then have "val u = 0" "val r = val v" using ur(4,5) Suc.prems(2) by simp_all
    then show ?thesis
      using True ur d Sign [OF ur(2)] by (simp add: rm radix_string.simps [of bas "val v"] Let_def)
  next
    case False
    have "val u \<noteq> 0" using ur(4) False Suc.prems(2) assms(1) int_div_less [of bas "val v" 1] by simp
    then have "1 \<le> val u" using u0 by simp
    have "val v < 2 ^ k * 2" using Suc.prems(3) by simp
    also have "\<dots> \<le> 2 ^ k * bas" using assms(1) by (intro mult_left_mono) simp_all
    finally have uk: "val u < 2 ^ k" using ur(4) assms(1) by (simp add: int_div_less)
    then have "0 < k" using \<open>1 \<le> val u\<close> by (cases k) simp_all
    then have IH: "ToString_loop N bas rm u (s_radixChars ! nat (val r) # q)
        = Inr (rm - length (radix_string bas (val u)), radix_string bas (val u) @ s_radixChars ! nat (val r) # q)"
      "length (radix_string bas (val u)) \<le> k"
      using Suc.IH [of u rm "s_radixChars ! nat (val r) # q"] ur(2) u0 uk Suc.prems(5) rm by auto
    have "radix_string bas (val v) = radix_string bas (val u) @ [s_radixChars ! nat (val r)]"
      using False assms(1) ur(4,5) by (simp add: radix_string.simps [of bas "val v"])
    then show ?thesis
      using IH ur(1,2) d Sign [of u] \<open>1 \<le> val u\<close> rm Suc.prems(5) by (auto simp: Let_def)
  qed
qed simp

text \<open>The buffer is large enough, also for the sign.\<close>

lemma ToString:
  assumes "ok x" and "2 \<le> bas" and "bas \<le> 36"
  shows "BigInteger_ToString N x bas
    = Inr (if val x < 0 then 45 # radix_string bas (- val x) else radix_string bas (val x))"
proof -
  define L where "L = bn_Length N x"
  have L: "- (2 ^ L) \<le> val x" "val x < 2 ^ L" using Length [OF assms(1)] by (simp_all add: L_def)
  show ?thesis
  proof (cases "val x < 0")
    case True
    have n: "ok (bn_neg N x)" "val (bn_neg N x) = - val x" using neg [OF assms(1)] by simp_all
    have "(2 :: int) ^ L < 2 ^ (L + 1)" by simp
    then have "- val x < 2 ^ (L + 1)" using L(1) by linarith
    then have "ToString_loop N bas (L + 2) (bn_neg N x) []
          = Inr (L + 2 - length (radix_string bas (- val x)), radix_string bas (- val x))"
        "length (radix_string bas (- val x)) \<le> L + 1"
      using ToString_loop_digits [OF assms(2,3) n(1), of "L + 1" "L + 2" "[]"] n(2) True by simp_all
    then show ?thesis using True assms Sign [OF assms(1)]
      by (simp add: BigInteger_ToString_def Let_def L_def [symmetric])
  next
    case False
    have "val x < 2 ^ (L + 1)" using L False by simp
    then have "ToString_loop N bas (L + 2) x []
          = Inr (L + 2 - length (radix_string bas (val x)), radix_string bas (val x))"
      using ToString_loop_digits [OF assms(2,3,1), of "L + 1" "L + 2" "[]"] False by simp
    then show ?thesis using False assms Sign [OF assms(1)]
      by (auto simp: BigInteger_ToString_def Let_def L_def [symmetric] sgn_if)
  qed
qed

lemma parse_loop_append:
  "parse_loop N bas v (s @ t) = bind_res (parse_loop N bas v s) (\<lambda>v. parse_loop N bas v t)"
proof (induction s arbitrary: v)
  case (Cons c s)
  then show ?case by (cases "radix_digit c"; cases "bn_Add N (bn_Mul N v (bn_int N bas)) (bn_int N (projr (radix_digit c)))") simp_all
qed simp

lemma parse_digit:
  assumes "ok v" and "0 \<le> d" and "d < bas" and "bas \<le> 36"
  shows "\<exists>r. parse_loop N bas v [s_radixChars ! nat d] = Inr r \<and> ok r \<and> val r = val v * bas + d"
proof -
  have i: "ok (bn_int N bas) \<and> val (bn_int N bas) = bas" "ok (bn_int N d) \<and> val (bn_int N d) = d"
    using assms by (auto intro!: int simp: is_int_def)
  obtain r where "bn_Add N (bn_Mul N v (bn_int N bas)) (bn_int N d) = Inr r" "ok r" "val r = val v * bas + d"
    using Add [of "bn_Mul N v (bn_int N bas)" "bn_int N d"] Mul [of v "bn_int N bas"] assms(1) i by auto
  then show ?thesis using radix_digit [of d] assms by simp
qed

lemma parse_radix_string:
  assumes "2 \<le> bas" and "bas \<le> 36"
  shows "0 \<le> z \<Longrightarrow> \<exists>r. parse_loop N bas (bn_int N 0) (radix_string bas z) = Inr r \<and> ok r \<and> val r = z"
  using assms
proof (induction bas z rule: radix_string.induct)
  case (1 bas z)
  have zero: "ok (bn_int N 0)" "val (bn_int N 0) = 0" using int [of 0] by (simp_all add: is_int_def)
  show ?case
  proof (cases "z < bas")
    case True
    then show ?thesis using parse_digit [OF zero(1), of z bas] 1 zero(2)
      by (simp add: radix_string.simps [of bas z])
  next
    case False
    then have "0 \<le> z div bas" using 1(2,3) by (simp add: pos_imp_zdiv_nonneg_iff)
    then obtain u where u: "parse_loop N bas (bn_int N 0) (radix_string bas (z div bas)) = Inr u" "ok u" "val u = z div bas"
      using 1 False by auto
    obtain r where "parse_loop N bas u [s_radixChars ! nat (z mod bas)] = Inr r" "ok r" "val r = val u * bas + z mod bas"
      using parse_digit [OF u(2), of "z mod bas" bas] 1(3,4) by auto
    then show ?thesis
      using False 1(3) u by (simp add: radix_string.simps [of bas z] parse_loop_append del: parse_loop.simps)
  qed
qed

lemma parse_ToString:
  assumes "ok x" and "2 \<le> bas" and "bas \<le> 36"
  shows "\<exists>s r. BigInteger_ToString N x bas = Inr s \<and> BigInteger_parse N s bas = Inr r \<and> ok r \<and> val r = val x"
proof (cases "val x < 0")
  case True
  then obtain r where r: "parse_loop N bas (bn_int N 0) (radix_string bas (- val x)) = Inr r" "ok r" "val r = - val x"
    using parse_radix_string [OF assms(2,3), of "- val x"] by auto
  have "radix_string bas (- val x) \<noteq> []" using radix_string_hd [of "- val x" bas] True assms by simp
  then show ?thesis using r neg [OF r(2)] True ToString [OF assms] by (simp add: BigInteger_parse_def)
next
  case False
  then obtain r where r: "parse_loop N bas (bn_int N 0) (radix_string bas (val x)) = Inr r" "ok r" "val r = val x"
    using parse_radix_string [OF assms(2,3), of "val x"] by auto
  obtain c t where "radix_string bas (val x) = c # t" "c \<noteq> 45"
    using radix_string_hd [of "val x" bas] False assms by (cases "radix_string bas (val x)") auto
  then show ?thesis using r False ToString [OF assms] by (simp add: BigInteger_parse_def del: parse_loop.simps)
qed

text \<open>Newton's iteration on integers.\<close>

end

definition newton_next :: "int \<Rightarrow> int \<Rightarrow> int" where
  "newton_next n x = (x + n div x) div 2"

definition newton_done :: "int \<Rightarrow> int \<Rightarrow> bool" where
  "newton_done n x \<longleftrightarrow> \<bar>x - n div x\<bar> < 2"

lemma newton_next_ge:
  fixes n s x :: int
  assumes "s * s \<le> n" and "0 < x"
  shows "s \<le> newton_next n x"
proof -
  have "(2 * s - x) * x = s * s - (s - x) * (s - x)" by (simp add: algebra_simps)
  also have "\<dots> \<le> n" using assms(1) zero_le_square [of "s - x"] by linarith
  finally have "\<not> n < (2 * s - x) * x" by simp
  then have "2 * s - x \<le> n div x" using int_div_less [OF assms(2), of n "2 * s - x"] by simp
  then show ?thesis by (simp add: newton_next_def)
qed

lemma newton_done_root:
  fixes n s x :: int
  assumes s: "s * s \<le> n" "n < (s + 1) * (s + 1)" and x: "0 < x" and d: "newton_done n x"
  shows "newton_next n x = s"
proof (rule antisym)
  show "s \<le> newton_next n x" by (rule newton_next_ge [OF s(1) x])
  define q where "q = n div x"
  have lo: "q * x \<le> n" using int_div_less [OF x, of n q] by (auto simp: q_def not_less [symmetric])
  have "x - 1 \<le> q" "q \<le> x + 1" using d by (auto simp: newton_done_def q_def)
  then consider "q = x - 1" | "q = x" | "q = x + 1" by linarith
  then have "newton_next n x * newton_next n x \<le> n"
  proof cases
    case 1
    then have "newton_next n x = q" by (simp add: newton_next_def q_def [symmetric])
    moreover have "q * q \<le> q * x" using 1 x by (intro mult_left_mono) simp_all
    ultimately show ?thesis using lo by simp
  next
    case 2
    then show ?thesis using lo by (simp add: newton_next_def q_def [symmetric])
  next
    case 3
    then have "newton_next n x = x" by (simp add: newton_next_def q_def [symmetric])
    moreover have "x * x \<le> q * x" using 3 x by (intro mult_right_mono) simp_all
    ultimately show ?thesis using lo by simp
  qed
  then have "newton_next n x * newton_next n x < (s + 1) * (s + 1)" using s(2) by simp
  moreover have "0 \<le> s + 1"
  proof (rule ccontr)
    assume "\<not> 0 \<le> s + 1"
    then have "(s + 1) * (s + 1) \<le> s * s" by (simp add: algebra_simps)
    then show False using s by simp
  qed
  ultimately show "newton_next n x \<le> s"
    using mult_mono [of "s + 1" "newton_next n x" "s + 1" "newton_next n x"] by (cases "newton_next n x \<le> s") auto
qed

lemma newton_not_done:
  fixes n s x :: int
  assumes s: "0 \<le> s" "s * s \<le> n" "n < (s + 1) * (s + 1)" and x: "0 < x" and nd: "\<not> newton_done n x"
  shows "0 < newton_next n x" and "s < x \<Longrightarrow> newton_next n x < x"
    and "x = s \<Longrightarrow> newton_done n (newton_next n x)"
proof -
  define q where "q = n div x"
  have "0 \<le> n" using s(2) zero_le_square [of s] by linarith
  then have "0 \<le> q" using x by (simp add: q_def pos_imp_zdiv_nonneg_iff)
  then have "2 \<le> x + q" using nd x by (auto simp: newton_done_def q_def [symmetric])
  then show "0 < newton_next n x" by (simp add: newton_next_def q_def [symmetric])
  show "newton_next n x < x" if "s < x"
  proof -
    have "(s + 1) * (s + 1) \<le> (s + 1) * x" using that s(1) by (intro mult_left_mono) simp_all
    then have "n < (s + 1) * x" using s(3) by linarith
    then have "q < s + 1" unfolding q_def using int_div_less [OF x, of n "s + 1"] by blast
    then show ?thesis using that by (simp add: newton_next_def q_def [symmetric])
  qed
  show "newton_done n (newton_next n x)" if xs: "x = s"
  proof -
    have s0: "0 < s" using x xs by simp
    have "n < (s + 3) * s" using s(3) s0 by (simp add: algebra_simps)
    then have "q < s + 3" using s0 by (simp add: q_def xs int_div_less)
    moreover have "s \<le> q" using s(2) s0 int_div_less [OF s0, of n s] by (simp add: q_def xs)
    moreover have "2 \<le> \<bar>s - q\<bar>" using nd by (simp add: newton_done_def q_def xs)
    ultimately have q: "q = s + 2" by linarith
    then have "n div s = s + 2" by (simp add: q_def xs)
    then have nx: "newton_next n x = s + 1" by (simp add: newton_next_def xs)
    have "\<not> n < q * s" using int_div_less [OF s0, of n q] by (simp add: q_def xs)
    then have "n = (s + 1) * (s + 1) - 1" using s(3) q by (simp add: algebra_simps)
    then have "n div (s + 1) = s"
      using s0 by (intro int_div_pos_eq [of n "s + 1" s s]) (simp_all add: algebra_simps)
    then show ?thesis by (simp add: newton_done_def nx)
  qed
qed

text \<open>The floor of a square root exists.\<close>

lemma floor_root: "0 \<le> n \<Longrightarrow> \<exists>s. 0 \<le> s \<and> s * s \<le> n \<and> n < (s + 1) * (s + 1)" for n :: int
proof (induction "nat n" arbitrary: n)
  case 0
  then show ?case by (intro exI [of _ 0]) simp
next
  case (Suc k)
  then have "k = nat (n - 1)" "0 \<le> n - 1" by simp_all
  then obtain s where s: "0 \<le> s" "s * s \<le> n - 1" "n - 1 < (s + 1) * (s + 1)"
    using Suc.hyps(1) [of "n - 1"] by blast
  show ?case
  proof (cases "n < (s + 1) * (s + 1)")
    case True
    then show ?thesis using s by (intro exI [of _ s]) simp
  next
    case False
    then have "n = (s + 1) * (s + 1)" using s(3) by simp
    then show ?thesis using s(1) by (intro exI [of _ "s + 1"]) (simp add: algebra_simps)
  qed
qed

context bignum
begin

lemma abs: "ok x \<Longrightarrow> ok (bn_abs N x) \<and> val (bn_abs N x) = \<bar>val x\<bar>"
  using neg [of x] Sign [of x] by (auto simp: bn_abs_def sgn_if split: if_splits)

lemma sqrt_loop_step:
  assumes "ok bi" and "ok x" and "0 \<le> val bi" and "0 < val x"
  shows "\<exists>x'. ok x' \<and> val x' = newton_next (val bi) (val x) \<and>
    sqrt_loop N bi x = (if newton_done (val bi) (val x) then Some (Inr x') else sqrt_loop N bi x')"
proof -
  obtain d r where d: "bn_div N bi x = Inr (d, r)" "ok d" "val d = val bi div val x"
    using div_nonneg [OF assms] by auto
  obtain xd where xd: "bn_Sub N x d = Inr xd" "ok xd" "val xd = val x - val d"
    using Sub [OF assms(2) d(2)] by auto
  obtain u where u: "bn_Add N x d = Inr u" "ok u" "val u = val x + val d"
    using Add [OF assms(2) d(2)] by auto
  have two: "ok (bn_int N 2)" "val (bn_int N 2) = 2" using int [of 2] by (simp_all add: is_int_def)
  have done_iff: "bn_Compare N (bn_abs N xd) (bn_int N 2) < 0 \<longleftrightarrow> newton_done (val bi) (val x)"
    using Compare [of "bn_abs N xd" "bn_int N 2"] abs [OF xd(2)] two xd(3) d(3) by (simp add: newton_done_def)
  have "ok (bn_shr N u 1)" "val (bn_shr N u 1) = newton_next (val bi) (val x)"
    using shr [OF u(2), of 1] u(3) d(3) by (simp_all add: newton_next_def)
  moreover have "sqrt_loop N bi x = (if newton_done (val bi) (val x) then Some (Inr (bn_shr N u 1))
      else sqrt_loop N bi (bn_shr N u 1))"
    by (subst sqrt_loop.simps) (simp add: d(1) xd(1) u(1) done_iff Let_def)
  ultimately show ?thesis by blast
qed

lemma sqrt_loop_root:
  assumes "ok bi" and s: "0 \<le> s" "s * s \<le> val bi" "val bi < (s + 1) * (s + 1)"
  shows "ok x \<Longrightarrow> 0 < val x \<Longrightarrow> s \<le> val x \<Longrightarrow>
    \<exists>r. sqrt_loop N bi x = Some (Inr r) \<and> ok r \<and> val r = s"
proof (induction "if newton_done (val bi) (val x) then 0 else Suc (nat (val x - s))" arbitrary: x rule: less_induct)
  case less
  have n: "0 \<le> val bi" using s(2) zero_le_square [of s] by linarith
  obtain x' where x': "ok x'" "val x' = newton_next (val bi) (val x)"
    "sqrt_loop N bi x = (if newton_done (val bi) (val x) then Some (Inr x') else sqrt_loop N bi x')"
    using sqrt_loop_step [OF assms(1) less.prems(1) n less.prems(2)] by blast
  show ?case
  proof (cases "newton_done (val bi) (val x)")
    case True
    then show ?thesis using x' newton_done_root [OF s(2,3) less.prems(2) True] by simp
  next
    case False
    note nd = newton_not_done [OF s less.prems(2) False]
    have ge: "s \<le> val x'" using newton_next_ge [OF s(2) less.prems(2)] x'(2) by simp
    have "(if newton_done (val bi) (val x') then 0 else Suc (nat (val x' - s))) < Suc (nat (val x - s))"
    proof (cases "val x = s")
      case True
      then show ?thesis using nd(3) x'(2) by simp
    next
      case False
      then have "val x' < val x" using nd(2) less.prems(3) x'(2) by simp
      then show ?thesis using ge by auto
    qed
    then have "\<exists>r. sqrt_loop N bi x' = Some (Inr r) \<and> ok r \<and> val r = s"
      using less.hyps [of x'] x'(1,2) nd(1) ge False by simp
    then show ?thesis using x'(3) False by simp
  qed
qed

lemma sqrt:
  assumes "ok bi" and "0 \<le> val bi"
  shows "\<exists>r. BigInteger_sqrt N bi = Some (Inr r) \<and> ok r \<and> 0 \<le> val r
    \<and> val r * val r \<le> val bi \<and> val bi < (val r + 1) * (val r + 1)"
proof -
  obtain s where s: "0 \<le> s" "s * s \<le> val bi" "val bi < (s + 1) * (s + 1)"
    using floor_root [OF assms(2)] by blast
  define x where "x = bn_shl N (bn_int N 1) (bn_Length N bi div 2)"
  have "ok (bn_int N 1)" "val (bn_int N 1) = 1" using int [of 1] by (simp_all add: is_int_def)
  then have x: "ok x" "0 < val x" using shl [of "bn_int N 1"] by (simp_all add: x_def)
  obtain x' where x': "ok x'" "val x' = newton_next (val bi) (val x)"
    "sqrt_loop N bi x = (if newton_done (val bi) (val x) then Some (Inr x') else sqrt_loop N bi x')"
    using sqrt_loop_step [OF assms(1) x(1) assms(2) x(2)] by blast
  have "\<exists>r. sqrt_loop N bi x = Some (Inr r) \<and> ok r \<and> val r = s"
  proof (cases "newton_done (val bi) (val x)")
    case True
    then show ?thesis using x' newton_done_root [OF s(2,3) x(2) True] by simp
  next
    case False
    have "0 < val x'" "s \<le> val x'"
      using newton_not_done(1) [OF s x(2) False] newton_next_ge [OF s(2) x(2)] x'(2) by simp_all
    then show ?thesis using sqrt_loop_root [OF assms(1) s x'(1)] x'(3) False by simp
  qed
  then show ?thesis
    using s Sign [OF assms(1)] assms(2) by (auto simp: BigInteger_sqrt_def x_def [symmetric] sgn_if)
qed

end

section \<open>BigInteger keeps the promise\<close>

definition bigint_ops :: "bigint bignum_ops" where
  "bigint_ops = \<lparr>bn_int = \<lambda>i. BigInteger_int (word_of_int i), bn_Add = BigInteger_Add,
     bn_Sub = BigInteger_Sub, bn_Mul = BigInteger_Mul, bn_neg = BigInteger_neg,
     bn_div = BigInteger_div, bn_Sign = BigInteger_Sign, bn_Compare = BigInteger_Compare,
     bn_shl = BigInteger_shl, bn_shr = BigInteger_shr, bn_Length = get_Length,
     bn_AsInt64 = \<lambda>v. map_option sint (AsInt64 v)\<rparr>"

lemma BigInteger_int_val:
  assumes "is_int i"
  shows "bi_val (BigInteger_int (word_of_int i)) = i"
proof -
  have "(i + 2 ^ 31) mod 2 ^ 32 = i + 2 ^ 31"
    using assms unfolding is_int_def by (intro mod_pos_pos_trivial) simp_all
  then have s: "sint (word_of_int i :: u32) = i" by (simp add: int_word_sint)
  have "(i + 2 ^ 63) mod 2 ^ 64 = i + 2 ^ 63"
    using assms unfolding is_int_def by (intro mod_pos_pos_trivial) simp_all
  then have "sint (word_of_int i :: u64) = i" by (simp add: int_word_sint)
  then have "sint (scast (word_of_int i :: u32) :: u64) = i" by (simp only: scast_eq s)
  then show ?thesis by (simp add: BigInteger_int_def)
qed

lemma bi_AsInt64:
  assumes "bi_ok x" and "- (2 ^ 63) \<le> bi_val x" and "bi_val x < 2 ^ 63"
  shows "map_option sint (AsInt64 x) = Some (bi_val x)"
proof -
  have "fits 64 (bi_val x)" using assms by (simp add: fits_def)
  then have "\<not> 1 < bi_count x"
    using bi_ok_canon [OF assms(1)] fits_mono [of 64 "bi_val x" "64 * (bi_count x - 1)"] by fastforce
  then show ?thesis by (simp add: AsInt64_def bi_val_def get_Data_def)
qed

interpretation bn: bignum bigint_ops bi_ok bi_val
proof
  show "bi_ok (bn_int bigint_ops i) \<and> bi_val (bn_int bigint_ops i) = i" if "is_int i" for i
    using BigInteger_int_val [OF that] by (simp add: bigint_ops_def) (simp add: BigInteger_int_def)
  show "bi_ok x \<Longrightarrow> - (2 ^ bn_Length bigint_ops x) \<le> bi_val x \<and> bi_val x < 2 ^ bn_Length bigint_ops x" for x
    using bi_Length [of x] int_bits_le [of "bi_val x" "get_Length x"] by (simp add: bigint_ops_def fits_def)
qed (simp_all add: bigint_ops_def bi_Add bi_Sub bi_Mul bi_neg bi_div bi_Sign bi_Compare bi_shl bi_shr bi_AsInt64)

text \<open>
  C6: \<open>div\<close> of \<open>BigInteger\<close> divides as C++ divides integers, for numbers of any size and sign: zero
  is refused; otherwise quotient and remainder come out in least form, the quotient rounded
  towards zero.  This covers the digits that Knuth's algorithm D estimates, corrects and adds
  back, and the division instruction never faults.
\<close>

theorem BigInteger_div_correct:
  assumes "bi_ok x" and "bi_ok y"
  shows "if bi_val y = 0 then BigInteger_div x y = Inl DivideByZero
    else \<exists>q r. BigInteger_div x y = Inr (q, r) \<and> bi_ok q \<and> bi_ok r
      \<and> bi_val q = bi_val x sdiv bi_val y \<and> bi_val r = bi_val x smod bi_val y"
  using bi_div [OF assms] bi_not [OF assms(2)] by (simp add: BigInteger_div_def)

theorem BigInteger_div_correct_witness:
  "\<exists>q r. BigInteger_div (BigInteger_shl (one_word (-10)) 100) (BigInteger_shl (one_word 3) 64) = Inr (q, r)
    \<and> bi_val q = - 229064922453 \<and> bi_val r = - 18446744073709551616"
proof -
  have x: "bi_ok (BigInteger_shl (one_word (-10)) 100) \<and> bi_val (BigInteger_shl (one_word (-10)) 100) = -10 * 2 ^ 100"
    using bi_shl [of "one_word (-10)" 100] by simp
  have y: "bi_ok (BigInteger_shl (one_word 3) 64) \<and> bi_val (BigInteger_shl (one_word 3) 64) = 3 * 2 ^ 64"
    using bi_shl [of "one_word 3" 64] by simp
  show ?thesis using BigInteger_div_correct [OF x [THEN conjunct1] y [THEN conjunct1]]
    by (auto simp: x y signed_divide_int_def signed_modulo_int_def)
qed

text \<open>
  C25: printing a number in base 2 to 36 gives the digits of its absolute value, after a minus sign
  if it is negative; the buffer of \<open>Length + 2\<close> characters is always large enough.  Reading the
  text back in the same base gives the number.
\<close>

theorem BigInteger_text_roundtrip:
  assumes "bi_ok x" and "2 \<le> bas" and "bas \<le> 36"
  shows "BigInteger_ToString bigint_ops x bas
      = Inr (if bi_val x < 0 then 45 # radix_string bas (- bi_val x) else radix_string bas (bi_val x))
    \<and> (\<exists>s r. BigInteger_ToString bigint_ops x bas = Inr s \<and> BigInteger_parse bigint_ops s bas = Inr r
        \<and> bi_ok r \<and> bi_val r = bi_val x)"
  using bn.ToString [OF assms] bn.parse_ToString [OF assms] by blast

theorem BigInteger_text_roundtrip_witness:
  "BigInteger_ToString bigint_ops (one_word (-300)) 16 = Inr [45, 49, 50, 67]"
proof -
  have "radix_string 16 300 = [49, 50, 67]"
    by (simp add: radix_string.simps [of 16 300] radix_string.simps [of 16 18] radix_string.simps [of 16 1] radix_nth)
  then show ?thesis using BigInteger_text_roundtrip [of "one_word (-300)" 16] by simp
qed

text \<open>
  C30: the square root ends for every number that is not negative, although Newton's iteration may
  first step up by one, and gives the floor of the root; a negative number is refused.
\<close>

theorem BigInteger_sqrt_floor:
  assumes "bi_ok x"
  shows "if bi_val x < 0 then BigInteger_sqrt bigint_ops x = Some (Inl InvalidArgument)
    else \<exists>r. BigInteger_sqrt bigint_ops x = Some (Inr r) \<and> bi_ok r \<and> 0 \<le> bi_val r
      \<and> bi_val r * bi_val r \<le> bi_val x \<and> bi_val x < (bi_val r + 1) * (bi_val r + 1)"
  using bn.sqrt [OF assms] bn.Sign [OF assms] by (simp add: BigInteger_sqrt_def)

theorem BigInteger_sqrt_floor_witness:
  "\<exists>r. BigInteger_sqrt bigint_ops (one_word 24) = Some (Inr r) \<and> bi_val r = 4"
proof -
  obtain r where r: "BigInteger_sqrt bigint_ops (one_word 24) = Some (Inr r)" "0 \<le> bi_val r"
    "bi_val r * bi_val r \<le> 24" "24 < (bi_val r + 1) * (bi_val r + 1)"
    using BigInteger_sqrt_floor [OF one_word_val(2) [of 24]] by auto
  have "bi_val r < 5" using r(2,3) mult_mono [of 5 "bi_val r" 5 "bi_val r"] by (cases "5 \<le> bi_val r") auto
  then have "bi_val r = 0 \<or> bi_val r = 1 \<or> bi_val r = 2 \<or> bi_val r = 3 \<or> bi_val r = 4"
    using r(2) by presburger
  then have "bi_val r = 4" using r(4) by (elim disjE) simp_all
  then show ?thesis using r(1) by blast
qed

end
