(* ===== verification/Salsa.thy ===== *)
theory Salsa
  imports Prelude
begin

text \<open>
  The Salsa20 and ChaCha20 cores of \<open>src/crypto/salsa20.cpp\<close>, and the functions of Bernstein's
  papers, which they compute.  The code of Salsa20 transposes the matrix after every round instead
  of working on columns and rows in turn.  A state is a list of sixteen words.
\<close>

unbundle bit_operations_syntax

section \<open>Salsa20\<close>

definition SalsaQuarterRound :: "u32 \<Rightarrow> u32 \<Rightarrow> u32 \<Rightarrow> u32 \<Rightarrow> u32 \<times> u32 \<times> u32 \<times> u32" where
  "SalsaQuarterRound a b c d = (let
     b = b XOR word_rotl 7 (a + d);
     c = c XOR word_rotl 9 (b + a);
     d = d XOR word_rotl 13 (c + b);
     a = a XOR word_rotl 18 (d + c)
   in (a, b, c, d))"

text \<open>A quarter round on four words of the array, passed by reference.\<close>

definition quarter_at ::
  "(u32 \<Rightarrow> u32 \<Rightarrow> u32 \<Rightarrow> u32 \<Rightarrow> u32 \<times> u32 \<times> u32 \<times> u32) \<Rightarrow> nat \<Rightarrow> nat \<Rightarrow> nat \<Rightarrow> nat \<Rightarrow> u32 list \<Rightarrow> u32 list" where
  "quarter_at q i j k l w =
     (case q (w ! i) (w ! j) (w ! k) (w ! l) of (a, b, c, d) \<Rightarrow> w[i := a, j := b, k := c, l := d])"

definition swap_at :: "nat \<Rightarrow> nat \<Rightarrow> 'a list \<Rightarrow> 'a list" where
  "swap_at i j w = w[i := w ! j, j := w ! i]"

definition Salsa20_round :: "u32 list \<Rightarrow> u32 list" where
  "Salsa20_round w = (let
     w = quarter_at SalsaQuarterRound 0 4 8 12 w;
     w = quarter_at SalsaQuarterRound 5 9 13 1 w;
     w = quarter_at SalsaQuarterRound 10 14 2 6 w;
     w = quarter_at SalsaQuarterRound 15 3 7 11 w;
     w = swap_at 1 4 w;
     w = swap_at 2 8 w;
     w = swap_at 3 12 w;
     w = swap_at 6 9 w;
     w = swap_at 7 13 w
   in swap_at 11 14 w)"

definition Salsa20Core :: "u32 list \<Rightarrow> nat \<Rightarrow> u32 list res" where
  "Salsa20Core src rounds = (let w = (Salsa20_round ^^ rounds) src in Inr (map2 (+) src w))"

section \<open>ChaCha20\<close>

definition ChaChaQuarterRound :: "u32 \<Rightarrow> u32 \<Rightarrow> u32 \<Rightarrow> u32 \<Rightarrow> u32 \<times> u32 \<times> u32 \<times> u32" where
  "ChaChaQuarterRound a b c d = (let
     a = a + b; d = word_rotl 16 (d XOR a); c = c + d; b = word_rotl 12 (b XOR c);
     a = a + b; d = word_rotl 8 (d XOR a); c = c + d; b = word_rotl 7 (b XOR c)
   in (a, b, c, d))"

definition ChaCha20_double_round :: "u32 list \<Rightarrow> u32 list" where
  "ChaCha20_double_round w = (let
     w = quarter_at ChaChaQuarterRound 0 4 8 12 w;
     w = quarter_at ChaChaQuarterRound 1 5 9 13 w;
     w = quarter_at ChaChaQuarterRound 2 6 10 14 w;
     w = quarter_at ChaChaQuarterRound 3 7 11 15 w;
     w = quarter_at ChaChaQuarterRound 0 5 10 15 w;
     w = quarter_at ChaChaQuarterRound 1 6 11 12 w;
     w = quarter_at ChaChaQuarterRound 2 7 8 13 w
   in quarter_at ChaChaQuarterRound 3 4 9 14 w)"

text \<open>
  The loop stops when the count is zero, and counts down by two: an odd count passes zero and
  runs on until the counter overflows.
\<close>

fun ChaCha20_loop :: "nat \<Rightarrow> u32 list \<Rightarrow> u32 list res" where
  "ChaCha20_loop 0 w = Inr w"
| "ChaCha20_loop (Suc 0) w = Inl Overflow"
| "ChaCha20_loop (Suc (Suc n)) w = ChaCha20_loop n (ChaCha20_double_round w)"

definition ChaCha20Core :: "u32 list \<Rightarrow> nat \<Rightarrow> u32 list res" where
  "ChaCha20Core src rounds = bind_res (ChaCha20_loop rounds src) (\<lambda>w. Inr (map2 (+) src w))"

section \<open>The order of words for the assembly version\<close>

definition ShuffleForSalsa16 :: "u32 list \<Rightarrow> u32 list" where
  "ShuffleForSalsa16 src = [src ! 0, src ! 5, src ! 10, src ! 15, src ! 12, src ! 1, src ! 6, src ! 11,
     src ! 8, src ! 13, src ! 2, src ! 7, src ! 4, src ! 9, src ! 14, src ! 3]"

definition UnShuffleForSalsa16 :: "u32 list \<Rightarrow> u32 list \<Rightarrow> u32 list" where
  "UnShuffleForSalsa16 dst w = dst[0 := w ! 0, 5 := w ! 1, 10 := w ! 2, 15 := w ! 3, 12 := w ! 4,
     1 := w ! 5, 6 := w ! 6, 11 := w ! 7, 8 := w ! 8, 13 := w ! 9, 2 := w ! 10, 7 := w ! 11,
     4 := w ! 12, 9 := w ! 13, 14 := w ! 14, 3 := w ! 15]"

definition ShuffleForSalsa :: "u32 list \<Rightarrow> u32 list" where
  "ShuffleForSalsa src = ShuffleForSalsa16 src @ ShuffleForSalsa16 (drop 16 src)"

definition UnShuffleForSalsa :: "u32 list \<Rightarrow> u32 list \<Rightarrow> u32 list" where
  "UnShuffleForSalsa dst w =
     UnShuffleForSalsa16 (take 16 dst) w @ UnShuffleForSalsa16 (drop 16 dst) (drop 16 w)"

section \<open>The functions as Bernstein defines them\<close>

type_synonym quad = "u32 \<times> u32 \<times> u32 \<times> u32"

definition salsa_quarterround :: "quad \<Rightarrow> quad" where
  "salsa_quarterround y = (case y of (y0, y1, y2, y3) \<Rightarrow> let
     z1 = y1 XOR word_rotl 7 (y0 + y3);
     z2 = y2 XOR word_rotl 9 (z1 + y0);
     z3 = y3 XOR word_rotl 13 (z2 + z1);
     z0 = y0 XOR word_rotl 18 (z3 + z2)
   in (z0, z1, z2, z3))"

definition quad_of :: "u32 list \<Rightarrow> nat list \<Rightarrow> quad" where
  "quad_of x is = (x ! (is ! 0), x ! (is ! 1), x ! (is ! 2), x ! (is ! 3))"

definition quad_nth :: "quad \<Rightarrow> nat \<Rightarrow> u32" where
  "quad_nth q n = (case q of (a, b, c, d) \<Rightarrow> [a, b, c, d] ! n)"

definition salsa_rowround :: "u32 list \<Rightarrow> u32 list" where
  "salsa_rowround y = (let
     r0 = salsa_quarterround (quad_of y [0, 1, 2, 3]); r1 = salsa_quarterround (quad_of y [5, 6, 7, 4]);
     r2 = salsa_quarterround (quad_of y [10, 11, 8, 9]); r3 = salsa_quarterround (quad_of y [15, 12, 13, 14])
   in [quad_nth r0 0, quad_nth r0 1, quad_nth r0 2, quad_nth r0 3,
       quad_nth r1 3, quad_nth r1 0, quad_nth r1 1, quad_nth r1 2,
       quad_nth r2 2, quad_nth r2 3, quad_nth r2 0, quad_nth r2 1,
       quad_nth r3 1, quad_nth r3 2, quad_nth r3 3, quad_nth r3 0])"

definition salsa_columnround :: "u32 list \<Rightarrow> u32 list" where
  "salsa_columnround x = (let
     c0 = salsa_quarterround (quad_of x [0, 4, 8, 12]); c1 = salsa_quarterround (quad_of x [5, 9, 13, 1]);
     c2 = salsa_quarterround (quad_of x [10, 14, 2, 6]); c3 = salsa_quarterround (quad_of x [15, 3, 7, 11])
   in [quad_nth c0 0, quad_nth c1 3, quad_nth c2 2, quad_nth c3 1,
       quad_nth c0 1, quad_nth c1 0, quad_nth c2 3, quad_nth c3 2,
       quad_nth c0 2, quad_nth c1 1, quad_nth c2 0, quad_nth c3 3,
       quad_nth c0 3, quad_nth c1 2, quad_nth c2 1, quad_nth c3 0])"

definition salsa_doubleround :: "u32 list \<Rightarrow> u32 list" where
  "salsa_doubleround x = salsa_rowround (salsa_columnround x)"

definition salsa20_hash :: "nat \<Rightarrow> u32 list \<Rightarrow> u32 list" where
  "salsa20_hash n x = map2 (+) x ((salsa_doubleround ^^ n) x)"

text \<open>ChaCha: the quarter round of four steps, on the columns and then on the diagonals.\<close>

definition chacha_step :: "nat \<Rightarrow> u32 \<Rightarrow> u32 \<Rightarrow> u32 \<Rightarrow> u32 \<times> u32" where
  "chacha_step n a b d = (let a' = a + b in (a', word_rotl n (d XOR a')))"

definition chacha_quarterround :: "quad \<Rightarrow> quad" where
  "chacha_quarterround y = (case y of (a, b, c, d) \<Rightarrow> let
     (a, d) = chacha_step 16 a b d; (c, b) = chacha_step 12 c d b;
     (a, d) = chacha_step 8 a b d; (c, b) = chacha_step 7 c d b
   in (a, b, c, d))"

definition chacha_columns :: "u32 list \<Rightarrow> u32 list" where
  "chacha_columns x = (let q = map (\<lambda>i. chacha_quarterround (quad_of x [i, 4 + i, 8 + i, 12 + i])) [0..<4]
     in map (\<lambda>i. quad_nth (q ! (i mod 4)) (i div 4)) [0..<16])"

definition chacha_diagonals :: "u32 list \<Rightarrow> u32 list" where
  "chacha_diagonals x = (let
     q = map (\<lambda>i. chacha_quarterround
            (quad_of x [i, 4 + (i + 1) mod 4, 8 + (i + 2) mod 4, 12 + (i + 3) mod 4])) [0..<4]
     in map (\<lambda>i. quad_nth (q ! ((i + 3 * (i div 4)) mod 4)) (i div 4)) [0..<16])"

definition chacha_hash :: "nat \<Rightarrow> u32 list \<Rightarrow> u32 list" where
  "chacha_hash n x = map2 (+) x (((chacha_diagonals \<circ> chacha_columns) ^^ n) x)"

section \<open>The code computes them\<close>

lemma list16:
  assumes "length w = 16"
  obtains a b c d e f g h i j k l m n p q where "w = [a, b, c, d, e, f, g, h, i, j, k, l, m, n, p, q]"
  using assms by (auto simp: numeral_eq_Suc length_Suc_conv)

lemma quarterround_eq: "SalsaQuarterRound a b c d = salsa_quarterround (a, b, c, d)"
  by (simp add: SalsaQuarterRound_def salsa_quarterround_def)

lemma case_quad: "(case q of (a, b, c, d) \<Rightarrow> f a b c d) = f (quad_nth q 0) (quad_nth q 1) (quad_nth q 2) (quad_nth q 3)"
  by (cases q) (simp add: quad_nth_def)

lemma Salsa20_round_twice:
  assumes "length w = 16"
  shows "Salsa20_round (Salsa20_round w) = salsa_doubleround w"
  using assms
  by (rule list16) (simp add: Salsa20_round_def Let_def quarter_at_def swap_at_def quarterround_eq
      case_quad salsa_doubleround_def salsa_columnround_def salsa_rowround_def quad_of_def)

lemma chacha_quarter_eq: "ChaChaQuarterRound a b c d = chacha_quarterround (a, b, c, d)"
  by (simp add: ChaChaQuarterRound_def chacha_quarterround_def chacha_step_def Let_def)

lemma ChaCha20_double_round_eq:
  assumes "length w = 16"
  shows "ChaCha20_double_round w = chacha_diagonals (chacha_columns w)"
  using assms
  by (rule list16) (simp add: ChaCha20_double_round_def Let_def quarter_at_def chacha_quarter_eq
      case_quad chacha_columns_def chacha_diagonals_def quad_of_def upt_conv_Cons)

lemma length_salsa_doubleround [simp]: "length (salsa_doubleround w) = 16"
  by (simp add: salsa_doubleround_def salsa_rowround_def Let_def)

lemma length_chacha_diagonals [simp]: "length (chacha_diagonals w) = 16"
  by (simp add: chacha_diagonals_def Let_def)

lemma Salsa20_rounds:
  assumes "length w = 16"
  shows "(Salsa20_round ^^ (2 * n)) w = (salsa_doubleround ^^ n) w" and "length ((salsa_doubleround ^^ n) w) = 16"
proof -
  have "(Salsa20_round ^^ (2 * n)) w = (salsa_doubleround ^^ n) w \<and> length ((salsa_doubleround ^^ n) w) = 16"
    using assms by (induction n) (simp_all add: Salsa20_round_twice)
  then show "(Salsa20_round ^^ (2 * n)) w = (salsa_doubleround ^^ n) w" and "length ((salsa_doubleround ^^ n) w) = 16"
    by simp_all
qed

lemma ChaCha20_rounds:
  assumes "length w = 16"
  shows "ChaCha20_loop (2 * n) w = Inr (((chacha_diagonals \<circ> chacha_columns) ^^ n) w)"
  using assms
  by (induction n arbitrary: w) (simp_all add: ChaCha20_double_round_eq funpow_swap1 del: funpow.simps add: funpow.simps(1) funpow_Suc_right)

lemma ChaCha20_odd: "ChaCha20_loop (2 * n + 1) w = Inl Overflow"
  by (induction n arbitrary: w) simp_all

lemma Salsa20Core_eq: "length w = 16 \<Longrightarrow> Salsa20Core w (2 * n) = Inr (salsa20_hash n w)"
  by (simp add: Salsa20Core_def salsa20_hash_def Salsa20_rounds(1) del: funpow_mult)

lemma ChaCha20Core_eq: "length w = 16 \<Longrightarrow> ChaCha20Core w (2 * n) = Inr (chacha_hash n w)"
  by (simp add: ChaCha20Core_def chacha_hash_def ChaCha20_rounds)

lemma length_chacha_rounds: "length w = 16 \<Longrightarrow> length (((chacha_diagonals \<circ> chacha_columns) ^^ n) w) = 16"
  by (induction n) simp_all

lemma length_core_hash [simp]:
  "length w = 16 \<Longrightarrow> length (salsa20_hash n w) = 16" "length w = 16 \<Longrightarrow> length (chacha_hash n w) = 16"
  by (simp_all add: salsa20_hash_def chacha_hash_def Salsa20_rounds(2) length_chacha_rounds)

lemma UnShuffle_Shuffle:
  assumes "length src = 16" and "length dst = 16"
  shows "UnShuffleForSalsa16 dst (ShuffleForSalsa16 src) = src"
  by (rule list16 [OF assms(1)], rule list16 [OF assms(2)])
    (simp add: UnShuffleForSalsa16_def ShuffleForSalsa16_def)

text \<open>The examples of the papers.\<close>

lemma quarterround_vectors:
  "salsa_quarterround (1, 0, 0, 0) = (0x08008145, 0x80, 0x10200, 0x20500000)"
  "chacha_quarterround (0x11111111, 0x01020304, 0x9b8d6f43, 0x01234567)
    = (0xea2a92f4, 0xcb1cf8ce, 0x4581472e, 0x5881c4bb)"
  by code_simp+

end
