(* ===== verification/Scrypt.thy ===== *)
theory Scrypt
  imports Salsa Sha
begin

text \<open>
  The memory-hard mixing of \<open>src/crypto/scrypt.cpp\<close>: \<open>VectorMix\<close>, \<open>NeoScryptCore\<close>, \<open>Scrypt\<close> and the
  shorter \<open>CalcSCryptHash\<close>, compared with RFC 7914.  Memory that \<open>alloca\<close> and \<open>AlignedMem\<close> return is
  an argument, so that nothing depends on what it holds; what \<open>AlignedMem\<close> returns is a function of the
  size that the code asks for.  Sizes and indices are computed in \<open>int\<close>, as in the code: an
  \<open>int\<close> product that does not fit stops the model, the index of the lookup wraps in 32 bits, and a
  place outside the table is \<open>OutOfBounds\<close>.
\<close>

unbundle bit_operations_syntax

section \<open>Mixing\<close>

type_synonym salsa_fn = "u32 list \<Rightarrow> nat \<Rightarrow> u32 list res"

text \<open>\<open>VectorXor\<close> on words.\<close>

definition VectorXor32 :: "u32 list \<Rightarrow> u32 list \<Rightarrow> u32 list" where
  "VectorXor32 d s = map2 (XOR) d s"

text \<open>
  One turn of \<open>VectorMix\<close>.  \<open>prev\<close> points to the last block of \<open>x\<close> in the first turn, and to the block
  of \<open>tmp\<close> that the turn before has written in the others.
\<close>

definition VectorMix_step ::
  "salsa_fn \<Rightarrow> nat \<Rightarrow> nat \<Rightarrow> nat \<Rightarrow> u32 list list \<times> u32 list list \<Rightarrow> (u32 list list \<times> u32 list list) res" where
  "VectorMix_step pfn r rounds i = (\<lambda>(x, tmp). let
     prev = (if i = 0 then x ! (2 * r - 1) else tmp ! (((i - 1) mod 2) * r + (i - 1) div 2));
     x = x[i := VectorXor32 (x ! i) prev]
   in bind_res (pfn (x ! i) rounds) (\<lambda>t. Inr (x, tmp[(i mod 2) * r + i div 2 := t])))"

definition VectorMix ::
  "salsa_fn \<Rightarrow> u32 list list \<Rightarrow> u32 list list \<Rightarrow> nat \<Rightarrow> nat \<Rightarrow> (u32 list list \<times> u32 list list) res" where
  "VectorMix pfn x tmp r rounds =
     bind_res (fold_res (VectorMix_step pfn r rounds) [0..<2 * r] (x, tmp))
       (\<lambda>(x, tmp). Inr (take (2 * r) tmp @ drop (2 * r) x, tmp))"

text \<open>\<open>memcpy\<close> to the word at index \<open>at\<close>.\<close>

definition write_at :: "nat \<Rightarrow> 'a list \<Rightarrow> 'a list \<Rightarrow> 'a list" where
  "write_at at ws v = take at v @ ws @ drop (at + length ws) v"

text \<open>The state of the loops: \<open>x\<close>, \<open>tmp\<close> and the words of \<open>v\<close>.\<close>

type_synonym mix_state = "u32 list list \<times> u32 list list \<times> u32 list"

definition fill_step :: "salsa_fn \<Rightarrow> nat \<Rightarrow> nat \<Rightarrow> nat \<Rightarrow> mix_state \<Rightarrow> mix_state res" where
  "fill_step pfn r rounds i = (\<lambda>(x, tmp, v).
     bind_res (fits_int (i * 32)) (\<lambda>k. bind_res (fits_int (k * r)) (\<lambda>k.
       if length v < k + 2 * r * 16 then Inl OutOfBounds
       else let v = write_at k (concat x) v
         in bind_res (VectorMix pfn x tmp r rounds) (\<lambda>(x, tmp). Inr (x, tmp, v)))))"

text \<open>The product of the lookup is one of \<open>uint32_t\<close>; its conversion to \<open>int j\<close> may be negative.\<close>

definition lookup_step :: "salsa_fn \<Rightarrow> nat \<Rightarrow> nat \<Rightarrow> nat \<Rightarrow> nat \<Rightarrow> mix_state \<Rightarrow> mix_state res" where
  "lookup_step pfn r rounds n i = (\<lambda>(x, tmp, v).
     bind_res (fits_int (32 * r)) (\<lambda>k. let
       j = sint (of_nat k * ((x ! (2 * r - 1)) ! 0 AND (of_nat n - 1)))
     in if j < 0 \<or> length v < nat j + 2 * r * 16 then Inl OutOfBounds
        else let x = chunks 16 (VectorXor32 (concat x) (take (2 * r * 16) (drop (nat j) v)))
          in bind_res (VectorMix pfn x tmp r rounds) (\<lambda>(x, tmp). Inr (x, tmp, v))))"

text \<open>A negative \<open>int n\<close> runs no turn; it is passed as 0.\<close>

definition mix_loops :: "salsa_fn \<Rightarrow> nat \<Rightarrow> nat \<Rightarrow> nat \<Rightarrow> mix_state \<Rightarrow> mix_state res" where
  "mix_loops pfn r rounds n s = bind_res (fold_res (fill_step pfn r rounds) [0..<n] s)
     (fold_res (lookup_step pfn r rounds n) [0..<n])"

definition NeoScryptCore ::
  "u32 list list \<Rightarrow> u32 list list \<Rightarrow> u32 list \<Rightarrow> nat \<Rightarrow> nat \<Rightarrow> nat \<Rightarrow> bool \<Rightarrow> mix_state res" where
  "NeoScryptCore x tmp v r rounds n dblmix =
     bind_res (if dblmix then mix_loops ChaCha20Core r rounds n (x, tmp, v) else Inr ([], tmp, v))
       (\<lambda>(z, tmp, v). bind_res (mix_loops Salsa20Core r rounds n (x, tmp, v))
         (\<lambda>(x, tmp, v). Inr (if dblmix then chunks 16 (VectorXor32 (concat x) (concat z)) else x, tmp, v)))"

definition ScryptCore :: "u32 list list \<Rightarrow> u32 list \<Rightarrow> u32 list \<Rightarrow> u32 list res" where
  "ScryptCore tmp x alignedScratch =
     bind_res (NeoScryptCore (chunks 16 x) tmp alignedScratch 1 8 1024 False) (\<lambda>(x, tmp, v). Inr (concat x))"

section \<open>Key derivation\<close>

text \<open>\<open>HmacPseudoRandomFunction\<close>; \<open>HMAC\<close> always returns (\<open>HMAC_spec\<close>).\<close>

definition HmacPseudoRandomFunction :: "'w::len word hash_algorithm \<Rightarrow> byte list \<Rightarrow> byte list \<Rightarrow> byte list" where
  "HmacPseudoRandomFunction algo password text = the (HMAC algo password text)"

text \<open>Bytes seen as words by a pointer cast, and back.\<close>

definition words_of :: "byte list \<Rightarrow> u32 list" where
  "words_of bs = map le32 (chunks 4 bs)"

definition bytes_of :: "u32 list \<Rightarrow> byte list" where
  "bytes_of ws = concat (map (bytes_le 4) ws)"

definition Scrypt_block ::
  "nat \<Rightarrow> nat \<Rightarrow> nat \<Rightarrow> byte list \<times> u32 list list \<times> u32 list \<Rightarrow> (byte list \<times> u32 list list \<times> u32 list) res" where
  "Scrypt_block n r i = (\<lambda>(bb, tmp, v). let
     mfLen = r * 128; x = chunks 16 (words_of (take mfLen (drop (i * mfLen) bb)))
   in bind_res (mix_loops Salsa20Core r 8 n (x, tmp, v))
     (\<lambda>(x, tmp, v). Inr (put_bytes (i * mfLen) (bytes_of (concat x)) bb, tmp, v)))"

text \<open>
  \<open>AlignedMem\<close> is the function \<open>mem\<close> from sizes in bytes to words.  The parameters are
  non-negative \<open>int\<close>s; \<open>p * mfLen\<close> is a product of type \<open>size_t\<close>, which two \<open>int\<close>s do not exceed.
\<close>

definition Scrypt ::
  "u32 list list \<Rightarrow> (nat \<Rightarrow> u32 list) \<Rightarrow> byte list \<Rightarrow> byte list \<Rightarrow> nat \<Rightarrow> nat \<Rightarrow> nat \<Rightarrow> nat \<Rightarrow> byte list res" where
  "Scrypt tmp mem password salt n r p dkLen = (let prf = HmacPseudoRandomFunction SHA256
   in bind_res (fits_int (r * 128)) (\<lambda>mfLen.
      bind_res (PBKDF2 prf (HashSize SHA256) password salt 1 (p * mfLen)) (\<lambda>bb.
      bind_res (fits_int (n + 1)) (\<lambda>k. bind_res (fits_int (k * r)) (\<lambda>k. bind_res (fits_int (k * 128)) (\<lambda>size_am.
      bind_res (fold_res (Scrypt_block n r) [0..<p] (bb, tmp, mem size_am)) (\<lambda>(bb, tmp, v).
        PBKDF2 prf (HashSize SHA256) password bb 1 dkLen)))))))"

text \<open>The special case of 80-byte headers, with the password hashed once.\<close>

definition CalcPbkdf2Hash :: "byte list \<Rightarrow> byte list \<Rightarrow> u32 \<Rightarrow> byte list" where
  "CalcPbkdf2Hash ihash data idx = HmacPseudoRandomFunction SHA256 ihash (data @ bytes_be 4 idx)"

definition CalcSCryptHash :: "u32 list list \<Rightarrow> u32 list \<Rightarrow> byte list \<Rightarrow> u32 list res" where
  "CalcSCryptHash tmp scratch password = (let
     ihash = the (ComputeHash SHA256 password);
     x = words_of (concat (map (\<lambda>i. CalcPbkdf2Hash ihash password (of_nat (i + 1))) [0..<4]))
   in bind_res (ScryptCore tmp x scratch) (\<lambda>x.
        Inr (words_of (CalcPbkdf2Hash ihash (bytes_of x) 1))))"

section \<open>RFC 7914\<close>

fun scrypt_Y :: "(u32 list \<Rightarrow> u32 list) \<Rightarrow> u32 list list \<Rightarrow> nat \<Rightarrow> u32 list" where
  "scrypt_Y H B 0 = H (map2 (XOR) (B ! (length B - 1)) (B ! 0))"
| "scrypt_Y H B (Suc i) = H (map2 (XOR) (scrypt_Y H B i) (B ! Suc i))"

definition scryptBlockMix :: "(u32 list \<Rightarrow> u32 list) \<Rightarrow> u32 list list \<Rightarrow> u32 list list" where
  "scryptBlockMix H B = (let r = length B div 2 in
     map (\<lambda>i. scrypt_Y H B (2 * i)) [0..<r] @ map (\<lambda>i. scrypt_Y H B (2 * i + 1)) [0..<r])"

text \<open>The last block as a little-endian number.\<close>

definition Integerify :: "u32 list list \<Rightarrow> nat" where
  "Integerify B = foldr (\<lambda>w n. unat w + 2 ^ 32 * n) (B ! (length B - 1)) 0"

definition scryptROMix :: "(u32 list \<Rightarrow> u32 list) \<Rightarrow> nat \<Rightarrow> u32 list list \<Rightarrow> u32 list list" where
  "scryptROMix H N B = (let V = map (\<lambda>i. (scryptBlockMix H ^^ i) B) [0..<N] in
     ((\<lambda>X. scryptBlockMix H (map2 (map2 (XOR)) X (V ! (Integerify X mod N)))) ^^ N)
       ((scryptBlockMix H ^^ N) B))"

definition pbkdf2_hmac_sha256 :: "byte list \<Rightarrow> byte list \<Rightarrow> nat \<Rightarrow> byte list" where
  "pbkdf2_hmac_sha256 P S dkLen = take dkLen (concat (map
     (pbkdf2_F (hmac_rfc2104 (hash_spec SHA256) 64) P S 1) [1..<(dkLen + 31) div 32 + 1]))"

definition scrypt_rfc7914 :: "byte list \<Rightarrow> byte list \<Rightarrow> nat \<Rightarrow> nat \<Rightarrow> nat \<Rightarrow> nat \<Rightarrow> byte list" where
  "scrypt_rfc7914 P S N r p dkLen = (let
     B = pbkdf2_hmac_sha256 P S (p * 128 * r);
     B' = concat (map (\<lambda>b. bytes_of (concat (scryptROMix (salsa20_hash 4) N (chunks 16 (words_of b)))))
            (chunks (128 * r) B))
   in pbkdf2_hmac_sha256 P B' dkLen)"

section \<open>Mixing is the block mix of the RFC\<close>

definition blocks :: "nat \<Rightarrow> u32 list list \<Rightarrow> bool" where
  "blocks r x \<longleftrightarrow> length x = 2 * r \<and> (\<forall>b\<in>set x. length b = 16)"

lemma blocks_nth: "blocks r x \<Longrightarrow> i < 2 * r \<Longrightarrow> length (x ! i) = 16"
  by (simp add: blocks_def)

lemma VectorXor32_commute: "length a = length b \<Longrightarrow> VectorXor32 a b = map2 (XOR) b a"
  by (induction a b rule: list_induct2) (simp_all add: VectorXor32_def xor.commute)

text \<open>The places of \<open>tmp\<close>: even blocks in the lower half, odd ones in the upper.\<close>

definition place :: "nat \<Rightarrow> nat \<Rightarrow> nat" where
  "place r k = (k mod 2) * r + k div 2"

lemma place_less: "k < 2 * r \<Longrightarrow> place r k < 2 * r"
  unfolding place_def by (cases "even k") (auto elim!: evenE oddE)

lemma place_inj: "j < 2 * r \<Longrightarrow> k < 2 * r \<Longrightarrow> place r j = place r k \<Longrightarrow> j = k"
  unfolding place_def by (cases "even j"; cases "even k") (auto elim!: evenE oddE)

text \<open>Blocks and the flat array of their words.\<close>

lemma length_flat_blocks: "blocks r x \<Longrightarrow> length (concat x) = 32 * r"
proof -
  have "\<forall>b\<in>set x. length b = 16 \<Longrightarrow> length (concat x) = 16 * length x" by (induction x) simp_all
  then show "blocks r x \<Longrightarrow> length (concat x) = 32 * r" by (simp add: blocks_def)
qed

lemma chunks_of_concat: "\<forall>b\<in>set x. length b = n \<Longrightarrow> 0 < n \<Longrightarrow> chunks n (concat x) = x"
  by (induction x) (simp_all add: chunks_append)

lemma map2_append:
  "length a = length b \<Longrightarrow> map2 f (a @ as) (b @ bs) = map2 f a b @ map2 f as bs"
  by simp

lemma map2_concat:
  assumes "length x = length y" and "\<forall>b\<in>set x. length b = n" and "\<forall>b\<in>set y. length b = n"
  shows "map2 f (concat x) (concat y) = concat (map2 (map2 f) x y)"
  using assms by (induction x y rule: list_induct2) (simp_all add: map2_append)

lemma blocks_xor: "blocks r x \<Longrightarrow> blocks r y \<Longrightarrow> blocks r (map2 (map2 f) x y)"
  by (auto simp: blocks_def set_zip)

lemma chunks_xor:
  assumes "blocks r x" and "blocks r y"
  shows "chunks 16 (VectorXor32 (concat x) (concat y)) = map2 (map2 (XOR)) x y"
proof -
  have "VectorXor32 (concat x) (concat y) = concat (map2 (map2 (XOR)) x y)"
    unfolding VectorXor32_def using assms by (intro map2_concat) (auto simp: blocks_def)
  then show ?thesis using blocks_xor [OF assms, of "(XOR)"] by (simp add: chunks_of_concat blocks_def)
qed

lemma blocks_chunks: "length ws = 32 * r \<Longrightarrow> blocks r (chunks 16 ws)"
  using chunks_dvd [of 16 ws] by (auto simp: blocks_def)

text \<open>Reading back what \<open>memcpy\<close> has written.\<close>

lemma length_write_at [simp]: "at + length ws \<le> length v \<Longrightarrow> length (write_at at ws v) = length v"
  by (simp add: write_at_def)

lemma read_write_at: "at + length ws \<le> length v \<Longrightarrow> take (length ws) (drop at (write_at at ws v)) = ws"
  by (simp add: write_at_def)

lemma read_write_before:
  "i + k \<le> at \<Longrightarrow> at \<le> length v \<Longrightarrow> take k (drop i (write_at at ws v)) = take k (drop i v)"
proof -
  assume a: "i + k \<le> at" "at \<le> length v"
  then have "drop i (write_at at ws v) = take (at - i) (drop i v) @ ws @ drop (at + length ws) v"
    by (simp add: write_at_def drop_take)
  moreover have "take k (take (at - i) (drop i v)) = take k (drop i v)" "k \<le> length (take (at - i) (drop i v))"
    using a by (simp_all add: min_absorb1)
  ultimately show "take k (drop i (write_at at ws v)) = take k (drop i v)"
    by (simp only: take_append) simp
qed

text \<open>The index that the last block selects.\<close>

lemma cost_bound:
  fixes n r k :: nat
  assumes "n = 2 ^ k" and "32 * r * n < 2 ^ 31" and "0 < r"
  shows "k \<le> 27"
proof (rule ccontr)
  assume "\<not> k \<le> 27"
  then have "(2 :: nat) ^ 28 \<le> n" unfolding assms(1) by (intro power_increasing) simp_all
  then have "(268435456 :: nat) \<le> n" by simp
  moreover have "1 * n \<le> r * n" using assms(3) by (intro mult_le_mono1) simp
  moreover have "32 * r * n = 32 * (r * n)" by (rule mult.assoc)
  moreover have "(2 :: nat) ^ 31 = 2147483648" by simp
  ultimately show False using assms(2) by linarith
qed

lemma lookup_index:
  fixes w :: u32
  assumes "n = 2 ^ k" and "32 * r * n < 2 ^ 31" and "0 < r"
  shows "sint (of_nat (32 * r) * (w AND (of_nat n - 1))) = int (32 * r * (unat w mod n))"
proof -
  have m: "(of_nat n - 1 :: u32) = mask k" by (simp add: assms(1) mask_eq_exp_minus_1)
  have "unat (w AND mask k) = take_bit k (unat w)"
    by (simp add: take_bit_eq_mask [symmetric] unsigned_take_bit_eq)
  then have a: "unat (w AND (of_nat n - 1)) = unat w mod n"
    unfolding m by (simp only: assms(1) take_bit_eq_mod)
  define P where "P = 32 * r * (unat w mod n)"
  have "unat w mod n < n" using assms(1) by simp
  then have "P < 32 * r * n" using assms(3) by (simp add: P_def)
  then have p: "P < 2 ^ 31" using assms(2) by linarith
  have "32 * r * 1 \<le> 32 * r * n" using assms(1) by (intro mult_le_mono2) simp
  then have "32 * r < 2 ^ 31" using assms(2) by linarith
  then have "32 * r < 2 ^ 32" by simp
  then have "unat (of_nat (32 * r) :: u32) = 32 * r" unfolding unat_of_nat by simp
  moreover have "P < 2 ^ 32" using p by simp
  ultimately have u: "unat (of_nat (32 * r) * (w AND (of_nat n - 1))) = P"
    unfolding unat_word_ariths(2) a P_def by simp
  have "unat (of_nat (32 * r) * (w AND (of_nat n - 1)) :: u32) < 2 ^ 31" unfolding u by (rule p)
  from sint_unat [OF this] show ?thesis unfolding u by (simp only: P_def)
qed

lemma Integerify_mod:
  assumes "blocks r x" and "0 < r" and "n = 2 ^ k" and "k \<le> 32"
  shows "Integerify x mod n = unat (x ! (2 * r - 1) ! 0) mod n"
proof -
  have "length (x ! (2 * r - 1)) = 16" using assms by (simp add: blocks_nth)
  then obtain w ws where b: "x ! (2 * r - 1) = w # ws" by (cases "x ! (2 * r - 1)") auto
  have "n dvd 2 ^ 32" unfolding assms(3) using assms(4) by (rule le_imp_power_dvd)
  then have "(unat w + 2 ^ 32 * m) mod n = unat w mod n" for m
    by (metis dvd_mult2 mod_add_right_eq mod_eq_0_iff_dvd add.right_neutral)
  moreover have "length x - 1 = 2 * r - 1" using assms(1) by (simp add: blocks_def)
  ultimately show ?thesis unfolding Integerify_def by (simp only: b foldr.simps comp_def nth_Cons_0)
qed

locale mixing_core =
  fixes pfn :: salsa_fn and rounds :: nat and H :: "u32 list \<Rightarrow> u32 list"
  assumes pfn_H: "length w = 16 \<Longrightarrow> pfn w rounds = Inr (H w)"
    and length_H: "length w = 16 \<Longrightarrow> length (H w) = 16"
begin

lemma length_Y:
  assumes "blocks r x" and "i < 2 * r"
  shows "length (scrypt_Y H x i) = 16"
  using assms(2)
proof (induction i)
  case 0
  then show ?case using assms(1) blocks_nth [OF assms(1)] by (simp add: length_H blocks_def)
next
  case (Suc i)
  then show ?case using blocks_nth [OF assms(1), of "Suc i"] by (simp add: length_H)
qed

lemma blocks_mix: "blocks r x \<Longrightarrow> blocks r (scryptBlockMix H x)"
  using length_Y [of r x] by (auto simp: blocks_def scryptBlockMix_def Let_def simp del: scrypt_Y.simps)

lemma VectorMix_loop:
  assumes x: "blocks r x" and tmp: "length tmp = 2 * r" and "i \<le> 2 * r"
  shows "\<exists>x' tmp'. fold_res (VectorMix_step pfn r rounds) [0..<i] (x, tmp) = Inr (x', tmp')
    \<and> length x' = 2 * r \<and> length tmp' = 2 * r \<and> (\<forall>k<2 * r. i \<le> k \<longrightarrow> x' ! k = x ! k)
    \<and> (\<forall>k<i. tmp' ! place r k = scrypt_Y H x k)"
  using assms(3)
proof (induction i)
  case 0
  then show ?case using x tmp by (simp add: blocks_def)
next
  case (Suc i)
  then obtain x' tmp' where IH: "fold_res (VectorMix_step pfn r rounds) [0..<i] (x, tmp) = Inr (x', tmp')"
    "length x' = 2 * r" "length tmp' = 2 * r" "\<forall>k<2 * r. i \<le> k \<longrightarrow> x' ! k = x ! k"
    "\<forall>k<i. tmp' ! place r k = scrypt_Y H x k" by auto
  have i: "i < 2 * r" using Suc.prems by simp
  define prev where "prev = (if i = 0 then x' ! (2 * r - 1) else tmp' ! place r (i - 1))"
  have prev: "prev = (if i = 0 then x ! (2 * r - 1) else scrypt_Y H x (i - 1))"
    using IH(4,5) i by (simp add: prev_def)
  then have lp: "length prev = 16"
    using blocks_nth [OF x, of "2 * r - 1"] length_Y [OF x, of "i - 1"] i by simp
  define xi where "xi = map2 (XOR) prev (x ! i)"
  have xi: "VectorXor32 (x' ! i) prev = xi" "length xi = 16"
    using IH(4) i lp blocks_nth [OF x i] by (simp_all add: xi_def VectorXor32_commute)
  have Y: "H xi = scrypt_Y H x i"
    using x by (cases i) (simp_all add: xi_def prev blocks_def)
  have "VectorMix_step pfn r rounds i (x', tmp') = Inr (x'[i := xi], tmp'[place r i := H xi])"
    unfolding VectorMix_step_def Let_def prod.case place_def [symmetric] prev_def [symmetric] xi(1)
    using IH(2) i by (simp add: pfn_H [OF xi(2)])
  then have "fold_res (VectorMix_step pfn r rounds) [0..<Suc i] (x, tmp) = Inr (x'[i := xi], tmp'[place r i := H xi])"
    by (simp add: fold_res_append IH(1))
  moreover have "tmp'[place r i := H xi] ! place r k = scrypt_Y H x k" if k: "k < Suc i" for k
  proof (cases "k = i")
    case True
    then show ?thesis using IH(3) place_less [OF i] by (simp add: Y del: scrypt_Y.simps)
  next
    case False
    then have "place r i \<noteq> place r k" using place_inj [of i r k] i k by auto
    then show ?thesis using IH(5) k False by (simp del: scrypt_Y.simps)
  qed
  moreover have "\<forall>k<2 * r. Suc i \<le> k \<longrightarrow> x'[i := xi] ! k = x ! k" using IH(4) by simp
  ultimately show ?case using IH(2,3) by (intro exI [of _ "x'[i := xi]"] exI [of _ "tmp'[place r i := H xi]"]) simp
qed

lemma VectorMix_blocks:
  assumes x: "blocks r x" and tmp: "length tmp = 2 * r"
  shows "\<exists>tmp'. VectorMix pfn x tmp r rounds = Inr (scryptBlockMix H x, tmp') \<and> length tmp' = 2 * r"
proof -
  obtain x' tmp' where loop: "fold_res (VectorMix_step pfn r rounds) [0..<2 * r] (x, tmp) = Inr (x', tmp')"
    "length x' = 2 * r" "length tmp' = 2 * r" "\<forall>k<2 * r. tmp' ! place r k = scrypt_Y H x k"
    using VectorMix_loop [OF x tmp order_refl] by auto
  have "tmp' ! m = scryptBlockMix H x ! m" if m: "m < 2 * r" for m
  proof (cases "m < r")
    case True
    then show ?thesis using loop(4) [rule_format, of "2 * m"] x
      by (simp add: place_def scryptBlockMix_def blocks_def nth_append)
  next
    case False
    have "place r (2 * (m - r) + 1) = m" using False by (simp add: place_def)
    then show ?thesis using loop(4) [rule_format, of "2 * (m - r) + 1"] x False m
      by (simp add: scryptBlockMix_def blocks_def nth_append less_diff_conv2 del: scrypt_Y.simps)
  qed
  then have "tmp' = scryptBlockMix H x"
    using loop(3) blocks_mix [OF x] by (intro nth_equalityI) (simp_all add: blocks_def)
  then show ?thesis using loop(1-3) by (simp add: VectorMix_def)
qed

end

context mixing_core
begin

text \<open>The table \<open>V\<close> as the loops fill it.\<close>

definition filled :: "nat \<Rightarrow> u32 list list \<Rightarrow> nat \<Rightarrow> u32 list \<Rightarrow> bool" where
  "filled r B n v \<longleftrightarrow>
     (\<forall>k<n. take (32 * r) (drop (k * 32 * r) v) = concat ((scryptBlockMix H ^^ k) B))"

lemma blocks_funpow: "blocks r B \<Longrightarrow> blocks r ((scryptBlockMix H ^^ k) B)"
  by (induction k) (simp_all add: blocks_mix)

lemma fill_loop:
  assumes B: "blocks r B" "0 < r" and n: "32 * r * n < 2 ^ 31"
    and tmp: "length tmp = 2 * r" and v: "n * 32 * r \<le> length v" and "m \<le> n"
  shows "\<exists>tmp' v'. fold_res (fill_step pfn r rounds) [0..<m] (B, tmp, v)
      = Inr ((scryptBlockMix H ^^ m) B, tmp', v')
    \<and> length tmp' = 2 * r \<and> length v' = length v \<and> filled r B m v'"
  using assms(6)
proof (induction m)
  case 0
  then show ?case using tmp by (simp add: filled_def)
next
  case (Suc m)
  then obtain tmp' v' where IH: "fold_res (fill_step pfn r rounds) [0..<m] (B, tmp, v)
      = Inr ((scryptBlockMix H ^^ m) B, tmp', v')"
    "length tmp' = 2 * r" "length v' = length v" "filled r B m v'" by auto
  define X where "X = (scryptBlockMix H ^^ m) B"
  have X: "blocks r X" "length (concat X) = 32 * r"
    using blocks_funpow [OF B(1)] length_flat_blocks unfolding X_def by blast+
  define v'' where "v'' = write_at (m * 32 * r) (concat X) v'"
  have "m * 32 * r + 32 * r = Suc m * 32 * r" by (simp add: algebra_simps)
  also have "\<dots> \<le> n * 32 * r" using Suc.prems by (intro mult_le_mono1)
  finally have room: "m * 32 * r + length (concat X) \<le> length v'" using v unfolding X(2) IH(3) by linarith
  obtain t where t: "VectorMix pfn X tmp' r rounds = Inr (scryptBlockMix H X, t)" "length t = 2 * r"
    using VectorMix_blocks [OF X(1) IH(2)] by blast
  have "m * 32 * r \<le> n * 32 * r" using Suc.prems by (intro mult_le_mono1) simp
  also have "\<dots> = 32 * r * n" by (simp add: ac_simps)
  finally have k: "m * 32 * r < 2 ^ 31" using n by linarith
  have "m * 32 * 1 \<le> m * 32 * r" using B(2) by (intro mult_le_mono2) simp
  then have "m * 32 < 2 ^ 31" using k by linarith
  moreover have "\<not> length v' < m * 32 * r + 2 * r * 16" using room unfolding X(2) by linarith
  ultimately have "fill_step pfn r rounds m (X, tmp', v') = Inr (scryptBlockMix H X, t, v'')"
    using k unfolding fill_step_def prod.case by (simp only: fits_int_Inr bind_res_simps if_False Let_def v''_def [symmetric] t(1) prod.case)
  then have "fold_res (fill_step pfn r rounds) [0..<Suc m] (B, tmp, v) = Inr (scryptBlockMix H X, t, v'')"
    by (simp add: fold_res_append IH(1) X_def [symmetric])
  moreover have "length v'' = length v" using room IH(3) by (simp add: v''_def)
  moreover have "filled r B (Suc m) v''"
    unfolding filled_def
  proof (intro allI impI)
    fix k
    assume k: "k < Suc m"
    show "take (32 * r) (drop (k * 32 * r) v'') = concat ((scryptBlockMix H ^^ k) B)"
    proof (cases "k = m")
      case True
      then show ?thesis using read_write_at [OF room] X(2) by (simp add: v''_def X_def)
    next
      case False
      then have "Suc k * (32 * r) \<le> m * (32 * r)" using k by (intro mult_le_mono1) simp
      then have "k * 32 * r + 32 * r \<le> m * 32 * r" by (simp add: mult.assoc)
      then show ?thesis using read_write_before [of "k * 32 * r" "32 * r" "m * 32 * r" v' "concat X"]
          IH(4) room k False by (simp add: filled_def v''_def)
    qed
  qed
  ultimately show ?case using t(2) by (auto simp: X_def)
qed

lemma lookup_loop:
  assumes B: "blocks r B" "0 < r" and n: "n = 2 ^ p" "32 * r * n < 2 ^ 31"
    and v: "n * 32 * r \<le> length v" "filled r B n v"
    and X: "blocks r X" and tmp: "length tmp = 2 * r"
  defines "g \<equiv> \<lambda>X. scryptBlockMix H (map2 (map2 (XOR)) X ((scryptBlockMix H ^^ (Integerify X mod n)) B))"
  shows "\<exists>tmp'. fold_res (lookup_step pfn r rounds n) is (X, tmp, v) = Inr ((g ^^ length is) X, tmp', v)
    \<and> length tmp' = 2 * r \<and> blocks r ((g ^^ length is) X)"
  using X tmp
proof (induction "is" arbitrary: X tmp)
  case Nil
  then show ?case by simp
next
  case (Cons i "is")
  define j where "j = Integerify X mod n"
  define V where "V = (scryptBlockMix H ^^ j) B"
  have p: "p \<le> 32" using cost_bound [OF n B(2)] by simp
  have j: "sint (of_nat (32 * r) * ((X ! (2 * r - 1)) ! 0 AND (of_nat n - 1))) = int (32 * r * j)"
    using lookup_index [OF n(1,2) B(2)] Integerify_mod [OF Cons.prems(1) B(2) n(1) p] by (simp add: j_def)
  have "j < n" using n(1) by (simp add: j_def)
  then have "Suc j * (32 * r) \<le> n * (32 * r)" by (intro mult_le_mono1) simp
  moreover have "Suc j * (32 * r) = 32 * r * j + 32 * r" by (simp add: algebra_simps)
  moreover have "n * 32 * r = n * (32 * r)" by (rule mult.assoc)
  ultimately have room: "32 * r * j + 32 * r \<le> length v" using v(1) by linarith
  have rd: "take (32 * r) (drop (32 * r * j) v) = concat V"
    using v(2) \<open>j < n\<close> by (simp add: filled_def V_def ac_simps)
  have V: "blocks r V" using blocks_funpow [OF B(1)] by (simp add: V_def)
  define Y where "Y = map2 (map2 (XOR)) X V"
  have Y: "blocks r Y" using blocks_xor [OF Cons.prems(1) V] by (simp add: Y_def)
  obtain t where t: "VectorMix pfn Y tmp r rounds = Inr (scryptBlockMix H Y, t)" "length t = 2 * r"
    using VectorMix_blocks [OF Y Cons.prems(2)] by blast
  have g: "scryptBlockMix H Y = g X" by (simp add: g_def Y_def V_def j_def)
  have "32 * r * 1 \<le> 32 * r * n" using n(1) by (intro mult_le_mono2) simp
  then have "32 * r < 2 ^ 31" using n(2) by linarith
  then have f: "fits_int (32 * r) = Inr (32 * r)" by simp
  have sz: "2 * r * 16 = 32 * r" by simp
  have "\<not> (int (32 * r * j) < 0 \<or> length v < 32 * r * j + 32 * r)"
    using room of_nat_0_le_iff [of "32 * r * j", where 'a = int] by linarith
  then have step: "lookup_step pfn r rounds n i (X, tmp, v) = Inr (g X, t, v)"
    unfolding lookup_step_def prod.case f bind_res_simps Let_def j nat_int sz rd chunks_xor [OF Cons.prems(1) V] Y_def [symmetric] t(1)
    by (simp only: if_False prod.case bind_res_simps g)
  have "blocks r (g X)" using blocks_mix [OF Y] by (simp add: g)
  from Cons.IH [OF this t(2)] show ?case by (simp add: step funpow_swap1)
qed

lemma mix_loops_ROMix:
  assumes B: "blocks r B" "0 < r" and n: "n = 2 ^ p" "32 * r * n < 2 ^ 31"
    and v: "n * 32 * r \<le> length v" and tmp: "length tmp = 2 * r"
  shows "\<exists>tmp' v'. mix_loops pfn r rounds n (B, tmp, v) = Inr (scryptROMix H n B, tmp', v')
    \<and> length tmp' = 2 * r \<and> length v' = length v \<and> blocks r (scryptROMix H n B)"
proof -
  obtain t v' where fill: "fold_res (fill_step pfn r rounds) [0..<n] (B, tmp, v)
      = Inr ((scryptBlockMix H ^^ n) B, t, v')"
    "length t = 2 * r" "length v' = length v" "filled r B n v'"
    using fill_loop [OF B n(2) tmp v order_refl] by blast
  have room: "n * 32 * r \<le> length v'" using fill(3) v by simp
  have nth: "map (\<lambda>i. (scryptBlockMix H ^^ i) B) [0..<n] ! (Integerify X mod n) = (scryptBlockMix H ^^ (Integerify X mod n)) B" for X
    using n(1) by simp
  show ?thesis
    using lookup_loop [OF B n room fill(4) blocks_funpow [OF B(1), of n] fill(2), of "[0..<n]"] fill
    unfolding scryptROMix_def Let_def nth by (auto simp: mix_loops_def)
qed

end

interpretation salsa8: mixing_core Salsa20Core 8 "salsa20_hash 4"
  using Salsa20Core_eq [of _ 4] by unfold_locales simp_all

interpretation salsa: mixing_core Salsa20Core "2 * n" "salsa20_hash n" for n
  by unfold_locales (simp_all only: Salsa20Core_eq length_core_hash)

interpretation chacha: mixing_core ChaCha20Core "2 * n" "chacha_hash n" for n
  by unfold_locales (simp_all only: ChaCha20Core_eq length_core_hash)

section \<open>Key derivation is that of the RFC\<close>

lemma sha2_HashBlock_length: "length (sha2_HashBlock S0 S1 s0 s1 k n p w) = 8"
  by (simp add: sha2_HashBlock_def split: prod.split)

lemma length_hash_SHA256 [simp]: "length (hash_spec SHA256 m) = 32"
proof -
  have fold8: "length (hash_fold SHA256 h bs) = 8" if "length h = 8" for h bs
    using that by (induction bs arbitrary: h)
      (auto simp: hash_fold_def PrepareEndiannessAndHashBlock_def sha_classes SHA256_HashBlock_def
        sha2_HashBlock_length)
  have len: "length (concat (map (bytes_be 4) ws)) = 4 * length ws" for ws :: "u32 list"
    by (induction ws) simp_all
  have "length (InitHash SHA256) = 8" by (simp add: sha_classes g_sha256_hinit_def)
  then show ?thesis using fold8 [of "InitHash SHA256" "hash_blocks SHA256 0 m"]
    by (simp add: hash_spec_def hash_output_words sha_classes len)
qed

lemma SHA256_sizes: "BlockSize SHA256 = 64" "HashSize SHA256 = 32"
  by (simp_all add: sha_classes)

lemma HMAC_SHA256: "HMAC SHA256 k x = Some (hmac_rfc2104 (hash_spec SHA256) 64 k x)"
  using HMAC_spec [of SHA256 k x] by (simp add: SHA256_sizes)

lemma prf_SHA256: "HmacPseudoRandomFunction SHA256 = hmac_rfc2104 (hash_spec SHA256) 64"
  by (intro ext) (simp add: HmacPseudoRandomFunction_def HMAC_SHA256)

lemma PBKDF2_SHA256:
  assumes "dkLen \<le> 32 * 0xFFFFFFFE"
  shows "PBKDF2 (HmacPseudoRandomFunction SHA256) (HashSize SHA256) P S 1 dkLen = Inr (pbkdf2_hmac_sha256 P S dkLen)"
proof -
  define f where "f = hmac_rfc2104 (hash_spec SHA256) 64"
  have len: "length (f k x) = 32" for k x by (simp add: f_def hmac_rfc2104_def Let_def)
  have e: "dkLen + 32 - 1 = dkLen + 31" "unat (1 :: u32) = 1" by simp_all
  have "PBKDF2 f 32 P S 1 dkLen = Inr (take dkLen (concat (map (pbkdf2_F f P S 1) [1..<(dkLen + 31) div 32 + 1])))"
    using PBKDF2_blocks [of f 32 dkLen P S 1, OF len _ assms] unfolding e by (simp only: zero_less_numeral simp_thms)
  then show ?thesis by (simp only: prf_SHA256 SHA256_sizes pbkdf2_hmac_sha256_def f_def)
qed

lemma length_pbkdf2_hmac: "length (pbkdf2_hmac_sha256 P S d) = d"
proof -
  have "length (pbkdf2_F (hmac_rfc2104 (hash_spec SHA256) 64) P S 1 i) = 32" for i
    by (rule length_pbkdf2_F) (simp add: hmac_rfc2104_def Let_def)
  then have "length (concat (map (pbkdf2_F (hmac_rfc2104 (hash_spec SHA256) 64) P S 1) [1..<n + 1])) = n * 32" for n
    by (induction n) simp_all
  moreover have "d \<le> (d + 31) div 32 * 32" by presburger
  ultimately show ?thesis by (simp add: pbkdf2_hmac_sha256_def del: upt_Suc)
qed

text \<open>Bytes and words.\<close>

lemma length_words_of: "4 dvd length bs \<Longrightarrow> length (words_of bs) = length bs div 4"
  using chunks_dvd(1) [of 4 bs] by (simp add: words_of_def)

lemma length_bytes_of [simp]: "length (bytes_of ws) = 4 * length ws"
  by (induction ws) (simp_all add: bytes_of_def)

lemma words_bytes [simp]: "words_of (bytes_of ws) = ws"
proof -
  have "chunks 4 (bytes_of ws) = map (bytes_le 4) ws"
    using chunks_of_concat [of "map (bytes_le 4) ws" 4] by (simp add: bytes_of_def)
  then show ?thesis by (simp add: words_of_def comp_def)
qed

text \<open>What \<open>Scrypt\<close> makes of one block of the derived key.\<close>

definition mixed :: "nat \<Rightarrow> byte list \<Rightarrow> byte list" where
  "mixed n b = bytes_of (concat (scryptROMix (salsa20_hash 4) n (chunks 16 (words_of b))))"

lemma Scrypt_block_mixed:
  assumes n: "n = 2 ^ k" "32 * r * n < 2 ^ 31" "0 < r" and v: "n * 32 * r \<le> length v" and tmp: "length tmp = 2 * r"
    and A: "length A = i * (r * 128)" and b: "length b = r * 128"
  shows "\<exists>tmp' v'. Scrypt_block n r i (A @ b @ C, tmp, v) = Inr (A @ mixed n b @ C, tmp', v')
    \<and> length tmp' = 2 * r \<and> length v' = length v \<and> length (mixed n b) = r * 128"
proof -
  define x where "x = chunks 16 (words_of b)"
  have "4 dvd length b" using b by simp
  then have "length (words_of b) = 32 * r" using length_words_of [of b] b by simp
  then have x: "blocks r x" by (simp add: x_def blocks_chunks)
  obtain t v' where m: "mix_loops Salsa20Core r 8 n (x, tmp, v) = Inr (scryptROMix (salsa20_hash 4) n x, t, v')"
    "length t = 2 * r" "length v' = length v" "blocks r (scryptROMix (salsa20_hash 4) n x)"
    using salsa8.mix_loops_ROMix [OF x n(3,1,2) v tmp] by blast
  have l: "length (mixed n b) = r * 128"
    using length_flat_blocks [OF m(4)] by (simp add: mixed_def x_def)
  have "take (r * 128) (drop (i * (r * 128)) (A @ b @ C)) = b" using A b by simp
  moreover have "put_bytes (i * (r * 128)) (mixed n b) (A @ b @ C) = A @ mixed n b @ C"
    using A b l by (simp add: put_bytes_def)
  ultimately have "Scrypt_block n r i (A @ b @ C, tmp, v) = Inr (A @ mixed n b @ C, t, v')"
    using m(1) by (simp add: Scrypt_block_def Let_def x_def mixed_def)
  then show ?thesis using m(2,3) l by blast
qed

lemma Scrypt_blocks_mixed:
  assumes n: "n = 2 ^ k" "32 * r * n < 2 ^ 31" "0 < r" and v: "n * 32 * r \<le> length v" and tmp: "length tmp = 2 * r"
    and "length A = i * (r * 128)" and "\<forall>b\<in>set bs. length b = r * 128"
  shows "\<exists>tmp' v'. fold_res (Scrypt_block n r) [i..<i + length bs] (A @ concat bs, tmp, v)
    = Inr (A @ concat (map (mixed n) bs), tmp', v')"
  using v tmp assms(6,7)
proof (induction bs arbitrary: i A tmp v)
  case Nil
  then show ?case by simp
next
  case (Cons b bs)
  have b: "length b = r * 128" using Cons.prems(4) by simp
  obtain t v' where s: "Scrypt_block n r i (A @ b @ concat bs, tmp, v) = Inr (A @ mixed n b @ concat bs, t, v')"
    "length t = 2 * r" "length v' = length v" "length (mixed n b) = r * 128"
    using Scrypt_block_mixed [OF n Cons.prems(1-3) b, of "concat bs"] by blast
  have "length (A @ mixed n b) = Suc i * (r * 128)" using s(4) Cons.prems(3) by simp
  moreover have "n * 32 * r \<le> length v'" using s(3) Cons.prems(1) by simp
  ultimately obtain t' v'' where
    "fold_res (Scrypt_block n r) [Suc i..<Suc i + length bs] ((A @ mixed n b) @ concat bs, t, v')
      = Inr ((A @ mixed n b) @ concat (map (mixed n) bs), t', v'')"
    using Cons.IH [of v' t "A @ mixed n b" "Suc i"] s(2) Cons.prems(4) by auto
  moreover have "[i..<i + length (b # bs)] = i # [Suc i..<Suc i + length bs]"
    by (simp add: upt_conv_Cons del: upt_Suc)
  ultimately show ?case by (simp add: s(1) del: upt_Suc)
qed

lemma Scrypt_rfc:
  assumes n: "n = 2 ^ k" "0 < r" and am: "(n + 1) * r * 128 < 2 ^ 31"
    and v: "length (mem ((n + 1) * r * 128)) = (n + 1) * r * 128 div 4" and tmp: "length tmp = 2 * r"
    and p: "p * 128 * r \<le> 32 * 0xFFFFFFFE" and d: "dkLen \<le> 32 * 0xFFFFFFFE"
  shows "Scrypt tmp mem P S n r p dkLen = Inr (scrypt_rfc7914 P S n r p dkLen)"
proof -
  have s: "fits_int (r * 128) = Inr (r * 128)" "fits_int (n + 1) = Inr (n + 1)"
    "fits_int ((n + 1) * r) = Inr ((n + 1) * r)" "fits_int ((n + 1) * r * 128) = Inr ((n + 1) * r * 128)"
    and cost: "32 * r * n < 2 ^ 31"
  proof -
    have "(n + 1) * 1 \<le> (n + 1) * r" using n(2) by (intro mult_le_mono2) simp
    then have b: "n + 1 \<le> (n + 1) * r" by (simp only: mult_1_right)
    have c: "(n + 1) * r = n * r + r" by (simp add: algebra_simps)
    have e: "32 * r * n = 32 * (n * r)" by (simp add: ac_simps)
    show "fits_int (r * 128) = Inr (r * 128)" using am c by (intro fits_int_Inr) linarith
    show "fits_int (n + 1) = Inr (n + 1)" using am b by (intro fits_int_Inr) linarith
    show "fits_int ((n + 1) * r) = Inr ((n + 1) * r)" using am by (intro fits_int_Inr) linarith
    show "fits_int ((n + 1) * r * 128) = Inr ((n + 1) * r * 128)" using am by (rule fits_int_Inr)
    show "32 * r * n < 2 ^ 31" using am c e by linarith
  qed
  have v: "n * 32 * r \<le> length (mem ((n + 1) * r * 128))" unfolding v by (simp add: algebra_simps)
  define B where "B = pbkdf2_hmac_sha256 P S (p * 128 * r)"
  have B: "PBKDF2 (HmacPseudoRandomFunction SHA256) (HashSize SHA256) P S 1 (p * (r * 128)) = Inr B"
    using PBKDF2_SHA256 [OF p, of P S] by (simp add: B_def ac_simps)
  have lB: "length B = p * (128 * r)" by (simp add: B_def length_pbkdf2_hmac)
  define bs where "bs = chunks (128 * r) B"
  have "length bs = p" "\<forall>b\<in>set bs. length b = r * 128"
    using chunks_dvd [of "128 * r" B] n(2) lB by (simp_all add: bs_def)
  moreover have "concat bs = B" using concat_chunks [of "128 * r" B] n(2) by (simp add: bs_def)
  ultimately obtain t' v' where
    "fold_res (Scrypt_block n r) [0..<p] (B, tmp, mem ((n + 1) * r * 128)) = Inr (concat (map (mixed n) bs), t', v')"
    using Scrypt_blocks_mixed [OF n(1) cost n(2) v tmp, of "[]" 0 bs] by auto
  then show ?thesis
    using PBKDF2_SHA256 [OF d]
    unfolding Scrypt_def scrypt_rfc7914_def Let_def s bind_res_simps B B_def [symmetric] bs_def mixed_def
    by simp
qed

lemma Scrypt_overflow:
  assumes am: "2 ^ 31 \<le> (n + 1) * r * 128" and p: "p * 128 * r \<le> 32 * 0xFFFFFFFE"
  shows "Scrypt tmp mem P S n r p dkLen = Inl Overflow"
proof (cases "r * 128 < 2 ^ 31")
  case True
  have B: "PBKDF2 (HmacPseudoRandomFunction SHA256) (HashSize SHA256) P S 1 (p * (r * 128))
      = Inr (pbkdf2_hmac_sha256 P S (p * 128 * r))"
    using PBKDF2_SHA256 [OF p, of P S] by (simp add: ac_simps)
  have "bind_res (fits_int (n + 1)) (\<lambda>k. bind_res (fits_int (k * r)) (\<lambda>k. bind_res (fits_int (k * 128)) f)) = Inl Overflow"
    for f :: "nat \<Rightarrow> byte list res"
    by (cases "n + 1 < 2 ^ 31"; cases "(n + 1) * r < 2 ^ 31") (use am in \<open>simp_all add: fits_int_def\<close>)
  then show ?thesis using True unfolding Scrypt_def Let_def by (simp only: fits_int_Inr bind_res_simps B)
qed (simp add: Scrypt_def fits_int_def)

lemma hmac_hashed_key:
  assumes "64 < length key"
  shows "hmac_rfc2104 (hash_spec SHA256) 64 (hash_spec SHA256 key) x = hmac_rfc2104 (hash_spec SHA256) 64 key x"
  using assms by (simp add: hmac_rfc2104_def hmac_key_def)

lemma pbkdf2_F_once: "pbkdf2_F f P S 1 = (\<lambda>i. f P (S @ bytes_be 4 (of_nat i :: u32)))"
  by (rule ext) (simp add: pbkdf2_F_def)

lemma CalcSCryptHash_rfc:
  assumes "length pw = 80" and tmp: "length tmp = 2" and v: "1024 * 32 \<le> length scratch"
  shows "CalcSCryptHash tmp scratch pw = Inr (words_of (scrypt_rfc7914 pw pw 1024 1 1 32))"
proof -
  define f where "f = hmac_rfc2104 (hash_spec SHA256) 64 pw"
  have ih: "the (ComputeHash SHA256 pw) = hash_spec SHA256 pw" by (simp add: ComputeHash_spec)
  have calc: "CalcPbkdf2Hash (hash_spec SHA256 pw) d i = f (d @ bytes_be 4 i)" for d i
    using assms(1) by (simp add: CalcPbkdf2Hash_def prf_SHA256 hmac_hashed_key f_def)
  have lf: "length (f x) = 32" for x by (simp add: f_def hmac_rfc2104_def Let_def)
  have pb: "pbkdf2_hmac_sha256 pw S d = take d (concat (map (\<lambda>i. f (S @ bytes_be 4 (of_nat i :: u32))) [1..<(d + 31) div 32 + 1]))" for S d
    by (simp only: pbkdf2_hmac_sha256_def pbkdf2_F_once f_def)
  define B where "B = concat (map (\<lambda>i. f (pw @ bytes_be 4 (of_nat (i + 1) :: u32))) [0..<4])"
  have r4: "[0..<4] = [0, 1, 2, 3]" "[Suc 0..<5] = [1, 2, 3, 4]" by (simp_all add: upt_conv_Cons)
  have B: "pbkdf2_hmac_sha256 pw pw 128 = B" "length B = 128"
    by (simp_all add: pb B_def r4 lf)
  define x where "x = chunks 16 (words_of B)"
  have x: "blocks 1 x" using blocks_chunks [of "words_of B" 1] length_words_of [of B] B(2) by (simp add: x_def)
  obtain t v' where m: "mix_loops Salsa20Core 1 8 1024 (x, tmp, scratch) = Inr (scryptROMix (salsa20_hash 4) 1024 x, t, v')"
    using salsa8.mix_loops_ROMix [OF x, of 1024 10 scratch tmp] tmp v by auto
  have "chunks 128 B = [B]" using chunks_append [of B 128 "[]"] B(2) by simp
  moreover have "pbkdf2_hmac_sha256 pw S 32 = f (S @ bytes_be 4 (1 :: u32))" for S by (simp add: pb lf)
  moreover have "concat (map (\<lambda>i. CalcPbkdf2Hash (hash_spec SHA256 pw) pw (of_nat (i + 1))) [0..<4]) = B"
    by (simp only: calc B_def)
  ultimately show ?thesis
    using m unfolding CalcSCryptHash_def Let_def ih
    by (simp add: calc ScryptCore_def NeoScryptCore_def x_def scrypt_rfc7914_def B(1))
qed

section \<open>Properties\<close>

text \<open>
  C3: \<open>Scrypt\<close> is the key derivation of RFC 7914, over HMAC-SHA-256 and Salsa20/8, for every cost \<open>n\<close>
  that is a power of two and every \<open>r\<close> and \<open>p\<close> for which the size of the table, an \<open>int\<close> product
  in the code, is less than \<open>2 ^ 31\<close> bytes, whatever the memory of that size holds at the start; from
  \<open>2 ^ 31\<close> on that product overflows, which is undefined.  The shorter \<open>CalcSCryptHash\<close> of
  80-byte block headers, which hashes the password once and mixes in place, is the case
  \<open>n = 1024, r = p = 1\<close>.
\<close>

theorem Scrypt_is_rfc7914:
  assumes "n = 2 ^ k" and "0 < r" and "\<forall>size. length (mem size) = size div 4" and "length tmp = 2 * r"
    and "p * 128 * r \<le> 32 * 0xFFFFFFFE" and "dkLen \<le> 32 * 0xFFFFFFFE"
    and "length header = 80" and "length tmp2 = 2" and "length scratch = 1024 * 32 + 32"
  shows "Scrypt tmp mem password salt n r p dkLen
      = (if (n + 1) * r * 128 < 2 ^ 31 then Inr (scrypt_rfc7914 password salt n r p dkLen) else Inl Overflow)
    \<and> CalcSCryptHash tmp2 scratch header = Inr (words_of (scrypt_rfc7914 header header 1024 1 1 32))"
proof
  show "Scrypt tmp mem password salt n r p dkLen
      = (if (n + 1) * r * 128 < 2 ^ 31 then Inr (scrypt_rfc7914 password salt n r p dkLen) else Inl Overflow)"
  proof (cases "(n + 1) * r * 128 < 2 ^ 31")
    case True
    then show ?thesis
      using Scrypt_rfc [OF assms(1,2) True _ assms(4-6), of mem] assms(3) by (simp only: if_True)
  next
    case False
    then have "2 ^ 31 \<le> (n + 1) * r * 128" by (simp only: not_less)
    from Scrypt_overflow [OF this assms(5)] show ?thesis using False by (simp only: if_False)
  qed
  show "CalcSCryptHash tmp2 scratch header = Inr (words_of (scrypt_rfc7914 header header 1024 1 1 32))"
    using assms(7-9) by (intro CalcSCryptHash_rfc) simp_all
qed

theorem Scrypt_is_rfc7914_witness:
  "Scrypt (replicate 16 []) (\<lambda>size. replicate (size div 4) 7) [112] [115] 16 8 1 64
      = Inr (scrypt_rfc7914 [112] [115] 16 8 1 64)
    \<and> CalcSCryptHash [[], []] (replicate (1024 * 32 + 32) 0) (replicate 80 1)
      = Inr (words_of (scrypt_rfc7914 (replicate 80 1) (replicate 80 1) 1024 1 1 32))"
proof -
  have k: "(16 :: nat) = 2 ^ 4" by simp
  show ?thesis
    using Scrypt_is_rfc7914 [OF k, of 8 "\<lambda>size. replicate (size div 4) 7" "replicate 16 []" 1 64 "replicate 80 1"
        "[[], []]" "replicate (1024 * 32 + 32) 0" "[112]" "[115]"] by simp
qed

end
