(* ===== verification/NeoSha.thy ===== *)
theory NeoSha
  imports Scrypt
begin

text \<open>
  The incremental SHA-256, HMAC and PBKDF2 of \<open>src/crypto/neoscrypt.cpp\<close>, a second implementation of
  functions that \<open>Sha\<close> and \<open>Hash\<close> model: a hash state takes its message in pieces.  They are shown to
  agree with the standards, however the message is cut.
\<close>

unbundle bit_operations_syntax

section \<open>The macros\<close>

definition ROTR32 :: "u32 \<Rightarrow> nat \<Rightarrow> u32" where
  "ROTR32 a b = drop_bit b a OR push_bit (32 - b) a"

definition U8TO32_BE :: "byte list \<Rightarrow> u32" where
  "U8TO32_BE p = push_bit 24 (ucast (p ! 0)) OR push_bit 16 (ucast (p ! 1)) OR push_bit 8 (ucast (p ! 2))
     OR ucast (p ! 3)"

definition U32TO8_BE :: "u32 \<Rightarrow> byte list" where
  "U32TO8_BE v = [ucast (drop_bit 24 v), ucast (drop_bit 16 v), ucast (drop_bit 8 v), ucast v]"

definition U64TO8_BE :: "u64 \<Rightarrow> byte list" where
  "U64TO8_BE v = U32TO8_BE (ucast (drop_bit 32 v)) @ U32TO8_BE (ucast v)"

definition SCRYPT_HASH_BLOCK_SIZE :: nat where
  "SCRYPT_HASH_BLOCK_SIZE = 64"

definition SCRYPT_HASH_DIGEST_SIZE :: nat where
  "SCRYPT_HASH_DIGEST_SIZE = 32"

definition sha256_constants :: "u32 list" where
  "sha256_constants = [
    0x428A2F98, 0x71374491, 0xB5C0FBCF, 0xE9B5DBA5, 0x3956C25B, 0x59F111F1, 0x923F82A4, 0xAB1C5ED5,
    0xD807AA98, 0x12835B01, 0x243185BE, 0x550C7DC3, 0x72BE5D74, 0x80DEB1FE, 0x9BDC06A7, 0xC19BF174,
    0xE49B69C1, 0xEFBE4786, 0x0FC19DC6, 0x240CA1CC, 0x2DE92C6F, 0x4A7484AA, 0x5CB0A9DC, 0x76F988DA,
    0x983E5152, 0xA831C66D, 0xB00327C8, 0xBF597FC7, 0xC6E00BF3, 0xD5A79147, 0x06CA6351, 0x14292967,
    0x27B70A85, 0x2E1B2138, 0x4D2C6DFC, 0x53380D13, 0x650A7354, 0x766A0ABB, 0x81C2C92E, 0x92722C85,
    0xA2BFE8A1, 0xA81A664B, 0xC24B8B70, 0xC76C51A3, 0xD192E819, 0xD6990624, 0xF40E3585, 0x106AA070,
    0x19A4C116, 0x1E376C08, 0x2748774C, 0x34B0BCB5, 0x391C0CB3, 0x4ED8AA4A, 0x5B9CCA4F, 0x682E6FF3,
    0x748F82EE, 0x78A5636F, 0x84C87814, 0x8CC70208, 0x90BEFFFA, 0xA4506CEB, 0xBEF9A3F7, 0xC67178F2]"

definition neo_Ch :: "u32 \<Rightarrow> u32 \<Rightarrow> u32 \<Rightarrow> u32" where
  "neo_Ch x y z = z XOR (x AND (y XOR z))"

definition neo_Maj :: "u32 \<Rightarrow> u32 \<Rightarrow> u32 \<Rightarrow> u32" where
  "neo_Maj x y z = ((x OR y) AND z) OR (x AND y)"

definition neo_S0 :: "u32 \<Rightarrow> u32" where
  "neo_S0 x = ROTR32 x 2 XOR ROTR32 x 13 XOR ROTR32 x 22"

definition neo_S1 :: "u32 \<Rightarrow> u32" where
  "neo_S1 x = ROTR32 x 6 XOR ROTR32 x 11 XOR ROTR32 x 25"

definition neo_G0 :: "u32 \<Rightarrow> u32" where
  "neo_G0 x = ROTR32 x 7 XOR ROTR32 x 18 XOR drop_bit 3 x"

definition neo_G1 :: "u32 \<Rightarrow> u32" where
  "neo_G1 x = ROTR32 x 17 XOR ROTR32 x 19 XOR drop_bit 10 x"

definition neo_W0 :: "byte list \<Rightarrow> nat \<Rightarrow> u32" where
  "neo_W0 in' i = U8TO32_BE (drop (i * 4) in')"

definition neo_W1 :: "u32 list \<Rightarrow> nat \<Rightarrow> u32" where
  "neo_W1 w i = neo_G1 (w ! (i - 2)) + w ! (i - 7) + neo_G0 (w ! (i - 15)) + w ! (i - 16)"

definition neo_STEP :: "u32 list \<Rightarrow> nat \<Rightarrow> u32 list \<Rightarrow> u32 list" where
  "neo_STEP w i r = (let
     t1 = neo_S0 (r ! 0) + neo_Maj (r ! 0) (r ! 1) (r ! 2);
     t0 = r ! 7 + neo_S1 (r ! 4) + neo_Ch (r ! 4) (r ! 5) (r ! 6) + sha256_constants ! i + w ! i
   in [t0 + t1, r ! 0, r ! 1, r ! 2, r ! 3 + t0, r ! 4, r ! 5, r ! 6])"

section \<open>The hash state\<close>

record sha256_hash_state =
  neo_H :: "u32 list"
  neo_T :: u64
  neo_leftover :: nat
  neo_buffer :: "byte list"

definition neo_schedule :: "byte list \<Rightarrow> u32 list" where
  "neo_schedule in' = fold (\<lambda>i w. w @ [neo_W1 w i]) [16..<64] (map (neo_W0 in') [0..<16])"

fun sha256_blocks :: "sha256_hash_state \<Rightarrow> byte list \<Rightarrow> nat \<Rightarrow> sha256_hash_state" where
  "sha256_blocks S in' 0 = S"
| "sha256_blocks S in' (Suc n) = (let
     r = fold (neo_STEP (neo_schedule in')) [0..<64] (neo_H S);
     S = S\<lparr>neo_H := map2 (+) r (neo_H S), neo_T := neo_T S + of_nat (SCRYPT_HASH_BLOCK_SIZE * 8)\<rparr>
   in sha256_blocks S (drop SCRYPT_HASH_BLOCK_SIZE in') n)"

text \<open>The buffer is not initialised.\<close>

definition neoscrypt_hash_init_sha256 :: "byte list \<Rightarrow> sha256_hash_state" where
  "neoscrypt_hash_init_sha256 buffer = \<lparr>neo_H = [0x6A09E667, 0xBB67AE85, 0x3C6EF372, 0xA54FF53A,
     0x510E527F, 0x9B05688C, 0x1F83D9AB, 0x5BE0CD19], neo_T = 0, neo_leftover = 0, neo_buffer = buffer\<rparr>"

text \<open>What follows the leftover of earlier pieces: whole blocks, and a new leftover.\<close>

definition neo_update_rest :: "sha256_hash_state \<Rightarrow> byte list \<Rightarrow> sha256_hash_state" where
  "neo_update_rest S in' = (let
     inlen = length in';
     blocks = inlen - inlen mod SCRYPT_HASH_BLOCK_SIZE;
     S = S\<lparr>neo_leftover := inlen - blocks\<rparr>;
     S = (if blocks \<noteq> 0 then sha256_blocks S in' (blocks div SCRYPT_HASH_BLOCK_SIZE) else S);
     in' = drop blocks in'
   in if neo_leftover S \<noteq> 0 then S\<lparr>neo_buffer := put_bytes 0 (take (neo_leftover S) in') (neo_buffer S)\<rparr>
      else S)"

definition neoscrypt_hash_update_sha256 :: "sha256_hash_state \<Rightarrow> byte list \<Rightarrow> sha256_hash_state" where
  "neoscrypt_hash_update_sha256 S in' =
     (if neo_leftover S \<noteq> 0 then let
        want = min (SCRYPT_HASH_BLOCK_SIZE - neo_leftover S) (length in');
        S = S\<lparr>neo_buffer := put_bytes (neo_leftover S) (take want in') (neo_buffer S),
              neo_leftover := neo_leftover S + want\<rparr>
      in if neo_leftover S < SCRYPT_HASH_BLOCK_SIZE then S
         else neo_update_rest (sha256_blocks S (neo_buffer S) 1) (drop want in')
      else neo_update_rest S in')"

definition neoscrypt_hash_finish_sha256 :: "sha256_hash_state \<Rightarrow> sha256_hash_state \<times> byte list" where
  "neoscrypt_hash_finish_sha256 S = (let
     t = neo_T S + of_nat (neo_leftover S * 8);
     S = S\<lparr>neo_buffer := (neo_buffer S)[neo_leftover S := 0x80]\<rparr>;
     S = (if neo_leftover S \<le> 55
       then S\<lparr>neo_buffer := put_bytes (neo_leftover S + 1) (replicate (55 - neo_leftover S) 0) (neo_buffer S)\<rparr>
       else let
         S = S\<lparr>neo_buffer := put_bytes (neo_leftover S + 1) (replicate (63 - neo_leftover S) 0) (neo_buffer S)\<rparr>;
         S = sha256_blocks S (neo_buffer S) 1
       in S\<lparr>neo_buffer := put_bytes 0 (replicate 56 0) (neo_buffer S)\<rparr>);
     S = S\<lparr>neo_buffer := put_bytes 56 (U64TO8_BE t) (neo_buffer S)\<rparr>;
     S = sha256_blocks S (neo_buffer S) 1
   in (S, concat (map U32TO8_BE (take 8 (neo_H S)))))"

definition neoscrypt_hash_sha256 :: "byte list \<Rightarrow> byte list \<Rightarrow> byte list" where
  "neoscrypt_hash_sha256 buffer m = (let
     st = neoscrypt_hash_init_sha256 buffer;
     st = neoscrypt_hash_update_sha256 st m
   in snd (neoscrypt_hash_finish_sha256 st))"

section \<open>HMAC and PBKDF2\<close>

record sha256_hmac_state =
  hmac_inner :: sha256_hash_state
  hmac_outer :: sha256_hash_state

definition neoscrypt_hmac_init_sha256 :: "byte list \<Rightarrow> byte list \<Rightarrow> sha256_hmac_state" where
  "neoscrypt_hmac_init_sha256 buffer key = (let
     pad = replicate SCRYPT_HASH_BLOCK_SIZE 0;
     inner = neoscrypt_hash_init_sha256 buffer;
     outer = neoscrypt_hash_init_sha256 buffer;
     pad = (if length key \<le> SCRYPT_HASH_BLOCK_SIZE then put_bytes 0 key pad
            else put_bytes 0 (neoscrypt_hash_sha256 buffer key) pad);
     pad = map (\<lambda>b. b XOR 0x36) pad;
     inner = neoscrypt_hash_update_sha256 inner pad;
     pad = map (\<lambda>b. b XOR (0x5c XOR 0x36)) pad;
     outer = neoscrypt_hash_update_sha256 outer pad
   in \<lparr>hmac_inner = inner, hmac_outer = outer\<rparr>)"

definition neoscrypt_hmac_update_sha256 :: "sha256_hmac_state \<Rightarrow> byte list \<Rightarrow> sha256_hmac_state" where
  "neoscrypt_hmac_update_sha256 st m = st\<lparr>hmac_inner := neoscrypt_hash_update_sha256 (hmac_inner st) m\<rparr>"

definition neoscrypt_hmac_finish_sha256 :: "sha256_hmac_state \<Rightarrow> byte list" where
  "neoscrypt_hmac_finish_sha256 st = (let
     (inner, innerhash) = neoscrypt_hash_finish_sha256 (hmac_inner st);
     outer = neoscrypt_hash_update_sha256 (hmac_outer st) innerhash
   in snd (neoscrypt_hash_finish_sha256 outer))"

text \<open>
  The iterations after the first.  Their 32-bit counter never reaches \<open>N - 1\<close> when \<open>N\<close> is zero or
  beyond \<open>2 ^ 32\<close>; then the function does not return.
\<close>

fun neo_pbkdf2_inner :: "sha256_hmac_state \<Rightarrow> nat \<Rightarrow> byte list \<times> byte list \<Rightarrow> byte list \<times> byte list" where
  "neo_pbkdf2_inner hmac_pw 0 s = s"
| "neo_pbkdf2_inner hmac_pw (Suc n) (u, ti) = (let
     u = neoscrypt_hmac_finish_sha256 (neoscrypt_hmac_update_sha256 hmac_pw u)
   in neo_pbkdf2_inner hmac_pw n (u, map2 (XOR) ti u))"

definition neo_pbkdf2_block ::
  "sha256_hmac_state \<Rightarrow> sha256_hmac_state \<Rightarrow> nat \<Rightarrow> nat \<Rightarrow> byte list" where
  "neo_pbkdf2_block hmac_pw hmac_pw_salt N i = (let
     ti = neoscrypt_hmac_finish_sha256 (neoscrypt_hmac_update_sha256 hmac_pw_salt (U32TO8_BE (of_nat i)))
   in snd (neo_pbkdf2_inner hmac_pw (N - 1) (ti, ti)))"

definition neoscrypt_pbkdf2_sha256 ::
  "byte list \<Rightarrow> byte list \<Rightarrow> byte list \<Rightarrow> nat \<Rightarrow> nat \<Rightarrow> byte list option" where
  "neoscrypt_pbkdf2_sha256 buffer password salt N output_len = (let
     hmac_pw = neoscrypt_hmac_init_sha256 buffer password;
     hmac_pw_salt = neoscrypt_hmac_update_sha256 hmac_pw salt;
     blocks = unat ((of_nat output_len + (of_nat SCRYPT_HASH_DIGEST_SIZE - 1)) div of_nat SCRYPT_HASH_DIGEST_SIZE :: u32)
   in if 0 < blocks \<and> (N = 0 \<or> 2 ^ 32 < N) then None
      else Some (concat (map (\<lambda>i. take (min SCRYPT_HASH_DIGEST_SIZE (output_len - (i - 1) * SCRYPT_HASH_DIGEST_SIZE))
             (neo_pbkdf2_block hmac_pw hmac_pw_salt N i)) [1..<blocks + 1])))"

section \<open>The block function is that of FIPS 180-4\<close>

lemma ROTR32_rotr:
  assumes "0 < b" and "b < 32"
  shows "ROTR32 a b = word_rotr b a"
proof (rule bit_word_eqI)
  fix i
  assume "i < LENGTH(32)"
  then have i: "i < 32" by simp
  have l: "LENGTH(32) = 32" by simp
  have rot: "bit (word_rotr b a) i \<longleftrightarrow> bit a ((i + b) mod 32)"
    using bit_word_rotr_iff [of b a i] i unfolding l by simp
  have or: "bit (ROTR32 a b) i \<longleftrightarrow> bit a (b + i) \<or> 32 - b \<le> i \<and> bit a (i - (32 - b))"
    using i unfolding ROTR32_def bit_or_iff bit_push_bit_iff bit_drop_bit_eq comp_def l by simp
  show "bit (ROTR32 a b) i = bit (word_rotr b a) i"
  proof (cases "b + i < 32")
    case True
    then have "\<not> 32 - b \<le> i" by linarith
    then show ?thesis unfolding rot or using True by (simp add: add.commute)
  next
    case False
    then have "(i + b) mod 32 = i - (32 - b)" using assms i by (simp add: mod_if)
    moreover have "\<not> bit a (b + i)" using False bit_imp_le_length [of a "b + i"] unfolding l by auto
    ultimately show ?thesis unfolding rot or using False by auto
  qed
qed

lemma U8TO32_BE_be: "4 \<le> length p \<Longrightarrow> U8TO32_BE p = be32 (take 4 p)"
proof -
  assume "4 \<le> length p"
  then obtain a b c d q where p: "p = a # b # c # d # q"
    by (metis One_nat_def Suc_le_length_iff numeral_2_eq_2 numeral_3_eq_3 numeral_eq_Suc pred_numeral_simps(2) semiring_norm(26,27))
  have sh: "push_bit 8 (push_bit n x OR y) = push_bit (8 + n) x OR push_bit 8 y" for n and x y :: u32
    by (simp only: push_bit_or push_bit_push_bit)
  have "be32 [a, b, c, d] = push_bit 8 (push_bit 8 (push_bit 8 (ucast a) OR ucast b) OR ucast c) OR ucast d"
    by (simp only: be_word_def le_word_def rev.simps append.simps foldr.simps comp_def id_apply push_bit_of_0 or.left_neutral)
  also have "\<dots> = U8TO32_BE p"
    by (simp only: sh push_bit_or push_bit_push_bit or.assoc U8TO32_BE_def p) simp
  finally show ?thesis by (simp add: p)
qed

lemma U32TO8_BE_be: "U32TO8_BE v = bytes_be 4 v"
  by (simp add: U32TO8_BE_def bytes_be_def bytes_le_def upt_conv_Cons)

lemma U64TO8_BE_be: "U64TO8_BE v = bytes_be 8 v"
proof -
  have "ucast (drop_bit n (ucast (drop_bit m v) :: u32)) = (ucast (drop_bit (n + m) v) :: byte)" if "n + 8 \<le> 32" for n m
    using that by (intro bit_word_eqI) (auto simp: bit_simps ac_simps)
  from this [of 24 0] this [of 16 0] this [of 8 0] this [of 0 0]
    this [of 24 32] this [of 16 32] this [of 8 32] this [of 0 32] show ?thesis
    by (simp add: U64TO8_BE_def U32TO8_BE_def bytes_be_def bytes_le_def upt_conv_Cons)
qed

lemma neo_Ch_fips: "neo_Ch x y z = Ch x y z"
  by (rule bit_word_eqI) (auto simp: neo_Ch_def Ch_def bit_simps)

lemma neo_Maj_fips: "neo_Maj x y z = Maj x y z"
  by (rule bit_word_eqI) (auto simp: neo_Maj_def Maj_def bit_simps)

lemma sha256_constants_fips: "sha256_constants = g_sha256_k"
  by (simp only: sha256_constants_def g_sha256_k_def)

lemma neo_sums:
  "neo_S0 x = word_rotr 2 x XOR word_rotr 13 x XOR word_rotr 22 x"
  "neo_S1 x = word_rotr 6 x XOR word_rotr 11 x XOR word_rotr 25 x"
  "neo_G0 x = word_rotr 7 x XOR word_rotr 18 x XOR drop_bit 3 x"
  "neo_G1 x = word_rotr 17 x XOR word_rotr 19 x XOR drop_bit 10 x"
  by (simp_all only: neo_S0_def neo_S1_def neo_G0_def neo_G1_def ROTR32_rotr zero_less_numeral
      numeral_less_iff semiring_norm)

lemma neo_schedule_W:
  assumes "64 \<le> length in'"
  shows "neo_schedule in' = map (sha2_W (\<lambda>w. word_rotr 7 w XOR word_rotr 18 w XOR drop_bit 3 w)
     (\<lambda>w. word_rotr 17 w XOR word_rotr 19 w XOR drop_bit 10 w) (map be_word (chunks 4 (take 64 in')))) [0..<64]"
proof -
  define W where "W = sha2_W (\<lambda>w. word_rotr 7 w XOR word_rotr 18 w XOR drop_bit 3 w)
     (\<lambda>w :: u32. word_rotr 17 w XOR word_rotr 19 w XOR drop_bit 10 w) (map be_word (chunks 4 (take 64 in')))"
  have ch: "chunks 4 (take (4 * n) xs) = map (\<lambda>i. take 4 (drop (4 * i) xs)) [0..<n]"
    if "4 * n \<le> length xs" for n and xs :: "byte list"
    using that
  proof (induction n arbitrary: xs)
    case (Suc n)
    have "take (4 * Suc n) xs = take 4 xs @ take (4 * n) (drop 4 xs)"
      using Suc.prems by (simp add: take_add)
    then have "chunks 4 (take (4 * Suc n) xs) = take 4 xs # chunks 4 (take (4 * n) (drop 4 xs))"
      using Suc.prems by (simp add: chunks_append)
    also have "\<dots> = take 4 xs # map (\<lambda>i. take 4 (drop (4 * i) (drop 4 xs))) [0..<n]"
      using Suc by simp
    also have "\<dots> = map (\<lambda>i. take 4 (drop (4 * i) xs)) [0..<Suc n]"
      by (simp add: upt_conv_Cons map_Suc_upt [symmetric] add.commute del: upt_Suc)
    finally show ?case .
  qed simp
  have "neo_W0 in' i = W i" if "i < 16" for i
  proof -
    have "U8TO32_BE (drop (i * 4) in') = be32 (take 4 (drop (i * 4) in'))"
      using assms that by (intro U8TO32_BE_be) simp
    moreover have "W i = be32 (take 4 (drop (4 * i) in'))"
      unfolding W_def using that assms ch [of 16 in'] by (simp add: sha2_W.simps)
    ultimately show ?thesis by (simp add: neo_W0_def mult.commute)
  qed
  then have w0: "map (neo_W0 in') [0..<16] = map W [0..<16]" by simp
  have build: "fold (\<lambda>i w. w @ [neo_W1 w i]) [16..<16 + n] (map W [0..<16]) = map W [0..<16 + n]" for n
  proof (induction n)
    case (Suc n)
    have "neo_W1 (map W [0..<16 + n]) (16 + n) = W (16 + n)"
      unfolding W_def sha2_W.simps [of _ _ _ "16 + n"] by (simp add: neo_W1_def neo_sums add.commute)
    moreover have "[16..<16 + Suc n] = [16..<16 + n] @ [16 + n]" "[0..<16 + Suc n] = [0..<16 + n] @ [16 + n]"
      using upt_Suc_append [of 16 "16 + n"] upt_Suc_append [of 0 "16 + n"] by simp_all
    ultimately show ?case using Suc by (simp del: add_Suc_right)
  qed simp
  have e: "16 + 48 = (64 :: nat)" by simp
  show ?thesis unfolding neo_schedule_def w0 W_def [symmetric] by (rule build [of 48, unfolded e])
qed

lemma list8:
  assumes "length w = 8"
  obtains a b c d e f g h where "w = [a, b, c, d, e, f, g, h]"
  using assms by (auto simp: numeral_eq_Suc length_Suc_conv)

lemma neo_rounds_fips:
  assumes "length h = 8" and "64 \<le> length in'"
  shows "map2 (+) (fold (neo_STEP (neo_schedule in')) [0..<64] h) h
    = fips_sha256_compress h (map be_word (chunks 4 (take 64 in')))"
proof -
  define s0 where "s0 = (\<lambda>w :: u32. word_rotr 7 w XOR word_rotr 18 w XOR drop_bit 3 w)"
  define s1 where "s1 = (\<lambda>w :: u32. word_rotr 17 w XOR word_rotr 19 w XOR drop_bit 10 w)"
  define m :: "u32 list" where "m = map be_word (chunks 4 (take 64 in'))"
  define R where "R = (\<lambda>(r :: u32 list) (a, b, c, d, e, f, g, h). r = [a, b, c, d, e, f, g, h :: u32])"
  define S0 where "S0 = (\<lambda>a :: u32. word_rotr 2 a XOR word_rotr 13 a XOR word_rotr 22 a)"
  define S1 where "S1 = (\<lambda>e :: u32. word_rotr 6 e XOR word_rotr 11 e XOR word_rotr 25 e)"
  have w: "neo_schedule in' ! i = sha2_W s0 s1 m i" if "i < 64" for i
    using neo_schedule_W [OF assms(2)] that by (simp add: s0_def s1_def m_def)
  have fin: "R (fold (neo_STEP (neo_schedule in')) [0..<64] h)
     (fold (\<lambda>i. fips_sha2_round S0 S1 g_sha256_k i (sha2_W s0 s1 m i)) [0..<64]
        (h ! 0, h ! 1, h ! 2, h ! 3, h ! 4, h ! 5, h ! 6, h ! 7))"
  proof (rule fold_refine)
    show "R h (h ! 0, h ! 1, h ! 2, h ! 3, h ! 4, h ! 5, h ! 6, h ! 7)"
      using assms(1) by (elim list8) (simp add: R_def)
    show "R (neo_STEP (neo_schedule in') i r) (fips_sha2_round S0 S1 g_sha256_k i (sha2_W s0 s1 m i) t)"
      if "i \<in> set [0..<64]" "R r t" for i r t
    proof -
      obtain a b c d e f g k where t: "t = (a, b, c, d, e, f, g, k)" by (cases t) auto
      then have r: "r = [a, b, c, d, e, f, g, k]" using that(2) by (simp add: R_def)
      have i: "neo_schedule in' ! i = sha2_W s0 s1 m i" using that(1) w by simp
      show ?thesis unfolding r t
        by (simp add: R_def neo_STEP_def fips_sha2_round_def Let_def i neo_sums S0_def S1_def
          neo_Ch_fips neo_Maj_fips sha256_constants_fips add_ac)
    qed
  qed
  have e: "fips_sha256_compress h m = (case fold (\<lambda>i. fips_sha2_round S0 S1 g_sha256_k i (sha2_W s0 s1 m i)) [0..<64]
        (h ! 0, h ! 1, h ! 2, h ! 3, h ! 4, h ! 5, h ! 6, h ! 7)
      of (a, b, c, d, e, f, g, k) \<Rightarrow>
        [a + h ! 0, b + h ! 1, c + h ! 2, d + h ! 3, e + h ! 4, f + h ! 5, g + h ! 6, k + h ! 7])"
    by (simp add: fips_sha256_compress_code fips_sha2_compress_def s0_def s1_def S0_def S1_def)
  show ?thesis unfolding m_def [symmetric] e using fin assms(1)
    by (elim list8) (auto simp: R_def split: prod.split)
qed

section \<open>A hash state stands for the message so far\<close>

definition compress_block :: "byte list \<Rightarrow> u32 list \<Rightarrow> u32 list" where
  "compress_block b h = fips_sha256_compress h (map be_word (chunks 4 b))"

definition compress_all :: "byte list \<Rightarrow> u32 list" where
  "compress_all a = fold compress_block (chunks 64 a) g_sha256_hinit"

lemma chunks_append_dvd: "n dvd length a \<Longrightarrow> 0 < n \<Longrightarrow> chunks n (a @ b) = chunks n a @ chunks n b"
proof (induction "length a div n" arbitrary: a)
  case 0
  then have "a = []" by (auto elim!: dvdE)
  then show ?case by simp
next
  case (Suc k)
  then obtain q where q: "length a = n * q" by (auto elim: dvdE)
  then have "n \<le> length a" using Suc.hyps(2) Suc.prems(2) by (cases q) auto
  then have l: "length (take n a) = n" "length (drop n a) div n = k" "n dvd length (drop n a)"
    using Suc.hyps(2) Suc.prems by (simp_all add: q dvd_diff_nat div_eq_dividend_iff flip: diff_mult_distrib2)
       (auto simp: q Suc.prems(2))
  have a: "take n a @ drop n a = a" by simp
  have "chunks n (a @ b) = take n a # chunks n (drop n a @ b)"
    using chunks_append [OF l(1) Suc.prems(2), of "drop n a @ b"] by (simp flip: append_assoc)
  also have "\<dots> = (take n a # chunks n (drop n a)) @ chunks n b"
    using Suc.hyps(1) [OF l(2) [symmetric] l(3) Suc.prems(2)] by simp
  also have "take n a # chunks n (drop n a) = chunks n a"
    using chunks_append [OF l(1) Suc.prems(2), of "drop n a"] by simp
  finally show ?case .
qed

lemma compress_all_append:
  "64 dvd length a \<Longrightarrow> compress_all (a @ b) = fold compress_block (chunks 64 b) (compress_all a)"
  by (simp add: compress_all_def chunks_append_dvd)

lemma length_compress: "length h = 8 \<Longrightarrow> length (compress_block b h) = 8"
  by (simp add: compress_block_def fips_sha256_compress_code fips_sha2_compress_def split: prod.split)

lemma length_compress_fold: "length h = 8 \<Longrightarrow> length (fold compress_block bs h) = 8"
  by (induction bs arbitrary: h) (simp_all add: length_compress)

lemma length_compress_all: "length (compress_all a) = 8"
  unfolding compress_all_def by (rule length_compress_fold) (simp add: g_sha256_hinit_def)

lemma sha256_blocks_fold:
  assumes "length (neo_H S) = 8" and "64 * n \<le> length in'"
  shows "sha256_blocks S in' n = S\<lparr>neo_H := fold compress_block (chunks 64 (take (64 * n) in')) (neo_H S),
     neo_T := neo_T S + of_nat (512 * n)\<rparr>"
  using assms
proof (induction n arbitrary: S in')
  case (Suc n)
  have l: "64 \<le> length in'" "length (neo_H S) = 8" using Suc.prems by simp_all
  have t: "take (64 * Suc n) in' = take 64 in' @ take (64 * n) (drop 64 in')"
    using Suc.prems(2) by (simp add: take_add)
  have "length (take 64 in') = 64" using l by simp
  from chunks_append [OF this] have c: "chunks 64 (take (64 * Suc n) in') = take 64 in' # chunks 64 (take (64 * n) (drop 64 in'))"
    unfolding t by simp
  define S1 where "S1 = S\<lparr>neo_H := compress_block (take 64 in') (neo_H S), neo_T := neo_T S + of_nat 512\<rparr>"
  have "sha256_blocks S in' (Suc n) = sha256_blocks S1 (drop 64 in') n"
    using neo_rounds_fips [OF l(2,1)]
    by (simp add: S1_def SCRYPT_HASH_BLOCK_SIZE_def Let_def compress_block_def)
  also have "\<dots> = S1\<lparr>neo_H := fold compress_block (chunks 64 (take (64 * n) (drop 64 in'))) (neo_H S1),
     neo_T := neo_T S1 + of_nat (512 * n)\<rparr>"
    using Suc.prems by (intro Suc.IH) (simp_all add: S1_def length_compress)
  finally show ?case unfolding c by (simp add: S1_def algebra_simps)
qed (simp add: chunks.simps)

declare sha256_blocks.simps(2) [simp del]

text \<open>\<open>a\<close> has gone through the block function, \<open>r\<close> waits in the buffer.\<close>

definition hashed :: "sha256_hash_state \<Rightarrow> byte list \<Rightarrow> bool" where
  "hashed S a \<longleftrightarrow> 64 dvd length a \<and> neo_H S = compress_all a \<and> neo_T S = of_nat (8 * length a)
     \<and> length (neo_buffer S) = 64"

definition absorbed :: "sha256_hash_state \<Rightarrow> byte list \<Rightarrow> bool" where
  "absorbed S m \<longleftrightarrow> (\<exists>a r. m = a @ r \<and> hashed S a \<and> length r < 64 \<and> neo_leftover S = length r
     \<and> take (length r) (neo_buffer S) = r)"

lemma absorbedI:
  assumes "m = a @ r" and "hashed S a" and "length r < 64" and "neo_leftover S = length r"
    and "take (length r) (neo_buffer S) = r"
  shows "absorbed S m"
  unfolding absorbed_def using assms by blast

lemma hashed_blocks:
  assumes "hashed S a" and "64 * n \<le> length x"
  shows "hashed (sha256_blocks S x n) (a @ take (64 * n) x)"
    and "neo_leftover (sha256_blocks S x n) = neo_leftover S"
    and "neo_buffer (sha256_blocks S x n) = neo_buffer S"
proof -
  have "length (neo_H S) = 8" using assms(1) by (simp add: hashed_def length_compress_all)
  note b = sha256_blocks_fold [OF this assms(2)]
  show "hashed (sha256_blocks S x n) (a @ take (64 * n) x)"
    using assms unfolding b hashed_def by (simp add: compress_all_append algebra_simps)
  show "neo_leftover (sha256_blocks S x n) = neo_leftover S" "neo_buffer (sha256_blocks S x n) = neo_buffer S"
    unfolding b by simp_all
qed

lemma absorbed_init: "length buffer = 64 \<Longrightarrow> absorbed (neoscrypt_hash_init_sha256 buffer) []"
  by (simp add: absorbed_def hashed_def neoscrypt_hash_init_sha256_def compress_all_def g_sha256_hinit_def)

lemma length_put_bytes: "at + length bs \<le> length buf \<Longrightarrow> length (put_bytes at bs buf) = length buf"
  by (simp add: put_bytes_def)

lemma update_rest:
  assumes "hashed S a"
  shows "absorbed (neo_update_rest S x) (a @ x)"
proof -
  define q where "q = length x div 64"
  define r where "r = drop (64 * q) x"
  have len: "length x - length x mod 64 = 64 * q" "64 * q \<le> length x"
    by (simp_all add: q_def minus_mod_eq_mult_div)
  have r: "x = take (64 * q) x @ r" "length r = length x - 64 * q" "length r < 64"
    using len(1) by (simp_all add: r_def minus_mod_eq_mult_div [symmetric])
  define S1 where "S1 = S\<lparr>neo_leftover := length r\<rparr>"
  have S1: "hashed S1 a" using assms by (simp add: hashed_def S1_def)
  note b = hashed_blocks [OF S1 len(2)]
  have buf: "length (neo_buffer S1) = 64" using S1 by (simp add: hashed_def)
  have upd: "neo_update_rest S x = (let S2 = sha256_blocks S1 x q
     in if length r \<noteq> 0 then S2\<lparr>neo_buffer := put_bytes 0 r (neo_buffer S2)\<rparr> else S2)"
    using b(2) r(2) unfolding neo_update_rest_def SCRYPT_HASH_BLOCK_SIZE_def Let_def len(1)
    by (cases "q = 0") (simp_all add: S1_def r_def)
  have "take (length r) (put_bytes 0 r (neo_buffer S1)) = r" by (simp add: put_bytes_def)
  moreover have "length (put_bytes 0 r (neo_buffer S1)) = 64" using buf r(3) by (simp add: length_put_bytes)
  ultimately show ?thesis
    unfolding upd Let_def
    using b r(1,3) by (cases "r = []"; intro absorbedI [of _ "a @ take (64 * q) x" r]) (simp_all add: hashed_def S1_def)
qed

lemma update_absorbed:
  assumes "absorbed S m"
  shows "absorbed (neoscrypt_hash_update_sha256 S x) (m @ x)"
proof -
  obtain a r where m: "m = a @ r" "hashed S a" "length r < 64" "neo_leftover S = length r"
    "take (length r) (neo_buffer S) = r"
    using assms by (auto simp: absorbed_def)
  have buf: "length (neo_buffer S) = 64" using m(2) by (simp add: hashed_def)
  show ?thesis
  proof (cases "r = []")
    case True
    then show ?thesis using update_rest [OF m(2)] m by (simp add: neoscrypt_hash_update_sha256_def)
  next
    case False
    define want where "want = min (64 - length r) (length x)"
    define buf' where "buf' = put_bytes (length r) (take want x) (neo_buffer S)"
    have w: "want \<le> length x" "length r + want \<le> 64" using m(3) by (simp_all add: want_def)
    have b': "length buf' = 64" "take (length r + want) buf' = r @ take want x"
      using m(5) buf w by (simp_all add: buf'_def put_bytes_def min_absorb2)
    define S1 where "S1 = S\<lparr>neo_buffer := buf', neo_leftover := length r + want\<rparr>"
    have S1: "hashed S1 a" "neo_leftover S1 = length r + want" "neo_buffer S1 = buf'"
      using m(2) b'(1) by (simp_all add: hashed_def S1_def)
    have upd: "neoscrypt_hash_update_sha256 S x = (if length r + want < 64 then S1
        else neo_update_rest (sha256_blocks S1 buf' 1) (drop want x))"
      using m(4) False
      by (simp add: neoscrypt_hash_update_sha256_def SCRYPT_HASH_BLOCK_SIZE_def Let_def want_def S1_def buf'_def)
    show ?thesis
    proof (cases "length r + want < 64")
      case True
      then have "take want x = x" by (simp add: want_def min_def split: if_splits)
      then show ?thesis
        using True S1 b'(2) w m(1) unfolding upd
        by (intro absorbedI [of _ a "r @ x"]) (auto simp: min_def)
    next
      case False
      then have full: "length r + want = 64" using w(2) by simp
      then have "take (64 * 1) buf' = r @ take want x" using b'(2) by (simp only: mult_1_right)
      moreover have "hashed (sha256_blocks S1 buf' 1) (a @ take (64 * 1) buf')"
        using hashed_blocks(1) [OF S1(1), of 1 buf'] b'(1) by (simp del: One_nat_def)
      ultimately have "hashed (sha256_blocks S1 buf' 1) (a @ r @ take want x)" by (simp only:)
      from update_rest [OF this, of "drop want x"] show ?thesis
        using False m(1) by (simp add: upd)
    qed
  qed
qed

lemma md_pad_64:
  "md_pad 64 8 True n = 0x80 # replicate ((119 - n mod 64) mod 64) 0 @ bytes_be 8 (of_nat (8 * n) :: u64)"
  unfolding md_pad_def by (simp add: bytes_be_8_128 del: of_nat_mult)

lemma finish_absorbed:
  assumes "absorbed S m"
  shows "snd (neoscrypt_hash_finish_sha256 S) = fips_hash 64 8 fips_sha256_compress fips_sha256_H0 32 m"
proof -
  obtain a r where m: "m = a @ r" "hashed S a" "length r < 64" "neo_leftover S = length r"
    "take (length r) (neo_buffer S) = r"
    using assms by (auto simp: absorbed_def)
  have buf: "length (neo_buffer S) = 64" and a64: "64 dvd length a" using m(2) by (simp_all add: hashed_def)
  define t where "t = bytes_be 8 (of_nat (8 * length m) :: u64)"
  have t: "U64TO8_BE (neo_T S + of_nat (neo_leftover S * 8)) = t"
    using m(1,2,4) by (simp add: U64TO8_BE_be t_def hashed_def algebra_simps)
  have lt: "length t = 8" by (simp add: t_def)
  have lm: "length m mod 64 = length r" using m(1,3) a64 by (auto elim!: dvdE)
  define buf1 where "buf1 = (neo_buffer S)[length r := 0x80]"
  have buf1: "length buf1 = 64" "take (Suc (length r)) buf1 = r @ [0x80]"
    using buf m(3,5) by (simp_all add: buf1_def take_Suc_conv_app_nth)
  have out: "snd (let S = S'\<lparr>neo_buffer := put_bytes 56 t (neo_buffer S')\<rparr>; S = sha256_blocks S (neo_buffer S) 1
      in (S, concat (map U32TO8_BE (take 8 (neo_H S)))))
      = take 32 (concat (map (bytes_be 4) (compress_all (a' @ b @ t))))"
    if S': "hashed S' a'" and b: "length b = 56" "take 56 (neo_buffer S') = b" for S' a' b
  proof -
    have bt: "put_bytes 56 t (neo_buffer S') = b @ t"
      using S' b lt by (simp add: put_bytes_def hashed_def)
    have "hashed (S'\<lparr>neo_buffer := b @ t\<rparr>) a'" using S' b lt by (simp add: hashed_def)
    from hashed_blocks(1) [OF this, of 1 "b @ t"]
    have h: "neo_H (sha256_blocks (S'\<lparr>neo_buffer := b @ t\<rparr>) (b @ t) 1) = compress_all (a' @ b @ t)"
      using b lt by (simp add: hashed_def)
    have l8: "length (compress_all (a' @ b @ t)) = 8" by (rule length_compress_all)
    have "concat (map U32TO8_BE (compress_all (a' @ b @ t))) = concat (map (bytes_be 4) (compress_all (a' @ b @ t)))"
      by (simp only: U32TO8_BE_be cong: map_cong)
    moreover have "length (concat (map (bytes_be 4) ws)) = 4 * length ws" for ws :: "u32 list"
      by (induction ws) simp_all
    ultimately show ?thesis unfolding bt Let_def by (simp add: h l8 del: One_nat_def)
  qed
  have spec: "fips_hash 64 8 fips_sha256_compress fips_sha256_H0 32 m
      = take 32 (concat (map (bytes_be 4) (compress_all (m @ md_pad 64 8 True (length m)))))"
    by (simp add: fips_hash_def compress_all_def compress_block_def [abs_def] fips_sha256_H0_code)
  show ?thesis
  proof (cases "length r \<le> 55")
    case True
    define b where "b = r @ 0x80 # replicate (55 - length r) 0"
    define S' where "S' = S\<lparr>neo_buffer := put_bytes (length r + 1) (replicate (55 - length r) 0) buf1\<rparr>"
    have "hashed S' a" using m(2) True buf1(1) by (simp add: hashed_def S'_def length_put_bytes)
    moreover have "length b = 56" using True by (simp add: b_def)
    moreover have "56 - length r = Suc (55 - length r)" using True by simp
    then have "take 56 (neo_buffer S') = b"
      using True buf1 by (simp add: S'_def put_bytes_def b_def)
    ultimately have "snd (neoscrypt_hash_finish_sha256 S) = take 32 (concat (map (bytes_be 4) (compress_all (a @ b @ t))))"
      using out [of S' a b] True m(4) t unfolding neoscrypt_hash_finish_sha256_def
      by (simp add: Let_def S'_def buf1_def)
    moreover have "119 - length r = 64 + (55 - length r)" using True by arith
    then have "(119 - length r) mod 64 = 55 - length r" by (simp only: mod_add_self1) simp
    then have "m @ md_pad 64 8 True (length m) = a @ b @ t"
      unfolding md_pad_64 lm t_def [symmetric] by (simp add: m(1) b_def)
    ultimately show ?thesis by (simp add: spec)
  next
    case False
    define b where "b = r @ 0x80 # replicate (63 - length r) 0"
    define S1 where "S1 = S\<lparr>neo_buffer := put_bytes (length r + 1) (replicate (63 - length r) 0) buf1\<rparr>"
    have lb: "length b = 64" using m(3) by (simp add: b_def)
    have S1: "hashed S1 a" using m(2,3) buf1(1) by (simp add: hashed_def S1_def length_put_bytes)
    have bf: "neo_buffer S1 = b" using m(3) buf1 by (simp add: S1_def put_bytes_def b_def)
    have S2: "hashed (sha256_blocks S1 b 1) (a @ b)" "neo_buffer (sha256_blocks S1 b 1) = b"
      using hashed_blocks [OF S1, of 1 b] lb bf by simp_all
    define S' where "S' = (sha256_blocks S1 b 1)\<lparr>neo_buffer := put_bytes 0 (replicate 56 0) b\<rparr>"
    have "hashed S' (a @ b)" using S2(1) lb by (simp add: hashed_def S'_def length_put_bytes)
    moreover have "take 56 (neo_buffer S') = replicate 56 0" by (simp add: S'_def put_bytes_def)
    ultimately have "snd (neoscrypt_hash_finish_sha256 S)
        = take 32 (concat (map (bytes_be 4) (compress_all ((a @ b) @ replicate 56 0 @ t))))"
      using out [of S' "a @ b" "replicate 56 0"] False m(4) t bf S2(2) unfolding neoscrypt_hash_finish_sha256_def
      by (simp add: Let_def S'_def S1_def buf1_def)
    moreover have z: "(119 - length r) mod 64 = (63 - length r) + 56" using False m(3) by simp
    have "m @ md_pad 64 8 True (length m) = (a @ b) @ replicate 56 0 @ t"
      unfolding md_pad_64 lm t_def [symmetric] z replicate_add by (simp add: m(1) b_def)
    ultimately show ?thesis by (simp add: spec)
  qed
qed

section \<open>The hash, HMAC and PBKDF2 of the standards\<close>

lemma finish_hash: "absorbed S m \<Longrightarrow> snd (neoscrypt_hash_finish_sha256 S) = hash_spec SHA256 m"
  by (simp add: finish_absorbed SHA256_spec)

lemma neo_hash:
  assumes "length buffer = 64"
  shows "neoscrypt_hash_sha256 buffer m = hash_spec SHA256 m"
  using finish_hash [OF update_absorbed [OF absorbed_init [OF assms], of m]]
  by (simp add: neoscrypt_hash_sha256_def)

text \<open>An HMAC state after \<open>m\<close>.\<close>

definition hmac_absorbed :: "sha256_hmac_state \<Rightarrow> byte list \<Rightarrow> byte list \<Rightarrow> bool" where
  "hmac_absorbed st key m \<longleftrightarrow> (let K = hmac_key (hash_spec SHA256) 64 key in
     absorbed (hmac_inner st) (map (\<lambda>b. b XOR 0x36) K @ m)
     \<and> absorbed (hmac_outer st) (map (\<lambda>b. b XOR 0x5C) K))"

lemma hmac_init:
  assumes "length buffer = 64"
  shows "hmac_absorbed (neoscrypt_hmac_init_sha256 buffer key) key []"
proof -
  define pad where "pad = (if length key \<le> 64 then put_bytes 0 key (replicate 64 0)
            else put_bytes 0 (neoscrypt_hash_sha256 buffer key) (replicate 64 (0 :: byte)))"
  have pad: "pad = hmac_key (hash_spec SHA256) 64 key"
    by (simp add: pad_def hmac_key_def put_bytes_def neo_hash [OF assms])
  have x: "(b XOR 0x36) XOR (0x5c XOR 0x36) = b XOR 0x5C" for b :: byte
    by (simp add: xor.assoc)
  have m: "map (\<lambda>b. b XOR (0x5c XOR 0x36)) (map (\<lambda>b. b XOR 0x36) pad) = map (\<lambda>b. b XOR 0x5C) pad"
    unfolding list.map_comp comp_def x ..
  show ?thesis
    using update_absorbed [OF absorbed_init [OF assms], of "map (\<lambda>b. b XOR 0x36) pad"]
      update_absorbed [OF absorbed_init [OF assms], of "map (\<lambda>b. b XOR 0x5C) pad"]
    unfolding neoscrypt_hmac_init_sha256_def Let_def SCRYPT_HASH_BLOCK_SIZE_def pad_def [symmetric]
      hmac_absorbed_def pad [symmetric] m append_Nil append_Nil2 sha256_hmac_state.simps by blast
qed

lemma hmac_update:
  "hmac_absorbed st key m \<Longrightarrow> hmac_absorbed (neoscrypt_hmac_update_sha256 st x) key (m @ x)"
  unfolding hmac_absorbed_def neoscrypt_hmac_update_sha256_def Let_def append_assoc [symmetric]
  using update_absorbed [of "hmac_inner st" "map (\<lambda>b. b XOR 0x36) (hmac_key (hash_spec SHA256) 64 key) @ m" x]
  by simp

lemma hmac_finish:
  assumes "hmac_absorbed st key m"
  shows "neoscrypt_hmac_finish_sha256 st = hmac_rfc2104 (hash_spec SHA256) 64 key m"
proof -
  obtain S h where f: "neoscrypt_hash_finish_sha256 (hmac_inner st) = (S, h)"
    by (cases "neoscrypt_hash_finish_sha256 (hmac_inner st)")
  have "h = hash_spec SHA256 (map (\<lambda>b. b XOR 0x36) (hmac_key (hash_spec SHA256) 64 key) @ m)"
    using assms finish_hash [of "hmac_inner st"] f by (simp add: hmac_absorbed_def Let_def)
  moreover have "absorbed (neoscrypt_hash_update_sha256 (hmac_outer st) h)
      (map (\<lambda>b. b XOR 0x5C) (hmac_key (hash_spec SHA256) 64 key) @ h)"
    using assms by (intro update_absorbed) (simp add: hmac_absorbed_def Let_def)
  ultimately show ?thesis
    by (simp add: neoscrypt_hmac_finish_sha256_def f finish_hash hmac_rfc2104_def Let_def)
qed

lemma neo_pbkdf2_inner_eq:
  assumes "hmac_absorbed hmac_pw P []"
  shows "snd (neo_pbkdf2_inner hmac_pw n (u, ti)) = PBKDF2_inner (hmac_rfc2104 (hash_spec SHA256) 64 P) n u ti"
  using hmac_finish [OF hmac_update [OF assms]]
  by (induction n arbitrary: u ti) (simp_all add: Let_def VectorXor_def)

lemma neo_pbkdf2_block_eq:
  assumes "hmac_absorbed hmac_pw P []" and "hmac_absorbed hmac_pw_salt P S" and "0 < N"
  shows "neo_pbkdf2_block hmac_pw hmac_pw_salt N i = pbkdf2_F (hmac_rfc2104 (hash_spec SHA256) 64) P S N i"
proof -
  have "Suc (N - 1) = N" using assms(3) by simp
  then show ?thesis
    using hmac_finish [OF hmac_update [OF assms(2)], of "U32TO8_BE (of_nat i)"]
    by (simp add: neo_pbkdf2_block_def Let_def neo_pbkdf2_inner_eq [OF assms(1)] PBKDF2_inner_chain
        pbkdf2_F_def U32TO8_BE_be)
qed

lemma concat_take_blocks:
  assumes "\<And>i. length (F i) = h"
  shows "concat (map (\<lambda>i. take (min h (d - (i - 1) * h)) (F i)) [1..<k + 1]) = take d (concat (map F [1..<k + 1]))"
proof (induction k)
  case (Suc k)
  have "length (concat (map F [1..<k + 1])) = k * h" using assms by (induction k) (simp_all add: add.commute)
  then show ?case using Suc assms by (simp add: min_def)
qed simp

lemma neo_pbkdf2:
  assumes "length buffer = 64" and "0 < N" and "N \<le> 2 ^ 32" and "d + 31 < 2 ^ 32"
  shows "neoscrypt_pbkdf2_sha256 buffer P S N d
    = Some (take d (concat (map (pbkdf2_F (hmac_rfc2104 (hash_spec SHA256) 64) P S N) [1..<(d + 31) div 32 + 1])))"
proof -
  define pw where "pw = neoscrypt_hmac_init_sha256 buffer P"
  have pw: "hmac_absorbed pw P []" unfolding pw_def by (rule hmac_init [OF assms(1)])
  define F where "F = pbkdf2_F (hmac_rfc2104 (hash_spec SHA256) 64) P S N"
  have "length (F i) = 32" for i
    unfolding F_def by (rule length_pbkdf2_F) (simp add: hmac_rfc2104_def Let_def)
  note c = concat_take_blocks [of F, OF this, of d "(d + 31) div 32"]
  have "unat (of_nat d + 31 :: u32) = d + 31"
    using assms(4) unat_of_nat [of "d + 31", where 'a = 32] by simp
  then have n: "unat ((of_nat d + (of_nat SCRYPT_HASH_DIGEST_SIZE - 1)) div of_nat SCRYPT_HASH_DIGEST_SIZE :: u32) = (d + 31) div 32"
    by (simp add: SCRYPT_HASH_DIGEST_SIZE_def unat_div)
  have b: "neo_pbkdf2_block pw (neoscrypt_hmac_update_sha256 pw S) N = F"
    unfolding F_def using neo_pbkdf2_block_eq [OF pw _ assms(2)] hmac_update [OF pw, of S] by (intro ext) simp
  have "\<not> (N = 0 \<or> 2 ^ 32 < N)" using assms(2,3) by simp
  then show ?thesis
    unfolding neoscrypt_pbkdf2_sha256_def Let_def pw_def [symmetric] n b F_def [symmetric]
    using c by (simp add: SCRYPT_HASH_DIGEST_SIZE_def del: upt_Suc)
qed

section \<open>Property\<close>

text \<open>
  C13: the incremental hash state of \<open>neoscrypt.cpp\<close> stands for the message it was given, however that
  was cut into pieces: finishing it gives SHA-256 of their concatenation, an HMAC state gives
  HMAC-SHA-256, and the key derivation is PBKDF2.  The buffer's first contents do not matter.
\<close>

theorem neo_sha256_pieces:
  assumes "length buffer = 64" and "0 < N" and "N \<le> 2 ^ 32" and "d + 31 < 2 ^ 32"
  shows "snd (neoscrypt_hash_finish_sha256
        (fold (\<lambda>x S. neoscrypt_hash_update_sha256 S x) pieces (neoscrypt_hash_init_sha256 buffer)))
      = hash_spec SHA256 (concat pieces)
    \<and> neoscrypt_hmac_finish_sha256
        (fold (\<lambda>x st. neoscrypt_hmac_update_sha256 st x) pieces (neoscrypt_hmac_init_sha256 buffer key))
      = hmac_rfc2104 (hash_spec SHA256) 64 key (concat pieces)
    \<and> neoscrypt_pbkdf2_sha256 buffer key salt N d
      = Some (take d (concat (map (pbkdf2_F (hmac_rfc2104 (hash_spec SHA256) 64) key salt N) [1..<(d + 31) div 32 + 1])))"
proof -
  have "absorbed (fold (\<lambda>x S. neoscrypt_hash_update_sha256 S x) ps S) (m @ concat ps)" if "absorbed S m" for ps S m
    using that
  proof (induction ps arbitrary: S m)
    case (Cons p ps)
    from Cons.IH [OF update_absorbed [OF Cons.prems, of p]] show ?case by simp
  qed simp
  note a = this [OF absorbed_init [OF assms(1)], of pieces]
  have "hmac_absorbed (fold (\<lambda>x st. neoscrypt_hmac_update_sha256 st x) ps st) key (m @ concat ps)"
    if "hmac_absorbed st key m" for ps st m
    using that
  proof (induction ps arbitrary: st m)
    case (Cons p ps)
    from Cons.IH [OF hmac_update [OF Cons.prems, of p]] show ?case by simp
  qed simp
  note b = this [OF hmac_init [OF assms(1), of key], of pieces]
  show ?thesis using finish_hash [OF a] hmac_finish [OF b] neo_pbkdf2 [OF assms, of key salt] by simp
qed

theorem neo_sha256_pieces_witness:
  "snd (neoscrypt_hash_finish_sha256
        (fold (\<lambda>x S. neoscrypt_hash_update_sha256 S x) [[97], replicate 70 98, []]
           (neoscrypt_hash_init_sha256 (replicate 64 7))))
      = hash_spec SHA256 (97 # replicate 70 98)
    \<and> neoscrypt_pbkdf2_sha256 (replicate 64 7) [1] [2] 2 33
      = Some (take 33 (concat (map (pbkdf2_F (hmac_rfc2104 (hash_spec SHA256) 64) [1] [2] 2) [1..<3])))"
  using neo_sha256_pieces [of "replicate 64 7" 2 33 "[[97], replicate 70 98, []]" "[1]" "[2]"] by simp

end
