(* ===== verification/FastKdf.thy ===== *)
theory FastKdf
  imports NeoSha
begin

text \<open>
  BLAKE2s, FastKDF and the NeoScrypt engine of \<open>src/crypto/neoscrypt.cpp\<close>.  The routines that move
  bytes a machine word at a time take the size of a word, \<open>sz\<close>, four or eight bytes.
\<close>

unbundle bit_operations_syntax

section \<open>Moving bytes by words\<close>

text \<open>The pointers are the lists that start at them.\<close>

definition neoscrypt_copy :: "nat \<Rightarrow> byte list \<Rightarrow> byte list \<Rightarrow> nat \<Rightarrow> byte list" where
  "neoscrypt_copy sz dst src len = (let
     dst = fold (\<lambda>i dst. put_bytes (i * sz) (take sz (drop (i * sz) src)) dst) [0..<len div sz] dst;
     tail = len AND (sz - 1)
   in if tail \<noteq> 0 then fold (\<lambda>i dst. dst[i := src ! i]) [len - tail..<len] dst else dst)"

definition neoscrypt_erase :: "nat \<Rightarrow> byte list \<Rightarrow> nat \<Rightarrow> byte list" where
  "neoscrypt_erase sz dst len = (let
     dst = fold (\<lambda>i dst. put_bytes (i * sz) (replicate sz 0) dst) [0..<len div sz] dst;
     tail = len AND (sz - 1)
   in if tail \<noteq> 0 then fold (\<lambda>i dst. dst[i := 0]) [len - tail..<len] dst else dst)"

definition neoscrypt_xor :: "nat \<Rightarrow> byte list \<Rightarrow> byte list \<Rightarrow> nat \<Rightarrow> byte list" where
  "neoscrypt_xor sz dst src len = (let
     dst = fold (\<lambda>i dst. put_bytes (i * sz)
       (map2 (XOR) (take sz (drop (i * sz) dst)) (take sz (drop (i * sz) src))) dst) [0..<len div sz] dst;
     tail = len AND (sz - 1)
   in if tail \<noteq> 0 then fold (\<lambda>i dst. dst[i := dst ! i XOR src ! i]) [len - tail..<len] dst else dst)"

text \<open>The same at an offset of the destination, \<open>&dst[at]\<close>.\<close>

definition at_offset :: "nat \<Rightarrow> (byte list \<Rightarrow> byte list) \<Rightarrow> byte list \<Rightarrow> byte list" where
  "at_offset at f buf = take at buf @ f (drop at buf)"

section \<open>BLAKE2s\<close>

definition BLAKE2S_BLOCK_SIZE :: nat where "BLAKE2S_BLOCK_SIZE = 64"

definition BLAKE2S_OUT_SIZE :: nat where "BLAKE2S_OUT_SIZE = 32"

definition BLAKE2S_KEY_SIZE :: nat where "BLAKE2S_KEY_SIZE = 32"

record blake2s_state =
  b2_h :: "u32 list"
  b2_t :: "u32 list"
  b2_f :: "u32 list"
  b2_buf :: "byte list"
  b2_buflen :: nat

text \<open>The parameter block; all of its fields after \<open>depth\<close> are zero.\<close>

record blake2s_param =
  digest_length :: byte
  key_length :: byte
  fanout :: byte
  depth :: byte

definition param_bytes :: "blake2s_param \<Rightarrow> byte list" where
  "param_bytes P = [digest_length P, key_length P, fanout P, depth P] @ replicate 28 0"

definition blake2s_IV :: "u32 list" where
  "blake2s_IV = [0x6A09E667, 0xBB67AE85, 0x3C6EF372, 0xA54FF53A, 0x510E527F, 0x9B05688C, 0x1F83D9AB, 0x5BE0CD19]"

definition blake2s_sigma :: "nat list list" where
  "blake2s_sigma = [
    [ 0,  1,  2,  3,  4,  5,  6,  7,  8,  9, 10, 11, 12, 13, 14, 15],
    [14, 10,  4,  8,  9, 15, 13,  6,  1, 12,  0,  2, 11,  7,  5,  3],
    [11,  8, 12,  0,  5,  2, 15, 13, 10, 14,  3,  6,  7,  1,  9,  4],
    [ 7,  9,  3,  1, 13, 12, 11, 14,  2,  6,  5, 10,  4,  0, 15,  8],
    [ 9,  0,  5,  7,  2,  4, 10, 15, 14,  1, 11, 12,  6,  8,  3, 13],
    [ 2, 12,  6, 10,  0, 11,  8,  3,  4, 13,  7,  5, 15, 14,  1,  9],
    [12,  5,  1, 15, 14, 13,  4, 10,  0,  7,  6,  3,  9,  2,  8, 11],
    [13, 11,  7, 14, 12,  1,  3,  9,  5,  0, 15,  4,  8,  6,  2, 10],
    [ 6, 15, 14,  9, 11,  3,  0,  8, 12,  2, 13,  7,  1,  4, 10,  5],
    [10,  2,  8,  4,  7,  6,  1,  5, 15, 11,  9, 14,  3, 12, 13,  0]]"

definition blake2s_G :: "u32 list \<Rightarrow> nat \<Rightarrow> nat \<Rightarrow> nat \<Rightarrow> nat \<Rightarrow> nat \<Rightarrow> nat \<Rightarrow> u32 list \<Rightarrow> u32 list" where
  "blake2s_G m r i p q s t v = (let
     a = v ! p; b = v ! q; c = v ! s; d = v ! t;
     a = a + b + m ! (blake2s_sigma ! r ! (2 * i + 0));
     d = ROTR32 (d XOR a) 16;
     c = c + d;
     b = ROTR32 (b XOR c) 12;
     a = a + b + m ! (blake2s_sigma ! r ! (2 * i + 1));
     d = ROTR32 (d XOR a) 8;
     c = c + d;
     b = ROTR32 (b XOR c) 7
   in v[p := a, q := b, s := c, t := d])"

definition blake2s_ROUND :: "u32 list \<Rightarrow> nat \<Rightarrow> u32 list \<Rightarrow> u32 list" where
  "blake2s_ROUND m r v = (let
     v = blake2s_G m r 0 0 4 8 12 v;
     v = blake2s_G m r 1 1 5 9 13 v;
     v = blake2s_G m r 2 2 6 10 14 v;
     v = blake2s_G m r 3 3 7 11 15 v;
     v = blake2s_G m r 4 0 5 10 15 v;
     v = blake2s_G m r 5 1 6 11 12 v;
     v = blake2s_G m r 6 2 7 8 13 v
   in blake2s_G m r 7 3 4 9 14 v)"

definition blake2s_compress :: "blake2s_state \<Rightarrow> byte list \<Rightarrow> blake2s_state" where
  "blake2s_compress S buf = (let
     m = words_of (take 64 buf);
     v = b2_h S @ take 4 blake2s_IV @ [b2_t S ! 0 XOR blake2s_IV ! 4, b2_t S ! 1 XOR blake2s_IV ! 5,
           b2_f S ! 0 XOR blake2s_IV ! 6, b2_f S ! 1 XOR blake2s_IV ! 7];
     v = fold (blake2s_ROUND m) [0..<10] v
   in S\<lparr>b2_h := map (\<lambda>i. b2_h S ! i XOR v ! i XOR v ! (i + 8)) [0..<8]\<rparr>)"

function blake2s_update :: "nat \<Rightarrow> blake2s_state \<Rightarrow> byte list \<Rightarrow> blake2s_state" where
  "blake2s_update sz S input =
     (if 0 < length input then let
        left = b2_buflen S;
        fill = 2 * BLAKE2S_BLOCK_SIZE - left
      in if length input > fill then let
           S = S\<lparr>b2_buf := at_offset left (\<lambda>dst. neoscrypt_copy sz dst input fill) (b2_buf S),
                 b2_buflen := b2_buflen S + fill,
                 b2_t := (b2_t S)[0 := b2_t S ! 0 + of_nat BLAKE2S_BLOCK_SIZE]\<rparr>;
           S = blake2s_compress S (b2_buf S);
           S = S\<lparr>b2_buf := neoscrypt_copy sz (b2_buf S) (drop BLAKE2S_BLOCK_SIZE (b2_buf S)) BLAKE2S_BLOCK_SIZE,
                 b2_buflen := b2_buflen S - BLAKE2S_BLOCK_SIZE\<rparr>
         in blake2s_update sz S (drop fill input)
         else S\<lparr>b2_buf := at_offset left (\<lambda>dst. neoscrypt_copy sz dst input (length input)) (b2_buf S),
                b2_buflen := b2_buflen S + length input\<rparr>
      else S)"
  by pat_completeness auto
termination
  by (relation "measure (\<lambda>(sz, S, input). length input + b2_buflen S)")
    (auto simp: BLAKE2S_BLOCK_SIZE_def blake2s_compress_def Let_def)

declare blake2s_update.simps [simp del]

text \<open>The state as the 180 bytes of its struct.\<close>

definition blake2s_bytes :: "blake2s_state \<Rightarrow> byte list" where
  "blake2s_bytes S = bytes_of (b2_h S @ b2_t S @ b2_f S) @ b2_buf S @ bytes_le 4 (of_nat (b2_buflen S) :: u32)"

definition blake2s_init :: "nat \<Rightarrow> byte \<Rightarrow> byte \<Rightarrow> blake2s_state" where
  "blake2s_init sz key_size output_size = (let
     P = \<lparr>digest_length = output_size, key_length = key_size, fanout = 1, depth = 1\<rparr>;
     h = neoscrypt_erase sz (replicate 32 0) 32;
     h = neoscrypt_copy sz h (bytes_of blake2s_IV) 32;
     h = neoscrypt_xor sz h (param_bytes P) 32
   in \<lparr>b2_h = words_of h, b2_t = [0, 0], b2_f = [0, 0], b2_buf = replicate 128 0, b2_buflen = 0\<rparr>)"

definition blake2s_finish :: "nat \<Rightarrow> blake2s_state \<Rightarrow> blake2s_state" where
  "blake2s_finish sz S = (let
     S = (if b2_buflen S > BLAKE2S_BLOCK_SIZE then let
            S = S\<lparr>b2_t := (b2_t S)[0 := b2_t S ! 0 + of_nat BLAKE2S_BLOCK_SIZE]\<rparr>;
            S = blake2s_compress S (b2_buf S);
            S = S\<lparr>b2_buflen := b2_buflen S - BLAKE2S_BLOCK_SIZE\<rparr>
          in S\<lparr>b2_buf := neoscrypt_copy sz (b2_buf S) (drop BLAKE2S_BLOCK_SIZE (b2_buf S)) (b2_buflen S)\<rparr>
          else S);
     S = S\<lparr>b2_t := (b2_t S)[0 := b2_t S ! 0 + of_nat (b2_buflen S)], b2_f := (b2_f S)[0 := NOT 0]\<rparr>;
     S = S\<lparr>b2_buf := at_offset (b2_buflen S)
            (\<lambda>dst. neoscrypt_erase sz dst (2 * BLAKE2S_BLOCK_SIZE - b2_buflen S)) (b2_buf S)\<rparr>
   in blake2s_compress S (b2_buf S))"

text \<open>The key and the output have fewer than 256 bytes, their sizes being bytes.\<close>

definition neoscrypt_blake2s :: "nat \<Rightarrow> byte list \<Rightarrow> byte list \<Rightarrow> byte \<Rightarrow> byte list" where
  "neoscrypt_blake2s sz input key output_size = (let
     S = blake2s_init sz (of_nat (length key)) output_size;
     block = neoscrypt_erase sz (replicate 64 0) BLAKE2S_BLOCK_SIZE;
     block = neoscrypt_copy sz block key (length key);
     S = blake2s_update sz S block;
     S = blake2s_update sz S input;
     S = blake2s_finish sz S
   in neoscrypt_copy sz (replicate (unat output_size) 0) (blake2s_bytes S) (unat output_size))"

section \<open>FastKDF\<close>

definition FASTKDF_BUFFER_SIZE :: nat where "FASTKDF_BUFFER_SIZE = 256"

text \<open>A buffer of 256 bytes and a tail is filled by repeating a string; the tail repeats its start.\<close>

definition fastkdf_fill :: "nat \<Rightarrow> byte list \<Rightarrow> nat \<Rightarrow> byte list \<Rightarrow> byte list" where
  "fastkdf_fill sz s tail buf = (let
     len = (if length s > FASTKDF_BUFFER_SIZE then FASTKDF_BUFFER_SIZE else length s);
     a = FASTKDF_BUFFER_SIZE div len;
     buf = fold (\<lambda>i. at_offset (i * len) (\<lambda>dst. neoscrypt_copy sz dst s len)) [0..<a] buf;
     b = FASTKDF_BUFFER_SIZE - a * len;
     buf = (if b \<noteq> 0 then at_offset (a * len) (\<lambda>dst. neoscrypt_copy sz dst s b) buf else buf)
   in at_offset FASTKDF_BUFFER_SIZE (\<lambda>dst. neoscrypt_copy sz dst s tail) buf)"

text \<open>One turn of the primary iteration, on the salt buffer and the buffer pointer.\<close>

definition fastkdf_step :: "nat \<Rightarrow> byte list \<Rightarrow> byte list \<times> nat \<Rightarrow> byte list \<times> nat" where
  "fastkdf_step sz A = (\<lambda>(B, bufptr). let
     prf_input = take BLAKE2S_BLOCK_SIZE (drop bufptr A);
     prf_key = take BLAKE2S_KEY_SIZE (drop bufptr B);
     prf_output = neoscrypt_blake2s sz prf_input prf_key (of_nat BLAKE2S_OUT_SIZE);
     bufptr = fold (\<lambda>b p. p + unat b) prf_output 0;
     bufptr = bufptr AND (FASTKDF_BUFFER_SIZE - 1);
     B = at_offset bufptr (\<lambda>dst. neoscrypt_xor sz dst prf_output BLAKE2S_OUT_SIZE) B;
     B = (if bufptr < BLAKE2S_KEY_SIZE
          then at_offset (FASTKDF_BUFFER_SIZE + bufptr)
                 (\<lambda>dst. neoscrypt_copy sz dst (drop bufptr B) (min BLAKE2S_OUT_SIZE (BLAKE2S_KEY_SIZE - bufptr))) B
          else B);
     B = (if FASTKDF_BUFFER_SIZE - bufptr < BLAKE2S_OUT_SIZE
          then neoscrypt_copy sz B (drop FASTKDF_BUFFER_SIZE B) (BLAKE2S_OUT_SIZE - (FASTKDF_BUFFER_SIZE - bufptr))
          else B)
   in (B, bufptr))"

definition fastkdf_output :: "nat \<Rightarrow> byte list \<Rightarrow> byte list \<Rightarrow> nat \<Rightarrow> nat \<Rightarrow> byte list \<Rightarrow> byte list" where
  "fastkdf_output sz A B bufptr output_len output = (let
     a = FASTKDF_BUFFER_SIZE - bufptr
   in if a \<ge> output_len then let
        B = at_offset bufptr (\<lambda>dst. neoscrypt_xor sz dst A output_len) B
      in neoscrypt_copy sz output (drop bufptr B) output_len
      else let
        B = at_offset bufptr (\<lambda>dst. neoscrypt_xor sz dst A a) B;
        B = neoscrypt_xor sz B (drop a A) (output_len - a);
        output = neoscrypt_copy sz output (drop bufptr B) a
      in at_offset a (\<lambda>dst. neoscrypt_copy sz dst B (output_len - a)) output)"

text \<open>
  The buffers \<open>A\<close> and \<open>B\<close> of the stack are not initialised.  \<open>None\<close> is a division by zero or a read past
  the end of the password or the salt.
\<close>

definition neoscrypt_fastkdf ::
  "nat \<Rightarrow> byte list \<Rightarrow> byte list \<Rightarrow> byte list \<Rightarrow> byte list \<Rightarrow> nat \<Rightarrow> byte list \<Rightarrow> nat \<Rightarrow> byte list option" where
  "neoscrypt_fastkdf sz A B password salt N output output_len =
     (if length password < BLAKE2S_BLOCK_SIZE \<or> length salt < BLAKE2S_KEY_SIZE then None
      else let
        A = fastkdf_fill sz password BLAKE2S_BLOCK_SIZE A;
        B = fastkdf_fill sz salt BLAKE2S_KEY_SIZE B;
        (B, bufptr) = fold (\<lambda>i. fastkdf_step sz A) [0..<N] (B, 0);
        output_len = (if output_len > FASTKDF_BUFFER_SIZE then FASTKDF_BUFFER_SIZE else output_len)
      in Some (fastkdf_output sz A B bufptr output_len output))"

section \<open>The engine\<close>

definition SCRYPT_BLOCK_SIZE :: nat where "SCRYPT_BLOCK_SIZE = 64"

text \<open>
  The memory that a run finds: the buffers on the stack, and what \<open>AlignedMem\<close> returns for a size in
  bytes, as words.
\<close>

record neo_memory =
  neo_word :: nat
  neo_A :: "byte list"
  neo_B :: "byte list"
  neo_hash :: "byte list"
  neo_am :: "nat \<Rightarrow> u32 list"
  neo_out :: "byte list"

text \<open>The number of the key derivation is the second argument; all but 1 select FastKDF.\<close>

definition neo_kdf ::
  "neo_memory \<Rightarrow> nat \<Rightarrow> byte list \<Rightarrow> byte list \<Rightarrow> nat \<Rightarrow> byte list \<Rightarrow> nat \<Rightarrow> byte list option" where
  "neo_kdf M kdf password salt N output output_len =
     (if kdf = 1 then map_option (\<lambda>d. put_bytes 0 d output)
          (neoscrypt_pbkdf2_sha256 (neo_hash M) password salt 1 output_len)
      else neoscrypt_fastkdf (neo_word M) (neo_A M) (neo_B M) password salt N output output_len)"

definition neo_parameters :: "u32 \<Rightarrow> nat \<times> nat \<times> bool \<times> nat \<times> nat" where
  "neo_parameters profile = (let
     (N, r, dblmix, mixmode) = (if profile AND 1 \<noteq> 0 then (1024, 1, False, 8) else (128, 2, True, 20));
     (N, r) = (if drop_bit 31 profile \<noteq> 0
       then (2 ^ (unat (drop_bit 8 profile AND 0x1F) + 1), 2 ^ unat (drop_bit 5 profile AND 0x7)) else (N, r))
   in (N, r, dblmix, mixmode, unat (drop_bit 1 profile AND 0xF)))"

text \<open>
  The size of the memory is a product of \<open>unsigned int\<close> and wraps; \<open>X\<close>, \<open>Z\<close>, \<open>Y\<close> and \<open>V\<close> follow each
  other there.  \<open>N\<close> becomes the \<open>int n\<close> of \<open>NeoScryptCore\<close>, negative for \<open>2 ^ 31\<close>.  A shift of 1 by 32
  places is undefined, and so is a place outside the memory: the result is then \<open>None\<close>.
\<close>

definition neoscrypt :: "neo_memory \<Rightarrow> byte list \<Rightarrow> u32 \<Rightarrow> byte list option" where
  "neoscrypt M password profile = (let
     (N, r, dblmix, rounds, kdf) = neo_parameters profile;
     am = neo_am M (unat ((of_nat N + 3) * of_nat r * 2 * of_nat SCRYPT_BLOCK_SIZE :: u32));
     X = bytes_of (take (32 * r) am); Y = chunks 16 (take (32 * r) (drop (64 * r) am)); V = drop (96 * r) am
   in if 2 ^ 32 \<le> N \<or> length am < 96 * r then None
      else case neo_kdf M kdf password password 32 X (r * 2 * SCRYPT_BLOCK_SIZE) of
        None \<Rightarrow> None
      | Some X \<Rightarrow> (case NeoScryptCore (chunks 16 (words_of X)) Y V r rounds (nat (sint (of_nat N :: u32))) dblmix of
          Inl e \<Rightarrow> None
        | Inr (x, _) \<Rightarrow> neo_kdf M kdf password (bytes_of (concat x)) 32 (neo_out M) 32))"

text \<open>\<open>x\<close> is the array of eight words on the stack.\<close>

definition CalcNeoSCryptHash :: "neo_memory \<Rightarrow> u32 list list \<Rightarrow> u32 list \<Rightarrow> byte list \<Rightarrow> int \<Rightarrow> u32 list option res" where
  "CalcNeoSCryptHash M tmp scratch password profile =
     (if profile = 0 then Inr (map_option words_of (neoscrypt M password 0))
      else if profile = 3 then bind_res (CalcSCryptHash tmp scratch password) (\<lambda>r. Inr (Some r))
      else Inl E_NOTIMPL)"

section \<open>The routines move bytes\<close>

lemma word_loop:
  assumes step: "\<And>i d. i < n \<Longrightarrow> length d = length dst \<Longrightarrow>
      S i d = put_bytes (i * sz) (map2 f (take sz (drop (i * sz) d)) (take sz (drop (i * sz) src))) d"
    and "n * sz \<le> length dst" and "n * sz \<le> length src"
  shows "fold S [0..<n] dst = map2 f (take (n * sz) dst) (take (n * sz) src) @ drop (n * sz) dst"
  using assms
proof (induction n)
  case (Suc n)
  have IH: "fold S [0..<n] dst = map2 f (take (n * sz) dst) (take (n * sz) src) @ drop (n * sz) dst" (is "_ = ?d")
    using Suc by simp
  have l: "n * sz \<le> length dst" "n * sz \<le> length src" using Suc.prems by simp_all
  have "S n ?d = put_bytes (n * sz) (map2 f (take sz (drop (n * sz) ?d)) (take sz (drop (n * sz) src))) ?d"
    using l by (intro Suc.prems(1)) auto
  also have "drop (n * sz) ?d = drop (n * sz) dst" using l by simp
  finally have "fold S [0..<Suc n] dst = map2 f (take (n * sz) dst) (take (n * sz) src)
      @ map2 f (take sz (drop (n * sz) dst)) (take sz (drop (n * sz) src)) @ drop (n * sz + sz) dst"
    using Suc.prems(2,3) l by (simp add: IH put_bytes_def add.commute)
  also have "\<dots> = map2 f (take (n * sz + sz) dst) (take (n * sz + sz) src) @ drop (n * sz + sz) dst"
    using l by (simp add: take_add)
  finally show ?case by (simp add: add.commute)
qed simp

lemma tail_loop:
  assumes step: "\<And>i d. T i d = d[i := f (d ! i) (src ! i)]"
    and "k \<le> len" and "len \<le> length dst" and "len \<le> length src"
  shows "fold T [k..<len] (map2 f (take k dst) (take k src) @ drop k dst)
    = map2 f (take len dst) (take len src) @ drop len dst"
  using assms(2-4)
proof (induction len rule: dec_induct)
  case (step n)
  have n: "n < length dst" "n < length src" using step.prems by simp_all
  then have d: "drop n dst = dst ! n # drop (Suc n) dst" by (simp add: Cons_nth_drop_Suc)
  have "fold T [k..<Suc n] (map2 f (take k dst) (take k src) @ drop k dst)
      = T n (map2 f (take n dst) (take n src) @ drop n dst)"
    using step by (simp add: upt_Suc_append)
  also have "\<dots> = map2 f (take n dst) (take n src) @ f (dst ! n) (src ! n) # drop (Suc n) dst"
    using n by (simp add: assms(1) d list_update_append nth_append)
  also have "\<dots> = map2 f (take (Suc n) dst) (take (Suc n) src) @ drop (Suc n) dst"
    using n by (simp add: take_Suc_conv_app_nth)
  finally show ?case .
qed simp

lemma tail_mod:
  assumes "sz \<in> {4, 8 :: nat}"
  shows "len AND (sz - 1) = len mod sz"
proof -
  have "len AND 3 = len mod 4" "len AND 7 = len mod 8"
    using take_bit_eq_mask [of 2 len] take_bit_eq_mask [of 3 len]
    by (simp_all add: mask_eq_exp_minus_1 take_bit_eq_mod)
  then show ?thesis using assms by auto
qed

lemma byte_engine:
  assumes "sz \<in> {4, 8}" and "len \<le> length dst" and "len \<le> length src"
    and step: "\<And>i d. (i + 1) * sz \<le> len \<Longrightarrow> length d = length dst \<Longrightarrow>
      S i d = put_bytes (i * sz) (map2 f (take sz (drop (i * sz) d)) (take sz (drop (i * sz) src))) d"
    and tail: "\<And>i d. T i d = d[i := f (d ! i) (src ! i)]"
  shows "(let dst = fold S [0..<len div sz] dst; tail = len AND (sz - 1)
     in if tail \<noteq> 0 then fold T [len - tail..<len] dst else dst)
   = map2 f (take len dst) (take len src) @ drop len dst"
proof -
  have le: "len div sz * sz \<le> len" by simp
  have "(i + 1) * sz \<le> len" if "i < len div sz" for i
  proof -
    have "(i + 1) * sz \<le> len div sz * sz" using that by (intro mult_le_mono1) simp
    then show ?thesis using le by linarith
  qed
  then have w: "fold S [0..<len div sz] dst
      = map2 f (take (len div sz * sz) dst) (take (len div sz * sz) src) @ drop (len div sz * sz) dst"
    using assms(2,3) le by (intro word_loop step) (simp_all only: le_trans [OF le])
  have m: "len - len mod sz = len div sz * sz" by (simp add: minus_mod_eq_div_mult)
  have z: "len mod sz = 0 \<Longrightarrow> len div sz * sz = len" using m by simp
  show ?thesis unfolding Let_def tail_mod [OF assms(1)] w m
    using tail_loop [of T f src "len div sz * sz" len dst, OF tail le assms(2,3)] z by auto
qed

lemma map2_snd: "length xs = length ys \<Longrightarrow> map2 (\<lambda>x y. y) xs ys = ys"
  by (induction xs ys rule: list_induct2) simp_all

lemma map2_const: "length xs = length ys \<Longrightarrow> map2 (\<lambda>x y. c) xs ys = replicate (length ys) c"
  by (induction xs ys rule: list_induct2) simp_all

lemma copy_bytes [simp]:
  assumes "sz \<in> {4, 8}" and "len \<le> length dst" and "len \<le> length src"
  shows "neoscrypt_copy sz dst src len = take len src @ drop len dst"
proof -
  have "put_bytes (i * sz) (take sz (drop (i * sz) src)) d
      = put_bytes (i * sz) (map2 (\<lambda>d s. s) (take sz (drop (i * sz) d)) (take sz (drop (i * sz) src))) d"
    if "(i + 1) * sz \<le> len" "length d = length dst" for i d
    using that assms(2,3) by (subst map2_snd) simp_all
  note e = byte_engine [OF assms this refl]
  have "map2 (\<lambda>d s. s) (take len dst) (take len src) = take len src" using assms by (intro map2_snd) simp
  with e show ?thesis unfolding neoscrypt_copy_def by simp
qed

lemma erase_bytes [simp]:
  assumes "sz \<in> {4, 8}" and "len \<le> length dst"
  shows "neoscrypt_erase sz dst len = replicate len 0 @ drop len dst"
proof -
  define src :: "byte list" where "src = replicate len 0"
  have len: "len \<le> length src" by (simp add: src_def)
  have "put_bytes (i * sz) (replicate sz 0) d
      = put_bytes (i * sz) (map2 (\<lambda>d s. 0) (take sz (drop (i * sz) d)) (take sz (drop (i * sz) src))) d"
    if "(i + 1) * sz \<le> len" "length d = length dst" for i d
  proof -
    have "sz \<le> len - i * sz" using that(1) by (simp add: algebra_simps)
    then have "take sz (drop (i * sz) src) = replicate sz 0" by (simp add: src_def)
    moreover have "length (take sz (drop (i * sz) d)) = sz" using that assms(2) by simp
    ultimately show ?thesis by (simp add: map2_const)
  qed
  note e = byte_engine [OF assms len this refl]
  have "map2 (\<lambda>d s. 0) (take len dst) (take len src) = replicate len (0 :: byte)"
    using assms by (subst map2_const) (simp_all add: src_def)
  with e show ?thesis unfolding neoscrypt_erase_def by simp
qed

lemma xor_bytes [simp]:
  assumes "sz \<in> {4, 8}" and "len \<le> length dst" and "len \<le> length src"
  shows "neoscrypt_xor sz dst src len = map2 (XOR) (take len dst) (take len src) @ drop len dst"
  unfolding neoscrypt_xor_def by (subst byte_engine [OF assms, where f = "(XOR)"]) simp_all

section \<open>RFC 7693\<close>

definition rfc7693_G :: "u32 list \<Rightarrow> nat \<Rightarrow> nat \<Rightarrow> nat \<Rightarrow> nat \<Rightarrow> u32 \<Rightarrow> u32 \<Rightarrow> u32 list" where
  "rfc7693_G v a b c d x y = (let
     v = v[a := v ! a + v ! b + x];
     v = v[d := word_rotr 16 (v ! d XOR v ! a)];
     v = v[c := v ! c + v ! d];
     v = v[b := word_rotr 12 (v ! b XOR v ! c)];
     v = v[a := v ! a + v ! b + y];
     v = v[d := word_rotr 8 (v ! d XOR v ! a)];
     v = v[c := v ! c + v ! d]
   in v[b := word_rotr 7 (v ! b XOR v ! c)])"

text \<open>The message schedule of the RFC, a hexadecimal digit for each entry.\<close>

fun base_digits :: "nat \<Rightarrow> nat \<Rightarrow> nat \<Rightarrow> nat list" where
  "base_digits b 0 n = []"
| "base_digits b (Suc k) n = base_digits b k (n div b) @ [n mod b]"

definition rfc7693_sigma :: "nat list list" where
  "rfc7693_sigma = map (base_digits 16 16) [0x0123456789ABCDEF, 0xEA489FD61C02B753, 0xB8C052FDAE367194,
     0x7931DCBE265A40F8, 0x905724AFE1BC683D, 0x2C6A0B834D75FE19, 0xC51FED4A0763928B, 0xDB7EC13950F4862A,
     0x6FE9B308C2D714A5, 0xA2847615FB9E3CD0]"

lemma base_digits_numeral: "base_digits b (numeral k) n = base_digits b (pred_numeral k) (n div b) @ [n mod b]"
  by (simp only: numeral_eq_Suc base_digits.simps)

lemma base_digits_horner:
  "\<forall>d\<in>set ds. d < b \<Longrightarrow> base_digits b (length ds) (foldl (\<lambda>n d. n * b + d) 0 ds) = ds"
  by (induction ds rule: rev_induct) simp_all

lemma blake2s_sigma_rfc: "blake2s_sigma = rfc7693_sigma"
  unfolding blake2s_sigma_def rfc7693_sigma_def by (simp add: base_digits_numeral)

definition rfc7693_round :: "u32 list \<Rightarrow> nat \<Rightarrow> u32 list \<Rightarrow> u32 list" where
  "rfc7693_round m i v = (let s = (\<lambda>k. m ! (rfc7693_sigma ! (i mod 10) ! k)) in
     fold (\<lambda>(k, a, b, c, d) v. rfc7693_G v a b c d (s (2 * k)) (s (2 * k + 1)))
       [(0, 0, 4, 8, 12), (1, 1, 5, 9, 13), (2, 2, 6, 10, 14), (3, 3, 7, 11, 15),
        (4, 0, 5, 10, 15), (5, 1, 6, 11, 12), (6, 2, 7, 8, 13), (7, 3, 4, 9, 14)] v)"

definition rfc7693_F :: "u32 list \<Rightarrow> u32 list \<Rightarrow> nat \<Rightarrow> bool \<Rightarrow> u32 list" where
  "rfc7693_F h m t f = (let
     v = h @ fips_sha256_H0;
     v = v[12 := v ! 12 XOR of_nat t];
     v = v[13 := v ! 13 XOR of_nat (t div 2 ^ 32)];
     v = (if f then v[14 := v ! 14 XOR NOT 0] else v);
     v = fold (rfc7693_round m) [0..<10] v
   in map (\<lambda>i. h ! i XOR v ! i XOR v ! (i + 8)) [0..<8])"

definition rfc7693_block :: "byte list \<Rightarrow> nat \<Rightarrow> u32 list" where
  "rfc7693_block x i = (let b = take 64 (drop (64 * i) x) in words_of (b @ replicate (64 - length b) 0))"

definition rfc7693_hash :: "u32 list \<Rightarrow> byte list \<Rightarrow> u32 list" where
  "rfc7693_hash h x = (let dd = max 1 ((length x + 63) div 64);
     h = fold (\<lambda>i h. rfc7693_F h (rfc7693_block x i) (64 * (i + 1)) False) [0..<dd - 1] h
   in rfc7693_F h (rfc7693_block x (dd - 1)) (length x) True)"

definition rfc7693_blake2s :: "byte list \<Rightarrow> nat \<Rightarrow> byte list \<Rightarrow> byte list" where
  "rfc7693_blake2s key nn msg = (let
     h = fips_sha256_H0;
     h = h[0 := h ! 0 XOR 0x01010000 XOR push_bit 8 (of_nat (length key)) XOR of_nat nn];
     x = (if key = [] then msg else key @ replicate (64 - length key) 0 @ msg)
   in take nn (bytes_of (rfc7693_hash h x)))"

lemma rotr_cases: "ROTR32 a 16 = word_rotr 16 a" "ROTR32 a 12 = word_rotr 12 a" "ROTR32 a 8 = word_rotr 8 a"
  "ROTR32 a 7 = word_rotr 7 a"
  by (simp_all add: ROTR32_rotr)

lemma update_four:
  assumes "distinct [a, b, c, d]"
  shows "v[a := a1, d := d1, c := c1, b := b1, a := a2, d := d2, c := c2, b := b2] = v[a := a2, b := b2, c := c2, d := d2]"
proof (rule nth_equalityI)
  fix i
  assume "i < length (v[a := a1, d := d1, c := c1, b := b1, a := a2, d := d2, c := c2, b := b2])"
  then show "v[a := a1, d := d1, c := c1, b := b1, a := a2, d := d2, c := c2, b := b2] ! i
      = v[a := a2, b := b2, c := c2, d := d2] ! i"
    using assms by (cases "i = a"; cases "i = b"; cases "i = c"; cases "i = d"; simp)
qed simp

lemma blake2s_G_rfc:
  assumes "length v = 16" and "a < 16" "b < 16" "c < 16" "d < 16" and "distinct [a, b, c, d]"
  shows "blake2s_G m r i a b c d v = rfc7693_G v a b c d (m ! (rfc7693_sigma ! r ! (2 * i))) (m ! (rfc7693_sigma ! r ! (2 * i + 1)))"
  using assms by (simp add: blake2s_G_def rfc7693_G_def Let_def rotr_cases update_four blake2s_sigma_rfc)

lemma length_rfc7693_G [simp]: "length (rfc7693_G v a b c d x y) = length v"
  by (simp add: rfc7693_G_def Let_def)

lemma blake2s_ROUND_rfc:
  assumes "length v = 16" and "r < 10"
  shows "blake2s_ROUND m r v = rfc7693_round m r v" and "length (rfc7693_round m r v) = 16"
  using assms by (simp_all add: blake2s_ROUND_def rfc7693_round_def Let_def blake2s_G_rfc)

lemma blake2s_rounds:
  "length v = 16 \<Longrightarrow> n \<le> 10 \<Longrightarrow> fold (blake2s_ROUND m) [0..<n] v = fold (rfc7693_round m) [0..<n] v
    \<and> length (fold (rfc7693_round m) [0..<n] v) = 16"
  by (induction n) (simp_all add: blake2s_ROUND_rfc)

lemma blake2s_compress_rfc:
  assumes "length (b2_h S) = 8" and "b2_t S = [of_nat t, of_nat (t div 2 ^ 32)]" and "b2_f S = [if f then NOT 0 else 0, 0]"
  shows "blake2s_compress S buf = S\<lparr>b2_h := rfc7693_F (b2_h S) (words_of (take 64 buf)) t f\<rparr>"
proof -
  obtain h0 h1 h2 h3 h4 h5 h6 h7 where h: "b2_h S = [h0, h1, h2, h3, h4, h5, h6, h7]"
    using list8 [OF assms(1)] by blast
  define v where "v = b2_h S @ take 4 blake2s_IV @ [b2_t S ! 0 XOR blake2s_IV ! 4, b2_t S ! 1 XOR blake2s_IV ! 5,
           b2_f S ! 0 XOR blake2s_IV ! 6, b2_f S ! 1 XOR blake2s_IV ! 7]"
  have v: "(let v = b2_h S @ fips_sha256_H0; v = v[12 := v ! 12 XOR of_nat t];
     v = v[13 := v ! 13 XOR of_nat (t div 2 ^ 32)] in (if f then v[14 := v ! 14 XOR NOT 0] else v)) = v"
    unfolding v_def assms(2,3) h blake2s_IV_def fips_sha256_H0_code g_sha256_hinit_def Let_def
    by (simp add: xor.commute)
  have l: "length v = 16" by (simp add: v_def h blake2s_IV_def)
  show ?thesis
    unfolding blake2s_compress_def rfc7693_F_def v [symmetric, unfolded Let_def]
    using blake2s_rounds [OF l order_refl, of "words_of (take 64 buf)"] unfolding v [symmetric, unfolded Let_def] v_def [symmetric]
    by (simp add: Let_def)
qed

section \<open>The buffered hash is that of the RFC\<close>

lemma length_rfc7693_F [simp]: "length (rfc7693_F h m t f) = 8"
  by (simp add: rfc7693_F_def Let_def)

text \<open>The value after the first \<open>n\<close> blocks.\<close>

definition b2_blocks :: "u32 list \<Rightarrow> byte list \<Rightarrow> nat \<Rightarrow> u32 list" where
  "b2_blocks h x n = fold (\<lambda>i h. rfc7693_F h (rfc7693_block x i) (64 * (i + 1)) False) [0..<n] h"

lemma length_b2_blocks: "length h = 8 \<Longrightarrow> length (b2_blocks h x n) = 8"
  by (induction n) (simp_all add: b2_blocks_def)

lemma rfc7693_block_full: "64 * (i + 1) \<le> length x \<Longrightarrow> rfc7693_block x i = words_of (take 64 (drop (64 * i) x))"
  by (simp add: rfc7693_block_def Let_def)

lemma b2_blocks_append:
  assumes "64 * n \<le> length x"
  shows "b2_blocks h (x @ y) n = b2_blocks h x n"
  unfolding b2_blocks_def
proof (rule fold_cong)
  fix i
  assume "i \<in> set [0..<n]"
  then have i: "64 * (i + 1) \<le> length x" using assms by simp
  then have "rfc7693_block (x @ y) i = rfc7693_block x i" by (simp add: rfc7693_block_full)
  then show "(\<lambda>h. rfc7693_F h (rfc7693_block (x @ y) i) (64 * (i + 1)) False) = (\<lambda>h. rfc7693_F h (rfc7693_block x i) (64 * (i + 1)) False)"
    by simp
qed simp_all

text \<open>
  The state stands for the bytes \<open>x\<close>, of which it has compressed \<open>n\<close> blocks; the buffer holds the rest.
\<close>

definition b2_holds :: "u32 list \<Rightarrow> blake2s_state \<Rightarrow> byte list \<Rightarrow> nat \<Rightarrow> bool" where
  "b2_holds h S x n \<longleftrightarrow> 64 * n \<le> length x \<and> b2_buflen S = length x - 64 * n \<and> b2_buflen S \<le> 128
     \<and> length (b2_buf S) = 128 \<and> take (b2_buflen S) (b2_buf S) = drop (64 * n) x
     \<and> b2_t S = [of_nat (64 * n), 0] \<and> b2_f S = [0, 0] \<and> b2_h S = b2_blocks h x n"

lemma b2_compress_next:
  assumes S: "length h = 8" "b2_h S = b2_blocks h x n" "b2_t S = [of_nat (64 * n), 0]" "b2_f S = [0, 0]"
    and x: "64 * (n + 1) \<le> length x" "length x < 2 ^ 32" "take 64 buf = take 64 (drop (64 * n) x)"
  shows "blake2s_compress (S\<lparr>b2_t := (b2_t S)[0 := b2_t S ! 0 + of_nat BLAKE2S_BLOCK_SIZE]\<rparr>) buf
    = S\<lparr>b2_t := [of_nat (64 * (n + 1)), 0], b2_h := b2_blocks h x (n + 1)\<rparr>"
proof -
  have t: "(64 * (n + 1)) div 2 ^ 32 = 0" using x(1,2) by (intro div_less) linarith
  have "(b2_t S)[0 := b2_t S ! 0 + of_nat BLAKE2S_BLOCK_SIZE] = [of_nat (64 * (n + 1)), 0]"
    by (simp add: S(3) BLAKE2S_BLOCK_SIZE_def)
  moreover have "blake2s_compress (S\<lparr>b2_t := [of_nat (64 * (n + 1)), 0]\<rparr>) buf
      = S\<lparr>b2_t := [of_nat (64 * (n + 1)), 0],
          b2_h := rfc7693_F (b2_blocks h x n) (words_of (take 64 buf)) (64 * (n + 1)) False\<rparr>"
    using blake2s_compress_rfc [of "S\<lparr>b2_t := [of_nat (64 * (n + 1)), 0]\<rparr>" "64 * (n + 1)" False buf]
      length_b2_blocks [OF S(1), of x n] t S(2,4) by simp
  moreover have "rfc7693_F (b2_blocks h x n) (words_of (take 64 buf)) (64 * (n + 1)) False = b2_blocks h x (n + 1)"
    using rfc7693_block_full [OF x(1)] x(3) by (simp add: b2_blocks_def)
  ultimately show ?thesis by simp
qed

lemma b2_update_holds:
  assumes sz: "sz \<in> {4, 8}" and h: "length h = 8"
  shows "b2_holds h S x n \<Longrightarrow> (0 < n \<longrightarrow> 64 < b2_buflen S \<or> b2_buflen S = 64 \<and> input \<noteq> []) \<Longrightarrow> length (x @ input) < 2 ^ 32
    \<Longrightarrow> \<exists>n'. b2_holds h (blake2s_update sz S input) (x @ input) n' \<and> (0 < n' \<longrightarrow> 64 < b2_buflen (blake2s_update sz S input))"
proof (induction "length input + b2_buflen S" arbitrary: S x n input rule: less_induct)
  case less
  have H: "64 * n \<le> length x" "b2_buflen S = length x - 64 * n" "b2_buflen S \<le> 128" "length (b2_buf S) = 128"
    "take (b2_buflen S) (b2_buf S) = drop (64 * n) x" "b2_t S = [of_nat (64 * n), 0]" "b2_f S = [0, 0]"
    "b2_h S = b2_blocks h x n"
    using less.prems(1) unfolding b2_holds_def by blast+
  have len: "length x = 64 * n + b2_buflen S" using H by simp
  define fill where "fill = 128 - b2_buflen S"
  show ?case
  proof (cases "fill < length input")
    case True
    define buf where "buf = take (b2_buflen S) (b2_buf S) @ take fill input"
    define x' where "x' = x @ take fill input"
    have buf: "buf = drop (64 * n) x'" unfolding buf_def H(5) using H(1) by (simp add: x'_def)
    have "length buf = 128" using H(3,4) True by (simp add: buf_def fill_def)
    note buf = buf this
    have lx: "64 * (n + 1) \<le> length x'" "length x' = 64 * (n + 2)" "length x' < 2 ^ 32"
      using len H True less.prems(3) by (simp_all add: x'_def fill_def)
    define S1 where "S1 = S\<lparr>b2_buf := buf, b2_buflen := 128\<rparr>"
    have c: "blake2s_compress (S1\<lparr>b2_t := (b2_t S1)[0 := b2_t S1 ! 0 + of_nat BLAKE2S_BLOCK_SIZE]\<rparr>) buf
        = S1\<lparr>b2_t := [of_nat (64 * (n + 1)), 0], b2_h := b2_blocks h x' (n + 1)\<rparr>"
      using H lx buf(1) b2_blocks_append [of n x h "take fill input"]
      by (intro b2_compress_next [OF h]) (simp_all add: S1_def x'_def)
    define S2 where "S2 = S1\<lparr>b2_t := [of_nat (64 * (n + 1)), 0], b2_h := b2_blocks h x' (n + 1),
        b2_buf := drop 64 buf @ drop 64 buf, b2_buflen := 64\<rparr>"
    have "at_offset (b2_buflen S) (\<lambda>dst. neoscrypt_copy sz dst input fill) (b2_buf S) = buf"
      using H True sz by (simp add: at_offset_def buf_def fill_def)
    moreover have "input \<noteq> []" using True by auto
    ultimately have u: "blake2s_update sz S input = blake2s_update sz S2 (drop fill input)"
      using True H c buf(2) sz
      by (subst blake2s_update.simps) (simp add: Let_def BLAKE2S_BLOCK_SIZE_def fill_def S1_def S2_def)
    have "b2_holds h S2 x' (n + 1)"
      using lx buf H by (simp add: b2_holds_def S2_def S1_def)
    moreover have "length (drop fill input) + b2_buflen S2 < length input + b2_buflen S"
      using True H by (simp add: S2_def fill_def)
    moreover have "x @ input = x' @ drop fill input" by (simp add: x'_def)
    moreover have "drop fill input \<noteq> []" using True by simp
    ultimately show ?thesis
      using less.hyps [of "drop fill input" S2 x' "n + 1"] less.prems(3) unfolding u by (simp add: S2_def)
  next
    case False
    have "at_offset (b2_buflen S) (\<lambda>dst. neoscrypt_copy sz dst input (length input)) (b2_buf S)
        = take (b2_buflen S) (b2_buf S) @ input @ drop (b2_buflen S + length input) (b2_buf S)"
      using H False sz by (simp add: at_offset_def fill_def add.commute)
    then have u: "blake2s_update sz S input = S\<lparr>b2_buf := take (b2_buflen S) (b2_buf S) @ input
        @ drop (b2_buflen S + length input) (b2_buf S), b2_buflen := b2_buflen S + length input\<rparr>"
      using False by (cases "input = []"; cases S; subst blake2s_update.simps)
        (simp_all add: Let_def BLAKE2S_BLOCK_SIZE_def fill_def)
    have "b2_holds h (blake2s_update sz S input) (x @ input) n"
      using H False by (simp add: u b2_holds_def fill_def b2_blocks_append)
    moreover have "0 < n \<longrightarrow> 64 < b2_buflen (blake2s_update sz S input)"
      using less.prems(2) unfolding u by (cases "input = []") auto
    ultimately show ?thesis by blast
  qed
qed

lemma b2_finish_hash:
  assumes sz: "sz \<in> {4, 8}" and h: "length h = 8" and S: "b2_holds h S x n" "0 < n \<longrightarrow> 64 < b2_buflen S"
    and x: "length x < 2 ^ 32"
  shows "b2_h (blake2s_finish sz S) = rfc7693_hash h x"
proof -
  have last: "b2_h (blake2s_compress (S\<lparr>b2_t := (b2_t S)[0 := b2_t S ! 0 + of_nat (b2_buflen S)], b2_f := (b2_f S)[0 := NOT 0],
        b2_buf := at_offset (b2_buflen S) (\<lambda>dst. neoscrypt_erase sz dst (128 - b2_buflen S)) (b2_buf S)\<rparr>)
        (at_offset (b2_buflen S) (\<lambda>dst. neoscrypt_erase sz dst (128 - b2_buflen S)) (b2_buf S)))
      = rfc7693_hash h x"
    if S: "b2_holds h S x n" and n: "b2_buflen S \<le> 64" "0 < n \<longrightarrow> 0 < b2_buflen S" for S n
  proof -
    have H: "64 * n \<le> length x" "b2_buflen S = length x - 64 * n" "length (b2_buf S) = 128"
      "take (b2_buflen S) (b2_buf S) = drop (64 * n) x" "b2_t S = [of_nat (64 * n), 0]" "b2_f S = [0, 0]"
      "b2_h S = b2_blocks h x n"
      using S unfolding b2_holds_def by blast+
    define buf where "buf = at_offset (b2_buflen S) (\<lambda>dst. neoscrypt_erase sz dst (128 - b2_buflen S)) (b2_buf S)"
    have b: "buf = drop (64 * n) x @ replicate (128 - b2_buflen S) 0"
      unfolding buf_def at_offset_def H(4) using sz n(1) H(3) by simp
    have bl: "length (drop (64 * n) x) = b2_buflen S" using H(2) by simp
    have "take 64 (r @ replicate (128 - length r) 0) = take 64 r @ replicate (64 - length (take 64 r)) 0"
      if "length r \<le> 64" for r :: "byte list"
      using that by simp
    from this [of "drop (64 * n) x"] have "take 64 buf = take 64 (drop (64 * n) x) @ replicate (64 - length (take 64 (drop (64 * n) x))) 0"
      using n(1) unfolding b bl [symmetric] by blast
    then have blk: "words_of (take 64 buf) = rfc7693_block x n"
      unfolding rfc7693_block_def Let_def by (rule arg_cong)
    have len: "length x = 64 * n + b2_buflen S" using H(1,2) by simp
    have dd: "max 1 ((length x + 63) div 64) - 1 = n"
    proof (cases "b2_buflen S = 0")
      case False
      then have "(length x + 63) div 64 = n + 1" unfolding len using n(1) by (intro div_nat_eqI) simp_all
      then show ?thesis by simp
    qed (use n(2) len in simp)
    have "of_nat (64 * n) + of_nat (b2_buflen S) = (of_nat (length x) :: u32)" by (simp add: len)
    moreover have "length x div 2 ^ 32 = 0" using x by (rule div_less)
    ultimately show ?thesis
      using blake2s_compress_rfc [of "S\<lparr>b2_t := [of_nat (length x), 0], b2_f := [NOT 0, 0], b2_buf := buf\<rparr>" "length x" True buf]
        length_b2_blocks [OF h, of x n]
      unfolding buf_def [symmetric] rfc7693_hash_def Let_def dd b2_blocks_def [symmetric] H(5,6)
      by (simp add: H(7) blk)
  qed
  show ?thesis
  proof (cases "64 < b2_buflen S")
    case True
    have H: "64 * n \<le> length x" "b2_buflen S = length x - 64 * n" "b2_buflen S \<le> 128" "length (b2_buf S) = 128"
      "take (b2_buflen S) (b2_buf S) = drop (64 * n) x" "b2_t S = [of_nat (64 * n), 0]" "b2_f S = [0, 0]"
      "b2_h S = b2_blocks h x n"
      using S(1) unfolding b2_holds_def by blast+
    have lx: "64 * (n + 1) \<le> length x" using True H(1,2) by simp
    have "take 64 (b2_buf S) = take 64 (take (b2_buflen S) (b2_buf S))" using True by (simp add: min_def)
    then have "take 64 (b2_buf S) = take 64 (drop (64 * n) x)" unfolding H(5) .
    note c = b2_compress_next [OF h H(8,6,7) lx x this]
    define S1 where "S1 = S\<lparr>b2_t := [of_nat (64 * (n + 1)), 0], b2_h := b2_blocks h x (n + 1),
        b2_buflen := b2_buflen S - 64, b2_buf := neoscrypt_copy sz (b2_buf S) (drop 64 (b2_buf S)) (b2_buflen S - 64)\<rparr>"
    have nb: "neoscrypt_copy sz (b2_buf S) (drop 64 (b2_buf S)) (b2_buflen S - 64)
        = take (b2_buflen S - 64) (drop 64 (b2_buf S)) @ drop (b2_buflen S - 64) (b2_buf S)"
      using H(3,4) sz by simp
    have "take (b2_buflen S - 64) (drop 64 (b2_buf S)) = drop 64 (take (b2_buflen S) (b2_buf S))"
      using True by (simp add: drop_take)
    then have "take (b2_buflen S - 64) (drop 64 (b2_buf S)) = drop (64 * (n + 1)) x"
      unfolding H(5) by simp
    then have "b2_holds h S1 x (n + 1)"
      using lx H(1-4,7) True unfolding b2_holds_def S1_def nb by (auto simp: add.commute)
    moreover have "b2_buflen S1 \<le> 64" "0 < b2_buflen S1" using H(3) True by (simp_all add: S1_def)
    ultimately have "b2_h (blake2s_compress (S1\<lparr>b2_t := (b2_t S1)[0 := b2_t S1 ! 0 + of_nat (b2_buflen S1)], b2_f := (b2_f S1)[0 := NOT 0],
        b2_buf := at_offset (b2_buflen S1) (\<lambda>dst. neoscrypt_erase sz dst (128 - b2_buflen S1)) (b2_buf S1)\<rparr>)
        (at_offset (b2_buflen S1) (\<lambda>dst. neoscrypt_erase sz dst (128 - b2_buflen S1)) (b2_buf S1)))
      = rfc7693_hash h x" by (intro last [of S1 "n + 1"]) simp_all
    then show ?thesis unfolding blake2s_finish_def Let_def
      using True c by (simp add: BLAKE2S_BLOCK_SIZE_def S1_def)
  next
    case False
    then have "n = 0" using S(2) by auto
    then show ?thesis unfolding blake2s_finish_def Let_def
      using False last [OF S(1)] by (simp add: BLAKE2S_BLOCK_SIZE_def)
  qed
qed

lemma words_bytes_xor: "bytes_le 4 (a XOR b :: u32) = map2 (XOR) (bytes_le 4 a) (bytes_le 4 b)"
proof -
  have "(ucast (drop_bit n (a XOR b)) :: byte) = ucast (drop_bit n a) XOR ucast (drop_bit n b)" for n
    by (intro bit_word_eqI) (auto simp: bit_simps)
  from this [of 0] this [of 8] this [of 16] this [of 24] show ?thesis
    by (simp add: bytes_le_def upt_conv_Cons)
qed

lemma bytes_of_xor: "length us = length ws \<Longrightarrow> map2 (XOR) (bytes_of us) (bytes_of ws) = bytes_of (map2 (XOR) us ws)"
  by (induction us ws rule: list_induct2) (simp_all add: bytes_of_def words_bytes_xor)

lemma replicate_seven: "replicate 7 x = [x, x, x, x, x, x, x]"
  by (simp add: numeral_eq_Suc)

lemma param_bytes_words:
  "param_bytes \<lparr>digest_length = nn, key_length = kk, fanout = 1, depth = 1\<rparr>
    = bytes_of ((0x01010000 XOR push_bit 8 (ucast kk) XOR ucast nn) # replicate 7 0)"
proof -
  define one :: byte where "one = 1"
  have c: "(0x01010000 :: u32) = push_bit 24 (ucast one) XOR push_bit 16 (ucast one)" by (simp add: one_def)
  have b: "ucast (push_bit 24 (ucast one) XOR push_bit 16 (ucast one) XOR push_bit 8 (ucast kk) XOR ucast nn :: u32) = nn"
    "ucast (drop_bit 8 (push_bit 24 (ucast one) XOR push_bit 16 (ucast one) XOR push_bit 8 (ucast kk) XOR ucast nn :: u32)) = kk"
    "ucast (drop_bit 16 (push_bit 24 (ucast one) XOR push_bit 16 (ucast one) XOR push_bit 8 (ucast kk) XOR ucast nn :: u32)) = one"
    "ucast (drop_bit 24 (push_bit 24 (ucast one) XOR push_bit 16 (ucast one) XOR push_bit 8 (ucast kk) XOR ucast nn :: u32)) = one"
    by (rule bit_word_eqI; auto simp: bit_simps dest: bit_imp_le_length)+
  have z: "bytes_of (replicate 7 (0 :: u32)) = replicate 28 0"
    by (simp add: bytes_of_def bytes_le_def upt_conv_Cons replicate_seven)
      (simp add: numeral_eq_Suc)
  have "bytes_of (w # ws) = [ucast w, ucast (drop_bit 8 w), ucast (drop_bit 16 w), ucast (drop_bit 24 w)] @ bytes_of ws" for w :: u32 and ws
    by (simp add: bytes_of_def bytes_le_def upt_conv_Cons)
  then show ?thesis
    unfolding param_bytes_def c one_def [symmetric] by (simp only: b z blake2s_param.simps xor.assoc)
qed

lemma neoscrypt_blake2s_rfc:
  assumes sz: "sz \<in> {4, 8}" and key: "key \<noteq> []" "length key \<le> 64" and nn: "unat nn \<le> 32"
    and input: "length input + 64 < 2 ^ 32"
  shows "neoscrypt_blake2s sz input key nn = rfc7693_blake2s key (unat nn) input"
proof -
  define h where "h = fips_sha256_H0[0 := fips_sha256_H0 ! 0 XOR 0x01010000 XOR push_bit 8 (of_nat (length key)) XOR of_nat (unat nn)]"
  have kk: "ucast (of_nat (length key) :: byte) = (of_nat (length key) :: u32)"
    using key(2) by (simp add: word_eq_iff_unsigned unsigned_of_nat unsigned_ucast_eq take_bit_nat_eq_self)
  define pw :: u32 where "pw = 0x01010000 XOR push_bit 8 (ucast (of_nat (length key) :: byte)) XOR ucast nn"
  have iv: "blake2s_IV = fips_sha256_H0" by (simp only: blake2s_IV_def fips_sha256_H0_code g_sha256_hinit_def)
  have l8: "length fips_sha256_H0 = 8" by (simp add: fips_sha256_H0_code g_sha256_hinit_def)
  have "map2 (XOR) (bytes_of fips_sha256_H0) (bytes_of (pw # replicate 7 0)) = bytes_of h"
    by (subst bytes_of_xor) (simp_all add: l8 h_def fips_sha256_H0_code g_sha256_hinit_def pw_def kk replicate_seven ac_simps)
  then have init: "blake2s_init sz (of_nat (length key)) nn
      = \<lparr>b2_h = h, b2_t = [0, 0], b2_f = [0, 0], b2_buf = replicate 128 0, b2_buflen = 0\<rparr>"
    using sz unfolding blake2s_init_def Let_def iv param_bytes_words pw_def [symmetric] by (simp add: l8)
  have lh: "length h = 8" by (simp add: h_def l8)
  define S where "S = blake2s_init sz (of_nat (length key)) nn"
  have S: "b2_holds h S [] 0" by (simp add: S_def init b2_holds_def b2_blocks_def)
  define block where "block = key @ replicate (64 - length key) 0"
  have bl: "neoscrypt_copy sz (neoscrypt_erase sz (replicate 64 0) BLAKE2S_BLOCK_SIZE) key (length key) = block"
    using sz key(2) by (simp add: block_def BLAKE2S_BLOCK_SIZE_def)
  have len: "length block = 64" using key(2) by (simp add: block_def)
  obtain n1 where S1: "b2_holds h (blake2s_update sz S block) block n1"
    "0 < n1 \<longrightarrow> 64 < b2_buflen (blake2s_update sz S block)"
    using b2_update_holds [OF sz lh S, of block] len by auto
  obtain n2 where S2: "b2_holds h (blake2s_update sz (blake2s_update sz S block) input) (block @ input) n2"
    "0 < n2 \<longrightarrow> 64 < b2_buflen (blake2s_update sz (blake2s_update sz S block) input)"
    using b2_update_holds [OF sz lh S1(1), of input] S1(2) len input by auto
  define S3 where "S3 = blake2s_finish sz (blake2s_update sz (blake2s_update sz S block) input)"
  have h3: "b2_h S3 = rfc7693_hash h (block @ input)"
    unfolding S3_def using b2_finish_hash [OF sz lh S2] len input by simp
  have "length (b2_h S3) = 8" unfolding h3 by (simp add: rfc7693_hash_def Let_def)
  then have "length (bytes_of (b2_h S3)) = 32" by simp
  moreover have "blake2s_bytes S3 = bytes_of (b2_h S3) @ bytes_of (b2_t S3 @ b2_f S3) @ b2_buf S3 @ bytes_le 4 (of_nat (b2_buflen S3) :: u32)"
    by (simp add: blake2s_bytes_def bytes_of_def)
  ultimately have "neoscrypt_copy sz (replicate (unat nn) 0) (blake2s_bytes S3) (unat nn) = take (unat nn) (bytes_of (b2_h S3))"
    using sz nn by simp
  then show ?thesis
    using key(1) unfolding neoscrypt_blake2s_def Let_def S_def [symmetric] bl S3_def [symmetric] h3
    by (simp add: rfc7693_blake2s_def Let_def h_def block_def)
qed

section \<open>FastKDF over rings of 256 bytes\<close>

text \<open>
  The specification has no tails to keep equal and no cases: positions are taken modulo 256.
\<close>

definition ring_fill :: "byte list \<Rightarrow> byte list" where
  "ring_fill s = map (\<lambda>i. s ! (i mod length s)) [0..<256]"

definition ring_read :: "byte list \<Rightarrow> nat \<Rightarrow> nat \<Rightarrow> byte list" where
  "ring_read R p n = map (\<lambda>i. R ! ((p + i) mod 256)) [0..<n]"

definition ring_xor :: "nat \<Rightarrow> byte list \<Rightarrow> byte list \<Rightarrow> byte list" where
  "ring_xor p x R = map (\<lambda>i. let d = (i + 256 - p) mod 256 in if d < length x then R ! i XOR x ! d else R ! i) [0..<256]"

definition fastkdf_turn :: "byte list \<Rightarrow> byte list \<times> nat \<Rightarrow> byte list \<times> nat" where
  "fastkdf_turn A = (\<lambda>(B, p). let
     x = rfc7693_blake2s (ring_read B p 32) 32 (ring_read A p 64);
     p = sum_list (map unat x) mod 256
   in (ring_xor p x B, p))"

definition fastkdf_ring :: "byte list \<Rightarrow> byte list \<Rightarrow> nat \<Rightarrow> nat \<Rightarrow> byte list" where
  "fastkdf_ring P S N n = (let (B, p) = (fastkdf_turn (ring_fill P) ^^ N) (ring_fill S, 0)
     in map2 (XOR) (ring_read B p n) (take n (ring_fill P)))"

lemma length_ring [simp]:
  "length (ring_fill s) = 256" "length (ring_read R p n) = n" "length (ring_xor p x R) = 256"
  by (simp_all add: ring_fill_def ring_read_def ring_xor_def)

lemma length_rfc7693_blake2s [simp]: "n \<le> 32 \<Longrightarrow> length (rfc7693_blake2s key n m) = n"
  by (simp add: rfc7693_blake2s_def rfc7693_hash_def Let_def)

text \<open>A ring and a tail that repeats its start.\<close>

definition with_tail :: "nat \<Rightarrow> byte list \<Rightarrow> byte list" where
  "with_tail t R = R @ take t R"

lemma nth_with_tail: "length R = 256 \<Longrightarrow> t \<le> 256 \<Longrightarrow> j < 256 + t \<Longrightarrow> with_tail t R ! j = R ! (j mod 256)"
  by (auto simp: with_tail_def nth_append mod_if)

lemma length_with_tail: "length R = 256 \<Longrightarrow> t \<le> 256 \<Longrightarrow> length (with_tail t R) = 256 + t"
  by (simp add: with_tail_def)

lemma read_with_tail:
  assumes "length R = 256" and "t \<le> 256" and "p < 256"
  shows "take t (drop p (with_tail t R)) = ring_read R p t"
  using assms by (intro nth_equalityI) (simp_all add: length_with_tail ring_read_def nth_with_tail)

lemma nth_at_copy:
  assumes "sz \<in> {4, 8}" and "a + len \<le> length buf" and "len \<le> length src" and "j < length buf"
  shows "at_offset a (\<lambda>dst. neoscrypt_copy sz dst src len) buf ! j = (if a \<le> j \<and> j < a + len then src ! (j - a) else buf ! j)"
  using assms by (auto simp: at_offset_def nth_append min_def)

lemma length_at_copy:
  assumes "sz \<in> {4, 8}" and "a + len \<le> length buf" and "len \<le> length src"
  shows "length (at_offset a (\<lambda>dst. neoscrypt_copy sz dst src len) buf) = length buf"
  using assms by (simp add: at_offset_def)

lemma nth_at_xor:
  assumes "sz \<in> {4, 8}" and "a + len \<le> length buf" and "len \<le> length src" and "j < length buf"
  shows "at_offset a (\<lambda>dst. neoscrypt_xor sz dst src len) buf ! j
    = (if a \<le> j \<and> j < a + len then buf ! j XOR src ! (j - a) else buf ! j)"
  using assms by (auto simp: at_offset_def nth_append min_def)

lemma length_at_xor:
  assumes "sz \<in> {4, 8}" and "a + len \<le> length buf" and "len \<le> length src"
  shows "length (at_offset a (\<lambda>dst. neoscrypt_xor sz dst src len) buf) = length buf"
  using assms by (simp add: at_offset_def)

lemma at_offset_0: "at_offset 0 f buf = f buf"
  by (simp add: at_offset_def)

lemma fill_copies:
  assumes "sz \<in> {4, 8}" and "len \<le> length s"
  shows "k * len \<le> length buf \<Longrightarrow>
    fold (\<lambda>i. at_offset (i * len) (\<lambda>dst. neoscrypt_copy sz dst s len)) [0..<k] buf
      = concat (replicate k (take len s)) @ drop (k * len) buf"
proof (induction k)
  case (Suc k)
  have l: "length (concat (replicate k (take len s))) = k * len"
    using assms(2) by (induction k) simp_all
  have "concat (replicate k (take len s)) @ take len s = concat (replicate (Suc k) (take len s))"
    by (induction k) simp_all
  then show ?case
    using Suc assms by (simp add: at_offset_def l add.commute)
qed simp

lemma nth_concat_replicate:
  "i < k * length s \<Longrightarrow> concat (replicate k s) ! i = s ! (i mod length s)"
proof (induction k arbitrary: i)
  case (Suc k)
  show ?case
  proof (cases "i < length s")
    case False
    then have "i - length s < k * length s" using Suc.prems by simp
    then show ?thesis using False Suc.IH [of "i - length s"] by (simp add: nth_append le_mod_geq)
  qed (simp add: nth_append)
qed simp

lemma fastkdf_fill_ring:
  assumes sz: "sz \<in> {4, 8}" and t: "t \<le> length s" "t \<le> 256" and s: "s \<noteq> []" and buf: "length buf = 256 + t"
  shows "fastkdf_fill sz s t buf = with_tail t (ring_fill s)"
proof -
  define len where "len = min 256 (length s)"
  have len: "0 < len" "len \<le> 256" "len \<le> length s" using s by (simp_all add: len_def)
  define a where "a = 256 div len"
  define b where "b = 256 - a * len"
  have ab: "a * len + b = 256" "b < len"
  proof -
    have "a * len + 256 mod len = 256" unfolding a_def by simp
    then have "b = 256 mod len" unfolding b_def by linarith
    then show "a * len + b = 256" "b < len" using \<open>a * len + 256 mod len = 256\<close> len(1) by simp_all
  qed
  have lc: "length (concat (replicate k (take len s))) = k * len" for k
    using len(3) by (induction k) simp_all
  have f: "fold (\<lambda>i. at_offset (i * len) (\<lambda>dst. neoscrypt_copy sz dst s len)) [0..<a] buf
      = concat (replicate a (take len s)) @ drop (a * len) buf"
    using ab buf by (intro fill_copies sz len(3)) simp
  have g: "(if b \<noteq> 0 then at_offset (a * len) (\<lambda>dst. neoscrypt_copy sz dst s b) (concat (replicate a (take len s)) @ drop (a * len) buf)
      else concat (replicate a (take len s)) @ drop (a * len) buf) = (concat (replicate a (take len s)) @ take b s) @ drop 256 buf"
    using sz ab len(3) buf by (auto simp: at_offset_def lc add.commute)
  have r: "concat (replicate a (take len s)) @ take b s = ring_fill s"
  proof (rule nth_equalityI)
    show l: "length (concat (replicate a (take len s)) @ take b s) = length (ring_fill s)"
      using ab len by (simp add: lc)
    fix i
    assume "i < length (concat (replicate a (take len s)) @ take b s)"
    then have i: "i < 256" unfolding l by simp
    have m: "i mod len = i mod length s"
    proof (cases "length s \<le> 256")
      case False
      then have "i < len" "i < length s" using i by (simp_all add: len_def)
      then show ?thesis by simp
    qed (simp add: len_def)
    have rf: "ring_fill s ! i = s ! (i mod len)" using i by (simp add: ring_fill_def m)
    show "(concat (replicate a (take len s)) @ take b s) ! i = ring_fill s ! i"
    proof (cases "i < a * len")
      case True
      then have "concat (replicate a (take len s)) ! i = take len s ! (i mod len)"
        using nth_concat_replicate [of i a "take len s"] len(3) by (simp add: min_def)
      then show ?thesis using True len(1) by (simp add: rf nth_append lc)
    next
      case False
      then have "i - a * len < b" using i ab(1) by linarith
      moreover have "i mod len = (i - a * len) mod len"
        using False by (metis le_add_diff_inverse mod_mult_self3 not_less mult.commute add.commute)
      ultimately show ?thesis using False ab(2) by (simp add: rf nth_append lc)
    qed
  qed
  have tail: "take t (ring_fill s) = take t s"
    using t by (intro nth_equalityI) (simp_all add: ring_fill_def)
  have le: "(if length s > FASTKDF_BUFFER_SIZE then FASTKDF_BUFFER_SIZE else length s) = len"
    by (simp add: FASTKDF_BUFFER_SIZE_def len_def)
  have "at_offset 256 (\<lambda>dst. neoscrypt_copy sz dst s t) (ring_fill s @ drop 256 buf) = ring_fill s @ take t s"
    using sz t buf by (simp add: at_offset_def)
  then show ?thesis
    unfolding fastkdf_fill_def Let_def le unfolding FASTKDF_BUFFER_SIZE_def a_def [symmetric] b_def [symmetric] f g r
    by (simp add: with_tail_def tail)
qed

text \<open>The two copies after the modification keep head and tail equal.\<close>

lemma fastkdf_tail:
  assumes sz: "sz \<in> {4, 8}" and R: "length R = 256" and x: "length x = 32" and p: "p < 256"
  shows "(let B = at_offset p (\<lambda>dst. neoscrypt_xor sz dst x 32) (with_tail 32 R);
      B = (if p < 32 then at_offset (256 + p) (\<lambda>dst. neoscrypt_copy sz dst (drop p B) (min 32 (32 - p))) B else B)
    in if 256 - p < 32 then neoscrypt_copy sz B (drop 256 B) (32 - (256 - p)) else B)
    = with_tail 32 (ring_xor p x R)"
proof -
  define B0 where "B0 = with_tail 32 R"
  have B0: "length B0 = 288" "\<And>j. j < 288 \<Longrightarrow> B0 ! j = R ! (j mod 256)"
    using R by (simp_all add: B0_def length_with_tail nth_with_tail)
  define B1 where "B1 = at_offset p (\<lambda>dst. neoscrypt_xor sz dst x 32) B0"
  have B1: "length B1 = 288"
    "\<And>j. j < 288 \<Longrightarrow> B1 ! j = (if p \<le> j \<and> j < p + 32 then B0 ! j XOR x ! (j - p) else B0 ! j)"
    using p B0(1) x length_at_xor [OF sz, of p 32 B0 x] nth_at_xor [OF sz, of p 32 B0 x] by (simp_all add: B1_def)
  define B2 where "B2 = (if p < 32 then at_offset (256 + p) (\<lambda>dst. neoscrypt_copy sz dst (drop p B1) (min 32 (32 - p))) B1 else B1)"
  have B2: "length B2 = 288"
    "\<And>j. j < 288 \<Longrightarrow> B2 ! j = (if p < 32 \<and> 256 + p \<le> j then B1 ! (j - 256) else B1 ! j)"
    using B1(1) length_at_copy [OF sz, of "256 + p" "32 - p" B1 "drop p B1"]
      nth_at_copy [OF sz, of "256 + p" "32 - p" B1 "drop p B1"] by (auto simp: B2_def)
  define B3 where "B3 = (if 256 - p < 32 then neoscrypt_copy sz B2 (drop 256 B2) (32 - (256 - p)) else B2)"
  have B3: "length B3 = 288"
    "\<And>j. j < 288 \<Longrightarrow> B3 ! j = (if j + 224 < p then B2 ! (256 + j) else B2 ! j)"
    using B2(1) p length_at_copy [OF sz, of 0 "32 - (256 - p)" B2 "drop 256 B2"]
      nth_at_copy [OF sz, of 0 "32 - (256 - p)" B2 "drop 256 B2"] by (auto simp: B3_def at_offset_0)
  have T: "with_tail 32 (ring_xor p x R) ! j = (let i = j mod 256; d = (i + 256 - p) mod 256
      in if d < 32 then R ! i XOR x ! d else R ! i)" if "j < 288" for j
    using that by (simp add: nth_with_tail ring_xor_def x Let_def)
  have "B3 ! j = with_tail 32 (ring_xor p x R) ! j" if j: "j < 288" for j
  proof (cases "j < 256")
    case True
    then have d: "(j + 256 - p) mod 256 = (if p \<le> j then j - p else j + 256 - p)" using p by (auto simp: mod_if)
    show ?thesis
    proof (cases "j + 224 < p")
      case True
      then have "B3 ! j = B1 ! (256 + j)" using j p B3(2) B2(2) by simp
      moreover have "B1 ! (256 + j) = R ! j XOR x ! (256 + j - p)" using True p B1(2) [of "256 + j"] B0(2) [of "256 + j"] by simp
      moreover have "j + 256 - p < 32" using True p by linarith
      ultimately show ?thesis using True p unfolding T [OF j] by (simp add: d Let_def add.commute)
    next
      case False
      then have "B3 ! j = B1 ! j" using j True B3(2) B2(2) by simp
      then show ?thesis using False True p j unfolding T [OF j] by (auto simp: d Let_def B1(2) B0(2))
    qed
  next
    case False
    define i where "i = j - 256"
    have i: "j = 256 + i" "i < 32" "j mod 256 = i" using False j by (simp_all add: i_def mod_if)
    have d: "(i + 256 - p) mod 256 = (if p \<le> i then i - p else i + 256 - p)" using p i(2) by (auto simp: mod_if)
    have e: "B3 ! j = B2 ! j" using j False p B3(2) by simp
    show ?thesis
    proof (cases "p \<le> i")
      case True
      then have "B2 ! j = B1 ! i" using i j B2(2) by simp
      then show ?thesis using True i p e unfolding T [OF j] by (auto simp: d Let_def B1(2) B0(2))
    next
      case False
      then have "B2 ! j = B1 ! j" using i j B2(2) by simp
      then show ?thesis using False i p e j unfolding T [OF j] by (auto simp: d Let_def B1(2) B0(2) add.commute)
    qed
  qed
  then have "B3 = with_tail 32 (ring_xor p x R)"
    using B3(1) by (intro nth_equalityI) (simp_all add: length_with_tail)
  then show ?thesis unfolding B3_def B2_def B1_def B0_def Let_def .
qed

lemma and_255: "(n :: nat) AND 255 = n mod 256"
  using take_bit_eq_mask [of 8 n] by (simp add: mask_eq_exp_minus_1 take_bit_eq_mod)

lemma fastkdf_step_ring:
  assumes sz: "sz \<in> {4, 8}" and A: "length A = 256" and R: "length R = 256" and p: "p < 256"
  shows "fastkdf_step sz (with_tail 64 A) (with_tail 32 R, p)
    = (case fastkdf_turn A (R, p) of (R, p) \<Rightarrow> (with_tail 32 R, p))"
proof -
  define x where "x = rfc7693_blake2s (ring_read R p 32) 32 (ring_read A p 64)"
  have x: "length x = 32" by (simp add: x_def)
  have k: "ring_read R p 32 \<noteq> []" using length_ring(2) [of R p 32] by (metis list.size(3) zero_neq_numeral)
  have pr: "neoscrypt_blake2s sz (ring_read A p 64) (ring_read R p 32) (of_nat 32) = x"
    using neoscrypt_blake2s_rfc [OF sz k, of "of_nat 32" "ring_read A p 64"] by (simp add: x_def)
  have s: "fold (\<lambda>b p. p + unat b) bs n = n + sum_list (map unat bs)" for bs :: "byte list" and n
    by (induction bs arbitrary: n) simp_all
  define q where "q = sum_list (map unat x) mod 256"
  have q: "(fold (\<lambda>b p. p + unat b) x 0) AND (256 - 1) = q" by (simp add: s q_def and_255)
  have "q < 256" by (simp add: q_def)
  note t = fastkdf_tail [OF sz R x this]
  have r: "take 64 (drop p (with_tail 64 A)) = ring_read A p 64" "take 32 (drop p (with_tail 32 R)) = ring_read R p 32"
    using A R p by (simp_all add: read_with_tail)
  show ?thesis
    unfolding fastkdf_step_def fastkdf_turn_def prod.case Let_def BLAKE2S_BLOCK_SIZE_def BLAKE2S_KEY_SIZE_def
      BLAKE2S_OUT_SIZE_def FASTKDF_BUFFER_SIZE_def r pr q x_def [symmetric] q_def [symmetric]
    using t [unfolded Let_def] by simp
qed

lemma fastkdf_turn_sizes: "fastkdf_turn A s = (R, p) \<Longrightarrow> length R = 256 \<and> p < 256"
  by (auto simp: fastkdf_turn_def Let_def split: prod.splits)

lemma fastkdf_steps_ring:
  assumes sz: "sz \<in> {4, 8}" and A: "length A = 256" and R: "length R = 256" and p: "p < 256"
  shows "fold (\<lambda>i. fastkdf_step sz (with_tail 64 A)) [0..<N] (with_tail 32 R, p)
      = (case (fastkdf_turn A ^^ N) (R, p) of (R, p) \<Rightarrow> (with_tail 32 R, p))
    \<and> (case (fastkdf_turn A ^^ N) (R, p) of (R, p) \<Rightarrow> length R = 256 \<and> p < 256)"
proof (induction N)
  case (Suc N)
  obtain R' p' where e: "(fastkdf_turn A ^^ N) (R, p) = (R', p')" by (cases "(fastkdf_turn A ^^ N) (R, p)")
  obtain R'' p'' where e': "fastkdf_turn A (R', p') = (R'', p'')" by (cases "fastkdf_turn A (R', p')")
  have "length R' = 256" "p' < 256" using Suc e by simp_all
  from fastkdf_step_ring [OF sz A this] show ?case
    using Suc fastkdf_turn_sizes [OF e'] by (simp add: e e')
qed (use assms in simp)

lemma fastkdf_output_ring:
  assumes sz: "sz \<in> {4, 8}" and A: "length A = 256" and R: "length R = 256" and p: "p < 256"
    and n: "n \<le> 256" "n \<le> length output"
  shows "fastkdf_output sz (with_tail 64 A) (with_tail 32 R) p n output
    = map2 (XOR) (ring_read R p n) (take n A) @ drop n output"
proof -
  define B0 where "B0 = with_tail 32 R"
  have B0: "length B0 = 288" "\<And>j. j < 288 \<Longrightarrow> B0 ! j = R ! (j mod 256)"
    using R by (simp_all add: B0_def length_with_tail nth_with_tail)
  define A0 where "A0 = with_tail 64 A"
  have A0: "length A0 = 320" "\<And>j. j < 256 \<Longrightarrow> A0 ! j = A ! j"
    using A by (simp_all add: A0_def length_with_tail nth_with_tail)
  define a where "a = 256 - p"
  show ?thesis
  proof (cases "n \<le> a")
    case True
    define B1 where "B1 = at_offset p (\<lambda>dst. neoscrypt_xor sz dst A0 n) B0"
    have B1: "length B1 = 288" "\<And>j. j < n \<Longrightarrow> B1 ! (p + j) = R ! (p + j) XOR A ! j"
      using sz p True n A0 B0 length_at_xor [OF sz, of p n B0 A0] nth_at_xor [OF sz, of p n B0 A0]
      by (simp_all add: B1_def a_def)
    have "take n (drop p B1) = map2 (XOR) (ring_read R p n) (take n A)"
      using B1 True p A n(1) by (intro nth_equalityI) (simp_all add: a_def ring_read_def)
    moreover have "neoscrypt_copy sz output (drop p B1) n = take n (drop p B1) @ drop n output"
      using sz n(2) B1(1) True by (simp add: a_def)
    ultimately show ?thesis
      using True unfolding fastkdf_output_def Let_def FASTKDF_BUFFER_SIZE_def a_def [symmetric] B0_def [symmetric] A0_def [symmetric]
        B1_def [symmetric] by simp
  next
    case False
    define B1 where "B1 = at_offset p (\<lambda>dst. neoscrypt_xor sz dst A0 a) B0"
    have pa: "p + a = 256" using p by (simp add: a_def)
    have B1: "length B1 = 288" "\<And>j. j < p \<Longrightarrow> B1 ! j = R ! j"
      using sz p n A0 B0 length_at_xor [OF sz, of p a B0 A0] nth_at_xor [OF sz, of p a B0 A0]
      by (simp_all add: B1_def a_def)
    have B1': "B1 ! (p + j) = R ! (p + j) XOR A ! j" if "j < a" for j
    proof -
      have "p + j < 256" "j < 256" using that pa by linarith+
      then show ?thesis
        using nth_at_xor [OF sz, of p a B0 A0 "p + j"] A0 B0 pa that by (simp add: B1_def)
    qed
    define B2 where "B2 = neoscrypt_xor sz B1 (drop a A0) (n - a)"
    have B2: "length B2 = 288" "\<And>j. j < 288 \<Longrightarrow> B2 ! j = (if j < n - a then B1 ! j XOR A0 ! (a + j) else B1 ! j)"
      using sz B1(1) A0(1) n p length_at_xor [OF sz, of 0 "n - a" B1 "drop a A0"] nth_at_xor [OF sz, of 0 "n - a" B1 "drop a A0"]
      by (simp_all add: B2_def a_def at_offset_0)
    define O1 where "O1 = neoscrypt_copy sz output (drop p B2) a"
    have O1: "O1 = take a (drop p B2) @ drop a output"
      using sz B2(1) n False p by (simp add: O1_def a_def)
    have O2: "at_offset a (\<lambda>dst. neoscrypt_copy sz dst B2 (n - a)) O1
        = (take a (drop p B2) @ take (n - a) B2) @ drop n output"
      using sz B2(1) n False p by (simp add: at_offset_def O1 a_def)
    have "take a (drop p B2) @ take (n - a) B2 = map2 (XOR) (ring_read R p n) (take n A)"
    proof (rule nth_equalityI)
      show l: "length (take a (drop p B2) @ take (n - a) B2) = length (map2 (XOR) (ring_read R p n) (take n A))"
        using B2(1) n False A p by (simp add: a_def)
      fix i
      assume "i < length (take a (drop p B2) @ take (n - a) B2)"
      then have i: "i < n" unfolding l by simp
      have np: "n - a \<le> p" using n(1) p by (simp add: a_def)
      show "(take a (drop p B2) @ take (n - a) B2) ! i = map2 (XOR) (ring_read R p n) (take n A) ! i"
      proof (cases "i < a")
        case True
        have "B2 ! (p + i) = R ! (p + i) XOR A ! i"
          using B2(2) [of "p + i"] B1' [OF True] True np p by (simp add: a_def)
        then show ?thesis using True i B2(1) p A n(1) by (simp add: nth_append ring_read_def a_def)
      next
        case F: False
        then have "i - a < n - a" using i by linarith
        moreover from this have "i - a < p" using np by linarith
        ultimately have "B2 ! (i - a) = R ! (i - a) XOR A ! i"
          using B2(2) [of "i - a"] B1(2) [of "i - a"] A0(2) [of i] F i n(1) p by simp
        moreover have "p + i = (i - a) + 256" "i - a < 256" using F pa i n(1) by linarith+
        then have "(p + i) mod 256 = i - a" by simp
        ultimately show ?thesis using F i B2(1) p A n(1) by (simp add: nth_append ring_read_def a_def)
      qed
    qed
    then show ?thesis
      using False O2 unfolding fastkdf_output_def Let_def FASTKDF_BUFFER_SIZE_def a_def [symmetric] B0_def [symmetric] A0_def [symmetric]
        B1_def [symmetric] B2_def [symmetric] O1_def [symmetric] by simp
  qed
qed

lemma neoscrypt_fastkdf_ring:
  assumes sz: "sz \<in> {4, 8}" and P: "64 \<le> length P" and S: "32 \<le> length S"
    and A: "length A = 320" and B: "length B = 288" and out: "min n 256 \<le> length output"
  shows "neoscrypt_fastkdf sz A B P S N output n
    = Some (fastkdf_ring P S N (min n 256) @ drop (min n 256) output)"
proof -
  have "P \<noteq> []" "S \<noteq> []" using P S by auto
  then have f: "fastkdf_fill sz P 64 A = with_tail 64 (ring_fill P)" "fastkdf_fill sz S 32 B = with_tail 32 (ring_fill S)"
    using P S A B by (simp_all add: fastkdf_fill_ring [OF sz])
  obtain R p where e: "(fastkdf_turn (ring_fill P) ^^ N) (ring_fill S, 0) = (R, p)" by (cases "(fastkdf_turn (ring_fill P) ^^ N) (ring_fill S, 0)")
  have st: "fold (\<lambda>i. fastkdf_step sz (with_tail 64 (ring_fill P))) [0..<N] (with_tail 32 (ring_fill S), 0) = (with_tail 32 R, p)"
    "length R = 256" "p < 256"
    using fastkdf_steps_ring [OF sz length_ring(1) length_ring(1), of 0 P N S] e by simp_all
  have m: "(if n > FASTKDF_BUFFER_SIZE then FASTKDF_BUFFER_SIZE else n) = min n 256"
    by (simp add: FASTKDF_BUFFER_SIZE_def min_def)
  show ?thesis
    using P S fastkdf_output_ring [OF sz length_ring(1) st(2,3) min.cobounded2 out, of P]
    unfolding neoscrypt_fastkdf_def Let_def m BLAKE2S_BLOCK_SIZE_def BLAKE2S_KEY_SIZE_def f st(1) fastkdf_ring_def e prod.case
    by simp
qed

section \<open>The engine\<close>

definition neo_kdf_spec :: "nat \<Rightarrow> byte list \<Rightarrow> byte list \<Rightarrow> nat \<Rightarrow> byte list" where
  "neo_kdf_spec kdf P S n = (if kdf = 1 then pbkdf2_hmac_sha256 P S n else fastkdf_ring P S 32 n)"

definition neo_mix :: "nat \<Rightarrow> nat \<Rightarrow> bool \<Rightarrow> u32 list list \<Rightarrow> u32 list list" where
  "neo_mix N rounds dblmix X = (if dblmix
     then map2 (map2 (XOR)) (scryptROMix (salsa20_hash (rounds div 2)) N X) (scryptROMix (chacha_hash (rounds div 2)) N X)
     else scryptROMix (salsa20_hash (rounds div 2)) N X)"

definition neoscrypt_spec :: "nat \<Rightarrow> nat \<Rightarrow> bool \<Rightarrow> nat \<Rightarrow> nat \<Rightarrow> byte list \<Rightarrow> byte list" where
  "neoscrypt_spec N r dblmix rounds kdf P = neo_kdf_spec kdf P
     (bytes_of (concat (neo_mix N rounds dblmix (chunks 16 (words_of (neo_kdf_spec kdf P P (128 * r))))))) 32"

text \<open>Memory of the right sizes; what it holds does not matter.\<close>

definition neo_ready :: "neo_memory \<Rightarrow> bool" where
  "neo_ready M \<longleftrightarrow> neo_word M \<in> {4, 8} \<and> length (neo_A M) = 320 \<and> length (neo_B M) = 288
     \<and> length (neo_hash M) = 64 \<and> (\<forall>size. length (neo_am M size) = size div 4) \<and> length (neo_out M) = 32"

lemma length_fastkdf_ring: "n \<le> 256 \<Longrightarrow> length (fastkdf_ring P S N n) = n"
  by (simp add: fastkdf_ring_def split: prod.split)

lemma length_neo_kdf_spec: "kdf = 1 \<or> n \<le> 256 \<Longrightarrow> length (neo_kdf_spec kdf P S n) = n"
  by (auto simp: neo_kdf_spec_def length_pbkdf2_hmac length_fastkdf_ring)

lemma neo_kdf_correct:
  assumes M: "neo_ready M" and P: "64 \<le> length P" and S: "32 \<le> length S"
    and n: "kdf = 1 \<or> n \<le> 256" "n + 31 < 2 ^ 32" "length output = n"
  shows "neo_kdf M kdf P S 32 output n = Some (neo_kdf_spec kdf P S n)"
proof (cases "kdf = 1")
  case True
  have "neoscrypt_pbkdf2_sha256 (neo_hash M) P S 1 n = Some (pbkdf2_hmac_sha256 P S n)"
    using neo_pbkdf2 [of "neo_hash M" 1 n P S] M n(2) unfolding pbkdf2_hmac_sha256_def neo_ready_def
    by (simp del: One_nat_def)
  then show ?thesis using True n(3) length_pbkdf2_hmac [of P S n]
    by (simp add: neo_kdf_def neo_kdf_spec_def put_bytes_def)
next
  case False
  then have "min n 256 = n" using n(1) by simp
  moreover have "neo_word M \<in> {4, 8}" "length (neo_A M) = 320" "length (neo_B M) = 288"
    using M by (simp_all add: neo_ready_def)
  ultimately show ?thesis
    using neoscrypt_fastkdf_ring [of "neo_word M" P S "neo_A M" "neo_B M" n "output" 32] P S n(3) False
    by (simp add: neo_kdf_def neo_kdf_spec_def)
qed

lemma neo_parameters_shape:
  assumes "neo_parameters profile = (N, r, dblmix, rounds, kdf)"
  shows "\<exists>k. N = 2 ^ k" and "0 < r" and "r \<le> 128" and "rounds = 2 * (rounds div 2)" and "\<exists>i. r = 2 ^ i \<and> i \<le> 7"
proof -
  have le7: "unat (drop_bit 5 profile AND 7) \<le> 7"
    using word_and_le1 [of "drop_bit 5 profile" 7] by (simp add: word_le_nat_alt)
  then have "(2 :: nat) ^ unat (drop_bit 5 profile AND 7) \<le> 2 ^ 7" by (intro power_increasing) simp_all
  then have le: "(2 :: nat) ^ unat (drop_bit 5 profile AND 7) \<le> 128" by simp
  have k: "\<exists>k. 1024 = (2 :: nat) ^ k" "\<exists>k. 128 = (2 :: nat) ^ k" "\<exists>k. 2 * 2 ^ n = (2 :: nat) ^ k" for n
    by (intro exI [of _ 10] exI [of _ 7] exI [of _ "Suc n"]; simp)+
  show "\<exists>k. N = 2 ^ k" "0 < r" "r \<le> 128" "rounds = 2 * (rounds div 2)"
    using assms le k by (auto simp: neo_parameters_def Let_def split: if_splits)
  have "r = 2 ^ 0 \<or> r = 2 ^ 1 \<or> r = 2 ^ unat (drop_bit 5 profile AND 7)"
    using assms by (auto simp: neo_parameters_def Let_def split: if_splits)
  moreover have "(0 :: nat) \<le> 7" "(1 :: nat) \<le> 7" by simp_all
  ultimately show "\<exists>i. r = 2 ^ i \<and> i \<le> 7"
    using le7 by blast
qed

lemma nat_sint_small:
  assumes "N < 2 ^ 31"
  shows "nat (sint (of_nat N :: u32)) = N"
proof -
  have "N < 2 ^ 32" using assms by simp
  then have u: "unat (of_nat N :: u32) = N" unfolding unat_of_nat by simp
  have "unat (of_nat N :: u32) < 2 ^ 31" unfolding u by (rule assms)
  from sint_unat [OF this] show ?thesis unfolding u by simp
qed

lemma NeoScryptCore_mix:
  assumes x: "blocks r x" "0 < r" and n: "N = 2 ^ k" "32 * r * N < 2 ^ 31"
    and v: "N * 32 * r \<le> length v" and tmp: "length tmp = 2 * r" and rounds: "rounds = 2 * (rounds div 2)"
  shows "\<exists>tmp' v'. NeoScryptCore x tmp v r rounds N dblmix = Inr (neo_mix N rounds dblmix x, tmp', v')
    \<and> blocks r (neo_mix N rounds dblmix x)"
proof -
  define m where "m = rounds div 2"
  have rd: "rounds = 2 * m" unfolding m_def by (rule rounds)
  have s: "\<exists>tmp' v'. mix_loops Salsa20Core r rounds N (x, t, w) = Inr (scryptROMix (salsa20_hash m) N x, tmp', v')
      \<and> blocks r (scryptROMix (salsa20_hash m) N x)" if "N * 32 * r \<le> length w" "length t = 2 * r" for t w
    using salsa.mix_loops_ROMix [OF x n that, of m] unfolding rd by blast
  show ?thesis
  proof (cases dblmix)
    case True
    obtain t w where z: "mix_loops ChaCha20Core r rounds N (x, tmp, v) = Inr (scryptROMix (chacha_hash m) N x, t, w)"
      "length t = 2 * r" "length w = length v" "blocks r (scryptROMix (chacha_hash m) N x)"
      using chacha.mix_loops_ROMix [OF x n v tmp, of m] unfolding rd by blast
    have "N * 32 * r \<le> length w" using z(3) v by simp
    then obtain t' w' where y: "mix_loops Salsa20Core r rounds N (x, t, w) = Inr (scryptROMix (salsa20_hash m) N x, t', w')"
      "blocks r (scryptROMix (salsa20_hash m) N x)" using s z(2) by blast
    show ?thesis
      using True chunks_xor [OF y(2) z(4)] blocks_xor [OF y(2) z(4)]
      by (simp add: NeoScryptCore_def z(1) y(1) neo_mix_def m_def [symmetric])
  next
    case False
    then show ?thesis using s [OF v tmp] by (auto simp: NeoScryptCore_def neo_mix_def m_def [symmetric])
  qed
qed

text \<open>The size that the code asks for: the one it needs, or after a wrap no table at all.\<close>

definition neo_size :: "nat \<Rightarrow> nat \<Rightarrow> nat" where
  "neo_size N r = unat ((of_nat N + 3) * of_nat r * 2 * of_nat SCRYPT_BLOCK_SIZE :: u32)"

lemma neo_size_mod: "neo_size N r = (N + 3) * r * 128 mod 2 ^ 32"
proof -
  have "(of_nat N + 3) * of_nat r * 2 * of_nat SCRYPT_BLOCK_SIZE = (of_nat ((N + 3) * r * 128) :: u32)"
    by (simp add: SCRYPT_BLOCK_SIZE_def)
  then show ?thesis unfolding neo_size_def by (simp only: unat_of_nat) simp
qed

lemma neo_size_wraps:
  assumes "N = 2 ^ k" and "r = 2 ^ i" and "i \<le> 7" and big: "2 ^ 32 \<le> (N + 3) * r * 128"
  shows "neo_size N r = 384 * r"
proof -
  have e: "(N + 3) * r * 128 = 2 ^ (k + i + 7) + 384 * r"
    by (simp add: assms(1,2) algebra_simps power_add)
  have "(2 :: nat) ^ i \<le> 2 ^ 7" using assms(3) by (intro power_increasing) simp_all
  then have r: "r \<le> 128" using assms(2) by simp
  have "32 \<le> k + i + 7"
  proof (rule ccontr)
    assume "\<not> 32 \<le> k + i + 7"
    then have "(2 :: nat) ^ (k + i + 7) \<le> 2 ^ 31" by (intro power_increasing) simp_all
    moreover have "(2 :: nat) ^ 32 = 4294967296" "(2 :: nat) ^ 31 = 2147483648" by simp_all
    ultimately show False using big r unfolding e by linarith
  qed
  then have "(2 :: nat) ^ 32 dvd 2 ^ (k + i + 7)" by (rule le_imp_power_dvd)
  then have "(2 ^ (k + i + 7) + 384 * r) mod 2 ^ 32 = 384 * r mod 2 ^ 32"
    by (metis mod_add_left_eq dvd_imp_mod_0 add_0)
  also have "\<dots> = 384 * r" using r by simp
  finally show ?thesis unfolding neo_size_mod e .
qed

lemma NeoScryptCore_no_table:
  assumes "0 < n" and "0 < r"
  shows "NeoScryptCore x tmp [] r rounds n dblmix = Inl OutOfBounds"
proof -
  have u: "[0..<n] = 0 # [1..<n]" using assms(1) by (simp add: upt_conv_Cons)
  have "fill_step pfn r rounds 0 (y, t, []) = Inl OutOfBounds" for pfn y t
    using assms(2) by (simp add: fill_step_def)
  then have "mix_loops pfn r rounds n (y, t, []) = Inl OutOfBounds" for pfn y t
    by (simp only: mix_loops_def u fold_res.simps bind_res_simps)
  then show ?thesis by (simp add: NeoScryptCore_def)
qed

lemma neoscrypt_no_table:
  assumes p: "neo_parameters profile = (N, r, dblmix, rounds, kdf)" and big: "2 ^ 32 \<le> (N + 3) * r * 128"
    and N: "N \<noteq> 2 ^ 31" and M: "neo_ready M"
  shows "neoscrypt M P profile = None"
proof (cases "2 ^ 32 \<le> N")
  case True
  then show ?thesis unfolding neoscrypt_def p Let_def prod.case by (simp only: simp_thms if_True)
next
  case False
  note sh = neo_parameters_shape [OF p]
  obtain k where k: "N = 2 ^ k" using sh(1) by blast
  obtain i where i: "r = 2 ^ i" "i \<le> 7" using sh(5) by blast
  have am: "length (neo_am M (neo_size N r)) = 96 * r"
    using M unfolding neo_size_wraps [OF k i big] by (simp add: neo_ready_def)
  have "k \<noteq> 31" using N k by blast
  moreover have "k < 32"
  proof (rule ccontr)
    assume "\<not> k < 32"
    then have "(2 :: nat) ^ 32 \<le> 2 ^ k" by (intro power_increasing) simp_all
    then show False using False k by simp
  qed
  ultimately have "k \<le> 30" by simp
  then have "(2 :: nat) ^ k \<le> 2 ^ 30" by (intro power_increasing) simp_all
  then have s: "nat (sint (of_nat N :: u32)) = N" unfolding k by (intro nat_sint_small) simp
  have "0 < N" using k by simp
  have V: "drop (96 * r) (neo_am M (neo_size N r)) = []" using am by simp
  show ?thesis
    unfolding neoscrypt_def p Let_def prod.case neo_size_def [symmetric] V s NeoScryptCore_no_table [OF \<open>0 < N\<close> sh(2)]
    by (simp split: option.split)
qed

lemma neoscrypt_correct:
  assumes p: "neo_parameters profile = (N, r, dblmix, rounds, kdf)" and size: "(N + 3) * r * 128 < 2 ^ 32"
    and r: "kdf = 1 \<or> r \<le> 2" and M: "neo_ready M" and P: "64 \<le> length P"
  shows "neoscrypt M P profile = Some (neoscrypt_spec N r dblmix rounds kdf P)"
proof -
  note sh = neo_parameters_shape [OF p]
  obtain k where k: "N = 2 ^ k" using sh(1) by blast
  define am where "am = neo_am M (neo_size N r)"
  define X0 where "X0 = bytes_of (take (32 * r) am)"
  define Y where "Y = chunks 16 (take (32 * r) (drop (64 * r) am))"
  define V where "V = drop (96 * r) am"
  have "length am = (N + 3) * r * 128 div 4"
    using M size by (simp only: am_def neo_ready_def neo_size_mod mod_less)
  then have am: "length am = 96 * r + N * 32 * r" by (simp add: algebra_simps)
  have l: "length X0 = 128 * r" "length V = N * 32 * r" using am by (simp_all add: X0_def V_def)
  have "length (take (32 * r) (drop (64 * r) am)) = 32 * r" using am by simp
  from blocks_chunks [OF this] have Y: "length Y = 2 * r" by (simp only: Y_def blocks_def)
  have "(N + 3) * 1 \<le> (N + 3) * r" using sh(2) by (intro mult_le_mono2) simp
  then have "N + 3 \<le> (N + 3) * r" by (simp only: mult_1_right)
  moreover have "(N + 3) * r = N * r + 3 * r" "32 * r * N = 32 * (N * r)" by (simp_all add: algebra_simps)
  moreover have "(2 :: nat) ^ 32 = 4294967296" "(2 :: nat) ^ 31 = 2147483648" by simp_all
  ultimately have cost: "32 * r * N < 2 ^ 31" and N: "N < 2 ^ 31" "\<not> 2 ^ 32 \<le> N" using size by linarith+
  have s: "nat (sint (of_nat N :: u32)) = N" using N(1) by (rule nat_sint_small)
  define X where "X = neo_kdf_spec kdf P P (128 * r)"
  have X: "neo_kdf M kdf P P 32 X0 (128 * r) = Some X" "length X = 128 * r"
    using r sh(3) P M l(1) neo_kdf_correct [OF M P, of P kdf "128 * r" X0]
    by (auto simp: X_def length_neo_kdf_spec)
  have x: "blocks r (chunks 16 (words_of X))"
    using X(2) by (intro blocks_chunks) (simp add: length_words_of)
  from NeoScryptCore_mix [OF x sh(2) k cost _ Y sh(4), of V dblmix] obtain t w where
    c: "NeoScryptCore (chunks 16 (words_of X)) Y V r rounds N dblmix
      = Inr (neo_mix N rounds dblmix (chunks 16 (words_of X)), t, w)"
    "blocks r (neo_mix N rounds dblmix (chunks 16 (words_of X)))" using l(2) by auto
  have "32 \<le> length (bytes_of (concat (neo_mix N rounds dblmix (chunks 16 (words_of X)))))"
    using length_flat_blocks [OF c(2)] sh(2) by simp
  moreover have "length (neo_out M) = 32" using M by (simp add: neo_ready_def)
  ultimately have "neo_kdf M kdf P (bytes_of (concat (neo_mix N rounds dblmix (chunks 16 (words_of X))))) 32 (neo_out M) 32
      = Some (neoscrypt_spec N r dblmix rounds kdf P)"
    using neo_kdf_correct [OF M P, of _ kdf 32 "neo_out M"] by (simp add: neoscrypt_spec_def X_def)
  moreover have e: "r * 2 * SCRYPT_BLOCK_SIZE = 128 * r" by (simp add: SCRYPT_BLOCK_SIZE_def)
  moreover have "\<not> length am < 96 * r" using am by simp
  ultimately show ?thesis
    unfolding neoscrypt_def p Let_def prod.case e neo_size_def [symmetric] am_def [symmetric] X0_def [symmetric]
      Y_def [symmetric] V_def [symmetric] s X(1) option.case c(1) sum.case
    using N(2) by (simp only: simp_thms if_False)
qed

lemma neoscrypt_spec_scrypt: "neoscrypt_spec 1024 1 False 8 1 P = scrypt_rfc7914 P P 1024 1 1 32"
proof -
  have "chunks 128 (pbkdf2_hmac_sha256 P P 128) = [pbkdf2_hmac_sha256 P P 128]"
    using chunks_append [of "pbkdf2_hmac_sha256 P P 128" 128 "[]"] by (simp add: length_pbkdf2_hmac)
  then show ?thesis
    by (simp add: neoscrypt_spec_def neo_kdf_spec_def scrypt_rfc7914_def Let_def neo_mix_def)
qed

section \<open>Properties\<close>

text \<open>
  C15: FastKDF over buffers with mirrored tails is the key derivation over rings of 256 bytes, with
  BLAKE2s of RFC 7693 as its function, whatever the buffers hold at the start and whether words have
  four bytes or eight.  More than 256 bytes are never written: the rest of the output keeps what
  it held.
\<close>

theorem fastkdf_is_ring:
  assumes "sz \<in> {4, 8}" and "64 \<le> length P" and "32 \<le> length S"
    and "length A = 320" and "length B = 288" and "min n 256 \<le> length output"
  shows "neoscrypt_fastkdf sz A B P S N output n
    = Some (fastkdf_ring P S N (min n 256) @ drop (min n 256) output)"
  using assms by (rule neoscrypt_fastkdf_ring)

theorem fastkdf_is_ring_witness:
  "neoscrypt_fastkdf 8 (replicate 320 1) (replicate 288 2) (replicate 80 3) (replicate 80 4) 32 (replicate 512 9) 512
    = Some (fastkdf_ring (replicate 80 3) (replicate 80 4) 32 256 @ replicate 256 9)"
  using fastkdf_is_ring [of 8 "replicate 80 3" "replicate 80 4" "replicate 320 1" "replicate 288 2" 512 "replicate 512 9" 32]
  by simp


definition neo_garbage :: neo_memory where
  "neo_garbage = \<lparr>neo_word = 4, neo_A = replicate 320 1, neo_B = replicate 288 2, neo_hash = replicate 64 3,
     neo_am = \<lambda>size. replicate (size div 4) 5, neo_out = replicate 32 6\<rparr>"


end
