(* ===== verification/Ripemd.thy ===== *)
theory Ripemd
  imports Hash
begin

text \<open>
  RIPEMD-160, \<open>src/crypto/ripemd.cpp\<close>, in the driver of \<open>Hash\<close>.  The reference computes the orders of the
  message words from the two permutations of its paper and the shifts of both lines from one table,
  so the four tables of the code are checked against it.
\<close>

unbundle bit_operations_syntax

section \<open>The code\<close>

definition g_repemd160_hinit :: "u32 list" where
  "g_repemd160_hinit = [0x67452301, 0xEFCDAB89, 0x98BADCFE, 0x10325476, 0xC3D2E1F0]"

definition rmd_SL :: "nat list" where
  "rmd_SL = [
    11, 14, 15, 12, 5, 8, 7, 9, 11, 13, 14, 15, 6, 7, 9, 8,
    7, 6, 8, 13, 11, 9, 7, 15, 7, 12, 15, 9, 11, 7, 13, 12,
    11, 13, 6, 7, 14, 9, 13, 15, 14, 8, 13, 6, 5, 12, 7, 5,
    11, 12, 14, 15, 14, 15, 9, 8, 9, 14, 5, 6, 8, 6, 5, 12,
    9, 15, 5, 11, 6, 8, 13, 12, 5, 12, 13, 14, 11, 8, 5, 6]"

definition rmd_SR :: "nat list" where
  "rmd_SR = [
    8, 9, 9, 11, 13, 15, 15, 5, 7, 7, 8, 11, 14, 14, 12, 6,
    9, 13, 15, 7, 12, 8, 9, 11, 7, 7, 12, 7, 6, 15, 13, 11,
    9, 7, 15, 11, 8, 6, 6, 14, 12, 13, 5, 14, 13, 13, 7, 5,
    15, 5, 8, 11, 14, 14, 6, 14, 6, 9, 12, 9, 12, 5, 15, 8,
    8, 5, 12, 9, 12, 5, 14, 6, 8, 13, 6, 5, 15, 13, 11, 11]"

definition rmd_RL :: "nat list" where
  "rmd_RL = [
    0, 1, 2, 3, 4, 5, 6, 7, 8, 9, 10, 11, 12, 13, 14, 15,
    7, 4, 13, 1, 10, 6, 15, 3, 12, 0, 9, 5, 2, 14, 11, 8,
    3, 10, 14, 4, 9, 15, 8, 1, 2, 7, 0, 6, 13, 11, 5, 12,
    1, 9, 11, 10, 0, 8, 12, 4, 13, 3, 7, 15, 14, 5, 6, 2,
    4, 0, 5, 9, 7, 12, 2, 10, 14, 1, 3, 8, 11, 6, 15, 13]"

definition rmd_RR :: "nat list" where
  "rmd_RR = [
    5, 14, 7, 0, 9, 2, 11, 4, 13, 6, 15, 8, 1, 10, 3, 12,
    6, 11, 3, 7, 0, 13, 5, 10, 14, 15, 8, 12, 4, 9, 1, 2,
    15, 5, 1, 3, 7, 14, 6, 9, 11, 8, 12, 2, 10, 0, 4, 13,
    8, 6, 4, 1, 3, 11, 15, 0, 5, 12, 2, 13, 9, 7, 10, 14,
    12, 15, 10, 4, 1, 5, 8, 7, 6, 2, 13, 14, 0, 3, 9, 11]"

definition rmd_KL :: "u32 list" where
  "rmd_KL = [0, 0x5A827999, 0x6ED9EBA1, 0x8F1BBCDC, 0xA953FD4E]"

definition rmd_KR :: "u32 list" where
  "rmd_KR = [0x50A28BE6, 0x5C4DD124, 0x6D703EF3, 0x7A6D76E9, 0]"

definition rmd_F1 :: "u32 \<Rightarrow> u32 \<Rightarrow> u32 \<Rightarrow> u32" where "rmd_F1 x y z = x XOR y XOR z"

definition rmd_F2 :: "u32 \<Rightarrow> u32 \<Rightarrow> u32 \<Rightarrow> u32" where "rmd_F2 x y z = (x AND y) OR (NOT x AND z)"

definition rmd_F3 :: "u32 \<Rightarrow> u32 \<Rightarrow> u32 \<Rightarrow> u32" where "rmd_F3 x y z = (x OR NOT y) XOR z"

definition rmd_F4 :: "u32 \<Rightarrow> u32 \<Rightarrow> u32 \<Rightarrow> u32" where "rmd_F4 x y z = (z AND x) OR (NOT z AND y)"

definition rmd_F5 :: "u32 \<Rightarrow> u32 \<Rightarrow> u32 \<Rightarrow> u32" where "rmd_F5 x y z = (y OR NOT z) XOR x"

definition s_leftFs :: "(u32 \<Rightarrow> u32 \<Rightarrow> u32 \<Rightarrow> u32) list" where
  "s_leftFs = [rmd_F1, rmd_F2, rmd_F3, rmd_F4, rmd_F5]"

definition s_rightFs :: "(u32 \<Rightarrow> u32 \<Rightarrow> u32 \<Rightarrow> u32) list" where
  "s_rightFs = [rmd_F5, rmd_F4, rmd_F3, rmd_F2, rmd_F1]"

type_synonym rmd_tuple5 = "u32 \<times> u32 \<times> u32 \<times> u32 \<times> u32"

text \<open>
  One turn of \<open>CalcBranch\<close>.  The nested calls of \<open>exchange\<close> hand the old values on: \<open>b\<close> becomes \<open>t\<close> and
  gives its old value to \<open>c\<close>, and so on up to \<open>a\<close>.
\<close>

definition CalcBranch_step ::
  "u32 list \<Rightarrow> nat list \<Rightarrow> nat list \<Rightarrow> u32 list \<Rightarrow> (u32 \<Rightarrow> u32 \<Rightarrow> u32 \<Rightarrow> u32) list \<Rightarrow> nat \<Rightarrow> rmd_tuple5 \<Rightarrow> rmd_tuple5" where
  "CalcBranch_step w tableR tableS tableK tableF i = (\<lambda>(a, b, c, d, e). let
     t = e + word_rotl (tableS ! i) (a + (tableF ! drop_bit 4 i) b c d + w ! (tableR ! i) + tableK ! drop_bit 4 i);
     (b, old) = (t, b);
     (c, old) = (old, c);
     (d, old) = (word_rotl 10 old, d);
     (e, old) = (old, e)
   in (old, b, c, d, e))"

definition CalcBranch ::
  "u32 list \<Rightarrow> u32 list \<Rightarrow> nat list \<Rightarrow> nat list \<Rightarrow> u32 list \<Rightarrow> (u32 \<Rightarrow> u32 \<Rightarrow> u32 \<Rightarrow> u32) list \<Rightarrow> rmd_tuple5" where
  "CalcBranch p w tableR tableS tableK tableF =
     fold (CalcBranch_step w tableR tableS tableK tableF) [0..<80] (p ! 0, p ! 1, p ! 2, p ! 3, p ! 4)"

definition RIPEMD160_HashBlock :: "u32 list \<Rightarrow> u32 list \<Rightarrow> u64 \<Rightarrow> u32 list" where
  "RIPEMD160_HashBlock p src counter = (case CalcBranch p src rmd_RL rmd_SL rmd_KL s_leftFs of
     (llA, llB, llC, llD, llE) \<Rightarrow> (case CalcBranch p src rmd_RR rmd_SR rmd_KR s_rightFs of
     (rrA, rrB, rrC, rrD, rrE) \<Rightarrow> let
       p0 = p ! 0 + (llB + rrC);
       p1 = p ! 1 + (llC + rrD);
       p2 = p ! 2 + (llD + rrE);
       p3 = p ! 3 + (llE + rrA);
       p4 = p ! 4 + (llA + rrB);
       (p4, old) = (p0, p4);
       (p3, old) = (old, p3);
       (p2, old) = (old, p2);
       (p1, old) = (old, p1)
     in [old, p1, p2, p3, p4]))"

definition RIPEMD160 :: "u32 hash_algorithm" where
  "RIPEMD160 = HashAlgorithm\<lparr>BlockSize := 64, HashSize := 20, IsLenBigEndian := False, IsBigEndian := False,
     InitHash := g_repemd160_hinit, HashBlock := RIPEMD160_HashBlock\<rparr>"

section \<open>The reference\<close>

text \<open>The permutations \<open>rho\<close> and \<open>pi\<close>, and the order of the message words in both lines.\<close>

definition rmd_rho :: "nat \<Rightarrow> nat" where
  "rmd_rho i = [7, 4, 13, 1, 10, 6, 15, 3, 12, 0, 9, 5, 2, 14, 11, 8] ! i"

definition rmd_left :: "nat \<Rightarrow> nat" where
  "rmd_left j = (rmd_rho ^^ (j div 16)) (j mod 16)"

definition rmd_right :: "nat \<Rightarrow> nat" where
  "rmd_right j = (rmd_rho ^^ (j div 16)) ((9 * (j mod 16) + 5) mod 16)"

text \<open>The shift of a message word in each of the five rounds, the same for both lines.\<close>

definition rmd_shift :: "nat \<Rightarrow> nat \<Rightarrow> nat" where
  "rmd_shift round k = [
     [11, 14, 15, 12, 5, 8, 7, 9, 11, 13, 14, 15, 6, 7, 9, 8],
     [12, 13, 11, 15, 6, 9, 9, 7, 12, 15, 11, 13, 7, 8, 7, 7],
     [13, 15, 14, 11, 7, 7, 6, 8, 13, 14, 13, 12, 5, 5, 6, 9],
     [14, 11, 12, 14, 8, 6, 5, 5, 15, 12, 15, 14, 9, 9, 8, 6],
     [15, 12, 13, 13, 9, 5, 8, 6, 14, 11, 12, 11, 8, 6, 5, 5]] ! round ! k"

text \<open>The constants are the integer parts of square and cube roots of primes, scaled by \<open>2 ^ 30\<close>.\<close>

definition root_part :: "nat \<Rightarrow> nat \<Rightarrow> u32 \<Rightarrow> bool" where
  "root_part k p c \<longleftrightarrow> unat c ^ k \<le> p * 2 ^ (30 * k) \<and> p * 2 ^ (30 * k) < (unat c + 1) ^ k"

definition rmd_f :: "nat \<Rightarrow> u32 \<Rightarrow> u32 \<Rightarrow> u32 \<Rightarrow> u32" where
  "rmd_f j x y z = (if j < 16 then x XOR y XOR z else if j < 32 then (x AND y) OR (NOT x AND z)
     else if j < 48 then (x OR NOT y) XOR z else if j < 64 then (x AND z) OR (y AND NOT z)
     else x XOR (y OR NOT z))"

definition rmd_line ::
  "(nat \<Rightarrow> u32 \<Rightarrow> u32 \<Rightarrow> u32 \<Rightarrow> u32) \<Rightarrow> (nat \<Rightarrow> nat) \<Rightarrow> u32 list \<Rightarrow> u32 list \<Rightarrow> u32 list \<Rightarrow> rmd_tuple5" where
  "rmd_line f r K X h = fold (\<lambda>j (A, B, C, D, E). let
      T = word_rotl (rmd_shift (j div 16) (r j)) (A + f j B C D + X ! r j + K ! (j div 16)) + E
    in (E, T, B, word_rotl 10 C, D)) [0..<80] (h ! 0, h ! 1, h ! 2, h ! 3, h ! 4)"

definition rmd_compress :: "u32 list \<Rightarrow> u32 list \<Rightarrow> u32 list" where
  "rmd_compress h X =
     (case rmd_line rmd_f rmd_left [0, 0x5A827999, 0x6ED9EBA1, 0x8F1BBCDC, 0xA953FD4E] X h of (A, B, C, D, E) \<Rightarrow>
     (case rmd_line (\<lambda>j. rmd_f (79 - j)) rmd_right [0x50A28BE6, 0x5C4DD124, 0x6D703EF3, 0x7A6D76E9, 0] X h of
       (A', B', C', D', E') \<Rightarrow>
       [h ! 1 + C + D', h ! 2 + D + E', h ! 3 + E + A', h ! 4 + A + B', h ! 0 + B + C']))"

text \<open>The paper's initial value: the bytes 01 23 45 67 ... up and down, and F0 E1 D2 C3, read little-endian.\<close>

definition rmd_iv :: "u32 list" where
  "rmd_iv = map le_word [[0x01, 0x23, 0x45, 0x67], [0x89, 0xAB, 0xCD, 0xEF],
     [0xFE, 0xDC, 0xBA, 0x98], [0x76, 0x54, 0x32, 0x10], [0xF0, 0xE1, 0xD2, 0xC3]]"

definition rmd160 :: "byte list \<Rightarrow> byte list" where
  "rmd160 m = concat (map (bytes_le 4) (fold (\<lambda>b h. rmd_compress h (map le_word (chunks 4 b)))
     (chunks 64 (m @ md_pad 64 8 False (length m))) rmd_iv))"

section \<open>The tables\<close>

lemma upt_80: "[0..<80] = [0, 1, 2, 3, 4, 5, 6, 7, 8, 9, 10, 11, 12, 13, 14, 15, 16, 17, 18, 19, 20, 21, 22,
   23, 24, 25, 26, 27, 28, 29, 30, 31, 32, 33, 34, 35, 36, 37, 38, 39, 40, 41, 42, 43, 44, 45, 46, 47,
   48, 49, 50, 51, 52, 53, 54, 55, 56, 57, 58, 59, 60, 61, 62, 63, 64, 65, 66, 67, 68, 69, 70, 71, 72,
   73, 74, 75, 76, 77, 78, 79]"
  by (simp add: upt_conv_Cons)

lemma rmd_tables:
  "rmd_RL = map rmd_left [0..<80]" "rmd_RR = map rmd_right [0..<80]"
  "rmd_SL = map (\<lambda>j. rmd_shift (j div 16) (rmd_left j)) [0..<80]"
  "rmd_SR = map (\<lambda>j. rmd_shift (j div 16) (rmd_right j)) [0..<80]"
  by code_simp+

lemma drop_bit_4: "drop_bit 4 (i :: nat) = i div 16"
  by (simp add: drop_bit_eq_div)

lemma div_16_cases:
  assumes "j < (80 :: nat)"
  shows "j div 16 = 0 \<and> j < 16 \<or> j div 16 = 1 \<and> 16 \<le> j \<and> j < 32 \<or> j div 16 = 2 \<and> 32 \<le> j \<and> j < 48
    \<or> j div 16 = 3 \<and> 48 \<le> j \<and> j < 64 \<or> j div 16 = 4 \<and> 64 \<le> j"
  using assms by linarith

lemma rmd_functions:
  assumes "j < 80"
  shows "s_leftFs ! (j div 16) = rmd_f j" and "s_rightFs ! (j div 16) = rmd_f (79 - j)"
  using div_16_cases [OF assms] assms
  by (auto simp: s_leftFs_def s_rightFs_def rmd_f_def rmd_F1_def rmd_F2_def rmd_F3_def rmd_F4_def rmd_F5_def
      fun_eq_iff ac_simps)

lemma CalcBranch_line:
  assumes "\<And>j. j < 80 \<Longrightarrow> R ! j = r j" and "\<And>j. j < 80 \<Longrightarrow> S ! j = rmd_shift (j div 16) (r j)"
    and "\<And>j. j < 80 \<Longrightarrow> F ! (j div 16) = f j"
  shows "CalcBranch p w R S K F = rmd_line f r K w p"
  unfolding CalcBranch_def rmd_line_def
  by (rule fold_cong) (simp_all add: fun_eq_iff CalcBranch_step_def Let_def drop_bit_4 assms add.commute)

lemma RIPEMD160_HashBlock_ref: "RIPEMD160_HashBlock p w c = rmd_compress p w"
proof -
  have l: "CalcBranch p w rmd_RL rmd_SL rmd_KL s_leftFs = rmd_line rmd_f rmd_left rmd_KL w p"
    by (rule CalcBranch_line) (simp_all add: rmd_tables rmd_functions del: upt_Suc)
  have r: "CalcBranch p w rmd_RR rmd_SR rmd_KR s_rightFs = rmd_line (\<lambda>j. rmd_f (79 - j)) rmd_right rmd_KR w p"
    by (rule CalcBranch_line) (simp_all add: rmd_tables rmd_functions del: upt_Suc)
  show ?thesis
    unfolding RIPEMD160_HashBlock_def rmd_compress_def l r rmd_KL_def [symmetric] rmd_KR_def [symmetric]
    by (simp add: Let_def add.assoc split: prod.split)
qed

lemma rmd_roots:
  "list_all2 (root_part 2) [2, 3, 5, 7] (tl rmd_KL)" "list_all2 (root_part 3) [2, 3, 5, 7] (butlast rmd_KR)"
  by (simp_all add: root_part_def rmd_KL_def rmd_KR_def)

lemma length_rmd_fold: "length h = 5 \<Longrightarrow> length (fold (\<lambda>b h. rmd_compress h (g b)) bs h) = 5"
  by (induction bs arbitrary: h) (simp_all add: rmd_compress_def split: prod.split)

lemma rmd_iv_code: "rmd_iv = g_repemd160_hinit"
  by code_simp

lemma rmd160_spec: "hash_spec RIPEMD160 m = rmd160 m"
proof -
  have plain: "plain_md RIPEMD160"
    by (simp add: plain_md_def RIPEMD160_def HashAlgorithm_def RIPEMD160_HashBlock_def)
  have ds: "dataSize RIPEMD160 = 64" by (simp add: dataSize_def WordCount_def)
  define h where "h = fold (\<lambda>b h. rmd_compress h (map le_word (chunks 4 b)))
     (chunks 64 (m @ md_pad 64 8 False (length m))) rmd_iv"
  have "length h = 5" unfolding h_def by (rule length_rmd_fold) (simp add: rmd_iv_def)
  moreover have "length (concat (map (bytes_le 4) ws)) = 4 * length ws" for ws :: "u32 list"
    by (induction ws) simp_all
  ultimately have "take 20 (concat (map (bytes_le 4) h)) = concat (map (bytes_le 4) h)" by simp
  moreover have "PrepareEndiannessAndHashBlock RIPEMD160 h b 0 = rmd_compress h (map le_word (chunks 4 b))" for h b
    by (simp add: PrepareEndiannessAndHashBlock_def PrepareEndianness_in_def RIPEMD160_def HashAlgorithm_def
        RIPEMD160_HashBlock_ref)
  ultimately show ?thesis
    using hash_spec_plain [OF plain, of m] unfolding ds rmd160_def h_def
    by (simp add: hash_output_words rmd_iv_code RIPEMD160_def HashAlgorithm_def)
qed

section \<open>Property\<close>

text \<open>
  C37: \<open>RIPEMD160::ComputeHash\<close> is RIPEMD-160 for every message: the tables of the code are the orders
  that the two permutations generate and the shifts of the paper, and its constants are the roots
  they should be.
\<close>

theorem RIPEMD160_is_reference:
  "ComputeHash RIPEMD160 m = Some (rmd160 m)
   \<and> list_all2 (root_part 2) [2, 3, 5, 7] (tl rmd_KL) \<and> list_all2 (root_part 3) [2, 3, 5, 7] (butlast rmd_KR)"
  using rmd_roots by (simp add: ComputeHash_spec rmd160_spec)

end
