(* ===== verification/Blake.thy ===== *)
theory Blake
  imports FastKdf
begin

text \<open>
  BLAKE-256 and BLAKE-512, \<open>src/crypto/blake.cpp\<close>, in the driver of \<open>Hash\<close> with its \<open>IsHaifa\<close> padding,
  compared with the submission to the SHA-3 competition.
\<close>

unbundle bit_operations_syntax

section \<open>The code\<close>

definition g_blake_sigma :: "nat list list" where
  "g_blake_sigma = [
    [ 0,  1,  2,  3,  4,  5,  6,  7,  8,  9, 10, 11, 12, 13, 14, 15],
    [14, 10,  4,  8,  9, 15, 13,  6,  1, 12,  0,  2, 11,  7,  5,  3],
    [11,  8, 12,  0,  5,  2, 15, 13, 10, 14,  3,  6,  7,  1,  9,  4],
    [ 7,  9,  3,  1, 13, 12, 11, 14,  2,  6,  5, 10,  4,  0, 15,  8],
    [ 9,  0,  5,  7,  2,  4, 10, 15, 14,  1, 11, 12,  6,  8,  3, 13],
    [ 2, 12,  6, 10,  0, 11,  8,  3,  4, 13,  7,  5, 15, 14,  1,  9],
    [12,  5,  1, 15, 14, 13,  4, 10,  0,  7,  6,  3,  9,  2,  8, 11],
    [13, 11,  7, 14, 12,  1,  3,  9,  5,  0, 15,  4,  8,  6,  2, 10],
    [ 6, 15, 14,  9, 11,  3,  0,  8, 12,  2, 13,  7,  1,  4, 10,  5],
    [10,  2,  8,  4,  7,  6,  1,  5, 15, 11,  9, 14,  3, 12, 13,  0]]"

definition g_blake256_c :: "u32 list" where
  "g_blake256_c = [
    0x243F6A88, 0x85A308D3, 0x13198A2E, 0x03707344, 0xA4093822, 0x299F31D0, 0x082EFA98, 0xEC4E6C89,
    0x452821E6, 0x38D01377, 0xBE5466CF, 0x34E90C6C, 0xC0AC29B7, 0xC97C50DD, 0x3F84D5B5, 0xB5470917]"

definition g_blake512_c :: "u64 list" where
  "g_blake512_c = [
    0x243F6A8885A308D3, 0x13198A2E03707344, 0xA4093822299F31D0, 0x082EFA98EC4E6C89,
    0x452821E638D01377, 0xBE5466CF34E90C6C, 0xC0AC29B7C97C50DD, 0x3F84D5B5B5470917,
    0x9216D5D98979FB1B, 0xD1310BA698DFB5AC, 0x2FFD72DBD01ADFB7, 0xB8E1AFED6A267E96,
    0xBA7C9045F12C7F99, 0x24A19947B3916CF7, 0x0801F2E2858EFC16, 0x636920D871574E69]"

text \<open>The template over the word type; its rotation counts are the first argument.\<close>

definition CalcBlakeGImp ::
  "nat \<times> nat \<times> nat \<times> nat \<Rightarrow> nat \<Rightarrow> nat \<Rightarrow> 'w::len word \<times> 'w word \<times> 'w word \<times> 'w word \<Rightarrow> 'w word list
    \<Rightarrow> 'w word list \<Rightarrow> 'w word \<times> 'w word \<times> 'w word \<times> 'w word" where
  "CalcBlakeGImp = (\<lambda>(n0, n1, n2, n3) sigma0 sigma1 (a, b, c, d) m blakeC. let
     a = a + (b + (m ! sigma0 XOR blakeC ! sigma1));
     d = word_rotr n0 (d XOR a);
     c = c + d;
     b = word_rotr n1 (b XOR c);
     a = a + (b + (m ! sigma1 XOR blakeC ! sigma0));
     d = word_rotr n2 (d XOR a);
     c = c + d;
     b = word_rotr n3 (b XOR c)
   in (a, b, c, d))"

text \<open>The call on four elements of the array \<open>w\<close>, which are passed by reference.\<close>

definition blake_call ::
  "nat \<times> nat \<times> nat \<times> nat \<Rightarrow> 'w::len word list \<Rightarrow> 'w word list \<Rightarrow> nat \<Rightarrow> nat \<Rightarrow> nat \<Rightarrow> nat \<Rightarrow> nat \<Rightarrow> nat
    \<Rightarrow> 'w word list \<Rightarrow> 'w word list" where
  "blake_call rot blakeC m sigma0 sigma1 p q s t w =
     (case CalcBlakeGImp rot sigma0 sigma1 (w ! p, w ! q, w ! s, w ! t) m blakeC of
        (a, b, c, d) \<Rightarrow> w[p := a, q := b, s := c, t := d])"

definition blake_round ::
  "nat \<times> nat \<times> nat \<times> nat \<Rightarrow> 'w::len word list \<Rightarrow> 'w word list \<Rightarrow> nat \<Rightarrow> 'w word list \<Rightarrow> 'w word list" where
  "blake_round rot blakeC m r w = (let
     sigma = g_blake_sigma ! (r mod 10);
     w = blake_call rot blakeC m (sigma ! 0) (sigma ! 1) 0 4 8 12 w;
     w = blake_call rot blakeC m (sigma ! 2) (sigma ! 3) 1 5 9 13 w;
     w = blake_call rot blakeC m (sigma ! 4) (sigma ! 5) 2 6 10 14 w;
     w = blake_call rot blakeC m (sigma ! 6) (sigma ! 7) 3 7 11 15 w;
     w = blake_call rot blakeC m (sigma ! 8) (sigma ! 9) 0 5 10 15 w;
     w = blake_call rot blakeC m (sigma ! 10) (sigma ! 11) 1 6 11 12 w;
     w = blake_call rot blakeC m (sigma ! 12) (sigma ! 13) 2 7 8 13 w
   in blake_call rot blakeC m (sigma ! 14) (sigma ! 15) 3 4 9 14 w)"

definition CalcHashBlock ::
  "nat \<times> nat \<times> nat \<times> nat \<Rightarrow> nat \<Rightarrow> 'w::len word list \<Rightarrow> 'w word list \<Rightarrow> 'w word list \<Rightarrow> 'w word list
    \<Rightarrow> 'w word \<Rightarrow> 'w word \<Rightarrow> 'w word list" where
  "CalcHashBlock rot R h m salt blakeC t0 t1 = (let
     w = [h ! 0, h ! 1, h ! 2, h ! 3, h ! 4, h ! 5, h ! 6, h ! 7,
          salt ! 0 XOR blakeC ! 0, salt ! 1 XOR blakeC ! 1, salt ! 2 XOR blakeC ! 2, salt ! 3 XOR blakeC ! 3,
          t0 XOR blakeC ! 4, t0 XOR blakeC ! 5, t1 XOR blakeC ! 6, t1 XOR blakeC ! 7];
     w = fold (blake_round rot blakeC m) [0..<R] w
   in map (\<lambda>i. h ! i XOR (salt ! (i mod 4) XOR w ! (i mod 8) XOR w ! (8 + i mod 8))) [0..<8] @ drop 8 h)"

definition Blake256_HashBlock :: "u32 list \<Rightarrow> u32 list \<Rightarrow> u64 \<Rightarrow> u32 list" where
  "Blake256_HashBlock dst src counter =
     CalcHashBlock (16, 12, 8, 7) 14 dst src [0, 0, 0, 0] g_blake256_c (ucast counter) (ucast (drop_bit 32 counter))"

definition Blake512_HashBlock :: "u64 list \<Rightarrow> u64 list \<Rightarrow> u64 \<Rightarrow> u64 list" where
  "Blake512_HashBlock dst src counter =
     CalcHashBlock (32, 25, 16, 11) 16 dst src [0, 0, 0, 0] g_blake512_c counter 0"

text \<open>
  \<open>InitHash\<close> writes eight words; what the buffer for the hash holds behind them is the argument of
  \<open>Blake256\<close>, because its \<open>HashSize\<close> of 64 reaches there.
\<close>

definition Blake256 :: "u32 list \<Rightarrow> u32 hash_algorithm" where
  "Blake256 rest = HashAlgorithm\<lparr>BlockSize := 128, HashSize := 64, IsHaifa := True,
     InitHash := g_sha256_hinit @ rest, HashBlock := Blake256_HashBlock\<rparr>"

text \<open>
  \<open>Blake512\<close> declares an \<open>OutTransform\<close> of its own that no file defines: it is the argument \<open>out\<close>.
\<close>

definition Blake512 :: "(u64 list \<Rightarrow> u64 list) \<Rightarrow> u64 hash_algorithm" where
  "Blake512 out = HashAlgorithm\<lparr>BlockSize := 128, HashSize := 64, IsHaifa := True,
     InitHash := g_sha512_hinit, HashBlock := Blake512_HashBlock, OutTransform := out\<rparr>"

section \<open>The submission\<close>

definition blake_half ::
  "nat \<Rightarrow> nat \<Rightarrow> nat \<Rightarrow> nat \<Rightarrow> nat \<Rightarrow> nat \<Rightarrow> 'w::len word \<Rightarrow> 'w word list \<Rightarrow> 'w word list" where
  "blake_half n n' a b c d x v = (let
     v = v[a := v ! a + v ! b + x];
     v = v[d := word_rotr n (v ! d XOR v ! a)];
     v = v[c := v ! c + v ! d]
   in v[b := word_rotr n' (v ! b XOR v ! c)])"

definition blake_G ::
  "nat list \<Rightarrow> 'w::len word list \<Rightarrow> 'w word list \<Rightarrow> nat list \<Rightarrow> nat \<times> nat \<times> nat \<times> nat \<times> nat \<Rightarrow> 'w word list \<Rightarrow> 'w word list" where
  "blake_G rot u m s = (\<lambda>(i, a, b, c, d) v.
     blake_half (rot ! 2) (rot ! 3) a b c d (m ! (s ! (2 * i + 1)) XOR u ! (s ! (2 * i)))
       (blake_half (rot ! 0) (rot ! 1) a b c d (m ! (s ! (2 * i)) XOR u ! (s ! (2 * i + 1))) v))"

definition blake_rounds ::
  "nat list \<Rightarrow> 'w::len word list \<Rightarrow> nat \<Rightarrow> 'w word list \<Rightarrow> 'w word list \<Rightarrow> 'w word list" where
  "blake_rounds rot u R m = fold (\<lambda>r. fold (blake_G rot u m (rfc7693_sigma ! (r mod 10)))
     [(0, 0, 4, 8, 12), (1, 1, 5, 9, 13), (2, 2, 6, 10, 14), (3, 3, 7, 11, 15),
      (4, 0, 5, 10, 15), (5, 1, 6, 11, 12), (6, 2, 7, 8, 13), (7, 3, 4, 9, 14)]) [0..<R]"

text \<open>The compression without salt; \<open>t\<close> is the number of message bits so far.\<close>

definition blake_compress ::
  "nat list \<Rightarrow> 'w::len word list \<Rightarrow> nat \<Rightarrow> 'w word list \<Rightarrow> 'w word list \<Rightarrow> nat \<Rightarrow> 'w word list" where
  "blake_compress rot u R h m t = (let
     t0 = of_nat t; t1 = of_nat (t div 2 ^ LENGTH('w));
     v = h @ take 4 u @ [t0 XOR u ! 4, t0 XOR u ! 5, t1 XOR u ! 6, t1 XOR u ! 7];
     v = blake_rounds rot u R m v
   in map (\<lambda>i. h ! i XOR v ! i XOR v ! (i + 8)) [0..<8])"

text \<open>A one bit, zeros, a one bit, and the length in \<open>L\<close> bytes.\<close>

definition blake_pad :: "nat \<Rightarrow> nat \<Rightarrow> nat \<Rightarrow> byte list" where
  "blake_pad ds L n = (let r = n mod ds; p = (if r < ds - L then ds - L - r else 2 * ds - L - r) in
     (if p = 1 then [0x81] else 0x80 # replicate (p - 2) 0 @ [0x01]) @ bytes_be L (of_nat (8 * n) :: 128 word))"

text \<open>The counter of a block leaves the padding out, and is zero for a block of padding only.\<close>

definition blake_t :: "nat \<Rightarrow> nat \<Rightarrow> nat \<Rightarrow> nat" where
  "blake_t ds n i = (if i * ds < n then 8 * min n ((i + 1) * ds) else 0)"

definition blake_hash ::
  "nat list \<Rightarrow> 'w::len word list \<Rightarrow> nat \<Rightarrow> nat \<Rightarrow> nat \<Rightarrow> 'w word list \<Rightarrow> byte list \<Rightarrow> 'w word list" where
  "blake_hash rot u R ds L iv m = (let B = chunks ds (m @ blake_pad ds L (length m)) in
     fold (\<lambda>(b, t) h. blake_compress rot u R h (map be_word (chunks (LENGTH('w) div 8) b)) t)
       (zip B (map (blake_t ds (length m)) [0..<length B])) iv)"

text \<open>
  The constants are the first bits of the fraction of \<open>pi\<close>, here 1024 of them as one number, and the
  initial values are those of SHA-2.
\<close>

definition pi_fraction :: nat where
  "pi_fraction = 0x243F6A8885A308D313198A2E03707344A4093822299F31D0082EFA98EC4E6C89452821E638D01377BE5466CF34E90C6CC0AC29B7C97C50DD3F84D5B5B54709179216D5D98979FB1BD1310BA698DFB5AC2FFD72DBD01ADFB7B8E1AFED6A267E96BA7C9045F12C7F9924A19947B3916CF70801F2E2858EFC16636920D871574E69"

definition pi_words :: "'w::len word list" where
  "pi_words = map of_nat (take 16 (base_digits (2 ^ LENGTH('w)) (1024 div LENGTH('w)) pi_fraction))"

definition blake256_words :: "byte list \<Rightarrow> u32 list" where
  "blake256_words = blake_hash [16, 12, 8, 7] pi_words 14 64 8 fips_sha256_H0"

definition blake512_words :: "byte list \<Rightarrow> u64 list" where
  "blake512_words = blake_hash [32, 25, 16, 11] pi_words 16 128 16 fips_sha512_H0"

lemma pi_digits_32: "base_digits (2 ^ 32) 32 pi_fraction = [
      0x243F6A88, 0x85A308D3, 0x13198A2E, 0x03707344, 0xA4093822, 0x299F31D0, 0x082EFA98, 0xEC4E6C89,
      0x452821E6, 0x38D01377, 0xBE5466CF, 0x34E90C6C, 0xC0AC29B7, 0xC97C50DD, 0x3F84D5B5, 0xB5470917,
      0x9216D5D9, 0x8979FB1B, 0xD1310BA6, 0x98DFB5AC, 0x2FFD72DB, 0xD01ADFB7, 0xB8E1AFED, 0x6A267E96,
      0xBA7C9045, 0xF12C7F99, 0x24A19947, 0xB3916CF7, 0x0801F2E2, 0x858EFC16, 0x636920D8, 0x71574E69]" (is "_ = ?ds")
proof -
  have "pi_fraction = foldl (\<lambda>n d. n * 2 ^ 32 + d) 0 ?ds" unfolding pi_fraction_def by simp
  moreover have "length ?ds = 32" "\<forall>d\<in>set ?ds. d < 2 ^ 32" by simp_all
  ultimately show ?thesis using base_digits_horner [of ?ds "2 ^ 32"] by (simp only:)
qed

lemma pi_digits_64: "base_digits (2 ^ 64) 16 pi_fraction = [
      0x243F6A8885A308D3, 0x13198A2E03707344, 0xA4093822299F31D0, 0x082EFA98EC4E6C89,
      0x452821E638D01377, 0xBE5466CF34E90C6C, 0xC0AC29B7C97C50DD, 0x3F84D5B5B5470917,
      0x9216D5D98979FB1B, 0xD1310BA698DFB5AC, 0x2FFD72DBD01ADFB7, 0xB8E1AFED6A267E96,
      0xBA7C9045F12C7F99, 0x24A19947B3916CF7, 0x0801F2E2858EFC16, 0x636920D871574E69]" (is "_ = ?ds")
proof -
  have "pi_fraction = foldl (\<lambda>n d. n * 2 ^ 64 + d) 0 ?ds" unfolding pi_fraction_def by simp
  moreover have "length ?ds = 16" "\<forall>d\<in>set ?ds. d < 2 ^ 64" by simp_all
  ultimately show ?thesis using base_digits_horner [of ?ds "2 ^ 64"] by (simp only:)
qed

lemma pi_words_256: "pi_words = g_blake256_c"
proof -
  have "LENGTH(32) = 32" "(1024 :: nat) div 32 = 32" by simp_all
  then show ?thesis unfolding pi_words_def g_blake256_c_def by (simp only: pi_digits_32) simp
qed

lemma pi_words_512: "pi_words = g_blake512_c"
proof -
  have "LENGTH(64) = 64" "(1024 :: nat) div 64 = 16" by simp_all
  then show ?thesis unfolding pi_words_def g_blake512_c_def by (simp only: pi_digits_64) simp
qed

section \<open>The compression\<close>

lemma sigma_same: "g_blake_sigma = rfc7693_sigma"
  by (simp only: g_blake_sigma_def blake2s_sigma_def blake2s_sigma_rfc [symmetric])

lemma length_blake_half [simp]: "length (blake_half n n' a b c d x v) = length v"
  by (simp add: blake_half_def Let_def)

lemma blake_half_update:
  assumes "length w = 16" and "p < 16" "q < 16" "s < 16" "t < 16" and "distinct [p, q, s, t]"
  shows "blake_half n n' p q s t x w = (let a = w ! p + w ! q + x; d = word_rotr n (w ! t XOR a); c = w ! s + d;
     b = word_rotr n' (w ! q XOR c) in w[p := a, q := b, s := c, t := d])"
proof -
  have "w[p := a, t := d, s := c, q := b] = w[p := a, q := b, s := c, t := d]" for a b c d
  proof (rule nth_equalityI)
    fix i
    assume "i < length (w[p := a, t := d, s := c, q := b])"
    then show "w[p := a, t := d, s := c, q := b] ! i = w[p := a, q := b, s := c, t := d] ! i"
      using assms(6) by (cases "i = p"; cases "i = q"; cases "i = s"; cases "i = t"; simp)
  qed simp
  then show ?thesis using assms by (simp add: blake_half_def Let_def)
qed

lemma blake_call_G:
  assumes "length w = 16" and "p < 16" "q < 16" "s < 16" "t < 16" and "distinct [p, q, s, t]"
  shows "blake_call (n0, n1, n2, n3) u m (sg ! (2 * i)) (sg ! (2 * i + 1)) p q s t w
    = blake_G [n0, n1, n2, n3] u m sg (i, p, q, s, t) w"
proof -
  define x where "x = m ! (sg ! (2 * i)) XOR u ! (sg ! (2 * i + 1))"
  define y where "y = m ! (sg ! (2 * i + 1)) XOR u ! (sg ! (2 * i))"
  have u4: "(w[p := a, q := b, s := c, t := d])[p := a', q := b', s := c', t := d'] = w[p := a', q := b', s := c', t := d']"
    for a b c d a' b' c' d'
  proof (intro nth_equalityI)
    fix j
    assume "j < length (w[p := a, q := b, s := c, t := d, p := a', q := b', s := c', t := d'])"
    then show "w[p := a, q := b, s := c, t := d, p := a', q := b', s := c', t := d'] ! j = w[p := a', q := b', s := c', t := d'] ! j"
      using assms(6) by (cases "j = p"; cases "j = q"; cases "j = s"; cases "j = t"; simp)
  qed simp
  have "blake_G [n0, n1, n2, n3] u m sg (i, p, q, s, t) w
      = blake_half n2 n3 p q s t y (blake_half n0 n1 p q s t x w)"
    by (simp add: blake_G_def x_def y_def)
  also have "\<dots> = (case CalcBlakeGImp (n0, n1, n2, n3) (sg ! (2 * i)) (sg ! (2 * i + 1)) (w ! p, w ! q, w ! s, w ! t) m u of
      (a, b, c, d) \<Rightarrow> w[p := a, q := b, s := c, t := d])"
    unfolding CalcBlakeGImp_def prod.case x_def [symmetric] y_def [symmetric] Let_def
    using assms by (simp add: blake_half_update Let_def u4 flip: add.assoc)
  finally show ?thesis by (simp add: blake_call_def)
qed

lemma length_blake_G [simp]: "length (blake_G rot u m sg x v) = length v"
  by (cases x) (simp add: blake_G_def Let_def)

lemma blake_round_G:
  assumes "length w = 16"
  shows "blake_round (n0, n1, n2, n3) u m r w = fold (blake_G [n0, n1, n2, n3] u m (rfc7693_sigma ! (r mod 10)))
     [(0, 0, 4, 8, 12), (1, 1, 5, 9, 13), (2, 2, 6, 10, 14), (3, 3, 7, 11, 15),
      (4, 0, 5, 10, 15), (5, 1, 6, 11, 12), (6, 2, 7, 8, 13), (7, 3, 4, 9, 14)] w"
  using assms blake_call_G [where i = 0 and m = m and u = u] blake_call_G [where i = 1 and m = m and u = u]
    blake_call_G [where i = 2 and m = m and u = u] blake_call_G [where i = 3 and m = m and u = u]
    blake_call_G [where i = 4 and m = m and u = u] blake_call_G [where i = 5 and m = m and u = u]
    blake_call_G [where i = 6 and m = m and u = u] blake_call_G [where i = 7 and m = m and u = u]
  by (simp add: blake_round_def Let_def sigma_same)

lemma blake_rounds_fold:
  "length w = 16 \<Longrightarrow> fold (blake_round (n0, n1, n2, n3) u m) [0..<R] w = blake_rounds [n0, n1, n2, n3] u R m w
    \<and> length (blake_rounds [n0, n1, n2, n3] u R m w) = 16"
  by (induction R) (simp_all add: blake_rounds_def blake_round_G)

lemma upt_8: "[0..<8] = [0, 1, 2, 3, 4, 5, 6, 7]"
  by (simp add: upt_conv_Cons)

lemma CalcHashBlock_compress:
  assumes "length h = 8" and "length u = 16" and "t0 = of_nat t" and "t1 = of_nat (t div 2 ^ LENGTH('w))"
  shows "CalcHashBlock (n0, n1, n2, n3) R (h @ rest) m [0, 0, 0, 0] (u :: 'w::len word list) t0 t1
    = blake_compress [n0, n1, n2, n3] u R h m t @ rest"
proof -
  obtain h0 h1 h2 h3 h4 h5 h6 h7 where h: "h = [h0, h1, h2, h3, h4, h5, h6, h7]" using list8 [OF assms(1)] .
  obtain c0 c1 c2 c3 c4 where u: "u = c0 # c1 # c2 # c3 # c4"
    using assms(2) by (auto simp: numeral_eq_Suc length_Suc_conv)
  define v where "v = h @ take 4 u @ [t0 XOR u ! 4, t0 XOR u ! 5, t1 XOR u ! 6, t1 XOR u ! 7]"
  have "length v = 16" by (simp add: v_def h u)
  note r = blake_rounds_fold [OF this, of n0 n1 n2 n3 u m R]
  have w: "[(h @ rest) ! 0, (h @ rest) ! 1, (h @ rest) ! 2, (h @ rest) ! 3, (h @ rest) ! 4, (h @ rest) ! 5,
      (h @ rest) ! 6, (h @ rest) ! 7,
      [0, 0, 0, 0] ! 0 XOR u ! 0, [0, 0, 0, 0] ! 1 XOR u ! 1, [0, 0, 0, 0] ! 2 XOR u ! 2, [0, 0, 0, 0] ! 3 XOR u ! 3,
      t0 XOR u ! 4, t0 XOR u ! 5, t1 XOR u ! 6, t1 XOR u ! 7] = v"
    by (simp add: v_def h u)
  show ?thesis
    unfolding CalcHashBlock_def blake_compress_def Let_def w assms(3,4) [symmetric] v_def [symmetric]
    by (simp add: r upt_8 h xor.assoc)
qed

section \<open>The padding\<close>

definition haifa :: "'w::len word hash_algorithm \<Rightarrow> nat \<Rightarrow> nat \<Rightarrow> bool" where
  "haifa algo ds L \<longleftrightarrow> IsHaifa algo \<and> \<not> IsBlockCounted algo \<and> IsLenBigEndian algo \<and> dataSize algo = ds
     \<and> LENGTH('w) div 8 * 2 = L \<and> 8 \<le> L \<and> L + 2 \<le> ds"

text \<open>The lengths of a last piece for which the driver pads as the submission says.\<close>

definition haifa_good :: "nat \<Rightarrow> nat \<Rightarrow> nat \<Rightarrow> bool" where
  "haifa_good ds L r \<longleftrightarrow> r < ds - L - 1 \<or> ds - L - 1 < r \<and> ds - 9 \<le> r"

lemma last_block_haifa:
  assumes "haifa algo ds L" and "length b = ds - L - 1"
    and "bytes_be L (of_nat (8 * n) :: 128 word) = replicate (L - 8) 0 @ bytes_be 8 (of_nat (8 * n) :: u64)"
  shows "last_block algo (b @ replicate (L + 1) 0) (of_nat n) = b @ 1 # bytes_be L (of_nat (8 * n) :: 128 word)"
proof -
  have H: "IsHaifa algo" "\<not> IsBlockCounted algo" "IsLenBigEndian algo" "dataSize algo = ds" "8 \<le> L" "L + 2 \<le> ds"
    "ds - LENGTH('a) div 8 * 2 - 1 = length b"
    using assms(1,2) by (auto simp: haifa_def)
  have "(b @ replicate (L + 1) 0)[length b := 1] = (b @ 1 # replicate (L - 8) 0) @ replicate 8 (0 :: byte)"
    using replicate_split8 [OF H(5), of "0 :: byte"] by simp
  moreover have "put_bytes (ds - 8) (bytes_be 8 (of_nat (8 * n) :: u64)) ((b @ 1 # replicate (L - 8) 0) @ replicate 8 0)
      = (b @ 1 # replicate (L - 8) 0) @ bytes_be 8 (of_nat (8 * n) :: u64)"
    using H(5,6) assms(2) by (intro put_bytes_tail) simp_all
  ultimately show ?thesis
    unfolding last_block_def Let_def H(4,7) assms(3) push_bit_3_of_nat using H(1-3)
    by (simp del: of_nat_mult)
qed

lemma tail_blocks_haifa:
  fixes algo :: "'w::len word hash_algorithm"
  assumes algo: "haifa algo ds L" and r: "length m < ds" "haifa_good ds L (length m)" and n: "n = q * ds + length m"
    and len: "bytes_be L (of_nat (8 * n) :: 128 word) = replicate (L - 8) 0 @ bytes_be 8 (of_nat (8 * n) :: u64)"
  shows "tail_blocks algo (q * ds) m = zip (chunks ds (m @ blake_pad ds L n))
    (map (\<lambda>i. of_nat (blake_t ds n i)) [q..<q + length (chunks ds (m @ blake_pad ds L n))])"
proof -
  have H: "8 \<le> L" "L + 2 \<le> ds" using algo by (auto simp: haifa_def)
  have room: "tailRoom algo = ds - 9" "dataSize algo = ds" using algo by (auto simp: tailRoom_def haifa_def)
  have mod: "n mod ds = length m" unfolding n using r(1) by simp
  have t0: "blake_t ds n q = (if length m = 0 then 0 else 8 * n)"
    unfolding blake_t_def n using r(1) by (auto simp: min_def)
  have t1: "blake_t ds n (Suc q) = 0" unfolding blake_t_def n using r(1) by simp
  define ln where "ln = bytes_be L (of_nat (8 * n) :: 128 word)"
  have lln: "length ln = L" by (simp add: ln_def)
  note last = last_block_haifa [OF algo _ len, folded ln_def]
  have one: "chunks ds b = [b]" "chunks ds (b @ b') = [b, b']"
    if "length b = ds" "length b' = ds" for b b' :: "byte list"
    using that H chunks_append [of b ds "[]"] chunks_append [of b' ds "[]"] by (simp_all add: chunks_append)
  show ?thesis
  proof (cases "length m < ds - L - 1")
    case True
    define x where "x = m @ 0x80 # replicate (ds - L - length m - 2) 0"
    have lx: "length x = ds - L - 1" "length (x @ 1 # ln) = ds" using True H lln by (simp_all add: x_def)
    have "length m < ds - L" "ds - L - length m \<noteq> 1" using True by linarith+
    then have p: "m @ blake_pad ds L n = x @ 1 # ln"
      unfolding blake_pad_def Let_def mod ln_def [symmetric] by (simp add: x_def)
    have "ds - length m - 1 = (ds - L - length m - 2) + (L + 1)" using True H by linarith
    then have "m @ 0x80 # replicate (ds - length m - 1) 0 = x @ replicate (L + 1) (0 :: byte)"
      unfolding x_def by (simp only: replicate_add append.assoc append_Cons)
    moreover have "length m < ds - 9" using True H by linarith
    ultimately have "tail_blocks algo (q * ds) m = [(x @ 1 # ln, if length m = 0 then 0 else of_nat (8 * n))]"
      unfolding tail_blocks_def Let_def room n [symmetric] using last [OF lx(1)] by (simp del: of_nat_mult)
    then show ?thesis unfolding p one(1) [OF lx(2) lx(2)] by (simp add: t0 upt_conv_Cons)
  next
    case False
    then have g: "ds - L - 1 < length m" "ds - 9 \<le> length m" using r(2) by (auto simp: haifa_good_def)
    define x where "x = m @ 0x80 # replicate (ds - length m - 1) 0"
    define z where "z = (replicate (ds - L - 1) 0 :: byte list)"
    have lx: "length x = ds" "length z = ds - L - 1" "length (z @ 1 # ln) = ds" using r(1) H lln by (simp_all add: x_def z_def)
    have "2 * ds - L - length m - 2 = (ds - length m - 1) + (ds - L - 1)" using r(1) H by linarith
    moreover have "\<not> length m < ds - L" "2 * ds - L - length m \<noteq> 1" using g(1) r(1) H by linarith+
    ultimately have p: "m @ blake_pad ds L n = x @ z @ 1 # ln"
      unfolding blake_pad_def Let_def mod ln_def [symmetric] by (simp add: x_def z_def replicate_add)
    have "replicate ds 0 = z @ replicate (L + 1) (0 :: byte)"
      unfolding z_def replicate_add [symmetric] using H by simp
    moreover have "\<not> length m < ds - 9" "length m \<noteq> 0" using g H by linarith+
    ultimately have "tail_blocks algo (q * ds) m = [(x, of_nat (8 * n)), (z @ 1 # ln, 0)]"
      unfolding tail_blocks_def Let_def room n [symmetric] x_def [symmetric] using last [OF lx(2)] by (simp del: of_nat_mult)
    then show ?thesis using \<open>length m \<noteq> 0\<close> unfolding p one(2) [OF lx(1,3)] by (simp add: t0 t1 upt_conv_Cons)
  qed
qed

lemma hash_blocks_haifa:
  fixes algo :: "'w::len word hash_algorithm"
  assumes algo: "haifa algo ds L" and "haifa_good ds L (length m mod ds)" and "n = q * ds + length m"
    and len: "bytes_be L (of_nat (8 * n) :: 128 word) = replicate (L - 8) 0 @ bytes_be 8 (of_nat (8 * n) :: u64)"
  shows "hash_blocks algo (q * ds) m = zip (chunks ds (m @ blake_pad ds L n))
    (map (\<lambda>i. of_nat (blake_t ds n i)) [q..<q + length (chunks ds (m @ blake_pad ds L n))])"
  using assms(2,3)
proof (induction "length m" arbitrary: m q rule: less_induct)
  case less
  have ds: "dataSize algo = ds" "0 < ds" using algo by (auto simp: haifa_def)
  show ?case
  proof (cases "ds \<le> length m")
    case True
    let ?m = "drop ds m" and ?p = "blake_pad ds L n"
    have sh: "length ?m < length m" "n = Suc q * ds + length ?m" "length ?m mod ds = length m mod ds"
      using True ds(2) less.prems by (simp_all add: le_mod_geq)
    have eq: "m @ ?p = take ds m @ (?m @ ?p)" by simp
    have c: "chunks ds (m @ ?p) = take ds m # chunks ds (?m @ ?p)"
      by (subst eq, rule chunks_append) (use True ds(2) in simp_all)
    have ne: "m \<noteq> []" using True ds(2) by auto
    have t: "blake_t ds n q = 8 * (q * ds + ds)"
      using True ds(2) less.prems(2) ne by (simp add: blake_t_def min_def add.commute)
    have "hash_blocks algo (q * ds) m = (take ds m, of_nat (8 * (q * ds + ds))) # hash_blocks algo (Suc q * ds) ?m"
      using hash_blocks_full [of algo m "q * ds"] True ds by (simp add: add.commute)
    moreover have "hash_blocks algo (Suc q * ds) ?m = zip (chunks ds (?m @ ?p))
        (map (\<lambda>i. of_nat (blake_t ds n i)) [Suc q..<Suc q + length (chunks ds (?m @ ?p))])"
      using less.prems(1) sh(3) by (intro less.hyps [OF sh(1) _ sh(2)]) simp
    ultimately show ?thesis unfolding c
      by (simp add: upt_conv_Cons t del: upt_Suc of_nat_mult of_nat_add mult_Suc)
  next
    case False
    then have "length m mod ds = length m" by simp
    then show ?thesis
      using tail_blocks_haifa [OF algo _ _ less.prems(2) len] less.prems(1) False ds(1) by (simp add: hash_blocks_tail)
  qed
qed

section \<open>The driver computes the submission\<close>

lemma hash_fold_haifa:
  assumes step: "\<And>h b t. length h = 8 \<Longrightarrow> t < 2 ^ 64 \<Longrightarrow>
      PrepareEndiannessAndHashBlock algo (h @ rest) b (of_nat t) = F b t h @ rest"
    and len: "\<And>h b t. length (F b t h) = 8"
  shows "length h = 8 \<Longrightarrow> \<forall>(b, t)\<in>set ps. t < 2 ^ 64 \<Longrightarrow>
    hash_fold algo (h @ rest) (map (\<lambda>(b, t). (b, of_nat t)) ps) = fold (\<lambda>(b, t) h. F b t h) ps h @ rest
    \<and> length (fold (\<lambda>(b, t) h. F b t h) ps h) = 8"
proof (induction ps arbitrary: h)
  case (Cons p ps)
  obtain b t where p: "p = (b, t)" by (cases p)
  then have "t < 2 ^ 64" using Cons.prems(2) by simp
  from step [OF Cons.prems(1) this, of b] show ?case
    using Cons.IH [OF len, of b t h] Cons.prems(2) p by (simp add: hash_fold_def len)
qed (simp add: hash_fold_def)

lemma length_blake_compress [simp]: "length (blake_compress rot u R h m t) = 8"
  by (simp add: blake_compress_def Let_def)

lemma hash_spec_haifa:
  fixes algo :: "'w::len word hash_algorithm"
  assumes algo: "haifa algo ds L" and good: "haifa_good ds L (length m mod ds)" and n: "length m < 2 ^ 61"
    and len: "bytes_be L (of_nat (8 * length m) :: 128 word) = replicate (L - 8) 0 @ bytes_be 8 (of_nat (8 * length m) :: u64)"
    and init: "InitHash algo = iv @ rest" "length iv = 8"
    and step: "\<And>h b t. length h = 8 \<Longrightarrow> t < 2 ^ 64 \<Longrightarrow> PrepareEndiannessAndHashBlock algo (h @ rest) b (of_nat t)
      = blake_compress rot u R h (map be_word (chunks (LENGTH('w) div 8) b)) t @ rest"
  shows "hash_spec algo m = hash_output algo (blake_hash rot u R ds L iv m @ rest)"
    and "length (blake_hash rot u R ds L iv m) = 8"
proof -
  define B where "B = chunks ds (m @ blake_pad ds L (length m))"
  define ps where "ps = zip B (map (blake_t ds (length m)) [0..<length B])"
  define h where "h = fold (\<lambda>(b, t) h. blake_compress rot u R h (map be_word (chunks (LENGTH('w) div 8) b)) t) ps iv"
  have "zip B (map (\<lambda>i. of_nat (blake_t ds (length m) i)) [0..<length B]) = map (\<lambda>(b, t). (b, of_nat t)) ps"
    unfolding ps_def by (simp add: zip_map2 comp_def split_def)
  then have hb: "hash_blocks algo 0 m = map (\<lambda>(b, t). (b, of_nat t)) ps"
    using hash_blocks_haifa [OF algo good, of "length m" 0] len unfolding B_def by simp
  have "blake_t ds (length m) i \<le> 8 * length m" for i
    by (simp add: blake_t_def)
  moreover have "8 * length m < 2 ^ 64" using n by simp
  ultimately have "blake_t ds (length m) i < 2 ^ 64" for i by (rule le_less_trans)
  then have "\<forall>(b, t)\<in>set ps. t < 2 ^ 64" by (auto simp: ps_def set_zip)
  from hash_fold_haifa [where F = "\<lambda>b t h. blake_compress rot u R h (map be_word (chunks (LENGTH('w) div 8) b)) t",
      OF step _ init(2) this] have "hash_fold algo (iv @ rest) (map (\<lambda>(b, t). (b, of_nat t)) ps) = h @ rest" "length h = 8"
    by (simp_all add: h_def)
  moreover have "blake_hash rot u R ds L iv m = h"
    by (simp only: blake_hash_def Let_def h_def ps_def B_def)
  ultimately show "hash_spec algo m = hash_output algo (blake_hash rot u R ds L iv m @ rest)"
    and "length (blake_hash rot u R ds L iv m) = 8"
    by (simp_all only: hash_spec_def hb init(1))
qed

lemma length_bytes_be_words: "length (concat (map (bytes_be k) ws)) = k * length ws"
  by (induction ws) simp_all

lemma Blake512_haifa: "haifa (Blake512 out) 128 16"
  by (simp add: haifa_def Blake512_def HashAlgorithm_def dataSize_def WordCount_def)

lemma Blake512_spec:
  assumes "length m < 2 ^ 61" and "\<not> (111 \<le> length m mod 128 \<and> length m mod 128 \<le> 118)"
    and out: "\<forall>h. length h = 8 \<longrightarrow> length (out h) = 8"
  shows "hash_spec (Blake512 out) m = concat (map (bytes_be 8) (out (blake512_words m)))"
proof -
  have good: "haifa_good 128 16 (length m mod 128)"
    using assms(2) by (auto simp: haifa_good_def)
  have "8 * length m < 2 ^ 64" using assms(1) by simp
  note len = bytes_be_16 [OF this]
  have step: "PrepareEndiannessAndHashBlock (Blake512 out) (h @ []) b (of_nat t)
      = blake_compress [32, 25, 16, 11] g_blake512_c 16 h (map be_word (chunks (LENGTH(64) div 8) b)) t @ []"
    if "length h = 8" "t < 2 ^ 64" for h b t
  proof -
    have "t div 2 ^ LENGTH(64) = 0" using that(2) by (simp del: power_numeral)
    then show ?thesis
      using CalcHashBlock_compress [OF that(1), of g_blake512_c "of_nat t" t 0 32 25 16 11 16 "[]"]
      by (simp add: PrepareEndiannessAndHashBlock_def PrepareEndianness_in_def Blake512_def HashAlgorithm_def
          Blake512_HashBlock_def g_blake512_c_def del: power_numeral)
  qed
  have iv: "InitHash (Blake512 out) = g_sha512_hinit @ []" "length g_sha512_hinit = 8"
    by (simp_all add: Blake512_def g_sha512_hinit_def)
  have "bytes_be 16 (of_nat (8 * length m) :: 128 word) = replicate (16 - 8) 0 @ bytes_be 8 (of_nat (8 * length m) :: u64)"
    unfolding len by simp
  from hash_spec_haifa [OF Blake512_haifa good assms(1) this iv step] have
    h: "hash_spec (Blake512 out) m = hash_output (Blake512 out) (blake_hash [32, 25, 16, 11] g_blake512_c 16 128 16 g_sha512_hinit m @ [])"
      "length (blake_hash [32, 25, 16, 11] g_blake512_c 16 128 16 g_sha512_hinit m) = 8" by blast+
  have w: "blake512_words m = blake_hash [32, 25, 16, 11] g_blake512_c 16 128 16 g_sha512_hinit m"
    by (simp only: blake512_words_def pi_words_512 fips_sha512_H0_code)
  have "length (out (blake512_words m)) = 8" using out h(2) by (simp add: w)
  moreover have "length (concat (map (bytes_be 8) (ws :: u64 list))) = 8 * length ws" for ws
    by (rule length_bytes_be_words)
  ultimately show ?thesis unfolding h(1) append_Nil2 w [symmetric]
    by (simp add: hash_output_words Blake512_def HashAlgorithm_def)
qed

lemma Blake256_haifa: "haifa (Blake256 rest) 64 8"
  by (simp add: haifa_def Blake256_def HashAlgorithm_def dataSize_def WordCount_def)

lemma Blake256_spec:
  assumes "length m < 2 ^ 61" and "length m mod 64 \<noteq> 55" and "length rest = 8"
  shows "hash_spec (Blake256 rest) m = concat (map (bytes_be 4) (blake256_words m)) @ concat (map (bytes_le 4) rest)"
proof -
  have good: "haifa_good 64 8 (length m mod 64)"
    using assms(2) by (auto simp: haifa_good_def)
  have step: "PrepareEndiannessAndHashBlock (Blake256 rest) (h @ rest) b (of_nat t)
      = blake_compress [16, 12, 8, 7] g_blake256_c 14 h (map be_word (chunks (LENGTH(32) div 8) b)) t @ rest"
    if "length h = 8" "t < 2 ^ 64" for h b t
  proof -
    have u: "unat (of_nat t :: u64) = t" "unat (of_nat (t div 2 ^ 32) :: u64) = t div 2 ^ 32"
      using that(2) le_less_trans [OF div_le_dividend that(2)] by (simp_all add: unat_of_nat)
    have "drop_bit 32 (of_nat t :: u64) = of_nat (t div 2 ^ 32)"
      unfolding word_unat_eq_iff unat_drop_bit_eq u by (rule drop_bit_eq_div)
    then have c: "ucast (drop_bit 32 (of_nat t :: u64)) = (of_nat (t div 2 ^ LENGTH(32)) :: u32)"
      "ucast (of_nat t :: u64) = (of_nat t :: u32)"
      by (simp_all add: unsigned_of_nat take_bit_of_nat [symmetric] take_bit_word_eq_self)
    show ?thesis
      using CalcHashBlock_compress [OF that(1), of g_blake256_c "of_nat t" t "of_nat (t div 2 ^ LENGTH(32))" 16 12 8 7 14 rest]
      by (simp add: PrepareEndiannessAndHashBlock_def PrepareEndianness_in_def Blake256_def HashAlgorithm_def
          Blake256_HashBlock_def g_blake256_c_def c del: power_numeral)
  qed
  have iv: "InitHash (Blake256 rest) = g_sha256_hinit @ rest" "length g_sha256_hinit = 8"
    by (simp_all add: Blake256_def g_sha256_hinit_def)
  have "bytes_be 8 (of_nat (8 * length m) :: 128 word) = replicate (8 - 8) 0 @ bytes_be 8 (of_nat (8 * length m) :: u64)"
    unfolding bytes_be_8_128 by simp
  from hash_spec_haifa [OF Blake256_haifa good assms(1) this iv step] have
    h: "hash_spec (Blake256 rest) m = hash_output (Blake256 rest) (blake_hash [16, 12, 8, 7] g_blake256_c 14 64 8 g_sha256_hinit m @ rest)"
      "length (blake_hash [16, 12, 8, 7] g_blake256_c 14 64 8 g_sha256_hinit m) = 8" by blast+
  have w: "blake256_words m = blake_hash [16, 12, 8, 7] g_blake256_c 14 64 8 g_sha256_hinit m"
    by (simp only: blake256_words_def pi_words_256 fips_sha256_H0_code)
  have "length (blake256_words m) = 8" using h(2) by (simp add: w)
  moreover have "length (concat (map (bytes_le 4) ws)) = 4 * length ws" for ws :: "u32 list"
    by (induction ws) simp_all
  ultimately show ?thesis using length_bytes_be_words [of 4 "blake256_words m"] assms(3)
    unfolding h(1) w [symmetric]
    by (simp add: hash_output_def PrepareEndianness_out_def Blake256_def HashAlgorithm_def)
qed

section \<open>Properties\<close>



text \<open>
  C39: With the padding that \<open>ComputeHash\<close> applies to \<open>Blake512\<close>, messages of a length modulo 128 from 112
  to 118 are hashed without one of their bytes, the one at 111 of the last piece: changing it gives
  the same hash, whatever the undefined \<open>OutTransform\<close> does.
\<close>

theorem Blake512_collision:
  assumes "length p mod 128 = 111" and "length s \<le> 6"
  shows "ComputeHash (Blake512 out) (p @ x # s) = ComputeHash (Blake512 out) (p @ y # s)"
proof -
  have ds: "dataSize (Blake512 out) = 128" "tailRoom (Blake512 out) = 119" "IsHaifa (Blake512 out)"
    by (simp_all add: dataSize_def WordCount_def tailRoom_def Blake512_def HashAlgorithm_def)
  have "hash_blocks (Blake512 out) k (p @ x # s) = hash_blocks (Blake512 out) k (p @ y # s)" for k
    using assms(1)
  proof (induction "length p" arbitrary: p k rule: less_induct)
    case less
    show ?case
    proof (cases "128 \<le> length p")
      case True
      then have "length (drop 128 p) mod 128 = 111" using less.prems by (simp add: le_mod_geq)
      then show ?thesis
        using less.hyps [of "drop 128 p" "k + 128"] True ds(1)
          hash_blocks_full [of "Blake512 out" "p @ x # s" k] hash_blocks_full [of "Blake512 out" "p @ y # s" k] by simp
    next
      case False
      then have p: "length p = 111" using less.prems by simp
      define z where "z = s @ 0x80 # replicate (15 - length s) 0"
      have "last_block (Blake512 out) (p @ a # z) n = last_block (Blake512 out) (p @ b # z) n" for a b n
        unfolding last_block_def Let_def ds(1) using ds(3) p by (simp add: list_update_append)
      then show ?thesis using p assms(2) ds(1,2)
        by (simp add: hash_blocks_tail tail_blocks_def Let_def z_def)
    qed
  qed
  then show ?thesis by (simp add: ComputeHash_spec hash_spec_def)
qed

theorem Blake512_collision_witness:
  "ComputeHash (Blake512 rev) (replicate 111 7 @ [0]) = ComputeHash (Blake512 rev) (replicate 111 7 @ [1])"
  using Blake512_collision [of "replicate 111 7" "[]" rev 0 1] by simp

end
