(* ===== verification/Decimal.thy ===== *)
theory Decimal
  imports BigAlgo Complex_Main
begin

text \<open>
  Decimal floating point numbers, \<open>src/stl/decimal\<close> and \<open>src/stl/decimal.cpp\<close>: a number is a 64-bit
  integer times a power of ten.  Conversion from binary floating point is the algorithm FPP2 of
  Steele and White.  Big integers are used through the interface \<open>bignum\<close> of \<open>BigAlgo\<close>.
\<close>

section \<open>The code\<close>

record decimal64 =
  m_val :: int
  m_exp :: int

definition make_decimal64 :: "int \<Rightarrow> int \<Rightarrow> decimal64" where
  "make_decimal64 v e = \<lparr>m_val = v, m_exp = e\<rparr>"

definition is_int64 :: "int \<Rightarrow> bool" where
  "is_int64 i \<longleftrightarrow> - (2 ^ 63) \<le> i \<and> i < 2 ^ 63"

fun long_long_up :: "nat \<Rightarrow> int \<Rightarrow> int res" where
  "long_long_up 0 r = Inr r"
| "long_long_up (Suc n) r = (let maxPrev = (2 ^ 63 - 1) div 10 in
     if \<bar>r\<bar> > maxPrev then Inl E_INVALIDARG else long_long_up n (r * 10))"

fun long_long_down :: "nat \<Rightarrow> int \<Rightarrow> int" where
  "long_long_down 0 r = r"
| "long_long_down (Suc n) r = long_long_down n (r sdiv 10)"

definition decimal_to_long_long :: "decimal64 \<Rightarrow> int res" where
  "decimal_to_long_long v = (if m_exp v \<ge> 0 then long_long_up (nat (m_exp v)) (m_val v)
     else Inr (long_long_down (nat (- m_exp v)) (m_val v)))"

text \<open>\<open>explicit_cast<int64_t>\<close> of a big integer.\<close>

definition explicit_int64 :: "'z bignum_ops \<Rightarrow> 'z \<Rightarrow> int res" where
  "explicit_int64 N v = (case bn_AsInt64 N v of None \<Rightarrow> Inl E_FAIL | Some r \<Rightarrow> Inr r)"

text \<open>The constructor of a big integer from 64 bits is the argument \<open>I\<close>.\<close>

fun Pow10_loop :: "'z bignum_ops \<Rightarrow> nat \<Rightarrow> 'z \<Rightarrow> 'z" where
  "Pow10_loop N 0 r = r"
| "Pow10_loop N (Suc n) r = Pow10_loop N n (bn_Mul N r (bn_int N 10))"

definition Pow10ToInteger :: "'z bignum_ops \<Rightarrow> (int \<Rightarrow> 'z) \<Rightarrow> int \<Rightarrow> int \<Rightarrow> 'z" where
  "Pow10ToInteger N I a exp10 = Pow10_loop N (nat exp10) (I a)"

definition decimal_neg :: "decimal64 \<Rightarrow> decimal64" where
  "decimal_neg v = make_decimal64 (- m_val v) (m_exp v)"

definition decimal_minus :: "'z bignum_ops \<Rightarrow> (int \<Rightarrow> 'z) \<Rightarrow> decimal64 \<Rightarrow> decimal64 \<Rightarrow> decimal64 res" where
  "decimal_minus N I a b = (let
     na = Pow10ToInteger N I (m_val a) (max 0 (m_exp a - m_exp b));
     nb = Pow10ToInteger N I (m_val b) (max 0 (m_exp b - m_exp a))
   in bind_res (bn_Sub N na nb) (\<lambda>d. bind_res (explicit_int64 N d) (\<lambda>v.
        Inr (make_decimal64 v (min (m_exp a) (m_exp b))))))"

text \<open>The loop has no bound in the code; \<open>None\<close> is a run that does not end.\<close>

partial_function (option) decimal_shrink :: "'z bignum_ops \<Rightarrow> 'z \<Rightarrow> int \<Rightarrow> ('z \<times> int) res option" where
  "decimal_shrink N bi off = (if bn_Length N bi \<ge> 63
     then (case bn_div N bi (bn_int N 10) of Inl e \<Rightarrow> Some (Inl e) | Inr (q, _) \<Rightarrow> decimal_shrink N q (off + 1))
     else Some (Inr (bi, off)))"

definition decimal_times :: "'z bignum_ops \<Rightarrow> (int \<Rightarrow> 'z) \<Rightarrow> decimal64 \<Rightarrow> decimal64 \<Rightarrow> decimal64 res option" where
  "decimal_times N I a b = (case decimal_shrink N (bn_Mul N (I (m_val a)) (I (m_val b))) 0 of
     None \<Rightarrow> None
   | Some r \<Rightarrow> Some (bind_res r (\<lambda>(bi, off). bind_res (explicit_int64 N bi) (\<lambda>v.
       Inr (make_decimal64 v (m_exp a + m_exp b + off))))))"

record NormalizedDecimal =
  nd_M :: nat
  nd_Exp :: int
  nd_Minus :: bool

definition MAX_DECIMAL_M :: nat where
  "MAX_DECIMAL_M = 10000000000000000000"

definition MAX_DECIMAL_M_DIV_10 :: nat where
  "MAX_DECIMAL_M_DIV_10 = MAX_DECIMAL_M div 10"

text \<open>The loop is not entered with zero.\<close>

function Normalize_loop :: "nat \<Rightarrow> int \<Rightarrow> nat \<times> int" where
  "Normalize_loop M e = (if 0 < M \<and> M < MAX_DECIMAL_M_DIV_10 then Normalize_loop (M * 10) (e - 1) else (M, e))"
  by pat_completeness auto
termination by (relation "measure (\<lambda>(M, e). MAX_DECIMAL_M_DIV_10 - M)") auto

declare Normalize_loop.simps [simp del]

definition Normalize :: "decimal64 \<Rightarrow> NormalizedDecimal" where
  "Normalize a = (let
     M = nat (if m_val a < 0 then - m_val a else m_val a); e = m_exp a;
     (M, e) = (if M = 0 then (M, - (2 ^ 31))
       else if M \<ge> MAX_DECIMAL_M then (M div 10, e + 1)
       else Normalize_loop M e)
   in \<lparr>nd_M = M, nd_Exp = e, nd_Minus = m_val a < 0\<rparr>)"

definition decimal_eq :: "decimal64 \<Rightarrow> decimal64 \<Rightarrow> bool" where
  "decimal_eq a b = (let na = Normalize a; nb = Normalize b in
     nd_Minus na = nd_Minus nb \<and> nd_M na = nd_M nb \<and> nd_Exp na = nd_Exp nb)"

definition decimal_less :: "decimal64 \<Rightarrow> decimal64 \<Rightarrow> bool" where
  "decimal_less a b = (let na = Normalize a; nb = Normalize b in
     if nd_Minus na \<noteq> nd_Minus nb then nd_Minus na
     else if nd_Exp na \<noteq> nd_Exp nb then (nd_Exp na < nd_Exp nb) \<noteq> nd_Minus na
     else (nd_M na < nd_M nb) \<noteq> nd_Minus na)"

subsection \<open>Text\<close>

text \<open>Characters are their codes.  \<open>os << long long\<close> in base ten, and \<open>setw\<close> with \<open>setfill ('0')\<close>.\<close>

fun decimal_digits :: "nat \<Rightarrow> nat list" where
  "decimal_digits n = (if n < 10 then [48 + n] else decimal_digits (n div 10) @ [48 + n mod 10])"

declare decimal_digits.simps [simp del]

definition out_int :: "int \<Rightarrow> nat list" where
  "out_int i = (if i < 0 then 45 # decimal_digits (nat (- i)) else decimal_digits (nat i))"

definition out_setw :: "nat \<Rightarrow> nat list \<Rightarrow> nat list" where
  "out_setw w s = replicate (w - length s) 48 @ s"

text \<open>Trailing zeros of the fraction are dropped, down to one place.\<close>

fun strip_zeros :: "nat \<Rightarrow> int \<Rightarrow> nat \<times> int" where
  "strip_zeros 0 v = (0, v)"
| "strip_zeros (Suc n) v = (if v smod 10 = 0 then strip_zeros n (v sdiv 10) else (Suc n, v))"

text \<open>The decimal point is that of the classic locale.  \<open>10 ^ nexp\<close> must fit 64 bits.\<close>

definition decimal_print :: "decimal64 \<Rightarrow> nat list res" where
  "decimal_print v = (if m_exp v \<ge> 0 then Inr (out_int (m_val v) @ replicate (nat (m_exp v)) 48)
     else let (nexp, val) = strip_zeros (nat (- m_exp v)) (m_val v) in
       if 18 < nexp then Inl Overflow
       else let d = 10 ^ nexp in
         Inr (out_int (val sdiv d) @ 46 # out_setw nexp (out_int (val smod d))))"

definition is_digit :: "nat \<Rightarrow> bool" where
  "is_digit c \<longleftrightarrow> 48 \<le> c \<and> c \<le> 57"

text \<open>
  The pattern \<open>([-+])?(\d*)(\.(\d*))?([eE](([-+])?(\d+)))?\<close> matched against a whole word: its groups
  1, 2, 4 and 6, the last \<open>None\<close> when there is no exponent.
\<close>

definition re_sign :: "nat list \<Rightarrow> nat list \<times> nat list" where
  "re_sign s = (case s of c # t \<Rightarrow> if c = 45 \<or> c = 43 then ([c], t) else ([], s) | [] \<Rightarrow> ([], []))"

definition re_fraction :: "nat list \<Rightarrow> nat list \<times> nat list" where
  "re_fraction s = (case s of c # t \<Rightarrow> if c = 46 then (takeWhile is_digit t, dropWhile is_digit t) else ([], s)
     | [] \<Rightarrow> ([], []))"

definition s_reDecimal :: "nat list \<Rightarrow> (nat list \<times> nat list \<times> nat list \<times> nat list option) option" where
  "s_reDecimal s = (let
     (sign, s) = re_sign s;
     intpart = takeWhile is_digit s;
     (fppart, s) = re_fraction (dropWhile is_digit s)
   in case s of [] \<Rightarrow> Some (sign, intpart, fppart, None)
      | c # t \<Rightarrow> (case re_sign t of (esign, ds) \<Rightarrow>
          if (c = 101 \<or> c = 69) \<and> ds \<noteq> [] \<and> list_all is_digit ds
          then Some (sign, intpart, fppart, Some (esign @ ds)) else None))"

definition digits_value :: "nat list \<Rightarrow> nat" where
  "digits_value ds = fold (\<lambda>c n. 10 * n + (c - 48)) ds 0"

text \<open>\<open>stoll\<close> of a sign and digits: it throws when there is no digit or no 64-bit value.\<close>

definition signed_value :: "nat list \<Rightarrow> int" where
  "signed_value s = (case re_sign s of (sg, ds) \<Rightarrow>
     if sg = [45] then - int (digits_value ds) else int (digits_value ds))"

definition stoll :: "nat list \<Rightarrow> int res" where
  "stoll s = (if snd (re_sign s) = [] then Inl InvalidArgument
     else if is_int64 (signed_value s) then Inr (signed_value s) else Inl ArgumentOutOfRange)"

text \<open>\<open>None\<close> is the fail bit of the stream.\<close>

definition decimal_parse :: "nat list \<Rightarrow> decimal64 option res" where
  "decimal_parse s = (case s_reDecimal s of None \<Rightarrow> Inr None
     | Some (sign, intpart, fppart, ex) \<Rightarrow> bind_res (stoll (sign @ intpart @ fppart)) (\<lambda>v.
         Inr (Some (make_decimal64 v (- int (length fppart) + (case ex of None \<Rightarrow> 0 | Some x \<Rightarrow> signed_value x))))))"

subsection \<open>From binary floating point\<close>

text \<open>
  A \<open>double\<close> as \<open>fpclassify\<close>, \<open>fabs\<close> and \<open>frexp\<close> see it: \<open>f\<close> of 53 bits, and the exponent \<open>e\<close>, so that its
  absolute value is \<open>f * 2 ^ (e - 53)\<close>.
\<close>

datatype double = FP_ZERO | FP_NAN | FP_INFINITE | FP_FINITE (fp_minus: bool) (fp_f: int) (fp_e: int)

text \<open>The first loop scales numbers below one up.\<close>

partial_function (option) fpp_up :: "'z bignum_ops \<Rightarrow> 'z \<Rightarrow> 'z \<Rightarrow> 'z \<Rightarrow> 'z \<Rightarrow> int \<Rightarrow> ('z \<times> 'z \<times> 'z \<times> int) option" where
  "fpp_up N s r ml mh ex = (let nr = bn_Mul N r (bn_int N 10) in
     if bn_Compare N nr s < 0 then fpp_up N s nr (bn_Mul N ml (bn_int N 10)) (bn_Mul N mh (bn_int N 10)) (ex - 1)
     else Some (r, ml, mh, ex))"

text \<open>The second loop scales the others down.\<close>

partial_function (option) fpp_down :: "'z bignum_ops \<Rightarrow> 'z \<Rightarrow> 'z \<Rightarrow> 'z \<Rightarrow> int \<Rightarrow> ('z \<times> int) res option" where
  "fpp_down N r mh s ex = (case bn_Add N (bn_shl N r 1) mh of Inl e \<Rightarrow> Some (Inl e)
     | Inr t \<Rightarrow> if \<not> bn_Compare N t (bn_shl N s 1) < 0 then fpp_down N r mh (bn_Mul N s (bn_int N 10)) (ex + 1)
         else Some (Inr (s, ex)))"

text \<open>The third one takes out the digits.\<close>

partial_function (option) fpp_digits ::
  "'z bignum_ops \<Rightarrow> 'z \<Rightarrow> 'z \<Rightarrow> 'z \<Rightarrow> 'z \<Rightarrow> int \<Rightarrow> int \<Rightarrow> decimal64 res option" where
  "fpp_digits N s r ml mh v ex = (let
     ex = ex - 1;
     ml = bn_Mul N ml (bn_int N 10);
     mh = bn_Mul N mh (bn_int N 10)
   in case bn_div N (bn_Mul N r (bn_int N 10)) s of Inl e \<Rightarrow> Some (Inl e)
      | Inr (ur1, ur2) \<Rightarrow> (case explicit_int N ur1 of Inl e \<Rightarrow> Some (Inl e)
      | Inr d \<Rightarrow> (let v = v * 10 + d; dr = bn_shl N ur2 1; r = ur2 in
         case bn_Sub N (bn_shl N s 1) mh of Inl e \<Rightarrow> Some (Inl e)
         | Inr bound \<Rightarrow> (let
             low = bn_Compare N dr ml < 0;
             high = bn_Compare N bound dr < 0
           in if \<not> low \<and> \<not> high then fpp_digits N s r ml mh v ex
              else Some (Inr (make_decimal64
                (v + (if high \<and> (\<not> low \<or> \<not> bn_Compare N dr s < 0) then 1 else 0)) ex))))))"

definition decimal_of_double :: "'z bignum_ops \<Rightarrow> (int \<Rightarrow> 'z) \<Rightarrow> double \<Rightarrow> decimal64 res option" where
  "decimal_of_double N I d = (case d of FP_ZERO \<Rightarrow> Some (Inr (make_decimal64 0 0))
     | FP_NAN \<Rightarrow> Some (Inl E_INVALIDARG) | FP_INFINITE \<Rightarrow> Some (Inl E_INVALIDARG)
     | FP_FINITE neg f e \<Rightarrow> (let
         p = 53;
         offset = (if f = 2 ^ (p - 1) then 1 else 0);
         r = bn_shl N (I f) (offset + nat (max 0 (e - int p)));
         s = bn_shl N (bn_int N 1) (offset + nat (max 0 (int p - e)));
         ml = bn_shl N (bn_int N 1) (nat (max 0 (e - int p)));
         mh = bn_shl N ml offset
       in case fpp_up N s r ml mh 0 of None \<Rightarrow> None
          | Some (r, ml, mh, ex) \<Rightarrow> (case fpp_down N r mh s ex of None \<Rightarrow> None
            | Some (Inl e) \<Rightarrow> Some (Inl e)
            | Some (Inr (s, ex)) \<Rightarrow> (case fpp_digits N s r ml mh 0 ex of None \<Rightarrow> None
              | Some (Inl e) \<Rightarrow> Some (Inl e)
              | Some (Inr x) \<Rightarrow> Some (Inr (if neg then make_decimal64 (- m_val x) (m_exp x) else x))))))"

section \<open>Arithmetic\<close>

definition dec_value :: "decimal64 \<Rightarrow> real" where
  "dec_value d = of_int (m_val d) * 10 powi m_exp d"

lemma scale_add: "(10 :: real) powi (a + b) = 10 powi a * 10 powi b"
  by (rule power_int_add) simp

lemma scale_nat: "(10 :: real) powi int n = 10 ^ n"
  by simp

lemma scale_pos [simp]: "0 < (10 :: real) powi k"
  by (rule zero_less_power_int) simp

lemma long_long_up:
  assumes "- (2 ^ 63) < r" and "r < 2 ^ 63"
  shows "long_long_up n r = (if is_int64 (r * 10 ^ n) then Inr (r * 10 ^ n) else Inl E_INVALIDARG)"
  using assms
proof (induction n arbitrary: r)
  case 0
  then show ?case by (simp add: is_int64_def)
next
  case (Suc n)
  have p: "1 \<le> (10 :: int) ^ n" by simp
  show ?case
  proof (cases "\<bar>r\<bar> > 922337203685477580")
    case True
    have "922337203685477581 * 1 \<le> \<bar>r\<bar> * 10 ^ n" using True p by (intro mult_mono) simp_all
    then have "9223372036854775810 \<le> \<bar>r * 10 ^ Suc n\<bar>" by (simp add: abs_mult)
    then have "\<not> is_int64 (r * 10 ^ Suc n)" unfolding is_int64_def by (simp del: power_Suc) linarith
    then show ?thesis using True by (simp del: power_Suc)
  next
    case False
    then have "- (2 ^ 63) < r * 10" "r * 10 < 2 ^ 63" by simp_all
    from Suc.IH [OF this] False show ?thesis by (simp add: mult.assoc)
  qed
qed

lemma sdiv_nonneg: "0 \<le> x \<Longrightarrow> 0 < c \<Longrightarrow> x sdiv c = x div c" for x c :: int
  by (auto simp: signed_divide_int_def sgn_if)

lemma sdiv_sdiv:
  fixes r a b :: int
  assumes "0 < a" and "0 < b"
  shows "(r sdiv a) sdiv b = r sdiv (a * b)"
proof -
  have ab: "0 < a * b" using assms by simp
  have pos: "(x sdiv a) sdiv b = x sdiv (a * b)" if x: "0 \<le> x" for x
  proof -
    have "0 \<le> x div a" using x assms(1) by (simp add: pos_imp_zdiv_nonneg_iff)
    then have "(x sdiv a) sdiv b = x div a div b" by (simp only: sdiv_nonneg x assms)
    also have "\<dots> = x sdiv (a * b)" unfolding sdiv_nonneg [OF x ab] using assms(2) by (simp add: zdiv_zmult2_eq)
    finally show ?thesis .
  qed
  show ?thesis
  proof (cases "0 \<le> r")
    case False
    then have "0 \<le> - r" by simp
    from pos [OF this] show ?thesis by simp
  qed (rule pos)
qed

lemma long_long_down: "long_long_down n r = r sdiv 10 ^ n"
proof (induction n arbitrary: r)
  case 0
  then show ?case by simp
next
  case (Suc n)
  then show ?case by (simp add: sdiv_sdiv)
qed

lemma sdiv_error: "0 < c \<Longrightarrow> \<bar>x - (x sdiv c) * c\<bar> < c" for x c :: int
proof -
  assume c: "0 < c"
  have pos: "\<bar>y - (y sdiv c) * c\<bar> < c" if y: "0 \<le> y" for y
    unfolding sdiv_nonneg [OF y c] minus_div_mult_eq_mod using c by simp
  show ?thesis
  proof (cases "0 \<le> x")
    case False
    then have "0 \<le> - x" by simp
    from pos [OF this] show ?thesis by simp
  qed (rule pos)
qed

text \<open>The interface of big integers, with the constructor from 64 bits and exact lengths.\<close>

locale bignum64 = bignum N ok val for N :: "'z bignum_ops" and ok val +
  fixes I :: "int \<Rightarrow> 'z"
  assumes int64: "is_int64 i \<Longrightarrow> ok (I i) \<and> val (I i) = i"
    and Length_bits: "ok x \<Longrightarrow> bn_Length N x = int_bits (val x)"
    and AsInt64_none: "ok x \<Longrightarrow> \<not> is_int64 (val x) \<Longrightarrow> bn_AsInt64 N x = None"
begin

lemma ten: "ok (bn_int N 10)" "val (bn_int N 10) = 10"
  using int [of 10] by (simp_all add: is_int_def)

lemma times_ten: "ok x \<Longrightarrow> ok (bn_Mul N x (bn_int N 10)) \<and> val (bn_Mul N x (bn_int N 10)) = val x * 10"
  using Mul [of x "bn_int N 10"] ten by simp

lemma Pow10_loop: "ok r \<Longrightarrow> ok (Pow10_loop N n r) \<and> val (Pow10_loop N n r) = val r * 10 ^ n"
  by (induction n arbitrary: r) (simp_all add: times_ten)

lemma explicit_int64: "ok x \<Longrightarrow> explicit_int64 N x = (if is_int64 (val x) then Inr (val x) else Inl E_FAIL)"
  using AsInt64 [of x] AsInt64_none [of x] by (auto simp: explicit_int64_def is_int64_def)

lemma minus:
  assumes "is_int64 (m_val a)" and "is_int64 (m_val b)"
  defines "d \<equiv> m_val a * 10 ^ nat (m_exp a - m_exp b) - m_val b * 10 ^ nat (m_exp b - m_exp a)"
  shows "decimal_minus N I a b = (if is_int64 d then Inr (make_decimal64 d (min (m_exp a) (m_exp b))) else Inl E_FAIL)"
proof -
  have n: "nat (max 0 k) = nat k" for k by simp
  have "ok (Pow10ToInteger N I (m_val a) (max 0 (m_exp a - m_exp b)))"
    "val (Pow10ToInteger N I (m_val a) (max 0 (m_exp a - m_exp b))) = m_val a * 10 ^ nat (m_exp a - m_exp b)"
    "ok (Pow10ToInteger N I (m_val b) (max 0 (m_exp b - m_exp a)))"
    "val (Pow10ToInteger N I (m_val b) (max 0 (m_exp b - m_exp a))) = m_val b * 10 ^ nat (m_exp b - m_exp a)"
    using Pow10_loop int64 [OF assms(1)] int64 [OF assms(2)] by (simp_all add: Pow10ToInteger_def n)
  then obtain r where "bn_Sub N (Pow10ToInteger N I (m_val a) (max 0 (m_exp a - m_exp b)))
      (Pow10ToInteger N I (m_val b) (max 0 (m_exp b - m_exp a))) = Inr r" "ok r" "val r = d"
    using Sub unfolding d_def by metis
  then show ?thesis by (simp add: decimal_minus_def Let_def explicit_int64)
qed

lemma shrink:
  "ok bi \<Longrightarrow> \<exists>q k. decimal_shrink N bi off = Some (Inr (q, off + int k)) \<and> ok q \<and> val q = val bi sdiv 10 ^ k
    \<and> int_bits (val q) < 63 \<and> (int_bits (val bi) < 63 \<longrightarrow> k = 0)"
proof (induction "nat \<bar>val bi\<bar>" arbitrary: bi off rule: less_induct)
  case less
  show ?case
  proof (cases "63 \<le> bn_Length N bi")
    case True
    obtain q r where q: "bn_div N bi (bn_int N 10) = Inr (q, r)" "ok q" "val q = val bi sdiv 10"
      using div [OF less.prems ten(1)] ten(2) by auto
    have "\<not> int_bits (val bi) \<le> 62" using True less.prems by (simp add: Length_bits)
    then have ne: "val bi \<noteq> 0" by (auto simp: int_bits_le fits_def)
    have "\<bar>val bi\<bar> div 10 < \<bar>val bi\<bar>" using ne by (intro int_div_less_self) simp_all
    then have "nat \<bar>val q\<bar> < nat \<bar>val bi\<bar>"
      using ne unfolding q(3) by (simp add: signed_divide_int_def abs_mult)
    from less.hyps [OF this q(2), of "off + 1"] obtain q' k where
      IH: "decimal_shrink N q (off + 1) = Some (Inr (q', off + 1 + int k))" "ok q'" "val q' = val q sdiv 10 ^ k" "int_bits (val q') < 63"
      by blast
    have "decimal_shrink N bi off = Some (Inr (q', off + int (Suc k)))"
      using True by (subst decimal_shrink.simps) (simp add: q(1) IH(1))
    moreover have "val q' = val bi sdiv 10 ^ Suc k" by (simp add: IH(3) q(3) sdiv_sdiv)
    moreover have "\<not> int_bits (val bi) < 63" using True less.prems by (simp add: Length_bits)
    ultimately show ?thesis using IH(2,4) by blast
  next
    case False
    then have "decimal_shrink N bi off = Some (Inr (bi, off + int 0))"
      by (subst decimal_shrink.simps) simp
    moreover have "val bi = val bi sdiv 10 ^ 0" by simp
    moreover have "int_bits (val bi) < 63" using False less.prems by (simp add: Length_bits)
    ultimately show ?thesis using less.prems by blast
  qed
qed

lemma times:
  assumes "is_int64 (m_val a)" and "is_int64 (m_val b)"
  shows "\<exists>k. decimal_times N I a b = Some (Inr (make_decimal64 ((m_val a * m_val b) sdiv 10 ^ k) (m_exp a + m_exp b + int k)))
    \<and> int_bits ((m_val a * m_val b) sdiv 10 ^ k) < 63 \<and> (int_bits (m_val a * m_val b) < 63 \<longrightarrow> k = 0)"
proof -
  have "ok (bn_Mul N (I (m_val a)) (I (m_val b)))" "val (bn_Mul N (I (m_val a)) (I (m_val b))) = m_val a * m_val b"
    using Mul int64 [OF assms(1)] int64 [OF assms(2)] by simp_all
  from shrink [OF this(1), of 0, unfolded this(2)] obtain q k where
    q: "decimal_shrink N (bn_Mul N (I (m_val a)) (I (m_val b))) 0 = Some (Inr (q, int k))" "ok q"
    "val q = (m_val a * m_val b) sdiv 10 ^ k" "int_bits (val q) < 63" "int_bits (m_val a * m_val b) < 63 \<longrightarrow> k = 0" by auto
  have "int_bits (val q) \<le> 62" using q(4) by simp
  then have "is_int64 (val q)" unfolding int_bits_le by (simp add: fits_def is_int64_def)
  then show ?thesis using q by (intro exI [of _ k]) (simp add: decimal_times_def explicit_int64)
qed

end

section \<open>Comparison\<close>

lemma Normalize_loop_norm:
  "0 < M \<Longrightarrow> M < MAX_DECIMAL_M \<Longrightarrow> Normalize_loop M e = (M', e') \<Longrightarrow>
    MAX_DECIMAL_M_DIV_10 \<le> M' \<and> M' < MAX_DECIMAL_M \<and> (\<exists>k. M' = M * 10 ^ k \<and> e' = e - int k \<and> k \<le> 18)"
proof -
  have "0 < M \<Longrightarrow> M < MAX_DECIMAL_M \<Longrightarrow> Normalize_loop M e = (M', e') \<Longrightarrow>
    MAX_DECIMAL_M_DIV_10 \<le> M' \<and> M' < MAX_DECIMAL_M \<and> (\<exists>k. M' = M * 10 ^ k \<and> e' = e - int k)"
  proof (induction M e arbitrary: M' e' rule: Normalize_loop.induct)
    case (1 M e)
    show ?case
    proof (cases "M < MAX_DECIMAL_M_DIV_10")
      case True
      then have "Normalize_loop (M * 10) (e - 1) = (M', e')" "M * 10 < MAX_DECIMAL_M"
        using "1.prems" by (simp_all add: Normalize_loop.simps [of M e] MAX_DECIMAL_M_DIV_10_def MAX_DECIMAL_M_def)
      with "1.IH" True "1.prems"(1) obtain k where
        k: "MAX_DECIMAL_M_DIV_10 \<le> M'" "M' < MAX_DECIMAL_M" "M' = M * 10 * 10 ^ k" "e' = e - 1 - int k" by auto
      then have "M' = M * 10 ^ Suc k \<and> e' = e - int (Suc k)" by simp
      then show ?thesis using k(1,2) by blast
    next
      case False
      then have "M' = M \<and> e' = e" using "1.prems"(3) by (simp add: Normalize_loop.simps [of M e])
      then show ?thesis using False "1.prems"(2) by (auto intro: exI [of _ 0])
    qed
  qed
  moreover assume "0 < M" "M < MAX_DECIMAL_M" "Normalize_loop M e = (M', e')"
  ultimately obtain k where k: "MAX_DECIMAL_M_DIV_10 \<le> M'" "M' < MAX_DECIMAL_M" "M' = M * 10 ^ k" "e' = e - int k" by blast
  have "1 * 10 ^ k \<le> M * 10 ^ k" using \<open>0 < M\<close> by (intro mult_le_mono1) simp
  also have "M * 10 ^ k < 10 ^ 19" using k(2,3) by (simp add: MAX_DECIMAL_M_def)
  finally have "(10 :: nat) ^ k < 10 ^ 19" by simp
  then have "k < 19" by (rule power_less_imp_less_exp [rotated]) simp
  then show ?thesis using k by auto
qed

text \<open>A number is zero, or a sign, a mantissa of nineteen digits and an exponent.\<close>

definition dec_ok :: "decimal64 \<Rightarrow> bool" where
  "dec_ok d \<longleftrightarrow> - (2 ^ 63) < m_val d \<and> m_val d < 2 ^ 63 \<and> \<bar>m_exp d\<bar> < 2 ^ 30"

lemma Normalize_value:
  assumes "dec_ok d"
  shows "nd_Minus (Normalize d) = (m_val d < 0)"
    and "\<bar>dec_value d\<bar> = real (nd_M (Normalize d)) * 10 powi nd_Exp (Normalize d)"
    and "m_val d = 0 \<longrightarrow> nd_M (Normalize d) = 0 \<and> nd_Exp (Normalize d) = - (2 ^ 31)"
    and "m_val d \<noteq> 0 \<longrightarrow> 10 ^ 18 \<le> nd_M (Normalize d) \<and> nd_M (Normalize d) < 10 ^ 19 \<and> - (2 ^ 31) < nd_Exp (Normalize d)"
proof -
  define M where "M = nat \<bar>m_val d\<bar>"
  have M: "nat (if m_val d < 0 then - m_val d else m_val d) = M" by (simp add: M_def)
  have v: "\<bar>dec_value d\<bar> = real M * 10 powi m_exp d" by (simp add: dec_value_def M_def abs_mult)
  show "nd_Minus (Normalize d) = (m_val d < 0)"
    unfolding Normalize_def Let_def case_prod_beta by (rule NormalizedDecimal.select_convs(3))
  have "\<bar>dec_value d\<bar> = real (nd_M (Normalize d)) * 10 powi nd_Exp (Normalize d)
    \<and> (m_val d = 0 \<longrightarrow> nd_M (Normalize d) = 0 \<and> nd_Exp (Normalize d) = - (2 ^ 31))
    \<and> (m_val d \<noteq> 0 \<longrightarrow> 10 ^ 18 \<le> nd_M (Normalize d) \<and> nd_M (Normalize d) < 10 ^ 19 \<and> - (2 ^ 31) < nd_Exp (Normalize d))"
  proof (cases "m_val d = 0")
    case True
    define m :: int where "m = - (2 ^ 31)"
    have "Normalize d = \<lparr>nd_M = 0, nd_Exp = m, nd_Minus = False\<rparr>"
      using True unfolding m_def Normalize_def Let_def case_prod_beta by (simp only: less_irrefl if_False nat_0 if_True fst_conv snd_conv refl)
    then show ?thesis unfolding m_def [symmetric] by (simp add: True dec_value_def)
  next
    case False
    then have pos: "0 < M" by (simp add: M_def)
    have lt: "M < MAX_DECIMAL_M" using assms unfolding M_def dec_ok_def MAX_DECIMAL_M_def by (simp add: nat_less_iff) linarith
    obtain M' e' where l: "Normalize_loop M (m_exp d) = (M', e')" by (cases "Normalize_loop M (m_exp d)")
    from Normalize_loop_norm [OF pos lt l] obtain k where
      k: "MAX_DECIMAL_M_DIV_10 \<le> M'" "M' < MAX_DECIMAL_M" "M' = M * 10 ^ k" "e' = m_exp d - int k" "k \<le> 18" by blast
    have n: "nd_M (Normalize d) = M'" "nd_Exp (Normalize d) = e'"
      using pos lt l by (simp_all add: Normalize_def Let_def M split: prod.split)
    have "10 powi m_exp d = 10 ^ k * (10 :: real) powi e'"
      using scale_add [of "int k" e'] by (simp add: k(4))
    moreover have "- (2 ^ 31) < e'" using assms k(4,5) unfolding dec_ok_def by (simp add: abs_less_iff)
    ultimately show ?thesis
      using k(1-3) False by (simp add: n v MAX_DECIMAL_M_def MAX_DECIMAL_M_DIV_10_def)
  qed
  then show "\<bar>dec_value d\<bar> = real (nd_M (Normalize d)) * 10 powi nd_Exp (Normalize d)"
    "m_val d = 0 \<longrightarrow> nd_M (Normalize d) = 0 \<and> nd_Exp (Normalize d) = - (2 ^ 31)"
    "m_val d \<noteq> 0 \<longrightarrow> 10 ^ 18 \<le> nd_M (Normalize d) \<and> nd_M (Normalize d) < 10 ^ 19 \<and> - (2 ^ 31) < nd_Exp (Normalize d)"
    by blast+
qed

lemma dec_value_neg: "dec_value d < 0 \<longleftrightarrow> m_val d < 0"
proof -
  have "0 < (10 :: real) powi m_exp d" by (rule scale_pos)
  then have "\<not> (10 :: real) powi m_exp d < 0" by linarith
  then show ?thesis by (simp add: dec_value_def mult_less_0_iff)
qed

lemma dec_value_0: "dec_value d = 0 \<longleftrightarrow> m_val d = 0"
  using scale_pos [of "m_exp d"] by (simp add: dec_value_def)

text \<open>Normal forms are ordered by exponent, then by mantissa.\<close>

lemma normal_less:
  assumes "10 ^ 18 \<le> M" "M < 10 ^ 19" "10 ^ 18 \<le> M'" "M' < 10 ^ 19"
  shows "real M * 10 powi e < real M' * 10 powi e' \<longleftrightarrow> e < e' \<or> e = e' \<and> M < M'"
proof -
  have less: "real M * 10 powi e < real M' * 10 powi e'" if "e < e'" "M < 10 ^ 19" "10 ^ 18 \<le> M'" for M M' :: nat and e e' :: int
  proof -
    have "real M * 10 powi e < 10 ^ 19 * 10 powi e" using that(2) by (intro mult_strict_right_mono) simp_all
    also have "\<dots> = 10 ^ 18 * 10 powi (e + 1)" by (simp add: scale_add)
    also have "\<dots> \<le> 10 ^ 18 * 10 powi e'" using that(1) by (intro mult_left_mono power_int_increasing) simp_all
    also have "\<dots> \<le> real M' * 10 powi e'" using that(3) by (intro mult_right_mono) simp_all
    finally show ?thesis .
  qed
  consider "e < e'" | "e = e'" | "e' < e" by linarith
  then show ?thesis
  proof cases
    case 1
    then show ?thesis using less [OF 1 assms(2,3)] by simp
  next
    case 2
    then show ?thesis by simp
  next
    case 3
    then show ?thesis using less [OF 3 assms(4,1)] by simp
  qed
qed

lemma abs_value_less:
  assumes "dec_ok a" and "dec_ok b"
  shows "\<bar>dec_value a\<bar> < \<bar>dec_value b\<bar> \<longleftrightarrow> nd_Exp (Normalize a) < nd_Exp (Normalize b)
    \<or> nd_Exp (Normalize a) = nd_Exp (Normalize b) \<and> nd_M (Normalize a) < nd_M (Normalize b)"
proof -
  note A = Normalize_value [OF assms(1)] and B = Normalize_value [OF assms(2)]
  show ?thesis
  proof (cases "m_val a = 0 \<or> m_val b = 0")
    case True
    then show ?thesis
    proof
      assume "m_val a = 0"
      then show ?thesis using A(3) B(3,4) dec_value_0 [of a] dec_value_0 [of b] by (cases "m_val b = 0") auto
    next
      assume "m_val b = 0"
      then show ?thesis using A(3,4) B(3) dec_value_0 [of b] by (cases "m_val a = 0") auto
    qed
  next
    case False
    then show ?thesis using A(2,4) B(2,4) normal_less by simp
  qed
qed

lemma decimal_eq_value:
  assumes "dec_ok a" and "dec_ok b"
  shows "decimal_eq a b \<longleftrightarrow> dec_value a = dec_value b"
proof -
  note A = Normalize_value [OF assms(1)] and B = Normalize_value [OF assms(2)]
  have "\<bar>dec_value a\<bar> = \<bar>dec_value b\<bar> \<longleftrightarrow> nd_M (Normalize a) = nd_M (Normalize b) \<and> nd_Exp (Normalize a) = nd_Exp (Normalize b)"
  proof
    assume "\<bar>dec_value a\<bar> = \<bar>dec_value b\<bar>"
    then show "nd_M (Normalize a) = nd_M (Normalize b) \<and> nd_Exp (Normalize a) = nd_Exp (Normalize b)"
      using abs_value_less [OF assms] abs_value_less [OF assms(2,1)] by (metis less_irrefl linorder_neqE_nat linorder_neqE)
  qed (simp add: A(2) B(2))
  moreover have "dec_value a = dec_value b \<longleftrightarrow> \<bar>dec_value a\<bar> = \<bar>dec_value b\<bar> \<and> (dec_value a < 0 \<longleftrightarrow> dec_value b < 0)"
    by linarith
  ultimately show ?thesis
    unfolding decimal_eq_def Let_def A(1) B(1) dec_value_neg by blast
qed

lemma decimal_less_value:
  assumes "dec_ok a" and "dec_ok b"
  shows "decimal_less a b \<longleftrightarrow> dec_value a < dec_value b \<or> dec_value a = dec_value b \<and> dec_value a < 0"
proof -
  note A = Normalize_value [OF assms(1)] and B = Normalize_value [OF assms(2)]
  note lt = abs_value_less [OF assms]
  define x where "x = dec_value a"
  define y where "y = dec_value b"
  have "decimal_less a b \<longleftrightarrow> (if (x < 0) \<noteq> (y < 0) then x < 0
      else if x < 0 then \<not> \<bar>x\<bar> < \<bar>y\<bar> else \<bar>x\<bar> < \<bar>y\<bar>)"
    unfolding decimal_less_def Let_def A(1) B(1) x_def y_def dec_value_neg lt by auto
  also have "\<dots> \<longleftrightarrow> x < y \<or> x = y \<and> x < 0" by auto
  finally show ?thesis by (simp add: x_def y_def)
qed

section \<open>Text\<close>

lemma out_int_nonneg: "0 \<le> i \<Longrightarrow> out_int i = decimal_digits (nat i)"
  by (simp add: out_int_def)

lemma digits_value_snoc: "digits_value (ds @ [c]) = 10 * digits_value ds + (c - 48)"
  by (simp add: digits_value_def)

lemma digits_value_append: "digits_value (ds @ fs) = digits_value ds * 10 ^ length fs + digits_value fs"
proof (induction fs rule: rev_induct)
  case (snoc c fs)
  then show ?case
    unfolding append_assoc [symmetric] digits_value_snoc by (simp add: algebra_simps)
qed (simp add: digits_value_def)

lemma decimal_digits:
  "list_all is_digit (decimal_digits n) \<and> digits_value (decimal_digits n) = n \<and> decimal_digits n \<noteq> []"
proof (induction n rule: decimal_digits.induct)
  case (1 n)
  show ?case
  proof (cases "n < 10")
    case True
    then show ?thesis by (simp add: decimal_digits.simps [of n] is_digit_def digits_value_def)
  next
    case False
    then show ?thesis using 1 by (simp add: decimal_digits.simps [of n] digits_value_snoc is_digit_def)
  qed
qed

lemma length_decimal_digits: "n < 10 ^ Suc k \<Longrightarrow> length (decimal_digits n) \<le> Suc k"
proof (induction k arbitrary: n)
  case 0
  then show ?case by (simp add: decimal_digits.simps [of n])
next
  case (Suc k)
  then have "n div 10 < 10 ^ Suc k" by (simp add: less_mult_imp_div_less)
  then show ?case using Suc.IH [of "n div 10"] by (simp add: decimal_digits.simps [of n])
qed

lemma zeros_value: "list_all is_digit (replicate n 48)" "digits_value (replicate n 48) = 0"
proof -
  show "list_all is_digit (replicate n 48)" by (simp add: list_all_iff is_digit_def)
  show "digits_value (replicate n 48) = 0" by (induction n) (simp_all add: digits_value_def)
qed

lemma digits_take: "list_all is_digit ds \<Longrightarrow> \<not> is_digit c \<Longrightarrow> takeWhile is_digit (ds @ c # s) = ds \<and> dropWhile is_digit (ds @ c # s) = c # s"
  by (induction ds) simp_all

lemma digits_take_all:
  assumes "list_all is_digit ds"
  shows "takeWhile is_digit ds = ds" and "dropWhile is_digit ds = []"
  using assms by (induction ds) simp_all

lemma digits_no_sign: "list_all is_digit s \<Longrightarrow> re_sign (s @ t) = ([], s @ t) \<or> s = []"
  by (cases s) (auto simp: re_sign_def is_digit_def)

lemma re_decimal_int:
  assumes "list_all is_digit ds" and "ds \<noteq> []"
  shows "s_reDecimal ds = Some ([], ds, [], None)"
  using digits_no_sign [OF assms(1), of "[]"] assms(2)
  by (simp add: s_reDecimal_def re_fraction_def digits_take_all [OF assms(1)])

lemma re_decimal_fraction:
  assumes "list_all is_digit ds" and "ds \<noteq> []" and "list_all is_digit fs"
  shows "s_reDecimal (ds @ 46 # fs) = Some ([], ds, fs, None)"
proof -
  have "\<not> is_digit 46" by (simp add: is_digit_def)
  from digits_take [OF assms(1) this] show ?thesis
    using digits_no_sign [OF assms(1), of "46 # fs"] assms(2)
    by (simp add: s_reDecimal_def re_fraction_def digits_take_all [OF assms(3)])
qed

lemma stoll_digits:
  assumes "list_all is_digit ds" and "ds \<noteq> []" and "is_int64 (int (digits_value ds))"
  shows "stoll ds = Inr (int (digits_value ds))"
  using digits_no_sign [OF assms(1), of "[]"] assms(2,3) by (simp add: stoll_def signed_value_def)

lemma strip_zeros:
  "strip_zeros n v = (n', v') \<Longrightarrow> n' \<le> n \<and> v = v' * 10 ^ (n - n') \<and> (0 < n' \<longrightarrow> v' smod 10 \<noteq> 0)"
proof (induction n v arbitrary: n' v' rule: strip_zeros.induct)
  case (2 n v)
  show ?case
  proof (cases "v smod 10 = 0")
    case True
    have "v = v sdiv 10 * 10 + v smod 10" by (simp only: sdiv_mult_smod_eq)
    then have v: "v = v sdiv 10 * 10" using True by simp
    from 2 True have "n' \<le> n" "v sdiv 10 = v' * 10 ^ (n - n')" "0 < n' \<longrightarrow> v' smod 10 \<noteq> 0" by simp_all
    moreover from this have "v = v' * 10 ^ (Suc n - n')" by (subst v) (simp add: Suc_diff_le)
    ultimately show ?thesis by simp
  next
    case False
    then show ?thesis using 2 by auto
  qed
qed simp

lemma smod_pow_ne:
  fixes v :: int
  assumes "v smod 10 \<noteq> 0" and "0 < n"
  shows "v smod 10 ^ n \<noteq> 0"
proof
  assume "v smod 10 ^ n = 0"
  then have "v = v sdiv 10 ^ n * 10 ^ n" using sdiv_mult_smod_eq [of v "10 ^ n"] by simp
  then have "10 ^ n dvd v" by (metis dvd_triv_right)
  moreover have "(10 :: int) dvd 10 ^ n" using assms(2) by simp
  ultimately have "10 dvd v" by (rule dvd_trans [rotated])
  then have "\<bar>v\<bar> mod 10 = 0" by simp
  then show False using assms(1) by (simp add: signed_modulo_int_def)
qed

text \<open>What was written is read as an equal number, for numbers that are not negative.\<close>

lemma decimal_print_parse:
  assumes "0 \<le> m_val d" and "is_int64 (m_val d)" and "0 \<le> m_exp d \<longrightarrow> is_int64 (m_val d * 10 ^ nat (m_exp d))"
    and "decimal_print d = Inr s"
  shows "\<exists>d'. decimal_parse s = Inr (Some d') \<and> dec_value d' = dec_value d"
proof (cases "0 \<le> m_exp d")
  case True
  define ds where "ds = decimal_digits (nat (m_val d)) @ replicate (nat (m_exp d)) 48"
  have s: "s = ds" using assms(1,4) True by (simp add: decimal_print_def out_int_def ds_def)
  have d: "list_all is_digit ds" "ds \<noteq> []" using decimal_digits [of "nat (m_val d)"] zeros_value(1) by (simp_all add: ds_def)
  have v: "int (digits_value ds) = m_val d * 10 ^ nat (m_exp d)"
    using decimal_digits [of "nat (m_val d)"] assms(1) by (simp add: ds_def digits_value_append zeros_value(2))
  have "decimal_parse s = Inr (Some (make_decimal64 (m_val d * 10 ^ nat (m_exp d)) 0))"
    using stoll_digits [OF d] assms(3) True by (simp add: s decimal_parse_def re_decimal_int [OF d] v)
  moreover have "(10 :: real) powi m_exp d = 10 ^ nat (m_exp d)" using True by (simp add: power_int_def)
  ultimately show ?thesis by (simp add: dec_value_def make_decimal64_def)
next
  case False
  define n where "n = nat (- m_exp d)"
  have n: "m_exp d = - int n" "0 < n" using False by (simp_all add: n_def)
  obtain k v where st: "strip_zeros n (m_val d) = (k, v)" by (cases "strip_zeros n (m_val d)")
  from strip_zeros [OF this] have k: "k \<le> n" "m_val d = v * 10 ^ (n - k)" by auto
  have p10: "(0 :: int) < 10 ^ (n - k)" by simp
  have v0: "0 \<le> v" using assms(1) p10 unfolding k(2) zero_le_mult_iff by linarith
  have sd: "v sdiv 10 ^ k = v div 10 ^ k" "v smod 10 ^ k = v mod 10 ^ k"
    using v0 by (simp_all add: signed_divide_int_def signed_modulo_int_def sgn_if)
  define ip where "ip = decimal_digits (nat (v div 10 ^ k))"
  define fp where "fp = out_setw k (decimal_digits (nat (v mod 10 ^ k)))"
  have nn: "0 \<le> v div 10 ^ k" "0 \<le> v mod 10 ^ k" "v mod 10 ^ k < 10 ^ k" using v0 by (simp_all add: pos_imp_zdiv_nonneg_iff)
  have s: "s = ip @ 46 # fp"
    using assms(4) False st n(1)
    by (simp add: decimal_print_def Let_def out_int_nonneg [OF nn(1)] out_int_nonneg [OF nn(2)] ip_def fp_def sd split: if_splits)
  have ip: "list_all is_digit ip" "ip \<noteq> []" "int (digits_value ip) = v div 10 ^ k"
    using decimal_digits [of "nat (v div 10 ^ k)"] nn by (simp_all add: ip_def)
  have fp: "list_all is_digit fp" "int (digits_value fp) = v mod 10 ^ k"
    using decimal_digits [of "nat (v mod 10 ^ k)"] nn zeros_value by (simp_all add: fp_def out_setw_def digits_value_append)
  have lfp: "length fp = max 1 k"
  proof (cases k)
    case 0
    then show ?thesis by (simp add: fp_def out_setw_def decimal_digits.simps [of 0])
  next
    case (Suc k')
    have "int (nat (v mod 10 ^ k)) < int (10 ^ Suc k')" using nn(2,3) by (simp add: Suc)
    then have "nat (v mod 10 ^ k) < 10 ^ Suc k'" by (simp only: of_nat_less_iff)
    from length_decimal_digits [OF this] show ?thesis using Suc by (simp add: fp_def out_setw_def)
  qed
  define w where "w = v * 10 ^ (max 1 k - k)"
  have w: "int (digits_value (ip @ fp)) = w"
  proof (cases "k = 0")
    case True
    then show ?thesis using ip(3) fp(2) lfp by (simp add: digits_value_append w_def)
  next
    case False
    then have m: "max 1 k = k" by simp
    have "v = v div 10 ^ k * 10 ^ k + v mod 10 ^ k" by (simp only: div_mult_mod_eq)
    then show ?thesis using ip(3) fp(2) lfp unfolding w_def m by (simp add: digits_value_append)
  qed
  have le: "max 1 k - k \<le> n - k" using n(2) by simp
  have "w \<le> m_val d" unfolding w_def k(2) using v0 le by (intro mult_left_mono power_increasing) simp_all
  moreover have "0 \<le> w" using v0 by (simp add: w_def)
  ultimately have iw: "is_int64 w" using assms(2) by (simp add: is_int64_def)
  have "list_all is_digit (ip @ fp)" "ip @ fp \<noteq> []" using ip fp by simp_all
  from stoll_digits [OF this] have "decimal_parse s = Inr (Some (make_decimal64 w (- int (max 1 k))))"
    using iw w by (simp add: s decimal_parse_def re_decimal_fraction [OF ip(1,2) fp(1)] lfp)
  moreover have "of_int w * 10 powi (- int (max 1 k)) = (of_int (m_val d) * 10 powi m_exp d :: real)"
  proof -
    have "- int k = int (n - k) + m_exp d" "- int k = int (max 1 k - k) + - int (max 1 k)" using k(1) n(1) by (simp_all add: max_def)
    then have "10 ^ (n - k) * 10 powi m_exp d = (10 :: real) powi (- int k)"
      "10 ^ (max 1 k - k) * 10 powi (- int (max 1 k)) = (10 :: real) powi (- int k)"
      using scale_add [of "int (n - k)" "m_exp d"] scale_add [of "int (max 1 k - k)" "- int (max 1 k)"] by (simp_all only: scale_nat)
    then show ?thesis unfolding w_def k(2) by (simp add: mult.assoc)
  qed
  ultimately show ?thesis by (simp add: dec_value_def make_decimal64_def)
qed

text \<open>The sign of a negative number also appears in its fraction, and what was written is not a number.\<close>

lemma decimal_print_negative:
  assumes "m_val d < 0" and "m_exp d < 0" and "\<not> 10 ^ nat (- m_exp d) dvd m_val d" and "decimal_print d = Inr s"
  shows "decimal_parse s = Inr None"
proof -
  define n where "n = nat (- m_exp d)"
  obtain k v where st: "strip_zeros n (m_val d) = (k, v)" by (cases "strip_zeros n (m_val d)")
  from strip_zeros [OF this] have k: "k \<le> n" "m_val d = v * 10 ^ (n - k)" "0 < k \<longrightarrow> v smod 10 \<noteq> 0" by auto
  have "k \<noteq> 0"
  proof
    assume "k = 0"
    then have "10 ^ nat (- m_exp d) dvd m_val d" using k(2) by (simp add: n_def)
    then show False using assms(3) by blast
  qed
  then have ne: "v smod 10 ^ k \<noteq> 0" using k(3) smod_pow_ne by simp
  have v0: "v < 0" using assms(1) k(2) by (simp add: mult_less_0_iff)
  have "v smod 10 ^ k \<le> 0" using v0 by (simp add: signed_modulo_int_def sgn_if)
  then have f: "out_int (v smod 10 ^ k) = 45 # decimal_digits (nat (- (v smod 10 ^ k)))" using ne by (simp add: out_int_def)
  define i where "i = v sdiv 10 ^ k"
  obtain z t where fp: "out_setw k (out_int (v smod 10 ^ k)) = replicate z 48 @ 45 # t" unfolding f by (auto simp: out_setw_def)
  have s: "s = out_int i @ 46 # replicate z 48 @ 45 # t"
    using assms(2,4) st fp by (simp add: decimal_print_def Let_def n_def i_def split: if_splits)
  obtain sg ds where o: "out_int i = sg @ ds" "sg = [] \<or> sg = [45]" "list_all is_digit ds" "ds \<noteq> []"
  proof (cases "i < 0")
    case True
    then show ?thesis using decimal_digits [of "nat (- i)"] that [of "[45]"] by (simp add: out_int_def)
  next
    case False
    then show ?thesis using decimal_digits [of "nat i"] that [of "[]"] by (simp add: out_int_def)
  qed
  have re: "re_sign s = (sg, ds @ 46 # replicate z 48 @ 45 # t)"
  proof (cases "sg = []")
    case True
    then show ?thesis using o digits_no_sign [OF o(3), of "46 # replicate z 48 @ 45 # t"] by (simp add: s)
  next
    case False
    then show ?thesis using o by (simp add: s re_sign_def)
  qed
  have "\<not> is_digit 46" "\<not> is_digit 45" by (simp_all add: is_digit_def)
  from digits_take [OF o(3) this(1)] digits_take [OF zeros_value(1) this(2)] have "s_reDecimal s = None"
    by (simp add: s_reDecimal_def re re_fraction_def split: prod.split)
  then show ?thesis by (simp add: decimal_parse_def)
qed

section \<open>From binary floating point\<close>

text \<open>
  The value of a number \<open>f * 2 ^ (e - 53)\<close>, and the numbers that are rounded to it: those within half of
  the gaps to its neighbours.
\<close>

definition fp_value :: "int \<Rightarrow> int \<Rightarrow> real" where
  "fp_value f e = of_int f * 2 powi (e - 53)"

definition fp_gap_low :: "int \<Rightarrow> int \<Rightarrow> real" where
  "fp_gap_low f e = 2 powi (e - 53 - (if f = 2 ^ 52 then 1 else 0))"

definition fp_gap_high :: "int \<Rightarrow> int \<Rightarrow> real" where
  "fp_gap_high f e = 2 powi (e - 53)"

definition rounds_to :: "real \<Rightarrow> int \<Rightarrow> int \<Rightarrow> bool" where
  "rounds_to x f e \<longleftrightarrow> fp_value f e - fp_gap_low f e / 2 < x \<and> x < fp_value f e + fp_gap_high f e / 2"

text \<open>The comparisons with the interval of a number \<open>(v s + r) 10 P / s\<close>, over the integers.\<close>

lemma scaled_less:
  fixes V g P :: real and S T M X :: int
  assumes "0 < P" and "0 < S" and "V * of_int S = of_int T * P" and "g * of_int S = of_int M * P"
  shows "V - g / 2 < of_int X * P \<longleftrightarrow> 2 * T - M < 2 * S * X"
    and "of_int X * P < V + g / 2 \<longleftrightarrow> 2 * S * X < 2 * T + M"
proof -
  have s: "0 < 2 * real_of_int S" using assms(2) by simp
  have "V - g / 2 < of_int X * P \<longleftrightarrow> 2 * of_int S * (V - g / 2) < 2 * of_int S * (of_int X * P)"
    using s by (rule mult_less_cancel_left_pos [symmetric])
  also have "2 * of_int S * (V - g / 2) = of_int (2 * T - M) * P"
    using assms(3,4) by (simp add: algebra_simps)
  also have "2 * of_int S * (of_int X * P) = of_int (2 * S * X) * P" by simp
  also have "of_int (2 * T - M) * P < of_int (2 * S * X) * P \<longleftrightarrow> 2 * T - M < 2 * S * X"
    using assms(1) by (simp only: mult_less_cancel_right_pos of_int_less_iff)
  finally show "V - g / 2 < of_int X * P \<longleftrightarrow> 2 * T - M < 2 * S * X" .
  have "of_int X * P < V + g / 2 \<longleftrightarrow> 2 * of_int S * (of_int X * P) < 2 * of_int S * (V + g / 2)"
    using s by (rule mult_less_cancel_left_pos [symmetric])
  also have "2 * of_int S * (V + g / 2) = of_int (2 * T + M) * P"
    using assms(3,4) by (simp add: algebra_simps)
  also have "2 * of_int S * (of_int X * P) = of_int (2 * S * X) * P" by simp
  also have "of_int (2 * S * X) * P < of_int (2 * T + M) * P \<longleftrightarrow> 2 * S * X < 2 * T + M"
    using assms(1) by (simp only: mult_less_cancel_right_pos of_int_less_iff)
  finally show "of_int X * P < V + g / 2 \<longleftrightarrow> 2 * S * X < 2 * T + M" .
qed

text \<open>The state in which the digits end, with the remainder of the last one but one.\<close>

definition last_digit :: "int \<Rightarrow> int \<Rightarrow> int \<Rightarrow> int \<Rightarrow> int \<Rightarrow> bool" where
  "last_digit S ml mh r d \<longleftrightarrow> 0 < ml \<and> 0 < mh \<and> 0 \<le> r \<and> r < S \<and> ml \<le> 2 * r \<and> 2 * r + mh \<le> 2 * S
    \<and> (d = 0 \<and> 2 * (10 * r mod S) < 10 * ml \<or> d = 1 \<and> 2 * S - 10 * mh < 2 * (10 * r mod S))"

lemma last_digit_rounds:
  assumes "last_digit S ml mh r d"
  shows "2 * (10 * (v * S + r)) - 10 * ml < 2 * S * (10 * v + 10 * r div S + d)"
    and "2 * S * (10 * v + 10 * r div S + d) < 2 * (10 * (v * S + r)) + 10 * mh"
proof -
  define q where "q = 10 * r div S"
  define t where "t = 10 * r mod S"
  have h: "0 < ml" "0 < mh" "0 < S" "0 \<le> t" "t < S" "d = 0 \<and> 2 * t < 10 * ml \<or> d = 1 \<and> 2 * S - 10 * mh < 2 * t"
    using assms by (auto simp: last_digit_def t_def)
  have e: "10 * r = S * q + t" by (simp add: q_def t_def)
  have m: "2 * S * (10 * v + q + d) = 20 * (v * S) + 2 * (S * q) + 2 * (S * d)" by (simp add: algebra_simps)
  have sd: "S * d = (if d = 0 then 0 else S)" using h(6) by auto
  have "2 * (10 * (v * S + r)) - 10 * ml < 2 * S * (10 * v + q + d)"
    unfolding m sd using h e by (auto split: if_splits)
  moreover have "2 * S * (10 * v + q + d) < 2 * (10 * (v * S + r)) + 10 * mh"
    unfolding m sd using h e by (auto split: if_splits)
  ultimately show "2 * (10 * (v * S + r)) - 10 * ml < 2 * S * (10 * v + 10 * r div S + d)"
    "2 * S * (10 * v + 10 * r div S + d) < 2 * (10 * (v * S + r)) + 10 * mh" by (simp_all add: q_def)
qed

lemma last_digit_shortest:
  assumes "last_digit S ml mh r d"
  shows "\<not> (2 * (10 * (v * S + r)) - 10 * ml < 2 * S * (10 * n) \<and> 2 * S * (10 * n) < 2 * (10 * (v * S + r)) + 10 * mh)"
proof
  assume "2 * (10 * (v * S + r)) - 10 * ml < 2 * S * (10 * n) \<and> 2 * S * (10 * n) < 2 * (10 * (v * S + r)) + 10 * mh"
  moreover have "ml \<le> 2 * r" "2 * r + mh \<le> 2 * S" "0 < S" using assms by (simp_all add: last_digit_def)
  moreover have "2 * S * (10 * n) = 20 * (n * S)" "2 * (10 * (v * S + r)) = 20 * (v * S) + 20 * r" by (simp_all add: algebra_simps)
  ultimately have "v * S < n * S" "n * S < v * S + S" by linarith+
  moreover from this(2) have "n * S < (v + 1) * S" by (simp add: algebra_simps)
  ultimately show False using \<open>0 < S\<close> by (simp only: mult_less_cancel_right_pos)
qed

lemma div_less_bound:
  fixes x S c :: int
  assumes "0 < S" and "x < c * S"
  shows "x div S < c"
proof -
  have "x = x div S * S + x mod S" "0 \<le> x mod S" using assms(1) by simp_all
  then have "x div S * S < c * S" using assms(2) by linarith
  then show ?thesis using assms(1) by (simp only: mult_less_cancel_right_pos)
qed

lemma last_digit_bound:
  assumes "last_digit S ml mh r d" and "0 \<le> v" and "v * S + r \<le> c * mh" and "0 \<le> c"
  shows "10 * v + 10 * r div S + d \<le> 20 * c + 10"
proof -
  have h: "0 \<le> r" "r < S" "mh \<le> 2 * S" "d \<le> 1" "0 < S" using assms(1) by (auto simp: last_digit_def)
  have "v * S \<le> c * mh" using assms(3) h(1) by linarith
  also have "\<dots> \<le> c * (2 * S)" using h(3) assms(4) by (rule mult_left_mono)
  finally have "v * S \<le> (2 * c) * S" by (simp add: mult.assoc mult.left_commute)
  then have "v \<le> 2 * c" using h(5) by (simp only: mult_le_cancel_right_pos)
  moreover have "10 * r div S < 10" using h by (intro div_less_bound) simp_all
  ultimately show ?thesis using h(4) by linarith
qed

lemma last_digit_pos:
  assumes "last_digit S ml mh r d" and "0 \<le> v"
  shows "0 < 10 * v + 10 * r div S + d"
proof (rule ccontr)
  assume "\<not> 0 < 10 * v + 10 * r div S + d"
  then have "2 * S * (10 * v + 10 * r div S + d) \<le> 0"
    using assms(1) by (simp add: last_digit_def mult_le_0_iff)
  moreover have "0 \<le> v * S" "ml \<le> 2 * r" "2 * (10 * (v * S + r)) - 10 * ml < 2 * S * (10 * v + 10 * r div S + d)"
    using assms last_digit_rounds(1) [OF assms(1)] by (simp_all add: last_digit_def)
  ultimately show False by (simp add: algebra_simps)
qed

context bignum64
begin

lemma digit: "ok x \<Longrightarrow> 0 \<le> val x \<Longrightarrow> val x < 10 \<Longrightarrow> explicit_int N x = Inr (val x)"
  using AsInt64 [of x] by (simp add: explicit_int_def is_int_def)

lemma fpp_up:
  "ok s \<Longrightarrow> ok r \<Longrightarrow> ok ml \<Longrightarrow> ok mh \<Longrightarrow> 0 < val r \<Longrightarrow>
    \<exists>i r' ml' mh'. fpp_up N s r ml mh ex = Some (r', ml', mh', ex - int i) \<and> ok r' \<and> ok ml' \<and> ok mh'
      \<and> val r' = val r * 10 ^ i \<and> val ml' = val ml * 10 ^ i \<and> val mh' = val mh * 10 ^ i
      \<and> val s \<le> 10 * val r' \<and> (0 < i \<longrightarrow> val r' < val s)"
proof (induction "nat (val s - val r)" arbitrary: r ml mh ex rule: less_induct)
  case less
  let ?r = "bn_Mul N r (bn_int N 10)"
  have c: "bn_Compare N ?r s < 0 \<longleftrightarrow> val r * 10 < val s" using less.prems times_ten Compare by simp
  show ?case
  proof (cases "val r * 10 < val s")
    case True
    let ?ml = "bn_Mul N ml (bn_int N 10)"
    let ?mh = "bn_Mul N mh (bn_int N 10)"
    have t: "ok ?r" "ok ?ml" "ok ?mh" "val ?r = val r * 10" "val ?ml = val ml * 10" "val ?mh = val mh * 10"
      using times_ten less.prems by simp_all
    have "nat (val s - val ?r) < nat (val s - val r)" "0 < val ?r" using less.prems True t by simp_all
    from less.hyps [OF this(1) less.prems(1) t(1-3) this(2), of "ex - 1"] obtain i r' ml' mh' where
      IH: "fpp_up N s ?r ?ml ?mh (ex - 1) = Some (r', ml', mh', ex - 1 - int i)" "ok r'" "ok ml'" "ok mh'"
        "val r' = val r * 10 * 10 ^ i" "val ml' = val ml * 10 * 10 ^ i" "val mh' = val mh * 10 * 10 ^ i"
        "val s \<le> 10 * val r'" "0 < i \<longrightarrow> val r' < val s"
      unfolding t by blast
    have "fpp_up N s r ml mh ex = Some (r', ml', mh', ex - int (Suc i))"
      using True c IH(1) by (subst fpp_up.simps) (simp add: Let_def)
    moreover have "val r' < val s" using IH(5,9) True by (cases i) simp_all
    ultimately show ?thesis using IH by (intro exI [of _ "Suc i"] exI [of _ r'] exI [of _ ml'] exI [of _ mh']) simp
  next
    case False
    then have "fpp_up N s r ml mh ex = Some (r, ml, mh, ex - int 0)"
      using c by (subst fpp_up.simps) (simp add: Let_def)
    then show ?thesis using less.prems False by (intro exI [of _ 0] exI [of _ r] exI [of _ ml] exI [of _ mh]) simp
  qed
qed

lemma fpp_down:
  "ok r \<Longrightarrow> ok mh \<Longrightarrow> ok s \<Longrightarrow> 0 < val s \<Longrightarrow>
    \<exists>i s'. fpp_down N r mh s ex = Some (Inr (s', ex + int i)) \<and> ok s' \<and> val s' = val s * 10 ^ i
      \<and> 2 * val r + val mh < 2 * val s' \<and> (0 < i \<longrightarrow> val s' \<le> 5 * (2 * val r + val mh))"
proof (induction "nat (2 * val r + val mh - val s)" arbitrary: s ex rule: less_induct)
  case less
  have sh: "ok (bn_shl N r 1)" "val (bn_shl N r 1) = 2 * val r" "ok (bn_shl N s 1)" "val (bn_shl N s 1) = 2 * val s"
    using shl less.prems by simp_all
  obtain t where t: "bn_Add N (bn_shl N r 1) mh = Inr t" "ok t" "val t = 2 * val r + val mh"
    using Add [OF sh(1) less.prems(2)] sh(2) by auto
  have c: "bn_Compare N t (bn_shl N s 1) < 0 \<longleftrightarrow> 2 * val r + val mh < 2 * val s"
    using Compare [OF t(2) sh(3)] t(3) sh(4) by simp
  show ?case
  proof (cases "2 * val r + val mh < 2 * val s")
    case True
    then have "fpp_down N r mh s ex = Some (Inr (s, ex + int 0))"
      using c t(1) by (subst fpp_down.simps) simp
    then show ?thesis using less.prems True by (intro exI [of _ 0] exI [of _ s]) simp
  next
    case False
    let ?s = "bn_Mul N s (bn_int N 10)"
    have v: "ok ?s" "val ?s = val s * 10" using times_ten less.prems by simp_all
    have "nat (2 * val r + val mh - val ?s) < nat (2 * val r + val mh - val s)" "0 < val ?s"
      using False less.prems v by simp_all
    from less.hyps [OF this(1) less.prems(1,2) v(1) this(2), of "ex + 1"] obtain i s' where
      IH: "fpp_down N r mh ?s (ex + 1) = Some (Inr (s', ex + 1 + int i))" "ok s'" "val s' = val s * 10 * 10 ^ i"
        "2 * val r + val mh < 2 * val s'" "0 < i \<longrightarrow> val s' \<le> 5 * (2 * val r + val mh)"
      unfolding v by blast
    have "fpp_down N r mh s ex = Some (Inr (s', ex + int (Suc i)))"
      using False c t(1) IH(1) by (subst fpp_down.simps) (simp add: add.assoc)
    moreover have "val s' \<le> 5 * (2 * val r + val mh)" using IH(3,5) False by (cases i) simp_all
    ultimately show ?thesis using IH by (intro exI [of _ "Suc i"] exI [of _ s']) simp
  qed
qed

end

context bignum64
begin

lemma fpp_digits:
  "ok s \<Longrightarrow> ok r \<Longrightarrow> ok ml \<Longrightarrow> ok mh \<Longrightarrow> 0 \<le> val r \<Longrightarrow> val r < val s \<Longrightarrow> 0 < val ml \<Longrightarrow> 0 < val mh
    \<Longrightarrow> val ml \<le> 2 * val r \<Longrightarrow> 2 * val r + val mh \<le> 2 * val s \<Longrightarrow> 0 \<le> v \<Longrightarrow>
    \<exists>j v0 r0 d. fpp_digits N s r ml mh v ex = Some (Inr (make_decimal64 (10 * v0 + 10 * r0 div val s + d) (ex - int j - 1)))
      \<and> 0 \<le> v0 \<and> v0 * val s + r0 = (v * val s + val r) * 10 ^ j
      \<and> last_digit (val s) (val ml * 10 ^ j) (val mh * 10 ^ j) r0 d"
proof (induction "nat (2 * val s - val ml)" arbitrary: r ml mh v ex rule: less_induct)
  case less
  note P = less.prems
  let ?ml = "bn_Mul N ml (bn_int N 10)"
  let ?mh = "bn_Mul N mh (bn_int N 10)"
  let ?q = "10 * val r div val s"
  let ?t = "10 * val r mod val s"
  have m: "ok ?ml" "ok ?mh" "val ?ml = 10 * val ml" "val ?mh = 10 * val mh" using times_ten P(3,4) by simp_all
  have s0: "0 < val s" using P(5,6) by linarith
  have r10: "ok (bn_Mul N r (bn_int N 10))" "val (bn_Mul N r (bn_int N 10)) = 10 * val r" using times_ten P(2) by simp_all
  obtain a b where ab: "bn_div N (bn_Mul N r (bn_int N 10)) s = Inr (a, b)" "ok a" "ok b" "val a = ?q" "val b = ?t"
    using div [OF r10(1) P(1)] s0 P(5) by (auto simp: r10(2) sdiv_nonneg smod_mod_positive)
  have q: "0 \<le> ?q" "?q < 10" "0 \<le> ?t" "?t < val s"
    using P(5,6) s0 div_less_bound [OF s0, of "10 * val r" 10] by (simp_all add: pos_imp_zdiv_nonneg_iff)
  have d: "explicit_int N a = Inr ?q" using digit [OF ab(2)] q ab(4) by simp
  have sh: "ok (bn_shl N b 1)" "val (bn_shl N b 1) = 2 * ?t" "ok (bn_shl N s 1)" "val (bn_shl N s 1) = 2 * val s"
    using shl ab P(1) by simp_all
  obtain l where l: "bn_Sub N (bn_shl N s 1) ?mh = Inr l" "ok l" "val l = 2 * val s - 10 * val mh"
    using Sub [OF sh(3) m(2)] sh(4) m(4) by auto
  define low where "low \<longleftrightarrow> 2 * ?t < 10 * val ml"
  define high where "high \<longleftrightarrow> 2 * val s - 10 * val mh < 2 * ?t"
  have c: "bn_Compare N (bn_shl N b 1) ?ml < 0 \<longleftrightarrow> low" "bn_Compare N l (bn_shl N b 1) < 0 \<longleftrightarrow> high"
    "bn_Compare N (bn_shl N b 1) s < 0 \<longleftrightarrow> 2 * ?t < val s"
    using Compare sh m l P(1) by (simp_all add: low_def high_def)
  have step: "fpp_digits N s r ml mh v ex = (if \<not> low \<and> \<not> high then fpp_digits N s b ?ml ?mh (v * 10 + ?q) (ex - 1)
      else Some (Inr (make_decimal64 (v * 10 + ?q + (if high \<and> (\<not> low \<or> \<not> 2 * ?t < val s) then 1 else 0)) (ex - 1))))"
    by (subst fpp_digits.simps) (simp add: Let_def ab(1) d l(1) c del: One_nat_def)
  show ?case
  proof (cases "\<not> low \<and> \<not> high")
    case True
    have dec: "nat (2 * val s - val ?ml) < nat (2 * val s - val ml)" using P(7,9,6) m(3) by simp
    have H: "0 \<le> val b" "val b < val s" "0 < val ?ml" "0 < val ?mh" "val ?ml \<le> 2 * val b" "2 * val b + val ?mh \<le> 2 * val s"
      using q P(7,8) True ab(5) m by (simp_all add: low_def high_def)
    have v: "0 \<le> v * 10 + ?q" using P(11) q(1) by simp
    have "\<exists>j v0 r0 d. fpp_digits N s b ?ml ?mh (v * 10 + ?q) (ex - 1) = Some (Inr (make_decimal64 (10 * v0 + 10 * r0 div val s + d) (ex - 1 - int j - 1)))
      \<and> 0 \<le> v0 \<and> v0 * val s + r0 = ((v * 10 + ?q) * val s + val b) * 10 ^ j
      \<and> last_digit (val s) (val ?ml * 10 ^ j) (val ?mh * 10 ^ j) r0 d"
      by (rule less.hyps [OF dec P(1) ab(3) m(1,2) H v, of "ex - 1"])
    then obtain j v0 r0 d where
      IH: "fpp_digits N s b ?ml ?mh (v * 10 + ?q) (ex - 1) = Some (Inr (make_decimal64 (10 * v0 + 10 * r0 div val s + d) (ex - 1 - int j - 1)))"
        "0 \<le> v0" "v0 * val s + r0 = ((v * 10 + ?q) * val s + val b) * 10 ^ j"
        "last_digit (val s) (val ?ml * 10 ^ j) (val ?mh * 10 ^ j) r0 d"
      by blast
    have "(v * 10 + q) * S + t = 10 * (v * S) + (q * S + t)" for q S t :: int by (simp add: algebra_simps)
    then have "(v * 10 + ?q) * val s + val b = 10 * (v * val s) + (?q * val s + ?t)" unfolding ab(5) .
    also have "\<dots> = 10 * (v * val s + val r)" by (simp only: div_mult_mod_eq distrib_left)
    finally have "v0 * val s + r0 = (v * val s + val r) * 10 ^ Suc j" using IH(3) by simp
    moreover note IH(2)
    moreover have "last_digit (val s) (val ml * 10 ^ Suc j) (val mh * 10 ^ Suc j) r0 d"
      using IH(4) by (simp add: m mult.assoc mult.left_commute)
    moreover have "ex - 1 - int j - 1 = ex - int (Suc j) - 1" by simp
    then have "fpp_digits N s r ml mh v ex = Some (Inr (make_decimal64 (10 * v0 + 10 * r0 div val s + d) (ex - int (Suc j) - 1)))"
      using IH(1) True unfolding step by (simp only: if_True simp_thms)
    ultimately show ?thesis by (intro exI [of _ "Suc j"] exI [of _ v0] exI [of _ r0] exI [of _ d] conjI)
  next
    case False
    define d where "d = (if high \<and> (\<not> low \<or> \<not> 2 * ?t < val s) then 1 else 0 :: int)"
    have "d = 0 \<and> low \<or> d = 1 \<and> high" using False by (auto simp: d_def)
    then have "last_digit (val s) (val ml * 10 ^ 0) (val mh * 10 ^ 0) (val r) d"
      using P by (simp add: last_digit_def low_def high_def)
    moreover have "fpp_digits N s r ml mh v ex = Some (Inr (make_decimal64 (10 * v + ?q + d) (ex - int 0 - 1)))"
      using step False by (simp add: d_def mult.commute)
    moreover have "v * val s + val r = (v * val s + val r) * 10 ^ 0" by simp
    ultimately show ?thesis using P(11) by blast
  qed
qed

end

lemma two_add: "(2 :: real) powi (a + b) = 2 powi a * 2 powi b"
  by (rule power_int_add) simp

lemma scale_digits: "10 * (of_int R * 10 ^ i * 10 ^ j) * 10 powi (int k - int i - int j - 1) = (of_int R * 10 ^ k :: real)"
proof -
  have "(10 :: real) powi int k = 10 powi 1 * 10 powi int i * 10 powi int j * 10 powi (int k - int i - int j - 1)"
    unfolding scale_add [symmetric] by simp
  then show ?thesis by simp
qed

context bignum64
begin

lemma of_double:
  assumes "2 ^ 52 \<le> f" and "f < 2 ^ 53"
  shows "\<exists>d. decimal_of_double N I (FP_FINITE ng f e) = Some (Inr (if ng then decimal_neg d else d))
    \<and> rounds_to (dec_value d) f e \<and> (\<forall>n k. m_exp d < k \<longrightarrow> \<not> rounds_to (of_int n * 10 powi k) f e)
    \<and> 0 < m_val d \<and> m_val d < 10 ^ 18"
proof -
  define A where "A = nat (max 0 (e - 53))"
  define B where "B = nat (max 0 (53 - e))"
  define off :: nat where "off = (if f = 2 ^ 52 then 1 else 0)"
  have f0: "0 < f" using assms(1) by (rule less_le_trans [rotated]) simp
  have "is_int64 f" using assms unfolding is_int64_def by simp
  note F = int64 [OF this] and one = int [of 1, unfolded is_int_def, simplified]
  let ?ml = "bn_shl N (bn_int N 1) A"
  let ?r = "bn_shl N (I f) (off + A)"
  let ?s = "bn_shl N (bn_int N 1) (off + B)"
  let ?mh = "bn_shl N ?ml off"
  have o: "ok ?ml" "ok ?r" "ok ?s" "ok ?mh" "val ?ml = 2 ^ A" "val ?r = f * 2 ^ (off + A)" "val ?s = 2 ^ (off + B)"
    "val ?mh = 2 ^ (off + A)"
    using shl F one by (simp_all add: power_add mult.commute)
  have "0 < val ?r" using f0 by (simp add: o(6))
  from fpp_up [OF o(3,2,1,4) this, of 0] obtain i r ml mh where
    up: "fpp_up N ?s ?r ?ml ?mh 0 = Some (r, ml, mh, 0 - int i)" "ok r" "ok ml" "ok mh"
    "val r = f * 2 ^ (off + A) * 10 ^ i" "val ml = 2 ^ A * 10 ^ i" "val mh = 2 ^ (off + A) * 10 ^ i"
    unfolding o(5-8) by blast
  have "0 < val ?s" by (simp add: o(7))
  from fpp_down [OF up(2,4) o(3) this, of "0 - int i"] obtain k s where
    down: "fpp_down N r mh ?s (0 - int i) = Some (Inr (s, 0 - int i + int k))" "ok s" "val s = 2 ^ (off + B) * 10 ^ k"
    "2 * val r + val mh < 2 * val s" unfolding o(7) by blast
  have rmh: "val r = f * val mh" by (simp add: up(5,7))
  have mlh: "val ml \<le> val mh" by (simp add: up(6,7) power_add)
  have pos: "0 < val ml" "0 < val mh" by (simp_all add: up(6,7))
  have "1 * val mh \<le> f * val mh" using f0 pos(2) by (intro mult_right_mono) simp_all
  then have "val mh \<le> val r" by (simp add: rmh)
  then have "0 \<le> val r" "val r < val s" "val ml \<le> 2 * val r" "2 * val r + val mh \<le> 2 * val s"
    using down(4) mlh pos by linarith+
  from fpp_digits [OF down(2) up(2,3,4) this(1,2) pos this(3,4), of 0 "0 - int i + int k"] obtain j v0 r0 d where
    dg: "fpp_digits N s r ml mh 0 (0 - int i + int k) =
        Some (Inr (make_decimal64 (10 * v0 + 10 * r0 div val s + d) (0 - int i + int k - int j - 1)))"
      "0 \<le> v0" "v0 * val s + r0 = val r * 10 ^ j" "last_digit (val s) (val ml * 10 ^ j) (val mh * 10 ^ j) r0 d"
    by auto
  define X where "X = 10 * v0 + 10 * r0 div val s + d"
  define E where "E = int k - int i - int j - 1"
  have E: "0 - int i + int k - int j - 1 = E" by (simp add: E_def)
  have s0: "0 < val s" using \<open>0 \<le> val r\<close> \<open>val r < val s\<close> by linarith
  have run: "decimal_of_double N I (FP_FINITE ng f e) = Some (Inr (if ng then decimal_neg (make_decimal64 X E) else make_decimal64 X E))"
  proof -
    have p: "(53 :: nat) - 1 = 52" by simp
    show ?thesis
      unfolding decimal_of_double_def Let_def double.case of_nat_numeral p
      unfolding A_def [symmetric] B_def [symmetric] off_def [symmetric] up(1) option.case prod.case down(1) sum.case
        dg(1) [folded X_def, unfolded E]
      by (simp add: decimal_neg_def)
  qed
  have two: "2 powi (e - 53) * 2 ^ B = (2 :: real) ^ A"
  proof -
    have "e - 53 + int B = int A" by (simp add: A_def B_def)
    then have "(2 :: real) powi (e - 53) * 2 powi int B = 2 powi int A" by (simp only: two_add [symmetric])
    then show ?thesis by (simp only: power_int_of_nat)
  qed
  have low: "2 powi (e - 53 - int off) * 2 ^ (off + B) = (2 :: real) ^ A"
    using two two_add [of "e - 53 - int off" "int off"] by (simp add: power_add mult.assoc)
  have off: "int off = (if f = 2 ^ 52 then 1 else 0)" by (simp add: off_def)
  have P: "0 < (10 :: real) powi E" by simp
  note sc = scale_digits [of _ i j k, folded E_def]
  have V: "fp_value f e * of_int (val s) = of_int (10 * (v0 * val s + r0)) * 10 powi E"
  proof -
    have "fp_value f e * of_int (val s) = of_int f * (2 powi (e - 53) * 2 ^ B) * 2 ^ off * 10 ^ k"
      by (simp add: fp_value_def down(3) power_add)
    also have "\<dots> = of_int (f * 2 ^ (off + A)) * 10 ^ k" by (simp add: two power_add)
    also have "\<dots> = 10 * (of_int (f * 2 ^ (off + A)) * 10 ^ i * 10 ^ j) * 10 powi E" by (rule sc [symmetric])
    finally show ?thesis by (simp add: dg(3) up(5))
  qed
  have gl: "fp_gap_low f e * of_int (val s) = of_int (10 * (val ml * 10 ^ j)) * 10 powi E"
  proof -
    have "fp_gap_low f e * of_int (val s) = 2 powi (e - 53 - int off) * 2 ^ (off + B) * 10 ^ k"
      unfolding fp_gap_low_def off [symmetric] by (simp add: down(3))
    also have "\<dots> = of_int (2 ^ A) * 10 ^ k" by (simp add: low)
    also have "\<dots> = 10 * (of_int (2 ^ A) * 10 ^ i * 10 ^ j) * 10 powi E" by (rule sc [symmetric])
    finally show ?thesis by (simp add: up(6))
  qed
  have gh: "fp_gap_high f e * of_int (val s) = of_int (10 * (val mh * 10 ^ j)) * 10 powi E"
  proof -
    have "fp_gap_high f e * of_int (val s) = (2 powi (e - 53) * 2 ^ B) * 2 ^ off * 10 ^ k"
      by (simp add: fp_gap_high_def down(3) power_add)
    also have "\<dots> = of_int (2 ^ (off + A)) * 10 ^ k" by (simp add: two power_add)
    also have "\<dots> = 10 * (of_int (2 ^ (off + A)) * 10 ^ i * 10 ^ j) * 10 powi E" by (rule sc [symmetric])
    finally show ?thesis by (simp add: up(7))
  qed
  have iff: "rounds_to (of_int Y * 10 powi E) f e \<longleftrightarrow>
      2 * (10 * (v0 * val s + r0)) - 10 * (val ml * 10 ^ j) < 2 * val s * Y
      \<and> 2 * val s * Y < 2 * (10 * (v0 * val s + r0)) + 10 * (val mh * 10 ^ j)" for Y
    unfolding rounds_to_def scaled_less(1) [OF P s0 V gl] scaled_less(2) [OF P s0 V gh] ..
  have "rounds_to (of_int X * 10 powi E) f e"
    unfolding iff X_def using last_digit_rounds [OF dg(4)] by blast
  moreover have "\<not> rounds_to (of_int n * 10 powi k') f e" if "E < k'" for n k'
  proof -
    define m where "m = nat (k' - E - 1)"
    have "k' = 1 + int m + E" using that by (simp add: m_def)
    then have "(10 :: real) powi k' = 10 powi (1 + int m + E)" by (rule arg_cong)
    also have "\<dots> = 10 powi 1 * 10 powi int m * 10 powi E" by (simp only: scale_add)
    finally have K: "of_int n * 10 powi k' = of_int (10 * (n * 10 ^ m)) * (10 :: real) powi E" by simp
    show ?thesis unfolding K iff by (rule last_digit_shortest [OF dg(4)])
  qed
  moreover have "0 < X" unfolding X_def using dg(4,2) by (rule last_digit_pos)
  moreover have "X < 10 ^ 18"
  proof -
    have "v0 * val s + r0 \<le> f * (val mh * 10 ^ j)" using dg(3) by (simp add: rmh)
    then have "X \<le> 20 * f + 10" unfolding X_def using last_digit_bound [OF dg(4,2)] f0 by simp
    then show ?thesis using assms(2) by simp
  qed
  ultimately show ?thesis
    using run by (intro exI [of _ "make_decimal64 X E"]) (simp add: dec_value_def make_decimal64_def)
qed

end

section \<open>The numbers of the code\<close>

definition int64_big :: "int \<Rightarrow> bigint" where
  "int64_big i = BigInteger_int64 (word_of_int i)"

interpretation dec: bignum64 bigint_ops bi_ok bi_val int64_big
proof
  fix i x
  show "bi_ok (int64_big i) \<and> bi_val (int64_big i) = i" if "is_int64 i"
  proof -
    have "(i + 2 ^ 63) mod 2 ^ 64 = i + 2 ^ 63"
      using that unfolding is_int64_def by (intro mod_pos_pos_trivial) simp_all
    then have "sint (word_of_int i :: u64) = i" by (simp add: int_word_sint)
    then show ?thesis by (simp add: int64_big_def BigInteger_int64_def)
  qed
  show "bn_Length bigint_ops x = int_bits (bi_val x)" if "bi_ok x"
    using bi_Length [OF that] by (simp add: bigint_ops_def)
  show "bn_AsInt64 bigint_ops x = None" if "bi_ok x" and "\<not> is_int64 (bi_val x)"
  proof -
    have "\<not> int_bits (bi_val x) \<le> 63" using that(2) unfolding int_bits_le by (simp add: fits_def is_int64_def)
    then have "64 \<le> int_bits (bi_val x)" by simp
    then have "1 \<le> int_bits (bi_val x) div 64" using div_le_mono [of 64 "int_bits (bi_val x)" 64] by simp
    then have "1 < bi_count x" unfolding int_bits_count [OF that(1)] by simp
    then show ?thesis by (simp add: bigint_ops_def AsInt64_def)
  qed
qed



text \<open>
  C26: numbers compare by their values, whatever their exponents: \<open>==\<close> is equality of values, and
  \<open><\<close> their order, except that it holds of two equal numbers when they are negative.
\<close>
theorem decimal_comparison:
  assumes "dec_ok a" and "dec_ok b"
  shows "(decimal_eq a b \<longleftrightarrow> dec_value a = dec_value b)
    \<and> (decimal_less a b \<longleftrightarrow> dec_value a < dec_value b \<or> dec_value a = dec_value b \<and> dec_value a < 0)"
  using decimal_eq_value [OF assms] decimal_less_value [OF assms] by blast

lemma decimal_comparison_witness:
  "decimal_less (make_decimal64 (-1) 0) (make_decimal64 (-10) (-1))
    \<and> decimal_eq (make_decimal64 (-1) 0) (make_decimal64 (-10) (-1))"
  using decimal_comparison [of "make_decimal64 (-1) 0" "make_decimal64 (-10) (-1)"]
  by (simp add: dec_ok_def make_decimal64_def dec_value_def power_int_minus)

text \<open>
  subtraction is exact, at the smaller exponent, or fails when that does not fit 64 bits.
  Multiplication ends, and drops just as many digits, towards zero, as it takes to fit; its result
  is within a unit of the last place.
\<close>
theorem decimal_arithmetic:
  assumes "is_int64 (m_val a)" and "is_int64 (m_val b)"
  shows "(case decimal_minus bigint_ops int64_big a b of Inr d \<Rightarrow> dec_value d = dec_value a - dec_value b
      | Inl e \<Rightarrow> e = E_FAIL \<and> \<not> is_int64 (m_val a * 10 ^ nat (m_exp a - m_exp b) - m_val b * 10 ^ nat (m_exp b - m_exp a)))
    \<and> (\<exists>d. decimal_times bigint_ops int64_big a b = Some (Inr d) \<and> is_int64 (m_val d)
      \<and> \<bar>dec_value a * dec_value b - dec_value d\<bar> < 10 powi m_exp d
      \<and> (int_bits (m_val a * m_val b) < 63 \<longrightarrow> dec_value d = dec_value a * dec_value b))"
  (is "?minus \<and> ?times")
proof
  define n where "n = nat (m_exp a - m_exp b)"
  define m where "m = nat (m_exp b - m_exp a)"
  define e where "e = min (m_exp a) (m_exp b)"
  have "m_exp a = int n + e" "m_exp b = int m + e" by (simp_all add: n_def m_def e_def)
  then have s: "(10 :: real) powi m_exp a = 10 ^ n * 10 powi e" "(10 :: real) powi m_exp b = 10 ^ m * 10 powi e"
    by (simp_all only: scale_add scale_nat)
  have "dec_value (make_decimal64 (m_val a * 10 ^ n - m_val b * 10 ^ m) e) = dec_value a - dec_value b"
    unfolding dec_value_def s by (simp add: make_decimal64_def algebra_simps)
  then show ?minus using dec.minus [OF assms] by (simp add: n_def m_def e_def)
  define p where "p = m_val a * m_val b"
  obtain k where k: "decimal_times bigint_ops int64_big a b = Some (Inr (make_decimal64 (p sdiv 10 ^ k) (m_exp a + m_exp b + int k)))"
    "int_bits (p sdiv 10 ^ k) < 63" "int_bits p < 63 \<longrightarrow> k = 0"
    using dec.times [OF assms] unfolding p_def by blast
  have "int_bits (p sdiv 10 ^ k) \<le> 62" using k(2) by simp
  then have fit: "is_int64 (p sdiv 10 ^ k)" unfolding int_bits_le by (simp add: fits_def is_int64_def)
  have v: "dec_value a * dec_value b = of_int p * 10 powi (m_exp a + m_exp b)"
    by (simp add: dec_value_def p_def scale_add)
  define E where "E = m_exp a + m_exp b"
  have "\<bar>of_int p * 10 powi E - of_int (p sdiv 10 ^ k) * 10 powi (E + int k)\<bar>
      = \<bar>real_of_int (p - p sdiv 10 ^ k * 10 ^ k)\<bar> * 10 powi E"
  proof -
    have "of_int p * 10 powi E - of_int (p sdiv 10 ^ k) * 10 powi (E + int k)
        = real_of_int (p - p sdiv 10 ^ k * 10 ^ k) * 10 powi E"
      unfolding scale_add scale_nat by (simp add: algebra_simps)
    then show ?thesis by (simp only: abs_mult) (simp add: abs_of_pos)
  qed
  also have "\<dots> < 10 ^ k * 10 powi E"
  proof (intro mult_strict_right_mono)
    have "\<bar>p - p sdiv 10 ^ k * 10 ^ k\<bar> < 10 ^ k" by (rule sdiv_error) simp
    then have "real_of_int \<bar>p - p sdiv 10 ^ k * 10 ^ k\<bar> < real_of_int (10 ^ k)" by (simp only: of_int_less_iff)
    then show "\<bar>real_of_int (p - p sdiv 10 ^ k * 10 ^ k)\<bar> < 10 ^ k" by simp
  qed simp
  also have "\<dots> = 10 powi (E + int k)" unfolding scale_add scale_nat by (rule mult.commute)
  finally have "\<bar>dec_value a * dec_value b - dec_value (make_decimal64 (p sdiv 10 ^ k) (E + int k))\<bar> < 10 powi (E + int k)"
    unfolding v E_def [symmetric] by (simp add: dec_value_def make_decimal64_def)
  moreover have "int_bits p < 63 \<longrightarrow> dec_value (make_decimal64 (p sdiv 10 ^ k) (E + int k)) = dec_value a * dec_value b"
    using k(3) unfolding v E_def [symmetric] by (auto simp: dec_value_def make_decimal64_def)
  ultimately show ?times using k(1) fit unfolding p_def [symmetric] E_def [symmetric]
    by (intro exI [of _ "make_decimal64 (p sdiv 10 ^ k) (E + int k)"]) (simp add: make_decimal64_def)
qed

lemma decimal_arithmetic_witness:
  "\<exists>d. decimal_times bigint_ops int64_big (make_decimal64 15 (-1)) (make_decimal64 3 2) = Some (Inr d) \<and> dec_value d = 450"
proof -
  define a where "a = make_decimal64 15 (-1)"
  define b where "b = make_decimal64 3 2"
  have "is_int64 (m_val a)" "is_int64 (m_val b)" by (simp_all add: a_def b_def make_decimal64_def is_int64_def)
  moreover have "int_bits (m_val a * m_val b) < 63"
    using int_bits_le [of 45 62] by (simp add: a_def b_def make_decimal64_def fits_def)
  moreover have "dec_value a * dec_value b = 450" by (simp add: a_def b_def make_decimal64_def dec_value_def power_int_minus)
  ultimately show ?thesis using decimal_arithmetic [of a b] unfolding a_def [symmetric] b_def [symmetric] by auto
qed

text \<open>
  conversion to an integer multiplies out a power of ten, and fails exactly if the value does not fit 64
  bits; a fraction is cut off towards zero.
\<close>
theorem decimal_to_integer:
  assumes "- (2 ^ 63) < m_val d" and "m_val d < 2 ^ 63"
  shows "decimal_to_long_long d = (if m_exp d < 0 then Inr (m_val d sdiv 10 ^ nat (- m_exp d))
    else if is_int64 (m_val d * 10 ^ nat (m_exp d)) then Inr (m_val d * 10 ^ nat (m_exp d)) else Inl E_INVALIDARG)"
  using long_long_up [OF assms] by (simp add: decimal_to_long_long_def long_long_down)

lemma decimal_to_integer_witness:
  "decimal_to_long_long (make_decimal64 (-1999) (-3)) = Inr (-1)"
  using decimal_to_integer [of "make_decimal64 (-1999) (-3)"]
  by (simp add: make_decimal64_def)

text \<open>
  a number that is not negative and fits 64 bits is read back from what was written as an equal number.
\<close>
theorem decimal_text_roundtrip:
  assumes "0 \<le> m_val d" and "is_int64 (m_val d)" and "0 \<le> m_exp d \<longrightarrow> is_int64 (m_val d * 10 ^ nat (m_exp d))"
    and "decimal_print d = Inr s"
  shows "\<exists>d'. decimal_parse s = Inr (Some d') \<and> dec_value d' = dec_value d"
  using assms by (rule decimal_print_parse)

lemma decimal_text_roundtrip_witness:
  "\<exists>d'. decimal_parse [49, 46, 48, 53] = Inr (Some d') \<and> dec_value d' = dec_value (make_decimal64 1050 (-3))"
proof (rule decimal_text_roundtrip)
  have "strip_zeros 3 1050 = (2, 105)" by (simp add: numeral_3_eq_3)
  then show "decimal_print (make_decimal64 1050 (-3)) = Inr [49, 46, 48, 53]"
    by (simp add: decimal_print_def make_decimal64_def out_int_def out_setw_def decimal_digits.simps)
qed (simp_all add: make_decimal64_def is_int64_def)

text \<open>
  the sign of a negative number appears again in its fraction, and what was written is refused on reading.
\<close>
theorem decimal_negative_text:
  assumes "m_val d < 0" and "m_exp d < 0" and "\<not> 10 ^ nat (- m_exp d) dvd m_val d" and "decimal_print d = Inr s"
  shows "decimal_parse s = Inr None"
  using assms by (rule decimal_print_negative)

lemma decimal_negative_text_witness:
  "decimal_print (make_decimal64 (-15) (-1)) = Inr [45, 49, 46, 45, 53] \<and> decimal_parse [45, 49, 46, 45, 53] = Inr None"
proof
  have "strip_zeros (Suc 0) (-15) = (1, -15)" by simp
  then show p: "decimal_print (make_decimal64 (-15) (-1)) = Inr [45, 49, 46, 45, 53]"
    by (simp add: decimal_print_def make_decimal64_def out_int_def out_setw_def decimal_digits.simps)
  have "m_val (make_decimal64 (-15) (-1)) < 0" "m_exp (make_decimal64 (-15) (-1)) < 0"
    "\<not> 10 ^ nat (- m_exp (make_decimal64 (-15) (-1))) dvd m_val (make_decimal64 (-15) (-1))"
    by (simp_all add: make_decimal64_def)
  from decimal_negative_text [OF this p] show "decimal_parse [45, 49, 46, 45, 53] = Inr None" .
qed

end
