(* ===== verification/Spec2Isabelle.thy ===== *)
theory Spec2Isabelle
  imports Prelude Streams BinaryRW Hash Sha AesField Aes Cipher Utf8 XmlText XmlWriter XmlReader IpAddress Peers Murmur BaseX StringOps Convert Blob Bitset Merkle SipHash BigWords BigInt BigDiv BigAlgo Salsa Scrypt NeoSha FastKdf Ripemd Blake Decimal
begin

text \<open>
  A verification development for the C++ library \<open>el\<close> (namespace \<open>Ext\<close>), a portable framework of
  streams, serialisation, text, cryptography, XML and networking classes.  The theories below
  translate the parts of it that carry logic of their own into executable HOL functions and prove
  what makes each part correct; where the code does not do what it means to, the theorem says what
  it does, with a witness.

  \<^bold>\<open>The program's parts and how they are modelled.\<close>  (File names are relative to \<open>src/\<close>.)

  \<^item> \<open>Prelude\<close>: machine integers as words (\<open>u8\<close> to \<open>u64\<close>), the library's errors as the datatype of the
    sum type's left side (\<open>EndOfStream\<close>, \<open>FormatError\<close>, \<open>ArgumentError\<close> and so on, with \<open>Inl\<close> for a C++
    exception and \<open>Inr\<close> for a result), little- and big-endian conversions, list and word lemmas.
  \<^item> \<open>Streams\<close>: \<open>libext/ext-stream.cpp\<close>, \<open>libext/stream.h\<close> and the stream classes of \<open>libext/ext-core.h\<close>.
    Memory streams are records of the buffer and the position; \<open>BufferedStream\<close> is a record over any
    underlying stream, whose \<open>Read\<close> is an argument.  \<open>Stream::ReadExactly\<close> and \<open>CopyTo\<close> are written once
    over an arbitrary \<open>Read\<close>.
  \<^item> \<open>BinaryRW\<close>: \<open>libext/binary-reader-writer.{h,cpp}\<close>: varints, sizes, fixed-width integers, blobs and
    containers, and \<open>BitReader\<close>, over any stream.
  \<^item> \<open>Hash\<close>: \<open>HashAlgorithm::ComputeHash\<close> of \<open>libext/ext-fw.{h,cpp}\<close> with its virtual functions as
    record fields, HMAC (\<open>crypto/util.h\<close>), PBKDF2 (\<open>crypto/pbkdf.cpp\<close>) and CRC-32.  The driver reads
    its input from a stream, so it sits on the interface of \<open>Streams\<close>.
  \<^item> \<open>Sha\<close>: \<open>crypto/sha-1.cpp\<close>, \<open>sha256.cpp\<close>, \<open>sha512.cpp\<close>: the compression functions over their
    sixteen-word ring buffers, plugged into the driver of \<open>Hash\<close>.
  \<^item> \<open>AesField\<close>, \<open>Aes\<close>: \<open>crypto/aes.cpp\<close>, \<open>aes-imp.h\<close>: the generated tables, the key expansion and
    the rounds for 128-, 192- and 256-bit keys and 128- and 192-bit blocks.
  \<^item> \<open>Cipher\<close>: \<open>crypto/cipher.{h,cpp}\<close>: padding and the ECB, CBC, CFB and OFB modes over an arbitrary
    block cipher, instantiated by \<open>Aes\<close>.
  \<^item> \<open>Utf8\<close>: the UTF-8 and ASCII coders of \<open>libext/ext-encoding.cpp\<close>.
  \<^item> \<open>XmlText\<close>, \<open>XmlWriter\<close>, \<open>XmlReader\<close>: \<open>xml.h\<close>, \<open>xml/xml-writer.cpp\<close>, \<open>xml/xml-reader.cpp\<close>,
    \<open>xml/xml-node-reader.cpp\<close>: escaping, the writer with its stack of open elements, the reader's
    navigation over the virtual functions of a derived class, and the derived class that walks a
    document tree.  A document is a finite tree, a position in it a path of child indices.
  \<^item> \<open>IpAddress\<close>: \<open>IPAddress\<close> and \<open>IPEndPoint\<close> of \<open>libext/ext-ip-address.cpp\<close> and \<open>libext/ext-net.h\<close>, with
    the union of the two address forms as a record of bytes.
  \<^item> \<open>Peers\<close>: the peer manager of \<open>inet/p2p-peers.{h,cpp}\<close>: peers are objects in a store, the buckets,
    the index by address and the vector of known peers hold pointers into it, so that aliasing
    is visible.  Its operations are composed into a step relation.
  \<^item> \<open>Blob\<close>: \<open>CStringBlobBuf\<close> and \<open>Blob\<close> of \<open>libext/blob.{h,cpp}\<close>: reference-counted buffers in a heap
    that objects share until one of them writes.  Commands on objects are run from the empty heap
    (\<open>blob_reach\<close>) and compared with variables that hold byte strings of their own.
  \<^item> \<open>Bitset\<close>: \<open>stl/dynamic_bitset\<close> and the Bloom filter of \<open>crypto/bloom-filter.{h,cpp}\<close>: a bit set
    is a record of its blocks (words of any width) and its size.
  \<^item> \<open>Merkle\<close>: Merkle trees, branches and partial trees of \<open>crypto/hash.h\<close>, \<open>crypto/merkle-tree.cpp\<close>; the
    functors that hash an item and combine two hashes are arguments.
  \<^item> \<open>SipHash\<close>: \<open>crypto/siphash.cpp\<close>, over any stream.
  \<^item> \<open>BigWords\<close>: the 64-bit kernel \<open>bignum/x86x64/bignum-x86x64.asm\<close> that big integers call: one
    definition per instruction whose flags matter (\<open>adc\<close>, \<open>sbb\<close>, \<open>shld\<close>, \<open>div\<close> with its fault), one per routine.
  \<^item> \<open>BigInt\<close>, \<open>BigDiv\<close>, \<open>BigAlgo\<close>: \<open>BigInteger\<close> of \<open>bignum.h\<close>, \<open>libext/bignum.cpp\<close> with \<open>UCFG_BIGNUM=='A'\<close>:
    two's complement words in least form; Knuth's algorithm D; and, over the operations as an
    interface, text conversion, square root and power.
  \<^item> \<open>Decimal\<close>: \<open>stl/decimal.cpp\<close>, decimal floating point: conversion from \<open>double\<close> over the interface of
    big integers, arithmetic, comparison and text.  A \<open>double\<close> is what \<open>fpclassify\<close> and \<open>frexp\<close> see of it.
  \<^item> \<open>Salsa\<close>, \<open>Scrypt\<close>: the Salsa20 and ChaCha20 cores of \<open>crypto/salsa20.cpp\<close>; the mixing of blocks in
    scratch memory and the key derivation of \<open>crypto/scrypt.cpp\<close>, over an arbitrary core and over the
    shipped ones.  Scratch memory starts with arbitrary words.
  \<^item> \<open>NeoSha\<close>: \<open>crypto/neoscrypt.cpp\<close>'s incremental SHA-256, HMAC and PBKDF2, a second
    implementation whose hash states take their message in pieces.
  \<^item> \<open>FastKdf\<close>: BLAKE2s, FastKDF and the NeoScrypt engine of the same file, over the mixing of \<open>Scrypt\<close>;
    the memory a run finds is a record with arbitrary contents.
  \<^item> \<open>Ripemd\<close>, \<open>Blake\<close>: \<open>crypto/ripemd.cpp\<close> and \<open>crypto/blake.cpp\<close>, two more classes for the driver of \<open>Hash\<close>;
    BLAKE uses its counter and its \<open>IsHaifa\<close> padding.
  \<^item> \<open>Murmur\<close>: \<open>libext/murmurhash.cpp\<close>, with the address of the data modulo four as an argument.
  \<^item> \<open>BaseX\<close>: Base64 and Base32 of \<open>libext/ext-fw.cpp\<close>.
  \<^item> \<open>StringOps\<close>: the functions on zero-terminated strings of \<open>libext/ext-str.h\<close> and the operations of
    \<open>String\<close> in \<open>libext/ext-string.cpp\<close>.
  \<^item> \<open>Convert\<close>: number printing and parsing, the byte search and the line reader and writer of
    \<open>libext/ext-core.{h,cpp}\<close>.

  \<^bold>\<open>How they interact.\<close>  A reader, a hash or a buffered stream calls \<open>Read\<close> of a stream; a cipher mode
  calls the block function of a cipher; the XML reader's navigation calls the virtual \<open>Read\<close> of its
  derived class.  Each of these is a locale, its \<open>assumes\<close> the laws the client relies on, and each
  is interpreted on the model's own definitions:

  \<^item> \<open>stream\<close> (\<open>Streams\<close>): a state, its remaining content and an invariant; \<open>Read\<close> delivers a
    prefix.  Interpreted by \<open>CMemReadStream\<close> and by \<open>BufferedStream\<close> over it.
  \<^item> \<open>full_stream\<close> (\<open>Hash\<close>) extends it: a read is short only at the end, which \<open>ComputeHash\<close> needs.
  \<^item> \<open>codec\<close> (\<open>BinaryRW\<close>) extends it by a writer and a reader of one type that invert each other, from
    which the round trips of vectors, pairs and maps follow; interpreted by the varint coder.
  \<^item> \<open>ring_schedule\<close> (\<open>Sha\<close>): a ring of sixteen words computes the message schedule's recurrence;
    interpreted by the schedules of SHA-1 and of the SHA-2 family.
  \<^item> \<open>round_cipher\<close> (\<open>Aes\<close>): rounds that are inverted by inverse rounds in reverse order.
  \<^item> \<open>block_cipher\<close> (\<open>Cipher\<close>): block decryption inverts block encryption; interpreted by AES, and
    the modes' round trips are proved once inside it.
  \<^item> \<open>bit_store\<close> (\<open>Bitset\<close>): bits that can be set and tested; interpreted by \<open>dynamic_bitset\<close> of bytes, and
    the Bloom filter's answers rest on it.
  \<^item> \<open>bignum\<close> (\<open>BigAlgo\<close>): operations that compute with integers; interpreted by \<open>BigInteger\<close>, and the
    text round trip and Newton's square root are proved inside it.  \<open>bignum64\<close> (\<open>Decimal\<close>) extends it by
    the construction from 64 bits and exact lengths; the conversion of \<open>double\<close> is proved inside it.
  \<^item> \<open>mixing_core\<close> (\<open>Scrypt\<close>): a core that returns a block of sixteen words; interpreted by
    \<open>Salsa20Core\<close> and \<open>ChaCha20Core\<close>, and the memory-hard mixing is proved once inside it.
  \<^item> \<open>event_reader\<close> (\<open>XmlReader\<close>): \<open>Read\<close> steps through a list of events; interpreted by the node reader.

  \<^bold>\<open>What the lemmas show.\<close>

  \<^item> Equivalence with the standards: the SHA functions, RIPEMD-160, HMAC, PBKDF2 and AES equal definitions
    written from FIPS 180-4, RFC 2104, RFC 2898 and FIPS 197; the table-driven CRC equals the
    bitwise one; the table product is the product of GF(2^8); the word-aligned Murmur hash equals
    the plain one at every alignment; SipHash equals the function of its authors' paper; the
    driver's BLAKE is the submission's outside the lengths where its padding goes wrong, which are proved too; the
    key derivation of \<open>Scrypt\<close> is that of RFC 7914, in every size of block; the incremental hash of
    \<open>NeoSha\<close> is SHA-256 however its message is cut; the
    buffers of FastKDF with their mirrored tails are rings over RFC 7693's BLAKE2s; the
    division of big integers, digit by digit with estimates and corrections, equals that of the
    integers.
  \<^item> Round trips: decryption of encryption for each key size and mode, serialisation of integers,
    blobs, containers, addresses, Base64, Base32, UTF-8, partial Merkle trees, printed numbers, big integers in every base, XML
    escaping, and splitting of joined strings.
  \<^item> Refinement: a buffered stream is transparent, the buffering hash driver hashes exactly the
    padded blocks, the node reader's state machine yields the document-order traversal, the shared
    buffers of \<open>Blob\<close> behave like values of their own, bit sets behave like lists of bits, the
    operations of \<open>BigInteger\<close> compute with integers of any size.
  \<^item> Numbers: the decimal made from a \<open>double\<close> reads back as that number and is the shortest that does;
    decimals compare by value, and multiply within a unit of the last place.
  \<^item> Safety against forged input: a Merkle branch or a partial tree that leads to the root shows
    items of the tree, or a collision of the hash.
  \<^item> Invariants of state machines: the XML writer (\<open>xw_reachable\<close>) and the peer manager
    (\<open>pm_reachable\<close>) by induction over their step relations.
  \<^item> Termination and liveness: \<open>CopyTo\<close> ends; Newton's square root and the conversion of \<open>double\<close> end; the writer's \<open>Close\<close> returns from every reachable state;
    the reader's \<open>ReadToNextSibling\<close> need not end, which is proved too.
  \<^item> Errors and bounds: the exceptions of each reader, the padding check, the strict decoder, the
    buffer sizes of \<open>ReadBlob\<close> and \<open>Replace\<close>.

  \<^bold>\<open>Fuel and bounds.\<close>  Loops are structural recursions or functions with a measure where the code's
  loop visibly ends.  A loop whose end depends on something it is given (a stream that is read until
  it ends, a cipher, a derived class of \<open>XmlReader\<close>) is a \<open>partial_function\<close> in the option monad, where
  \<open>None\<close> is a run that does not return; the theorems show \<open>Some\<close> for them, so they are total claims
  (\<open>CopyTo\<close>, \<open>ComputeHash\<close>, \<open>Encrypt\<close>, \<open>Decrypt\<close>, \<open>ReadBlob\<close>, \<open>Replace\<close>, \<open>Skip\<close>, \<open>Close\<close>, \<open>sqrt\<close>).  The character reader
  of \<open>Convert\<close> is fuelled by turns, and more turns than bytes left are enough.  Sizes and offsets of
  type \<open>size_t\<close> are natural numbers where the code cannot overflow them and 64-bit words where it
  computes with them; the model is of a little-endian machine with 64-bit pointers and Linux's
  values for the address families.  Big integers follow the Windows build, where \<open>BASEWORD_MIN\<close> is
  \<open>LLONG_MIN\<close> and \<open>long\<close> has 32 bits, and have fewer than \<open>2 ^ 31\<close> bits, so that the bit counts the code
  keeps in \<open>int\<close> do not overflow.

  \<^bold>\<open>Not modelled.\<close>  Calls of external libraries and of the platform (OpenSSL, libxml2, SQLite, OpenCL,
  Win32, sockets, files, threads and locks), the GUI, the C runtime and STL replacements, and
  assembly versions of routines that also exist in C++; of the kernel for big integers, the
  routines that nothing calls any more and the 32-bit path.  Inside modelled files: the code that only
  forwards to those (\<open>inet_pton\<close>, \<open>inet_ntop\<close>, \<open>stoi\<close> and \<open>std::hash\<close> are parameters of the definitions that
  use them), random selection of peers by floating-point chances, the storage of
  \<open>String\<close>, text in locale-dependent case.
\<close>

end
